(* ===== verification/LK_Prelude.thy ===== *)
theory LK_Prelude
  imports Main "HOL-Library.Word" "HOL-Library.Monad_Syntax"
begin

text \<open>
  Shared vocabulary of the development: the machine types of the 64-bit build, the status codes of
  \<^verbatim>\<open>include/err.h\<close>, the alignment macros of \<^verbatim>\<open>lib/libc/include/stdlib.h\<close>, the power-of-two
  helpers of \<^verbatim>\<open>include/pow2.h\<close>, and the generic list, option and word lemmas the component
  theories rely on. A failed \<^verbatim>\<open>DEBUG_ASSERT\<close> or a call of \<^verbatim>\<open>panic\<close> is the value \<open>None\<close> of an
  option; \<open>dassert\<close> is the assertion.
\<close>

unbundle bit_operations_syntax

named_theorems lk_defs \<open>definitions a component proof unfolds\<close>
named_theorems lk_frame \<open>fields an operation leaves alone\<close>

section \<open>Machine types and status codes\<close>

type_synonym u8 = "8 word"
type_synonym u32 = "32 word"
type_synonym u64 = "64 word"
type_synonym status_t = int
type_synonym lk_time_t = u32

abbreviation (input) NO_ERROR :: status_t where "NO_ERROR \<equiv> 0"
abbreviation (input) ERR_GENERIC :: status_t where "ERR_GENERIC \<equiv> -1"
abbreviation (input) ERR_NOT_FOUND :: status_t where "ERR_NOT_FOUND \<equiv> -2"
abbreviation (input) ERR_NOT_READY :: status_t where "ERR_NOT_READY \<equiv> -3"
abbreviation (input) ERR_NO_MSG :: status_t where "ERR_NO_MSG \<equiv> -4"
abbreviation (input) ERR_NO_MEMORY :: status_t where "ERR_NO_MEMORY \<equiv> -5"
abbreviation (input) ERR_INVALID_ARGS :: status_t where "ERR_INVALID_ARGS \<equiv> -8"
abbreviation (input) ERR_NOT_ENOUGH_BUFFER :: status_t where "ERR_NOT_ENOUGH_BUFFER \<equiv> -9"
abbreviation (input) ERR_OBJECT_DESTROYED :: status_t where "ERR_OBJECT_DESTROYED \<equiv> -11"
abbreviation (input) ERR_NOT_BLOCKED :: status_t where "ERR_NOT_BLOCKED \<equiv> -12"
abbreviation (input) ERR_TIMED_OUT :: status_t where "ERR_TIMED_OUT \<equiv> -13"
abbreviation (input) ERR_ALREADY_EXISTS :: status_t where "ERR_ALREADY_EXISTS \<equiv> -14"
abbreviation (input) ERR_NOT_ALLOWED :: status_t where "ERR_NOT_ALLOWED \<equiv> -17"
abbreviation (input) ERR_IO :: status_t where "ERR_IO \<equiv> -20"
abbreviation (input) ERR_NOT_SUPPORTED :: status_t where "ERR_NOT_SUPPORTED \<equiv> -24"
abbreviation (input) ERR_TOO_BIG :: status_t where "ERR_TOO_BIG \<equiv> -25"
abbreviation (input) ERR_CANCELLED :: status_t where "ERR_CANCELLED \<equiv> -26"
abbreviation (input) ERR_BUSY :: status_t where "ERR_BUSY \<equiv> -33"
abbreviation (input) ERR_THREAD_DETACHED :: status_t where "ERR_THREAD_DETACHED \<equiv> -34"
abbreviation (input) ERR_OUT_OF_RANGE :: status_t where "ERR_OUT_OF_RANGE \<equiv> -37"
abbreviation (input) ERR_BAD_HANDLE :: status_t where "ERR_BAD_HANDLE \<equiv> -42"
abbreviation (input) ERR_PARTIAL_WRITE :: status_t where "ERR_PARTIAL_WRITE \<equiv> -44"

abbreviation (input) INFINITE_TIME :: lk_time_t where "INFINITE_TIME \<equiv> 0xFFFFFFFF"

datatype handler_return = INT_NO_RESCHEDULE | INT_RESCHEDULE

text \<open>The wrap-around time comparisons of \<^verbatim>\<open>include/sys/types.h\<close>.\<close>

definition TIME_GT :: "lk_time_t \<Rightarrow> lk_time_t \<Rightarrow> bool" where
  "TIME_GT a b \<longleftrightarrow> sint (a - b) > 0"

definition TIME_LT :: "lk_time_t \<Rightarrow> lk_time_t \<Rightarrow> bool" where
  "TIME_LT a b \<longleftrightarrow> sint (a - b) < 0"

section \<open>Assertions\<close>

definition dassert :: "bool \<Rightarrow> unit option" where
  "dassert b = (if b then Some () else None)"

lemma dassert_bind [simp]:
  "Option.bind (dassert b) f = (if b then f () else None)"
  by (simp add: dassert_def)

lemma dassert_True [simp]: "dassert True = Some ()"
  by (simp add: dassert_def)

section \<open>Alignment and powers of two\<close>

definition PAGE_SIZE_SHIFT :: nat where "PAGE_SIZE_SHIFT = 12"
definition PAGE_SIZE :: u64 where "PAGE_SIZE = 4096"

definition ROUNDUP :: "'a::len word \<Rightarrow> 'a word \<Rightarrow> 'a word" where
  "ROUNDUP a b = (a + (b - 1)) AND NOT (b - 1)"

definition ROUNDDOWN :: "'a::len word \<Rightarrow> 'a word \<Rightarrow> 'a word" where
  "ROUNDDOWN a b = a AND NOT (b - 1)"

definition IS_ALIGNED :: "'a::len word \<Rightarrow> 'a word \<Rightarrow> bool" where
  "IS_ALIGNED a b \<longleftrightarrow> a AND (b - 1) = 0"

definition clz32 :: "u32 \<Rightarrow> nat" where
  "clz32 w = length (takeWhile (\<lambda>i. \<not> bit w i) (rev [0..<32]))"

definition ispow2 :: "u32 \<Rightarrow> bool" where
  "ispow2 val \<longleftrightarrow> (val - 1) AND val = 0"

definition log2_uint :: "u32 \<Rightarrow> u32" where
  "log2_uint val = (if val = 0 then 0 else of_nat (32 - 1 - clz32 val))"

definition valpow2 :: "u32 \<Rightarrow> u32" where
  "valpow2 valp2 = push_bit (unat valp2) 1"

definition divpow2 :: "u32 \<Rightarrow> u32 \<Rightarrow> u32" where
  "divpow2 val divp2 = drop_bit (unat divp2) val"

definition modpow2 :: "u32 \<Rightarrow> u32 \<Rightarrow> u32" where
  "modpow2 val modp2 = ucast ((ucast val :: u64) AND (push_bit (unat modp2) 1 - 1))"

definition round_up_pow2_u32 :: "u32 \<Rightarrow> u32" where
  "round_up_pow2_u32 v0 =
     (let v = v0 - 1;
          v = v OR drop_bit 1 v;
          v = v OR drop_bit 2 v;
          v = v OR drop_bit 4 v;
          v = v OR drop_bit 8 v;
          v = v OR drop_bit 16 v
      in v + 1)"

lemma mask_eq_push_bit: "push_bit n 1 - 1 = (mask n :: 'a::len word)"
  by (simp add: mask_eq_exp_minus_1 push_bit_eq_mult)

lemma modpow2_take_bit: "modpow2 v m = take_bit (unat m) v"
  unfolding modpow2_def mask_eq_push_bit
  by (rule bit_eqI) (auto simp: bit_simps)

lemma unat_modpow2: "unat (modpow2 v m) = unat v mod 2 ^ unat m"
  unfolding modpow2_take_bit unsigned_take_bit_eq by (rule take_bit_eq_mod)

lemma unat_push_bit_1_u32: "n < 32 \<Longrightarrow> unat (push_bit n (1 :: u32)) = 2 ^ n"
  using power_strict_increasing [of n 32 "2::nat"]
  unfolding unsigned_push_bit_eq by (simp add: push_bit_eq_mult take_bit_eq_mod)

lemma unat_valpow2: "unat m < 32 \<Longrightarrow> unat (valpow2 m) = 2 ^ unat m"
  unfolding valpow2_def by (rule unat_push_bit_1_u32)

lemma unat_divpow2: "unat (divpow2 v m) = unat v div 2 ^ unat m"
  unfolding divpow2_def unat_drop_bit_eq by (simp add: drop_bit_eq_div)

lemma unat_u32_less: "unat (w :: u32) < 2 ^ 32"
  using unsigned_less [where w = w] by simp

lemma unat_u64_less: "unat (w :: u64) < 2 ^ 64"
  using unsigned_less [where w = w] by simp

text \<open>What the compiler builtin delivers: the position of the highest set bit.\<close>

lemma takeWhile_rev_upt_highest:
  assumes "\<exists>i<n. P i"
  shows "\<exists>k<n. P k \<and> (\<forall>j. k < j \<and> j < n \<longrightarrow> \<not> P j) \<and>
           n - 1 - length (takeWhile (\<lambda>i. \<not> P i) (rev [0..<n])) = k"
  using assms
proof (induction n)
  case 0
  then show ?case by simp
next
  case (Suc n)
  show ?case
  proof (cases "P n")
    case True
    show ?thesis
    proof (intro exI conjI)
      show "n < Suc n" "P n" by (simp_all add: True)
      show "\<forall>j. n < j \<and> j < Suc n \<longrightarrow> \<not> P j" by auto
      show "Suc n - 1 - length (takeWhile (\<lambda>i. \<not> P i) (rev [0..<Suc n])) = n"
        by (simp add: True)
    qed
  next
    case False
    with Suc.prems have "\<exists>i<n. P i" by (metis less_Suc_eq)
    then obtain k where k: "k < n" "P k" "\<forall>j. k < j \<and> j < n \<longrightarrow> \<not> P j"
        and e: "n - 1 - length (takeWhile (\<lambda>i. \<not> P i) (rev [0..<n])) = k"
      using Suc.IH by blast
    show ?thesis
    proof (intro exI conjI)
      show "k < Suc n" "P k" using k by simp_all
      show "\<forall>j. k < j \<and> j < Suc n \<longrightarrow> \<not> P j" using k(3) False less_Suc_eq by metis
      show "Suc n - 1 - length (takeWhile (\<lambda>i. \<not> P i) (rev [0..<Suc n])) = k"
        using e by (simp add: False)
    qed
  qed
qed

lemma bit_imp_neq_0: "bit w k \<Longrightarrow> w \<noteq> (0 :: 'a::len word)"
  by auto

lemma word_neq_0_bit: "(w :: u32) \<noteq> 0 \<Longrightarrow> \<exists>i<32. bit w i"
proof (rule ccontr)
  assume "w \<noteq> 0" and "\<not> (\<exists>i<32. bit w i)"
  then have "w = 0" by (intro bit_eqI) auto
  with \<open>w \<noteq> 0\<close> show False by simp
qed

lemma clz32_highest:
  assumes "w \<noteq> 0"
  shows "32 - 1 - clz32 w < 32 \<and> bit w (32 - 1 - clz32 w) \<and>
           (\<forall>j. 32 - 1 - clz32 w < j \<and> j < 32 \<longrightarrow> \<not> bit w j)"
proof -
  obtain k where "k < 32" "bit w k" "\<forall>j. k < j \<and> j < 32 \<longrightarrow> \<not> bit w j" "32 - 1 - clz32 w = k"
    using takeWhile_rev_upt_highest [OF word_neq_0_bit [OF assms]] unfolding clz32_def by blast
  then show ?thesis by metis
qed

lemma clz32_unique:
  assumes "bit w k" and "k < 32" and "\<And>j. k < j \<Longrightarrow> j < 32 \<Longrightarrow> \<not> bit w j"
  shows "32 - 1 - clz32 (w :: u32) = k"
proof -
  from assms(1) have "w \<noteq> 0" by auto
  from clz32_highest [OF this] assms show ?thesis by (metis linorder_neqE_nat)
qed

lemma log2_uint_pow2:
  assumes "k < 32"
  shows "log2_uint (push_bit k 1) = of_nat k"
proof -
  have b: "bit (push_bit k 1 :: u32) k"
    unfolding bit_push_bit_iff using assms by simp
  then have "push_bit k 1 \<noteq> (0 :: u32)" by (rule bit_imp_neq_0)
  moreover have "32 - 1 - clz32 (push_bit k 1) = k"
    by (rule clz32_unique [OF b assms]) (auto simp only: bit_push_bit_iff bit_1_iff)
  ultimately show ?thesis by (simp add: log2_uint_def)
qed

text \<open>Rounding: on a power of two both macros land on a multiple, as long as nothing wraps.\<close>

lemma ROUNDDOWN_take_bit: "ROUNDDOWN a (push_bit n 1) = a - take_bit n a"
proof -
  have z: "NOT a AND (a AND mask n) = 0"
    by (rule bit_eqI) (auto simp: bit_simps)
  have "a AND NOT (mask n) = a AND NOT (a AND mask n)"
    by (rule bit_eqI) (auto simp: bit_simps)
  also have "\<dots> = a - (a AND mask n)"
    using disjunctive_diff_eq_and_not [OF z] by simp
  finally show ?thesis
    unfolding ROUNDDOWN_def mask_eq_push_bit by (simp add: take_bit_eq_mask)
qed

lemma unat_ROUNDDOWN: "unat (ROUNDDOWN a (push_bit n 1)) = unat a - unat a mod 2 ^ n"
proof -
  have le: "take_bit n a \<le> a"
    unfolding word_le_nat_alt unsigned_take_bit_eq by (simp add: take_bit_eq_mod)
  then show ?thesis
    unfolding ROUNDDOWN_take_bit unat_sub [OF le] unsigned_take_bit_eq
    by (simp add: take_bit_eq_mod)
qed

lemma unat_PAGE_SIZE [simp]: "unat PAGE_SIZE = 4096"
  by (simp add: PAGE_SIZE_def)

lemma unat_push_bit_1_u64: "n < 64 \<Longrightarrow> unat (push_bit n (1 :: u64)) = 2 ^ n"
  using power_strict_increasing [of n 64 "2::nat"]
  unfolding unsigned_push_bit_eq by (simp add: push_bit_eq_mult take_bit_eq_mod)

lemma unat_pow2_minus_1: "n < 64 \<Longrightarrow> unat (push_bit n (1 :: u64) - 1) = 2 ^ n - 1"
proof -
  assume n: "n < 64"
  have "(1 :: u64) \<le> push_bit n 1" unfolding word_le_nat_alt unat_push_bit_1_u64 [OF n] by simp
  from unat_sub [OF this] show ?thesis unfolding unat_push_bit_1_u64 [OF n] by simp
qed

lemma ROUNDUP_ROUNDDOWN: "ROUNDUP a b = ROUNDDOWN (a + (b - 1)) b"
  by (simp add: ROUNDUP_def ROUNDDOWN_def)

lemma unat_ROUNDUP:
  fixes a :: u64
  assumes n: "n < 64" and w: "unat a + (2 ^ n - 1) < 2 ^ 64"
  shows "unat (ROUNDUP a (push_bit n 1)) = (unat a + (2 ^ n - 1)) div 2 ^ n * 2 ^ n"
proof -
  have "unat (a + (push_bit n 1 - 1)) = (unat a + unat (push_bit n (1 :: u64) - 1)) mod 2 ^ 64"
    unfolding unat_word_ariths by simp
  also have "\<dots> = unat a + (2 ^ n - 1)" unfolding unat_pow2_minus_1 [OF n] using w by (rule mod_less)
  finally have s: "unat (a + (push_bit n 1 - 1)) = unat a + (2 ^ n - 1)" .
  show ?thesis unfolding ROUNDUP_ROUNDDOWN unat_ROUNDDOWN s by (rule minus_mod_eq_div_mult)
qed

lemma ROUNDUP_wraps:
  fixes a :: u64
  assumes n: "n < 64" and w: "\<not> unat a + (2 ^ n - 1) < 2 ^ 64"
  shows "ROUNDUP a (push_bit n 1) = 0"
proof -
  let ?x = "unat a + (2 ^ n - 1)"
  have pn: "(2::nat) ^ n < 2 ^ 64" using n by (intro power_strict_increasing) simp_all
  have "unat (a + (push_bit n 1 - 1)) = (unat a + unat (push_bit n (1 :: u64) - 1)) mod 2 ^ 64"
    unfolding unat_word_ariths by simp
  also have "\<dots> = ?x mod 2 ^ 64" unfolding unat_pow2_minus_1 [OF n] ..
  also have "\<dots> = ?x - 2 ^ 64" using w pn unat_u64_less [of a] by (simp add: mod_if)
  finally have s: "unat (a + (push_bit n 1 - 1)) = ?x - 2 ^ 64" .
  have "x + (p - 1) - m < p" if "x < m" "0 < p" for x p m :: nat using that by arith
  from this [OF unat_u64_less [of a], of "2 ^ n"] have "?x - 2 ^ 64 < 2 ^ n" by simp
  then have "unat (ROUNDUP a (push_bit n 1)) = 0" unfolding ROUNDUP_ROUNDDOWN unat_ROUNDDOWN s by simp
  then show ?thesis by (simp add: unat_eq_0)
qed

lemma unat_last:
  fixes b z :: u64
  assumes "0 < unat z" and "unat b + unat z \<le> 2 ^ 64"
  shows "unat (b + z - 1) = unat b + unat z - 1"
proof -
  have e: "b + z - 1 = b + (z - 1)" by simp
  have u: "unat (z - 1) = unat z - 1" using assms(1) by (intro unat_minus_one) auto
  show ?thesis unfolding e unat_word_ariths(1) u using assms by simp
qed

lemma round_up_nat:
  fixes x b :: nat
  assumes "0 < b"
  shows "x \<le> (x + (b - 1)) div b * b" "(x + (b - 1)) div b * b < x + b" "b dvd m \<Longrightarrow> x \<le> m \<Longrightarrow> (x + (b - 1)) div b * b \<le> m"
proof -
  let ?y = "x + (b - 1)"
  have m: "?y mod b < b" using assms by simp
  have d: "?y div b * b + ?y mod b = ?y" by (rule div_mult_mod_eq)
  show "x \<le> ?y div b * b" using m d assms by linarith
  show "?y div b * b < x + b" using d assms by linarith
  assume dv: "b dvd m" and le: "x \<le> m"
  from dv obtain q where q: "m = q * b" by (metis dvd_def mult.commute)
  have "?y < (q + 1) * b" using le assms unfolding q by (simp add: algebra_simps)
  then have "?y div b < q + 1" by (simp add: less_mult_imp_div_less)
  then have "?y div b \<le> q" by simp
  then show "?y div b * b \<le> m" unfolding q by (rule mult_le_mono1)
qed

lemma dvd_less_add:
  fixes x y b :: nat
  assumes "b dvd x" and "x < y" and "b dvd y"
  shows "x + b \<le> y"
proof -
  obtain p q where e: "x = b * p" "y = b * q" using assms(1,3) by (elim dvdE)
  then have "b * p < b * q" using assms(2) by simp
  then have "p + 1 \<le> q" by simp
  then have "b * (p + 1) \<le> b * q" by (rule mult_le_mono2)
  then show ?thesis by (simp add: e)
qed

section \<open>Lists\<close>

lemma remove1_distinct_set: "distinct xs \<Longrightarrow> set (remove1 x xs) = set xs - {x}"
  by (rule set_remove1_eq)

end
