(* ===== verification/LK_List.thy ===== *)
theory LK_List
  imports LK_Prelude
begin

text \<open>
  The intrusive doubly linked list of \<^verbatim>\<open>include/list.h\<close>. A node is an address, the heap holds the
  \<open>prev\<close> and \<open>next\<close> field of every node and address 0 is \<^verbatim>\<open>NULL\<close>. Each inline function is translated
  store by store. The predicate \<open>is_list h l xs\<close> says that the list head \<open>l\<close> links exactly the nodes
  \<open>xs\<close>, in order, in a ring; the lemmas show that every operation acts on \<open>xs\<close> as the obvious list
  function does. The locale \<open>node_queue\<close> states that contract; its interpretation on the heap
  operations is what lets the other theories use HOL lists for the kernel's queues.
\<close>

type_synonym addr = nat

abbreviation (input) NULL :: addr where "NULL \<equiv> 0"

record list_heap =
  prv :: "addr \<Rightarrow> addr"
  nxt :: "addr \<Rightarrow> addr"

section \<open>The operations\<close>

definition list_initialize :: "addr \<Rightarrow> list_heap \<Rightarrow> list_heap" where
  "list_initialize list h = h\<lparr>prv := (prv h)(list := list), nxt := (nxt h)(list := list)\<rparr>"

definition list_clear_node :: "addr \<Rightarrow> list_heap \<Rightarrow> list_heap" where
  "list_clear_node item h = h\<lparr>prv := (prv h)(item := NULL), nxt := (nxt h)(item := NULL)\<rparr>"

definition list_in_list :: "addr \<Rightarrow> list_heap \<Rightarrow> bool" where
  "list_in_list item h = (if prv h item = NULL \<and> nxt h item = NULL then False else True)"

definition list_add_head :: "addr \<Rightarrow> addr \<Rightarrow> list_heap \<Rightarrow> list_heap" where
  "list_add_head list item h =
     (let h = h\<lparr>nxt := (nxt h)(item := nxt h list)\<rparr>;
          h = h\<lparr>prv := (prv h)(item := list)\<rparr>;
          h = h\<lparr>prv := (prv h)(nxt h list := item)\<rparr>
      in h\<lparr>nxt := (nxt h)(list := item)\<rparr>)"

definition list_add_tail :: "addr \<Rightarrow> addr \<Rightarrow> list_heap \<Rightarrow> list_heap" where
  "list_add_tail list item h =
     (let h = h\<lparr>prv := (prv h)(item := prv h list)\<rparr>;
          h = h\<lparr>nxt := (nxt h)(item := list)\<rparr>;
          h = h\<lparr>nxt := (nxt h)(prv h list := item)\<rparr>
      in h\<lparr>prv := (prv h)(list := item)\<rparr>)"

definition list_delete :: "addr \<Rightarrow> list_heap \<Rightarrow> list_heap" where
  "list_delete item h =
     (let h = h\<lparr>prv := (prv h)(nxt h item := prv h item)\<rparr>;
          h = h\<lparr>nxt := (nxt h)(prv h item := nxt h item)\<rparr>
      in h\<lparr>prv := (prv h)(item := NULL), nxt := (nxt h)(item := NULL)\<rparr>)"

definition list_remove_head :: "addr \<Rightarrow> list_heap \<Rightarrow> addr \<times> list_heap" where
  "list_remove_head list h =
     (if nxt h list \<noteq> list then (let item = nxt h list in (item, list_delete item h))
      else (NULL, h))"

definition list_remove_tail :: "addr \<Rightarrow> list_heap \<Rightarrow> addr \<times> list_heap" where
  "list_remove_tail list h =
     (if prv h list \<noteq> list then (let item = prv h list in (item, list_delete item h))
      else (NULL, h))"

definition list_peek_head :: "addr \<Rightarrow> list_heap \<Rightarrow> addr" where
  "list_peek_head list h = (if nxt h list \<noteq> list then nxt h list else NULL)"

definition list_peek_tail :: "addr \<Rightarrow> list_heap \<Rightarrow> addr" where
  "list_peek_tail list h = (if prv h list \<noteq> list then prv h list else NULL)"

definition list_prev :: "addr \<Rightarrow> addr \<Rightarrow> list_heap \<Rightarrow> addr" where
  "list_prev list item h = (if prv h item \<noteq> list then prv h item else NULL)"

definition list_next :: "addr \<Rightarrow> addr \<Rightarrow> list_heap \<Rightarrow> addr" where
  "list_next list item h = (if nxt h item \<noteq> list then nxt h item else NULL)"

definition list_next_wrap :: "addr \<Rightarrow> addr \<Rightarrow> list_heap \<Rightarrow> addr" where
  "list_next_wrap list item h =
     (if nxt h item \<noteq> list then nxt h item
      else if nxt h (nxt h item) \<noteq> list then nxt h (nxt h item) else NULL)"

definition list_prev_wrap :: "addr \<Rightarrow> addr \<Rightarrow> list_heap \<Rightarrow> addr" where
  "list_prev_wrap list item h =
     (if prv h item \<noteq> list then prv h item
      else if prv h (prv h item) \<noteq> list then prv h (prv h item) else NULL)"

definition list_is_empty :: "addr \<Rightarrow> list_heap \<Rightarrow> bool" where
  "list_is_empty list h = (if nxt h list = list then True else False)"

text \<open>
  The loop of \<^verbatim>\<open>list_length\<close>, and of every \<^verbatim>\<open>list_for_every\<close>, follows \<open>next\<close> until it meets the
  head again; on a damaged ring it may not stop, so not stopping is \<open>None\<close>.
\<close>

partial_function (option) list_length_loop :: "addr \<Rightarrow> addr \<Rightarrow> nat \<Rightarrow> list_heap \<Rightarrow> nat option" where
  "list_length_loop list node cnt h =
     (if node \<noteq> list then list_length_loop list (nxt h node) (cnt + 1) h else Some cnt)"

definition list_length :: "addr \<Rightarrow> list_heap \<Rightarrow> nat option" where
  "list_length list h = list_length_loop list (nxt h list) 0 h"

section \<open>Rings represent lists\<close>

text \<open>\<open>dseg h a xs b\<close>: from node \<open>a\<close>, the nodes \<open>xs\<close> and then node \<open>b\<close> are linked both ways.\<close>

fun dseg :: "list_heap \<Rightarrow> addr \<Rightarrow> addr list \<Rightarrow> addr \<Rightarrow> bool" where
  "dseg h a [] b \<longleftrightarrow> nxt h a = b \<and> prv h b = a"
| "dseg h a (x # xs) b \<longleftrightarrow> nxt h a = x \<and> prv h x = a \<and> dseg h x xs b"

definition is_list :: "list_heap \<Rightarrow> addr \<Rightarrow> addr list \<Rightarrow> bool" where
  "is_list h l xs \<longleftrightarrow> distinct (l # xs) \<and> NULL \<notin> set (l # xs) \<and> dseg h l xs l"

lemma dseg_append: "dseg h a (xs @ y # ys) b \<longleftrightarrow> dseg h a xs y \<and> dseg h y ys b"
  by (induction xs arbitrary: a) auto

lemma dseg_nxt: "dseg h a xs b \<Longrightarrow> nxt h a = hd (xs @ [b])"
  by (cases xs) auto

lemma dseg_prv: "dseg h a xs b \<Longrightarrow> prv h b = last (a # xs)"
  by (induction xs arbitrary: a) auto

text \<open>Only the nodes of the segment matter.\<close>

lemma dseg_cong:
  assumes "\<And>y. y \<in> insert a (set xs) \<Longrightarrow> nxt h' y = nxt h y"
    and "\<And>y. y \<in> insert b (set xs) \<Longrightarrow> prv h' y = prv h y"
  shows "dseg h' a xs b \<longleftrightarrow> dseg h a xs b"
  using assms by (induction xs arbitrary: a) auto

lemma is_list_next_hd: "is_list h l xs \<Longrightarrow> nxt h l = hd (xs @ [l])"
  by (simp add: is_list_def dseg_nxt)

lemma is_list_prev_last: "is_list h l xs \<Longrightarrow> prv h l = last (l # xs)"
  unfolding is_list_def by (metis dseg_prv)

lemma is_list_initialize: "l \<noteq> NULL \<Longrightarrow> is_list (list_initialize l h) l []"
  by (simp add: is_list_def list_initialize_def)

lemma is_list_add_head:
  assumes "is_list h l xs" and "i \<noteq> NULL" and "i \<notin> set (l # xs)"
  shows "is_list (list_add_head l i h) l (i # xs)"
proof (cases xs)
  case Nil
  with assms show ?thesis by (auto simp: is_list_def list_add_head_def Let_def)
next
  case (Cons x ys)
  have "dseg (list_add_head l i h) x ys l \<longleftrightarrow> dseg h x ys l"
    using assms Cons by (intro dseg_cong) (auto simp: is_list_def list_add_head_def Let_def)
  with assms Cons show ?thesis by (auto simp: is_list_def list_add_head_def Let_def)
qed

lemma is_list_add_tail:
  assumes "is_list h l xs" and "i \<noteq> NULL" and "i \<notin> set (l # xs)"
  shows "is_list (list_add_tail l i h) l (xs @ [i])"
proof (cases xs rule: rev_cases)
  case Nil
  with assms show ?thesis by (auto simp: is_list_def list_add_tail_def Let_def)
next
  case (snoc ys y)
  from assms snoc have seg: "dseg h l ys y" and p: "prv h l = y"
    by (auto simp: is_list_def dseg_append)
  have "dseg (list_add_tail l i h) l ys y \<longleftrightarrow> dseg h l ys y"
    using assms snoc p by (intro dseg_cong) (auto simp: is_list_def list_add_tail_def Let_def)
  with assms snoc seg p show ?thesis
    by (auto simp: is_list_def list_add_tail_def Let_def dseg_append)
qed

lemma is_list_delete:
  assumes l: "is_list h l (ys @ i # zs)"
  shows "is_list (list_delete i h) l (ys @ zs)"
proof -
  let ?p = "last (l # ys)" and ?n = "hd (zs @ [l])" and ?h = "list_delete i h"
  from l have d: "distinct (l # ys @ i # zs)" and n0: "NULL \<notin> set (l # ys @ i # zs)"
    and s1: "dseg h l ys i" and s2: "dseg h i zs l"
    by (auto simp: is_list_def dseg_append)
  have nx: "nxt ?h = (nxt h)(?p := ?n, i := NULL)" and pr: "prv ?h = (prv h)(?n := ?p, i := NULL)"
  proof -
    have "i \<noteq> ?n" using d by (cases zs) auto
    with dseg_nxt [OF s2] dseg_prv [OF s1]
    show "nxt ?h = (nxt h)(?p := ?n, i := NULL)" "prv ?h = (prv h)(?n := ?p, i := NULL)"
      by (simp_all add: list_delete_def Let_def)
  qed
  have "dseg ?h l (ys @ zs) l"
  proof (cases ys rule: rev_cases)
    case Nil
    show ?thesis
    proof (cases zs)
      case (Cons z ws)
      have "dseg ?h z ws l \<longleftrightarrow> dseg h z ws l"
        using d Cons Nil by (intro dseg_cong) (auto simp: nx pr)
      with Nil Cons s2 d show ?thesis by (auto simp: nx pr)
    qed (use Nil d in \<open>auto simp: nx pr\<close>)
  next
    case (snoc us u)
    from s1 snoc have su: "dseg h l us u" by (simp add: dseg_append)
    have "dseg ?h l us u \<longleftrightarrow> dseg h l us u"
      using d snoc by (intro dseg_cong) (cases zs; auto simp: nx pr)+
    with su have A: "dseg ?h l us u" by simp
    have "dseg ?h u zs l"
    proof (cases zs)
      case (Cons z ws)
      have "dseg ?h z ws l \<longleftrightarrow> dseg h z ws l"
        using d Cons snoc by (intro dseg_cong) (auto simp: nx pr)
      with snoc Cons s2 d show ?thesis by (auto simp: nx pr)
    qed (use snoc d in \<open>auto simp: nx pr\<close>)
    with A snoc show ?thesis by (simp add: dseg_append)
  qed
  with d n0 show ?thesis by (auto simp: is_list_def)
qed

lemma list_delete_clears: "\<not> list_in_list i (list_delete i h)"
  by (simp add: list_in_list_def list_delete_def Let_def)

lemma is_list_in_list:
  assumes "is_list h l xs" and "x \<in> set (l # xs)"
  shows "list_in_list x h"
proof (cases "x = l")
  case True
  from is_list_next_hd [OF assms(1)] assms(1) have "nxt h l \<noteq> NULL"
    by (cases xs) (auto simp: is_list_def)
  with True show ?thesis by (simp add: list_in_list_def)
next
  case False
  with assms(2) obtain ys zs where "xs = ys @ x # zs" by (metis in_set_conv_decomp set_ConsD)
  with assms(1) have "dseg h x zs l" and "NULL \<notin> set (l # zs)"
    by (auto simp: is_list_def dseg_append)
  then have "nxt h x \<noteq> NULL" by (cases zs) auto
  then show ?thesis by (simp add: list_in_list_def)
qed

lemma list_remove_head_spec:
  assumes "is_list h l xs"
  shows "case xs of
      [] \<Rightarrow> list_remove_head l h = (NULL, h)
    | x # ys \<Rightarrow> fst (list_remove_head l h) = x \<and> is_list (snd (list_remove_head l h)) l ys
                \<and> \<not> list_in_list x (snd (list_remove_head l h))"
proof (cases xs)
  case Nil
  with assms show ?thesis by (simp add: list_remove_head_def is_list_def)
next
  case (Cons x ys)
  with assms have "nxt h l = x" "x \<noteq> l" by (auto simp: is_list_def)
  moreover have "is_list (list_delete x h) l ys"
    using is_list_delete [of h l "[]" x ys] assms Cons by simp
  ultimately show ?thesis using Cons by (simp add: list_remove_head_def list_delete_clears)
qed

lemma list_remove_tail_spec:
  assumes "is_list h l (ys @ [x])"
  shows "fst (list_remove_tail l h) = x \<and> is_list (snd (list_remove_tail l h)) l ys"
proof -
  from is_list_prev_last [OF assms] assms have "prv h l = x" "x \<noteq> l" by (auto simp: is_list_def)
  moreover have "is_list (list_delete x h) l ys"
    using is_list_delete [of h l ys x "[]"] assms by simp
  ultimately show ?thesis by (simp add: list_remove_tail_def)
qed

lemma list_is_empty_spec: "is_list h l xs \<Longrightarrow> list_is_empty l h \<longleftrightarrow> xs = []"
  by (cases xs) (auto simp: is_list_def list_is_empty_def)

lemma list_peek_head_spec: "is_list h l xs \<Longrightarrow> list_peek_head l h = (if xs = [] then NULL else hd xs)"
  by (cases xs) (auto simp: is_list_def list_peek_head_def)

lemma list_next_spec:
  "is_list h l (ys @ x # zs) \<Longrightarrow> list_next l x h = (if zs = [] then NULL else hd zs)"
  by (cases zs) (auto simp: is_list_def list_next_def dseg_append)

lemma list_prev_spec:
  assumes "is_list h l (ys @ x # zs)"
  shows "list_prev l x h = (if ys = [] then NULL else last ys)"
proof -
  from assms have "prv h x = last (l # ys)" by (auto simp: is_list_def dseg_append dest: dseg_prv)
  with assms show ?thesis by (cases ys rule: rev_cases) (auto simp: is_list_def list_prev_def)
qed

lemma list_length_loop_spec:
  "dseg h a xs l \<Longrightarrow> l \<notin> set xs \<Longrightarrow> list_length_loop l (nxt h a) n h = Some (n + length xs)"
proof (induction xs arbitrary: a n)
  case Nil
  then show ?case by (simp add: list_length_loop.simps)
next
  case (Cons x xs)
  then show ?case by (subst list_length_loop.simps) auto
qed

lemma list_length_spec: "is_list h l xs \<Longrightarrow> list_length l h = Some (length xs)"
  using list_length_loop_spec [of h l xs l 0] by (auto simp: list_length_def is_list_def)

text \<open>A list not involved in an operation is untouched.\<close>

lemma is_list_frame:
  assumes "is_list h m ms"
    and "\<And>y. y \<in> set (m # ms) \<Longrightarrow> nxt h' y = nxt h y \<and> prv h' y = prv h y"
  shows "is_list h' m ms"
  using assms dseg_cong [of m ms h' h m] by (simp add: is_list_def)

section \<open>The contract as an interface\<close>

text \<open>
  What a queue of nodes promises its clients: a representation predicate and five operations that
  act on the represented list. Threads, timers, pages and cache blocks are kept in such queues.
\<close>

locale node_queue =
  fixes repr :: "'h \<Rightarrow> 'q \<Rightarrow> 'n list \<Rightarrow> bool"
    and node_ok :: "'q \<Rightarrow> 'n list \<Rightarrow> 'n \<Rightarrow> bool"
    and init :: "'q \<Rightarrow> 'h \<Rightarrow> 'h"
    and push_front :: "'q \<Rightarrow> 'n \<Rightarrow> 'h \<Rightarrow> 'h"
    and push_back :: "'q \<Rightarrow> 'n \<Rightarrow> 'h \<Rightarrow> 'h"
    and unlink :: "'n \<Rightarrow> 'h \<Rightarrow> 'h"
    and front :: "'q \<Rightarrow> 'h \<Rightarrow> 'n"
    and queue_ok :: "'q \<Rightarrow> bool"
  assumes init_repr: "queue_ok q \<Longrightarrow> repr (init q h) q []"
    and push_front_repr: "repr h q xs \<Longrightarrow> node_ok q xs x \<Longrightarrow> repr (push_front q x h) q (x # xs)"
    and push_back_repr: "repr h q xs \<Longrightarrow> node_ok q xs x \<Longrightarrow> repr (push_back q x h) q (xs @ [x])"
    and unlink_repr: "repr h q (xs @ x # ys) \<Longrightarrow> repr (unlink x h) q (xs @ ys)"
    and front_repr: "repr h q (x # xs) \<Longrightarrow> front q h = x"
    and node_ok_snoc: "node_ok q (xs @ ys) x \<Longrightarrow> node_ok q xs x"
begin

fun push_all :: "'q \<Rightarrow> 'n list \<Rightarrow> 'h \<Rightarrow> 'h" where
  "push_all q [] h = h"
| "push_all q (x # xs) h = push_all q xs (push_back q x h)"

fun pop_all :: "'q \<Rightarrow> nat \<Rightarrow> 'h \<Rightarrow> 'n list" where
  "pop_all q 0 h = []"
| "pop_all q (Suc n) h = front q h # pop_all q n (unlink (front q h) h)"

fun pushable :: "'q \<Rightarrow> 'n list \<Rightarrow> 'n list \<Rightarrow> bool" where
  "pushable q acc [] \<longleftrightarrow> True"
| "pushable q acc (x # xs) \<longleftrightarrow> node_ok q acc x \<and> pushable q (acc @ [x]) xs"

lemma push_all_repr: "repr h q acc \<Longrightarrow> pushable q acc xs \<Longrightarrow> repr (push_all q xs h) q (acc @ xs)"
proof (induction xs arbitrary: h acc)
  case Nil
  then show ?case by simp
next
  case (Cons x xs)
  then have "repr (push_back q x h) q (acc @ [x])" by (simp add: push_back_repr)
  with Cons show ?case using Cons.IH [of "push_back q x h" "acc @ [x]"] by simp
qed

lemma pop_all_repr: "repr h q xs \<Longrightarrow> pop_all q (length xs) h = xs"
proof (induction xs arbitrary: h)
  case Nil
  then show ?case by simp
next
  case (Cons x xs)
  then have "front q h = x" by (simp add: front_repr)
  moreover have "repr (unlink x h) q xs" using unlink_repr [of h q "[]" x xs] Cons.prems by simp
  ultimately show ?case using Cons.IH by simp
qed

text \<open>First in, first out.\<close>

lemma fifo:
  assumes "queue_ok q" and "pushable q [] xs"
  shows "pop_all q (length xs) (push_all q xs (init q h)) = xs"
  using push_all_repr [OF init_repr [OF assms(1)] assms(2)] by (simp add: pop_all_repr)

end

definition fresh_node :: "addr \<Rightarrow> addr list \<Rightarrow> addr \<Rightarrow> bool" where
  "fresh_node l xs i \<longleftrightarrow> i \<noteq> NULL \<and> i \<notin> set (l # xs)"

interpretation lk_list: node_queue is_list fresh_node list_initialize list_add_head list_add_tail
    list_delete list_peek_head "\<lambda>l. l \<noteq> NULL"
proof unfold_locales
  fix h :: list_heap and q :: addr and xs x ys
  show "q \<noteq> NULL \<Longrightarrow> is_list (list_initialize q h) q []" by (rule is_list_initialize)
  show "is_list h q xs \<Longrightarrow> fresh_node q xs x \<Longrightarrow> is_list (list_add_head q x h) q (x # xs)"
    by (simp add: fresh_node_def is_list_add_head)
  show "is_list h q xs \<Longrightarrow> fresh_node q xs x \<Longrightarrow> is_list (list_add_tail q x h) q (xs @ [x])"
    by (simp add: fresh_node_def is_list_add_tail)
  show "is_list h q (xs @ x # ys) \<Longrightarrow> is_list (list_delete x h) q (xs @ ys)"
    by (rule is_list_delete)
  show "is_list h q (x # xs) \<Longrightarrow> list_peek_head q h = x" by (simp add: list_peek_head_spec)
  show "fresh_node q (xs @ ys) x \<Longrightarrow> fresh_node q xs x" by (simp add: fresh_node_def)
qed

end
