(* ===== verification/LK_Timer.thy ===== *)
theory LK_Timer
  imports LK_List "HOL-Library.Multiset"
begin

text \<open>
  The kernel timers of \<^verbatim>\<open>kernel/timer.c\<close> in the configuration \<^verbatim>\<open>PLATFORM_HAS_DYNAMIC_TIMER\<close>, which every
  board of the repository selects through \<^verbatim>\<open>dev/timer/arm_generic\<close>. A \<^verbatim>\<open>timer_t\<close> is named by the object it
  lives in: the preemption timer of a cpu, the timer on a blocked or sleeping thread's stack, or any
  other object. The queues are lists of names (see \<open>LK_List\<close>), \<open>current_time\<close> is what
  \<^verbatim>\<open>current_time()\<close> returns, and \<open>hw_timer\<close> is the delay last handed to \<^verbatim>\<open>platform_set_oneshot_timer\<close>
  on that cpu, or \<open>None\<close> after \<^verbatim>\<open>platform_stop_timer\<close>.
\<close>

type_synonym tid = nat
type_synonym cpu = nat

datatype timer_id = PreemptTimer cpu | ThreadTimer tid | UserTimer nat

datatype timer_callback =
    CbNone
  | CbThreadTimerTick
  | CbThreadSleep
  | CbWaitTimeout
  | CbUser nat

definition TIMER_MAGIC :: int where "TIMER_MAGIC = 0x74696D72"

record timer =
  tm_magic :: int
  scheduled_time :: lk_time_t
  periodic_time :: lk_time_t
  tm_callback :: timer_callback
  tm_arg :: nat

record thread_stats =
  idle_time :: u64
  last_idle_timestamp :: u64
  reschedules :: u64
  context_switches :: u64
  preempts :: u64
  yields :: u64
  timer_ints :: u64
  timers_fired :: u64
  reschedule_ipis :: u64

record timer_state =
  timers :: "timer_id \<Rightarrow> timer"
  timer_queue :: "cpu \<Rightarrow> timer_id list"
  current_time :: lk_time_t
  hw_timer :: "cpu \<Rightarrow> lk_time_t option"
  stats :: "cpu \<Rightarrow> thread_stats"

section \<open>The operations\<close>

definition TIMER_INITIAL_VALUE :: timer where
  "TIMER_INITIAL_VALUE =
     \<lparr>tm_magic = TIMER_MAGIC, scheduled_time = 0, periodic_time = 0, tm_callback = CbNone, tm_arg = 0\<rparr>"

definition timer_initialize :: "timer_id \<Rightarrow> 'a timer_state_scheme \<Rightarrow> 'a timer_state_scheme" where
  "timer_initialize tm s = s\<lparr>timers := (timers s)(tm := TIMER_INITIAL_VALUE)\<rparr>"

text \<open>\<^verbatim>\<open>list_in_list(&timer->node)\<close>: the node is linked into the queue of some cpu.\<close>

definition timer_linked :: "nat \<Rightarrow> timer_id \<Rightarrow> 'a timer_state_scheme \<Rightarrow> bool" where
  "timer_linked ncpus tm s \<longleftrightarrow> (\<exists>c \<in> {..<ncpus}. tm \<in> set (timer_queue s c))"

fun insert_by_time :: "(timer_id \<Rightarrow> timer) \<Rightarrow> timer_id \<Rightarrow> timer_id list \<Rightarrow> timer_id list" where
  "insert_by_time tms tm [] = [tm]"
| "insert_by_time tms tm (e # es) =
     (if TIME_GT (scheduled_time (tms e)) (scheduled_time (tms tm)) then tm # e # es
      else e # insert_by_time tms tm es)"

definition insert_timer_in_queue :: "cpu \<Rightarrow> timer_id \<Rightarrow> 'a timer_state_scheme \<Rightarrow> 'a timer_state_scheme" where
  "insert_timer_in_queue cpu tm s =
     s\<lparr>timer_queue := (timer_queue s)(cpu := insert_by_time (timers s) tm (timer_queue s cpu))\<rparr>"

definition list_peek_head_opt :: "'b list \<Rightarrow> 'b option" where
  "list_peek_head_opt xs = (case xs of [] \<Rightarrow> None | x # _ \<Rightarrow> Some x)"

definition platform_set_oneshot_timer :: "cpu \<Rightarrow> lk_time_t \<Rightarrow> 'a timer_state_scheme \<Rightarrow> 'a timer_state_scheme" where
  "platform_set_oneshot_timer cpu delay s = s\<lparr>hw_timer := (hw_timer s)(cpu := Some delay)\<rparr>"

definition platform_stop_timer :: "cpu \<Rightarrow> 'a timer_state_scheme \<Rightarrow> 'a timer_state_scheme" where
  "platform_stop_timer cpu s = s\<lparr>hw_timer := (hw_timer s)(cpu := None)\<rparr>"

definition timer_set ::
  "nat \<Rightarrow> cpu \<Rightarrow> timer_id \<Rightarrow> lk_time_t \<Rightarrow> lk_time_t \<Rightarrow> timer_callback \<Rightarrow> nat \<Rightarrow>
     'a timer_state_scheme \<Rightarrow> 'a timer_state_scheme option" where
  "timer_set ncpus cpu tm delay period cb arg s =
     do {
       dassert (tm_magic (timers s tm) = TIMER_MAGIC);
       dassert (\<not> timer_linked ncpus tm s); \<comment> \<open>panic: already in list\<close>
       let now = current_time s;
       let s = s\<lparr>timers := (timers s)(tm := (timers s tm)\<lparr>scheduled_time := now + delay,
                   periodic_time := period, tm_callback := cb, tm_arg := arg\<rparr>)\<rparr>;
       let s = insert_timer_in_queue cpu tm s;
       Some (if list_peek_head_opt (timer_queue s cpu) = Some tm
             then platform_set_oneshot_timer cpu delay s else s)
     }"

definition timer_set_oneshot ::
  "nat \<Rightarrow> cpu \<Rightarrow> timer_id \<Rightarrow> lk_time_t \<Rightarrow> timer_callback \<Rightarrow> nat \<Rightarrow>
     'a timer_state_scheme \<Rightarrow> 'a timer_state_scheme option" where
  "timer_set_oneshot ncpus cpu tm delay cb arg s =
     timer_set ncpus cpu tm (if delay = 0 then 1 else delay) 0 cb arg s"

definition timer_set_periodic ::
  "nat \<Rightarrow> cpu \<Rightarrow> timer_id \<Rightarrow> lk_time_t \<Rightarrow> timer_callback \<Rightarrow> nat \<Rightarrow>
     'a timer_state_scheme \<Rightarrow> 'a timer_state_scheme option" where
  "timer_set_periodic ncpus cpu tm period cb arg s =
     (let period = (if period = 0 then 1 else period)
      in timer_set ncpus cpu tm period period cb arg s)"

definition timer_cancel :: "cpu \<Rightarrow> timer_id \<Rightarrow> 'a timer_state_scheme \<Rightarrow> 'a timer_state_scheme option" where
  "timer_cancel cpu tm s =
     do {
       dassert (tm_magic (timers s tm) = TIMER_MAGIC);
       let oldhead = list_peek_head_opt (timer_queue s cpu);
       let s = s\<lparr>timer_queue := (\<lambda>c. remove1 tm (timer_queue s c))\<rparr>;
       let s = s\<lparr>timers := (timers s)(tm := (timers s tm)\<lparr>periodic_time := 0,
                   tm_callback := CbNone, tm_arg := 0\<rparr>)\<rparr>;
       Some (case list_peek_head_opt (timer_queue s cpu) of
           None \<Rightarrow> platform_stop_timer cpu s
         | Some newhead \<Rightarrow>
             (if Some newhead \<noteq> oldhead then
                (let now = current_time s; sched = scheduled_time (timers s newhead);
                     delay = (if TIME_LT sched now then 0 else sched - now)
                 in platform_set_oneshot_timer cpu delay s)
              else s))
     }"

text \<open>
  \<^verbatim>\<open>timer_tick\<close> runs the callback of every due timer; \<open>run\<close> stands for the indirect call
  \<^verbatim>\<open>timer->callback(timer, now, timer->arg)\<close>. A callback may queue timers again, so the loop has
  fuel: \<open>None\<close> when it is used up, and also when a callback panics.
\<close>

definition stats_upd :: "cpu \<Rightarrow> (thread_stats \<Rightarrow> thread_stats) \<Rightarrow> 'a timer_state_scheme \<Rightarrow> 'a timer_state_scheme" where
  "stats_upd cpu f s = s\<lparr>stats := (stats s)(cpu := f (stats s cpu))\<rparr>"

fun timer_tick_loop ::
  "(timer_id \<Rightarrow> lk_time_t \<Rightarrow> 'a timer_state_scheme \<Rightarrow> (handler_return \<times> 'a timer_state_scheme) option) \<Rightarrow>
     nat \<Rightarrow> nat \<Rightarrow> cpu \<Rightarrow> lk_time_t \<Rightarrow> handler_return \<Rightarrow> 'a timer_state_scheme \<Rightarrow>
     (handler_return \<times> 'a timer_state_scheme) option" where
  "timer_tick_loop run 0 ncpus cpu now ret s = None"
| "timer_tick_loop run (Suc fuel) ncpus cpu now ret s =
     (case timer_queue s cpu of
        [] \<Rightarrow> Some (ret, s)
      | tm # _ \<Rightarrow>
          if TIME_LT now (scheduled_time (timers s tm)) then Some (ret, s)
          else do {
            dassert (tm_magic (timers s tm) = TIMER_MAGIC);
            let s = s\<lparr>timer_queue := (\<lambda>c. remove1 tm (timer_queue s c))\<rparr>;
            let s = stats_upd cpu (\<lambda>st. st\<lparr>timers_fired := timers_fired st + 1\<rparr>) s;
            let periodic = (periodic_time (timers s tm) > 0);
            (r, s) \<leftarrow> run tm now s;
            let ret = (if r = INT_RESCHEDULE then INT_RESCHEDULE else ret);
            let s = (if periodic \<and> \<not> timer_linked ncpus tm s \<and> periodic_time (timers s tm) > 0
                     then insert_timer_in_queue cpu tm
                            (s\<lparr>timers := (timers s)(tm := (timers s tm)\<lparr>scheduled_time :=
                               now + periodic_time (timers s tm)\<rparr>)\<rparr>)
                     else s);
            timer_tick_loop run fuel ncpus cpu now ret s
          })"

definition timer_tick ::
  "(timer_id \<Rightarrow> lk_time_t \<Rightarrow> 'a timer_state_scheme \<Rightarrow> (handler_return \<times> 'a timer_state_scheme) option) \<Rightarrow>
     nat \<Rightarrow> nat \<Rightarrow> cpu \<Rightarrow> lk_time_t \<Rightarrow> 'a timer_state_scheme \<Rightarrow>
     (handler_return \<times> 'a timer_state_scheme) option" where
  "timer_tick run fuel ncpus cpu now s =
     do {
       let s = stats_upd cpu (\<lambda>st. st\<lparr>timer_ints := timer_ints st + 1\<rparr>) s;
       (ret, s) \<leftarrow> timer_tick_loop run fuel ncpus cpu now INT_NO_RESCHEDULE s;
       (case timer_queue s cpu of
          [] \<Rightarrow> Some (ret, s)
        | tm # _ \<Rightarrow> do {
            dassert (TIME_GT (scheduled_time (timers s tm)) now);
            Some (ret, platform_set_oneshot_timer cpu (scheduled_time (timers s tm) - now) s)
          })
     }"

definition timer_init :: "nat \<Rightarrow> 'a timer_state_scheme \<Rightarrow> 'a timer_state_scheme" where
  "timer_init ncpus s = s\<lparr>timer_queue := (\<lambda>c. if c < ncpus then [] else timer_queue s c)\<rparr>"

section \<open>The wrap-around order\<close>

lemma sint_u32: "sint (w::u32) = (if unat w < 2 ^ 31 then int (unat w) else int (unat w) - 2 ^ 32)"
proof -
  define n where "n = unat w"
  have n: "n < 4294967296" using unat_u32_less [of w] by (simp add: n_def)
  have "sint w = (int n + 2147483648) mod 4294967296 - 2147483648"
    unfolding sint_uint signed_take_bit_eq_take_bit_shift n_def by (simp add: take_bit_eq_mod)
  moreover have "n < 2147483648 \<Longrightarrow> (int n + 2147483648) mod 4294967296 = int n + 2147483648"
    by (intro mod_pos_pos_trivial) linarith+
  moreover have "\<not> n < 2147483648 \<Longrightarrow> (int n + 2147483648) mod 4294967296 = int n - 2147483648"
    using n mod_add_self2 [of "int n - 2147483648" 4294967296]
    by (simp add: mod_pos_pos_trivial add.commute)
  ultimately show ?thesis unfolding n_def [symmetric] by auto
qed

lemma TIME_GT_iff: "TIME_GT a b \<longleftrightarrow> a \<noteq> b \<and> unat (a - b) < 2 ^ 31"
proof -
  define n where "n = unat (a - b)"
  have "n < 2 ^ 32" and "n = 0 \<longleftrightarrow> a = b"
    using unat_u32_less [of "a - b"] by (simp_all add: n_def unat_eq_0)
  then show ?thesis unfolding TIME_GT_def sint_u32 n_def [symmetric] by auto
qed

lemma TIME_LT_iff: "TIME_LT a b \<longleftrightarrow> 2 ^ 31 \<le> unat (a - b)"
proof -
  define n where "n = unat (a - b)"
  have "n < 2 ^ 32" using unat_u32_less [of "a - b"] by (simp add: n_def)
  then show ?thesis unfolding TIME_LT_def sint_u32 n_def [symmetric] by auto
qed

definition toff :: "lk_time_t \<Rightarrow> lk_time_t \<Rightarrow> nat" where
  "toff base t = unat (t - base)"

lemma toff_inject: "toff base a = toff base b \<longleftrightarrow> a = b"
  by (metis toff_def diff_add_cancel word_unat_eq_iff)

lemma unat_diff_toff:
  "unat (a - b) = (if toff base b \<le> toff base a then toff base a - toff base b
      else toff base a + 2 ^ 32 - toff base b)"
proof -
  have d: "a - b = (a - base) - (b - base)" by simp
  show ?thesis unfolding d toff_def unat_sub_if' by simp
qed

lemma TIME_GT_toff:
  assumes "toff base a < 2 ^ 31" and "toff base b < 2 ^ 31"
  shows "TIME_GT a b \<longleftrightarrow> toff base b < toff base a"
  using assms unfolding TIME_GT_iff unat_diff_toff [of a b base] toff_inject [of base, symmetric]
  by auto

lemma TIME_LT_toff:
  assumes "toff base a < 2 ^ 31" and "toff base b < 2 ^ 31"
  shows "TIME_LT a b \<longleftrightarrow> toff base a < toff base b"
  using assms unfolding TIME_LT_iff unat_diff_toff [of a b base]
  by auto

text \<open>A queue is in order when no entry is later than its successors.\<close>

definition queue_sorted :: "(timer_id \<Rightarrow> timer) \<Rightarrow> timer_id list \<Rightarrow> bool" where
  "queue_sorted tms q \<longleftrightarrow>
     sorted_wrt (\<lambda>a b. \<not> TIME_GT (scheduled_time (tms a)) (scheduled_time (tms b))) q"

definition in_window :: "lk_time_t \<Rightarrow> (timer_id \<Rightarrow> timer) \<Rightarrow> timer_id list \<Rightarrow> bool" where
  "in_window base tms q \<longleftrightarrow> list_all (\<lambda>a. toff base (scheduled_time (tms a)) < 2 ^ 31) q"

lemma mset_insert_by_time: "mset (insert_by_time tms tm q) = add_mset tm (mset q)"
  by (induction q) auto

lemma set_insert_by_time: "set (insert_by_time tms tm q) = insert tm (set q)"
  using mset_insert_by_time [of tms tm q] by (metis set_mset_add_mset_insert set_mset_mset)

lemma queue_sorted_window:
  "in_window base tms q \<Longrightarrow>
     queue_sorted tms q \<longleftrightarrow> sorted (map (\<lambda>a. toff base (scheduled_time (tms a))) q)"
  unfolding queue_sorted_def in_window_def
proof (induction q)
  case (Cons a q)
  then show ?case by (auto simp: TIME_GT_toff [of base] list_all_iff not_less)
qed simp

lemma queue_sorted_insert:
  assumes "in_window base tms (tm # q)" and "queue_sorted tms q"
  shows "queue_sorted tms (insert_by_time tms tm q)"
  using assms
proof (induction q)
  case Nil
  then show ?case by (simp add: queue_sorted_def)
next
  case (Cons e es)
  then have w: "in_window base tms (tm # es)" "queue_sorted tms es"
    and we: "toff base (scheduled_time (tms e)) < 2 ^ 31" "toff base (scheduled_time (tms tm)) < 2 ^ 31"
      "\<forall>a\<in>set es. toff base (scheduled_time (tms a)) < 2 ^ 31"
    by (auto simp: in_window_def queue_sorted_def list_all_iff)
  from Cons.prems(2) have ge: "\<forall>a\<in>set es. \<not> TIME_GT (scheduled_time (tms e)) (scheduled_time (tms a))"
    by (simp add: queue_sorted_def)
  show ?case
  proof (cases "TIME_GT (scheduled_time (tms e)) (scheduled_time (tms tm))")
    case True
    have "\<not> TIME_GT (scheduled_time (tms tm)) (scheduled_time (tms a))" if "a \<in> set (e # es)" for a
      using that True ge we by (auto simp: TIME_GT_toff [of base])
    with True Cons.prems(2) show ?thesis by (simp add: queue_sorted_def)
  next
    case False
    have "queue_sorted tms (insert_by_time tms tm es)" by (rule Cons.IH [OF w])
    with False ge show ?thesis by (auto simp: queue_sorted_def set_insert_by_time)
  qed
qed


section \<open>Setting and cancelling\<close>

lemma timer_set_Some:
  assumes "tm_magic (timers s tm) = TIMER_MAGIC" and "\<not> timer_linked n tm s"
  obtains s' where "timer_set n cpu tm delay period cb arg s = Some s'"
    and "timers s' = (timers s)(tm := (timers s tm)\<lparr>scheduled_time := current_time s + delay,
           periodic_time := period, tm_callback := cb, tm_arg := arg\<rparr>)"
    and "timer_queue s' = (timer_queue s)(cpu := insert_by_time (timers s') tm (timer_queue s cpu))"
    and "hw_timer s' = (if hd (timer_queue s' cpu) = tm then (hw_timer s)(cpu := Some delay) else hw_timer s)"
    and "current_time s' = current_time s" and "stats s' = stats s"
    and "timer_state.more s' = timer_state.more s"
proof -
  let ?s' = "the (timer_set n cpu tm delay period cb arg s)"
  have ne: "insert_by_time tms tm q \<noteq> []" for tms q by (cases q) auto
  have hd: "(list_peek_head_opt q = Some tm) = (hd q = tm)" if "q \<noteq> []" for q
    using that by (auto simp: list_peek_head_opt_def split: list.splits)
  show ?thesis
    by (rule that [of ?s'])
      (simp_all add: timer_set_def assms Let_def insert_timer_in_queue_def platform_set_oneshot_timer_def
        hd ne)
qed

lemma timer_set_None_iff:
  "timer_set n cpu tm delay period cb arg s = None \<longleftrightarrow>
     tm_magic (timers s tm) \<noteq> TIMER_MAGIC \<or> timer_linked n tm s"
  by (simp add: timer_set_def Let_def)

lemma timer_cancel_Some:
  assumes "tm_magic (timers s tm) = TIMER_MAGIC"
  obtains s' where "timer_cancel cpu tm s = Some s'"
    and "timer_queue s' = (\<lambda>c. remove1 tm (timer_queue s c))"
    and "timers s' = (timers s)(tm := (timers s tm)\<lparr>periodic_time := 0, tm_callback := CbNone, tm_arg := 0\<rparr>)"
    and "current_time s' = current_time s" and "stats s' = stats s"
    and "timer_state.more s' = timer_state.more s"
    and "hw_timer s' = (case remove1 tm (timer_queue s cpu) of
            [] \<Rightarrow> (hw_timer s)(cpu := None)
          | x # _ \<Rightarrow> (if hd (timer_queue s cpu) = x then hw_timer s
                else (hw_timer s)(cpu := Some (if TIME_LT (scheduled_time (timers s x)) (current_time s)
                       then 0 else scheduled_time (timers s x) - current_time s))))"
proof -
  let ?s' = "the (timer_cancel cpu tm s)"
  have nn: "remove1 tm (timer_queue s cpu) = x # xs \<Longrightarrow> timer_queue s cpu \<noteq> []" for x xs by auto
  show ?thesis
    by (rule that [of ?s'])
      (auto simp: timer_cancel_def assms Let_def platform_set_oneshot_timer_def platform_stop_timer_def
        list_peek_head_opt_def split: list.splits)
qed

section \<open>The tick\<close>

definition timer_due :: "lk_time_t \<Rightarrow> 'a timer_state_scheme \<Rightarrow> timer_id \<Rightarrow> bool" where
  "timer_due now s tm \<longleftrightarrow> \<not> TIME_LT now (scheduled_time (timers s tm))"

text \<open>
  A queue \<open>timer_tick\<close> can process: in order, all times in half the clock range around \<open>now\<close>, a
  period never carrying a timer past that range, every timer valid and queued once.
\<close>

definition tick_ready :: "lk_time_t \<Rightarrow> nat \<Rightarrow> cpu \<Rightarrow> lk_time_t \<Rightarrow> 'a timer_state_scheme \<Rightarrow> bool" where
  "tick_ready base ncpus cpu now s \<longleftrightarrow>
     cpu < ncpus \<and> toff base now < 2 ^ 31 \<and> in_window base (timers s) (timer_queue s cpu) \<and>
     queue_sorted (timers s) (timer_queue s cpu) \<and> distinct (timer_queue s cpu) \<and>
     (\<forall>tm \<in> set (timer_queue s cpu). tm_magic (timers s tm) = TIMER_MAGIC \<and>
        toff base now + unat (periodic_time (timers s tm)) < 2 ^ 31 \<and>
        (\<forall>c<ncpus. c \<noteq> cpu \<longrightarrow> tm \<notin> set (timer_queue s c)))"

text \<open>
  Callbacks that leave the timers alone and can be observed: \<open>log\<close> is a record the rest of the state keeps of the calls made, with
  the timer and the time of each call, and \<open>ans\<close> is what the callback of a timer returns.
\<close>

definition recording :: "('a \<Rightarrow> (timer_id \<times> lk_time_t) list) \<Rightarrow> (timer_id \<Rightarrow> handler_return) \<Rightarrow>
     (timer_id \<Rightarrow> lk_time_t \<Rightarrow> 'a timer_state_scheme \<Rightarrow> (handler_return \<times> 'a timer_state_scheme) option) \<Rightarrow> bool" where
  "recording log ans run \<longleftrightarrow> (\<forall>tm now s. \<exists>s'. run tm now s = Some (ans tm, s') \<and>
      timers s' = timers s \<and> timer_queue s' = timer_queue s \<and> log (timer_state.more s') = log (timer_state.more s) @ [(tm, now)])"

lemma toff_add:
  "toff base now + unat p < 2 ^ 32 \<Longrightarrow> toff base (now + p) = toff base now + unat p"
proof -
  assume "toff base now + unat p < 2 ^ 32"
  moreover have e: "now + p - base = (now - base) + p" by simp
  ultimately show ?thesis unfolding toff_def e by (subst unat_plus_if') simp
qed

text \<open>One due timer processed: the head leaves the queue, or comes back in the future.\<close>

definition tick_one :: "nat \<Rightarrow> cpu \<Rightarrow> lk_time_t \<Rightarrow> timer_id \<Rightarrow> 'a timer_state_scheme \<Rightarrow> 'a timer_state_scheme" where
  "tick_one ncpus cpu now tm s =
     (if periodic_time (timers s tm) > 0 \<and> \<not> timer_linked ncpus tm s
      then insert_timer_in_queue cpu tm (s\<lparr>timers := (timers s)(tm := (timers s tm)\<lparr>scheduled_time :=
             now + periodic_time (timers s tm)\<rparr>)\<rparr>)
      else s)"

lemma queue_sorted_cong:
  assumes "\<And>a. a \<in> set q \<Longrightarrow> scheduled_time (tms' a) = scheduled_time (tms a)"
  shows "queue_sorted tms' q = queue_sorted tms q"
  using assms unfolding queue_sorted_def by (induction q) auto

lemma tick_one_ready:
  assumes rdy: "tick_ready base ncpus cpu now s" and q: "timer_queue s cpu = tm # q"
    and t': "timers t = timers s" and q': "timer_queue t = (\<lambda>c. remove1 tm (timer_queue s c))"
  defines "u \<equiv> tick_one ncpus cpu now tm t"
  shows "tick_ready base ncpus cpu now u"
    and "set (timer_queue u cpu) = set q \<union> (if periodic_time (timers s tm) > 0 then {tm} else {})"
    and "\<And>x. x \<in> set q \<Longrightarrow> timers u x = timers s x"
    and "periodic_time (timers s tm) > 0 \<Longrightarrow> \<not> timer_due now u tm"
    and "\<And>x. periodic_time (timers u x) = periodic_time (timers s x)"
proof -
  let ?p = "periodic_time (timers s tm)"
  from rdy q have nin: "tm \<notin> set q" and oth: "\<And>c. c < ncpus \<Longrightarrow> c \<noteq> cpu \<Longrightarrow> tm \<notin> set (timer_queue s c)"
    and win: "toff base now + unat ?p < 2 ^ 31" and cp: "cpu < ncpus"
    by (auto simp: tick_ready_def)
  have unl: "\<not> timer_linked ncpus tm t"
  proof -
    have "tm \<notin> set (remove1 tm (timer_queue s c))" if "c < ncpus" for c
      using nin oth [OF that] q by (cases "c = cpu") (auto dest: notin_set_remove1)
    then show ?thesis by (simp add: timer_linked_def q')
  qed
  have sched: "toff base (now + ?p) = toff base now + unat ?p" using win by (intro toff_add) simp
  have tms: "timers u = (if ?p > 0 then (timers s)(tm := (timers s tm)\<lparr>scheduled_time := now + ?p\<rparr>) else timers s)"
    and qs: "timer_queue u = (\<lambda>c. if c = cpu \<and> ?p > 0 then insert_by_time (timers u) tm q
        else remove1 tm (timer_queue s c))"
    using unl q by (auto simp: u_def tick_one_def insert_timer_in_queue_def t' q' fun_eq_iff)
  show st: "set (timer_queue u cpu) = set q \<union> (if ?p > 0 then {tm} else {})"
    using q by (auto simp: qs set_insert_by_time)
  show fr: "timers u x = timers s x" if "x \<in> set q" for x
    using that nin by (auto simp: tms)
  show per: "periodic_time (timers u x) = periodic_time (timers s x)" for x
    by (simp add: tms)
  show "\<not> timer_due now u tm" if "?p > 0"
  proof -
    have "unat ?p > 0" using that by (simp add: word_less_nat_alt)
    with that win sched show ?thesis by (simp add: timer_due_def tms TIME_LT_toff [of base])
  qed
  have srt: "queue_sorted (timers u) q" using rdy q fr
    by (subst queue_sorted_cong [where tms = "timers s"]) (auto simp: tick_ready_def queue_sorted_def)
  have winq: "in_window base (timers u) q" using rdy q fr by (auto simp: tick_ready_def in_window_def list_all_iff)
  have wintm: "?p > 0 \<Longrightarrow> in_window base (timers u) (tm # q)"
    using winq win sched by (simp add: in_window_def tms)
  have "queue_sorted (timers u) (timer_queue u cpu) \<and> in_window base (timers u) (timer_queue u cpu)"
  proof (cases "?p > 0")
    case True
    then show ?thesis using queue_sorted_insert [OF wintm srt] wintm
      by (simp add: qs in_window_def list_all_iff set_insert_by_time)
  next
    case False
    then show ?thesis using srt winq q by (simp add: qs)
  qed
  moreover have "distinct (timer_queue u cpu)"
    using rdy q nin mset_insert_by_time [of "timers u" tm q]
    by (auto simp: qs tick_ready_def) (metis distinct.simps(2) mset.simps(2) mset_eq_imp_distinct_iff)
  moreover have "\<forall>x\<in>set (timer_queue u cpu). tm_magic (timers u x) = TIMER_MAGIC \<and>
        toff base now + unat (periodic_time (timers u x)) < 2 ^ 31 \<and>
        (\<forall>c<ncpus. c \<noteq> cpu \<longrightarrow> x \<notin> set (timer_queue u c))"
  proof
    fix x assume "x \<in> set (timer_queue u cpu)"
    then have x: "x \<in> set (timer_queue s cpu)" using st q by (auto split: if_splits)
    then show "tm_magic (timers u x) = TIMER_MAGIC \<and>
        toff base now + unat (periodic_time (timers u x)) < 2 ^ 31 \<and>
        (\<forall>c<ncpus. c \<noteq> cpu \<longrightarrow> x \<notin> set (timer_queue u c))"
      using rdy unfolding per by (auto simp: tick_ready_def tms qs dest: notin_set_remove1)
  qed
  ultimately show "tick_ready base ncpus cpu now u" using rdy cp by (simp add: tick_ready_def)
qed

lemma filter_insert_by_time: "\<not> P tm \<Longrightarrow> filter P (insert_by_time tms tm q) = filter P q"
  by (induction q) auto

text \<open>In an ordered queue the first timer is due when any is.\<close>

lemma none_due:
  assumes "tick_ready base ncpus cpu now s" and "timer_queue s cpu = tm # q" and "\<not> timer_due now s tm" and "x \<in> set q"
  shows "\<not> timer_due now s x"
proof -
  from assms(1,2,4) have "toff base now < 2 ^ 31" "toff base (scheduled_time (timers s tm)) < 2 ^ 31"
    "toff base (scheduled_time (timers s x)) < 2 ^ 31"
    "\<not> TIME_GT (scheduled_time (timers s tm)) (scheduled_time (timers s x))"
    by (auto simp: tick_ready_def in_window_def queue_sorted_def list_all_iff)
  with assms(3) show ?thesis by (simp add: timer_due_def TIME_LT_toff [of base] TIME_GT_toff [of base])
qed

lemma tick_one_due:
  assumes rdy: "tick_ready base ncpus cpu now s" and q: "timer_queue s cpu = tm # q"
    and t': "timers t = timers s" and q': "timer_queue t = (\<lambda>c. remove1 tm (timer_queue s c))"
  defines "u \<equiv> tick_one ncpus cpu now tm t"
  shows "filter (timer_due now u) (timer_queue u cpu) = filter (timer_due now s) q" and "timer_state.more u = timer_state.more t"
proof -
  note one = tick_one_ready [OF assms(1-4), folded u_def]
  have qu: "timer_queue u cpu = q \<or> periodic_time (timers s tm) > 0 \<and> timer_queue u cpu = insert_by_time (timers u) tm q"
    using q by (auto simp: u_def tick_one_def insert_timer_in_queue_def t' q')
  have same: "filter (timer_due now u) q = filter (timer_due now s) q"
    by (rule filter_cong) (use one(3) in \<open>simp_all add: timer_due_def\<close>)
  from qu show "filter (timer_due now u) (timer_queue u cpu) = filter (timer_due now s) q"
    using filter_insert_by_time [of "timer_due now u" tm] one(4) same by auto
  show "timer_state.more u = timer_state.more t" by (simp add: u_def tick_one_def insert_timer_in_queue_def)
qed


text \<open>
  The contract between the timer queue and the callbacks it runs: as long as the client's states are
  sound (\<open>ok\<close>), a callback returns, leaves the timers alone, and leaves a sound state once the timer has
  been requeued.
\<close>

definition dequeued :: "cpu \<Rightarrow> timer_id \<Rightarrow> 'a timer_state_scheme \<Rightarrow> 'a timer_state_scheme" where
  "dequeued cpu tm s = stats_upd cpu (\<lambda>st. st\<lparr>timers_fired := timers_fired st + 1\<rparr>)
     (s\<lparr>timer_queue := (\<lambda>c. remove1 tm (timer_queue s c))\<rparr>)"

locale timer_client =
  fixes run :: "timer_id \<Rightarrow> lk_time_t \<Rightarrow> 'a timer_state_scheme \<Rightarrow> (handler_return \<times> 'a timer_state_scheme) option"
    and ncpus :: nat and cpu :: cpu and ok :: "'a timer_state_scheme \<Rightarrow> bool"
  assumes fires: "ok s \<Longrightarrow> timer_queue s cpu = tm # q \<Longrightarrow>
      \<exists>r s'. run tm now (dequeued cpu tm s) = Some (r, s') \<and> timers s' = timers s \<and>
        timer_queue s' = (\<lambda>c. remove1 tm (timer_queue s c)) \<and> ok (tick_one ncpus cpu now tm s')"
    and ok_stats: "ok (stats_upd cpu f s) = ok s"
    and ok_hw: "ok (platform_set_oneshot_timer cpu d s) = ok s"
begin

lemma tick_loop:
  assumes "ok s" and "tick_ready base ncpus cpu now s"
    and "length (filter (timer_due now s) (timer_queue s cpu)) < fuel"
  shows "\<exists>ret' s'. timer_tick_loop run fuel ncpus cpu now ret s = Some (ret', s') \<and> ok s' \<and>
      tick_ready base ncpus cpu now s' \<and>
      (\<forall>tm \<in> set (timer_queue s' cpu). \<not> timer_due now s' tm) \<and>
      set (timer_queue s' cpu) =
        {tm \<in> set (timer_queue s cpu). \<not> timer_due now s tm \<or> periodic_time (timers s tm) > 0}"
  using assms
proof (induction fuel arbitrary: s ret)
  case 0
  then show ?case by simp
next
  case (Suc fuel)
  note rdy = Suc.prems(2)
  show ?case
  proof (cases "timer_queue s cpu")
    case Nil
    with rdy Suc.prems(1) show ?thesis by auto
  next
    case (Cons tm q)
    show ?thesis
    proof (cases "timer_due now s tm")
      case False
      have "\<not> timer_due now s x" if "x \<in> set q" for x by (rule none_due [OF rdy Cons False that])
      with False rdy Cons Suc.prems(1) show ?thesis by (auto simp: timer_due_def)
    next
      case True
      from fires [OF Suc.prems(1) Cons, of now] obtain r t where run: "run tm now (dequeued cpu tm s) = Some (r, t)"
        and t: "timers t = timers s" "timer_queue t = (\<lambda>c. remove1 tm (timer_queue s c))"
        and oku: "ok (tick_one ncpus cpu now tm t)"
        by blast
      let ?u = "tick_one ncpus cpu now tm t"
      note one = tick_one_ready [OF rdy Cons t]
      have mag: "tm_magic (timers s tm) = TIMER_MAGIC" using rdy Cons by (simp add: tick_ready_def)
      have sub: "set (filter (timer_due now ?u) (timer_queue ?u cpu)) \<subseteq> set (filter (timer_due now s) q)"
        using one(2,3,4) by (auto simp: timer_due_def split: if_splits)
      have "length (filter (timer_due now ?u) (timer_queue ?u cpu)) \<le> length (filter (timer_due now s) q)"
      proof -
        have "distinct (timer_queue ?u cpu)" "distinct q" using one(1) rdy Cons by (simp_all add: tick_ready_def)
        then show ?thesis using sub by (metis List.finite_set card_mono distinct_card distinct_filter)
      qed
      then have len: "length (filter (timer_due now ?u) (timer_queue ?u cpu)) < fuel"
        using Suc.prems(3) Cons True by simp
      let ?ret = "if r = INT_RESCHEDULE then INT_RESCHEDULE else ret"
      have step: "timer_tick_loop run (Suc fuel) ncpus cpu now ret s =
          timer_tick_loop run fuel ncpus cpu now ?ret ?u"
        using True mag run Cons by (simp add: timer_due_def Let_def tick_one_def t dequeued_def stats_upd_def)
      from Suc.IH [OF oku one(1) len, of ?ret] obtain ret' s' where
        ih: "timer_tick_loop run fuel ncpus cpu now ?ret ?u = Some (ret', s')" "ok s'"
          "tick_ready base ncpus cpu now s'"
          "\<forall>tm \<in> set (timer_queue s' cpu). \<not> timer_due now s' tm"
          "set (timer_queue s' cpu) =
             {x \<in> set (timer_queue ?u cpu). \<not> timer_due now ?u x \<or> periodic_time (timers ?u x) > 0}"
        by blast
      have "set (timer_queue s' cpu) =
          {x \<in> set (timer_queue s cpu). \<not> timer_due now s x \<or> periodic_time (timers s x) > 0}"
        using ih(5) one(2-5) Cons True by (auto simp: timer_due_def split: if_splits)
      moreover have "timer_tick_loop run (Suc fuel) ncpus cpu now ret s = Some (ret', s')"
        using step ih(1) by simp
      ultimately show ?thesis using ih(2,3,4) by blast
    qed
  qed
qed

lemma tick:
  assumes "ok s" and "tick_ready base ncpus cpu now s" and "length (timer_queue s cpu) < fuel"
  shows "\<exists>ret s'. timer_tick run fuel ncpus cpu now s = Some (ret, s') \<and> ok s' \<and>
      set (timer_queue s' cpu) =
        {tm \<in> set (timer_queue s cpu). \<not> timer_due now s tm \<or> periodic_time (timers s tm) > 0} \<and>
      (\<forall>tm \<in> set (timer_queue s' cpu). TIME_GT (scheduled_time (timers s' tm)) now) \<and>
      (\<forall>tm q. timer_queue s' cpu = tm # q \<longrightarrow>
         hw_timer s' cpu = Some (scheduled_time (timers s' tm) - now))"
proof -
  let ?s0 = "stats_upd cpu (\<lambda>st. st\<lparr>timer_ints := timer_ints st + 1\<rparr>) s"
  have rdy: "tick_ready base ncpus cpu now ?s0" and same: "timer_queue ?s0 = timer_queue s" "timers ?s0 = timers s"
    using assms(2) by (simp_all add: tick_ready_def stats_upd_def)
  have "length (filter (timer_due now ?s0) (timer_queue ?s0 cpu)) < fuel"
    by (rule le_less_trans [OF length_filter_le]) (simp only: same(1) assms(3))
  from tick_loop [OF _ rdy this, of INT_NO_RESCHEDULE] assms(1) ok_stats obtain ret s' where
    l: "timer_tick_loop run fuel ncpus cpu now INT_NO_RESCHEDULE ?s0 = Some (ret, s')" "ok s'"
      "tick_ready base ncpus cpu now s'" "\<forall>tm \<in> set (timer_queue s' cpu). \<not> timer_due now s' tm"
      "set (timer_queue s' cpu) =
        {tm \<in> set (timer_queue ?s0 cpu). \<not> timer_due now ?s0 tm \<or> periodic_time (timers ?s0 tm) > 0}"
    by blast
  have later: "TIME_GT (scheduled_time (timers s' tm)) now" if "tm \<in> set (timer_queue s' cpu)" for tm
  proof -
    from that l(3) have "toff base now < 2 ^ 31" "toff base (scheduled_time (timers s' tm)) < 2 ^ 31"
      by (simp_all add: tick_ready_def in_window_def list_all_iff)
    moreover from that l(4) have "TIME_LT now (scheduled_time (timers s' tm))" by (simp add: timer_due_def)
    ultimately show ?thesis by (simp only: TIME_LT_toff TIME_GT_toff)
  qed
  have due: "timer_due now ?s0 = timer_due now s" by (simp add: timer_due_def same(2) fun_eq_iff)
  note left = l(5) [unfolded due same]
  show ?thesis
  proof (cases "timer_queue s' cpu")
    case Nil
    then have "timer_tick run fuel ncpus cpu now s = Some (ret, s')"
      using l(1) by (simp add: timer_tick_def Let_def)
    with Nil left later l(2) show ?thesis by (intro exI [of _ ret] exI [of _ s'] conjI) (assumption | simp)+
  next
    case (Cons tm q)
    let ?s'' = "platform_set_oneshot_timer cpu (scheduled_time (timers s' tm) - now) s'"
    have "timer_tick run fuel ncpus cpu now s = Some (ret, ?s'')"
      using l(1) Cons later [of tm] by (simp add: timer_tick_def Let_def)
    moreover have "timer_queue ?s'' = timer_queue s'" "timers ?s'' = timers s'"
      "hw_timer ?s'' cpu = Some (scheduled_time (timers s' tm) - now)"
      by (simp_all add: platform_set_oneshot_timer_def)
    ultimately show ?thesis using left later Cons l(2) ok_hw
      by (intro exI [of _ ret] exI [of _ ?s''] conjI) (assumption | simp)+
  qed
qed

end

text \<open>The calls a tick makes and what it answers, for callbacks that can be observed.\<close>

lemma tick_loop_calls:
  assumes "recording log ans run" and "tick_ready base ncpus cpu now s" and "timer_tick_loop run fuel ncpus cpu now ret s = Some (ret', s')"
  shows "log (timer_state.more s') = log (timer_state.more s) @ map (\<lambda>tm. (tm, now)) (filter (timer_due now s) (timer_queue s cpu)) \<and>
     ret' = (if \<exists>tm \<in> set (timer_queue s cpu). timer_due now s tm \<and> ans tm = INT_RESCHEDULE then INT_RESCHEDULE else ret)"
  using assms(2,3)
proof (induction fuel arbitrary: s ret)
  case (Suc fuel)
  note rdy = Suc.prems(1)
  show ?case
  proof (cases "timer_queue s cpu")
    case Nil
    with Suc.prems(2) show ?thesis by simp
  next
    case (Cons tm q)
    show ?thesis
    proof (cases "timer_due now s tm")
      case False
      with none_due [OF rdy Cons False] have "filter (timer_due now s) (timer_queue s cpu) = []"
        "\<not> (\<exists>x \<in> set (timer_queue s cpu). timer_due now s x)" by (auto simp: Cons filter_empty_conv)
      with False Suc.prems(2) Cons show ?thesis by (auto simp: timer_due_def)
    next
      case True
      let ?d = "dequeued cpu tm s"
      obtain t where run: "run tm now ?d = Some (ans tm, t)" and t: "timers t = timers ?d" "timer_queue t = timer_queue ?d"
        "log (timer_state.more t) = log (timer_state.more ?d) @ [(tm, now)]"
        using assms(1) unfolding recording_def by blast
      have d: "timers ?d = timers s" "timer_queue ?d = (\<lambda>c. remove1 tm (timer_queue s c))" "timer_state.more ?d = timer_state.more s"
        by (simp_all add: dequeued_def stats_upd_def)
      let ?u = "tick_one ncpus cpu now tm t" and ?ret = "if ans tm = INT_RESCHEDULE then INT_RESCHEDULE else ret"
      note one = tick_one_ready(1) [OF rdy Cons t(1,2) [unfolded d]] tick_one_due [OF rdy Cons t(1,2) [unfolded d]]
      have mag: "tm_magic (timers s tm) = TIMER_MAGIC" using rdy Cons by (simp add: tick_ready_def)
      have step: "timer_tick_loop run (Suc fuel) ncpus cpu now ret s = timer_tick_loop run fuel ncpus cpu now ?ret ?u"
        using True mag run Cons t(1,2) by (simp add: timer_due_def Let_def tick_one_def dequeued_def stats_upd_def)
      have due: "(\<exists>x \<in> set (timer_queue ?u cpu). timer_due now ?u x \<and> P x) \<longleftrightarrow> (\<exists>x \<in> set q. timer_due now s x \<and> P x)" for P
        using arg_cong [OF one(2), of set] by auto
      from Suc.IH [OF one(1) Suc.prems(2) [unfolded step]] show ?thesis
        unfolding one(2,3) t(3) d(3) Cons due using True by (auto split: if_splits)
    qed
  qed
qed simp

lemma tick_calls:
  assumes rec: "recording log ans run" and rdy: "tick_ready base ncpus cpu now s" and tick: "timer_tick run fuel ncpus cpu now s = Some (ret, s')"
  shows "log (timer_state.more s') = log (timer_state.more s) @ map (\<lambda>tm. (tm, now)) (filter (timer_due now s) (timer_queue s cpu)) \<and>
     ret = (if \<exists>tm \<in> set (timer_queue s cpu). timer_due now s tm \<and> ans tm = INT_RESCHEDULE then INT_RESCHEDULE else INT_NO_RESCHEDULE)"
proof -
  let ?s0 = "stats_upd cpu (\<lambda>st. st\<lparr>timer_ints := timer_ints st + 1\<rparr>) s"
  have r0: "tick_ready base ncpus cpu now ?s0" using rdy by (simp add: tick_ready_def stats_upd_def)
  have same: "timer_queue ?s0 = timer_queue s" "timer_due now ?s0 = timer_due now s" "timer_state.more ?s0 = timer_state.more s"
    by (simp_all add: stats_upd_def timer_due_def fun_eq_iff)
  from tick obtain s1 where l: "timer_tick_loop run fuel ncpus cpu now INT_NO_RESCHEDULE ?s0 = Some (ret, s1)" "timer_state.more s' = timer_state.more s1"
    by (auto simp: timer_tick_def Let_def platform_set_oneshot_timer_def split: bind_splits list.splits if_splits)
  from tick_loop_calls [OF rec r0 l(1)] show ?thesis unfolding same l(2) .
qed

section \<open>Properties\<close>

text \<open>
  Setting a timer that is valid and not queued succeeds, keeps the cpu's queue in deadline order
  (with every deadline within half the 32-bit clock range, so that the wrap-around comparison is an
  order) and adds exactly this timer; when the new timer comes first the hardware is programmed with
  its delay.
\<close>

theorem timer_set_keeps_order:
  assumes "tm_magic (timers s tm) = TIMER_MAGIC" and "\<not> timer_linked n tm s" and "cpu < n"
    and "in_window base (timers s) (timer_queue s cpu)" and "queue_sorted (timers s) (timer_queue s cpu)"
    and "toff base (current_time s + delay) < 2 ^ 31"
  shows "\<exists>s'. timer_set n cpu tm delay period cb arg s = Some s' \<and>
      queue_sorted (timers s') (timer_queue s' cpu) \<and>
      mset (timer_queue s' cpu) = add_mset tm (mset (timer_queue s cpu)) \<and>
      scheduled_time (timers s' tm) = current_time s + delay \<and>
      (hd (timer_queue s' cpu) = tm \<longrightarrow> hw_timer s' cpu = Some delay)"
proof -
  from timer_set_Some [OF assms(1,2)] obtain s' where s': "timer_set n cpu tm delay period cb arg s = Some s'"
    and t: "timers s' = (timers s)(tm := (timers s tm)\<lparr>scheduled_time := current_time s + delay,
           periodic_time := period, tm_callback := cb, tm_arg := arg\<rparr>)"
    and q: "timer_queue s' = (timer_queue s)(cpu := insert_by_time (timers s') tm (timer_queue s cpu))"
    and h: "hw_timer s' = (if hd (timer_queue s' cpu) = tm then (hw_timer s)(cpu := Some delay) else hw_timer s)"
    by metis
  from assms(2,3) have nin: "tm \<notin> set (timer_queue s cpu)" by (auto simp: timer_linked_def)
  have "queue_sorted (timers s') (timer_queue s cpu)"
    using assms(5) nin by (subst queue_sorted_cong [where tms = "timers s"]) (auto simp: t)
  moreover have "in_window base (timers s') (tm # timer_queue s cpu)"
    using assms(4,6) nin by (auto simp: in_window_def t list_all_iff)
  ultimately have "queue_sorted (timers s') (timer_queue s' cpu)" by (simp add: q queue_sorted_insert)
  with s' h show ?thesis by (simp add: q mset_insert_by_time) (simp add: t)
qed

definition demo_timers :: timer_state where
  "demo_timers = \<lparr>timers = (\<lambda>_. TIMER_INITIAL_VALUE)(UserTimer 1 := TIMER_INITIAL_VALUE\<lparr>scheduled_time := 20\<rparr>),
     timer_queue = (\<lambda>_. [])(0 := [UserTimer 1]), current_time = 5, hw_timer = (\<lambda>_. None),
     stats = (\<lambda>_. \<lparr>idle_time = 0, last_idle_timestamp = 0, reschedules = 0, context_switches = 0,
        preempts = 0, yields = 0, timer_ints = 0, timers_fired = 0, reschedule_ipis = 0\<rparr>)\<rparr>"

text \<open>
  C22: a tick ends and runs exactly the timers that are due: when the callbacks leave the timers alone and the fuel exceeds the queue's length,
  \<open>timer_tick\<close> returns and has called the callback of every due timer once, in the order of the queue and with the time of the tick, and of no
  other timer; it asks for a reschedule when one of them does. A due one-shot timer is gone, a due periodic timer is queued again in the
  future, the others stay, no timer left in the queue is due, and the hardware is programmed for the first of the remaining deadlines.
\<close>

theorem timer_tick_fires_due:
  fixes s :: "'a timer_state_scheme"
  assumes "recording log ans run" and "tick_ready base ncpus cpu now s" and "length (timer_queue s cpu) < fuel"
  shows "\<exists>ret s'. timer_tick run fuel ncpus cpu now s = Some (ret, s') \<and>
      log (timer_state.more s') = log (timer_state.more s) @ map (\<lambda>tm. (tm, now)) (filter (timer_due now s) (timer_queue s cpu)) \<and>
      ret = (if \<exists>tm \<in> set (timer_queue s cpu). timer_due now s tm \<and> ans tm = INT_RESCHEDULE then INT_RESCHEDULE else INT_NO_RESCHEDULE) \<and>
      set (timer_queue s' cpu) =
        {tm \<in> set (timer_queue s cpu). \<not> timer_due now s tm \<or> periodic_time (timers s tm) > 0} \<and>
      (\<forall>tm \<in> set (timer_queue s' cpu). TIME_GT (scheduled_time (timers s' tm)) now) \<and>
      (\<forall>tm q. timer_queue s' cpu = tm # q \<longrightarrow>
         hw_timer s' cpu = Some (scheduled_time (timers s' tm) - now))"
proof -
  have "timer_client run ncpus cpu (\<lambda>_. True)"
  proof
    fix s :: "'a timer_state_scheme" and tm q now
    have "timers (dequeued cpu tm s) = timers s"
      "timer_queue (dequeued cpu tm s) = (\<lambda>c. remove1 tm (timer_queue s c))"
      by (simp_all add: dequeued_def stats_upd_def)
    with assms(1) show "\<exists>r s'. run tm now (dequeued cpu tm s) = Some (r, s') \<and> timers s' = timers s \<and>
        timer_queue s' = (\<lambda>c. remove1 tm (timer_queue s c)) \<and> True"
      unfolding recording_def by metis
  qed simp_all
  from timer_client.tick [OF this TrueI assms(2,3)] obtain ret s' where
    tick: "timer_tick run fuel ncpus cpu now s = Some (ret, s')"
    and rest: "set (timer_queue s' cpu) = {tm \<in> set (timer_queue s cpu). \<not> timer_due now s tm \<or> periodic_time (timers s tm) > 0}"
      "\<forall>tm \<in> set (timer_queue s' cpu). TIME_GT (scheduled_time (timers s' tm)) now"
      "\<forall>tm q. timer_queue s' cpu = tm # q \<longrightarrow> hw_timer s' cpu = Some (scheduled_time (timers s' tm) - now)" by blast
  from tick_calls [OF assms(1,2) tick] show ?thesis using tick rest by blast
qed

text \<open>Here the rest of the state is the record of the calls.\<close>

theorem timer_tick_fires_due_witness:
  "\<exists>s'. timer_tick (\<lambda>tm now s. Some (INT_RESCHEDULE, timer_state.more_update (\<lambda>l. l @ [(tm, now)]) s)) 5 1 0 25
        (timer_state.extend demo_timers []) = Some (INT_RESCHEDULE, s') \<and>
      timer_state.more s' = [(UserTimer 1, 25)] \<and> timer_queue s' 0 = []"
proof -
  let ?run = "\<lambda>tm now s. Some (INT_RESCHEDULE, timer_state.more_update (\<lambda>l. l @ [(tm :: timer_id, now :: lk_time_t)]) s)"
  let ?s = "timer_state.extend demo_timers []"
  have rec: "recording (\<lambda>l. l) (\<lambda>_. INT_RESCHEDULE) ?run" by (simp add: recording_def)
  have fl: "timers ?s = timers demo_timers" "timer_queue ?s = timer_queue demo_timers" "timer_state.more ?s = []"
    by (simp_all add: timer_state.extend_def)
  have rdy: "tick_ready 0 1 0 25 ?s"
    unfolding tick_ready_def fl by (simp add: demo_timers_def TIMER_INITIAL_VALUE_def in_window_def queue_sorted_def toff_def)
  have len: "length (timer_queue ?s 0) < 5" unfolding fl by (simp add: demo_timers_def)
  have due: "timer_due 25 ?s (UserTimer (Suc 0))" unfolding timer_due_def fl by (simp add: demo_timers_def TIMER_INITIAL_VALUE_def TIME_LT_toff [of 0] toff_def)
  have q: "timer_queue ?s 0 = [UserTimer (Suc 0)]" "periodic_time (timers ?s (UserTimer (Suc 0))) = 0"
    unfolding fl by (simp_all add: demo_timers_def TIMER_INITIAL_VALUE_def)
  have left: "{tm \<in> set (timer_queue ?s 0). \<not> timer_due 25 ?s tm \<or> periodic_time (timers ?s tm) > 0} = {}" using due by (auto simp: q)
  from timer_tick_fires_due [OF rec rdy len] show ?thesis unfolding left by (auto simp: q(1) due fl(3))
qed

text \<open>
  Cancelling a valid timer succeeds whether or not it is queued; afterwards it is in no queue and
  cannot be requeued by its own callback, no other timer moves, and the hardware is stopped when the
  cpu's queue has become empty.
\<close>

theorem timer_cancel_removes:
  assumes "tm_magic (timers s tm) = TIMER_MAGIC" and "\<forall>c. distinct (timer_queue s c)"
  shows "\<exists>s'. timer_cancel cpu tm s = Some s' \<and> \<not> timer_linked n tm s' \<and>
      periodic_time (timers s' tm) = 0 \<and>
      (\<forall>c x. x \<noteq> tm \<longrightarrow> (x \<in> set (timer_queue s' c)) = (x \<in> set (timer_queue s c))) \<and>
      (timer_queue s' cpu = [] \<longrightarrow> hw_timer s' cpu = None)"
proof -
  obtain s' where "timer_cancel cpu tm s = Some s'"
    and q: "timer_queue s' = (\<lambda>c. remove1 tm (timer_queue s c))"
    and t: "timers s' = (timers s)(tm := (timers s tm)\<lparr>periodic_time := 0, tm_callback := CbNone, tm_arg := 0\<rparr>)"
    and h: "hw_timer s' = (case remove1 tm (timer_queue s cpu) of
            [] \<Rightarrow> (hw_timer s)(cpu := None)
          | x # _ \<Rightarrow> (if hd (timer_queue s cpu) = x then hw_timer s
                else (hw_timer s)(cpu := Some (if TIME_LT (scheduled_time (timers s x)) (current_time s)
                       then 0 else scheduled_time (timers s x) - current_time s))))"
    by (rule timer_cancel_Some [OF assms(1), of cpu]) (rule that, assumption+)
  moreover have "x \<in> set (remove1 tm (timer_queue s c)) \<longleftrightarrow> x \<in> set (timer_queue s c) \<and> x \<noteq> tm" for x c
    using assms(2) by (auto dest: in_set_remove1 set_remove1_subset [THEN subsetD])
  moreover have "periodic_time (timers s' tm) = 0" by (simp add: t)
  moreover have "timer_queue s' cpu = [] \<longrightarrow> hw_timer s' cpu = None" by (simp add: h q)
  ultimately show ?thesis
    by (intro exI [of _ s'] conjI) (simp_all add: timer_linked_def q)
qed

end
