(* ===== verification/LK_Thread.thy ===== *)
theory LK_Thread
  imports LK_Timer
begin

text \<open>
  The scheduler, threads and wait queues of \<^verbatim>\<open>kernel/thread.c\<close>, with the reschedule requests of
  \<^verbatim>\<open>kernel/mp.c\<close>, in the debug configuration (\<^verbatim>\<open>LK_DEBUGLEVEL\<close> 2: assertions, statistics and stack
  bounds checks compiled in) for several cpus. Threads, wait queues and cpus are named by numbers. Every
  operation takes the cpu it runs on; its body is the critical section under \<^verbatim>\<open>thread_lock\<close>, so an
  operation is one atomic step of the state. The result \<open>None\<close> is a failed assertion or a \<^verbatim>\<open>panic\<close>.

  A call of \<^verbatim>\<open>thread_resched\<close> returns to the caller only when the caller is scheduled again. An
  operation that does more work after it is therefore split: the first half ends with the switch, the
  second half (\<open>_resume\<close>) is what the thread executes once it runs again. The frame a thread leaves on
  its stack inside \<^verbatim>\<open>wait_queue_block\<close> (the queue and the timeout it was called with) is \<open>block_frame\<close>.
\<close>

section \<open>Data\<close>

definition SMP_MAX_CPUS :: nat where "SMP_MAX_CPUS = 4"
definition NUM_PRIORITIES :: nat where "NUM_PRIORITIES = 32"

abbreviation (input) LOWEST_PRIORITY :: int where "LOWEST_PRIORITY \<equiv> 0"
abbreviation (input) HIGHEST_PRIORITY :: int where "HIGHEST_PRIORITY \<equiv> 31"
abbreviation (input) IDLE_PRIORITY :: int where "IDLE_PRIORITY \<equiv> 0"
abbreviation (input) DEFAULT_PRIORITY :: int where "DEFAULT_PRIORITY \<equiv> 16"

definition THREAD_FLAG_DETACHED :: u32 where "THREAD_FLAG_DETACHED = 1"
definition THREAD_FLAG_FREE_STACK :: u32 where "THREAD_FLAG_FREE_STACK = 2"
definition THREAD_FLAG_FREE_STRUCT :: u32 where "THREAD_FLAG_FREE_STRUCT = 4"
definition THREAD_FLAG_REAL_TIME :: u32 where "THREAD_FLAG_REAL_TIME = 8"
definition THREAD_FLAG_IDLE :: u32 where "THREAD_FLAG_IDLE = 16"
definition THREAD_FLAG_DEBUG_STACK_BOUNDS_CHECK :: u32 where "THREAD_FLAG_DEBUG_STACK_BOUNDS_CHECK = 32"

definition THREAD_MAGIC :: int where "THREAD_MAGIC = 0x74687264"
definition WAIT_QUEUE_MAGIC :: int where "WAIT_QUEUE_MAGIC = 0x77616974"
definition STACK_DEBUG_BYTE :: u8 where "STACK_DEBUG_BYTE = 0x99"
definition THREAD_STACK_PADDING_SIZE :: nat where "THREAD_STACK_PADDING_SIZE = 256"

lemmas thread_flag_defs = THREAD_FLAG_DETACHED_def THREAD_FLAG_FREE_STACK_def THREAD_FLAG_FREE_STRUCT_def
  THREAD_FLAG_REAL_TIME_def THREAD_FLAG_IDLE_def THREAD_FLAG_DEBUG_STACK_BOUNDS_CHECK_def

datatype thread_state =
    THREAD_SUSPENDED
  | THREAD_READY
  | THREAD_RUNNING
  | THREAD_BLOCKED
  | THREAD_SLEEPING
  | THREAD_DEATH

text \<open>A wait queue is named by where it lives: in a thread (for joiners) or in another object.\<close>

datatype wq_id = RetcodeWq tid | ObjWq nat

record wait_queue =
  wq_magic :: int
  wq_list :: "tid list"
  wq_count :: int

text \<open>\<open>queue_node\<close> is \<^verbatim>\<open>list_in_list(&t->queue_node)\<close>; \<open>t_stack\<close> is the memory \<^verbatim>\<open>t->stack\<close> points to.\<close>

record thread =
  t_magic :: int
  queue_node :: bool
  priority :: int
  t_state :: thread_state
  remaining_quantum :: int
  t_flags :: u32
  curr_cpu :: int
  pinned_cpu :: int
  t_aspace :: "nat option"
  blocking_wait_queue :: "wq_id option"
  wait_queue_block_ret :: status_t
  t_stack :: "u8 list option"
  t_stack_size :: nat
  t_entry :: nat
  t_arg :: nat
  t_retcode :: int
  t_name :: string

datatype free_call =
    Free_stack tid | Free_thread tid | Heap_delayed_free_stack tid | Heap_delayed_free_thread tid

record kstate = timer_state +
  threads :: "tid \<Rightarrow> thread"
  thread_list :: "tid list"
  run_queue :: "nat \<Rightarrow> tid list"
  run_queue_bitmap :: u32
  wait_queues :: "wq_id \<Rightarrow> wait_queue"
  current_thread :: "cpu \<Rightarrow> tid"
  active_cpus :: u32
  idle_cpus :: u32
  realtime_cpus :: u32
  current_time_hires :: u64
  mmu_context :: "cpu \<Rightarrow> nat option"
  ipis :: "u32 list"
  freed :: "free_call list"
  block_frame :: "tid \<Rightarrow> (wq_id \<times> lk_time_t) option"

text \<open>The static array \<^verbatim>\<open>_idle_threads\<close> holds the first \<^verbatim>\<open>SMP_MAX_CPUS\<close> threads.\<close>

definition idle_thread :: "cpu \<Rightarrow> tid" where "idle_thread cpu = cpu"

definition upd_thread :: "tid \<Rightarrow> (thread \<Rightarrow> thread) \<Rightarrow> 'a kstate_scheme \<Rightarrow> 'a kstate_scheme" where
  "upd_thread t f s = s\<lparr>threads := (threads s)(t := f (threads s t))\<rparr>"

definition upd_wq :: "wq_id \<Rightarrow> (wait_queue \<Rightarrow> wait_queue) \<Rightarrow> 'a kstate_scheme \<Rightarrow> 'a kstate_scheme" where
  "upd_wq w f s = s\<lparr>wait_queues := (wait_queues s)(w := f (wait_queues s w))\<rparr>"

definition thread_is_realtime :: "thread \<Rightarrow> bool" where
  "thread_is_realtime t \<longleftrightarrow> t_flags t AND THREAD_FLAG_REAL_TIME \<noteq> 0 \<and> priority t > DEFAULT_PRIORITY"

definition thread_is_idle :: "thread \<Rightarrow> bool" where
  "thread_is_idle t \<longleftrightarrow> t_flags t AND THREAD_FLAG_IDLE \<noteq> 0"

definition thread_is_real_time_or_idle :: "thread \<Rightarrow> bool" where
  "thread_is_real_time_or_idle t \<longleftrightarrow> t_flags t AND (THREAD_FLAG_REAL_TIME OR THREAD_FLAG_IDLE) \<noteq> 0"

section \<open>Reschedule requests (\<^verbatim>\<open>kernel/mp.c\<close>, \<^verbatim>\<open>include/kernel/mp.h\<close>)\<close>

abbreviation (input) MP_CPU_ALL_BUT_LOCAL :: u32 where "MP_CPU_ALL_BUT_LOCAL \<equiv> 0xFFFFFFFF"
definition MP_RESCHEDULE_FLAG_REALTIME :: u32 where "MP_RESCHEDULE_FLAG_REALTIME = 1"

definition mp_reschedule :: "cpu \<Rightarrow> u32 \<Rightarrow> u32 \<Rightarrow> 'a kstate_scheme \<Rightarrow> 'a kstate_scheme" where
  "mp_reschedule local_cpu target flags s =
     (let target = target AND active_cpus s;
          target = (if flags AND MP_RESCHEDULE_FLAG_REALTIME = 0 then target AND NOT (realtime_cpus s) else target);
          target = target AND NOT (push_bit local_cpu 1)
      in s\<lparr>ipis := ipis s @ [target]\<rparr>)"

definition mp_set_curr_cpu_active :: "cpu \<Rightarrow> 'a kstate_scheme \<Rightarrow> 'a kstate_scheme" where
  "mp_set_curr_cpu_active cpu s = s\<lparr>active_cpus := active_cpus s OR push_bit cpu 1\<rparr>"

definition mp_set_cpu_idle :: "cpu \<Rightarrow> 'a kstate_scheme \<Rightarrow> 'a kstate_scheme" where
  "mp_set_cpu_idle cpu s = s\<lparr>idle_cpus := idle_cpus s OR push_bit cpu 1\<rparr>"

definition mp_set_cpu_busy :: "cpu \<Rightarrow> 'a kstate_scheme \<Rightarrow> 'a kstate_scheme" where
  "mp_set_cpu_busy cpu s = s\<lparr>idle_cpus := idle_cpus s AND NOT (push_bit cpu 1)\<rparr>"

definition mp_set_cpu_realtime :: "cpu \<Rightarrow> 'a kstate_scheme \<Rightarrow> 'a kstate_scheme" where
  "mp_set_cpu_realtime cpu s = s\<lparr>realtime_cpus := realtime_cpus s OR push_bit cpu 1\<rparr>"

definition mp_set_cpu_non_realtime :: "cpu \<Rightarrow> 'a kstate_scheme \<Rightarrow> 'a kstate_scheme" where
  "mp_set_cpu_non_realtime cpu s = s\<lparr>realtime_cpus := realtime_cpus s AND NOT (push_bit cpu 1)\<rparr>"

definition mp_mbx_reschedule_irq :: "cpu \<Rightarrow> 'a kstate_scheme \<Rightarrow> handler_return \<times> 'a kstate_scheme" where
  "mp_mbx_reschedule_irq cpu s =
     (if active_cpus s AND push_bit cpu 1 \<noteq> 0 then INT_RESCHEDULE else INT_NO_RESCHEDULE,
      stats_upd cpu (\<lambda>st. st\<lparr>reschedule_ipis := reschedule_ipis st + 1\<rparr>) s)"

section \<open>The run queue\<close>

text \<open>The access \<^verbatim>\<open>run_queue[t->priority]\<close> is defined for the 32 priorities only.\<close>

definition insert_in_run_queue_head :: "tid \<Rightarrow> 'a kstate_scheme \<Rightarrow> 'a kstate_scheme option" where
  "insert_in_run_queue_head t s =
     do {
       dassert (t_magic (threads s t) = THREAD_MAGIC);
       dassert (t_state (threads s t) = THREAD_READY);
       dassert (\<not> queue_node (threads s t));
       let p = priority (threads s t);
       dassert (0 \<le> p \<and> p < int NUM_PRIORITIES);
       let s = upd_thread t (\<lambda>th. th\<lparr>queue_node := True\<rparr>) s;
       Some (s\<lparr>run_queue := (run_queue s)(nat p := t # run_queue s (nat p)),
               run_queue_bitmap := run_queue_bitmap s OR push_bit (nat p) 1\<rparr>)
     }"

definition insert_in_run_queue_tail :: "tid \<Rightarrow> 'a kstate_scheme \<Rightarrow> 'a kstate_scheme option" where
  "insert_in_run_queue_tail t s =
     do {
       dassert (t_magic (threads s t) = THREAD_MAGIC);
       dassert (t_state (threads s t) = THREAD_READY);
       dassert (\<not> queue_node (threads s t));
       let p = priority (threads s t);
       dassert (0 \<le> p \<and> p < int NUM_PRIORITIES);
       let s = upd_thread t (\<lambda>th. th\<lparr>queue_node := True\<rparr>) s;
       Some (s\<lparr>run_queue := (run_queue s)(nat p := run_queue s (nat p) @ [t]),
               run_queue_bitmap := run_queue_bitmap s OR push_bit (nat p) 1\<rparr>)
     }"

text \<open>
  The search of \<^verbatim>\<open>get_top_thread\<close>: the highest queue of the local bitmap is scanned for a thread that may
  run on this cpu; a queue with none is dropped from the bitmap.
\<close>

lemma clear_top_bit_less:
  assumes "bm \<noteq> 0"
  shows "bm AND NOT (push_bit (31 - clz32 bm) 1) < (bm :: u32)"
proof -
  have "bit bm (31 - clz32 bm)" using clz32_highest [OF assms] by simp
  then have "bm AND NOT (push_bit (31 - clz32 bm) 1) \<noteq> bm"
    by (metis bit_and_iff bit_not_iff bit_push_bit_iff bit_1_iff diff_self_eq_0 le_refl bit_imp_le_length linorder_not_le)
  then show ?thesis using word_and_le2 [of "bm" "NOT (push_bit (31 - clz32 bm) 1)"] by simp
qed

function scan_bitmap :: "(nat \<Rightarrow> tid option) \<Rightarrow> u32 \<Rightarrow> (nat \<times> tid) option" where
  "scan_bitmap eligible bm =
     (if bm = 0 then None
      else let next_queue = 32 - 1 - clz32 bm in
        case eligible next_queue of
          Some t \<Rightarrow> Some (next_queue, t)
        | None \<Rightarrow> scan_bitmap eligible (bm AND NOT (push_bit next_queue 1)))"
  by pat_completeness auto
termination
  by (relation "measure (\<lambda>(_, bm). unat bm)")
    (use clear_top_bit_less in \<open>auto simp: word_less_nat_alt\<close>)

declare scan_bitmap.simps [simp del]

definition may_run_on :: "cpu \<Rightarrow> thread \<Rightarrow> bool" where
  "may_run_on cpu t \<longleftrightarrow> pinned_cpu t < 0 \<or> pinned_cpu t = int cpu"

definition get_top_thread :: "cpu \<Rightarrow> 'a kstate_scheme \<Rightarrow> tid \<times> 'a kstate_scheme" where
  "get_top_thread cpu s =
     (case scan_bitmap (\<lambda>q. List.find (\<lambda>t. may_run_on cpu (threads s t)) (run_queue s q)) (run_queue_bitmap s) of
        None \<Rightarrow> (idle_thread cpu, s)
      | Some (q, t) \<Rightarrow>
          let s = upd_thread t (\<lambda>th. th\<lparr>queue_node := False\<rparr>)
                    (s\<lparr>run_queue := (run_queue s)(q := remove1 t (run_queue s q))\<rparr>)
          in (t, if run_queue s q = []
                 then s\<lparr>run_queue_bitmap := run_queue_bitmap s AND NOT (push_bit q 1)\<rparr> else s))"

section \<open>Switching\<close>

definition stack_overrun :: "thread \<Rightarrow> bool" where
  "stack_overrun t \<longleftrightarrow>
     t_flags t AND THREAD_FLAG_DEBUG_STACK_BOUNDS_CHECK \<noteq> 0 \<and>
     (case t_stack t of None \<Rightarrow> True
      | Some st \<Rightarrow> take THREAD_STACK_PADDING_SIZE st \<noteq> replicate THREAD_STACK_PADDING_SIZE STACK_DEBUG_BYTE)"

definition vmm_context_switch :: "cpu \<Rightarrow> nat option \<Rightarrow> 'a kstate_scheme \<Rightarrow> 'a kstate_scheme" where
  "vmm_context_switch cpu newaspace s = s\<lparr>mmu_context := (mmu_context s)(cpu := newaspace)\<rparr>"

text \<open>Quantum, cpu ownership, cpu masks and statistics of a switch from \<open>old\<close> to \<open>new\<close>.\<close>

definition switch_accounts :: "cpu \<Rightarrow> tid \<Rightarrow> tid \<Rightarrow> 'a kstate_scheme \<Rightarrow> 'a kstate_scheme" where
  "switch_accounts cpu old new s =
     (let s = (if remaining_quantum (threads s new) \<le> 0
               then upd_thread new (\<lambda>th. th\<lparr>remaining_quantum := 5\<rparr>) s else s);
          s = upd_thread old (\<lambda>th. th\<lparr>curr_cpu := -1\<rparr>) s;
          s = upd_thread new (\<lambda>th. th\<lparr>curr_cpu := int cpu\<rparr>) s;
          s = (if thread_is_idle (threads s new) then mp_set_cpu_idle cpu s else mp_set_cpu_busy cpu s);
          s = (if thread_is_realtime (threads s new) then mp_set_cpu_realtime cpu s
               else mp_set_cpu_non_realtime cpu s);
          s = stats_upd cpu (\<lambda>st. st\<lparr>context_switches := context_switches st + 1\<rparr>) s;
          s = (if thread_is_idle (threads s old)
               then stats_upd cpu (\<lambda>st. st\<lparr>idle_time := idle_time st +
                      (current_time_hires s - last_idle_timestamp st)\<rparr>) s else s)
      in (if thread_is_idle (threads s new)
          then stats_upd cpu (\<lambda>st. st\<lparr>last_idle_timestamp := current_time_hires s\<rparr>) s else s))"

definition switch_preempt_timer :: "cpu \<Rightarrow> tid \<Rightarrow> tid \<Rightarrow> 'a kstate_scheme \<Rightarrow> 'a kstate_scheme option" where
  "switch_preempt_timer cpu old new s =
     (if thread_is_real_time_or_idle (threads s new) then
        (if \<not> thread_is_real_time_or_idle (threads s old) then timer_cancel cpu (PreemptTimer cpu) s else Some s)
      else if thread_is_real_time_or_idle (threads s old) then
        timer_set_periodic SMP_MAX_CPUS cpu (PreemptTimer cpu) 10 CbThreadTimerTick 0 s
      else Some s)"

definition thread_resched :: "cpu \<Rightarrow> 'a kstate_scheme \<Rightarrow> 'a kstate_scheme option" where
  "thread_resched cpu s =
     do {
       let oldthread = current_thread s cpu;
       dassert (t_state (threads s oldthread) \<noteq> THREAD_RUNNING);
       let s = stats_upd cpu (\<lambda>st. st\<lparr>reschedules := reschedules st + 1\<rparr>) s;
       let (newthread, s) = get_top_thread cpu s;
       let s = upd_thread newthread (\<lambda>th. th\<lparr>t_state := THREAD_RUNNING\<rparr>) s;
       if newthread = oldthread then Some s
       else do {
         let s = switch_accounts cpu oldthread newthread s;
         s \<leftarrow> switch_preempt_timer cpu oldthread newthread s;
         let s = s\<lparr>current_thread := (current_thread s)(cpu := newthread)\<rparr>;
         dassert (\<not> stack_overrun (threads s oldthread));
         Some (if t_aspace (threads s newthread) \<noteq> t_aspace (threads s oldthread)
               then vmm_context_switch cpu (t_aspace (threads s newthread)) s else s)
       }
     }"

definition thread_yield :: "cpu \<Rightarrow> 'a kstate_scheme \<Rightarrow> 'a kstate_scheme option" where
  "thread_yield cpu s =
     do {
       let t = current_thread s cpu;
       dassert (t_magic (threads s t) = THREAD_MAGIC);
       dassert (t_state (threads s t) = THREAD_RUNNING);
       let s = stats_upd cpu (\<lambda>st. st\<lparr>yields := yields st + 1\<rparr>) s;
       let s = upd_thread t (\<lambda>th. th\<lparr>t_state := THREAD_READY, remaining_quantum := 0\<rparr>) s;
       s \<leftarrow> (if \<not> thread_is_idle (threads s t) then insert_in_run_queue_tail t s else Some s);
       thread_resched cpu s
     }"

definition thread_preempt :: "cpu \<Rightarrow> 'a kstate_scheme \<Rightarrow> 'a kstate_scheme option" where
  "thread_preempt cpu s =
     do {
       let t = current_thread s cpu;
       dassert (t_magic (threads s t) = THREAD_MAGIC);
       dassert (t_state (threads s t) = THREAD_RUNNING);
       let s = (if \<not> thread_is_idle (threads s t)
                then stats_upd cpu (\<lambda>st. st\<lparr>preempts := preempts st + 1\<rparr>) s else s);
       let s = upd_thread t (\<lambda>th. th\<lparr>t_state := THREAD_READY\<rparr>) s;
       s \<leftarrow> (if \<not> thread_is_idle (threads s t) then
                (if remaining_quantum (threads s t) > 0 then insert_in_run_queue_head t s
                 else insert_in_run_queue_tail t s)
              else Some s);
       thread_resched cpu s
     }"

definition thread_block :: "cpu \<Rightarrow> 'a kstate_scheme \<Rightarrow> 'a kstate_scheme option" where
  "thread_block cpu s =
     do {
       let t = current_thread s cpu;
       dassert (t_magic (threads s t) = THREAD_MAGIC);
       dassert (t_state (threads s t) = THREAD_BLOCKED);
       dassert (\<not> thread_is_idle (threads s t));
       thread_resched cpu s
     }"

definition thread_unblock :: "cpu \<Rightarrow> tid \<Rightarrow> bool \<Rightarrow> 'a kstate_scheme \<Rightarrow> 'a kstate_scheme option" where
  "thread_unblock cpu t resched s =
     do {
       dassert (t_magic (threads s t) = THREAD_MAGIC);
       dassert (t_state (threads s t) = THREAD_BLOCKED);
       dassert (\<not> thread_is_idle (threads s t));
       let s = upd_thread t (\<lambda>th. th\<lparr>t_state := THREAD_READY\<rparr>) s;
       s \<leftarrow> insert_in_run_queue_head t s;
       let s = mp_reschedule cpu MP_CPU_ALL_BUT_LOCAL 0 s;
       if resched then thread_resched cpu s else Some s
     }"

definition thread_set_priority :: "cpu \<Rightarrow> int \<Rightarrow> 'a kstate_scheme \<Rightarrow> 'a kstate_scheme option" where
  "thread_set_priority cpu prio s =
     do {
       let t = current_thread s cpu;
       let prio = (if prio \<le> IDLE_PRIORITY then IDLE_PRIORITY + 1 else prio);
       let prio = (if prio > HIGHEST_PRIORITY then HIGHEST_PRIORITY else prio);
       let s = upd_thread t (\<lambda>th. th\<lparr>priority := prio\<rparr>) s;
       let s = upd_thread t (\<lambda>th. th\<lparr>t_state := THREAD_READY\<rparr>) s;
       s \<leftarrow> insert_in_run_queue_head t s;
       thread_resched cpu s
     }"

definition thread_set_name :: "cpu \<Rightarrow> string \<Rightarrow> 'a kstate_scheme \<Rightarrow> 'a kstate_scheme" where
  "thread_set_name cpu name s = upd_thread (current_thread s cpu) (\<lambda>th. th\<lparr>t_name := take 31 name\<rparr>) s"

definition thread_set_real_time :: "cpu \<Rightarrow> tid option \<Rightarrow> 'a kstate_scheme \<Rightarrow> (status_t \<times> 'a kstate_scheme) option" where
  "thread_set_real_time cpu topt s =
     (case topt of None \<Rightarrow> Some (ERR_INVALID_ARGS, s)
      | Some t \<Rightarrow> do {
          dassert (t_magic (threads s t) = THREAD_MAGIC);
          s \<leftarrow> (if t = current_thread s cpu then timer_cancel cpu (PreemptTimer cpu) s else Some s);
          Some (NO_ERROR, upd_thread t (\<lambda>th. th\<lparr>t_flags := t_flags th OR THREAD_FLAG_REAL_TIME\<rparr>) s)
        })"

section \<open>Wait queues\<close>

text \<open>A call that may switch away: it returned, or its caller is blocked inside it.\<close>

datatype 'r call = Ret 'r | Blocked

definition WAIT_QUEUE_INITIAL_VALUE :: wait_queue where
  "WAIT_QUEUE_INITIAL_VALUE = \<lparr>wq_magic = WAIT_QUEUE_MAGIC, wq_list = [], wq_count = 0\<rparr>"

definition wait_queue_init :: "wq_id \<Rightarrow> 'a kstate_scheme \<Rightarrow> 'a kstate_scheme" where
  "wait_queue_init w s = upd_wq w (\<lambda>_. WAIT_QUEUE_INITIAL_VALUE) s"

definition wait_queue_block :: "cpu \<Rightarrow> wq_id \<Rightarrow> lk_time_t \<Rightarrow> 'a kstate_scheme \<Rightarrow> (status_t call \<times> 'a kstate_scheme) option" where
  "wait_queue_block cpu w timeout s =
     do {
       let t = current_thread s cpu;
       dassert (wq_magic (wait_queues s w) = WAIT_QUEUE_MAGIC);
       dassert (t_state (threads s t) = THREAD_RUNNING);
       if timeout = 0 then Some (Ret ERR_TIMED_OUT, s)
       else do {
         let s = upd_wq w (\<lambda>q. q\<lparr>wq_list := wq_list q @ [t], wq_count := wq_count q + 1\<rparr>) s;
         let s = upd_thread t (\<lambda>th. th\<lparr>queue_node := True, t_state := THREAD_BLOCKED,
                   blocking_wait_queue := Some w, wait_queue_block_ret := NO_ERROR\<rparr>) s;
         let s = s\<lparr>block_frame := (block_frame s)(t := Some (w, timeout))\<rparr>;
         s \<leftarrow> (if timeout \<noteq> INFINITE_TIME
                then timer_set_oneshot SMP_MAX_CPUS cpu (ThreadTimer t) timeout CbWaitTimeout t
                       (timer_initialize (ThreadTimer t) s)
                else Some s);
         s \<leftarrow> thread_resched cpu s;
         Some (Blocked, s)
       }
     }"

definition wait_queue_block_resume :: "cpu \<Rightarrow> 'a kstate_scheme \<Rightarrow> (status_t \<times> 'a kstate_scheme) option" where
  "wait_queue_block_resume cpu s =
     (let t = current_thread s cpu in
      case block_frame s t of
        None \<Rightarrow> None
      | Some (w, timeout) \<Rightarrow> do {
          s \<leftarrow> (if timeout \<noteq> INFINITE_TIME then timer_cancel cpu (ThreadTimer t) s else Some s);
          Some (wait_queue_block_ret (threads s t), s\<lparr>block_frame := (block_frame s)(t := None)\<rparr>)
        })"

text \<open>What the two wake operations do to a thread they have just taken off the queue.\<close>

definition make_ready :: "status_t \<Rightarrow> thread \<Rightarrow> thread" where
  "make_ready err th = th\<lparr>t_state := THREAD_READY, wait_queue_block_ret := err, blocking_wait_queue := None\<rparr>"

definition wait_queue_wake_one :: "cpu \<Rightarrow> wq_id \<Rightarrow> bool \<Rightarrow> status_t \<Rightarrow> 'a kstate_scheme \<Rightarrow> (int \<times> 'a kstate_scheme) option" where
  "wait_queue_wake_one cpu w resched err s =
     do {
       let cur = current_thread s cpu;
       dassert (wq_magic (wait_queues s w) = WAIT_QUEUE_MAGIC);
       (case wq_list (wait_queues s w) of
          [] \<Rightarrow> Some (0, s)
        | t # ts \<Rightarrow> do {
            let s = upd_thread t (\<lambda>th. th\<lparr>queue_node := False\<rparr>) s;
            let s = upd_wq w (\<lambda>q. q\<lparr>wq_list := ts, wq_count := wq_count q - 1\<rparr>) s;
            dassert (t_state (threads s t) = THREAD_BLOCKED);
            let s = upd_thread t (make_ready err) s;
            s \<leftarrow> (if resched then insert_in_run_queue_head cur
                                     (upd_thread cur (\<lambda>th. th\<lparr>t_state := THREAD_READY\<rparr>) s)
                   else Some s);
            s \<leftarrow> insert_in_run_queue_head t s;
            let s = mp_reschedule cpu MP_CPU_ALL_BUT_LOCAL 0 s;
            s \<leftarrow> (if resched then thread_resched cpu s else Some s);
            Some (1, s)
          })
     }"

fun wake_all_loop :: "wq_id \<Rightarrow> status_t \<Rightarrow> tid list \<Rightarrow> 'a kstate_scheme \<Rightarrow> 'a kstate_scheme option" where
  "wake_all_loop w err [] s = Some s"
| "wake_all_loop w err (t # ts) s =
     do {
       let s = upd_thread t (\<lambda>th. th\<lparr>queue_node := False\<rparr>) s;
       let s = upd_wq w (\<lambda>q. q\<lparr>wq_list := ts, wq_count := wq_count q - 1\<rparr>) s;
       dassert (t_state (threads s t) = THREAD_BLOCKED);
       let s = upd_thread t (make_ready err) s;
       s \<leftarrow> insert_in_run_queue_head t s;
       wake_all_loop w err ts s
     }"

definition wait_queue_wake_all :: "cpu \<Rightarrow> wq_id \<Rightarrow> bool \<Rightarrow> status_t \<Rightarrow> 'a kstate_scheme \<Rightarrow> (int \<times> 'a kstate_scheme) option" where
  "wait_queue_wake_all cpu w resched err s =
     do {
       let cur = current_thread s cpu;
       dassert (wq_magic (wait_queues s w) = WAIT_QUEUE_MAGIC);
       s \<leftarrow> (if resched \<and> wq_count (wait_queues s w) > 0
              then insert_in_run_queue_head cur (upd_thread cur (\<lambda>th. th\<lparr>t_state := THREAD_READY\<rparr>) s)
              else Some s);
       let woken = wq_list (wait_queues s w);
       s \<leftarrow> wake_all_loop w err woken s;
       dassert (wq_count (wait_queues s w) = 0);
       s \<leftarrow> (if length woken > 0 then do {
                let s = mp_reschedule cpu MP_CPU_ALL_BUT_LOCAL 0 s;
                if resched then thread_resched cpu s else Some s
              } else Some s);
       Some (int (length woken), s)
     }"

text \<open>
  With \<open>resched\<close> and somebody to wake, \<^verbatim>\<open>wait_queue_destroy\<close> clears the magic number only when its caller
  runs again.
\<close>

definition wait_queue_destroy_finish :: "wq_id \<Rightarrow> 'a kstate_scheme \<Rightarrow> 'a kstate_scheme" where
  "wait_queue_destroy_finish w s = upd_wq w (\<lambda>q. q\<lparr>wq_magic := 0\<rparr>) s"

definition wait_queue_destroy :: "cpu \<Rightarrow> wq_id \<Rightarrow> bool \<Rightarrow> 'a kstate_scheme \<Rightarrow> (unit call \<times> 'a kstate_scheme) option" where
  "wait_queue_destroy cpu w resched s =
     do {
       dassert (wq_magic (wait_queues s w) = WAIT_QUEUE_MAGIC);
       (woken, s) \<leftarrow> wait_queue_wake_all cpu w resched ERR_OBJECT_DESTROYED s;
       Some (if resched \<and> woken > 0 then (Blocked, s) else (Ret (), wait_queue_destroy_finish w s))
     }"

definition thread_unblock_from_wait_queue :: "cpu \<Rightarrow> tid \<Rightarrow> status_t \<Rightarrow> 'a kstate_scheme \<Rightarrow> (status_t \<times> 'a kstate_scheme) option" where
  "thread_unblock_from_wait_queue cpu t err s =
     do {
       dassert (t_magic (threads s t) = THREAD_MAGIC);
       if t_state (threads s t) \<noteq> THREAD_BLOCKED then Some (ERR_NOT_BLOCKED, s)
       else (case blocking_wait_queue (threads s t) of
          None \<Rightarrow> None
        | Some w \<Rightarrow> do {
            dassert (wq_magic (wait_queues s w) = WAIT_QUEUE_MAGIC);
            dassert (queue_node (threads s t));
            let s = upd_thread t (\<lambda>th. th\<lparr>queue_node := False\<rparr>) s;
            let s = upd_wq w (\<lambda>q. q\<lparr>wq_list := remove1 t (wq_list q), wq_count := wq_count q - 1\<rparr>) s;
            let s = upd_thread t (make_ready err) s;
            s \<leftarrow> insert_in_run_queue_head t s;
            Some (NO_ERROR, mp_reschedule cpu MP_CPU_ALL_BUT_LOCAL 0 s)
          })
     }"

section \<open>The life of a thread\<close>

definition zero_thread :: thread where
  "zero_thread = \<lparr>t_magic = 0, queue_node = False, priority = 0, t_state = THREAD_SUSPENDED,
     remaining_quantum = 0, t_flags = 0, curr_cpu = 0, pinned_cpu = 0, t_aspace = None,
     blocking_wait_queue = None, wait_queue_block_ret = 0, t_stack = None, t_stack_size = 0,
     t_entry = 0, t_arg = 0, t_retcode = 0, t_name = []\<rparr>"

definition init_thread_struct :: "tid \<Rightarrow> string \<Rightarrow> 'a kstate_scheme \<Rightarrow> 'a kstate_scheme" where
  "init_thread_struct t name s =
     upd_thread t (\<lambda>_. zero_thread\<lparr>t_magic := THREAD_MAGIC, pinned_cpu := -1, t_name := take 31 name\<rparr>) s"

text \<open>
  \<open>malloc_t\<close> and \<open>malloc_stack\<close> are what the heap returns for the thread structure and for a stack of a
  given size; \<open>arch_thread_initialize\<close> is the architecture's set-up of the initial stack frame. A
  stack handed in by the caller is given by its contents.
\<close>

definition thread_create_etc ::
  "(thread \<Rightarrow> thread) \<Rightarrow> tid option \<Rightarrow> (nat \<Rightarrow> u8 list option) \<Rightarrow> tid option \<Rightarrow> string \<Rightarrow> nat \<Rightarrow> nat \<Rightarrow>
     int \<Rightarrow> u8 list option \<Rightarrow> nat \<Rightarrow> 'a kstate_scheme \<Rightarrow> tid option \<times> 'a kstate_scheme" where
  "thread_create_etc arch_thread_initialize malloc_t malloc_stack topt name entry arg prio stack stack_size s =
     (case (case topt of None \<Rightarrow> malloc_t | Some t \<Rightarrow> Some t) of
        None \<Rightarrow> (None, s)
      | Some t \<Rightarrow>
          let flags = (if topt = None then THREAD_FLAG_FREE_STRUCT else 0);
              s = init_thread_struct t name s;
              s = upd_thread t (\<lambda>th. th\<lparr>t_entry := entry, t_arg := arg, priority := prio,
                    t_state := THREAD_SUSPENDED, blocking_wait_queue := None, wait_queue_block_ret := NO_ERROR,
                    curr_cpu := -1, t_retcode := 0, t_aspace := None\<rparr>) s;
              s = wait_queue_init (RetcodeWq t) s;
              size = (if stack = None then stack_size + THREAD_STACK_PADDING_SIZE else stack_size);
              flags = (if stack = None then flags OR THREAD_FLAG_DEBUG_STACK_BOUNDS_CHECK else flags)
          in (case (case stack of None \<Rightarrow> malloc_stack size | Some st \<Rightarrow> Some st) of
                None \<Rightarrow>
                  (None, if flags AND THREAD_FLAG_FREE_STRUCT \<noteq> 0 then s\<lparr>freed := freed s @ [Free_thread t]\<rparr> else s)
              | Some st \<Rightarrow>
                  let flags = (if stack = None then flags OR THREAD_FLAG_FREE_STACK else flags);
                      st = replicate size STACK_DEBUG_BYTE @ drop size st;
                      s = upd_thread t (\<lambda>th. th\<lparr>t_stack := Some st, t_stack_size := size, t_flags := flags\<rparr>) s;
                      s = upd_thread t arch_thread_initialize s
                  in (Some t, s\<lparr>thread_list := t # thread_list s\<rparr>)))"

definition thread_create ::
  "(thread \<Rightarrow> thread) \<Rightarrow> tid option \<Rightarrow> (nat \<Rightarrow> u8 list option) \<Rightarrow> string \<Rightarrow> nat \<Rightarrow> nat \<Rightarrow>
     int \<Rightarrow> nat \<Rightarrow> 'a kstate_scheme \<Rightarrow> tid option \<times> 'a kstate_scheme" where
  "thread_create arch_thread_initialize malloc_t malloc_stack name entry arg prio stack_size s =
     thread_create_etc arch_thread_initialize malloc_t malloc_stack None name entry arg prio None stack_size s"

text \<open>\<open>ints_disabled\<close> is \<^verbatim>\<open>arch_ints_disabled()\<close> on entry: true only while booting and in interrupt handlers.\<close>

definition thread_resume :: "cpu \<Rightarrow> bool \<Rightarrow> tid \<Rightarrow> 'a kstate_scheme \<Rightarrow> (status_t \<times> 'a kstate_scheme) option" where
  "thread_resume cpu ints_disabled t s =
     do {
       dassert (t_magic (threads s t) = THREAD_MAGIC);
       dassert (t_state (threads s t) \<noteq> THREAD_DEATH);
       let suspended = (t_state (threads s t) = THREAD_SUSPENDED);
       s \<leftarrow> (if suspended
              then insert_in_run_queue_head t (upd_thread t (\<lambda>th. th\<lparr>t_state := THREAD_READY\<rparr>) s)
              else Some s);
       let s = mp_reschedule cpu MP_CPU_ALL_BUT_LOCAL 0 s;
       s \<leftarrow> (if suspended \<and> \<not> ints_disabled then thread_yield cpu s else Some s);
       Some (NO_ERROR, s)
     }"

text \<open>The end of \<^verbatim>\<open>thread_join\<close>, once the thread is known to be dead.\<close>

definition thread_join_finish :: "tid \<Rightarrow> 'a kstate_scheme \<Rightarrow> ((status_t \<times> int option) \<times> 'a kstate_scheme) option" where
  "thread_join_finish t s =
     do {
       dassert (t_magic (threads s t) = THREAD_MAGIC);
       dassert (t_state (threads s t) = THREAD_DEATH);
       dassert (blocking_wait_queue (threads s t) = None);
       dassert (\<not> queue_node (threads s t));
       let rc = t_retcode (threads s t);
       let s = s\<lparr>thread_list := remove1 t (thread_list s)\<rparr>;
       let s = upd_thread t (\<lambda>th. th\<lparr>t_magic := 0\<rparr>) s;
       let s = (if t_flags (threads s t) AND THREAD_FLAG_FREE_STACK \<noteq> 0 \<and> t_stack (threads s t) \<noteq> None
                then s\<lparr>freed := freed s @ [Free_stack t]\<rparr> else s);
       let s = (if t_flags (threads s t) AND THREAD_FLAG_FREE_STRUCT \<noteq> 0
                then s\<lparr>freed := freed s @ [Free_thread t]\<rparr> else s);
       Some ((NO_ERROR, Some rc), s)
     }"

definition thread_join ::
  "cpu \<Rightarrow> tid \<Rightarrow> lk_time_t \<Rightarrow> 'a kstate_scheme \<Rightarrow> ((status_t \<times> int option) call \<times> 'a kstate_scheme) option" where
  "thread_join cpu t timeout s =
     do {
       dassert (t_magic (threads s t) = THREAD_MAGIC);
       if t_flags (threads s t) AND THREAD_FLAG_DETACHED \<noteq> 0 then Some (Ret (ERR_THREAD_DETACHED, None), s)
       else if t_state (threads s t) \<noteq> THREAD_DEATH then do {
         (r, s) \<leftarrow> wait_queue_block cpu (RetcodeWq t) timeout s;
         (case r of
            Blocked \<Rightarrow> Some (Blocked, s)
          | Ret err \<Rightarrow>
              if err < 0 then Some (Ret (err, None), s)
              else do { (r, s) \<leftarrow> thread_join_finish t s; Some (Ret r, s) })
       } else do { (r, s) \<leftarrow> thread_join_finish t s; Some (Ret r, s) }
     }"

definition thread_join_resume ::
  "cpu \<Rightarrow> tid \<Rightarrow> 'a kstate_scheme \<Rightarrow> ((status_t \<times> int option) \<times> 'a kstate_scheme) option" where
  "thread_join_resume cpu t s =
     do {
       (err, s) \<leftarrow> wait_queue_block_resume cpu s;
       if err < 0 then Some ((err, None), s) else thread_join_finish t s
     }"

definition thread_detach :: "cpu \<Rightarrow> tid \<Rightarrow> 'a kstate_scheme \<Rightarrow> (status_t call \<times> 'a kstate_scheme) option" where
  "thread_detach cpu t s =
     do {
       dassert (t_magic (threads s t) = THREAD_MAGIC);
       (_, s) \<leftarrow> wait_queue_wake_all cpu (RetcodeWq t) False ERR_THREAD_DETACHED s;
       if t_state (threads s t) = THREAD_DEATH then do {
         let s = upd_thread t (\<lambda>th. th\<lparr>t_flags := t_flags th AND NOT THREAD_FLAG_DETACHED\<rparr>) s;
         (r, s) \<leftarrow> thread_join cpu t 0 s;
         Some (case r of Blocked \<Rightarrow> Blocked | Ret (err, _) \<Rightarrow> Ret err, s)
       } else
         Some (Ret NO_ERROR, upd_thread t (\<lambda>th. th\<lparr>t_flags := t_flags th OR THREAD_FLAG_DETACHED\<rparr>) s)
     }"

definition thread_detach_and_resume :: "cpu \<Rightarrow> bool \<Rightarrow> tid \<Rightarrow> 'a kstate_scheme \<Rightarrow> (status_t call \<times> 'a kstate_scheme) option" where
  "thread_detach_and_resume cpu ints_disabled t s =
     do {
       (r, s) \<leftarrow> thread_detach cpu t s;
       (case r of
          Blocked \<Rightarrow> Some (Blocked, s)
        | Ret err \<Rightarrow>
            if err < 0 then Some (Ret err, s)
            else do { (e, s) \<leftarrow> thread_resume cpu ints_disabled t s; Some (Ret e, s) })
     }"

text \<open>The teardown \<^verbatim>\<open>thread_exit\<close> does itself when nobody will join the thread.\<close>

definition thread_exit_teardown :: "tid \<Rightarrow> 'a kstate_scheme \<Rightarrow> 'a kstate_scheme" where
  "thread_exit_teardown t s =
     (let s = s\<lparr>thread_list := remove1 t (thread_list s)\<rparr>;
          s = upd_thread t (\<lambda>th. th\<lparr>t_magic := 0\<rparr>) s;
          s = (if t_flags (threads s t) AND THREAD_FLAG_FREE_STACK \<noteq> 0 \<and> t_stack (threads s t) \<noteq> None
               then upd_thread t (\<lambda>th. th\<lparr>t_flags := t_flags th AND NOT THREAD_FLAG_DEBUG_STACK_BOUNDS_CHECK\<rparr>)
                      (s\<lparr>freed := freed s @ [Heap_delayed_free_stack t]\<rparr>)
               else s)
      in (if t_flags (threads s t) AND THREAD_FLAG_FREE_STRUCT \<noteq> 0
          then s\<lparr>freed := freed s @ [Heap_delayed_free_thread t]\<rparr> else s))"

text \<open>The last assertion is the \<^verbatim>\<open>panic\<close> after the switch: the thread must never be picked again.\<close>

definition thread_exit :: "cpu \<Rightarrow> int \<Rightarrow> 'a kstate_scheme \<Rightarrow> 'a kstate_scheme option" where
  "thread_exit cpu retcode s =
     do {
       let t = current_thread s cpu;
       dassert (t_magic (threads s t) = THREAD_MAGIC);
       dassert (t_state (threads s t) = THREAD_RUNNING);
       dassert (\<not> thread_is_idle (threads s t));
       let s = upd_thread t (\<lambda>th. th\<lparr>t_state := THREAD_DEATH, t_retcode := retcode\<rparr>) s;
       s \<leftarrow> (if t_flags (threads s t) AND THREAD_FLAG_DETACHED \<noteq> 0 then Some (thread_exit_teardown t s)
              else do {
                (_, s) \<leftarrow> wait_queue_wake_all cpu (RetcodeWq t) False 0 s;
                Some s
              });
       s \<leftarrow> thread_resched cpu s;
       dassert (current_thread s cpu \<noteq> t);
       Some s
     }"

section \<open>Timer callbacks and sleeping\<close>

definition thread_timer_tick :: "cpu \<Rightarrow> 'a kstate_scheme \<Rightarrow> handler_return \<times> 'a kstate_scheme" where
  "thread_timer_tick cpu s =
     (let t = current_thread s cpu in
      if thread_is_real_time_or_idle (threads s t) then (INT_NO_RESCHEDULE, s)
      else
        let s = upd_thread t (\<lambda>th. th\<lparr>remaining_quantum := remaining_quantum th - 1\<rparr>) s
        in (if remaining_quantum (threads s t) \<le> 0 then INT_RESCHEDULE else INT_NO_RESCHEDULE, s))"

definition thread_sleep_handler :: "tid \<Rightarrow> 'a kstate_scheme \<Rightarrow> (handler_return \<times> 'a kstate_scheme) option" where
  "thread_sleep_handler t s =
     do {
       dassert (t_magic (threads s t) = THREAD_MAGIC);
       dassert (t_state (threads s t) = THREAD_SLEEPING);
       s \<leftarrow> insert_in_run_queue_head t (upd_thread t (\<lambda>th. th\<lparr>t_state := THREAD_READY\<rparr>) s);
       Some (INT_RESCHEDULE, s)
     }"

definition wait_queue_timeout_handler :: "cpu \<Rightarrow> tid \<Rightarrow> 'a kstate_scheme \<Rightarrow> (handler_return \<times> 'a kstate_scheme) option" where
  "wait_queue_timeout_handler cpu t s =
     do {
       dassert (t_magic (threads s t) = THREAD_MAGIC);
       (err, s) \<leftarrow> thread_unblock_from_wait_queue cpu t ERR_TIMED_OUT s;
       Some (if err \<ge> NO_ERROR then INT_RESCHEDULE else INT_NO_RESCHEDULE, s)
     }"

definition thread_sleep :: "cpu \<Rightarrow> lk_time_t \<Rightarrow> 'a kstate_scheme \<Rightarrow> 'a kstate_scheme option" where
  "thread_sleep cpu delay s =
     do {
       let t = current_thread s cpu;
       dassert (t_magic (threads s t) = THREAD_MAGIC);
       dassert (t_state (threads s t) = THREAD_RUNNING);
       dassert (\<not> thread_is_idle (threads s t));
       let s = timer_initialize (ThreadTimer t) s;
       s \<leftarrow> timer_set_oneshot SMP_MAX_CPUS cpu (ThreadTimer t) delay CbThreadSleep t s;
       let s = upd_thread t (\<lambda>th. th\<lparr>t_state := THREAD_SLEEPING\<rparr>) s;
       thread_resched cpu s
     }"

text \<open>The indirect call of a timer's callback; \<open>user\<close> runs a callback installed by other code.\<close>

definition timer_callback_run ::
  "(nat \<Rightarrow> timer_id \<Rightarrow> lk_time_t \<Rightarrow> 'a kstate_scheme \<Rightarrow> (handler_return \<times> 'a kstate_scheme) option) \<Rightarrow>
     cpu \<Rightarrow> timer_id \<Rightarrow> lk_time_t \<Rightarrow> 'a kstate_scheme \<Rightarrow> (handler_return \<times> 'a kstate_scheme) option" where
  "timer_callback_run user cpu tm now s =
     (case tm_callback (timers s tm) of
        CbNone \<Rightarrow> None
      | CbThreadTimerTick \<Rightarrow> Some (thread_timer_tick cpu s)
      | CbThreadSleep \<Rightarrow> thread_sleep_handler (tm_arg (timers s tm)) s
      | CbWaitTimeout \<Rightarrow> wait_queue_timeout_handler cpu (tm_arg (timers s tm)) s
      | CbUser n \<Rightarrow> user n tm now s)"

section \<open>Starting up\<close>

definition thread_init_early :: "'a kstate_scheme \<Rightarrow> 'a kstate_scheme" where
  "thread_init_early s =
     (let s = s\<lparr>run_queue := (\<lambda>p. if p < NUM_PRIORITIES then [] else run_queue s p), thread_list := []\<rparr>;
          t = idle_thread 0;
          s = init_thread_struct t ''bootstrap'' s;
          s = upd_thread t (\<lambda>th. th\<lparr>priority := HIGHEST_PRIORITY, t_state := THREAD_RUNNING,
                t_flags := THREAD_FLAG_DETACHED, curr_cpu := 0, pinned_cpu := 0\<rparr>) s;
          s = wait_queue_init (RetcodeWq t) s
      in s\<lparr>thread_list := t # thread_list s, current_thread := (current_thread s)(0 := t)\<rparr>)"

definition thread_init :: "'a kstate_scheme \<Rightarrow> 'a kstate_scheme" where
  "thread_init s = fold (\<lambda>i. timer_initialize (PreemptTimer i)) [0..<SMP_MAX_CPUS] s"

fun digit_string :: "nat \<Rightarrow> string" where
  "digit_string n = (if n < 10 then [char_of (48 + n)] else digit_string (n div 10) @ [char_of (48 + n mod 10)])"

declare digit_string.simps [simp del]

definition thread_become_idle :: "cpu \<Rightarrow> 'a kstate_scheme \<Rightarrow> 'a kstate_scheme option" where
  "thread_become_idle cpu s =
     (let t = current_thread s cpu;
          s = thread_set_name cpu (''idle '' @ digit_string cpu) s;
          s = upd_thread t (\<lambda>th. th\<lparr>priority := IDLE_PRIORITY, t_flags := t_flags th OR THREAD_FLAG_IDLE,
                pinned_cpu := int cpu\<rparr>) s;
          s = mp_set_curr_cpu_active cpu s;
          s = mp_set_cpu_idle cpu s
      in thread_yield cpu s)"

definition thread_secondary_cpu_init_early :: "cpu \<Rightarrow> 'a kstate_scheme \<Rightarrow> 'a kstate_scheme" where
  "thread_secondary_cpu_init_early cpu s =
     (let t = idle_thread cpu;
          s = init_thread_struct t (''idle '' @ digit_string cpu) s;
          s = upd_thread t (\<lambda>th. th\<lparr>pinned_cpu := int cpu, priority := HIGHEST_PRIORITY,
                t_state := THREAD_RUNNING, t_flags := THREAD_FLAG_DETACHED OR THREAD_FLAG_IDLE,
                curr_cpu := int cpu\<rparr>) s;
          s = wait_queue_init (RetcodeWq t) s
      in s\<lparr>thread_list := t # thread_list s, current_thread := (current_thread s)(cpu := t)\<rparr>)"

definition thread_secondary_cpu_entry :: "cpu \<Rightarrow> 'a kstate_scheme \<Rightarrow> 'a kstate_scheme option" where
  "thread_secondary_cpu_entry cpu s =
     (let s = upd_thread (current_thread s cpu) (\<lambda>th. th\<lparr>priority := IDLE_PRIORITY\<rparr>) s;
          s = mp_set_curr_cpu_active cpu s;
          s = mp_set_cpu_idle cpu s
      in thread_yield cpu s)"

section \<open>Diagnostics\<close>

definition thread_state_to_str :: "thread_state \<Rightarrow> string" where
  "thread_state_to_str st =
     (case st of THREAD_SUSPENDED \<Rightarrow> ''susp'' | THREAD_READY \<Rightarrow> ''rdy'' | THREAD_RUNNING \<Rightarrow> ''run''
      | THREAD_BLOCKED \<Rightarrow> ''blok'' | THREAD_SLEEPING \<Rightarrow> ''slep'' | THREAD_DEATH \<Rightarrow> ''deth'')"

definition thread_stack_used :: "thread \<Rightarrow> nat" where
  "thread_stack_used t =
     (case t_stack t of None \<Rightarrow> 0
      | Some st \<Rightarrow> t_stack_size t - length (takeWhile (\<lambda>b. b = STACK_DEBUG_BYTE) (take (t_stack_size t) st)))"

end
