(* ===== verification/LK_Sched.thy ===== *)
theory LK_Sched
  imports LK_Thread
begin

text \<open>
  The invariant of the scheduler state and its preservation by every operation of \<open>LK_Thread\<close>. While an
  operation is under way some threads are in no queue although their state says so, and a cpu that is
  switching has no running thread: the invariant therefore has two parameters, the set of cpus that are
  switching and the set of threads in transit. Between operations both are empty.
\<close>

section \<open>The invariant\<close>

definition live :: "'a kstate_scheme \<Rightarrow> tid \<Rightarrow> bool" where
  "live s t \<longleftrightarrow> t \<in> set (thread_list s)"

definition cpu_up :: "'a kstate_scheme \<Rightarrow> cpu \<Rightarrow> bool" where
  "cpu_up s c \<longleftrightarrow> c < SMP_MAX_CPUS \<and> live s (idle_thread c)"

text \<open>The run queues hold exactly the ready threads, at their priority, and the bitmap says which are in use.\<close>

definition rq_inv :: "tid set \<Rightarrow> 'a kstate_scheme \<Rightarrow> bool" where
  "rq_inv D s \<longleftrightarrow>
     (\<forall>p t. t \<in> set (run_queue s p) \<longleftrightarrow> live s t \<and> t \<notin> D \<and> t_state (threads s t) = THREAD_READY \<and>
        \<not> thread_is_idle (threads s t) \<and> priority (threads s t) = int p) \<and>
     (\<forall>p. distinct (run_queue s p)) \<and>
     (\<forall>p. bit (run_queue_bitmap s) p \<longleftrightarrow> run_queue s p \<noteq> [])"

text \<open>A wait queue holds exactly the threads blocked on it, and counts them.\<close>

definition wq_inv :: "tid set \<Rightarrow> 'a kstate_scheme \<Rightarrow> bool" where
  "wq_inv D s \<longleftrightarrow>
     (\<forall>w t. t \<in> set (wq_list (wait_queues s w)) \<longleftrightarrow> live s t \<and> t \<notin> D \<and>
        t_state (threads s t) = THREAD_BLOCKED \<and> blocking_wait_queue (threads s t) = Some w) \<and>
     (\<forall>w. distinct (wq_list (wait_queues s w)) \<and>
        wq_count (wait_queues s w) = int (length (wq_list (wait_queues s w))) \<and>
        (wq_list (wait_queues s w) \<noteq> [] \<longrightarrow> wq_magic (wait_queues s w) = WAIT_QUEUE_MAGIC))"

definition thread_ok :: "tid set \<Rightarrow> 'a kstate_scheme \<Rightarrow> tid \<Rightarrow> bool" where
  "thread_ok D s t \<longleftrightarrow>
     t_magic (threads s t) = THREAD_MAGIC \<and>
     0 \<le> priority (threads s t) \<and> priority (threads s t) < int NUM_PRIORITIES \<and>
     (queue_node (threads s t) \<longleftrightarrow> t \<notin> D \<and>
        (t_state (threads s t) = THREAD_READY \<and> \<not> thread_is_idle (threads s t) \<or>
         t_state (threads s t) = THREAD_BLOCKED)) \<and>
     (t \<notin> D \<longrightarrow> (blocking_wait_queue (threads s t) = None \<longleftrightarrow> t_state (threads s t) \<noteq> THREAD_BLOCKED)) \<and>
     (thread_is_idle (threads s t) \<longrightarrow> (\<exists>c<SMP_MAX_CPUS. t = idle_thread c)) \<and>
     wq_magic (wait_queues s (RetcodeWq t)) = WAIT_QUEUE_MAGIC"

text \<open>No thread waits for a thread that is gone, dead or detached.\<close>

definition join_inv :: "tid set \<Rightarrow> 'a kstate_scheme \<Rightarrow> bool" where
  "join_inv D s \<longleftrightarrow>
     (\<forall>t. \<not> live s t \<or> t \<notin> D \<and> t_state (threads s t) = THREAD_DEATH \<or>
        t_flags (threads s t) AND THREAD_FLAG_DETACHED \<noteq> 0 \<longrightarrow> wq_list (wait_queues s (RetcodeWq t)) = [])"

definition th_inv :: "tid set \<Rightarrow> 'a kstate_scheme \<Rightarrow> bool" where
  "th_inv D s \<longleftrightarrow>
     distinct (thread_list s) \<and> (\<forall>t. live s t \<longrightarrow> thread_ok D s t) \<and> (\<forall>t. \<not> stack_overrun (threads s t))"

text \<open>Every cpu runs one thread that may run there, and no thread runs elsewhere.\<close>

definition cpu_inv :: "cpu set \<Rightarrow> tid set \<Rightarrow> 'a kstate_scheme \<Rightarrow> bool" where
  "cpu_inv sw D s \<longleftrightarrow>
     (\<forall>c. cpu_up s c \<and> c \<notin> sw \<longrightarrow>
        live s (current_thread s c) \<and> current_thread s c \<notin> D \<and>
        t_state (threads s (current_thread s c)) = THREAD_RUNNING \<and>
        curr_cpu (threads s (current_thread s c)) = int c \<and>
        may_run_on c (threads s (current_thread s c))) \<and>
     (\<forall>t. live s t \<and> t \<notin> D \<and> t_state (threads s t) = THREAD_RUNNING \<longrightarrow>
        (\<exists>c. cpu_up s c \<and> c \<notin> sw \<and> current_thread s c = t)) \<and>
     (\<forall>c. cpu_up s c \<longrightarrow>
        thread_is_idle (threads s (idle_thread c)) \<and> pinned_cpu (threads s (idle_thread c)) = int c \<and>
        (idle_thread c \<notin> D \<longrightarrow> t_state (threads s (idle_thread c)) \<in> {THREAD_READY, THREAD_RUNNING}))"

text \<open>A thread inside \<^verbatim>\<open>wait_queue_block\<close> has a frame there, from the moment it blocks until it has run again.\<close>

definition frame_inv :: "tid set \<Rightarrow> 'a kstate_scheme \<Rightarrow> bool" where
  "frame_inv D s \<longleftrightarrow>
     (\<forall>t. block_frame s t \<noteq> None \<longrightarrow> live s t \<and> \<not> thread_is_idle (threads s t)) \<and>
     (\<forall>t. live s t \<and> t \<notin> D \<longrightarrow>
        (t_state (threads s t) = THREAD_BLOCKED \<longrightarrow>
           (\<exists>w timeout. block_frame s t = Some (w, timeout) \<and> blocking_wait_queue (threads s t) = Some w)) \<and>
        (block_frame s t \<noteq> None \<longrightarrow>
           t_state (threads s t) \<in> {THREAD_BLOCKED, THREAD_READY, THREAD_RUNNING}))"

text \<open>
  The timers: a cpu's preemption timer runs only while the cpu runs a thread that can be preempted; the
  timer of a thread runs only while the thread sleeps or is inside a wait with a timeout, and then it
  does run.
\<close>

definition timed_wait :: "'a kstate_scheme \<Rightarrow> tid \<Rightarrow> bool" where
  "timed_wait s t \<longleftrightarrow> (\<exists>w timeout. block_frame s t = Some (w, timeout) \<and> timeout \<noteq> INFINITE_TIME)"

definition thread_timer_ok :: "'a kstate_scheme \<Rightarrow> tid \<Rightarrow> bool" where
  "thread_timer_ok s t \<longleftrightarrow>
     live s t \<and> tm_magic (timers s (ThreadTimer t)) = TIMER_MAGIC \<and> tm_arg (timers s (ThreadTimer t)) = t \<and>
     periodic_time (timers s (ThreadTimer t)) = 0 \<and>
     (tm_callback (timers s (ThreadTimer t)) = CbThreadSleep \<and> t_state (threads s t) = THREAD_SLEEPING \<or>
      tm_callback (timers s (ThreadTimer t)) = CbWaitTimeout \<and> timed_wait s t)"

definition timer_inv :: "cpu set \<Rightarrow> tid set \<Rightarrow> 'a kstate_scheme \<Rightarrow> bool" where
  "timer_inv sw D s \<longleftrightarrow>
     (\<forall>c. distinct (timer_queue s c)) \<and>
     (\<forall>tm c c'. tm \<in> set (timer_queue s c) \<and> tm \<in> set (timer_queue s c') \<longrightarrow> c = c') \<and>
     (\<forall>c tm. tm \<in> set (timer_queue s c) \<longrightarrow> c < SMP_MAX_CPUS) \<and>
     (\<forall>c<SMP_MAX_CPUS. tm_magic (timers s (PreemptTimer c)) = TIMER_MAGIC) \<and>
     (\<forall>c c'. PreemptTimer c' \<in> set (timer_queue s c) \<longrightarrow> c' = c \<and> cpu_up s c \<and>
        tm_callback (timers s (PreemptTimer c)) = CbThreadTimerTick \<and>
        (c \<notin> sw \<longrightarrow> \<not> thread_is_real_time_or_idle (threads s (current_thread s c)))) \<and>
     (\<forall>c t. ThreadTimer t \<in> set (timer_queue s c) \<and> t \<notin> D \<longrightarrow> thread_timer_ok s t) \<and>
     (\<forall>c n. UserTimer n \<in> set (timer_queue s c) \<longrightarrow>
        tm_magic (timers s (UserTimer n)) = TIMER_MAGIC \<and> (\<exists>k. tm_callback (timers s (UserTimer n)) = CbUser k)) \<and>
     (\<forall>t. live s t \<and> t \<notin> D \<and> (t_state (threads s t) = THREAD_SLEEPING \<or>
             t_state (threads s t) = THREAD_BLOCKED \<and> timed_wait s t) \<longrightarrow>
        (\<exists>c. ThreadTimer t \<in> set (timer_queue s c))) \<and>
     (\<forall>t. timed_wait s t \<longrightarrow> tm_magic (timers s (ThreadTimer t)) = TIMER_MAGIC)"

definition kinv :: "cpu set \<Rightarrow> tid set \<Rightarrow> 'a kstate_scheme \<Rightarrow> bool" where
  "kinv sw D s \<longleftrightarrow> rq_inv D s \<and> wq_inv D s \<and> th_inv D s \<and> join_inv D s \<and> cpu_inv sw D s \<and>
     frame_inv D s \<and> timer_inv sw D s"

lemmas inv_defs = rq_inv_def wq_inv_def th_inv_def join_inv_def cpu_inv_def frame_inv_def timer_inv_def
lemmas aux_defs = live_def cpu_up_def thread_ok_def thread_timer_ok_def timed_wait_def

lemma timer_invI:
  assumes "\<And>c. distinct (timer_queue s c)"
    and "\<And>tm c c'. tm \<in> set (timer_queue s c) \<Longrightarrow> tm \<in> set (timer_queue s c') \<Longrightarrow> c = c'"
    and "\<And>c tm. tm \<in> set (timer_queue s c) \<Longrightarrow> c < SMP_MAX_CPUS"
    and "\<And>c. c < SMP_MAX_CPUS \<Longrightarrow> tm_magic (timers s (PreemptTimer c)) = TIMER_MAGIC"
    and "\<And>c c'. PreemptTimer c' \<in> set (timer_queue s c) \<Longrightarrow> c' = c \<and> cpu_up s c \<and>
        tm_callback (timers s (PreemptTimer c)) = CbThreadTimerTick \<and>
        (c \<notin> sw \<longrightarrow> \<not> thread_is_real_time_or_idle (threads s (current_thread s c)))"
    and "\<And>c t. ThreadTimer t \<in> set (timer_queue s c) \<Longrightarrow> t \<notin> D \<Longrightarrow> thread_timer_ok s t"
    and "\<And>c n. UserTimer n \<in> set (timer_queue s c) \<Longrightarrow>
        tm_magic (timers s (UserTimer n)) = TIMER_MAGIC \<and> (\<exists>k. tm_callback (timers s (UserTimer n)) = CbUser k)"
    and "\<And>t. live s t \<Longrightarrow> t \<notin> D \<Longrightarrow> t_state (threads s t) = THREAD_SLEEPING \<or>
             t_state (threads s t) = THREAD_BLOCKED \<and> timed_wait s t \<Longrightarrow>
        \<exists>c. ThreadTimer t \<in> set (timer_queue s c)"
    and "\<And>t. timed_wait s t \<Longrightarrow> tm_magic (timers s (ThreadTimer t)) = TIMER_MAGIC"
  shows "timer_inv sw D s"
  unfolding timer_inv_def
  by (intro conjI allI impI; (elim conjE)?; (rule assms(1-4) assms(5) [THEN conjunct1] assms(6-))?)
    (use assms(5,7) in blast)+

lemma timer_invD:
  assumes "timer_inv sw D s"
  shows "distinct (timer_queue s c)"
    and "tm \<in> set (timer_queue s c) \<Longrightarrow> tm \<in> set (timer_queue s c') \<Longrightarrow> c = c'"
    and "tm \<in> set (timer_queue s c) \<Longrightarrow> c < SMP_MAX_CPUS"
    and "c < SMP_MAX_CPUS \<Longrightarrow> tm_magic (timers s (PreemptTimer c)) = TIMER_MAGIC"
    and "PreemptTimer c' \<in> set (timer_queue s c) \<Longrightarrow> c' = c \<and> cpu_up s c \<and>
        tm_callback (timers s (PreemptTimer c)) = CbThreadTimerTick \<and>
        (c \<notin> sw \<longrightarrow> \<not> thread_is_real_time_or_idle (threads s (current_thread s c)))"
    and "ThreadTimer t \<in> set (timer_queue s c) \<Longrightarrow> t \<notin> D \<Longrightarrow> thread_timer_ok s t"
    and "UserTimer n \<in> set (timer_queue s c) \<Longrightarrow>
        tm_magic (timers s (UserTimer n)) = TIMER_MAGIC \<and> (\<exists>k. tm_callback (timers s (UserTimer n)) = CbUser k)"
    and "live s t \<Longrightarrow> t \<notin> D \<Longrightarrow> t_state (threads s t) = THREAD_SLEEPING \<or>
             t_state (threads s t) = THREAD_BLOCKED \<and> timed_wait s t \<Longrightarrow>
        \<exists>c. ThreadTimer t \<in> set (timer_queue s c)"
    and "timed_wait s t \<Longrightarrow> tm_magic (timers s (ThreadTimer t)) = TIMER_MAGIC"
  using assms unfolding timer_inv_def by blast+

section \<open>What the invariant does not look at\<close>

lemma kinv_cong:
  assumes "threads s' = threads s" and "thread_list s' = thread_list s" and "run_queue s' = run_queue s"
    and "run_queue_bitmap s' = run_queue_bitmap s" and "wait_queues s' = wait_queues s"
    and "current_thread s' = current_thread s" and "block_frame s' = block_frame s"
    and "timers s' = timers s" and "timer_queue s' = timer_queue s"
  shows "kinv sw D s' = kinv sw D s"
  unfolding kinv_def inv_defs aux_defs assms ..

lemma kinv_frame [lk_frame, simp]:
  "kinv sw D (stats_upd cpu f s) = kinv sw D s"
  "kinv sw D (mp_reschedule cpu m fl s) = kinv sw D s"
  "kinv sw D (mp_set_curr_cpu_active cpu s) = kinv sw D s"
  "kinv sw D (mp_set_cpu_idle cpu s) = kinv sw D s"
  "kinv sw D (mp_set_cpu_busy cpu s) = kinv sw D s"
  "kinv sw D (mp_set_cpu_realtime cpu s) = kinv sw D s"
  "kinv sw D (mp_set_cpu_non_realtime cpu s) = kinv sw D s"
  "kinv sw D (vmm_context_switch cpu a s) = kinv sw D s"
  "kinv sw D (s\<lparr>freed := fr\<rparr>) = kinv sw D s"
  by (rule kinv_cong; simp add: stats_upd_def mp_reschedule_def mp_set_curr_cpu_active_def mp_set_cpu_idle_def
      mp_set_cpu_busy_def mp_set_cpu_realtime_def mp_set_cpu_non_realtime_def vmm_context_switch_def Let_def)+

section \<open>Elementary steps\<close>

lemma upd_thread_sel [simp]:
  "threads (upd_thread t f s) = (threads s)(t := f (threads s t))"
  "thread_list (upd_thread t f s) = thread_list s"
  "run_queue (upd_thread t f s) = run_queue s"
  "run_queue_bitmap (upd_thread t f s) = run_queue_bitmap s"
  "wait_queues (upd_thread t f s) = wait_queues s"
  "current_thread (upd_thread t f s) = current_thread s"
  "block_frame (upd_thread t f s) = block_frame s"
  "timers (upd_thread t f s) = timers s"
  "timer_queue (upd_thread t f s) = timer_queue s"
  "current_time (upd_thread t f s) = current_time s"
  by (simp_all add: upd_thread_def)

lemma upd_wq_sel [simp]:
  "wait_queues (upd_wq w g s) = (wait_queues s)(w := g (wait_queues s w))"
  "threads (upd_wq w g s) = threads s"
  "thread_list (upd_wq w g s) = thread_list s"
  "run_queue (upd_wq w g s) = run_queue s"
  "run_queue_bitmap (upd_wq w g s) = run_queue_bitmap s"
  "current_thread (upd_wq w g s) = current_thread s"
  "block_frame (upd_wq w g s) = block_frame s"
  "timers (upd_wq w g s) = timers s"
  "timer_queue (upd_wq w g s) = timer_queue s"
  "current_time (upd_wq w g s) = current_time s"
  by (simp_all add: upd_wq_def)

lemma live_upd [simp]:
  "live (upd_thread t f s) x = live s x" "cpu_up (upd_thread t f s) c = cpu_up s c"
  "live (upd_wq w g s) x = live s x" "cpu_up (upd_wq w g s) c = cpu_up s c"
  by (simp_all add: live_def cpu_up_def)

text \<open>A thread in transit may be changed freely, short of its flags, its stack and its cpu binding.\<close>

lemma kinv_upd:
  assumes k: "kinv sw D s" and t: "t \<in> D"
    and fl: "t_flags (f (threads s t)) = t_flags (threads s t)" "t_stack (f (threads s t)) = t_stack (threads s t)"
      "pinned_cpu (f (threads s t)) = pinned_cpu (threads s t)"
    and ok: "live s t \<Longrightarrow> t_magic (f (threads s t)) = THREAD_MAGIC \<and> 0 \<le> priority (f (threads s t)) \<and>
        priority (f (threads s t)) < int NUM_PRIORITIES \<and> \<not> queue_node (f (threads s t))"
  shows "kinv sw D (upd_thread t f s)"
proof -
  have fl': "thread_is_idle (f (threads s t)) = thread_is_idle (threads s t)"
    "thread_is_real_time_or_idle (f (threads s t)) = thread_is_real_time_or_idle (threads s t)"
    "stack_overrun (f (threads s t)) = stack_overrun (threads s t)"
    "may_run_on c (f (threads s t)) = may_run_on c (threads s t)" for c
    using fl by (simp_all add: thread_is_idle_def thread_is_real_time_or_idle_def stack_overrun_def may_run_on_def)
  have "rq_inv D (upd_thread t f s)" using k t by (auto simp: kinv_def rq_inv_def)
  moreover have "wq_inv D (upd_thread t f s)" using k t by (auto simp: kinv_def wq_inv_def)
  moreover have "th_inv D (upd_thread t f s)"
    using k t fl fl' ok by (auto simp: kinv_def th_inv_def thread_ok_def)
  moreover have "join_inv D (upd_thread t f s)" using k t fl by (auto simp: kinv_def join_inv_def)
  moreover have "cpu_inv sw D (upd_thread t f s)"
    using k t fl fl' by (auto simp: kinv_def cpu_inv_def)
  moreover have "frame_inv D (upd_thread t f s)" using k t fl' by (auto simp: kinv_def frame_inv_def)
  moreover have "timer_inv sw D (upd_thread t f s)" (is "timer_inv sw D ?s")
  proof -
    have ti: "timer_inv sw D s" using k by (simp add: kinv_def)
    note d = timer_invD [OF ti]
    have tw: "timed_wait ?s x = timed_wait s x" for x by (simp add: timed_wait_def)
    show ?thesis
    proof (rule timer_invI)
      show "thread_timer_ok ?s x" if "ThreadTimer x \<in> set (timer_queue ?s b)" "x \<notin> D" for x b
        using that d(6) [of x b] t by (cases "x = t") (auto simp: thread_timer_ok_def tw)
      show "\<exists>b. ThreadTimer x \<in> set (timer_queue ?s b)"
        if "live ?s x" "x \<notin> D" "t_state (threads ?s x) = THREAD_SLEEPING \<or>
             t_state (threads ?s x) = THREAD_BLOCKED \<and> timed_wait ?s x" for x
        using that d(8) [of x] t by (cases "x = t") (simp_all add: tw)
      show "b' = b \<and> cpu_up ?s b \<and> tm_callback (timers ?s (PreemptTimer b)) = CbThreadTimerTick \<and>
          (b \<notin> sw \<longrightarrow> \<not> thread_is_real_time_or_idle (threads ?s (current_thread ?s b)))"
        if "PreemptTimer b' \<in> set (timer_queue ?s b)" for b b'
        using that d(5) [of b' b] fl'(2) by auto
    qed (use d(1-4,7,9) in \<open>simp_all add: tw\<close>)
  qed
  ultimately show ?thesis by (simp add: kinv_def)
qed


lemma kinv_grow:
  assumes "kinv sw D s" and "live s t \<Longrightarrow> t \<notin> D \<Longrightarrow> t_state (threads s t) \<noteq> THREAD_BLOCKED \<and>
      (t_state (threads s t) = THREAD_READY \<longrightarrow> thread_is_idle (threads s t)) \<and>
      t_state (threads s t) \<noteq> THREAD_RUNNING"
  shows "kinv sw (insert t D) s"
  using assms unfolding kinv_def
  apply (elim conjE)
  apply (intro conjI)
  subgoal by (auto simp: rq_inv_def)
  subgoal by (auto simp: wq_inv_def)
  subgoal by (auto simp: th_inv_def thread_ok_def)
  subgoal by (auto simp: join_inv_def)
  subgoal by (auto simp: cpu_inv_def)
  subgoal by (simp add: frame_inv_def)
  subgoal by (simp add: timer_inv_def) blast
  done

text \<open>A cpu starts to switch: its thread is in transit.\<close>

lemma kinv_thread_ok: "kinv sw D s \<Longrightarrow> live s t \<Longrightarrow> thread_ok D s t"
  by (simp add: kinv_def th_inv_def)

lemma kinv_cpu:
  assumes "kinv sw D s" and "cpu_up s c" and "c \<notin> sw"
  shows "live s (current_thread s c)" "current_thread s c \<notin> D"
    "t_state (threads s (current_thread s c)) = THREAD_RUNNING"
    "curr_cpu (threads s (current_thread s c)) = int c" "may_run_on c (threads s (current_thread s c))"
  using assms by (simp_all add: kinv_def cpu_inv_def)

lemma kinv_current:
  assumes "kinv sw D s" and "cpu_up s c" and "c \<notin> sw"
  shows "t_magic (threads s (current_thread s c)) = THREAD_MAGIC" "\<not> queue_node (threads s (current_thread s c))"
    "0 \<le> priority (threads s (current_thread s c))" "priority (threads s (current_thread s c)) < int NUM_PRIORITIES"
    "blocking_wait_queue (threads s (current_thread s c)) = None"
  using kinv_thread_ok [OF assms(1) kinv_cpu(1) [OF assms]] kinv_cpu [OF assms]
  by (simp_all add: thread_ok_def)

lemma kinv_current_inj:
  assumes "kinv sw D s" and "cpu_up s c" "c \<notin> sw" and "cpu_up s c'" "c' \<notin> sw"
    and "current_thread s c = current_thread s c'"
  shows "c = c'"
  using kinv_cpu(4) [OF assms(1-3)] kinv_cpu(4) [OF assms(1,4,5)] unfolding assms(6) by simp

lemma kinv_release:
  assumes k: "kinv sw D s" and c: "cpu_up s c" "c \<notin> sw"
  shows "kinv (insert c sw) (insert (current_thread s c) D) s"
proof -
  note cur = kinv_cpu [OF k c]
  have "cpu_inv (insert c sw) (insert (current_thread s c) D) s"
  proof -
    have "current_thread s c' \<noteq> current_thread s c" if "cpu_up s c'" "c' \<notin> insert c sw" for c'
    proof
      assume "current_thread s c' = current_thread s c"
      then have "c = c'" using that by (intro kinv_current_inj [OF k c]) simp_all
      with that show False by simp
    qed
    then show ?thesis using k cur unfolding kinv_def cpu_inv_def by (elim conjE, intro conjI) (blast, blast, blast)
  qed
  then show ?thesis using k cur(3) unfolding kinv_def
    apply (elim conjE)
    apply (intro conjI)
    subgoal by (auto simp: rq_inv_def)
    subgoal by (auto simp: wq_inv_def)
    subgoal by (auto simp: th_inv_def thread_ok_def)
    subgoal by (auto simp: join_inv_def)
    subgoal .
    subgoal by (simp add: frame_inv_def)
    subgoal by (simp add: timer_inv_def) blast
    done
qed

text \<open>A thread in transit comes to rest in a state that belongs to no queue.\<close>

lemma kinv_settle:
  assumes k: "kinv sw D s" and t: "t \<in> D"
    and st: "live s t \<Longrightarrow> t_state (threads s t) \<noteq> THREAD_BLOCKED \<and> t_state (threads s t) \<noteq> THREAD_RUNNING \<and>
        (t_state (threads s t) = THREAD_READY \<longrightarrow> thread_is_idle (threads s t)) \<and>
        blocking_wait_queue (threads s t) = None"
    and id: "live s t \<Longrightarrow> thread_is_idle (threads s t) \<Longrightarrow> t_state (threads s t) = THREAD_READY"
    and dead: "t_state (threads s t) = THREAD_DEATH \<Longrightarrow> wq_list (wait_queues s (RetcodeWq t)) = []"
    and fr: "live s t \<Longrightarrow> t_state (threads s t) \<noteq> THREAD_READY \<Longrightarrow> block_frame s t = None"
    and tm: "\<And>c. ThreadTimer t \<in> set (timer_queue s c) \<Longrightarrow> thread_timer_ok s t"
    and sl: "live s t \<Longrightarrow> t_state (threads s t) = THREAD_SLEEPING \<Longrightarrow> \<exists>c. ThreadTimer t \<in> set (timer_queue s c)"
  shows "kinv sw (D - {t}) s"
  using k t st unfolding kinv_def
  apply (elim conjE)
  apply (intro conjI)
  subgoal by (auto simp: rq_inv_def)
  subgoal by (auto simp: wq_inv_def)
  subgoal by (auto simp: th_inv_def thread_ok_def)
  subgoal using dead by (auto simp: join_inv_def)
  subgoal using id by (auto simp: cpu_inv_def cpu_up_def)
  subgoal using fr by (auto simp: frame_inv_def)
  subgoal using tm sl unfolding timer_inv_def by (elim conjE, intro conjI) blast+
  done

text \<open>
  Linking a thread into a queue changes its \<open>queue_node\<close> and the queues, which only the clauses about
  queues look at.
\<close>

definition relinked :: "tid \<Rightarrow> bool \<Rightarrow> 'a kstate_scheme \<Rightarrow> 'a kstate_scheme \<Rightarrow> bool" where
  "relinked t b s s' \<longleftrightarrow>
     threads s' = (threads s)(t := (threads s t)\<lparr>queue_node := b\<rparr>) \<and> thread_list s' = thread_list s \<and>
     current_thread s' = current_thread s \<and> block_frame s' = block_frame s \<and>
     timers s' = timers s \<and> timer_queue s' = timer_queue s \<and>
     (\<forall>w. wq_magic (wait_queues s' w) = wq_magic (wait_queues s w))"

lemma relinked_sel:
  assumes "relinked t b s s'"
  shows "t_flags (threads s' x) = t_flags (threads s x)" "t_state (threads s' x) = t_state (threads s x)"
    "priority (threads s' x) = priority (threads s x)" "pinned_cpu (threads s' x) = pinned_cpu (threads s x)"
    "curr_cpu (threads s' x) = curr_cpu (threads s x)" "t_magic (threads s' x) = t_magic (threads s x)"
    "blocking_wait_queue (threads s' x) = blocking_wait_queue (threads s x)"
    "t_stack (threads s' x) = t_stack (threads s x)"
    "queue_node (threads s' x) = (if x = t then b else queue_node (threads s x))"
    "thread_is_idle (threads s' x) = thread_is_idle (threads s x)"
    "thread_is_real_time_or_idle (threads s' x) = thread_is_real_time_or_idle (threads s x)"
    "stack_overrun (threads s' x) = stack_overrun (threads s x)"
    "may_run_on c (threads s' x) = may_run_on c (threads s x)"
    "live s' x = live s x" "cpu_up s' c = cpu_up s c" "timed_wait s' x = timed_wait s x"
    "thread_timer_ok s' x = thread_timer_ok s x" "thread_list s' = thread_list s"
    "current_thread s' = current_thread s" "block_frame s' = block_frame s" "timers s' = timers s"
    "timer_queue s' = timer_queue s" "wq_magic (wait_queues s' w) = wq_magic (wait_queues s w)"
  using assms
  by (simp_all add: relinked_def thread_is_idle_def thread_is_real_time_or_idle_def stack_overrun_def
      may_run_on_def live_def cpu_up_def timed_wait_def thread_timer_ok_def)

lemma relinked_rest:
  assumes r: "relinked t b s s'"
  shows "cpu_inv sw D s' = cpu_inv sw D s" "frame_inv D s' = frame_inv D s" "timer_inv sw D s' = timer_inv sw D s"
  unfolding cpu_inv_def frame_inv_def timer_inv_def relinked_sel [OF r] by (rule refl)+

lemma kinv_arrive:
  assumes k: "kinv sw D s" and t: "t \<in> D" and l: "live s t"
    and st: "t_state (threads s t) = THREAD_READY \<and> \<not> thread_is_idle (threads s t) \<or>
        t_state (threads s t) = THREAD_BLOCKED \<and> \<not> thread_is_idle (threads s t) \<and>
          (\<exists>w timeout. block_frame s t = Some (w, timeout) \<and> blocking_wait_queue (threads s t) = Some w) \<and>
          (timed_wait s t \<longrightarrow> (\<exists>c. ThreadTimer t \<in> set (timer_queue s c)))"
    and tm: "\<And>c. ThreadTimer t \<in> set (timer_queue s c) \<Longrightarrow> thread_timer_ok s t"
  shows "cpu_inv sw (D - {t}) s" "frame_inv (D - {t}) s" "timer_inv sw (D - {t}) s"
proof -
  show "cpu_inv sw (D - {t}) s"
    using k t st unfolding kinv_def cpu_inv_def by (elim conjE, intro conjI) (blast, fastforce, blast)
  show "frame_inv (D - {t}) s"
    using k t st unfolding kinv_def frame_inv_def by (elim conjE, intro conjI) (blast, fastforce)
  have "\<forall>x. live s x \<and> x \<notin> D \<and> (t_state (threads s x) = THREAD_SLEEPING \<or>
             t_state (threads s x) = THREAD_BLOCKED \<and> timed_wait s x) \<longrightarrow>
        (\<exists>c. ThreadTimer x \<in> set (timer_queue s c))"
    using k by (simp add: kinv_def timer_inv_def)
  then have "\<forall>x. live s x \<and> x \<notin> D - {t} \<and> (t_state (threads s x) = THREAD_SLEEPING \<or>
             t_state (threads s x) = THREAD_BLOCKED \<and> timed_wait s x) \<longrightarrow>
        (\<exists>c. ThreadTimer x \<in> set (timer_queue s c))"
    using st by auto
  then show "timer_inv sw (D - {t}) s"
    using k tm unfolding kinv_def timer_inv_def by (elim conjE, intro conjI) (assumption | blast)+
qed

text \<open>A ready thread enters the run queue of its priority.\<close>

lemma kinv_rq_insert:
  assumes k: "kinv sw D s" and t: "t \<in> D" and l: "live s t" and rdy: "t_state (threads s t) = THREAD_READY"
    and ni: "\<not> thread_is_idle (threads s t)" and bq: "blocking_wait_queue (threads s t) = None"
    and tm: "\<And>c. ThreadTimer t \<in> set (timer_queue s c) \<Longrightarrow> thread_timer_ok s t"
    and r: "relinked t True s s'" and wq: "wait_queues s' = wait_queues s"
    and p: "p = nat (priority (threads s t))"
    and rq: "run_queue s' = (run_queue s)(p := ys)" and ys: "set ys = insert t (set (run_queue s p))"
      "t \<notin> set (run_queue s p) \<Longrightarrow> distinct (run_queue s p) \<Longrightarrow> distinct ys"
    and bm: "run_queue_bitmap s' = run_queue_bitmap s OR push_bit p 1"
  shows "kinv sw (D - {t}) s'"
proof -
  have ok: "thread_ok D s t" by (rule kinv_thread_ok [OF k l])
  have pr: "priority (threads s t) = int p" and p32: "p < 32"
    using ok p by (auto simp: thread_ok_def NUM_PRIORITIES_def)
  have nin: "t \<notin> set (run_queue s x)" for x using k t by (auto simp: kinv_def rq_inv_def)
  have ne: "ys \<noteq> []" using ys(1) by auto
  have bit: "bit (run_queue_bitmap s OR push_bit p 1) j \<longleftrightarrow> bit (run_queue_bitmap s) j \<or> j = p" for j
    using p32 by (auto simp: bit_simps)
  note sel = relinked_sel [OF r]
  note rest = kinv_arrive [OF k t l disjI1 [OF conjI [OF rdy ni]] tm]
  have "rq_inv (D - {t}) s'"
    using k t l rdy ni pr nin ys ne unfolding kinv_def rq_inv_def rq bm sel bit by auto
  moreover have "wq_inv (D - {t}) s'"
    using k rdy unfolding kinv_def wq_inv_def sel wq by auto
  moreover have "th_inv (D - {t}) s'"
    using k t rdy ni bq unfolding kinv_def th_inv_def thread_ok_def sel by auto
  moreover have "join_inv (D - {t}) s'" using k rdy unfolding kinv_def join_inv_def sel wq by auto
  moreover have "cpu_inv sw (D - {t}) s'" "frame_inv (D - {t}) s'" "timer_inv sw (D - {t}) s'"
    unfolding relinked_rest [OF r] by (rule rest; assumption)+
  ultimately show ?thesis unfolding kinv_def by blast
qed

text \<open>A thread leaves a run queue or a wait queue.\<close>

lemma kinv_depart:
  assumes k: "kinv sw D s" and st: "t_state (threads s t) = THREAD_READY \<or> t_state (threads s t) = THREAD_BLOCKED"
  shows "cpu_inv sw (insert t D) s" "frame_inv (insert t D) s" "timer_inv sw (insert t D) s"
proof -
  have cur: "current_thread s c \<noteq> t" if "cpu_up s c" "c \<notin> sw" for c
    using kinv_cpu(3) [OF k that] st by auto
  show "cpu_inv sw (insert t D) s"
    using k cur unfolding kinv_def cpu_inv_def by (elim conjE, intro conjI) (blast, blast, blast)
  show "frame_inv (insert t D) s" "timer_inv sw (insert t D) s"
    using k unfolding kinv_def frame_inv_def timer_inv_def by blast+
qed

lemma kinv_rq_remove:
  assumes k: "kinv sw D s" and t: "t \<in> set (run_queue s p)"
    and r: "relinked t False s s'" and wq: "wait_queues s' = wait_queues s"
    and rq: "run_queue s' = (run_queue s)(p := remove1 t (run_queue s p))"
    and bm: "run_queue_bitmap s' = (if remove1 t (run_queue s p) = []
        then run_queue_bitmap s AND NOT (push_bit p 1) else run_queue_bitmap s)"
  shows "kinv sw (insert t D) s'"
proof -
  from k t have l: "live s t" and st: "t_state (threads s t) = THREAD_READY" and nD: "t \<notin> D"
    and ni: "\<not> thread_is_idle (threads s t)" and pr: "priority (threads s t) = int p"
    and d: "\<And>q. distinct (run_queue s q)" and bq: "\<And>q. bit (run_queue_bitmap s) q \<longleftrightarrow> run_queue s q \<noteq> []"
    by (auto simp: kinv_def rq_inv_def)
  have p32: "p < 32" using kinv_thread_ok [OF k l] pr by (simp add: thread_ok_def NUM_PRIORITIES_def)
  have ot: "t \<notin> set (run_queue s q)" if "q \<noteq> p" for q using k that pr by (auto simp: kinv_def rq_inv_def)
  note sel = relinked_sel [OF r]
  have mem: "x \<in> set (run_queue s' q) \<longleftrightarrow> x \<noteq> t \<and> x \<in> set (run_queue s q)" for x q
    using d [of p] ot unfolding rq by (auto simp: set_remove1_eq)
  have bit: "bit (run_queue_bitmap s') q \<longleftrightarrow> run_queue s' q \<noteq> []" for q
    using p32 bq [of q] bq [of p] t bit_imp_le_length [of "run_queue_bitmap s" q]
    unfolding rq bm by (cases "q = p") (auto simp: bit_simps)
  have "rq_inv (insert t D) s'"
  proof -
    have "distinct (run_queue s' q)" for q using d [of q] d [of p] unfolding rq by simp
    then show ?thesis using k bit unfolding kinv_def rq_inv_def mem sel by blast
  qed
  moreover have "wq_inv (insert t D) s'" using k st unfolding kinv_def wq_inv_def sel wq by auto
  moreover have "th_inv (insert t D) s'" using k st unfolding kinv_def th_inv_def thread_ok_def sel by auto
  moreover have "join_inv (insert t D) s'" using k unfolding kinv_def join_inv_def sel wq by blast
  moreover have "cpu_inv sw (insert t D) s'" "frame_inv (insert t D) s'" "timer_inv sw (insert t D) s'"
    unfolding relinked_rest [OF r] by (rule kinv_depart [OF k disjI1 [OF st]])+
  ultimately show ?thesis unfolding kinv_def by blast
qed

lemma kinv_wq_remove:
  assumes k: "kinv sw D s" and t: "t \<in> set (wq_list (wait_queues s w))"
    and r: "relinked t False s s'"
    and rq: "run_queue s' = run_queue s" "run_queue_bitmap s' = run_queue_bitmap s"
    and wq: "wait_queues s' = (wait_queues s)(w := (wait_queues s w)\<lparr>wq_list := remove1 t (wq_list (wait_queues s w)),
               wq_count := wq_count (wait_queues s w) - 1\<rparr>)"
  shows "kinv sw (insert t D) s'"
proof -
  from k t have l: "live s t" and st: "t_state (threads s t) = THREAD_BLOCKED" and nD: "t \<notin> D"
    and b: "blocking_wait_queue (threads s t) = Some w"
    and d: "\<And>w. distinct (wq_list (wait_queues s w))"
    and cnt: "\<And>w. wq_count (wait_queues s w) = int (length (wq_list (wait_queues s w)))"
    by (auto simp: kinv_def wq_inv_def)
  have ot: "t \<notin> set (wq_list (wait_queues s v))" if "v \<noteq> w" for v
    using k that b by (auto simp: kinv_def wq_inv_def)
  note sel = relinked_sel [OF r]
  have mem: "x \<in> set (wq_list (wait_queues s' v)) \<longleftrightarrow> x \<noteq> t \<and> x \<in> set (wq_list (wait_queues s v))" for x v
    using d [of w] ot unfolding wq by (auto simp: set_remove1_eq)
  have "0 < length (wq_list (wait_queues s w))" using t by (cases "wq_list (wait_queues s w)") auto
  then have len: "wq_count (wait_queues s' v) = int (length (wq_list (wait_queues s' v)))" for v
    using t cnt [of w] cnt [of v] unfolding wq by (cases "v = w") (simp_all add: length_remove1 of_nat_diff Suc_leI)
  have dd: "distinct (wq_list (wait_queues s' v))" for v using d [of v] d [of w] unfolding wq by simp
  have sub: "wq_list (wait_queues s v) = [] \<Longrightarrow> wq_list (wait_queues s' v) = []" for v
    unfolding wq by (cases "v = w") auto
  have "rq_inv (insert t D) s'" using k st unfolding kinv_def rq_inv_def rq sel by auto
  moreover have "wq_inv (insert t D) s'"
    using k sub unfolding kinv_def wq_inv_def mem sel len by (simp add: dd) blast
  moreover have "th_inv (insert t D) s'" using k st unfolding kinv_def th_inv_def thread_ok_def sel by auto
  moreover have "join_inv (insert t D) s'" using k sub unfolding kinv_def join_inv_def sel by blast
  moreover have "cpu_inv sw (insert t D) s'" "frame_inv (insert t D) s'" "timer_inv sw (insert t D) s'"
    unfolding relinked_rest [OF r] by (rule kinv_depart [OF k disjI2 [OF st]])+
  ultimately show ?thesis unfolding kinv_def by blast
qed

text \<open>A blocked thread enters the wait queue it blocks on.\<close>

lemma wq_insert_parts:
  assumes k: "kinv sw D s" and t: "t \<in> D" and l: "live s t" and st: "t_state (threads s t) = THREAD_BLOCKED"
    and ni: "\<not> thread_is_idle (threads s t)" and bq: "blocking_wait_queue (threads s t) = Some w"
    and fr: "block_frame s t = Some (w, timeout)"
    and r: "relinked t True s s'" and rq: "run_queue s' = run_queue s" "run_queue_bitmap s' = run_queue_bitmap s"
    and wq: "wait_queues s' = (wait_queues s)(w := (wait_queues s w)\<lparr>wq_list := wq_list (wait_queues s w) @ [t],
               wq_count := wq_count (wait_queues s w) + 1\<rparr>)"
    and mg: "wq_magic (wait_queues s w) = WAIT_QUEUE_MAGIC"
    and nj: "\<And>u. w = RetcodeWq u \<Longrightarrow> live s u \<and> t_state (threads s u) \<noteq> THREAD_DEATH \<and>
               t_flags (threads s u) AND THREAD_FLAG_DETACHED = 0"
  shows "rq_inv (D - {t}) s'" "wq_inv (D - {t}) s'" "th_inv (D - {t}) s'" "join_inv (D - {t}) s'"
    "cpu_inv sw (D - {t}) s'" "frame_inv (D - {t}) s'" "timer_inv sw D s'"
proof -
  have nin: "t \<notin> set (wq_list (wait_queues s v))" for v using k t by (auto simp: kinv_def wq_inv_def)
  note sel = relinked_sel [OF r]
  show "rq_inv (D - {t}) s'" using k st unfolding kinv_def rq_inv_def rq sel by auto
  show "wq_inv (D - {t}) s'"
    using k t l st bq nin mg unfolding kinv_def wq_inv_def wq sel by auto
  show "th_inv (D - {t}) s'"
    using k t st ni bq unfolding kinv_def th_inv_def thread_ok_def sel by auto
  show "join_inv (D - {t}) s'"
    using k st nj unfolding kinv_def join_inv_def sel wq by auto
  show "cpu_inv sw (D - {t}) s'" unfolding relinked_rest [OF r]
    using k t st ni unfolding kinv_def cpu_inv_def by (elim conjE, intro conjI) (blast, fastforce, blast)
  show "frame_inv (D - {t}) s'" unfolding relinked_rest [OF r]
    using k t st bq fr unfolding kinv_def frame_inv_def by (elim conjE, intro conjI) (blast, fastforce)
  show "timer_inv sw D s'" unfolding relinked_rest [OF r] using k by (simp add: kinv_def)
qed

text \<open>A cpu takes up a thread in transit.\<close>

lemma kinv_own:
  assumes k: "kinv sw D s" and c: "cpu_up s c" and t: "t \<in> D" and l: "live s t"
    and st: "t_state (threads s t) = THREAD_RUNNING" and cc: "curr_cpu (threads s t) = int c"
    and mr: "may_run_on c (threads s t)" and bq: "blocking_wait_queue (threads s t) = None"
    and tm: "\<And>c. ThreadTimer t \<in> set (timer_queue s c) \<Longrightarrow> thread_timer_ok s t"
    and pre: "PreemptTimer c \<in> set (timer_queue s c) \<Longrightarrow> \<not> thread_is_real_time_or_idle (threads s t)"
    and sw: "c \<in> sw"
  shows "kinv (sw - {c}) (D - {t}) (s\<lparr>current_thread := (current_thread s)(c := t)\<rparr>)" (is "kinv ?sw ?D ?s")
proof -
  have same: "threads ?s = threads s" "thread_list ?s = thread_list s" "run_queue ?s = run_queue s"
    "run_queue_bitmap ?s = run_queue_bitmap s" "wait_queues ?s = wait_queues s" "block_frame ?s = block_frame s"
    "timers ?s = timers s" "timer_queue ?s = timer_queue s" "live ?s x = live s x" "cpu_up ?s b = cpu_up s b"
    "timed_wait ?s x = timed_wait s x" "thread_timer_ok ?s x = thread_timer_ok s x"
    "current_thread ?s = (current_thread s)(c := t)" for x b
    by (simp_all add: live_def cpu_up_def timed_wait_def thread_timer_ok_def)
  have "rq_inv ?D ?s" using k st unfolding kinv_def rq_inv_def same by auto
  moreover have "wq_inv ?D ?s" using k st unfolding kinv_def wq_inv_def same by auto
  moreover have "th_inv ?D ?s" using k t st bq unfolding kinv_def th_inv_def thread_ok_def same by auto
  moreover have "join_inv ?D ?s" using k st unfolding kinv_def join_inv_def same by auto
  moreover have "cpu_inv ?sw ?D ?s"
  proof -
    have "current_thread s b \<noteq> t" if "cpu_up s b" "b \<notin> sw" for b using kinv_cpu(2) [OF k that] t by auto
    moreover have "c' \<noteq> c" if "c' \<notin> sw" for c' using that sw by auto
    ultimately show ?thesis
      using k c t l st cc mr unfolding kinv_def cpu_inv_def same by (elim conjE, intro conjI) (auto, metis)
  qed
  moreover have "frame_inv ?D ?s" using k st unfolding kinv_def frame_inv_def same by auto
  moreover have "timer_inv ?sw ?D ?s"
  proof -
    have "\<forall>x. live s x \<and> x \<notin> ?D \<and> (t_state (threads s x) = THREAD_SLEEPING \<or>
             t_state (threads s x) = THREAD_BLOCKED \<and> timed_wait s x) \<longrightarrow>
        (\<exists>c. ThreadTimer x \<in> set (timer_queue s c))"
      using k st unfolding kinv_def timer_inv_def by auto
    moreover have "\<forall>b b'. PreemptTimer b' \<in> set (timer_queue s b) \<longrightarrow> b' = b \<and> cpu_up s b \<and>
        tm_callback (timers s (PreemptTimer b)) = CbThreadTimerTick \<and>
        (b \<notin> ?sw \<longrightarrow> \<not> thread_is_real_time_or_idle (threads s (((current_thread s)(c := t)) b)))"
    proof (intro allI impI)
      fix b b' assume "PreemptTimer b' \<in> set (timer_queue s b)"
      with k have "b' = b \<and> cpu_up s b \<and> tm_callback (timers s (PreemptTimer b)) = CbThreadTimerTick \<and>
          (b \<notin> sw \<longrightarrow> \<not> thread_is_real_time_or_idle (threads s (current_thread s b))) \<and> PreemptTimer b \<in> set (timer_queue s b)"
        unfolding kinv_def timer_inv_def by blast
      with pre show "b' = b \<and> cpu_up s b \<and> tm_callback (timers s (PreemptTimer b)) = CbThreadTimerTick \<and>
          (b \<notin> ?sw \<longrightarrow> \<not> thread_is_real_time_or_idle (threads s (((current_thread s)(c := t)) b)))"
        by (cases "b = c") simp_all
    qed
    moreover have "\<forall>c x. ThreadTimer x \<in> set (timer_queue s c) \<and> x \<notin> ?D \<longrightarrow> thread_timer_ok s x"
      using k tm unfolding kinv_def timer_inv_def by auto
    ultimately show ?thesis using k unfolding kinv_def timer_inv_def same by blast
  qed
  ultimately show ?thesis unfolding kinv_def by blast
qed

section \<open>The run queue operations\<close>

lemma relinked_insert:
  "relinked t True s ((upd_thread t (\<lambda>th. th\<lparr>queue_node := True\<rparr>) s)\<lparr>run_queue := rq, run_queue_bitmap := bm\<rparr>)"
  by (simp add: relinked_def)

lemma insert_in_run_queue_head_kinv:
  assumes k: "kinv sw D s" and t: "t \<in> D" "live s t" "t_state (threads s t) = THREAD_READY"
      "\<not> thread_is_idle (threads s t)" "blocking_wait_queue (threads s t) = None"
    and tm: "\<And>c. ThreadTimer t \<in> set (timer_queue s c) \<Longrightarrow> thread_timer_ok s t"
  obtains s' where "insert_in_run_queue_head t s = Some s'" and "kinv sw (D - {t}) s'" and "relinked t True s s'"
    and "wait_queues s' = wait_queues s"
    and "run_queue s' = (run_queue s)(nat (priority (threads s t)) := t # run_queue s (nat (priority (threads s t))))"
proof -
  let ?p = "nat (priority (threads s t))"
  let ?s = "(upd_thread t (\<lambda>th. th\<lparr>queue_node := True\<rparr>) s)\<lparr>run_queue := (run_queue s)(?p := t # run_queue s ?p),
      run_queue_bitmap := run_queue_bitmap s OR push_bit ?p 1\<rparr>"
  have "insert_in_run_queue_head t s = Some ?s"
    using kinv_thread_ok [OF k t(2)] t by (simp add: insert_in_run_queue_head_def thread_ok_def Let_def)
  moreover have "kinv sw (D - {t}) ?s"
    by (rule kinv_rq_insert [OF k t tm relinked_insert _ refl, where ys = "t # run_queue s ?p"]) simp_all
  ultimately show ?thesis by (rule that) (simp_all add: relinked_insert)
qed

lemma insert_in_run_queue_tail_kinv:
  assumes k: "kinv sw D s" and t: "t \<in> D" "live s t" "t_state (threads s t) = THREAD_READY"
      "\<not> thread_is_idle (threads s t)" "blocking_wait_queue (threads s t) = None"
    and tm: "\<And>c. ThreadTimer t \<in> set (timer_queue s c) \<Longrightarrow> thread_timer_ok s t"
  obtains s' where "insert_in_run_queue_tail t s = Some s'" and "kinv sw (D - {t}) s'" and "relinked t True s s'"
    and "wait_queues s' = wait_queues s"
    and "run_queue s' = (run_queue s)(nat (priority (threads s t)) := run_queue s (nat (priority (threads s t))) @ [t])"
proof -
  let ?p = "nat (priority (threads s t))"
  let ?s = "(upd_thread t (\<lambda>th. th\<lparr>queue_node := True\<rparr>) s)\<lparr>run_queue := (run_queue s)(?p := run_queue s ?p @ [t]),
      run_queue_bitmap := run_queue_bitmap s OR push_bit ?p 1\<rparr>"
  have "insert_in_run_queue_tail t s = Some ?s"
    using kinv_thread_ok [OF k t(2)] t by (simp add: insert_in_run_queue_tail_def thread_ok_def Let_def)
  moreover have "kinv sw (D - {t}) ?s"
    by (rule kinv_rq_insert [OF k t tm relinked_insert _ refl, where ys = "run_queue s ?p @ [t]"]) simp_all
  ultimately show ?thesis by (rule that) (simp_all add: relinked_insert)
qed

lemma scan_bitmap_Some:
  "scan_bitmap f bm = Some (q, t) \<Longrightarrow> bit bm q \<and> f q = Some t \<and> (\<forall>j>q. bit bm j \<longrightarrow> f j = None)"
proof (induction f bm rule: scan_bitmap.induct)
  case (1 f bm)
  show ?case
  proof (cases "bm = 0")
    case True
    with 1(2) show ?thesis by (simp add: scan_bitmap.simps)
  next
    case False
    let ?q = "32 - 1 - clz32 bm"
    have top: "bit bm ?q" "\<And>j. ?q < j \<Longrightarrow> \<not> bit bm j"
      using clz32_highest [OF False] bit_imp_le_length [of bm] by auto
    show ?thesis
    proof (cases "f ?q")
      case (Some t')
      with 1(2) False have "q = ?q" "t = t'" by (simp_all add: scan_bitmap.simps [of f bm])
      with Some top show ?thesis by auto
    next
      case None
      with 1(2) False have "scan_bitmap f (bm AND NOT (push_bit ?q 1)) = Some (q, t)"
        by (simp add: scan_bitmap.simps [of f bm])
      note ih = 1(1) [OF False refl None this]
      have "f j = None" if "q < j" "bit bm j" for j
        using ih that None bit_imp_le_length [OF that(2)] by (cases "j = ?q") (auto simp: bit_simps)
      with ih show ?thesis by (auto simp: bit_simps)
    qed
  qed
qed

lemma scan_bitmap_None: "scan_bitmap f bm = None \<Longrightarrow> bit bm j \<Longrightarrow> f j = None"
proof (induction f bm rule: scan_bitmap.induct)
  case (1 f bm)
  then have nz: "bm \<noteq> 0" by auto
  let ?q = "32 - 1 - clz32 bm"
  have none: "f ?q = None" and s: "scan_bitmap f (bm AND NOT (push_bit ?q 1)) = None"
    using 1(2) nz by (simp_all add: scan_bitmap.simps [of f bm] Let_def split: option.splits)
  have "j < 32" using bit_imp_le_length [OF 1(3)] by simp
  then show ?case using 1(1) [OF nz refl none s] 1(3) none by (cases "j = ?q") (auto simp: bit_simps)
qed

text \<open>What a cpu may run: a ready thread that is not pinned elsewhere.\<close>

definition runnable :: "cpu \<Rightarrow> 'a kstate_scheme \<Rightarrow> tid \<Rightarrow> bool" where
  "runnable c s t \<longleftrightarrow> live s t \<and> t_state (threads s t) = THREAD_READY \<and>
     \<not> thread_is_idle (threads s t) \<and> may_run_on c (threads s t)"

text \<open>The scheduler's choice: a runnable thread of the highest priority, or the idle thread when there is none.\<close>

definition top_choice :: "cpu \<Rightarrow> 'a kstate_scheme \<Rightarrow> tid \<Rightarrow> bool" where
  "top_choice c s t \<longleftrightarrow>
     (if \<exists>x. runnable c s x
      then runnable c s t \<and> (\<forall>x. runnable c s x \<longrightarrow> priority (threads s x) \<le> priority (threads s t))
      else t = idle_thread c)"

lemma get_top_thread_cases:
  assumes k: "kinv sw {} s" and g: "get_top_thread c s = (t, s')"
  obtains (idle) "t = idle_thread c" and "s' = s" and "\<And>x. \<not> runnable c s x"
  | (queued) p where "t \<in> set (run_queue s p)" and "runnable c s t" and "priority (threads s t) = int p"
    and "\<And>x. runnable c s x \<Longrightarrow> priority (threads s x) \<le> priority (threads s t)"
    and "\<And>x i. runnable c s x \<Longrightarrow> run_queue s p ! i = x \<Longrightarrow> i < length (run_queue s p) \<Longrightarrow>
           \<exists>j\<le>i. run_queue s p ! j = t"
    and "s' = (let u = upd_thread t (\<lambda>th. th\<lparr>queue_node := False\<rparr>)
                    (s\<lparr>run_queue := (run_queue s)(p := remove1 t (run_queue s p))\<rparr>)
          in if run_queue u p = [] then u\<lparr>run_queue_bitmap := run_queue_bitmap u AND NOT (push_bit p 1)\<rparr> else u)"
proof -
  let ?f = "\<lambda>q. List.find (\<lambda>t. may_run_on c (threads s t)) (run_queue s q)"
  have mem: "x \<in> set (run_queue s p) \<and> may_run_on c (threads s x) \<longleftrightarrow> runnable c s x \<and> priority (threads s x) = int p"
    for x p using k by (auto simp: kinv_def rq_inv_def runnable_def)
  have inq: "\<exists>p. priority (threads s x) = int p \<and> bit (run_queue_bitmap s) p \<and> ?f p \<noteq> None" if "runnable c s x" for x
  proof -
    have "0 \<le> priority (threads s x)" using kinv_thread_ok [OF k] that by (auto simp: runnable_def thread_ok_def)
    then obtain p where p: "priority (threads s x) = int p" by (metis nonneg_int_cases)
    have "x \<in> set (run_queue s p)" "may_run_on c (threads s x)" using mem [of x p] that p by simp_all
    then have "run_queue s p \<noteq> []" "?f p \<noteq> None" by (auto simp: find_None_iff)
    with k p show ?thesis by (auto simp: kinv_def rq_inv_def)
  qed
  show ?thesis
  proof (cases "scan_bitmap ?f (run_queue_bitmap s)")
    case None
    have nr: "\<not> runnable c s x" for x
    proof
      assume "runnable c s x"
      from inq [OF this] obtain p where "bit (run_queue_bitmap s) p" "?f p \<noteq> None" by (elim exE conjE)
      with scan_bitmap_None [OF None] show False by simp
    qed
    have "t = idle_thread c \<and> s' = s" using g unfolding get_top_thread_def None option.case by simp
    then show ?thesis by (intro idle) (simp_all add: nr)
  next
    case (Some qt)
    then obtain q t' where qt: "scan_bitmap ?f (run_queue_bitmap s) = Some (q, t')" by (cases qt) auto
    note sp = scan_bitmap_Some [OF qt]
    from g have t': "t' = t" unfolding get_top_thread_def qt option.case prod.case Let_def by (elim Pair_inject)
    from sp t' have f: "?f q = Some t" by simp
    then obtain i where i: "i < length (run_queue s q)" "may_run_on c (threads s (run_queue s q ! i))"
      "t = run_queue s q ! i" "\<forall>j<i. \<not> may_run_on c (threads s (run_queue s q ! j))"
      unfolding find_Some_iff by (elim exE conjE)
    then have tin: "t \<in> set (run_queue s q)" by simp
    with i(2,3) mem [of t q] have r: "runnable c s t" "priority (threads s t) = int q" by simp_all
    have top: "priority (threads s x) \<le> priority (threads s t)" if "runnable c s x" for x
    proof -
      from inq [OF that] obtain p where p: "priority (threads s x) = int p" "bit (run_queue_bitmap s) p" "?f p \<noteq> None"
        by (elim exE conjE)
      with sp have "\<not> p > q" by auto
      with p r show ?thesis by simp
    qed
    have first: "\<exists>j\<le>n. run_queue s q ! j = t" if "runnable c s x" "run_queue s q ! n = x" for x n
    proof (intro exI conjI)
      show "i \<le> n" using i(4) that by (auto simp: runnable_def not_less [symmetric])
      show "run_queue s q ! i = t" by (rule i(3) [symmetric])
    qed
    show ?thesis
    proof (rule queued [OF tin r top first])
      from g show "s' = (let u = upd_thread t (\<lambda>th. th\<lparr>queue_node := False\<rparr>)
                    (s\<lparr>run_queue := (run_queue s)(q := remove1 t (run_queue s q))\<rparr>)
          in if run_queue u q = [] then u\<lparr>run_queue_bitmap := run_queue_bitmap u AND NOT (push_bit q 1)\<rparr> else u)"
        unfolding get_top_thread_def qt t' option.case prod.case Let_def by (elim Pair_inject) (rule sym)
    qed
  qed
qed


section \<open>Timers and switching\<close>

lemma kinv_upd_irrel:
  assumes "t_magic (f (threads s t)) = t_magic (threads s t)" "queue_node (f (threads s t)) = queue_node (threads s t)"
    "priority (f (threads s t)) = priority (threads s t)" "t_state (f (threads s t)) = t_state (threads s t)"
    "t_flags (f (threads s t)) = t_flags (threads s t)" "curr_cpu (f (threads s t)) = curr_cpu (threads s t)"
    "pinned_cpu (f (threads s t)) = pinned_cpu (threads s t)" "t_stack (f (threads s t)) = t_stack (threads s t)"
    "blocking_wait_queue (f (threads s t)) = blocking_wait_queue (threads s t)"
  shows "kinv sw D (upd_thread t f s) = kinv sw D s"
proof -
  let ?s = "upd_thread t f s"
  have 1: "t_magic (threads ?s x) = t_magic (threads s x)" "queue_node (threads ?s x) = queue_node (threads s x)"
    "priority (threads ?s x) = priority (threads s x)" "t_state (threads ?s x) = t_state (threads s x)"
    "t_flags (threads ?s x) = t_flags (threads s x)" "curr_cpu (threads ?s x) = curr_cpu (threads s x)"
    "pinned_cpu (threads ?s x) = pinned_cpu (threads s x)" "t_stack (threads ?s x) = t_stack (threads s x)"
    "blocking_wait_queue (threads ?s x) = blocking_wait_queue (threads s x)" for x
    using assms by simp_all
  have 2: "thread_is_idle (threads ?s x) = thread_is_idle (threads s x)"
    "thread_is_real_time_or_idle (threads ?s x) = thread_is_real_time_or_idle (threads s x)"
    "stack_overrun (threads ?s x) = stack_overrun (threads s x)"
    "may_run_on c (threads ?s x) = may_run_on c (threads s x)" for x c
    unfolding thread_is_idle_def thread_is_real_time_or_idle_def stack_overrun_def may_run_on_def 1 by (rule refl)+
  show ?thesis
    unfolding kinv_def inv_defs thread_ok_def thread_timer_ok_def timed_wait_def live_upd 1 2 upd_thread_sel(2-) ..
qed

lemma kinv_upd_curr_cpu:
  assumes k: "kinv sw D s" and "\<And>c. cpu_up s c \<Longrightarrow> c \<notin> sw \<Longrightarrow> current_thread s c \<noteq> t"
  shows "kinv sw D (upd_thread t (\<lambda>th. th\<lparr>curr_cpu := v\<rparr>) s)" (is "kinv sw D ?s")
proof -
  have 1: "t_magic (threads ?s x) = t_magic (threads s x)" "queue_node (threads ?s x) = queue_node (threads s x)"
    "priority (threads ?s x) = priority (threads s x)" "t_state (threads ?s x) = t_state (threads s x)"
    "t_flags (threads ?s x) = t_flags (threads s x)"
    "pinned_cpu (threads ?s x) = pinned_cpu (threads s x)" "t_stack (threads ?s x) = t_stack (threads s x)"
    "blocking_wait_queue (threads ?s x) = blocking_wait_queue (threads s x)" for x
    by simp_all
  have 2: "thread_is_idle (threads ?s x) = thread_is_idle (threads s x)"
    "thread_is_real_time_or_idle (threads ?s x) = thread_is_real_time_or_idle (threads s x)"
    "stack_overrun (threads ?s x) = stack_overrun (threads s x)"
    "may_run_on c (threads ?s x) = may_run_on c (threads s x)" for x c
    unfolding thread_is_idle_def thread_is_real_time_or_idle_def stack_overrun_def may_run_on_def 1 by (rule refl)+
  have "cpu_inv sw D ?s"
    using k assms(2) unfolding kinv_def cpu_inv_def live_upd 1 2 upd_thread_sel(2-) by simp
  moreover have "rq_inv D ?s = rq_inv D s" "wq_inv D ?s = wq_inv D s" "th_inv D ?s = th_inv D s"
    "join_inv D ?s = join_inv D s" "frame_inv D ?s = frame_inv D s" "timer_inv sw D ?s = timer_inv sw D s"
    unfolding inv_defs thread_ok_def thread_timer_ok_def timed_wait_def live_upd 1 2 upd_thread_sel(2-)
    by (rule refl)+
  ultimately show ?thesis using k unfolding kinv_def by simp
qed

lemma timer_more:
  fixes s s' :: "'a kstate_scheme"
  assumes "timer_state.more s' = timer_state.more s"
  shows "threads s' = threads s" "thread_list s' = thread_list s" "run_queue s' = run_queue s"
    "run_queue_bitmap s' = run_queue_bitmap s" "wait_queues s' = wait_queues s"
    "current_thread s' = current_thread s" "block_frame s' = block_frame s" "freed s' = freed s"
    "kstate.more s' = kstate.more s"
  using assms by (cases s; cases s'; simp)+

lemma kinv_timers:
  fixes s s' :: "'a kstate_scheme"
  assumes m: "timer_state.more s' = timer_state.more s" and k: "kinv sw D s" and "timer_inv sw D s'"
  shows "kinv sw D s'"
proof -
  note e = timer_more [OF m]
  have "rq_inv D s' = rq_inv D s" "wq_inv D s' = wq_inv D s" "th_inv D s' = th_inv D s"
    "join_inv D s' = join_inv D s" "frame_inv D s' = frame_inv D s" "cpu_inv sw D s' = cpu_inv sw D s"
    unfolding inv_defs aux_defs e by (rule refl)+
  with assms show ?thesis unfolding kinv_def by simp
qed

lemma timer_more_aux:
  fixes s s' :: "'a kstate_scheme"
  assumes "timer_state.more s' = timer_state.more s"
  shows "live s' x = live s x" "cpu_up s' c = cpu_up s c" "timed_wait s' x = timed_wait s x"
    "timers s' (ThreadTimer x) = timers s (ThreadTimer x) \<Longrightarrow> thread_timer_ok s' x = thread_timer_ok s x"
  unfolding aux_defs timer_more [OF assms] by simp_all

lemma timer_cancel_kinv:
  fixes s :: "'a kstate_scheme"
  assumes k: "kinv sw D s" and mg: "tm_magic (timers s tm) = TIMER_MAGIC"
    and tD: "\<And>t. tm = ThreadTimer t \<Longrightarrow> t \<in> D"
  obtains s' where "timer_cancel c tm s = Some s'" and "kinv sw D s'"
    and "timer_state.more s' = timer_state.more s" and "\<And>b. tm \<notin> set (timer_queue s' b)"
    and "\<And>b x. x \<noteq> tm \<Longrightarrow> x \<in> set (timer_queue s' b) \<longleftrightarrow> x \<in> set (timer_queue s b)"
    and "\<And>x. x \<noteq> tm \<Longrightarrow> timers s' x = timers s x" and "\<And>x. tm_magic (timers s' x) = tm_magic (timers s x)"
proof (rule timer_cancel_Some [OF mg, of c])
  fix s' assume s': "timer_cancel c tm s = Some s'" and q: "timer_queue s' = (\<lambda>c. remove1 tm (timer_queue s c))"
    and t: "timers s' = (timers s)(tm := (timers s tm)\<lparr>periodic_time := 0, tm_callback := CbNone, tm_arg := 0\<rparr>)"
    and m: "timer_state.more s' = timer_state.more s"
  note e = timer_more [OF m] timer_more_aux [OF m]
  have ti: "timer_inv sw D s" using k by (simp add: kinv_def)
  note d = timer_invD [OF ti]
  have mem: "x \<in> set (timer_queue s' b) \<longleftrightarrow> x \<noteq> tm \<and> x \<in> set (timer_queue s b)" for x b
    using d(1) [of b] unfolding q by (auto simp: set_remove1_eq)
  have tmq: "tm_magic (timers s' x) = tm_magic (timers s x)" "x \<noteq> tm \<Longrightarrow> timers s' x = timers s x" for x
    unfolding t by simp_all
  have "timer_inv sw D s'"
  proof (rule timer_invI)
    show "distinct (timer_queue s' b)" for b using d(1) [of b] unfolding q by simp
    show "b = b'" if "x \<in> set (timer_queue s' b)" "x \<in> set (timer_queue s' b')" for x b b'
      using that d(2) unfolding mem by blast
    show "b < SMP_MAX_CPUS" if "x \<in> set (timer_queue s' b)" for x b
      using that d(3) unfolding mem by blast
    show "tm_magic (timers s' (PreemptTimer b)) = TIMER_MAGIC" if "b < SMP_MAX_CPUS" for b
      using d(4) [OF that] by (simp add: tmq)
    show "b' = b \<and> cpu_up s' b \<and> tm_callback (timers s' (PreemptTimer b)) = CbThreadTimerTick \<and>
        (b \<notin> sw \<longrightarrow> \<not> thread_is_real_time_or_idle (threads s' (current_thread s' b)))"
      if "PreemptTimer b' \<in> set (timer_queue s' b)" for b b'
      using that d(5) [of b' b] tmq(2) [of "PreemptTimer b"] unfolding mem e by auto
    show "thread_timer_ok s' x" if "ThreadTimer x \<in> set (timer_queue s' b)" "x \<notin> D" for x b
      using that d(6) [of x b] tmq(2) [of "ThreadTimer x"] unfolding mem by (simp add: e)
    show "tm_magic (timers s' (UserTimer n)) = TIMER_MAGIC \<and> (\<exists>k. tm_callback (timers s' (UserTimer n)) = CbUser k)"
      if "UserTimer n \<in> set (timer_queue s' b)" for b n
      using that d(7) [of n b] tmq(2) [of "UserTimer n"] unfolding mem by simp
    show "tm_magic (timers s' (ThreadTimer x)) = TIMER_MAGIC" if "timed_wait s' x" for x
      using that d(9) [of x] tmq(1) [of "ThreadTimer x"] unfolding e by simp
    show "\<exists>b. ThreadTimer x \<in> set (timer_queue s' b)"
      if "live s' x" "x \<notin> D" "t_state (threads s' x) = THREAD_SLEEPING \<or>
             t_state (threads s' x) = THREAD_BLOCKED \<and> timed_wait s' x" for x
      using that d(8) [of x] tD [of x] unfolding mem e by auto
  qed
  from kinv_timers [OF m k this] show thesis by (rule that [OF s' _ m]) (simp_all add: mem tmq)
qed

lemma timer_set_inv:
  fixes s :: "'a kstate_scheme"
  assumes ti: "timer_inv sw D s" and mg: "tm_magic (timers s tm) = TIMER_MAGIC" and c: "c < SMP_MAX_CPUS"
    and nl: "\<And>b. tm \<notin> set (timer_queue s b)"
    and pre: "\<And>b. tm = PreemptTimer b \<Longrightarrow> b = c \<and> c \<in> sw \<and> cpu_up s c \<and> cb = CbThreadTimerTick"
    and thr: "\<And>t. tm = ThreadTimer t \<Longrightarrow> t \<in> D"
    and usr: "\<And>n. tm = UserTimer n \<Longrightarrow> \<exists>k. cb = CbUser k"
  obtains s' where "timer_set SMP_MAX_CPUS c tm delay period cb arg s = Some s'" and "timer_inv sw D s'"
    and "timer_state.more s' = timer_state.more s"
    and "\<And>b x. x \<in> set (timer_queue s' b) \<longleftrightarrow> x \<in> set (timer_queue s b) \<or> x = tm \<and> b = c"
    and "\<And>x. x \<noteq> tm \<Longrightarrow> timers s' x = timers s x" and "\<And>x. tm_magic (timers s' x) = tm_magic (timers s x)"
    and "tm_callback (timers s' tm) = cb" "tm_arg (timers s' tm) = arg" "periodic_time (timers s' tm) = period"
      "scheduled_time (timers s' tm) = current_time s + delay"
proof (rule timer_set_Some [OF mg])
  show "\<not> timer_linked SMP_MAX_CPUS tm s" using nl by (simp add: timer_linked_def)
next
  fix s' assume s': "timer_set SMP_MAX_CPUS c tm delay period cb arg s = Some s'"
    and t: "timers s' = (timers s)(tm := (timers s tm)\<lparr>scheduled_time := current_time s + delay,
           periodic_time := period, tm_callback := cb, tm_arg := arg\<rparr>)"
    and q: "timer_queue s' = (timer_queue s)(c := insert_by_time (timers s') tm (timer_queue s c))"
    and m: "timer_state.more s' = timer_state.more s"
  note e = timer_more [OF m] timer_more_aux [OF m]
  note d = timer_invD [OF ti]
  have mem: "x \<in> set (timer_queue s' b) \<longleftrightarrow> x \<in> set (timer_queue s b) \<or> x = tm \<and> b = c" for x b
    unfolding q by (auto simp: set_insert_by_time)
  have tmq: "tm_magic (timers s' x) = tm_magic (timers s x)" "x \<noteq> tm \<Longrightarrow> timers s' x = timers s x"
    "tm_callback (timers s' tm) = cb" for x
    unfolding t by simp_all
  have "timer_inv sw D s'"
  proof (rule timer_invI)
    have "distinct (insert_by_time (timers s') tm (timer_queue s c))"
      using mset_insert_by_time [of "timers s'" tm "timer_queue s c"] d(1) [of c] nl [of c]
      by (metis distinct.simps(2) mset.simps(2) mset_eq_imp_distinct_iff)
    then show "distinct (timer_queue s' b)" for b using d(1) [of b] unfolding q by simp
    show "b = b'" if "x \<in> set (timer_queue s' b)" "x \<in> set (timer_queue s' b')" for x b b'
      using that d(2) [of x b b'] nl unfolding mem by auto
    show "b < SMP_MAX_CPUS" if "x \<in> set (timer_queue s' b)" for x b
      using that d(3) [of x b] c unfolding mem by auto
    show "tm_magic (timers s' (PreemptTimer b)) = TIMER_MAGIC" if "b < SMP_MAX_CPUS" for b
      using d(4) [OF that] by (simp add: tmq)
    show "b' = b \<and> cpu_up s' b \<and> tm_callback (timers s' (PreemptTimer b)) = CbThreadTimerTick \<and>
        (b \<notin> sw \<longrightarrow> \<not> thread_is_real_time_or_idle (threads s' (current_thread s' b)))"
      if "PreemptTimer b' \<in> set (timer_queue s' b)" for b b'
      using that d(5) [of b' b] tmq(2) [of "PreemptTimer b"] tmq(3) pre [of b'] unfolding mem e
      by (cases "PreemptTimer b' = tm") auto
    show "thread_timer_ok s' x" if "ThreadTimer x \<in> set (timer_queue s' b)" "x \<notin> D" for x b
      using that d(6) [of x b] tmq(2) [of "ThreadTimer x"] thr [of x] e(13) unfolding mem
      by (cases "ThreadTimer x = tm") auto
    show "tm_magic (timers s' (UserTimer n)) = TIMER_MAGIC \<and> (\<exists>k. tm_callback (timers s' (UserTimer n)) = CbUser k)"
      if "UserTimer n \<in> set (timer_queue s' b)" for b n
      using that d(7) [of n b] tmq(1) [of "UserTimer n"] tmq(2) [of "UserTimer n"] tmq(3) usr [of n] mg unfolding mem
      by (cases "UserTimer n = tm") auto
    show "tm_magic (timers s' (ThreadTimer x)) = TIMER_MAGIC" if "timed_wait s' x" for x
      using that d(9) [of x] tmq(1) [of "ThreadTimer x"] unfolding e by simp
    show "\<exists>b. ThreadTimer x \<in> set (timer_queue s' b)"
      if "live s' x" "x \<notin> D" "t_state (threads s' x) = THREAD_SLEEPING \<or>
             t_state (threads s' x) = THREAD_BLOCKED \<and> timed_wait s' x" for x
      using that d(8) [of x] unfolding mem e by auto
  qed
  then show thesis
    by (rule that [OF s' _ m]) (simp_all add: mem tmq, simp_all add: t)
qed

lemma timer_set_kinv:
  fixes s :: "'a kstate_scheme"
  assumes k: "kinv sw D s" and mg: "tm_magic (timers s tm) = TIMER_MAGIC" and c: "c < SMP_MAX_CPUS"
    and nl: "\<And>b. tm \<notin> set (timer_queue s b)"
    and pre: "\<And>b. tm = PreemptTimer b \<Longrightarrow> b = c \<and> c \<in> sw \<and> cpu_up s c \<and> cb = CbThreadTimerTick"
    and thr: "\<And>t. tm = ThreadTimer t \<Longrightarrow> t \<in> D"
    and usr: "\<And>n. tm = UserTimer n \<Longrightarrow> \<exists>k. cb = CbUser k"
  obtains s' where "timer_set SMP_MAX_CPUS c tm delay period cb arg s = Some s'" and "kinv sw D s'"
    and "timer_state.more s' = timer_state.more s"
    and "\<And>b x. x \<in> set (timer_queue s' b) \<longleftrightarrow> x \<in> set (timer_queue s b) \<or> x = tm \<and> b = c"
    and "\<And>x. x \<noteq> tm \<Longrightarrow> timers s' x = timers s x"
    and "tm_magic (timers s' tm) = TIMER_MAGIC" "tm_callback (timers s' tm) = cb" "tm_arg (timers s' tm) = arg"
      "periodic_time (timers s' tm) = period"
proof -
  have ti: "timer_inv sw D s" using k by (simp add: kinv_def)
  obtain s' where s': "timer_set SMP_MAX_CPUS c tm delay period cb arg s = Some s'" "timer_inv sw D s'"
    "timer_state.more s' = timer_state.more s"
    "\<And>b x. x \<in> set (timer_queue s' b) \<longleftrightarrow> x \<in> set (timer_queue s b) \<or> x = tm \<and> b = c"
    "\<And>x. x \<noteq> tm \<Longrightarrow> timers s' x = timers s x" "\<And>x. tm_magic (timers s' x) = tm_magic (timers s x)"
    "tm_callback (timers s' tm) = cb" "tm_arg (timers s' tm) = arg" "periodic_time (timers s' tm) = period"
    by (rule timer_set_inv [OF ti mg c nl, where cb = cb and delay = delay and period = period and arg = arg])
      (use pre thr usr in \<open>(blast | rule that)+\<close>)
  show ?thesis
    by (rule that [OF s'(1) kinv_timers [OF s'(3) k s'(2)] s'(3)]) (use s' mg in simp_all)
qed

lemma timer_initialize_inv:
  assumes ti: "timer_inv sw D s" and nl: "\<And>b. ThreadTimer t \<notin> set (timer_queue s b)"
  shows "timer_inv sw D (timer_initialize (ThreadTimer t) s)"
proof -
  let ?s = "timer_initialize (ThreadTimer t) s"
  have e: "timer_queue ?s = timer_queue s" "timer_state.more ?s = timer_state.more s"
    "\<And>x. x \<noteq> ThreadTimer t \<Longrightarrow> timers ?s x = timers s x"
    by (simp_all add: timer_initialize_def)
  note m = timer_more [OF e(2)] timer_more_aux [OF e(2)] and d = timer_invD [OF ti]
  show ?thesis
  proof (rule timer_invI)
    show "thread_timer_ok ?s x" if "ThreadTimer x \<in> set (timer_queue ?s b)" "x \<notin> D" for x b
      using that d(6) [of x b] nl e(3) [of "ThreadTimer x"] m by (cases "x = t") (auto simp: e(1))
    show "tm_magic (timers ?s (ThreadTimer x)) = TIMER_MAGIC" if "timed_wait ?s x" for x
      using that d(9) [of x] by (simp add: m) (simp add: timer_initialize_def TIMER_INITIAL_VALUE_def)
  qed (use d e(3) in \<open>auto simp: e(1) m\<close>)
qed

lemma timer_inv_shrink:
  assumes ti: "timer_inv sw D s" and ok: "\<And>b. ThreadTimer t \<in> set (timer_queue s b) \<Longrightarrow> thread_timer_ok s t"
    and arm: "live s t \<Longrightarrow> t_state (threads s t) = THREAD_SLEEPING \<or>
             t_state (threads s t) = THREAD_BLOCKED \<and> timed_wait s t \<Longrightarrow> \<exists>b. ThreadTimer t \<in> set (timer_queue s b)"
  shows "timer_inv sw (D - {t}) s"
proof (rule timer_invI)
  note d = timer_invD [OF ti]
  show "thread_timer_ok s x" if "ThreadTimer x \<in> set (timer_queue s b)" "x \<notin> D - {t}" for x b
    using that d(6) ok by auto
  show "\<exists>b. ThreadTimer x \<in> set (timer_queue s b)"
    if "live s x" "x \<notin> D - {t}" "t_state (threads s x) = THREAD_SLEEPING \<or>
             t_state (threads s x) = THREAD_BLOCKED \<and> timed_wait s x" for x
    using that d(8) [of x] arm by (cases "x = t") auto
qed (use timer_invD(1-5,7,9) [OF ti] in auto)


text \<open>What a thread keeps through any number of scheduling operations.\<close>

definition thread_same :: "thread \<Rightarrow> thread \<Rightarrow> bool" where
  "thread_same a b \<longleftrightarrow> t_magic b = t_magic a \<and> priority b = priority a \<and> t_flags b = t_flags a \<and>
     pinned_cpu b = pinned_cpu a \<and> t_aspace b = t_aspace a \<and> blocking_wait_queue b = blocking_wait_queue a \<and>
     wait_queue_block_ret b = wait_queue_block_ret a \<and> t_retcode b = t_retcode a \<and> t_stack b = t_stack a \<and>
     t_entry b = t_entry a"

text \<open>A cpu ready to switch: its thread has given up the cpu.\<close>

definition switching :: "cpu \<Rightarrow> 'a kstate_scheme \<Rightarrow> bool" where
  "switching c s \<longleftrightarrow> cpu_up s c \<and> t_state (threads s (current_thread s c)) \<noteq> THREAD_RUNNING \<and>
     curr_cpu (threads s (current_thread s c)) = int c \<and> may_run_on c (threads s (current_thread s c)) \<and>
     (PreemptTimer c \<in> set (timer_queue s c) \<longrightarrow>
        \<not> thread_is_real_time_or_idle (threads s (current_thread s c)))"

lemma get_top_thread_kinv:
  assumes k: "kinv {c} {} s" and up: "cpu_up s c" and g: "get_top_thread c s = (t, s')"
  shows "kinv {c} {t} s'" "relinked t False s s'" "live s t" "may_run_on c (threads s t)"
    "t_state (threads s t) = THREAD_READY" "blocking_wait_queue (threads s t) = None"
    "wait_queues s' = wait_queues s"
proof -
  have *: "kinv {c} {t} s' \<and> relinked t False s s' \<and> live s t \<and> may_run_on c (threads s t) \<and>
      t_state (threads s t) = THREAD_READY \<and> wait_queues s' = wait_queues s"
  proof (cases rule: get_top_thread_cases [OF k g, case_names idle queued])
    case idle
    from up have l: "live s (idle_thread c)" by (simp add: cpu_up_def)
    from k up have i: "thread_is_idle (threads s t)" "pinned_cpu (threads s t) = int c"
      "t_state (threads s t) = THREAD_READY \<or> t_state (threads s t) = THREAD_RUNNING"
      unfolding kinv_def cpu_inv_def idle(1) by auto
    have "t_state (threads s t) \<noteq> THREAD_RUNNING"
    proof
      assume r: "t_state (threads s t) = THREAD_RUNNING"
      with k l obtain b where b: "cpu_up s b" "b \<notin> {c}" "current_thread s b = t"
        unfolding kinv_def cpu_inv_def idle(1) by auto
      with kinv_cpu(5) [OF k b(1,2)] i(2) show False by (simp add: may_run_on_def)
    qed
    with i have r: "t_state (threads s t) = THREAD_READY" by simp
    have "kinv {c} {t} s'" unfolding idle(2) using r i(1) by (intro kinv_grow [OF k]) auto
    moreover have "\<not> queue_node (threads s t)" using kinv_thread_ok [OF k l] i(1) r by (simp add: thread_ok_def idle(1))
    then have "(threads s t)\<lparr>queue_node := False\<rparr> = threads s t" by (cases "threads s t") simp
    then have "relinked t False s s'" unfolding idle(2) by (simp add: relinked_def)
    ultimately show ?thesis using l i r idle by (simp add: may_run_on_def)
  next
    case (queued p)
    let ?u = "upd_thread t (\<lambda>th. th\<lparr>queue_node := False\<rparr>)
                    (s\<lparr>run_queue := (run_queue s)(p := remove1 t (run_queue s p))\<rparr>)"
    have s': "s' = (if remove1 t (run_queue s p) = []
        then ?u\<lparr>run_queue_bitmap := run_queue_bitmap s AND NOT (push_bit p 1)\<rparr> else ?u)"
      using queued(6) by (simp add: Let_def)
    have r: "relinked t False s s'" unfolding s' by (simp add: relinked_def)
    have "kinv {c} {t} s'"
      by (rule kinv_rq_remove [OF k queued(1) r]) (simp_all add: s')
    then show ?thesis using queued(2) r by (simp add: runnable_def s')
  qed
  then show "kinv {c} {t} s'" "relinked t False s s'" "live s t" "may_run_on c (threads s t)"
    "t_state (threads s t) = THREAD_READY" "wait_queues s' = wait_queues s" by simp_all
  then show "blocking_wait_queue (threads s t) = None" using kinv_thread_ok [OF k] by (simp add: thread_ok_def)
qed

lemma switch_accounts_more:
  "timers (switch_accounts c old new s) = timers s" "timer_queue (switch_accounts c old new s) = timer_queue s"
  "current_thread (switch_accounts c old new s) = current_thread s"
  "wait_queues (switch_accounts c old new s) = wait_queues s"
  "block_frame (switch_accounts c old new s) = block_frame s"
  "thread_list (switch_accounts c old new s) = thread_list s"
  by (simp_all add: switch_accounts_def Let_def stats_upd_def mp_set_cpu_idle_def mp_set_cpu_busy_def
      mp_set_cpu_realtime_def mp_set_cpu_non_realtime_def)

lemma switch_accounts_threads:
  assumes "old \<noteq> new"
  shows "threads (switch_accounts c old new s) = (threads s)
     (old := (threads s old)\<lparr>curr_cpu := -1\<rparr>,
      new := (threads s new)\<lparr>remaining_quantum := (if remaining_quantum (threads s new) \<le> 0 then 5
                else remaining_quantum (threads s new)), curr_cpu := int c\<rparr>)"
  using assms
  by (simp add: switch_accounts_def Let_def stats_upd_def mp_set_cpu_idle_def mp_set_cpu_busy_def
      mp_set_cpu_realtime_def mp_set_cpu_non_realtime_def fun_upd_twist)

lemma switch_accounts_kinv:
  assumes k: "kinv {c} {new} s" and l: "live s new" and st: "t_state (threads s new) = THREAD_RUNNING"
    and old: "old = current_thread s c" and up: "cpu_up s c" and ne: "old \<noteq> new"
    and oc: "curr_cpu (threads s old) = int c"
  shows "kinv {c} {new} (switch_accounts c old new s)"
proof -
  have nc: "current_thread s b \<noteq> t" if "cpu_up s b" "b \<notin> {c}" "t = old \<or> t = new" for b t
  proof
    assume "current_thread s b = t"
    with that kinv_cpu(2,4) [OF k that(1,2)] oc show False by auto
  qed
  let ?a = "if remaining_quantum (threads s new) \<le> 0
            then upd_thread new (\<lambda>th. th\<lparr>remaining_quantum := 5\<rparr>) s else s"
  have "kinv {c} {new} ?a" using k by (simp add: kinv_upd_irrel)
  then have "kinv {c} {new} (upd_thread old (\<lambda>th. th\<lparr>curr_cpu := -1\<rparr>) ?a)"
    by (rule kinv_upd_curr_cpu) (use nc in \<open>auto split: if_splits\<close>)
  then have "kinv {c} {new} (upd_thread new (\<lambda>th. th\<lparr>curr_cpu := int c\<rparr>) (upd_thread old (\<lambda>th. th\<lparr>curr_cpu := -1\<rparr>) ?a))"
    by (rule kinv_upd_curr_cpu) (use nc in \<open>auto split: if_splits\<close>)
  then show ?thesis
    by (rule kinv_cong [THEN iffD2, rotated -1])
      (simp_all add: switch_accounts_def Let_def stats_upd_def mp_set_cpu_idle_def mp_set_cpu_busy_def
      mp_set_cpu_realtime_def mp_set_cpu_non_realtime_def)
qed


text \<open>The state after a cpu has switched to \<open>new\<close>.\<close>

definition resched_to :: "cpu \<Rightarrow> tid \<Rightarrow> 'a kstate_scheme \<Rightarrow> 'a kstate_scheme \<Rightarrow> bool" where
  "resched_to c new s s' \<longleftrightarrow>
     current_thread s' = (current_thread s)(c := new) \<and> wait_queues s' = wait_queues s \<and>
     block_frame s' = block_frame s \<and> thread_list s' = thread_list s \<and> freed s' = freed s \<and>
     kstate.more s' = kstate.more s \<and>
     (\<forall>x. thread_same (threads s x) (threads s' x)) \<and>
     (\<forall>x. t_state (threads s' x) = (if x = new then THREAD_RUNNING else t_state (threads s x))) \<and>
     (\<forall>x b. x \<noteq> PreemptTimer c \<longrightarrow> (x \<in> set (timer_queue s' b) \<longleftrightarrow> x \<in> set (timer_queue s b)) \<and>
        timers s' x = timers s x) \<and>
     live s new \<and> may_run_on c (threads s new) \<and> t_state (threads s new) = THREAD_READY \<and>
     top_choice c s new"

lemma thread_timer_ok_ready:
  assumes "kinv sw D s" and "t \<notin> D" and "t_state (threads s t) = THREAD_READY \<or> t_state (threads s t) = THREAD_RUNNING"
    and "ThreadTimer t \<in> set (timer_queue s b)" and "timers s' (ThreadTimer t) = timers s (ThreadTimer t)"
    and "block_frame s' t = block_frame s t" and "live s' t"
  shows "thread_timer_ok s' t"
proof -
  have "thread_timer_ok s t" using assms(1,2,4) by (auto simp: kinv_def intro: timer_invD(6))
  with assms show ?thesis by (auto simp: thread_timer_ok_def timed_wait_def)
qed

lemma switch_preempt_timer_kinv:
  fixes s :: "'a kstate_scheme"
  assumes k: "kinv {c} {new} s" and up: "cpu_up s c"
    and pre: "PreemptTimer c \<in> set (timer_queue s c) \<Longrightarrow> \<not> thread_is_real_time_or_idle (threads s old)"
  obtains s' where "switch_preempt_timer c old new s = Some s'" and "kinv {c} {new} s'"
    and "timer_state.more s' = timer_state.more s"
    and "PreemptTimer c \<in> set (timer_queue s' c) \<Longrightarrow> \<not> thread_is_real_time_or_idle (threads s new)"
    and "\<And>x b. x \<noteq> PreemptTimer c \<Longrightarrow> (x \<in> set (timer_queue s' b) \<longleftrightarrow> x \<in> set (timer_queue s b)) \<and>
        timers s' x = timers s x"
proof -
  have c: "c < SMP_MAX_CPUS" using up by (simp add: cpu_up_def)
  have ti: "timer_inv {c} {new} s" using k by (simp add: kinv_def)
  note mg = timer_invD(4) [OF ti c]
  consider (cancel) "thread_is_real_time_or_idle (threads s new)" "\<not> thread_is_real_time_or_idle (threads s old)"
    | (set) "\<not> thread_is_real_time_or_idle (threads s new)" "thread_is_real_time_or_idle (threads s old)"
    | (none) "thread_is_real_time_or_idle (threads s new) = thread_is_real_time_or_idle (threads s old)"
    by blast
  then show ?thesis
  proof cases
    case cancel
    obtain s' where s': "timer_cancel c (PreemptTimer c) s = Some s'" "kinv {c} {new} s'"
      "timer_state.more s' = timer_state.more s" "\<And>b. PreemptTimer c \<notin> set (timer_queue s' b)"
      "\<And>b x. x \<noteq> PreemptTimer c \<Longrightarrow> x \<in> set (timer_queue s' b) \<longleftrightarrow> x \<in> set (timer_queue s b)"
      "\<And>x. x \<noteq> PreemptTimer c \<Longrightarrow> timers s' x = timers s x"
      by (rule timer_cancel_kinv [OF k mg, of c]) auto
    show ?thesis
      by (rule that [of s']) (use s' cancel in \<open>simp_all add: switch_preempt_timer_def\<close>)
  next
    case set
    with pre have "PreemptTimer c \<notin> set (timer_queue s c)" by blast
    then have nl: "PreemptTimer c \<notin> set (timer_queue s b)" for b using timer_invD(5) [OF ti, of c b] by auto
    obtain s' where s': "timer_set SMP_MAX_CPUS c (PreemptTimer c) 10 10 CbThreadTimerTick 0 s = Some s'"
      "kinv {c} {new} s'" "timer_state.more s' = timer_state.more s"
      "\<And>b x. x \<in> set (timer_queue s' b) \<longleftrightarrow> x \<in> set (timer_queue s b) \<or> x = PreemptTimer c \<and> b = c"
      "\<And>x. x \<noteq> PreemptTimer c \<Longrightarrow> timers s' x = timers s x"
      by (rule timer_set_kinv [OF k mg c nl, of CbThreadTimerTick 10 10 0]) (use up in auto)
    show ?thesis
      by (rule that [of s']) (use s' set in \<open>simp_all add: switch_preempt_timer_def timer_set_periodic_def\<close>)
  next
    case none
    show ?thesis
      by (rule that [of s]) (use k none pre in \<open>simp_all add: switch_preempt_timer_def\<close>)
  qed
qed


lemma stats_upd_same [simp]:
  "threads (stats_upd c f s) = threads s" "thread_list (stats_upd c f s) = thread_list s"
  "run_queue (stats_upd c f s) = run_queue s" "wait_queues (stats_upd c f s) = wait_queues s"
  "current_thread (stats_upd c f s) = current_thread s" "block_frame (stats_upd c f s) = block_frame s"
  "timers (stats_upd c f s) = timers s" "timer_queue (stats_upd c f s) = timer_queue s"
  "freed (stats_upd c f s) = freed s" "kstate.more (stats_upd c f s) = kstate.more s"
  "live (stats_upd c f s) x = live s x" "cpu_up (stats_upd c f s) b = cpu_up s b"
  by (simp_all add: stats_upd_def live_def cpu_up_def)

lemma switch_accounts_frees: "freed (switch_accounts c old new s) = freed s"
  "kstate.more (switch_accounts c old new s) = kstate.more s"
  by (simp_all add: switch_accounts_def Let_def stats_upd_def mp_set_cpu_idle_def mp_set_cpu_busy_def
      mp_set_cpu_realtime_def mp_set_cpu_non_realtime_def upd_thread_def)

lemma get_top_thread_more:
  assumes "get_top_thread c s = (t, s')"
  shows "freed s' = freed s" "kstate.more s' = kstate.more s"
  using assms by (auto simp: get_top_thread_def Let_def upd_thread_def split: option.splits if_splits)

lemma get_top_thread_best:
  assumes k: "kinv sw {} s" and g: "get_top_thread c s = (t, s')"
  shows "top_choice c s t"
  unfolding top_choice_def by (rule get_top_thread_cases [OF k g]) auto

lemma thread_resched_kinv:
  fixes s :: "'a kstate_scheme"
  assumes k: "kinv {c} {} s" and sw: "switching c s"
  obtains s' new where "thread_resched c s = Some s'" and "kinv {} {} s'" and "resched_to c new s s'"
proof -
  let ?old = "current_thread s c"
  let ?s1 = "stats_upd c (\<lambda>st. st\<lparr>reschedules := reschedules st + 1\<rparr>) s"
  obtain new s2 where g: "get_top_thread c ?s1 = (new, s2)" by (cases "get_top_thread c ?s1") auto
  let ?s3 = "upd_thread new (\<lambda>th. th\<lparr>t_state := THREAD_RUNNING\<rparr>) s2"
  from sw have up: "cpu_up s c" by (simp add: switching_def)
  have k1: "kinv {c} {} ?s1" using k by simp
  have up1: "cpu_up ?s1 c" using up by simp
  note top = get_top_thread_kinv [OF k1 up1 g, simplified]
  note rl = relinked_sel [OF top(2), simplified] and top_more = get_top_thread_more [OF g, simplified]
  have best: "top_choice c s new"
    using get_top_thread_best [OF k1 g] unfolding top_choice_def runnable_def stats_upd_same .
  have k3: "kinv {c} {new} ?s3"
    by (rule kinv_upd [OF top(1)]) (use kinv_thread_ok [OF top(1), of new] in \<open>auto simp: thread_ok_def\<close>)
  have l3: "live ?s3 new" and up3: "cpu_up ?s3 c" using top(3) up by (simp_all add: rl)
  have bq: "blocking_wait_queue (threads s2 new) = None" and mr: "may_run_on c (threads s2 new)"
    using top by (simp_all add: rl)
  have same: "thread_same (threads s x) (threads s2 x)" for x
    using top(2) by (simp add: relinked_def thread_same_def)
  have same3: "thread_same (threads s x) (threads ?s3 x)" for x
    using same [of x] by (auto simp: thread_same_def)
  have tm: "thread_timer_ok u new" if "ThreadTimer new \<in> set (timer_queue s b)"
    "timers u (ThreadTimer new) = timers s (ThreadTimer new)" "block_frame u new = block_frame s new" "live u new" for u b
    by (rule thread_timer_ok_ready [OF k _ _ that(1)]) (use top(5) that in auto)
  note out = top(3,4,5) best
  show ?thesis
  proof (cases "new = ?old")
    case True
    have r: "thread_resched c s = Some ?s3"
      using sw g True by (simp add: thread_resched_def Let_def switching_def)
    have "kinv ({c} - {c}) ({new} - {new}) (?s3\<lparr>current_thread := (current_thread ?s3)(c := new)\<rparr>)"
    proof (rule kinv_own [OF k3 up3 _ l3])
      show "thread_timer_ok ?s3 new" if "ThreadTimer new \<in> set (timer_queue ?s3 b)" for b
        by (rule tm [of b]) (use that l3 in \<open>simp_all add: rl\<close>)
      show "\<not> thread_is_real_time_or_idle (threads ?s3 new)" if "PreemptTimer c \<in> set (timer_queue ?s3 c)"
        using that sw True by (simp add: rl switching_def thread_is_real_time_or_idle_def)
    qed (use sw True mr bq in \<open>simp_all add: rl switching_def may_run_on_def\<close>)
    moreover have cur: "(current_thread s2)(c := new) = current_thread s2" using True by (simp add: rl fun_upd_idem_iff)
    ultimately have "kinv {} {} ?s3" by (subst (asm) kinv_cong [where s = ?s3]) simp_all
    moreover have "resched_to c new s ?s3"
      unfolding resched_to_def using out same3 top_more top(7) True
      by (simp add: rl upd_thread_def fun_upd_idem_iff)
    ultimately show ?thesis by (rule that [OF r])
  next
    case False
    let ?s4 = "switch_accounts c ?old new ?s3"
    have old3: "?old = current_thread ?s3 c" by (simp add: rl)
    have th4: "threads ?s4 = (threads ?s3)
     (?old := (threads ?s3 ?old)\<lparr>curr_cpu := -1\<rparr>,
      new := (threads ?s3 new)\<lparr>remaining_quantum := (if remaining_quantum (threads ?s3 new) \<le> 0 then 5
                else remaining_quantum (threads ?s3 new)), curr_cpu := int c\<rparr>)"
      by (rule switch_accounts_threads) (use False in auto)
    note m4 = switch_accounts_more [of c ?old new ?s3]
    have k4: "kinv {c} {new} ?s4"
      by (rule switch_accounts_kinv [OF k3 l3 _ old3 up3]) (use sw False in \<open>auto simp: rl switching_def\<close>)
    have up4: "cpu_up ?s4 c" and l4: "live ?s4 new" using up3 l3 by (simp_all add: cpu_up_def live_def m4)
    have fl4: "t_flags (threads ?s4 x) = t_flags (threads s x)" for x using False by (simp add: th4 rl)
    obtain s5 where s5: "switch_preempt_timer c ?old new ?s4 = Some s5" "kinv {c} {new} s5"
      "timer_state.more s5 = timer_state.more ?s4"
      "PreemptTimer c \<in> set (timer_queue s5 c) \<Longrightarrow> \<not> thread_is_real_time_or_idle (threads ?s4 new)"
      "\<And>x b. x \<noteq> PreemptTimer c \<Longrightarrow> (x \<in> set (timer_queue s5 b) \<longleftrightarrow> x \<in> set (timer_queue ?s4 b)) \<and>
        timers s5 x = timers ?s4 x"
      by (rule switch_preempt_timer_kinv [OF k4 up4, of ?old])
        (use sw fl4 in \<open>auto simp: m4 rl switching_def thread_is_real_time_or_idle_def\<close>)
    note e5 = timer_more [OF s5(3)] timer_more_aux [OF s5(3)]
    let ?s6 = "s5\<lparr>current_thread := (current_thread s5)(c := new)\<rparr>"
    have "kinv ({c} - {c}) ({new} - {new}) ?s6"
    proof (rule kinv_own [OF s5(2)])
      show "thread_timer_ok s5 new" if "ThreadTimer new \<in> set (timer_queue s5 b)" for b
        by (rule tm [of b]) (use that s5(5) l4 in \<open>simp_all add: e5 m4 rl\<close>)
    qed (use up4 l4 s5(4) mr bq in \<open>simp_all add: e5 th4 may_run_on_def\<close>)
    then have k6: "kinv {} {} ?s6" by simp
    let ?s7 = "if t_aspace (threads ?s6 new) \<noteq> t_aspace (threads ?s6 ?old)
               then vmm_context_switch c (t_aspace (threads ?s6 new)) ?s6 else ?s6"
    have "\<not> stack_overrun (threads ?s6 ?old)" using k6 by (simp add: kinv_def th_inv_def)
    then have r: "thread_resched c s = Some ?s7"
      using sw g s5(1) False by (simp add: thread_resched_def Let_def switching_def)
    have th5: "thread_same (threads s x) (threads s5 x)"
      "t_state (threads s5 x) = (if x = new then THREAD_RUNNING else t_state (threads s x))" for x
      using same3 [of x] False by (auto simp: e5 th4 thread_same_def rl)
    have "resched_to c new s ?s6"
      unfolding resched_to_def using out th5 top_more top(7) s5(5)
      by (simp add: e5 m4 rl switch_accounts_frees) (simp add: upd_thread_def)
    then have "resched_to c new s ?s7" by (simp add: resched_to_def vmm_context_switch_def)
    moreover have "kinv {} {} ?s7" using k6 by simp
    ultimately show ?thesis by (intro that [OF r])
  qed
qed

end
