(* ===== verification/LK_Sched_Ops.thy ===== *)
theory LK_Sched_Ops
  imports LK_Sched
begin

text \<open>
  Every operation of \<^verbatim>\<open>kernel/thread.c\<close> keeps the invariant of \<open>LK_Sched\<close> and never fails an assertion when
  it is called the way the kernel calls it; the step relation of the scheduler and what holds of every
  reachable state.
\<close>

section \<open>Giving up the cpu\<close>

lemma switching_relinked: "relinked t b s s' \<Longrightarrow> switching c s' = switching c s"
  unfolding switching_def by (simp add: relinked_sel)

lemma give_up_cpu:
  assumes k: "kinv {} D s" and up: "cpu_up s c" and t: "t = current_thread s c"
    and f: "t_flags (f (threads s t)) = t_flags (threads s t)" "t_stack (f (threads s t)) = t_stack (threads s t)"
      "pinned_cpu (f (threads s t)) = pinned_cpu (threads s t)" "curr_cpu (f (threads s t)) = curr_cpu (threads s t)"
      "t_magic (f (threads s t)) = t_magic (threads s t)" "queue_node (f (threads s t)) = queue_node (threads s t)"
      "0 \<le> priority (f (threads s t)) \<and> priority (f (threads s t)) < int NUM_PRIORITIES"
      "t_state (f (threads s t)) \<noteq> THREAD_RUNNING"
  shows "kinv {c} (insert t D) (upd_thread t f s)" and "switching c (upd_thread t f s)"
proof -
  have k1: "kinv {c} (insert t D) s" unfolding t by (rule kinv_release [OF k up]) simp
  note cur = kinv_cpu [OF k up] kinv_current [OF k up]
  show "kinv {c} (insert t D) (upd_thread t f s)"
    by (rule kinv_upd [OF k1]) (use f cur t in simp_all)
  have "timer_inv {} D s" using k by (simp add: kinv_def)
  from timer_invD(5) [OF this, of c c] show "switching c (upd_thread t f s)"
    using f cur t up by (auto simp: switching_def may_run_on_def thread_is_real_time_or_idle_def)
qed

lemma current_timer_ok:
  assumes k: "kinv {} D s" and up: "cpu_up s c" and "ThreadTimer (current_thread s c) \<in> set (timer_queue s b)"
    and "timers s' (ThreadTimer (current_thread s c)) = timers s (ThreadTimer (current_thread s c))"
    and "block_frame s' (current_thread s c) = block_frame s (current_thread s c)"
    and "live s' (current_thread s c)"
  shows "thread_timer_ok s' (current_thread s c)"
  by (rule thread_timer_ok_ready [OF k _ _ assms(3)]) (use assms kinv_cpu(2,3) [OF k up] in auto)

text \<open>The running thread goes back into the run queue, at the head or at the tail.\<close>

lemma requeue_current:
  assumes k: "kinv {} D s" and up: "cpu_up s c" and t: "t = current_thread s c"
    and ni: "\<not> thread_is_idle (threads s t)"
    and ins: "ins = insert_in_run_queue_head \<or> ins = insert_in_run_queue_tail"
    and f: "t_flags (f (threads s t)) = t_flags (threads s t)" "t_stack (f (threads s t)) = t_stack (threads s t)"
      "pinned_cpu (f (threads s t)) = pinned_cpu (threads s t)" "curr_cpu (f (threads s t)) = curr_cpu (threads s t)"
      "t_magic (f (threads s t)) = t_magic (threads s t)" "queue_node (f (threads s t)) = queue_node (threads s t)"
      "blocking_wait_queue (f (threads s t)) = blocking_wait_queue (threads s t)"
      "0 \<le> priority (f (threads s t)) \<and> priority (f (threads s t)) < int NUM_PRIORITIES"
      "t_state (f (threads s t)) = THREAD_READY"
  obtains s' where "ins t (upd_thread t f s) = Some s'" and "kinv {c} D s'" and "switching c s'"
    and "relinked t True (upd_thread t f s) s'" and "wait_queues s' = wait_queues s"
proof -
  let ?s1 = "upd_thread t f s"
  note cur = kinv_cpu [OF k up] kinv_current [OF k up]
  have k1: "kinv {c} (insert t D) ?s1" and sw1: "switching c ?s1"
    by (rule give_up_cpu [OF k up t]; use f in simp)+
  have tmok: "thread_timer_ok ?s1 t" if "ThreadTimer t \<in> set (timer_queue ?s1 b)" for b
    unfolding t by (rule current_timer_ok [OF k up]) (use that cur t in simp_all)
  have D: "insert t D - {t} = D" using cur(2) t by simp
  have pre: "t \<in> insert t D" "live ?s1 t" "t_state (threads ?s1 t) = THREAD_READY"
      "\<not> thread_is_idle (threads ?s1 t)" "blocking_wait_queue (threads ?s1 t) = None"
    using cur t f ni by (simp_all add: thread_is_idle_def)
  obtain s' where s': "ins t ?s1 = Some s'" "kinv {c} (insert t D - {t}) s'" "relinked t True ?s1 s'"
    "wait_queues s' = wait_queues ?s1"
  proof (cases "ins = insert_in_run_queue_head")
    case True
    show ?thesis by (rule insert_in_run_queue_head_kinv [OF k1 pre tmok]) (assumption, rule that [unfolded True], assumption+)
  next
    case False
    with ins have tail: "ins = insert_in_run_queue_tail" by simp
    show ?thesis by (rule insert_in_run_queue_tail_kinv [OF k1 pre tmok]) (assumption, rule that [unfolded tail], assumption+)
  qed
  have "switching c s'" using switching_relinked [OF s'(3)] sw1 by simp
  with s' D show ?thesis by (intro that [of s']) simp_all
qed

text \<open>The idle thread gives up the cpu without entering a queue.\<close>

lemma idle_gives_up:
  assumes k: "kinv {} {} s" and up: "cpu_up s c" and t: "t = current_thread s c"
    and ni: "thread_is_idle (threads s t)"
    and f: "t_flags (f (threads s t)) = t_flags (threads s t)" "t_stack (f (threads s t)) = t_stack (threads s t)"
      "pinned_cpu (f (threads s t)) = pinned_cpu (threads s t)" "curr_cpu (f (threads s t)) = curr_cpu (threads s t)"
      "t_magic (f (threads s t)) = t_magic (threads s t)" "queue_node (f (threads s t)) = queue_node (threads s t)"
      "blocking_wait_queue (f (threads s t)) = blocking_wait_queue (threads s t)"
      "0 \<le> priority (f (threads s t)) \<and> priority (f (threads s t)) < int NUM_PRIORITIES"
      "t_state (f (threads s t)) = THREAD_READY"
  shows "kinv {c} {} (upd_thread t f s)" "switching c (upd_thread t f s)"
proof -
  let ?s1 = "upd_thread t f s"
  note cur = kinv_cpu [OF k up] kinv_current [OF k up]
  have k1: "kinv {c} {t} ?s1" and sw1: "switching c ?s1"
    by (rule give_up_cpu [OF k up t]; use f in simp)+
  have tmok: "thread_timer_ok ?s1 t" if "ThreadTimer t \<in> set (timer_queue ?s1 b)" for b
    unfolding t by (rule current_timer_ok [OF k up]) (use that cur t in simp_all)
  have "kinv {c} ({t} - {t}) ?s1"
    using ni cur f tmok t by (intro kinv_settle [OF k1]) (simp_all add: thread_is_idle_def)
  then show "kinv {c} {} ?s1" "switching c ?s1" using sw1 by simp_all
qed

text \<open>A cpu runs a thread no runnable thread outranks.\<close>

definition runs_best :: "cpu \<Rightarrow> 'a kstate_scheme \<Rightarrow> bool" where
  "runs_best c s \<longleftrightarrow> (\<forall>x. runnable c s x \<longrightarrow> priority (threads s x) \<le> priority (threads s (current_thread s c)))"

lemma thread_same_idle: "thread_same a b \<Longrightarrow> thread_is_idle b = thread_is_idle a"
  by (simp add: thread_same_def thread_is_idle_def)

lemma thread_same_may: "thread_same a b \<Longrightarrow> may_run_on c b = may_run_on c a"
  by (simp add: thread_same_def may_run_on_def)

lemma resched_to_best:
  assumes "resched_to c new s s'"
  shows "runs_best c s'"
  unfolding runs_best_def
proof (intro allI impI)
  fix x assume x: "runnable c s' x"
  have th: "thread_same (threads s y) (threads s' y)" for y using assms by (simp add: resched_to_def)
  have l: "live s' y = live s y" for y using assms by (simp add: resched_to_def live_def)
  from x assms have "x \<noteq> new" by (auto simp: runnable_def resched_to_def)
  then have "runnable c s x"
    using x assms thread_same_idle [OF th, of x] thread_same_may [OF th, of c x] l
    by (auto simp: runnable_def resched_to_def)
  moreover from this have "\<exists>x. runnable c s x" by blast
  ultimately have "priority (threads s x) \<le> priority (threads s new)"
    using assms unfolding resched_to_def top_choice_def by simp
  then show "priority (threads s' x) \<le> priority (threads s' (current_thread s' c))"
    using th [of x] th [of new] assms by (simp add: thread_same_def resched_to_def)
qed

lemma thread_yield_kinv:
  assumes k: "kinv {} {} s" and up: "cpu_up s c"
  obtains s' where "thread_yield c s = Some s'" and "kinv {} {} s'" and "runs_best c s'"
    and "thread_list s' = thread_list s" and "wait_queues s' = wait_queues s" and "kstate.more s' = kstate.more s"
proof -
  let ?t = "current_thread s c"
  let ?s0 = "stats_upd c (\<lambda>st. st\<lparr>yields := yields st + 1\<rparr>) s"
  let ?f = "\<lambda>th. th\<lparr>t_state := THREAD_READY, remaining_quantum := 0\<rparr>"
  let ?s1 = "upd_thread ?t ?f ?s0"
  let ?q = "if \<not> thread_is_idle (threads ?s1 ?t) then insert_in_run_queue_tail ?t ?s1 else Some ?s1"
  have k0: "kinv {} {} ?s0" and up0: "cpu_up ?s0 c" using k up by simp_all
  note cur = kinv_cpu [OF k up] kinv_current [OF k up]
  obtain s2 where s2: "?q = Some s2" "kinv {c} {} s2" "switching c s2" "thread_list s2 = thread_list s"
  proof (cases "thread_is_idle (threads s ?t)")
    case True
    with idle_gives_up [OF k0 up0, of ?t ?f] cur show ?thesis by (intro that [of ?s1]) (simp_all add: thread_is_idle_def)
  next
    case False
    obtain s2 where "insert_in_run_queue_tail ?t ?s1 = Some s2" "kinv {c} {} s2" "switching c s2" "relinked ?t True ?s1 s2"
      by (rule requeue_current [OF k0 up0, of ?t insert_in_run_queue_tail ?f]) (use cur False in simp_all)
    with False show ?thesis by (intro that [of s2]) (simp_all add: thread_is_idle_def relinked_def)
  qed
  obtain s' new where s': "thread_resched c s2 = Some s'" "kinv {} {} s'" "resched_to c new s2 s'"
    by (rule thread_resched_kinv [OF s2(2,3)])
  have fr: "wait_queues s2 = wait_queues s" "kstate.more s2 = kstate.more s"
    using s2(1) by (auto simp: insert_in_run_queue_tail_def dassert_def Let_def upd_thread_def stats_upd_def split: if_splits)
  have "thread_yield c s = Some s'" using s2(1) s'(1) cur by (simp add: thread_yield_def Let_def)
  with s' s2(4) fr resched_to_best [OF s'(3)] show ?thesis by (intro that [of s']) (simp_all add: resched_to_def)
qed

lemma thread_preempt_kinv:
  assumes k: "kinv {} {} s" and up: "cpu_up s c"
  obtains s' where "thread_preempt c s = Some s'" and "kinv {} {} s'" and "runs_best c s'"
    and "thread_list s' = thread_list s"
proof -
  let ?t = "current_thread s c"
  let ?s0 = "if \<not> thread_is_idle (threads s ?t) then stats_upd c (\<lambda>st. st\<lparr>preempts := preempts st + 1\<rparr>) s else s"
  let ?f = "\<lambda>th. th\<lparr>t_state := THREAD_READY\<rparr>"
  let ?s1 = "upd_thread ?t ?f ?s0"
  let ?q = "if \<not> thread_is_idle (threads ?s1 ?t) then
      (if remaining_quantum (threads ?s1 ?t) > 0 then insert_in_run_queue_head ?t ?s1 else insert_in_run_queue_tail ?t ?s1)
      else Some ?s1"
  have k0: "kinv {} {} ?s0" and up0: "cpu_up ?s0 c" using k up by simp_all
  have cur0: "current_thread ?s0 c = ?t" "threads ?s0 = threads s" by simp_all
  note cur = kinv_cpu [OF k up] kinv_current [OF k up]
  obtain s2 where s2: "?q = Some s2" "kinv {c} {} s2" "switching c s2" "thread_list s2 = thread_list s"
  proof (cases "thread_is_idle (threads s ?t)")
    case True
    with idle_gives_up [OF k up, of ?t ?f] cur show ?thesis by (intro that [of ?s1]) (simp_all add: thread_is_idle_def)
  next
    case False
    let ?ins = "if remaining_quantum (threads ?s1 ?t) > 0 then insert_in_run_queue_head else insert_in_run_queue_tail"
    obtain s2 where "?ins ?t ?s1 = Some s2" "kinv {c} {} s2" "switching c s2" "relinked ?t True ?s1 s2"
      by (rule requeue_current [OF k0 up0, of ?t ?ins ?f]) (use cur False in simp_all)
    with False show ?thesis by (intro that [of s2]) (simp_all add: thread_is_idle_def relinked_def split: if_splits)
  qed
  obtain s' new where s': "thread_resched c s2 = Some s'" "kinv {} {} s'" "resched_to c new s2 s'"
    by (rule thread_resched_kinv [OF s2(2,3)])
  have "thread_preempt c s = Some s'"
    using s2(1) s'(1) cur by (simp add: thread_preempt_def Let_def cur0 split del: if_split)
  with s' s2(4) resched_to_best [OF s'(3)] show ?thesis by (intro that [of s']) (simp_all add: resched_to_def)
qed

lemma thread_set_priority_kinv:
  assumes k: "kinv {} {} s" and up: "cpu_up s c" and ni: "\<not> thread_is_idle (threads s (current_thread s c))"
  obtains s' where "thread_set_priority c p s = Some s'" and "kinv {} {} s'" and "runs_best c s'"
    and "priority (threads s' (current_thread s c)) = max 1 (min p 31)"
proof -
  let ?t = "current_thread s c"
  let ?p = "max 1 (min p 31)"
  let ?f = "\<lambda>th. th\<lparr>priority := ?p, t_state := THREAD_READY\<rparr>"
  let ?s1 = "upd_thread ?t ?f s"
  note cur = kinv_cpu [OF k up] kinv_current [OF k up]
  obtain s2 where s2: "insert_in_run_queue_head ?t ?s1 = Some s2" "kinv {c} {} s2" "switching c s2"
    "relinked ?t True ?s1 s2"
    by (rule requeue_current [OF k up, of ?t insert_in_run_queue_head ?f])
      (use cur ni in \<open>auto simp: NUM_PRIORITIES_def\<close>)
  obtain s' new where s': "thread_resched c s2 = Some s'" "kinv {} {} s'" "resched_to c new s2 s'"
    by (rule thread_resched_kinv [OF s2(2,3)])
  have e: "upd_thread ?t (\<lambda>th. th\<lparr>t_state := THREAD_READY\<rparr>) (upd_thread ?t (\<lambda>th. th\<lparr>priority := ?p\<rparr>) s) = ?s1"
    by (simp add: upd_thread_def)
  have clamp: "(let q = (if p \<le> 0 then 0 + 1 else p) in if q > 31 then 31 else q) = ?p" by (auto simp: Let_def max_def min_def)
  have "thread_set_priority c p s = Some s'"
    unfolding thread_set_priority_def clamp [symmetric]
    using s2(1) s'(1) e clamp by (simp add: Let_def)
  moreover have "priority (threads s' ?t) = ?p"
    using s'(3) relinked_sel(3) [OF s2(4), of ?t] by (simp add: resched_to_def thread_same_def)
  ultimately show ?thesis using s' by (intro that [of s'] resched_to_best)
qed


section \<open>Waking threads\<close>

lemma mp_reschedule_same [simp]:
  "threads (mp_reschedule c m f s) = threads s" "thread_list (mp_reschedule c m f s) = thread_list s"
  "run_queue (mp_reschedule c m f s) = run_queue s" "wait_queues (mp_reschedule c m f s) = wait_queues s"
  "current_thread (mp_reschedule c m f s) = current_thread s" "block_frame (mp_reschedule c m f s) = block_frame s"
  "timers (mp_reschedule c m f s) = timers s" "timer_queue (mp_reschedule c m f s) = timer_queue s"
  "freed (mp_reschedule c m f s) = freed s" "kstate.more (mp_reschedule c m f s) = kstate.more s"
  "live (mp_reschedule c m f s) x = live s x" "cpu_up (mp_reschedule c m f s) b = cpu_up s b"
  "switching c' (mp_reschedule c m f s) = switching c' s"
  by (simp_all add: mp_reschedule_def Let_def live_def cpu_up_def switching_def)

lemma upd_more [simp]:
  "freed (upd_thread t f s) = freed s" "kstate.more (upd_thread t f s) = kstate.more s"
  "freed (upd_wq w g s) = freed s" "kstate.more (upd_wq w g s) = kstate.more s"
  by (simp_all add: upd_thread_def upd_wq_def)

text \<open>A thread taken off its wait queue with the status its wait will return.\<close>

definition take_waiter :: "wq_id \<Rightarrow> tid \<Rightarrow> status_t \<Rightarrow> 'a kstate_scheme \<Rightarrow> 'a kstate_scheme" where
  "take_waiter w t err s =
     upd_thread t (make_ready err)
       (upd_wq w (\<lambda>q. q\<lparr>wq_list := remove1 t (wq_list q), wq_count := wq_count q - 1\<rparr>)
         (upd_thread t (\<lambda>th. th\<lparr>queue_node := False\<rparr>) s))"

lemma wq_invD:
  assumes "wq_inv D s"
  shows "t \<in> set (wq_list (wait_queues s w)) \<longleftrightarrow> live s t \<and> t \<notin> D \<and>
      t_state (threads s t) = THREAD_BLOCKED \<and> blocking_wait_queue (threads s t) = Some w"
    and "distinct (wq_list (wait_queues s w))"
    and "wq_count (wait_queues s w) = int (length (wq_list (wait_queues s w)))"
    and "wq_list (wait_queues s w) \<noteq> [] \<Longrightarrow> wq_magic (wait_queues s w) = WAIT_QUEUE_MAGIC"
  using assms unfolding wq_inv_def by blast+

lemma frame_invD:
  assumes "frame_inv D s"
  shows "block_frame s t \<noteq> None \<Longrightarrow> live s t \<and> \<not> thread_is_idle (threads s t)"
    and "live s t \<Longrightarrow> t \<notin> D \<Longrightarrow> t_state (threads s t) = THREAD_BLOCKED \<Longrightarrow>
      \<exists>w timeout. block_frame s t = Some (w, timeout) \<and> blocking_wait_queue (threads s t) = Some w"
    and "live s t \<Longrightarrow> t \<notin> D \<Longrightarrow> block_frame s t \<noteq> None \<Longrightarrow>
      t_state (threads s t) \<in> {THREAD_BLOCKED, THREAD_READY, THREAD_RUNNING}"
  using assms unfolding frame_inv_def by blast+

lemma kinv_waiter:
  assumes k: "kinv sw D s" and t: "t \<in> set (wq_list (wait_queues s w))"
  shows "live s t" "t \<notin> D" "t_state (threads s t) = THREAD_BLOCKED" "\<not> thread_is_idle (threads s t)"
    "blocking_wait_queue (threads s t) = Some w" "wq_magic (wait_queues s w) = WAIT_QUEUE_MAGIC"
    "\<exists>timeout. block_frame s t = Some (w, timeout)" "queue_node (threads s t)"
    "t_magic (threads s t) = THREAD_MAGIC" "distinct (wq_list (wait_queues s w))"
    "wq_count (wait_queues s w) = int (length (wq_list (wait_queues s w)))"
proof -
  have wq: "wq_inv D s" and fr: "frame_inv D s" using k by (simp_all add: kinv_def)
  from t show a: "live s t" "t \<notin> D" "t_state (threads s t) = THREAD_BLOCKED"
    "blocking_wait_queue (threads s t) = Some w" unfolding wq_invD(1) [OF wq] by simp_all
  have "wq_list (wait_queues s w) \<noteq> []" using t by auto
  then show "wq_magic (wait_queues s w) = WAIT_QUEUE_MAGIC" by (rule wq_invD(4) [OF wq])
  show "distinct (wq_list (wait_queues s w))"
    "wq_count (wait_queues s w) = int (length (wq_list (wait_queues s w)))"
    by (rule wq_invD [OF wq])+
  from frame_invD(2) [OF fr a(1-3)] a(4) show f: "\<exists>timeout. block_frame s t = Some (w, timeout)" by auto
  then have "block_frame s t \<noteq> None" by auto
  from frame_invD(1) [OF fr this] show "\<not> thread_is_idle (threads s t)" by simp
  show "queue_node (threads s t)" "t_magic (threads s t) = THREAD_MAGIC"
    using kinv_thread_ok [OF k a(1)] a by (simp_all add: thread_ok_def)
qed

lemma take_waiter_kinv:
  fixes err :: status_t
  assumes k: "kinv sw D s" and t: "t \<in> set (wq_list (wait_queues s w))"
  defines "s' \<equiv> take_waiter w t err s"
  shows "kinv sw (insert t D) s'" and "live s' t" and "t_state (threads s' t) = THREAD_READY"
    and "\<not> thread_is_idle (threads s' t)" and "blocking_wait_queue (threads s' t) = None"
    and "ThreadTimer t \<in> set (timer_queue s' b) \<Longrightarrow> thread_timer_ok s' t"
proof -
  note w = kinv_waiter [OF k t]
  let ?s1 = "upd_wq w (\<lambda>q. q\<lparr>wq_list := remove1 t (wq_list q), wq_count := wq_count q - 1\<rparr>)
         (upd_thread t (\<lambda>th. th\<lparr>queue_node := False\<rparr>) s)"
  have k1: "kinv sw (insert t D) ?s1"
    by (rule kinv_wq_remove [OF k t]) (simp_all add: relinked_def)
  show "kinv sw (insert t D) s'" unfolding s'_def take_waiter_def
    by (rule kinv_upd [OF k1]) (use kinv_thread_ok [OF k w(1)] in \<open>simp_all add: make_ready_def thread_ok_def\<close>)
  show "live s' t" "t_state (threads s' t) = THREAD_READY" "\<not> thread_is_idle (threads s' t)"
    "blocking_wait_queue (threads s' t) = None"
    using w by (simp_all add: s'_def take_waiter_def make_ready_def thread_is_idle_def)
  assume "ThreadTimer t \<in> set (timer_queue s' b)"
  then have "ThreadTimer t \<in> set (timer_queue s b)" by (simp add: s'_def take_waiter_def)
  then have "thread_timer_ok s t" using k w(2) by (auto simp: kinv_def intro: timer_invD(6))
  then show "thread_timer_ok s' t" using w
    by (auto simp: s'_def take_waiter_def thread_timer_ok_def timed_wait_def)
qed

definition awake :: "thread_state \<Rightarrow> bool" where
  "awake st \<longleftrightarrow> st = THREAD_READY \<or> st = THREAD_RUNNING"

definition wake_state :: "bool \<Rightarrow> thread_state \<Rightarrow> thread_state \<Rightarrow> bool" where
  "wake_state b st st' \<longleftrightarrow> (if b then awake st' else st' = st \<or> awake st \<and> awake st')"

text \<open>The effect of waking the threads \<open>ts\<close>: each keeps everything but its wait, everybody else keeps all.\<close>

definition woken :: "tid set \<Rightarrow> status_t \<Rightarrow> 'a kstate_scheme \<Rightarrow> 'a kstate_scheme \<Rightarrow> bool" where
  "woken ts err s s' \<longleftrightarrow>
     block_frame s' = block_frame s \<and> thread_list s' = thread_list s \<and> freed s' = freed s \<and>
     kstate.more s' = kstate.more s \<and>
     (\<forall>x. thread_same (if x \<in> ts then make_ready err (threads s x) else threads s x) (threads s' x)) \<and>
     (\<forall>x. wake_state (x \<in> ts) (t_state (threads s x)) (t_state (threads s' x))) \<and>
     (\<forall>x b. (\<forall>c. x \<noteq> PreemptTimer c) \<longrightarrow> (x \<in> set (timer_queue s' b) \<longleftrightarrow> x \<in> set (timer_queue s b)) \<and>
        timers s' x = timers s x)"

lemma woken_mp: "woken ts err s (mp_reschedule c m f s1) = woken ts err s s1"
  by (simp add: woken_def)

lemma woken_resched:
  assumes "woken ts err s s1" and "resched_to c new s1 s'" and "awake (t_state (threads s1 (current_thread s1 c)))"
  shows "woken ts err s s'"
proof -
  have "thread_same (if x \<in> ts then make_ready err (threads s x) else threads s x) (threads s' x)" for x
    using assms(1,2) by (simp add: woken_def resched_to_def thread_same_def)
  moreover have ws: "wake_state (x \<in> ts) (t_state (threads s x)) (t_state (threads s' x))" for x
  proof -
    have "t_state (threads s' x) = t_state (threads s1 x) \<or> awake (t_state (threads s1 x)) \<and> awake (t_state (threads s' x))"
      using assms(2) by (simp add: resched_to_def awake_def)
    moreover have "wake_state (x \<in> ts) (t_state (threads s x)) (t_state (threads s1 x))"
      using assms(1) unfolding woken_def by (elim conjE) blast
    ultimately show ?thesis by (auto simp: wake_state_def split: if_splits)
  qed
  ultimately show ?thesis using assms(1,2) unfolding woken_def resched_to_def
    by (elim conjE, intro conjI allI) (assumption | simp (no_asm_simp))+
qed


lemma take_waiter_woken: "woken {t} err s s'"
  if "relinked t True (take_waiter w t err s) s'" "freed s' = freed s" "kstate.more s' = kstate.more s"
proof -
  note sel = relinked_sel [OF that(1)]
  have th: "threads s' = (threads s)(t := make_ready err ((threads s t)\<lparr>queue_node := False\<rparr>)\<lparr>queue_node := True\<rparr>)"
    using that(1) by (simp add: relinked_def take_waiter_def)
  have "thread_same (if x \<in> {t} then make_ready err (threads s x) else threads s x) (threads s' x)" for x
    by (simp add: th thread_same_def make_ready_def)
  moreover have "wake_state (x \<in> {t}) (t_state (threads s x)) (t_state (threads s' x))" for x
    by (simp add: th make_ready_def wake_state_def awake_def)
  ultimately show ?thesis using that(2,3) unfolding woken_def by (simp add: sel take_waiter_def)
qed

lemma thread_same_refl [simp]: "thread_same a a"
  by (simp add: thread_same_def)

lemma insert_head_more:
  assumes "insert_in_run_queue_head t s = Some s'"
  shows "freed s' = freed s" "kstate.more s' = kstate.more s"
  using assms by (auto simp: insert_in_run_queue_head_def Let_def upd_thread_def split: if_splits)

lemma wait_queue_wake_one_empty:
  assumes "wq_magic (wait_queues s w) = WAIT_QUEUE_MAGIC" and "wq_list (wait_queues s w) = []"
  shows "wait_queue_wake_one c w r err s = Some (0, s)"
  using assms by (simp add: wait_queue_wake_one_def)

lemma wake_take:
  assumes "wq_list (wait_queues s w) = t # ts"
  shows "upd_thread t (make_ready err) (upd_wq w (\<lambda>q. q\<lparr>wq_list := ts, wq_count := wq_count q - 1\<rparr>)
      (upd_thread t (\<lambda>th. th\<lparr>queue_node := False\<rparr>) s)) = take_waiter w t err s"
  using assms by (simp add: take_waiter_def upd_wq_def upd_thread_def)

lemma wait_queue_wake_one_kinv:
  assumes k: "kinv {} {} s" and up: "cpu_up s c" and l: "wq_list (wait_queues s w) = t # ts"
    and ni: "r \<Longrightarrow> \<not> thread_is_idle (threads s (current_thread s c))"
  obtains s' where "wait_queue_wake_one c w r err s = Some (1, s')" and "kinv {} {} s'" and "woken {t} err s s'"
    and "wait_queues s' = (wait_queues s)(w := (wait_queues s w)\<lparr>wq_list := ts, wq_count := wq_count (wait_queues s w) - 1\<rparr>)"
    and "\<not> r \<Longrightarrow> current_thread s' = current_thread s" and "r \<Longrightarrow> runs_best c s'"
proof -
  have tin: "t \<in> set (wq_list (wait_queues s w))" using l by simp
  note w = kinv_waiter [OF k tin]
  let ?s2 = "take_waiter w t err s"
  note tk = take_waiter_kinv [OF k tin, of err]
  have cur2: "current_thread ?s2 = current_thread s" and up2: "cpu_up ?s2 c"
    and wq2: "wait_queues ?s2 = (wait_queues s)(w := (wait_queues s w)\<lparr>wq_list := ts, wq_count := wq_count (wait_queues s w) - 1\<rparr>)"
    and more2: "freed ?s2 = freed s" "kstate.more ?s2 = kstate.more s"
    using up l by (simp_all add: take_waiter_def)
  let ?t = "current_thread s c"
  note cur = kinv_cpu [OF k up] kinv_current [OF k up]
  have ne: "?t \<noteq> t" using w(3) cur(3) by auto
  have e1: "upd_thread t (make_ready err) (upd_wq w (\<lambda>q. q\<lparr>wq_list := ts, wq_count := wq_count q - 1\<rparr>)
      (upd_thread t (\<lambda>th. th\<lparr>queue_node := False\<rparr>) s)) = ?s2" by (rule wake_take [OF l])
  show ?thesis
  proof (cases r)
    case False
    obtain s3 where s3: "insert_in_run_queue_head t ?s2 = Some s3" "kinv {} ({t} - {t}) s3" "relinked t True ?s2 s3"
      "wait_queues s3 = wait_queues ?s2"
      by (rule insert_in_run_queue_head_kinv [OF tk(1) _ tk(2-6)]) simp_all
    let ?s' = "mp_reschedule c MP_CPU_ALL_BUT_LOCAL 0 s3"
    have wk: "woken {t} err s s3"
      by (rule take_waiter_woken [OF s3(3)]) (simp_all add: insert_head_more [OF s3(1)] more2)
    have "wait_queue_wake_one c w r err s = Some (1, ?s')"
      using False l w s3(1) e1 by (simp add: wait_queue_wake_one_def Let_def)
    moreover have "woken {t} err s ?s'" using wk by (simp add: woken_def)
    ultimately show ?thesis
      by (intro that [of ?s']) (use s3 False wq2 cur2 in \<open>simp_all add: relinked_def\<close>)
  next
    case True
    let ?f = "\<lambda>th. th\<lparr>t_state := THREAD_READY\<rparr>"
    let ?s2' = "upd_thread ?t ?f ?s2"
    have same2: "threads ?s2 ?t = threads s ?t" using ne by (simp add: take_waiter_def)
    obtain s3 where s3: "insert_in_run_queue_head ?t ?s2' = Some s3" "kinv {c} {t} s3" "switching c s3"
      "relinked ?t True ?s2' s3" "wait_queues s3 = wait_queues ?s2"
      by (rule requeue_current [OF tk(1) up2, of ?t insert_in_run_queue_head ?f])
        (use cur cur2 same2 ni True in simp_all)
    note sel3 = relinked_sel [OF s3(4)]
    have tt: "threads s3 t = threads ?s2 t" using s3(4) ne by (simp add: relinked_def)
    obtain s4 where s4: "insert_in_run_queue_head t s3 = Some s4" "kinv {c} ({t} - {t}) s4" "relinked t True s3 s4"
      "wait_queues s4 = wait_queues s3"
    proof (rule insert_in_run_queue_head_kinv [OF s3(2)])
      show "thread_timer_ok s3 t" if "ThreadTimer t \<in> set (timer_queue s3 b)" for b
        using tk(6) [of b] that ne by (simp add: sel3 thread_timer_ok_def timed_wait_def live_def)
    qed (use tk(2-5) in \<open>simp_all add: tt sel3(14)\<close>)
    let ?s5 = "mp_reschedule c MP_CPU_ALL_BUT_LOCAL 0 s4"
    have k5: "kinv {c} {} ?s5" and sw5: "switching c ?s5" using s4 s3(3) by (simp_all add: switching_relinked)
    obtain s' new where s': "thread_resched c ?s5 = Some s'" "kinv {} {} s'" "resched_to c new ?s5 s'"
      by (rule thread_resched_kinv [OF k5 sw5])
    have r1: "wait_queue_wake_one c w r err s = Some (1, s')"
      using True l w s3(1) s4(1) s'(1) e1 by (simp add: wait_queue_wake_one_def Let_def)
    have th4: "threads s4 = (threads ?s2)(?t := (threads s ?t)\<lparr>t_state := THREAD_READY, queue_node := True\<rparr>,
        t := (threads ?s2 t)\<lparr>queue_node := True\<rparr>)"
      using s3(4) s4(3) ne same2 by (simp add: relinked_def)
    have th2: "threads ?s2 = (threads s)(t := make_ready err ((threads s t)\<lparr>queue_node := False\<rparr>))"
      by (simp add: take_waiter_def)
    have "thread_same (if x \<in> {t} then make_ready err (threads s x) else threads s x) (threads s4 x)" for x
      using ne by (simp add: th4 th2 thread_same_def make_ready_def)
    moreover have "wake_state (x \<in> {t}) (t_state (threads s x)) (t_state (threads s4 x))" for x
      using ne cur(3) by (simp add: th4 th2 make_ready_def wake_state_def awake_def)
    ultimately have wk: "woken {t} err s ?s5"
      using insert_head_more [OF s3(1)] insert_head_more [OF s4(1)] more2 s3(4) s4(3)
      unfolding woken_def by (simp add: relinked_def take_waiter_def)
    have "woken {t} err s s'"
      by (rule woken_resched [OF wk s'(3)])
        (use ne s3(4) s4(3) cur2 in \<open>simp add: relinked_def awake_def\<close>)
    moreover have "wait_queues s' = wait_queues ?s2" using s'(3) s3(5) s4(4) by (simp add: resched_to_def)
    ultimately show ?thesis
      by (intro that [OF r1 s'(2)]) (use True wq2 resched_to_best [OF s'(3)] in simp_all)
  qed
qed


text \<open>Waking the whole queue: the loop empties it from the front.\<close>

lemma woken_trans:
  assumes "woken A err s s1" and "woken B err s1 s2"
  shows "woken (A \<union> B) err s s2"
proof -
  have "thread_same (if x \<in> A \<union> B then make_ready err (threads s x) else threads s x) (threads s2 x)" for x
  proof -
    have "thread_same (if x \<in> A then make_ready err (threads s x) else threads s x) (threads s1 x)"
      "thread_same (if x \<in> B then make_ready err (threads s1 x) else threads s1 x) (threads s2 x)"
      using assms unfolding woken_def by (elim conjE, blast)+
    then show ?thesis by (auto simp: thread_same_def make_ready_def split: if_splits)
  qed
  moreover have "wake_state (x \<in> A \<union> B) (t_state (threads s x)) (t_state (threads s2 x))" for x
  proof -
    have "wake_state (x \<in> A) (t_state (threads s x)) (t_state (threads s1 x))"
      "wake_state (x \<in> B) (t_state (threads s1 x)) (t_state (threads s2 x))"
      using assms unfolding woken_def by (elim conjE, blast)+
    then show ?thesis by (auto simp: wake_state_def split: if_splits)
  qed
  moreover have "\<forall>x b. (\<forall>c. x \<noteq> PreemptTimer c) \<longrightarrow>
     (x \<in> set (timer_queue s2 b) \<longleftrightarrow> x \<in> set (timer_queue s b)) \<and> timers s2 x = timers s x"
    using assms unfolding woken_def by simp
  ultimately show ?thesis using assms unfolding woken_def by simp
qed

lemma woken_refl: "woken {} err s s"
  by (simp add: woken_def wake_state_def)

lemma wake_all_loop_kinv:
  assumes "kinv sw D s" and "wq_list (wait_queues s w) = ts"
  shows "\<exists>s'. wake_all_loop w err ts s = Some s' \<and> kinv sw D s' \<and> woken (set ts) err s s' \<and>
      wait_queues s' = (wait_queues s)(w := (wait_queues s w)\<lparr>wq_list := [], wq_count := 0\<rparr>) \<and>
      current_thread s' = current_thread s \<and>
      (\<forall>x. x \<notin> set ts \<longrightarrow> threads s' x = threads s x) \<and>
      (switching c s \<longrightarrow> current_thread s c \<notin> set ts \<longrightarrow> switching c s')"
  using assms
proof (induction ts arbitrary: s)
  case Nil
  have "wq_count (wait_queues s w) = 0" using Nil wq_invD(3) [of D s w] by (simp add: kinv_def)
  with Nil have "(wait_queues s w)\<lparr>wq_list := [], wq_count := 0\<rparr> = wait_queues s w"
    by (cases "wait_queues s w") simp
  with Nil show ?case by (simp add: woken_refl)
next
  case (Cons t ts)
  have tin: "t \<in> set (wq_list (wait_queues s w))" using Cons by simp
  note w = kinv_waiter [OF Cons.prems(1) tin]
  let ?s2 = "take_waiter w t err s"
  note tk = take_waiter_kinv [OF Cons.prems(1) tin, of err]
  obtain s3 where s3: "insert_in_run_queue_head t ?s2 = Some s3" "kinv sw (insert t D - {t}) s3" "relinked t True ?s2 s3"
      "wait_queues s3 = wait_queues ?s2"
    by (rule insert_in_run_queue_head_kinv [OF tk(1) _ tk(2-6)]) simp_all
  have more2: "freed ?s2 = freed s" "kstate.more ?s2 = kstate.more s" by (simp_all add: take_waiter_def)
  have wk: "woken {t} err s s3"
    by (rule take_waiter_woken [OF s3(3)]) (simp_all add: insert_head_more [OF s3(1)] more2)
  have step: "wake_all_loop w err (t # ts) s = wake_all_loop w err ts s3"
    using Cons.prems(2) w s3(1) wake_take [OF Cons.prems(2), of err] by (simp add: Let_def)
  have k3: "kinv sw D s3" and l3: "wq_list (wait_queues s3 w) = ts"
    using s3 Cons.prems(2) w(2) by (simp_all add: take_waiter_def)
  from Cons.IH [OF k3 l3] obtain s' where s': "wake_all_loop w err ts s3 = Some s'" "kinv sw D s'"
    "woken (set ts) err s3 s'"
    "wait_queues s' = (wait_queues s3)(w := (wait_queues s3 w)\<lparr>wq_list := [], wq_count := 0\<rparr>)"
    "current_thread s' = current_thread s3" "\<forall>x. x \<notin> set ts \<longrightarrow> threads s' x = threads s3 x"
    "switching c s3 \<longrightarrow> current_thread s3 c \<notin> set ts \<longrightarrow> switching c s'"
    by (elim exE conjE)
  have "woken (set (t # ts)) err s s'" using woken_trans [OF wk s'(3)] by simp
  moreover have "wait_queues s' = (wait_queues s)(w := (wait_queues s w)\<lparr>wq_list := [], wq_count := 0\<rparr>)"
    using s'(4) s3(4) by (simp add: take_waiter_def)
  moreover have th: "threads s3 x = threads s x" if "x \<noteq> t" for x
    using s3(3) that by (simp add: relinked_def take_waiter_def)
  moreover have cur3: "current_thread s3 = current_thread s" using s3(3) by (simp add: relinked_def take_waiter_def)
  moreover have "switching c s3" if "switching c s" "current_thread s c \<noteq> t"
    using that th s3(3) cur3 unfolding switching_def
    by (simp add: relinked_sel [OF s3(3)]) (simp add: take_waiter_def)
  ultimately show ?case unfolding step using s'(1,2,5,6,7)
    by (intro exI [of _ s'] conjI) (assumption | simp)+
qed

lemma wait_queue_wake_all_kinv:
  assumes k: "kinv {} {} s" and up: "cpu_up s c" and mg: "wq_magic (wait_queues s w) = WAIT_QUEUE_MAGIC"
    and ni: "r \<Longrightarrow> \<not> thread_is_idle (threads s (current_thread s c))"
  obtains s' where "wait_queue_wake_all c w r err s = Some (int (length (wq_list (wait_queues s w))), s')"
    and "kinv {} {} s'" and "woken (set (wq_list (wait_queues s w))) err s s'"
    and "wait_queues s' = (wait_queues s)(w := (wait_queues s w)\<lparr>wq_list := [], wq_count := 0\<rparr>)"
    and "\<not> r \<Longrightarrow> current_thread s' = current_thread s"
    and "\<not> r \<Longrightarrow> \<forall>x. x \<notin> set (wq_list (wait_queues s w)) \<longrightarrow> threads s' x = threads s x"
proof -
  let ?ts = "wq_list (wait_queues s w)" and ?t = "current_thread s c"
  have wq: "wq_inv {} s" using k by (simp add: kinv_def)
  have cnt: "wq_count (wait_queues s w) = int (length ?ts)" by (rule wq_invD(3) [OF wq])
  note cur = kinv_cpu [OF k up] kinv_current [OF k up]
  have nin: "?t \<notin> set ?ts" unfolding wq_invD(1) [OF wq] using cur(3) by simp
  show ?thesis
  proof (cases "r \<and> ?ts \<noteq> []")
    case False
    from wake_all_loop_kinv [OF k refl, of w err c] obtain s1 where s1: "wake_all_loop w err ?ts s = Some s1"
      "kinv {} {} s1" "woken (set ?ts) err s s1"
      "wait_queues s1 = (wait_queues s)(w := (wait_queues s w)\<lparr>wq_list := [], wq_count := 0\<rparr>)"
      "current_thread s1 = current_thread s" "\<forall>x. x \<notin> set ?ts \<longrightarrow> threads s1 x = threads s x"
      by (elim exE conjE)
    let ?s' = "if ?ts = [] then s1 else mp_reschedule c MP_CPU_ALL_BUT_LOCAL 0 s1"
    have "wait_queue_wake_all c w r err s = Some (int (length ?ts), ?s')"
      using False mg s1(1,4) cnt by (auto simp: wait_queue_wake_all_def Let_def)
    moreover have "woken (set ?ts) err s ?s'"
      by (split if_split) (intro conjI impI; (subst woken_mp)?; rule s1(3))
    ultimately show ?thesis by (intro that [of ?s']) (use s1 in simp_all)
  next
    case True
    let ?f = "\<lambda>th. th\<lparr>t_state := THREAD_READY\<rparr>"
    let ?s0 = "upd_thread ?t ?f s"
    obtain s1 where s1: "insert_in_run_queue_head ?t ?s0 = Some s1" "kinv {c} {} s1" "switching c s1"
      "relinked ?t True ?s0 s1" "wait_queues s1 = wait_queues s"
      by (rule requeue_current [OF k up, of ?t insert_in_run_queue_head ?f]) (use cur ni True in simp_all)
    have l1: "wq_list (wait_queues s1 w) = ?ts" using s1(5) by simp
    from wake_all_loop_kinv [OF s1(2) l1, of err c] obtain s2 where s2: "wake_all_loop w err ?ts s1 = Some s2"
      "kinv {c} {} s2" "woken (set ?ts) err s1 s2"
      "wait_queues s2 = (wait_queues s1)(w := (wait_queues s1 w)\<lparr>wq_list := [], wq_count := 0\<rparr>)"
      "current_thread s2 = current_thread s1" "\<forall>x. x \<notin> set ?ts \<longrightarrow> threads s2 x = threads s1 x"
      "switching c s1 \<longrightarrow> current_thread s1 c \<notin> set ?ts \<longrightarrow> switching c s2"
      by (elim exE conjE)
    have cur1: "current_thread s1 = current_thread s" using s1(4) by (simp add: relinked_def)
    have th1: "threads s1 = (threads s)(?t := (threads s ?t)\<lparr>t_state := THREAD_READY, queue_node := True\<rparr>)"
      using s1(4) by (simp add: relinked_def)
    let ?s3 = "mp_reschedule c MP_CPU_ALL_BUT_LOCAL 0 s2"
    have k3: "kinv {c} {} ?s3" and sw3: "switching c ?s3" using s2(2,7) s1(3) nin cur1 by simp_all
    obtain s' new where s': "thread_resched c ?s3 = Some s'" "kinv {} {} s'" "resched_to c new ?s3 s'"
      by (rule thread_resched_kinv [OF k3 sw3])
    have r1: "wait_queue_wake_all c w r err s = Some (int (length ?ts), s')"
      using True mg cnt s1(1,5) s2(1,4) s'(1) by (simp add: wait_queue_wake_all_def Let_def)
    have w1: "woken {} err s s1"
      using insert_head_more [OF s1(1)] s1(4) cur(3) unfolding woken_def
      by (simp add: relinked_def thread_same_def wake_state_def awake_def)
    have "woken (set ?ts) err s ?s3" using woken_trans [OF w1 s2(3)] by (simp add: woken_def)
    then have "woken (set ?ts) err s s'"
      by (rule woken_resched [OF _ s'(3)]) (use s2(5,6) nin cur1 in \<open>simp add: th1 awake_def\<close>)
    moreover have "wait_queues s' = wait_queues s2" using s'(3) by (simp add: resched_to_def)
    ultimately show ?thesis using True s2(4) s1(5) by (intro that [OF r1 s'(2)]) simp_all
  qed
qed


text \<open>An empty wait queue may be set up again or retired.\<close>

lemma kinv_upd_wq_empty:
  assumes k: "kinv sw D s" and e: "wq_list (wait_queues s w) = []"
    and g: "wq_list (g (wait_queues s w)) = []" "wq_count (g (wait_queues s w)) = 0"
    and mg: "\<And>t. w = RetcodeWq t \<Longrightarrow> live s t \<Longrightarrow> wq_magic (g (wait_queues s w)) = WAIT_QUEUE_MAGIC"
  shows "kinv sw D (upd_wq w g s)" (is "kinv sw D ?s")
proof -
  have ls: "wq_list (wait_queues ?s v) = wq_list (wait_queues s v)" for v using e g by simp
  have ct: "wq_count (wait_queues ?s v) = int (length (wq_list (wait_queues s v)))" for v
    using k g e wq_invD(3) [of D s v] by (simp add: kinv_def)
  have "wq_inv D ?s"
    using k e unfolding kinv_def wq_inv_def ls ct upd_wq_sel(2-) live_upd by auto
  moreover have "th_inv D ?s"
    using k mg unfolding kinv_def th_inv_def thread_ok_def upd_wq_sel live_upd by auto
  moreover have "join_inv D ?s" using k unfolding kinv_def join_inv_def ls upd_wq_sel(2-) live_upd by simp
  moreover have "rq_inv D ?s = rq_inv D s" "cpu_inv sw D ?s = cpu_inv sw D s" "frame_inv D ?s = frame_inv D s"
    "timer_inv sw D ?s = timer_inv sw D s"
    unfolding inv_defs thread_timer_ok_def timed_wait_def upd_wq_sel(2-) live_upd by (rule refl)+
  ultimately show ?thesis using k unfolding kinv_def by simp
qed

lemma wait_queue_destroy_finish_kinv:
  assumes k: "kinv {} {} s" and e: "wq_list (wait_queues s w) = []" and nr: "\<And>t. w \<noteq> RetcodeWq t"
  shows "kinv {} {} (wait_queue_destroy_finish w s)"
  unfolding wait_queue_destroy_finish_def
  by (rule kinv_upd_wq_empty [OF k e]) (use k e nr wq_invD(3) [of "{}" s w] in \<open>simp_all add: kinv_def\<close>)

lemma wait_queue_destroy_kinv:
  assumes k: "kinv {} {} s" and up: "cpu_up s c" and mg: "wq_magic (wait_queues s w) = WAIT_QUEUE_MAGIC"
    and nr: "\<And>t. w \<noteq> RetcodeWq t"
    and ni: "r \<Longrightarrow> \<not> thread_is_idle (threads s (current_thread s c))"
  obtains res s' where "wait_queue_destroy c w r s = Some (res, s')" and "kinv {} {} s'"
    and "res = (if r \<and> wq_list (wait_queues s w) \<noteq> [] then Blocked else Ret ())"
    and "woken (set (wq_list (wait_queues s w))) ERR_OBJECT_DESTROYED s s'"
    and "wait_queues s' = (wait_queues s)(w := (wait_queues s w)\<lparr>wq_list := [], wq_count := 0,
           wq_magic := (if res = Blocked then WAIT_QUEUE_MAGIC else 0)\<rparr>)"
proof -
  let ?ts = "wq_list (wait_queues s w)"
  obtain s1 where s1: "wait_queue_wake_all c w r ERR_OBJECT_DESTROYED s = Some (int (length ?ts), s1)"
    "kinv {} {} s1" "woken (set ?ts) ERR_OBJECT_DESTROYED s s1"
    "wait_queues s1 = (wait_queues s)(w := (wait_queues s w)\<lparr>wq_list := [], wq_count := 0\<rparr>)"
    by (rule wait_queue_wake_all_kinv [OF k up mg, of r ERR_OBJECT_DESTROYED]) (use ni in auto)
  show ?thesis
  proof (cases "r \<and> ?ts \<noteq> []")
    case True
    have "wait_queue_destroy c w r s = Some (Blocked, s1)" using True mg s1(1) by (simp add: wait_queue_destroy_def)
    moreover have "(wait_queues s w)\<lparr>wq_list := [], wq_count := 0, wq_magic := WAIT_QUEUE_MAGIC\<rparr> =
        (wait_queues s w)\<lparr>wq_list := [], wq_count := 0\<rparr>" using mg by (cases "wait_queues s w") simp
    ultimately show ?thesis
      by (intro that [of Blocked s1]) (use True s1(2-4) in simp_all)
  next
    case False
    let ?s' = "wait_queue_destroy_finish w s1"
    have r: "wait_queue_destroy c w r s = Some (Ret (), ?s')" using False mg s1(1) by (simp add: wait_queue_destroy_def)
    have "kinv {} {} ?s'" by (rule wait_queue_destroy_finish_kinv [OF s1(2) _ nr]) (simp add: s1(4))
    moreover have "woken (set ?ts) ERR_OBJECT_DESTROYED s ?s'"
      using s1(3) unfolding wait_queue_destroy_finish_def woken_def upd_wq_sel upd_more .
    ultimately show ?thesis
      by (intro that [OF r]) (use False in \<open>simp_all add: s1(4) wait_queue_destroy_finish_def\<close>)
  qed
qed

lemma thread_unblock_from_wait_queue_kinv:
  assumes k: "kinv sw D s" and l: "live s t" and nD: "t \<notin> D" and b: "t_state (threads s t) = THREAD_BLOCKED"
    and fr: "block_frame s t = Some (w, timeout)"
  obtains s' where "thread_unblock_from_wait_queue c t err s = Some (NO_ERROR, s')" and "kinv sw D s'"
    and "woken {t} err s s'" and "current_thread s' = current_thread s" "timers s' = timers s" "timer_queue s' = timer_queue s"
    and "wait_queues s' = (wait_queues s)(w := (wait_queues s w)\<lparr>wq_list := remove1 t (wq_list (wait_queues s w)),
           wq_count := wq_count (wait_queues s w) - 1\<rparr>)"
proof -
  have "wq_inv D s" "frame_inv D s" using k by (simp_all add: kinv_def)
  with frame_invD(2) [OF _ l nD b] fr have bw: "blocking_wait_queue (threads s t) = Some w" by fastforce
  with l nD b \<open>wq_inv D s\<close> have tin: "t \<in> set (wq_list (wait_queues s w))" by (simp add: wq_invD(1))
  note w = kinv_waiter [OF k tin]
  note tk = take_waiter_kinv [OF k tin, of err]
  have D: "insert t D - {t} = D" using nD by simp
  obtain s3 where s3: "insert_in_run_queue_head t (take_waiter w t err s) = Some s3" "kinv sw D s3"
      "relinked t True (take_waiter w t err s) s3" "wait_queues s3 = wait_queues (take_waiter w t err s)"
    by (rule insert_in_run_queue_head_kinv [OF tk(1) _ tk(2-6)]) (use D in simp_all)
  have e: "upd_thread t (make_ready err) (upd_wq w (\<lambda>q. q\<lparr>wq_list := remove1 t (wq_list q), wq_count := wq_count q - 1\<rparr>)
      (upd_thread t (\<lambda>th. th\<lparr>queue_node := False\<rparr>) s)) = take_waiter w t err s" by (simp add: take_waiter_def)
  let ?s' = "mp_reschedule c MP_CPU_ALL_BUT_LOCAL 0 s3"
  have "thread_unblock_from_wait_queue c t err s = Some (NO_ERROR, ?s')"
    using w s3(1) e by (simp add: thread_unblock_from_wait_queue_def Let_def)
  moreover have "woken {t} err s s3"
    by (rule take_waiter_woken [OF s3(3)]) (simp_all add: insert_head_more [OF s3(1)] take_waiter_def)
  ultimately show ?thesis
    by (intro that [of ?s']) (use s3 in \<open>simp_all add: woken_mp relinked_def take_waiter_def\<close>)
qed

section \<open>Blocking\<close>

lemma timer_parts:
  fixes s s' :: "'a kstate_scheme"
  assumes "timer_state.more s' = timer_state.more s"
  shows "rq_inv D s' = rq_inv D s" "wq_inv D s' = wq_inv D s" "th_inv D s' = th_inv D s"
    "join_inv D s' = join_inv D s" "frame_inv D s' = frame_inv D s" "cpu_inv sw D s' = cpu_inv sw D s"
  unfolding inv_defs aux_defs timer_more [OF assms] by (rule refl)+

lemma kinv_upd_frame:
  assumes k: "kinv sw D s" and t: "t \<in> D" and l: "live s t" "\<not> thread_is_idle (threads s t)"
    and mg: "\<And>w timeout. v = Some (w, timeout) \<Longrightarrow> timeout \<noteq> INFINITE_TIME \<Longrightarrow>
        tm_magic (timers s (ThreadTimer t)) = TIMER_MAGIC"
  shows "kinv sw D (s\<lparr>block_frame := (block_frame s)(t := v)\<rparr>)" (is "kinv sw D ?s")
proof -
  have e: "threads ?s = threads s" "thread_list ?s = thread_list s" "run_queue ?s = run_queue s"
    "run_queue_bitmap ?s = run_queue_bitmap s" "wait_queues ?s = wait_queues s"
    "current_thread ?s = current_thread s" "timers ?s = timers s" "timer_queue ?s = timer_queue s"
    "live ?s x = live s x" "cpu_up ?s c = cpu_up s c" "x \<noteq> t \<Longrightarrow> timed_wait ?s x = timed_wait s x" for x c
    by (simp_all add: live_def cpu_up_def timed_wait_def)
  have ok: "x \<noteq> t \<Longrightarrow> thread_timer_ok ?s x = thread_timer_ok s x" for x
    unfolding thread_timer_ok_def e by (simp add: e(11))
  have "rq_inv D ?s = rq_inv D s" "wq_inv D ?s = wq_inv D s" "th_inv D ?s = th_inv D s"
    "join_inv D ?s = join_inv D s" "cpu_inv sw D ?s = cpu_inv sw D s"
    unfolding inv_defs thread_ok_def e by (rule refl)+
  moreover have "frame_inv D ?s" using k t l unfolding kinv_def frame_inv_def e by auto
  moreover have "timer_inv sw D ?s"
  proof -
    have "timer_inv sw D s" using k by (simp add: kinv_def)
    note d = timer_invD [OF this]
    show ?thesis
    proof (rule timer_invI)
      show "thread_timer_ok ?s x" if "ThreadTimer x \<in> set (timer_queue ?s b)" "x \<notin> D" for x b
        using that d(6) [of x b] ok [of x] t by (cases "x = t") (auto simp: e)
      show "\<exists>b. ThreadTimer x \<in> set (timer_queue ?s b)"
        if "live ?s x" "x \<notin> D" "t_state (threads ?s x) = THREAD_SLEEPING \<or>
             t_state (threads ?s x) = THREAD_BLOCKED \<and> timed_wait ?s x" for x
        using that d(8) [of x] t e(11) [of x] by (cases "x = t") (auto simp: e(1-10))
      show "tm_magic (timers ?s (ThreadTimer x)) = TIMER_MAGIC" if "timed_wait ?s x" for x
        using that d(9) [of x] mg e(11) [of x] by (cases "x = t") (auto simp: timed_wait_def)
    qed (use d(1-5,7) in \<open>auto simp: e(1-10)\<close>)
  qed
  ultimately show ?thesis using k unfolding kinv_def by simp
qed

lemma no_timer_while_running:
  assumes k: "kinv {} {} s" and up: "cpu_up s c" and fr: "block_frame s (current_thread s c) = None"
  shows "ThreadTimer (current_thread s c) \<notin> set (timer_queue s b)"
proof
  assume "ThreadTimer (current_thread s c) \<in> set (timer_queue s b)"
  with k have "thread_timer_ok s (current_thread s c)" by (auto simp: kinv_def intro: timer_invD(6))
  with fr kinv_cpu(3) [OF k up] show False by (simp add: thread_timer_ok_def timed_wait_def)
qed

lemma wait_queue_block_kinv:
  fixes s :: "'a kstate_scheme"
  assumes k: "kinv {} {} s" and up: "cpu_up s c" and t: "t = current_thread s c"
    and ni: "\<not> thread_is_idle (threads s t)" and fr: "block_frame s t = None"
    and mg: "wq_magic (wait_queues s w) = WAIT_QUEUE_MAGIC" and to: "timeout \<noteq> 0"
    and nj: "\<And>u. w = RetcodeWq u \<Longrightarrow> live s u \<and> t_state (threads s u) \<noteq> THREAD_DEATH \<and>
               t_flags (threads s u) AND THREAD_FLAG_DETACHED = 0"
  obtains s' where "wait_queue_block c w timeout s = Some (Blocked, s')" and "kinv {} {} s'"
    and "wait_queues s' = (wait_queues s)(w := (wait_queues s w)\<lparr>wq_list := wq_list (wait_queues s w) @ [t],
               wq_count := wq_count (wait_queues s w) + 1\<rparr>)"
    and "block_frame s' = (block_frame s)(t := Some (w, timeout))"
    and "t_state (threads s' t) = THREAD_BLOCKED" and "runs_best c s'"
    and "timeout \<noteq> INFINITE_TIME \<Longrightarrow> ThreadTimer t \<in> set (timer_queue s' c) \<and>
           scheduled_time (timers s' (ThreadTimer t)) = current_time s + timeout"
    and "\<And>x. x \<noteq> t \<Longrightarrow> thread_same (threads s x) (threads s' x)"
    and "\<And>x. x \<noteq> t \<Longrightarrow> wake_state False (t_state (threads s x)) (t_state (threads s' x))"
    and "thread_list s' = thread_list s" "kstate.more s' = kstate.more s"
proof -
  let ?g = "\<lambda>th. th\<lparr>t_state := THREAD_BLOCKED, blocking_wait_queue := Some w, wait_queue_block_ret := NO_ERROR\<rparr>"
  let ?g' = "\<lambda>th. th\<lparr>queue_node := True, t_state := THREAD_BLOCKED,
                   blocking_wait_queue := Some w, wait_queue_block_ret := NO_ERROR\<rparr>"
  let ?h = "\<lambda>q. q\<lparr>wq_list := wq_list q @ [t], wq_count := wq_count q + 1\<rparr>"
  let ?I = "timer_initialize (ThreadTimer t)"
  define s0 where "s0 = (if timeout \<noteq> INFINITE_TIME then ?I s else s)"
  let ?P = "(upd_thread t ?g s0)\<lparr>block_frame := (block_frame s0)(t := Some (w, timeout))\<rparr>"
  let ?A0 = "\<lambda>s. upd_thread t ?g' (upd_wq w ?h s)"
  let ?A = "\<lambda>s. (?A0 s)\<lparr>block_frame := (block_frame (?A0 s))(t := Some (w, timeout))\<rparr>"
  note cur = kinv_cpu [OF k up, folded t] kinv_current [OF k up, folded t]
  have nl: "ThreadTimer t \<notin> set (timer_queue s b)" for b
    using no_timer_while_running [OF k up] fr unfolding t by simp
  have m0: "timer_state.more s0 = timer_state.more s" "timer_queue s0 = timer_queue s" "current_time s0 = current_time s"
    by (simp_all add: s0_def timer_initialize_def)
  note e0 = timer_more [OF m0(1)] timer_more_aux [OF m0(1)]
  have ti: "timer_inv {} {} s" using k by (simp add: kinv_def)
  have "timer_inv {} {} s0" using timer_initialize_inv [OF ti nl] ti by (simp add: s0_def)
  then have k0: "kinv {} {} s0" by (rule kinv_timers [OF m0(1) k])
  have up0: "cpu_up s0 c" and t0: "t = current_thread s0 c" using up t by (simp_all add: e0)
  have mg0: "timeout \<noteq> INFINITE_TIME \<Longrightarrow> tm_magic (timers s0 (ThreadTimer t)) = TIMER_MAGIC"
    by (simp add: s0_def timer_initialize_def TIMER_INITIAL_VALUE_def)
  have "kinv {c} {t} (upd_thread t ?g s0)" and sw0: "switching c (upd_thread t ?g s0)"
    by (rule give_up_cpu [OF k0 up0 t0]; use cur in \<open>simp add: e0\<close>)+
  from kinv_upd_frame [OF this(1), of t "Some (w, timeout)"] ni cur mg0
  have kP: "kinv {c} {t} ?P" by (simp add: thread_is_idle_def e0)
  have r: "relinked t True ?P (?A s0)" by (cases "threads s0 t") (simp add: relinked_def)
  have c: "c < SMP_MAX_CPUS" using up by (simp add: cpu_up_def)
  have wqA: "wait_queues (?A s0) = (wait_queues ?P)(w := (wait_queues ?P w)\<lparr>wq_list := wq_list (wait_queues ?P w) @ [t],
               wq_count := wq_count (wait_queues ?P w) + 1\<rparr>)" by simp
  have tl: "live ?P t" "t_state (threads ?P t) = THREAD_BLOCKED" "\<not> thread_is_idle (threads ?P t)"
    "blocking_wait_queue (threads ?P t) = Some w" "block_frame ?P t = Some (w, timeout)"
    using cur ni by (simp_all add: live_def thread_is_idle_def e0)
  have njP: "live ?P u \<and> t_state (threads ?P u) \<noteq> THREAD_DEATH \<and> t_flags (threads ?P u) AND THREAD_FLAG_DETACHED = 0"
    if "w = RetcodeWq u" for u using nj [OF that] by (auto simp: live_def e0)
  have parts: "rq_inv {} (?A s0)" "wq_inv {} (?A s0)" "th_inv {} (?A s0)" "join_inv {} (?A s0)" "cpu_inv {c} {} (?A s0)"
    "frame_inv {} (?A s0)" "timer_inv {c} {t} (?A s0)"
    using wq_insert_parts [OF kP _ tl r _ _ wqA _ njP] mg by (simp_all add: e0)
  have swA: "switching c (?A s0)"
    using sw0 switching_relinked [OF r, of c] unfolding switching_def by (simp add: cpu_up_def live_def)
  have nlA: "ThreadTimer t \<notin> set (timer_queue (?A s0) b)" for b using nl by (simp add: m0)
  let ?arm = "if timeout \<noteq> INFINITE_TIME
       then timer_set_oneshot SMP_MAX_CPUS c (ThreadTimer t) timeout CbWaitTimeout t (?I (?A s))
       else Some (?A s)"
  have comm: "?I (?A s) = ?A (?I s)" by (simp add: timer_initialize_def upd_thread_def upd_wq_def)
  obtain B where B: "?arm = Some B" "timer_inv {c} {} B" "timer_state.more B = timer_state.more (?A s0)"
    "timeout \<noteq> INFINITE_TIME \<Longrightarrow> ThreadTimer t \<in> set (timer_queue B c) \<and>
        scheduled_time (timers B (ThreadTimer t)) = current_time s + timeout"
    "\<And>x b. x \<noteq> ThreadTimer t \<Longrightarrow> x \<in> set (timer_queue B b) \<longleftrightarrow> x \<in> set (timer_queue (?A s0) b)"
  proof (cases "timeout = INFINITE_TIME")
    case True
    have "timer_inv {c} ({t} - {t}) (?A s0)"
      by (rule timer_inv_shrink [OF parts(7)]) (use nlA True in \<open>auto simp: timed_wait_def\<close>)
    with True show ?thesis by (intro that [of "?A s0"]) (simp_all add: s0_def)
  next
    case False
    obtain B where B: "timer_set SMP_MAX_CPUS c (ThreadTimer t) timeout 0 CbWaitTimeout t (?A s0) = Some B"
      "timer_inv {c} {t} B" "timer_state.more B = timer_state.more (?A s0)"
      "\<And>b x. x \<in> set (timer_queue B b) \<longleftrightarrow> x \<in> set (timer_queue (?A s0) b) \<or> x = ThreadTimer t \<and> b = c"
      "\<And>x. tm_magic (timers B x) = tm_magic (timers (?A s0) x)"
      "tm_callback (timers B (ThreadTimer t)) = CbWaitTimeout" "tm_arg (timers B (ThreadTimer t)) = t"
      "periodic_time (timers B (ThreadTimer t)) = 0"
      "scheduled_time (timers B (ThreadTimer t)) = current_time (?A s0) + timeout"
      by (rule timer_set_inv [OF parts(7) _ c, of "ThreadTimer t" CbWaitTimeout timeout 0 t])
        (use nlA mg0 False in auto)
    note mB = timer_more [OF B(3)] timer_more_aux [OF B(3)]
    have "thread_timer_ok B t"
      using B(5-8) False cur(1) mg0 unfolding thread_timer_ok_def mB
      by (simp add: live_def timed_wait_def e0)
    then have "timer_inv {c} ({t} - {t}) B" by (intro timer_inv_shrink [OF B(2)]) (auto simp: B(4))
    moreover have eqA: "?I (?A s) = ?A s0" using False by (simp only: comm s0_def simp_thms if_True)
    have "?arm = Some B"
      using False to B(1) by (simp only: eqA timer_set_oneshot_def if_False simp_thms if_True)
    moreover have "current_time (?A s0) = current_time s" by (simp add: upd_wq_def m0)
    ultimately show ?thesis using B(3,4,9) by (intro that [of B]) auto
  qed
  note eB = timer_more [OF B(3)] timer_more_aux [OF B(3)] e0
  have kB: "kinv {c} {} B" using parts B(2) unfolding kinv_def timer_parts [OF B(3)] by simp
  have swB: "switching c B" using swA B(5) [of "PreemptTimer c" c] unfolding switching_def eB by simp
  obtain s' new where s': "thread_resched c B = Some s'" "kinv {} {} s'" "resched_to c new B s'"
    by (rule thread_resched_kinv [OF kB swB])
  have res: "wait_queue_block c w timeout s = Some (Blocked, s')"
    unfolding wait_queue_block_def Let_def t [symmetric]
    by (simp only: mg to cur(3) B(1) s'(1) dassert_bind Option.bind.bind_lunit simp_thms empty_iff if_True if_False)
  have "t_state (threads B t) = THREAD_BLOCKED" unfolding eB by simp
  with s'(3) have tb: "t_state (threads s' t) = THREAD_BLOCKED" by (auto simp: resched_to_def)
  show ?thesis
  proof (rule that [OF res s'(2)])
    show "runs_best c s'" by (rule resched_to_best [OF s'(3)])
    show "thread_same (threads s x) (threads s' x)" if "x \<noteq> t" for x
    proof -
      have "thread_same (threads B x) (threads s' x)" using s'(3) by (simp add: resched_to_def)
      then show ?thesis using that by (simp add: eB)
    qed
    show "wake_state False (t_state (threads s x)) (t_state (threads s' x))" if "x \<noteq> t" for x
    proof -
      have "t_state (threads s' x) = (if x = new then THREAD_RUNNING else t_state (threads B x))"
        "t_state (threads B new) = THREAD_READY" using s'(3) by (simp_all add: resched_to_def)
      then show ?thesis using that by (auto simp: wake_state_def awake_def eB)
    qed
  qed (use s'(3) tb B(4) in \<open>simp_all add: resched_to_def eB\<close>)
qed


text \<open>The second half of a wait: the frame is gone, the timer too, and the status is the waker's.\<close>

lemma wait_queue_block_resume_kinv:
  fixes s :: "'a kstate_scheme"
  assumes k: "kinv {} {} s" and up: "cpu_up s c" and t: "t = current_thread s c"
    and fr: "block_frame s t = Some (w, timeout)"
  obtains s' where "wait_queue_block_resume c s = Some (wait_queue_block_ret (threads s t), s')" and "kinv {} {} s'"
    and "threads s' = threads s" "wait_queues s' = wait_queues s" "current_thread s' = current_thread s"
      "thread_list s' = thread_list s" "block_frame s' = (block_frame s)(t := None)" "kstate.more s' = kstate.more s"
    and "\<And>b. ThreadTimer t \<notin> set (timer_queue s' b)"
proof -
  note cur = kinv_cpu [OF k up, folded t] kinv_current [OF k up, folded t]
  have fi: "frame_inv {} s" and ti: "timer_inv {} {} s" using k by (simp_all add: kinv_def)
  have ni: "\<not> thread_is_idle (threads s t)" using frame_invD(1) [OF fi, of t] fr by simp
  have k1: "kinv {c} {t} s" unfolding t by (rule kinv_release [OF k up]) simp
  let ?x = "if timeout \<noteq> INFINITE_TIME then timer_cancel c (ThreadTimer t) s else Some s"
  obtain s1 where s1: "?x = Some s1" "kinv {c} {t} s1" "timer_state.more s1 = timer_state.more s"
    "\<And>b. ThreadTimer t \<notin> set (timer_queue s1 b)"
    "\<And>b x. x \<noteq> ThreadTimer t \<Longrightarrow> x \<in> set (timer_queue s1 b) \<longleftrightarrow> x \<in> set (timer_queue s b)"
  proof (cases "timeout = INFINITE_TIME")
    case True
    have "ThreadTimer t \<notin> set (timer_queue s b)" for b
    proof
      assume "ThreadTimer t \<in> set (timer_queue s b)"
      with timer_invD(6) [OF ti] have "thread_timer_ok s t" by simp
      with True fr cur(3) show False by (simp add: thread_timer_ok_def timed_wait_def)
    qed
    with True k1 show ?thesis by (intro that [of s]) simp_all
  next
    case False
    have "timed_wait s t" using fr False by (simp add: timed_wait_def)
    note mg = timer_invD(9) [OF ti this]
    obtain s1 where "timer_cancel c (ThreadTimer t) s = Some s1" "kinv {c} {t} s1"
      "timer_state.more s1 = timer_state.more s" "\<And>b. ThreadTimer t \<notin> set (timer_queue s1 b)"
      "\<And>b x. x \<noteq> ThreadTimer t \<Longrightarrow> x \<in> set (timer_queue s1 b) \<longleftrightarrow> x \<in> set (timer_queue s b)"
      by (rule timer_cancel_kinv [OF k1 mg, of c]) auto
    with False show ?thesis by (intro that [of s1]) simp_all
  qed
  note e1 = timer_more [OF s1(3)] timer_more_aux [OF s1(3)]
  let ?s2 = "s1\<lparr>block_frame := (block_frame s1)(t := None)\<rparr>"
  have k2: "kinv {c} {t} ?s2"
    by (rule kinv_upd_frame [OF s1(2)]) (use cur ni in \<open>simp_all add: e1\<close>)
  have "kinv ({c} - {c}) ({t} - {t}) (?s2\<lparr>current_thread := (current_thread ?s2)(c := t)\<rparr>)"
  proof (rule kinv_own [OF k2])
    show "\<not> thread_is_real_time_or_idle (threads ?s2 t)" if "PreemptTimer c \<in> set (timer_queue ?s2 c)"
      using that s1(5) [of "PreemptTimer c" c] timer_invD(5) [OF ti, of c c] t by (simp add: e1)
  qed (use cur up s1(4) in \<open>simp_all add: e1 cpu_up_def live_def\<close>)
  then have "kinv {} {} ?s2"
    by (subst (asm) kinv_cong [where s = ?s2]) (use t in \<open>simp_all add: e1 fun_upd_idem_iff\<close>)
  moreover have "wait_queue_block_resume c s = Some (wait_queue_block_ret (threads s t), ?s2)"
    unfolding wait_queue_block_resume_def Let_def t [symmetric] fr option.case prod.case s1(1)
    by (simp add: e1)
  ultimately show ?thesis
    by (intro that [of ?s2]) (use s1(4) in \<open>simp_all add: e1\<close>)
qed

section \<open>Sleeping and the timer callbacks\<close>

lemma thread_sleep_kinv:
  fixes s :: "'a kstate_scheme"
  assumes k: "kinv {} {} s" and up: "cpu_up s c" and t: "t = current_thread s c"
    and ni: "\<not> thread_is_idle (threads s t)" and fr: "block_frame s t = None"
  obtains s' where "thread_sleep c delay s = Some s'" and "kinv {} {} s'" and "runs_best c s'"
    and "t_state (threads s' t) = THREAD_SLEEPING" and "ThreadTimer t \<in> set (timer_queue s' c)"
    and "scheduled_time (timers s' (ThreadTimer t)) = current_time s + (if delay = 0 then 1 else delay)"
proof -
  note cur = kinv_cpu [OF k up, folded t] kinv_current [OF k up, folded t]
  have c: "c < SMP_MAX_CPUS" using up by (simp add: cpu_up_def)
  have nl: "ThreadTimer t \<notin> set (timer_queue s b)" for b
    using no_timer_while_running [OF k up] fr unfolding t by simp
  have k1: "kinv {c} {t} s" unfolding t by (rule kinv_release [OF k up]) simp
  let ?I = "timer_initialize (ThreadTimer t) s" and ?d = "if delay = 0 then 1 else delay"
  have mI: "timer_state.more ?I = timer_state.more s" "timer_queue ?I = timer_queue s" "current_time ?I = current_time s"
    by (simp_all add: timer_initialize_def)
  note eI = timer_more [OF mI(1)] timer_more_aux [OF mI(1)]
  have tI: "timer_inv {c} {t} ?I" by (rule timer_initialize_inv) (use k1 nl in \<open>simp_all add: kinv_def\<close>)
  have kI: "kinv {c} {t} ?I" by (rule kinv_timers [OF mI(1) k1 tI])
  obtain B where B: "timer_set SMP_MAX_CPUS c (ThreadTimer t) ?d 0 CbThreadSleep t ?I = Some B"
      "timer_inv {c} {t} B" "timer_state.more B = timer_state.more ?I"
      "\<And>b x. x \<in> set (timer_queue B b) \<longleftrightarrow> x \<in> set (timer_queue ?I b) \<or> x = ThreadTimer t \<and> b = c"
      "\<And>x. tm_magic (timers B x) = tm_magic (timers ?I x)"
      "tm_callback (timers B (ThreadTimer t)) = CbThreadSleep" "tm_arg (timers B (ThreadTimer t)) = t"
      "periodic_time (timers B (ThreadTimer t)) = 0"
      "scheduled_time (timers B (ThreadTimer t)) = current_time ?I + ?d"
    by (rule timer_set_inv [OF tI _ c, of "ThreadTimer t" CbThreadSleep ?d 0 t])
      (use nl in \<open>auto simp: mI timer_initialize_def TIMER_INITIAL_VALUE_def\<close>)
  note eB = timer_more [OF B(3)] timer_more_aux [OF B(3)] eI
  have kB: "kinv {c} {t} B" by (rule kinv_timers [OF B(3) kI B(2)])
  let ?f = "\<lambda>th. th\<lparr>t_state := THREAD_SLEEPING\<rparr>"
  let ?C = "upd_thread t ?f B"
  have kC: "kinv {c} {t} ?C"
    by (rule kinv_upd [OF kB]) (use cur in \<open>simp_all add: eB\<close>)
  have "kinv {c} ({t} - {t}) ?C"
  proof (rule kinv_settle [OF kC])
    show "thread_timer_ok ?C t"
      using B(5-8) cur(1) by (simp add: thread_timer_ok_def eB) (simp add: timer_initialize_def TIMER_INITIAL_VALUE_def)
  qed (use cur ni fr B(4) in \<open>auto simp: eB thread_is_idle_def\<close>)
  then have kC': "kinv {c} {} ?C" by simp
  have "timer_inv {} {} s" using k by (simp add: kinv_def)
  note d5 = timer_invD(5) [OF this, of c c]
  have sw: "switching c ?C"
  proof -
    have "current_thread ?C c = current_thread s c" by (simp add: eB)
    then have "current_thread ?C c = t" by (simp only: t [symmetric])
    moreover have "PreemptTimer c \<in> set (timer_queue s c) \<Longrightarrow> \<not> thread_is_real_time_or_idle (threads s t)"
      using d5 t by simp
    ultimately show ?thesis using cur up
      by (simp add: switching_def eB B(4) mI may_run_on_def thread_is_real_time_or_idle_def)
  qed
  obtain s' new where s': "thread_resched c ?C = Some s'" "kinv {} {} s'" "resched_to c new ?C s'"
    by (rule thread_resched_kinv [OF kC' sw])
  have "thread_sleep c delay s = Some s'"
    unfolding thread_sleep_def Let_def t [symmetric] timer_set_oneshot_def
    using cur ni B(1) s'(1) by simp
  moreover have "t_state (threads s' t) = THREAD_SLEEPING" using s'(3) by (auto simp: resched_to_def)
  ultimately show ?thesis
    by (intro that [of s'] s'(2) resched_to_best [OF s'(3)]) (use s'(3) B(4,9) mI in \<open>simp_all add: resched_to_def\<close>)
qed

section \<open>The timer interrupt\<close>

lemma dequeued_sel [simp]:
  "timers (dequeued c tm s) = timers s" "timer_queue (dequeued c tm s) = (\<lambda>c. remove1 tm (timer_queue s c))"
  "timer_state.more (dequeued c tm s) = timer_state.more s"
  by (simp_all add: dequeued_def stats_upd_def)

lemma dequeued_ksel [simp]:
  "threads (dequeued c tm s) = threads s" "thread_list (dequeued c tm s) = thread_list s"
  "wait_queues (dequeued c tm s) = wait_queues s" "current_thread (dequeued c tm s) = current_thread s"
  "block_frame (dequeued c tm s) = block_frame s" "live (dequeued c tm s) x = live s x"
  "cpu_up (dequeued c tm s) b = cpu_up s b" "timed_wait (dequeued c tm s) x = timed_wait s x"
  by (simp_all add: dequeued_def stats_upd_def live_def cpu_up_def timed_wait_def)

lemma dequeued_inv:
  fixes s :: "'a kstate_scheme"
  assumes ti: "timer_inv sw D s"
    and tD: "\<And>t. tm = ThreadTimer t \<Longrightarrow> t \<in> D \<or> \<not> live s t \<or> \<not> (t_state (threads s t) = THREAD_SLEEPING \<or>
             t_state (threads s t) = THREAD_BLOCKED \<and> timed_wait s t)"
  shows "timer_inv sw D (dequeued c tm s)"
proof (rule timer_invI)
  let ?s = "dequeued c tm s"
  have m: "timer_state.more ?s = timer_state.more s" by simp
  note e = timer_more [OF m] timer_more_aux [OF m] and d = timer_invD [OF ti]
  have mem: "x \<in> set (timer_queue ?s b) \<longleftrightarrow> x \<noteq> tm \<and> x \<in> set (timer_queue s b)" for x b
    using d(1) [of b] by (auto simp: set_remove1_eq)
  show "distinct (timer_queue ?s b)" for b using d(1) [of b] by simp
  show "b = b'" if "x \<in> set (timer_queue ?s b)" "x \<in> set (timer_queue ?s b')" for x b b'
    using that d(2) unfolding mem by blast
  show "b < SMP_MAX_CPUS" if "x \<in> set (timer_queue ?s b)" for x b using that d(3) unfolding mem by blast
  show "tm_magic (timers ?s (PreemptTimer b)) = TIMER_MAGIC" if "b < SMP_MAX_CPUS" for b using d(4) [OF that] by simp
  show "b' = b \<and> cpu_up ?s b \<and> tm_callback (timers ?s (PreemptTimer b)) = CbThreadTimerTick \<and>
        (b \<notin> sw \<longrightarrow> \<not> thread_is_real_time_or_idle (threads ?s (current_thread ?s b)))"
    if "PreemptTimer b' \<in> set (timer_queue ?s b)" for b b'
    using that d(5) [of b' b] unfolding mem e by simp
  show "thread_timer_ok ?s x" if "ThreadTimer x \<in> set (timer_queue ?s b)" "x \<notin> D" for x b
    using that d(6) [of x b] unfolding mem by (simp add: e)
  show "tm_magic (timers ?s (UserTimer n)) = TIMER_MAGIC \<and> (\<exists>k. tm_callback (timers ?s (UserTimer n)) = CbUser k)"
    if "UserTimer n \<in> set (timer_queue ?s b)" for b n
    using that d(7) [of n b] unfolding mem by simp
  show "\<exists>b. ThreadTimer x \<in> set (timer_queue ?s b)"
    if "live ?s x" "x \<notin> D" "t_state (threads ?s x) = THREAD_SLEEPING \<or>
             t_state (threads ?s x) = THREAD_BLOCKED \<and> timed_wait ?s x" for x
    using that d(8) [of x] tD [of x] unfolding mem e by auto
  show "tm_magic (timers ?s (ThreadTimer x)) = TIMER_MAGIC" if "timed_wait ?s x" for x
    using that d(9) [of x] unfolding e by simp
qed

lemma dequeued_kinv:
  fixes s :: "'a kstate_scheme"
  assumes k: "kinv sw D s"
    and tD: "\<And>t. tm = ThreadTimer t \<Longrightarrow> t \<in> D \<or> \<not> live s t \<or> \<not> (t_state (threads s t) = THREAD_SLEEPING \<or>
             t_state (threads s t) = THREAD_BLOCKED \<and> timed_wait s t)"
  shows "kinv sw D (dequeued c tm s)"
  by (rule kinv_timers [OF _ k dequeued_inv [OF _ tD]]) (use k in \<open>simp_all add: kinv_def\<close>)

text \<open>The handlers do not look at the timer queues, so they commute with taking a timer off.\<close>

lemma insert_head_dequeued:
  "insert_in_run_queue_head t (dequeued c tm s) = map_option (dequeued c tm) (insert_in_run_queue_head t s)"
  by (simp add: insert_in_run_queue_head_def Let_def dequeued_def stats_upd_def upd_thread_def)

lemma unblock_dequeued:
  "thread_unblock_from_wait_queue c t err (dequeued c' tm s) =
     map_option (\<lambda>(r, s'). (r, dequeued c' tm s')) (thread_unblock_from_wait_queue c t err s)"
proof -
  have e: "upd_thread x f (dequeued c' tm u) = dequeued c' tm (upd_thread x f u)"
    "upd_wq w g (dequeued c' tm u) = dequeued c' tm (upd_wq w g u)"
    "mp_reschedule b m fl (dequeued c' tm u) = dequeued c' tm (mp_reschedule b m fl u)"
    "threads (dequeued c' tm u) = threads u" "wait_queues (dequeued c' tm u) = wait_queues u" for x f u w g b m fl
    by (simp_all add: dequeued_def stats_upd_def upd_thread_def upd_wq_def mp_reschedule_def Let_def)
  show ?thesis
    unfolding thread_unblock_from_wait_queue_def Let_def e insert_head_dequeued
    by (auto simp: e split: option.split)
      (auto simp: insert_head_dequeued e split: option.split bind_split)
qed

text \<open>A preemption timer that is put back.\<close>

lemma requeue_preempt:
  fixes s :: "'a kstate_scheme"
  assumes k: "kinv {} {} s" and up: "cpu_up s c" and nl: "\<And>b. PreemptTimer c \<notin> set (timer_queue s b)"
    and cb: "tm_callback (timers s (PreemptTimer c)) = CbThreadTimerTick"
    and rt: "\<not> thread_is_real_time_or_idle (threads s (current_thread s c))"
  shows "kinv {} {} (tick_one SMP_MAX_CPUS c now (PreemptTimer c) s)"
proof (cases "periodic_time (timers s (PreemptTimer c)) > 0 \<and> \<not> timer_linked SMP_MAX_CPUS (PreemptTimer c) s")
  case False
  then have "tick_one SMP_MAX_CPUS c now (PreemptTimer c) s = s" by (auto simp: tick_one_def)
  then show ?thesis using k by simp
next
  case True
  let ?tm = "PreemptTimer c"
  let ?s = "tick_one SMP_MAX_CPUS c now ?tm s"
  have c: "c < SMP_MAX_CPUS" using up by (simp add: cpu_up_def)
  have m: "timer_state.more ?s = timer_state.more s" by (simp add: tick_one_def insert_timer_in_queue_def)
  have t: "timers ?s = (timers s)(?tm := (timers s ?tm)\<lparr>scheduled_time := now + periodic_time (timers s ?tm)\<rparr>)"
    using True by (simp add: tick_one_def insert_timer_in_queue_def)
  have q: "timer_queue ?s = (timer_queue s)(c := insert_by_time (timers ?s) ?tm (timer_queue s c))"
    using True by (simp add: tick_one_def insert_timer_in_queue_def)
  note e = timer_more [OF m] timer_more_aux [OF m]
  have ti: "timer_inv {} {} s" using k by (simp add: kinv_def)
  note d = timer_invD [OF ti]
  have mem: "x \<in> set (timer_queue ?s b) \<longleftrightarrow> x \<in> set (timer_queue s b) \<or> x = ?tm \<and> b = c" for x b
    unfolding q by (auto simp: set_insert_by_time)
  have tmq: "tm_magic (timers ?s x) = tm_magic (timers s x)" "tm_callback (timers ?s x) = tm_callback (timers s x)"
    "x \<noteq> ?tm \<Longrightarrow> timers ?s x = timers s x" for x unfolding t by simp_all
  have "timer_inv {} {} ?s"
  proof (rule timer_invI)
    have "distinct (insert_by_time (timers ?s) ?tm (timer_queue s c))"
      using mset_insert_by_time [of "timers ?s" ?tm "timer_queue s c"] d(1) [of c] nl [of c]
      by (metis distinct.simps(2) mset.simps(2) mset_eq_imp_distinct_iff)
    then show "distinct (timer_queue ?s b)" for b using d(1) [of b] unfolding q by simp
    show "b = b'" if "x \<in> set (timer_queue ?s b)" "x \<in> set (timer_queue ?s b')" for x b b'
      using that d(2) [of x b b'] nl unfolding mem by auto
    show "b < SMP_MAX_CPUS" if "x \<in> set (timer_queue ?s b)" for x b
      using that d(3) [of x b] c unfolding mem by auto
    show "b' = b \<and> cpu_up ?s b \<and> tm_callback (timers ?s (PreemptTimer b)) = CbThreadTimerTick \<and>
        (b \<notin> {} \<longrightarrow> \<not> thread_is_real_time_or_idle (threads ?s (current_thread ?s b)))"
      if "PreemptTimer b' \<in> set (timer_queue ?s b)" for b b'
      using that d(5) [of b' b] tmq(2) [of "PreemptTimer b"] up cb rt unfolding mem e
      by (cases "b' = c \<and> b = c") auto
    show "thread_timer_ok ?s x" if "ThreadTimer x \<in> set (timer_queue ?s b)" "x \<notin> {}" for x b
      using that d(6) [of x b] tmq(3) [of "ThreadTimer x"] unfolding mem by (simp add: e)
    show "tm_magic (timers ?s (UserTimer n)) = TIMER_MAGIC \<and> (\<exists>k. tm_callback (timers ?s (UserTimer n)) = CbUser k)"
      if "UserTimer n \<in> set (timer_queue ?s b)" for b n
      using that d(7) [of n b] tmq(3) [of "UserTimer n"] unfolding mem by simp
    show "\<exists>b. ThreadTimer x \<in> set (timer_queue ?s b)"
      if "live ?s x" "x \<notin> {}" "t_state (threads ?s x) = THREAD_SLEEPING \<or>
             t_state (threads ?s x) = THREAD_BLOCKED \<and> timed_wait ?s x" for x
      using that d(8) [of x] unfolding mem e by auto
    show "tm_magic (timers ?s (PreemptTimer b)) = TIMER_MAGIC" if "b < SMP_MAX_CPUS" for b
      using d(4) [OF that] by (simp add: tmq)
    show "tm_magic (timers ?s (ThreadTimer x)) = TIMER_MAGIC" if "timed_wait ?s x" for x
      using that d(9) [of x] unfolding e by (simp add: tmq)
  qed
  then show ?thesis by (rule kinv_timers [OF m k])
qed


lemma kinv_idle_state:
  assumes k: "kinv sw D s" and l: "live s t" and "t \<notin> D" and "thread_is_idle (threads s t)"
  shows "t_state (threads s t) = THREAD_READY \<or> t_state (threads s t) = THREAD_RUNNING"
proof -
  from kinv_thread_ok [OF k l] assms(4) obtain b where b: "b < SMP_MAX_CPUS" "t = idle_thread b"
    by (auto simp: thread_ok_def)
  with l have "cpu_up s b" by (simp add: cpu_up_def)
  with k b assms(3) show ?thesis unfolding kinv_def cpu_inv_def by blast
qed

lemma tick_one_queue: "set (timer_queue (tick_one n c now tm s) x) \<subseteq> insert tm (set (timer_queue s x))"
  by (auto simp: tick_one_def insert_timer_in_queue_def set_insert_by_time)

definition tick_ok :: "cpu \<Rightarrow> 'a kstate_scheme \<Rightarrow> bool" where
  "tick_ok c s \<longleftrightarrow> kinv {} {} s \<and> cpu_up s c \<and> (\<forall>n b. UserTimer n \<notin> set (timer_queue s b))"

lemma thread_timer_tick_ok:
  assumes k: "kinv sw D s"
  shows "kinv sw D (snd (thread_timer_tick c s))" "timers (snd (thread_timer_tick c s)) = timers s"
    "timer_queue (snd (thread_timer_tick c s)) = timer_queue s" "thread_list (snd (thread_timer_tick c s)) = thread_list s"
    "current_thread (snd (thread_timer_tick c s)) = current_thread s"
    "t_flags (threads (snd (thread_timer_tick c s)) x) = t_flags (threads s x)"
  using k by (auto simp: thread_timer_tick_def Let_def kinv_upd_irrel)

lemma thread_sleep_handler_kinv:
  assumes k: "kinv {} {t} s" and l: "live s t" and st: "t_state (threads s t) = THREAD_SLEEPING"
    and id: "\<not> thread_is_idle (threads s t)" and bq: "blocking_wait_queue (threads s t) = None"
    and nl: "\<And>b. ThreadTimer t \<notin> set (timer_queue s b)"
  obtains s' where "thread_sleep_handler t s = Some (INT_RESCHEDULE, s')" and "kinv {} {} s'"
    and "timers s' = timers s" "timer_queue s' = timer_queue s" "thread_list s' = thread_list s"
proof -
  let ?s1 = "upd_thread t (\<lambda>th. th\<lparr>t_state := THREAD_READY\<rparr>) s"
  have ok: "thread_ok {t} s t" by (rule kinv_thread_ok [OF k l])
  have k1: "kinv {} {t} ?s1" by (rule kinv_upd [OF k]) (use ok in \<open>simp_all add: thread_ok_def\<close>)
  obtain s' where "insert_in_run_queue_head t ?s1 = Some s'" "kinv {} ({t} - {t}) s'" "relinked t True ?s1 s'"
    by (rule insert_in_run_queue_head_kinv [where t = t, OF k1]) (use l id bq nl in \<open>simp_all add: thread_is_idle_def\<close>)
  then show ?thesis using ok st
    by (intro that [of s']) (simp_all add: thread_sleep_handler_def thread_ok_def relinked_def)
qed

lemma timer_callback_run_fires:
  fixes s :: "'a kstate_scheme"
  assumes ok: "tick_ok c s" and q: "timer_queue s c = tm # q"
  shows "\<exists>r s'. timer_callback_run user c tm now (dequeued c tm s) = Some (r, s') \<and> timers s' = timers s \<and>
        timer_queue s' = (\<lambda>c. remove1 tm (timer_queue s c)) \<and> tick_ok c (tick_one SMP_MAX_CPUS c now tm s')"
proof -
  from ok have k: "kinv {} {} s" and up: "cpu_up s c" and nu: "\<And>n b. UserTimer n \<notin> set (timer_queue s b)"
    by (auto simp: tick_ok_def)
  have ti: "timer_inv {} {} s" using k by (simp add: kinv_def)
  note d = timer_invD [OF ti]
  have tin: "tm \<in> set (timer_queue s c)" using q by simp
  let ?s1 = "dequeued c tm s"
  have m1: "timer_state.more ?s1 = timer_state.more s" by simp
  note e1 = timer_more [OF m1] timer_more_aux [OF m1]
  have nt: "tm \<notin> set (timer_queue ?s1 b)" for b using d(1) [of b] by simp
  have nu1: "UserTimer n \<notin> set (timer_queue ?s1 b)" for n b using nu [of n b] set_remove1_subset [of tm "timer_queue s b"] by auto
  have shot: "tick_one SMP_MAX_CPUS c now (ThreadTimer t) u = u" if "tm = ThreadTimer t" "timers u = timers s" for t u
  proof -
    have "thread_timer_ok s t" using d(6) [of t c] tin that by simp
    then show ?thesis using that by (simp add: tick_one_def thread_timer_ok_def)
  qed
  show ?thesis
  proof (cases tm)
    case (PreemptTimer b)
    with d(5) [of b c] tin have b: "b = c" "tm_callback (timers s (PreemptTimer c)) = CbThreadTimerTick"
      "\<not> thread_is_real_time_or_idle (threads s (current_thread s c))" by auto
    let ?s2 = "snd (thread_timer_tick c ?s1)"
    have k1: "kinv {} {} ?s1" by (rule dequeued_kinv [OF k]) (use PreemptTimer in simp)
    note tk = thread_timer_tick_ok [OF k1, of c]
    have up2: "cpu_up ?s2 c" using up by (simp add: cpu_up_def live_def tk e1)
    have "kinv {} {} (tick_one SMP_MAX_CPUS c now tm ?s2)"
      unfolding PreemptTimer b(1)
      by (rule requeue_preempt) (use tk up2 b nt PreemptTimer in
          \<open>simp_all add: thread_is_real_time_or_idle_def e1\<close>)
    moreover have "timer_state.more (tick_one SMP_MAX_CPUS c now tm ?s2) = timer_state.more ?s2"
      by (simp add: tick_one_def insert_timer_in_queue_def)
    moreover have "UserTimer n \<notin> set (timer_queue (tick_one SMP_MAX_CPUS c now tm ?s2) x)" for n x
      using nu1 [of n x] tick_one_queue [of SMP_MAX_CPUS c now tm ?s2 x] tk(3) PreemptTimer by auto
    ultimately have "tick_ok c (tick_one SMP_MAX_CPUS c now tm ?s2)"
      using up2 timer_more_aux(2) [of "tick_one SMP_MAX_CPUS c now tm ?s2" ?s2 c] unfolding tick_ok_def by simp
    moreover have "timer_callback_run user c tm now ?s1 = Some (fst (thread_timer_tick c ?s1), ?s2)"
      using PreemptTimer b by (simp add: timer_callback_run_def)
    ultimately show ?thesis using tk(2,3)
      by (intro exI [of _ "fst (thread_timer_tick c ?s1)"] exI [of _ ?s2] conjI) simp_all
  next
    case (ThreadTimer t)
    with d(6) [of t c] tin have ok: "thread_timer_ok s t" by simp
    have fin: "\<exists>r s'. timer_callback_run user c tm now ?s1 = Some (r, s') \<and> timers s' = timers s \<and>
        timer_queue s' = (\<lambda>c. remove1 tm (timer_queue s c)) \<and> tick_ok c (tick_one SMP_MAX_CPUS c now tm s')"
      if "timer_callback_run user c tm now ?s1 = Some (r, s')" "kinv {} {} s'" "timers s' = timers s"
        "timer_queue s' = timer_queue ?s1" "thread_list s' = thread_list s" for r s'
    proof -
      have "tick_ok c s'" using that up nu1 by (simp add: tick_ok_def cpu_up_def live_def)
      moreover have "tick_one SMP_MAX_CPUS c now tm s' = s'" unfolding ThreadTimer by (rule shot [OF ThreadTimer that(3)])
      ultimately show ?thesis using that(1,3,4) by (intro exI [of _ r] exI [of _ s'] conjI) simp_all
    qed
    from ok consider (sleep) "tm_callback (timers s tm) = CbThreadSleep" "t_state (threads s t) = THREAD_SLEEPING"
      | (wait) "tm_callback (timers s tm) = CbWaitTimeout" "timed_wait s t"
      unfolding ThreadTimer by (auto simp: thread_timer_ok_def)
    then show ?thesis
    proof cases
      case sleep
      have l: "live s t" and a: "tm_arg (timers s tm) = t" using ok unfolding ThreadTimer by (simp_all add: thread_timer_ok_def)
      have kt: "kinv {} {t} s" by (rule kinv_grow [OF k]) (use sleep in simp)
      have id: "\<not> thread_is_idle (threads s t)" using kinv_idle_state [OF k l] sleep by auto
      have bq: "blocking_wait_queue (threads s t) = None"
        using kinv_thread_ok [OF k l] sleep by (simp add: thread_ok_def)
      have k1: "kinv {} {t} ?s1" by (rule dequeued_kinv [OF kt]) (use ThreadTimer in simp)
      obtain s' where s': "thread_sleep_handler t ?s1 = Some (INT_RESCHEDULE, s')" "kinv {} {} s'"
        "timers s' = timers ?s1" "timer_queue s' = timer_queue ?s1" "thread_list s' = thread_list ?s1"
        by (rule thread_sleep_handler_kinv [OF k1])
          (use l sleep id bq nt ThreadTimer in \<open>simp_all add: e1\<close>)
      show ?thesis
        by (rule fin [of INT_RESCHEDULE s']) (use s' sleep a in \<open>simp_all add: timer_callback_run_def e1\<close>)
    next
      case wait
      have l: "live s t" and a: "tm_arg (timers s tm) = t" using ok unfolding ThreadTimer by (simp_all add: thread_timer_ok_def)
      have mg: "t_magic (threads s t) = THREAD_MAGIC" using kinv_thread_ok [OF k l] by (simp add: thread_ok_def)
      from wait obtain w timeout where fr: "block_frame s t = Some (w, timeout)" by (auto simp: timed_wait_def)
      have run: "timer_callback_run user c tm now ?s1 = wait_queue_timeout_handler c t ?s1"
        using wait a by (simp add: timer_callback_run_def)
      show ?thesis
      proof (cases "t_state (threads s t) = THREAD_BLOCKED")
        case True
        obtain s2 where s2: "thread_unblock_from_wait_queue c t ERR_TIMED_OUT s = Some (NO_ERROR, s2)" "kinv {} {} s2"
          "woken {t} ERR_TIMED_OUT s s2" "timers s2 = timers s" "timer_queue s2 = timer_queue s"
          by (rule thread_unblock_from_wait_queue_kinv [OF k l _ True fr, of c ERR_TIMED_OUT]) simp_all
        have rdy: "awake (t_state (threads s2 t))" using s2(3) unfolding woken_def wake_state_def by auto
        have "kinv {} {} (dequeued c tm s2)"
          by (rule dequeued_kinv [OF s2(2)]) (use rdy ThreadTimer in \<open>auto simp: awake_def\<close>)
        moreover have "thread_list s2 = thread_list s" using s2(3) by (simp add: woken_def)
        moreover have "wait_queue_timeout_handler c t ?s1 = Some (INT_RESCHEDULE, dequeued c tm s2)"
          using mg s2(1) by (simp add: wait_queue_timeout_handler_def unblock_dequeued)
        ultimately show ?thesis using s2(4,5)
          by (intro fin [of INT_RESCHEDULE "dequeued c tm s2"]) (simp_all add: run)
      next
        case False
        have st: "t_state (threads s t) \<noteq> THREAD_SLEEPING"
          using frame_invD(3) [of "{}" s t] k l fr by (auto simp: kinv_def)
        have "kinv {} {} ?s1" by (rule dequeued_kinv [OF k]) (use False st ThreadTimer in auto)
        then show ?thesis
          by (intro fin [of INT_NO_RESCHEDULE ?s1])
            (use mg False in \<open>simp_all add: run wait_queue_timeout_handler_def thread_unblock_from_wait_queue_def e1\<close>)
      qed
    qed
  next
    case (UserTimer n)
    with nu tin show ?thesis by auto
  qed
qed

interpretation kernel_tick: timer_client "timer_callback_run user c" SMP_MAX_CPUS c "tick_ok c"
  for user :: "nat \<Rightarrow> timer_id \<Rightarrow> lk_time_t \<Rightarrow> 'a kstate_scheme \<Rightarrow> (handler_return \<times> 'a kstate_scheme) option" and c
proof
  show "\<exists>r s'. timer_callback_run user c tm now (dequeued c tm s) = Some (r, s') \<and> timers s' = timers s \<and>
        timer_queue s' = (\<lambda>c. remove1 tm (timer_queue s c)) \<and> tick_ok c (tick_one SMP_MAX_CPUS c now tm s')"
    if "tick_ok c s" "timer_queue s c = tm # q" for s :: "'a kstate_scheme" and tm q now
    by (rule timer_callback_run_fires [OF that])
  show "tick_ok c (stats_upd c f s) = tick_ok c s" for f and s :: "'a kstate_scheme" by (simp add: tick_ok_def)
  show "tick_ok c (platform_set_oneshot_timer c d s) = tick_ok c s" for d and s :: "'a kstate_scheme"
  proof -
    have "kinv {} {} (platform_set_oneshot_timer c d s) = kinv {} {} s"
      by (rule kinv_cong) (simp_all add: platform_set_oneshot_timer_def)
    then show ?thesis by (simp add: tick_ok_def platform_set_oneshot_timer_def cpu_up_def live_def)
  qed
qed

end
