(* ===== verification/LK_Sched_Life.thy ===== *)
theory LK_Sched_Life
  imports LK_Sched_Ops
begin

text \<open>
  Threads come and go: creation, start, join, detach and exit keep the invariant of \<open>LK_Sched\<close>; the boot of
  the first and of the other cpus establishes it; the scheduler as a step relation, and the properties of
  the component.
\<close>

section \<open>Threads come and go\<close>

text \<open>Changing the flags of any thread, as long as it stays (not) idle and no preemption timer is left behind.\<close>

lemma kinv_upd_flags:
  assumes k: "kinv sw D s"
    and idl: "thread_is_idle ((threads s t)\<lparr>t_flags := v\<rparr>) = thread_is_idle (threads s t)"
    and st: "\<not> stack_overrun ((threads s t)\<lparr>t_flags := v\<rparr>)"
    and det: "v AND THREAD_FLAG_DETACHED \<noteq> 0 \<Longrightarrow> wq_list (wait_queues s (RetcodeWq t)) = []"
    and rt: "\<And>c. thread_is_real_time_or_idle ((threads s t)\<lparr>t_flags := v\<rparr>) \<Longrightarrow> cpu_up s c \<Longrightarrow> c \<notin> sw \<Longrightarrow>
        current_thread s c = t \<Longrightarrow> PreemptTimer c \<notin> set (timer_queue s c)"
  shows "kinv sw D (upd_thread t (\<lambda>th. th\<lparr>t_flags := v\<rparr>) s)" (is "kinv sw D ?s")
proof -
  have 1: "t_magic (threads ?s x) = t_magic (threads s x)" "queue_node (threads ?s x) = queue_node (threads s x)"
    "priority (threads ?s x) = priority (threads s x)" "t_state (threads ?s x) = t_state (threads s x)"
    "curr_cpu (threads ?s x) = curr_cpu (threads s x)" "may_run_on c (threads ?s x) = may_run_on c (threads s x)"
    "pinned_cpu (threads ?s x) = pinned_cpu (threads s x)" "thread_is_idle (threads ?s x) = thread_is_idle (threads s x)"
    "blocking_wait_queue (threads ?s x) = blocking_wait_queue (threads s x)" "timed_wait ?s x = timed_wait s x"
    "thread_timer_ok ?s x = thread_timer_ok s x" for x c
    using idl by (simp_all add: may_run_on_def timed_wait_def thread_timer_ok_def)
  have "rq_inv D ?s = rq_inv D s" "wq_inv D ?s = wq_inv D s" "cpu_inv sw D ?s = cpu_inv sw D s"
    "frame_inv D ?s = frame_inv D s"
    unfolding inv_defs live_upd 1 upd_thread_sel(2-) by (rule refl)+
  moreover have "th_inv D ?s"
    using k st unfolding kinv_def th_inv_def thread_ok_def live_upd 1 upd_thread_sel(2-) by simp
  moreover have "join_inv D ?s"
    using k det unfolding kinv_def join_inv_def live_upd 1 upd_thread_sel(2-) by auto
  moreover have "timer_inv sw D ?s"
  proof -
    have "timer_inv sw D s" using k by (simp add: kinv_def)
    note d = timer_invD [OF this]
    show ?thesis
    proof (rule timer_invI)
      show "b' = b \<and> cpu_up ?s b \<and> tm_callback (timers ?s (PreemptTimer b)) = CbThreadTimerTick \<and>
          (b \<notin> sw \<longrightarrow> \<not> thread_is_real_time_or_idle (threads ?s (current_thread ?s b)))"
        if "PreemptTimer b' \<in> set (timer_queue ?s b)" for b b'
        using that d(5) [of b' b] rt [of b] by auto
      show "thread_timer_ok ?s x" if "ThreadTimer x \<in> set (timer_queue ?s b)" "x \<notin> D" for x b
        using that d(6) [of x b] unfolding 1 by simp
      show "\<exists>b. ThreadTimer x \<in> set (timer_queue ?s b)"
        if "live ?s x" "x \<notin> D" "t_state (threads ?s x) = THREAD_SLEEPING \<or>
             t_state (threads ?s x) = THREAD_BLOCKED \<and> timed_wait ?s x" for x
        using that d(8) [of x] unfolding 1 by simp
    qed (use d(1-4,7,9) in \<open>simp_all add: 1\<close>)
  qed
  ultimately show ?thesis using k unfolding kinv_def by simp
qed

text \<open>A structure that belongs to no thread may be overwritten.\<close>

lemma kinv_upd_dead:
  assumes k: "kinv sw D s" and nl: "\<not> live s t" and st: "\<not> stack_overrun (f (threads s t))"
  shows "kinv sw D (upd_thread t f s)" (is "kinv sw D ?s")
proof -
  have ne: "\<And>x. live s x \<Longrightarrow> threads ?s x = threads s x" using nl by auto
  have cur: "threads ?s (current_thread s c) = threads s (current_thread s c)" if "cpu_up s c" "c \<notin> sw" for c
    using ne kinv_cpu(1) [OF k that] by blast
  have idl: "threads ?s (idle_thread c) = threads s (idle_thread c)" if "cpu_up s c" for c
    using ne that by (auto simp: cpu_up_def)
  have "rq_inv D ?s" using k nl unfolding kinv_def rq_inv_def live_upd upd_thread_sel by auto
  moreover have "wq_inv D ?s" using k nl unfolding kinv_def wq_inv_def live_upd upd_thread_sel by auto
  moreover have "th_inv D ?s"
    using k nl st unfolding kinv_def th_inv_def thread_ok_def live_upd upd_thread_sel by auto
  moreover have "join_inv D ?s" using k nl unfolding kinv_def join_inv_def live_upd upd_thread_sel by auto
  moreover have "cpu_inv sw D ?s"
    using k nl cur idl unfolding kinv_def cpu_inv_def live_upd upd_thread_sel(2-) by (simp add: ne)
  moreover have "frame_inv D ?s" using k nl unfolding kinv_def frame_inv_def live_upd upd_thread_sel by auto
  moreover have "timer_inv sw D ?s"
  proof -
    have "timer_inv sw D s" using k by (simp add: kinv_def)
    note d = timer_invD [OF this]
    have tw: "timed_wait ?s x = timed_wait s x" for x by (simp add: timed_wait_def)
    show ?thesis
    proof (rule timer_invI)
      show "b' = b \<and> cpu_up ?s b \<and> tm_callback (timers ?s (PreemptTimer b)) = CbThreadTimerTick \<and>
          (b \<notin> sw \<longrightarrow> \<not> thread_is_real_time_or_idle (threads ?s (current_thread ?s b)))"
        if "PreemptTimer b' \<in> set (timer_queue ?s b)" for b b'
        using that d(5) [of b' b] cur [of b] unfolding upd_thread_sel(2-) live_upd by auto
      show "thread_timer_ok ?s x" if "ThreadTimer x \<in> set (timer_queue ?s b)" "x \<notin> D" for x b
        using that d(6) [of x b] nl by (cases "x = t") (auto simp: thread_timer_ok_def tw)
      show "\<exists>b. ThreadTimer x \<in> set (timer_queue ?s b)"
        if "live ?s x" "x \<notin> D" "t_state (threads ?s x) = THREAD_SLEEPING \<or>
             t_state (threads ?s x) = THREAD_BLOCKED \<and> timed_wait ?s x" for x
        using that d(8) [of x] nl by (cases "x = t") (auto simp: tw)
    qed (use d(1-4,7,9) in \<open>simp_all add: tw\<close>)
  qed
  ultimately show ?thesis unfolding kinv_def by blast
qed

text \<open>A new thread is added to the thread list, suspended.\<close>

lemma kinv_add_thread:
  assumes k: "kinv sw D s" and nl: "\<not> live s t" and nid: "\<And>c. c < SMP_MAX_CPUS \<Longrightarrow> t \<noteq> idle_thread c"
    and th: "t_magic (threads s t) = THREAD_MAGIC" "0 \<le> priority (threads s t)" "priority (threads s t) < int NUM_PRIORITIES"
      "\<not> queue_node (threads s t)" "blocking_wait_queue (threads s t) = None" "t_state (threads s t) = THREAD_SUSPENDED"
      "\<not> thread_is_idle (threads s t)" "wq_magic (wait_queues s (RetcodeWq t)) = WAIT_QUEUE_MAGIC"
    and nD: "t \<notin> D"
  shows "kinv sw D (s\<lparr>thread_list := t # thread_list s\<rparr>)" (is "kinv sw D ?s")
proof -
  have e: "threads ?s = threads s" "run_queue ?s = run_queue s" "run_queue_bitmap ?s = run_queue_bitmap s"
    "wait_queues ?s = wait_queues s" "current_thread ?s = current_thread s" "block_frame ?s = block_frame s"
    "timers ?s = timers s" "timer_queue ?s = timer_queue s" "live ?s x \<longleftrightarrow> x = t \<or> live s x" "cpu_up ?s c = cpu_up s c"
    "timed_wait ?s x = timed_wait s x" for x c
    using nid by (auto simp: live_def cpu_up_def timed_wait_def)
  have empty: "wq_list (wait_queues s (RetcodeWq t)) = []" using k nl unfolding kinv_def join_inv_def by blast
  have nfr: "block_frame s t = None"
    using k nl frame_invD(1) [of D s t] by (cases "block_frame s t") (simp_all add: kinv_def)
  have "rq_inv D ?s" using k th unfolding kinv_def rq_inv_def e by auto
  moreover have "wq_inv D ?s" using k th unfolding kinv_def wq_inv_def e by auto
  moreover have "th_inv D ?s" using k nl th nD unfolding kinv_def th_inv_def thread_ok_def e by (auto simp: live_def)
  moreover have "join_inv D ?s" using k empty unfolding kinv_def join_inv_def e by auto
  moreover have "cpu_inv sw D ?s" using k th unfolding kinv_def cpu_inv_def e by auto
  moreover have "frame_inv D ?s" using k th nfr unfolding kinv_def frame_inv_def e by auto
  moreover have "timer_inv sw D ?s"
  proof -
    have "timer_inv sw D s" using k by (simp add: kinv_def)
    note d = timer_invD [OF this]
    show ?thesis
    proof (rule timer_invI)
      show "thread_timer_ok ?s x" if "ThreadTimer x \<in> set (timer_queue ?s b)" "x \<notin> D" for x b
        using that d(6) [of x b] by (auto simp: thread_timer_ok_def e)
      show "\<exists>b. ThreadTimer x \<in> set (timer_queue ?s b)"
        if "live ?s x" "x \<notin> D" "t_state (threads ?s x) = THREAD_SLEEPING \<or>
             t_state (threads ?s x) = THREAD_BLOCKED \<and> timed_wait ?s x" for x
        using that d(8) [of x] th by (cases "x = t") (auto simp: e)
    qed (use d in \<open>auto simp: e\<close>)
  qed
  ultimately show ?thesis unfolding kinv_def by blast
qed

text \<open>A dead thread is taken off the thread list.\<close>

lemma kinv_remove_thread:
  assumes k: "kinv sw D s" and t: "t \<in> D" and nid: "\<not> thread_is_idle (threads s t)" and l: "live s t"
    and wq: "wq_list (wait_queues s (RetcodeWq t)) = []" and fr: "block_frame s t = None"
    and nt: "\<And>b. ThreadTimer t \<notin> set (timer_queue s b)"
  shows "kinv sw (D - {t}) (s\<lparr>thread_list := remove1 t (thread_list s)\<rparr>)" (is "kinv sw ?D ?s")
proof -
  have dl: "distinct (thread_list s)" using k by (simp add: kinv_def th_inv_def)
  have nidle: "t \<noteq> idle_thread c" if "c < SMP_MAX_CPUS" for c
  proof
    assume "t = idle_thread c"
    with that l have "cpu_up s c" by (simp add: cpu_up_def)
    with k nid \<open>t = idle_thread c\<close> show False unfolding kinv_def cpu_inv_def by blast
  qed
  have e: "threads ?s = threads s" "run_queue ?s = run_queue s" "run_queue_bitmap ?s = run_queue_bitmap s"
    "wait_queues ?s = wait_queues s" "current_thread ?s = current_thread s" "block_frame ?s = block_frame s"
    "timers ?s = timers s" "timer_queue ?s = timer_queue s" "live ?s x \<longleftrightarrow> x \<noteq> t \<and> live s x" "cpu_up ?s c = cpu_up s c"
    "timed_wait ?s x = timed_wait s x" for x c
  proof -
    show "live ?s x \<longleftrightarrow> x \<noteq> t \<and> live s x" for x using dl by (auto simp: live_def set_remove1_eq)
    then show "cpu_up ?s c = cpu_up s c" using nidle [of c] unfolding cpu_up_def by blast
  qed (simp_all add: timed_wait_def)
  have cur: "current_thread s c \<noteq> t" if "cpu_up s c" "c \<notin> sw" for c using kinv_cpu(2) [OF k that] t by auto
  have "rq_inv ?D ?s" using k t unfolding kinv_def rq_inv_def e by auto
  moreover have "wq_inv ?D ?s" using k t unfolding kinv_def wq_inv_def e by auto
  moreover have "th_inv ?D ?s" using k dl unfolding kinv_def th_inv_def thread_ok_def e by auto
  moreover have "join_inv ?D ?s" using k wq unfolding kinv_def join_inv_def e by auto
  moreover have "cpu_inv sw ?D ?s"
  proof -
    have D: "x \<noteq> t \<Longrightarrow> x \<notin> ?D \<longleftrightarrow> x \<notin> D" for x by simp
    have "cpu_inv sw D s" using k by (simp add: kinv_def)
    then show ?thesis
      unfolding cpu_inv_def e by (elim conjE, intro conjI) (simp add: cur, simp add: D, auto simp: cpu_up_def nidle)
  qed
  moreover have "frame_inv ?D ?s" using k fr unfolding kinv_def frame_inv_def e by auto
  moreover have "timer_inv sw ?D ?s"
  proof -
    have "timer_inv sw D s" using k by (simp add: kinv_def)
    note d = timer_invD [OF this]
    show ?thesis
    proof (rule timer_invI)
      show "thread_timer_ok ?s x" if "ThreadTimer x \<in> set (timer_queue ?s b)" "x \<notin> ?D" for x b
        using that d(6) [of x b] nt by (cases "x = t") (auto simp: thread_timer_ok_def e)
      show "\<exists>b. ThreadTimer x \<in> set (timer_queue ?s b)"
        if "live ?s x" "x \<notin> ?D" "t_state (threads ?s x) = THREAD_SLEEPING \<or>
             t_state (threads ?s x) = THREAD_BLOCKED \<and> timed_wait ?s x" for x
        using that d(8) [of x] by (auto simp: e)
    qed (use d in \<open>auto simp: e\<close>)
  qed
  ultimately show ?thesis unfolding kinv_def by blast
qed


lemma flag_bits:
  "v AND THREAD_FLAG_DETACHED \<noteq> 0 \<longleftrightarrow> bit v 0" "v AND THREAD_FLAG_FREE_STACK \<noteq> 0 \<longleftrightarrow> bit v 1"
  "v AND THREAD_FLAG_FREE_STRUCT \<noteq> 0 \<longleftrightarrow> bit v 2" "v AND THREAD_FLAG_REAL_TIME \<noteq> 0 \<longleftrightarrow> bit v 3"
  "v AND THREAD_FLAG_IDLE \<noteq> 0 \<longleftrightarrow> bit v 4" "v AND THREAD_FLAG_DEBUG_STACK_BOUNDS_CHECK \<noteq> 0 \<longleftrightarrow> bit v 5"
  "v AND (THREAD_FLAG_REAL_TIME OR THREAD_FLAG_IDLE) \<noteq> 0 \<longleftrightarrow> bit v 3 \<or> bit v 4"
proof -
  have e: "v AND 2 ^ n \<noteq> 0 \<longleftrightarrow> bit v n" for n by (simp add: and_exp_eq_0_iff_not_bit)
  show "v AND THREAD_FLAG_DETACHED \<noteq> 0 \<longleftrightarrow> bit v 0" "v AND THREAD_FLAG_FREE_STACK \<noteq> 0 \<longleftrightarrow> bit v 1"
    "v AND THREAD_FLAG_FREE_STRUCT \<noteq> 0 \<longleftrightarrow> bit v 2" "v AND THREAD_FLAG_REAL_TIME \<noteq> 0 \<longleftrightarrow> bit v 3"
    "v AND THREAD_FLAG_IDLE \<noteq> 0 \<longleftrightarrow> bit v 4" "v AND THREAD_FLAG_DEBUG_STACK_BOUNDS_CHECK \<noteq> 0 \<longleftrightarrow> bit v 5"
    using e [of 0] e [of 1] e [of 2] e [of 3] e [of 4] e [of 5] by (simp_all add: thread_flag_defs)
  have "v AND (2 ^ 3 OR 2 ^ 4) = (v AND 2 ^ 3) OR (v AND 2 ^ 4)" by (rule bit.conj_disj_distrib)
  then show "v AND (THREAD_FLAG_REAL_TIME OR THREAD_FLAG_IDLE) \<noteq> 0 \<longleftrightarrow> bit v 3 \<or> bit v 4"
    using e [of 3] e [of 4] by (simp add: thread_flag_defs or_eq_0_iff)
qed

lemma flag_or_bits:
  "bit (v OR THREAD_FLAG_DETACHED) n \<longleftrightarrow> bit v n \<or> n = 0" "bit (v OR THREAD_FLAG_REAL_TIME) n \<longleftrightarrow> bit v n \<or> n = 3"
  "bit (v OR THREAD_FLAG_IDLE) n \<longleftrightarrow> bit v n \<or> n = 4"
  "bit (v AND NOT THREAD_FLAG_DETACHED) n \<longleftrightarrow> bit v n \<and> n \<noteq> 0"
  "bit (v AND NOT THREAD_FLAG_DEBUG_STACK_BOUNDS_CHECK) n \<longleftrightarrow> bit v n \<and> n \<noteq> 5"
proof -
  have e: "bit (2 ^ k :: u32) n \<longleftrightarrow> k = n \<and> n < 32" for k by (auto simp: bit_exp_iff)
  have f: "THREAD_FLAG_DETACHED = 2 ^ 0" "THREAD_FLAG_REAL_TIME = 2 ^ 3" "THREAD_FLAG_IDLE = 2 ^ 4"
    "THREAD_FLAG_DEBUG_STACK_BOUNDS_CHECK = 2 ^ 5" by (simp_all add: thread_flag_defs)
  have l: "bit v n \<Longrightarrow> n < 32" using bit_imp_le_length [of v n] by simp
  show "bit (v OR THREAD_FLAG_DETACHED) n \<longleftrightarrow> bit v n \<or> n = 0" "bit (v OR THREAD_FLAG_REAL_TIME) n \<longleftrightarrow> bit v n \<or> n = 3"
    "bit (v OR THREAD_FLAG_IDLE) n \<longleftrightarrow> bit v n \<or> n = 4"
    "bit (v AND NOT THREAD_FLAG_DETACHED) n \<longleftrightarrow> bit v n \<and> n \<noteq> 0"
    "bit (v AND NOT THREAD_FLAG_DEBUG_STACK_BOUNDS_CHECK) n \<longleftrightarrow> bit v n \<and> n \<noteq> 5"
    unfolding f bit_or_iff bit_and_iff bit_not_iff_eq e using l by auto
qed

lemma thread_flag_tests:
  "thread_is_idle t \<longleftrightarrow> bit (t_flags t) 4" "thread_is_real_time_or_idle t \<longleftrightarrow> bit (t_flags t) 3 \<or> bit (t_flags t) 4"
  by (simp_all add: thread_is_idle_def thread_is_real_time_or_idle_def flag_bits)

lemma stack_overrun_flags:
  assumes "\<not> stack_overrun t" and "bit v 5 \<Longrightarrow> bit (t_flags t) 5"
  shows "\<not> stack_overrun (t\<lparr>t_flags := v\<rparr>)"
  using assms by (auto simp: stack_overrun_def flag_bits)

lemma thread_set_real_time_kinv:
  assumes k: "kinv {} {} s" and up: "cpu_up s c" and l: "live s t"
    and here: "t = current_thread s c \<or> t_state (threads s t) \<noteq> THREAD_RUNNING"
  obtains s' where "thread_set_real_time c (Some t) s = Some (NO_ERROR, s')" and "kinv {} {} s'"
    and "thread_list s' = thread_list s" and "bit (t_flags (threads s' t)) 3"
proof -
  have c: "c < SMP_MAX_CPUS" using up by (simp add: cpu_up_def)
  have ti: "timer_inv {} {} s" using k by (simp add: kinv_def)
  note mg = timer_invD(4) [OF ti c]
  let ?x = "if t = current_thread s c then timer_cancel c (PreemptTimer c) s else Some s"
  obtain s1 where s1: "?x = Some s1" "kinv {} {} s1" "timer_state.more s1 = timer_state.more s"
    "t = current_thread s c \<Longrightarrow> PreemptTimer c \<notin> set (timer_queue s1 c)"
  proof (cases "t = current_thread s c")
    case True
    obtain s1 where "timer_cancel c (PreemptTimer c) s = Some s1" "kinv {} {} s1"
      "timer_state.more s1 = timer_state.more s" "\<And>b. PreemptTimer c \<notin> set (timer_queue s1 b)"
      by (rule timer_cancel_kinv [OF k mg, of c]) auto
    with True show ?thesis by (intro that [of s1]) simp_all
  next
    case False
    with k show ?thesis by (intro that [of s]) simp_all
  qed
  note e1 = timer_more [OF s1(3)] timer_more_aux [OF s1(3)]
  let ?v = "t_flags (threads s1 t) OR THREAD_FLAG_REAL_TIME"
  have so: "\<not> stack_overrun (threads s1 t)" using s1(2) by (simp add: kinv_def th_inv_def)
  have "kinv {} {} (upd_thread t (\<lambda>th. th\<lparr>t_flags := ?v\<rparr>) s1)"
  proof (rule kinv_upd_flags [OF s1(2)])
    show "\<not> stack_overrun ((threads s1 t)\<lparr>t_flags := ?v\<rparr>)"
      by (rule stack_overrun_flags [OF so]) (simp add: flag_or_bits)
    show "wq_list (wait_queues s1 (RetcodeWq t)) = []" if "?v AND THREAD_FLAG_DETACHED \<noteq> 0"
    proof -
      have "bit (t_flags (threads s1 t)) 0" using that by (simp add: flag_bits flag_or_bits)
      with s1(2) show ?thesis by (simp add: kinv_def join_inv_def flag_bits)
    qed
    show "PreemptTimer b \<notin> set (timer_queue s1 b)" if "cpu_up s1 b" "current_thread s1 b = t" for b
    proof (cases "t = current_thread s c")
      case True
      with that have "b = c" using kinv_current_inj [OF k _ _ up, of b] by (simp add: e1)
      with s1(4) True show ?thesis by simp
    next
      case False
      with here that kinv_cpu(3) [OF k, of b] show ?thesis by (auto simp: e1)
    qed
  qed (simp_all add: thread_flag_tests flag_or_bits)
  moreover have "upd_thread t (\<lambda>th. th\<lparr>t_flags := ?v\<rparr>) s1 =
      upd_thread t (\<lambda>th. th\<lparr>t_flags := t_flags th OR THREAD_FLAG_REAL_TIME\<rparr>) s1" by (simp add: upd_thread_def)
  moreover have "t_magic (threads s t) = THREAD_MAGIC" using kinv_thread_ok [OF k l] by (simp add: thread_ok_def)
  ultimately show ?thesis using s1(1)
    by (intro that [of "upd_thread t (\<lambda>th. th\<lparr>t_flags := ?v\<rparr>) s1"])
      (simp_all add: thread_set_real_time_def e1 flag_or_bits split del: if_split)
qed

lemma thread_resume_kinv:
  assumes k: "kinv {} {} s" and up: "cpu_up s c" and l: "live s t" and nd: "t_state (threads s t) \<noteq> THREAD_DEATH"
  obtains s' where "thread_resume c i t s = Some (NO_ERROR, s')" and "kinv {} {} s'"
    and "t_state (threads s t) = THREAD_SUSPENDED \<Longrightarrow> \<not> i \<Longrightarrow> runs_best c s'"
proof (cases "t_state (threads s t) = THREAD_SUSPENDED")
  case False
  let ?s' = "mp_reschedule c MP_CPU_ALL_BUT_LOCAL 0 s"
  have "thread_resume c i t s = Some (NO_ERROR, ?s')"
    using False nd kinv_thread_ok [OF k l] by (simp add: thread_resume_def thread_ok_def Let_def)
  with k False show ?thesis by (intro that [of ?s']) simp_all
next
  case True
  let ?s1 = "upd_thread t (\<lambda>th. th\<lparr>t_state := THREAD_READY\<rparr>) s"
  have ok: "thread_ok {} s t" by (rule kinv_thread_ok [OF k l])
  have id: "\<not> thread_is_idle (threads s t)" using kinv_idle_state [OF k l] True by auto
  have kt: "kinv {} {t} s" by (rule kinv_grow [OF k]) (use True in simp)
  have k1: "kinv {} {t} ?s1" by (rule kinv_upd [OF kt]) (use ok True in \<open>simp_all add: thread_ok_def\<close>)
  have nt: "ThreadTimer t \<notin> set (timer_queue s b)" for b
  proof
    assume "ThreadTimer t \<in> set (timer_queue s b)"
    with k have "thread_timer_ok s t" by (auto simp: kinv_def intro: timer_invD(6))
    with True have "block_frame s t \<noteq> None" by (auto simp: thread_timer_ok_def timed_wait_def)
    with frame_invD(3) [of "{}" s t] k l True show False by (simp add: kinv_def)
  qed
  obtain s2 where s2: "insert_in_run_queue_head t ?s1 = Some s2" "kinv {} ({t} - {t}) s2" "relinked t True ?s1 s2"
    by (rule insert_in_run_queue_head_kinv [where t = t, OF k1])
      (use l id nt ok True in \<open>simp_all add: thread_is_idle_def thread_ok_def\<close>)
  let ?s3 = "mp_reschedule c MP_CPU_ALL_BUT_LOCAL 0 s2"
  have k3: "kinv {} {} ?s3" and up3: "cpu_up ?s3 c" using s2 up by (simp_all add: relinked_sel(15) [OF s2(3)])
  obtain s' where s': "thread_yield c ?s3 = Some s'" "kinv {} {} s'" "runs_best c s'" by (rule thread_yield_kinv [OF k3 up3])
  have "thread_resume c i t s = Some (NO_ERROR, if i then ?s3 else s')"
    using True ok s2(1) s'(1) by (simp add: thread_resume_def thread_ok_def Let_def)
  with k3 s' show ?thesis by (intro that [of "if i then ?s3 else s'"]) simp_all
qed


text \<open>What the architecture's thread set-up may do: change the stack above the guard area, nothing else.\<close>

definition arch_init_ok :: "(thread \<Rightarrow> thread) \<Rightarrow> bool" where
  "arch_init_ok f \<longleftrightarrow> (\<forall>th. \<exists>st. f th = th\<lparr>t_stack := st\<rparr> \<and> (\<not> stack_overrun th \<longrightarrow> \<not> stack_overrun (f th)))"

lemma thread_create_etc_kinv:
  assumes k: "kinv {} {} s" and t: "\<not> live s t" "SMP_MAX_CPUS \<le> t"
    and ar: "arch_init_ok arch" and pr: "0 \<le> prio" "prio < int NUM_PRIORITIES"
    and m1: "topt = Some t \<or> topt = None \<and> mt = Some t"
    and m2: "stack \<noteq> None \<or> (\<exists>st. ms (stack_size + THREAD_STACK_PADDING_SIZE) = Some st)"
  obtains s' where "thread_create_etc arch mt ms topt name entry arg prio stack stack_size s = (Some t, s')"
    and "kinv {} {} s'" and "live s' t" and "t_state (threads s' t) = THREAD_SUSPENDED"
    and "priority (threads s' t) = prio" and "thread_list s' = t # thread_list s"
    and "\<And>x. x \<noteq> t \<Longrightarrow> threads s' x = threads s x" and "current_thread s' = current_thread s"
    and "block_frame s' = block_frame s" and "kstate.more s' = kstate.more s"
proof -
  have nid: "t \<noteq> idle_thread c" if "c < SMP_MAX_CPUS" for c using t(2) that by (simp add: idle_thread_def)
  define size where "size = (if stack = None then stack_size + THREAD_STACK_PADDING_SIZE else stack_size)"
  define fl where "fl = (let fl = (if topt = None then THREAD_FLAG_FREE_STRUCT else 0);
      fl = (if stack = None then fl OR THREAD_FLAG_DEBUG_STACK_BOUNDS_CHECK else fl)
    in if stack = None then fl OR THREAD_FLAG_FREE_STACK else fl)"
  obtain st0 where st0: "(case stack of None \<Rightarrow> ms size | Some st \<Rightarrow> Some st) = Some st0"
    using m2 by (cases stack) (auto simp: size_def)
  let ?st = "replicate size STACK_DEBUG_BYTE @ drop size st0"
  let ?s1 = "init_thread_struct t name s"
  let ?f2 = "\<lambda>th. th\<lparr>t_entry := entry, t_arg := arg, priority := prio,
                    t_state := THREAD_SUSPENDED, blocking_wait_queue := None, wait_queue_block_ret := NO_ERROR,
                    curr_cpu := -1, t_retcode := 0, t_aspace := None\<rparr>"
  let ?s2 = "upd_thread t ?f2 ?s1"
  let ?s3 = "wait_queue_init (RetcodeWq t) ?s2"
  let ?f4 = "\<lambda>th. th\<lparr>t_stack := Some ?st, t_stack_size := size, t_flags := fl\<rparr>"
  let ?s4 = "upd_thread t ?f4 ?s3"
  let ?s5 = "upd_thread t arch ?s4"
  let ?s6 = "?s5\<lparr>thread_list := t # thread_list ?s5\<rparr>"
  have "thread_create_etc arch mt ms topt name entry arg prio stack stack_size s = (Some t, ?s6)"
    using m1 st0 by (auto simp: thread_create_etc_def Let_def size_def fl_def)
  have z: "\<not> stack_overrun (zero_thread\<lparr>t_magic := m, pinned_cpu := p, t_name := n\<rparr>)" for m p n
    by (simp add: stack_overrun_def zero_thread_def)
  have k1: "kinv {} {} ?s1" unfolding init_thread_struct_def by (rule kinv_upd_dead [OF k t(1)]) (simp_all add: z)
  have z2: "\<not> stack_overrun (?f2 (threads ?s1 t))"
    by (simp add: init_thread_struct_def stack_overrun_def zero_thread_def)
  have k2: "kinv {} {} ?s2"
    by (rule kinv_upd_dead [OF k1]) (use t z2 in \<open>simp_all add: init_thread_struct_def\<close>)
  have em: "wq_list (wait_queues ?s2 (RetcodeWq t)) = []"
    using k2 t by (simp add: kinv_def join_inv_def init_thread_struct_def)
  have k3: "kinv {} {} ?s3" unfolding wait_queue_init_def
    by (rule kinv_upd_wq_empty [OF k2 em]) (simp_all add: WAIT_QUEUE_INITIAL_VALUE_def)
  have fb: "bit fl 5 \<Longrightarrow> stack = None" unfolding fl_def Let_def
    by (auto simp: thread_flag_defs bit_or_iff split: if_splits)
  have z4: "\<not> stack_overrun (?f4 (threads ?s3 t))"
    using fb by (auto simp: stack_overrun_def flag_bits size_def THREAD_STACK_PADDING_SIZE_def)
  have nl3: "\<not> live ?s3 t" using t by (simp add: wait_queue_init_def init_thread_struct_def)
  have k4: "kinv {} {} ?s4" by (rule kinv_upd_dead [OF k3 nl3]) (use z4 in simp_all)
  have so4: "\<not> stack_overrun (threads ?s4 t)" using z4 by simp
  obtain st' where ar': "arch (threads ?s4 t) = (threads ?s4 t)\<lparr>t_stack := st'\<rparr>" "\<not> stack_overrun (arch (threads ?s4 t))"
    using ar so4 unfolding arch_init_ok_def by blast
  have nl4: "\<not> live ?s4 t" using nl3 by simp
  have k5: "kinv {} {} ?s5" by (rule kinv_upd_dead [OF k4 nl4]) (use ar' in simp_all)
  have th5: "threads ?s5 t = (threads ?s4 t)\<lparr>t_stack := st'\<rparr>" using ar' by simp
  have fields: "t_magic (threads ?s5 t) = THREAD_MAGIC" "priority (threads ?s5 t) = prio"
    "\<not> queue_node (threads ?s5 t)" "blocking_wait_queue (threads ?s5 t) = None"
    "t_state (threads ?s5 t) = THREAD_SUSPENDED" "t_flags (threads ?s5 t) = fl"
    unfolding th5 by (simp_all add: wait_queue_init_def init_thread_struct_def zero_thread_def)
  have nb: "\<not> bit fl 4" unfolding fl_def Let_def by (auto simp: thread_flag_defs bit_or_iff split: if_splits)
  have "kinv {} {} ?s6"
    by (rule kinv_add_thread [OF k5 _ nid]) (use nl4 fields pr nb in
      \<open>simp_all add: thread_flag_tests wait_queue_init_def WAIT_QUEUE_INITIAL_VALUE_def\<close>)
  with \<open>thread_create_etc arch mt ms topt name entry arg prio stack stack_size s = (Some t, ?s6)\<close> show ?thesis
    by (rule that) (use fields in \<open>simp_all add: live_def wait_queue_init_def init_thread_struct_def\<close>)
qed

lemma kinv_magic0:
  assumes "kinv sw D s" and "\<not> live s t"
  shows "kinv sw D (upd_thread t (\<lambda>th. th\<lparr>t_magic := 0\<rparr>) s)"
proof (rule kinv_upd_dead [OF assms])
  have "\<not> stack_overrun (threads s t)" using assms(1) by (simp add: kinv_def th_inv_def)
  then show "\<not> stack_overrun ((threads s t)\<lparr>t_magic := 0\<rparr>)" by (simp add: stack_overrun_def)
qed

lemma no_timer_when_dead:
  assumes k: "kinv sw D s" and l: "live s t" and nD: "t \<notin> D" and st: "t_state (threads s t) = THREAD_DEATH"
  shows "block_frame s t = None" and "ThreadTimer t \<notin> set (timer_queue s b)"
proof -
  show fr: "block_frame s t = None"
    using frame_invD(3) [of D s t] k l nD st by (cases "block_frame s t") (simp_all add: kinv_def)
  show "ThreadTimer t \<notin> set (timer_queue s b)"
  proof
    assume "ThreadTimer t \<in> set (timer_queue s b)"
    with k nD have "thread_timer_ok s t" by (auto simp: kinv_def intro: timer_invD(6))
    with fr st show False by (simp add: thread_timer_ok_def timed_wait_def)
  qed
qed

lemma thread_join_finish_kinv:
  assumes k: "kinv {} {} s" and l: "live s t" and st: "t_state (threads s t) = THREAD_DEATH"
  obtains s' where "thread_join_finish t s = Some ((NO_ERROR, Some (t_retcode (threads s t))), s')"
    and "kinv {} {} s'" and "\<not> live s' t" and "\<And>x. x \<noteq> t \<Longrightarrow> live s' x = live s x"
    and "current_thread s' = current_thread s" "block_frame s' = block_frame s" "kstate.more s' = kstate.more s"
    and "\<And>x. x \<noteq> t \<Longrightarrow> threads s' x = threads s x"
proof -
  have ok: "thread_ok {} s t" by (rule kinv_thread_ok [OF k l])
  have id: "\<not> thread_is_idle (threads s t)" using kinv_idle_state [OF k l] st by auto
  have kt: "kinv {} {t} s" by (rule kinv_grow [OF k]) (use st in simp)
  note nt = no_timer_when_dead [OF k l _ st]
  let ?s1 = "s\<lparr>thread_list := remove1 t (thread_list s)\<rparr>"
  have "wq_list (wait_queues s (RetcodeWq t)) = []" using k st by (simp add: kinv_def join_inv_def)
  then have "kinv {} ({t} - {t}) ?s1" by (intro kinv_remove_thread [OF kt]) (use id l nt in simp_all)
  then have k1: "kinv {} {} ?s1" by simp
  have dl: "distinct (thread_list s)" using k by (simp add: kinv_def th_inv_def)
  have l1: "live ?s1 x \<longleftrightarrow> x \<noteq> t \<and> live s x" for x using dl by (auto simp: live_def set_remove1_eq)
  let ?s2 = "upd_thread t (\<lambda>th. th\<lparr>t_magic := 0\<rparr>) ?s1"
  have k2: "kinv {} {} ?s2" by (rule kinv_magic0 [OF k1]) (simp_all add: l1)
  let ?s3 = "if t_flags (threads ?s2 t) AND THREAD_FLAG_FREE_STACK \<noteq> 0 \<and> t_stack (threads ?s2 t) \<noteq> None
                then ?s2\<lparr>freed := freed ?s2 @ [Free_stack t]\<rparr> else ?s2"
  let ?s4 = "if t_flags (threads ?s3 t) AND THREAD_FLAG_FREE_STRUCT \<noteq> 0
                then ?s3\<lparr>freed := freed ?s3 @ [Free_thread t]\<rparr> else ?s3"
  have "thread_join_finish t s = Some ((NO_ERROR, Some (t_retcode (threads s t))), ?s4)"
    using ok st unfolding thread_join_finish_def Let_def thread_ok_def by simp
  moreover have "kinv {} {} ?s4" using k2 by (simp split del: if_split) (simp split: if_split)
  ultimately show ?thesis
    by (rule that) (use l1 in \<open>simp_all add: live_def\<close>)
qed


lemma thread_detach_kinv:
  assumes k: "kinv {} {} s" and up: "cpu_up s c" and l: "live s t"
  obtains s' where "thread_detach c t s = Some (Ret NO_ERROR, s')" and "kinv {} {} s'"
    and "t_state (threads s t) = THREAD_DEATH \<Longrightarrow> \<not> live s' t"
    and "t_state (threads s t) \<noteq> THREAD_DEATH \<Longrightarrow> live s' t \<and> bit (t_flags (threads s' t)) 0"
    and "current_thread s' = current_thread s" "block_frame s' = block_frame s"
proof -
  have ok: "thread_ok {} s t" by (rule kinv_thread_ok [OF k l])
  have mg: "wq_magic (wait_queues s (RetcodeWq t)) = WAIT_QUEUE_MAGIC" using ok by (simp add: thread_ok_def)
  let ?ts = "wq_list (wait_queues s (RetcodeWq t))"
  obtain s1 where s1: "wait_queue_wake_all c (RetcodeWq t) False ERR_THREAD_DETACHED s = Some (int (length ?ts), s1)"
    "kinv {} {} s1" "woken (set ?ts) ERR_THREAD_DETACHED s s1"
    "wait_queues s1 = (wait_queues s)(RetcodeWq t := (wait_queues s (RetcodeWq t))\<lparr>wq_list := [], wq_count := 0\<rparr>)"
    "current_thread s1 = current_thread s" "\<forall>x. x \<notin> set ?ts \<longrightarrow> threads s1 x = threads s x"
    by (rule wait_queue_wake_all_kinv [OF k up mg, of False ERR_THREAD_DETACHED]) simp_all
  have l1: "live s1 x = live s x" for x using s1(3) by (simp add: woken_def live_def)
  have fr1: "block_frame s1 = block_frame s" using s1(3) by (simp add: woken_def)
  have so1: "\<not> stack_overrun (threads s1 x)" for x using s1(2) by (simp add: kinv_def th_inv_def)
  have st1: "t_state (threads s1 t) = THREAD_DEATH \<longleftrightarrow> t_state (threads s t) = THREAD_DEATH"
  proof (cases "t \<in> set ?ts")
    case True
    then have "t_state (threads s t) = THREAD_BLOCKED" using kinv_waiter(3) [OF k] by blast
    moreover have "awake (t_state (threads s1 t))" using s1(3) True by (simp add: woken_def wake_state_def)
    ultimately show ?thesis by (auto simp: awake_def)
  qed (use s1(6) in simp)
  have mg1: "t_magic (threads s t) = THREAD_MAGIC" using ok by (simp add: thread_ok_def)
  show ?thesis
  proof (cases "t_state (threads s t) = THREAD_DEATH")
    case True
    with k have em: "?ts = []" by (simp add: kinv_def join_inv_def)
    let ?v = "t_flags (threads s1 t) AND NOT THREAD_FLAG_DETACHED"
    let ?s2 = "upd_thread t (\<lambda>th. th\<lparr>t_flags := ?v\<rparr>) s1"
    have k2: "kinv {} {} ?s2"
    proof (rule kinv_upd_flags [OF s1(2)])
      show "\<not> stack_overrun ((threads s1 t)\<lparr>t_flags := ?v\<rparr>)"
        by (rule stack_overrun_flags [OF so1]) (simp add: flag_or_bits)
      show "PreemptTimer b \<notin> set (timer_queue s1 b)" if "cpu_up s1 b" "current_thread s1 b = t" "b \<notin> {}" for b
        using kinv_cpu(3) [OF s1(2) that(1,3)] that(2) True st1 by simp
    qed (simp_all add: thread_flag_tests flag_or_bits flag_bits)
    have e2: "upd_thread t (\<lambda>th. th\<lparr>t_flags := t_flags th AND NOT THREAD_FLAG_DETACHED\<rparr>) s1 = ?s2"
      by (simp add: upd_thread_def)
    have l2: "live ?s2 t" and d2: "t_state (threads ?s2 t) = THREAD_DEATH" using l l1 True st1 by simp_all
    obtain s3 where s3: "thread_join_finish t ?s2 = Some ((NO_ERROR, Some (t_retcode (threads ?s2 t))), s3)"
      "kinv {} {} s3" "\<not> live s3 t" "current_thread s3 = current_thread ?s2" "block_frame s3 = block_frame ?s2"
      by (rule thread_join_finish_kinv [OF k2 l2 d2])
    have mg2: "t_magic (threads ?s2 t) = THREAD_MAGIC" using kinv_thread_ok [OF k2 l2] by (simp add: thread_ok_def)
    have nd: "t_flags (threads ?s2 t) AND THREAD_FLAG_DETACHED = 0"
      using flag_bits(1) [of ?v] flag_or_bits(4) [of "t_flags (threads s1 t)" 0] by simp
    have "thread_join c t 0 ?s2 = Some (Ret (NO_ERROR, Some (t_retcode (threads ?s2 t))), s3)"
      unfolding thread_join_def using mg2 nd d2 s3(1) by simp
    then have "thread_detach c t s = Some (Ret NO_ERROR, s3)"
      unfolding thread_detach_def Let_def e2 using mg1 s1(1) True st1 by (simp add: e2)
    with s3 True s1(5) fr1 show ?thesis by (intro that [of s3]) simp_all
  next
    case False
    let ?v = "t_flags (threads s1 t) OR THREAD_FLAG_DETACHED"
    let ?s2 = "upd_thread t (\<lambda>th. th\<lparr>t_flags := ?v\<rparr>) s1"
    have ti: "timer_inv {} {} s1" using s1(2) by (simp add: kinv_def)
    have k2: "kinv {} {} ?s2"
    proof (rule kinv_upd_flags [OF s1(2)])
      show "\<not> stack_overrun ((threads s1 t)\<lparr>t_flags := ?v\<rparr>)"
        by (rule stack_overrun_flags [OF so1]) (simp add: flag_or_bits)
      show "PreemptTimer b \<notin> set (timer_queue s1 b)"
        if "cpu_up s1 b" "current_thread s1 b = t" "thread_is_real_time_or_idle ((threads s1 t)\<lparr>t_flags := ?v\<rparr>)" for b
        using timer_invD(5) [OF ti, of b b] that by (auto simp: thread_flag_tests flag_or_bits)
    qed (use s1(4) in \<open>simp_all add: thread_flag_tests flag_or_bits\<close>)
    have e2: "upd_thread t (\<lambda>th. th\<lparr>t_flags := t_flags th OR THREAD_FLAG_DETACHED\<rparr>) s1 = ?s2"
      by (simp add: upd_thread_def)
    have "thread_detach c t s = Some (Ret NO_ERROR, ?s2)"
      unfolding thread_detach_def Let_def e2 using mg1 s1(1) False st1 by (simp add: e2)
    with k2 False show ?thesis
      by (intro that [of ?s2]) (use l l1 s1(5) fr1 in \<open>simp_all add: flag_or_bits\<close>)
  qed
qed

lemma wokenD:
  assumes "woken ts err s s'" and "x \<in> ts"
  shows "thread_same (make_ready err (threads s x)) (threads s' x)" and "awake (t_state (threads s' x))"
proof -
  have "thread_same (if x \<in> ts then make_ready err (threads s x) else threads s x) (threads s' x)"
    "wake_state (x \<in> ts) (t_state (threads s x)) (t_state (threads s' x))"
    using assms(1) unfolding woken_def by (elim conjE, blast)+
  with assms(2) show "thread_same (make_ready err (threads s x)) (threads s' x)" "awake (t_state (threads s' x))"
    by (simp_all add: wake_state_def)
qed

text \<open>A thread exits: its status reaches the thread that joins it, or its structure is given back at once.\<close>

lemma thread_exit_teardown_kinv:
  assumes k: "kinv {c} {t} s" and l: "live s t" and id: "\<not> thread_is_idle (threads s t)"
    and wq: "wq_list (wait_queues s (RetcodeWq t)) = []" and fr: "block_frame s t = None"
    and nt: "\<And>b. ThreadTimer t \<notin> set (timer_queue s b)"
  defines "s' \<equiv> thread_exit_teardown t s"
  shows "kinv {c} {} s'" "\<not> live s' t" "current_thread s' = current_thread s" "timer_queue s' = timer_queue s"
    "t_state (threads s' t) = t_state (threads s t)" "curr_cpu (threads s' t) = curr_cpu (threads s t)"
    "may_run_on b (threads s' t) = may_run_on b (threads s t)"
    "thread_is_real_time_or_idle (threads s' t) = thread_is_real_time_or_idle (threads s t)"
    "\<And>x. x \<noteq> t \<Longrightarrow> live s' x = live s x" "\<And>x. x \<noteq> t \<Longrightarrow> threads s' x = threads s x" "block_frame s' = block_frame s"
proof -
  let ?s1 = "s\<lparr>thread_list := remove1 t (thread_list s)\<rparr>"
  have dl: "distinct (thread_list s)" using k by (simp add: kinv_def th_inv_def)
  have l1: "live ?s1 x \<longleftrightarrow> x \<noteq> t \<and> live s x" for x using dl by (auto simp: live_def set_remove1_eq)
  have "kinv {c} ({t} - {t}) ?s1" by (rule kinv_remove_thread [OF k]) (use assms in simp_all)
  then have k1: "kinv {c} {} ?s1" by simp
  let ?s2 = "upd_thread t (\<lambda>th. th\<lparr>t_magic := 0\<rparr>) ?s1"
  have k2: "kinv {c} {} ?s2" by (rule kinv_magic0 [OF k1]) (simp_all add: l1)
  let ?fl = "\<lambda>th. th\<lparr>t_flags := t_flags th AND NOT THREAD_FLAG_DEBUG_STACK_BOUNDS_CHECK\<rparr>"
  have so: "\<not> stack_overrun (threads ?s2 t)" using k2 unfolding kinv_def th_inv_def by blast
  have k3: "kinv {c} {} (upd_thread t ?fl (?s2\<lparr>freed := f\<rparr>))" for f
  proof (rule kinv_upd_dead)
    show "kinv {c} {} (?s2\<lparr>freed := f\<rparr>)" using k2 by simp
    show "\<not> live (?s2\<lparr>freed := f\<rparr>) t" using l1 [of t] by (simp add: live_def)
    show "\<not> stack_overrun (?fl (threads (?s2\<lparr>freed := f\<rparr>) t))"
      using stack_overrun_flags [OF so, of "t_flags (threads s t) AND NOT THREAD_FLAG_DEBUG_STACK_BOUNDS_CHECK"]
      by (simp add: flag_or_bits)
  qed
  show "kinv {c} {} s'" unfolding s'_def thread_exit_teardown_def Let_def using k2 k3 by simp
  show "\<not> live s' t" "current_thread s' = current_thread s" "timer_queue s' = timer_queue s"
    "t_state (threads s' t) = t_state (threads s t)" "curr_cpu (threads s' t) = curr_cpu (threads s t)"
    "may_run_on b (threads s' t) = may_run_on b (threads s t)"
    "thread_is_real_time_or_idle (threads s' t) = thread_is_real_time_or_idle (threads s t)"
    "\<And>x. x \<noteq> t \<Longrightarrow> live s' x = live s x" "\<And>x. x \<noteq> t \<Longrightarrow> threads s' x = threads s x" "block_frame s' = block_frame s"
    using l1 by (auto simp: s'_def thread_exit_teardown_def Let_def live_def may_run_on_def
        thread_flag_tests flag_or_bits)
qed

lemma thread_exit_kinv:
  assumes k: "kinv {} {} s" and up: "cpu_up s c" and t: "t = current_thread s c"
    and id: "\<not> thread_is_idle (threads s t)" and fr: "block_frame s t = None"
  obtains s' where "thread_exit c rc s = Some s'" and "kinv {} {} s'" and "runs_best c s'"
    and "bit (t_flags (threads s t)) 0 \<Longrightarrow> \<not> live s' t"
    and "\<not> bit (t_flags (threads s t)) 0 \<Longrightarrow> live s' t \<and> t_state (threads s' t) = THREAD_DEATH \<and>
        t_retcode (threads s' t) = rc \<and> t_flags (threads s' t) = t_flags (threads s t)"
    and "\<not> bit (t_flags (threads s t)) 0 \<Longrightarrow>
       \<forall>x \<in> set (wq_list (wait_queues s (RetcodeWq t))). awake (t_state (threads s' x)) \<and> wait_queue_block_ret (threads s' x) = 0"
proof -
  note cur = kinv_cpu [OF k up, folded t] kinv_current [OF k up, folded t]
  let ?f = "\<lambda>th. th\<lparr>t_state := THREAD_DEATH, t_retcode := rc\<rparr>"
  let ?s1 = "upd_thread t ?f s"
  have k1: "kinv {c} {t} ?s1" and sw1: "switching c ?s1"
    by (rule give_up_cpu [OF k up t]; use cur in simp)+
  have nt: "ThreadTimer t \<notin> set (timer_queue s b)" for b using no_timer_while_running [OF k up] fr unfolding t by simp
  have d1: "t_flags (threads ?s1 t) = t_flags (threads s t)" "t_state (threads ?s1 t) = THREAD_DEATH" by simp_all
  show ?thesis
  proof (cases "bit (t_flags (threads s t)) 0")
    case True
    let ?s2 = "thread_exit_teardown t ?s1"
    have em: "wq_list (wait_queues ?s1 (RetcodeWq t)) = []"
      using k True by (simp add: kinv_def join_inv_def flag_bits)
    note td = thread_exit_teardown_kinv [OF k1 _ _ em]
    have pre: "live ?s1 t" "\<not> thread_is_idle (threads ?s1 t)" "block_frame ?s1 t = None"
      "\<And>b. ThreadTimer t \<notin> set (timer_queue ?s1 b)" using cur id fr nt by (simp_all add: thread_is_idle_def)
    note td = td [OF pre]
    have up2: "cpu_up ?s2 c"
    proof -
      have "t \<noteq> idle_thread c" using k up id unfolding kinv_def cpu_inv_def by blast
      then show ?thesis using up td(9) [of "idle_thread c"] by (simp add: cpu_up_def)
    qed
    have cur1: "current_thread ?s1 c = t" by (simp only: upd_thread_sel t [symmetric])
    then have cur2: "current_thread ?s2 c = t" by (simp only: td(3))
    have sw2: "switching c ?s2"
      using sw1 up2 unfolding switching_def cur1 cur2 td(4-8) by blast
    obtain s' new where s': "thread_resched c ?s2 = Some s'" "kinv {} {} s'" "resched_to c new ?s2 s'"
      by (rule thread_resched_kinv [OF td(1) sw2])
    have ne: "new \<noteq> t" using s'(3) td(2) by (auto simp: resched_to_def)
    have "current_thread s' c \<noteq> t" using s'(3) ne by (simp add: resched_to_def)
    then have "thread_exit c rc s = Some s'"
      using cur id s'(1) True d1 unfolding thread_exit_def Let_def t [symmetric] by (simp add: flag_bits)
    moreover have "\<not> live s' t" using s'(3) td(2) by (simp add: resched_to_def live_def)
    ultimately show ?thesis using s' True resched_to_best [OF s'(3)] by (intro that [of s']) simp_all
  next
    case False
    let ?ts = "wq_list (wait_queues s (RetcodeWq t))"
    have mg: "wq_magic (wait_queues s (RetcodeWq t)) = WAIT_QUEUE_MAGIC"
      using kinv_thread_ok [OF k cur(1)] by (simp add: thread_ok_def)
    have l1: "wq_list (wait_queues ?s1 (RetcodeWq t)) = ?ts" by simp
    have nin: "t \<notin> set ?ts" using kinv_waiter(3) [OF k, of t "RetcodeWq t"] cur(3) by auto
    from wake_all_loop_kinv [OF k1 l1, of 0 c] obtain s2 where s2: "wake_all_loop (RetcodeWq t) 0 ?ts ?s1 = Some s2"
      "kinv {c} {t} s2" "woken (set ?ts) 0 ?s1 s2"
      "wait_queues s2 = (wait_queues ?s1)(RetcodeWq t := (wait_queues ?s1 (RetcodeWq t))\<lparr>wq_list := [], wq_count := 0\<rparr>)"
      "current_thread s2 = current_thread ?s1" "\<forall>x. x \<notin> set ?ts \<longrightarrow> threads s2 x = threads ?s1 x"
      "switching c ?s1 \<longrightarrow> current_thread ?s1 c \<notin> set ?ts \<longrightarrow> switching c s2"
      by (elim exE conjE)
    let ?s3 = "if ?ts = [] then s2 else mp_reschedule c MP_CPU_ALL_BUT_LOCAL 0 s2"
    have wa: "wait_queue_wake_all c (RetcodeWq t) False 0 ?s1 = Some (int (length ?ts), ?s3)"
      using mg s2(1,4) by (simp add: wait_queue_wake_all_def Let_def)
    have th2: "threads s2 t = threads ?s1 t" using s2(6) nin by simp
    have same3: "threads ?s3 = threads s2" "thread_list ?s3 = thread_list s2" "current_thread ?s3 = current_thread s2"
      "wait_queues ?s3 = wait_queues s2" "block_frame ?s3 = block_frame s2" "timer_queue ?s3 = timer_queue s2" by simp_all
    have "kinv {c} ({t} - {t}) s2"
      by (rule kinv_settle [OF s2(2)]) (use th2 id s2(3,4) cur fr nt in
        \<open>simp_all add: thread_is_idle_def woken_def\<close>)
    then have k3: "kinv {c} {} ?s3" by simp
    have sw3: "switching c ?s3" using s2(7) sw1 nin t by simp
    obtain s' new where s': "thread_resched c ?s3 = Some s'" "kinv {} {} s'" "resched_to c new ?s3 s'"
      by (rule thread_resched_kinv [OF k3 sw3])
    have rd: "t_state (threads ?s3 new) = THREAD_READY" using s'(3) by (simp add: resched_to_def)
    have ne: "new \<noteq> t" using rd th2 unfolding same3 by auto
    have "current_thread s' c \<noteq> t" using s'(3) ne by (simp add: resched_to_def)
    then have ex: "thread_exit c rc s = Some s'"
      using cur id s'(1) False d1 wa unfolding thread_exit_def Let_def t [symmetric] by (simp add: flag_bits)
    have th': "thread_same (threads s2 x) (threads s' x)" "t_state (threads s' x) = (if x = new then THREAD_RUNNING else t_state (threads s2 x))" for x
      using s'(3) unfolding resched_to_def same3 by (elim conjE, blast)+
    have lv: "live s' t" using s'(3) s2(3) cur(1) unfolding resched_to_def woken_def same3 by (simp add: live_def)
    have "awake (t_state (threads s' x)) \<and> wait_queue_block_ret (threads s' x) = 0" if "x \<in> set ?ts" for x
    proof -
      have "thread_same (make_ready 0 (threads ?s1 x)) (threads s2 x)" "awake (t_state (threads s2 x))"
        by (rule wokenD [OF s2(3) that])+
      then show ?thesis using th' [of x] by (auto simp: thread_same_def make_ready_def awake_def)
    qed
    moreover have "t_retcode (threads s' t) = rc" "t_state (threads s' t) = THREAD_DEATH"
      "t_flags (threads s' t) = t_flags (threads s t)"
      using th' [of t] ne th2 by (simp_all add: thread_same_def)
    ultimately show ?thesis using s'(2) ex lv False resched_to_best [OF s'(3)] by (intro that [of s']) simp_all
  qed
qed

section \<open>Boot\<close>

text \<open>The memory the boot loader hands over: the kernel's data is zero.\<close>

definition bss :: "'a kstate_scheme \<Rightarrow> bool" where
  "bss s \<longleftrightarrow> (\<forall>t. threads s t = zero_thread) \<and> (\<forall>p\<ge>NUM_PRIORITIES. run_queue s p = []) \<and>
     run_queue_bitmap s = 0 \<and> (\<forall>w. wait_queues s w = \<lparr>wq_magic = 0, wq_list = [], wq_count = 0\<rparr>) \<and>
     (\<forall>t. block_frame s t = None) \<and> (\<forall>c\<ge>SMP_MAX_CPUS. timer_queue s c = [])"

definition kernel_init :: "'a kstate_scheme \<Rightarrow> 'a kstate_scheme" where
  "kernel_init s = timer_init SMP_MAX_CPUS (thread_init s)"

lemma thread_init_timers:
  "timers (fold (\<lambda>i. timer_initialize (PreemptTimer i)) is s) tm =
     (if tm \<in> PreemptTimer ` set is then TIMER_INITIAL_VALUE else timers s tm)"
  "timer_queue (fold (\<lambda>i. timer_initialize (PreemptTimer i)) is s) = timer_queue s"
  "timer_state.more (fold (\<lambda>i. timer_initialize (PreemptTimer i)) is s) = timer_state.more s"
  by (induction "is" arbitrary: s) (auto simp: timer_initialize_def)

lemma kernel_init_more:
  "timer_state.more (kernel_init s) = timer_state.more s"
  "tm_magic (timers (kernel_init s) (PreemptTimer c)) =
     (if c < SMP_MAX_CPUS then TIMER_MAGIC else tm_magic (timers s (PreemptTimer c)))"
  "timer_queue (kernel_init s) c = (if c < SMP_MAX_CPUS then [] else timer_queue s c)"
  by (auto simp: kernel_init_def timer_init_def thread_init_def thread_init_timers TIMER_INITIAL_VALUE_def)

text \<open>Only the bootstrap thread exists when it turns into the idle thread of the first cpu.\<close>

lemma kinv_bootstrap:
  assumes tl: "thread_list s = [idle_thread 0]"
    and th: "\<And>t. t \<noteq> idle_thread 0 \<Longrightarrow> threads s t = zero_thread"
    and t0: "t_magic (threads s (idle_thread 0)) = THREAD_MAGIC" "\<not> queue_node (threads s (idle_thread 0))"
      "priority (threads s (idle_thread 0)) = 0" "t_state (threads s (idle_thread 0)) = THREAD_RUNNING"
      "bit (t_flags (threads s (idle_thread 0))) 4" "\<not> bit (t_flags (threads s (idle_thread 0))) 5"
      "curr_cpu (threads s (idle_thread 0)) = 0" "pinned_cpu (threads s (idle_thread 0)) = 0"
      "blocking_wait_queue (threads s (idle_thread 0)) = None"
    and rq: "\<And>p. run_queue s p = []" "run_queue_bitmap s = 0"
    and wq: "\<And>w. wq_list (wait_queues s w) = []" "\<And>w. wq_count (wait_queues s w) = 0"
      "wq_magic (wait_queues s (RetcodeWq (idle_thread 0))) = WAIT_QUEUE_MAGIC"
    and fr: "\<And>t. block_frame s t = None" and cur: "current_thread s 0 = idle_thread 0"
    and tm: "\<And>c. timer_queue s c = []" "\<And>c. c < SMP_MAX_CPUS \<Longrightarrow> tm_magic (timers s (PreemptTimer c)) = TIMER_MAGIC"
  shows "kinv {} {} s"
proof -
  have l: "live s t \<longleftrightarrow> t = idle_thread 0" for t by (simp add: live_def tl)
  have up: "cpu_up s c \<longleftrightarrow> c = 0" for c by (auto simp: cpu_up_def l idle_thread_def SMP_MAX_CPUS_def)
  have so: "\<not> stack_overrun (threads s t)" for t
    using th [of t] t0(6) by (cases "t = idle_thread 0") (auto simp: stack_overrun_def flag_bits zero_thread_def)
  have "rq_inv {} s" using t0 by (auto simp: rq_inv_def rq l)
  moreover have "wq_inv {} s" using t0 by (auto simp: wq_inv_def wq l)
  moreover have "th_inv {} s"
    using t0 so wq(3) by (auto simp: th_inv_def thread_ok_def l tl NUM_PRIORITIES_def SMP_MAX_CPUS_def intro!: exI [of _ 0])
  moreover have "join_inv {} s" by (simp add: join_inv_def wq)
  moreover have "cpu_inv {} {} s" using t0 cur by (simp add: cpu_inv_def up l may_run_on_def thread_flag_tests)
  moreover have "frame_inv {} s" using fr t0 by (simp add: frame_inv_def l)
  moreover have "timer_inv {} {} s"
    by (rule timer_invI) (use t0 in \<open>auto simp: tm l timed_wait_def fr\<close>)
  ultimately show ?thesis by (simp add: kinv_def)
qed

lemma boot_kinv:
  assumes "bss s"
  obtains s' where "thread_become_idle 0 (kernel_init (thread_init_early s)) = Some s'" and "kinv {} {} s'"
    and "thread_list s' = [idle_thread 0]"
proof -
  define s1 where "s1 = thread_init_early s"
  define s2 where "s2 = kernel_init s1"
  let ?t = "idle_thread 0"
  note m2 = timer_more [OF kernel_init_more(1) [of s1], folded s2_def]
  have cur1: "current_thread s1 0 = ?t" by (simp add: s1_def thread_init_early_def Let_def)
  let ?f = "\<lambda>th. th\<lparr>priority := 0, t_flags := t_flags th OR THREAD_FLAG_IDLE, pinned_cpu := int 0\<rparr>"
  define s3 where "s3 = mp_set_cpu_idle 0 (mp_set_curr_cpu_active 0 (upd_thread ?t ?f (thread_set_name 0 (''idle '' @ digit_string 0) s2)))"
  have b: "thread_become_idle 0 s2 = thread_yield 0 s3" by (simp add: thread_become_idle_def Let_def cur1 m2 s3_def)
  have th1: "threads s1 = (threads s)(?t := zero_thread\<lparr>t_magic := THREAD_MAGIC, pinned_cpu := 0, t_name := ''bootstrap'',
      priority := 31, t_state := THREAD_RUNNING, t_flags := THREAD_FLAG_DETACHED, curr_cpu := 0\<rparr>)"
    by (simp add: s1_def thread_init_early_def Let_def init_thread_struct_def wait_queue_init_def zero_thread_def)
  have f3: "timers s3 = timers s2" "timer_queue s3 = timer_queue s2" "thread_list s3 = thread_list s2"
    "run_queue s3 = run_queue s2" "run_queue_bitmap s3 = run_queue_bitmap s2" "wait_queues s3 = wait_queues s2"
    "block_frame s3 = block_frame s2" "current_thread s3 = current_thread s2"
    "threads s3 = (threads s2)(?t := ?f ((threads s2 ?t)\<lparr>t_name := take 31 (''idle '' @ digit_string 0)\<rparr>))"
    by (simp_all add: s3_def mp_set_cpu_idle_def mp_set_curr_cpu_active_def thread_set_name_def cur1 m2)
  have one: "thread_list s1 = [?t]" "run_queue s1 p = []" "run_queue_bitmap s1 = 0"
    "wait_queues s1 = (wait_queues s)(RetcodeWq ?t := WAIT_QUEUE_INITIAL_VALUE)" "block_frame s1 t = None"
    "timer_queue s1 = timer_queue s" for p t
    using assms by (simp_all add: s1_def thread_init_early_def Let_def init_thread_struct_def wait_queue_init_def bss_def)
  have tq: "timer_queue s2 c = []" for c using assms by (simp add: s2_def kernel_init_more one bss_def)
  have tmg: "c < SMP_MAX_CPUS \<Longrightarrow> tm_magic (timers s2 (PreemptTimer c)) = TIMER_MAGIC" for c
    by (simp add: s2_def kernel_init_more)
  have fl: "t_flags (threads s3 ?t) = THREAD_FLAG_DETACHED OR THREAD_FLAG_IDLE" by (simp add: f3 m2 th1)
  have k3: "kinv {} {} s3"
  proof (rule kinv_bootstrap)
    show "bit (t_flags (threads s3 ?t)) 4" "\<not> bit (t_flags (threads s3 ?t)) 5"
      unfolding fl flag_or_bits by (simp_all add: THREAD_FLAG_DETACHED_def)
    show "threads s3 t = zero_thread" if "t \<noteq> idle_thread 0" for t using that assms by (simp add: f3 m2 th1 bss_def)
    show "wq_list (wait_queues s3 w) = []" "wq_count (wait_queues s3 w) = 0" for w
      using assms by (simp_all add: f3 m2 one bss_def WAIT_QUEUE_INITIAL_VALUE_def)
  qed (simp_all add: f3 m2 one cur1 th1 tq tmg zero_thread_def WAIT_QUEUE_INITIAL_VALUE_def)
  have up3: "cpu_up s3 0" by (simp add: cpu_up_def live_def f3 m2 one SMP_MAX_CPUS_def)
  obtain s' where s': "thread_yield 0 s3 = Some s'" "kinv {} {} s'" "thread_list s' = thread_list s3"
    by (rule thread_yield_kinv [OF k3 up3])
  have tl: "thread_list s' = [?t]" by (simp add: s'(3) f3 m2 one)
  have "thread_become_idle 0 (kernel_init (thread_init_early s)) = Some s'"
    using b s'(1) by (simp only: s2_def s1_def)
  from this s'(2) tl show ?thesis by (rule that)
qed

text \<open>Another cpu joins: it runs its own idle thread.\<close>

lemma secondary_init_kinv:
  assumes k: "kinv {} {} s" and c: "c < SMP_MAX_CPUS" and nl: "\<not> live s (idle_thread c)"
  shows "kinv {} {} (thread_secondary_cpu_init_early c s)" (is "kinv {} {} ?s")
    and "cpu_up (thread_secondary_cpu_init_early c s) c"
proof -
  let ?t = "idle_thread c"
  define T where "T = zero_thread\<lparr>t_magic := THREAD_MAGIC, pinned_cpu := int c, t_name := take 31 (''idle '' @ digit_string c),
    priority := 31, t_state := THREAD_RUNNING, t_flags := THREAD_FLAG_DETACHED OR THREAD_FLAG_IDLE, curr_cpu := int c\<rparr>"
  have e: "threads ?s = (threads s)(?t := T)" "thread_list ?s = ?t # thread_list s" "run_queue ?s = run_queue s"
    "run_queue_bitmap ?s = run_queue_bitmap s" "wait_queues ?s = (wait_queues s)(RetcodeWq ?t := WAIT_QUEUE_INITIAL_VALUE)"
    "current_thread ?s = (current_thread s)(c := ?t)" "block_frame ?s = block_frame s" "timers ?s = timers s"
    "timer_queue ?s = timer_queue s"
    by (simp_all add: T_def thread_secondary_cpu_init_early_def Let_def init_thread_struct_def wait_queue_init_def zero_thread_def)
  have T: "thread_is_idle T" "t_magic T = THREAD_MAGIC" "priority T = 31" "t_state T = THREAD_RUNNING" "curr_cpu T = int c"
    "pinned_cpu T = int c" "\<not> queue_node T" "blocking_wait_queue T = None" "may_run_on c T" "\<not> stack_overrun T"
    unfolding thread_flag_tests stack_overrun_def flag_bits
    by (simp_all add: T_def flag_or_bits zero_thread_def may_run_on_def) (simp add: THREAD_FLAG_DETACHED_def)
  have l: "live ?s x \<longleftrightarrow> x = ?t \<or> live s x" for x by (auto simp: live_def e)
  have up: "cpu_up ?s b \<longleftrightarrow> b = c \<or> cpu_up s b" for b using c by (auto simp: cpu_up_def l idle_thread_def)
  have ncup: "\<not> cpu_up s c" using nl by (simp add: cpu_up_def)
  show "cpu_up ?s c" by (simp add: up)
  have em: "wq_list (wait_queues s (RetcodeWq ?t)) = []" using k nl unfolding kinv_def join_inv_def by blast
  have nfr: "block_frame s ?t = None"
    using k nl frame_invD(1) [of "{}" s ?t] by (cases "block_frame s ?t") (simp_all add: kinv_def)
  have wq: "wq_list (wait_queues ?s w) = wq_list (wait_queues s w)" for w
    using em by (simp add: e WAIT_QUEUE_INITIAL_VALUE_def)
  have wc: "wq_count (wait_queues ?s w) = int (length (wq_list (wait_queues s w)))" for w
    using em k wq_invD(3) [of "{}" s w] by (simp add: e WAIT_QUEUE_INITIAL_VALUE_def kinv_def)
  have curt: "current_thread s b \<noteq> ?t" if "cpu_up s b" for b using kinv_cpu(1) [OF k that] nl by auto
  have "rq_inv {} ?s" using k T nl unfolding kinv_def rq_inv_def l e by auto
  moreover have "wq_inv {} ?s"
    using k T nl em unfolding kinv_def wq_inv_def l wq wc e(1) by (auto simp: e(5) WAIT_QUEUE_INITIAL_VALUE_def)
  moreover have "th_inv {} ?s"
    using k T nl c unfolding kinv_def th_inv_def thread_ok_def l e
    by (auto simp: live_def NUM_PRIORITIES_def WAIT_QUEUE_INITIAL_VALUE_def)
  moreover have "join_inv {} ?s" using k T nl em unfolding kinv_def join_inv_def l wq e(1) by auto
  moreover have "cpu_inv {} {} ?s"
  proof -
    have ci: "cpu_inv {} {} s" using k by (simp add: kinv_def)
    have idl: "threads ?s (idle_thread b) = threads s (idle_thread b)" if "cpu_up s b" for b
      using that ncup by (auto simp: e(1) idle_thread_def)
    have cb: "current_thread ?s b = current_thread s b" "threads ?s (current_thread s b) = threads s (current_thread s b)"
      if "cpu_up s b" for b using that ncup curt [OF that] by (auto simp: e)
    have run: "\<exists>b. (b = c \<or> cpu_up s b) \<and> current_thread ?s b = x"
      if "x = ?t \<or> live s x" "t_state (threads ?s x) = THREAD_RUNNING" for x
    proof (cases "x = ?t")
      case True
      then show ?thesis by (auto simp: e)
    next
      case False
      with that have "live s x" "t_state (threads s x) = THREAD_RUNNING" by (auto simp: e)
      with ci obtain b where "cpu_up s b" "current_thread s b = x" unfolding cpu_inv_def by blast
      with cb show ?thesis by auto
    qed
    show ?thesis unfolding cpu_inv_def up l
    proof (intro conjI allI impI)
      fix b assume "(b = c \<or> cpu_up s b) \<and> b \<notin> {}"
      then consider "b = c" | "cpu_up s b" by blast
      then show "current_thread ?s b = ?t \<or> live s (current_thread ?s b)" "current_thread ?s b \<notin> {}"
        "t_state (threads ?s (current_thread ?s b)) = THREAD_RUNNING"
        "curr_cpu (threads ?s (current_thread ?s b)) = int b" "may_run_on b (threads ?s (current_thread ?s b))"
        using kinv_cpu [OF k, of b] cb [of b] T by (cases; simp add: e)+
    qed (use run idl T ci in \<open>auto simp: e(1) cpu_inv_def idle_thread_def\<close>)
  qed
  moreover have "frame_inv {} ?s" using k T nl nfr unfolding kinv_def frame_inv_def l e by auto
  moreover have "timer_inv {} {} ?s"
  proof -
    have "timer_inv {} {} s" using k by (simp add: kinv_def)
    note d = timer_invD [OF this]
    have tw: "timed_wait ?s x = timed_wait s x" for x by (simp add: timed_wait_def e)
    show ?thesis
    proof (rule timer_invI)
      show "b' = b \<and> cpu_up ?s b \<and> tm_callback (timers ?s (PreemptTimer b)) = CbThreadTimerTick \<and>
          (b \<notin> {} \<longrightarrow> \<not> thread_is_real_time_or_idle (threads ?s (current_thread ?s b)))"
        if "PreemptTimer b' \<in> set (timer_queue ?s b)" for b b'
        using that d(5) [of b' b] ncup curt [of b] by (auto simp: e up)
      show "thread_timer_ok ?s x" if "ThreadTimer x \<in> set (timer_queue ?s b)" "x \<notin> {}" for x b
        using that d(6) [of x b] nl by (cases "x = ?t") (auto simp: thread_timer_ok_def tw l e)
      show "\<exists>b. ThreadTimer x \<in> set (timer_queue ?s b)"
        if "live ?s x" "x \<notin> {}" "t_state (threads ?s x) = THREAD_SLEEPING \<or>
             t_state (threads ?s x) = THREAD_BLOCKED \<and> timed_wait ?s x" for x
        using that d(8) [of x] T by (cases "x = ?t") (auto simp: tw l e)
    qed (use d(1-4,7,9) in \<open>simp_all add: tw e\<close>)
  qed
  ultimately show "kinv {} {} ?s" unfolding kinv_def by blast
qed

lemma secondary_entry_kinv:
  assumes k: "kinv {} {} s" and up: "cpu_up s c"
  obtains s' where "thread_secondary_cpu_entry c s = Some s'" and "kinv {} {} s'"
proof -
  let ?t = "current_thread s c"
  let ?f = "\<lambda>th. th\<lparr>priority := 0\<rparr>"
  let ?s1 = "upd_thread ?t ?f s"
  note cur = kinv_cpu [OF k up] kinv_current [OF k up]
  have k1: "kinv {c} {?t} s" by (rule kinv_release [OF k up]) simp
  have k2: "kinv {c} {?t} ?s1"
    by (rule kinv_upd [OF k1]) (use cur in \<open>simp_all add: NUM_PRIORITIES_def\<close>)
  have ti: "timer_inv {} {} s" using k by (simp add: kinv_def)
  have "kinv ({c} - {c}) ({?t} - {?t}) (?s1\<lparr>current_thread := (current_thread ?s1)(c := ?t)\<rparr>)"
  proof (rule kinv_own [OF k2])
    show "thread_timer_ok ?s1 ?t" if "ThreadTimer ?t \<in> set (timer_queue ?s1 b)" for b
      by (rule current_timer_ok [OF k up]) (use that cur in simp_all)
    show "\<not> thread_is_real_time_or_idle (threads ?s1 ?t)" if "PreemptTimer c \<in> set (timer_queue ?s1 c)"
      using that timer_invD(5) [OF ti, of c c] by (simp add: thread_is_real_time_or_idle_def)
  qed (use cur up in \<open>simp_all add: may_run_on_def\<close>)
  then have k3: "kinv {} {} ?s1" by (subst (asm) kinv_cong [where s = ?s1]) simp_all
  let ?s2 = "mp_set_cpu_idle c (mp_set_curr_cpu_active c ?s1)"
  have k4: "kinv {} {} ?s2" using k3 by simp
  have up4: "cpu_up ?s2 c"
    using up by (simp add: cpu_up_def live_def mp_set_cpu_idle_def mp_set_curr_cpu_active_def)
  obtain s' where "thread_yield c ?s2 = Some s'" "kinv {} {} s'" by (rule thread_yield_kinv [OF k4 up4])
  then show ?thesis by (intro that [of s']) (simp_all add: thread_secondary_cpu_entry_def Let_def)
qed

end
