(* ===== verification/LK_Kernel.thy ===== *)
theory LK_Kernel
  imports LK_Sched_Life
begin

text \<open>
  The kernel as a transition system: what its callers and the interrupts may do, in any order and on any
  cpu, starting from the boot of the first one. An \<open>action\<close> is one critical section; \<open>enabled\<close> collects
  what the code asks of its callers, and every other assertion of the code is proved never to fail.
\<close>

section \<open>Interrupt entry\<close>

text \<open>A timer interrupt: the tick, then the preemption the handler asks for.\<close>

definition timer_irq ::
  "(nat \<Rightarrow> timer_id \<Rightarrow> lk_time_t \<Rightarrow> 'a kstate_scheme \<Rightarrow> (handler_return \<times> 'a kstate_scheme) option) \<Rightarrow>
     cpu \<Rightarrow> lk_time_t \<Rightarrow> 'a kstate_scheme \<Rightarrow> 'a kstate_scheme option" where
  "timer_irq user cpu now s =
     do {
       (ret, s) \<leftarrow> timer_tick (timer_callback_run user cpu) (Suc (length (timer_queue s cpu))) SMP_MAX_CPUS cpu now s;
       if ret = INT_RESCHEDULE then thread_preempt cpu s else Some s
     }"

definition reschedule_irq :: "cpu \<Rightarrow> 'a kstate_scheme \<Rightarrow> 'a kstate_scheme option" where
  "reschedule_irq cpu s =
     (let (ret, s) = mp_mbx_reschedule_irq cpu s in if ret = INT_RESCHEDULE then thread_preempt cpu s else Some s)"

section \<open>Actions\<close>

datatype action =
    Yield cpu
  | Set_priority cpu int
  | Set_name cpu string
  | Set_real_time cpu tid
  | Sleep cpu lk_time_t
  | Create tid string nat nat int nat
  | Resume cpu bool tid
  | Join cpu tid lk_time_t
  | Join_resume cpu tid
  | Detach cpu tid
  | Exit cpu int
  | Wq_init nat
  | Wq_block cpu nat lk_time_t
  | Wq_block_resume cpu
  | Wq_wake_one cpu nat bool status_t
  | Wq_wake_all cpu nat bool status_t
  | Wq_destroy cpu nat bool
  | Wq_destroy_finish nat
  | Timer_irq cpu lk_time_t lk_time_t
  | Reschedule_irq cpu
  | Secondary_init cpu
  | Secondary_entry cpu
  | Clock lk_time_t u64

type_synonym 'a user_callback =
  "nat \<Rightarrow> timer_id \<Rightarrow> lk_time_t \<Rightarrow> 'a kstate_scheme \<Rightarrow> (handler_return \<times> 'a kstate_scheme) option"

fun exec :: "(thread \<Rightarrow> thread) \<Rightarrow> (nat \<Rightarrow> u8 list option) \<Rightarrow> 'a user_callback \<Rightarrow> action \<Rightarrow>
     'a kstate_scheme \<Rightarrow> 'a kstate_scheme option" where
  "exec arch ms user (Yield c) s = thread_yield c s"
| "exec arch ms user (Set_priority c p) s = thread_set_priority c p s"
| "exec arch ms user (Set_name c n) s = Some (thread_set_name c n s)"
| "exec arch ms user (Set_real_time c t) s = map_option snd (thread_set_real_time c (Some t) s)"
| "exec arch ms user (Sleep c d) s = thread_sleep c d s"
| "exec arch ms user (Create t n e x p sz) s = Some (snd (thread_create arch (Some t) ms n e x p sz s))"
| "exec arch ms user (Resume c i t) s = map_option snd (thread_resume c i t s)"
| "exec arch ms user (Join c t to) s = map_option snd (thread_join c t to s)"
| "exec arch ms user (Join_resume c t) s = map_option snd (thread_join_resume c t s)"
| "exec arch ms user (Detach c t) s = map_option snd (thread_detach c t s)"
| "exec arch ms user (Exit c rc) s = thread_exit c rc s"
| "exec arch ms user (Wq_init w) s = Some (wait_queue_init (ObjWq w) s)"
| "exec arch ms user (Wq_block c w to) s = map_option snd (wait_queue_block c (ObjWq w) to s)"
| "exec arch ms user (Wq_block_resume c) s = map_option snd (wait_queue_block_resume c s)"
| "exec arch ms user (Wq_wake_one c w r e) s = map_option snd (wait_queue_wake_one c (ObjWq w) r e s)"
| "exec arch ms user (Wq_wake_all c w r e) s = map_option snd (wait_queue_wake_all c (ObjWq w) r e s)"
| "exec arch ms user (Wq_destroy c w r) s = map_option snd (wait_queue_destroy c (ObjWq w) r s)"
| "exec arch ms user (Wq_destroy_finish w) s = Some (wait_queue_destroy_finish (ObjWq w) s)"
| "exec arch ms user (Timer_irq c base now) s = timer_irq user c now s"
| "exec arch ms user (Reschedule_irq c) s = reschedule_irq c s"
| "exec arch ms user (Secondary_init c) s = Some (thread_secondary_cpu_init_early c s)"
| "exec arch ms user (Secondary_entry c) s = thread_secondary_cpu_entry c s"
| "exec arch ms user (Clock t h) s = Some (s\<lparr>current_time := t, current_time_hires := h\<rparr>)"

text \<open>A thread that may call into the scheduler: not the idle thread, and not inside \<^verbatim>\<open>wait_queue_block\<close>.\<close>

definition caller :: "cpu \<Rightarrow> 'a kstate_scheme \<Rightarrow> bool" where
  "caller c s \<longleftrightarrow> cpu_up s c \<and> \<not> thread_is_idle (threads s (current_thread s c)) \<and>
     block_frame s (current_thread s c) = None"

definition wq_valid :: "nat \<Rightarrow> 'a kstate_scheme \<Rightarrow> bool" where
  "wq_valid w s \<longleftrightarrow> wq_magic (wait_queues s (ObjWq w)) = WAIT_QUEUE_MAGIC"

text \<open>
  The obligations of the callers. A thread given by its pointer exists; a new structure is not in use;
  only the running thread or one that is not running is made real time; a dead thread is not resumed;
  the thread a joiner waited for has not been joined by somebody else; a queue is initialised before it
  is used, not while threads wait in it, and not waited in once it is being destroyed; an interrupt
  handler or the idle thread does not ask for a reschedule when it wakes. A timer interrupt finds its
  queue within half the range of the clock (\<open>base\<close> marks the start of that half), and no timers of other
  components.
\<close>

fun enabled :: "action \<Rightarrow> 'a kstate_scheme \<Rightarrow> bool" where
  "enabled (Yield c) s = cpu_up s c"
| "enabled (Set_priority c p) s = caller c s"
| "enabled (Set_name c n) s = cpu_up s c"
| "enabled (Set_real_time c t) s =
     (cpu_up s c \<and> live s t \<and> (t = current_thread s c \<or> t_state (threads s t) \<noteq> THREAD_RUNNING))"
| "enabled (Sleep c d) s = caller c s"
| "enabled (Create t n e x p sz) s =
     (\<not> live s t \<and> SMP_MAX_CPUS \<le> t \<and> 0 \<le> p \<and> p < int NUM_PRIORITIES)"
| "enabled (Resume c i t) s = (cpu_up s c \<and> live s t \<and> t_state (threads s t) \<noteq> THREAD_DEATH)"
| "enabled (Join c t to) s = (caller c s \<and> live s t)"
| "enabled (Join_resume c t) s =
     (cpu_up s c \<and> (\<exists>to. block_frame s (current_thread s c) = Some (RetcodeWq t, to)) \<and>
      (wait_queue_block_ret (threads s (current_thread s c)) < 0 \<or> live s t \<and> t_state (threads s t) = THREAD_DEATH))"
| "enabled (Detach c t) s = (cpu_up s c \<and> live s t)"
| "enabled (Exit c rc) s = caller c s"
| "enabled (Wq_init w) s = (wq_list (wait_queues s (ObjWq w)) = [])"
| "enabled (Wq_block c w to) s = (caller c s \<and> wq_valid w s)"
| "enabled (Wq_block_resume c) s =
     (cpu_up s c \<and> (\<exists>w to. block_frame s (current_thread s c) = Some (ObjWq w, to)))"
| "enabled (Wq_wake_one c w r e) s = (cpu_up s c \<and> wq_valid w s \<and> (r \<longrightarrow> caller c s))"
| "enabled (Wq_wake_all c w r e) s = (cpu_up s c \<and> wq_valid w s \<and> (r \<longrightarrow> caller c s))"
| "enabled (Wq_destroy c w r) s = (cpu_up s c \<and> wq_valid w s \<and> (r \<longrightarrow> caller c s))"
| "enabled (Wq_destroy_finish w) s = (wq_list (wait_queues s (ObjWq w)) = [])"
| "enabled (Timer_irq c base now) s =
     (cpu_up s c \<and> tick_ready base SMP_MAX_CPUS c now s \<and> (\<forall>n b. UserTimer n \<notin> set (timer_queue s b)))"
| "enabled (Reschedule_irq c) s = cpu_up s c"
| "enabled (Secondary_init c) s = (c < SMP_MAX_CPUS \<and> \<not> live s (idle_thread c))"
| "enabled (Secondary_entry c) s = (cpu_up s c \<and> current_thread s c = idle_thread c)"
| "enabled (Clock t h) s = True"

inductive kreach :: "(thread \<Rightarrow> thread) \<Rightarrow> (nat \<Rightarrow> u8 list option) \<Rightarrow> 'a user_callback \<Rightarrow> 'a kstate_scheme \<Rightarrow> bool"
  for arch ms user where
  boot: "bss s \<Longrightarrow> thread_become_idle 0 (kernel_init (thread_init_early s)) = Some s' \<Longrightarrow> kreach arch ms user s'"
| act: "kreach arch ms user s \<Longrightarrow> enabled a s \<Longrightarrow> exec arch ms user a s = Some s' \<Longrightarrow> kreach arch ms user s'"

section \<open>Every enabled action succeeds and keeps the invariant\<close>

lemma timer_irq_kinv:
  assumes k: "kinv {} {} s" and up: "cpu_up s c" and r: "tick_ready base SMP_MAX_CPUS c now s"
    and nu: "\<forall>n b. UserTimer n \<notin> set (timer_queue s b)"
  obtains s' where "timer_irq user c now s = Some s'" and "kinv {} {} s'"
proof -
  have ok: "tick_ok c s" using k up nu by (simp add: tick_ok_def)
  from kernel_tick.tick [OF ok r lessI, of user] obtain ret s1 where
    t: "timer_tick (timer_callback_run user c) (Suc (length (timer_queue s c))) SMP_MAX_CPUS c now s = Some (ret, s1)"
    and ok1: "tick_ok c s1" by (elim exE conjE)
  from ok1 have k1: "kinv {} {} s1" and up1: "cpu_up s1 c" by (simp_all add: tick_ok_def)
  show ?thesis
  proof (cases "ret = INT_RESCHEDULE")
    case True
    obtain s' where "thread_preempt c s1 = Some s'" "kinv {} {} s'" by (rule thread_preempt_kinv [OF k1 up1])
    with True t show ?thesis by (intro that [of s']) (simp_all add: timer_irq_def)
  next
    case False
    with t k1 show ?thesis by (intro that [of s1]) (simp_all add: timer_irq_def)
  qed
qed

lemma reschedule_irq_kinv:
  assumes k: "kinv {} {} s" and up: "cpu_up s c"
  obtains s' where "reschedule_irq c s = Some s'" and "kinv {} {} s'"
proof -
  let ?s1 = "stats_upd c (\<lambda>st. st\<lparr>reschedule_ipis := reschedule_ipis st + 1\<rparr>) s"
  have k1: "kinv {} {} ?s1" and up1: "cpu_up ?s1 c" using k up by simp_all
  obtain s' where "thread_preempt c ?s1 = Some s'" "kinv {} {} s'" by (rule thread_preempt_kinv [OF k1 up1])
  with k1 show ?thesis
    by (cases "active_cpus s AND push_bit c 1 \<noteq> 0")
      (auto intro: that simp: reschedule_irq_def mp_mbx_reschedule_irq_def Let_def)
qed

lemma thread_join_kinv:
  assumes k: "kinv {} {} s" and cl: "caller c s" and l: "live s t"
  obtains r s' where "thread_join c t timeout s = Some (r, s')" and "kinv {} {} s'"
    and "t_flags (threads s t) AND THREAD_FLAG_DETACHED \<noteq> 0 \<Longrightarrow> r = Ret (ERR_THREAD_DETACHED, None)"
    and "t_flags (threads s t) AND THREAD_FLAG_DETACHED = 0 \<Longrightarrow> t_state (threads s t) = THREAD_DEATH \<Longrightarrow>
           r = Ret (NO_ERROR, Some (t_retcode (threads s t))) \<and> \<not> live s' t"
    and "t_flags (threads s t) AND THREAD_FLAG_DETACHED = 0 \<Longrightarrow> t_state (threads s t) \<noteq> THREAD_DEATH \<Longrightarrow>
           r = (if timeout = 0 then Ret (ERR_TIMED_OUT, None) else Blocked)"
proof -
  have up: "cpu_up s c" and ni: "\<not> thread_is_idle (threads s (current_thread s c))"
    and fr: "block_frame s (current_thread s c) = None" using cl by (simp_all add: caller_def)
  have ok: "thread_ok {} s t" by (rule kinv_thread_ok [OF k l])
  then have mg: "t_magic (threads s t) = THREAD_MAGIC" "wq_magic (wait_queues s (RetcodeWq t)) = WAIT_QUEUE_MAGIC"
    by (simp_all add: thread_ok_def)
  consider (det) "t_flags (threads s t) AND THREAD_FLAG_DETACHED \<noteq> 0"
    | (dead) "t_flags (threads s t) AND THREAD_FLAG_DETACHED = 0" "t_state (threads s t) = THREAD_DEATH"
    | (poll) "t_flags (threads s t) AND THREAD_FLAG_DETACHED = 0" "t_state (threads s t) \<noteq> THREAD_DEATH" "timeout = 0"
    | (wait) "t_flags (threads s t) AND THREAD_FLAG_DETACHED = 0" "t_state (threads s t) \<noteq> THREAD_DEATH" "timeout \<noteq> 0"
    by blast
  then show ?thesis
  proof cases
    case det
    with k mg show ?thesis
      by (intro that [of "Ret (ERR_THREAD_DETACHED, None)" s]) (simp_all add: thread_join_def)
  next
    case dead
    obtain s' where "thread_join_finish t s = Some ((NO_ERROR, Some (t_retcode (threads s t))), s')"
      "kinv {} {} s'" "\<not> live s' t" by (rule thread_join_finish_kinv [OF k l dead(2)])
    with dead mg show ?thesis
      by (intro that [of "Ret (NO_ERROR, Some (t_retcode (threads s t)))" s']) (simp_all add: thread_join_def)
  next
    case poll
    with k mg kinv_cpu [OF k up] show ?thesis
      by (intro that [of "Ret (ERR_TIMED_OUT, None)" s]) (simp_all add: thread_join_def wait_queue_block_def Let_def)
  next
    case wait
    obtain s' where "wait_queue_block c (RetcodeWq t) timeout s = Some (Blocked, s')" "kinv {} {} s'"
      by (rule wait_queue_block_kinv [OF k up refl ni fr mg(2) wait(3)]) (use l wait in simp_all)
    with wait mg show ?thesis by (intro that [of Blocked s']) (simp_all add: thread_join_def)
  qed
qed

lemma thread_join_resume_kinv:
  assumes k: "kinv {} {} s" and up: "cpu_up s c"
    and fr: "block_frame s (current_thread s c) = Some (RetcodeWq t, timeout)"
    and d: "wait_queue_block_ret (threads s (current_thread s c)) < 0 \<or>
      live s t \<and> t_state (threads s t) = THREAD_DEATH"
  obtains s' where "thread_join_resume c t s = Some
      (if wait_queue_block_ret (threads s (current_thread s c)) < 0
       then (wait_queue_block_ret (threads s (current_thread s c)), None)
       else (NO_ERROR, Some (t_retcode (threads s t))), s')" and "kinv {} {} s'"
proof -
  let ?e = "wait_queue_block_ret (threads s (current_thread s c))"
  obtain s1 where s1: "wait_queue_block_resume c s = Some (?e, s1)" "kinv {} {} s1" "threads s1 = threads s"
    "thread_list s1 = thread_list s"
    by (rule wait_queue_block_resume_kinv [OF k up refl fr])
  show ?thesis
  proof (cases "?e < 0")
    case True
    with s1 show ?thesis by (intro that [of s1]) (simp_all add: thread_join_resume_def)
  next
    case False
    with d s1 have "live s1 t" "t_state (threads s1 t) = THREAD_DEATH" by (simp_all add: live_def)
    then obtain s' where "thread_join_finish t s1 = Some ((NO_ERROR, Some (t_retcode (threads s1 t))), s')" "kinv {} {} s'"
      by (rule thread_join_finish_kinv [OF s1(2)])
    with s1 False show ?thesis by (intro that [of s']) (simp_all add: thread_join_resume_def)
  qed
qed

lemma thread_create_any_kinv:
  assumes k: "kinv {} {} s" and t: "\<not> live s t" "SMP_MAX_CPUS \<le> t" and ar: "arch_init_ok arch"
    and pr: "0 \<le> prio" "prio < int NUM_PRIORITIES"
  shows "kinv {} {} (snd (thread_create arch (Some t) ms name entry arg prio sz s))"
proof (cases "ms (sz + THREAD_STACK_PADDING_SIZE)")
  case (Some st)
  show ?thesis
    by (rule thread_create_etc_kinv [OF k t ar pr, where topt = None and mt = "Some t" and stack = None and ms = ms
          and stack_size = sz and name = name and entry = entry and arg = arg])
      (use Some in \<open>simp_all add: thread_create_def\<close>)
next
  case None
  let ?f2 = "\<lambda>th. th\<lparr>t_entry := entry, t_arg := arg, priority := prio,
                    t_state := THREAD_SUSPENDED, blocking_wait_queue := None, wait_queue_block_ret := NO_ERROR,
                    curr_cpu := -1, t_retcode := 0, t_aspace := None\<rparr>"
  let ?s1 = "init_thread_struct t name s"
  let ?s2 = "upd_thread t ?f2 ?s1"
  let ?s3 = "wait_queue_init (RetcodeWq t) ?s2"
  have z: "\<not> stack_overrun (zero_thread\<lparr>t_magic := m, pinned_cpu := p, t_name := n\<rparr>)" for m p n
    by (simp add: stack_overrun_def zero_thread_def)
  have k1: "kinv {} {} ?s1" unfolding init_thread_struct_def by (rule kinv_upd_dead [OF k t(1)]) (simp_all add: z)
  have k2: "kinv {} {} ?s2"
    by (rule kinv_upd_dead [OF k1])
      (use t in \<open>simp_all add: init_thread_struct_def stack_overrun_def zero_thread_def\<close>)
  have em: "wq_list (wait_queues ?s2 (RetcodeWq t)) = []"
    using k2 t by (simp add: kinv_def join_inv_def init_thread_struct_def)
  have "kinv {} {} ?s3" unfolding wait_queue_init_def
    by (rule kinv_upd_wq_empty [OF k2 em]) (simp_all add: WAIT_QUEUE_INITIAL_VALUE_def)
  then have "kinv {} {} (?s3\<lparr>freed := fr\<rparr>)" for fr by simp
  with \<open>kinv {} {} ?s3\<close> None show ?thesis
    by (simp only: thread_create_def thread_create_etc_def Let_def option.case if_True if_False snd_conv simp_thms split: if_split)
qed

lemma wake_one_any_kinv:
  assumes k: "kinv {} {} s" and up: "cpu_up s c" and mg: "wq_magic (wait_queues s w) = WAIT_QUEUE_MAGIC"
    and ni: "r \<Longrightarrow> \<not> thread_is_idle (threads s (current_thread s c))"
  obtains n s' where "wait_queue_wake_one c w r e s = Some (n, s')" and "kinv {} {} s'"
proof (cases "wq_list (wait_queues s w)")
  case Nil
  with wait_queue_wake_one_empty [OF mg] k show ?thesis by (intro that [of 0 s])
next
  case (Cons t ts)
  then obtain s' where "wait_queue_wake_one c w r e s = Some (1, s')" "kinv {} {} s'"
    by (rule wait_queue_wake_one_kinv [OF k up, where r = r and err = e]) (use ni in simp)
  then show ?thesis by (rule that)
qed

lemma wait_queue_block_any_kinv:
  assumes k: "kinv {} {} s" and cl: "caller c s" and mg: "wq_valid w s"
  obtains r s' where "wait_queue_block c (ObjWq w) to s = Some (r, s')" and "kinv {} {} s'"
proof (cases "to = 0")
  case True
  with k mg cl kinv_cpu [OF k, of c] show ?thesis
    by (intro that [of "Ret ERR_TIMED_OUT" s]) (simp_all add: wait_queue_block_def caller_def wq_valid_def Let_def)
next
  case False
  obtain s' where "wait_queue_block c (ObjWq w) to s = Some (Blocked, s')" "kinv {} {} s'"
    by (rule wait_queue_block_kinv [OF k _ refl _ _ _ False, of c "ObjWq w"])
      (use cl mg in \<open>simp_all add: caller_def wq_valid_def\<close>)
  then show ?thesis by (rule that)
qed


text \<open>The step theorem, by cases on the action.\<close>

lemma exec_kinv:
  assumes k: "kinv {} {} s" and ar: "arch_init_ok arch" and en: "enabled a s"
  shows "\<exists>s'. exec arch ms user a s = Some s' \<and> kinv {} {} s'"
proof (cases a)
  case (Yield c)
  show ?thesis by (rule thread_yield_kinv [OF k, of c]) (use Yield en in simp_all)
next
  case (Set_priority c p)
  show ?thesis by (rule thread_set_priority_kinv [OF k, of c p]) (use Set_priority en in \<open>simp_all add: caller_def\<close>)
next
  case (Set_name c n)
  then show ?thesis using k by (simp add: thread_set_name_def kinv_upd_irrel)
next
  case (Set_real_time c t)
  show ?thesis by (rule thread_set_real_time_kinv [OF k, of c t]) (use Set_real_time en in simp_all)
next
  case (Sleep c d)
  show ?thesis by (rule thread_sleep_kinv [OF k _ refl, of c d]) (use Sleep en in \<open>simp_all add: caller_def\<close>)
next
  case (Create t n e x p sz)
  with en thread_create_any_kinv [OF k _ _ ar, of t p ms n e x sz] show ?thesis by simp
next
  case (Resume c i t)
  show ?thesis by (rule thread_resume_kinv [OF k, of c t i]) (use Resume en in simp_all)
next
  case (Join c t to)
  show ?thesis by (rule thread_join_kinv [OF k, of c t to]) (use Join en in simp_all)
next
  case (Join_resume c t)
  with en obtain to where fr: "block_frame s (current_thread s c) = Some (RetcodeWq t, to)" and up: "cpu_up s c"
    and d: "wait_queue_block_ret (threads s (current_thread s c)) < 0 \<or> live s t \<and> t_state (threads s t) = THREAD_DEATH"
    by auto
  show ?thesis by (rule thread_join_resume_kinv [OF k up fr d]) (simp add: Join_resume)
next
  case (Detach c t)
  show ?thesis by (rule thread_detach_kinv [OF k, of c t]) (use Detach en in simp_all)
next
  case (Exit c rc)
  show ?thesis by (rule thread_exit_kinv [OF k _ refl, of c rc]) (use Exit en in \<open>simp_all add: caller_def\<close>)
next
  case (Wq_init w)
  then show ?thesis
    using kinv_upd_wq_empty [OF k, of "ObjWq w" "\<lambda>_. WAIT_QUEUE_INITIAL_VALUE"] en
    by (simp add: wait_queue_init_def WAIT_QUEUE_INITIAL_VALUE_def)
next
  case (Wq_block c w to)
  show ?thesis by (rule wait_queue_block_any_kinv [OF k, of c w to]) (use Wq_block en in simp_all)
next
  case (Wq_block_resume c)
  with en obtain w to where fr: "block_frame s (current_thread s c) = Some (ObjWq w, to)" and up: "cpu_up s c" by auto
  show ?thesis by (rule wait_queue_block_resume_kinv [OF k up refl fr]) (simp add: Wq_block_resume)
next
  case (Wq_wake_one c w r e)
  show ?thesis by (rule wake_one_any_kinv [OF k, of c "ObjWq w" r e])
      (use Wq_wake_one en in \<open>simp_all add: caller_def wq_valid_def\<close>)
next
  case (Wq_wake_all c w r e)
  show ?thesis by (rule wait_queue_wake_all_kinv [OF k, of c "ObjWq w" r e])
      (use Wq_wake_all en in \<open>simp_all add: caller_def wq_valid_def\<close>)
next
  case (Wq_destroy c w r)
  show ?thesis by (rule wait_queue_destroy_kinv [OF k, of c "ObjWq w" r])
      (use Wq_destroy en in \<open>simp_all add: caller_def wq_valid_def\<close>)
next
  case (Wq_destroy_finish w)
  with en wait_queue_destroy_finish_kinv [OF k, of "ObjWq w"] show ?thesis by simp
next
  case (Timer_irq c base now)
  show ?thesis by (rule timer_irq_kinv [OF k, of c base now user]) (use Timer_irq en in simp_all)
next
  case (Reschedule_irq c)
  show ?thesis by (rule reschedule_irq_kinv [OF k, of c]) (use Reschedule_irq en in simp_all)
next
  case (Secondary_init c)
  with en secondary_init_kinv(1) [OF k, of c] show ?thesis by simp
next
  case (Secondary_entry c)
  show ?thesis by (rule secondary_entry_kinv [OF k, of c]) (use Secondary_entry en in simp_all)
next
  case (Clock t h)
  have "kinv {} {} (s\<lparr>current_time := t, current_time_hires := h\<rparr>) = kinv {} {} s" by (rule kinv_cong) simp_all
  with Clock k show ?thesis by simp
qed

lemma kreach_kinv:
  assumes "kreach arch ms user s" and "arch_init_ok arch"
  shows "kinv {} {} s"
  using assms(1)
proof induction
  case (boot s s')
  obtain s1 where "thread_become_idle 0 (kernel_init (thread_init_early s)) = Some s1" "kinv {} {} s1"
    by (rule boot_kinv [OF boot(1)])
  with boot(2) show ?case by simp
next
  case (act s a s')
  then show ?case using exec_kinv [OF act.IH assms(2) act(2), of ms user] by auto
qed

end
