(* ===== verification/LK_Kernel_Spec.thy ===== *)
theory LK_Kernel_Spec
  imports LK_Kernel
begin

text \<open>
  What the scheduler guarantees to its callers, from boot on: the properties of the transition system of
  \<open>LK_Kernel\<close> and of the single operations of \<open>LK_Thread\<close>, each with a sample state it applies to.
\<close>

section \<open>A sample state\<close>

text \<open>
  Two cpus: the first runs thread 4, the second is idle. Thread 5 waits in queue \<open>w\<close> with a timeout, thread
  6 is ready, thread 7 has exited with 42 and waits to be joined.
\<close>

definition demo_thread :: "thread_state \<Rightarrow> int \<Rightarrow> thread" where
  "demo_thread st prio = zero_thread\<lparr>t_magic := THREAD_MAGIC, t_state := st, priority := prio, pinned_cpu := -1,
     curr_cpu := -1, queue_node := (st = THREAD_READY \<or> st = THREAD_BLOCKED)\<rparr>"

definition demo_idle :: "thread_state \<Rightarrow> cpu \<Rightarrow> thread" where
  "demo_idle st c = zero_thread\<lparr>t_magic := THREAD_MAGIC, t_state := st, pinned_cpu := int c,
     curr_cpu := (if st = THREAD_RUNNING then int c else -1), t_flags := THREAD_FLAG_IDLE\<rparr>"

definition demo_kernel_on :: "nat \<Rightarrow> kstate" where
  "demo_kernel_on w = \<lparr>
     timers = (\<lambda>_. TIMER_INITIAL_VALUE)
       (PreemptTimer 0 := TIMER_INITIAL_VALUE\<lparr>scheduled_time := 10, periodic_time := 10, tm_callback := CbThreadTimerTick\<rparr>,
        ThreadTimer 5 := TIMER_INITIAL_VALUE\<lparr>scheduled_time := 100, tm_callback := CbWaitTimeout, tm_arg := 5\<rparr>),
     timer_queue = (\<lambda>_. [])(0 := [PreemptTimer 0, ThreadTimer 5]),
     current_time = 5, hw_timer = (\<lambda>_. None)(0 := Some 5),
     stats = (\<lambda>_. \<lparr>idle_time = 0, last_idle_timestamp = 0, reschedules = 0, context_switches = 0, preempts = 0,
        yields = 0, timer_ints = 0, timers_fired = 0, reschedule_ipis = 0\<rparr>),
     threads = (\<lambda>_. zero_thread)(
       0 := demo_idle THREAD_READY 0, 1 := demo_idle THREAD_RUNNING 1,
       4 := (demo_thread THREAD_RUNNING 16)\<lparr>curr_cpu := 0\<rparr>,
       5 := (demo_thread THREAD_BLOCKED 16)\<lparr>blocking_wait_queue := Some (ObjWq w)\<rparr>,
       6 := demo_thread THREAD_READY 16,
       7 := (demo_thread THREAD_DEATH 16)\<lparr>t_retcode := 42\<rparr>),
     thread_list = [7, 6, 5, 4, 1, 0],
     run_queue = (\<lambda>_. [])(16 := [6]), run_queue_bitmap = 0x10000,
     wait_queues = (\<lambda>_. WAIT_QUEUE_INITIAL_VALUE)(ObjWq w := \<lparr>wq_magic = WAIT_QUEUE_MAGIC, wq_list = [5], wq_count = 1\<rparr>),
     current_thread = (\<lambda>_. 0)(0 := 4, 1 := 1),
     active_cpus = 3, idle_cpus = 2, realtime_cpus = 0, current_time_hires = 5000,
     mmu_context = (\<lambda>_. None), ipis = [], freed = [], block_frame = (\<lambda>_. None)(5 := Some (ObjWq w, 100))\<rparr>"

abbreviation demo_kernel :: kstate where "demo_kernel \<equiv> demo_kernel_on 0"

lemma demo_bitmap: "bit (0x10000 :: u32) p \<longleftrightarrow> p = 16"
proof -
  have "(0x10000 :: u32) = push_bit 16 1" by simp
  then show ?thesis by (simp only: bit_push_bit_iff bit_1_iff) auto
qed

lemmas demo_defs = demo_kernel_on_def demo_thread_def demo_idle_def zero_thread_def TIMER_INITIAL_VALUE_def
  WAIT_QUEUE_INITIAL_VALUE_def

lemma demo_live: "live (demo_kernel_on w) t \<longleftrightarrow> t \<in> {0, 1, 4, 5, 6, 7}"
  by (auto simp: live_def demo_kernel_on_def)

lemma demo_up: "cpu_up (demo_kernel_on w) c \<longleftrightarrow> c = 0 \<or> c = 1"
  by (auto simp: cpu_up_def demo_live idle_thread_def SMP_MAX_CPUS_def)

lemma demo_threads:
  "threads (demo_kernel_on w) t = (if t = 0 then demo_idle THREAD_READY 0 else if t = 1 then demo_idle THREAD_RUNNING 1
     else if t = 4 then (demo_thread THREAD_RUNNING 16)\<lparr>curr_cpu := 0\<rparr>
     else if t = 5 then (demo_thread THREAD_BLOCKED 16)\<lparr>blocking_wait_queue := Some (ObjWq w)\<rparr>
     else if t = 6 then demo_thread THREAD_READY 16
     else if t = 7 then (demo_thread THREAD_DEATH 16)\<lparr>t_retcode := 42\<rparr> else zero_thread)"
  by (simp add: demo_kernel_on_def)

lemma demo_kinv: "kinv {} {} (demo_kernel_on w)"
proof -
  have fl: "thread_is_idle (threads (demo_kernel_on w) t) \<longleftrightarrow> t = 0 \<or> t = 1" for t
    by (simp add: demo_threads demo_thread_def demo_idle_def zero_thread_def thread_is_idle_def thread_flag_defs)
  have so: "\<not> stack_overrun (threads (demo_kernel_on w) t)" for t
    by (simp add: demo_threads demo_thread_def demo_idle_def zero_thread_def stack_overrun_def thread_flag_defs)
  have bm: "bit (run_queue_bitmap (demo_kernel_on w)) p \<longleftrightarrow> p = 16" for p
    unfolding demo_kernel_on_def by (simp only: kstate.select_convs demo_bitmap)
  have "rq_inv {} (demo_kernel_on w)" unfolding rq_inv_def demo_live fl bm
    by (auto simp: demo_defs split: if_splits)
  moreover have "wq_inv {} (demo_kernel_on w)" unfolding wq_inv_def demo_live
    by (auto simp: demo_defs split: if_splits)
  moreover have "th_inv {} (demo_kernel_on w)" unfolding th_inv_def thread_ok_def fl demo_live
    using so by (auto simp: demo_defs NUM_PRIORITIES_def SMP_MAX_CPUS_def idle_thread_def)
  moreover have "join_inv {} (demo_kernel_on w)" by (simp add: join_inv_def demo_defs)
  moreover have "cpu_inv {} {} (demo_kernel_on w)" unfolding cpu_inv_def demo_up demo_live fl
    by (auto simp: demo_defs may_run_on_def idle_thread_def)
  moreover have "frame_inv {} (demo_kernel_on w)" unfolding frame_inv_def demo_live fl
    by (auto simp: demo_defs)
  moreover have "timer_inv {} {} (demo_kernel_on w)" unfolding timer_inv_def demo_up demo_live thread_timer_ok_def
    by (auto simp: demo_defs timed_wait_def SMP_MAX_CPUS_def thread_is_real_time_or_idle_def split: if_splits)
  ultimately show ?thesis by (simp add: kinv_def)
qed

lemma demo_scan: "scan_bitmap f 0x10000 = (case f 16 of Some t \<Rightarrow> Some (16, t) | None \<Rightarrow> None)"
proof -
  have "clz32 0x10000 = 15" by code_simp
  then show ?thesis by (subst scan_bitmap.simps, subst scan_bitmap.simps) (simp split: option.split)
qed

definition zero_kernel :: kstate where
  "zero_kernel = \<lparr>timers = (\<lambda>_. \<lparr>tm_magic = 0, scheduled_time = 0, periodic_time = 0, tm_callback = CbNone, tm_arg = 0\<rparr>),
     timer_queue = (\<lambda>_. []), current_time = 0, hw_timer = (\<lambda>_. None),
     stats = (\<lambda>_. \<lparr>idle_time = 0, last_idle_timestamp = 0, reschedules = 0, context_switches = 0, preempts = 0,
        yields = 0, timer_ints = 0, timers_fired = 0, reschedule_ipis = 0\<rparr>),
     threads = (\<lambda>_. zero_thread), thread_list = [], run_queue = (\<lambda>_. []), run_queue_bitmap = 0,
     wait_queues = (\<lambda>_. \<lparr>wq_magic = 0, wq_list = [], wq_count = 0\<rparr>), current_thread = (\<lambda>_. 0),
     active_cpus = 0, idle_cpus = 0, realtime_cpus = 0, current_time_hires = 0, mmu_context = (\<lambda>_. None),
     ipis = [], freed = [], block_frame = (\<lambda>_. None)\<rparr>"

lemma zero_kernel_bss: "bss zero_kernel"
  by (simp add: bss_def zero_kernel_def)

section \<open>Properties\<close>


lemma kreach_boot:
  obtains s where "thread_become_idle 0 (kernel_init (thread_init_early zero_kernel)) = Some s"
    and "kreach arch ms user s" and "cpu_up s 0"
proof -
  obtain s where s: "thread_become_idle 0 (kernel_init (thread_init_early zero_kernel)) = Some s"
    "thread_list s = [idle_thread 0]" by (rule boot_kinv [OF zero_kernel_bss])
  from s(1) kreach.boot [OF zero_kernel_bss s(1)] show ?thesis
    by (rule that) (simp add: cpu_up_def live_def s(2) SMP_MAX_CPUS_def)
qed

lemma arch_init_id: "arch_init_ok (\<lambda>t. t)"
  unfolding arch_init_ok_def by (metis thread.surjective thread.update_convs(12))


text \<open>
  C2: the state invariant of the scheduler holds in every reachable state: the run queues hold exactly the
  ready threads, each in the queue of its priority, and the bitmap marks the queues in use; every wait
  queue holds exactly the threads blocked on it and counts them; every cpu runs one live thread that may
  run there; sleeping and timed-out waits have their timer queued, and no other thread has.
\<close>

theorem kernel_invariant:
  assumes "arch_init_ok arch" and "kreach arch ms user s"
  shows "rq_inv {} s \<and> wq_inv {} s \<and> th_inv {} s \<and> join_inv {} s \<and> cpu_inv {} {} s \<and> frame_inv {} s \<and> timer_inv {} {} s"
  using kreach_kinv [OF assms(2,1)] by (simp add: kinv_def)

theorem kernel_invariant_witness:
  "\<exists>s :: kstate. cpu_up s 0 \<and> rq_inv {} s \<and> wq_inv {} s \<and> th_inv {} s \<and> join_inv {} s \<and> cpu_inv {} {} s \<and>
     frame_inv {} s \<and> timer_inv {} {} s"
proof -
  obtain s :: kstate where s: "kreach (\<lambda>t. t) (\<lambda>n. None) (\<lambda>_ _ _ _. None) s" "cpu_up s 0"
    by (rule kreach_boot)
  from s(2) kernel_invariant [OF arch_init_id s(1)] show ?thesis by (intro exI [of _ s] conjI) simp_all
qed

text \<open>
  C3: two cpus never run the same thread: in every reachable state the threads current on two cpus that
  are up are different, each is in the running state, owned by its cpu and allowed there by its pinning.
\<close>

theorem running_exclusive:
  assumes "arch_init_ok arch" and "kreach arch ms user s" and "cpu_up s c" and "cpu_up s d" and "c \<noteq> d"
  shows "current_thread s c \<noteq> current_thread s d \<and>
     t_state (threads s (current_thread s c)) = THREAD_RUNNING \<and>
     curr_cpu (threads s (current_thread s c)) = int c \<and> may_run_on c (threads s (current_thread s c))"
proof -
  have k: "kinv {} {} s" by (rule kreach_kinv [OF assms(2,1)])
  show ?thesis using kinv_current_inj [OF k assms(3) _ assms(4)] kinv_cpu [OF k assms(3)] assms(5) by auto
qed

theorem running_exclusive_witness:
  "\<exists>s :: kstate. current_thread s 0 \<noteq> current_thread s 1 \<and> t_state (threads s (current_thread s 0)) = THREAD_RUNNING"
proof -
  let ?r = "kreach (\<lambda>t. t) (\<lambda>n. None) (\<lambda>_ _ _ _. None)"
  obtain s :: kstate where s: "thread_become_idle 0 (kernel_init (thread_init_early zero_kernel)) = Some s" "?r s" "cpu_up s 0"
    by (rule kreach_boot)
  obtain s1 where "thread_become_idle 0 (kernel_init (thread_init_early zero_kernel)) = Some s1"
    "kinv {} {} s1" "thread_list s1 = [idle_thread 0]" by (rule boot_kinv [OF zero_kernel_bss])
  with s(1) have k: "kinv {} {} s" and nl: "\<not> live s (idle_thread 1)" by (auto simp: live_def idle_thread_def)
  let ?s = "thread_secondary_cpu_init_early 1 s"
  have r: "?r ?s" by (rule kreach.act [OF s(2), of "Secondary_init 1"]) (use nl in \<open>simp_all add: SMP_MAX_CPUS_def\<close>)
  have up1: "cpu_up ?s 1" by (rule secondary_init_kinv(2) [OF k _ nl]) (simp add: SMP_MAX_CPUS_def)
  have up0: "cpu_up ?s 0"
    using s(3) by (simp add: cpu_up_def live_def thread_secondary_cpu_init_early_def init_thread_struct_def
        wait_queue_init_def Let_def)
  from running_exclusive [OF arch_init_id r up0 up1] show ?thesis by (intro exI [of _ ?s]) simp
qed

text \<open>
  C4: the scheduler picks the first thread of the highest priority: \<^verbatim>\<open>get_top_thread\<close> takes a thread that
  is runnable on this cpu, none that is runnable has a higher priority, none of the same priority that
  may run here stands before it in its queue, it leaves every other queue entry in place, and it falls
  back to the idle thread only when nothing is runnable.
\<close>

theorem get_top_thread_picks:
  assumes "kinv sw {} s" and "get_top_thread c s = (t, s')"
  shows "if \<exists>x. runnable c s x
     then runnable c s t \<and> (\<forall>x. runnable c s x \<longrightarrow> priority (threads s x) \<le> priority (threads s t)) \<and>
       (\<exists>before after. run_queue s (nat (priority (threads s t))) = before @ t # after \<and>
          (\<forall>x \<in> set before. \<not> may_run_on c (threads s x)) \<and>
          run_queue s' = (run_queue s)(nat (priority (threads s t)) := before @ after))
     else t = idle_thread c \<and> s' = s"
  using assms
proof (rule get_top_thread_cases)
  fix p assume tin: "t \<in> set (run_queue s p)" and r: "runnable c s t" and p: "priority (threads s t) = int p"
    and top: "\<And>x. runnable c s x \<Longrightarrow> priority (threads s x) \<le> priority (threads s t)"
    and first: "\<And>x i. runnable c s x \<Longrightarrow> run_queue s p ! i = x \<Longrightarrow> i < length (run_queue s p) \<Longrightarrow>
           \<exists>j\<le>i. run_queue s p ! j = t"
    and s': "s' = (let u = upd_thread t (\<lambda>th. th\<lparr>queue_node := False\<rparr>)
                    (s\<lparr>run_queue := (run_queue s)(p := remove1 t (run_queue s p))\<rparr>)
          in if run_queue u p = [] then u\<lparr>run_queue_bitmap := run_queue_bitmap u AND NOT (push_bit p 1)\<rparr> else u)"
  from tin obtain bef aft where q: "run_queue s p = bef @ t # aft" "t \<notin> set bef" by (meson split_list_first)
  have nb: "\<not> may_run_on c (threads s x)" if "x \<in> set bef" for x
  proof
    assume m: "may_run_on c (threads s x)"
    from that obtain i where i: "i < length bef" "bef ! i = x" by (auto simp: in_set_conv_nth)
    have "x \<in> set (run_queue s p)" using that q by simp
    then have "runnable c s x" using assms(1) m by (auto simp: kinv_def rq_inv_def runnable_def)
    from first [OF this, of i] i q obtain j where "j \<le> i" "run_queue s p ! j = t" by (auto simp: nth_append)
    then have "bef ! j = t" "j < length bef" using i q by (auto simp: nth_append)
    with q(2) show False by (meson nth_mem)
  qed
  have rq: "run_queue s' = (run_queue s)(p := bef @ aft)"
    using q by (simp add: s' Let_def remove1_append)
  from r top q nb rq p show ?thesis by (auto simp: fun_eq_iff)
qed auto

theorem get_top_thread_picks_witness:
  "(\<exists>x. runnable 0 demo_kernel x) \<and> runnable 0 demo_kernel (fst (get_top_thread 0 demo_kernel))"
proof -
  have "runnable 0 demo_kernel 6"
    by (simp add: runnable_def demo_live demo_threads demo_thread_def zero_thread_def thread_is_idle_def may_run_on_def)
  then have ex: "\<exists>x. runnable 0 demo_kernel x" ..
  from get_top_thread_picks [OF demo_kinv [of 0], of 0 "fst (get_top_thread 0 demo_kernel)" "snd (get_top_thread 0 demo_kernel)"] ex
  show ?thesis by (simp split: if_splits)
qed

text \<open>
  C6: a cpu that gives way runs the best thread: \<^verbatim>\<open>thread_yield\<close> and \<^verbatim>\<open>thread_preempt\<close> return, keep the
  invariant, and afterwards no ready thread that may run on the cpu has a higher priority than the one
  running there.
\<close>

theorem yield_preempt_run_best:
  assumes "kinv {} {} s" and "cpu_up s c"
  shows "(\<exists>s'. thread_yield c s = Some s' \<and> kinv {} {} s' \<and> runs_best c s') \<and>
     (\<exists>s'. thread_preempt c s = Some s' \<and> kinv {} {} s' \<and> runs_best c s')"
proof
  show "\<exists>s'. thread_yield c s = Some s' \<and> kinv {} {} s' \<and> runs_best c s'"
    by (rule thread_yield_kinv [OF assms]) (intro exI conjI)
  show "\<exists>s'. thread_preempt c s = Some s' \<and> kinv {} {} s' \<and> runs_best c s'"
    by (rule thread_preempt_kinv [OF assms]) (intro exI conjI)
qed

theorem yield_preempt_run_best_witness:
  "(\<exists>s'. thread_yield 0 demo_kernel = Some s' \<and> kinv {} {} s' \<and> runs_best 0 s') \<and>
     (\<exists>s'. thread_preempt 0 demo_kernel = Some s' \<and> kinv {} {} s' \<and> runs_best 0 s')"
  by (rule yield_preempt_run_best [OF demo_kinv [of 0]]) (simp add: demo_up)

text \<open>A blocked thread that is woken while every processor keeps its thread is ready.\<close>

lemma woken_ready:
  assumes "kinv {} {} s" and "live s t" and "t_state (threads s t) = THREAD_BLOCKED"
    and "kinv {} {} s'" and "woken {t} err s s'" and "current_thread s' = current_thread s"
  shows "t_state (threads s' t) = THREAD_READY"
proof -
  have nc: "t \<noteq> current_thread s d" if "cpu_up s d" for d
    using kinv_cpu(3) [OF assms(1) that] assms(3) by auto
  have l': "live s' t" and up': "cpu_up s' d = cpu_up s d" for d
    using assms(2,5,6) by (simp_all add: woken_def live_def cpu_up_def)
  have "awake (t_state (threads s' t))" using assms(5) by (auto simp: woken_def wake_state_def)
  moreover have "t_state (threads s' t) \<noteq> THREAD_RUNNING"
  proof
    assume "t_state (threads s' t) = THREAD_RUNNING"
    with assms(4) l' obtain d where "cpu_up s' d" "current_thread s' d = t"
      unfolding kinv_def cpu_inv_def by blast
    then show False using nc [of d] up' assms(6) by simp
  qed
  ultimately show ?thesis by (simp add: awake_def)
qed



text \<open>
  C9: a wait that times out says so: the timeout callback of a thread blocked with a timeout takes it off its
  wait queue and makes it ready, and when it runs again \<^verbatim>\<open>wait_queue_block\<close> returns
  \<^verbatim>\<open>ERR_TIMED_OUT\<close> with the thread's timer in no queue.
\<close>

theorem wait_timeout_reported:
  fixes s :: "'a kstate_scheme"
  assumes "kinv {} {} s" and "live s t" and "t_state (threads s t) = THREAD_BLOCKED" and "block_frame s t = Some (w, timeout)"
  shows "\<exists>s'. wait_queue_timeout_handler c t s = Some (INT_RESCHEDULE, s') \<and> kinv {} {} s' \<and>
     t_state (threads s' t) = THREAD_READY \<and> wq_list (wait_queues s' w) = remove1 t (wq_list (wait_queues s w)) \<and>
     (\<forall>d (s'' :: 'a kstate_scheme). kinv {} {} s'' \<and> cpu_up s'' d \<and> current_thread s'' d = t \<and> block_frame s'' t = Some (w, timeout) \<and>
        wait_queue_block_ret (threads s'' t) = wait_queue_block_ret (threads s' t) \<longrightarrow>
        (\<exists>u. wait_queue_block_resume d s'' = Some (ERR_TIMED_OUT, u) \<and> (\<forall>b. ThreadTimer t \<notin> set (timer_queue u b))))"
proof -
  obtain s' where s': "thread_unblock_from_wait_queue c t ERR_TIMED_OUT s = Some (NO_ERROR, s')" "kinv {} {} s'"
    "woken {t} ERR_TIMED_OUT s s'" "current_thread s' = current_thread s"
    "wait_queues s' = (wait_queues s)(w := (wait_queues s w)\<lparr>wq_list := remove1 t (wq_list (wait_queues s w)),
           wq_count := wq_count (wait_queues s w) - 1\<rparr>)"
    by (rule thread_unblock_from_wait_queue_kinv [OF assms(1,2) _ assms(3,4), of c ERR_TIMED_OUT]) simp_all
  have mg: "t_magic (threads s t) = THREAD_MAGIC" using kinv_thread_ok [OF assms(1,2)] by (simp add: thread_ok_def)
  have ret: "wait_queue_block_ret (threads s' t) = ERR_TIMED_OUT"
    using s'(3) by (auto simp: woken_def thread_same_def make_ready_def)
  have st: "t_state (threads s' t) = THREAD_READY" by (rule woken_ready [OF assms(1-3) s'(2-4)])
  have res: "\<exists>u. wait_queue_block_resume d s'' = Some (ERR_TIMED_OUT, u) \<and> (\<forall>b. ThreadTimer t \<notin> set (timer_queue u b))"
    if "kinv {} {} s'' \<and> cpu_up s'' d \<and> current_thread s'' d = t \<and> block_frame s'' t = Some (w, timeout) \<and>
        wait_queue_block_ret (threads s'' t) = wait_queue_block_ret (threads s' t)" for d and s'' :: "'a kstate_scheme"
  proof -
    from that have h: "kinv {} {} s''" "cpu_up s'' d" "t = current_thread s'' d" "block_frame s'' t = Some (w, timeout)"
      "wait_queue_block_ret (threads s'' t) = ERR_TIMED_OUT" using ret by simp_all
    obtain u where "wait_queue_block_resume d s'' = Some (wait_queue_block_ret (threads s'' t), u)"
      "\<And>b. ThreadTimer t \<notin> set (timer_queue u b)"
      by (rule wait_queue_block_resume_kinv [OF h(1-4)]) (rule that; assumption)
    with h(5) show ?thesis by (intro exI [of _ u] conjI allI) simp_all
  qed
  have "wait_queue_timeout_handler c t s = Some (INT_RESCHEDULE, s')"
    by (simp add: wait_queue_timeout_handler_def mg s'(1))
  with s'(2) st show ?thesis
    by - (rule exI [of _ s'], intro conjI allI impI, simp_all add: s'(5) res)
qed

theorem wait_timeout_reported_witness:
  "\<exists>s'. wait_queue_timeout_handler 0 5 demo_kernel = Some (INT_RESCHEDULE, s') \<and>
     t_state (threads s' 5) = THREAD_READY \<and> wq_list (wait_queues s' (ObjWq 0)) = []"
proof -
  have d: "live demo_kernel 5" "t_state (threads demo_kernel 5) = THREAD_BLOCKED"
    "block_frame demo_kernel 5 = Some (ObjWq 0, 100)" "wq_list (wait_queues demo_kernel (ObjWq 0)) = [5]"
    by (simp_all add: demo_live) (simp_all add: demo_kernel_on_def demo_thread_def)
  from wait_timeout_reported [OF demo_kinv [of 0] d(1-3), of 0] d(4) show ?thesis by auto
qed

text \<open>
  C8: a timed wait is bounded: blocking with a finite timeout leaves the caller blocked at the tail of the
  queue with its timer armed for exactly the current time plus the timeout, and the cpu runs the best of
  the other threads; a zero timeout returns \<^verbatim>\<open>ERR_TIMED_OUT\<close> at once without touching the queue.
\<close>

theorem block_arms_timer:
  assumes "kinv {} {} s" and "caller c s" and "wq_valid w s"
  shows "if timeout = 0 then wait_queue_block c (ObjWq w) timeout s = Some (Ret ERR_TIMED_OUT, s)
    else \<exists>s'. wait_queue_block c (ObjWq w) timeout s = Some (Blocked, s') \<and> kinv {} {} s' \<and> runs_best c s' \<and>
      t_state (threads s' (current_thread s c)) = THREAD_BLOCKED \<and>
      wq_list (wait_queues s' (ObjWq w)) = wq_list (wait_queues s (ObjWq w)) @ [current_thread s c] \<and>
      (timeout \<noteq> INFINITE_TIME \<longrightarrow> ThreadTimer (current_thread s c) \<in> set (timer_queue s' c) \<and>
         scheduled_time (timers s' (ThreadTimer (current_thread s c))) = current_time s + timeout)"
proof (cases "timeout = 0")
  case True
  have up: "cpu_up s c" using assms(2) by (simp add: caller_def)
  then show ?thesis using True assms(3) kinv_cpu(3) [OF assms(1) up]
    by (simp add: wait_queue_block_def wq_valid_def)
next
  case False
  have up: "cpu_up s c" and ni: "\<not> thread_is_idle (threads s (current_thread s c))"
    and fr: "block_frame s (current_thread s c) = None" using assms(2) by (simp_all add: caller_def)
  have mg: "wq_magic (wait_queues s (ObjWq w)) = WAIT_QUEUE_MAGIC" using assms(3) by (simp add: wq_valid_def)
  obtain s' where s': "wait_queue_block c (ObjWq w) timeout s = Some (Blocked, s')" "kinv {} {} s'"
    "wait_queues s' = (wait_queues s)(ObjWq w := (wait_queues s (ObjWq w))\<lparr>wq_list :=
       wq_list (wait_queues s (ObjWq w)) @ [current_thread s c], wq_count := wq_count (wait_queues s (ObjWq w)) + 1\<rparr>)"
    "t_state (threads s' (current_thread s c)) = THREAD_BLOCKED" "runs_best c s'"
    "timeout \<noteq> INFINITE_TIME \<Longrightarrow> ThreadTimer (current_thread s c) \<in> set (timer_queue s' c) \<and>
       scheduled_time (timers s' (ThreadTimer (current_thread s c))) = current_time s + timeout"
    by (rule wait_queue_block_kinv [OF assms(1) up refl ni fr mg False]) (simp, (rule that; assumption))
  have "wq_list (wait_queues s' (ObjWq w)) = wq_list (wait_queues s (ObjWq w)) @ [current_thread s c]" by (simp add: s'(3))
  with s' False show ?thesis
    by (simp only: if_False) (intro exI [of _ s'] conjI impI; (elim conjE)?; simp)
qed

lemma demo_caller: "caller 0 demo_kernel"
  by (simp add: caller_def demo_up) (simp add: demo_defs thread_is_idle_def)

theorem block_arms_timer_witness:
  "\<exists>s'. wait_queue_block 0 (ObjWq 0) 50 demo_kernel = Some (Blocked, s') \<and>
      wq_list (wait_queues s' (ObjWq 0)) = [5, 4] \<and> ThreadTimer 4 \<in> set (timer_queue s' 0)"
proof -
  have d: "wq_valid 0 demo_kernel" "wq_list (wait_queues demo_kernel (ObjWq 0)) = [5]" "current_thread demo_kernel 0 = 4"
    by (simp_all add: wq_valid_def demo_kernel_on_def)
  from block_arms_timer [OF demo_kinv [of 0] demo_caller d(1), of 50] show ?thesis unfolding d by simp blast
qed




text \<open>
  Joining tells its three outcomes apart: a detached thread gives \<^verbatim>\<open>ERR_THREAD_DETACHED\<close>, a dead one its
  exit code and it is freed, and one that still lives makes the caller wait, or gives
  \<^verbatim>\<open>ERR_TIMED_OUT\<close> when the timeout is zero.
\<close>

theorem thread_join_outcomes:
  assumes "kinv {} {} s" and "caller c s" and "live s t"
  shows "\<exists>r s'. thread_join c t timeout s = Some (r, s') \<and> kinv {} {} s' \<and>
     r = (if t_flags (threads s t) AND THREAD_FLAG_DETACHED \<noteq> 0 then Ret (ERR_THREAD_DETACHED, None)
          else if t_state (threads s t) = THREAD_DEATH then Ret (NO_ERROR, Some (t_retcode (threads s t)))
          else if timeout = 0 then Ret (ERR_TIMED_OUT, None) else Blocked) \<and>
     (t_flags (threads s t) AND THREAD_FLAG_DETACHED = 0 \<and> t_state (threads s t) = THREAD_DEATH \<longrightarrow> \<not> live s' t)"
  by (rule thread_join_kinv [OF assms, of timeout]) auto

text \<open>
  A reschedule request never interrupts the cpu that sends it, one that is not active, or, unless it
  asks for that, one that runs a real-time thread; every other cpu of the target is interrupted.
\<close>

theorem mp_reschedule_targets:
  fixes s :: "'a kstate_scheme"
  shows "\<exists>m. mp_reschedule c target flags s = s\<lparr>ipis := ipis s @ [m]\<rparr> \<and>
    (\<forall>i. bit m i = (bit target i \<and> bit (active_cpus s) i \<and> i \<noteq> c \<and>
       (bit (realtime_cpus s) i \<longrightarrow> flags AND MP_RESCHEDULE_FLAG_REALTIME \<noteq> 0)))"
proof -
  define m where "m = (let t = target AND active_cpus s;
      t = (if flags AND MP_RESCHEDULE_FLAG_REALTIME = 0 then t AND NOT (realtime_cpus s) else t)
    in t AND NOT (push_bit c 1))"
  have "bit m i = (bit target i \<and> bit (active_cpus s) i \<and> i \<noteq> c \<and>
       (bit (realtime_cpus s) i \<longrightarrow> flags AND MP_RESCHEDULE_FLAG_REALTIME \<noteq> 0))" for i
  proof (cases "i < 32")
    case True
    then show ?thesis by (auto simp: m_def Let_def bit_and_iff bit_not_iff_eq bit_exp_iff)
  next
    case False
    then have "\<not> bit m i" "\<not> bit target i" using bit_imp_le_length [of m i] bit_imp_le_length [of target i] by auto
    then show ?thesis by simp
  qed
  then show ?thesis by (intro exI [of _ m] conjI allI) (simp_all add: mp_reschedule_def m_def Let_def)
qed

text \<open>
  C21: the priority a thread gives itself is clamped to the range between 1 and 31, so that no thread can
  share the idle priority or leave the run queue array, and the cpu then runs the best thread.
\<close>

theorem set_priority_clamped:
  assumes "kinv {} {} s" and "caller c s"
  shows "\<exists>s'. thread_set_priority c p s = Some s' \<and> kinv {} {} s' \<and> runs_best c s' \<and>
     priority (threads s' (current_thread s c)) = max 1 (min p 31)"
  by (rule thread_set_priority_kinv [OF assms(1), of c p]) (use assms(2) in \<open>auto simp: caller_def\<close>)

theorem set_priority_clamped_witness:
  "\<exists>s'. thread_set_priority 0 99 demo_kernel = Some s' \<and> runs_best 0 s' \<and> priority (threads s' 4) = 31"
proof -
  have "current_thread demo_kernel 0 = 4" by (simp add: demo_kernel_on_def)
  with set_priority_clamped [OF demo_kinv [of 0] demo_caller, of 99] show ?thesis by auto
qed

text \<open>
  C10: a sleeping thread will be woken: \<^verbatim>\<open>thread_sleep\<close> leaves the caller sleeping with its timer queued on
  this cpu for the requested delay (at least 1), and the callback of that timer makes the thread ready.
\<close>

theorem sleep_wakes_up:
  assumes "kinv {} {} s" and "caller c s"
  shows "\<exists>s'. thread_sleep c delay s = Some s' \<and> kinv {} {} s' \<and> runs_best c s' \<and>
     t_state (threads s' (current_thread s c)) = THREAD_SLEEPING \<and>
     ThreadTimer (current_thread s c) \<in> set (timer_queue s' c) \<and>
     scheduled_time (timers s' (ThreadTimer (current_thread s c))) = current_time s + (if delay = 0 then 1 else delay) \<and>
     (\<exists>s''. thread_sleep_handler (current_thread s c) s' = Some (INT_RESCHEDULE, s'') \<and>
        t_state (threads s'' (current_thread s c)) = THREAD_READY)"
proof -
  let ?t = "current_thread s c"
  have up: "cpu_up s c" and ni: "\<not> thread_is_idle (threads s ?t)" and fr: "block_frame s ?t = None"
    using assms(2) by (simp_all add: caller_def)
  obtain s' where s': "thread_sleep c delay s = Some s'" "kinv {} {} s'" "runs_best c s'"
    "t_state (threads s' ?t) = THREAD_SLEEPING" "ThreadTimer ?t \<in> set (timer_queue s' c)"
    "scheduled_time (timers s' (ThreadTimer ?t)) = current_time s + (if delay = 0 then 1 else delay)"
    by (rule thread_sleep_kinv [OF assms(1) up refl ni fr])
  have "timer_inv {} {} s'" using s'(2) by (simp add: kinv_def)
  from timer_invD(6) [OF this s'(5)] have l: "live s' ?t" by (simp add: thread_timer_ok_def)
  have "thread_ok {} s' ?t" by (rule kinv_thread_ok [OF s'(2) l])
  with s'(4) have "\<exists>s''. thread_sleep_handler ?t s' = Some (INT_RESCHEDULE, s'') \<and> t_state (threads s'' ?t) = THREAD_READY"
    by (simp add: thread_sleep_handler_def insert_in_run_queue_head_def thread_ok_def Let_def)
  with s' show ?thesis by - (rule exI [of _ s'], intro conjI)
qed

theorem sleep_wakes_up_witness:
  "\<exists>s'. thread_sleep 0 20 demo_kernel = Some s' \<and> t_state (threads s' 4) = THREAD_SLEEPING \<and>
     ThreadTimer 4 \<in> set (timer_queue s' 0) \<and> scheduled_time (timers s' (ThreadTimer 4)) = 25"
proof -
  have d: "current_thread demo_kernel 0 = 4" "current_time demo_kernel = 5" by (simp_all add: demo_kernel_on_def)
  from sleep_wakes_up [OF demo_kinv [of 0] demo_caller, of 20] show ?thesis unfolding d by auto
qed

text \<open>
  Making a thread real time while another cpu runs it breaks that cpu: \<^verbatim>\<open>thread_set_real_time\<close> succeeds but
  leaves the other cpu's preemption timer queued, so that the next switch there from the now real-time
  thread to an ordinary one queues the timer a second time and panics. In the sample state thread 4 runs
  on cpu 0, cpu 1 makes it real time, and its next yield panics.
\<close>

theorem set_real_time_remote_panics:
  "\<exists>s'. thread_set_real_time 1 (Some 4) demo_kernel = Some (NO_ERROR, s') \<and> thread_yield 0 s' = None"
proof -
  let ?s1 = "upd_thread 4 (\<lambda>th. th\<lparr>t_flags := t_flags th OR THREAD_FLAG_REAL_TIME\<rparr>) demo_kernel"
  have "thread_set_real_time 1 (Some 4) demo_kernel = Some (NO_ERROR, ?s1)"
    by (simp add: thread_set_real_time_def demo_defs)
  moreover have "thread_yield 0 ?s1 = None"
    by (simp add: thread_yield_def demo_defs thread_is_idle_def thread_flag_defs upd_thread_def stats_upd_def
        insert_in_run_queue_tail_def Let_def NUM_PRIORITIES_def,
      simp add: thread_resched_def upd_thread_def stats_upd_def get_top_thread_def demo_scan may_run_on_def Let_def,
      simp add: switch_accounts_def switch_preempt_timer_def timer_set_periodic_def timer_set_def timer_linked_def
        upd_thread_def stats_upd_def thread_is_idle_def thread_is_realtime_def thread_is_real_time_or_idle_def
        thread_flag_defs Let_def SMP_MAX_CPUS_def mp_set_cpu_busy_def mp_set_cpu_non_realtime_def)
  ultimately show ?thesis by blast
qed

end
