(* ===== verification/LK_Bytes.thy ===== *)
theory LK_Bytes
  imports LK_Prelude
begin

text \<open>
  Memory of bytes as lists: the part of a memory at a position (\<open>seg\<close>), replacing it (\<open>patch\<close>), and the
  copies \<^verbatim>\<open>memcpy\<close> and \<^verbatim>\<open>memset\<close> make, which have no value when they leave the memory. The laws let a proof
  about a sequence of copies be a proof about one: neighbouring segments join, neighbouring replacements join.
\<close>

definition seg :: "nat \<Rightarrow> nat \<Rightarrow> 'a list \<Rightarrow> 'a list" where
  "seg off n m = take n (drop off m)"

definition patch :: "nat \<Rightarrow> 'a list \<Rightarrow> 'a list \<Rightarrow> 'a list" where
  "patch off xs m = take off m @ xs @ drop (off + length xs) m"

definition mem_write :: "nat \<Rightarrow> 'a list \<Rightarrow> 'a list \<Rightarrow> 'a list option" where
  "mem_write off xs m = (if off + length xs \<le> length m then Some (patch off xs m) else None)"

definition mem_read :: "nat \<Rightarrow> nat \<Rightarrow> 'a list \<Rightarrow> 'a list option" where
  "mem_read off n m = (if off + n \<le> length m then Some (seg off n m) else None)"

text \<open>Arithmetic at 32 bits.\<close>

definition u32_of :: "nat \<Rightarrow> nat" where "u32_of n = n mod 2 ^ 32"

lemma u32_of_id: "n < 2 ^ 32 \<Longrightarrow> u32_of n = n"
  by (simp add: u32_of_def)

section \<open>Segments\<close>

lemma length_seg [simp]: "off + n \<le> length m \<Longrightarrow> length (seg off n m) = n"
  by (simp add: seg_def)

lemma seg_0 [simp]: "seg off 0 m = []"
  by (simp add: seg_def)

lemma seg_all [simp]: "n = length m \<Longrightarrow> seg 0 n m = m"
  by (simp add: seg_def)

lemma seg_add: "seg off a m @ seg (off + a) b m = seg off (a + b) m"
  by (simp add: seg_def take_add add.commute)

lemma seg_seg: "p + n \<le> k \<Longrightarrow> seg p n (seg q k m) = seg (q + p) n m"
  by (simp add: seg_def drop_take min_def add.commute)

lemma nth_seg [simp]: "i < n \<Longrightarrow> off + i < length m \<Longrightarrow> seg off n m ! i = m ! (off + i)"
  by (simp add: seg_def)

section \<open>Replacing\<close>

lemma length_patch [simp]: "off + length xs \<le> length m \<Longrightarrow> length (patch off xs m) = length m"
  by (simp add: patch_def)

lemma patch_Nil [simp]: "patch off [] m = m"
  by (simp add: patch_def)

lemma nth_patch:
  "off + length xs \<le> length m \<Longrightarrow> i < length m \<Longrightarrow>
   patch off xs m ! i = (if off \<le> i \<and> i < off + length xs then xs ! (i - off) else m ! i)"
  by (auto simp: patch_def nth_append)

lemma patch_next:
  assumes "off + length xs + length ys \<le> length m" and "q = off + length xs"
  shows "patch q ys (patch off xs m) = patch off (xs @ ys) m"
  by (rule nth_equalityI) (use assms in \<open>auto simp: nth_patch nth_append\<close>)

lemma patch_seg_next:
  assumes "s + a + b \<le> length m" and "p + a + b \<le> length buf"
  shows "patch (p + a) (seg (s + a) b m) (patch p (seg s a m) buf) = patch p (seg s (a + b) m) buf"
proof -
  have "p + length (seg s a m) + length (seg (s + a) b m) \<le> length buf" "p + a = p + length (seg s a m)"
    using assms by simp_all
  from patch_next [OF this] show ?thesis unfolding seg_add .
qed

lemma patch_part:
  assumes "q + k \<le> length m" and "p + length ys \<le> k"
  shows "patch q (patch p ys (seg q k m)) m = patch (q + p) ys m"
  by (rule nth_equalityI) (use assms in \<open>auto simp: nth_patch\<close>)

lemma seg_patch_same [simp]: "off + length xs \<le> length m \<Longrightarrow> n = length xs \<Longrightarrow> seg off n (patch off xs m) = xs"
  by (rule nth_equalityI) (auto simp: nth_patch)

lemma seg_patch_other:
  assumes "off + length xs \<le> length m" and "p + n \<le> off \<or> off + length xs \<le> p"
  shows "seg p n (patch off xs m) = seg p n m"
  by (rule nth_equalityI) (use assms in \<open>auto simp: seg_def nth_patch\<close>)

lemma seg_patch_inner:
  assumes "p + n \<le> length m" and "q + length xs \<le> n"
  shows "seg p n (patch (q + p) xs m) = patch q xs (seg p n m)"
  by (rule nth_equalityI) (use assms in \<open>auto simp: nth_patch\<close>)

section \<open>Copies\<close>

lemma mem_write_ok: "off + length xs \<le> length m \<Longrightarrow> mem_write off xs m = Some (patch off xs m)"
  by (simp add: mem_write_def)

lemma mem_read_ok: "off + n \<le> length m \<Longrightarrow> mem_read off n m = Some (seg off n m)"
  by (simp add: mem_read_def)

lemma mem_write_None: "length m < off + length xs \<Longrightarrow> mem_write off xs m = None"
  by (simp add: mem_write_def)

end
