(* ===== verification/LK_Ring.thy ===== *)
theory LK_Ring
  imports LK_Prelude
begin

text \<open>
  Circular buffers as lists: what a buffer of cells holds when \<open>n\<close> cells are in use from cell \<open>h\<close> on, and the
  contract of a bounded queue, which the packet buffers of the ports and the character buffers meet.
\<close>

section \<open>Circular arrays\<close>

definition ring :: "'x list \<Rightarrow> nat \<Rightarrow> nat \<Rightarrow> 'x list" where
  "ring xs h n = map (\<lambda>i. xs ! ((h + i) mod length xs)) [0..<n]"

lemma length_ring [simp]: "length (ring xs h n) = n"
  by (simp add: ring_def)

lemma ring_0 [simp]: "ring xs h 0 = []"
  by (simp add: ring_def)

lemma nth_ring: "i < n \<Longrightarrow> ring xs h n ! i = xs ! ((h + i) mod length xs)"
  by (simp add: ring_def)

lemma mod_add_inj:
  assumes "(i :: nat) < k" and "k < i + L"
  shows "(h + i) mod L \<noteq> (h + k) mod L"
proof
  assume "(h + i) mod L = (h + k) mod L"
  then have "L dvd (h + k) - (h + i)" using assms by (metis add_le_cancel_left less_imp_le_nat mod_eq_dvd_iff_nat)
  then have "L dvd k - i" by simp
  then show False using assms by (auto dest!: dvd_imp_le)
qed

lemma ring_write:
  assumes p: "p = (h + n) mod length xs" and fit: "p + length ys \<le> length xs" and room: "n + length ys \<le> length xs"
  shows "ring (take p xs @ ys @ drop (p + length ys) xs) h (n + length ys) = ring xs h n @ ys"
proof (rule nth_equalityI)
  let ?L = "length xs" and ?xs = "take p xs @ ys @ drop (p + length ys) xs"
  have L: "length ?xs = ?L" using fit by simp
  show "length (ring ?xs h (n + length ys)) = length (ring xs h n @ ys)" by simp
  fix i assume i: "i < length (ring ?xs h (n + length ys))"
  show "ring ?xs h (n + length ys) ! i = (ring xs h n @ ys) ! i"
  proof (cases "i < n")
    case True
    let ?j = "(h + i) mod ?L"
    have j: "?j < ?L" using True room by (intro mod_less_divisor) linarith
    have out: "?j < p \<or> p + length ys \<le> ?j"
    proof (rule ccontr)
      assume "\<not> (?j < p \<or> p + length ys \<le> ?j)"
      then obtain k where k: "k < length ys" "?j = p + k" by (metis add_diff_inverse_nat less_diff_conv2 linorder_not_le add.commute nat_le_linear)
      have "(h + (n + k)) mod ?L = ((h + n) mod ?L + k) mod ?L" by (simp add: add.assoc mod_simps)
      also have "\<dots> = p + k" using k fit by (simp add: p [symmetric])
      finally have "(h + i) mod ?L = (h + (n + k)) mod ?L" using k by simp
      moreover have "(h + i) mod ?L \<noteq> (h + (n + k)) mod ?L"
        by (rule mod_add_inj) (use True k room in linarith)+
      ultimately show False by simp
    qed
    have "?xs ! ?j = xs ! ?j"
      using out j fit by (auto simp: nth_append)
    then show ?thesis using True i L by (simp add: nth_ring nth_append)
  next
    case False
    then obtain k where k: "i = n + k" "k < length ys" using i by (metis add_less_cancel_left le_Suc_ex length_ring linorder_not_less)
    have "(h + (n + k)) mod ?L = ((h + n) mod ?L + k) mod ?L" by (simp add: add.assoc mod_simps)
    also have "\<dots> = p + k" using k fit by (simp add: p [symmetric])
    finally have "(h + i) mod ?L = p + k" by (simp add: k add.assoc)
    moreover have "?xs ! (p + k) = ys ! k" using k fit by (simp add: nth_append)
    ultimately show ?thesis using i L k by (simp add: nth_ring nth_append)
  qed
qed

lemma ring_push:
  assumes "n < length xs"
  shows "ring (xs[(h + n) mod length xs := x]) h (Suc n) = ring xs h n @ [x]"
proof -
  let ?p = "(h + n) mod length xs"
  have p: "?p < length xs" using assms by (intro mod_less_divisor) linarith
  have "xs[?p := x] = take ?p xs @ [x] @ drop (?p + length [x]) xs" using p by (simp add: upd_conv_take_nth_drop)
  with ring_write [OF refl, of h n xs "[x]"] p assms show ?thesis by simp
qed

lemma ring_read:
  assumes "k \<le> n" and "h + k \<le> length xs"
  shows "ring xs h n = take k (drop h xs) @ ring xs ((h + k) mod length xs) (n - k)"
proof (rule nth_equalityI)
  show "length (ring xs h n) = length (take k (drop h xs) @ ring xs ((h + k) mod length xs) (n - k))"
    using assms by simp
  fix i assume i: "i < length (ring xs h n)"
  show "ring xs h n ! i = (take k (drop h xs) @ ring xs ((h + k) mod length xs) (n - k)) ! i"
  proof (cases "i < k")
    case True
    then show ?thesis using i assms by (simp add: nth_ring nth_append)
  next
    case False
    then obtain j where j: "i = k + j" by (metis le_Suc_ex linorder_not_less)
    have "(h + i) mod length xs = ((h + k) mod length xs + j) mod length xs" by (simp add: j add.assoc mod_simps)
    then show ?thesis using i assms False by (simp add: nth_ring nth_append j)
  qed
qed

lemma ring_pop:
  assumes "0 < n" and "h < length xs"
  shows "ring xs h n = xs ! h # ring xs (Suc h mod length xs) (n - 1)"
  using ring_read [of 1 n h xs] assms by (simp add: take_Suc_conv_app_nth hd_drop_conv_nth take_Suc)

section \<open>The contract of a bounded queue\<close>

locale bounded_fifo =
  fixes inv :: "'q \<Rightarrow> bool" and contents :: "'q \<Rightarrow> 'x list" and room :: "'q \<Rightarrow> nat"
    and put :: "'x \<Rightarrow> 'q \<Rightarrow> 'q" and get :: "'q \<Rightarrow> 'x \<times> 'q"
  assumes put: "inv q \<Longrightarrow> 0 < room q \<Longrightarrow> inv (put x q) \<and> contents (put x q) = contents q @ [x] \<and> room (put x q) = room q - 1"
    and get: "inv q \<Longrightarrow> contents q \<noteq> [] \<Longrightarrow>
      fst (get q) = hd (contents q) \<and> inv (snd (get q)) \<and> contents (snd (get q)) = tl (contents q) \<and>
      room (snd (get q)) = room q + 1"
begin

fun puts :: "'x list \<Rightarrow> 'q \<Rightarrow> 'q" where
  "puts [] q = q"
| "puts (x # xs) q = puts xs (put x q)"

fun gets :: "nat \<Rightarrow> 'q \<Rightarrow> 'x list \<times> 'q" where
  "gets 0 q = ([], q)"
| "gets (Suc n) q = (let (x, q) = get q; (xs, q) = gets n q in (x # xs, q))"

lemma puts_spec:
  "inv q \<Longrightarrow> length xs \<le> room q \<Longrightarrow> inv (puts xs q) \<and> contents (puts xs q) = contents q @ xs \<and> room (puts xs q) = room q - length xs"
proof (induction xs arbitrary: q)
  case Nil
  then show ?case by simp
next
  case (Cons x xs)
  then have "inv (put x q)" "contents (put x q) = contents q @ [x]" "room (put x q) = room q - 1"
    using put [of q x] by simp_all
  with Cons.IH [of "put x q"] Cons.prems show ?case by simp
qed

lemma gets_spec:
  "inv q \<Longrightarrow> n \<le> length (contents q) \<Longrightarrow>
     fst (gets n q) = take n (contents q) \<and> inv (snd (gets n q)) \<and> contents (snd (gets n q)) = drop n (contents q)"
proof (induction n arbitrary: q)
  case 0
  then show ?case by simp
next
  case (Suc n)
  then have ne: "contents q \<noteq> []" by auto
  obtain x q' where g: "get q = (x, q')" by fastforce
  with get [OF Suc.prems(1) ne] have "x = hd (contents q)" "inv q'" "contents q' = tl (contents q)" by simp_all
  with Suc.IH [of q'] Suc.prems ne show ?case by (cases "contents q") (auto simp: g split: prod.split)
qed

text \<open>What goes in comes out, in order.\<close>

lemma fifo:
  assumes "inv q" and "contents q = []" and "length xs \<le> room q"
  shows "fst (gets (length xs) (puts xs q)) = xs"
  using puts_spec [OF assms(1,3)] gets_spec [of "puts xs q" "length xs"] assms(2) by simp

end

end
