(* ===== verification/LK_Sync.thy ===== *)
theory LK_Sync
  imports LK_Kernel_Spec
begin

text \<open>
  Events, mutexes and counting semaphores: \<^verbatim>\<open>kernel/event.c\<close>, \<^verbatim>\<open>kernel/mutex.c\<close> and
  \<^verbatim>\<open>kernel/semaphore.c\<close>, on top of the wait queues. The objects of the three kinds are numbered, and the
  wait queue embedded in an object is one of the numbered queues of \<open>LK_Thread\<close>. A call that waits is
  split at the switch as there: the second half is what the thread does once it runs again.
\<close>

section \<open>Data\<close>

definition EVENT_MAGIC :: int where "EVENT_MAGIC = 0x65766E74"
definition EVENT_FLAG_AUTOUNSIGNAL :: u32 where "EVENT_FLAG_AUTOUNSIGNAL = 1"
definition MUTEX_MAGIC :: int where "MUTEX_MAGIC = 0x6D757478"
definition SEMAPHORE_MAGIC :: int where "SEMAPHORE_MAGIC = 0x73656D61"

record event =
  e_magic :: int
  signaled :: bool
  e_flags :: u32

record mutex =
  m_magic :: int
  holder :: "tid option"
  m_count :: int

record semaphore =
  sem_magic :: int
  sem_count :: int

record sync_state = kstate +
  events :: "nat \<Rightarrow> event"
  mutexes :: "nat \<Rightarrow> mutex"
  semaphores :: "nat \<Rightarrow> semaphore"

text \<open>The wait queues inside the objects.\<close>

definition event_wait_queue :: "nat \<Rightarrow> wq_id" where "event_wait_queue e = ObjWq (4 * e)"
definition mutex_wait_queue :: "nat \<Rightarrow> wq_id" where "mutex_wait_queue m = ObjWq (4 * m + 1)"
definition sem_wait_queue :: "nat \<Rightarrow> wq_id" where "sem_wait_queue m = ObjWq (4 * m + 2)"

definition upd_event :: "nat \<Rightarrow> (event \<Rightarrow> event) \<Rightarrow> 'a sync_state_scheme \<Rightarrow> 'a sync_state_scheme" where
  "upd_event e f s = s\<lparr>events := (events s)(e := f (events s e))\<rparr>"

definition upd_mutex :: "nat \<Rightarrow> (mutex \<Rightarrow> mutex) \<Rightarrow> 'a sync_state_scheme \<Rightarrow> 'a sync_state_scheme" where
  "upd_mutex m f s = s\<lparr>mutexes := (mutexes s)(m := f (mutexes s m))\<rparr>"

definition upd_sem :: "nat \<Rightarrow> (semaphore \<Rightarrow> semaphore) \<Rightarrow> 'a sync_state_scheme \<Rightarrow> 'a sync_state_scheme" where
  "upd_sem m f s = s\<lparr>semaphores := (semaphores s)(m := f (semaphores s m))\<rparr>"

section \<open>Events: the operations\<close>

definition event_init :: "nat \<Rightarrow> bool \<Rightarrow> u32 \<Rightarrow> 'a sync_state_scheme \<Rightarrow> 'a sync_state_scheme" where
  "event_init e initial flags s =
     wait_queue_init (event_wait_queue e)
       (upd_event e (\<lambda>_. \<lparr>e_magic = EVENT_MAGIC, signaled = initial, e_flags = flags\<rparr>) s)"

definition event_destroy :: "cpu \<Rightarrow> nat \<Rightarrow> 'a sync_state_scheme \<Rightarrow> (unit call \<times> 'a sync_state_scheme) option" where
  "event_destroy cpu e s =
     do {
       dassert (e_magic (events s e) = EVENT_MAGIC);
       let s = upd_event e (\<lambda>ev. ev\<lparr>e_magic := 0, signaled := False, e_flags := 0\<rparr>) s;
       wait_queue_destroy cpu (event_wait_queue e) True s
     }"

definition event_wait_timeout :: "cpu \<Rightarrow> nat \<Rightarrow> lk_time_t \<Rightarrow> 'a sync_state_scheme \<Rightarrow> (status_t call \<times> 'a sync_state_scheme) option" where
  "event_wait_timeout cpu e timeout s =
     do {
       dassert (e_magic (events s e) = EVENT_MAGIC);
       if signaled (events s e) then
         Some (Ret NO_ERROR,
           if e_flags (events s e) AND EVENT_FLAG_AUTOUNSIGNAL \<noteq> 0
           then upd_event e (\<lambda>ev. ev\<lparr>signaled := False\<rparr>) s else s)
       else wait_queue_block cpu (event_wait_queue e) timeout s
     }"

definition event_wait_resume :: "cpu \<Rightarrow> 'a sync_state_scheme \<Rightarrow> (status_t \<times> 'a sync_state_scheme) option" where
  "event_wait_resume cpu s = wait_queue_block_resume cpu s"

definition event_signal :: "cpu \<Rightarrow> nat \<Rightarrow> bool \<Rightarrow> 'a sync_state_scheme \<Rightarrow> (status_t \<times> 'a sync_state_scheme) option" where
  "event_signal cpu e reschedule s =
     do {
       dassert (e_magic (events s e) = EVENT_MAGIC);
       if signaled (events s e) then Some (NO_ERROR, s)
       else if e_flags (events s e) AND EVENT_FLAG_AUTOUNSIGNAL \<noteq> 0 then do {
         (n, s) \<leftarrow> wait_queue_wake_one cpu (event_wait_queue e) reschedule NO_ERROR s;
         Some (NO_ERROR, if n \<le> 0 then upd_event e (\<lambda>ev. ev\<lparr>signaled := True\<rparr>) s else s)
       } else do {
         (_, s) \<leftarrow> wait_queue_wake_all cpu (event_wait_queue e) reschedule NO_ERROR
                     (upd_event e (\<lambda>ev. ev\<lparr>signaled := True\<rparr>) s);
         Some (NO_ERROR, s)
       }
     }"

definition event_unsignal :: "nat \<Rightarrow> 'a sync_state_scheme \<Rightarrow> (status_t \<times> 'a sync_state_scheme) option" where
  "event_unsignal e s =
     do {
       dassert (e_magic (events s e) = EVENT_MAGIC);
       Some (NO_ERROR, upd_event e (\<lambda>ev. ev\<lparr>signaled := False\<rparr>) s)
     }"

section \<open>Mutexes: the operations\<close>

definition mutex_init :: "nat \<Rightarrow> 'a sync_state_scheme \<Rightarrow> 'a sync_state_scheme" where
  "mutex_init m s =
     wait_queue_init (mutex_wait_queue m) (upd_mutex m (\<lambda>_. \<lparr>m_magic = MUTEX_MAGIC, holder = None, m_count = 0\<rparr>) s)"

definition mutex_destroy :: "cpu \<Rightarrow> nat \<Rightarrow> 'a sync_state_scheme \<Rightarrow> (unit call \<times> 'a sync_state_scheme) option" where
  "mutex_destroy cpu m s =
     do {
       dassert (m_magic (mutexes s m) = MUTEX_MAGIC);
       dassert (\<not> (holder (mutexes s m) \<noteq> None \<and> Some (current_thread s cpu) \<noteq> holder (mutexes s m)));
       let s = upd_mutex m (\<lambda>mu. mu\<lparr>m_magic := 0, m_count := 0\<rparr>) s;
       wait_queue_destroy cpu (mutex_wait_queue m) True s
     }"

text \<open>The end of \<^verbatim>\<open>mutex_acquire_timeout\<close> for a caller that had to wait, given what the wait returned.\<close>

definition mutex_acquire_finish :: "cpu \<Rightarrow> nat \<Rightarrow> status_t \<Rightarrow> 'a sync_state_scheme \<Rightarrow> 'a sync_state_scheme" where
  "mutex_acquire_finish cpu m ret s =
     (if ret < NO_ERROR then
        (if ret = ERR_TIMED_OUT then upd_mutex m (\<lambda>mu. mu\<lparr>m_count := m_count mu - 1\<rparr>) s else s)
      else upd_mutex m (\<lambda>mu. mu\<lparr>holder := Some (current_thread s cpu)\<rparr>) s)"

definition mutex_acquire_timeout :: "cpu \<Rightarrow> nat \<Rightarrow> lk_time_t \<Rightarrow> 'a sync_state_scheme \<Rightarrow> (status_t call \<times> 'a sync_state_scheme) option" where
  "mutex_acquire_timeout cpu m timeout s =
     do {
       dassert (m_magic (mutexes s m) = MUTEX_MAGIC);
       dassert (Some (current_thread s cpu) \<noteq> holder (mutexes s m));
       let s = upd_mutex m (\<lambda>mu. mu\<lparr>m_count := m_count mu + 1\<rparr>) s;
       if m_count (mutexes s m) > 1 then do {
         (r, s) \<leftarrow> wait_queue_block cpu (mutex_wait_queue m) timeout s;
         Some (r, case r of Blocked \<Rightarrow> s | Ret ret \<Rightarrow> mutex_acquire_finish cpu m ret s)
       } else Some (Ret NO_ERROR, upd_mutex m (\<lambda>mu. mu\<lparr>holder := Some (current_thread s cpu)\<rparr>) s)
     }"

definition mutex_acquire_resume :: "cpu \<Rightarrow> nat \<Rightarrow> 'a sync_state_scheme \<Rightarrow> (status_t \<times> 'a sync_state_scheme) option" where
  "mutex_acquire_resume cpu m s =
     do {
       (ret, s) \<leftarrow> wait_queue_block_resume cpu s;
       Some (ret, mutex_acquire_finish cpu m ret s)
     }"

definition mutex_release :: "cpu \<Rightarrow> nat \<Rightarrow> 'a sync_state_scheme \<Rightarrow> (status_t \<times> 'a sync_state_scheme) option" where
  "mutex_release cpu m s =
     do {
       dassert (m_magic (mutexes s m) = MUTEX_MAGIC);
       dassert (Some (current_thread s cpu) = holder (mutexes s m));
       let s = upd_mutex m (\<lambda>mu. mu\<lparr>holder := None, m_count := m_count mu - 1\<rparr>) s;
       s \<leftarrow> (if m_count (mutexes s m) \<ge> 1
              then map_option snd (wait_queue_wake_one cpu (mutex_wait_queue m) True NO_ERROR s) else Some s);
       Some (NO_ERROR, s)
     }"

section \<open>Semaphores: the operations\<close>

text \<open>\<^verbatim>\<open>sem_init\<close> stores its unsigned argument in a signed field.\<close>

definition sem_init :: "nat \<Rightarrow> u32 \<Rightarrow> 'a sync_state_scheme \<Rightarrow> 'a sync_state_scheme" where
  "sem_init m val s =
     wait_queue_init (sem_wait_queue m) (upd_sem m (\<lambda>_. \<lparr>sem_magic = SEMAPHORE_MAGIC, sem_count = sint val\<rparr>) s)"

definition sem_destroy :: "cpu \<Rightarrow> nat \<Rightarrow> 'a sync_state_scheme \<Rightarrow> (unit call \<times> 'a sync_state_scheme) option" where
  "sem_destroy cpu m s = wait_queue_destroy cpu (sem_wait_queue m) True (upd_sem m (\<lambda>x. x\<lparr>sem_count := 0\<rparr>) s)"

definition sem_post :: "cpu \<Rightarrow> nat \<Rightarrow> bool \<Rightarrow> 'a sync_state_scheme \<Rightarrow> (int \<times> 'a sync_state_scheme) option" where
  "sem_post cpu m resched s =
     (let s = upd_sem m (\<lambda>x. x\<lparr>sem_count := sem_count x + 1\<rparr>) s in
      if sem_count (semaphores s m) \<le> 0 then wait_queue_wake_one cpu (sem_wait_queue m) resched NO_ERROR s
      else Some (0, s))"

definition sem_wait :: "cpu \<Rightarrow> nat \<Rightarrow> 'a sync_state_scheme \<Rightarrow> (status_t call \<times> 'a sync_state_scheme) option" where
  "sem_wait cpu m s =
     (let s = upd_sem m (\<lambda>x. x\<lparr>sem_count := sem_count x - 1\<rparr>) s in
      if sem_count (semaphores s m) < 0 then wait_queue_block cpu (sem_wait_queue m) INFINITE_TIME s
      else Some (Ret NO_ERROR, s))"

definition sem_wait_resume :: "cpu \<Rightarrow> 'a sync_state_scheme \<Rightarrow> (status_t \<times> 'a sync_state_scheme) option" where
  "sem_wait_resume cpu s = wait_queue_block_resume cpu s"

definition sem_trywait :: "nat \<Rightarrow> 'a sync_state_scheme \<Rightarrow> status_t \<times> 'a sync_state_scheme" where
  "sem_trywait m s =
     (if sem_count (semaphores s m) \<le> 0 then (ERR_NOT_READY, s)
      else (NO_ERROR, upd_sem m (\<lambda>x. x\<lparr>sem_count := sem_count x - 1\<rparr>) s))"

definition sem_timedwait_finish :: "nat \<Rightarrow> status_t \<Rightarrow> 'a sync_state_scheme \<Rightarrow> 'a sync_state_scheme" where
  "sem_timedwait_finish m ret s =
     (if ret < NO_ERROR \<and> ret = ERR_TIMED_OUT then upd_sem m (\<lambda>x. x\<lparr>sem_count := sem_count x + 1\<rparr>) s else s)"

definition sem_timedwait :: "cpu \<Rightarrow> nat \<Rightarrow> lk_time_t \<Rightarrow> 'a sync_state_scheme \<Rightarrow> (status_t call \<times> 'a sync_state_scheme) option" where
  "sem_timedwait cpu m timeout s =
     (let s = upd_sem m (\<lambda>x. x\<lparr>sem_count := sem_count x - 1\<rparr>) s in
      if sem_count (semaphores s m) < 0 then do {
        (r, s) \<leftarrow> wait_queue_block cpu (sem_wait_queue m) timeout s;
        Some (r, case r of Blocked \<Rightarrow> s | Ret ret \<Rightarrow> sem_timedwait_finish m ret s)
      } else Some (Ret NO_ERROR, s))"

definition sem_timedwait_resume :: "cpu \<Rightarrow> nat \<Rightarrow> 'a sync_state_scheme \<Rightarrow> (status_t \<times> 'a sync_state_scheme) option" where
  "sem_timedwait_resume cpu m s =
     do {
       (ret, s) \<leftarrow> wait_queue_block_resume cpu s;
       Some (ret, sem_timedwait_finish m ret s)
     }"

section \<open>What the scheduler does to the objects\<close>

lemma sync_more:
  fixes s s' :: "'a sync_state_scheme"
  assumes "kstate.more s' = kstate.more s"
  shows "events s' = events s" "mutexes s' = mutexes s" "semaphores s' = semaphores s"
    "sync_state.more s' = sync_state.more s"
  using assms by (cases s; cases s'; simp)+

lemma upd_sync_sel [simp]:
  "threads (upd_event e fe s) = threads s" "threads (upd_mutex m fm s) = threads s" "threads (upd_sem m fs s) = threads s"
  "thread_list (upd_event e fe s) = thread_list s" "thread_list (upd_mutex m fm s) = thread_list s"
  "thread_list (upd_sem m fs s) = thread_list s"
  "wait_queues (upd_event e fe s) = wait_queues s" "wait_queues (upd_mutex m fm s) = wait_queues s"
  "wait_queues (upd_sem m fs s) = wait_queues s"
  "current_thread (upd_event e fe s) = current_thread s" "current_thread (upd_mutex m fm s) = current_thread s"
  "current_thread (upd_sem m fs s) = current_thread s"
  "block_frame (upd_event e fe s) = block_frame s" "block_frame (upd_mutex m fm s) = block_frame s"
  "block_frame (upd_sem m fs s) = block_frame s"
  "events (upd_event e fe s) = (events s)(e := fe (events s e))"
  "mutexes (upd_mutex m fm s) = (mutexes s)(m := fm (mutexes s m))"
  "semaphores (upd_sem m fs s) = (semaphores s)(m := fs (semaphores s m))"
  "sync_state.more (upd_event e fe s) = sync_state.more s" "sync_state.more (upd_mutex m fm s) = sync_state.more s"
  "sync_state.more (upd_sem m fs s) = sync_state.more s"
  by (simp_all add: upd_event_def upd_mutex_def upd_sem_def)

lemma kinv_sync [simp]:
  "kinv sw D (upd_event e fe s) = kinv sw D s" "kinv sw D (upd_mutex m fm s) = kinv sw D s"
  "kinv sw D (upd_sem m fs s) = kinv sw D s"
  by (rule kinv_cong; simp add: upd_event_def upd_mutex_def upd_sem_def)+

lemma cpu_sync [simp]:
  "cpu_up (upd_event e fe s) c = cpu_up s c" "cpu_up (upd_mutex m fm s) c = cpu_up s c" "cpu_up (upd_sem m fs s) c = cpu_up s c"
  "caller c (upd_event e fe s) = caller c s" "caller c (upd_mutex m fm s) = caller c s" "caller c (upd_sem m fs s) = caller c s"
  by (simp_all add: caller_def cpu_up_def live_def)

text \<open>
  The threads between the wake-up and the end of their wait in a queue: they have been taken off the
  queue with status \<open>err\<close> but have not run since.
\<close>

definition pending :: "wq_id \<Rightarrow> status_t \<Rightarrow> 'a kstate_scheme \<Rightarrow> tid set" where
  "pending w err s = {t \<in> set (thread_list s).
     (case block_frame s t of None \<Rightarrow> False | Some (w', _) \<Rightarrow> w' = w) \<and>
     t_state (threads s t) \<noteq> THREAD_BLOCKED \<and> wait_queue_block_ret (threads s t) = err}"

lemma finite_pending [simp]: "finite (pending w err s)"
  by (simp add: pending_def)

lemma pending_sync [simp]:
  "pending w err (upd_event e fe s) = pending w err s" "pending w err (upd_mutex m fm s) = pending w err s"
  "pending w err (upd_sem m fs s) = pending w err s"
  by (simp_all add: pending_def)

lemma pending_woken:
  assumes k: "kinv {} {} s" and w: "woken ts err s s'" and ts: "ts \<subseteq> set (wq_list (wait_queues s w))"
  shows "pending v e s' = pending v e s \<union> (if v = w \<and> e = err then ts else {})"
proof (rule set_eqI)
  fix t
  have fr: "block_frame s' = block_frame s" "thread_list s' = thread_list s" using w by (simp_all add: woken_def)
  show "t \<in> pending v e s' \<longleftrightarrow> t \<in> pending v e s \<union> (if v = w \<and> e = err then ts else {})"
  proof (cases "t \<in> ts")
    case True
    with ts have tin: "t \<in> set (wq_list (wait_queues s w))" by blast
    note q = kinv_waiter [OF k tin]
    have "thread_same (make_ready err (threads s t)) (threads s' t)" "awake (t_state (threads s' t))"
      by (rule wokenD [OF w True])+
    then have "wait_queue_block_ret (threads s' t) = err" "t_state (threads s' t) \<noteq> THREAD_BLOCKED"
      by (auto simp: thread_same_def make_ready_def awake_def)
    moreover obtain timeout where "block_frame s t = Some (w, timeout)" using q(7) by blast
    ultimately show ?thesis using True q(1,3) by (auto simp: pending_def fr live_def)
  next
    case False
    have a: "\<forall>x. thread_same (if x \<in> ts then make_ready err (threads s x) else threads s x) (threads s' x)"
      using w unfolding woken_def by (elim conjE)
    have b: "\<forall>x. wake_state (x \<in> ts) (t_state (threads s x)) (t_state (threads s' x))"
      using w unfolding woken_def by (elim conjE)
    have "thread_same (threads s t) (threads s' t)" "wake_state False (t_state (threads s t)) (t_state (threads s' t))"
      using a [THEN spec, of t] b [THEN spec, of t] False by simp_all
    then have "wait_queue_block_ret (threads s' t) = wait_queue_block_ret (threads s t)"
      "(t_state (threads s' t) = THREAD_BLOCKED) = (t_state (threads s t) = THREAD_BLOCKED)"
      by (auto simp: thread_same_def wake_state_def awake_def)
    with False show ?thesis by (auto simp: pending_def fr)
  qed
qed

lemma pending_block:
  assumes nf: "block_frame s t = None" and fr: "block_frame s' = (block_frame s)(t := Some (w, timeout))"
    and st: "t_state (threads s' t) = THREAD_BLOCKED" and tl: "thread_list s' = thread_list s"
    and same: "\<And>x. x \<noteq> t \<Longrightarrow> thread_same (threads s x) (threads s' x)"
      "\<And>x. x \<noteq> t \<Longrightarrow> wake_state False (t_state (threads s x)) (t_state (threads s' x))"
  shows "pending v e s' = pending v e s"
proof (rule set_eqI)
  fix x
  show "x \<in> pending v e s' \<longleftrightarrow> x \<in> pending v e s"
  proof (cases "x = t")
    case True
    then show ?thesis using nf st by (simp add: pending_def fr)
  next
    case False
    then show ?thesis using same [of x] by (auto simp: pending_def fr tl thread_same_def wake_state_def awake_def)
  qed
qed

lemma pending_resume:
  assumes "block_frame s' = (block_frame s)(t := None)" "threads s' = threads s" "thread_list s' = thread_list s"
  shows "pending v e s' = pending v e s - {t}"
  by (auto simp: pending_def assms)

text \<open>The calls of the scheduler the objects make, with their effect on the waiting and the pending threads.\<close>

lemma sync_block:
  fixes s :: "'a sync_state_scheme"
  assumes k: "kinv {} {} s" and cl: "caller c s" and mg: "wq_magic (wait_queues s (ObjWq w)) = WAIT_QUEUE_MAGIC"
    and to: "timeout \<noteq> 0"
  obtains s' where "wait_queue_block c (ObjWq w) timeout s = Some (Blocked, s')" and "kinv {} {} s'"
    and "wait_queues s' = (wait_queues s)(ObjWq w := (wait_queues s (ObjWq w))\<lparr>
           wq_list := wq_list (wait_queues s (ObjWq w)) @ [current_thread s c],
           wq_count := wq_count (wait_queues s (ObjWq w)) + 1\<rparr>)"
    and "\<And>v e. pending v e s' = pending v e s"
    and "events s' = events s" and "mutexes s' = mutexes s" and "semaphores s' = semaphores s"
    and "sync_state.more s' = sync_state.more s"
proof -
  let ?t = "current_thread s c"
  have up: "cpu_up s c" and ni: "\<not> thread_is_idle (threads s ?t)" and fr: "block_frame s ?t = None"
    using cl by (simp_all add: caller_def)
  obtain s' where s': "wait_queue_block c (ObjWq w) timeout s = Some (Blocked, s')" "kinv {} {} s'"
    "wait_queues s' = (wait_queues s)(ObjWq w := (wait_queues s (ObjWq w))\<lparr>
       wq_list := wq_list (wait_queues s (ObjWq w)) @ [?t], wq_count := wq_count (wait_queues s (ObjWq w)) + 1\<rparr>)"
    "block_frame s' = (block_frame s)(?t := Some (ObjWq w, timeout))" "t_state (threads s' ?t) = THREAD_BLOCKED"
    "\<And>x. x \<noteq> ?t \<Longrightarrow> thread_same (threads s x) (threads s' x)"
    "\<And>x. x \<noteq> ?t \<Longrightarrow> wake_state False (t_state (threads s x)) (t_state (threads s' x))"
    "thread_list s' = thread_list s" "kstate.more s' = kstate.more s"
    by (rule wait_queue_block_kinv [OF k up refl ni fr mg to]) (simp, (rule that; assumption))
  show ?thesis
    by (rule that [OF s'(1-3) pending_block [OF fr s'(4,5,8,6,7)] sync_more [OF s'(9)]])
qed

lemma sync_resume:
  fixes s :: "'a sync_state_scheme"
  assumes k: "kinv {} {} s" and up: "cpu_up s c" and fr: "block_frame s (current_thread s c) = Some (w, timeout)"
  obtains s' where "wait_queue_block_resume c s = Some (wait_queue_block_ret (threads s (current_thread s c)), s')"
    and "kinv {} {} s'" and "wait_queues s' = wait_queues s"
    and "\<And>v e. pending v e s' = pending v e s - {current_thread s c}"
    and "events s' = events s" and "mutexes s' = mutexes s" and "semaphores s' = semaphores s"
    and "sync_state.more s' = sync_state.more s"
    and "current_thread s' = current_thread s" and "caller c s'"
proof -
  let ?t = "current_thread s c"
  obtain s' where s': "wait_queue_block_resume c s = Some (wait_queue_block_ret (threads s ?t), s')" "kinv {} {} s'"
    "threads s' = threads s" "wait_queues s' = wait_queues s" "current_thread s' = current_thread s"
    "thread_list s' = thread_list s" "block_frame s' = (block_frame s)(?t := None)" "kstate.more s' = kstate.more s"
    by (rule wait_queue_block_resume_kinv [OF k up refl fr]) (rule that; assumption)
  have ni: "\<not> thread_is_idle (threads s ?t)" using k frame_invD(1) [of "{}" s ?t] fr by (simp add: kinv_def)
  have "caller c s'" using up ni by (simp add: caller_def cpu_up_def live_def s'(3,5-7))
  then show ?thesis
    by (rule that [OF s'(1,2,4) pending_resume [OF s'(7,3,6)] sync_more [OF s'(8)] s'(5)])
qed

lemma sync_wake_one:
  fixes s :: "'a sync_state_scheme"
  assumes k: "kinv {} {} s" and up: "cpu_up s c" and l: "wq_list (wait_queues s w) = t # ts"
    and ni: "r \<Longrightarrow> caller c s"
  obtains s' where "wait_queue_wake_one c w r err s = Some (1, s')" and "kinv {} {} s'"
    and "wait_queues s' = (wait_queues s)(w := (wait_queues s w)\<lparr>wq_list := ts, wq_count := wq_count (wait_queues s w) - 1\<rparr>)"
    and "\<And>v e. pending v e s' = pending v e s \<union> (if v = w \<and> e = err then {t} else {})"
    and "events s' = events s" and "mutexes s' = mutexes s" and "semaphores s' = semaphores s"
    and "sync_state.more s' = sync_state.more s" and "cpu_up s' c"
    and "t \<notin> pending w err s"
proof -
  obtain s' where s': "wait_queue_wake_one c w r err s = Some (1, s')" "kinv {} {} s'" "woken {t} err s s'"
    "wait_queues s' = (wait_queues s)(w := (wait_queues s w)\<lparr>wq_list := ts, wq_count := wq_count (wait_queues s w) - 1\<rparr>)"
    by (rule wait_queue_wake_one_kinv [OF k up l, of r err]) (use ni in \<open>simp add: caller_def\<close>, (rule that; assumption))
  have m: "kstate.more s' = kstate.more s" "thread_list s' = thread_list s" using s'(3) by (simp_all add: woken_def)
  have "{t} \<subseteq> set (wq_list (wait_queues s w))" using l by simp
  note p = pending_woken [OF k s'(3) this]
  have "t \<in> set (wq_list (wait_queues s w))" using l by simp
  from kinv_waiter(3) [OF k this] have "t \<notin> pending w err s" by (simp add: pending_def)
  moreover have "cpu_up s' c" using up by (simp add: cpu_up_def live_def m)
  ultimately show ?thesis by (intro that [OF s'(1,2,4) p sync_more [OF m(1)]])
qed

lemma sync_wake_all:
  fixes s :: "'a sync_state_scheme"
  assumes k: "kinv {} {} s" and up: "cpu_up s c" and mg: "wq_magic (wait_queues s w) = WAIT_QUEUE_MAGIC"
    and ni: "r \<Longrightarrow> caller c s"
  obtains s' where "wait_queue_wake_all c w r err s = Some (int (length (wq_list (wait_queues s w))), s')" and "kinv {} {} s'"
    and "wait_queues s' = (wait_queues s)(w := (wait_queues s w)\<lparr>wq_list := [], wq_count := 0\<rparr>)"
    and "\<And>v e. pending v e s' = pending v e s \<union> (if v = w \<and> e = err then set (wq_list (wait_queues s w)) else {})"
    and "events s' = events s" and "mutexes s' = mutexes s" and "semaphores s' = semaphores s"
    and "sync_state.more s' = sync_state.more s"
proof -
  obtain s' where s': "wait_queue_wake_all c w r err s = Some (int (length (wq_list (wait_queues s w))), s')" "kinv {} {} s'"
    "woken (set (wq_list (wait_queues s w))) err s s'"
    "wait_queues s' = (wait_queues s)(w := (wait_queues s w)\<lparr>wq_list := [], wq_count := 0\<rparr>)"
    by (rule wait_queue_wake_all_kinv [OF k up mg, of r err]) (use ni in \<open>simp add: caller_def\<close>, (rule that; assumption))
  have m: "kstate.more s' = kstate.more s" using s'(3) by (simp add: woken_def)
  show ?thesis by (rule that [OF s'(1,2,4) pending_woken [OF k s'(3) order_refl] sync_more [OF m]])
qed

section \<open>Mutexes: mutual exclusion\<close>

text \<open>
  The count of a mutex covers its holder, the threads in its queue, the thread it has been handed to that
  has not run yet, and the threads whose wait timed out that have not run yet; at most one thread holds it
  or has been handed it.
\<close>

definition mutex_inv :: "nat \<Rightarrow> 'a sync_state_scheme \<Rightarrow> bool" where
  "mutex_inv m s \<longleftrightarrow>
     m_magic (mutexes s m) = MUTEX_MAGIC \<and> wq_magic (wait_queues s (mutex_wait_queue m)) = WAIT_QUEUE_MAGIC \<and>
     m_count (mutexes s m) = (if holder (mutexes s m) = None then 0 else 1) +
       int (card (pending (mutex_wait_queue m) NO_ERROR s)) + int (card (pending (mutex_wait_queue m) ERR_TIMED_OUT s)) +
       int (length (wq_list (wait_queues s (mutex_wait_queue m)))) \<and>
     card (pending (mutex_wait_queue m) NO_ERROR s) \<le> (if holder (mutexes s m) = None then 1 else 0)"

lemma mutex_wq_obj: "mutex_wait_queue m = ObjWq (4 * m + 1)"
  by (simp add: mutex_wait_queue_def)

lemma current_not_pending:
  assumes "block_frame s t = None"
  shows "t \<notin> pending w e s"
  using assms by (simp add: pending_def)

lemma mutex_acquire_ok:
  assumes k: "kinv {} {} s" and cl: "caller c s" and i: "mutex_inv m s" and nh: "holder (mutexes s m) \<noteq> Some (current_thread s c)"
  shows "\<exists>r s'. mutex_acquire_timeout c m timeout s = Some (r, s') \<and> kinv {} {} s' \<and> mutex_inv m s' \<and>
     (if m_count (mutexes s m) = 0 then r = Ret NO_ERROR \<and> holder (mutexes s' m) = Some (current_thread s c)
      else if timeout = 0 then r = Ret ERR_TIMED_OUT \<and> mutexes s' = mutexes s
      else r = Blocked \<and> holder (mutexes s' m) = holder (mutexes s m) \<and>
        wq_list (wait_queues s' (mutex_wait_queue m)) = wq_list (wait_queues s (mutex_wait_queue m)) @ [current_thread s c] \<and>
        (\<forall>e. pending (mutex_wait_queue m) e s' = pending (mutex_wait_queue m) e s))"
proof -
  let ?q = "mutex_wait_queue m" and ?t = "current_thread s c"
  let ?s1 = "upd_mutex m (\<lambda>mu. mu\<lparr>m_count := m_count mu + 1\<rparr>) s"
  have mg: "m_magic (mutexes s m) = MUTEX_MAGIC" "wq_magic (wait_queues s ?q) = WAIT_QUEUE_MAGIC"
    and cnt: "m_count (mutexes s m) = (if holder (mutexes s m) = None then 0 else 1) +
       int (card (pending ?q NO_ERROR s)) + int (card (pending ?q ERR_TIMED_OUT s)) + int (length (wq_list (wait_queues s ?q)))"
    and gr: "card (pending ?q NO_ERROR s) \<le> (if holder (mutexes s m) = None then 1 else 0)"
    using i unfolding mutex_inv_def by blast+
  have up: "cpu_up s c" using cl by (simp add: caller_def)
  consider (free) "m_count (mutexes s m) = 0" | (poll) "m_count (mutexes s m) \<noteq> 0" "timeout = 0"
    | (wait) "m_count (mutexes s m) \<noteq> 0" "timeout \<noteq> 0" by blast
  then show ?thesis
  proof cases
    case free
    let ?s' = "upd_mutex m (\<lambda>mu. mu\<lparr>holder := Some ?t\<rparr>) ?s1"
    have e: "mutex_acquire_timeout c m timeout s = Some (Ret NO_ERROR, ?s')"
      using mg nh free by (simp add: mutex_acquire_timeout_def Let_def)
    have h: "holder (mutexes s m) = None" using cnt free by (cases "holder (mutexes s m)") simp_all
    have z: "int (card (pending ?q NO_ERROR s)) + int (card (pending ?q ERR_TIMED_OUT s)) + int (length (wq_list (wait_queues s ?q))) = 0"
      using cnt free h by simp
    have "card (pending ?q NO_ERROR s) = 0" "card (pending ?q ERR_TIMED_OUT s) = 0" "length (wq_list (wait_queues s ?q)) = 0"
      using z by linarith+
    then have "mutex_inv m ?s'" using mg free by (simp add: mutex_inv_def)
    with e k free show ?thesis by (intro exI [of _ "Ret NO_ERROR"] exI [of _ ?s'] conjI) simp_all
  next
    case poll
    let ?s' = "upd_mutex m (\<lambda>mu. mu\<lparr>m_count := m_count mu - 1\<rparr>) ?s1"
    have cp: "m_count (mutexes s m) + 1 > 1" using cnt poll by (auto split: if_splits)
    have "?s' = s" by (simp add: upd_mutex_def)
    moreover have "t_state (threads s ?t) = THREAD_RUNNING" using kinv_cpu(3) [OF k up] by simp
    ultimately have e: "mutex_acquire_timeout c m timeout s = Some (Ret ERR_TIMED_OUT, s)"
      using mg nh poll cp by (simp add: mutex_acquire_timeout_def wait_queue_block_def mutex_acquire_finish_def Let_def)
    with k i poll show ?thesis by (intro exI [of _ "Ret ERR_TIMED_OUT"] exI [of _ s] conjI) simp_all
  next
    case wait
    have cp: "m_count (mutexes s m) + 1 > 1" using cnt wait by (auto split: if_splits)
    obtain s' where s': "wait_queue_block c ?q timeout ?s1 = Some (Blocked, s')" "kinv {} {} s'"
      "wait_queues s' = (wait_queues ?s1)(?q := (wait_queues ?s1 ?q)\<lparr>
           wq_list := wq_list (wait_queues ?s1 ?q) @ [current_thread ?s1 c], wq_count := wq_count (wait_queues ?s1 ?q) + 1\<rparr>)"
      "\<And>v e. pending v e s' = pending v e ?s1" "mutexes s' = mutexes ?s1"
      unfolding mutex_wq_obj
      by (rule sync_block [of ?s1 c "4 * m + 1" timeout]) (use k cl mg wait in \<open>simp_all add: mutex_wq_obj\<close>, (rule that; assumption)?)
    have e: "mutex_acquire_timeout c m timeout s = Some (Blocked, s')"
      using mg nh cp s'(1) by (simp add: mutex_acquire_timeout_def Let_def)
    have "mutex_inv m s'"
      using mg cnt gr unfolding mutex_inv_def by (simp add: s'(3-5))
    with e s'(2) wait show ?thesis by (intro exI [of _ Blocked] exI [of _ s'] conjI) (simp_all add: s'(3-5))
  qed
qed

lemma mutex_resume_ok:
  assumes k: "kinv {} {} s" and up: "cpu_up s c" and i: "mutex_inv m s"
    and fr: "block_frame s (current_thread s c) = Some (mutex_wait_queue m, timeout)"
    and ret: "wait_queue_block_ret (threads s (current_thread s c)) \<le> NO_ERROR"
  shows "\<exists>s'. mutex_acquire_resume c m s = Some (wait_queue_block_ret (threads s (current_thread s c)), s') \<and>
     kinv {} {} s' \<and> mutex_inv m s' \<and> caller c s' \<and>
     (if wait_queue_block_ret (threads s (current_thread s c)) = NO_ERROR
      then holder (mutexes s m) = None \<and> holder (mutexes s' m) = Some (current_thread s c)
      else holder (mutexes s' m) = holder (mutexes s m))"
proof -
  let ?q = "mutex_wait_queue m" and ?t = "current_thread s c"
  let ?r = "wait_queue_block_ret (threads s ?t)"
  obtain s1 where s1: "wait_queue_block_resume c s = Some (?r, s1)" "kinv {} {} s1" "wait_queues s1 = wait_queues s"
    "\<And>v e. pending v e s1 = pending v e s - {?t}" "mutexes s1 = mutexes s" "current_thread s1 = current_thread s" "caller c s1"
    by (rule sync_resume [OF k up fr]) (rule that; assumption)
  let ?s' = "mutex_acquire_finish c m ?r s1"
  have e: "mutex_acquire_resume c m s = Some (?r, ?s')" by (simp add: mutex_acquire_resume_def s1(1))
  have tp: "?t \<in> pending ?q ?r s"
    using kinv_cpu(1,3) [OF k up] fr by (simp add: pending_def live_def)
  have tn: "?t \<notin> pending ?q x s" if "x \<noteq> ?r" for x using that by (auto simp: pending_def)
  have c1: "card (pending ?q x s1) = card (pending ?q x s)" if "x \<noteq> ?r" for x
    using tn [OF that] by (simp add: s1(4))
  have c2: "card (pending ?q ?r s) = Suc (card (pending ?q ?r s1))"
    unfolding s1(4) using tp by (metis card_Suc_Diff1 finite_pending)
  have cl: "caller c ?s'" "kinv {} {} ?s'" using s1(2,7) by (simp_all add: mutex_acquire_finish_def)
  have pe: "pending v x ?s' = pending v x s1" "wait_queues ?s' = wait_queues s" for v x
    by (simp_all add: mutex_acquire_finish_def s1(3))
  note i' = i [unfolded mutex_inv_def]
  consider (got) "?r = NO_ERROR" | (timed) "?r = ERR_TIMED_OUT" | (other) "?r < NO_ERROR" "?r \<noteq> ERR_TIMED_OUT"
    using ret by force
  then have "mutex_inv m ?s' \<and> (if ?r = NO_ERROR then holder (mutexes s m) = None \<and> holder (mutexes ?s' m) = Some ?t
      else holder (mutexes ?s' m) = holder (mutexes s m))"
  proof cases
    case got
    have h: "holder (mutexes s m) = None" using i' c2 got by (cases "holder (mutexes s m)") simp_all
    have "mutexes ?s' m = (mutexes s m)\<lparr>holder := Some ?t\<rparr>" by (simp add: mutex_acquire_finish_def got s1(5,6))
    then show ?thesis using i' c2 c1 [of ERR_TIMED_OUT] h unfolding mutex_inv_def pe by (simp add: got)
  next
    case timed
    have "mutexes ?s' m = (mutexes s m)\<lparr>m_count := m_count (mutexes s m) - 1\<rparr>"
      by (simp add: mutex_acquire_finish_def timed s1(5))
    then show ?thesis using i' c2 c1 [of NO_ERROR] unfolding mutex_inv_def pe by (simp add: timed)
  next
    case other
    then have "mutexes ?s' = mutexes s" by (simp add: mutex_acquire_finish_def s1(5))
    then show ?thesis using i' c1 [of NO_ERROR] c1 [of ERR_TIMED_OUT] other unfolding mutex_inv_def pe by simp
  qed
  with e cl show ?thesis by - (rule exI [of _ ?s'], intro conjI; (elim conjE)?; assumption)
qed

lemma mutex_release_ok:
  assumes k: "kinv {} {} s" and cl: "caller c s" and i: "mutex_inv m s" and h: "holder (mutexes s m) = Some (current_thread s c)"
  shows "\<exists>s'. mutex_release c m s = Some (NO_ERROR, s') \<and> kinv {} {} s' \<and> mutex_inv m s' \<and>
     holder (mutexes s' m) = None \<and>
     (case wq_list (wait_queues s (mutex_wait_queue m)) of
        [] \<Rightarrow> pending (mutex_wait_queue m) NO_ERROR s' = {} \<and> wq_list (wait_queues s' (mutex_wait_queue m)) = []
      | t # ts \<Rightarrow> pending (mutex_wait_queue m) NO_ERROR s' = {t} \<and> wq_list (wait_queues s' (mutex_wait_queue m)) = ts)"
proof -
  let ?q = "mutex_wait_queue m"
  let ?s1 = "upd_mutex m (\<lambda>mu. mu\<lparr>holder := None, m_count := m_count mu - 1\<rparr>) s"
  have mg: "m_magic (mutexes s m) = MUTEX_MAGIC" "wq_magic (wait_queues s ?q) = WAIT_QUEUE_MAGIC"
    and cnt: "m_count (mutexes s m) = 1 + int (card (pending ?q NO_ERROR s)) + int (card (pending ?q ERR_TIMED_OUT s)) +
       int (length (wq_list (wait_queues s ?q)))"
    and gr: "card (pending ?q NO_ERROR s) = 0"
    using i h unfolding mutex_inv_def by simp_all
  have g0: "pending ?q NO_ERROR s = {}" using gr by simp
  have up: "cpu_up s c" using cl by (simp add: caller_def)
  show ?thesis
  proof (cases "wq_list (wait_queues s ?q)")
    case Nil
    have "wait_queue_wake_one c ?q True NO_ERROR ?s1 = Some (0, ?s1)"
      by (rule wait_queue_wake_one_empty) (simp_all add: Nil mg)
    then have e: "mutex_release c m s = Some (NO_ERROR, ?s1)"
      using mg h by (simp add: mutex_release_def Let_def)
    have "mutex_inv m ?s1" using mg cnt g0 Nil by (simp add: mutex_inv_def)
    with e k show ?thesis by - (rule exI [of _ ?s1], simp add: g0 Nil)
  next
    case (Cons t ts)
    obtain s' where s': "wait_queue_wake_one c ?q True NO_ERROR ?s1 = Some (1, s')" "kinv {} {} s'"
      "wait_queues s' = (wait_queues ?s1)(?q := (wait_queues ?s1 ?q)\<lparr>wq_list := ts, wq_count := wq_count (wait_queues ?s1 ?q) - 1\<rparr>)"
      "\<And>v x. pending v x s' = pending v x ?s1 \<union> (if v = ?q \<and> x = NO_ERROR then {t} else {})" "mutexes s' = mutexes ?s1"
      by (rule sync_wake_one [of ?s1 c ?q t ts True NO_ERROR]) (use k cl up Cons in \<open>simp_all\<close>, (rule that; assumption)?)
    have e: "mutex_release c m s = Some (NO_ERROR, s')"
      using mg h cnt Cons s'(1) by (simp add: mutex_release_def Let_def)
    have p: "pending ?q NO_ERROR s' = {t}" "pending ?q ERR_TIMED_OUT s' = pending ?q ERR_TIMED_OUT s"
      by (simp_all add: s'(4) g0)
    have "mutex_inv m s'" using mg cnt g0 Cons by (simp add: mutex_inv_def s'(3,5) p)
    with e s'(2) show ?thesis by - (rule exI [of _ s'], simp add: s'(3,5) p Cons)
  qed
qed

text \<open>
  A timeout moves a waiter out of the queue without touching the count.
\<close>

lemma mutex_timeout_ok:
  assumes k: "kinv {} {} s" and i: "mutex_inv m s" and tin: "t \<in> set (wq_list (wait_queues s (mutex_wait_queue m)))"
  shows "\<exists>s'. wait_queue_timeout_handler c t s = Some (INT_RESCHEDULE, s') \<and> kinv {} {} s' \<and> mutex_inv m s' \<and> mutexes s' = mutexes s"
proof -
  let ?q = "mutex_wait_queue m"
  note w = kinv_waiter [OF k tin]
  from w(7) obtain timeout where fr: "block_frame s t = Some (?q, timeout)" by blast
  obtain s' where s': "thread_unblock_from_wait_queue c t ERR_TIMED_OUT s = Some (NO_ERROR, s')" "kinv {} {} s'"
    "woken {t} ERR_TIMED_OUT s s'"
    "wait_queues s' = (wait_queues s)(?q := (wait_queues s ?q)\<lparr>wq_list := remove1 t (wq_list (wait_queues s ?q)),
           wq_count := wq_count (wait_queues s ?q) - 1\<rparr>)"
    by (rule thread_unblock_from_wait_queue_kinv [OF k w(1,2,3) fr, of c ERR_TIMED_OUT]) (rule that; assumption)
  have m: "mutexes s' = mutexes s" using s'(3) by (intro sync_more(2)) (simp add: woken_def)
  have sub: "{t} \<subseteq> set (wq_list (wait_queues s ?q))" using tin by simp
  note p = pending_woken [OF k s'(3) sub]
  have tn: "t \<notin> pending ?q ERR_TIMED_OUT s" using w(3) by (simp add: pending_def)
  have "card (pending ?q ERR_TIMED_OUT s') = Suc (card (pending ?q ERR_TIMED_OUT s))" "pending ?q NO_ERROR s' = pending ?q NO_ERROR s"
    using tn by (simp_all add: p)
  moreover have "int (length (remove1 t (wq_list (wait_queues s ?q)))) = int (length (wq_list (wait_queues s ?q))) - 1"
    using tin length_pos_if_in_set [OF tin] by (simp add: length_remove1 of_nat_diff Suc_le_eq)
  ultimately have "mutex_inv m s'" using i unfolding mutex_inv_def by (simp add: s'(4) m)
  moreover have "wait_queue_timeout_handler c t s = Some (INT_RESCHEDULE, s')"
    by (simp add: wait_queue_timeout_handler_def w(9) s'(1))
  ultimately show ?thesis using s'(2) m by - (rule exI [of _ s'], simp)
qed


section \<open>Semaphores: counting\<close>

text \<open>
  A semaphore nobody has timed out on: the count is the number of units left, or, negative, the number of
  threads waiting.
\<close>

definition sem_inv :: "nat \<Rightarrow> 'a sync_state_scheme \<Rightarrow> bool" where
  "sem_inv m s \<longleftrightarrow>
     wq_magic (wait_queues s (sem_wait_queue m)) = WAIT_QUEUE_MAGIC \<and>
     length (wq_list (wait_queues s (sem_wait_queue m))) = nat (- sem_count (semaphores s m))"

lemma sem_wq_obj: "sem_wait_queue m = ObjWq (4 * m + 2)"
  by (simp add: sem_wait_queue_def)

lemma sem_wait_ok:
  assumes k: "kinv {} {} s" and cl: "caller c s" and i: "sem_inv m s"
  shows "\<exists>r s'. sem_wait c m s = Some (r, s') \<and> kinv {} {} s' \<and> sem_inv m s' \<and>
     sem_count (semaphores s' m) = sem_count (semaphores s m) - 1 \<and>
     r = (if sem_count (semaphores s m) > 0 then Ret NO_ERROR else Blocked)"
proof (cases "sem_count (semaphores s m) > 0")
  case True
  let ?s1 = "upd_sem m (\<lambda>x. x\<lparr>sem_count := sem_count x - 1\<rparr>) s"
  have "sem_wait c m s = Some (Ret NO_ERROR, ?s1)" using True by (simp add: sem_wait_def Let_def)
  moreover have "sem_inv m ?s1" using i True by (simp add: sem_inv_def)
  ultimately show ?thesis using k True by (intro exI [of _ "Ret NO_ERROR"] exI [of _ ?s1] conjI) simp_all
next
  case False
  let ?q = "sem_wait_queue m"
  let ?s1 = "upd_sem m (\<lambda>x. x\<lparr>sem_count := sem_count x - 1\<rparr>) s"
  have mg: "wq_magic (wait_queues s ?q) = WAIT_QUEUE_MAGIC" using i by (simp add: sem_inv_def)
  obtain s' where s': "wait_queue_block c ?q INFINITE_TIME ?s1 = Some (Blocked, s')" "kinv {} {} s'"
    "wait_queues s' = (wait_queues ?s1)(?q := (wait_queues ?s1 ?q)\<lparr>
       wq_list := wq_list (wait_queues ?s1 ?q) @ [current_thread ?s1 c], wq_count := wq_count (wait_queues ?s1 ?q) + 1\<rparr>)"
    "semaphores s' = semaphores ?s1"
    unfolding sem_wq_obj
    by (rule sync_block [of ?s1 c "4 * m + 2" INFINITE_TIME]) (use k cl mg in \<open>simp_all add: sem_wq_obj\<close>, (rule that; assumption)?)
  have "sem_wait c m s = Some (Blocked, s')" using False s'(1) by (simp add: sem_wait_def Let_def)
  moreover have "sem_inv m s'" using i False by (simp add: sem_inv_def s'(3,4) nat_diff_distrib)
  ultimately show ?thesis using s'(2) False by (intro exI [of _ Blocked] exI [of _ s'] conjI) (simp_all add: s'(4))
qed

lemma sem_post_ok:
  assumes k: "kinv {} {} s" and up: "cpu_up s c" and ni: "r \<Longrightarrow> caller c s" and i: "sem_inv m s"
  shows "\<exists>n s'. sem_post c m r s = Some (n, s') \<and> kinv {} {} s' \<and> sem_inv m s' \<and>
     sem_count (semaphores s' m) = sem_count (semaphores s m) + 1 \<and>
     n = (if wq_list (wait_queues s (sem_wait_queue m)) = [] then 0 else 1) \<and>
     pending (sem_wait_queue m) NO_ERROR s' = pending (sem_wait_queue m) NO_ERROR s \<union> set (take 1 (wq_list (wait_queues s (sem_wait_queue m))))"
proof -
  let ?q = "sem_wait_queue m"
  let ?s1 = "upd_sem m (\<lambda>x. x\<lparr>sem_count := sem_count x + 1\<rparr>) s"
  have mg: "wq_magic (wait_queues s ?q) = WAIT_QUEUE_MAGIC" and len: "length (wq_list (wait_queues s ?q)) = nat (- sem_count (semaphores s m))"
    using i by (simp_all add: sem_inv_def)
  show ?thesis
  proof (cases "wq_list (wait_queues s ?q)")
    case Nil
    then have "sem_count (semaphores s m) \<ge> 0" using len by simp
    then have "sem_post c m r s = Some (0, ?s1)" by (simp add: sem_post_def Let_def)
    moreover have "sem_inv m ?s1" using mg Nil \<open>sem_count (semaphores s m) \<ge> 0\<close> by (simp add: sem_inv_def)
    ultimately show ?thesis using k Nil by (intro exI [of _ 0] exI [of _ ?s1] conjI) simp_all
  next
    case (Cons t ts)
    then have neg: "sem_count (semaphores s m) < 0" using len by auto
    obtain s' where s': "wait_queue_wake_one c ?q r NO_ERROR ?s1 = Some (1, s')" "kinv {} {} s'"
      "wait_queues s' = (wait_queues ?s1)(?q := (wait_queues ?s1 ?q)\<lparr>wq_list := ts, wq_count := wq_count (wait_queues ?s1 ?q) - 1\<rparr>)"
      "\<And>v x. pending v x s' = pending v x ?s1 \<union> (if v = ?q \<and> x = NO_ERROR then {t} else {})" "semaphores s' = semaphores ?s1"
      by (rule sync_wake_one [of ?s1 c ?q t ts r NO_ERROR]) (use k up ni Cons in \<open>simp_all\<close>, (rule that; assumption)?)
    have "sem_post c m r s = Some (1, s')" using neg s'(1) by (simp add: sem_post_def Let_def)
    moreover have "sem_inv m s'" using mg len Cons neg by (simp add: sem_inv_def s'(3,5))
    ultimately show ?thesis using s'(2) Cons by (intro exI [of _ 1] exI [of _ s'] conjI) (simp_all add: s'(4,5))
  qed
qed

lemma sem_trywait_ok:
  assumes "sem_inv m s"
  shows "fst (sem_trywait m s) = (if sem_count (semaphores s m) > 0 then NO_ERROR else ERR_NOT_READY) \<and>
     sem_count (semaphores (snd (sem_trywait m s)) m) = sem_count (semaphores s m) - (if sem_count (semaphores s m) > 0 then 1 else 0) \<and>
     wait_queues (snd (sem_trywait m s)) = wait_queues s \<and>
     sem_inv m (snd (sem_trywait m s)) \<and> (kinv {} {} s \<longrightarrow> kinv {} {} (snd (sem_trywait m s)))"
  using assms by (simp add: sem_trywait_def sem_inv_def)

section \<open>Events: signalling\<close>

definition event_ok :: "nat \<Rightarrow> 'a sync_state_scheme \<Rightarrow> bool" where
  "event_ok e s \<longleftrightarrow> e_magic (events s e) = EVENT_MAGIC \<and> wq_magic (wait_queues s (event_wait_queue e)) = WAIT_QUEUE_MAGIC"

lemma event_signal_ok:
  assumes "kinv {} {} s" and "cpu_up s c" and "r \<longrightarrow> caller c s" and "event_ok e s" and "\<not> signaled (events s e)"
  shows "\<exists>s'. event_signal c e r s = Some (NO_ERROR, s') \<and> kinv {} {} s' \<and> event_ok e s' \<and> sync_state.more s' = sync_state.more s \<and>
     e_flags (events s' e) = e_flags (events s e) \<and>
     (let q = event_wait_queue e; w = wq_list (wait_queues s q); auto = (e_flags (events s e) AND EVENT_FLAG_AUTOUNSIGNAL \<noteq> 0) in
      signaled (events s' e) = (auto \<longrightarrow> w = []) \<and>
      wq_list (wait_queues s' q) = (if auto then drop 1 w else []) \<and>
      pending q NO_ERROR s' = pending q NO_ERROR s \<union> set (if auto then take 1 w else w) \<and>
      (signaled (events s' e) \<longrightarrow> event_signal c e r s' = Some (NO_ERROR, s') \<and>
         (\<exists>s''. event_wait_timeout c e timeout s' = Some (Ret NO_ERROR, s'') \<and> signaled (events s'' e) = (\<not> auto))))"
proof -
  let ?q = "event_wait_queue e"
  let ?w = "wq_list (wait_queues s ?q)"
  have mg: "e_magic (events s e) = EVENT_MAGIC" "wq_magic (wait_queues s ?q) = WAIT_QUEUE_MAGIC"
    using assms(4) by (simp_all add: event_ok_def)
  show ?thesis
  proof (cases "e_flags (events s e) AND EVENT_FLAG_AUTOUNSIGNAL = 0")
    case True
    let ?s1 = "upd_event e (\<lambda>ev. ev\<lparr>signaled := True\<rparr>) s"
    obtain s' where s': "wait_queue_wake_all c ?q r NO_ERROR ?s1 = Some (int (length (wq_list (wait_queues ?s1 ?q))), s')" "kinv {} {} s'"
      "wait_queues s' = (wait_queues ?s1)(?q := (wait_queues ?s1 ?q)\<lparr>wq_list := [], wq_count := 0\<rparr>)"
      "\<And>v x. pending v x s' = pending v x ?s1 \<union> (if v = ?q \<and> x = NO_ERROR then set (wq_list (wait_queues ?s1 ?q)) else {})"
      "events s' = events ?s1" "sync_state.more s' = sync_state.more ?s1"
      by (rule sync_wake_all [of ?s1 c ?q r NO_ERROR]) (use assms(1-3) mg in \<open>simp_all\<close>, (rule that; assumption)?)
    have "event_signal c e r s = Some (NO_ERROR, s')" using mg assms(5) True s'(1) by (simp add: event_signal_def)
    then show ?thesis using True s'(2) mg
      by - (rule exI [of _ s'], simp add: s'(3-6) event_ok_def event_signal_def event_wait_timeout_def)
  next
    case auto: False
    show ?thesis
    proof (cases ?w)
      case Nil
      let ?s' = "upd_event e (\<lambda>ev. ev\<lparr>signaled := True\<rparr>) s"
      have "wait_queue_wake_one c ?q r NO_ERROR s = Some (0, s)" by (rule wait_queue_wake_one_empty [OF mg(2) Nil])
      then have "event_signal c e r s = Some (NO_ERROR, ?s')" using mg assms(5) auto by (simp add: event_signal_def)
      then show ?thesis using auto assms(1) mg Nil
        by - (rule exI [of _ ?s'], simp add: event_ok_def event_signal_def event_wait_timeout_def)
    next
      case (Cons t ts)
      obtain s' where s': "wait_queue_wake_one c ?q r NO_ERROR s = Some (1, s')" "kinv {} {} s'"
        "wait_queues s' = (wait_queues s)(?q := (wait_queues s ?q)\<lparr>wq_list := ts, wq_count := wq_count (wait_queues s ?q) - 1\<rparr>)"
        "\<And>v x. pending v x s' = pending v x s \<union> (if v = ?q \<and> x = NO_ERROR then {t} else {})" "events s' = events s"
        "sync_state.more s' = sync_state.more s"
        by (rule sync_wake_one [of s c ?q t ts r NO_ERROR]) (use assms(1-3) Cons in \<open>simp_all\<close>, (rule that; assumption)?)
      have "event_signal c e r s = Some (NO_ERROR, s')" using mg assms(5) auto s'(1) by (simp add: event_signal_def)
      then show ?thesis using auto s'(2) mg Cons assms(5)
        by - (rule exI [of _ s'], simp add: s'(3-6) event_ok_def)
    qed
  qed
qed

section \<open>A sample state\<close>

text \<open>
  The sample state of \<open>LK_Kernel_Spec\<close> with an auto-unsignal event 0, a mutex 0 held by thread 4 and a
  semaphore 0; thread 5 waits for one of the three, chosen by the queue \<open>w\<close>.
\<close>

definition demo_sync :: "nat \<Rightarrow> sync_state" where
  "demo_sync w = kstate.extend (demo_kernel_on w) \<lparr>
     events = (\<lambda>_. \<lparr>e_magic = EVENT_MAGIC, signaled = False, e_flags = EVENT_FLAG_AUTOUNSIGNAL\<rparr>),
     mutexes = (\<lambda>_. \<lparr>m_magic = MUTEX_MAGIC, holder = Some 4, m_count = (if w = 1 then 2 else 1)\<rparr>),
     semaphores = (\<lambda>_. \<lparr>sem_magic = SEMAPHORE_MAGIC, sem_count = (if w = 2 then -1 else 3)\<rparr>)\<rparr>"

lemma demo_sync_sel [simp]:
  "threads (demo_sync w) = threads (demo_kernel_on w)" "thread_list (demo_sync w) = thread_list (demo_kernel_on w)"
  "wait_queues (demo_sync w) = wait_queues (demo_kernel_on w)" "current_thread (demo_sync w) = current_thread (demo_kernel_on w)"
  "block_frame (demo_sync w) = block_frame (demo_kernel_on w)"
  by (simp_all add: demo_sync_def kstate.extend_def)

lemma kinv_extend:
  fixes s :: kstate
  shows "kinv sw D (kstate.extend s m) = kinv sw D s"
  unfolding kinv_def inv_defs aux_defs by (simp add: kstate.extend_def)

lemma demo_sync_ok: "kinv {} {} (demo_sync w)" "caller 0 (demo_sync w)" "cpu_up (demo_sync w) 0" "cpu_up (demo_sync w) 1"
proof -
  show "kinv {} {} (demo_sync w)" unfolding demo_sync_def kinv_extend by (rule demo_kinv)
  show "caller 0 (demo_sync w)" "cpu_up (demo_sync w) 0" "cpu_up (demo_sync w) 1"
    using demo_up [of w] by (simp_all add: caller_def cpu_up_def live_def) (simp add: demo_defs thread_is_idle_def)
qed

lemma sync_extend_sel:
  fixes s :: sync_state
  shows "threads (sync_state.extend s m) = threads s" "thread_list (sync_state.extend s m) = thread_list s"
    "wait_queues (sync_state.extend s m) = wait_queues s" "current_thread (sync_state.extend s m) = current_thread s"
    "block_frame (sync_state.extend s m) = block_frame s" "events (sync_state.extend s m) = events s"
    "run_queue (sync_state.extend s m) = run_queue s" "run_queue_bitmap (sync_state.extend s m) = run_queue_bitmap s"
    "timers (sync_state.extend s m) = timers s" "timer_queue (sync_state.extend s m) = timer_queue s"
  by (simp_all add: sync_state.extend_def)

lemma kinv_sync_extend:
  fixes s :: sync_state
  shows "kinv sw D (sync_state.extend s m) = kinv sw D s" "caller c (sync_state.extend s m) = caller c s"
    "cpu_up (sync_state.extend s m) c = cpu_up s c"
  unfolding kinv_def inv_defs aux_defs caller_def sync_extend_sel by (rule refl)+

lemma demo_sync_wq:
  "wq_magic (wait_queues (demo_kernel_on w) q) = WAIT_QUEUE_MAGIC"
  "wq_list (wait_queues (demo_kernel_on w) (ObjWq v)) = (if v = w then [5] else [])"
  "current_thread (demo_kernel_on w) 0 = 4"
  by (simp_all add: demo_kernel_on_def WAIT_QUEUE_INITIAL_VALUE_def)

lemma demo_sync_pending: "pending v e (demo_sync w) = {}"
  by (auto simp: pending_def demo_kernel_on_def demo_thread_def)

lemma demo_mutex_inv: "mutex_inv 0 (demo_sync w)"
  by (simp add: mutex_inv_def demo_sync_wq demo_sync_pending mutex_wait_queue_def) (simp add: demo_sync_def kstate.extend_def)

lemma demo_sem_inv: "sem_inv 0 (demo_sync w)"
  by (simp add: sem_inv_def demo_sync_wq sem_wait_queue_def) (simp add: demo_sync_def kstate.extend_def)

lemma demo_sync_objs:
  "holder (mutexes (demo_sync w) m) = Some 4" "m_count (mutexes (demo_sync w) m) = (if w = 1 then 2 else 1)"
  "sem_count (semaphores (demo_sync w) m) = (if w = 2 then -1 else 3)" "e_magic (events (demo_sync w) m) = EVENT_MAGIC"
  "signaled (events (demo_sync w) m) = False" "e_flags (events (demo_sync w) m) = EVENT_FLAG_AUTOUNSIGNAL"
  by (simp_all add: demo_sync_def kstate.extend_def)

section \<open>Properties\<close>

text \<open>
  C23: acquiring a mutex is exclusive: in a state where the mutex invariant holds (at most one thread holds
  the mutex or has been handed it) \<^verbatim>\<open>mutex_acquire_timeout\<close> keeps it; it returns the mutex at once only when
  nobody holds it, gives \<^verbatim>\<open>ERR_TIMED_OUT\<close> and leaves the mutex as it was when the timeout is zero, and queues
  the caller behind the other waiters otherwise.
\<close>

theorem mutex_acquire_exclusive:
  assumes "kinv {} {} s" and "caller c s" and "mutex_inv m s" and "holder (mutexes s m) \<noteq> Some (current_thread s c)"
  shows "\<exists>r s'. mutex_acquire_timeout c m timeout s = Some (r, s') \<and> kinv {} {} s' \<and> mutex_inv m s' \<and>
     (if m_count (mutexes s m) = 0 then r = Ret NO_ERROR \<and> holder (mutexes s' m) = Some (current_thread s c)
      else if timeout = 0 then r = Ret ERR_TIMED_OUT \<and> mutexes s' = mutexes s
      else r = Blocked \<and> holder (mutexes s' m) = holder (mutexes s m) \<and>
        wq_list (wait_queues s' (mutex_wait_queue m)) = wq_list (wait_queues s (mutex_wait_queue m)) @ [current_thread s c] \<and>
        (\<forall>e. pending (mutex_wait_queue m) e s' = pending (mutex_wait_queue m) e s))"
  by (rule mutex_acquire_ok [OF assms])

theorem mutex_acquire_exclusive_witness:
  "\<exists>s r s'. holder (mutexes s 0) = None \<and> mutex_acquire_timeout 0 0 INFINITE_TIME (s :: sync_state) = Some (r, s') \<and>
     mutex_inv 0 s' \<and> r = Ret NO_ERROR \<and> holder (mutexes s' 0) = Some 4"
proof -
  have h: "holder (mutexes (demo_sync 0) 0) = Some (current_thread (demo_sync 0) 0)"
    by (simp add: demo_sync_objs demo_sync_wq)
  let ?s = "upd_mutex 0 (\<lambda>mu. mu\<lparr>holder := None, m_count := 0\<rparr>) (demo_sync 0)"
  have k: "kinv {} {} ?s" "caller 0 ?s" using demo_sync_ok [of 0] by simp_all
  have i: "mutex_inv 0 ?s" using demo_mutex_inv [of 0] by (simp add: mutex_inv_def demo_sync_pending demo_sync_wq mutex_wait_queue_def)
  have n: "holder (mutexes ?s 0) \<noteq> Some (current_thread ?s 0)" "m_count (mutexes ?s 0) = 0" "current_thread ?s 0 = 4"
    "holder (mutexes ?s 0) = None" by (simp_all add: demo_sync_wq)
  from mutex_acquire_exclusive [OF k i n(1), of INFINITE_TIME] obtain r s' where
    "mutex_acquire_timeout 0 0 INFINITE_TIME ?s = Some (r, s')" "mutex_inv 0 s'" "r = Ret NO_ERROR" "holder (mutexes s' 0) = Some 4"
    unfolding n(2,3) by auto
  with n(4) show ?thesis by blast
qed

text \<open>
  Releasing a mutex hands it to the thread that has waited longest: the release returns, nobody holds the
  mutex, the head of the queue is the only thread it has been handed to, and when a thread that has been
  handed the mutex runs again its \<^verbatim>\<open>mutex_acquire_timeout\<close> returns \<^verbatim>\<open>NO_ERROR\<close> with the thread as the holder.
\<close>

theorem mutex_release_hands_over:
  fixes s :: "'a sync_state_scheme"
  assumes "kinv {} {} s" and "caller c s" and "mutex_inv m s" and "holder (mutexes s m) = Some (current_thread s c)"
  shows "(\<exists>s'. mutex_release c m s = Some (NO_ERROR, s') \<and> kinv {} {} s' \<and> mutex_inv m s' \<and> holder (mutexes s' m) = None \<and>
       pending (mutex_wait_queue m) NO_ERROR s' = set (take 1 (wq_list (wait_queues s (mutex_wait_queue m)))) \<and>
       wq_list (wait_queues s' (mutex_wait_queue m)) = drop 1 (wq_list (wait_queues s (mutex_wait_queue m)))) \<and>
     (\<forall>d (u :: 'a sync_state_scheme). kinv {} {} u \<and> cpu_up u d \<and> mutex_inv m u \<and>
        current_thread u d \<in> pending (mutex_wait_queue m) NO_ERROR u \<longrightarrow>
        (\<exists>u'. mutex_acquire_resume d m u = Some (NO_ERROR, u') \<and> mutex_inv m u' \<and>
           holder (mutexes u m) = None \<and> holder (mutexes u' m) = Some (current_thread u d)))"
proof (intro conjI allI impI)
  from mutex_release_ok [OF assms] obtain s' where s': "mutex_release c m s = Some (NO_ERROR, s')" "kinv {} {} s'" "mutex_inv m s'"
    "holder (mutexes s' m) = None"
    "case wq_list (wait_queues s (mutex_wait_queue m)) of
        [] \<Rightarrow> pending (mutex_wait_queue m) NO_ERROR s' = {} \<and> wq_list (wait_queues s' (mutex_wait_queue m)) = []
      | t # ts \<Rightarrow> pending (mutex_wait_queue m) NO_ERROR s' = {t} \<and> wq_list (wait_queues s' (mutex_wait_queue m)) = ts"
    by (elim exE conjE)
  then show "\<exists>s'. mutex_release c m s = Some (NO_ERROR, s') \<and> kinv {} {} s' \<and> mutex_inv m s' \<and> holder (mutexes s' m) = None \<and>
       pending (mutex_wait_queue m) NO_ERROR s' = set (take 1 (wq_list (wait_queues s (mutex_wait_queue m)))) \<and>
       wq_list (wait_queues s' (mutex_wait_queue m)) = drop 1 (wq_list (wait_queues s (mutex_wait_queue m)))"
    by - (rule exI [of _ s'], simp split: list.splits)
next
  fix d and u :: "'a sync_state_scheme"
  assume a: "kinv {} {} u \<and> cpu_up u d \<and> mutex_inv m u \<and> current_thread u d \<in> pending (mutex_wait_queue m) NO_ERROR u"
  then have r: "wait_queue_block_ret (threads u (current_thread u d)) = NO_ERROR" by (simp add: pending_def)
  from a obtain timeout where fr: "block_frame u (current_thread u d) = Some (mutex_wait_queue m, timeout)"
    by (auto simp: pending_def split: option.splits)
  have h: "kinv {} {} u" "cpu_up u d" "mutex_inv m u" using a by simp_all
  have "wait_queue_block_ret (threads u (current_thread u d)) \<le> NO_ERROR" by (simp add: r)
  from mutex_resume_ok [OF h fr this] show "\<exists>u'. mutex_acquire_resume d m u = Some (NO_ERROR, u') \<and> mutex_inv m u' \<and>
           holder (mutexes u m) = None \<and> holder (mutexes u' m) = Some (current_thread u d)"
    unfolding r by (simp only: simp_thms if_True) (elim exE conjE, intro exI conjI; assumption)
qed

text \<open>
  C26: a timed-out waiter that has not run yet strands later ones: it still counts, so when the holder
  releases a mutex nobody else waits for, the mutex is free but its count is not zero; the next
  \<^verbatim>\<open>mutex_acquire\<close> then waits, without a timeout and with nobody left to release it.
\<close>

theorem mutex_timeout_strands:
  assumes "kinv {} {} s" and "caller c s" and "mutex_inv m s" and "holder (mutexes s m) = Some (current_thread s c)"
    and "wq_list (wait_queues s (mutex_wait_queue m)) = []" and "pending (mutex_wait_queue m) ERR_TIMED_OUT s \<noteq> {}"
  shows "\<exists>s1 s2. mutex_release c m s = Some (NO_ERROR, s1) \<and> holder (mutexes s1 m) = None \<and>
     mutex_acquire_timeout c m INFINITE_TIME s1 = Some (Blocked, s2) \<and> holder (mutexes s2 m) = None \<and>
     pending (mutex_wait_queue m) NO_ERROR s2 = {} \<and> wq_list (wait_queues s2 (mutex_wait_queue m)) = [current_thread s c]"
proof -
  let ?q = "mutex_wait_queue m"
  let ?s1 = "upd_mutex m (\<lambda>mu. mu\<lparr>holder := None, m_count := m_count mu - 1\<rparr>) s"
  have mg: "m_magic (mutexes s m) = MUTEX_MAGIC" "wq_magic (wait_queues s ?q) = WAIT_QUEUE_MAGIC"
    and cnt: "m_count (mutexes s m) = 1 + int (card (pending ?q NO_ERROR s)) + int (card (pending ?q ERR_TIMED_OUT s))"
    and gr: "pending ?q NO_ERROR s = {}"
    using assms(3-5) unfolding mutex_inv_def by simp_all
  have pos: "0 < card (pending ?q ERR_TIMED_OUT s)" using assms(6) by (simp add: card_gt_0_iff)
  have "wait_queue_wake_one c ?q True NO_ERROR ?s1 = Some (0, ?s1)"
    by (rule wait_queue_wake_one_empty) (simp_all add: assms(5) mg)
  then have rel: "mutex_release c m s = Some (NO_ERROR, ?s1)" using mg assms(4) by (simp add: mutex_release_def Let_def)
  have i1: "mutex_inv m ?s1" using mg cnt gr assms(5) by (simp add: mutex_inv_def)
  have k1: "kinv {} {} ?s1" "caller c ?s1" using assms(1,2) by simp_all
  have n1: "holder (mutexes ?s1 m) \<noteq> Some (current_thread ?s1 c)" "m_count (mutexes ?s1 m) \<noteq> 0"
    using cnt pos by simp_all
  from mutex_acquire_ok [OF k1 i1 n1(1), of INFINITE_TIME] n1(2) obtain r s2 where
    s2: "mutex_acquire_timeout c m INFINITE_TIME ?s1 = Some (r, s2)" "r = Blocked" "holder (mutexes s2 m) = None"
      "wq_list (wait_queues s2 ?q) = [current_thread s c]" "\<forall>e. pending ?q e s2 = pending ?q e ?s1"
    using assms(5) by auto
  have "pending ?q NO_ERROR s2 = {}" using s2(5) gr by simp
  with rel s2 show ?thesis by (intro exI [of _ ?s1] exI [of _ s2] conjI) simp_all
qed


theorem mutex_timeout_strands_witness:
  "\<exists>s s1 s2. mutex_inv 0 (s :: sync_state) \<and> mutex_release 0 0 s = Some (NO_ERROR, s1) \<and> holder (mutexes s1 0) = None \<and>
     mutex_acquire_timeout 0 0 INFINITE_TIME s1 = Some (Blocked, s2) \<and> holder (mutexes s2 0) = None"
proof -
  let ?q = "mutex_wait_queue 0"
  have q: "wq_list (wait_queues (demo_sync 1) ?q) = [5]" by (simp add: mutex_wait_queue_def demo_sync_wq)
  have tin: "5 \<in> set (wq_list (wait_queues (demo_sync 1) ?q))" unfolding q by simp
  have fr: "block_frame (demo_sync 1) 5 = Some (?q, 100)" by (simp add: demo_kernel_on_def mutex_wait_queue_def)
  note w = kinv_waiter [OF demo_sync_ok(1) tin]
  obtain s :: sync_state where s: "kinv {} {} s" "woken {5} ERR_TIMED_OUT (demo_sync 1) s" "current_thread s = current_thread (demo_sync 1)"
    "thread_unblock_from_wait_queue 0 5 ERR_TIMED_OUT (demo_sync 1) = Some (NO_ERROR, s)"
    "wait_queues s = (wait_queues (demo_sync 1))(?q := (wait_queues (demo_sync 1) ?q)\<lparr>
       wq_list := remove1 5 (wq_list (wait_queues (demo_sync 1) ?q)), wq_count := wq_count (wait_queues (demo_sync 1) ?q) - 1\<rparr>)"
    by (rule thread_unblock_from_wait_queue_kinv [OF demo_sync_ok(1) w(1,2,3) fr, of 0 ERR_TIMED_OUT])
      (rule that; assumption)
  have "wait_queue_timeout_handler 0 5 (demo_sync 1) = Some (INT_RESCHEDULE, s)"
    unfolding wait_queue_timeout_handler_def w(9) s(4) by simp
  with mutex_timeout_ok [OF demo_sync_ok(1) demo_mutex_inv tin, of 0] have i: "mutex_inv 0 s" and m: "mutexes s = mutexes (demo_sync 1)"
    by auto
  have p: "pending ?q ERR_TIMED_OUT s = {5}"
    using pending_woken [OF demo_sync_ok(1) s(2), of ?q ?q ERR_TIMED_OUT] tin by (simp add: demo_sync_pending)
  have "thread_same (threads (demo_sync 1) 4) (threads s 4)"
    using s(2) by (auto simp: woken_def dest: spec [where x = 4])
  then have cl: "caller 0 s"
    using s(2,3) demo_sync_ok(2,3) [of 1] by (simp add: caller_def cpu_up_def live_def woken_def demo_sync_wq thread_same_idle)
  have h: "holder (mutexes s 0) = Some (current_thread s 0)" "wq_list (wait_queues s ?q) = []"
    using q by (simp_all add: m s(3,5) demo_sync_objs demo_sync_wq)
  from mutex_timeout_strands [OF s(1) cl i h] p i show ?thesis by auto
qed

text \<open>
  C24: a semaphore nobody times out on counts correctly: while the count is positive \<^verbatim>\<open>sem_wait\<close> takes a unit
  at once and otherwise the caller waits; \<^verbatim>\<open>sem_post\<close> hands the unit to the thread that has waited longest
  and adds it to the count when nobody waits; \<^verbatim>\<open>sem_trywait\<close> takes a unit when the count is positive, and otherwise returns
  \<^verbatim>\<open>ERR_NOT_READY\<close> and takes none, without ever waiting; and all three keep the invariant that a negative count is the number of
  threads waiting.
\<close>

theorem semaphore_counts:
  assumes "kinv {} {} s" and "caller c s" and "sem_inv m s"
  shows "(\<exists>r s'. sem_wait c m s = Some (r, s') \<and> kinv {} {} s' \<and> sem_inv m s' \<and>
       sem_count (semaphores s' m) = sem_count (semaphores s m) - 1 \<and>
       r = (if sem_count (semaphores s m) > 0 then Ret NO_ERROR else Blocked)) \<and>
     (\<exists>n s'. sem_post c m resched s = Some (n, s') \<and> kinv {} {} s' \<and> sem_inv m s' \<and>
       sem_count (semaphores s' m) = sem_count (semaphores s m) + 1 \<and>
       n = (if wq_list (wait_queues s (sem_wait_queue m)) = [] then 0 else 1) \<and>
       pending (sem_wait_queue m) NO_ERROR s' =
         pending (sem_wait_queue m) NO_ERROR s \<union> set (take 1 (wq_list (wait_queues s (sem_wait_queue m))))) \<and>
     (fst (sem_trywait m s) = (if sem_count (semaphores s m) > 0 then NO_ERROR else ERR_NOT_READY) \<and>
       sem_count (semaphores (snd (sem_trywait m s)) m) = sem_count (semaphores s m) - (if sem_count (semaphores s m) > 0 then 1 else 0) \<and>
       wait_queues (snd (sem_trywait m s)) = wait_queues s \<and> kinv {} {} (snd (sem_trywait m s)) \<and> sem_inv m (snd (sem_trywait m s)))"
proof (intro conjI)
  have up: "cpu_up s c" using assms(2) by (simp add: caller_def)
  show "\<exists>n s'. sem_post c m resched s = Some (n, s') \<and> kinv {} {} s' \<and> sem_inv m s' \<and>
       sem_count (semaphores s' m) = sem_count (semaphores s m) + 1 \<and>
       n = (if wq_list (wait_queues s (sem_wait_queue m)) = [] then 0 else 1) \<and>
       pending (sem_wait_queue m) NO_ERROR s' =
         pending (sem_wait_queue m) NO_ERROR s \<union> set (take 1 (wq_list (wait_queues s (sem_wait_queue m))))"
    by (rule sem_post_ok [OF assms(1) up assms(2,3)])
qed (use assms(1) sem_wait_ok [OF assms] sem_trywait_ok [OF assms(3)] in simp_all)

theorem semaphore_counts_witness:
  "(\<exists>r s'. sem_wait 0 0 (demo_sync 0) = Some (r, s') \<and> r = Ret NO_ERROR \<and> sem_count (semaphores s' 0) = 2) \<and>
   (\<exists>n s'. sem_post 0 0 False (demo_sync 2) = Some (n, s') \<and> n = 1 \<and> sem_count (semaphores s' 0) = 0 \<and>
      pending (sem_wait_queue 0) NO_ERROR s' = {5}) \<and>
   sem_count (semaphores (snd (sem_trywait 0 (demo_sync 0))) 0) = 2"
proof (intro conjI)
  show "sem_count (semaphores (snd (sem_trywait 0 (demo_sync 0))) 0) = 2"
    using semaphore_counts [OF demo_sync_ok(1,2) demo_sem_inv, of 0] by (auto simp: demo_sync_objs)
  show "\<exists>r s'. sem_wait 0 0 (demo_sync 0) = Some (r, s') \<and> r = Ret NO_ERROR \<and> sem_count (semaphores s' 0) = 2"
    using semaphore_counts [OF demo_sync_ok(1,2) demo_sem_inv, of 0] by (auto simp: demo_sync_objs)
  have q: "sem_wait_queue 0 = ObjWq 2" by (simp add: sem_wait_queue_def)
  show "\<exists>n s'. sem_post 0 0 False (demo_sync 2) = Some (n, s') \<and> n = 1 \<and> sem_count (semaphores s' 0) = 0 \<and>
      pending (sem_wait_queue 0) NO_ERROR s' = {5}"
    using semaphore_counts [OF demo_sync_ok(1,2) demo_sem_inv, of 2 False]
    by (auto simp: demo_sync_objs demo_sync_wq demo_sync_pending q)
qed

text \<open>
  C25: signalling an event that is not signalled wakes its waiters: with the auto-unsignal flag exactly the
  thread that has waited longest, the event staying unsignalled, or, when nobody waits, the event becomes
  signalled and the next wait passes and clears it; without the flag every waiter is woken with
  \<^verbatim>\<open>NO_ERROR\<close> and the event stays signalled. Signalling twice is signalling once.
\<close>

theorem event_signal_wakes:
  assumes "kinv {} {} s" and "cpu_up s c" and "r \<longrightarrow> caller c s" and "event_ok e s" and "\<not> signaled (events s e)"
  shows "\<exists>s'. event_signal c e r s = Some (NO_ERROR, s') \<and> kinv {} {} s' \<and> event_ok e s' \<and> sync_state.more s' = sync_state.more s \<and>
     e_flags (events s' e) = e_flags (events s e) \<and>
     (let q = event_wait_queue e; w = wq_list (wait_queues s q); auto = (e_flags (events s e) AND EVENT_FLAG_AUTOUNSIGNAL \<noteq> 0) in
      signaled (events s' e) = (auto \<longrightarrow> w = []) \<and>
      wq_list (wait_queues s' q) = (if auto then drop 1 w else []) \<and>
      pending q NO_ERROR s' = pending q NO_ERROR s \<union> set (if auto then take 1 w else w) \<and>
      (signaled (events s' e) \<longrightarrow> event_signal c e r s' = Some (NO_ERROR, s') \<and>
         (\<exists>s''. event_wait_timeout c e timeout s' = Some (Ret NO_ERROR, s'') \<and> signaled (events s'' e) = (\<not> auto))))"
  by (rule event_signal_ok [OF assms])

theorem event_signal_wakes_witness:
  "\<exists>s'. event_signal 1 0 False (demo_sync 0) = Some (NO_ERROR, s') \<and> \<not> signaled (events s' 0) \<and>
     pending (event_wait_queue 0) NO_ERROR s' = {5}"
proof -
  have q: "event_wait_queue 0 = ObjWq 0" by (simp add: event_wait_queue_def)
  have ok: "event_ok 0 (demo_sync 0)" "\<not> signaled (events (demo_sync 0) 0)"
    by (simp_all add: event_ok_def demo_sync_objs demo_sync_wq)
  have "EVENT_FLAG_AUTOUNSIGNAL AND EVENT_FLAG_AUTOUNSIGNAL \<noteq> 0" by (simp add: EVENT_FLAG_AUTOUNSIGNAL_def)
  with event_signal_wakes [OF demo_sync_ok(1,4) _ ok, of False] show ?thesis
    by (auto simp: demo_sync_objs demo_sync_wq demo_sync_pending q Let_def)
qed

end
