(* ===== verification/LK_Cbuf.thy ===== *)
theory LK_Cbuf
  imports LK_Bytes LK_Ring LK_Sync
begin

text \<open>
  Circular character buffers: \<^verbatim>\<open>lib/cbuf/cbuf.c\<close>. The indices are 32-bit words as in the source; what a
  buffer holds is the list of bytes between its tail and its head (see \<open>LK_Ring\<close>). The buffer proper is
  modelled first; the operations then add its event, on the state of \<open>LK_Sync\<close>.
\<close>

section \<open>The buffer\<close>

record cbuf =
  cb_head :: u32
  cb_tail :: u32
  len_pow2 :: u32
  cb_buf :: "u8 list"
  cb_event :: nat

definition INC_POINTER :: "cbuf \<Rightarrow> u32 \<Rightarrow> nat \<Rightarrow> u32" where
  "INC_POINTER b ptr inc = modpow2 (of_nat (unat ptr + inc)) (len_pow2 b)"

definition cbuf_space_avail :: "cbuf \<Rightarrow> nat" where
  "cbuf_space_avail b = unat (valpow2 (len_pow2 b) - modpow2 (cb_head b - cb_tail b) (len_pow2 b) - 1)"

definition cbuf_space_used :: "cbuf \<Rightarrow> nat" where
  "cbuf_space_used b = unat (modpow2 (cb_head b - cb_tail b) (len_pow2 b))"

definition cbuf_size :: "cbuf \<Rightarrow> u64" where
  "cbuf_size b = push_bit (unat (len_pow2 b)) 1"

text \<open>The loops of \<^verbatim>\<open>cbuf_write\<close> and \<^verbatim>\<open>cbuf_read\<close>; \<open>None\<close> is an access outside the memory or a loop without end.\<close>

definition write_len :: "nat \<Rightarrow> cbuf \<Rightarrow> nat" where
  "write_len left b =
     (if cb_head b \<ge> cb_tail b then
        (if cb_tail b = 0 then min (unat (valpow2 (len_pow2 b) - cb_head b - 1)) left
         else min (unat (valpow2 (len_pow2 b) - cb_head b)) left)
      else min (unat (cb_tail b - cb_head b - 1)) left)"

partial_function (option) cbuf_write_loop :: "u8 list \<Rightarrow> nat \<Rightarrow> cbuf \<Rightarrow> (nat \<times> cbuf) option" where
  "cbuf_write_loop data pos b =
     (if pos < length data \<and> cbuf_space_avail b > 0 then
        (let n = write_len (length data - pos) b in
         if n = 0 then Some (pos, b)
         else Option.bind (mem_write (unat (cb_head b)) (take n (drop pos data)) (cb_buf b))
           (\<lambda>m. cbuf_write_loop data (pos + n) (b\<lparr>cb_buf := m, cb_head := INC_POINTER b (cb_head b) n\<rparr>)))
      else Some (pos, b))"

definition read_len :: "nat \<Rightarrow> cbuf \<Rightarrow> nat" where
  "read_len left b =
     (if cb_head b > cb_tail b then min (unat (cb_head b - cb_tail b)) left
      else min (unat (valpow2 (len_pow2 b) - cb_tail b)) left)"

partial_function (option) cbuf_read_loop :: "nat \<Rightarrow> nat \<Rightarrow> cbuf \<Rightarrow> (u8 list \<times> cbuf) option" where
  "cbuf_read_loop buflen pos b =
     (if pos < buflen \<and> cb_tail b \<noteq> cb_head b then
        (let n = read_len (buflen - pos) b in
         Option.bind (mem_read (unat (cb_tail b)) n (cb_buf b)) (\<lambda>xs.
           Option.bind (cbuf_read_loop buflen (pos + n) (b\<lparr>cb_tail := INC_POINTER b (cb_tail b) n\<rparr>)) (\<lambda>(ys, b).
             Some (xs @ ys, b))))
      else Some ([], b))"

text \<open>The regions \<^verbatim>\<open>cbuf_peek\<close> reports: an offset into the buffer, or none, and a length.\<close>

definition cbuf_peek :: "cbuf \<Rightarrow> (nat \<times> (nat option \<times> nat) \<times> (nat option \<times> nat)) option" where
  "cbuf_peek b =
     do {
       let ret = cbuf_space_used b;
       let sz = unat (cbuf_size b);
       dassert (unat (cb_tail b) < sz);
       dassert (ret \<le> sz);
       let base0 = (if ret \<noteq> 0 then Some (unat (cb_tail b)) else None);
       Some (ret,
         if ret + unat (cb_tail b) > sz
         then ((base0, sz - unat (cb_tail b)), (Some 0, ret - (sz - unat (cb_tail b))))
         else ((base0, ret), (None, 0)))
     }"

section \<open>What the buffer holds\<close>

definition cbuf_ok :: "cbuf \<Rightarrow> bool" where
  "cbuf_ok b \<longleftrightarrow> unat (len_pow2 b) < 32 \<and> length (cb_buf b) = 2 ^ unat (len_pow2 b) \<and>
     unat (cb_head b) < 2 ^ unat (len_pow2 b) \<and> unat (cb_tail b) < 2 ^ unat (len_pow2 b)"

definition cbuf_contents :: "cbuf \<Rightarrow> u8 list" where
  "cbuf_contents b = ring (cb_buf b) (unat (cb_tail b)) (cbuf_space_used b)"

text \<open>The word arithmetic of the indices, as natural numbers.\<close>

lemma pow2_le_u32: "n < 32 \<Longrightarrow> (2::nat) ^ n \<le> 2 ^ 31"
  by (intro power_increasing) simp_all

lemma unat_minus_u32: "unat ((a :: u32) - b) = (if b \<le> a then unat a - unat b else 2 ^ 32 + unat a - unat b)"
proof (cases "b \<le> a")
  case True
  then show ?thesis by (simp add: unat_sub)
next
  case False
  then have "unat a < unat b" by (simp add: word_le_nat_alt)
  moreover have "unat b < 2 ^ 32" by (rule unat_u32_less)
  ultimately show ?thesis using False by (simp add: unat_sub_if' word_le_nat_alt)
qed

lemma cbuf_nums:
  assumes "cbuf_ok b"
  defines "L \<equiv> (2::nat) ^ unat (len_pow2 b)" and "h \<equiv> unat (cb_head b)" and "t \<equiv> unat (cb_tail b)"
  shows "h < L" "t < L" "L \<le> 2 ^ 31" "unat (valpow2 (len_pow2 b)) = L" "length (cb_buf b) = L"
    "cbuf_space_used b = (if t \<le> h then h - t else L + h - t)"
    "cbuf_space_avail b = L - 1 - cbuf_space_used b" "cbuf_space_used b < L"
    "INC_POINTER b p n = of_nat ((unat p + n) mod L)" "unat (cbuf_size b) = L"
proof -
  have lt: "unat (len_pow2 b) < 32" using assms by (simp add: cbuf_ok_def)
  show hL: "h < L" and tL: "t < L" and "length (cb_buf b) = L" using assms by (simp_all add: cbuf_ok_def)
  show L31: "L \<le> 2 ^ 31" unfolding L_def by (rule pow2_le_u32 [OF lt])
  show v: "unat (valpow2 (len_pow2 b)) = L" unfolding L_def by (rule unat_valpow2 [OF lt])
  have dd: "L dvd 2 ^ 32" unfolding L_def using lt by (intro le_imp_power_dvd) simp
  show u: "cbuf_space_used b = (if t \<le> h then h - t else L + h - t)"
  proof (cases "t \<le> h")
    case True
    then have "cb_tail b \<le> cb_head b" by (simp add: word_le_nat_alt h_def t_def)
    then have "unat (cb_head b - cb_tail b) = h - t" unfolding unat_minus_u32 h_def t_def by simp
    then show ?thesis using True hL by (simp add: cbuf_space_used_def unat_modpow2 L_def [symmetric])
  next
    case False
    then have "\<not> cb_tail b \<le> cb_head b" by (simp add: word_le_nat_alt h_def t_def)
    then have "unat (cb_head b - cb_tail b) = 2 ^ 32 + h - t" unfolding unat_minus_u32 h_def t_def by simp
    also have "\<dots> = (2 ^ 32 - L) + (L + h - t)" using L31 tL by simp
    finally have "unat (cb_head b - cb_tail b) mod L = ((2 ^ 32 - L) mod L + (L + h - t)) mod L" by (simp add: mod_simps)
    moreover have "(2 ^ 32 - L) mod L = 0" using dd by (intro dvd_imp_mod_0 dvd_diff_nat) simp_all
    moreover have "(L + h - t) mod L = L + h - t" using False tL by (intro mod_less) linarith
    ultimately show ?thesis using False by (simp add: cbuf_space_used_def unat_modpow2 L_def [symmetric])
  qed
  show uL: "cbuf_space_used b < L" unfolding u using hL tL by auto
  show "cbuf_space_avail b = L - 1 - cbuf_space_used b"
  proof -
    let ?m = "modpow2 (cb_head b - cb_tail b) (len_pow2 b)"
    have m: "unat ?m < L" using uL by (simp add: cbuf_space_used_def)
    then have le: "?m \<le> valpow2 (len_pow2 b)" by (simp add: word_le_nat_alt v)
    have s: "unat (valpow2 (len_pow2 b) - ?m) = L - unat ?m" using unat_sub [OF le] v by simp
    then have "(1 :: u32) \<le> valpow2 (len_pow2 b) - ?m" using m by (simp add: word_le_nat_alt)
    from unat_sub [OF this] s show ?thesis by (simp add: cbuf_space_avail_def cbuf_space_used_def)
  qed
  show "INC_POINTER b p n = of_nat ((unat p + n) mod L)"
  unfolding word_unat_eq_iff
  proof -
    have "unat (INC_POINTER b p n) = (unat p + n) mod 2 ^ 32 mod L"
      unfolding INC_POINTER_def unat_modpow2 L_def by (simp only: unat_of_nat) simp
    also have "\<dots> = (unat p + n) mod L"
      by (rule mod_mod_cancel [OF dd])
    also have "\<dots> = unat (of_nat ((unat p + n) mod L) :: u32)"
    proof -
      have "(unat p + n) mod L < L" using hL by (intro mod_less_divisor) linarith
      then have "(unat p + n) mod L < 2 ^ 32" using L31 by simp
      then show ?thesis by (simp add: unat_of_nat)
    qed
    finally show "unat (INC_POINTER b p n) = unat (of_nat ((unat p + n) mod L) :: u32)" .
  qed
  show "unat (cbuf_size b) = L"
    unfolding cbuf_size_def unsigned_push_bit_eq using lt power_strict_increasing [of "unat (len_pow2 b)" 64 "2::nat"]
    by (simp add: push_bit_eq_mult take_bit_eq_mod L_def)
qed

lemma cbuf_head_pos:
  assumes "cbuf_ok b"
  shows "unat (cb_head b) = (unat (cb_tail b) + cbuf_space_used b) mod 2 ^ unat (len_pow2 b)"
proof -
  note n = cbuf_nums [OF assms]
  show ?thesis
  proof (cases "unat (cb_tail b) \<le> unat (cb_head b)")
    case True
    then show ?thesis using n(1,2,6) by simp
  next
    case False
    then have "unat (cb_tail b) + cbuf_space_used b = unat (cb_head b) + 2 ^ unat (len_pow2 b)" using n(2,6) by simp
    then show ?thesis using n(1) by simp
  qed
qed

lemma cbuf_advance_head:
  assumes ok: "cbuf_ok b" and xs: "length xs \<le> cbuf_space_avail b" and fit: "unat (cb_head b) + length xs \<le> 2 ^ unat (len_pow2 b)"
  defines "b' \<equiv> b\<lparr>cb_buf := take (unat (cb_head b)) (cb_buf b) @ xs @ drop (unat (cb_head b) + length xs) (cb_buf b),
      cb_head := INC_POINTER b (cb_head b) (length xs)\<rparr>"
  shows "cbuf_ok b'" "cbuf_contents b' = cbuf_contents b @ xs" "cbuf_space_avail b' = cbuf_space_avail b - length xs"
proof -
  let ?L = "(2::nat) ^ unat (len_pow2 b)" and ?h = "unat (cb_head b)" and ?t = "unat (cb_tail b)" and ?n = "length xs"
  note n = cbuf_nums [OF ok]
  have small: "(?h + ?n) mod ?L < 2 ^ 32"
  proof -
    have "(?h + ?n) mod ?L < ?L" by (intro mod_less_divisor) simp
    moreover have "?L \<le> 2 ^ 32" using n(3) by simp
    ultimately show ?thesis by (rule less_le_trans)
  qed
  have f: "len_pow2 b' = len_pow2 b" "cb_tail b' = cb_tail b" "unat (cb_head b') = (?h + ?n) mod ?L" "length (cb_buf b') = ?L"
    using small fit n(5) by (simp_all add: b'_def n(9) unat_of_nat)
  show ok': "cbuf_ok b'" using ok f unfolding cbuf_ok_def by simp
  note n' = cbuf_nums [OF ok', unfolded f(1,2)]
  have used: "cbuf_space_used b' = cbuf_space_used b + ?n"
  proof (cases "?h + ?n < ?L")
    case True
    then have "unat (cb_head b') = ?h + ?n" by (simp add: f(3))
    then show ?thesis using xs n(1,2,6,7,8) n'(6) by (auto split: if_splits)
  next
    case False
    then have e: "?h + ?n = ?L" using fit by simp
    then have "unat (cb_head b') = 0" by (simp add: f(3))
    then show ?thesis using xs e n(1,2,6,7,8) n'(6) by (auto split: if_splits)
  qed
  show "cbuf_space_avail b' = cbuf_space_avail b - ?n" using n(7) n'(7) used by simp
  have bb: "cb_buf b' = take ?h (cb_buf b) @ xs @ drop (?h + ?n) (cb_buf b)" by (simp add: b'_def)
  have "ring (cb_buf b') ?t (cbuf_space_used b + ?n) = ring (cb_buf b) ?t (cbuf_space_used b) @ xs"
    unfolding bb
    by (rule ring_write) (use cbuf_head_pos [OF ok] n(5,7,8) fit xs in simp_all)
  then show "cbuf_contents b' = cbuf_contents b @ xs" by (simp add: cbuf_contents_def used f(2))
qed

lemma write_len_spec:
  assumes ok: "cbuf_ok b" and av: "0 < cbuf_space_avail b" and l: "0 < left"
  shows "0 < write_len left b" "write_len left b \<le> left" "write_len left b \<le> cbuf_space_avail b"
    "unat (cb_head b) + write_len left b \<le> 2 ^ unat (len_pow2 b)"
proof -
  let ?L = "(2::nat) ^ unat (len_pow2 b)" and ?h = "unat (cb_head b)" and ?t = "unat (cb_tail b)"
  note n = cbuf_nums [OF ok]
  have hv: "cb_head b \<le> valpow2 (len_pow2 b)" using n(1,4) by (simp add: word_le_nat_alt)
  have v: "unat (valpow2 (len_pow2 b) - cb_head b) = ?L - ?h" using unat_sub [OF hv] n(4) by simp
  have "(1 :: u32) \<le> valpow2 (len_pow2 b) - cb_head b" using n(1) v by (simp add: word_le_nat_alt)
  from unat_sub [OF this] have v1: "unat (valpow2 (len_pow2 b) - cb_head b - 1) = ?L - ?h - 1" using v by simp
  have d: "unat (cb_tail b - cb_head b - 1) = ?t - ?h - 1" if "\<not> cb_tail b \<le> cb_head b"
  proof -
    have le: "cb_head b \<le> cb_tail b" using that by simp
    have s: "unat (cb_tail b - cb_head b) = ?t - ?h" by (rule unat_sub [OF le])
    have "(1 :: u32) \<le> cb_tail b - cb_head b" using that s by (simp add: word_le_nat_alt)
    from unat_sub [OF this] s show ?thesis by simp
  qed
  have ge: "cb_tail b \<le> cb_head b \<longleftrightarrow> ?t \<le> ?h" by (simp add: word_le_nat_alt)
  have z: "cb_tail b = 0 \<longleftrightarrow> ?t = 0" by (simp add: unat_eq_zero)
  have "0 < write_len left b \<and> write_len left b \<le> left \<and> write_len left b \<le> cbuf_space_avail b \<and> ?h + write_len left b \<le> ?L"
  proof (cases "?t \<le> ?h")
    case True
    then show ?thesis using av l n(1,2,6,7) v v1 unfolding write_len_def ge z by auto
  next
    case False
    then show ?thesis using av l n(1,2,6,7) d unfolding write_len_def ge z by auto
  qed
  then show "0 < write_len left b" "write_len left b \<le> left" "write_len left b \<le> cbuf_space_avail b" "?h + write_len left b \<le> ?L"
    by simp_all
qed

lemma min_split_nat: "(n::nat) \<le> a \<Longrightarrow> n \<le> c \<Longrightarrow> n + min (a - n) (c - n) = min a c"
  by (auto simp: min_def)

lemma cbuf_write_loop_spec:
  assumes "cbuf_ok b" and "pos \<le> length data"
  shows "\<exists>b'. cbuf_write_loop data pos b = Some (pos + min (length data - pos) (cbuf_space_avail b), b') \<and> cbuf_ok b' \<and>
     cbuf_contents b' = cbuf_contents b @ take (cbuf_space_avail b) (drop pos data) \<and>
     cbuf_space_avail b' = cbuf_space_avail b - min (length data - pos) (cbuf_space_avail b) \<and>
     len_pow2 b' = len_pow2 b \<and> cb_event b' = cb_event b"
  using assms
proof (induction "length data - pos" arbitrary: pos b rule: less_induct)
  case less
  show ?case
  proof (cases "pos < length data \<and> cbuf_space_avail b > 0")
    case False
    then have "cbuf_write_loop data pos b = Some (pos, b)" by (subst cbuf_write_loop.simps) auto
    with False less.prems show ?thesis by (cases "pos < length data") auto
  next
    case True
    let ?n = "write_len (length data - pos) b"
    note w = write_len_spec [OF less.prems(1), of "length data - pos"]
    have n: "0 < ?n" "?n \<le> length data - pos" "?n \<le> cbuf_space_avail b" "unat (cb_head b) + ?n \<le> 2 ^ unat (len_pow2 b)"
      using w True by simp_all
    let ?xs = "take ?n (drop pos data)"
    have lx: "length ?xs = ?n" using n by simp
    let ?b = "b\<lparr>cb_buf := take (unat (cb_head b)) (cb_buf b) @ ?xs @ drop (unat (cb_head b) + length ?xs) (cb_buf b),
      cb_head := INC_POINTER b (cb_head b) (length ?xs)\<rparr>"
    have a: "cbuf_ok ?b" "cbuf_contents ?b = cbuf_contents b @ ?xs" "cbuf_space_avail ?b = cbuf_space_avail b - ?n"
      using cbuf_advance_head [OF less.prems(1), of ?xs] n lx by simp_all
    have e: "cbuf_write_loop data pos b = cbuf_write_loop data (pos + ?n) ?b"
      using True n lx cbuf_nums(5) [OF less.prems(1)]
      by (subst cbuf_write_loop.simps) (simp add: Let_def mem_write_def patch_def)
    have dec: "length data - (pos + ?n) < length data - pos" using n True by simp
    have le: "pos + ?n \<le> length data" using n True by simp
    from less.hyps [OF dec a(1) le] obtain b' where
      b': "cbuf_write_loop data (pos + ?n) ?b = Some (pos + ?n + min (length data - (pos + ?n)) (cbuf_space_avail ?b), b')"
      "cbuf_ok b'" "cbuf_contents b' = cbuf_contents ?b @ take (cbuf_space_avail ?b) (drop (pos + ?n) data)"
      "cbuf_space_avail b' = cbuf_space_avail ?b - min (length data - (pos + ?n)) (cbuf_space_avail ?b)"
      "len_pow2 b' = len_pow2 ?b" "cb_event b' = cb_event ?b" by (elim exE conjE)
    have m: "?n + min (length data - (pos + ?n)) (cbuf_space_avail b - ?n) = min (length data - pos) (cbuf_space_avail b)"
      using min_split_nat [OF n(2,3)] by (simp only: diff_diff_left)
    have tk: "take (cbuf_space_avail b) (drop pos data) = ?xs @ take (cbuf_space_avail b - ?n) (drop (pos + ?n) data)"
      using take_add [of ?n "cbuf_space_avail b - ?n" "drop pos data"] n(3) by (simp only: le_add_diff_inverse drop_drop add.commute)
    show ?thesis
    proof (intro exI conjI)
      show "cbuf_write_loop data pos b = Some (pos + min (length data - pos) (cbuf_space_avail b), b')"
        unfolding e b'(1) a(3) add.assoc m ..
      show "cbuf_ok b'" by (rule b'(2))
      show "cbuf_contents b' = cbuf_contents b @ take (cbuf_space_avail b) (drop pos data)"
        unfolding b'(3) a(2,3) tk by (simp only: append_assoc)
      show "cbuf_space_avail b' = cbuf_space_avail b - min (length data - pos) (cbuf_space_avail b)"
        unfolding b'(4) a(3) m [symmetric] diff_diff_left ..
    qed (simp_all add: b'(5,6))
  qed
qed


lemma cbuf_advance_tail:
  assumes ok: "cbuf_ok b" and n: "n \<le> cbuf_space_used b" and fit: "unat (cb_tail b) + n \<le> 2 ^ unat (len_pow2 b)"
  defines "b' \<equiv> b\<lparr>cb_tail := INC_POINTER b (cb_tail b) n\<rparr>"
  shows "cbuf_ok b'" "cbuf_contents b = take n (drop (unat (cb_tail b)) (cb_buf b)) @ cbuf_contents b'"
    "cbuf_space_used b' = cbuf_space_used b - n"
proof -
  let ?L = "(2::nat) ^ unat (len_pow2 b)" and ?h = "unat (cb_head b)" and ?t = "unat (cb_tail b)"
  note m = cbuf_nums [OF ok]
  have small: "(?t + n) mod ?L < 2 ^ 32"
  proof -
    have "(?t + n) mod ?L < ?L" by (intro mod_less_divisor) simp
    moreover have "?L \<le> 2 ^ 32" using m(3) by simp
    ultimately show ?thesis by (rule less_le_trans)
  qed
  have f: "len_pow2 b' = len_pow2 b" "cb_head b' = cb_head b" "unat (cb_tail b') = (?t + n) mod ?L" "cb_buf b' = cb_buf b"
    using small by (simp_all add: b'_def m(9) unat_of_nat)
  show ok': "cbuf_ok b'" using ok f unfolding cbuf_ok_def by simp
  note m' = cbuf_nums [OF ok', unfolded f(1,2)]
  show used: "cbuf_space_used b' = cbuf_space_used b - n"
  proof (cases "?t + n < ?L")
    case True
    then have "unat (cb_tail b') = ?t + n" by (simp add: f(3))
    then show ?thesis using n m(1,2,6,8) m'(6) by (auto split: if_splits)
  next
    case False
    then have e: "?t + n = ?L" using fit by simp
    then have "unat (cb_tail b') = 0" by (simp add: f(3))
    then show ?thesis using n e m(1,2,6,8) m'(6) by (auto split: if_splits)
  qed
  show "cbuf_contents b = take n (drop ?t (cb_buf b)) @ cbuf_contents b'"
    unfolding cbuf_contents_def f(3,4) used
    using ring_read [OF n, of ?t "cb_buf b"] fit m(5) by simp
qed

lemma cbuf_empty_iff: "cbuf_ok b \<Longrightarrow> cbuf_space_used b = 0 \<longleftrightarrow> cb_tail b = cb_head b"
  using cbuf_nums(1,2,6) [of b] by (auto simp: word_unat_eq_iff split: if_splits)

lemma read_len_spec:
  assumes ok: "cbuf_ok b" and ne: "cb_tail b \<noteq> cb_head b" and l: "0 < left"
  shows "0 < read_len left b" "read_len left b \<le> left" "read_len left b \<le> cbuf_space_used b"
    "unat (cb_tail b) + read_len left b \<le> 2 ^ unat (len_pow2 b)"
proof -
  let ?L = "(2::nat) ^ unat (len_pow2 b)" and ?h = "unat (cb_head b)" and ?t = "unat (cb_tail b)"
  note n = cbuf_nums [OF ok]
  have tv: "cb_tail b \<le> valpow2 (len_pow2 b)" using n(2,4) by (simp add: word_le_nat_alt)
  have v: "unat (valpow2 (len_pow2 b) - cb_tail b) = ?L - ?t" using unat_sub [OF tv] n(4) by simp
  have gt: "cb_tail b < cb_head b \<longleftrightarrow> ?t < ?h" by (simp add: word_less_nat_alt)
  have d: "unat (cb_head b - cb_tail b) = ?h - ?t" if "?t < ?h"
    by (rule unat_sub) (use that in \<open>simp add: word_le_nat_alt\<close>)
  have ne': "?t \<noteq> ?h" using ne by (simp add: word_unat_eq_iff)
  have "0 < read_len left b \<and> read_len left b \<le> left \<and> read_len left b \<le> cbuf_space_used b \<and> ?t + read_len left b \<le> ?L"
  proof (cases "?t < ?h")
    case True
    then show ?thesis using l n(1,2,6) d unfolding read_len_def gt by auto
  next
    case False
    then show ?thesis using l ne' n(1,2,6) v unfolding read_len_def gt by auto
  qed
  then show "0 < read_len left b" "read_len left b \<le> left" "read_len left b \<le> cbuf_space_used b" "?t + read_len left b \<le> ?L"
    by simp_all
qed

lemma cbuf_read_loop_spec:
  assumes "cbuf_ok b" and "pos \<le> buflen"
  shows "\<exists>b'. cbuf_read_loop buflen pos b = Some (take (buflen - pos) (cbuf_contents b), b') \<and> cbuf_ok b' \<and>
     cbuf_contents b' = drop (buflen - pos) (cbuf_contents b) \<and> len_pow2 b' = len_pow2 b \<and> cb_event b' = cb_event b"
  using assms
proof (induction "buflen - pos" arbitrary: pos b rule: less_induct)
  case less
  have lc: "length (cbuf_contents b) = cbuf_space_used b" by (simp add: cbuf_contents_def)
  show ?case
  proof (cases "pos < buflen \<and> cb_tail b \<noteq> cb_head b")
    case False
    then have e: "cbuf_read_loop buflen pos b = Some ([], b)" by (subst cbuf_read_loop.simps) auto
    have z: "buflen - pos = 0 \<or> cbuf_contents b = []"
      using False cbuf_empty_iff [OF less.prems(1)] lc by auto
    show ?thesis unfolding e using z less.prems by (intro exI [of _ b]) auto
  next
    case True
    let ?n = "read_len (buflen - pos) b"
    note w = read_len_spec [OF less.prems(1), of "buflen - pos"]
    have n: "0 < ?n" "?n \<le> buflen - pos" "?n \<le> cbuf_space_used b" "unat (cb_tail b) + ?n \<le> 2 ^ unat (len_pow2 b)"
      using w True by simp_all
    let ?xs = "take ?n (drop (unat (cb_tail b)) (cb_buf b))"
    let ?b = "b\<lparr>cb_tail := INC_POINTER b (cb_tail b) ?n\<rparr>"
    note a = cbuf_advance_tail [OF less.prems(1) n(3,4)]
    have lx: "length ?xs = ?n" using n(4) cbuf_nums(5) [OF less.prems(1)] by simp
    have e: "cbuf_read_loop buflen pos b = Option.bind (cbuf_read_loop buflen (pos + ?n) ?b) (\<lambda>(ys, b). Some (?xs @ ys, b))"
      using True n cbuf_nums(5) [OF less.prems(1)]
      by (subst cbuf_read_loop.simps) (simp add: Let_def mem_read_def seg_def)
    have dec: "buflen - (pos + ?n) < buflen - pos" and le: "pos + ?n \<le> buflen" using n True by simp_all
    from less.hyps [OF dec a(1) le] obtain b' where
      b': "cbuf_read_loop buflen (pos + ?n) ?b = Some (take (buflen - (pos + ?n)) (cbuf_contents ?b), b')" "cbuf_ok b'"
      "cbuf_contents b' = drop (buflen - (pos + ?n)) (cbuf_contents ?b)" "len_pow2 b' = len_pow2 ?b" "cb_event b' = cb_event ?b"
      by (elim exE conjE)
    have k: "buflen - pos = ?n + (buflen - (pos + ?n))" using n by simp
    show ?thesis
    proof (intro exI conjI)
      show "cbuf_read_loop buflen pos b = Some (take (buflen - pos) (cbuf_contents b), b')"
        unfolding e b'(1) a(2) using lx n(2) by simp
      show "cbuf_contents b' = drop (buflen - pos) (cbuf_contents b)"
        unfolding b'(3) a(2) using lx n(2) by simp
    qed (simp_all add: b'(2,4,5))
  qed
qed

lemma cbuf_peek_spec:
  assumes "cbuf_ok b"
  shows "\<exists>o0 n0 o1 n1. cbuf_peek b = Some (length (cbuf_contents b), (o0, n0), (o1, n1)) \<and>
     take n0 (drop (case o0 of None \<Rightarrow> 0 | Some p \<Rightarrow> p) (cb_buf b)) @ take n1 (drop (case o1 of None \<Rightarrow> 0 | Some p \<Rightarrow> p) (cb_buf b)) =
       cbuf_contents b \<and> (o0 = None) = (cbuf_contents b = [])"
proof -
  let ?L = "(2::nat) ^ unat (len_pow2 b)" and ?t = "unat (cb_tail b)" and ?u = "cbuf_space_used b"
  note n = cbuf_nums [OF assms]
  have lc: "length (cbuf_contents b) = ?u" by (simp add: cbuf_contents_def)
  show ?thesis
  proof (cases "?u + ?t > ?L")
    case True
    let ?k = "?L - ?t"
    have "cbuf_peek b = Some (?u, (Some ?t, ?k), (Some 0, ?u - ?k))"
      using True n(2,8,10) by (simp add: cbuf_peek_def Let_def)
    moreover have "cbuf_contents b = take ?k (drop ?t (cb_buf b)) @ take (?u - ?k) (cb_buf b)"
    proof -
      have "ring (cb_buf b) ?t ?u = take ?k (drop ?t (cb_buf b)) @ ring (cb_buf b) ((?t + ?k) mod ?L) (?u - ?k)"
        using ring_read [of ?k ?u ?t "cb_buf b"] True n(2,5) by simp
      moreover have "(?t + ?k) mod ?L = 0" using n(2) by simp
      moreover have "ring (cb_buf b) 0 (?u - ?k) = take (?u - ?k) (cb_buf b)"
        using ring_read [of "?u - ?k" "?u - ?k" 0 "cb_buf b"] n(5,8) by simp
      ultimately show ?thesis by (simp add: cbuf_contents_def)
    qed
    ultimately show ?thesis using True n(2) lc by (intro exI conjI) (assumption | simp | auto)+
  next
    case False
    have "cbuf_peek b = Some (?u, (if ?u \<noteq> 0 then Some ?t else None, ?u), (None, 0))"
      using False n(2,8,10) by (simp add: cbuf_peek_def Let_def)
    moreover have "cbuf_contents b = take ?u (drop ?t (cb_buf b))"
      using ring_read [of ?u ?u ?t "cb_buf b"] False n(5) by (simp add: cbuf_contents_def)
    ultimately show ?thesis using lc by (intro exI conjI) (assumption | simp | auto)+
  qed
qed

section \<open>The operations\<close>

record cbuf_state = sync_state +
  cbufs :: "nat \<Rightarrow> cbuf"

definition upd_cbuf :: "nat \<Rightarrow> (cbuf \<Rightarrow> cbuf) \<Rightarrow> 'a cbuf_state_scheme \<Rightarrow> 'a cbuf_state_scheme" where
  "upd_cbuf i f s = s\<lparr>cbufs := (cbufs s)(i := f (cbufs s i))\<rparr>"

text \<open>\<open>ev\<close> is the number of the event embedded in the buffer. A null buffer is empty memory.\<close>

definition cbuf_initialize_etc :: "nat \<Rightarrow> nat \<Rightarrow> u64 \<Rightarrow> u8 list \<Rightarrow> 'a cbuf_state_scheme \<Rightarrow> 'a cbuf_state_scheme option" where
  "cbuf_initialize_etc i ev len mem s =
     do {
       dassert (len > 0);
       dassert (ispow2 (ucast len));
       let s = upd_cbuf i (\<lambda>_. \<lparr>cb_head = 0, cb_tail = 0, len_pow2 = log2_uint (ucast len), cb_buf = mem, cb_event = ev\<rparr>) s;
       Some (event_init ev False 0 s)
     }"

definition cbuf_initialize :: "nat \<Rightarrow> nat \<Rightarrow> u64 \<Rightarrow> u8 list option \<Rightarrow> 'a cbuf_state_scheme \<Rightarrow> 'a cbuf_state_scheme option" where
  "cbuf_initialize i ev len malloc s = cbuf_initialize_etc i ev len (case malloc of None \<Rightarrow> [] | Some m \<Rightarrow> m) s"

text \<open>The source of a write: \<open>None\<close> is the null pointer, which stands for zeroes.\<close>

definition cbuf_write :: "cpu \<Rightarrow> nat \<Rightarrow> u8 list option \<Rightarrow> nat \<Rightarrow> bool \<Rightarrow> 'a cbuf_state_scheme \<Rightarrow> (nat \<times> 'a cbuf_state_scheme) option" where
  "cbuf_write cpu i src len canreschedule s =
     do {
       dassert (len < unat (valpow2 (len_pow2 (cbufs s i))));
       let data = (case src of None \<Rightarrow> replicate len 0 | Some xs \<Rightarrow> take len xs);
       (pos, b) \<leftarrow> cbuf_write_loop data 0 (cbufs s i);
       let s = upd_cbuf i (\<lambda>_. b) s;
       s \<leftarrow> (if cb_head b \<noteq> cb_tail b then map_option snd (event_signal cpu (cb_event b) False s) else Some s);
       s \<leftarrow> (if canreschedule then thread_preempt cpu s else Some s);
       Some (pos, s)
     }"

text \<open>The part of \<^verbatim>\<open>cbuf_read\<close> under the buffer's lock.\<close>

definition cbuf_read_locked :: "nat \<Rightarrow> nat \<Rightarrow> 'a cbuf_state_scheme \<Rightarrow> (u8 list \<times> 'a cbuf_state_scheme) option" where
  "cbuf_read_locked i buflen s =
     (if cb_tail (cbufs s i) = cb_head (cbufs s i) then Some ([], s)
      else do {
        (xs, b) \<leftarrow> cbuf_read_loop buflen 0 (cbufs s i);
        let s = upd_cbuf i (\<lambda>_. b) s;
        if cb_tail b = cb_head b then do {
          dassert (0 < length xs);
          (_, s) \<leftarrow> event_unsignal (cb_event b) s;
          Some (xs, s)
        } else Some (xs, s)
      })"

text \<open>The \<^verbatim>\<open>retry\<close> loop: \<open>None\<close> also stands for a call that retries for ever.\<close>

partial_function (option) cbuf_read :: "cpu \<Rightarrow> nat \<Rightarrow> nat \<Rightarrow> bool \<Rightarrow> 'a cbuf_state_scheme \<Rightarrow> (u8 list call \<times> 'a cbuf_state_scheme) option" where
  "cbuf_read cpu i buflen block s =
     Option.bind (if block then event_wait_timeout cpu (cb_event (cbufs s i)) INFINITE_TIME s else Some (Ret NO_ERROR, s))
       (\<lambda>(r, s). if r = Blocked then Some (Blocked, s)
         else Option.bind (cbuf_read_locked i buflen s)
           (\<lambda>(xs, s). if block \<and> xs = [] then cbuf_read cpu i buflen block s else Some (Ret xs, s)))"

definition cbuf_read_resume :: "cpu \<Rightarrow> nat \<Rightarrow> nat \<Rightarrow> 'a cbuf_state_scheme \<Rightarrow> (u8 list call \<times> 'a cbuf_state_scheme) option" where
  "cbuf_read_resume cpu i buflen s =
     do {
       (_, s) \<leftarrow> event_wait_resume cpu s;
       (xs, s) \<leftarrow> cbuf_read_locked i buflen s;
       if xs = [] then cbuf_read cpu i buflen True s else Some (Ret xs, s)
     }"

definition cbuf_reset :: "cpu \<Rightarrow> nat \<Rightarrow> 'a cbuf_state_scheme \<Rightarrow> (u8 list call \<times> 'a cbuf_state_scheme) option" where
  "cbuf_reset cpu i s = cbuf_read cpu i (unat (cbuf_size (cbufs s i))) False s"

text \<open>Single characters.\<close>

definition cbuf_put :: "u8 \<Rightarrow> cbuf \<Rightarrow> cbuf" where
  "cbuf_put ch b = b\<lparr>cb_buf := (cb_buf b)[unat (cb_head b) := ch], cb_head := INC_POINTER b (cb_head b) 1\<rparr>"

definition cbuf_get :: "cbuf \<Rightarrow> u8 \<times> cbuf" where
  "cbuf_get b = (cb_buf b ! unat (cb_tail b), b\<lparr>cb_tail := INC_POINTER b (cb_tail b) 1\<rparr>)"

definition cbuf_write_char :: "cpu \<Rightarrow> nat \<Rightarrow> u8 \<Rightarrow> bool \<Rightarrow> 'a cbuf_state_scheme \<Rightarrow> (nat \<times> 'a cbuf_state_scheme) option" where
  "cbuf_write_char cpu i ch canreschedule s =
     (if cbuf_space_avail (cbufs s i) > 0 then do {
        let s = upd_cbuf i (cbuf_put ch) s;
        s \<leftarrow> (if cb_head (cbufs s i) \<noteq> cb_tail (cbufs s i)
               then map_option snd (event_signal cpu (cb_event (cbufs s i)) canreschedule s) else Some s);
        Some (1, s)
      } else Some (0, s))"

definition cbuf_read_char_locked :: "nat \<Rightarrow> 'a cbuf_state_scheme \<Rightarrow> (u8 option \<times> 'a cbuf_state_scheme) option" where
  "cbuf_read_char_locked i s =
     (if cb_tail (cbufs s i) = cb_head (cbufs s i) then Some (None, s)
      else do {
        let (ch, b) = cbuf_get (cbufs s i);
        let s = upd_cbuf i (\<lambda>_. b) s;
        s \<leftarrow> (if cb_tail b = cb_head b then map_option snd (event_unsignal (cb_event b) s) else Some s);
        Some (Some ch, s)
      })"

partial_function (option) cbuf_read_char :: "cpu \<Rightarrow> nat \<Rightarrow> bool \<Rightarrow> 'a cbuf_state_scheme \<Rightarrow> (u8 option call \<times> 'a cbuf_state_scheme) option" where
  "cbuf_read_char cpu i block s =
     Option.bind (if block then event_wait_timeout cpu (cb_event (cbufs s i)) INFINITE_TIME s else Some (Ret NO_ERROR, s))
       (\<lambda>(r, s). if r = Blocked then Some (Blocked, s)
         else Option.bind (cbuf_read_char_locked i s)
           (\<lambda>(ch, s). if block \<and> ch = None then cbuf_read_char cpu i block s else Some (Ret ch, s)))"

section \<open>Correctness\<close>

interpretation cbuf_fifo: bounded_fifo cbuf_ok cbuf_contents cbuf_space_avail cbuf_put cbuf_get
proof
  fix b :: cbuf and x
  assume ok: "cbuf_ok b"
  note n = cbuf_nums [OF ok]
  show "cbuf_ok (cbuf_put x b) \<and> cbuf_contents (cbuf_put x b) = cbuf_contents b @ [x] \<and>
      cbuf_space_avail (cbuf_put x b) = cbuf_space_avail b - 1" if "0 < cbuf_space_avail b"
  proof -
    have "(cb_buf b)[unat (cb_head b) := x] = take (unat (cb_head b)) (cb_buf b) @ [x] @ drop (unat (cb_head b) + length [x]) (cb_buf b)"
      using n(1,5) by (simp add: upd_conv_take_nth_drop)
    then have "cbuf_put x b = b\<lparr>cb_buf := take (unat (cb_head b)) (cb_buf b) @ [x] @ drop (unat (cb_head b) + length [x]) (cb_buf b),
        cb_head := INC_POINTER b (cb_head b) (length [x])\<rparr>" by (simp add: cbuf_put_def)
    then show ?thesis using cbuf_advance_head [OF ok, of "[x]"] that n(1) by simp
  qed
  show "fst (cbuf_get b) = hd (cbuf_contents b) \<and> cbuf_ok (snd (cbuf_get b)) \<and>
      cbuf_contents (snd (cbuf_get b)) = tl (cbuf_contents b) \<and> cbuf_space_avail (snd (cbuf_get b)) = cbuf_space_avail b + 1"
    if "cbuf_contents b \<noteq> []"
  proof -
    have u: "1 \<le> cbuf_space_used b" using that by (cases "cbuf_space_used b") (simp_all add: cbuf_contents_def)
    let ?b = "b\<lparr>cb_tail := INC_POINTER b (cb_tail b) 1\<rparr>"
    have a: "cbuf_ok ?b" "cbuf_contents b = take 1 (drop (unat (cb_tail b)) (cb_buf b)) @ cbuf_contents ?b"
      "cbuf_space_used ?b = cbuf_space_used b - 1"
      using cbuf_advance_tail [OF ok u] n(2) by simp_all
    have "take 1 (drop (unat (cb_tail b)) (cb_buf b)) = [cb_buf b ! unat (cb_tail b)]"
      using n(2,5) by (simp add: take_Suc_conv_app_nth hd_drop_conv_nth take_Suc)
    with a u n(7,8) cbuf_nums(7) [OF a(1)] show ?thesis by (simp add: cbuf_get_def)
  qed
qed

lemma cbuf_more:
  fixes s s' :: "'a cbuf_state_scheme"
  assumes "kstate.more s' = kstate.more s"
  shows "cbufs s' = cbufs s"
  using assms by (cases s; cases s'; simp)

lemma upd_cbuf_sel [simp]:
  "threads (upd_cbuf i f s) = threads s" "thread_list (upd_cbuf i f s) = thread_list s"
  "wait_queues (upd_cbuf i f s) = wait_queues s" "current_thread (upd_cbuf i f s) = current_thread s"
  "block_frame (upd_cbuf i f s) = block_frame s" "events (upd_cbuf i f s) = events s"
  "cbufs (upd_cbuf i f s) = (cbufs s)(i := f (cbufs s i))"
  "cbufs (upd_event e g s) = cbufs s" "pending w x (upd_cbuf i f s) = pending w x s"
  by (simp_all add: upd_cbuf_def upd_event_def pending_def)

lemma kinv_upd_cbuf [simp]: "kinv sw D (upd_cbuf i f s) = kinv sw D s" "cpu_up (upd_cbuf i f s) c = cpu_up s c"
  "caller c (upd_cbuf i f s) = caller c s"
proof -
  show "kinv sw D (upd_cbuf i f s) = kinv sw D s" by (rule kinv_cong) (simp_all add: upd_cbuf_def)
qed (simp_all add: cpu_up_def live_def caller_def)

lemma sync_state_more:
  fixes s s' :: "'a cbuf_state_scheme"
  assumes "sync_state.more s' = sync_state.more s"
  shows "cbufs s' = cbufs s"
  using assms by (cases s; cases s'; simp)

text \<open>A buffer whose event says whether it holds something: nobody waits for a buffer that does.\<close>

definition cbuf_inv :: "nat \<Rightarrow> 'a cbuf_state_scheme \<Rightarrow> bool" where
  "cbuf_inv i s \<longleftrightarrow>
     (let b = cbufs s i; e = cb_event b in
      cbuf_ok b \<and> event_ok e s \<and> e_flags (events s e) AND EVENT_FLAG_AUTOUNSIGNAL = 0 \<and>
      signaled (events s e) = (cbuf_contents b \<noteq> []) \<and>
      (cbuf_contents b \<noteq> [] \<longrightarrow> wq_list (wait_queues s (event_wait_queue e)) = []))"

text \<open>Signalling after the contents have grown.\<close>

lemma cbuf_signal:
  fixes s :: "'a cbuf_state_scheme"
  assumes k: "kinv {} {} s" and up: "cpu_up s c" and r: "r \<longrightarrow> caller c s" and i: "cbuf_inv i s"
    and b: "cbuf_ok b" "cb_event b = cb_event (cbufs s i)" "cbuf_contents b = cbuf_contents (cbufs s i) @ xs"
  shows "\<exists>s'. (if cb_head b \<noteq> cb_tail b then map_option snd (event_signal c (cb_event b) r (upd_cbuf i (\<lambda>_. b) s))
      else Some (upd_cbuf i (\<lambda>_. b) s)) = Some s' \<and> kinv {} {} s' \<and> cbuf_inv i s' \<and> cbufs s' i = b"
proof -
  let ?e = "cb_event (cbufs s i)" and ?s1 = "upd_cbuf i (\<lambda>_. b) s"
  have i': "event_ok ?e s" "e_flags (events s ?e) AND EVENT_FLAG_AUTOUNSIGNAL = 0"
    "signaled (events s ?e) = (cbuf_contents (cbufs s i) \<noteq> [])"
    "cbuf_contents (cbufs s i) \<noteq> [] \<Longrightarrow> wq_list (wait_queues s (event_wait_queue ?e)) = []"
    using i unfolding cbuf_inv_def Let_def by blast+
  have em: "cb_head b \<noteq> cb_tail b \<longleftrightarrow> cbuf_contents b \<noteq> []"
    using cbuf_empty_iff [OF b(1)] by (auto simp: cbuf_contents_def simp flip: length_0_conv)
  have ev1: "event_ok ?e ?s1" using i'(1) by (simp add: event_ok_def)
  show ?thesis
  proof (cases "cbuf_contents b = []")
    case True
    then have "cbuf_contents (cbufs s i) = []" using b(3) by simp
    then have "cbuf_inv i ?s1" using i' b ev1 True by (simp add: cbuf_inv_def Let_def)
    with k em True show ?thesis by (intro exI [of _ ?s1] conjI) simp_all
  next
    case ne: False
    show ?thesis
    proof (cases "signaled (events s ?e)")
      case True
      have "event_signal c ?e r ?s1 = Some (NO_ERROR, ?s1)"
        using True i'(1) by (simp add: event_signal_def event_ok_def)
      moreover have "cbuf_inv i ?s1" using i' b ev1 True ne by (simp add: cbuf_inv_def Let_def)
      ultimately show ?thesis using k em ne b(2) by (intro exI [of _ ?s1] conjI) simp_all
    next
      case False
      have k1: "kinv {} {} ?s1" "cpu_up ?s1 c" "r \<longrightarrow> caller c ?s1" "\<not> signaled (events ?s1 ?e)"
        using k up r False by simp_all
      from event_signal_ok [OF k1(1-3) ev1 k1(4)] obtain s' where s': "event_signal c ?e r ?s1 = Some (NO_ERROR, s')"
        "kinv {} {} s'" "event_ok ?e s'" "sync_state.more s' = sync_state.more ?s1" "e_flags (events s' ?e) = e_flags (events ?s1 ?e)"
        "signaled (events s' ?e)" "wq_list (wait_queues s' (event_wait_queue ?e)) = []"
        using i'(2) unfolding Let_def by (auto simp del: upd_cbuf_sel(7))
      note cb = sync_state_more [OF s'(4)]
      have "cbuf_inv i s'" using s'(3,5-7) i'(2) b ne by (simp add: cbuf_inv_def Let_def cb)
      with s'(1,2) em ne b(2) cb show ?thesis by (intro exI [of _ s'] conjI) simp_all
    qed
  qed
qed

lemma cbuf_write_ok:
  assumes k: "kinv {} {} s" and up: "cpu_up s c" and i: "cbuf_inv i s" and len: "length data < 2 ^ unat (len_pow2 (cbufs s i))"
  shows "\<exists>s'. cbuf_write c i (Some data) (length data) False s = Some (min (length data) (cbuf_space_avail (cbufs s i)), s') \<and>
     kinv {} {} s' \<and> cbuf_inv i s' \<and>
     cbuf_contents (cbufs s' i) = cbuf_contents (cbufs s i) @ take (cbuf_space_avail (cbufs s i)) data \<and>
     cbuf_space_avail (cbufs s' i) = cbuf_space_avail (cbufs s i) - min (length data) (cbuf_space_avail (cbufs s i)) \<and>
     len_pow2 (cbufs s' i) = len_pow2 (cbufs s i)"
proof -
  have ok: "cbuf_ok (cbufs s i)" using i by (simp add: cbuf_inv_def Let_def)
  from cbuf_write_loop_spec [OF ok, of 0 data] obtain b where b:
    "cbuf_write_loop data 0 (cbufs s i) = Some (min (length data) (cbuf_space_avail (cbufs s i)), b)" "cbuf_ok b"
    "cbuf_contents b = cbuf_contents (cbufs s i) @ take (cbuf_space_avail (cbufs s i)) data"
    "cbuf_space_avail b = cbuf_space_avail (cbufs s i) - min (length data) (cbuf_space_avail (cbufs s i))"
    "len_pow2 b = len_pow2 (cbufs s i)" "cb_event b = cb_event (cbufs s i)" by auto
  from cbuf_signal [OF k up _ i b(2,6,3), of False] obtain s' where s': "kinv {} {} s'" "cbuf_inv i s'" "cbufs s' i = b"
    "(if cb_head b \<noteq> cb_tail b then map_option snd (event_signal c (cb_event b) False (upd_cbuf i (\<lambda>_. b) s))
      else Some (upd_cbuf i (\<lambda>_. b) s)) = Some s'" by blast
  have "cbuf_write c i (Some data) (length data) False s = Some (min (length data) (cbuf_space_avail (cbufs s i)), s')"
    unfolding cbuf_write_def Let_def option.case take_all [OF order_refl] b(1)
    using cbuf_nums(4) [OF ok] len s'(4) by simp
  with s' b(3-5) show ?thesis by (intro exI [of _ s'] conjI) simp_all
qed

lemma cbuf_read_locked_ok:
  assumes k: "kinv {} {} s" and i: "cbuf_inv i s" and n: "0 < buflen"
  shows "\<exists>s'. cbuf_read_locked i buflen s = Some (take buflen (cbuf_contents (cbufs s i)), s') \<and>
     kinv {} {} s' \<and> cbuf_inv i s' \<and> cbuf_contents (cbufs s' i) = drop buflen (cbuf_contents (cbufs s i)) \<and>
     (cbuf_contents (cbufs s i) = [] \<longrightarrow> s' = s)"
proof -
  let ?b = "cbufs s i" and ?e = "cb_event (cbufs s i)"
  have ok: "cbuf_ok ?b" using i by (simp add: cbuf_inv_def Let_def)
  have em: "cb_tail b = cb_head b \<longleftrightarrow> cbuf_contents b = []" if "cbuf_ok b" for b
    using cbuf_empty_iff [OF that] by (auto simp: cbuf_contents_def simp flip: length_0_conv)
  show ?thesis
  proof (cases "cbuf_contents ?b = []")
    case True
    then show ?thesis using k i em [OF ok] by (intro exI [of _ s] conjI) (simp_all add: cbuf_read_locked_def)
  next
    case False
    from cbuf_read_loop_spec [OF ok, of 0 buflen] obtain b where b:
      "cbuf_read_loop buflen 0 ?b = Some (take buflen (cbuf_contents ?b), b)" "cbuf_ok b"
      "cbuf_contents b = drop buflen (cbuf_contents ?b)" "len_pow2 b = len_pow2 ?b" "cb_event b = ?e" by auto
    have i': "event_ok ?e s" "e_flags (events s ?e) AND EVENT_FLAG_AUTOUNSIGNAL = 0" "signaled (events s ?e)"
      "wq_list (wait_queues s (event_wait_queue ?e)) = []"
      using i False unfolding cbuf_inv_def Let_def by blast+
    let ?s1 = "upd_cbuf i (\<lambda>_. b) s"
    let ?s' = "if cbuf_contents b = [] then upd_event ?e (\<lambda>ev. ev\<lparr>signaled := False\<rparr>) ?s1 else ?s1"
    have "cbuf_read_locked i buflen s = Some (take buflen (cbuf_contents ?b), ?s')"
      using False n em [OF ok] em [OF b(2)] b(1,5) i'(1)
      by (simp add: cbuf_read_locked_def event_unsignal_def event_ok_def)
    moreover have "cbuf_inv i ?s'" using i' b(2,5) by (simp add: cbuf_inv_def Let_def event_ok_def)
    ultimately show ?thesis using k False b(3) by (intro exI [of _ ?s'] conjI) simp_all
  qed
qed

lemma cbuf_read_ok:
  assumes k: "kinv {} {} s" and cl: "caller c s" and i: "cbuf_inv i s" and n: "0 < buflen"
  shows "\<exists>r s'. cbuf_read c i buflen block s = Some (r, s') \<and> kinv {} {} s' \<and> cbuf_inv i s' \<and>
     cbuf_contents (cbufs s' i) = drop buflen (cbuf_contents (cbufs s i)) \<and>
     r = (if block \<and> cbuf_contents (cbufs s i) = [] then Blocked else Ret (take buflen (cbuf_contents (cbufs s i))))"
proof -
  let ?b = "cbufs s i" and ?e = "cb_event (cbufs s i)"
  have i': "event_ok ?e s" "e_flags (events s ?e) AND EVENT_FLAG_AUTOUNSIGNAL = 0"
    "signaled (events s ?e) = (cbuf_contents ?b \<noteq> [])"
    using i unfolding cbuf_inv_def Let_def by blast+
  from cbuf_read_locked_ok [OF k i n] obtain s1 where s1: "cbuf_read_locked i buflen s = Some (take buflen (cbuf_contents ?b), s1)"
    "kinv {} {} s1" "cbuf_inv i s1" "cbuf_contents (cbufs s1 i) = drop buflen (cbuf_contents ?b)" by blast
  show ?thesis
  proof (cases "block \<and> cbuf_contents ?b = []")
    case False
    then have "cbuf_read c i buflen block s = Some (Ret (take buflen (cbuf_contents ?b)), s1)"
      using i' s1(1) n by (subst cbuf_read.simps) (auto simp: event_wait_timeout_def event_ok_def)
    with False s1 show ?thesis by (intro exI [of _ "Ret (take buflen (cbuf_contents ?b))"] exI [of _ s1] conjI) simp_all
  next
    case True
    let ?q = "event_wait_queue ?e"
    obtain s' where s': "wait_queue_block c ?q INFINITE_TIME s = Some (Blocked, s')" "kinv {} {} s'"
      "wait_queues s' = (wait_queues s)(?q := (wait_queues s ?q)\<lparr>
           wq_list := wq_list (wait_queues s ?q) @ [current_thread s c], wq_count := wq_count (wait_queues s ?q) + 1\<rparr>)"
      "events s' = events s" "sync_state.more s' = sync_state.more s"
      unfolding event_wait_queue_def
      by (rule sync_block [OF k cl, of "4 * ?e" INFINITE_TIME])
        (use i'(1) in \<open>simp_all add: event_ok_def event_wait_queue_def\<close>, (rule that; assumption)?)
    have "cbuf_read c i buflen block s = Some (Blocked, s')"
      using True i' s'(1) by (subst cbuf_read.simps) (simp add: event_wait_timeout_def event_ok_def)
    moreover have "cbuf_inv i s'"
      using i True by (simp add: cbuf_inv_def Let_def s'(3,4) sync_state_more [OF s'(5)] event_ok_def)
    ultimately show ?thesis using s'(2) True
      by (intro exI [of _ Blocked] exI [of _ s'] conjI) (simp_all add: sync_state_more [OF s'(5)])
  qed
qed

section \<open>A sample state\<close>

text \<open>The sample state of \<open>LK_Sync\<close> with an empty buffer of eight bytes on event 0.\<close>

definition demo_cbuf :: cbuf_state where
  "demo_cbuf = sync_state.extend (upd_event 0 (\<lambda>ev. ev\<lparr>e_flags := 0\<rparr>) (demo_sync 1))
     \<lparr>cbufs = (\<lambda>_. \<lparr>cb_head = 6, cb_tail = 6, len_pow2 = 3, cb_buf = replicate 8 0, cb_event = 0\<rparr>)\<rparr>"

lemma demo_cbuf_ok: "kinv {} {} demo_cbuf" "caller 0 demo_cbuf" "cpu_up demo_cbuf 0"
  using demo_sync_ok [of 1] unfolding demo_cbuf_def kinv_sync_extend by simp_all

lemma demo_cbuf_buf: "cbufs demo_cbuf i = \<lparr>cb_head = 6, cb_tail = 6, len_pow2 = 3, cb_buf = replicate 8 0, cb_event = 0\<rparr>"
  by (simp add: demo_cbuf_def sync_state.extend_def)

lemma demo_cbuf_nums: "cbuf_ok (cbufs demo_cbuf i)" "cbuf_contents (cbufs demo_cbuf i) = []" "cbuf_space_avail (cbufs demo_cbuf i) = 7"
proof -
  show ok: "cbuf_ok (cbufs demo_cbuf i)" by (simp add: cbuf_ok_def demo_cbuf_buf)
  have "cbuf_space_used (cbufs demo_cbuf i) = 0" using cbuf_nums(6) [OF ok] by (simp add: demo_cbuf_buf)
  with cbuf_nums(7) [OF ok] show "cbuf_contents (cbufs demo_cbuf i) = []" "cbuf_space_avail (cbufs demo_cbuf i) = 7"
    by (simp_all add: cbuf_contents_def demo_cbuf_buf)
qed

lemma demo_cbuf_inv: "cbuf_inv 0 demo_cbuf"
proof -
  have "event_ok 0 demo_cbuf" "e_flags (events demo_cbuf 0) = 0" "\<not> signaled (events demo_cbuf 0)"
    by (simp_all add: event_ok_def demo_cbuf_def sync_extend_sel demo_sync_wq demo_sync_objs)
  with demo_cbuf_nums show ?thesis by (simp add: cbuf_inv_def Let_def demo_cbuf_buf)
qed

section \<open>Properties\<close>

text \<open>
  C37: writing appends as much as fits: \<^verbatim>\<open>cbuf_write\<close> never leaves the memory of the buffer, returns the
  smaller of the length and the free space, the contents grow by exactly that prefix of the data whatever
  the wrap-around, and a buffer that holds something has its event signalled and nobody waiting on it. (Called
  without rescheduling; with it, a \<^verbatim>\<open>thread_preempt\<close> follows.)
\<close>

theorem cbuf_write_appends:
  assumes "kinv {} {} s" and "cpu_up s c" and "cbuf_inv i s" and "length data < 2 ^ unat (len_pow2 (cbufs s i))"
  shows "\<exists>s'. cbuf_write c i (Some data) (length data) False s = Some (min (length data) (cbuf_space_avail (cbufs s i)), s') \<and>
     kinv {} {} s' \<and> cbuf_inv i s' \<and>
     cbuf_contents (cbufs s' i) = cbuf_contents (cbufs s i) @ take (cbuf_space_avail (cbufs s i)) data \<and>
     cbuf_space_avail (cbufs s' i) = cbuf_space_avail (cbufs s i) - min (length data) (cbuf_space_avail (cbufs s i)) \<and>
     len_pow2 (cbufs s' i) = len_pow2 (cbufs s i)"
  by (rule cbuf_write_ok [OF assms])

theorem cbuf_write_appends_witness:
  "\<exists>s'. cbuf_write 0 0 (Some [1, 2, 3, 4]) 4 False demo_cbuf = Some (4, s') \<and> cbuf_contents (cbufs s' 0) = [1, 2, 3, 4] \<and>
     cbuf_space_avail (cbufs s' 0) = 3"
proof -
  have "length [1, 2, 3, 4 :: u8] < 2 ^ unat (len_pow2 (cbufs demo_cbuf 0))" by (simp add: demo_cbuf_buf)
  note w = cbuf_write_appends [OF demo_cbuf_ok(1,3) demo_cbuf_inv this, unfolded demo_cbuf_nums]
  have l: "length [1, 2, 3, 4 :: u8] = 4" "min 4 7 = (4 :: nat)" "take 7 [1, 2, 3, 4 :: u8] = [1, 2, 3, 4]" "7 - 4 = (3 :: nat)" by simp_all
  from w [unfolded l] show ?thesis by (simp only: append_Nil) blast
qed

text \<open>
  C38: reading takes the oldest bytes: \<^verbatim>\<open>cbuf_read\<close> returns the first \<open>buflen\<close> bytes of the contents, or
  all there are, and leaves the rest; on an empty buffer a blocking read puts the caller to sleep on the
  buffer's event and any other returns nothing; the event is cleared exactly when the buffer has become empty.
\<close>

theorem cbuf_read_takes:
  assumes "kinv {} {} s" and "caller c s" and "cbuf_inv i s" and "0 < buflen"
  shows "\<exists>r s'. cbuf_read c i buflen block s = Some (r, s') \<and> kinv {} {} s' \<and> cbuf_inv i s' \<and>
     cbuf_contents (cbufs s' i) = drop buflen (cbuf_contents (cbufs s i)) \<and>
     r = (if block \<and> cbuf_contents (cbufs s i) = [] then Blocked else Ret (take buflen (cbuf_contents (cbufs s i))))"
  by (rule cbuf_read_ok [OF assms])

theorem cbuf_read_takes_witness:
  "(\<exists>r s'. cbuf_read 0 0 4 True demo_cbuf = Some (r, s') \<and> r = Blocked) \<and>
   (\<exists>s r s'. cbuf_read 0 0 3 True s = Some (r, s' :: cbuf_state) \<and> r = Ret [1, 2, 3])"
proof
  show "\<exists>r s'. cbuf_read 0 0 4 True demo_cbuf = Some (r, s') \<and> r = Blocked"
    using cbuf_read_takes [OF demo_cbuf_ok(1,2) demo_cbuf_inv, of 4 True] by (auto simp: demo_cbuf_nums)
  let ?b = "\<lparr>cb_head = 2, cb_tail = 6, len_pow2 = 3, cb_buf = [3, 4, 0, 0, 0, 0, 1, 2], cb_event = 0\<rparr>"
  let ?s = "upd_event 0 (\<lambda>ev. ev\<lparr>signaled := True\<rparr>) (upd_cbuf 0 (\<lambda>_. ?b) demo_cbuf)"
  have ok: "cbuf_ok ?b" by (simp add: cbuf_ok_def)
  have ct: "cbuf_contents ?b = [1, 2, 3, 4]" by code_simp
  have k: "kinv {} {} ?s" "caller 0 ?s" using demo_cbuf_ok by simp_all
  have "wq_list (wait_queues demo_cbuf (event_wait_queue 0)) = []" "event_ok 0 demo_cbuf" "e_flags (events demo_cbuf 0) = 0"
    by (simp_all add: event_ok_def demo_cbuf_def sync_extend_sel demo_sync_wq demo_sync_objs event_wait_queue_def)
  then have i: "cbuf_inv 0 ?s" using ok ct by (simp add: cbuf_inv_def Let_def event_ok_def)
  have cs: "cbuf_contents (cbufs ?s 0) = [1, 2, 3, 4]" using ct by simp
  from cbuf_read_takes [OF k i, of 3 True, unfolded cs] obtain r s' where
    "cbuf_read 0 0 3 True ?s = Some (r, s')" "r = Ret [1, 2, 3]" by auto
  then show "\<exists>s r s'. cbuf_read 0 0 3 True s = Some (r, s' :: cbuf_state) \<and> r = Ret [1, 2, 3]" by blast
qed

text \<open>
  \<^verbatim>\<open>cbuf_peek\<close> describes the contents without consuming them: the two regions it reports, one after the
  other, are exactly the bytes a read would return, also when they wrap around the end of the memory.
\<close>

theorem cbuf_peek_regions:
  assumes "cbuf_ok b"
  shows "\<exists>o0 n0 o1 n1. cbuf_peek b = Some (length (cbuf_contents b), (o0, n0), (o1, n1)) \<and>
     take n0 (drop (case o0 of None \<Rightarrow> 0 | Some p \<Rightarrow> p) (cb_buf b)) @ take n1 (drop (case o1 of None \<Rightarrow> 0 | Some p \<Rightarrow> p) (cb_buf b)) =
       cbuf_contents b \<and> (o0 = None) = (cbuf_contents b = [])"
  by (rule cbuf_peek_spec [OF assms])

text \<open>
  Characters come out of a buffer in the order they went in: writing any string that fits into an empty
  buffer character by character and reading it back character by character gives the string.
\<close>

lemma cbuf_chars_fifo:
  assumes "cbuf_ok b" and "cbuf_contents b = []" and "length xs \<le> cbuf_space_avail b"
  shows "fst (cbuf_fifo.gets (length xs) (cbuf_fifo.puts xs b)) = xs"
  by (rule cbuf_fifo.fifo [OF assms])

end
