(* ===== verification/LK_Port.thy ===== *)
theory LK_Port
  imports LK_Ring LK_Sync
begin

text \<open>
  Ports: \<^verbatim>\<open>kernel/port.c\<close>, named message queues with one writing end and any number of readers, and groups of
  readers. The objects of the three kinds are numbered; a \<^verbatim>\<open>port_t\<close>, which the source casts after looking
  at the magic number, is a reference to one of them. Packet buffers are passed around by pointer but have
  one owner at a time, so they are values. The calls of the heap are parameters: what they return.
\<close>

section \<open>Packet buffers\<close>

definition WRITEPORT_MAGIC_W :: int where "WRITEPORT_MAGIC_W = 0x70727477"
definition WRITEPORT_MAGIC_X :: int where "WRITEPORT_MAGIC_X = 0x70727478"
definition READPORT_MAGIC :: int where "READPORT_MAGIC = 0x70727472"
definition PORTGROUP_MAGIC :: int where "PORTGROUP_MAGIC = 0x70727467"
definition PORT_BUFF_SIZE :: u32 where "PORT_BUFF_SIZE = 8"
definition PORT_BUFF_SIZE_BIG :: u32 where "PORT_BUFF_SIZE_BIG = 64"
definition MAX_PORT_GROUP_COUNT :: nat where "MAX_PORT_GROUP_COUNT = 256"
definition PORT_NAME_LEN :: nat where "PORT_NAME_LEN = 12"
definition PORT_MODE_BROADCAST :: u32 where "PORT_MODE_BROADCAST = 0"
definition PORT_MODE_UNICAST :: u32 where "PORT_MODE_UNICAST = 1"
definition PORT_MODE_BIG_BUFFER :: u32 where "PORT_MODE_BIG_BUFFER = 2"

type_synonym port_packet = "u8 list"

record port_buf =
  pb_log2 :: u32
  pb_avail :: u32
  pb_head :: u32
  pb_tail :: u32
  pb_packet :: "port_packet list"

text \<open>\<open>malloc n\<close> is the memory for \<open>n\<close> packets, when there is any.\<close>

definition make_buf :: "(nat \<Rightarrow> port_packet list option) \<Rightarrow> bool \<Rightarrow> port_buf option" where
  "make_buf malloc big =
     (let pk_count = (if big then PORT_BUFF_SIZE_BIG else PORT_BUFF_SIZE) in
      case malloc (unat pk_count) of
        None \<Rightarrow> None
      | Some mem \<Rightarrow> Some \<lparr>pb_log2 = log2_uint pk_count, pb_avail = pk_count, pb_head = 0, pb_tail = 0, pb_packet = mem\<rparr>)"

definition buf_is_empty :: "port_buf \<Rightarrow> bool" where
  "buf_is_empty b \<longleftrightarrow> pb_avail b = valpow2 (pb_log2 b)"

fun buf_write_loop :: "port_packet list \<Rightarrow> port_buf \<Rightarrow> port_buf" where
  "buf_write_loop [] b = b"
| "buf_write_loop (p # ps) b =
     buf_write_loop ps (b\<lparr>pb_packet := (pb_packet b)[unat (pb_tail b) := p], pb_tail := modpow2 (pb_tail b + 1) (pb_log2 b)\<rparr>)"

definition buf_write :: "port_packet list \<Rightarrow> port_buf \<Rightarrow> status_t \<times> port_buf" where
  "buf_write packets b =
     (if unat (pb_avail b) < length packets then (ERR_NOT_ENOUGH_BUFFER, b)
      else let b = buf_write_loop packets b
           in (NO_ERROR, b\<lparr>pb_avail := pb_avail b - of_nat (length packets)\<rparr>))"

definition buf_read :: "port_buf \<Rightarrow> status_t \<times> port_packet option \<times> port_buf" where
  "buf_read b =
     (if buf_is_empty b then (ERR_NO_MSG, None, b)
      else (NO_ERROR, Some (pb_packet b ! unat (pb_head b)),
            b\<lparr>pb_head := modpow2 (pb_head b + 1) (pb_log2 b), pb_avail := pb_avail b + 1\<rparr>))"

text \<open>What a buffer holds.\<close>

definition buf_ok :: "port_buf \<Rightarrow> bool" where
  "buf_ok b \<longleftrightarrow> unat (pb_log2 b) < 31 \<and> length (pb_packet b) = 2 ^ unat (pb_log2 b) \<and>
     unat (pb_avail b) \<le> 2 ^ unat (pb_log2 b) \<and> unat (pb_head b) < 2 ^ unat (pb_log2 b) \<and>
     unat (pb_tail b) = (unat (pb_head b) + (2 ^ unat (pb_log2 b) - unat (pb_avail b))) mod 2 ^ unat (pb_log2 b)"

definition buf_contents :: "port_buf \<Rightarrow> port_packet list" where
  "buf_contents b = ring (pb_packet b) (unat (pb_head b)) (2 ^ unat (pb_log2 b) - unat (pb_avail b))"

definition buf_put :: "port_packet \<Rightarrow> port_buf \<Rightarrow> port_buf" where
  "buf_put p b = snd (buf_write [p] b)"

definition buf_get :: "port_buf \<Rightarrow> port_packet \<times> port_buf" where
  "buf_get b = (case buf_read b of (_, p, b) \<Rightarrow> (the p, b))"

lemma unat_inc_mod:
  assumes "unat lg < 31" and "unat x < 2 ^ unat lg"
  shows "unat (modpow2 (x + 1) lg) = Suc (unat x) mod 2 ^ unat lg"
proof -
  have "(2::nat) ^ unat lg \<le> 2 ^ 30" using assms(1) by (intro power_increasing) simp_all
  then have "unat x + 1 < 2 ^ 32" using assms(2) by simp
  then have "unat (x + 1) = Suc (unat x)" by (simp add: unat_word_ariths)
  then show ?thesis by (simp add: unat_modpow2)
qed

lemma buf_empty_iff: "buf_ok b \<Longrightarrow> buf_is_empty b \<longleftrightarrow> buf_contents b = []"
proof -
  assume ok: "buf_ok b"
  then have v: "unat (valpow2 (pb_log2 b)) = 2 ^ unat (pb_log2 b)" by (intro unat_valpow2) (simp add: buf_ok_def)
  have "buf_is_empty b \<longleftrightarrow> unat (pb_avail b) = 2 ^ unat (pb_log2 b)"
    unfolding buf_is_empty_def word_unat_eq_iff v ..
  also have "\<dots> \<longleftrightarrow> buf_contents b = []"
    using ok by (auto simp: buf_contents_def buf_ok_def simp flip: length_0_conv)
  finally show ?thesis .
qed

lemma buf_write_loop_spec:
  assumes "unat (pb_log2 b) < 31" and "length (pb_packet b) = 2 ^ unat (pb_log2 b)" and "unat (pb_head b) < 2 ^ unat (pb_log2 b)"
    and "unat (pb_tail b) = (unat (pb_head b) + n) mod 2 ^ unat (pb_log2 b)" and "n + length ps \<le> 2 ^ unat (pb_log2 b)"
  shows "\<exists>m t. buf_write_loop ps b = b\<lparr>pb_packet := m, pb_tail := t\<rparr> \<and> length m = 2 ^ unat (pb_log2 b) \<and>
     unat t = (unat (pb_head b) + (n + length ps)) mod 2 ^ unat (pb_log2 b) \<and>
     ring m (unat (pb_head b)) (n + length ps) = ring (pb_packet b) (unat (pb_head b)) n @ ps"
  using assms
proof (induction ps arbitrary: b n)
  case Nil
  then show ?case by (intro exI [of _ "pb_packet b"] exI [of _ "pb_tail b"]) simp
next
  case (Cons p ps)
  let ?L = "(2::nat) ^ unat (pb_log2 b)"
  let ?b = "b\<lparr>pb_packet := (pb_packet b)[unat (pb_tail b) := p], pb_tail := modpow2 (pb_tail b + 1) (pb_log2 b)\<rparr>"
  have tl: "unat (pb_tail b) < ?L" using Cons.prems(4) by simp
  have t': "unat (modpow2 (pb_tail b + 1) (pb_log2 b)) = (unat (pb_head b) + Suc n) mod ?L"
    using unat_inc_mod [OF Cons.prems(1) tl] Cons.prems(4) by (simp add: mod_simps)
  have r: "ring ((pb_packet b)[unat (pb_tail b) := p]) (unat (pb_head b)) (Suc n) = ring (pb_packet b) (unat (pb_head b)) n @ [p]"
    using ring_push [of n "pb_packet b" "unat (pb_head b)" p] Cons.prems(2,4,5) by simp
  have "\<exists>m t. buf_write_loop ps ?b = ?b\<lparr>pb_packet := m, pb_tail := t\<rparr> \<and> length m = ?L \<and>
     unat t = (unat (pb_head b) + (Suc n + length ps)) mod ?L \<and>
     ring m (unat (pb_head b)) (Suc n + length ps) = ring (pb_packet ?b) (unat (pb_head b)) (Suc n) @ ps"
    using Cons.IH [of ?b "Suc n"] Cons.prems t' by simp
  then show ?case using r by auto
qed

lemma buf_write_spec:
  assumes ok: "buf_ok b"
  shows "if length ps \<le> unat (pb_avail b)
     then fst (buf_write ps b) = NO_ERROR \<and> buf_ok (snd (buf_write ps b)) \<and>
       buf_contents (snd (buf_write ps b)) = buf_contents b @ ps \<and>
       unat (pb_avail (snd (buf_write ps b))) = unat (pb_avail b) - length ps \<and> pb_log2 (snd (buf_write ps b)) = pb_log2 b
     else buf_write ps b = (ERR_NOT_ENOUGH_BUFFER, b)"
proof (cases "length ps \<le> unat (pb_avail b)")
  case False
  then show ?thesis by (simp add: buf_write_def)
next
  case True
  let ?L = "(2::nat) ^ unat (pb_log2 b)"
  let ?n = "?L - unat (pb_avail b)"
  have o: "unat (pb_log2 b) < 31" "length (pb_packet b) = ?L" "unat (pb_avail b) \<le> ?L" "unat (pb_head b) < ?L"
    "unat (pb_tail b) = (unat (pb_head b) + ?n) mod ?L" using ok by (simp_all add: buf_ok_def)
  have room: "?n + length ps \<le> ?L" using True o(3) by simp
  from buf_write_loop_spec [OF o(1,2,4,5) room] obtain m t where
    w: "buf_write_loop ps b = b\<lparr>pb_packet := m, pb_tail := t\<rparr>" "length m = ?L"
      "unat t = (unat (pb_head b) + (?n + length ps)) mod ?L"
      "ring m (unat (pb_head b)) (?n + length ps) = ring (pb_packet b) (unat (pb_head b)) ?n @ ps" by (elim exE conjE)
  have lp: "unat (of_nat (length ps) :: u32) = length ps" using True by (rule le_unat_uoi)
  have le: "(of_nat (length ps) :: u32) \<le> pb_avail b" unfolding word_le_nat_alt lp by (rule True)
  have av: "unat (pb_avail b - of_nat (length ps)) = unat (pb_avail b) - length ps" using unat_sub [OF le] lp by simp
  have ln: "?L - (unat (pb_avail b) - length ps) = ?n + length ps" using True o(3) by simp
  show ?thesis using True o w av ln by (simp add: buf_write_def Let_def buf_ok_def buf_contents_def)
qed

lemma buf_read_spec:
  assumes ok: "buf_ok b"
  shows "case buf_contents b of
      [] \<Rightarrow> buf_read b = (ERR_NO_MSG, None, b)
    | p # ps \<Rightarrow> (\<exists>b'. buf_read b = (NO_ERROR, Some p, b') \<and> buf_ok b' \<and> buf_contents b' = ps \<and>
        unat (pb_avail b') = unat (pb_avail b) + 1 \<and> pb_log2 b' = pb_log2 b)"
proof (cases "buf_contents b")
  case Nil
  then show ?thesis using buf_empty_iff [OF ok] by (simp add: buf_read_def)
next
  case (Cons p ps)
  let ?L = "(2::nat) ^ unat (pb_log2 b)"
  let ?n = "?L - unat (pb_avail b)"
  have o: "unat (pb_log2 b) < 31" "length (pb_packet b) = ?L" "unat (pb_avail b) \<le> ?L" "unat (pb_head b) < ?L"
    "unat (pb_tail b) = (unat (pb_head b) + ?n) mod ?L" using ok by (simp_all add: buf_ok_def)
  have n: "0 < ?n" using Cons by (cases ?n) (simp_all add: buf_contents_def)
  let ?b = "b\<lparr>pb_head := modpow2 (pb_head b + 1) (pb_log2 b), pb_avail := pb_avail b + 1\<rparr>"
  have e: "buf_read b = (NO_ERROR, Some (pb_packet b ! unat (pb_head b)), ?b)"
    using Cons buf_empty_iff [OF ok] by (simp add: buf_read_def)
  have h: "unat (modpow2 (pb_head b + 1) (pb_log2 b)) = Suc (unat (pb_head b)) mod ?L" by (rule unat_inc_mod [OF o(1,4)])
  have "(2::nat) ^ unat (pb_log2 b) \<le> 2 ^ 30" using o(1) by (intro power_increasing) simp_all
  then have "unat (pb_avail b) + 1 < 2 ^ 32" using o(3) by simp
  then have a: "unat (pb_avail b + 1) = unat (pb_avail b) + 1" by (simp add: unat_word_ariths)
  have c: "buf_contents b = pb_packet b ! unat (pb_head b) # ring (pb_packet b) (Suc (unat (pb_head b)) mod ?L) (?n - 1)"
    unfolding buf_contents_def using ring_pop [OF n, of "unat (pb_head b)" "pb_packet b"] o(2,4) by simp
  have k: "?L - (unat (pb_avail b) + 1) = ?n - 1" by simp
  have tl: "unat (pb_tail b) = (Suc (unat (pb_head b)) mod ?L + (?n - 1)) mod ?L"
    unfolding mod_add_left_eq o(5) by (rule arg_cong [where f = "\<lambda>x. x mod ?L"]) (use n in linarith)
  have sel: "pb_log2 ?b = pb_log2 b" "pb_packet ?b = pb_packet b" "pb_tail ?b = pb_tail b"
    "pb_head ?b = modpow2 (pb_head b + 1) (pb_log2 b)" "pb_avail ?b = pb_avail b + 1" by simp_all
  have "buf_ok ?b" unfolding buf_ok_def sel h a k
    by (intro conjI, rule o(1), rule o(2), use n in linarith, simp, rule tl)
  moreover have "buf_contents ?b = ps" using c Cons by (simp add: buf_contents_def h a k)
  ultimately show ?thesis using Cons c e a by simp
qed

interpretation port_fifo: bounded_fifo buf_ok buf_contents "\<lambda>b. unat (pb_avail b)" buf_put buf_get
proof
  fix b :: port_buf and p
  assume ok: "buf_ok b"
  show "buf_ok (buf_put p b) \<and> buf_contents (buf_put p b) = buf_contents b @ [p] \<and> unat (pb_avail (buf_put p b)) = unat (pb_avail b) - 1"
    if "0 < unat (pb_avail b)"
    using buf_write_spec [OF ok, of "[p]"] that by (simp add: buf_put_def)
  show "fst (buf_get b) = hd (buf_contents b) \<and> buf_ok (snd (buf_get b)) \<and> buf_contents (snd (buf_get b)) = tl (buf_contents b) \<and>
      unat (pb_avail (snd (buf_get b))) = unat (pb_avail b) + 1" if "buf_contents b \<noteq> []"
    using buf_read_spec [OF ok] that by (auto simp: buf_get_def split: list.splits)
qed

lemma make_buf_ok:
  assumes "\<And>n mem. malloc n = Some mem \<Longrightarrow> length mem = n" and "make_buf malloc big = Some b"
  shows "buf_ok b" "buf_contents b = []" "unat (pb_avail b) = (if big then 64 else 8)"
proof -
  have lg: "log2_uint 8 = 3" "log2_uint 64 = 6" by (code_simp, code_simp)
  from assms show "buf_ok b" "buf_contents b = []" "unat (pb_avail b) = (if big then 64 else 8)"
    by (auto simp: make_buf_def buf_ok_def buf_contents_def lg PORT_BUFF_SIZE_def PORT_BUFF_SIZE_BIG_def Let_def
        split: option.splits if_splits)
qed

section \<open>Ports and groups\<close>

record write_port =
  wp_magic :: int
  wp_buf :: "port_buf option"
  wp_rp_list :: "nat list"
  wp_mode :: u32
  wp_name :: string

record read_port =
  rp_magic :: int
  rp_buf :: "port_buf option"
  rp_ctx :: u64
  rp_wport :: "nat option"
  rp_gport :: "nat option"

record port_grp =
  pg_magic :: int
  pg_rp_list :: "nat list"

datatype port_ref = WritePort nat | ReadPort nat | GroupPort nat

record port_state = sync_state +
  write_ports :: "nat \<Rightarrow> write_port"
  read_ports :: "nat \<Rightarrow> read_port"
  port_groups :: "nat \<Rightarrow> port_grp"
  write_port_list :: "nat list"
  ports_freed :: "port_ref list"

record port_result =
  pr_ctx :: u64
  pr_packet :: port_packet

definition rp_wait_queue :: "nat \<Rightarrow> wq_id" where "rp_wait_queue r = ObjWq (8 * r + 3)"
definition pg_wait_queue :: "nat \<Rightarrow> wq_id" where "pg_wait_queue g = ObjWq (8 * g + 7)"

definition upd_wp :: "nat \<Rightarrow> (write_port \<Rightarrow> write_port) \<Rightarrow> 'a port_state_scheme \<Rightarrow> 'a port_state_scheme" where
  "upd_wp w f s = s\<lparr>write_ports := (write_ports s)(w := f (write_ports s w))\<rparr>"

definition upd_rp :: "nat \<Rightarrow> (read_port \<Rightarrow> read_port) \<Rightarrow> 'a port_state_scheme \<Rightarrow> 'a port_state_scheme" where
  "upd_rp r f s = s\<lparr>read_ports := (read_ports s)(r := f (read_ports s r))\<rparr>"

definition upd_pg :: "nat \<Rightarrow> (port_grp \<Rightarrow> port_grp) \<Rightarrow> 'a port_state_scheme \<Rightarrow> 'a port_state_scheme" where
  "upd_pg g f s = s\<lparr>port_groups := (port_groups s)(g := f (port_groups s g))\<rparr>"

text \<open>The magic number is the first field of all three structures, whatever the pointer is cast to.\<close>

fun port_magic :: "port_ref \<Rightarrow> 'a port_state_scheme \<Rightarrow> int" where
  "port_magic (WritePort w) s = wp_magic (write_ports s w)"
| "port_magic (ReadPort r) s = rp_magic (read_ports s r)"
| "port_magic (GroupPort g) s = pg_magic (port_groups s g)"

text \<open>\<^verbatim>\<open>list_delete\<close> of a node that is not linked follows a null pointer.\<close>

definition unlink :: "nat \<Rightarrow> nat list \<Rightarrow> nat list option" where
  "unlink x xs = (if x \<in> set xs then Some (remove1 x xs) else None)"

section \<open>Creating and opening\<close>

definition port_init :: "'a port_state_scheme \<Rightarrow> 'a port_state_scheme" where
  "port_init s = s\<lparr>write_port_list := []\<rparr>"

text \<open>
  \<^verbatim>\<open>port_create\<close> takes the lock twice, to look the name up and to publish the new port; in between another
  thread can run. \<open>calloc\<close> is the new object and \<open>malloc\<close> the new packets, when there is memory. The
  pointers the new objects are returned through are part of the result; that one of them is null is not
  distinguished from a null name.
\<close>

definition find_port :: "string \<Rightarrow> 'a port_state_scheme \<Rightarrow> nat option" where
  "find_port name s = List.find (\<lambda>w. wp_name (write_ports s w) = name) (write_port_list s)"

definition port_create_lookup :: "string \<Rightarrow> 'a port_state_scheme \<Rightarrow> (status_t \<times> port_ref option) option" where
  "port_create_lookup name s =
     (case find_port name s of
        None \<Rightarrow> None
      | Some w \<Rightarrow> Some (if wp_magic (write_ports s w) = WRITEPORT_MAGIC_X then (ERR_BUSY, None)
                       else (ERR_ALREADY_EXISTS, Some (WritePort w))))"

definition port_create_publish ::
  "nat option \<Rightarrow> (nat \<Rightarrow> port_packet list option) \<Rightarrow> string \<Rightarrow> u32 \<Rightarrow> 'a port_state_scheme \<Rightarrow> (status_t \<times> port_ref option) \<times> 'a port_state_scheme" where
  "port_create_publish calloc malloc name mode s =
     (case calloc of
        None \<Rightarrow> ((ERR_NO_MEMORY, None), s)
      | Some w \<Rightarrow>
          (case make_buf malloc (mode AND PORT_MODE_BIG_BUFFER \<noteq> 0) of
             None \<Rightarrow> ((ERR_NO_MEMORY, None), s)
           | Some b \<Rightarrow>
               let s = upd_wp w (\<lambda>_. \<lparr>wp_magic = WRITEPORT_MAGIC_W, wp_buf = Some b, wp_rp_list = [], wp_mode = mode, wp_name = name\<rparr>) s
               in ((NO_ERROR, Some (WritePort w)), s\<lparr>write_port_list := write_port_list s @ [w]\<rparr>)))"

definition port_create ::
  "nat option \<Rightarrow> (nat \<Rightarrow> port_packet list option) \<Rightarrow> string option \<Rightarrow> u32 \<Rightarrow> 'a port_state_scheme \<Rightarrow> (status_t \<times> port_ref option) \<times> 'a port_state_scheme" where
  "port_create calloc malloc name_arg mode s =
     (case name_arg of
        None \<Rightarrow> ((ERR_INVALID_ARGS, None), s)
      | Some name \<Rightarrow>
          if mode AND PORT_MODE_BROADCAST \<noteq> 0 \<and> mode AND PORT_MODE_BIG_BUFFER \<noteq> 0 then ((ERR_INVALID_ARGS, None), s)
          else if length name \<ge> PORT_NAME_LEN then ((ERR_INVALID_ARGS, None), s)
          else (case port_create_lookup name s of
                  Some r \<Rightarrow> (r, s)
                | None \<Rightarrow> port_create_publish calloc malloc name mode s))"

definition port_open ::
  "nat option \<Rightarrow> (nat \<Rightarrow> port_packet list option) \<Rightarrow> string option \<Rightarrow> u64 \<Rightarrow> 'a port_state_scheme \<Rightarrow> (status_t \<times> port_ref option) \<times> 'a port_state_scheme" where
  "port_open calloc malloc name_arg ctx s =
     (case name_arg of
        None \<Rightarrow> ((ERR_INVALID_ARGS, None), s)
      | Some name \<Rightarrow>
     (case calloc of
        None \<Rightarrow> ((ERR_NO_MEMORY, None), s)
      | Some r \<Rightarrow>
          let rp = \<lparr>rp_magic = READPORT_MAGIC, rp_buf = None, rp_ctx = ctx, rp_wport = None, rp_gport = None\<rparr>;
              s = wait_queue_init (rp_wait_queue r) s
          in (case make_buf malloc False of
                None \<Rightarrow> ((ERR_NO_MEMORY, None), s)
              | Some buf \<Rightarrow>
          (case find_port name s of
             None \<Rightarrow> ((ERR_NOT_FOUND, None), s)
           | Some w \<Rightarrow>
               (case wp_buf (write_ports s w) of
                  Some b \<Rightarrow>
                    ((NO_ERROR, Some (ReadPort r)),
                     upd_rp r (\<lambda>_. rp\<lparr>rp_wport := Some w, rp_buf := Some b\<rparr>)
                       (upd_wp w (\<lambda>wp. wp\<lparr>wp_rp_list := wp_rp_list wp @ [r], wp_buf := None\<rparr>) s))
                | None \<Rightarrow>
                    if wp_mode (write_ports s w) AND PORT_MODE_UNICAST \<noteq> 0 then ((ERR_NOT_ALLOWED, None), s)
                    else ((NO_ERROR, Some (ReadPort r)),
                          upd_rp r (\<lambda>_. rp\<lparr>rp_wport := Some w, rp_buf := Some buf\<rparr>)
                            (upd_wp w (\<lambda>wp. wp\<lparr>wp_rp_list := wp_rp_list wp @ [r]\<rparr>) s)))))))"

section \<open>Groups\<close>

text \<open>The loop of \<^verbatim>\<open>port_group\<close>: \<open>done\<close> holds the ports linked so far.\<close>

fun port_group_loop :: "nat \<Rightarrow> nat list \<Rightarrow> port_ref list \<Rightarrow> 'a port_state_scheme \<Rightarrow> status_t \<times> 'a port_state_scheme" where
  "port_group_loop g linked [] s = (NO_ERROR, s)"
| "port_group_loop g linked (p # ps) s =
     (case p of
        ReadPort r \<Rightarrow>
          if rp_magic (read_ports s r) \<noteq> READPORT_MAGIC \<or> rp_gport (read_ports s r) \<noteq> None
          then (ERR_BAD_HANDLE, fold (\<lambda>r. upd_rp r (\<lambda>rp. rp\<lparr>rp_gport := None\<rparr>)) linked s)
          else port_group_loop g (linked @ [r]) ps
                 (upd_pg g (\<lambda>pg. pg\<lparr>pg_rp_list := pg_rp_list pg @ [r]\<rparr>) (upd_rp r (\<lambda>rp. rp\<lparr>rp_gport := Some g\<rparr>) s))
      | _ \<Rightarrow> (ERR_BAD_HANDLE, fold (\<lambda>r. upd_rp r (\<lambda>rp. rp\<lparr>rp_gport := None\<rparr>)) linked s))"

definition port_group :: "nat option \<Rightarrow> port_ref list option \<Rightarrow> nat \<Rightarrow> 'a port_state_scheme \<Rightarrow> (status_t \<times> port_ref option) \<times> 'a port_state_scheme" where
  "port_group calloc ports cnt s =
     (if cnt > MAX_PORT_GROUP_COUNT then ((ERR_TOO_BIG, None), s)
      else if cnt \<noteq> 0 \<and> ports = None then ((ERR_INVALID_ARGS, None), s)
      else (case calloc of
              None \<Rightarrow> ((ERR_NO_MEMORY, None), s)
            | Some g \<Rightarrow>
                let s = wait_queue_init (pg_wait_queue g) (upd_pg g (\<lambda>_. \<lparr>pg_magic = PORTGROUP_MAGIC, pg_rp_list = []\<rparr>) s);
                    (rc, s) = port_group_loop g [] (take cnt (case ports of None \<Rightarrow> [] | Some ps \<Rightarrow> ps)) s
                in if rc = NO_ERROR then ((NO_ERROR, Some (GroupPort g)), s)
                   else ((rc, None), s\<lparr>ports_freed := ports_freed s @ [GroupPort g]\<rparr>)))"

definition port_group_add :: "cpu \<Rightarrow> port_ref option \<Rightarrow> port_ref option \<Rightarrow> 'a port_state_scheme \<Rightarrow> (status_t \<times> 'a port_state_scheme) option" where
  "port_group_add cpu grp port s =
     (if port = None \<or> grp = None then Some (ERR_INVALID_ARGS, s)
      else if port_magic (the grp) s \<noteq> PORTGROUP_MAGIC then Some (ERR_INVALID_ARGS, s)
      else (case (grp, port) of
              (Some (GroupPort g), Some (ReadPort r)) \<Rightarrow>
                if rp_magic (read_ports s r) \<noteq> READPORT_MAGIC \<or> rp_gport (read_ports s r) \<noteq> None then Some (ERR_BAD_HANDLE, s)
                else if length (pg_rp_list (port_groups s g)) = MAX_PORT_GROUP_COUNT then Some (ERR_TOO_BIG, s)
                else do {
                  let s = upd_rp r (\<lambda>rp. rp\<lparr>rp_gport := Some g\<rparr>) s;
                  let s = upd_pg g (\<lambda>pg. pg\<lparr>pg_rp_list := pg_rp_list pg @ [r]\<rparr>) s;
                  b \<leftarrow> rp_buf (read_ports s r);
                  s \<leftarrow> (if \<not> buf_is_empty b then map_option snd (wait_queue_wake_one cpu (pg_wait_queue g) False NO_ERROR s)
                         else Some s);
                  Some (NO_ERROR, s)
                }
            | _ \<Rightarrow> Some (ERR_BAD_HANDLE, s)))"

text \<open>The second component of the result of \<^verbatim>\<open>port_group_remove\<close> says whether it returns with the thread lock held.\<close>

definition port_group_remove :: "port_ref option \<Rightarrow> port_ref option \<Rightarrow> 'a port_state_scheme \<Rightarrow> (status_t \<times> bool) \<times> 'a port_state_scheme" where
  "port_group_remove grp port s =
     (if port = None \<or> grp = None then ((ERR_INVALID_ARGS, False), s)
      else if port_magic (the grp) s \<noteq> PORTGROUP_MAGIC then ((ERR_INVALID_ARGS, False), s)
      else (case (grp, port) of
              (Some (GroupPort g), Some (ReadPort r)) \<Rightarrow>
                if rp_magic (read_ports s r) \<noteq> READPORT_MAGIC \<or> rp_gport (read_ports s r) \<noteq> Some g then ((ERR_BAD_HANDLE, False), s)
                else if r \<notin> set (pg_rp_list (port_groups s g)) then ((ERR_BAD_HANDLE, True), s)
                else ((NO_ERROR, False), upd_pg g (\<lambda>pg. pg\<lparr>pg_rp_list := remove1 r (pg_rp_list pg)\<rparr>) s)
            | _ \<Rightarrow> ((ERR_BAD_HANDLE, False), s)))"

section \<open>Writing and reading\<close>

fun port_write_loop :: "cpu \<Rightarrow> port_packet list \<Rightarrow> nat list \<Rightarrow> status_t \<Rightarrow> int \<Rightarrow> 'a port_state_scheme \<Rightarrow>
    (status_t \<times> int \<times> 'a port_state_scheme) option" where
  "port_write_loop cpu pk [] status awake_count s = Some (status, awake_count, s)"
| "port_write_loop cpu pk (r # rs) status awake_count s =
     do {
       b \<leftarrow> rp_buf (read_ports s r);
       let (st, b) = buf_write pk b;
       if st < 0 then port_write_loop cpu pk rs ERR_PARTIAL_WRITE awake_count s
       else do {
         let s = upd_rp r (\<lambda>rp. rp\<lparr>rp_buf := Some b\<rparr>) s;
         (awaken, s) \<leftarrow> (case rp_gport (read_ports s r) of
                            None \<Rightarrow> Some (0, s)
                          | Some g \<Rightarrow> wait_queue_wake_one cpu (pg_wait_queue g) False NO_ERROR s);
         (awaken, s) \<leftarrow> (if awaken = 0 then wait_queue_wake_one cpu (rp_wait_queue r) False NO_ERROR s
                          else Some (awaken, s));
         port_write_loop cpu pk rs status (awake_count + awaken) s
       }
     }"

definition port_write :: "cpu \<Rightarrow> port_ref option \<Rightarrow> port_packet list option \<Rightarrow> 'a port_state_scheme \<Rightarrow> (status_t \<times> 'a port_state_scheme) option" where
  "port_write cpu port pk_arg s =
     (case (port, pk_arg) of
        (Some p, Some pk) \<Rightarrow>
          if port_magic p s \<noteq> WRITEPORT_MAGIC_W then Some (ERR_BAD_HANDLE, s)
          else (case p of
            WritePort w \<Rightarrow> do {
              (status, awake_count, s) \<leftarrow>
                (case wp_buf (write_ports s w) of
                   Some b \<Rightarrow> let (status, b) = buf_write pk b
                             in Some (status, 0, upd_wp w (\<lambda>wp. wp\<lparr>wp_buf := Some b\<rparr>) s)
                 | None \<Rightarrow> port_write_loop cpu pk (wp_rp_list (write_ports s w)) NO_ERROR 0 s);
              s \<leftarrow> (if awake_count \<noteq> 0 then thread_yield cpu s else Some s);
              Some (status, s)
            }
          | _ \<Rightarrow> None)
      | _ \<Rightarrow> Some (ERR_INVALID_ARGS, s))"

text \<open>
  Reading blocks inside \<^verbatim>\<open>wait_queue_block\<close>; the \<open>resume\<close> half is what the thread does when the wait is over.
  A wait that does not block returns an error, so the loops of the source go round only after a switch.
\<close>

definition read_no_lock :: "cpu \<Rightarrow> nat \<Rightarrow> lk_time_t \<Rightarrow> port_result \<Rightarrow> 'a port_state_scheme \<Rightarrow>
    (status_t call \<times> port_result \<times> 'a port_state_scheme) option" where
  "read_no_lock cpu r timeout result s =
     do {
       b \<leftarrow> rp_buf (read_ports s r);
       let (status, packet, b) = buf_read b;
       let s = upd_rp r (\<lambda>rp. rp\<lparr>rp_buf := Some b\<rparr>) s;
       let result = (case packet of None \<Rightarrow> result | Some p \<Rightarrow> result\<lparr>pr_packet := p\<rparr>);
       let result = result\<lparr>pr_ctx := rp_ctx (read_ports s r)\<rparr>;
       if status \<noteq> ERR_NO_MSG then Some (Ret status, result, s)
       else if timeout = 0 then Some (Ret ERR_TIMED_OUT, result, s)
       else do {
         (wr, s) \<leftarrow> wait_queue_block cpu (rp_wait_queue r) timeout s;
         Some (wr, result, s)
       }
     }"

definition read_no_lock_resume :: "cpu \<Rightarrow> nat \<Rightarrow> lk_time_t \<Rightarrow> port_result \<Rightarrow> 'a port_state_scheme \<Rightarrow>
    (status_t call \<times> port_result \<times> 'a port_state_scheme) option" where
  "read_no_lock_resume cpu r timeout result s =
     do {
       (wr, s) \<leftarrow> wait_queue_block_resume cpu s;
       if wr \<noteq> NO_ERROR then Some (Ret wr, result, s) else read_no_lock cpu r timeout result s
     }"

text \<open>One pass over the ports of a group: the first status that is not \<^verbatim>\<open>ERR_TIMED_OUT\<close>, if any.\<close>

fun group_read_loop :: "cpu \<Rightarrow> nat list \<Rightarrow> port_result \<Rightarrow> 'a port_state_scheme \<Rightarrow>
    (status_t option \<times> port_result \<times> 'a port_state_scheme) option" where
  "group_read_loop cpu [] result s = Some (None, result, s)"
| "group_read_loop cpu (r # rs) result s =
     do {
       (rc, result, s) \<leftarrow> read_no_lock cpu r 0 result s;
       (case rc of
          Blocked \<Rightarrow> None
        | Ret rc \<Rightarrow> if rc \<noteq> ERR_TIMED_OUT then Some (Some rc, result, s) else group_read_loop cpu rs result s)
     }"

definition group_read :: "cpu \<Rightarrow> nat \<Rightarrow> lk_time_t \<Rightarrow> port_result \<Rightarrow> 'a port_state_scheme \<Rightarrow>
    (status_t call \<times> port_result \<times> 'a port_state_scheme) option" where
  "group_read cpu g timeout result s =
     do {
       (rc, result, s) \<leftarrow> group_read_loop cpu (pg_rp_list (port_groups s g)) result s;
       (case rc of
          Some rc \<Rightarrow> Some (Ret rc, result, s)
        | None \<Rightarrow> do {
            (wr, s) \<leftarrow> wait_queue_block cpu (pg_wait_queue g) timeout s;
            Some (wr, result, s)
          })
     }"

definition port_read :: "cpu \<Rightarrow> port_ref option \<Rightarrow> lk_time_t \<Rightarrow> port_result option \<Rightarrow> 'a port_state_scheme \<Rightarrow>
    (status_t call \<times> port_result option \<times> 'a port_state_scheme) option" where
  "port_read cpu port timeout result_arg s =
     (case (port, result_arg) of
        (Some p, Some result) \<Rightarrow>
          (case p of
             ReadPort r \<Rightarrow>
               if rp_magic (read_ports s r) = READPORT_MAGIC
               then map_option (\<lambda>(rc, result, s). (rc, Some result, s)) (read_no_lock cpu r timeout result s)
               else Some (Ret ERR_BAD_HANDLE, Some result, s)
           | GroupPort g \<Rightarrow>
               if pg_magic (port_groups s g) = PORTGROUP_MAGIC
               then map_option (\<lambda>(rc, result, s). (rc, Some result, s)) (group_read cpu g timeout result s)
               else Some (Ret ERR_BAD_HANDLE, Some result, s)
           | WritePort w \<Rightarrow> Some (Ret ERR_BAD_HANDLE, Some result, s))
      | _ \<Rightarrow> Some (Ret ERR_INVALID_ARGS, result_arg, s))"

definition port_read_resume :: "cpu \<Rightarrow> port_ref \<Rightarrow> lk_time_t \<Rightarrow> port_result \<Rightarrow> 'a port_state_scheme \<Rightarrow>
    (status_t call \<times> port_result \<times> 'a port_state_scheme) option" where
  "port_read_resume cpu port timeout result s =
     (case port of
        ReadPort r \<Rightarrow> read_no_lock_resume cpu r timeout result s
      | GroupPort g \<Rightarrow> do {
          (wr, s) \<leftarrow> wait_queue_block_resume cpu s;
          if wr \<noteq> NO_ERROR then Some (Ret wr, result, s) else group_read cpu g timeout result s
        }
      | WritePort w \<Rightarrow> None)"

section \<open>Closing and destroying\<close>

fun port_destroy_loop :: "cpu \<Rightarrow> nat list \<Rightarrow> 'a port_state_scheme \<Rightarrow> 'a port_state_scheme option" where
  "port_destroy_loop cpu [] s = Some s"
| "port_destroy_loop cpu (r # rs) s =
     do {
       (_, s) \<leftarrow> wait_queue_wake_all cpu (rp_wait_queue r) False ERR_CANCELLED s;
       s \<leftarrow> (case rp_gport (read_ports s r) of
               None \<Rightarrow> Some s
             | Some g \<Rightarrow> map_option snd (wait_queue_wake_all cpu (pg_wait_queue g) False ERR_CANCELLED s));
       port_destroy_loop cpu rs (upd_rp r (\<lambda>rp. rp\<lparr>rp_wport := None\<rparr>) s)
     }"

definition port_destroy :: "cpu \<Rightarrow> port_ref option \<Rightarrow> 'a port_state_scheme \<Rightarrow> (status_t \<times> 'a port_state_scheme) option" where
  "port_destroy cpu port s =
     (case port of
        None \<Rightarrow> Some (ERR_INVALID_ARGS, s)
      | Some p \<Rightarrow>
          if port_magic p s \<noteq> WRITEPORT_MAGIC_X then Some (ERR_BAD_HANDLE, s)
          else (case p of
            WritePort w \<Rightarrow> do {
              l \<leftarrow> unlink w (write_port_list s);
              let s = s\<lparr>write_port_list := l\<rparr>;
              s \<leftarrow> (case wp_buf (write_ports s w) of
                      Some b \<Rightarrow> Some s
                    | None \<Rightarrow> port_destroy_loop cpu (wp_rp_list (write_ports s w)) s);
              let s = upd_wp w (\<lambda>wp. wp\<lparr>wp_magic := 0\<rparr>) s;
              Some (NO_ERROR, s\<lparr>ports_freed := ports_freed s @ [p]\<rparr>)
            }
          | _ \<Rightarrow> None))"

text \<open>What \<^verbatim>\<open>port_close\<close> does once \<^verbatim>\<open>wait_queue_destroy\<close> has returned.\<close>

definition port_close_finish :: "port_ref \<Rightarrow> 'a port_state_scheme \<Rightarrow> 'a port_state_scheme" where
  "port_close_finish p s =
     (let s = (case p of
                 ReadPort r \<Rightarrow> upd_rp r (\<lambda>rp. rp\<lparr>rp_magic := 0\<rparr>) s
               | GroupPort g \<Rightarrow> upd_pg g (\<lambda>pg. pg\<lparr>pg_magic := 0\<rparr>)
                   (fold (\<lambda>r. upd_rp r (\<lambda>rp. rp\<lparr>rp_gport := None\<rparr>)) (pg_rp_list (port_groups s g)) s)
               | WritePort w \<Rightarrow> s)
      in s\<lparr>ports_freed := ports_freed s @ [p]\<rparr>)"

definition port_close_resume :: "port_ref \<Rightarrow> 'a port_state_scheme \<Rightarrow> status_t \<times> 'a port_state_scheme" where
  "port_close_resume p s =
     (NO_ERROR, port_close_finish p (case p of
        ReadPort r \<Rightarrow> wait_queue_destroy_finish (rp_wait_queue r) s
      | GroupPort g \<Rightarrow> wait_queue_destroy_finish (pg_wait_queue g) s
      | WritePort w \<Rightarrow> s))"

text \<open>Taking a closing reader off its port and its group.\<close>

definition port_close_unlink :: "nat \<Rightarrow> 'a port_state_scheme \<Rightarrow> 'a port_state_scheme option" where
  "port_close_unlink r s =
     do {
       s \<leftarrow> (case rp_wport (read_ports s r) of
               None \<Rightarrow> Some s
             | Some w \<Rightarrow> do {
                 l \<leftarrow> unlink r (wp_rp_list (write_ports s w));
                 let s = upd_wp w (\<lambda>wp. wp\<lparr>wp_rp_list := l\<rparr>) s;
                 Some (if l = []
                       then upd_rp r (\<lambda>rp. rp\<lparr>rp_buf := None\<rparr>) (upd_wp w (\<lambda>wp. wp\<lparr>wp_buf := rp_buf (read_ports s r)\<rparr>) s)
                       else s)
               });
       (case rp_gport (read_ports s r) of
          None \<Rightarrow> Some s
        | Some g \<Rightarrow> do {
            l \<leftarrow> unlink r (pg_rp_list (port_groups s g));
            Some (upd_pg g (\<lambda>pg. pg\<lparr>pg_rp_list := l\<rparr>) s)
          })
     }"

definition port_close :: "cpu \<Rightarrow> port_ref option \<Rightarrow> 'a port_state_scheme \<Rightarrow> (status_t call \<times> 'a port_state_scheme) option" where
  "port_close cpu port s =
     (case port of
        None \<Rightarrow> Some (Ret ERR_INVALID_ARGS, s)
      | Some (ReadPort r) \<Rightarrow>
          if rp_magic (read_ports s r) \<noteq> READPORT_MAGIC then Some (Ret ERR_BAD_HANDLE, s)
          else do {
            s \<leftarrow> port_close_unlink r s;
            (res, s) \<leftarrow> wait_queue_destroy cpu (rp_wait_queue r) True s;
            Some (case res of Blocked \<Rightarrow> (Blocked, s) | Ret _ \<Rightarrow> (Ret NO_ERROR, port_close_finish (ReadPort r) s))
          }
      | Some (GroupPort g) \<Rightarrow>
          if pg_magic (port_groups s g) \<noteq> PORTGROUP_MAGIC then Some (Ret ERR_BAD_HANDLE, s)
          else do {
            (res, s) \<leftarrow> wait_queue_destroy cpu (pg_wait_queue g) True s;
            Some (case res of Blocked \<Rightarrow> (Blocked, s) | Ret _ \<Rightarrow> (Ret NO_ERROR, port_close_finish (GroupPort g) s))
          }
      | Some (WritePort w) \<Rightarrow>
          if wp_magic (write_ports s w) \<noteq> WRITEPORT_MAGIC_W then Some (Ret ERR_BAD_HANDLE, s)
          else Some (Ret NO_ERROR, upd_wp w (\<lambda>wp. wp\<lparr>wp_magic := WRITEPORT_MAGIC_X\<rparr>) s))"

section \<open>What the scheduler does to ports\<close>

lemma port_more:
  fixes s s' :: "'a port_state_scheme"
  assumes "sync_state.more s' = sync_state.more s"
  shows "write_ports s' = write_ports s" "read_ports s' = read_ports s" "port_groups s' = port_groups s"
    "write_port_list s' = write_port_list s" "ports_freed s' = ports_freed s"
  using assms by (cases s; cases s'; simp)+

lemma upd_port_sel [simp]:
  "threads (upd_wp w fw s) = threads s" "threads (upd_rp r fr s) = threads s" "threads (upd_pg g fg s) = threads s"
  "wait_queues (upd_wp w fw s) = wait_queues s" "wait_queues (upd_rp r fr s) = wait_queues s" "wait_queues (upd_pg g fg s) = wait_queues s"
  "current_thread (upd_wp w fw s) = current_thread s" "current_thread (upd_rp r fr s) = current_thread s"
  "current_thread (upd_pg g fg s) = current_thread s"
  "write_ports (upd_wp w fw s) = (write_ports s)(w := fw (write_ports s w))" "write_ports (upd_rp r fr s) = write_ports s"
  "write_ports (upd_pg g fg s) = write_ports s"
  "read_ports (upd_rp r fr s) = (read_ports s)(r := fr (read_ports s r))" "read_ports (upd_wp w fw s) = read_ports s"
  "read_ports (upd_pg g fg s) = read_ports s"
  "port_groups (upd_pg g fg s) = (port_groups s)(g := fg (port_groups s g))" "port_groups (upd_wp w fw s) = port_groups s"
  "port_groups (upd_rp r fr s) = port_groups s"
  "write_port_list (upd_wp w fw s) = write_port_list s" "write_port_list (upd_rp r fr s) = write_port_list s"
  "write_port_list (upd_pg g fg s) = write_port_list s"
  by (simp_all add: upd_wp_def upd_rp_def upd_pg_def)

lemma kinv_port [simp]:
  "kinv sw D (upd_wp w fw s) = kinv sw D s" "kinv sw D (upd_rp r fr s) = kinv sw D s" "kinv sw D (upd_pg g fg s) = kinv sw D s"
  by (rule kinv_cong; simp add: upd_wp_def upd_rp_def upd_pg_def)+

lemma cpu_port [simp]:
  "cpu_up (upd_wp w fw s) c = cpu_up s c" "cpu_up (upd_rp r fr s) c = cpu_up s c" "cpu_up (upd_pg g fg s) c = cpu_up s c"
  "caller c (upd_wp w fw s) = caller c s" "caller c (upd_rp r fr s) = caller c s" "caller c (upd_pg g fg s) = caller c s"
  by (simp_all add: caller_def cpu_up_def live_def upd_wp_def upd_rp_def upd_pg_def)

lemma port_wake:
  fixes s :: "'a port_state_scheme"
  assumes k: "kinv {} {} s" and up: "cpu_up s c" and mg: "wq_magic (wait_queues s w) = WAIT_QUEUE_MAGIC"
  obtains n s' where "wait_queue_wake_one c w False err s = Some (n, s')" and "kinv {} {} s'" and "cpu_up s' c"
    and "n = (if wq_list (wait_queues s w) = [] then 0 else 1)"
    and "wait_queues s' = (wait_queues s)(w := (wait_queues s w)\<lparr>wq_list := drop 1 (wq_list (wait_queues s w)),
           wq_count := wq_count (wait_queues s w) - n\<rparr>)"
    and "sync_state.more s' = sync_state.more s"
proof (cases "wq_list (wait_queues s w)")
  case Nil
  have "wait_queue_wake_one c w False err s = Some (0, s)" by (rule wait_queue_wake_one_empty; rule mg Nil)
  moreover have "(wait_queues s)(w := (wait_queues s w)\<lparr>wq_list := []\<rparr>) = wait_queues s"
    by (rule fun_upd_idem) (use Nil in \<open>cases "wait_queues s w"; simp\<close>)
  ultimately show ?thesis using Nil k up by (intro that [of 0 s]) simp_all
next
  case (Cons t ts)
  obtain s' where s': "wait_queue_wake_one c w False err s = Some (1, s')" "kinv {} {} s'"
    "wait_queues s' = (wait_queues s)(w := (wait_queues s w)\<lparr>wq_list := ts, wq_count := wq_count (wait_queues s w) - 1\<rparr>)"
    "sync_state.more s' = sync_state.more s" "cpu_up s' c"
    by (rule sync_wake_one [OF k up Cons, of False err]) (simp, (rule that; assumption))
  with Cons show ?thesis by (intro that [of 1 s']) simp_all
qed

section \<open>Delivering packets\<close>

definition reader_ok :: "'a port_state_scheme \<Rightarrow> nat \<Rightarrow> bool" where
  "reader_ok s r \<longleftrightarrow> rp_magic (read_ports s r) = READPORT_MAGIC \<and>
     (case rp_buf (read_ports s r) of None \<Rightarrow> False | Some b \<Rightarrow> buf_ok b) \<and>
     wq_magic (wait_queues s (rp_wait_queue r)) = WAIT_QUEUE_MAGIC \<and>
     (case rp_gport (read_ports s r) of None \<Rightarrow> True | Some g \<Rightarrow> wq_magic (wait_queues s (pg_wait_queue g)) = WAIT_QUEUE_MAGIC)"

definition rp_contents :: "'a port_state_scheme \<Rightarrow> nat \<Rightarrow> port_packet list" where
  "rp_contents s r = buf_contents (the (rp_buf (read_ports s r)))"

definition rp_room :: "'a port_state_scheme \<Rightarrow> nat \<Rightarrow> nat" where
  "rp_room s r = unat (pb_avail (the (rp_buf (read_ports s r))))"

text \<open>
  \<open>delivered pk rs s s'\<close>: the readers \<open>rs\<close> that have room have received \<open>pk\<close> and, when they are in no
  group, one of their waiting threads has been taken off the queue; everything else is as before.
\<close>

definition delivered :: "port_packet list \<Rightarrow> nat list \<Rightarrow> 'a port_state_scheme \<Rightarrow> 'a port_state_scheme \<Rightarrow> bool" where
  "delivered pk rs s s' \<longleftrightarrow>
     write_ports s' = write_ports s \<and> port_groups s' = port_groups s \<and> write_port_list s' = write_port_list s \<and>
     (\<forall>w. wq_magic (wait_queues s' w) = wq_magic (wait_queues s w)) \<and>
     (\<forall>r. r \<notin> set rs \<longrightarrow> read_ports s' r = read_ports s r \<and>
        wait_queues s' (rp_wait_queue r) = wait_queues s (rp_wait_queue r)) \<and>
     (\<forall>r \<in> set rs. reader_ok s' r \<and>
        read_ports s' r = (read_ports s r)\<lparr>rp_buf := rp_buf (read_ports s' r)\<rparr> \<and>
        rp_contents s' r = rp_contents s r @ (if length pk \<le> rp_room s r then pk else []) \<and>
        (rp_gport (read_ports s r) = None \<longrightarrow> wq_list (wait_queues s' (rp_wait_queue r)) =
           drop (if length pk \<le> rp_room s r then 1 else 0) (wq_list (wait_queues s (rp_wait_queue r)))))"

lemma wq_port_neq [simp]: "rp_wait_queue r \<noteq> pg_wait_queue g" "pg_wait_queue g \<noteq> rp_wait_queue r"
  unfolding rp_wait_queue_def pg_wait_queue_def wq_id.inject by presburger+

lemma wq_port_inj [simp]: "rp_wait_queue r = rp_wait_queue r' \<longleftrightarrow> r = r'"
  by (simp add: rp_wait_queue_def)

lemma reader_ok_cong:
  "read_ports s' r = read_ports s r \<Longrightarrow> (\<And>w. wq_magic (wait_queues s' w) = wq_magic (wait_queues s w)) \<Longrightarrow> reader_ok s' r = reader_ok s r"
  by (simp add: reader_ok_def split: option.splits)

lemma delivered_Nil: "delivered pk [] s s"
  by (simp add: delivered_def)

lemma delivered_Cons:
  assumes d: "delivered pk [r] s s1" and d1: "delivered pk rs s1 s'" and n: "r \<notin> set rs"
  shows "delivered pk (r # rs) s s'"
proof -
  have o: "read_ports s1 x = read_ports s x" "wait_queues s1 (rp_wait_queue x) = wait_queues s (rp_wait_queue x)" if "x \<in> set rs" for x
    using d n that unfolding delivered_def by auto
  have h: "read_ports s' r = read_ports s1 r" "wait_queues s' (rp_wait_queue r) = wait_queues s1 (rp_wait_queue r)"
    using d1 n unfolding delivered_def by auto
  have m: "wq_magic (wait_queues s' w) = wq_magic (wait_queues s1 w)" for w using d1 unfolding delivered_def by simp
  have "reader_ok s' r = reader_ok s1 r" by (rule reader_ok_cong) (simp_all add: h m)
  with d d1 show ?thesis unfolding delivered_def rp_contents_def rp_room_def by (auto simp: o h)
qed

lemma delivered_one:
  fixes s :: "'a port_state_scheme"
  assumes k: "kinv {} {} s" and up: "cpu_up s c" and ok: "reader_ok s r"
  obtains n s' where "\<And>rs st a. port_write_loop c pk (r # rs) st a s =
      port_write_loop c pk rs (if length pk \<le> rp_room s r then st else ERR_PARTIAL_WRITE) (a + n) s'"
    and "kinv {} {} s'" and "cpu_up s' c" and "delivered pk [r] s s'"
proof -
  obtain b where b: "rp_buf (read_ports s r) = Some b" "buf_ok b" using ok by (auto simp: reader_ok_def split: option.splits)
  have mr: "wq_magic (wait_queues s (rp_wait_queue r)) = WAIT_QUEUE_MAGIC" using ok by (simp add: reader_ok_def)
  note bw = buf_write_spec [OF b(2), of pk]
  show ?thesis
  proof (cases "length pk \<le> rp_room s r")
    case False
    then have "buf_write pk b = (ERR_NOT_ENOUGH_BUFFER, b)" using bw b by (simp add: rp_room_def)
    moreover have "delivered pk [r] s s" using False ok by (simp add: delivered_def)
    ultimately show ?thesis using False b k up by (intro that [of 0 s]) simp_all
  next
    case True
    then obtain b' where b': "buf_write pk b = (NO_ERROR, b')" "buf_ok b'" "buf_contents b' = buf_contents b @ pk"
      using bw b by (cases "buf_write pk b") (simp add: rp_room_def)
    let ?s1 = "upd_rp r (\<lambda>rp. rp\<lparr>rp_buf := Some b'\<rparr>) s"
    let ?g = "rp_gport (read_ports s r)"
    let ?wg = "case ?g of None \<Rightarrow> Some (0, ?s1) | Some g \<Rightarrow> wait_queue_wake_one c (pg_wait_queue g) False NO_ERROR ?s1"
    have k1: "kinv {} {} ?s1" "cpu_up ?s1 c" using k up by simp_all
    obtain n1 s2 where s2: "?wg = Some (n1, s2)" "kinv {} {} s2" "cpu_up s2 c" "sync_state.more s2 = sync_state.more ?s1"
      "\<And>w. wq_magic (wait_queues s2 w) = wq_magic (wait_queues s w)"
      "\<And>x. wait_queues s2 (rp_wait_queue x) = wait_queues s (rp_wait_queue x)" "?g = None \<Longrightarrow> n1 = 0"
    proof (cases ?g)
      case None
      then show ?thesis using k1 by (intro that [of 0 ?s1]) simp_all
    next
      case (Some g)
      then have mg: "wq_magic (wait_queues ?s1 (pg_wait_queue g)) = WAIT_QUEUE_MAGIC" using ok by (simp add: reader_ok_def)
      obtain n s' where s': "wait_queue_wake_one c (pg_wait_queue g) False NO_ERROR ?s1 = Some (n, s')" "kinv {} {} s'" "cpu_up s' c"
        "wait_queues s' = (wait_queues ?s1)(pg_wait_queue g := (wait_queues ?s1 (pg_wait_queue g))\<lparr>
           wq_list := drop 1 (wq_list (wait_queues ?s1 (pg_wait_queue g))), wq_count := wq_count (wait_queues ?s1 (pg_wait_queue g)) - n\<rparr>)"
        "sync_state.more s' = sync_state.more ?s1"
        by (rule port_wake [OF k1 mg, of NO_ERROR]) (rule that; assumption)
      show ?thesis by (rule that [of n s']) (simp_all add: Some s')
    qed
    let ?w2 = "if n1 = 0 then wait_queue_wake_one c (rp_wait_queue r) False NO_ERROR s2 else Some (n1, s2)"
    obtain n2 s3 where s3: "?w2 = Some (n2, s3)" "kinv {} {} s3" "cpu_up s3 c" "sync_state.more s3 = sync_state.more s2"
      "\<And>w. wq_magic (wait_queues s3 w) = wq_magic (wait_queues s w)"
      "\<And>x. x \<noteq> r \<Longrightarrow> wait_queues s3 (rp_wait_queue x) = wait_queues s (rp_wait_queue x)"
      "n1 = 0 \<Longrightarrow> wq_list (wait_queues s3 (rp_wait_queue r)) = drop 1 (wq_list (wait_queues s (rp_wait_queue r)))"
    proof (cases "n1 = 0")
      case False
      then show ?thesis using s2 by (intro that [of n1 s2]) simp_all
    next
      case True
      have m2: "wq_magic (wait_queues s2 (rp_wait_queue r)) = WAIT_QUEUE_MAGIC" using s2(5) mr by simp
      obtain n s' where s': "wait_queue_wake_one c (rp_wait_queue r) False NO_ERROR s2 = Some (n, s')" "kinv {} {} s'" "cpu_up s' c"
        "wait_queues s' = (wait_queues s2)(rp_wait_queue r := (wait_queues s2 (rp_wait_queue r))\<lparr>
           wq_list := drop 1 (wq_list (wait_queues s2 (rp_wait_queue r))), wq_count := wq_count (wait_queues s2 (rp_wait_queue r)) - n\<rparr>)"
        "sync_state.more s' = sync_state.more s2"
        by (rule port_wake [OF s2(2,3) m2, of NO_ERROR]) (rule that; assumption)
      show ?thesis by (rule that [of n s']) (simp_all add: True s' s2(5,6))
    qed
    note p3 = port_more [OF s3(4)] and p2 = port_more [OF s2(4)]
    have "delivered pk [r] s s3"
      using True ok b b' s3(5-7) s2(7)
      by (auto simp: delivered_def p3 p2 reader_ok_def rp_contents_def split: option.splits)
    moreover have "port_write_loop c pk (r # rs) st a s = port_write_loop c pk rs st (a + n2) s3" for rs st a
      using b(1) b'(1) s2(1) s3(1) by simp
    ultimately show ?thesis using True s3(2,3) by (intro that [of n2 s3]) simp_all
  qed
qed

lemma port_write_loop_ok:
  fixes s :: "'a port_state_scheme"
  assumes "kinv {} {} s" and "cpu_up s c" and "distinct rs" and "\<forall>r \<in> set rs. reader_ok s r"
  shows "\<exists>n s'. port_write_loop c pk rs st a s = Some (if \<forall>r \<in> set rs. length pk \<le> rp_room s r then st else
     (if rs = [] then st else ERR_PARTIAL_WRITE), n, s') \<and> kinv {} {} s' \<and> cpu_up s' c \<and> delivered pk rs s s'"
  using assms
proof (induction rs arbitrary: st a s)
  case Nil
  then show ?case by (simp add: delivered_Nil)
next
  case (Cons r rs)
  have ok: "reader_ok s r" and d: "r \<notin> set rs" "distinct rs" using Cons.prems by simp_all
  obtain n s1 where s1: "\<And>rs st a. port_write_loop c pk (r # rs) st a s =
      port_write_loop c pk rs (if length pk \<le> rp_room s r then st else ERR_PARTIAL_WRITE) (a + n) s1"
    "kinv {} {} s1" "cpu_up s1 c" "delivered pk [r] s s1"
    by (rule delivered_one [OF Cons.prems(1,2) ok, of pk]) (rule that; assumption)
  have o: "read_ports s1 x = read_ports s x" if "x \<in> set rs" for x using s1(4) d that unfolding delivered_def by auto
  have "wq_magic (wait_queues s1 w) = wq_magic (wait_queues s w)" for w using s1(4) unfolding delivered_def by simp
  with o have "reader_ok s1 x = reader_ok s x" if "x \<in> set rs" for x using that by (intro reader_ok_cong)
  then have "\<forall>x \<in> set rs. reader_ok s1 x" using Cons.prems(4) by simp
  from Cons.IH [OF s1(2,3) d(2) this, of "if length pk \<le> rp_room s r then st else ERR_PARTIAL_WRITE" "a + n"]
  obtain m s' where s': "port_write_loop c pk rs (if length pk \<le> rp_room s r then st else ERR_PARTIAL_WRITE) (a + n) s1 =
      Some (if \<forall>r \<in> set rs. length pk \<le> rp_room s1 r then (if length pk \<le> rp_room s r then st else ERR_PARTIAL_WRITE) else
       (if rs = [] then (if length pk \<le> rp_room s r then st else ERR_PARTIAL_WRITE) else ERR_PARTIAL_WRITE), m, s')"
    "kinv {} {} s'" "cpu_up s' c" "delivered pk rs s1 s'" by blast
  have "\<And>x. x \<in> set rs \<Longrightarrow> rp_room s1 x = rp_room s x" using o by (simp add: rp_room_def)
  then have q: "(\<forall>r \<in> set rs. length pk \<le> rp_room s1 r) = (\<forall>r \<in> set rs. length pk \<le> rp_room s r)" by simp
  have "port_write_loop c pk (r # rs) st a s = Some (if \<forall>r \<in> set (r # rs). length pk \<le> rp_room s r then st else
     (if r # rs = [] then st else ERR_PARTIAL_WRITE), m, s')"
    unfolding s1(1) s'(1) q by auto
  with s'(2,3) delivered_Cons [OF s1(4) s'(4) d(1)] show ?case by blast
qed

section \<open>Write, read, open, close\<close>

definition writer_ok :: "'a port_state_scheme \<Rightarrow> nat \<Rightarrow> bool" where
  "writer_ok s w \<longleftrightarrow> wp_magic (write_ports s w) = WRITEPORT_MAGIC_W \<and>
     (case wp_buf (write_ports s w) of
        Some b \<Rightarrow> buf_ok b
      | None \<Rightarrow> distinct (wp_rp_list (write_ports s w)) \<and> (\<forall>r \<in> set (wp_rp_list (write_ports s w)). reader_ok s r))"

lemma delivered_yield:
  fixes s s1 s' :: "'a port_state_scheme"
  assumes d: "delivered pk rs s s1" and m: "sync_state.more s' = sync_state.more s1" and w: "wait_queues s' = wait_queues s1"
  shows "delivered pk rs s s'"
proof -
  have "reader_ok s' r = reader_ok s1 r" for r by (rule reader_ok_cong) (simp_all add: port_more [OF m] w)
  then show ?thesis using d unfolding delivered_def rp_contents_def rp_room_def port_more [OF m] w by simp
qed

lemma port_write_readers:
  fixes s :: "'a port_state_scheme"
  assumes k: "kinv {} {} s" and up: "cpu_up s c" and ok: "writer_ok s w" and nb: "wp_buf (write_ports s w) = None"
  shows "\<exists>s'. port_write c (Some (WritePort w)) (Some pk) s =
      Some (if \<forall>r \<in> set (wp_rp_list (write_ports s w)). length pk \<le> rp_room s r then NO_ERROR else ERR_PARTIAL_WRITE, s') \<and>
     kinv {} {} s' \<and> delivered pk (wp_rp_list (write_ports s w)) s s'"
proof -
  let ?rs = "wp_rp_list (write_ports s w)"
  let ?st = "if \<forall>r \<in> set ?rs. length pk \<le> rp_room s r then NO_ERROR else ERR_PARTIAL_WRITE"
  have d: "distinct ?rs" "\<forall>r \<in> set ?rs. reader_ok s r" and mg: "wp_magic (write_ports s w) = WRITEPORT_MAGIC_W"
    using ok nb by (simp_all add: writer_ok_def)
  have st: "(if \<forall>r \<in> set ?rs. length pk \<le> rp_room s r then NO_ERROR else if ?rs = [] then NO_ERROR else ERR_PARTIAL_WRITE) = ?st" by simp
  from port_write_loop_ok [OF k up d, of pk NO_ERROR 0, unfolded st] obtain n s1 where
    s1: "port_write_loop c pk ?rs NO_ERROR 0 s = Some (?st, n, s1)" "kinv {} {} s1" "cpu_up s1 c" "delivered pk ?rs s s1"
    by (elim exE conjE)
  obtain s2 where s2: "thread_yield c s1 = Some s2" "kinv {} {} s2" "wait_queues s2 = wait_queues s1" "kstate.more s2 = kstate.more s1"
    by (rule thread_yield_kinv [OF s1(2,3)]) (rule that; assumption)
  note d2 = delivered_yield [OF s1(4) sync_more(4) [OF s2(4)] s2(3)]
  have "port_write c (Some (WritePort w)) (Some pk) s = Some (?st, if n \<noteq> 0 then s2 else s1)"
    using mg nb s1(1) s2(1) by (simp add: port_write_def)
  then show ?thesis using s1(2,4) s2(2) d2 by (intro exI [of _ "if n \<noteq> 0 then s2 else s1"] conjI) simp_all
qed

lemma port_write_buffered:
  assumes ok: "writer_ok s w" and b: "wp_buf (write_ports s w) = Some b"
  shows "\<exists>b'. port_write c (Some (WritePort w)) (Some pk) s =
      Some (if length pk \<le> unat (pb_avail b) then NO_ERROR else ERR_NOT_ENOUGH_BUFFER, upd_wp w (\<lambda>wp. wp\<lparr>wp_buf := Some b'\<rparr>) s) \<and>
     buf_ok b' \<and> buf_contents b' = buf_contents b @ (if length pk \<le> unat (pb_avail b) then pk else [])"
proof -
  have "buf_ok b" "wp_magic (write_ports s w) = WRITEPORT_MAGIC_W" using ok b by (simp_all add: writer_ok_def)
  with buf_write_spec [of b pk] b show ?thesis
    by (intro exI [of _ "snd (buf_write pk b)"]) (auto simp: port_write_def case_prod_beta split: if_splits)
qed

lemma port_read_msg:
  fixes s :: "'a port_state_scheme"
  assumes k: "kinv {} {} s" and ok: "reader_ok s r" and ne: "rp_contents s r = p # ps"
  shows "\<exists>s'. port_read c (Some (ReadPort r)) timeout (Some res) s =
      Some (Ret NO_ERROR, Some \<lparr>pr_ctx = rp_ctx (read_ports s r), pr_packet = p\<rparr>, s') \<and>
     kinv {} {} s' \<and> reader_ok s' r \<and> rp_contents s' r = ps \<and> rp_ctx (read_ports s' r) = rp_ctx (read_ports s r)"
proof -
  obtain b where b: "rp_buf (read_ports s r) = Some b" "buf_ok b" using ok by (auto simp: reader_ok_def split: option.splits)
  have "buf_contents b = p # ps" using ne b by (simp add: rp_contents_def)
  with buf_read_spec [OF b(2)] obtain b' where b': "buf_read b = (NO_ERROR, Some p, b')" "buf_ok b'" "buf_contents b' = ps" by auto
  have "rp_magic (read_ports s r) = READPORT_MAGIC" using ok by (simp add: reader_ok_def)
  then have "port_read c (Some (ReadPort r)) timeout (Some res) s =
      Some (Ret NO_ERROR, Some \<lparr>pr_ctx = rp_ctx (read_ports s r), pr_packet = p\<rparr>, upd_rp r (\<lambda>rp. rp\<lparr>rp_buf := Some b'\<rparr>) s)"
    using b(1) b'(1) by (simp add: port_read_def read_no_lock_def)
  then show ?thesis using k ok b b'
    by (intro exI [of _ "upd_rp r (\<lambda>rp. rp\<lparr>rp_buf := Some b'\<rparr>) s"] conjI) (simp_all add: reader_ok_def rp_contents_def split: option.splits)
qed

lemma upd_rp_same: "rp_buf (read_ports s r) = Some b \<Longrightarrow> upd_rp r (\<lambda>rp. rp\<lparr>rp_buf := Some b\<rparr>) s = s"
proof -
  assume b: "rp_buf (read_ports s r) = Some b"
  have "(read_ports s)(r := (read_ports s r)\<lparr>rp_buf := Some b\<rparr>) = read_ports s"
    by (rule fun_upd_idem) (use b in \<open>cases "read_ports s r"; simp\<close>)
  then show ?thesis by (cases s) (simp add: upd_rp_def)
qed

lemma port_read_empty:
  fixes s :: "'a port_state_scheme"
  assumes k: "kinv {} {} s" and cl: "caller c s" and ok: "reader_ok s r" and e: "rp_contents s r = []"
  shows "\<exists>s'. port_read c (Some (ReadPort r)) timeout (Some res) s =
      Some (if timeout = 0 then Ret ERR_TIMED_OUT else Blocked, Some (res\<lparr>pr_ctx := rp_ctx (read_ports s r)\<rparr>), s') \<and>
     kinv {} {} s' \<and> read_ports s' = read_ports s \<and>
     wq_list (wait_queues s' (rp_wait_queue r)) =
       wq_list (wait_queues s (rp_wait_queue r)) @ (if timeout = 0 then [] else [current_thread s c])"
proof -
  obtain b where b: "rp_buf (read_ports s r) = Some b" "buf_ok b" using ok by (auto simp: reader_ok_def split: option.splits)
  have "buf_contents b = []" using e b by (simp add: rp_contents_def)
  with buf_read_spec [OF b(2)] have rd: "buf_read b = (ERR_NO_MSG, None, b)" by simp
  note same = upd_rp_same [OF b(1)]
  have mg: "rp_magic (read_ports s r) = READPORT_MAGIC" "wq_magic (wait_queues s (ObjWq (8 * r + 3))) = WAIT_QUEUE_MAGIC"
    using ok by (simp_all add: reader_ok_def rp_wait_queue_def)
  show ?thesis
  proof (cases "timeout = 0")
    case True
    then show ?thesis using k b(1) rd mg by (intro exI [of _ s] conjI) (simp_all add: port_read_def read_no_lock_def same)
  next
    case False
    obtain s' where s': "wait_queue_block c (ObjWq (8 * r + 3)) timeout s = Some (Blocked, s')" "kinv {} {} s'"
      "wait_queues s' = (wait_queues s)(ObjWq (8 * r + 3) := (wait_queues s (ObjWq (8 * r + 3)))\<lparr>
         wq_list := wq_list (wait_queues s (ObjWq (8 * r + 3))) @ [current_thread s c],
         wq_count := wq_count (wait_queues s (ObjWq (8 * r + 3))) + 1\<rparr>)"
      "sync_state.more s' = sync_state.more s"
      by (rule sync_block [OF k cl mg(2) False]) (rule that; assumption)
    have "port_read c (Some (ReadPort r)) timeout (Some res) s = Some (Blocked, Some (res\<lparr>pr_ctx := rp_ctx (read_ports s r)\<rparr>), s')"
      using b(1) rd mg False s'(1) by (simp add: port_read_def read_no_lock_def same rp_wait_queue_def)
    then show ?thesis using False s' by (intro exI [of _ s'] conjI) (simp_all add: port_more [OF s'(4)] rp_wait_queue_def)
  qed
qed

text \<open>Reading a port \<open>n\<close> times without waiting.\<close>

fun port_reads :: "cpu \<Rightarrow> nat \<Rightarrow> nat \<Rightarrow> 'a port_state_scheme \<Rightarrow> (port_packet list \<times> 'a port_state_scheme) option" where
  "port_reads c r 0 s = Some ([], s)"
| "port_reads c r (Suc n) s =
     do {
       (rc, res, s) \<leftarrow> port_read c (Some (ReadPort r)) 0 (Some \<lparr>pr_ctx = 0, pr_packet = []\<rparr>) s;
       dassert (rc = Ret NO_ERROR);
       res \<leftarrow> res;
       (ps, s) \<leftarrow> port_reads c r n s;
       Some (pr_packet res # ps, s)
     }"

lemma port_reads_ok:
  fixes s :: "'a port_state_scheme"
  assumes "kinv {} {} s" and "reader_ok s r" and "n \<le> length (rp_contents s r)"
  shows "\<exists>s'. port_reads c r n s = Some (take n (rp_contents s r), s') \<and> kinv {} {} s' \<and> reader_ok s' r \<and>
     rp_contents s' r = drop n (rp_contents s r)"
  using assms
proof (induction n arbitrary: s)
  case 0
  then show ?case by simp
next
  case (Suc n)
  then obtain p ps where c: "rp_contents s r = p # ps" by (cases "rp_contents s r") simp_all
  from port_read_msg [OF Suc.prems(1,2) c, of c 0 "\<lparr>pr_ctx = 0, pr_packet = []\<rparr>"] obtain s1 where
    s1: "port_read c (Some (ReadPort r)) 0 (Some \<lparr>pr_ctx = 0, pr_packet = []\<rparr>) s =
      Some (Ret NO_ERROR, Some \<lparr>pr_ctx = rp_ctx (read_ports s r), pr_packet = p\<rparr>, s1)"
    "kinv {} {} s1" "reader_ok s1 r" "rp_contents s1 r = ps" by (elim exE conjE)
  from Suc.IH [OF s1(2,3)] Suc.prems(3) c s1(4) obtain s' where
    s': "port_reads c r n s1 = Some (take n ps, s')" "kinv {} {} s'" "reader_ok s' r" "rp_contents s' r = drop n ps" by auto
  have "port_reads c r (Suc n) s = Some (take (Suc n) (rp_contents s r), s')" using s1(1) s'(1) c by simp
  then show ?case using s'(2-4) c by (intro exI [of _ s'] conjI) simp_all
qed

lemma port_write_reads:
  fixes s :: "'a port_state_scheme"
  assumes k: "kinv {} {} s" and up: "cpu_up s c" and ok: "writer_ok s w" and nb: "wp_buf (write_ports s w) = None"
    and r: "r \<in> set (wp_rp_list (write_ports s w))" and room: "length pk \<le> rp_room s r"
  shows "\<exists>st s1 s2. port_write c (Some (WritePort w)) (Some pk) s = Some (st, s1) \<and>
     port_reads d r (length (rp_contents s r) + length pk) s1 = Some (rp_contents s r @ pk, s2) \<and>
     rp_contents s2 r = []"
proof -
  from port_write_readers [OF k up ok nb, of pk] obtain st s1 where
    s1: "port_write c (Some (WritePort w)) (Some pk) s = Some (st, s1)" "kinv {} {} s1" "delivered pk (wp_rp_list (write_ports s w)) s s1"
    by (elim exE conjE)
  then have "reader_ok s1 r" "rp_contents s1 r = rp_contents s r @ pk" using r room by (simp_all add: delivered_def)
  with port_reads_ok [OF s1(2), of r "length (rp_contents s r) + length pk" d] s1(1) show ?thesis by auto
qed

lemma port_open_ok:
  assumes r: "calloc = Some r" and ml: "make_buf malloc False = Some buf" and f: "find_port name s = Some w"
    and bo: "buf_ok buf" "buf_contents buf = []"
    and rf: "r \<notin> set (wp_rp_list (write_ports s w))"
  shows "case wp_buf (write_ports s w) of
      Some b \<Rightarrow> (\<exists>s'. port_open calloc malloc (Some name) ctx s = ((NO_ERROR, Some (ReadPort r)), s') \<and>
         rp_buf (read_ports s' r) = Some b \<and> rp_ctx (read_ports s' r) = ctx \<and> rp_wport (read_ports s' r) = Some w \<and>
         wp_buf (write_ports s' w) = None \<and> wp_rp_list (write_ports s' w) = wp_rp_list (write_ports s w) @ [r] \<and>
         (buf_ok b \<longrightarrow> reader_ok s' r))
    | None \<Rightarrow> if wp_mode (write_ports s w) AND PORT_MODE_UNICAST \<noteq> 0
        then \<exists>s'. port_open calloc malloc (Some name) ctx s = ((ERR_NOT_ALLOWED, None), s') \<and>
          write_ports s' = write_ports s \<and> read_ports s' = read_ports s
        else \<exists>s'. port_open calloc malloc (Some name) ctx s = ((NO_ERROR, Some (ReadPort r)), s') \<and>
          reader_ok s' r \<and> rp_contents s' r = [] \<and> rp_ctx (read_ports s' r) = ctx \<and>
          wp_rp_list (write_ports s' w) = wp_rp_list (write_ports s w) @ [r] \<and> wp_buf (write_ports s' w) = None \<and>
          (\<forall>x. x \<noteq> r \<longrightarrow> read_ports s' x = read_ports s x)"
proof -
  have f': "find_port name (wait_queue_init q s) = Some w" for q
    using f by (simp add: find_port_def wait_queue_init_def upd_wq_def)
  have q: "write_ports (wait_queue_init q s) = write_ports s" "read_ports (wait_queue_init q s) = read_ports s"
    "wait_queues (wait_queue_init q s) = (wait_queues s)(q := WAIT_QUEUE_INITIAL_VALUE)" for q
    by (simp_all add: wait_queue_init_def upd_wq_def)
  show ?thesis
    using bo by (auto simp: port_open_def r ml f' q Let_def reader_ok_def rp_contents_def WAIT_QUEUE_INITIAL_VALUE_def split: option.splits)
qed

lemma port_group_remove_ok:
  assumes "pg_magic (port_groups s g) = PORTGROUP_MAGIC" and "rp_magic (read_ports s r) = READPORT_MAGIC"
    and "rp_gport (read_ports s r) = Some g" and "r \<in> set (pg_rp_list (port_groups s g))" and "distinct (pg_rp_list (port_groups s g))"
    and s': "port_group_remove (Some (GroupPort g)) (Some (ReadPort r)) s = (res, s')"
  shows "res = (NO_ERROR, False)" "r \<notin> set (pg_rp_list (port_groups s' g))"
    "port_group_remove (Some (GroupPort g)) (Some (ReadPort r)) s' = ((ERR_BAD_HANDLE, True), s')"
    "pg_magic (port_groups s' h) = PORTGROUP_MAGIC \<Longrightarrow> port_group_add c (Some (GroupPort h)) (Some (ReadPort r)) s' = Some (ERR_BAD_HANDLE, s')"
    "port_close c (Some (ReadPort r)) s' = None"
proof -
  have e: "s' = upd_pg g (\<lambda>pg. pg\<lparr>pg_rp_list := remove1 r (pg_rp_list pg)\<rparr>) s" and res: "res = (NO_ERROR, False)"
    using assms by (simp_all add: port_group_remove_def)
  show "res = (NO_ERROR, False)" by (fact res)
  show n: "r \<notin> set (pg_rp_list (port_groups s' g))" using assms(5) by (simp add: e)
  show "port_group_remove (Some (GroupPort g)) (Some (ReadPort r)) s' = ((ERR_BAD_HANDLE, True), s')"
    using assms n by (simp add: port_group_remove_def e)
  show "pg_magic (port_groups s' h) = PORTGROUP_MAGIC \<Longrightarrow> port_group_add c (Some (GroupPort h)) (Some (ReadPort r)) s' = Some (ERR_BAD_HANDLE, s')"
    using assms by (simp add: port_group_add_def e)
  have "port_close_unlink r s' = None"
    using assms(3,5) by (auto simp: port_close_unlink_def e unlink_def Let_def split: option.splits bind_split)
  then show "port_close c (Some (ReadPort r)) s' = None" using assms(2) by (simp add: port_close_def e)
qed

section \<open>A concrete state\<close>

text \<open>
  Port ''log'' has two readers: reader 0 holds two packets and thread 5 waits for it, reader 1, in group 0,
  is full. Port ''raw'' has no reader and holds two packets.
\<close>

definition demo_buf :: "nat \<Rightarrow> port_buf" where
  "demo_buf n = \<lparr>pb_log2 = 3, pb_avail = 8 - of_nat n, pb_head = 6, pb_tail = (6 + of_nat n) AND 7, pb_packet = replicate 8 [1]\<rparr>"

definition demo_port :: port_state where
  "demo_port = sync_state.extend (demo_sync 3) \<lparr>
     write_ports = (\<lambda>w. if w = 0
       then \<lparr>wp_magic = WRITEPORT_MAGIC_W, wp_buf = None, wp_rp_list = [0, 1], wp_mode = 0, wp_name = ''log''\<rparr>
       else \<lparr>wp_magic = WRITEPORT_MAGIC_W, wp_buf = Some (demo_buf 2), wp_rp_list = [], wp_mode = 1, wp_name = ''raw''\<rparr>),
     read_ports = (\<lambda>r. \<lparr>rp_magic = READPORT_MAGIC, rp_buf = Some (demo_buf (if r = 0 then 2 else 8)), rp_ctx = 77,
       rp_wport = Some 0, rp_gport = (if r = 0 then None else Some 0)\<rparr>),
     port_groups = (\<lambda>_. \<lparr>pg_magic = PORTGROUP_MAGIC, pg_rp_list = [1]\<rparr>),
     write_port_list = [0, 1], ports_freed = []\<rparr>"

lemma demo_port_ok: "kinv {} {} demo_port" "caller 0 demo_port" "cpu_up demo_port 0"
  using demo_sync_ok [of 3] unfolding demo_port_def kinv_sync_extend by simp_all

lemma demo_port_sel:
  "write_ports demo_port w = (if w = 0
       then \<lparr>wp_magic = WRITEPORT_MAGIC_W, wp_buf = None, wp_rp_list = [0, 1], wp_mode = 0, wp_name = ''log''\<rparr>
       else \<lparr>wp_magic = WRITEPORT_MAGIC_W, wp_buf = Some (demo_buf 2), wp_rp_list = [], wp_mode = 1, wp_name = ''raw''\<rparr>)"
  "read_ports demo_port r = \<lparr>rp_magic = READPORT_MAGIC, rp_buf = Some (demo_buf (if r = 0 then 2 else 8)), rp_ctx = 77,
       rp_wport = Some 0, rp_gport = (if r = 0 then None else Some 0)\<rparr>"
  "port_groups demo_port g = \<lparr>pg_magic = PORTGROUP_MAGIC, pg_rp_list = [1]\<rparr>"
  "write_port_list demo_port = [0, 1]"
  "wait_queues demo_port = wait_queues (demo_kernel_on 3)" "current_thread demo_port = current_thread (demo_kernel_on 3)"
  by (simp_all add: demo_port_def sync_state.extend_def)

lemma demo_buf_ok: "buf_ok (demo_buf 2)" "buf_ok (demo_buf 8)" "buf_contents (demo_buf 2) = [[1], [1]]" "pb_avail (demo_buf 2) = 6"
    "pb_avail (demo_buf 8) = 0"
  by (code_simp, code_simp, code_simp, code_simp, code_simp)

lemma demo_readers: "reader_ok demo_port 0" "reader_ok demo_port 1" "writer_ok demo_port 0" "writer_ok demo_port 1"
  by (simp_all add: writer_ok_def reader_ok_def demo_port_sel demo_sync_wq demo_buf_ok)

lemma demo_port_nums: "rp_room demo_port 0 = 6" "rp_room demo_port 1 = 0" "rp_contents demo_port 0 = [[1], [1]]"
  by (simp_all add: rp_room_def rp_contents_def demo_port_sel demo_buf_ok)

section \<open>Properties\<close>

text \<open>
  C39: \<^verbatim>\<open>port_write\<close> is all or nothing at every reader: each reader of the port whose buffer has room for all
  the packets gets all of them, in order, behind what it held, and, unless it is in a group, its longest waiting thread is
  taken off its queue; a reader without room gets none of them. The result is \<^verbatim>\<open>ERR_PARTIAL_WRITE\<close> exactly when
  some reader had no room. A port that has no reader keeps the packets, or refuses them all. No assertion fails and the scheduler's invariant is kept.
\<close>

theorem port_write_delivers:
  fixes s :: "'a port_state_scheme"
  assumes "kinv {} {} s" and "cpu_up s c" and "writer_ok s w"
  shows "case wp_buf (write_ports s w) of
      None \<Rightarrow> (\<exists>s'. port_write c (Some (WritePort w)) (Some pk) s =
          Some (if \<forall>r \<in> set (wp_rp_list (write_ports s w)). length pk \<le> rp_room s r then NO_ERROR else ERR_PARTIAL_WRITE, s') \<and>
          kinv {} {} s' \<and> delivered pk (wp_rp_list (write_ports s w)) s s')
    | Some b \<Rightarrow> (\<exists>b'. port_write c (Some (WritePort w)) (Some pk) s =
          Some (if length pk \<le> unat (pb_avail b) then NO_ERROR else ERR_NOT_ENOUGH_BUFFER, upd_wp w (\<lambda>wp. wp\<lparr>wp_buf := Some b'\<rparr>) s) \<and>
          buf_ok b' \<and> buf_contents b' = buf_contents b @ (if length pk \<le> unat (pb_avail b) then pk else []))"
proof (cases "wp_buf (write_ports s w)")
  case None
  from port_write_readers [OF assms this] show ?thesis unfolding None option.case .
next
  case (Some b)
  from port_write_buffered [OF assms(3) this] show ?thesis unfolding Some option.case .
qed

theorem port_write_delivers_witness:
  "(\<exists>s'. port_write 0 (Some (WritePort 0)) (Some [[2], [3]]) demo_port = Some (ERR_PARTIAL_WRITE, s') \<and>
      rp_contents s' 0 = [[1], [1], [2], [3]] \<and> rp_contents s' 1 = rp_contents demo_port 1 \<and> wq_list (wait_queues s' (rp_wait_queue 0)) = []) \<and>
   (\<exists>s'. port_write 0 (Some (WritePort 1)) (Some [[2], [3]]) demo_port = Some (NO_ERROR, s'))"
proof
  have q: "rp_wait_queue 0 = ObjWq 3" by (simp add: rp_wait_queue_def)
  show "\<exists>s'. port_write 0 (Some (WritePort 0)) (Some [[2], [3]]) demo_port = Some (ERR_PARTIAL_WRITE, s') \<and>
      rp_contents s' 0 = [[1], [1], [2], [3]] \<and> rp_contents s' 1 = rp_contents demo_port 1 \<and> wq_list (wait_queues s' (rp_wait_queue 0)) = []"
    using port_write_delivers [OF demo_port_ok(1,3) demo_readers(3), of "[[2], [3]]"]
    by (auto simp: demo_port_sel delivered_def demo_port_nums demo_sync_wq q simp del: One_nat_def)
  show "\<exists>s'. port_write 0 (Some (WritePort 1)) (Some [[2], [3]]) demo_port = Some (NO_ERROR, s')"
    using port_write_delivers [OF demo_port_ok(1,3) demo_readers(4), of "[[2], [3]]"] by (auto simp: demo_port_sel demo_buf_ok)
qed

text \<open>
  C40: packets come out in the order they went in: after a write to a port with readers, a reader that had room reads first
  what it already held and then exactly the packets written, one per \<^verbatim>\<open>port_read\<close>, each with
  \<^verbatim>\<open>NO_ERROR\<close>, and is empty afterwards; whatever happens in between at other readers.
\<close>

theorem port_write_then_read:
  fixes s :: "'a port_state_scheme"
  assumes "kinv {} {} s" and "cpu_up s c" and "writer_ok s w" and "wp_buf (write_ports s w) = None"
    and "r \<in> set (wp_rp_list (write_ports s w))" and "length pk \<le> rp_room s r"
  shows "\<exists>st s1 s2. port_write c (Some (WritePort w)) (Some pk) s = Some (st, s1) \<and>
     port_reads d r (length (rp_contents s r) + length pk) s1 = Some (rp_contents s r @ pk, s2) \<and> rp_contents s2 r = []"
  by (rule port_write_reads [OF assms])

theorem port_write_then_read_witness:
  "\<exists>st s1 s2. port_write 0 (Some (WritePort 0)) (Some [[2], [3]]) demo_port = Some (st, s1) \<and>
     port_reads 1 0 4 s1 = Some ([[1], [1], [2], [3]], s2)"
proof -
  have "wp_buf (write_ports demo_port 0) = None" "0 \<in> set (wp_rp_list (write_ports demo_port 0))"
    "length [[2 :: u8], [3]] \<le> rp_room demo_port 0" by (simp_all add: demo_port_sel demo_port_nums)
  from port_write_then_read [OF demo_port_ok(1,3) demo_readers(3) this, of 1] show ?thesis
    unfolding demo_port_nums by (simp add: eval_nat_numeral) blast
qed

text \<open>
  A read of an empty port never invents a packet: with a zero timeout it returns \<^verbatim>\<open>ERR_TIMED_OUT\<close> and changes
  nothing; otherwise the caller goes to the end of the port's wait queue. In both cases the buffers are untouched.
  A read of a port that holds packets never waits and takes the oldest.
\<close>

theorem port_read_takes:
  fixes s :: "'a port_state_scheme"
  assumes "kinv {} {} s" and "caller c s" and "reader_ok s r"
  shows "case rp_contents s r of
      [] \<Rightarrow> (\<exists>s'. port_read c (Some (ReadPort r)) timeout (Some res) s =
          Some (if timeout = 0 then Ret ERR_TIMED_OUT else Blocked, Some (res\<lparr>pr_ctx := rp_ctx (read_ports s r)\<rparr>), s') \<and>
          kinv {} {} s' \<and> read_ports s' = read_ports s \<and>
          wq_list (wait_queues s' (rp_wait_queue r)) =
            wq_list (wait_queues s (rp_wait_queue r)) @ (if timeout = 0 then [] else [current_thread s c]))
    | p # ps \<Rightarrow> (\<exists>s'. port_read c (Some (ReadPort r)) timeout (Some res) s =
          Some (Ret NO_ERROR, Some \<lparr>pr_ctx = rp_ctx (read_ports s r), pr_packet = p\<rparr>, s') \<and>
          kinv {} {} s' \<and> reader_ok s' r \<and> rp_contents s' r = ps \<and> rp_ctx (read_ports s' r) = rp_ctx (read_ports s r))"
proof (cases "rp_contents s r")
  case Nil
  from port_read_empty [OF assms this] show ?thesis unfolding Nil list.case .
next
  case (Cons p ps)
  from port_read_msg [OF assms(1,3) this] show ?thesis unfolding Cons list.case .
qed

text \<open>
  A removed reader is stuck in its group: after a successful \<^verbatim>\<open>port_group_remove\<close> the reader still names the
  group, so removing it again returns \<^verbatim>\<open>ERR_BAD_HANDLE\<close> with the thread lock held, it can join no group, and
  closing it follows the null pointers of its list node.
\<close>

theorem port_group_remove_strands:
  assumes "pg_magic (port_groups s g) = PORTGROUP_MAGIC" and "rp_magic (read_ports s r) = READPORT_MAGIC"
    and "rp_gport (read_ports s r) = Some g" and "r \<in> set (pg_rp_list (port_groups s g))" and "distinct (pg_rp_list (port_groups s g))"
  shows "\<exists>s'. port_group_remove (Some (GroupPort g)) (Some (ReadPort r)) s = ((NO_ERROR, False), s') \<and>
     r \<notin> set (pg_rp_list (port_groups s' g)) \<and>
     port_group_remove (Some (GroupPort g)) (Some (ReadPort r)) s' = ((ERR_BAD_HANDLE, True), s') \<and>
     (\<forall>h. pg_magic (port_groups s' h) = PORTGROUP_MAGIC \<longrightarrow>
        port_group_add c (Some (GroupPort h)) (Some (ReadPort r)) s' = Some (ERR_BAD_HANDLE, s')) \<and>
     port_close c (Some (ReadPort r)) s' = None"
proof -
  obtain res s' where e: "port_group_remove (Some (GroupPort g)) (Some (ReadPort r)) s = (res, s')" by (rule prod.exhaust)
  note ok = port_group_remove_ok [OF assms e]
  from e ok show ?thesis by (intro exI [of _ s']) simp
qed

end
