(* ===== verification/LK_Pmm.thy ===== *)
theory LK_Pmm
  imports LK_Bytes
begin

text \<open>
  The physical memory manager: \<^verbatim>\<open>kernel/vm/pmm.c\<close> and \<^verbatim>\<open>kernel/vm/bootalloc.c\<close>. An arena is a run of
  physical memory with one \<^verbatim>\<open>vm_page_t\<close> per page; its free list holds indices into its page array, and a
  pointer to a page is the arena with the index. Every operation runs under one mutex, so it is one step.
  A failed assertion and an access outside of a page array are the value \<open>None\<close>.
\<close>

section \<open>Data\<close>

definition VM_PAGE_FLAG_NONFREE :: u8 where "VM_PAGE_FLAG_NONFREE = 1"
definition PMM_ARENA_FLAG_KMAP :: u32 where "PMM_ARENA_FLAG_KMAP = 1"

record vm_page =
  vp_flags :: u8
  vp_ref :: nat

record pmm_arena =
  ar_name :: string
  ar_flags :: u32
  ar_priority :: u32
  ar_base :: u64
  ar_size :: u64
  free_count :: u64
  page_array :: "vm_page list"
  free_list :: "nat list"

type_synonym page = "nat \<times> nat"

record pmm_state =
  arenas :: "nat \<Rightarrow> pmm_arena"
  arena_list :: "nat list"
  boot_alloc_end :: u64

definition upd_arena :: "nat \<Rightarrow> (pmm_arena \<Rightarrow> pmm_arena) \<Rightarrow> 'a pmm_state_scheme \<Rightarrow> 'a pmm_state_scheme" where
  "upd_arena a f s = s\<lparr>arenas := (arenas s)(a := f (arenas s a))\<rparr>"

definition page_is_free :: "vm_page \<Rightarrow> bool" where
  "page_is_free p \<longleftrightarrow> vp_flags p AND VM_PAGE_FLAG_NONFREE = 0"

definition arena_pages :: "pmm_arena \<Rightarrow> nat" where
  "arena_pages a = unat (ar_size a div PAGE_SIZE)"

definition PAGE_BELONGS_TO_ARENA :: "page \<Rightarrow> nat \<Rightarrow> 'a pmm_state_scheme \<Rightarrow> bool" where
  "PAGE_BELONGS_TO_ARENA p a s \<longleftrightarrow> fst p = a \<and> snd p < arena_pages (arenas s a)"

definition PAGE_ADDRESS_FROM_ARENA :: "page \<Rightarrow> pmm_arena \<Rightarrow> u64" where
  "PAGE_ADDRESS_FROM_ARENA p a = of_nat (snd p) * PAGE_SIZE + ar_base a"

definition ADDRESS_IN_ARENA :: "u64 \<Rightarrow> pmm_arena \<Rightarrow> bool" where
  "ADDRESS_IN_ARENA address a \<longleftrightarrow> address \<ge> ar_base a \<and> address \<le> ar_base a + ar_size a - 1"

section \<open>Boot allocator, addresses, arenas\<close>

definition boot_alloc_mem :: "u64 \<Rightarrow> 'a pmm_state_scheme \<Rightarrow> u64 \<times> 'a pmm_state_scheme" where
  "boot_alloc_mem len s =
     (let ptr = ROUNDUP (boot_alloc_end s) 8 in (ptr, s\<lparr>boot_alloc_end := ptr + ROUNDUP len 8\<rparr>))"

definition vm_page_to_paddr :: "page \<Rightarrow> 'a pmm_state_scheme \<Rightarrow> u64" where
  "vm_page_to_paddr p s =
     (case List.find (\<lambda>a. PAGE_BELONGS_TO_ARENA p a s) (arena_list s) of
        Some a \<Rightarrow> PAGE_ADDRESS_FROM_ARENA p (arenas s a)
      | None \<Rightarrow> -1)"

definition paddr_to_vm_page :: "u64 \<Rightarrow> 'a pmm_state_scheme \<Rightarrow> page option" where
  "paddr_to_vm_page addr s =
     map_option (\<lambda>a. (a, unat ((addr - ar_base (arenas s a)) div PAGE_SIZE)))
       (List.find (\<lambda>a. addr \<ge> ar_base (arenas s a) \<and> addr \<le> ar_base (arenas s a) + ar_size (arenas s a) - 1) (arena_list s))"

text \<open>Where the arena list is sorted by priority, a new arena goes before the first of greater priority.\<close>

fun add_by_priority :: "nat \<Rightarrow> u32 \<Rightarrow> nat list \<Rightarrow> 'a pmm_state_scheme \<Rightarrow> nat list" where
  "add_by_priority x pr [] s = [x]"
| "add_by_priority x pr (a # as) s =
     (if ar_priority (arenas s a) > pr then x # a # as else a # add_by_priority x pr as s)"

text \<open>\<open>pmm_add_arena x s\<close>: \<open>x\<close> is the arena structure the caller has filled in. A \<^verbatim>\<open>vm_page_t\<close> has 24 bytes.\<close>

definition pmm_add_arena :: "nat \<Rightarrow> 'a pmm_state_scheme \<Rightarrow> (status_t \<times> 'a pmm_state_scheme) option" where
  "pmm_add_arena x s =
     do {
       dassert (IS_ALIGNED (ar_base (arenas s x)) PAGE_SIZE);
       dassert (IS_ALIGNED (ar_size (arenas s x)) PAGE_SIZE);
       dassert (ar_size (arenas s x) > 0);
       let s = s\<lparr>arena_list := add_by_priority x (ar_priority (arenas s x)) (arena_list s) s\<rparr>;
       let page_count = arena_pages (arenas s x);
       let s = snd (boot_alloc_mem (of_nat page_count * 24) s);
       Some (NO_ERROR, upd_arena x (\<lambda>a. a\<lparr>free_count := of_nat page_count,
               page_array := replicate page_count \<lparr>vp_flags = 0, vp_ref = 0\<rparr>, free_list := [0..<page_count]\<rparr>) s)
     }"

section \<open>Allocating and freeing\<close>

text \<open>A page leaves its free list and is marked, or comes back to the head of it.\<close>

definition take_page :: "page \<Rightarrow> 'a pmm_state_scheme \<Rightarrow> 'a pmm_state_scheme" where
  "take_page p s = upd_arena (fst p) (\<lambda>a. a\<lparr>free_list := remove1 (snd p) (free_list a), free_count := free_count a - 1,
     page_array := (page_array a)[snd p := (page_array a ! snd p)\<lparr>vp_flags := vp_flags (page_array a ! snd p) OR VM_PAGE_FLAG_NONFREE\<rparr>]\<rparr>) s"

definition give_page :: "page \<Rightarrow> 'a pmm_state_scheme \<Rightarrow> 'a pmm_state_scheme" where
  "give_page p s = upd_arena (fst p) (\<lambda>a. a\<lparr>free_list := snd p # free_list a, free_count := free_count a + 1,
     page_array := (page_array a)[snd p := (page_array a ! snd p)\<lparr>vp_flags := vp_flags (page_array a ! snd p) AND NOT VM_PAGE_FLAG_NONFREE\<rparr>]\<rparr>) s"

text \<open>
  The inner loop of \<^verbatim>\<open>pmm_alloc_pages\<close> for one arena: up to \<open>n\<close> pages from the head of the free list.
  The flag says that the list ran out, upon which the source leaves both loops.
\<close>

fun alloc_from_arena :: "nat \<Rightarrow> nat \<Rightarrow> 'a pmm_state_scheme \<Rightarrow> page list \<times> bool \<times> 'a pmm_state_scheme" where
  "alloc_from_arena a 0 s = ([], False, s)"
| "alloc_from_arena a (Suc n) s =
     (case free_list (arenas s a) of
        [] \<Rightarrow> ([], True, s)
      | i # _ \<Rightarrow> (case alloc_from_arena a n (take_page (a, i) s) of (ps, d, s) \<Rightarrow> ((a, i) # ps, d, s)))"

fun alloc_from_arenas :: "nat list \<Rightarrow> nat \<Rightarrow> 'a pmm_state_scheme \<Rightarrow> page list \<times> 'a pmm_state_scheme" where
  "alloc_from_arenas [] n s = ([], s)"
| "alloc_from_arenas (a # as) n s =
     (case alloc_from_arena a n s of
        (ps, d, s) \<Rightarrow>
          if d then (ps, s)
          else (case alloc_from_arenas as (n - length ps) s of (qs, s) \<Rightarrow> (ps @ qs, s)))"

definition pmm_alloc_pages :: "nat \<Rightarrow> page list \<Rightarrow> 'a pmm_state_scheme \<Rightarrow> nat \<times> page list \<times> 'a pmm_state_scheme" where
  "pmm_alloc_pages cnt l s =
     (if cnt = 0 then (0, l, s)
      else (case alloc_from_arenas (arena_list s) cnt s of (ps, s) \<Rightarrow> (length ps, l @ ps, s)))"

text \<open>\<^verbatim>\<open>pmm_alloc_range\<close>: the inner loop takes the pages from \<open>address\<close> on while they are in the arena and free.\<close>

fun range_from_arena :: "nat \<Rightarrow> nat \<Rightarrow> u64 \<Rightarrow> 'a pmm_state_scheme \<Rightarrow> (page list \<times> u64 \<times> 'a pmm_state_scheme) option" where
  "range_from_arena a 0 address s = Some ([], address, s)"
| "range_from_arena a (Suc n) address s =
     (if \<not> ADDRESS_IN_ARENA address (arenas s a) then Some ([], address, s)
      else do {
        let index = unat ((address - ar_base (arenas s a)) div PAGE_SIZE);
        dassert (index < arena_pages (arenas s a));
        if \<not> page_is_free (page_array (arenas s a) ! index) then Some ([], address, s)
        else do {
          dassert (index \<in> set (free_list (arenas s a)));
          (ps, address, s) \<leftarrow> range_from_arena a n (address + PAGE_SIZE) (take_page (a, index) s);
          Some ((a, index) # ps, address, s)
        }
      })"

fun range_from_arenas :: "nat list \<Rightarrow> nat \<Rightarrow> u64 \<Rightarrow> 'a pmm_state_scheme \<Rightarrow> (page list \<times> 'a pmm_state_scheme) option" where
  "range_from_arenas [] n address s = Some ([], s)"
| "range_from_arenas (a # as) n address s =
     do {
       (ps, address, s) \<leftarrow> range_from_arena a n address s;
       if length ps = n then Some (ps, s)
       else do {
         (qs, s) \<leftarrow> range_from_arenas as (n - length ps) address s;
         Some (ps @ qs, s)
       }
     }"

definition pmm_alloc_range :: "u64 \<Rightarrow> nat \<Rightarrow> page list \<Rightarrow> 'a pmm_state_scheme \<Rightarrow> (nat \<times> page list \<times> 'a pmm_state_scheme) option" where
  "pmm_alloc_range address cnt l s =
     (if cnt = 0 then Some (0, l, s)
      else do {
        (ps, s) \<leftarrow> range_from_arenas (arena_list s) cnt (ROUNDDOWN address PAGE_SIZE) s;
        Some (length ps, l @ ps, s)
      })"

text \<open>A page of the list that belongs to no arena is dropped without being counted.\<close>

fun pmm_free :: "page list \<Rightarrow> 'a pmm_state_scheme \<Rightarrow> (nat \<times> 'a pmm_state_scheme) option" where
  "pmm_free [] s = Some (0, s)"
| "pmm_free (p # ps) s =
     (case List.find (\<lambda>a. PAGE_BELONGS_TO_ARENA p a s) (arena_list s) of
        None \<Rightarrow> pmm_free ps s
      | Some a \<Rightarrow> do {
          dassert (\<not> page_is_free (page_array (arenas s a) ! snd p));
          (n, s) \<leftarrow> pmm_free ps (give_page p s);
          Some (Suc n, s)
        })"

definition pmm_free_page :: "page \<Rightarrow> 'a pmm_state_scheme \<Rightarrow> (nat \<times> 'a pmm_state_scheme) option" where
  "pmm_free_page p s = pmm_free [p] s"

section \<open>Contiguous runs\<close>

definition first_used :: "pmm_arena \<Rightarrow> nat \<Rightarrow> nat \<Rightarrow> nat option" where
  "first_used a start cnt = List.find (\<lambda>i. \<not> page_is_free (page_array a ! (start + i))) [0..<cnt]"

text \<open>
  The search of one arena, from page \<open>start\<close> on, which is a 32-bit variable; \<open>off\<close> is the first aligned page.
  The result is the start of the run if there is one. \<open>Suc (arena_pages a)\<close> rounds are enough, since every
  round either ends the search or moves \<open>start\<close> up.
\<close>

fun find_run :: "nat \<Rightarrow> pmm_arena \<Rightarrow> nat \<Rightarrow> nat \<Rightarrow> nat \<Rightarrow> nat \<Rightarrow> nat option option" where
  "find_run 0 a cnt al off start = None"
| "find_run (Suc fuel) a cnt al off start =
     (if start < arena_pages a \<and> u32_of (start + cnt) \<le> arena_pages a then
        if start + cnt > arena_pages a then None
        else (case first_used a start cnt of
                None \<Rightarrow> Some (Some start)
              | Some i \<Rightarrow> find_run fuel a cnt al off
                  (u32_of (unat (ROUNDUP (of_nat (u32_of (start - off + i + 1)) :: u64) (push_bit (al - PAGE_SIZE_SHIFT) 1)) + off)))
      else Some None)"

definition contig_in_arena :: "pmm_arena \<Rightarrow> nat \<Rightarrow> nat \<Rightarrow> nat option option" where
  "contig_in_arena a cnt al =
     (let rounded_base = ROUNDUP (ar_base a) (push_bit al 1) in
      if ar_flags a AND PMM_ARENA_FLAG_KMAP = 0 then Some None
      else if rounded_base < ar_base a \<or> rounded_base > ar_base a + ar_size a - 1 then Some None
      else let aligned_offset = u32_of (unat ((rounded_base - ar_base a) div PAGE_SIZE))
           in find_run (Suc (arena_pages a)) a cnt al aligned_offset aligned_offset)"

fun contig_in_arenas :: "nat list \<Rightarrow> nat \<Rightarrow> nat \<Rightarrow> 'a pmm_state_scheme \<Rightarrow> (nat \<times> nat) option option" where
  "contig_in_arenas [] cnt al s = Some None"
| "contig_in_arenas (a # as) cnt al s =
     do {
       r \<leftarrow> contig_in_arena (arenas s a) cnt al;
       (case r of Some start \<Rightarrow> Some (Some (a, start)) | None \<Rightarrow> contig_in_arenas as cnt al s)
     }"

text \<open>Taking the run: every page is asserted to be free and on a list.\<close>

fun take_run :: "nat \<Rightarrow> nat list \<Rightarrow> 'a pmm_state_scheme \<Rightarrow> 'a pmm_state_scheme option" where
  "take_run a [] s = Some s"
| "take_run a (i # is) s =
     do {
       dassert (page_is_free (page_array (arenas s a) ! i));
       dassert (i \<in> set (free_list (arenas s a)));
       take_run a is (take_page (a, i) s)
     }"

text \<open>The result is the number of pages, their address, and the list of them, when the caller passes a list.\<close>

definition pmm_alloc_contiguous :: "nat \<Rightarrow> nat \<Rightarrow> page list option \<Rightarrow> 'a pmm_state_scheme \<Rightarrow>
    (nat \<times> u64 option \<times> page list option \<times> 'a pmm_state_scheme) option" where
  "pmm_alloc_contiguous cnt alignment_log2 l s =
     (if cnt = 0 then Some (0, None, l, s)
      else do {
        let al = (if alignment_log2 < PAGE_SIZE_SHIFT then PAGE_SIZE_SHIFT else alignment_log2);
        r \<leftarrow> contig_in_arenas (arena_list s) cnt al s;
        (case r of
           None \<Rightarrow> Some (0, None, l, s)
         | Some (a, start) \<Rightarrow> do {
             s \<leftarrow> take_run a [start..<start + cnt] s;
             Some (cnt, Some (ar_base (arenas s a) + of_nat start * PAGE_SIZE),
                   map_option (\<lambda>l. l @ map (Pair a) [start..<start + cnt]) l, s)
           })
      })"

text \<open>The two address translations of \<^verbatim>\<open>kernel/vm/vm.c\<close> the kernel page calls use are arguments here.\<close>

definition pmm_alloc_kpages :: "(u64 \<Rightarrow> u64 option) \<Rightarrow> nat \<Rightarrow> page list option \<Rightarrow> 'a pmm_state_scheme \<Rightarrow>
    (u64 option \<times> page list option \<times> 'a pmm_state_scheme) option" where
  "pmm_alloc_kpages paddr_to_kv cnt l s =
     do {
       (n, pa, l, s) \<leftarrow> pmm_alloc_contiguous cnt PAGE_SIZE_SHIFT l s;
       Some (if n = 0 then None else Option.bind pa paddr_to_kv, l, s)
     }"

fun kpages_list :: "(u64 \<Rightarrow> u64) \<Rightarrow> u64 \<Rightarrow> nat \<Rightarrow> 'a pmm_state_scheme \<Rightarrow> page list" where
  "kpages_list v2p ptr 0 s = []"
| "kpages_list v2p ptr (Suc n) s =
     (case paddr_to_vm_page (v2p ptr) s of None \<Rightarrow> [] | Some p \<Rightarrow> [p]) @ kpages_list v2p (ptr + PAGE_SIZE) n s"

definition pmm_free_kpages :: "(u64 \<Rightarrow> u64) \<Rightarrow> u64 \<Rightarrow> nat \<Rightarrow> 'a pmm_state_scheme \<Rightarrow> (nat \<times> 'a pmm_state_scheme) option" where
  "pmm_free_kpages v2p ptr cnt s = pmm_free (kpages_list v2p ptr cnt s) s"

section \<open>The invariant\<close>

definition arena_ok :: "pmm_arena \<Rightarrow> bool" where
  "arena_ok a \<longleftrightarrow> unat (ar_base a) mod 4096 = 0 \<and> unat (ar_size a) mod 4096 = 0 \<and> 0 < unat (ar_size a) \<and>
     unat (ar_base a) + unat (ar_size a) \<le> 2 ^ 64 \<and>
     length (page_array a) = arena_pages a \<and> distinct (free_list a) \<and>
     (\<forall>i. i \<in> set (free_list a) \<longleftrightarrow> i < arena_pages a \<and> page_is_free (page_array a ! i)) \<and>
     unat (free_count a) = length (free_list a)"

definition pmm_inv :: "'a pmm_state_scheme \<Rightarrow> bool" where
  "pmm_inv s \<longleftrightarrow> distinct (arena_list s) \<and> (\<forall>a \<in> set (arena_list s). arena_ok (arenas s a)) \<and>
     (\<forall>a \<in> set (arena_list s). \<forall>b \<in> set (arena_list s). a \<noteq> b \<longrightarrow>
        unat (ar_base (arenas s a)) + unat (ar_size (arenas s a)) \<le> unat (ar_base (arenas s b)) \<or>
        unat (ar_base (arenas s b)) + unat (ar_size (arenas s b)) \<le> unat (ar_base (arenas s a)))"

text \<open>The pages the manager has, and the free ones among them.\<close>

definition all_pages :: "'a pmm_state_scheme \<Rightarrow> page set" where
  "all_pages s = {(a, i). a \<in> set (arena_list s) \<and> i < arena_pages (arenas s a)}"

definition free_pages :: "'a pmm_state_scheme \<Rightarrow> page set" where
  "free_pages s = {(a, i). a \<in> set (arena_list s) \<and> i \<in> set (free_list (arenas s a))}"

lemma upd_arena_sel [simp]:
  "arenas (upd_arena a f s) = (arenas s)(a := f (arenas s a))" "arena_list (upd_arena a f s) = arena_list s"
  "pmm_state.more (upd_arena a f s) = pmm_state.more s" "boot_alloc_end (upd_arena a f s) = boot_alloc_end s"
  by (simp_all add: upd_arena_def)

lemma arena_pages_unat: "arena_pages a = unat (ar_size a) div 4096"
  by (simp add: arena_pages_def unat_div)

lemma arena_pages_less: "arena_pages a < 2 ^ 52"
  using unat_u64_less [of "ar_size a"] by (simp add: arena_pages_unat)

lemma page_is_free_set [simp]:
  "page_is_free (p\<lparr>vp_flags := vp_flags p OR VM_PAGE_FLAG_NONFREE\<rparr>) = False"
  "page_is_free (p\<lparr>vp_flags := vp_flags p AND NOT VM_PAGE_FLAG_NONFREE\<rparr>) = True"
proof -
  have "bit ((vp_flags p OR VM_PAGE_FLAG_NONFREE) AND VM_PAGE_FLAG_NONFREE) 0" by (simp add: VM_PAGE_FLAG_NONFREE_def bit_simps)
  then have "(vp_flags p OR VM_PAGE_FLAG_NONFREE) AND VM_PAGE_FLAG_NONFREE \<noteq> 0" by (rule bit_imp_neq_0)
  then show "page_is_free (p\<lparr>vp_flags := vp_flags p OR VM_PAGE_FLAG_NONFREE\<rparr>) = False" by (simp add: page_is_free_def)
  have "(vp_flags p AND NOT VM_PAGE_FLAG_NONFREE) AND VM_PAGE_FLAG_NONFREE = 0" by (rule bit_eqI) (auto simp: bit_simps)
  then show "page_is_free (p\<lparr>vp_flags := vp_flags p AND NOT VM_PAGE_FLAG_NONFREE\<rparr>) = True" by (simp add: page_is_free_def)
qed

text \<open>The fields of an arena that never change once it has been added.\<close>

definition same_arena :: "pmm_arena \<Rightarrow> pmm_arena \<Rightarrow> bool" where
  "same_arena a b \<longleftrightarrow> ar_base a = ar_base b \<and> ar_size a = ar_size b \<and> ar_flags a = ar_flags b \<and> ar_priority a = ar_priority b"

lemma arena_take:
  assumes ok: "arena_ok a" and i: "i \<in> set (free_list a)"
    and e: "b = a\<lparr>free_list := remove1 i (free_list a), free_count := free_count a - 1,
      page_array := (page_array a)[i := (page_array a ! i)\<lparr>vp_flags := vp_flags (page_array a ! i) OR VM_PAGE_FLAG_NONFREE\<rparr>]\<rparr>"
  shows "arena_ok b" "set (free_list b) = set (free_list a) - {i}"
proof -
  have d: "distinct (free_list a)" and l: "i < length (page_array a)" "length (page_array a) = arena_pages a"
    and c: "unat (free_count a) = length (free_list a)" using ok i by (auto simp: arena_ok_def)
  then have pos: "0 < length (free_list a)" using i by (cases "free_list a") simp_all
  have "free_count a \<noteq> 0" using c pos by auto
  then have "unat (free_count a - 1) = unat (free_count a) - 1" by (simp add: unat_minus_one)
  then have fc: "unat (free_count a - 1) = length (remove1 i (free_list a))" using c i by (simp add: length_remove1)
  have pg: "arena_pages b = arena_pages a" by (simp add: arena_pages_def e)
  have fr: "page_is_free (page_array b ! j) = (page_is_free (page_array a ! j) \<and> j \<noteq> i)" if "j < arena_pages a" for j
    using that l by (simp add: e nth_list_update)
  have mem: "j \<in> set (free_list a) \<longleftrightarrow> j < arena_pages a \<and> page_is_free (page_array a ! j)" for j using ok by (simp add: arena_ok_def)
  show s: "set (free_list b) = set (free_list a) - {i}" using d by (simp add: e)
  have m: "\<forall>j. j \<in> set (free_list b) \<longleftrightarrow> j < arena_pages b \<and> page_is_free (page_array b ! j)"
    unfolding pg s using mem fr by blast
  have "unat (free_count b) = length (free_list b)" "length (page_array b) = arena_pages b" "distinct (free_list b)"
    using fc l d unfolding pg by (simp_all add: e)
  with ok m show "arena_ok b" by (simp add: arena_ok_def) (simp add: e)
qed

lemma arena_give:
  assumes ok: "arena_ok a" and i: "i < arena_pages a" "\<not> page_is_free (page_array a ! i)"
    and e: "b = a\<lparr>free_list := i # free_list a, free_count := free_count a + 1,
      page_array := (page_array a)[i := (page_array a ! i)\<lparr>vp_flags := vp_flags (page_array a ! i) AND NOT VM_PAGE_FLAG_NONFREE\<rparr>]\<rparr>"
  shows "arena_ok b" "set (free_list b) = insert i (set (free_list a))"
proof -
  have d: "distinct (free_list a)" and l: "length (page_array a) = arena_pages a"
    and c: "unat (free_count a) = length (free_list a)" and sub: "set (free_list a) \<subseteq> {..<arena_pages a}"
    and ni: "i \<notin> set (free_list a)"
    using ok i by (auto simp: arena_ok_def)
  have "length (free_list a) \<le> arena_pages a"
    using card_mono [OF finite_lessThan sub] distinct_card [OF d] by simp
  then have "unat (free_count a) + 1 < 2 ^ 64" using c arena_pages_less [of a] by simp
  then have fc: "unat (free_count a + 1) = length (i # free_list a)" using c by (simp add: unat_word_ariths)
  have pg: "arena_pages b = arena_pages a" by (simp add: arena_pages_def e)
  have fr: "page_is_free (page_array b ! j) = (page_is_free (page_array a ! j) \<or> j = i)" if "j < arena_pages a" for j
    using that l i(1) by (simp add: e nth_list_update)
  have mem: "j \<in> set (free_list a) \<longleftrightarrow> j < arena_pages a \<and> page_is_free (page_array a ! j)" for j using ok by (simp add: arena_ok_def)
  show s: "set (free_list b) = insert i (set (free_list a))" by (simp add: e)
  have m: "\<forall>j. j \<in> set (free_list b) \<longleftrightarrow> j < arena_pages b \<and> page_is_free (page_array b ! j)"
    unfolding pg s using mem fr i(1) by blast
  have "unat (free_count b) = length (free_list b)" "length (page_array b) = arena_pages b" "distinct (free_list b)"
    using fc l d ni unfolding pg by (simp_all add: e)
  with ok m show "arena_ok b" by (simp add: arena_ok_def) (simp add: e)
qed

lemma pmm_inv_upd:
  assumes inv: "pmm_inv s" and ok: "arena_ok (f (arenas s a))" and same: "same_arena (f (arenas s a)) (arenas s a)"
  shows "pmm_inv (upd_arena a f s)"
  using inv ok same unfolding pmm_inv_def same_arena_def by (auto simp: fun_upd_def)

lemma free_pages_upd:
  "a \<in> set (arena_list s) \<Longrightarrow>
     free_pages (upd_arena a f s) = {x \<in> free_pages s. fst x \<noteq> a} \<union> Pair a ` set (free_list (f (arenas s a)))"
  by (rule set_eqI, case_tac x) (auto simp: free_pages_def split: if_splits)

lemma free_pages_arena: "a \<in> set (arena_list s) \<Longrightarrow> (a, i) \<in> free_pages s \<longleftrightarrow> i \<in> set (free_list (arenas s a))"
  by (simp add: free_pages_def)

definition same_pmm :: "'a pmm_state_scheme \<Rightarrow> 'a pmm_state_scheme \<Rightarrow> bool" where
  "same_pmm s s' \<longleftrightarrow> arena_list s' = arena_list s \<and> (\<forall>a. same_arena (arenas s' a) (arenas s a)) \<and>
     pmm_state.more s' = pmm_state.more s"

lemma same_pmm_refl [simp]: "same_pmm s s"
  by (simp add: same_pmm_def same_arena_def)

lemma same_pmm_trans: "same_pmm s s1 \<Longrightarrow> same_pmm s1 s2 \<Longrightarrow> same_pmm s s2"
  by (simp add: same_pmm_def same_arena_def)

lemma same_pmm_pages: "same_pmm s s' \<Longrightarrow> all_pages s' = all_pages s"
  by (simp add: same_pmm_def same_arena_def all_pages_def arena_pages_def)

lemma same_pmm_belongs: "same_pmm s s' \<Longrightarrow> PAGE_BELONGS_TO_ARENA p a s' = PAGE_BELONGS_TO_ARENA p a s"
  by (simp add: same_pmm_def same_arena_def PAGE_BELONGS_TO_ARENA_def arena_pages_def)

lemma take_page_ok:
  assumes inv: "pmm_inv s" and p: "p \<in> free_pages s"
  shows "pmm_inv (take_page p s)" "free_pages (take_page p s) = free_pages s - {p}" "same_pmm s (take_page p s)"
proof -
  obtain a i where e: "p = (a, i)" "a \<in> set (arena_list s)" "i \<in> set (free_list (arenas s a))" using p by (auto simp: free_pages_def)
  then have ok: "arena_ok (arenas s a)" using inv by (simp add: pmm_inv_def)
  note t = arena_take [OF ok e(3) refl]
  show "pmm_inv (take_page p s)" unfolding take_page_def e(1) fst_conv snd_conv
    by (rule pmm_inv_upd [OF inv]) (rule t(1), simp add: same_arena_def)
  show "free_pages (take_page p s) = free_pages s - {p}"
    unfolding take_page_def e(1) fst_conv snd_conv free_pages_upd [OF e(2)] t(2)
    by (rule set_eqI, case_tac x) (use free_pages_arena [OF e(2)] in auto)
  show "same_pmm s (take_page p s)" by (simp add: same_pmm_def same_arena_def take_page_def e(1))
qed

lemma give_page_ok:
  assumes inv: "pmm_inv s" and p: "p \<in> all_pages s - free_pages s"
  shows "pmm_inv (give_page p s)" "free_pages (give_page p s) = insert p (free_pages s)" "same_pmm s (give_page p s)"
    "\<not> page_is_free (page_array (arenas s (fst p)) ! snd p)"
proof -
  obtain a i where e: "p = (a, i)" "a \<in> set (arena_list s)" "i < arena_pages (arenas s a)" "i \<notin> set (free_list (arenas s a))"
    using p by (auto simp: free_pages_def all_pages_def)
  then have ok: "arena_ok (arenas s a)" using inv by (simp add: pmm_inv_def)
  then have nf: "\<not> page_is_free (page_array (arenas s a) ! i)" using e by (simp add: arena_ok_def)
  note t = arena_give [OF ok e(3) nf refl]
  show "pmm_inv (give_page p s)" unfolding give_page_def e(1) fst_conv snd_conv
    by (rule pmm_inv_upd [OF inv]) (rule t(1), simp add: same_arena_def)
  show "free_pages (give_page p s) = insert p (free_pages s)"
    unfolding give_page_def e(1) fst_conv snd_conv free_pages_upd [OF e(2)] t(2)
    by (rule set_eqI, case_tac x) (use free_pages_arena [OF e(2)] in auto)
  show "same_pmm s (give_page p s)" by (simp add: same_pmm_def same_arena_def give_page_def e(1))
  show "\<not> page_is_free (page_array (arenas s (fst p)) ! snd p)" using nf by (simp add: e(1))
qed

section \<open>Allocating and freeing keep the books\<close>

text \<open>\<open>taken ps s s'\<close>: the pages \<open>ps\<close>, all free and different, have left the free lists and nothing else happened.\<close>

definition taken :: "page list \<Rightarrow> 'a pmm_state_scheme \<Rightarrow> 'a pmm_state_scheme \<Rightarrow> bool" where
  "taken ps s s' \<longleftrightarrow> distinct ps \<and> set ps \<subseteq> free_pages s \<and> free_pages s' = free_pages s - set ps \<and> same_pmm s s' \<and> pmm_inv s'"

lemma taken_Nil: "pmm_inv s \<Longrightarrow> taken [] s s"
  by (simp add: taken_def)

lemma taken_Cons:
  assumes "pmm_inv s" and p: "p \<in> free_pages s" and t: "taken ps (take_page p s) s'"
  shows "taken (p # ps) s s'"
  using t take_page_ok [OF assms(1) p] p unfolding taken_def by (auto intro: same_pmm_trans)

lemma taken_append: "taken ps s s1 \<Longrightarrow> taken qs s1 s' \<Longrightarrow> taken (ps @ qs) s s'"
  unfolding taken_def by (auto intro: same_pmm_trans)

lemma alloc_from_arena_ok:
  assumes "pmm_inv s" and "a \<in> set (arena_list s)" and "alloc_from_arena a n s = (ps, d, s')"
  shows "taken ps s s' \<and> ps = map (Pair a) (take n (free_list (arenas s a))) \<and> d = (length (free_list (arenas s a)) < n)"
  using assms
proof (induction a n s arbitrary: ps d s' rule: alloc_from_arena.induct)
  case (1 a s)
  then show ?case by (simp add: taken_Nil)
next
  case (2 a n s)
  show ?case
  proof (cases "free_list (arenas s a)")
    case Nil
    then show ?thesis using 2 by (simp add: taken_Nil)
  next
    case (Cons i js)
    have p: "(a, i) \<in> free_pages s" using 2(3) Cons by (simp add: free_pages_def)
    obtain qs d' s1 where r: "alloc_from_arena a n (take_page (a, i) s) = (qs, d', s1)" by (rule prod_cases3)
    have al: "a \<in> set (arena_list (take_page (a, i) s))" using 2(3) by (simp add: take_page_def)
    have fl: "free_list (arenas (take_page (a, i) s) a) = js" by (simp add: take_page_def Cons)
    note ih = "2.IH" [OF Cons take_page_ok(1) [OF 2(2) p] al r]
    have e: "ps = (a, i) # qs" "d = d'" "s' = s1" using 2(4) Cons r by simp_all
    from ih have "taken qs (take_page (a, i) s) s1" "qs = map (Pair a) (take n js)" "d' = (length js < n)" unfolding fl by blast+
    then show ?thesis using taken_Cons [OF 2(2) p] by (simp add: e Cons)
  qed
qed

lemma alloc_from_arenas_0: "alloc_from_arenas as 0 s = ([], s)"
  by (induction as) simp_all

text \<open>The allocation never gets past the first arena: when that runs out, the search stops.\<close>

lemma pmm_alloc_pages_ok:
  assumes inv: "pmm_inv s" and "pmm_alloc_pages cnt l s = (n, l', s')"
  shows "\<exists>ps. l' = l @ ps \<and> n = length ps \<and> n \<le> cnt \<and> taken ps s s' \<and>
     (case arena_list s of [] \<Rightarrow> ps = [] | a # _ \<Rightarrow> ps = map (Pair a) (take cnt (free_list (arenas s a))))"
proof (cases "cnt = 0 \<or> arena_list s = []")
  case True
  then show ?thesis using assms by (auto simp: pmm_alloc_pages_def taken_Nil split: list.splits if_splits)
next
  case False
  then obtain a as where al: "arena_list s = a # as" by (cases "arena_list s") simp_all
  obtain ps d s1 where r: "alloc_from_arena a cnt s = (ps, d, s1)" by (rule prod_cases3)
  have t: "taken ps s s1" "ps = map (Pair a) (take cnt (free_list (arenas s a)))" "d = (length (free_list (arenas s a)) < cnt)"
    using alloc_from_arena_ok [OF inv _ r] al by auto
  have "alloc_from_arenas (arena_list s) cnt s = (ps, s1)"
    using t(2,3) by (simp add: al r alloc_from_arenas_0)
  then show ?thesis using assms(2) False t(1,2) al by (auto simp: pmm_alloc_pages_def)
qed

lemma find_belongs:
  assumes "pmm_inv s" and p: "p \<in> all_pages s"
  shows "List.find (\<lambda>a. PAGE_BELONGS_TO_ARENA p a s) (arena_list s) = Some (fst p)"
proof -
  obtain a i where e: "p = (a, i)" "a \<in> set (arena_list s)" "i < arena_pages (arenas s a)" using p by (auto simp: all_pages_def)
  have "List.find (\<lambda>b. a = b \<and> i < arena_pages (arenas s b)) as = Some a" if "a \<in> set as" for as
    using that e(3) by (induction as) auto
  with e show ?thesis by (simp add: PAGE_BELONGS_TO_ARENA_def)
qed

lemma pmm_free_ok:
  assumes "pmm_inv s" and "distinct ps" and "set ps \<subseteq> all_pages s - free_pages s"
  shows "\<exists>s'. pmm_free ps s = Some (length ps, s') \<and> pmm_inv s' \<and> free_pages s' = free_pages s \<union> set ps \<and> same_pmm s s'"
  using assms
proof (induction ps arbitrary: s)
  case Nil
  then show ?case by simp
next
  case (Cons p ps)
  have p: "p \<in> all_pages s - free_pages s" using Cons.prems by simp
  note g = give_page_ok [OF Cons.prems(1) p]
  have "set ps \<subseteq> all_pages (give_page p s) - free_pages (give_page p s)"
    using Cons.prems g(2) same_pmm_pages [OF g(3)] by auto
  from Cons.IH [OF g(1) _ this] Cons.prems obtain s' where
    s': "pmm_free ps (give_page p s) = Some (length ps, s')" "pmm_inv s'" "free_pages s' = free_pages (give_page p s) \<union> set ps"
      "same_pmm (give_page p s) s'" by auto
  have "pmm_free (p # ps) s = Some (length (p # ps), s')"
    using find_belongs [OF Cons.prems(1)] p g(4) s'(1) by simp
  then show ?case using s' g(2) same_pmm_trans [OF g(3)] by auto
qed

section \<open>Contiguous runs\<close>

definition run_free :: "pmm_arena \<Rightarrow> nat \<Rightarrow> nat \<Rightarrow> bool" where
  "run_free a k cnt \<longleftrightarrow> k + cnt \<le> arena_pages a \<and> (\<forall>i < cnt. page_is_free (page_array a ! (k + i)))"

lemma first_used_None: "first_used a k cnt = None \<longleftrightarrow> (\<forall>i < cnt. page_is_free (page_array a ! (k + i)))"
  by (auto simp: first_used_def find_None_iff)

lemma first_used_Some: "first_used a k cnt = Some i \<Longrightarrow> i < cnt \<and> \<not> page_is_free (page_array a ! (k + i))"
  by (auto simp: first_used_def find_Some_iff)

lemma find_run_ok:
  assumes np: "arena_pages a < 2 ^ 31" and cnt: "0 < cnt" "cnt < 2 ^ 30" and al: "12 \<le> al" "al < 32"
    and st: "off \<le> start" "2 ^ (al - 12) dvd start - off" "start < 2 ^ 31 + 2 ^ 20" and fuel: "arena_pages a < start + fuel" "0 < fuel"
  shows "\<exists>r. find_run fuel a cnt al off start = Some r \<and>
     (case r of
        Some k \<Rightarrow> off \<le> k \<and> 2 ^ (al - 12) dvd k - off \<and> run_free a k cnt
      | None \<Rightarrow> \<forall>k \<ge> start. 2 ^ (al - 12) dvd k - off \<longrightarrow> \<not> run_free a k cnt)"
  using st fuel
proof (induction fuel arbitrary: start)
  case 0
  then show ?case by simp
next
  case (Suc fuel)
  let ?np = "arena_pages a" and ?B = "(2::nat) ^ (al - 12)"
  have "?B \<le> 2 ^ 20" using al by (intro power_increasing) simp_all
  then have B: "0 < ?B" "?B \<le> 2 ^ 20" by simp_all
  have w: "u32_of (start + cnt) = start + cnt" using Suc.prems(3) cnt by (intro u32_of_id) simp
  show ?case
  proof (cases "start < ?np \<and> start + cnt \<le> ?np")
    case False
    have "\<not> run_free a k cnt" if "k \<ge> start" for k using that False cnt by (auto simp: run_free_def)
    moreover have "find_run (Suc fuel) a cnt al off start = Some None" by (simp only: find_run.simps w False if_False)
    ultimately show ?thesis by simp
  next
    case True
    show ?thesis
    proof (cases "first_used a start cnt")
      case None
      then have "run_free a start cnt" using True by (simp add: run_free_def first_used_None)
      moreover have "find_run (Suc fuel) a cnt al off start = Some (Some start)" using True None by (simp add: w)
      ultimately show ?thesis using Suc.prems by simp
    next
      case (Some i)
      note i = first_used_Some [OF Some]
      let ?x = "start - off + i + 1"
      let ?r = "(?x + (?B - 1)) div ?B * ?B"
      have si: "start + i < arena_pages a" "i < cnt" using True i by linarith+
      have "start + i < 2 ^ 31" using si(1) np by (rule order.strict_trans)
      have x: "?x \<le> 2 ^ 31" using \<open>start + i < 2 ^ 31\<close> by simp
      then have u1: "u32_of ?x = ?x" by (intro u32_of_id) simp
      have "unat (of_nat ?x :: u64) = ?x" unfolding unat_of_nat by (rule mod_less) (use x in simp)
      then have ru: "unat (ROUNDUP (of_nat (u32_of ?x) :: u64) (push_bit (al - PAGE_SIZE_SHIFT) 1)) = ?r"
        using unat_ROUNDUP [of "al - 12" "of_nat ?x :: u64"] x B al unfolding u1 PAGE_SIZE_SHIFT_def by simp
      note rn = round_up_nat [OF B(1), where x = ?x]
      have ar: "r + off < 2 ^ 31 + 2 ^ 20" if "r < start - off + i + 1 + b" "b \<le> 2 ^ 20" for r b :: nat
        using that \<open>start + i < 2 ^ 31\<close> Suc.prems(1) by simp
      note r20 = ar [OF rn(2) B(2)]
      then have "?r + off < 2 ^ 32" by (rule order.strict_trans) simp
      then have u2: "u32_of (?r + off) = ?r + off" by (rule u32_of_id)
      have t: "start < ?np" "start + cnt \<le> ?np" "\<not> ?np < start + cnt" using True by linarith+
      have step: "find_run (Suc fuel) a cnt al off start = find_run fuel a cnt al off (?r + off)"
        by (simp only: find_run.simps w t Some option.case ru u2 simp_thms if_True if_False)
      have nx: "start + i < ?r + off" using rn(1) Suc.prems(1) by linarith
      have "off \<le> ?r + off" "?B dvd ?r + off - off" "?r + off < 2 ^ 31 + 2 ^ 20" "?np < ?r + off + fuel" "0 < fuel"
        using r20 Suc.prems(4) nx si by (simp_all del: power_Suc)
      from Suc.IH [OF this] obtain r where r: "find_run fuel a cnt al off (?r + off) = Some r"
        "case r of Some k \<Rightarrow> off \<le> k \<and> ?B dvd k - off \<and> run_free a k cnt
         | None \<Rightarrow> \<forall>k \<ge> ?r + off. ?B dvd k - off \<longrightarrow> \<not> run_free a k cnt" by blast
      have skip: "\<not> run_free a k cnt" if k: "start \<le> k" "?B dvd k - off" "\<not> ?r + off \<le> k" for k
      proof -
        have "\<not> ?x \<le> k - off" using rn(3) [OF k(2)] k(3) by linarith
        then have "k \<le> start + i" using k(1) Suc.prems(1) by linarith
        then have "start + i = k + (start + i - k)" "start + i - k < cnt" using k(1) i by linarith+
        then show ?thesis using i unfolding run_free_def by metis
      qed
      show ?thesis unfolding step r(1) using r(2) skip by (cases r) auto
    qed
  qed
qed

lemma run_aligned:
  assumes ok: "arena_ok a" and al: "12 \<le> al" "al < 32"
  defines "rb \<equiv> ROUNDUP (ar_base a) (push_bit al 1)"
  defines "off \<equiv> unat ((rb - ar_base a) div PAGE_SIZE)"
  shows "if rb < ar_base a \<or> rb > ar_base a + ar_size a - 1
     then \<forall>k < arena_pages a. \<not> 2 ^ al dvd unat (ar_base a) + 4096 * k
     else off < 2 ^ 20 \<and> off < arena_pages a \<and>
       (\<forall>k. 2 ^ al dvd unat (ar_base a) + 4096 * k \<longleftrightarrow> off \<le> k \<and> 2 ^ (al - 12) dvd k - off)"
proof -
  let ?X = "unat (ar_base a)" and ?S = "unat (ar_size a)" and ?n = "(2::nat) ^ al"
  let ?Y = "(?X + (?n - 1)) div ?n * ?n"
  have n: "?n = 4096 * 2 ^ (al - 12)" using power_add [of "2::nat" 12 "al - 12"] al by simp
  have nle: "?n \<le> 2 ^ 32" using al by (intro power_increasing) simp_all
  have o: "?X mod 4096 = 0" "0 < ?S" "?X + ?S \<le> 2 ^ 64" "?S mod 4096 = 0" using ok by (simp_all add: arena_ok_def)
  have "4096 dvd ?S" using o(4) by (simp add: mod_eq_0_iff_dvd)
  then have np: "?S = 4096 * arena_pages a" unfolding arena_pages_unat by (rule dvd_mult_div_cancel [symmetric])
  have pos: "0 < ?n" by simp
  note rn = round_up_nat [OF pos, where x = ?X]
  have last: "unat (ar_base a + ar_size a - 1) = ?X + ?S - 1" using o(2,3) by (rule unat_last)
  have le64: "?X < 2 ^ 64" by (rule unat_u64_less)
  show ?thesis
  proof (cases "?X + (?n - 1) < 2 ^ 64")
    case False
    then have r0: "rb = 0" unfolding rb_def using al by (intro ROUNDUP_wraps) simp_all
    have "?n - 1 < 2 ^ 64" using nle by (rule order.strict_trans1 [OF diff_le_self order.strict_trans1]) simp
    with False have "0 < ?X" by (intro gr0I) simp
    then have "rb < ar_base a" unfolding r0 by (simp add: word_less_nat_alt)
    moreover have "\<not> ?n dvd ?X + 4096 * k" if k: "k < arena_pages a" for k
    proof
      assume "?n dvd ?X + 4096 * k"
      from rn(3) [OF this] have "?Y \<le> ?X + 4096 * k" by simp
      also have "\<dots> < 2 ^ 64" using k np o(3) by linarith
      finally have "?Y < 2 ^ 64" .
      moreover have "?n dvd 2 ^ 64" using al by (intro le_imp_power_dvd) simp
      ultimately have "?Y + ?n \<le> 2 ^ 64" by (rule dvd_less_add [OF dvd_triv_right])
      then show False using rn(1) False pos by linarith
    qed
    ultimately show ?thesis by simp
  next
    case True
    have rb: "unat rb = ?Y" unfolding rb_def using al True by (intro unat_ROUNDUP) simp_all
    have lb: "\<not> rb < ar_base a" using rn(1) by (simp add: word_less_nat_alt rb)
    have gt: "rb > ar_base a + ar_size a - 1 \<longleftrightarrow> ?Y > ?X + ?S - 1" by (simp add: word_less_nat_alt rb last)
    show ?thesis
    proof (cases "?Y > ?X + ?S - 1")
      case True
      have "\<not> ?n dvd ?X + 4096 * k" if k: "k < arena_pages a" for k
        using rn(3) [of "?X + 4096 * k"] True k np by auto
      with True gt show ?thesis by simp
    next
      case F: False
      have "unat (rb - ar_base a) = ?Y - ?X" using lb by (simp add: unat_sub rb)
      then have off: "off = (?Y - ?X) div 4096" unfolding off_def by (simp add: unat_div)
      have "4096 dvd ?Y" unfolding n by simp
      then have Yo: "?Y = ?X + 4096 * off" using o(1) rn(1) unfolding off by (metis (no_types, lifting) dvd_diff_nat dvd_mult_div_cancel le_add_diff_inverse mod_eq_0_iff_dvd)
      have "4096 * off < ?n" using Yo rn(2) by linarith
      then have "4096 * off < 2 ^ 32" using nle by (rule order.strict_trans2)
      then have "off < 2 ^ 20" by simp
      moreover have "off < arena_pages a" using F Yo np o(2) by linarith
      moreover have "?n dvd ?X + 4096 * k \<longleftrightarrow> off \<le> k \<and> 2 ^ (al - 12) dvd k - off" for k
      proof -
        have ge: "off \<le> k" if "?n dvd ?X + 4096 * k" using rn(3) [OF that] Yo by linarith
        have "?n dvd ?X + 4096 * k \<longleftrightarrow> 2 ^ (al - 12) dvd k - off" if "off \<le> k"
        proof -
          have "?X + 4096 * k = ?Y + 4096 * (k - off)" using Yo that by (simp add: algebra_simps)
          then have "?n dvd ?X + 4096 * k \<longleftrightarrow> ?n dvd 4096 * (k - off)" by (simp add: dvd_add_right_iff)
          also have "\<dots> \<longleftrightarrow> 2 ^ (al - 12) dvd k - off" unfolding n by (rule nat_mult_dvd_cancel1) simp
          finally show ?thesis .
        qed
        with ge show ?thesis by blast
      qed
      ultimately show ?thesis using F gt lb by simp
    qed
  qed
qed

text \<open>An aligned run of free pages in an arena the kernel has mapped.\<close>

definition has_run :: "nat \<Rightarrow> nat \<Rightarrow> 'a pmm_state_scheme \<Rightarrow> nat \<Rightarrow> nat \<Rightarrow> bool" where
  "has_run cnt al s a k \<longleftrightarrow> a \<in> set (arena_list s) \<and> ar_flags (arenas s a) AND PMM_ARENA_FLAG_KMAP \<noteq> 0 \<and>
     k + cnt \<le> arena_pages (arenas s a) \<and> 2 ^ al dvd unat (ar_base (arenas s a)) + 4096 * k \<and>
     (\<forall>i < cnt. (a, k + i) \<in> free_pages s)"

definition contig_sizes :: "nat \<Rightarrow> nat \<Rightarrow> 'a pmm_state_scheme \<Rightarrow> bool" where
  "contig_sizes cnt al s \<longleftrightarrow> 0 < cnt \<and> cnt < 2 ^ 30 \<and> 12 \<le> al \<and> al < 32 \<and> (\<forall>a \<in> set (arena_list s). arena_pages (arenas s a) < 2 ^ 31)"

lemma run_free_pages:
  assumes "pmm_inv s" and "a \<in> set (arena_list s)" and "k + cnt \<le> arena_pages (arenas s a)"
  shows "run_free (arenas s a) k cnt \<longleftrightarrow> (\<forall>i < cnt. (a, k + i) \<in> free_pages s)"
proof -
  have "i \<in> set (free_list (arenas s a)) \<longleftrightarrow> i < arena_pages (arenas s a) \<and> page_is_free (page_array (arenas s a) ! i)" for i
    using assms by (simp add: pmm_inv_def arena_ok_def)
  then show ?thesis using assms by (simp add: run_free_def free_pages_arena)
qed

lemma contig_in_arena_ok:
  assumes inv: "pmm_inv s" and sz: "contig_sizes cnt al s" and a: "a \<in> set (arena_list s)"
  shows "\<exists>r. contig_in_arena (arenas s a) cnt al = Some r \<and>
     (case r of Some k \<Rightarrow> has_run cnt al s a k | None \<Rightarrow> \<forall>k. \<not> has_run cnt al s a k)"
proof -
  let ?a = "arenas s a"
  let ?rb = "ROUNDUP (ar_base ?a) (push_bit al 1)"
  let ?off = "unat ((?rb - ar_base ?a) div PAGE_SIZE)"
  have ok: "arena_ok ?a" using inv a by (simp add: pmm_inv_def)
  have sz': "0 < cnt" "cnt < 2 ^ 30" "12 \<le> al" "al < 32" "arena_pages ?a < 2 ^ 31" using sz a by (simp_all add: contig_sizes_def)
  note ra = run_aligned [OF ok sz'(3,4)]
  have hr: "has_run cnt al s a k \<longleftrightarrow> ar_flags ?a AND PMM_ARENA_FLAG_KMAP \<noteq> 0 \<and> 2 ^ al dvd unat (ar_base ?a) + 4096 * k \<and> run_free ?a k cnt" for k
    using run_free_pages [OF inv a, of k cnt] a by (auto simp: has_run_def run_free_def)
  show ?thesis
  proof (cases "ar_flags ?a AND PMM_ARENA_FLAG_KMAP = 0 \<or> ?rb < ar_base ?a \<or> ?rb > ar_base ?a + ar_size ?a - 1")
    case True
    then have "contig_in_arena ?a cnt al = Some None" by (auto simp: contig_in_arena_def Let_def)
    moreover have "\<not> has_run cnt al s a k" for k
      using True ra sz'(1) unfolding hr by (auto simp: run_free_def split: if_splits)
    ultimately show ?thesis by simp
  next
    case False
    then have off: "?off < 2 ^ 20" "?off < arena_pages ?a"
      and al: "2 ^ al dvd unat (ar_base ?a) + 4096 * k \<longleftrightarrow> ?off \<le> k \<and> 2 ^ (al - 12) dvd k - ?off" for k
      using ra by (simp_all split: if_splits)
    have u: "u32_of ?off = ?off" using off(1) by (intro u32_of_id) simp
    have "?off < 2 ^ 31 + 2 ^ 20" "arena_pages ?a < ?off + Suc (arena_pages ?a)" using off(1) by simp_all
    moreover have "2 ^ (al - 12) dvd ?off - ?off" "0 < Suc (arena_pages ?a)" by simp_all
    ultimately have fr: "2 ^ (al - 12) dvd ?off - ?off" "?off < 2 ^ 31 + 2 ^ 20" "arena_pages ?a < ?off + Suc (arena_pages ?a)"
      "0 < Suc (arena_pages ?a)" by blast+
    from find_run_ok [OF sz'(5,1-4) order_refl fr] obtain r where
      r: "find_run (Suc (arena_pages ?a)) ?a cnt al ?off ?off = Some r"
        "case r of Some k \<Rightarrow> ?off \<le> k \<and> 2 ^ (al - 12) dvd k - ?off \<and> run_free ?a k cnt
         | None \<Rightarrow> \<forall>k \<ge> ?off. 2 ^ (al - 12) dvd k - ?off \<longrightarrow> \<not> run_free ?a k cnt" by blast
    have nn: "ar_flags ?a AND PMM_ARENA_FLAG_KMAP \<noteq> 0" "\<not> ?rb < ar_base ?a" "\<not> ?rb > ar_base ?a + ar_size ?a - 1" using False by blast+
    have "contig_in_arena ?a cnt al = Some r"
      by (simp only: contig_in_arena_def Let_def nn simp_thms if_False u r(1))
    moreover have "case r of Some k \<Rightarrow> has_run cnt al s a k | None \<Rightarrow> \<forall>k. \<not> has_run cnt al s a k"
      using r(2) False unfolding hr al by (cases r) auto
    ultimately show ?thesis by blast
  qed
qed

lemma contig_in_arenas_ok:
  assumes inv: "pmm_inv s" and sz: "contig_sizes cnt al s" and as: "set as \<subseteq> set (arena_list s)"
  shows "\<exists>r. contig_in_arenas as cnt al s = Some r \<and>
     (case r of Some (a, k) \<Rightarrow> has_run cnt al s a k | None \<Rightarrow> \<forall>a \<in> set as. \<forall>k. \<not> has_run cnt al s a k)"
  using as
proof (induction as)
  case Nil
  then show ?case by simp
next
  case (Cons a as)
  then have a: "a \<in> set (arena_list s)" by simp
  from contig_in_arena_ok [OF inv sz a] obtain r where
    r: "contig_in_arena (arenas s a) cnt al = Some r" "case r of Some k \<Rightarrow> has_run cnt al s a k | None \<Rightarrow> \<forall>k. \<not> has_run cnt al s a k"
    by blast
  from Cons obtain r' where r': "contig_in_arenas as cnt al s = Some r'"
    "case r' of Some (a, k) \<Rightarrow> has_run cnt al s a k | None \<Rightarrow> \<forall>a \<in> set as. \<forall>k. \<not> has_run cnt al s a k" by auto
  show ?case using r r' by (cases r; cases r') auto
qed

lemma take_run_ok:
  assumes "pmm_inv s" and "distinct is" and "\<forall>i \<in> set is. (a, i) \<in> free_pages s"
  shows "\<exists>s'. take_run a is s = Some s' \<and> taken (map (Pair a) is) s s'"
  using assms
proof (induction "is" arbitrary: s)
  case Nil
  then show ?case by (simp add: taken_Nil)
next
  case (Cons i js)
  then have p: "(a, i) \<in> free_pages s" by simp
  then have al: "a \<in> set (arena_list s)" "i \<in> set (free_list (arenas s a))" by (simp_all add: free_pages_def)
  then have fr: "page_is_free (page_array (arenas s a) ! i)" using Cons.prems(1) by (simp add: pmm_inv_def arena_ok_def)
  note t = take_page_ok [OF Cons.prems(1) p]
  have "\<forall>j \<in> set js. (a, j) \<in> free_pages (take_page (a, i) s)" using Cons.prems(2,3) unfolding t(2) by auto
  from Cons.IH [OF t(1) _ this] Cons.prems(2) obtain s' where
    s': "take_run a js (take_page (a, i) s) = Some s'" "taken (map (Pair a) js) (take_page (a, i) s) s'" by auto
  have "taken (map (Pair a) (i # js)) s s'" using taken_Cons [OF Cons.prems(1) p s'(2)] by simp
  then show ?case using s'(1) al fr by simp
qed

lemma page_address:
  assumes "arena_ok a" and "k < arena_pages a"
  shows "unat (ar_base a + of_nat k * PAGE_SIZE) = unat (ar_base a) + 4096 * k"
    "unat (ar_base a) + 4096 * k < unat (ar_base a) + unat (ar_size a)"
proof -
  have o: "unat (ar_base a) + unat (ar_size a) \<le> 2 ^ 64" using assms by (simp add: arena_ok_def)
  have "4096 * k < unat (ar_size a)" using assms(2) by (simp add: arena_pages_unat)
  then have lt: "unat (ar_base a) + 4096 * k < 2 ^ 64" "4096 * k < 2 ^ 64" using o by linarith+
  have "unat (of_nat k :: u64) = k" unfolding unat_of_nat by (rule mod_less) (use lt in simp)
  then have "unat (of_nat k * PAGE_SIZE :: u64) = 4096 * k" unfolding unat_word_ariths using lt by (simp add: mult.commute)
  then show "unat (ar_base a + of_nat k * PAGE_SIZE) = unat (ar_base a) + 4096 * k"
    unfolding unat_word_ariths(1) using lt by simp
  show "unat (ar_base a) + 4096 * k < unat (ar_base a) + unat (ar_size a)" using \<open>4096 * k < unat (ar_size a)\<close> by simp
qed

lemma pmm_alloc_contiguous_ok:
  assumes inv: "pmm_inv s" and sz: "contig_sizes cnt (max 12 al) s"
  shows "\<exists>n pa l' s'. pmm_alloc_contiguous cnt al (Some l) s = Some (n, pa, l', s') \<and>
     (if \<exists>a k. has_run cnt (max 12 al) s a k
      then \<exists>a k. n = cnt \<and> has_run cnt (max 12 al) s a k \<and> taken (map (Pair a) [k..<k + cnt]) s s' \<and>
        l' = Some (l @ map (Pair a) [k..<k + cnt]) \<and>
        (\<exists>p. pa = Some p \<and> unat p = unat (ar_base (arenas s a)) + 4096 * k \<and> 2 ^ max 12 al dvd unat p)
      else n = 0 \<and> pa = None \<and> l' = Some l \<and> s' = s)"
proof -
  let ?al = "max 12 al"
  have e: "(if al < PAGE_SIZE_SHIFT then PAGE_SIZE_SHIFT else al) = ?al" by (simp add: PAGE_SIZE_SHIFT_def max_def)
  have c0: "cnt \<noteq> 0" using sz by (simp add: contig_sizes_def)
  from contig_in_arenas_ok [OF inv sz order_refl] obtain r where r: "contig_in_arenas (arena_list s) cnt ?al s = Some r"
    "case r of Some (a, k) \<Rightarrow> has_run cnt ?al s a k | None \<Rightarrow> \<forall>a \<in> set (arena_list s). \<forall>k. \<not> has_run cnt ?al s a k" by blast
  show ?thesis
  proof (cases r)
    case None
    then have "\<not> (\<exists>a k. has_run cnt ?al s a k)" using r(2) by (auto simp: has_run_def)
    moreover have "pmm_alloc_contiguous cnt al (Some l) s = Some (0, None, Some l, s)"
      using r(1) None c0 by (simp add: pmm_alloc_contiguous_def e)
    ultimately show ?thesis by auto
  next
    case (Some ak)
    then obtain a k where k: "r = Some (a, k)" "has_run cnt ?al s a k" using r(2) by (cases ak) auto
    then have al: "a \<in> set (arena_list s)" "k < arena_pages (arenas s a)" using c0 by (simp_all add: has_run_def)
    have "\<forall>i \<in> set [k..<k + cnt]. (a, i) \<in> free_pages s"
    proof
      fix i assume "i \<in> set [k..<k + cnt]"
      then have "i - k < cnt" "i = k + (i - k)" by auto
      then show "(a, i) \<in> free_pages s" using k(2) unfolding has_run_def by metis
    qed
    from take_run_ok [OF inv distinct_upt this] obtain s' where
      s': "take_run a [k..<k + cnt] s = Some s'" "taken (map (Pair a) [k..<k + cnt]) s s'" by blast
    have sb: "ar_base (arenas s' a) = ar_base (arenas s a)" using s'(2) by (simp add: taken_def same_pmm_def same_arena_def)
    have ok: "arena_ok (arenas s a)" using inv al by (simp add: pmm_inv_def)
    note pa = page_address(1) [OF ok al(2)]
    have dv: "2 ^ ?al dvd unat (ar_base (arenas s a) + of_nat k * PAGE_SIZE)" using k(2) unfolding pa by (simp add: has_run_def)
    have "pmm_alloc_contiguous cnt al (Some l) s = Some (cnt, Some (ar_base (arenas s a) + of_nat k * PAGE_SIZE),
        Some (l @ map (Pair a) [k..<k + cnt]), s')"
      using r(1) k(1) c0 s'(1) sb by (simp add: pmm_alloc_contiguous_def e del: upt_Suc)
    moreover have "\<exists>a k. has_run cnt ?al s a k" using k(2) by blast
    ultimately show ?thesis using k(2) s'(2) pa dv by (simp del: max_def) blast
  qed
qed

section \<open>Pages and addresses\<close>

lemma paddr_round_trip:
  assumes inv: "pmm_inv s" and p: "p \<in> all_pages s"
  shows "paddr_to_vm_page (vm_page_to_paddr p s) s = Some p" "4096 dvd unat (vm_page_to_paddr p s)"
proof -
  obtain a k where e: "p = (a, k)" "a \<in> set (arena_list s)" "k < arena_pages (arenas s a)" using p by (auto simp: all_pages_def)
  let ?addr = "ar_base (arenas s a) + of_nat k * PAGE_SIZE"
  have okb: "arena_ok (arenas s b)" if "b \<in> set (arena_list s)" for b using inv that by (simp add: pmm_inv_def)
  note ad = page_address [OF okb [OF e(2)] e(3)]
  have v: "vm_page_to_paddr p s = ?addr"
    using find_belongs [OF inv p] by (simp add: vm_page_to_paddr_def PAGE_ADDRESS_FROM_ARENA_def e(1) add.commute)
  have inn: "(?addr \<ge> ar_base (arenas s b) \<and> ?addr \<le> ar_base (arenas s b) + ar_size (arenas s b) - 1) \<longleftrightarrow> b = a"
    if b: "b \<in> set (arena_list s)" for b
  proof -
    have ob: "0 < unat (ar_size (arenas s b))" "unat (ar_base (arenas s b)) + unat (ar_size (arenas s b)) \<le> 2 ^ 64"
      using okb [OF b] by (simp_all add: arena_ok_def)
    note l = unat_last [OF ob]
    have "unat (ar_base (arenas s a)) + unat (ar_size (arenas s a)) \<le> unat (ar_base (arenas s b)) \<or>
        unat (ar_base (arenas s b)) + unat (ar_size (arenas s b)) \<le> unat (ar_base (arenas s a))" if "b \<noteq> a"
      using inv b e(2) that by (auto simp: pmm_inv_def)
    then show ?thesis using ad ob unfolding word_le_nat_alt l by fastforce
  qed
  have "List.find (\<lambda>b. ?addr \<ge> ar_base (arenas s b) \<and> ?addr \<le> ar_base (arenas s b) + ar_size (arenas s b) - 1) bs = Some a"
    if "a \<in> set bs" "set bs \<subseteq> set (arena_list s)" for bs
    using that
  proof (induction bs)
    case (Cons b bs)
    then show ?case using inn [of b] by (cases "b = a") simp_all
  qed simp
  then have f: "List.find (\<lambda>b. ?addr \<ge> ar_base (arenas s b) \<and> ?addr \<le> ar_base (arenas s b) + ar_size (arenas s b) - 1) (arena_list s) = Some a"
    using e(2) by simp
  have "unat (of_nat k * PAGE_SIZE :: u64) = 4096 * k"
    using ad(1) by (metis add_diff_cancel_left' ad(1) unat_sub word_le_nat_alt le_add1)
  then have "unat ((?addr - ar_base (arenas s a)) div PAGE_SIZE) = k" by (simp add: unat_div)
  then show "paddr_to_vm_page (vm_page_to_paddr p s) s = Some p" unfolding v paddr_to_vm_page_def f by (simp add: e(1))
  have "4096 dvd unat (ar_base (arenas s a))" using okb [OF e(2)] by (simp add: arena_ok_def mod_eq_0_iff_dvd)
  then show "4096 dvd unat (vm_page_to_paddr p s)" unfolding v ad(1) by simp
qed

section \<open>Ranges\<close>

lemma range_from_arena_ok:
  assumes "pmm_inv s" and "a \<in> set (arena_list s)"
  shows "\<exists>ps ad s'. range_from_arena a n address s = Some (ps, ad, s') \<and> taken ps s s' \<and> length ps \<le> n"
  using assms
proof (induction n arbitrary: address s)
  case 0
  then show ?case by (simp add: taken_Nil)
next
  case (Suc n)
  let ?a = "arenas s a"
  let ?i = "unat ((address - ar_base ?a) div PAGE_SIZE)"
  have ok: "arena_ok ?a" using Suc.prems by (simp add: pmm_inv_def)
  then have o: "0 < unat (ar_size ?a)" "unat (ar_base ?a) + unat (ar_size ?a) \<le> 2 ^ 64" "unat (ar_size ?a) mod 4096 = 0"
    by (simp_all add: arena_ok_def)
  show ?case
  proof (cases "ADDRESS_IN_ARENA address ?a")
    case False
    then show ?thesis using Suc.prems by (simp add: taken_Nil)
  next
    case True
    then have "unat (ar_base ?a) \<le> unat address" "unat address \<le> unat (ar_base ?a) + unat (ar_size ?a) - 1"
      unfolding ADDRESS_IN_ARENA_def word_le_nat_alt unat_last [OF o(1,2)] by simp_all
    then have "unat (address - ar_base ?a) < unat (ar_size ?a)" using o(1) by (simp add: unat_sub word_le_nat_alt)
    then have ix: "?i < arena_pages ?a" using o(3) unfolding arena_pages_unat unat_div unat_PAGE_SIZE
      by (metis div_less_dividend div_le_mono less_mult_imp_div_less mod_eq_0_iff_dvd dvd_div_mult_self)
    show ?thesis
    proof (cases "page_is_free (page_array ?a ! ?i)")
      case False
      then show ?thesis using True ix Suc.prems by (simp add: taken_Nil Let_def)
    next
      case fr: True
      then have fl: "?i \<in> set (free_list ?a)" using ok ix by (simp add: arena_ok_def)
      then have p: "(a, ?i) \<in> free_pages s" using Suc.prems by (simp add: free_pages_def)
      have al: "a \<in> set (arena_list (take_page (a, ?i) s))" using Suc.prems by (simp add: take_page_def)
      from Suc.IH [OF take_page_ok(1) [OF Suc.prems(1) p] al, of "address + PAGE_SIZE"] obtain ps ad s' where
        r: "range_from_arena a n (address + PAGE_SIZE) (take_page (a, ?i) s) = Some (ps, ad, s')"
          "taken ps (take_page (a, ?i) s) s'" "length ps \<le> n" by blast
      have "range_from_arena a (Suc n) address s = Some ((a, ?i) # ps, ad, s')" using True ix fr fl r(1) by (simp add: Let_def)
      moreover note taken_Cons [OF Suc.prems(1) p r(2)]
      ultimately show ?thesis using r(3) by auto
    qed
  qed
qed

lemma range_from_arenas_ok:
  assumes "pmm_inv s" and "set as \<subseteq> set (arena_list s)"
  shows "\<exists>ps s'. range_from_arenas as n address s = Some (ps, s') \<and> taken ps s s' \<and> length ps \<le> n"
  using assms
proof (induction as arbitrary: n address s)
  case Nil
  then show ?case by (simp add: taken_Nil)
next
  case (Cons a as)
  have a: "a \<in> set (arena_list s)" using Cons.prems by simp
  from range_from_arena_ok [OF Cons.prems(1) a, of n address] obtain ps ad s1 where
    r: "range_from_arena a n address s = Some (ps, ad, s1)" "taken ps s s1" "length ps \<le> n" by blast
  have "pmm_inv s1" "set as \<subseteq> set (arena_list s1)" using r(2) Cons.prems by (simp_all add: taken_def same_pmm_def)
  from Cons.IH [OF this, of "n - length ps" ad] obtain qs s2 where
    q: "range_from_arenas as (n - length ps) ad s1 = Some (qs, s2)" "taken qs s1 s2" "length qs \<le> n - length ps" by blast
  show ?case using r q taken_append [OF r(2) q(2)] by (cases "length ps = n") auto
qed

lemma pmm_alloc_range_ok:
  assumes "pmm_inv s"
  shows "\<exists>ps s'. pmm_alloc_range address cnt l s = Some (length ps, l @ ps, s') \<and> taken ps s s' \<and> length ps \<le> cnt"
proof (cases "cnt = 0")
  case True
  then show ?thesis using assms by (simp add: pmm_alloc_range_def taken_Nil)
next
  case False
  from range_from_arenas_ok [OF assms order_refl, of cnt "ROUNDDOWN address PAGE_SIZE"] obtain ps s' where
    "range_from_arenas (arena_list s) cnt (ROUNDDOWN address PAGE_SIZE) s = Some (ps, s')" "taken ps s s'" "length ps \<le> cnt" by blast
  then show ?thesis using False by (intro exI [of _ ps] exI [of _ s']) (simp add: pmm_alloc_range_def)
qed

section \<open>The interface of a page allocator\<close>

text \<open>
  What the virtual memory manager relies on: pages are handed out once, and what comes back can be handed
  out again.
\<close>

locale page_allocator =
  fixes inv :: "'s \<Rightarrow> bool" and free :: "'s \<Rightarrow> 'p set" and owned :: "'s \<Rightarrow> 'p set"
    and alloc :: "nat \<Rightarrow> 's \<Rightarrow> 'p list \<times> 's" and release :: "'p list \<Rightarrow> 's \<Rightarrow> 's option"
  assumes free_owned: "inv s \<Longrightarrow> free s \<subseteq> owned s"
    and alloc_law: "inv s \<Longrightarrow> alloc n s = (ps, s') \<Longrightarrow>
      distinct ps \<and> length ps \<le> n \<and> set ps \<subseteq> free s \<and> free s' = free s - set ps \<and> owned s' = owned s \<and> inv s'"
    and release_law: "inv s \<Longrightarrow> distinct ps \<Longrightarrow> set ps \<subseteq> owned s - free s \<Longrightarrow>
      \<exists>s'. release ps s = Some s' \<and> free s' = free s \<union> set ps \<and> owned s' = owned s \<and> inv s'"
begin

lemma alloc_release:
  assumes "inv s" and "alloc n s = (ps, s1)"
  shows "\<exists>s2. release ps s1 = Some s2 \<and> free s2 = free s \<and> owned s2 = owned s \<and> inv s2"
proof -
  note a = alloc_law [OF assms]
  have "set ps \<subseteq> owned s1 - free s1" using a free_owned [OF assms(1)] by auto
  from release_law [OF _ _ this] a show ?thesis by auto
qed

lemma alloc_alloc:
  assumes "inv s" and "alloc n s = (ps, s1)" and "alloc m s1 = (qs, s2)"
  shows "set ps \<inter> set qs = {}"
  using alloc_law [OF assms(1,2)] alloc_law [OF _ assms(3)] by auto

lemma alloc_twice_release:
  assumes "inv s" and "alloc n s = (ps, s1)" and "alloc m s1 = (qs, s2)"
  shows "\<exists>s3. release (ps @ qs) s2 = Some s3 \<and> free s3 = free s \<and> inv s3"
proof -
  note a = alloc_law [OF assms(1,2)]
  have i1: "inv s1" using a by simp
  note b = alloc_law [OF i1 assms(3)]
  have "distinct (ps @ qs)" "set (ps @ qs) \<subseteq> owned s2 - free s2"
    using a b alloc_alloc [OF assms] free_owned [OF assms(1)] by auto
  from release_law [OF _ this] a b show ?thesis by auto
qed

end

lemma free_pages_all: "pmm_inv s \<Longrightarrow> free_pages s \<subseteq> all_pages s"
  by (auto simp: free_pages_def all_pages_def pmm_inv_def arena_ok_def)

interpretation pmm: page_allocator pmm_inv free_pages all_pages
  "\<lambda>n s. case pmm_alloc_pages n [] s of (_, ps, s') \<Rightarrow> (ps, s')" "\<lambda>ps s. map_option snd (pmm_free ps s)"
proof
  fix s :: "'a pmm_state_scheme" and n ps s'
  assume i: "pmm_inv s"
  show "free_pages s \<subseteq> all_pages s" using i by (rule free_pages_all)
  show "distinct ps \<and> length ps \<le> n \<and> set ps \<subseteq> free_pages s \<and> free_pages s' = free_pages s - set ps \<and> all_pages s' = all_pages s \<and> pmm_inv s'"
    if "(case pmm_alloc_pages n [] s of (_, ps, s') \<Rightarrow> (ps, s')) = (ps, s')"
  proof -
    obtain k l s1 where e: "pmm_alloc_pages n [] s = (k, l, s1)" by (rule prod_cases3)
    from pmm_alloc_pages_ok [OF i e] that e have "taken ps s s'" "length ps \<le> n" by auto
    then show ?thesis by (simp add: taken_def same_pmm_pages)
  qed
  show "\<exists>s'. map_option snd (pmm_free ps s) = Some s' \<and> free_pages s' = free_pages s \<union> set ps \<and> all_pages s' = all_pages s \<and> pmm_inv s'"
    if "distinct ps" "set ps \<subseteq> all_pages s - free_pages s"
    using pmm_free_ok [OF i that] same_pmm_pages by auto
qed

section \<open>A concrete memory\<close>

text \<open>Arena 0 has four pages of which the first is in use, arena 1 has eight free ones.\<close>

definition demo_arena :: "u64 \<Rightarrow> nat \<Rightarrow> nat list \<Rightarrow> pmm_arena" where
  "demo_arena base n used = \<lparr>ar_name = ''ram'', ar_flags = 1, ar_priority = 0, ar_base = base, ar_size = of_nat n * 4096,
     free_count = of_nat (n - length used),
     page_array = map (\<lambda>i. \<lparr>vp_flags = (if i \<in> set used then 1 else 0), vp_ref = 0\<rparr>) [0..<n],
     free_list = filter (\<lambda>i. i \<notin> set used) [0..<n]\<rparr>"

definition demo_pmm :: pmm_state where
  "demo_pmm = \<lparr>arenas = (\<lambda>a. if a = 0 then demo_arena 0x80000000 4 [0] else demo_arena 0x90000000 8 []),
     arena_list = [0, 1], boot_alloc_end = 0x80100000\<rparr>"

lemma demo_arenas [simp]:
  "arenas demo_pmm a = (if a = 0 then demo_arena 0x80000000 4 [0] else demo_arena 0x90000000 8 [])" "arena_list demo_pmm = [0, 1]"
  by (simp_all add: demo_pmm_def)

lemma demo_arena_ok:
  assumes "set used \<subseteq> {..<n}" and "distinct used" and "n < 2 ^ 31" and "unat base mod 4096 = 0" and "0 < n"
    and "unat base + n * 4096 \<le> 2 ^ 64"
  shows "arena_ok (demo_arena base n used)" "arena_pages (demo_arena base n used) = n"
    "unat (ar_size (demo_arena base n used)) = n * 4096"
proof -
  have n: "unat (of_nat n :: u64) = n" unfolding unat_of_nat by (rule mod_less) (use assms(3) in simp)
  have sz: "unat (of_nat n * 4096 :: u64) = n * 4096" unfolding unat_word_ariths n using assms(3) by simp
  show ap: "arena_pages (demo_arena base n used) = n" by (simp add: arena_pages_unat demo_arena_def sz)
  show "unat (ar_size (demo_arena base n used)) = n * 4096" by (simp add: demo_arena_def sz)
  have "filter (\<lambda>i. i \<notin> set used) [0..<n] = filter (\<lambda>i. i \<in> {..<n} - set used) [0..<n]" by (rule filter_cong) auto
  moreover have "card ({..<n} - set used) = n - length used"
    using assms(1,2) by (simp add: card_Diff_subset distinct_card)
  moreover have "length (filter (\<lambda>i. i \<notin> set used) [0..<n]) = card (set (filter (\<lambda>i. i \<notin> set used) [0..<n]))"
    by (rule distinct_card [symmetric]) simp
  moreover have "set (filter (\<lambda>i. i \<notin> set used) [0..<n]) = {..<n} - set used" by auto
  ultimately have len: "length (filter (\<lambda>i. i \<notin> set used) [0..<n]) = n - length used" by simp
  have fc: "unat (of_nat (n - length used) :: u64) = n - length used" unfolding unat_of_nat by (rule mod_less) (use assms(3) in simp)
  show "arena_ok (demo_arena base n used)" unfolding arena_ok_def ap
    using assms by (auto simp: demo_arena_def sz len fc page_is_free_def VM_PAGE_FLAG_NONFREE_def)
qed

lemma demo_0: "arena_ok (demo_arena 0x80000000 4 [0])" "arena_pages (demo_arena 0x80000000 4 [0]) = 4"
    "unat (ar_size (demo_arena 0x80000000 4 [0])) = 4 * 4096"
  by (rule demo_arena_ok; simp)+

lemma demo_1: "arena_ok (demo_arena 0x90000000 8 [])" "arena_pages (demo_arena 0x90000000 8 []) = 8"
    "unat (ar_size (demo_arena 0x90000000 8 [])) = 8 * 4096"
  by (rule demo_arena_ok; simp)+

lemma demo_pmm_inv: "pmm_inv demo_pmm"
  unfolding pmm_inv_def by (simp add: demo_0 demo_1) (simp add: demo_arena_def)

lemma demo_free: "free_list (demo_arena 0x80000000 4 [0]) = [1, 2, 3]" "free_list (demo_arena 0x90000000 8 []) = [0, 1, 2, 3, 4, 5, 6, 7]"
  by (simp_all add: demo_arena_def upt_rec)

section \<open>Properties\<close>

text \<open>
  C30: \<^verbatim>\<open>pmm_alloc_pages\<close> hands out only free pages, each once, marks them in use and keeps the books (free lists,
  flags and counts agree); but it takes pages from the first arena only: it returns the smaller of the
  count and the free pages of that arena, whatever the other arenas have.
\<close>

theorem pmm_alloc_first_arena:
  assumes "pmm_inv s" and "pmm_alloc_pages cnt l s = (n, l', s')"
  shows "\<exists>ps. l' = l @ ps \<and> n = length ps \<and> n \<le> cnt \<and> taken ps s s' \<and>
     (case arena_list s of [] \<Rightarrow> ps = [] | a # _ \<Rightarrow> ps = map (Pair a) (take cnt (free_list (arenas s a))))"
  by (rule pmm_alloc_pages_ok [OF assms])

theorem pmm_alloc_first_arena_witness:
  "fst (pmm_alloc_pages 5 [] demo_pmm) = 3 \<and> card (free_pages demo_pmm) = 11"
proof
  obtain n l s where e: "pmm_alloc_pages 5 [] demo_pmm = (n, l, s)" by (rule prod_cases3)
  from pmm_alloc_first_arena [OF demo_pmm_inv e] show "fst (pmm_alloc_pages 5 [] demo_pmm) = 3" by (simp add: e demo_free)
  have "free_pages demo_pmm = Pair 0 ` set [1, 2, 3] \<union> Pair 1 ` set [0, 1, 2, 3, 4, 5, 6, 7]"
    by (auto simp: free_pages_def demo_free simp del: One_nat_def)
  moreover have "card \<dots> = card (Pair (0::nat) ` set [1, 2, 3 :: nat]) + card (Pair (1::nat) ` set [0, 1, 2, 3, 4, 5, 6, 7 :: nat])"
    by (rule card_Un_disjoint) auto
  ultimately show "card (free_pages demo_pmm) = 11" by (simp add: card_image inj_on_def)
qed

text \<open>
  C31: freeing undoes allocating: the pages of two allocations do not overlap, and giving the pages of both back makes
  exactly the pages free that were free before, all counts included.
\<close>

theorem pmm_free_undoes_alloc:
  assumes "pmm_inv s" and "pmm_alloc_pages n [] s = (k, ps, s1)" and "pmm_alloc_pages m [] s1 = (j, qs, s2)"
  shows "set ps \<inter> set qs = {} \<and> (\<exists>s3. pmm_free (ps @ qs) s2 = Some (k + j, s3) \<and> free_pages s3 = free_pages s \<and> pmm_inv s3)"
proof
  have i1: "pmm_inv s1" and k: "k = length ps" and j: "j = length qs"
    using pmm_alloc_pages_ok [OF assms(1,2)] pmm_alloc_pages_ok [OF _ assms(3)] by (auto simp: taken_def)
  have a: "(case pmm_alloc_pages n [] s of (_, ps, s') \<Rightarrow> (ps, s')) = (ps, s1)" "(case pmm_alloc_pages m [] s1 of (_, ps, s') \<Rightarrow> (ps, s')) = (qs, s2)"
    using assms by simp_all
  show "set ps \<inter> set qs = {}" by (rule pmm.alloc_alloc [OF assms(1) a])
  note l1 = pmm.alloc_law [OF assms(1) a(1)] and l2 = pmm.alloc_law [OF i1 a(2)]
  have "distinct (ps @ qs)" "set (ps @ qs) \<subseteq> all_pages s2 - free_pages s2"
    using l1 l2 pmm.alloc_alloc [OF assms(1) a] free_pages_all [OF assms(1)] by auto
  from pmm_free_ok [OF _ this] l2 obtain s3 where s3: "pmm_free (ps @ qs) s2 = Some (length (ps @ qs), s3)" by blast
  with pmm.alloc_twice_release [OF assms(1) a] show "\<exists>s3. pmm_free (ps @ qs) s2 = Some (k + j, s3) \<and> free_pages s3 = free_pages s \<and> pmm_inv s3"
    by (auto simp: k j)
qed

theorem pmm_free_undoes_alloc_witness:
  "\<exists>k ps s1 j qs s2 s3. pmm_alloc_pages 2 [] demo_pmm = (k, ps, s1) \<and> pmm_alloc_pages 2 [] s1 = (j, qs, s2) \<and>
     pmm_free (ps @ qs) s2 = Some (k + j, s3) \<and> free_pages s3 = free_pages demo_pmm"
proof -
  obtain k ps s1 where e1: "pmm_alloc_pages 2 [] demo_pmm = (k, ps, s1)" by (rule prod_cases3)
  obtain j qs s2 where e2: "pmm_alloc_pages 2 [] s1 = (j, qs, s2)" by (rule prod_cases3)
  from pmm_free_undoes_alloc [OF demo_pmm_inv e1 e2] e1 e2 show ?thesis by blast
qed

text \<open>
  \<^verbatim>\<open>pmm_alloc_contiguous\<close> finds a run whenever there is one: if some arena that is mapped into the kernel has \<open>cnt\<close>
  free pages in a row starting at an address with the alignment asked for, it returns such a run, the
  address is the run's and has the alignment, and exactly these pages are taken; otherwise it
  returns 0 and changes nothing. The search ends, and never reads outside of a page array, for runs shorter than \<open>2 ^ 30\<close> pages.
\<close>

theorem pmm_alloc_contiguous_finds:
  assumes "pmm_inv s" and "contig_sizes cnt (max 12 al) s"
  shows "\<exists>n pa l' s'. pmm_alloc_contiguous cnt al (Some l) s = Some (n, pa, l', s') \<and>
     (if \<exists>a k. has_run cnt (max 12 al) s a k
      then \<exists>a k. n = cnt \<and> has_run cnt (max 12 al) s a k \<and> taken (map (Pair a) [k..<k + cnt]) s s' \<and>
        l' = Some (l @ map (Pair a) [k..<k + cnt]) \<and>
        (\<exists>p. pa = Some p \<and> unat p = unat (ar_base (arenas s a)) + 4096 * k \<and> 2 ^ max 12 al dvd unat p)
      else n = 0 \<and> pa = None \<and> l' = Some l \<and> s' = s)"
  by (rule pmm_alloc_contiguous_ok [OF assms])

end
