(* ===== verification/LK_Vmm.thy ===== *)
theory LK_Vmm
  imports LK_Pmm
begin

text \<open>
  The virtual memory manager: \<^verbatim>\<open>kernel/vm/vmm.c\<close> and \<^verbatim>\<open>kernel/vm/vm.c\<close>. An address space is a list of
  regions in the order of their addresses; the structures of regions live in one list only, so they are
  values. The calls of the page table code (\<^verbatim>\<open>arch_mmu_map\<close> and the like) are recorded in the order they are
  made; what \<^verbatim>\<open>arch_mmu_query\<close> and \<^verbatim>\<open>arch_mmu_init_aspace\<close> return, and whether \<^verbatim>\<open>calloc\<close> finds memory, are
  arguments. Every operation runs under one mutex. \<open>thread_aspace\<close> is the field of the current thread.
\<close>

section \<open>Data\<close>

definition VMM_ASPACE_FLAG_KERNEL :: u32 where "VMM_ASPACE_FLAG_KERNEL = 1"
definition VMM_REGION_FLAG_RESERVED :: u32 where "VMM_REGION_FLAG_RESERVED = 1"
definition VMM_REGION_FLAG_PHYSICAL :: u32 where "VMM_REGION_FLAG_PHYSICAL = 2"
definition VMM_FLAG_VALLOC_SPECIFIC :: u32 where "VMM_FLAG_VALLOC_SPECIFIC = 1"
definition MMU_INITIAL_MAPPING_TEMPORARY :: u32 where "MMU_INITIAL_MAPPING_TEMPORARY = 1"
definition ARCH_ASPACE_FLAG_KERNEL :: u32 where "ARCH_ASPACE_FLAG_KERNEL = 1"
definition KERNEL_ASPACE_BASE :: u64 where "KERNEL_ASPACE_BASE = 0xffff000000000000"
definition KERNEL_ASPACE_SIZE :: u64 where "KERNEL_ASPACE_SIZE = 0x0001000000000000"
definition USER_ASPACE_BASE :: u64 where "USER_ASPACE_BASE = 0x0000000001000000"
definition USER_ASPACE_SIZE :: u64 where "USER_ASPACE_SIZE = 0x0000fffffe000000"

record vmm_region =
  rg_name :: string
  rg_flags :: u32
  rg_arch_mmu_flags :: u32
  rg_base :: u64
  rg_size :: u64
  rg_page_list :: "page list"

record vmm_aspace =
  as_name :: string
  as_flags :: u32
  as_base :: u64
  as_size :: u64
  region_list :: "vmm_region list"

record mmu_initial_mapping =
  map_phys :: u64
  map_virt :: u64
  map_size :: u64
  map_flags :: u32
  map_name :: string

datatype mmu_call =
  Mmu_init_aspace nat u64 u64 u32 | Mmu_map nat u64 u64 nat u32 | Mmu_unmap nat u64 nat |
  Mmu_destroy_aspace nat | Mmu_context_switch "nat option"

record vmm_state = pmm_state +
  aspaces :: "nat \<Rightarrow> vmm_aspace"
  aspace_list :: "nat list"
  thread_aspace :: "nat option"
  mmu_calls :: "mmu_call list"

text \<open>The kernel address space is number 0.\<close>

definition kernel_aspace :: nat where "kernel_aspace = 0"

definition upd_aspace :: "nat \<Rightarrow> (vmm_aspace \<Rightarrow> vmm_aspace) \<Rightarrow> 'a vmm_state_scheme \<Rightarrow> 'a vmm_state_scheme" where
  "upd_aspace x f s = s\<lparr>aspaces := (aspaces s)(x := f (aspaces s x))\<rparr>"

definition mmu_call :: "mmu_call \<Rightarrow> 'a vmm_state_scheme \<Rightarrow> 'a vmm_state_scheme" where
  "mmu_call c s = s\<lparr>mmu_calls := mmu_calls s @ [c]\<rparr>"

definition strlcpy32 :: "string \<Rightarrow> string" where "strlcpy32 s = take 31 s"

definition vmm_init_preheap :: "'a vmm_state_scheme \<Rightarrow> 'a vmm_state_scheme" where
  "vmm_init_preheap s =
     (let s = upd_aspace kernel_aspace (\<lambda>_. \<lparr>as_name = ''kernel'', as_flags = VMM_ASPACE_FLAG_KERNEL, as_base = KERNEL_ASPACE_BASE,
                as_size = KERNEL_ASPACE_SIZE, region_list = []\<rparr>) s;
          s = mmu_call (Mmu_init_aspace kernel_aspace KERNEL_ASPACE_BASE KERNEL_ASPACE_SIZE ARCH_ASPACE_FLAG_KERNEL) s
      in s\<lparr>aspace_list := kernel_aspace # aspace_list s\<rparr>)"

definition is_inside_aspace :: "vmm_aspace \<Rightarrow> u64 \<Rightarrow> bool" where
  "is_inside_aspace aspace vaddr \<longleftrightarrow> vaddr \<ge> as_base aspace \<and> vaddr \<le> as_base aspace + as_size aspace - 1"

definition is_region_inside_aspace :: "vmm_aspace \<Rightarrow> u64 \<Rightarrow> u64 \<Rightarrow> bool" where
  "is_region_inside_aspace aspace vaddr sz \<longleftrightarrow>
     (if \<not> is_inside_aspace aspace vaddr then False
      else if sz = 0 then True
      else if vaddr + sz - 1 < vaddr then False
      else if vaddr + sz - 1 > as_base aspace + as_size aspace - 1 then False
      else True)"

definition trim_to_aspace :: "vmm_aspace \<Rightarrow> u64 \<Rightarrow> u64 \<Rightarrow> u64 option" where
  "trim_to_aspace aspace vaddr sz =
     do {
       dassert (is_inside_aspace aspace vaddr);
       Some (if sz = 0 then sz
             else let offset = vaddr - as_base aspace;
                      sz = (if offset + sz < offset then -1 - offset - 1 else sz)
                  in if offset + sz \<ge> as_size aspace - 1 then as_size aspace - offset else sz)
     }"

section \<open>Regions\<close>

text \<open>\<open>mem\<close> says whether \<^verbatim>\<open>calloc\<close> finds memory.\<close>

definition alloc_region_struct :: "bool \<Rightarrow> string \<Rightarrow> u64 \<Rightarrow> u64 \<Rightarrow> u32 \<Rightarrow> u32 \<Rightarrow> vmm_region option" where
  "alloc_region_struct mem name base sz flags arch_mmu_flags =
     (if mem then Some \<lparr>rg_name = strlcpy32 name, rg_flags = flags, rg_arch_mmu_flags = arch_mmu_flags, rg_base = base, rg_size = sz,
        rg_page_list = []\<rparr> else None)"

definition rg_last :: "vmm_region \<Rightarrow> u64" where "rg_last r = rg_base r + rg_size r - 1"

fun add_after :: "vmm_region \<Rightarrow> vmm_region list \<Rightarrow> vmm_region list option" where
  "add_after r [] = None"
| "add_after r (l # rest) =
     (if rg_base r > rg_last l \<and> (case rest of [] \<Rightarrow> True | n # _ \<Rightarrow> rg_last r < rg_base n)
      then Some (l # r # rest)
      else map_option ((#) l) (add_after r rest))"

definition add_region_to_aspace :: "vmm_aspace \<Rightarrow> vmm_region \<Rightarrow> status_t \<times> vmm_aspace" where
  "add_region_to_aspace aspace r =
     (if rg_size r = 0 \<or> \<not> is_region_inside_aspace aspace (rg_base r) (rg_size r) then (ERR_OUT_OF_RANGE, aspace)
      else if (case region_list aspace of [] \<Rightarrow> True | l # _ \<Rightarrow> rg_last r < rg_base l)
      then (NO_ERROR, aspace\<lparr>region_list := r # region_list aspace\<rparr>)
      else (case add_after r (region_list aspace) of
              Some l \<Rightarrow> (NO_ERROR, aspace\<lparr>region_list := l\<rparr>)
            | None \<Rightarrow> (ERR_NO_MEMORY, aspace)))"

text \<open>The default of the weak symbol, which no architecture of the repository replaces.\<close>

definition arch_mmu_pick_spot :: "u64 \<Rightarrow> u64 \<Rightarrow> u64" where
  "arch_mmu_pick_spot base align = ROUNDUP base align"

text \<open>Whether to stop the search, and the spot; \<open>pva\<close> is the spot before.\<close>

definition check_gap :: "vmm_aspace \<Rightarrow> vmm_region option \<Rightarrow> vmm_region option \<Rightarrow> u64 \<Rightarrow> u64 \<Rightarrow> u64 \<Rightarrow> bool \<times> u64" where
  "check_gap aspace prev nxt pva align sz =
     (let gap_beg = (case prev of Some p \<Rightarrow> rg_base p + rg_size p | None \<Rightarrow> as_base aspace);
          try = (\<lambda>gap_end.
            let pva = arch_mmu_pick_spot gap_beg align in
            if pva < gap_beg then (True, -1)
            else if pva < gap_end \<and> gap_end - pva + 1 \<ge> sz then (True, pva)
            else (False, pva))
      in case nxt of
           Some n \<Rightarrow> if gap_beg = rg_base n then (False, pva) else try (rg_base n - 1)
         | None \<Rightarrow> if gap_beg = as_base aspace + as_size aspace then (True, -1) else try (as_base aspace + as_size aspace - 1))"

fun spot_walk :: "vmm_aspace \<Rightarrow> u64 \<Rightarrow> u64 \<Rightarrow> vmm_region option \<Rightarrow> u64 \<Rightarrow> nat \<Rightarrow> vmm_region list \<Rightarrow> u64 \<times> nat" where
  "spot_walk aspace align sz prev spot k [] =
     (case check_gap aspace prev None spot align sz of (stop, spot) \<Rightarrow> if stop then (spot, k) else (-1, k))"
| "spot_walk aspace align sz prev spot k (r # rs) =
     (case check_gap aspace prev (Some r) spot align sz of
        (stop, spot) \<Rightarrow> if stop then (spot, k) else spot_walk aspace align sz (Some r) spot (Suc k) rs)"

text \<open>The spot, and the number of regions that stay in front of it.\<close>

definition alloc_spot :: "vmm_aspace \<Rightarrow> u64 \<Rightarrow> nat \<Rightarrow> (u64 \<times> nat) option" where
  "alloc_spot aspace sz align_pow2 =
     do {
       dassert (sz > 0 \<and> IS_ALIGNED sz PAGE_SIZE);
       let align_pow2 = (if align_pow2 < PAGE_SIZE_SHIFT then PAGE_SIZE_SHIFT else align_pow2);
       Some (spot_walk aspace (push_bit align_pow2 1) sz None 0 0 (region_list aspace))
     }"

text \<open>The new region, when there is one, and its place in the list.\<close>

definition alloc_region :: "bool \<Rightarrow> vmm_aspace \<Rightarrow> string \<Rightarrow> u64 \<Rightarrow> u64 \<Rightarrow> nat \<Rightarrow> u32 \<Rightarrow> u32 \<Rightarrow> u32 \<Rightarrow> (vmm_region option \<times> vmm_aspace) option" where
  "alloc_region mem aspace name sz vaddr align_pow2 vmm_flags region_flags arch_mmu_flags =
     (case alloc_region_struct mem name vaddr sz region_flags arch_mmu_flags of
        None \<Rightarrow> Some (None, aspace)
      | Some r \<Rightarrow>
          if vmm_flags AND VMM_FLAG_VALLOC_SPECIFIC \<noteq> 0
          then (case add_region_to_aspace aspace r of
                  (st, aspace') \<Rightarrow> Some (if st < 0 then (None, aspace) else (Some r, aspace')))
          else do {
            (vaddr, k) \<leftarrow> alloc_spot aspace sz align_pow2;
            Some (if vaddr = -1 then (None, aspace)
                  else let r = r\<lparr>rg_base := vaddr\<rparr>
                       in (Some r, aspace\<lparr>region_list := take k (region_list aspace) @ r # drop k (region_list aspace)\<rparr>))
          })"

text \<open>Changing the region at \<open>base\<close> after it has been linked in.\<close>

definition set_pages :: "u64 \<Rightarrow> page list \<Rightarrow> vmm_aspace \<Rightarrow> vmm_aspace" where
  "set_pages base ps aspace =
     aspace\<lparr>region_list := map (\<lambda>r. if rg_base r = base then r\<lparr>rg_page_list := ps\<rparr> else r) (region_list aspace)\<rparr>"

section \<open>Allocating and freeing\<close>

text \<open>\<open>query\<close> is the flags \<^verbatim>\<open>arch_mmu_query\<close> finds for an address. A null name is the empty one.\<close>

definition vmm_reserve_space :: "bool \<Rightarrow> (nat \<Rightarrow> u64 \<Rightarrow> u32) \<Rightarrow> nat \<Rightarrow> string \<Rightarrow> u64 \<Rightarrow> u64 \<Rightarrow> 'a vmm_state_scheme \<Rightarrow>
    (status_t \<times> 'a vmm_state_scheme) option" where
  "vmm_reserve_space mem query x name sz vaddr s =
     do {
       dassert (IS_ALIGNED vaddr PAGE_SIZE);
       dassert (IS_ALIGNED sz PAGE_SIZE);
       if sz = 0 then Some (NO_ERROR, s)
       else if \<not> is_inside_aspace (aspaces s x) vaddr then Some (ERR_OUT_OF_RANGE, s)
       else do {
         sz \<leftarrow> trim_to_aspace (aspaces s x) vaddr sz;
         (r, aspace) \<leftarrow> alloc_region mem (aspaces s x) name sz vaddr 0 VMM_FLAG_VALLOC_SPECIFIC VMM_REGION_FLAG_RESERVED (query x vaddr);
         Some (if r \<noteq> None then NO_ERROR else ERR_NO_MEMORY, upd_aspace x (\<lambda>_. aspace) s)
       }
     }"

text \<open>\<open>ptr\<close> is the null pointer or what it points to; the result has what it points to afterwards.\<close>

definition vmm_alloc_physical :: "bool \<Rightarrow> nat \<Rightarrow> string \<Rightarrow> u64 \<Rightarrow> u64 option \<Rightarrow> nat \<Rightarrow> u64 \<Rightarrow> u32 \<Rightarrow> u32 \<Rightarrow> 'a vmm_state_scheme \<Rightarrow>
    (status_t \<times> u64 option \<times> 'a vmm_state_scheme) option" where
  "vmm_alloc_physical mem x name sz ptr align_log2 paddr vmm_flags arch_mmu_flags s =
     do {
       dassert (IS_ALIGNED paddr PAGE_SIZE);
       dassert (IS_ALIGNED sz PAGE_SIZE);
       if sz = 0 then Some (NO_ERROR, ptr, s)
       else if vmm_flags AND VMM_FLAG_VALLOC_SPECIFIC \<noteq> 0 \<and> ptr = None then Some (ERR_INVALID_ARGS, ptr, s)
       else do {
         let vaddr = (if vmm_flags AND VMM_FLAG_VALLOC_SPECIFIC \<noteq> 0 then the ptr else 0);
         (r, aspace) \<leftarrow> alloc_region mem (aspaces s x) name sz vaddr align_log2 vmm_flags VMM_REGION_FLAG_PHYSICAL arch_mmu_flags;
         (case r of
            None \<Rightarrow> Some (ERR_NO_MEMORY, ptr, s)
          | Some r \<Rightarrow>
              Some (NO_ERROR, map_option (\<lambda>_. rg_base r) ptr,
                mmu_call (Mmu_map x (rg_base r) paddr (u32_of (unat (sz div PAGE_SIZE))) arch_mmu_flags) (upd_aspace x (\<lambda>_. aspace) s)))
       }
     }"

definition vmm_alloc_contiguous :: "bool \<Rightarrow> nat \<Rightarrow> string \<Rightarrow> u64 \<Rightarrow> u64 option \<Rightarrow> nat \<Rightarrow> u32 \<Rightarrow> u32 \<Rightarrow> 'a vmm_state_scheme \<Rightarrow>
    (status_t \<times> u64 option \<times> 'a vmm_state_scheme) option" where
  "vmm_alloc_contiguous mem x name sz ptr align_pow2 vmm_flags arch_mmu_flags s =
     (let sz = ROUNDUP sz PAGE_SIZE; pages = unat (sz div PAGE_SIZE) in
      if sz = 0 then Some (ERR_INVALID_ARGS, ptr, s)
      else if vmm_flags AND VMM_FLAG_VALLOC_SPECIFIC \<noteq> 0 \<and> ptr = None then Some (ERR_INVALID_ARGS, ptr, s)
      else do {
        let vaddr = (if vmm_flags AND VMM_FLAG_VALLOC_SPECIFIC \<noteq> 0 then the ptr else 0);
        (n, pa, page_list, s) \<leftarrow> pmm_alloc_contiguous (u32_of pages) align_pow2 (Some []) s;
        if n < pages then do { dassert (n = 0); Some (ERR_NO_MEMORY, ptr, s) }
        else do {
          pa \<leftarrow> pa;
          page_list \<leftarrow> page_list;
          (r, aspace) \<leftarrow> alloc_region mem (aspaces s x) name sz vaddr align_pow2 vmm_flags VMM_REGION_FLAG_PHYSICAL arch_mmu_flags;
          (case r of
             None \<Rightarrow> do { (_, s) \<leftarrow> pmm_free page_list s; Some (ERR_NO_MEMORY, ptr, s) }
           | Some r \<Rightarrow>
               Some (NO_ERROR, map_option (\<lambda>_. rg_base r) ptr,
                 mmu_call (Mmu_map x (rg_base r) pa (u32_of pages) arch_mmu_flags)
                   (upd_aspace x (\<lambda>_. set_pages (rg_base r) page_list aspace) s)))
        }
      })"

text \<open>One call of \<^verbatim>\<open>arch_mmu_map\<close> for every page of the list.\<close>

fun map_pages :: "nat \<Rightarrow> vmm_region \<Rightarrow> u64 \<Rightarrow> u32 \<Rightarrow> page list \<Rightarrow> 'a vmm_state_scheme \<Rightarrow> 'a vmm_state_scheme option" where
  "map_pages x r va arch_mmu_flags [] s = Some s"
| "map_pages x r va arch_mmu_flags (p # ps) s =
     do {
       dassert (va \<le> rg_last r);
       dassert (IS_ALIGNED (vm_page_to_paddr p s) PAGE_SIZE);
       map_pages x r (va + PAGE_SIZE) arch_mmu_flags ps (mmu_call (Mmu_map x va (vm_page_to_paddr p s) 1 arch_mmu_flags) s)
     }"

definition vmm_alloc :: "bool \<Rightarrow> nat \<Rightarrow> string \<Rightarrow> u64 \<Rightarrow> u64 option \<Rightarrow> nat \<Rightarrow> u32 \<Rightarrow> u32 \<Rightarrow> 'a vmm_state_scheme \<Rightarrow>
    (status_t \<times> u64 option \<times> 'a vmm_state_scheme) option" where
  "vmm_alloc mem x name sz ptr align_pow2 vmm_flags arch_mmu_flags s =
     (let sz = ROUNDUP sz PAGE_SIZE; pages = unat (sz div PAGE_SIZE) in
      if sz = 0 then Some (ERR_INVALID_ARGS, ptr, s)
      else if vmm_flags AND VMM_FLAG_VALLOC_SPECIFIC \<noteq> 0 \<and> ptr = None then Some (ERR_INVALID_ARGS, ptr, s)
      else do {
        let vaddr = (if vmm_flags AND VMM_FLAG_VALLOC_SPECIFIC \<noteq> 0 then the ptr else 0);
        let (n, page_list, s) = pmm_alloc_pages (u32_of pages) [] s;
        dassert (n \<le> unat sz);
        if n < pages then do { (_, s) \<leftarrow> pmm_free page_list s; Some (ERR_NO_MEMORY, ptr, s) }
        else do {
          (r, aspace) \<leftarrow> alloc_region mem (aspaces s x) name sz vaddr align_pow2 vmm_flags VMM_REGION_FLAG_PHYSICAL arch_mmu_flags;
          (case r of
             None \<Rightarrow> do { (_, s) \<leftarrow> pmm_free page_list s; Some (ERR_NO_MEMORY, ptr, s) }
           | Some r \<Rightarrow> do {
               dassert (IS_ALIGNED (rg_base r) PAGE_SIZE);
               s \<leftarrow> map_pages x r (rg_base r) arch_mmu_flags page_list (upd_aspace x (\<lambda>_. set_pages (rg_base r) page_list aspace) s);
               Some (NO_ERROR, map_option (\<lambda>_. rg_base r) ptr, s)
             })
        }
      })"

definition vmm_find_region :: "vmm_aspace \<Rightarrow> u64 \<Rightarrow> vmm_region option" where
  "vmm_find_region aspace vaddr = List.find (\<lambda>r. vaddr \<ge> rg_base r \<and> vaddr \<le> rg_last r) (region_list aspace)"

definition vmm_free_region :: "nat \<Rightarrow> u64 \<Rightarrow> 'a vmm_state_scheme \<Rightarrow> (status_t \<times> 'a vmm_state_scheme) option" where
  "vmm_free_region x vaddr s =
     (case vmm_find_region (aspaces s x) vaddr of
        None \<Rightarrow> Some (ERR_NOT_FOUND, s)
      | Some r \<Rightarrow> do {
          let s = upd_aspace x (\<lambda>a. a\<lparr>region_list := remove1 r (region_list a)\<rparr>) s;
          let s = mmu_call (Mmu_unmap x (rg_base r) (u32_of (unat (rg_size r div PAGE_SIZE)))) s;
          (_, s) \<leftarrow> pmm_free (rg_page_list r) s;
          Some (NO_ERROR, s)
        })"

section \<open>Address spaces\<close>

text \<open>\<open>calloc\<close> is the new structure; \<open>init\<close> is what \<^verbatim>\<open>arch_mmu_init_aspace\<close> returns.\<close>

definition vmm_create_aspace :: "nat option \<Rightarrow> status_t \<Rightarrow> string option \<Rightarrow> u32 \<Rightarrow> 'a vmm_state_scheme \<Rightarrow> (status_t \<times> nat option) \<times> 'a vmm_state_scheme" where
  "vmm_create_aspace calloc init name flags s =
     (case calloc of
        None \<Rightarrow> ((ERR_NO_MEMORY, None), s)
      | Some x \<Rightarrow>
          let kern = (flags AND VMM_ASPACE_FLAG_KERNEL \<noteq> 0);
              base = (if kern then KERNEL_ASPACE_BASE else USER_ASPACE_BASE);
              sz = (if kern then KERNEL_ASPACE_SIZE else USER_ASPACE_SIZE);
              s = mmu_call (Mmu_init_aspace x base sz (if kern then ARCH_ASPACE_FLAG_KERNEL else 0)) s
          in if init < 0 then ((init, None), s)
             else let s = upd_aspace x (\<lambda>_. \<lparr>as_name = strlcpy32 (case name of None \<Rightarrow> ''unnamed'' | Some n \<Rightarrow> n), as_flags = flags,
                        as_base = base, as_size = sz, region_list = []\<rparr>) s
                  in ((NO_ERROR, Some x), s\<lparr>aspace_list := x # aspace_list s\<rparr>))"

fun free_regions :: "vmm_region list \<Rightarrow> 'a vmm_state_scheme \<Rightarrow> 'a vmm_state_scheme option" where
  "free_regions [] s = Some s"
| "free_regions (r # rs) s = do { (_, s) \<leftarrow> pmm_free (rg_page_list r) s; free_regions rs s }"

definition vmm_free_aspace :: "nat \<Rightarrow> 'a vmm_state_scheme \<Rightarrow> (status_t \<times> 'a vmm_state_scheme) option" where
  "vmm_free_aspace x s =
     (if x \<notin> set (aspace_list s) then Some (ERR_INVALID_ARGS, s)
      else do {
        let s = s\<lparr>aspace_list := remove1 x (aspace_list s)\<rparr>;
        let regions = region_list (aspaces s x);
        let s = fold (\<lambda>r. mmu_call (Mmu_unmap x (rg_base r) (u32_of (unat (rg_size r div PAGE_SIZE))))) regions
                  (upd_aspace x (\<lambda>a. a\<lparr>region_list := []\<rparr>) s);
        s \<leftarrow> free_regions regions s;
        let s = (if thread_aspace s = Some x then mmu_call (Mmu_context_switch None) (s\<lparr>thread_aspace := None\<rparr>) else s);
        Some (NO_ERROR, mmu_call (Mmu_destroy_aspace x) s)
      })"

definition vmm_set_active_aspace :: "nat option \<Rightarrow> 'a vmm_state_scheme \<Rightarrow> 'a vmm_state_scheme" where
  "vmm_set_active_aspace x s =
     (if x = thread_aspace s then s else mmu_call (Mmu_context_switch x) (s\<lparr>thread_aspace := x\<rparr>))"

section \<open>Boot and translation\<close>

definition is_kernel_address :: "u64 \<Rightarrow> bool" where
  "is_kernel_address va \<longleftrightarrow> va \<ge> KERNEL_ASPACE_BASE \<and> va \<le> KERNEL_ASPACE_BASE + (KERNEL_ASPACE_SIZE - 1)"

definition is_user_address :: "u64 \<Rightarrow> bool" where
  "is_user_address va \<longleftrightarrow> va \<ge> USER_ASPACE_BASE \<and> va \<le> USER_ASPACE_BASE + (USER_ASPACE_SIZE - 1)"

definition vaddr_to_aspace :: "u64 \<Rightarrow> 'a vmm_state_scheme \<Rightarrow> nat option" where
  "vaddr_to_aspace ptr s =
     (if is_kernel_address ptr then Some kernel_aspace else if is_user_address ptr then thread_aspace s else None)"

text \<open>\<open>query\<close> is the physical address \<^verbatim>\<open>arch_mmu_query\<close> finds for an address of an address space.\<close>

definition vaddr_to_paddr :: "(nat \<Rightarrow> u64 \<Rightarrow> u64 option) \<Rightarrow> u64 \<Rightarrow> 'a vmm_state_scheme \<Rightarrow> u64" where
  "vaddr_to_paddr query ptr s =
     (case vaddr_to_aspace ptr s of None \<Rightarrow> 0 | Some x \<Rightarrow> (case query x ptr of None \<Rightarrow> 0 | Some pa \<Rightarrow> pa))"

text \<open>The table of initial mappings ends before the first entry of size zero.\<close>

definition paddr_to_kvaddr :: "mmu_initial_mapping list \<Rightarrow> u64 \<Rightarrow> u64 option" where
  "paddr_to_kvaddr maps pa =
     map_option (\<lambda>m. map_virt m + (pa - map_phys m))
       (List.find (\<lambda>m. map_flags m AND MMU_INITIAL_MAPPING_TEMPORARY = 0 \<and> pa \<ge> map_phys m \<and> pa \<le> map_phys m + map_size m - 1)
          (takeWhile (\<lambda>m. map_size m > 0) maps))"

definition kvaddr_get_range :: "mmu_initial_mapping list \<Rightarrow> (u64 \<times> u64) option" where
  "kvaddr_get_range maps = (case maps of [] \<Rightarrow> None | m # _ \<Rightarrow> Some (map_virt m, map_size m))"

fun mark_loop :: "(nat \<Rightarrow> u64 \<Rightarrow> u64 option) \<Rightarrow> u64 \<Rightarrow> nat \<Rightarrow> page list \<Rightarrow> 'a vmm_state_scheme \<Rightarrow> 'a vmm_state_scheme option" where
  "mark_loop query va 0 l s = Some s"
| "mark_loop query va (Suc n) l s =
     do {
       pa \<leftarrow> query kernel_aspace va;
       (_, l, s) \<leftarrow> pmm_alloc_range pa 1 l s;
       mark_loop query (va + PAGE_SIZE) n l s
     }"

definition mark_pages_in_use :: "(nat \<Rightarrow> u64 \<Rightarrow> u64 option) \<Rightarrow> u64 \<Rightarrow> u64 \<Rightarrow> 'a vmm_state_scheme \<Rightarrow> 'a vmm_state_scheme option" where
  "mark_pages_in_use query va len s =
     (let len = ROUNDUP (len + (va AND (PAGE_SIZE - 1))) PAGE_SIZE;
          va = ROUNDDOWN va PAGE_SIZE
      in mark_loop query va (unat (len div PAGE_SIZE)) [] s)"

definition vm_init_preheap :: "(nat \<Rightarrow> u64 \<Rightarrow> u64 option) \<Rightarrow> u64 \<Rightarrow> u64 \<Rightarrow> u64 \<Rightarrow> 'a vmm_state_scheme \<Rightarrow> 'a vmm_state_scheme option" where
  "vm_init_preheap query start end_of_kernel boot_alloc_start s =
     do {
       let s = vmm_init_preheap s;
       s \<leftarrow> mark_pages_in_use query start (end_of_kernel - start) s;
       (if boot_alloc_end s \<noteq> boot_alloc_start
        then mark_pages_in_use query boot_alloc_start (boot_alloc_end s - boot_alloc_start) s else Some s)
     }"

fun reserve_maps :: "bool \<Rightarrow> (nat \<Rightarrow> u64 \<Rightarrow> u32) \<Rightarrow> mmu_initial_mapping list \<Rightarrow> 'a vmm_state_scheme \<Rightarrow> 'a vmm_state_scheme option" where
  "reserve_maps mem query [] s = Some s"
| "reserve_maps mem query (m # ms) s =
     do {
       s \<leftarrow> (if map_flags m AND MMU_INITIAL_MAPPING_TEMPORARY = 0
              then map_option snd (vmm_reserve_space mem query kernel_aspace (map_name m) (map_size m) (map_virt m) s) else Some s);
       reserve_maps mem query ms s
     }"

definition vm_init_postheap :: "bool \<Rightarrow> (nat \<Rightarrow> u64 \<Rightarrow> u32) \<Rightarrow> mmu_initial_mapping list \<Rightarrow> 'a vmm_state_scheme \<Rightarrow> 'a vmm_state_scheme option" where
  "vm_init_postheap mem query maps s = reserve_maps mem query (takeWhile (\<lambda>m. map_size m > 0) maps) s"

section \<open>Address spaces that are in order\<close>

abbreviation rg_beg :: "vmm_region \<Rightarrow> nat" where "rg_beg r \<equiv> unat (rg_base r)"
abbreviation rg_end :: "vmm_region \<Rightarrow> nat" where "rg_end r \<equiv> unat (rg_base r) + unat (rg_size r)"
abbreviation as_beg :: "vmm_aspace \<Rightarrow> nat" where "as_beg a \<equiv> unat (as_base a)"
abbreviation as_end :: "vmm_aspace \<Rightarrow> nat" where "as_end a \<equiv> unat (as_base a) + unat (as_size a)"

fun regions_ok :: "nat \<Rightarrow> nat \<Rightarrow> vmm_region list \<Rightarrow> bool" where
  "regions_ok lo hi [] \<longleftrightarrow> lo \<le> hi"
| "regions_ok lo hi (r # rs) \<longleftrightarrow> lo \<le> rg_beg r \<and> 0 < unat (rg_size r) \<and> regions_ok (rg_end r) hi rs"

definition aspace_ok :: "vmm_aspace \<Rightarrow> bool" where
  "aspace_ok a \<longleftrightarrow> 0 < unat (as_size a) \<and> as_end a \<le> 2 ^ 64 \<and> regions_ok (as_beg a) (as_end a) (region_list a)"

text \<open>\<open>fits lo hi rs x sz\<close>: \<open>sz\<close> bytes from \<open>x\<close> on are between \<open>lo\<close> and \<open>hi\<close> and in no region.\<close>

definition fits :: "nat \<Rightarrow> nat \<Rightarrow> vmm_region list \<Rightarrow> nat \<Rightarrow> nat \<Rightarrow> bool" where
  "fits lo hi rs x sz \<longleftrightarrow> lo \<le> x \<and> x + sz \<le> hi \<and> (\<forall>r \<in> set rs. x + sz \<le> rg_beg r \<or> rg_end r \<le> x)"

lemma regions_ok_le: "regions_ok lo hi rs \<Longrightarrow> lo \<le> hi"
  by (induction lo hi rs rule: regions_ok.induct) auto

lemma regions_ok_bounds: "regions_ok lo hi rs \<Longrightarrow> r \<in> set rs \<Longrightarrow> lo \<le> rg_beg r \<and> 0 < unat (rg_size r) \<and> rg_end r \<le> hi"
  by (induction lo hi rs rule: regions_ok.induct) (auto dest: regions_ok_le)

lemma regions_ok_mono: "regions_ok lo hi rs \<Longrightarrow> lo' \<le> lo \<Longrightarrow> regions_ok lo' hi rs"
  by (cases rs) auto

lemma regions_ok_distinct: "regions_ok lo hi rs \<Longrightarrow> distinct (map rg_base rs)"
proof (induction lo hi rs rule: regions_ok.induct)
  case (2 lo hi r rs)
  then have "rg_base r \<noteq> rg_base x" if "x \<in> set rs" for x using regions_ok_bounds [OF _ that] by fastforce
  then show ?case using 2 by auto
qed simp

lemma unat_rg_last: "0 < unat (rg_size r) \<Longrightarrow> rg_end r \<le> 2 ^ 64 \<Longrightarrow> unat (rg_last r) = rg_end r - 1"
  unfolding rg_last_def by (rule unat_last)

section \<open>A region at a given address\<close>

lemma inside_iff:
  assumes ok: "0 < unat (as_size a)" "as_end a \<le> 2 ^ 64" and sz: "0 < unat sz"
  shows "is_region_inside_aspace a v sz \<longleftrightarrow> as_beg a \<le> unat v \<and> unat v + unat sz \<le> as_end a"
proof -
  note l = unat_last [OF ok]
  have s0: "sz \<noteq> 0" using sz by auto
  show ?thesis
  proof (cases "unat v + unat sz \<le> 2 ^ 64")
    case True
    note lv = unat_last [OF sz True]
    show ?thesis unfolding is_region_inside_aspace_def is_inside_aspace_def word_le_nat_alt word_less_nat_alt l lv
      using s0 sz ok by auto
  next
    case False
    have e: "v + sz - 1 = v + (sz - 1)" by simp
    have "unat (sz - 1) = unat sz - 1" using s0 by (rule unat_minus_one)
    then have "unat (v + sz - 1) = (unat v + (unat sz - 1)) mod 2 ^ 64" unfolding e unat_word_ariths(1) by simp
    also have "\<dots> = unat v + (unat sz - 1) - 2 ^ 64"
      using False unat_u64_less [of v] unat_u64_less [of sz] by (simp add: mod_if)
    finally have "unat (v + sz - 1) < unat v" using False unat_u64_less [of sz] by linarith
    then show ?thesis using False ok s0 by (auto simp: is_region_inside_aspace_def word_less_nat_alt)
  qed
qed

lemma add_after_ok:
  assumes "regions_ok lo hi rs" and "rs \<noteq> []" and "hi \<le> 2 ^ 64" and b: "lo \<le> rg_beg r" "0 < unat (rg_size r)" "rg_end r \<le> hi"
    and "\<not> rg_end r \<le> rg_beg (hd rs)"
  shows "case add_after r rs of
      Some rs' \<Rightarrow> regions_ok lo hi rs' \<and> (\<exists>k. rs' = take k rs @ r # drop k rs) \<and> (\<forall>x \<in> set rs. rg_end r \<le> rg_beg x \<or> rg_end x \<le> rg_beg r)
    | None \<Rightarrow> \<exists>x \<in> set rs. \<not> (rg_end r \<le> rg_beg x \<or> rg_end x \<le> rg_beg r)"
  using assms
proof (induction rs arbitrary: lo)
  case Nil
  then show ?case by simp
next
  case (Cons l rest)
  have ro: "regions_ok (rg_end l) hi rest" "0 < unat (rg_size l)" "lo \<le> rg_beg l" using Cons.prems by simp_all
  have "rg_end l \<le> hi" using ro(1) by (rule regions_ok_le)
  then have ll: "unat (rg_last l) = rg_end l - 1" by (intro unat_rg_last ro(2) order_trans [OF _ Cons.prems(3)])
  have lr: "unat (rg_last r) = rg_end r - 1" by (intro unat_rg_last b(2) order_trans [OF b(3) Cons.prems(3)])
  have gt: "rg_base r > rg_last l \<longleftrightarrow> rg_end l \<le> rg_beg r" unfolding word_less_nat_alt ll using ro(2) by linarith
  have lt: "rg_last r < rg_base n \<longleftrightarrow> rg_end r \<le> rg_beg n" for n unfolding word_less_nat_alt lr using b(2) by linarith
  have bd: "rg_end l \<le> rg_beg x" if "x \<in> set rest" for x using regions_ok_bounds [OF ro(1) that] by simp
  show ?case
  proof (cases "rg_end l \<le> rg_beg r")
    case False
    have "add_after r xs = None" if "\<forall>x \<in> set xs. rg_end l \<le> rg_beg x \<and> 0 < unat (rg_size x) \<and> rg_end x \<le> hi" for xs
      using that
    proof (induction xs)
      case (Cons x xs)
      then have x: "rg_end l \<le> rg_beg x" "0 < unat (rg_size x)" "rg_end x \<le> hi" by simp_all
      have "unat (rg_last x) = rg_end x - 1" by (intro unat_rg_last x(2) order_trans [OF x(3) \<open>hi \<le> 2 ^ 64\<close>])
      then have "\<not> rg_base r > rg_last x" unfolding word_less_nat_alt using x False by linarith
      then show ?case using Cons by simp
    qed simp
    then have "add_after r rest = None" using regions_ok_bounds [OF ro(1)] by blast
    then have "add_after r (l # rest) = None" using False gt by simp
    moreover have "\<not> (rg_end r \<le> rg_beg l \<or> rg_end l \<le> rg_beg r)" using False Cons.prems(7) by simp
    ultimately show ?thesis by simp
  next
    case True
    show ?thesis
    proof (cases "case rest of [] \<Rightarrow> True | n # _ \<Rightarrow> rg_end r \<le> rg_beg n")
      case fit: True
      then have e: "add_after r (l # rest) = Some (l # r # rest)" using True by (cases rest) (simp_all add: gt lt)
      have "regions_ok (rg_end r) hi rest"
        using fit ro(1) b(3) by (cases rest) auto
      then have "regions_ok lo hi (l # r # rest)" using True ro b by simp
      moreover have "rg_end r \<le> rg_beg x" if "x \<in> set rest" for x
        using regions_ok_bounds [OF \<open>regions_ok (rg_end r) hi rest\<close> that] by simp
      then have "\<forall>x \<in> set (l # rest). rg_end r \<le> rg_beg x \<or> rg_end x \<le> rg_beg r" using True by simp
      moreover have "\<exists>k. l # r # rest = take k (l # rest) @ r # drop k (l # rest)" by (rule exI [of _ 1]) simp
      ultimately show ?thesis unfolding e option.case by (intro conjI)
    next
      case nf: False
      then obtain n ns where n: "rest = n # ns" "\<not> rg_end r \<le> rg_beg (hd rest)" by (cases rest) simp_all
      have e: "add_after r (l # rest) = map_option ((#) l) (add_after r rest)"
        using n(2) unfolding add_after.simps(2) [of r l] n(1) list.case list.sel lt by (simp only: simp_thms if_False)
      have "rest \<noteq> []" using n by simp
      note ih = Cons.IH [OF ro(1) this Cons.prems(3) True b(2,3) n(2)]
      show ?thesis
      proof (cases "add_after r rest")
        case None
        from ih [unfolded None option.case] show ?thesis unfolding e None option.map option.case by (meson list.set_intros(2))
      next
        case (Some rs')
        from ih [unfolded Some option.case] obtain k where k: "rs' = take k rest @ r # drop k rest" and rs': "regions_ok (rg_end l) hi rs'"
          "\<forall>x \<in> set rest. rg_end r \<le> rg_beg x \<or> rg_end x \<le> rg_beg r" by (elim conjE exE)
        have "l # rs' = take (Suc k) (l # rest) @ r # drop (Suc k) (l # rest)" using k by simp
        then have "\<exists>k. l # rs' = take k (l # rest) @ r # drop k (l # rest)" by (rule exI)
        moreover have "regions_ok lo hi (l # rs')" using rs'(1) ro by simp
        moreover have "\<forall>x \<in> set (l # rest). rg_end r \<le> rg_beg x \<or> rg_end x \<le> rg_beg r" using rs'(2) True by simp
        ultimately show ?thesis unfolding e Some option.map option.case by (intro conjI)
      qed
    qed
  qed
qed

lemma add_region_ok:
  assumes ok: "aspace_ok a" and sz: "0 < unat (rg_size r)"
  shows "if fits (as_beg a) (as_end a) (region_list a) (rg_beg r) (unat (rg_size r))
     then \<exists>k. add_region_to_aspace a r = (NO_ERROR, a\<lparr>region_list := take k (region_list a) @ r # drop k (region_list a)\<rparr>) \<and>
       aspace_ok (a\<lparr>region_list := take k (region_list a) @ r # drop k (region_list a)\<rparr>)
     else fst (add_region_to_aspace a r) < 0"
proof -
  have o: "0 < unat (as_size a)" "as_end a \<le> 2 ^ 64" "regions_ok (as_beg a) (as_end a) (region_list a)" using ok by (simp_all add: aspace_ok_def)
  have s0: "rg_size r \<noteq> 0" using sz by auto
  note ins = inside_iff [OF o(1,2) sz, of "rg_base r"]
  show ?thesis
  proof (cases "as_beg a \<le> rg_beg r \<and> rg_end r \<le> as_end a")
    case False
    then show ?thesis using s0 by (auto simp: add_region_to_aspace_def ins fits_def)
  next
    case True
    have "rg_end r \<le> 2 ^ 64" by (rule order_trans [OF conjunct2 [OF True] o(2)])
    then have lr: "unat (rg_last r) = rg_end r - 1" by (intro unat_rg_last sz)
    have lt: "rg_last r < rg_base n \<longleftrightarrow> rg_end r \<le> rg_beg n" for n unfolding word_less_nat_alt lr using sz by linarith
    show ?thesis
    proof (cases "region_list a = [] \<or> rg_end r \<le> rg_beg (hd (region_list a))")
      case front: True
      then have e: "add_region_to_aspace a r = (NO_ERROR, a\<lparr>region_list := r # region_list a\<rparr>)"
        using True s0 by (cases "region_list a") (simp_all add: add_region_to_aspace_def ins lt)
      have ro: "regions_ok (rg_end r) (as_end a) (region_list a)" using front True o(3) by (cases "region_list a") auto
      then have "fits (as_beg a) (as_end a) (region_list a) (rg_beg r) (unat (rg_size r))"
        using True regions_ok_bounds [OF ro] by (auto simp: fits_def)
      moreover have "aspace_ok (a\<lparr>region_list := take 0 (region_list a) @ r # drop 0 (region_list a)\<rparr>)"
        using ok ro True sz by (simp add: aspace_ok_def)
      moreover have "add_region_to_aspace a r = (NO_ERROR, a\<lparr>region_list := take 0 (region_list a) @ r # drop 0 (region_list a)\<rparr>)"
        using e by simp
      ultimately show ?thesis by (simp only: if_True) (intro exI [of _ 0] conjI refl)
    next
      case nf: False
      then have ne: "region_list a \<noteq> []" "\<not> rg_end r \<le> rg_beg (hd (region_list a))" by simp_all
      then have "\<not> (case region_list a of [] \<Rightarrow> True | l # _ \<Rightarrow> rg_last r < rg_base l)" by (cases "region_list a") (simp_all add: lt)
      then have e: "add_region_to_aspace a r = (case add_after r (region_list a) of
              Some l \<Rightarrow> (NO_ERROR, a\<lparr>region_list := l\<rparr>) | None \<Rightarrow> (ERR_NO_MEMORY, a))"
        using True s0 by (simp add: add_region_to_aspace_def ins)
      note aa = add_after_ok [OF o(3) ne(1) o(2) conjunct1 [OF True] sz conjunct2 [OF True] ne(2)]
      show ?thesis
      proof (cases "add_after r (region_list a)")
        case None
        from aa [unfolded None option.case] have "\<not> fits (as_beg a) (as_end a) (region_list a) (rg_beg r) (unat (rg_size r))"
          unfolding fits_def by blast
        then show ?thesis unfolding e None by simp
      next
        case (Some rs')
        from aa [unfolded Some option.case] obtain k where k: "rs' = take k (region_list a) @ r # drop k (region_list a)"
          and rs': "regions_ok (as_beg a) (as_end a) rs'"
          "\<forall>x \<in> set (region_list a). rg_end r \<le> rg_beg x \<or> rg_end x \<le> rg_beg r" by (elim conjE exE)
        have "fits (as_beg a) (as_end a) (region_list a) (rg_beg r) (unat (rg_size r))" using True rs'(2) by (simp add: fits_def)
        moreover have "aspace_ok (a\<lparr>region_list := rs'\<rparr>)" using o rs'(1) by (simp add: aspace_ok_def)
        ultimately show ?thesis unfolding e Some option.case unfolding k by (simp only: if_True) (intro exI [of _ k] conjI refl)
      qed
    qed
  qed
qed

section \<open>Finding a spot\<close>

definition fits_al :: "nat \<Rightarrow> nat \<Rightarrow> nat \<Rightarrow> vmm_region list \<Rightarrow> nat \<Rightarrow> nat \<Rightarrow> bool" where
  "fits_al n lo hi rs sz x \<longleftrightarrow> 2 ^ n dvd x \<and> fits lo hi rs x sz"

text \<open>The test of one gap, from \<open>lo\<close> up to but not including \<open>g\<close>.\<close>

lemma gap_test:
  assumes n: "n < 64" and lo: "lo < g" "g \<le> 2 ^ 64" "g - lo < 2 ^ 64" and sz: "2 \<le> unat sz" and ge: "unat ge = g - 1"
  defines "R \<equiv> (lo + (2 ^ n - 1)) div 2 ^ n * 2 ^ n"
  shows "(let pva = arch_mmu_pick_spot (of_nat lo) (push_bit n 1) in
      if pva < of_nat lo then (True, -1)
      else if pva < ge \<and> ge - pva + 1 \<ge> sz then (True, pva)
      else (False, pva)) =
    (if lo + (2 ^ n - 1) \<ge> 2 ^ 64 then (True, -1)
     else (R + unat sz \<le> g, of_nat R))"
proof -
  let ?p = "ROUNDUP (of_nat lo :: u64) (push_bit n 1)"
  have ul: "unat (of_nat lo :: u64) = lo" unfolding unat_of_nat by (rule mod_less) (use lo in simp)
  show ?thesis
  proof (cases "lo + (2 ^ n - 1) \<ge> 2 ^ 64")
    case True
    then have "?p = 0" using n ul by (intro ROUNDUP_wraps) simp_all
    moreover have "(2::nat) ^ n \<le> 2 ^ 63" using n by (intro power_increasing) simp_all
    then have "(2::nat) ^ n - 1 < 2 ^ 64" by simp
    then have "0 < lo" using True by (intro gr0I) simp
    then have "?p < of_nat lo" unfolding \<open>?p = 0\<close> word_less_nat_alt ul by simp
    ultimately show ?thesis using True by (simp add: arch_mmu_pick_spot_def Let_def)
  next
    case False
    then have p: "unat ?p = R" using unat_ROUNDUP [OF n, of "of_nat lo"] ul unfolding R_def by simp
    have pos: "(0::nat) < 2 ^ n" by simp
    have Rlo: "lo \<le> R" unfolding R_def by (rule round_up_nat(1) [OF pos])
    have pe: "?p = of_nat R" unfolding p [symmetric] by simp
    have nl: "\<not> ?p < of_nat lo" unfolding word_less_nat_alt p ul using Rlo by simp
    have cond: "(?p < ge \<and> ge - ?p + 1 \<ge> sz) \<longleftrightarrow> R + unat sz \<le> g"
    proof (cases "R < g - 1")
      case True
      have le: "?p \<le> ge" unfolding word_le_nat_alt p ge using True by simp
      have "unat (ge - ?p) = g - 1 - R" using unat_sub [OF le] by (simp only: p ge)
      then have "unat (ge - ?p + 1) = (g - 1 - R + 1) mod 2 ^ 64" unfolding unat_word_ariths(1) by simp
      also have "\<dots> = g - R" using True lo(3) Rlo by simp
      finally have u: "unat (ge - ?p + 1) = g - R" .
      show ?thesis unfolding word_less_nat_alt word_le_nat_alt p ge u using True by auto
    next
      case False
      then show ?thesis unfolding word_less_nat_alt p ge using sz by auto
    qed
    show ?thesis unfolding arch_mmu_pick_spot_def Let_def using False nl cond pe by simp
  qed
qed

lemma fits_al_roundup:
  assumes "fits_al n lo hi rs sz x"
  shows "(lo + (2 ^ n - 1)) div 2 ^ n * 2 ^ n \<le> x"
  using assms round_up_nat(3) [of "2 ^ n" x lo] by (simp add: fits_al_def fits_def)

lemma no_fit_wrap:
  assumes "n < 64" and "lo + (2 ^ n - 1) \<ge> 2 ^ 64" and "hi \<le> 2 ^ 64" and "0 < sz"
  shows "\<not> fits_al n lo hi rs sz x"
proof
  assume f: "fits_al n lo hi rs sz x"
  let ?R = "(lo + (2 ^ n - 1)) div 2 ^ n * 2 ^ n"
  have "?R \<le> x" using f by (rule fits_al_roundup)
  moreover have "x < 2 ^ 64" using f assms(3,4) by (simp add: fits_al_def fits_def)
  ultimately have "?R < 2 ^ 64" by simp
  moreover have "(2::nat) ^ n dvd 2 ^ 64" using assms(1) by (intro le_imp_power_dvd) simp
  ultimately have "?R + 2 ^ n \<le> 2 ^ 64" by (rule dvd_less_add [OF dvd_triv_right])
  moreover have "lo \<le> ?R" by (rule round_up_nat(1)) simp
  moreover have "(0::nat) < 2 ^ n" by simp
  ultimately show False using assms(2) by linarith
qed

text \<open>What the walk over the gaps returns: the lowest aligned address with enough room.\<close>

definition spot_ok :: "nat \<Rightarrow> nat \<Rightarrow> nat \<Rightarrow> vmm_region list \<Rightarrow> u64 \<Rightarrow> u64 \<Rightarrow> nat \<Rightarrow> bool" where
  "spot_ok n lo hi rs sz v k \<longleftrightarrow>
     (if \<exists>x. fits_al n lo hi rs (unat sz) x
      then fits_al n lo hi rs (unat sz) (unat v) \<and> (\<forall>x. fits_al n lo hi rs (unat sz) x \<longrightarrow> unat v \<le> x) \<and>
        (\<forall>r. rg_base r = v \<and> rg_size r = sz \<longrightarrow> regions_ok lo hi (take k rs @ r # drop k rs))
      else v = -1)"

lemma spot_ok_here:
  assumes n: "n < 64" and ro: "regions_ok lo hi rs" and hi: "hi \<le> 2 ^ 64" and sz: "0 < unat sz"
    and g: "g = (case rs of [] \<Rightarrow> hi | r # _ \<Rightarrow> rg_beg r)" and nw: "\<not> lo + (2 ^ n - 1) \<ge> 2 ^ 64"
    and R: "R = (lo + (2 ^ n - 1)) div 2 ^ n * 2 ^ n" and fit: "R + unat sz \<le> g"
  shows "spot_ok n lo hi rs sz (of_nat R) 0"
proof -
  have gh: "g \<le> hi" using g ro regions_ok_bounds [OF ro] by (cases rs) fastforce+
  have R64: "unat (of_nat R :: u64) = R" unfolding unat_of_nat by (rule mod_less) (use fit gh hi sz in simp)
  have loR: "lo \<le> R" unfolding R by (rule round_up_nat(1)) simp
  have below: "g \<le> rg_beg x" if "x \<in> set rs" for x
  proof (cases rs)
    case (Cons r rest)
    then have "regions_ok (rg_end r) hi rest" using ro by simp
    then show ?thesis using that g Cons regions_ok_bounds [of "rg_end r" hi rest x] by auto
  qed (use that in simp)
  have f: "fits_al n lo hi rs (unat sz) R"
    unfolding fits_al_def fits_def using loR fit gh below by (auto simp: R dest: below)
  have new: "regions_ok lo hi (r # rs)" if "rg_base r = of_nat R" "rg_size r = sz" for r
  proof -
    have e: "rg_end r \<le> g" "rg_beg r = R" using that R64 fit by simp_all
    have "regions_ok (rg_end r) hi rs" using e(1) g ro by (cases rs) auto
    then show ?thesis using e(2) loR sz that(2) by simp
  qed
  have ex: "\<exists>x. fits_al n lo hi rs (unat sz) x" using f by (rule exI)
  have mn: "R \<le> x" if "fits_al n lo hi rs (unat sz) x" for x unfolding R using that by (rule fits_al_roundup)
  show ?thesis unfolding spot_ok_def R64 if_P [OF ex] take_0 drop_0 append_Nil using f mn new by blast
qed

lemma spot_walk_ok:
  assumes n: "n < 64" and hi: "hi = as_end a" "hi \<le> 2 ^ 64" and sz: "2 \<le> unat sz"
    and ro: "regions_ok lo hi rs" and lo: "as_beg a \<le> lo"
    and beg: "(case prev of Some p \<Rightarrow> rg_base p + rg_size p | None \<Rightarrow> as_base a) = of_nat lo"
  shows "\<exists>v k'. spot_walk a (push_bit n 1) sz prev spot k rs = (v, k + k') \<and> spot_ok n lo hi rs sz v k'"
  using ro lo beg
proof (induction rs arbitrary: lo prev spot k)
  case Nil
  let ?R = "(lo + (2 ^ n - 1)) div 2 ^ n * 2 ^ n"
  have le: "lo \<le> hi" using Nil.prems(1) by simp
  have d: "hi - lo < 2 ^ 64" using hi(1) Nil.prems(2) unat_u64_less [of "as_size a"] by linarith
  have eh: "as_base a + as_size a = (of_nat hi :: u64)" unfolding hi(1) by simp
  have eq: "(of_nat lo :: u64) = of_nat hi \<longleftrightarrow> lo = hi"
  proof
    assume "(of_nat lo :: u64) = of_nat hi"
    then have "unat (of_nat lo :: u64) = unat (of_nat hi :: u64)" by (rule arg_cong)
    then have "hi mod 2 ^ 64 = lo mod 2 ^ 64" unfolding unat_of_nat by simp
    then have dv: "2 ^ 64 dvd hi - lo" using le mod_eq_dvd_iff_nat [of lo hi "2 ^ 64"] by simp
    show "lo = hi"
    proof (rule ccontr)
      assume "lo \<noteq> hi"
      then have "0 < hi - lo" using le by simp
      from nat_dvd_not_less [OF this d] dv show False by blast
    qed
  qed simp
  show ?case
  proof (cases "lo = hi")
    case True
    then have "spot_walk a (push_bit n 1) sz prev spot k [] = (-1, k + 0)" using Nil.prems(3) eh by (simp add: check_gap_def)
    moreover have "\<not> fits_al n lo hi [] (unat sz) x" for x using True sz by (simp add: fits_al_def fits_def)
    ultimately show ?thesis by (auto simp: spot_ok_def)
  next
    case False
    then have lt: "lo < hi" using le by simp
    have "unat (as_base a + as_size a - 1) = hi - 1" unfolding hi(1) using hi lt Nil.prems(2) by (intro unat_last) simp_all
    note t = gap_test [OF n lt hi(2) d sz this]
    have c: "check_gap a prev None spot (push_bit n 1) sz =
        (if lo + (2 ^ n - 1) \<ge> 2 ^ 64 then (True, -1) else (?R + unat sz \<le> hi, of_nat ?R))"
      unfolding check_gap_def Nil.prems(3) Let_def [where s = "of_nat lo"] option.case eh eq using False t [unfolded eh] by (simp add: Let_def)
    have s0: "0 < unat sz" using sz by simp
    show ?thesis
    proof (cases "lo + (2 ^ n - 1) \<ge> 2 ^ 64")
      case True
      then have "spot_walk a (push_bit n 1) sz prev spot k [] = (-1, k + 0)" using c by simp
      moreover have "\<not> fits_al n lo hi [] (unat sz) x" for x by (rule no_fit_wrap [OF n True hi(2) s0])
      ultimately show ?thesis by (auto simp: spot_ok_def)
    next
      case nw: False
      show ?thesis
      proof (cases "?R + unat sz \<le> hi")
        case True
        then have "spot_walk a (push_bit n 1) sz prev spot k [] = (of_nat ?R, k + 0)" using c nw by simp
        moreover have "spot_ok n lo hi [] sz (of_nat ?R) 0"
          by (rule spot_ok_here [OF n Nil.prems(1) hi(2) s0 _ nw refl True]) simp
        ultimately show ?thesis by blast
      next
        case False
        then have "spot_walk a (push_bit n 1) sz prev spot k [] = (-1, k + 0)" using c nw by simp
        moreover have "\<not> fits_al n lo hi [] (unat sz) x" for x
          using False fits_al_roundup [of n lo hi "[]" "unat sz" x] by (auto simp: fits_al_def fits_def)
        ultimately show ?thesis by (auto simp: spot_ok_def)
      qed
    qed
  qed
next
  case (Cons r rs)
  let ?R = "(lo + (2 ^ n - 1)) div 2 ^ n * 2 ^ n" and ?g = "rg_beg r"
  have ro: "lo \<le> ?g" "0 < unat (rg_size r)" "regions_ok (rg_end r) hi rs" using Cons.prems(1) by simp_all
  have s0: "0 < unat sz" using sz by simp
  have g64: "?g < 2 ^ 64" by (rule unat_u64_less)
  have "lo < 2 ^ 64" using ro(1) g64 by (rule order.strict_trans1)
  then have ul: "unat (of_nat lo :: u64) = lo" unfolding unat_of_nat by (intro mod_less) simp
  have eq: "(of_nat lo :: u64) = rg_base r \<longleftrightarrow> lo = ?g" unfolding word_unat_eq_iff ul ..
  have "as_beg a \<le> rg_end r" using Cons.prems(2) ro by simp
  then have w: "\<exists>v k'. spot_walk a (push_bit n 1) sz (Some r) sp (Suc k) rs = (v, Suc k + k') \<and> spot_ok n (rg_end r) hi rs sz v k'" for sp
    by (rule Cons.IH [OF ro(3)]) simp
  have move: "spot_ok n lo hi (r # rs) sz v (Suc k')" if s: "spot_ok n (rg_end r) hi rs sz v k'" and nf: "\<not> ?R + unat sz \<le> ?g" for v k'
  proof -
    have "fits_al n lo hi (r # rs) (unat sz) x \<longleftrightarrow> fits_al n (rg_end r) hi rs (unat sz) x" for x
    proof -
      have "\<not> x + unat sz \<le> ?g" if "2 ^ n dvd x" "lo \<le> x" using round_up_nat(3) [of "2 ^ n" x lo] that nf by simp
      then show ?thesis using ro(1) by (auto simp: fits_al_def fits_def)
    qed
    with s ro show ?thesis by (simp add: spot_ok_def)
  qed
  have cont: "\<exists>v k'. spot_walk a (push_bit n 1) sz (Some r) sp (Suc k) rs = (v, k + k') \<and> spot_ok n lo hi (r # rs) sz v k'"
    if nf: "\<not> ?R + unat sz \<le> ?g" for sp
  proof -
    from w [of sp] obtain v k' where "spot_walk a (push_bit n 1) sz (Some r) sp (Suc k) rs = (v, Suc k + k')" "spot_ok n (rg_end r) hi rs sz v k'"
      by blast
    with move [OF _ nf] show ?thesis by (intro exI [of _ v] exI [of _ "Suc k'"]) simp
  qed
  have Rlo: "lo \<le> ?R" by (rule round_up_nat(1)) simp
  show ?case
  proof (cases "lo = ?g")
    case True
    then have "check_gap a prev (Some r) spot (push_bit n 1) sz = (False, spot)"
      using Cons.prems(3) by (simp add: check_gap_def)
    moreover have "\<not> ?R + unat sz \<le> ?g" using True Rlo s0 by linarith
    ultimately show ?thesis using cont by simp
  next
    case False
    then have lt: "lo < ?g" "?g \<le> 2 ^ 64" "?g - lo < 2 ^ 64" using ro(1) g64 by simp_all
    have "unat (rg_base r - 1) = ?g - 1" using lt(1) by (intro unat_minus_one) auto
    note t = gap_test [OF n lt sz this]
    have c: "check_gap a prev (Some r) spot (push_bit n 1) sz =
        (if lo + (2 ^ n - 1) \<ge> 2 ^ 64 then (True, -1) else (?R + unat sz \<le> ?g, of_nat ?R))"
      unfolding check_gap_def Cons.prems(3) Let_def [where s = "of_nat lo"] option.case eq using False t by (simp add: Let_def)
    show ?thesis
    proof (cases "lo + (2 ^ n - 1) \<ge> 2 ^ 64")
      case True
      then have "spot_walk a (push_bit n 1) sz prev spot k (r # rs) = (-1, k + 0)" using c by simp
      moreover have "\<not> fits_al n lo hi (r # rs) (unat sz) x" for x by (rule no_fit_wrap [OF n True hi(2) s0])
      ultimately show ?thesis by (auto simp: spot_ok_def)
    next
      case nw: False
      show ?thesis
      proof (cases "?R + unat sz \<le> ?g")
        case True
        then have "spot_walk a (push_bit n 1) sz prev spot k (r # rs) = (of_nat ?R, k + 0)" using c nw by simp
        moreover have "spot_ok n lo hi (r # rs) sz (of_nat ?R) 0"
          by (rule spot_ok_here [OF n Cons.prems(1) hi(2) s0 _ nw refl True]) simp
        ultimately show ?thesis by blast
      next
        case False
        then show ?thesis using c nw cont [OF False] by simp
      qed
    qed
  qed
qed

lemma IS_ALIGNED_page: "IS_ALIGNED (a :: u64) PAGE_SIZE \<longleftrightarrow> 4096 dvd unat a"
proof -
  have m: "PAGE_SIZE - 1 = mask 12" by (simp add: PAGE_SIZE_def mask_eq_exp_minus_1)
  have "unat (a AND mask 12) = unat a mod 2 ^ 12"
    unfolding take_bit_eq_mask [symmetric] unsigned_take_bit_eq by (rule take_bit_eq_mod)
  then have "a AND mask 12 = 0 \<longleftrightarrow> unat a mod 4096 = 0" by (simp add: word_unat_eq_iff)
  then show ?thesis unfolding IS_ALIGNED_def m by (simp add: mod_eq_0_iff_dvd)
qed

lemma PAGE_SIZE_push: "PAGE_SIZE = push_bit 12 1"
  by (simp add: PAGE_SIZE_def)

lemma ROUNDUP_page:
  assumes "unat sz + 4095 < 2 ^ 64"
  shows "4096 dvd unat (ROUNDUP sz PAGE_SIZE)" "unat sz \<le> unat (ROUNDUP sz PAGE_SIZE)" "unat (ROUNDUP sz PAGE_SIZE) < unat sz + 4096"
proof -
  have "unat (ROUNDUP sz PAGE_SIZE) = (unat sz + (4096 - 1)) div 4096 * 4096"
    using unat_ROUNDUP [of 12 sz] assms unfolding PAGE_SIZE_push by simp
  then show "4096 dvd unat (ROUNDUP sz PAGE_SIZE)" "unat sz \<le> unat (ROUNDUP sz PAGE_SIZE)" "unat (ROUNDUP sz PAGE_SIZE) < unat sz + 4096"
    using round_up_nat(1,2) [of 4096 "unat sz"] by simp_all
qed

section \<open>A region, wherever asked for\<close>

text \<open>The addresses a caller of \<^verbatim>\<open>alloc_region\<close> can get.\<close>

definition wanted :: "u32 \<Rightarrow> nat \<Rightarrow> u64 \<Rightarrow> nat \<Rightarrow> vmm_aspace \<Rightarrow> nat \<Rightarrow> bool" where
  "wanted vmm_flags al vaddr sz a x \<longleftrightarrow>
     (if vmm_flags AND VMM_FLAG_VALLOC_SPECIFIC \<noteq> 0 then x = unat vaddr \<and> fits (as_beg a) (as_end a) (region_list a) x sz
      else fits_al (max 12 al) (as_beg a) (as_end a) (region_list a) sz x)"

lemma alloc_region_ok:
  assumes ok: "aspace_ok a" and sz: "4096 dvd unat sz" "0 < unat sz" and al: "al < 64"
  shows "if mem \<and> (\<exists>x. wanted fl al vaddr (unat sz) a x)
     then \<exists>r k. alloc_region mem a name sz vaddr al fl rf mf = Some (Some r, a\<lparr>region_list := take k (region_list a) @ r # drop k (region_list a)\<rparr>) \<and>
       aspace_ok (a\<lparr>region_list := take k (region_list a) @ r # drop k (region_list a)\<rparr>) \<and>
       wanted fl al vaddr (unat sz) a (rg_beg r) \<and> (\<forall>x. wanted fl al vaddr (unat sz) a x \<longrightarrow> rg_beg r \<le> x) \<and>
       rg_size r = sz \<and> rg_page_list r = []
     else alloc_region mem a name sz vaddr al fl rf mf = Some (None, a)"
proof (cases mem)
  case False
  then show ?thesis by (simp add: alloc_region_def alloc_region_struct_def)
next
  case mem: True
  let ?r = "\<lparr>rg_name = strlcpy32 name, rg_flags = rf, rg_arch_mmu_flags = mf, rg_base = vaddr, rg_size = sz, rg_page_list = []\<rparr>"
  have st: "alloc_region_struct mem name vaddr sz rf mf = Some ?r" using mem by (simp add: alloc_region_struct_def)
  have o: "0 < unat (as_size a)" "as_end a \<le> 2 ^ 64" "regions_ok (as_beg a) (as_end a) (region_list a)" using ok by (simp_all add: aspace_ok_def)
  show ?thesis
  proof (cases "fl AND VMM_FLAG_VALLOC_SPECIFIC \<noteq> 0")
    case True
    have w: "wanted fl al vaddr (unat sz) a x \<longleftrightarrow> x = unat vaddr \<and> fits (as_beg a) (as_end a) (region_list a) (unat vaddr) (unat sz)" for x
      using True by (auto simp: wanted_def)
    have sz': "0 < unat (rg_size ?r)" using sz(2) by simp
    note ar = add_region_ok [OF ok sz']
    have e: "alloc_region mem a name sz vaddr al fl rf mf = (case add_region_to_aspace a ?r of
       (st, aspace') \<Rightarrow> Some (if st < 0 then (None, a) else (Some ?r, aspace')))"
      using True by (simp add: alloc_region_def st)
    show ?thesis
    proof (cases "fits (as_beg a) (as_end a) (region_list a) (unat vaddr) (unat sz)")
      case f: True
      then obtain k where "add_region_to_aspace a ?r = (NO_ERROR, a\<lparr>region_list := take k (region_list a) @ ?r # drop k (region_list a)\<rparr>)"
        "aspace_ok (a\<lparr>region_list := take k (region_list a) @ ?r # drop k (region_list a)\<rparr>)" using ar by auto
      moreover have c: "mem \<and> (\<exists>x. wanted fl al vaddr (unat sz) a x)" using mem f by (simp add: w)
      ultimately show ?thesis unfolding if_P [OF c] e using f by (intro exI [of _ ?r] exI [of _ k] conjI) (simp_all add: w)
    next
      case f: False
      then have "fst (add_region_to_aspace a ?r) < 0" using ar by simp
      then show ?thesis unfolding e w using f by (simp add: case_prod_beta)
    qed
  next
    case False
    let ?n = "max 12 al"
    have w: "wanted fl al vaddr (unat sz) a = fits_al ?n (as_beg a) (as_end a) (region_list a) (unat sz)"
      using False by (simp add: wanted_def fun_eq_iff)
    have n: "(if al < PAGE_SIZE_SHIFT then PAGE_SIZE_SHIFT else al) = ?n" "?n < 64" using al by (simp_all add: PAGE_SIZE_SHIFT_def max_def)
    have sz2: "2 \<le> unat sz" using sz by (auto dest: dvd_imp_le)
    have bg: "(case None of Some p \<Rightarrow> rg_base p + rg_size p | None \<Rightarrow> as_base a) = of_nat (as_beg a)" by simp
    from spot_walk_ok [OF n(2) refl o(2) sz2 o(3) order_refl bg, of 0 0] obtain v k where
      v: "spot_walk a (push_bit ?n 1) sz None 0 0 (region_list a) = (v, 0 + k)" "spot_ok ?n (as_beg a) (as_end a) (region_list a) sz v k" by blast
    have "sz > 0" using sz(2) by (simp add: word_less_nat_alt)
    then have e: "alloc_region mem a name sz vaddr al fl rf mf = Some (if v = -1 then (None, a)
        else (Some (?r\<lparr>rg_base := v\<rparr>), a\<lparr>region_list := take k (region_list a) @ (?r\<lparr>rg_base := v\<rparr>) # drop k (region_list a)\<rparr>))"
      using False v(1) sz(1) by (simp add: alloc_region_def st alloc_spot_def n(1) IS_ALIGNED_page Let_def)
    show ?thesis
    proof (cases "\<exists>x. fits_al ?n (as_beg a) (as_end a) (region_list a) (unat sz) x")
      case f: True
      from v(2) have f': "fits_al ?n (as_beg a) (as_end a) (region_list a) (unat sz) (unat v)"
        "\<forall>x. fits_al ?n (as_beg a) (as_end a) (region_list a) (unat sz) x \<longrightarrow> unat v \<le> x"
        "\<forall>r. rg_base r = v \<and> rg_size r = sz \<longrightarrow> regions_ok (as_beg a) (as_end a) (take k (region_list a) @ r # drop k (region_list a))"
        unfolding spot_ok_def if_P [OF f] by blast+
      have "(2::nat) ^ 12 dvd 2 ^ ?n" by (rule le_imp_power_dvd) simp
      then have "4096 dvd unat v" using f'(1) unfolding fits_al_def by (auto intro: dvd_trans)
      then have "v \<noteq> -1" by (auto simp: unsigned_minus_1_eq_mask mask_eq_exp_minus_1)
      moreover have "aspace_ok (a\<lparr>region_list := take k (region_list a) @ (?r\<lparr>rg_base := v\<rparr>) # drop k (region_list a)\<rparr>)"
        using f'(3) o by (simp add: aspace_ok_def)
      moreover have c: "mem \<and> (\<exists>x. wanted fl al vaddr (unat sz) a x)" using mem f by (simp add: w)
      ultimately show ?thesis unfolding if_P [OF c] e using f'(1,2)
        by (intro exI [of _ "?r\<lparr>rg_base := v\<rparr>"] exI [of _ k] conjI) (simp_all add: w)
    next
      case f: False
      then have "v = -1" using v(2) unfolding spot_ok_def by simp
      then show ?thesis unfolding e w using f by simp
    qed
  qed
qed

section \<open>What the page allocator leaves alone\<close>

lemma vmm_more:
  fixes s s' :: "'a vmm_state_scheme"
  assumes "pmm_state.more s' = pmm_state.more s"
  shows "aspaces s' = aspaces s" "aspace_list s' = aspace_list s" "thread_aspace s' = thread_aspace s" "mmu_calls s' = mmu_calls s"
  using assms by (cases s; cases s'; simp)+

lemma vmm_pmm [simp]:
  "arenas (upd_aspace x f s) = arenas s" "arena_list (upd_aspace x f s) = arena_list s"
  "arenas (mmu_call c s) = arenas s" "arena_list (mmu_call c s) = arena_list s"
  "aspaces (upd_aspace x f s) = (aspaces s)(x := f (aspaces s x))" "aspaces (mmu_call c s) = aspaces s"
  "mmu_calls (upd_aspace x f s) = mmu_calls s" "mmu_calls (mmu_call c s) = mmu_calls s @ [c]"
  by (simp_all add: upd_aspace_def mmu_call_def)

lemma vmm_pmm_inv [simp]:
  "pmm_inv (upd_aspace x f s) = pmm_inv s" "pmm_inv (mmu_call c s) = pmm_inv s"
  "free_pages (upd_aspace x f s) = free_pages s" "free_pages (mmu_call c s) = free_pages s"
  "all_pages (upd_aspace x f s) = all_pages s" "all_pages (mmu_call c s) = all_pages s"
  "vm_page_to_paddr p (upd_aspace x f s) = vm_page_to_paddr p s" "vm_page_to_paddr p (mmu_call c s) = vm_page_to_paddr p s"
  by (simp_all add: pmm_inv_def free_pages_def all_pages_def vm_page_to_paddr_def PAGE_BELONGS_TO_ARENA_def
      cong: option.case_cong)

lemma same_pmm_paddr: "same_pmm s s' \<Longrightarrow> vm_page_to_paddr p s' = vm_page_to_paddr p s"
proof -
  assume s: "same_pmm s s'"
  have "PAGE_BELONGS_TO_ARENA p a s' = PAGE_BELONGS_TO_ARENA p a s" for a by (rule same_pmm_belongs [OF s])
  moreover have "PAGE_ADDRESS_FROM_ARENA p (arenas s' a) = PAGE_ADDRESS_FROM_ARENA p (arenas s a)" for a
    using s by (simp add: PAGE_ADDRESS_FROM_ARENA_def same_pmm_def same_arena_def)
  ultimately show ?thesis using s by (simp add: vm_page_to_paddr_def same_pmm_def split: option.splits)
qed

section \<open>Mapping pages\<close>

text \<open>The calls that map \<open>ps\<close> one after the other from \<open>va\<close> on.\<close>

fun page_maps :: "nat \<Rightarrow> u64 \<Rightarrow> u32 \<Rightarrow> page list \<Rightarrow> 'a vmm_state_scheme \<Rightarrow> mmu_call list" where
  "page_maps x va fl [] s = []"
| "page_maps x va fl (p # ps) s = Mmu_map x va (vm_page_to_paddr p s) 1 fl # page_maps x (va + PAGE_SIZE) fl ps s"

lemma page_maps_cong: "(\<And>p. vm_page_to_paddr p s' = vm_page_to_paddr p s) \<Longrightarrow> page_maps x va fl ps s' = page_maps x va fl ps s"
  by (induction ps arbitrary: va) simp_all

lemma map_pages_ok:
  assumes "pmm_inv s" and "set ps \<subseteq> all_pages s" and "0 < unat (rg_size r)" and "rg_end r \<le> 2 ^ 64"
    and "ps \<noteq> [] \<Longrightarrow> unat va + 4096 * length ps \<le> rg_end r"
  shows "map_pages x r va fl ps s = Some (s\<lparr>mmu_calls := mmu_calls s @ page_maps x va fl ps s\<rparr>)"
  using assms
proof (induction ps arbitrary: va s)
  case Nil
  then show ?case by simp
next
  case (Cons p ps)
  have pa: "4096 dvd unat (vm_page_to_paddr p s)" using Cons.prems(1,2) by (intro paddr_round_trip(2)) simp_all
  have le: "unat va + 4096 * Suc (length ps) \<le> rg_end r" using Cons.prems(5) by simp
  then have "unat va \<le> rg_end r - 1" by simp
  then have va: "va \<le> rg_last r" unfolding word_le_nat_alt unat_rg_last [OF Cons.prems(3,4)] .
  let ?s = "mmu_call (Mmu_map x va (vm_page_to_paddr p s) 1 fl) s"
  have nx: "unat (va + PAGE_SIZE) + 4096 * length ps \<le> rg_end r" if "ps \<noteq> []"
  proof -
    have "unat va + 4096 < 2 ^ 64" using le Cons.prems(4) that by (cases ps) simp_all
    then have "unat (va + PAGE_SIZE) = unat va + 4096" unfolding unat_word_ariths(1) by simp
    then show ?thesis using le by simp
  qed
  have "map_pages x r (va + PAGE_SIZE) fl ps ?s = Some (?s\<lparr>mmu_calls := mmu_calls ?s @ page_maps x (va + PAGE_SIZE) fl ps ?s\<rparr>)"
    by (rule Cons.IH) (use Cons.prems nx in simp_all)
  moreover have "page_maps x (va + PAGE_SIZE) fl ps ?s = page_maps x (va + PAGE_SIZE) fl ps s" by (rule page_maps_cong) simp
  ultimately show ?case using va pa by (simp add: IS_ALIGNED_page mmu_call_def)
qed

lemma set_pages_ins:
  assumes "distinct (map rg_base (xs @ r # ys))"
  shows "set_pages (rg_base r) ps (a\<lparr>region_list := xs @ r # ys\<rparr>) = a\<lparr>region_list := xs @ r\<lparr>rg_page_list := ps\<rparr> # ys\<rparr>"
proof -
  have "map (\<lambda>q. if rg_base q = rg_base r then q\<lparr>rg_page_list := ps\<rparr> else q) zs = zs" if "rg_base r \<notin> rg_base ` set zs" for zs
    using that by (intro map_idI) (metis image_eqI)
  from this [of xs] this [of ys] show ?thesis using assms by (simp add: set_pages_def)
qed

lemma regions_ok_pages: "regions_ok lo hi (xs @ r\<lparr>rg_page_list := ps\<rparr> # ys) = regions_ok lo hi (xs @ r # ys)"
  by (induction lo hi xs rule: regions_ok.induct) simp_all

section \<open>Allocating backed memory\<close>

text \<open>
  \<open>alloc_args\<close>: a size that does not wrap when it is rounded up, of fewer than \<open>2 ^ 32\<close> pages, an
  alignment below 64, and an address that is page aligned when one is given.
\<close>

definition alloc_args :: "u64 \<Rightarrow> u64 option \<Rightarrow> nat \<Rightarrow> u32 \<Rightarrow> bool" where
  "alloc_args sz ptr al fl \<longleftrightarrow> 0 < unat sz \<and> unat sz + 4095 < 2 ^ 44 \<and> al < 64 \<and>
     (fl AND VMM_FLAG_VALLOC_SPECIFIC \<noteq> 0 \<longrightarrow> (case ptr of None \<Rightarrow> False | Some v \<Rightarrow> 4096 dvd unat v))"

definition page_count :: "u64 \<Rightarrow> nat" where
  "page_count sz = unat (ROUNDUP sz PAGE_SIZE) div 4096"

definition first_free :: "'a pmm_state_scheme \<Rightarrow> nat" where
  "first_free s = (case arena_list s of [] \<Rightarrow> 0 | a # _ \<Rightarrow> length (free_list (arenas s a)))"

text \<open>The region list of an address space that has got a new region.\<close>

definition region_added :: "vmm_region \<Rightarrow> vmm_aspace \<Rightarrow> vmm_aspace \<Rightarrow> bool" where
  "region_added r a a' \<longleftrightarrow> (\<exists>k. a' = a\<lparr>region_list := take k (region_list a) @ r # drop k (region_list a)\<rparr>) \<and> aspace_ok a'"

definition vaddr_of :: "u64 option \<Rightarrow> u32 \<Rightarrow> u64" where
  "vaddr_of ptr fl = (if fl AND VMM_FLAG_VALLOC_SPECIFIC \<noteq> 0 then the ptr else 0)"

lemma args_sizes:
  assumes "alloc_args sz ptr al fl"
  shows "4096 dvd unat (ROUNDUP sz PAGE_SIZE)" "0 < unat (ROUNDUP sz PAGE_SIZE)" "unat (ROUNDUP sz PAGE_SIZE div PAGE_SIZE) = page_count sz"
    "u32_of (page_count sz) = page_count sz" "unat (ROUNDUP sz PAGE_SIZE) = 4096 * page_count sz" "0 < page_count sz"
    "ROUNDUP sz PAGE_SIZE \<noteq> 0"
proof -
  have sz: "0 < unat sz" "unat sz + 4095 < 2 ^ 44" using assms by (simp_all add: alloc_args_def)
  then have "unat sz + 4095 < 2 ^ 64" by simp
  note r = ROUNDUP_page [OF this]
  show d: "4096 dvd unat (ROUNDUP sz PAGE_SIZE)" by (rule r(1))
  show p: "0 < unat (ROUNDUP sz PAGE_SIZE)" using r(2) sz(1) by simp
  then show "ROUNDUP sz PAGE_SIZE \<noteq> 0" by auto
  show "unat (ROUNDUP sz PAGE_SIZE div PAGE_SIZE) = page_count sz" by (simp add: page_count_def unat_div)
  show e: "unat (ROUNDUP sz PAGE_SIZE) = 4096 * page_count sz" unfolding page_count_def using d by simp
  have "4096 * page_count sz < 2 ^ 44" using r(3) sz(2) unfolding e by simp
  then show "u32_of (page_count sz) = page_count sz" by (intro u32_of_id) simp
  show "0 < page_count sz" using p e by simp
qed

lemma pmm_alloc_give_back:
  assumes inv: "pmm_inv s" and t: "taken ps s s1"
  shows "\<exists>s2. pmm_free ps s1 = Some (length ps, s2) \<and> pmm_inv s2 \<and> free_pages s2 = free_pages s \<and> same_pmm s s2"
proof -
  have p: "pmm_inv s1" "distinct ps" "same_pmm s s1" "free_pages s1 = free_pages s - set ps" "set ps \<subseteq> free_pages s"
    using t by (simp_all add: taken_def)
  have "set ps \<subseteq> all_pages s1 - free_pages s1"
    using p(4,5) free_pages_all [OF inv] same_pmm_pages [OF p(3)] by auto
  from pmm_free_ok [OF p(1,2) this] show ?thesis using p(3-5) by (auto intro: same_pmm_trans)
qed

lemma wanted_aligned:
  assumes "alloc_args sz ptr al fl" and "wanted fl al (vaddr_of ptr fl) n a (unat v)"
  shows "4096 dvd unat v"
proof (cases "fl AND VMM_FLAG_VALLOC_SPECIFIC \<noteq> 0")
  case True
  then show ?thesis using assms by (auto simp: alloc_args_def wanted_def vaddr_of_def split: option.splits)
next
  case False
  have "(2::nat) ^ 12 dvd 2 ^ max 12 al" by (rule le_imp_power_dvd) simp
  then show ?thesis using assms False by (auto simp: wanted_def fits_al_def intro: dvd_trans)
qed

text \<open>What a successful allocation leaves behind.\<close>

definition vmm_allocated :: "nat \<Rightarrow> vmm_region \<Rightarrow> u32 \<Rightarrow> 'a vmm_state_scheme \<Rightarrow> 'a vmm_state_scheme \<Rightarrow> bool" where
  "vmm_allocated x r mf s s' \<longleftrightarrow>
     region_added r (aspaces s x) (aspaces s' x) \<and> (\<forall>y. y \<noteq> x \<longrightarrow> aspaces s' y = aspaces s y) \<and>
     unat (rg_size r) = 4096 * length (rg_page_list r) \<and>
     distinct (rg_page_list r) \<and> set (rg_page_list r) \<subseteq> free_pages s \<and> free_pages s' = free_pages s - set (rg_page_list r) \<and>
     pmm_inv s' \<and> all_pages s' = all_pages s \<and>
     mmu_calls s' = mmu_calls s @ page_maps x (rg_base r) mf (rg_page_list r) s"

lemma vmm_alloc_unfold:
  assumes args: "alloc_args sz ptr al fl" and al: "pmm_alloc_pages (page_count sz) [] s = (length ps, ps, s1)"
    and le: "length ps \<le> page_count sz"
  shows "vmm_alloc mem x name sz ptr al fl mf s =
     (if length ps < page_count sz then do { (_, s) \<leftarrow> pmm_free ps s1; Some (ERR_NO_MEMORY, ptr, s) }
      else do {
        (r, aspace) \<leftarrow> alloc_region mem (aspaces s1 x) name (ROUNDUP sz PAGE_SIZE) (vaddr_of ptr fl) al fl VMM_REGION_FLAG_PHYSICAL mf;
        (case r of
           None \<Rightarrow> do { (_, s) \<leftarrow> pmm_free ps s1; Some (ERR_NO_MEMORY, ptr, s) }
         | Some r \<Rightarrow> do {
             dassert (IS_ALIGNED (rg_base r) PAGE_SIZE);
             s \<leftarrow> map_pages x r (rg_base r) mf ps (upd_aspace x (\<lambda>_. set_pages (rg_base r) ps aspace) s1);
             Some (NO_ERROR, map_option (\<lambda>_. rg_base r) ptr, s)
           })
      })"
proof -
  note z = args_sizes [OF args]
  have np: "\<not> (fl AND VMM_FLAG_VALLOC_SPECIFIC \<noteq> 0 \<and> ptr = None)" using args by (auto simp: alloc_args_def)
  have "length ps \<le> unat (ROUNDUP sz PAGE_SIZE)" using le unfolding z(5) by simp
  then show ?thesis
    unfolding vmm_alloc_def Let_def z(3,4) al prod.case vaddr_of_def [symmetric] if_not_P [OF z(7)] if_not_P [OF np]
    by (simp only: dassert_bind if_True prod.case)
qed

lemma vmm_alloc_ok:
  fixes s :: "'a vmm_state_scheme" and mem :: bool
  assumes inv: "pmm_inv s" and ok: "aspace_ok (aspaces s x)" and args: "alloc_args sz ptr al fl"
  defines "can \<equiv> page_count sz \<le> first_free s \<and> mem \<and> (\<exists>v. wanted fl al (vaddr_of ptr fl) (4096 * page_count sz) (aspaces s x) v)"
  shows "if can
     then \<exists>s' r. vmm_alloc mem x name sz ptr al fl mf s = Some (NO_ERROR, map_option (\<lambda>_. rg_base r) ptr, s') \<and>
       vmm_allocated x r mf s s' \<and> length (rg_page_list r) = page_count sz \<and>
       wanted fl al (vaddr_of ptr fl) (4096 * page_count sz) (aspaces s x) (rg_beg r)
     else \<exists>s'. vmm_alloc mem x name sz ptr al fl mf s = Some (ERR_NO_MEMORY, ptr, s') \<and>
       aspaces s' = aspaces s \<and> mmu_calls s' = mmu_calls s \<and> free_pages s' = free_pages s \<and> pmm_inv s'"
proof -
  let ?a = "aspaces s x" and ?S = "ROUNDUP sz PAGE_SIZE" and ?n = "page_count sz" and ?v = "vaddr_of ptr fl"
  note z = args_sizes [OF args]
  obtain k ps s1 where pa: "pmm_alloc_pages ?n [] s = (k, ps, s1)" by (rule prod_cases3)
  from pmm_alloc_pages_ok [OF inv pa] have t: "taken ps s s1" and k: "k = length ps" "length ps \<le> ?n" and len: "length ps = min ?n (first_free s)"
    by (auto simp: first_free_def split: list.splits)
  have sm: "same_pmm s s1" and i1: "pmm_inv s1" and ps: "distinct ps" "set ps \<subseteq> free_pages s" "free_pages s1 = free_pages s - set ps"
    using t by (simp_all add: taken_def)
  have more: "pmm_state.more s1 = pmm_state.more s" using sm by (simp add: same_pmm_def)
  note m = vmm_more [OF more]
  note u = vmm_alloc_unfold [OF args pa [unfolded k(1)] k(2), of mem x name mf]
  from pmm_alloc_give_back [OF inv t] obtain s2 where s2: "pmm_free ps s1 = Some (length ps, s2)" "pmm_inv s2" "free_pages s2 = free_pages s"
    "same_pmm s s2" by blast
  then have m2: "aspaces s2 = aspaces s" "mmu_calls s2 = mmu_calls s" using vmm_more [of s2 s] by (simp_all add: same_pmm_def)
  have al: "al < 64" using args by (simp add: alloc_args_def)
  note ar = alloc_region_ok [OF ok z(1,2) al, of mem fl ?v name VMM_REGION_FLAG_PHYSICAL mf, unfolded z(5)]
  show ?thesis
  proof (cases can)
    case False
    have "vmm_alloc mem x name sz ptr al fl mf s = Some (ERR_NO_MEMORY, ptr, s2)"
    proof (cases "length ps < ?n")
      case True
      then show ?thesis unfolding u by (simp add: s2(1))
    next
      case nl: False
      then have "\<not> (mem \<and> (\<exists>v. wanted fl al ?v (4096 * ?n) ?a v))" using False len unfolding can_def by auto
      then have "alloc_region mem ?a name ?S ?v al fl VMM_REGION_FLAG_PHYSICAL mf = Some (None, ?a)" using ar by (simp only: if_False)
      then show ?thesis unfolding u m using nl by (simp add: s2(1))
    qed
    then show ?thesis using False s2(2,3) m2 by simp
  next
    case True
    then have c: "mem \<and> (\<exists>v. wanted fl al ?v (4096 * ?n) ?a v)" and ln: "length ps = ?n" using len unfolding can_def by auto
    from ar [unfolded if_P [OF c]] obtain r j where
      r: "alloc_region mem ?a name ?S ?v al fl VMM_REGION_FLAG_PHYSICAL mf = Some (Some r, ?a\<lparr>region_list := take j (region_list ?a) @ r # drop j (region_list ?a)\<rparr>)"
        "aspace_ok (?a\<lparr>region_list := take j (region_list ?a) @ r # drop j (region_list ?a)\<rparr>)"
        "wanted fl al ?v (4096 * ?n) ?a (rg_beg r)" "rg_size r = ?S" "rg_page_list r = []" by (elim exE conjE)
    let ?r = "r\<lparr>rg_page_list := ps\<rparr>"
    let ?a1 = "?a\<lparr>region_list := take j (region_list ?a) @ ?r # drop j (region_list ?a)\<rparr>"
    have ro: "regions_ok (as_beg ?a) (as_end ?a) (take j (region_list ?a) @ r # drop j (region_list ?a))" using r(2) by (simp add: aspace_ok_def)
    have sp: "set_pages (rg_base r) ps (?a\<lparr>region_list := take j (region_list ?a) @ r # drop j (region_list ?a)\<rparr>) = ?a1"
      by (rule set_pages_ins [OF regions_ok_distinct [OF ro]])
    have ok1: "aspace_ok ?a1" using r(2) by (simp add: aspace_ok_def regions_ok_pages)
    let ?s1 = "upd_aspace x (\<lambda>_. ?a1) s1"
    have "r \<in> set (take j (region_list ?a) @ r # drop j (region_list ?a))" by simp
    from regions_ok_bounds [OF ro this] have bd: "0 < unat (rg_size r)" "rg_end r \<le> 2 ^ 64" using ok by (auto simp: aspace_ok_def)
    have mp: "map_pages x r (rg_base r) mf ps ?s1 = Some (?s1\<lparr>mmu_calls := mmu_calls ?s1 @ page_maps x (rg_base r) mf ps ?s1\<rparr>)"
    proof (rule map_pages_ok [OF _ _ bd])
      show "pmm_inv ?s1" using i1 by simp
      show "set ps \<subseteq> all_pages ?s1" using ps(2) free_pages_all [OF inv] same_pmm_pages [OF sm] by auto
      show "rg_beg r + 4096 * length ps \<le> rg_end r" unfolding r(4) z(5) ln by simp
    qed
    have pm: "page_maps x (rg_base r) mf ps ?s1 = page_maps x (rg_base r) mf ps s"
      by (rule page_maps_cong) (simp add: same_pmm_paddr [OF sm])
    let ?s' = "?s1\<lparr>mmu_calls := mmu_calls ?s1 @ page_maps x (rg_base r) mf ps ?s1\<rparr>"
    have "IS_ALIGNED (rg_base r) PAGE_SIZE" unfolding IS_ALIGNED_page by (rule wanted_aligned [OF args r(3)])
    then have "vmm_alloc mem x name sz ptr al fl mf s = Some (NO_ERROR, map_option (\<lambda>_. rg_base ?r) ptr, ?s')"
      unfolding u m r(1) using ln by (simp add: sp mp)
    moreover have "vmm_allocated x ?r mf s ?s'"
    proof -
      have f: "pmm_inv ?s'" "free_pages ?s' = free_pages s1" "all_pages ?s' = all_pages s1"
        using i1 by (simp_all add: pmm_inv_def free_pages_def all_pages_def)
      have "region_added ?r (aspaces s x) (aspaces ?s' x)" unfolding region_added_def using ok1 by auto
      then show ?thesis unfolding vmm_allocated_def f(2,3) using ps f(1) ln r(4) z(5) same_pmm_pages [OF sm] m pm by simp
    qed
    ultimately show ?thesis using True ln r(3) by (simp only: if_True) (intro exI [of _ ?s'] exI [of _ ?r] conjI; simp)
  qed
qed

lemma find_region:
  assumes "regions_ok lo hi (xs @ r # ys)" and "hi \<le> 2 ^ 64"
  shows "List.find (\<lambda>q. rg_base r \<ge> rg_base q \<and> rg_base r \<le> rg_last q) (xs @ r # ys) = Some r"
  using assms
proof (induction xs arbitrary: lo)
  case Nil
  then have b: "0 < unat (rg_size r)" "rg_end r \<le> hi" using regions_ok_bounds [OF Nil.prems(1), of r] by simp_all
  have "unat (rg_last r) = rg_end r - 1" by (intro unat_rg_last b(1) order_trans [OF b(2) Nil.prems(2)])
  then have "rg_base r \<le> rg_last r" unfolding word_le_nat_alt using b(1) by linarith
  then show ?case by simp
next
  case (Cons q xs)
  then have ro: "regions_ok (rg_end q) hi (xs @ r # ys)" "0 < unat (rg_size q)" by simp_all
  have le: "rg_end q \<le> rg_beg r" using regions_ok_bounds [OF ro(1), of r] by simp
  have "rg_end q \<le> hi" using ro(1) by (rule regions_ok_le)
  then have "unat (rg_last q) = rg_end q - 1" by (intro unat_rg_last ro(2) order_trans [OF _ Cons.prems(2)])
  then have "\<not> rg_base r \<le> rg_last q" unfolding word_le_nat_alt using le ro(2) by linarith
  then show ?case using Cons.IH [OF ro(1) Cons.prems(2)] by simp
qed

lemma vmm_free_region_ok:
  fixes s s' :: "'a vmm_state_scheme"
  assumes inv: "pmm_inv s" and ok: "aspace_ok (aspaces s x)" and al: "vmm_allocated x r mf s s'"
  shows "\<exists>s''. vmm_free_region x (rg_base r) s' = Some (NO_ERROR, s'') \<and> aspaces s'' = aspaces s \<and>
     free_pages s'' = free_pages s \<and> pmm_inv s'' \<and>
     mmu_calls s'' = mmu_calls s' @ [Mmu_unmap x (rg_base r) (u32_of (unat (rg_size r div PAGE_SIZE)))]"
proof -
  let ?a = "aspaces s x" and ?a' = "aspaces s' x"
  from al have ra: "region_added r ?a ?a'" and oth: "\<forall>y. y \<noteq> x \<longrightarrow> aspaces s' y = aspaces s y"
    and ps: "distinct (rg_page_list r)" "set (rg_page_list r) \<subseteq> free_pages s" "free_pages s' = free_pages s - set (rg_page_list r)" "pmm_inv s'"
      "all_pages s' = all_pages s" unfolding vmm_allocated_def by blast+
  from ra obtain k where k: "?a' = ?a\<lparr>region_list := take k (region_list ?a) @ r # drop k (region_list ?a)\<rparr>" and ok': "aspace_ok ?a'"
    unfolding region_added_def by blast
  let ?xs = "take k (region_list ?a)" and ?ys = "drop k (region_list ?a)"
  have ro: "regions_ok (as_beg ?a) (as_end ?a) (?xs @ r # ?ys)" "as_end ?a \<le> 2 ^ 64" using ok' unfolding k by (simp_all add: aspace_ok_def)
  have fr: "vmm_find_region ?a' (rg_base r) = Some r" unfolding vmm_find_region_def k using find_region [OF ro] by simp
  have "r \<notin> set ?xs" using regions_ok_distinct [OF ro(1)] by auto
  then have rm: "remove1 r (?xs @ r # ?ys) = region_list ?a" by (simp add: remove1_append)
  let ?s1 = "mmu_call (Mmu_unmap x (rg_base r) (u32_of (unat (rg_size r div PAGE_SIZE)))) (upd_aspace x (\<lambda>a. a\<lparr>region_list := remove1 r (region_list a)\<rparr>) s')"
  have a1: "aspaces ?s1 = aspaces s"
  proof
    fix y
    have "?a'\<lparr>region_list := remove1 r (region_list ?a')\<rparr> = ?a" unfolding k by (simp add: rm)
    then show "aspaces ?s1 y = aspaces s y" using oth by simp
  qed
  have "set (rg_page_list r) \<subseteq> all_pages ?s1 - free_pages ?s1" using ps free_pages_all [OF inv] by auto
  moreover have "pmm_inv ?s1" using ps(4) by simp
  ultimately obtain s'' where s'': "pmm_free (rg_page_list r) ?s1 = Some (length (rg_page_list r), s'')" "pmm_inv s''"
    "free_pages s'' = free_pages ?s1 \<union> set (rg_page_list r)" "same_pmm ?s1 s''" using pmm_free_ok [OF _ ps(1)] by blast
  have m: "aspaces s'' = aspaces ?s1" "mmu_calls s'' = mmu_calls ?s1" using vmm_more [of s'' ?s1] s''(4) by (simp_all add: same_pmm_def)
  have "vmm_free_region x (rg_base r) s' = Some (NO_ERROR, s'')"
    unfolding vmm_free_region_def fr option.case Let_def s''(1) by simp
  moreover have "free_pages s'' = free_pages s" using s''(3) ps(2,3) by auto
  ultimately show ?thesis using m a1 s''(2) by (intro exI [of _ s'']) simp
qed

section \<open>A concrete state\<close>

text \<open>A user address space with one region of two pages at its start, on the memory of \<open>demo_pmm\<close>.\<close>

definition demo_aspace :: vmm_aspace where
  "demo_aspace = \<lparr>as_name = ''test'', as_flags = 0, as_base = USER_ASPACE_BASE, as_size = USER_ASPACE_SIZE,
     region_list = [\<lparr>rg_name = ''text'', rg_flags = 2, rg_arch_mmu_flags = 0, rg_base = USER_ASPACE_BASE, rg_size = 0x2000, rg_page_list = []\<rparr>]\<rparr>"

definition demo_vmm :: vmm_state where
  "demo_vmm = pmm_state.extend demo_pmm \<lparr>aspaces = (\<lambda>_. demo_aspace), aspace_list = [1, 0], thread_aspace = None, mmu_calls = []\<rparr>"

lemma demo_aspace_ok: "aspace_ok demo_aspace"
  by (simp add: aspace_ok_def demo_aspace_def USER_ASPACE_BASE_def USER_ASPACE_SIZE_def)

lemma demo_vmm_sel [simp]: "aspaces demo_vmm x = demo_aspace" "arenas demo_vmm = arenas demo_pmm" "arena_list demo_vmm = arena_list demo_pmm"
  by (simp_all add: demo_vmm_def pmm_state.extend_def demo_pmm_def)

lemma demo_vmm_inv: "pmm_inv demo_vmm"
  using demo_pmm_inv unfolding pmm_inv_def by simp

lemma demo_wanted: "wanted 0 al 0 0x3000 demo_aspace 0x1004000" if "al \<le> 14"
proof -
  have "(2::nat) ^ max 12 al dvd 2 ^ 14" using that by (intro le_imp_power_dvd) simp
  then have "(2::nat) ^ max 12 al dvd 0x1004000" by (rule dvd_trans) simp
  then show ?thesis by (simp add: wanted_def fits_al_def fits_def demo_aspace_def USER_ASPACE_BASE_def USER_ASPACE_SIZE_def)
qed

lemma demo_args: "alloc_args 0x2800 (Some 0) al 0" "page_count 0x2800 = 3" "vaddr_of (Some 0) 0 = 0" "first_free demo_vmm = 3" if "al < 64"
proof -
  show "alloc_args 0x2800 (Some 0) al 0" using that by (simp add: alloc_args_def)
  have "ROUNDUP (0x2800 :: u64) PAGE_SIZE = 0x3000" by (simp add: ROUNDUP_def PAGE_SIZE_def)
  then show "page_count 0x2800 = 3" by (simp add: page_count_def)
  show "vaddr_of (Some 0) 0 = 0" by (simp add: vaddr_of_def)
  show "first_free demo_vmm = 3" by (simp add: first_free_def demo_free)
qed

section \<open>Properties\<close>

text \<open>
  C27: \<^verbatim>\<open>alloc_region\<close> keeps the regions of an address space sorted, disjoint and inside it, and finds a place
  whenever there is one: at the address asked for if that range is free, otherwise at the lowest address with the
  alignment asked for that has enough room. It fails only when there is no such place or no memory for the structure,
  and then the address space is unchanged. Wrap-around at the end of the address space is covered.
\<close>

theorem alloc_region_first_fit:
  assumes "aspace_ok a" and "4096 dvd unat sz" and "0 < unat sz" and "al < 64"
  shows "if mem \<and> (\<exists>x. wanted fl al vaddr (unat sz) a x)
     then \<exists>r k. alloc_region mem a name sz vaddr al fl rf mf = Some (Some r, a\<lparr>region_list := take k (region_list a) @ r # drop k (region_list a)\<rparr>) \<and>
       aspace_ok (a\<lparr>region_list := take k (region_list a) @ r # drop k (region_list a)\<rparr>) \<and>
       wanted fl al vaddr (unat sz) a (rg_beg r) \<and> (\<forall>x. wanted fl al vaddr (unat sz) a x \<longrightarrow> rg_beg r \<le> x) \<and>
       rg_size r = sz \<and> rg_page_list r = []
     else alloc_region mem a name sz vaddr al fl rf mf = Some (None, a)"
  by (rule alloc_region_ok [OF assms])

theorem alloc_region_first_fit_witness:
  "(\<exists>r a. alloc_region True demo_aspace ''heap'' 0x3000 0 14 0 2 0 = Some (Some r, a) \<and> aspace_ok a \<and> rg_beg r \<le> 0x1004000) \<and>
   alloc_region True demo_aspace ''heap'' 0x3000 USER_ASPACE_BASE 14 1 2 0 = Some (None, demo_aspace)"
proof
  have d: "4096 dvd unat (0x3000 :: u64)" "0 < unat (0x3000 :: u64)" "(14::nat) < 64" by simp_all
  have w: "wanted 0 14 0 (unat (0x3000 :: u64)) demo_aspace 0x1004000" using demo_wanted [of 14] by simp
  then have c: "True \<and> (\<exists>x. wanted 0 14 0 (unat (0x3000 :: u64)) demo_aspace x)" by blast
  from alloc_region_first_fit [OF demo_aspace_ok d, of True 0 0 "''heap''" 2 0, unfolded if_P [OF c]] w
  show "\<exists>r a. alloc_region True demo_aspace ''heap'' 0x3000 0 14 0 2 0 = Some (Some r, a) \<and> aspace_ok a \<and> rg_beg r \<le> 0x1004000" by blast
  have "\<not> wanted 1 14 USER_ASPACE_BASE (unat (0x3000 :: u64)) demo_aspace x" for x
    by (simp add: wanted_def fits_def demo_aspace_def VMM_FLAG_VALLOC_SPECIFIC_def)
  with alloc_region_first_fit [OF demo_aspace_ok d, of True 1 USER_ASPACE_BASE "''heap''" 2 0]
  show "alloc_region True demo_aspace ''heap'' 0x3000 USER_ASPACE_BASE 14 1 2 0 = Some (None, demo_aspace)" by simp
qed



text \<open>
  C29: \<^verbatim>\<open>vmm_free_region\<close> undoes \<^verbatim>\<open>vmm_alloc\<close>: freeing the address a successful allocation returned
  unmaps the region, puts every page back and restores the address space.
\<close>

theorem vmm_free_undoes_alloc:
  fixes s :: "'a vmm_state_scheme"
  assumes "pmm_inv s" and "aspace_ok (aspaces s x)" and "alloc_args sz (Some p) al fl"
    and "vmm_alloc mem x name sz (Some p) al fl mf s = Some (NO_ERROR, Some v, s')"
  shows "\<exists>s''. vmm_free_region x v s' = Some (NO_ERROR, s'') \<and> aspaces s'' = aspaces s \<and> free_pages s'' = free_pages s \<and> pmm_inv s''"
proof -
  from vmm_alloc_ok [OF assms(1-3), of mem name mf] assms(4) obtain r where r: "v = rg_base r" "vmm_allocated x r mf s s'"
    by (auto split: if_splits)
  from vmm_free_region_ok [OF assms(1,2) r(2)] show ?thesis unfolding r(1) by blast
qed

theorem vmm_free_undoes_alloc_witness:
  "\<exists>v s' s''. vmm_alloc True 1 ''heap'' 0x2800 (Some 0) 0 0 5 demo_vmm = Some (NO_ERROR, Some v, s') \<and>
     vmm_free_region 1 v s' = Some (NO_ERROR, s'') \<and> free_pages s'' = free_pages demo_vmm"
proof -
  have ok: "aspace_ok (aspaces demo_vmm 1)" by (simp add: demo_aspace_ok)
  have ag: "alloc_args 0x2800 (Some 0) 0 0" by (rule demo_args(1)) simp
  have w: "\<exists>v. wanted 0 0 0 (4096 * 3) (aspaces demo_vmm 1) v" using demo_wanted [of 0] by (intro exI [of _ "0x1004000"]) simp
  from vmm_alloc_ok [OF demo_vmm_inv ok ag, of True "''heap''" 5, unfolded demo_args(2-4) [OF zero_less_numeral]] w obtain v s' where
    a: "vmm_alloc True 1 ''heap'' 0x2800 (Some 0) 0 0 5 demo_vmm = Some (NO_ERROR, Some v, s')"
    by (simp only: simp_thms if_True option.map order_refl) blast
  from vmm_free_undoes_alloc [OF demo_vmm_inv ok ag a] a show ?thesis by blast
qed

end
