(* ===== verification/LK_Novm.thy ===== *)
theory LK_Novm
  imports LK_Prelude
begin

text \<open>
  The page allocator of the builds without virtual memory: \<^verbatim>\<open>kernel/novm/novm.c\<close>. An arena is a run of
  pages with one byte of its map per page, zero for a free page. The map of an arena is a memory of its own, also
  where the source carves it out of the arena; a read or write outside of it is the value \<open>None\<close>. Each arena has
  a mutex, held around every access to the map, so an operation is one step.
\<close>

section \<open>Data and operations\<close>

definition MINIMUM_USEFUL_UNALIGNED_SIZE :: u64 where "MINIMUM_USEFUL_UNALIGNED_SIZE = 64"
definition NOVM_ARENA_ANY :: u32 where "NOVM_ARENA_ANY = 0xffffffff"

record novm_arena =
  nv_name :: string
  nv_pages :: nat
  nv_map :: "u8 list"
  nv_base :: u64
  nv_size :: u64
  unaligned_area :: "u64 option"
  unaligned_size :: u64

text \<open>The static array of arenas; its length is \<^verbatim>\<open>NOVM_MAX_ARENAS\<close>.\<close>

type_synonym novm = "novm_arena list"

definition novm_get_arenas :: "nat \<Rightarrow> novm \<Rightarrow> nat \<times> (u64 \<times> u64) list" where
  "novm_get_arenas number_of_ranges s =
     (let as = take number_of_ranges s in
      (fold (\<lambda>i found. if nv_pages (as ! i) > 0 then i + 1 else found) [0..<length as] 0,
       map (\<lambda>a. (nv_base a, of_nat (nv_pages a) * PAGE_SIZE)) as))"

definition in_arena :: "novm_arena \<Rightarrow> u64 \<Rightarrow> bool" where
  "in_arena n p \<longleftrightarrow> (if nv_size n = 0 then False else p \<ge> nv_base n \<and> p < nv_base n + nv_size n)"

text \<open>The loop that makes room for the map at the start of the arena: \<open>start\<close>, \<open>size\<close> and \<open>map_size\<close>.\<close>

function grab_map :: "u64 \<Rightarrow> u64 \<Rightarrow> u64 \<Rightarrow> u64 \<Rightarrow> u64 \<times> u64 \<times> u64" where
  "grab_map arena_start start sz map_size =
     (if start - arena_start < map_size then grab_map arena_start (start + PAGE_SIZE) (sz - PAGE_SIZE) (map_size - 1)
      else (start, sz, map_size))"
  by pat_completeness auto
termination
proof (relation "measure (\<lambda>(_, _, _, m). unat m)")
  fix arena_start start sz map_size :: u64
  assume "start - arena_start < map_size"
  then have "map_size \<noteq> 0" by auto
  then show "((arena_start, start + PAGE_SIZE, sz - PAGE_SIZE, map_size - 1), (arena_start, start, sz, map_size))
      \<in> measure (\<lambda>(_, _, _, m). unat m)"
    by (simp add: unat_minus_one word_neq_0_conv [symmetric] unat_gt_0)
qed simp

declare grab_map.simps [simp del]

text \<open>
  \<open>default_map\<close> is the size of the map the caller brings, if it does. The pointer comparison with the end of
  the map is signed.
\<close>

definition novm_init_helper :: "string \<Rightarrow> u64 \<Rightarrow> u64 \<Rightarrow> u64 option \<Rightarrow> novm_arena \<Rightarrow> novm_arena" where
  "novm_init_helper name arena_start arena_size default_map n =
     (let start = ROUNDUP arena_start PAGE_SIZE;
          sz = ROUNDDOWN (arena_start + arena_size) PAGE_SIZE - start;
          map_size = drop_bit PAGE_SIZE_SHIFT sz;
          own = (case default_map of None \<Rightarrow> True | Some m \<Rightarrow> m < map_size);
          (start, sz, map_size) = (if own then grab_map arena_start start sz map_size else (start, sz, map_size));
          gap = (if own then start - (arena_start + ROUNDUP map_size 4) else start - arena_start);
          n = (if (if own then sint gap \<ge> sint MINIMUM_USEFUL_UNALIGNED_SIZE else gap \<ge> MINIMUM_USEFUL_UNALIGNED_SIZE)
               then n\<lparr>unaligned_area := Some (if own then arena_start + ROUNDUP map_size 4 else arena_start), unaligned_size := gap\<rparr>
               else n)
      in n\<lparr>nv_name := name, nv_map := replicate (unat (if own then map_size else the default_map)) 0, nv_pages := unat map_size,
           nv_base := start, nv_size := sz\<rparr>)"

text \<open>With no arena left \<^verbatim>\<open>novm_add_arena\<close> panics.\<close>

fun novm_add_arena :: "string \<Rightarrow> u64 \<Rightarrow> u64 \<Rightarrow> novm \<Rightarrow> novm option" where
  "novm_add_arena name arena_start arena_size [] = None"
| "novm_add_arena name arena_start arena_size (n # s) =
     (if nv_pages n = 0 then Some (novm_init_helper name arena_start arena_size None n # s)
      else map_option ((#) n) (novm_add_arena name arena_start arena_size s))"

definition novm_init :: "u64 \<Rightarrow> u64 \<Rightarrow> u64 \<Rightarrow> novm \<Rightarrow> novm" where
  "novm_init mem_start mem_size default_map_size s =
     s[0 := novm_init_helper ''main'' mem_start mem_size (Some default_map_size) (s ! 0)]"

text \<open>The first used page among the \<open>n\<close> from \<open>i\<close> on, and the search for a run from \<open>i\<close> on.\<close>

definition first_nonzero :: "u8 list \<Rightarrow> nat \<Rightarrow> nat \<Rightarrow> nat option" where
  "first_nonzero m i n = List.find (\<lambda>j. m ! (i + j) \<noteq> 0) [0..<n]"

function novm_search :: "u8 list \<Rightarrow> nat \<Rightarrow> nat \<Rightarrow> nat \<Rightarrow> nat option" where
  "novm_search m tot pages i =
     (if i \<le> tot - pages
      then (case first_nonzero m i pages of None \<Rightarrow> Some i | Some j \<Rightarrow> novm_search m tot pages (i + j + 1))
      else None)"
  by pat_completeness auto
termination by (relation "measure (\<lambda>(_, tot, pages, i). Suc (tot - pages) - i)") auto

declare novm_search.simps [simp del]

definition write_run :: "u8 \<Rightarrow> nat \<Rightarrow> nat \<Rightarrow> u8 list \<Rightarrow> u8 list" where
  "write_run v i n m = take i m @ replicate n v @ drop (i + n) m"

definition novm_alloc_helper :: "novm_arena \<Rightarrow> nat \<Rightarrow> (u64 option \<times> novm_arena) option" where
  "novm_alloc_helper n pages =
     (if pages = 0 \<or> pages > nv_pages n then Some (None, n)
      else if nv_pages n > length (nv_map n) then None
      else (case novm_search (nv_map n) (nv_pages n) pages 0 of
              None \<Rightarrow> Some (None, n)
            | Some i \<Rightarrow> Some (Some (nv_base n + push_bit PAGE_SIZE_SHIFT (of_nat i)), n\<lparr>nv_map := write_run 1 i pages (nv_map n)\<rparr>)))"

text \<open>The loop over the arenas from number \<open>i\<close> on.\<close>

fun alloc_loop :: "nat \<Rightarrow> u32 \<Rightarrow> nat \<Rightarrow> novm \<Rightarrow> (u64 option \<times> novm) option" where
  "alloc_loop pages arena_bitmap i [] = Some (None, [])"
| "alloc_loop pages arena_bitmap i (n # s) =
     do {
       (r, n) \<leftarrow> (if arena_bitmap AND push_bit i 1 \<noteq> 0 then novm_alloc_helper n pages else Some (None, n));
       (case r of
          Some a \<Rightarrow> Some (Some a, n # s)
        | None \<Rightarrow> do { (r, s) \<leftarrow> alloc_loop pages arena_bitmap (Suc i) s; Some (r, n # s) })
     }"

definition novm_alloc_pages :: "nat \<Rightarrow> u32 \<Rightarrow> novm \<Rightarrow> (u64 option \<times> novm) option" where
  "novm_alloc_pages pages arena_bitmap s = alloc_loop pages arena_bitmap 0 s"

definition novm_alloc_unaligned :: "novm \<Rightarrow> (u64 option \<times> u64 \<times> novm) option" where
  "novm_alloc_unaligned s =
     (case unaligned_area (s ! 0) of
        Some a \<Rightarrow> Some (Some a, unaligned_size (s ! 0), s[0 := (s ! 0)\<lparr>unaligned_area := None, unaligned_size := 0\<rparr>])
      | None \<Rightarrow> do { (r, s) \<leftarrow> novm_alloc_pages 1 NOVM_ARENA_ANY s; Some (r, PAGE_SIZE, s) })"

fun find_arena :: "u64 \<Rightarrow> nat \<Rightarrow> novm \<Rightarrow> nat option" where
  "find_arena p i [] = None"
| "find_arena p i (n # s) = (if in_arena n p then Some i else find_arena p (Suc i) s)"

definition novm_free_pages :: "u64 \<Rightarrow> nat \<Rightarrow> novm \<Rightarrow> novm option" where
  "novm_free_pages address pages s =
     (case find_arena address 0 s of
        None \<Rightarrow> Some s
      | Some a \<Rightarrow> do {
          let index = unat (drop_bit PAGE_SIZE_SHIFT (address - nv_base (s ! a)));
          dassert (index + pages \<le> length (nv_map (s ! a)));
          Some (s[a := (s ! a)\<lparr>nv_map := write_run 0 index pages (nv_map (s ! a))\<rparr>])
        })"

text \<open>\<^verbatim>\<open>novm_alloc_specific_pages\<close> marks the pages as it goes and stops at the first that is in use.\<close>

fun specific_loop :: "nat \<Rightarrow> nat \<Rightarrow> u8 list \<Rightarrow> (status_t \<times> u8 list) option" where
  "specific_loop i 0 m = Some (NO_ERROR, m)"
| "specific_loop i (Suc n) m =
     do {
       dassert (i < length m);
       if m ! i \<noteq> 0 then Some (ERR_NO_MEMORY, m) else specific_loop (Suc i) n (m[i := 1])
     }"

definition novm_alloc_specific_pages :: "u64 \<Rightarrow> nat \<Rightarrow> novm \<Rightarrow> (status_t \<times> novm) option" where
  "novm_alloc_specific_pages address pages s =
     (case find_arena address 0 s of
        None \<Rightarrow> Some (ERR_NOT_FOUND, s)
      | Some a \<Rightarrow> do {
          let index = unat (drop_bit PAGE_SIZE_SHIFT (address - nv_base (s ! a)));
          (err, m) \<leftarrow> specific_loop index pages (nv_map (s ! a));
          Some (err, s[a := (s ! a)\<lparr>nv_map := m\<rparr>])
        })"

section \<open>Finding a run\<close>

definition run_zero :: "u8 list \<Rightarrow> nat \<Rightarrow> nat \<Rightarrow> bool" where
  "run_zero m i n \<longleftrightarrow> (\<forall>j < n. m ! (i + j) = 0)"

lemma first_nonzero_None: "first_nonzero m i n = None \<longleftrightarrow> run_zero m i n"
  by (auto simp: first_nonzero_def run_zero_def find_None_iff)

lemma first_nonzero_Some: "first_nonzero m i n = Some j \<Longrightarrow> j < n \<and> m ! (i + j) \<noteq> 0"
  by (auto simp: first_nonzero_def find_Some_iff)

lemma novm_search_ok:
  "case novm_search m tot pages i of
     Some k \<Rightarrow> i \<le> k \<and> k \<le> tot - pages \<and> run_zero m k pages \<and> (\<forall>k'. i \<le> k' \<and> k' < k \<longrightarrow> \<not> run_zero m k' pages)
   | None \<Rightarrow> \<forall>k. i \<le> k \<and> k \<le> tot - pages \<longrightarrow> \<not> run_zero m k pages"
proof (induction m tot pages i rule: novm_search.induct)
  case (1 m tot pages i)
  show ?case
  proof (cases "i \<le> tot - pages")
    case False
    then show ?thesis by (subst novm_search.simps) auto
  next
    case True
    show ?thesis
    proof (cases "first_nonzero m i pages")
      case None
      then have "run_zero m i pages" by (simp add: first_nonzero_None)
      then show ?thesis using True None by (subst novm_search.simps) auto
    next
      case (Some j)
      note j = first_nonzero_Some [OF Some]
      have skip: "\<not> run_zero m k pages" if "i \<le> k" "k < i + j + 1" for k
      proof
        assume "run_zero m k pages"
        moreover have "i + j - k < pages" "k + (i + j - k) = i + j" using that j by linarith+
        ultimately have "m ! (i + j) = 0" unfolding run_zero_def by metis
        then show False using j by simp
      qed
      have e: "novm_search m tot pages i = novm_search m tot pages (i + j + 1)" using True Some by (subst novm_search.simps) simp
      note ih = "1.IH" [OF True Some]
      show ?thesis
      proof (cases "novm_search m tot pages (i + j + 1)")
        case None
        from ih [unfolded None option.case] skip show ?thesis unfolding e None option.case by (metis not_le)
      next
        case (Some k)
        from ih [unfolded Some option.case] have k: "i + j + 1 \<le> k" "k \<le> tot - pages" "run_zero m k pages"
          "\<forall>k'. i + j + 1 \<le> k' \<and> k' < k \<longrightarrow> \<not> run_zero m k' pages" by blast+
        have "\<not> run_zero m k' pages" if "i \<le> k'" "k' < k" for k' using skip [OF that(1)] k(4) that(2) by (metis not_le)
        then show ?thesis unfolding e Some option.case using k(1-3) by simp
      qed
    qed
  qed
qed

lemma write_run_length [simp]: "i + n \<le> length m \<Longrightarrow> length (write_run v i n m) = length m"
  by (simp add: write_run_def)

lemma write_run_nth: "i + n \<le> length m \<Longrightarrow> k < length m \<Longrightarrow> write_run v i n m ! k = (if i \<le> k \<and> k < i + n then v else m ! k)"
  by (auto simp: write_run_def nth_append)

lemma write_run_undo: "i + n \<le> length m \<Longrightarrow> run_zero m i n \<Longrightarrow> write_run 0 i n (write_run 1 i n m) = m"
proof (rule nth_equalityI)
  assume le: "i + n \<le> length m" and z: "run_zero m i n"
  fix k assume "k < length (write_run 0 i n (write_run 1 i n m))"
  then have k: "k < length m" using le by simp
  have "m ! k = 0" if "i \<le> k" "k < i + n" using z that by (simp add: run_zero_def) (metis add_less_cancel_left le_add_diff_inverse)
  then show "write_run 0 i n (write_run 1 i n m) ! k = m ! k" using le k by (simp add: write_run_nth)
qed simp

section \<open>Arenas in order\<close>

definition novm_arena_ok :: "novm_arena \<Rightarrow> bool" where
  "novm_arena_ok n \<longleftrightarrow> nv_pages n \<le> length (nv_map n) \<and> unat (nv_size n) = 4096 * nv_pages n \<and>
     unat (nv_base n) + unat (nv_size n) < 2 ^ 64"

definition novm_ok :: "novm \<Rightarrow> bool" where
  "novm_ok s \<longleftrightarrow> (\<forall>n \<in> set s. novm_arena_ok n) \<and>
     (\<forall>i < length s. \<forall>j < length s. i \<noteq> j \<longrightarrow> 0 < nv_pages (s ! i) \<longrightarrow> 0 < nv_pages (s ! j) \<longrightarrow>
        unat (nv_base (s ! i)) + unat (nv_size (s ! i)) \<le> unat (nv_base (s ! j)) \<or>
        unat (nv_base (s ! j)) + unat (nv_size (s ! j)) \<le> unat (nv_base (s ! i)))"

text \<open>The lowest run of free pages of an arena.\<close>

definition lowest_run :: "novm_arena \<Rightarrow> nat \<Rightarrow> nat \<Rightarrow> bool" where
  "lowest_run n pages i \<longleftrightarrow> 0 < pages \<and> i + pages \<le> nv_pages n \<and> run_zero (nv_map n) i pages \<and>
     (\<forall>k < i. \<not> run_zero (nv_map n) k pages)"

lemma novm_alloc_helper_ok:
  assumes "nv_pages n \<le> length (nv_map n)"
  shows "if \<exists>i. 0 < pages \<and> i + pages \<le> nv_pages n \<and> run_zero (nv_map n) i pages
     then \<exists>i. lowest_run n pages i \<and> novm_alloc_helper n pages =
       Some (Some (nv_base n + push_bit PAGE_SIZE_SHIFT (of_nat i)), n\<lparr>nv_map := write_run 1 i pages (nv_map n)\<rparr>)
     else novm_alloc_helper n pages = Some (None, n)"
proof (cases "pages = 0 \<or> pages > nv_pages n")
  case True
  then show ?thesis by (auto simp: novm_alloc_helper_def)
next
  case False
  note ns = novm_search_ok [where m = "nv_map n" and tot = "nv_pages n" and pages = pages and i = 0]
  have e: "novm_alloc_helper n pages = (case novm_search (nv_map n) (nv_pages n) pages 0 of
              None \<Rightarrow> Some (None, n)
            | Some i \<Rightarrow> Some (Some (nv_base n + push_bit PAGE_SIZE_SHIFT (of_nat i)), n\<lparr>nv_map := write_run 1 i pages (nv_map n)\<rparr>))"
    using False assms by (simp add: novm_alloc_helper_def)
  have le: "i \<le> nv_pages n - pages \<longleftrightarrow> i + pages \<le> nv_pages n" for i using False by auto
  show ?thesis
  proof (cases "novm_search (nv_map n) (nv_pages n) pages 0")
    case None
    then show ?thesis using ns unfolding e by (simp add: le)
  next
    case (Some i)
    then have i: "i + pages \<le> nv_pages n" "run_zero (nv_map n) i pages" "\<forall>k < i. \<not> run_zero (nv_map n) k pages" using ns by (simp_all add: le)
    have p: "0 < pages" using False by simp
    have ex: "\<exists>i. 0 < pages \<and> i + pages \<le> nv_pages n \<and> run_zero (nv_map n) i pages" using p i by blast
    show ?thesis unfolding e Some option.case if_P [OF ex] lowest_run_def using p i by blast
  qed
qed

lemma page_addr:
  assumes ok: "novm_arena_ok n" and i: "i < nv_pages n"
  shows "in_arena n (nv_base n + push_bit PAGE_SIZE_SHIFT (of_nat i))"
    "unat (nv_base n + push_bit PAGE_SIZE_SHIFT (of_nat i)) = unat (nv_base n) + 4096 * i"
    "unat (drop_bit PAGE_SIZE_SHIFT (nv_base n + push_bit PAGE_SIZE_SHIFT (of_nat i) - nv_base n)) = i"
proof -
  have o: "unat (nv_size n) = 4096 * nv_pages n" "unat (nv_base n) + unat (nv_size n) < 2 ^ 64" using ok by (simp_all add: novm_arena_ok_def)
  have lt: "unat (nv_base n) + 4096 * i < 2 ^ 64" "4096 * i < 2 ^ 64" using o i by linarith+
  have "unat (of_nat i :: u64) = i" unfolding unat_of_nat by (rule mod_less) (use lt in simp)
  then have p: "unat (push_bit PAGE_SIZE_SHIFT (of_nat i) :: u64) = 4096 * i"
    unfolding PAGE_SIZE_SHIFT_def unsigned_push_bit_eq using lt(2) by (simp add: push_bit_eq_mult take_bit_eq_mod mult.commute)
  show a: "unat (nv_base n + push_bit PAGE_SIZE_SHIFT (of_nat i)) = unat (nv_base n) + 4096 * i"
    unfolding unat_word_ariths(1) p using lt(1) by simp
  have "unat (nv_base n + nv_size n) = unat (nv_base n) + unat (nv_size n)" unfolding unat_word_ariths(1) using o(2) by simp
  moreover have "nv_size n \<noteq> 0" using o(1) i by auto
  ultimately show "in_arena n (nv_base n + push_bit PAGE_SIZE_SHIFT (of_nat i))"
    unfolding in_arena_def word_le_nat_alt word_less_nat_alt a using o(1) i by simp
  have e: "nv_base n + push_bit PAGE_SIZE_SHIFT (of_nat i) - nv_base n = (push_bit PAGE_SIZE_SHIFT (of_nat i) :: u64)" by simp
  show "unat (drop_bit PAGE_SIZE_SHIFT (nv_base n + push_bit PAGE_SIZE_SHIFT (of_nat i) - nv_base n)) = i"
    unfolding e unat_drop_bit_eq p by (simp add: PAGE_SIZE_SHIFT_def drop_bit_eq_div)
qed

lemma in_arena_nat:
  assumes "novm_arena_ok n"
  shows "in_arena n p \<longleftrightarrow> unat (nv_base n) \<le> unat p \<and> unat p < unat (nv_base n) + unat (nv_size n)"
proof -
  have "unat (nv_base n) + unat (nv_size n) < 2 ^ 64" using assms by (simp add: novm_arena_ok_def)
  then have "unat (nv_base n + nv_size n) = unat (nv_base n) + unat (nv_size n)" unfolding unat_word_ariths(1) by simp
  then show ?thesis unfolding in_arena_def word_le_nat_alt word_less_nat_alt by (auto simp: unat_eq_0)
qed

lemma find_arena_nth:
  "a < length s \<Longrightarrow> in_arena (s ! a) p \<Longrightarrow> (\<And>j. j < a \<Longrightarrow> \<not> in_arena (s ! j) p) \<Longrightarrow> find_arena p i s = Some (i + a)"
proof (induction s arbitrary: i a)
  case (Cons n s)
  show ?case
  proof (cases a)
    case 0
    then show ?thesis using Cons.prems by simp
  next
    case (Suc b)
    have "\<not> in_arena n p" using Cons.prems(3) [of 0] Suc by simp
    moreover have "find_arena p (Suc i) s = Some (Suc i + b)"
      by (rule Cons.IH) (use Cons.prems(1,2) Cons.prems(3) [of "Suc _"] Suc in simp_all)
    ultimately show ?thesis using Suc by simp
  qed
qed simp

lemma find_arena_unique:
  assumes ok: "novm_ok s" and a: "a < length s" and p: "in_arena (s ! a) p"
  shows "find_arena p 0 s = Some a"
proof -
  have ar: "novm_arena_ok (s ! j)" if "j < length s" for j using ok that by (simp add: novm_ok_def)
  have pg: "0 < nv_pages (s ! j)" if "j < length s" "in_arena (s ! j) p" for j
    using that ar [OF that(1)] in_arena_nat [OF ar [OF that(1)]] by (cases "nv_pages (s ! j)") (auto simp: novm_arena_ok_def)
  have "\<not> in_arena (s ! j) p" if j: "j < a" for j
  proof
    assume q: "in_arena (s ! j) p"
    have jl: "j < length s" using j a by simp
    have "unat (nv_base (s ! j)) + unat (nv_size (s ! j)) \<le> unat (nv_base (s ! a)) \<or>
        unat (nv_base (s ! a)) + unat (nv_size (s ! a)) \<le> unat (nv_base (s ! j))"
      using ok jl a j pg [OF jl q] pg [OF a p] unfolding novm_ok_def by blast
    then show False using p q unfolding in_arena_nat [OF ar [OF a]] in_arena_nat [OF ar [OF jl]] by linarith
  qed
  then show ?thesis using find_arena_nth [OF a p, of 0] by simp
qed

section \<open>All arenas\<close>

definition can_alloc :: "u32 \<Rightarrow> nat \<Rightarrow> nat \<Rightarrow> novm_arena \<Rightarrow> bool" where
  "can_alloc arena_bitmap pages i n \<longleftrightarrow> arena_bitmap AND push_bit i 1 \<noteq> 0 \<and>
     (\<exists>k. 0 < pages \<and> k + pages \<le> nv_pages n \<and> run_zero (nv_map n) k pages)"

lemma alloc_loop_ok:
  assumes "\<forall>n \<in> set s. nv_pages n \<le> length (nv_map n)"
  shows "if \<exists>a < length s. can_alloc bm pages (i + a) (s ! a)
     then \<exists>a k. a < length s \<and> can_alloc bm pages (i + a) (s ! a) \<and> (\<forall>b < a. \<not> can_alloc bm pages (i + b) (s ! b)) \<and>
       lowest_run (s ! a) pages k \<and>
       alloc_loop pages bm i s = Some (Some (nv_base (s ! a) + push_bit PAGE_SIZE_SHIFT (of_nat k)),
         s[a := (s ! a)\<lparr>nv_map := write_run 1 k pages (nv_map (s ! a))\<rparr>])
     else alloc_loop pages bm i s = Some (None, s)"
  using assms
proof (induction s arbitrary: i)
  case Nil
  then show ?case by simp
next
  case (Cons n s)
  have nl: "nv_pages n \<le> length (nv_map n)" using Cons.prems by simp
  note h = novm_alloc_helper_ok [OF nl, of pages]
  show ?case
  proof (cases "can_alloc bm pages i n")
    case True
    then have ex: "\<exists>i. 0 < pages \<and> i + pages \<le> nv_pages n \<and> run_zero (nv_map n) i pages" and b: "bm AND push_bit i 1 \<noteq> 0"
      by (simp_all add: can_alloc_def)
    from h [unfolded if_P [OF ex]] obtain k where k: "lowest_run n pages k" "novm_alloc_helper n pages =
       Some (Some (nv_base n + push_bit PAGE_SIZE_SHIFT (of_nat k)), n\<lparr>nv_map := write_run 1 k pages (nv_map n)\<rparr>)" by blast
    have "\<exists>a < length (n # s). can_alloc bm pages (i + a) ((n # s) ! a)" using True by (intro exI [of _ 0]) simp
    then show ?thesis using True k b by (simp only: if_True) (intro exI [of _ 0] exI [of _ k], simp)
  next
    case False
    have sk: "(if bm AND push_bit i 1 \<noteq> 0 then novm_alloc_helper n pages else Some (None, n)) = Some (None, n)"
      using False h by (auto simp: can_alloc_def)
    have e: "alloc_loop pages bm i (n # s) = do { (r, s) \<leftarrow> alloc_loop pages bm (Suc i) s; Some (r, n # s) }"
      unfolding alloc_loop.simps sk by simp
    have sh: "(\<exists>a < length (n # s). can_alloc bm pages (i + a) ((n # s) ! a)) \<longleftrightarrow> (\<exists>a < length s. can_alloc bm pages (Suc i + a) (s ! a))"
      using False by (auto simp: less_Suc_eq_0_disj)
    have ih: "if \<exists>a < length s. can_alloc bm pages (Suc i + a) (s ! a)
     then \<exists>a k. a < length s \<and> can_alloc bm pages (Suc i + a) (s ! a) \<and> (\<forall>b < a. \<not> can_alloc bm pages (Suc i + b) (s ! b)) \<and>
       lowest_run (s ! a) pages k \<and>
       alloc_loop pages bm (Suc i) s = Some (Some (nv_base (s ! a) + push_bit PAGE_SIZE_SHIFT (of_nat k)),
         s[a := (s ! a)\<lparr>nv_map := write_run 1 k pages (nv_map (s ! a))\<rparr>])
     else alloc_loop pages bm (Suc i) s = Some (None, s)" using Cons.prems by (intro Cons.IH) simp
    show ?thesis
    proof (cases "\<exists>a < length s. can_alloc bm pages (Suc i + a) (s ! a)")
      case ex: True
      from ih [unfolded if_P [OF ex]] obtain a k where a: "a < length s" "can_alloc bm pages (Suc i + a) (s ! a)"
        "\<forall>b < a. \<not> can_alloc bm pages (Suc i + b) (s ! b)" "lowest_run (s ! a) pages k"
        "alloc_loop pages bm (Suc i) s = Some (Some (nv_base (s ! a) + push_bit PAGE_SIZE_SHIFT (of_nat k)),
           s[a := (s ! a)\<lparr>nv_map := write_run 1 k pages (nv_map (s ! a))\<rparr>])" by (elim exE conjE)
      have "\<forall>b < Suc a. \<not> can_alloc bm pages (i + b) ((n # s) ! b)" using False a(3) by (auto simp: less_Suc_eq_0_disj)
      then show ?thesis unfolding sh if_P [OF ex] e a(5) using a(1,2,4) by (intro exI [of _ "Suc a"] exI [of _ k]) simp
    next
      case ne: False
      from ih [unfolded if_not_P [OF ne]] show ?thesis unfolding sh if_not_P [OF ne] e by simp
    qed
  qed
qed

lemma novm_alloc_ok:
  assumes ok: "novm_ok s"
  shows "if \<exists>a < length s. can_alloc bm pages a (s ! a)
     then \<exists>a k s'. a < length s \<and> can_alloc bm pages a (s ! a) \<and> (\<forall>b < a. \<not> can_alloc bm pages b (s ! b)) \<and>
       lowest_run (s ! a) pages k \<and> s' = s[a := (s ! a)\<lparr>nv_map := write_run 1 k pages (nv_map (s ! a))\<rparr>] \<and>
       (\<exists>p. novm_alloc_pages pages bm s = Some (Some p, s') \<and> unat p = unat (nv_base (s ! a)) + 4096 * k \<and>
         novm_free_pages p pages s' = Some s)
     else novm_alloc_pages pages bm s = Some (None, s)"
proof -
  have ar: "novm_arena_ok (s ! j)" if "j < length s" for j using ok that by (simp add: novm_ok_def)
  have "\<forall>n \<in> set s. nv_pages n \<le> length (nv_map n)" using ok by (simp add: novm_ok_def novm_arena_ok_def)
  note al = alloc_loop_ok [OF this, of bm pages 0, unfolded add_0]
  show ?thesis
  proof (cases "\<exists>a < length s. can_alloc bm pages a (s ! a)")
    case ne: False
    from al [unfolded if_not_P [OF ne]] show ?thesis unfolding if_not_P [OF ne] novm_alloc_pages_def .
  next
    case ex: True
    from al [unfolded if_P [OF ex]] obtain a k where a: "a < length s" "can_alloc bm pages a (s ! a)"
      "\<forall>b < a. \<not> can_alloc bm pages b (s ! b)" "lowest_run (s ! a) pages k"
      "alloc_loop pages bm 0 s = Some (Some (nv_base (s ! a) + push_bit PAGE_SIZE_SHIFT (of_nat k)),
         s[a := (s ! a)\<lparr>nv_map := write_run 1 k pages (nv_map (s ! a))\<rparr>])" by (elim exE conjE)
    let ?n = "s ! a" and ?p = "nv_base (s ! a) + push_bit PAGE_SIZE_SHIFT (of_nat k)"
    let ?n' = "?n\<lparr>nv_map := write_run 1 k pages (nv_map ?n)\<rparr>"
    let ?s' = "s[a := ?n']"
    have lr: "k < nv_pages ?n" "k + pages \<le> length (nv_map ?n)" "run_zero (nv_map ?n) k pages"
      using a(4) ar [OF a(1)] by (auto simp: lowest_run_def novm_arena_ok_def)
    note pa = page_addr [OF ar [OF a(1)] lr(1)]
    have "novm_ok ?s'"
    proof -
      have sel: "nv_base (?s' ! j) = nv_base (s ! j)" "nv_size (?s' ! j) = nv_size (s ! j)" "nv_pages (?s' ! j) = nv_pages (s ! j)" if "j < length s" for j
        using that a(1) by (simp_all add: nth_list_update)
      have "novm_arena_ok (?s' ! j)" if "j < length s" for j
        using ar [OF that] lr(2) that a(1) by (auto simp: novm_arena_ok_def nth_list_update)
      then have "\<forall>n \<in> set ?s'. novm_arena_ok n" by (metis in_set_conv_nth length_list_update)
      moreover have "\<forall>i < length s. \<forall>j < length s. i \<noteq> j \<longrightarrow> 0 < nv_pages (s ! i) \<longrightarrow> 0 < nv_pages (s ! j) \<longrightarrow>
        unat (nv_base (s ! i)) + unat (nv_size (s ! i)) \<le> unat (nv_base (s ! j)) \<or>
        unat (nv_base (s ! j)) + unat (nv_size (s ! j)) \<le> unat (nv_base (s ! i))" using ok unfolding novm_ok_def by blast
      ultimately show ?thesis unfolding novm_ok_def by (simp add: sel)
    qed
    moreover have "in_arena ?n' ?p = in_arena ?n ?p" by (simp add: in_arena_def)
    then have "in_arena (?s' ! a) ?p" using pa(1) a(1) by simp
    ultimately have fa: "find_arena ?p 0 ?s' = Some a" using a(1) by (intro find_arena_unique) simp_all
    have "novm_free_pages ?p pages ?s' = Some (?s'[a := ?n'\<lparr>nv_map := write_run 0 k pages (nv_map ?n')\<rparr>])"
      unfolding novm_free_pages_def fa using a(1) pa(3) lr(2) by simp
    also have "?n'\<lparr>nv_map := write_run 0 k pages (nv_map ?n')\<rparr> = ?n" using write_run_undo [OF lr(2,3)] by simp
    finally have fr: "novm_free_pages ?p pages ?s' = Some s" by simp
    show ?thesis unfolding if_P [OF ex] novm_alloc_pages_def
      using a pa(2) fr by (intro exI [of _ a] exI [of _ k] exI [of _ ?s'] conjI exI [of _ ?p]) simp_all
  qed
qed

text \<open>Asking for given pages when a later one is in use fails, and keeps those before it.\<close>

lemma specific_loop_ok:
  assumes "i + n \<le> length m" and "j < n" and "run_zero m i j" and "m ! (i + j) \<noteq> 0"
  shows "specific_loop i n m = Some (ERR_NO_MEMORY, write_run 1 i j m)"
  using assms
proof (induction j arbitrary: i n m)
  case 0
  then show ?case by (cases n) (simp_all add: write_run_def)
next
  case (Suc j)
  then obtain k where n: "n = Suc k" by (cases n) simp_all
  have z: "m ! i = 0" using Suc.prems(3) by (auto simp: run_zero_def)
  have il: "i < length m" using Suc.prems(1) n by simp
  have rz: "run_zero (m[i := 1]) (Suc i) j"
    unfolding run_zero_def
  proof (intro allI impI)
    fix x assume "x < j"
    then have "m ! (i + Suc x) = 0" using Suc.prems(3) unfolding run_zero_def by blast
    then show "m[i := 1] ! (Suc i + x) = 0" by simp
  qed
  have "specific_loop (Suc i) k (m[i := 1]) = Some (ERR_NO_MEMORY, write_run 1 (Suc i) j (m[i := 1]))"
    by (rule Suc.IH) (use Suc.prems rz n in simp_all)
  moreover have "write_run 1 (Suc i) j (m[i := 1]) = write_run 1 i (Suc j) m"
    using il by (simp add: write_run_def take_Suc_conv_app_nth)
  ultimately show ?case using n z il by simp
qed

section \<open>Properties\<close>

definition demo_novm :: novm where
  "demo_novm = [\<lparr>nv_name = ''main'', nv_pages = 8, nv_map = [1, 0, 0, 1, 0, 0, 0, 0], nv_base = 0x80000000, nv_size = 0x8000,
     unaligned_area = None, unaligned_size = 0\<rparr>]"

lemma demo_novm_ok: "novm_ok demo_novm"
  by (simp add: novm_ok_def novm_arena_ok_def demo_novm_def)

text \<open>
  C36: \<^verbatim>\<open>novm_alloc_pages\<close> succeeds exactly when some arena of the bitmap has that many free pages in a row. It takes
  the lowest such run of the first such arena, returns its address, marks exactly its pages, and
  \<^verbatim>\<open>novm_free_pages\<close> of that address restores the state; otherwise nothing changes.
\<close>

theorem novm_alloc_lowest_run:
  assumes "novm_ok s"
  shows "if \<exists>a < length s. can_alloc bm pages a (s ! a)
     then \<exists>a k s'. a < length s \<and> can_alloc bm pages a (s ! a) \<and> (\<forall>b < a. \<not> can_alloc bm pages b (s ! b)) \<and>
       lowest_run (s ! a) pages k \<and> s' = s[a := (s ! a)\<lparr>nv_map := write_run 1 k pages (nv_map (s ! a))\<rparr>] \<and>
       (\<exists>p. novm_alloc_pages pages bm s = Some (Some p, s') \<and> unat p = unat (nv_base (s ! a)) + 4096 * k \<and>
         novm_free_pages p pages s' = Some s)
     else novm_alloc_pages pages bm s = Some (None, s)"
  by (rule novm_alloc_ok [OF assms])

theorem novm_alloc_lowest_run_witness:
  "(\<exists>p s'. novm_alloc_pages 3 NOVM_ARENA_ANY demo_novm = Some (Some p, s') \<and> novm_free_pages p 3 s' = Some demo_novm) \<and>
   novm_alloc_pages 5 NOVM_ARENA_ANY demo_novm = Some (None, demo_novm)"
proof
  have rz: "run_zero [1, 0, 0, 1, 0, 0, 0, 0] 4 3" by (auto simp: run_zero_def numeral_3_eq_3 less_Suc_eq)
  have "can_alloc NOVM_ARENA_ANY 3 0 (demo_novm ! 0)"
    unfolding can_alloc_def using rz by (auto simp: demo_novm_def NOVM_ARENA_ANY_def intro!: exI [of _ 4])
  then have ex: "\<exists>a < length demo_novm. can_alloc NOVM_ARENA_ANY 3 a (demo_novm ! a)" by (intro exI [of _ 0]) (simp add: demo_novm_def)
  from novm_alloc_lowest_run [OF demo_novm_ok, of NOVM_ARENA_ANY 3, unfolded if_P [OF ex]]
  show "\<exists>p s'. novm_alloc_pages 3 NOVM_ARENA_ANY demo_novm = Some (Some p, s') \<and> novm_free_pages p 3 s' = Some demo_novm" by blast
  have "\<not> run_zero [1, 0, 0, 1, 0, 0, 0, 0] k 5" if "k + 5 \<le> 8" for k
  proof
    assume z: "run_zero [1, 0, 0, 1, 0, 0, 0, 0] k 5"
    have "3 - k < 5" "k + (3 - k) = 3" using that by simp_all
    then have "[1, 0, 0, 1, 0, 0, 0, 0 :: u8] ! 3 = 0" using z unfolding run_zero_def by metis
    then show False by simp
  qed
  then have ne: "\<not> (\<exists>a < length demo_novm. can_alloc NOVM_ARENA_ANY 5 a (demo_novm ! a))" by (auto simp: can_alloc_def demo_novm_def)
  from novm_alloc_lowest_run [OF demo_novm_ok, of NOVM_ARENA_ANY 5, unfolded if_not_P [OF ne]]
  show "novm_alloc_pages 5 NOVM_ARENA_ANY demo_novm = Some (None, demo_novm)" .
qed

end
