(* ===== verification/LK_Miniheap.thy ===== *)
theory LK_Miniheap
  imports LK_Bytes
begin

text \<open>
  The heap, \<^verbatim>\<open>lib/heap/miniheap/miniheap.c\<close>, which the boards use unless they choose another: a list of free chunks in
  the order of their addresses, first fit, chunks that touch are joined. A chunk is its address with its length; the
  structure in front of an allocation is kept by the address of the allocation as long as the allocation lives.
  Addresses and sizes are natural numbers with the wrap-around at 64 bits written out (\<open>u64_of\<close>). Every operation holds the
  lock of the heap around its accesses to the list, so it is one step. Pages come from \<^verbatim>\<open>page_alloc\<close> and go back with
  \<^verbatim>\<open>page_free\<close> (\<open>LK_Heap\<close>), which are arguments here; the contract they keep is the locale \<open>page_source\<close>. \<open>None\<close> is a failed
  \<^verbatim>\<open>DEBUG_ASSERT\<close> or the use of memory that holds no chunk and no allocation.
\<close>

section \<open>Data\<close>

type_synonym chunk = "nat \<times> nat"

record alloc_struct_begin =
  as_magic :: nat
  as_ptr :: nat
  as_size :: nat

text \<open>\<open>free_list_at\<close> is the address of the list head \<^verbatim>\<open>theheap.free_list\<close>.\<close>

record heap =
  hp_base :: nat
  hp_len :: nat
  hp_remaining :: nat
  low_watermark :: nat
  free_chunks :: "chunk list"
  free_list_at :: nat
  allocs :: "nat \<Rightarrow> alloc_struct_begin option"

definition HEAP_MAGIC :: nat where "HEAP_MAGIC = 0x48454150"

text \<open>\<^verbatim>\<open>sizeof(struct free_heap_chunk)\<close> and \<^verbatim>\<open>sizeof(struct alloc_struct_begin)\<close> are both 24 with the magic number compiled in.\<close>

definition CHUNK_SIZE :: nat where "CHUNK_SIZE = 24"
definition BEGIN_SIZE :: nat where "BEGIN_SIZE = 24"
definition PAGE_LEN :: nat where "PAGE_LEN = 4096"

definition u64_of :: "int \<Rightarrow> nat" where "u64_of x = nat (x mod 2 ^ 64)"

text \<open>\<^verbatim>\<open>ROUNDUP\<close> and \<^verbatim>\<open>ROUNDDOWN\<close> at 64 bits, for a power of two.\<close>

definition roundup64 :: "nat \<Rightarrow> nat \<Rightarrow> nat" where
  "roundup64 a b = u64_of (int (a + (b - 1))) div b * b"

definition rounddown64 :: "nat \<Rightarrow> nat \<Rightarrow> nat" where
  "rounddown64 a b = a div b * b"

definition chunk_end :: "chunk \<Rightarrow> nat" where "chunk_end c = u64_of (int (fst c + snd c))"

section \<open>Free chunks\<close>

text \<open>
  After the walk over the whole list \<^verbatim>\<open>next_chunk\<close> points at the list head and not to \<^verbatim>\<open>NULL\<close>: a chunk that ends right
  below the head would be merged with it.
\<close>

definition heap_insert_free_chunk :: "chunk \<Rightarrow> heap \<Rightarrow> (nat \<times> heap) option" where
  "heap_insert_free_chunk c h =
     do {
       let h = h\<lparr>hp_remaining := u64_of (int (hp_remaining h) + int (snd c))\<rparr>;
       let before = takeWhile (\<lambda>n. \<not> fst c < fst n) (free_chunks h);
       let after = dropWhile (\<lambda>n. \<not> fst c < fst n) (free_chunks h);
       dassert (after \<noteq> [] \<longrightarrow> chunk_end c \<le> fst (hd after));
       let (before, c) =
         (if before \<noteq> [] \<and> chunk_end (last before) = fst c
          then (butlast before, (fst (last before), u64_of (int (snd (last before)) + int (snd c))))
          else (before, c));
       (case after of
          [] \<Rightarrow> do {
            dassert (chunk_end c \<noteq> free_list_at h);
            Some (fst c, h\<lparr>free_chunks := before @ [c]\<rparr>)
          }
        | n # rest \<Rightarrow>
            if chunk_end c = fst n
            then Some (fst c, h\<lparr>free_chunks := before @ (fst c, u64_of (int (snd c) + int (snd n))) # rest\<rparr>)
            else Some (fst c, h\<lparr>free_chunks := before @ c # n # rest\<rparr>))
     }"

definition heap_create_free_chunk :: "nat \<Rightarrow> nat \<Rightarrow> chunk option" where
  "heap_create_free_chunk ptr len = do { dassert (len mod 8 = 0); Some (ptr, len) }"

section \<open>Growing\<close>

definition heap_grow ::
  "(nat \<Rightarrow> 'p \<Rightarrow> (nat option \<times> 'p) option) \<Rightarrow> nat \<Rightarrow> heap \<Rightarrow> 'p \<Rightarrow> (int \<times> heap \<times> 'p) option" where
  "heap_grow page_alloc sz h p =
     do {
       let sz = roundup64 sz PAGE_LEN;
       (r, p) \<leftarrow> page_alloc (sz div PAGE_LEN) p;
       (case r of
          None \<Rightarrow> Some (ERR_NO_MEMORY, h, p)
        | Some ptr \<Rightarrow> do {
            c \<leftarrow> heap_create_free_chunk ptr sz;
            (_, h) \<leftarrow> heap_insert_free_chunk c h;
            let h = (if ptr < hp_base h \<or> hp_base h = 0 then h\<lparr>hp_base := ptr\<rparr> else h);
            let endptr = u64_of (int (ptr + sz));
            let h = (if endptr > u64_of (int (hp_base h + hp_len h))
                     then h\<lparr>hp_len := u64_of (int endptr - int (hp_base h))\<rparr> else h);
            Some (signed_take_bit 63 (int sz), h, p)
          })
     }"

section \<open>Allocation\<close>

definition alloc_align :: "nat \<Rightarrow> nat" where
  "alloc_align alignment = (if 0 < alignment \<and> alignment < 16 then 16 else alignment)"

definition alloc_size :: "nat \<Rightarrow> nat \<Rightarrow> nat" where
  "alloc_size sz alignment =
     (let sz = u64_of (int (sz + BEGIN_SIZE));
          sz = (if sz < CHUNK_SIZE then CHUNK_SIZE else sz);
          sz = roundup64 sz 8
      in if alignment > 0 then u64_of (int (sz + alloc_align alignment)) else sz)"

text \<open>The walk over the list up to the first chunk that is large enough.\<close>

fun heap_search :: "nat \<Rightarrow> chunk list \<Rightarrow> chunk list \<Rightarrow> (chunk list \<times> chunk \<times> chunk list) option option" where
  "heap_search sz before [] = Some None"
| "heap_search sz before (c # cs) =
     (if snd c mod 8 \<noteq> 0 then None
      else if snd c \<ge> sz then Some (Some (before, c, cs))
      else heap_search sz (before @ [c]) cs)"

definition heap_take :: "nat \<Rightarrow> nat \<Rightarrow> chunk list \<times> chunk \<times> chunk list \<Rightarrow> heap \<Rightarrow> (nat \<times> heap) option" where
  "heap_take sz alignment found h =
     do {
       let (before, (chunk, len), after) = found;
       (len, after) \<leftarrow>
         (if len > u64_of (int (sz + CHUNK_SIZE)) then do {
            newchunk \<leftarrow> heap_create_free_chunk (u64_of (int (chunk + sz))) (len - sz);
            Some (sz, newchunk # after)
          }
          else Some (len, after));
       dassert (len \<ge> sz);
       let ptr = u64_of (int (chunk + BEGIN_SIZE));
       let ptr = (if alignment > 0 then roundup64 ptr alignment else ptr);
       let remaining = u64_of (int (hp_remaining h) - int len);
       Some (ptr, h\<lparr>free_chunks := before @ after,
           allocs := (allocs h)(ptr \<mapsto> \<lparr>as_magic = HEAP_MAGIC, as_ptr = chunk, as_size = len\<rparr>),
           hp_remaining := remaining,
           low_watermark := (if remaining < low_watermark h then remaining else low_watermark h)\<rparr>)
     }"

definition heap_try_alloc :: "nat \<Rightarrow> nat \<Rightarrow> heap \<Rightarrow> (nat option \<times> heap) option" where
  "heap_try_alloc sz alignment h =
     do {
       r \<leftarrow> heap_search sz [] (free_chunks h);
       (case r of None \<Rightarrow> Some (None, h)
        | Some found \<Rightarrow> do { (ptr, h) \<leftarrow> heap_take sz alignment found h; Some (Some ptr, h) })
     }"

definition miniheap_alloc ::
  "(nat \<Rightarrow> 'p \<Rightarrow> (nat option \<times> 'p) option) \<Rightarrow> nat \<Rightarrow> u32 \<Rightarrow> heap \<Rightarrow> 'p \<Rightarrow> (nat option \<times> heap \<times> 'p) option" where
  "miniheap_alloc page_alloc sz alignment h p =
     (if alignment AND (alignment - 1) \<noteq> 0 then Some (None, h, p)
      else do {
        let sz = alloc_size sz (unat alignment);
        let alignment = alloc_align (unat alignment);
        (ptr, h) \<leftarrow> heap_try_alloc sz alignment h;
        if ptr \<noteq> None then Some (ptr, h, p)
        else do {
          (err, h, p) \<leftarrow> heap_grow page_alloc sz h p;
          if err \<ge> 0 then do {
            (ptr, h) \<leftarrow> heap_try_alloc sz alignment h;
            Some (ptr, h, p)
          }
          else Some (None, h, p)
        }
      })"

section \<open>Freeing\<close>

definition miniheap_free :: "nat option \<Rightarrow> heap \<Rightarrow> heap option" where
  "miniheap_free ptr h =
     (case ptr of
        None \<Rightarrow> Some h
      | Some ptr \<Rightarrow> do {
          as \<leftarrow> allocs h ptr;
          dassert (as_magic as = HEAP_MAGIC);
          c \<leftarrow> heap_create_free_chunk (as_ptr as) (as_size as);
          (_, h) \<leftarrow> heap_insert_free_chunk c (h\<lparr>allocs := (allocs h)(ptr := None)\<rparr>);
          Some h
        })"

text \<open>The copy \<^verbatim>\<open>miniheap_realloc\<close> makes is returned: destination, source and length.\<close>

definition miniheap_realloc ::
  "(nat \<Rightarrow> 'p \<Rightarrow> (nat option \<times> 'p) option) \<Rightarrow> nat option \<Rightarrow> nat \<Rightarrow> heap \<Rightarrow> 'p \<Rightarrow>
     (nat option \<times> (nat \<times> nat \<times> nat) option \<times> heap \<times> 'p) option" where
  "miniheap_realloc page_alloc ptr sz h p =
     (case ptr of
        None \<Rightarrow> do { (r, h, p) \<leftarrow> miniheap_alloc page_alloc sz 0 h p; Some (r, None, h, p) }
      | Some old \<Rightarrow>
          if sz = 0 then do { h \<leftarrow> miniheap_free ptr h; Some (None, None, h, p) }
          else do {
            (r, h, p) \<leftarrow> miniheap_alloc page_alloc sz 0 h p;
            (case r of
               None \<Rightarrow> Some (None, None, h, p)
             | Some new \<Rightarrow> do { h \<leftarrow> miniheap_free ptr h; Some (Some new, Some (new, old, sz), h, p) })
          })"

section \<open>Giving pages back\<close>

text \<open>
  One chunk of \<^verbatim>\<open>miniheap_trim\<close>: the pages it can give back, moved inwards as long as what would be left before or after them is
  too small for a chunk; then the chunks that stay and the pages.
\<close>

function trim_pages :: "nat \<Rightarrow> nat \<Rightarrow> nat \<Rightarrow> nat \<Rightarrow> (nat \<times> nat) option" where
  "trim_pages start fin start_page end_page =
     (if end_page > start_page then
        if start_page \<noteq> start \<and> start_page - start < CHUNK_SIZE then trim_pages start fin (start_page + PAGE_LEN) end_page
        else if end_page < fin \<and> fin - end_page < CHUNK_SIZE then trim_pages start fin start_page (end_page - PAGE_LEN)
        else Some (start_page, end_page)
      else None)"
  by pat_completeness auto

termination
  by (relation "measure (\<lambda>(_, _, s, e). e - s)") (auto simp: PAGE_LEN_def)

definition trim_chunk :: "chunk \<Rightarrow> (chunk list \<times> (nat \<times> nat) option) option" where
  "trim_chunk c =
     do {
       let start = fst c;
       let fin = chunk_end c;
       dassert (fin > start);
       let start_page = roundup64 start PAGE_LEN;
       let end_page = rounddown64 fin PAGE_LEN;
       dassert (end_page \<le> fin \<and> start_page \<ge> start);
       (case trim_pages start fin start_page end_page of
          None \<Rightarrow> Some ([c], None)
        | Some (start_page, end_page) \<Rightarrow> do {
            after \<leftarrow> (if end_page < fin then do { n \<leftarrow> heap_create_free_chunk end_page (fin - end_page); Some [n] } else Some []);
            let len = (if end_page < fin then snd c - (fin - end_page) else snd c);
            let keep = (if start_page = start then [] else [(start, len - (end_page - start_page))]);
            Some (keep @ after, Some (start_page, end_page))
          })
     }"

fun trim_chunks ::
  "(nat \<Rightarrow> nat \<Rightarrow> 'p \<Rightarrow> 'p option) \<Rightarrow> chunk list \<Rightarrow> nat \<Rightarrow> 'p \<Rightarrow> (chunk list \<times> nat \<times> 'p) option" where
  "trim_chunks page_free [] remaining p = Some ([], remaining, p)"
| "trim_chunks page_free (c # cs) remaining p =
     do {
       (keep, pages) \<leftarrow> trim_chunk c;
       (remaining, p) \<leftarrow>
         (case pages of
            None \<Rightarrow> Some (remaining, p)
          | Some (s, e) \<Rightarrow> do {
              p \<leftarrow> page_free s ((e - s) div PAGE_LEN) p;
              Some (u64_of (int remaining - int (e - s)), p)
            });
       (cs, remaining, p) \<leftarrow> trim_chunks page_free cs remaining p;
       Some (keep @ cs, remaining, p)
     }"

definition miniheap_trim :: "(nat \<Rightarrow> nat \<Rightarrow> 'p \<Rightarrow> 'p option) \<Rightarrow> heap \<Rightarrow> 'p \<Rightarrow> (heap \<times> 'p) option" where
  "miniheap_trim page_free h p =
     do {
       (cs, remaining, p) \<leftarrow> trim_chunks page_free (free_chunks h) (hp_remaining h) p;
       Some (h\<lparr>free_chunks := cs, hp_remaining := remaining\<rparr>, p)
     }"

section \<open>Statistics and start\<close>

record miniheap_stats =
  heap_start :: nat
  heap_len :: nat
  heap_free :: nat
  heap_max_chunk :: nat
  heap_low_watermark :: nat

definition miniheap_get_stats :: "heap \<Rightarrow> miniheap_stats" where
  "miniheap_get_stats h =
     \<lparr>heap_start = hp_base h, heap_len = hp_len h,
      heap_free = fold (\<lambda>c n. u64_of (int n + int (snd c))) (free_chunks h) 0,
      heap_max_chunk = fold (\<lambda>c m. if snd c > m then snd c else m) (free_chunks h) 0,
      heap_low_watermark = low_watermark h\<rparr>"

definition miniheap_init :: "nat \<Rightarrow> nat \<Rightarrow> heap \<Rightarrow> heap option" where
  "miniheap_init ptr len h =
     do {
       let h = h\<lparr>hp_base := ptr, hp_len := len, hp_remaining := 0, low_watermark := 0, free_chunks := []\<rparr>;
       if len > 0 then do {
         c \<leftarrow> heap_create_free_chunk ptr len;
         (_, h) \<leftarrow> heap_insert_free_chunk c h;
         Some h
       }
       else Some h
     }"

lemma u64_of_id: "n < 2 ^ 64 \<Longrightarrow> u64_of (int n) = n"
  by (simp add: u64_of_def nat_mod_as_int)

lemma u64_of_sum: "a + b < 2 ^ 64 \<Longrightarrow> u64_of (int a + int b) = a + b"
  using u64_of_id [of "a + b"] by simp

lemma u64_of_diff: "b \<le> a \<Longrightarrow> a < 2 ^ 64 \<Longrightarrow> u64_of (int a - int b) = a - b"
  using u64_of_id [of "a - b"] by (simp add: of_nat_diff)

section \<open>Lists of chunks\<close>

definition gapped :: "chunk list \<Rightarrow> bool" where
  "gapped = sorted_wrt (\<lambda>c n. fst c + snd c < fst n)"

definition chunk_ok :: "chunk \<Rightarrow> bool" where
  "chunk_ok c \<longleftrightarrow> 0 < fst c \<and> 8 dvd fst c \<and> 8 dvd snd c \<and> CHUNK_SIZE \<le> snd c \<and> fst c + snd c + 4096 \<le> 2 ^ 64"

definition extent :: "chunk \<Rightarrow> nat set" where "extent c = {fst c..<fst c + snd c}"

definition chunk_bytes :: "chunk list \<Rightarrow> nat set" where
  "chunk_bytes cs = (\<Union>c\<in>set cs. extent c)"

lemma chunk_bytes_simps [simp]:
  "chunk_bytes [] = {}" "chunk_bytes (c # cs) = extent c \<union> chunk_bytes cs"
  "chunk_bytes (cs @ ds) = chunk_bytes cs \<union> chunk_bytes ds"
  by (auto simp: chunk_bytes_def)

lemma finite_chunk_bytes [simp]: "finite (extent c)" "finite (chunk_bytes cs)"
  by (auto simp: chunk_bytes_def extent_def)

lemma card_extent [simp]: "card (extent c) = snd c"
  by (simp add: extent_def)

lemma gapped_simps [simp]:
  "gapped []" "gapped (c # cs) \<longleftrightarrow> (\<forall>n\<in>set cs. fst c + snd c < fst n) \<and> gapped cs"
  "gapped (cs @ ds) \<longleftrightarrow> gapped cs \<and> gapped ds \<and> (\<forall>c\<in>set cs. \<forall>n\<in>set ds. fst c + snd c < fst n)"
  by (auto simp: gapped_def sorted_wrt_append)

lemma chunk_end_ok: "chunk_ok c \<Longrightarrow> chunk_end c = fst c + snd c"
  by (simp add: chunk_end_def chunk_ok_def u64_of_sum)

text \<open>The bytes determine the list: a list of chunks that do not touch is canonical.\<close>

lemma chunk_bytes_apart:
  assumes "\<forall>n\<in>set cs. fst c + snd c < fst n"
  shows "extent c \<inter> chunk_bytes cs = {}" "fst c + snd c \<notin> chunk_bytes cs"
  using assms by (fastforce simp: chunk_bytes_def extent_def)+

lemma gapped_unique:
  assumes "gapped cs" and "gapped ds" and "\<forall>c\<in>set cs \<union> set ds. 0 < snd c" and "chunk_bytes cs = chunk_bytes ds"
  shows "cs = ds"
  using assms
proof (induction cs arbitrary: ds)
  case Nil
  then show ?case by (cases ds) (auto simp: extent_def)
next
  case (Cons c cs)
  then obtain d es where ds: "ds = d # es" by (cases ds) (auto simp: extent_def)
  note g = Cons.prems [unfolded ds]
  have lo: "fst c \<le> x" if "x \<in> chunk_bytes (c # cs)" for x using that g(1) by (force simp: chunk_bytes_def extent_def)
  have lo': "fst d \<le> x" if "x \<in> chunk_bytes (d # es)" for x using that g(2) by (force simp: chunk_bytes_def extent_def)
  have "fst c \<in> chunk_bytes (c # cs)" "fst d \<in> chunk_bytes (d # es)" using g(3) by (auto simp: extent_def)
  then have f: "fst c = fst d" using lo [of "fst d"] lo' [of "fst c"] g(4) by force
  have "fst c + snd c \<notin> chunk_bytes (c # cs)" "fst d + snd d \<notin> chunk_bytes (d # es)"
    using chunk_bytes_apart(2) [of cs c] chunk_bytes_apart(2) [of es d] g(1,2) by (auto simp: extent_def)
  moreover have "fst c + snd c \<in> extent d" if "snd c < snd d" using that f by (auto simp: extent_def)
  moreover have "fst d + snd d \<in> extent c" if "snd d < snd c" using that f by (auto simp: extent_def)
  ultimately have "snd c = snd d" using g(4) by (metis UnI1 chunk_bytes_simps(2) nat_neq_iff)
  with f have cd: "c = d" by (simp add: prod_eq_iff)
  have "chunk_bytes cs = chunk_bytes es"
    using g(4) chunk_bytes_apart(1) [of cs c] chunk_bytes_apart(1) [of es c] g(1,2) unfolding cd by auto
  with Cons.IH [of es] g cd ds show ?case by auto
qed

lemma gapped_split:
  assumes "gapped cs" and "\<forall>c\<in>set cs. chunk_ok c" and "0 < snd c" and "extent c \<inter> chunk_bytes cs = {}"
  shows "\<forall>b\<in>set (takeWhile (\<lambda>n. \<not> fst c < fst n) cs). fst b + snd b \<le> fst c"
    "\<forall>a\<in>set (dropWhile (\<lambda>n. \<not> fst c < fst n) cs). fst c + snd c \<le> fst a"
proof -
  have pos: "0 < snd n" if "n \<in> set cs" for n using assms(2) that by (auto simp: chunk_ok_def CHUNK_SIZE_def)
  have dis: "extent c \<inter> extent n = {}" if "n \<in> set cs" for n using assms(4) that by (auto simp: chunk_bytes_def)
  have "fst b + snd b \<le> fst c" if "b \<in> set cs" "fst b \<le> fst c" for b
    using dis [OF that(1)] that(2) assms(3) by (auto simp: extent_def disjoint_iff)
  then show "\<forall>b\<in>set (takeWhile (\<lambda>n. \<not> fst c < fst n) cs). fst b + snd b \<le> fst c"
    by (auto dest: set_takeWhileD)
  have "fst c < fst a" if "a \<in> set (dropWhile (\<lambda>n. \<not> fst c < fst n) cs)" for a
    using that assms(1) by (induction cs) (auto split: if_splits)
  moreover have "fst c + snd c \<le> fst a" if "a \<in> set cs" "fst c < fst a" for a
    using dis [OF that(1)] pos [OF that(1)] that(2) by (auto simp: extent_def disjoint_iff)
  ultimately show "\<forall>a\<in>set (dropWhile (\<lambda>n. \<not> fst c < fst n) cs). fst c + snd c \<le> fst a"
    using set_dropWhileD by metis
qed

lemma extent_join: "fst b + snd b = fst c \<Longrightarrow> extent (fst b, snd b + snd c) = extent b \<union> extent c"
  by (auto simp: extent_def)

lemma chunk_ok_join: "chunk_ok b \<Longrightarrow> chunk_ok c \<Longrightarrow> fst b + snd b = fst c \<Longrightarrow> chunk_ok (fst b, snd b + snd c)"
  by (auto simp: chunk_ok_def)

lemma join_prev:
  assumes "gapped before" and "\<forall>b\<in>set before. chunk_ok b \<and> fst b + snd b \<le> fst c" and "chunk_ok c"
    and "(before', c') = (if before \<noteq> [] \<and> chunk_end (last before) = fst c
          then (butlast before, (fst (last before), u64_of (int (snd (last before)) + int (snd c)))) else (before, c))"
  shows "gapped before'" "\<forall>b\<in>set before'. chunk_ok b \<and> fst b + snd b < fst c'" "chunk_ok c'" "fst c' + snd c' = fst c + snd c"
    "chunk_bytes before' \<union> extent c' = chunk_bytes before \<union> extent c"
proof -
  have "gapped before' \<and> (\<forall>b\<in>set before'. chunk_ok b \<and> fst b + snd b < fst c') \<and> chunk_ok c' \<and> fst c' + snd c' = fst c + snd c \<and>
    chunk_bytes before' \<union> extent c' = chunk_bytes before \<union> extent c"
  proof (cases before rule: rev_cases)
    case Nil
    with assms show ?thesis by simp
  next
    case (snoc bs b)
    have b: "chunk_ok b" "fst b + snd b \<le> fst c" using assms(2) snoc by auto
    have lt: "fst x + snd x < fst b" if "x \<in> set bs" for x using assms(1) snoc that by auto
    show ?thesis
    proof (cases "fst b + snd b = fst c")
      case True
      then have "u64_of (int (snd b) + int (snd c)) = snd b + snd c" using assms(3) by (intro u64_of_sum) (auto simp: chunk_ok_def)
      with True have e: "before' = bs" "c' = (fst b, snd b + snd c)" using assms(4) snoc chunk_end_ok [OF b(1)] by auto
      show ?thesis
        using assms(1,2) lt snoc True chunk_ok_join [OF b(1) assms(3) True] extent_join [OF True] unfolding e by auto
    next
      case False
      then have e: "before' = before" "c' = c" using assms(4) snoc chunk_end_ok [OF b(1)] by auto
      show ?thesis using assms(1-3) b(2) False lt snoc unfolding e by (fastforce simp: chunk_ok_def)
    qed
  qed
  then show "gapped before'" "\<forall>b\<in>set before'. chunk_ok b \<and> fst b + snd b < fst c'" "chunk_ok c'" "fst c' + snd c' = fst c + snd c"
    "chunk_bytes before' \<union> extent c' = chunk_bytes before \<union> extent c" by blast+
qed

definition chunks_ok :: "heap \<Rightarrow> bool" where
  "chunks_ok h \<longleftrightarrow> gapped (free_chunks h) \<and> (\<forall>c\<in>set (free_chunks h). chunk_ok c) \<and>
     hp_remaining h = card (chunk_bytes (free_chunks h))"

lemma chunk_bytes_bound: "\<forall>c\<in>set cs. chunk_ok c \<Longrightarrow> chunk_bytes cs \<subseteq> {1..<2 ^ 64}"
  by (auto simp: chunk_bytes_def extent_def chunk_ok_def)

lemma insert_chunk_ok:
  assumes h: "chunks_ok h" and c: "chunk_ok c" and dis: "extent c \<inter> chunk_bytes (free_chunks h) = {}"
    and hd: "0 < free_list_at h" "free_list_at h - 1 \<notin> chunk_bytes (free_chunks h) \<union> extent c"
  obtains r cs where "heap_insert_free_chunk c h = Some (r, h\<lparr>hp_remaining := hp_remaining h + snd c, free_chunks := cs\<rparr>)"
    and "chunks_ok (h\<lparr>hp_remaining := hp_remaining h + snd c, free_chunks := cs\<rparr>)"
    and "chunk_bytes cs = chunk_bytes (free_chunks h) \<union> extent c"
proof -
  let ?P = "\<lambda>n. \<not> fst c < fst n"
  let ?fl = "free_chunks h"
  define before where "before = takeWhile ?P ?fl"
  define after where "after = dropWhile ?P ?fl"
  have fl: "?fl = before @ after" by (simp add: before_def after_def)
  have g: "gapped before" "gapped after" and ok: "\<forall>b\<in>set before. chunk_ok b" "\<forall>a\<in>set after. chunk_ok a"
    and ba: "\<forall>b\<in>set before. \<forall>a\<in>set after. fst b + snd b < fst a"
    using h unfolding chunks_ok_def fl by auto
  have pos: "0 < snd c" using c by (simp add: chunk_ok_def CHUNK_SIZE_def)
  have sp: "\<forall>b\<in>set before. fst b + snd b \<le> fst c" "\<forall>a\<in>set after. fst c + snd c \<le> fst a"
    unfolding before_def after_def using h gapped_split [OF _ _ pos dis] by (auto simp: chunks_ok_def)
  obtain before' c' where e: "(before', c') = (if before \<noteq> [] \<and> chunk_end (last before) = fst c
          then (butlast before, (fst (last before), u64_of (int (snd (last before)) + int (snd c)))) else (before, c))"
    by (metis surj_pair)
  note j = join_prev [OF g(1) _ c e]
  have j1: "gapped before'" "\<forall>b\<in>set before'. chunk_ok b \<and> fst b + snd b < fst c'" "chunk_ok c'" "fst c' + snd c' = fst c + snd c"
    "chunk_bytes before' \<union> extent c' = chunk_bytes before \<union> extent c"
    using j ok(1) sp(1) by blast+
  have b'a: "fst b + snd b < fst a" if "b \<in> set before'" "a \<in> set after" for b a
    using j1(2,3,4) sp(2) that by fastforce
  have un: "chunk_bytes ?fl \<union> extent c = chunk_bytes before' \<union> extent c' \<union> chunk_bytes after" using j1(5) fl by auto
  have card: "card (chunk_bytes ?fl \<union> extent c) = hp_remaining h + snd c"
    using h dis by (subst card_Un_disjoint) (auto simp: chunks_ok_def)
  have "chunk_bytes ?fl \<union> extent c \<subseteq> {1..<2 ^ 64}"
    using chunk_bytes_bound [of "c # ?fl"] h c by (auto simp: chunks_ok_def)
  then have "card (chunk_bytes ?fl \<union> extent c) \<le> card {1..<2 ^ 64 :: nat}" by (intro card_mono) auto
  then have rem: "u64_of (int (hp_remaining h) + int (snd c)) = hp_remaining h + snd c" unfolding card by (intro u64_of_sum) simp
  note ce = chunk_end_ok [OF c] chunk_end_ok [OF j1(3)]
  have asr: "after \<noteq> [] \<longrightarrow> chunk_end c \<le> fst (hd after)" using sp(2) ce by auto
  have sel: "free_chunks (h\<lparr>hp_remaining := x\<rparr>) = free_chunks h" for x by simp
  have step: "heap_insert_free_chunk c h = (case after of
          [] \<Rightarrow> do { dassert (chunk_end c' \<noteq> free_list_at h); Some (fst c', h\<lparr>hp_remaining := hp_remaining h + snd c, free_chunks := before' @ [c']\<rparr>) }
        | n # rest \<Rightarrow>
            if chunk_end c' = fst n
            then Some (fst c', h\<lparr>hp_remaining := hp_remaining h + snd c, free_chunks := before' @ (fst c', u64_of (int (snd c') + int (snd n))) # rest\<rparr>)
            else Some (fst c', h\<lparr>hp_remaining := hp_remaining h + snd c, free_chunks := before' @ c' # n # rest\<rparr>))"
    unfolding heap_insert_free_chunk_def Let_def rem sel
    unfolding before_def [symmetric] after_def [symmetric] e [symmetric] using asr by (simp split: list.split)
  show ?thesis
  proof (cases after)
    case Nil
    have "fst c' + snd c' \<noteq> free_list_at h"
    proof
      assume "fst c' + snd c' = free_list_at h"
      then have "free_list_at h - 1 \<in> extent c" using pos j1(4) by (auto simp: extent_def)
      with hd show False by simp
    qed
    then have "heap_insert_free_chunk c h = Some (fst c', h\<lparr>hp_remaining := hp_remaining h + snd c, free_chunks := before' @ [c']\<rparr>)"
      using step Nil ce by simp
    moreover have "chunk_bytes (before' @ [c']) = chunk_bytes ?fl \<union> extent c" using un Nil by simp
    moreover have "gapped (before' @ [c'])" "\<forall>c\<in>set (before' @ [c']). chunk_ok c" using j1 by auto
    ultimately show ?thesis using that card by (simp add: chunks_ok_def)
  next
    case (Cons n rest)
    have n: "chunk_ok n" "\<forall>a\<in>set rest. fst n + snd n < fst a" "fst c + snd c \<le> fst n" using ok g sp(2) Cons by auto
    show ?thesis
    proof (cases "fst c' + snd c' = fst n")
      case True
      then have u: "u64_of (int (snd c') + int (snd n)) = snd c' + snd n" using n by (intro u64_of_sum) (auto simp: chunk_ok_def)
      let ?cs = "before' @ (fst c', snd c' + snd n) # rest"
      have "heap_insert_free_chunk c h = Some (fst c', h\<lparr>hp_remaining := hp_remaining h + snd c, free_chunks := ?cs\<rparr>)"
        using step Cons ce True u by simp
      moreover have "chunk_bytes ?cs = chunk_bytes ?fl \<union> extent c" using un Cons extent_join [OF True] by auto
      moreover have "gapped ?cs" using j1(1,2) b'a n(2) g(2) Cons True by auto
      moreover have "\<forall>c\<in>set ?cs. chunk_ok c" using chunk_ok_join [OF j1(3) n(1) True] j1(2) ok(2) Cons by auto
      ultimately show ?thesis using that card by (simp add: chunks_ok_def)
    next
      case False
      let ?cs = "before' @ c' # n # rest"
      have "heap_insert_free_chunk c h = Some (fst c', h\<lparr>hp_remaining := hp_remaining h + snd c, free_chunks := ?cs\<rparr>)"
        using step Cons ce False by simp
      moreover have "chunk_bytes ?cs = chunk_bytes ?fl \<union> extent c" using un Cons by auto
      moreover have "gapped ?cs" using j1(1,2,4) b'a n g(2) Cons False by fastforce
      moreover have "\<forall>c\<in>set ?cs. chunk_ok c" using j1(2,3) ok(2) Cons by auto
      ultimately show ?thesis using that card by (simp add: chunks_ok_def)
    qed
  qed
qed

lemma roundup64_ok:
  assumes "0 < b" and "a + b \<le> 2 ^ 64"
  shows "b dvd roundup64 a b" "a \<le> roundup64 a b" "roundup64 a b < a + b"
proof -
  have e: "roundup64 a b = (a + (b - 1)) div b * b" using assms u64_of_id [of "a + (b - 1)"] by (simp add: roundup64_def)
  show "b dvd roundup64 a b" by (simp add: e)
  have m: "(a + (b - 1)) div b * b + (a + (b - 1)) mod b = a + (b - 1)" by (rule div_mult_mod_eq)
  have "(a + (b - 1)) mod b < b" using assms(1) by simp
  then show "a \<le> roundup64 a b" "roundup64 a b < a + b" unfolding e using m assms(1) by linarith+
qed

text \<open>What an allocation of \<open>n\<close> bytes asks for.\<close>

lemma alloc_size_ok:
  assumes "n < 2 ^ 62" and "al < 2 ^ 32"
  shows "8 dvd al \<or> al < 16 \<Longrightarrow> 8 dvd alloc_size n al" "CHUNK_SIZE \<le> alloc_size n al" "n + BEGIN_SIZE + alloc_align al \<le> alloc_size n al"
    "alloc_size n al < n + 2 ^ 33"
proof -
  have s: "u64_of (int (n + BEGIN_SIZE)) = n + 24" using assms u64_of_id [of "n + 24"] by (simp add: BEGIN_SIZE_def)
  note r = roundup64_ok [of 8 "n + 24"]
  have r': "8 dvd roundup64 (n + 24) 8" "n + 24 \<le> roundup64 (n + 24) 8" "roundup64 (n + 24) 8 < n + 32" using r assms by simp_all
  have al: "alloc_align al < 2 ^ 32" using assms(2) by (simp add: alloc_align_def)
  have "roundup64 (n + 24) 8 + alloc_align al < 2 ^ 64" using r'(3) al assms(1) by simp
  from u64_of_id [OF this] have e: "alloc_size n al = roundup64 (n + 24) 8 + alloc_align al"
    unfolding alloc_size_def Let_def s CHUNK_SIZE_def by (cases "al > 0") (simp_all add: alloc_align_def del: of_nat_add)
  show "CHUNK_SIZE \<le> alloc_size n al" "n + BEGIN_SIZE + alloc_align al \<le> alloc_size n al" "alloc_size n al < n + 2 ^ 33"
    using r' al assms(1) by (simp_all add: e CHUNK_SIZE_def BEGIN_SIZE_def)
  show "8 dvd alloc_size n al" if "8 dvd al \<or> al < 16" using r'(1) that by (auto simp: e alloc_align_def)
qed

section \<open>The invariant\<close>

text \<open>The bytes \<open>ptr\<close> to \<open>ptr + n\<close> lie in the block of the allocation.\<close>

definition has_room :: "heap \<Rightarrow> nat \<Rightarrow> nat \<Rightarrow> bool" where
  "has_room h ptr n \<longleftrightarrow> (case allocs h ptr of None \<Rightarrow> False | Some as \<Rightarrow> as_ptr as \<le> ptr \<and> ptr + n \<le> as_ptr as + as_size as)"

definition block :: "alloc_struct_begin \<Rightarrow> nat set" where
  "block as = extent (as_ptr as, as_size as)"

definition alloc_bytes :: "heap \<Rightarrow> nat set" where
  "alloc_bytes h = (\<Union>as\<in>ran (allocs h). block as)"

definition alloc_ok :: "nat \<Rightarrow> alloc_struct_begin \<Rightarrow> bool" where
  "alloc_ok p as \<longleftrightarrow> as_magic as = HEAP_MAGIC \<and> chunk_ok (as_ptr as, as_size as) \<and> as_ptr as + BEGIN_SIZE \<le> p \<and> p \<le> as_ptr as + as_size as"

text \<open>
  \<open>avail\<close> are the bytes that the page allocator can still give to the heap. Free chunks, allocations and \<open>avail\<close> are disjoint, and the byte below
  the list head is in none of them.
\<close>

definition heap_inv :: "nat set \<Rightarrow> heap \<Rightarrow> bool" where
  "heap_inv avail h \<longleftrightarrow> chunks_ok h \<and> 0 < free_list_at h \<and>
     free_list_at h - 1 \<notin> avail \<union> chunk_bytes (free_chunks h) \<union> alloc_bytes h \<and>
     avail \<inter> (chunk_bytes (free_chunks h) \<union> alloc_bytes h) = {} \<and> chunk_bytes (free_chunks h) \<inter> alloc_bytes h = {} \<and>
     (\<forall>p as. allocs h p = Some as \<longrightarrow> alloc_ok p as) \<and>
     (\<forall>p q as bs. allocs h p = Some as \<longrightarrow> allocs h q = Some bs \<longrightarrow> p \<noteq> q \<longrightarrow> block as \<inter> block bs = {})"

lemma block_bytes: "allocs h p = Some as \<Longrightarrow> block as \<subseteq> alloc_bytes h"
  by (auto simp: alloc_bytes_def ran_def)

lemma alloc_in_block: "alloc_ok p as \<Longrightarrow> p - 1 \<in> block as"
  by (auto simp: alloc_ok_def block_def extent_def BEGIN_SIZE_def)

lemma alloc_bytes_add:
  "allocs h' = (allocs h)(p \<mapsto> as) \<Longrightarrow> allocs h p = None \<Longrightarrow> alloc_bytes h' = alloc_bytes h \<union> block as"
  by (auto simp: alloc_bytes_def ran_def split: if_splits) (metis option.distinct(1))+

section \<open>Taking from a chunk\<close>

lemma heap_search_ok:
  assumes "\<forall>c\<in>set cs. 8 dvd snd c"
  shows "(heap_search sz before cs = Some None \<and> (\<forall>c\<in>set cs. snd c < sz)) \<or>
    (\<exists>pre c post. heap_search sz before cs = Some (Some (before @ pre, c, post)) \<and> cs = pre @ c # post \<and>
       (\<forall>b\<in>set pre. snd b < sz) \<and> sz \<le> snd c)"
  using assms
proof (induction cs arbitrary: before)
  case Nil
  then show ?case by simp
next
  case (Cons c cs)
  have m: "snd c mod 8 = 0" using Cons.prems by simp
  show ?case
  proof (cases "sz \<le> snd c")
    case True
    then have "heap_search sz before (c # cs) = Some (Some (before @ [], c, cs))" using m by simp
    moreover have "c # cs = [] @ c # cs" "\<forall>b\<in>set []. snd b < sz" by simp_all
    ultimately show ?thesis using True by blast
  next
    case False
    then have s: "heap_search sz before (c # cs) = heap_search sz (before @ [c]) cs" using m by simp
    from Cons.IH [of "before @ [c]"] Cons.prems consider
      "heap_search sz (before @ [c]) cs = Some None" "\<forall>c\<in>set cs. snd c < sz"
      | pre d post where "heap_search sz (before @ [c]) cs = Some (Some ((before @ [c]) @ pre, d, post))" "cs = pre @ d # post"
        "\<forall>b\<in>set pre. snd b < sz" "sz \<le> snd d" by auto
    then show ?thesis
    proof cases
      case 1
      then show ?thesis using s False by simp
    next
      case 2
      then have "heap_search sz before (c # cs) = Some (Some (before @ (c # pre), d, post))" "c # cs = (c # pre) @ d # post"
        "\<forall>b\<in>set (c # pre). snd b < sz" using s False by simp_all
      then show ?thesis using 2(4) by blast
    qed
  qed
qed

lemma heap_take_ok:
  assumes ch: "chunks_ok h" and fl: "free_chunks h = before @ (a, l) # after"
    and sz: "sz \<le> l" "8 dvd sz" "CHUNK_SIZE \<le> sz" "BEGIN_SIZE + al \<le> sz" "sz < 2 ^ 63"
  obtains ptr len cs lw where
    "heap_take sz al (before, (a, l), after) h = Some (ptr, h\<lparr>free_chunks := cs,
           allocs := (allocs h)(ptr \<mapsto> \<lparr>as_magic = HEAP_MAGIC, as_ptr = a, as_size = len\<rparr>),
           hp_remaining := hp_remaining h - len, low_watermark := lw\<rparr>)"
    and "sz \<le> len" "len \<le> l" "a + BEGIN_SIZE \<le> ptr" "al = 0 \<longrightarrow> ptr = a + BEGIN_SIZE" "0 < al \<longrightarrow> al dvd ptr \<and> ptr < a + BEGIN_SIZE + al"
    and "gapped cs" "\<forall>c\<in>set cs. chunk_ok c" "chunk_bytes cs = chunk_bytes (free_chunks h) - extent (a, len)"
    and "card (chunk_bytes cs) = hp_remaining h - len" "chunk_ok (a, len)" "extent (a, len) \<subseteq> chunk_bytes (free_chunks h)"
proof -
  have g: "gapped before" "gapped after" "\<forall>n\<in>set after. a + l < fst n" "\<forall>b\<in>set before. fst b + snd b < a"
    "\<forall>b\<in>set before. \<forall>n\<in>set after. fst b + snd b < fst n"
    and ok: "\<forall>b\<in>set before. chunk_ok b" "\<forall>n\<in>set after. chunk_ok n" "chunk_ok (a, l)"
    using ch unfolding chunks_ok_def fl by auto
  have al: "0 < a" "8 dvd a" "8 dvd l" "24 \<le> l" "a + l + 4096 \<le> 2 ^ 64" using ok(3) by (simp_all add: chunk_ok_def CHUNK_SIZE_def)
  define split where "split \<longleftrightarrow> l > sz + 24"
  define len where "len = (if split then sz else l)"
  define cs where "cs = before @ (if split then (a + sz, l - sz) # after else after)"
  have u: "u64_of (int (sz + CHUNK_SIZE)) = sz + 24" "u64_of (int (a + sz)) = a + sz" "u64_of (int (a + BEGIN_SIZE)) = a + 24"
    using sz(1,3,5) al(5) u64_of_id [of "sz + 24"] u64_of_id [of "a + sz"] u64_of_id [of "a + 24"]
    by (simp_all add: CHUNK_SIZE_def BEGIN_SIZE_def)
  have d8: "(l - sz) mod 8 = 0" using al(3) sz(2) by (simp add: dvd_diff_nat mod_eq_0_iff_dvd)
  have len: "sz \<le> len" "len \<le> l" "8 dvd len" using sz al by (auto simp: len_def split_def)
  have lok: "chunk_ok (a, len)" using al len sz(3) by (auto simp: chunk_ok_def)
  have ext: "extent (a, len) \<subseteq> extent (a, l)" using len by (auto simp: extent_def)
  have nb: "extent (a, l) \<inter> chunk_bytes before = {}" using g(4) by (fastforce simp: chunk_bytes_def extent_def)
  have na: "extent (a, l) \<inter> chunk_bytes after = {}" using chunk_bytes_apart(1) [of after "(a, l)"] g(3) by simp
  have cs1: "gapped cs" using g sz(1) by (auto simp: cs_def split_def)
  have cs2: "\<forall>c\<in>set cs. chunk_ok c"
    using ok al sz(1,2) d8 by (auto simp: cs_def split_def chunk_ok_def CHUNK_SIZE_def mod_eq_0_iff_dvd)
  have "extent (a, l) - extent (a, len) = (if split then extent (a + sz, l - sz) else {})"
    using sz(1) by (auto simp: extent_def len_def)
  then have cs3: "chunk_bytes cs = chunk_bytes (free_chunks h) - extent (a, len)"
    using nb na ext unfolding fl cs_def by (auto split: if_splits)
  have sub: "extent (a, len) \<subseteq> chunk_bytes (free_chunks h)" using ext fl by auto
  have card: "card (chunk_bytes cs) = hp_remaining h - len"
    unfolding cs3 using card_Diff_subset [OF _ sub] ch by (simp add: chunks_ok_def)
  have "len \<le> hp_remaining h" "hp_remaining h < 2 ^ 64"
  proof -
    have "card (extent (a, len)) \<le> card (chunk_bytes (free_chunks h))" using sub by (intro card_mono) auto
    then show "len \<le> hp_remaining h" using ch by (simp add: chunks_ok_def)
    have "card (chunk_bytes (free_chunks h)) \<le> card {1..<2 ^ 64 :: nat}"
      using chunk_bytes_bound [of "free_chunks h"] ch by (intro card_mono) (auto simp: chunks_ok_def)
    then show "hp_remaining h < 2 ^ 64" using ch by (simp add: chunks_ok_def)
  qed
  then have rem: "u64_of (int (hp_remaining h) - int len) = hp_remaining h - len" by (rule u64_of_diff)
  define ptr where "ptr = (if al > 0 then roundup64 (a + 24) al else a + 24)"
  have pb: "a + 24 \<le> ptr" "al = 0 \<longrightarrow> ptr = a + 24" "0 < al \<longrightarrow> al dvd ptr \<and> ptr < a + 24 + al"
    using roundup64_ok [of al "a + 24"] sz(1,4) al(5) by (auto simp: ptr_def BEGIN_SIZE_def)
  have "heap_take sz al (before, (a, l), after) h = Some (ptr, h\<lparr>free_chunks := cs,
           allocs := (allocs h)(ptr \<mapsto> \<lparr>as_magic = HEAP_MAGIC, as_ptr = a, as_size = len\<rparr>),
           hp_remaining := hp_remaining h - len,
           low_watermark := (if hp_remaining h - len < low_watermark h then hp_remaining h - len else low_watermark h)\<rparr>)"
  proof (cases split)
    case True
    then have e: "len = sz" "cs = before @ (a + sz, l - sz) # after" "l > sz + 24" by (simp_all add: len_def cs_def split_def)
    show ?thesis using rem d8 e(3)
      by (simp add: heap_take_def Let_def u heap_create_free_chunk_def ptr_def e(1,2) del: of_nat_add)
  next
    case False
    then have e: "len = l" "cs = before @ after" "\<not> l > sz + 24" by (simp_all add: len_def cs_def split_def)
    show ?thesis using rem e(3) sz(1) by (simp add: heap_take_def Let_def u ptr_def e(1,2) del: of_nat_add)
  qed
  then show ?thesis
    by (rule that) (use len pb cs1 cs2 cs3 card lok sub in \<open>simp_all add: BEGIN_SIZE_def\<close>)
qed

lemma heap_invD:
  assumes "heap_inv avail h"
  shows "chunks_ok h" "0 < free_list_at h" "free_list_at h - 1 \<notin> avail" "free_list_at h - 1 \<notin> chunk_bytes (free_chunks h)"
    "free_list_at h - 1 \<notin> alloc_bytes h" "avail \<inter> chunk_bytes (free_chunks h) = {}" "avail \<inter> alloc_bytes h = {}"
    "chunk_bytes (free_chunks h) \<inter> alloc_bytes h = {}" "\<And>p as. allocs h p = Some as \<Longrightarrow> alloc_ok p as"
    "\<And>p q as bs. allocs h p = Some as \<Longrightarrow> allocs h q = Some bs \<Longrightarrow> p \<noteq> q \<Longrightarrow> block as \<inter> block bs = {}"
  using assms unfolding heap_inv_def by (simp_all add: Int_Un_distrib)

lemma fresh_alloc:
  assumes "heap_inv avail h" and "alloc_ok p as" and "block as \<inter> alloc_bytes h = {}"
  shows "allocs h p = None"
proof (rule ccontr)
  assume "allocs h p \<noteq> None"
  then obtain bs where bs: "allocs h p = Some bs" by auto
  then have "p - 1 \<in> block bs" using heap_invD(9) [OF assms(1)] alloc_in_block by blast
  then show False using alloc_in_block [OF assms(2)] block_bytes [OF bs] assms(3) by blast
qed

lemma try_alloc_ok:
  assumes inv: "heap_inv avail h" and sz: "8 dvd sz" "CHUNK_SIZE \<le> sz" "n + BEGIN_SIZE + al \<le> sz" "sz < 2 ^ 63"
  obtains (none) "heap_try_alloc sz al h = Some (None, h)" "\<forall>c\<in>set (free_chunks h). snd c < sz"
  | (ptr) ptr as h' where "heap_try_alloc sz al h = Some (Some ptr, h')" "heap_inv avail h'"
      "allocs h' = (allocs h)(ptr \<mapsto> as)" "allocs h ptr = None" "{ptr..<ptr + n} \<subseteq> block as"
      "if al = 0 then 8 dvd ptr else al dvd ptr" "block as \<subseteq> chunk_bytes (free_chunks h)"
      "chunk_bytes (free_chunks h') = chunk_bytes (free_chunks h) - block as" "free_list_at h' = free_list_at h"
      "map_option fst (List.find (\<lambda>c. sz \<le> snd c) (free_chunks h)) = Some (as_ptr as)"
proof -
  note i = heap_invD [OF inv]
  have d8: "\<forall>c\<in>set (free_chunks h). 8 dvd snd c" using i(1) by (auto simp: chunks_ok_def chunk_ok_def)
  from heap_search_ok [OF d8, of sz "[]"] consider
    "heap_search sz [] (free_chunks h) = Some None" "\<forall>c\<in>set (free_chunks h). snd c < sz"
    | pre a l post where "heap_search sz [] (free_chunks h) = Some (Some (pre, (a, l), post))" "free_chunks h = pre @ (a, l) # post"
      "\<forall>b\<in>set pre. snd b < sz" "sz \<le> l" by auto
  then show thesis
  proof cases
    case 1
    then show thesis by (intro none) (simp_all add: heap_try_alloc_def)
  next
    case 2
    have sz': "BEGIN_SIZE + al \<le> sz" using sz(3) by simp
    obtain ptr len cs lw where t: "heap_take sz al (pre, (a, l), post) h = Some (ptr, h\<lparr>free_chunks := cs,
           allocs := (allocs h)(ptr \<mapsto> \<lparr>as_magic = HEAP_MAGIC, as_ptr = a, as_size = len\<rparr>),
           hp_remaining := hp_remaining h - len, low_watermark := lw\<rparr>)"
      and p: "sz \<le> len" "len \<le> l" "a + BEGIN_SIZE \<le> ptr" "al = 0 \<longrightarrow> ptr = a + BEGIN_SIZE" "0 < al \<longrightarrow> al dvd ptr \<and> ptr < a + BEGIN_SIZE + al"
      and cs: "gapped cs" "\<forall>c\<in>set cs. chunk_ok c" "chunk_bytes cs = chunk_bytes (free_chunks h) - extent (a, len)"
        "card (chunk_bytes cs) = hp_remaining h - len" "chunk_ok (a, len)" "extent (a, len) \<subseteq> chunk_bytes (free_chunks h)"
      by (rule heap_take_ok [OF i(1) 2(2,4) sz(1,2) sz' sz(4)])
    define as where "as = \<lparr>as_magic = HEAP_MAGIC, as_ptr = a, as_size = len\<rparr>"
    define h' where "h' = h\<lparr>free_chunks := cs, allocs := (allocs h)(ptr \<mapsto> as), hp_remaining := hp_remaining h - len, low_watermark := lw\<rparr>"
    have b: "block as = extent (a, len)" by (simp add: block_def as_def)
    have ptr_le: "ptr + n \<le> a + len" using p sz(3) by (cases "al = 0") auto
    have ok: "alloc_ok ptr as" using p cs(5) ptr_le by (auto simp: alloc_ok_def as_def)
    have dis: "block as \<inter> alloc_bytes h = {}" using cs(6) i(8) b by auto
    have fr: "allocs h ptr = None" by (rule fresh_alloc [OF inv ok dis])
    have ab: "alloc_bytes h' = alloc_bytes h \<union> block as" by (rule alloc_bytes_add [OF _ fr]) (simp add: h'_def)
    have inv': "heap_inv avail h'"
      unfolding heap_inv_def ab
    proof (intro conjI allI impI)
      show "chunks_ok h'" using cs by (simp add: chunks_ok_def h'_def)
      show "0 < free_list_at h'" using i(2) by (simp add: h'_def)
      show "free_list_at h' - 1 \<notin> avail \<union> chunk_bytes (free_chunks h') \<union> (alloc_bytes h \<union> block as)"
        using i(3-5) cs(3,6) b by (auto simp: h'_def)
      show "avail \<inter> (chunk_bytes (free_chunks h') \<union> (alloc_bytes h \<union> block as)) = {}"
        using i(6,7) cs(3,6) b by (auto simp: h'_def)
      show "chunk_bytes (free_chunks h') \<inter> (alloc_bytes h \<union> block as) = {}" using i(8) cs(3) b by (auto simp: h'_def)
      show "alloc_ok p bs" if "allocs h' p = Some bs" for p bs using that ok i(9) by (auto simp: h'_def split: if_splits)
      show "block bs \<inter> block ds = {}" if "allocs h' p = Some bs" "allocs h' q = Some ds" "p \<noteq> q" for p q bs ds
        using that dis i(10) block_bytes [of h] by (fastforce simp: h'_def split: if_splits)
    qed
    have "List.find (\<lambda>c. sz \<le> snd c) pre = None" using 2(3) by (auto simp: find_None_iff)
    then have ff: "List.find (\<lambda>c. sz \<le> snd c) (pre @ (a, l) # post) = Some (a, l)" using 2(4) by (induction pre) (auto split: if_splits)
    have al8: "if al = 0 then 8 dvd ptr else al dvd ptr" using p(4,5) cs(5) by (auto simp: chunk_ok_def BEGIN_SIZE_def)
    have "{ptr..<ptr + n} \<subseteq> block as" using p(3) ptr_le unfolding b by (auto simp: extent_def)
    then show thesis
      using ptr [of ptr h' as] t 2 inv' fr al8 cs b ff by (simp add: heap_try_alloc_def h'_def as_def)
  qed
qed

lemma block_has_room:
  assumes "heap_inv avail h" and "allocs h q = Some as" and "{q..<q + n} \<subseteq> block as"
  shows "has_room h q n"
proof -
  have ok: "as_ptr as \<le> q" "q \<le> as_ptr as + as_size as" using heap_invD(9) [OF assms(1,2)] by (simp_all add: alloc_ok_def)
  have "q + n \<le> as_ptr as + as_size as"
  proof (cases n)
    case (Suc m)
    then have "q + m \<in> block as" using assms(3) by auto
    then show ?thesis using Suc by (simp add: block_def extent_def)
  qed (use ok(2) in simp)
  with ok(1) assms(2) show ?thesis by (simp add: has_room_def)
qed

lemma try_alloc_small:
  assumes inv: "heap_inv avail h" and "free_chunks h = (a, l) # cs" and "56 < l" and "n \<le> 8"
  shows "\<exists>h'. heap_try_alloc (alloc_size n 0) 0 h = Some (Some (a + 24), h') \<and> allocs h' (a + 24) \<noteq> None \<and> \<not> has_room h' (a + 24) 16"
proof -
  define sz where "sz = alloc_size n 0"
  have "chunk_ok (a, l)" using heap_invD(1) [OF inv] assms(2) by (simp add: chunks_ok_def)
  then have c: "8 dvd l" "a + l + 4096 \<le> 2 ^ 64" by (simp_all add: chunk_ok_def)
  have "n \<in> {0, 1, 2, 3, 4, 5, 6, 7, 8}" using assms(4) by auto
  then have sz: "24 \<le> sz" "sz \<le> 32" "8 dvd sz"
    by (auto simp: sz_def alloc_size_def roundup64_def u64_of_def BEGIN_SIZE_def CHUNK_SIZE_def alloc_align_def)
  have u: "u64_of (int (sz + CHUNK_SIZE)) = sz + 24" "u64_of (int (a + BEGIN_SIZE)) = a + 24"
    using sz c assms(3) by (simp_all add: CHUNK_SIZE_def BEGIN_SIZE_def u64_of_id del: of_nat_add)
  have l: "sz \<le> l" "sz + 24 < l" "(l - sz) mod 8 = 0" "l mod 8 = 0" using sz assms(3) c(1) by (simp_all add: dvd_imp_mod_0 dvd_diff_nat)
  obtain h' where h: "heap_try_alloc sz 0 h = Some (Some (a + 24), h')"
    "allocs h' = (allocs h)(a + 24 \<mapsto> \<lparr>as_magic = HEAP_MAGIC, as_ptr = a, as_size = sz\<rparr>)"
    using l u by (simp add: heap_try_alloc_def heap_take_def heap_create_free_chunk_def assms(2) Let_def del: of_nat_add)
  then show ?thesis using sz(2) by (simp add: has_room_def flip: sz_def)
qed

section \<open>Giving back\<close>

lemma miniheap_free_ok:
  assumes inv: "heap_inv avail h" and as: "allocs h p = Some as"
  obtains h' where "miniheap_free (Some p) h = Some h'" "heap_inv avail h'" "allocs h' = (allocs h)(p := None)"
    "chunk_bytes (free_chunks h') = chunk_bytes (free_chunks h) \<union> block as" "free_list_at h' = free_list_at h"
    "hp_remaining h' = hp_remaining h + as_size as"
proof -
  note i = heap_invD [OF inv]
  define h0 where "h0 = h\<lparr>allocs := (allocs h)(p := None)\<rparr>"
  let ?c = "(as_ptr as, as_size as)"
  have ok: "alloc_ok p as" using i(9) as .
  then have m: "as_magic as = HEAP_MAGIC" "chunk_ok ?c" "as_size as mod 8 = 0" by (auto simp: alloc_ok_def chunk_ok_def)
  have b: "extent ?c = block as" by (simp add: block_def)
  have sub: "block as \<subseteq> alloc_bytes h" using block_bytes as .
  have dis: "extent ?c \<inter> chunk_bytes (free_chunks h0) = {}" using sub i(8) b by (auto simp: h0_def)
  have hd: "free_list_at h0 - 1 \<notin> chunk_bytes (free_chunks h0) \<union> extent ?c" using i(4,5) sub b by (auto simp: h0_def)
  have c0: "chunks_ok h0" "0 < free_list_at h0" using i(1,2) by (simp_all add: h0_def chunks_ok_def)
  obtain r cs where f: "heap_insert_free_chunk ?c h0 = Some (r, h0\<lparr>hp_remaining := hp_remaining h0 + snd ?c, free_chunks := cs\<rparr>)"
    and cs: "chunks_ok (h0\<lparr>hp_remaining := hp_remaining h0 + snd ?c, free_chunks := cs\<rparr>)" "chunk_bytes cs = chunk_bytes (free_chunks h0) \<union> extent ?c"
    by (rule insert_chunk_ok [OF c0(1) m(2) dis c0(2) hd])
  define h' where "h' = h0\<lparr>hp_remaining := hp_remaining h0 + snd ?c, free_chunks := cs\<rparr>"
  have rest: "alloc_bytes h' \<subseteq> alloc_bytes h" "block as \<inter> alloc_bytes h' = {}"
    using i(10) [OF as] by (fastforce simp: alloc_bytes_def ran_def h'_def h0_def split: if_splits)+
  have sel: "free_chunks h' = cs" "free_list_at h' = free_list_at h" "allocs h' = (allocs h)(p := None)" "free_chunks h0 = free_chunks h"
    by (simp_all add: h'_def h0_def)
  have "heap_inv avail h'"
    unfolding heap_inv_def sel cs(2) b
  proof (intro conjI allI impI)
    show "chunks_ok h'" using cs(1) by (simp add: h'_def)
    show "0 < free_list_at h" using i(2) .
    show "free_list_at h - 1 \<notin> avail \<union> (chunk_bytes (free_chunks h) \<union> block as) \<union> alloc_bytes h'" using i(3-5) rest sub by auto
    show "avail \<inter> (chunk_bytes (free_chunks h) \<union> block as \<union> alloc_bytes h') = {}" using i(6,7) rest sub by auto
    show "(chunk_bytes (free_chunks h) \<union> block as) \<inter> alloc_bytes h' = {}" using i(8) rest by auto
    show "alloc_ok q bs" if "((allocs h)(p := None)) q = Some bs" for q bs using that i(9) by (auto split: if_splits)
    show "block bs \<inter> block ds = {}" if "((allocs h)(p := None)) q = Some bs" "((allocs h)(p := None)) r = Some ds" "q \<noteq> r" for q r bs ds
      using that i(10) by (auto split: if_splits)
  qed
  moreover have "miniheap_free (Some p) h = Some h'"
    using as m f by (simp add: miniheap_free_def heap_create_free_chunk_def h'_def flip: h0_def)
  ultimately show ?thesis using that sel cs(2) b by (simp add: h'_def h0_def)
qed

text \<open>Freeing the last allocation restores the list of free chunks.\<close>

lemma free_chunks_unique:
  assumes "heap_inv avail h" and "heap_inv avail' h'" and "chunk_bytes (free_chunks h) = chunk_bytes (free_chunks h')"
  shows "free_chunks h = free_chunks h'" "hp_remaining h = hp_remaining h'"
proof -
  have "\<forall>c\<in>set (free_chunks h) \<union> set (free_chunks h'). 0 < snd c"
    using heap_invD(1) [OF assms(1)] heap_invD(1) [OF assms(2)] by (auto simp: chunks_ok_def chunk_ok_def CHUNK_SIZE_def)
  then show "free_chunks h = free_chunks h'"
    using heap_invD(1) [OF assms(1)] heap_invD(1) [OF assms(2)] assms(3) by (intro gapped_unique) (auto simp: chunks_ok_def)
  show "hp_remaining h = hp_remaining h'"
    using heap_invD(1) [OF assms(1)] heap_invD(1) [OF assms(2)] assms(3) by (simp add: chunks_ok_def)
qed

section \<open>New pages\<close>

lemma add_pages_ok:
  assumes inv: "heap_inv avail h" and c: "chunk_ok c" and sub: "extent c \<subseteq> avail"
  obtains r h' where "heap_insert_free_chunk c h = Some (r, h')" "heap_inv (avail - extent c) h'" "allocs h' = allocs h"
    "chunk_bytes (free_chunks h') = chunk_bytes (free_chunks h) \<union> extent c" "free_list_at h' = free_list_at h"
proof -
  note i = heap_invD [OF inv]
  have dis: "extent c \<inter> chunk_bytes (free_chunks h) = {}" and hd: "free_list_at h - 1 \<notin> chunk_bytes (free_chunks h) \<union> extent c"
    using sub i(3,4,6) by auto
  obtain r cs where f: "heap_insert_free_chunk c h = Some (r, h\<lparr>hp_remaining := hp_remaining h + snd c, free_chunks := cs\<rparr>)"
    and cs: "chunks_ok (h\<lparr>hp_remaining := hp_remaining h + snd c, free_chunks := cs\<rparr>)" "chunk_bytes cs = chunk_bytes (free_chunks h) \<union> extent c"
    by (rule insert_chunk_ok [OF i(1) c dis i(2) hd])
  let ?h = "h\<lparr>hp_remaining := hp_remaining h + snd c, free_chunks := cs\<rparr>"
  have "alloc_bytes ?h = alloc_bytes h" by (simp add: alloc_bytes_def)
  then have "heap_inv (avail - extent c) ?h"
    unfolding heap_inv_def using i(2-8) cs sub inv by (auto simp: heap_inv_def)
  then show ?thesis using that f cs(2) by simp
qed

lemma gapped_end: "gapped cs \<Longrightarrow> c \<in> set cs \<Longrightarrow> \<forall>c\<in>set cs. 0 < snd c \<Longrightarrow> fst c + snd c \<notin> chunk_bytes cs"
  by (induction cs) (fastforce simp: chunk_bytes_def extent_def)+

lemma interval_in_chunk:
  assumes "gapped cs" and "\<forall>c\<in>set cs. 0 < snd c" and "{a..<a + l} \<subseteq> chunk_bytes cs" and "0 < l"
  shows "\<exists>c\<in>set cs. l \<le> snd c"
proof -
  have "a \<in> chunk_bytes cs" using assms(3,4) by auto
  then obtain c where c: "c \<in> set cs" "fst c \<le> a" "a < fst c + snd c" by (auto simp: chunk_bytes_def extent_def)
  have "fst c + snd c \<notin> {a..<a + l}" using gapped_end [OF assms(1) c(1) assms(2)] assms(3) by blast
  then show ?thesis using c by (intro bexI [OF _ c(1)]) auto
qed

section \<open>The page allocator below\<close>

text \<open>
  What the heap relies on: \<^verbatim>\<open>page_alloc\<close> gives whole pages out of the memory \<open>avail\<close> or nothing, \<^verbatim>\<open>page_free\<close> takes pages it owns and
  that are out.
\<close>

locale page_source =
  fixes page_alloc :: "nat \<Rightarrow> 'p \<Rightarrow> (nat option \<times> 'p) option" and page_free :: "nat \<Rightarrow> nat \<Rightarrow> 'p \<Rightarrow> 'p option"
    and pinv :: "'p \<Rightarrow> bool" and avail :: "'p \<Rightarrow> nat set" and owned :: "'p \<Rightarrow> nat set"
  assumes avail_owned: "pinv p \<Longrightarrow> avail p \<subseteq> owned p"
    and alloc_law: "pinv p \<Longrightarrow> 0 < n \<Longrightarrow> n < 2 ^ 30 \<Longrightarrow>
      \<exists>r p'. page_alloc n p = Some (r, p') \<and> pinv p' \<and> owned p' = owned p \<and>
        (case r of None \<Rightarrow> avail p' = avail p
         | Some a \<Rightarrow> chunk_ok (a, n * PAGE_LEN) \<and> PAGE_LEN dvd a \<and> extent (a, n * PAGE_LEN) \<subseteq> avail p \<and>
             avail p' = avail p - extent (a, n * PAGE_LEN))"
    and free_law: "pinv p \<Longrightarrow> 0 < n \<Longrightarrow> PAGE_LEN dvd a \<Longrightarrow> extent (a, n * PAGE_LEN) \<subseteq> owned p - avail p \<Longrightarrow>
      \<exists>p'. page_free a n p = Some p' \<and> pinv p' \<and> owned p' = owned p \<and> avail p' = avail p \<union> extent (a, n * PAGE_LEN)"

lemma and_pred_pow2: "0 < (n :: nat) \<Longrightarrow> n AND (n - 1) = 0 \<Longrightarrow> \<exists>k. n = 2 ^ k"
proof (induction n rule: less_induct)
  case (less n)
  have r: "n AND (n - 1) = of_bool (odd n \<and> odd (n - 1)) + 2 * ((n div 2) AND ((n - 1) div 2))" by (rule and_rec)
  show ?case
  proof (cases "even n")
    case True
    then obtain m where m: "n = 2 * m" by (auto elim: evenE)
    then have "0 < m" "(n - 1) div 2 = m - 1" "m < n" using less.prems by auto
    then have "m AND (m - 1) = 0" using r less.prems(2) m by simp
    with less.IH [OF \<open>m < n\<close>] \<open>0 < m\<close> obtain k where "m = 2 ^ k" by auto
    then show ?thesis using m by (intro exI [of _ "Suc k"]) simp
  next
    case False
    then obtain m where m: "n = 2 * m + 1" by (auto elim: oddE)
    then have "n div 2 = m" "(n - 1) div 2 = m" by simp_all
    then have "m = 0" using r less.prems(2) by simp
    then show ?thesis using m by (intro exI [of _ 0]) simp
  qed
qed

lemma align_pow2:
  fixes w :: u32
  assumes "w AND (w - 1) = 0"
  shows "w = 0 \<or> (\<exists>k. unat w = 2 ^ k)" "8 dvd unat w \<or> unat w < 16" "unat w dvd alloc_align (unat w)"
proof -
  show p: "w = 0 \<or> (\<exists>k. unat w = 2 ^ k)"
  proof (cases "w = 0")
    case False
    then have "unat (w - 1) = unat w - 1" "0 < unat w" by (simp_all add: unat_minus_one unat_gt_0)
    moreover have "unat (w AND (w - 1)) = unat w AND unat (w - 1)" by (rule unsigned_and_eq)
    ultimately show ?thesis using and_pred_pow2 [of "unat w"] assms by auto
  qed simp
  have pw: "(2 :: nat) ^ k dvd 16 \<and> (8 dvd (2 :: nat) ^ k \<or> 2 ^ k < (16 :: nat))" if "(2 :: nat) ^ k < 16" for k
  proof -
    have "k < 4" using that power_less_imp_less_exp [of 2 k 4] by simp
    then have "k \<in> {0, 1, 2, 3}" by auto
    then show ?thesis using that by auto
  qed
  have big: "8 dvd (2 :: nat) ^ k" if "\<not> (2 :: nat) ^ k < 16" for k
  proof -
    have "3 \<le> k" using that by (cases "3 \<le> k") (auto simp: not_le less_Suc_eq numeral_eq_Suc)
    then show ?thesis using le_imp_power_dvd [of 3 k "2 :: nat"] by simp
  qed
  show "8 dvd unat w \<or> unat w < 16" using p big by auto
  show "unat w dvd alloc_align (unat w)" using p pw by (auto simp: alloc_align_def)
qed

definition heap_over :: "('p \<Rightarrow> bool) \<Rightarrow> ('p \<Rightarrow> nat set) \<Rightarrow> ('p \<Rightarrow> nat set) \<Rightarrow> heap \<Rightarrow> 'p \<Rightarrow> bool" where
  "heap_over pinv avail owned h p \<longleftrightarrow> pinv p \<and> heap_inv (avail p) h \<and> chunk_bytes (free_chunks h) \<union> alloc_bytes h \<subseteq> owned p"

text \<open>What an allocation returns: a block that was free or new, aligned, with room for \<open>n\<close> bytes, and nothing else moves;
  \<open>new\<close> are the bytes the heap has grown by.\<close>

definition allocated :: "nat \<Rightarrow> nat \<Rightarrow> nat \<Rightarrow> nat set \<Rightarrow> heap \<Rightarrow> heap \<Rightarrow> bool" where
  "allocated ptr n al new h h' \<longleftrightarrow> allocs h ptr = None \<and> (if al = 0 then 8 dvd ptr else al dvd ptr) \<and>
     (\<exists>as. allocs h' = (allocs h)(ptr \<mapsto> as) \<and> {ptr..<ptr + n} \<subseteq> block as \<and> block as \<inter> alloc_bytes h = {} \<and>
        chunk_bytes (free_chunks h') \<union> block as = chunk_bytes (free_chunks h) \<union> new)"

context page_source
begin

lemma heap_grow_ok:
  assumes inv: "heap_over pinv avail owned h p" and sz: "0 < sz" "sz + 4096 < 2 ^ 42"
  obtains (none) p' where "page_alloc (roundup64 sz PAGE_LEN div PAGE_LEN) p = Some (None, p')"
      "heap_grow page_alloc sz h p = Some (ERR_NO_MEMORY, h, p')" "heap_over pinv avail owned h p'"
  | (grown) e h' p' where "heap_grow page_alloc sz h p = Some (e, h', p')" "0 \<le> e" "heap_over pinv avail owned h' p'"
      "allocs h' = allocs h" "\<exists>c\<in>set (free_chunks h'). sz \<le> snd c" "chunk_bytes (free_chunks h') = chunk_bytes (free_chunks h) \<union> (avail p - avail p')"
proof -
  let ?r = "roundup64 sz PAGE_LEN" and ?n = "roundup64 sz PAGE_LEN div PAGE_LEN"
  have r: "4096 dvd ?r" "sz \<le> ?r" "?r < sz + 4096" using roundup64_ok [of PAGE_LEN sz] sz by (simp_all add: PAGE_LEN_def)
  have n: "?n * PAGE_LEN = ?r" "0 < ?n" "?n < 2 ^ 30" using r sz by (auto simp: PAGE_LEN_def)
  have i: "pinv p" "heap_inv (avail p) h" "chunk_bytes (free_chunks h) \<union> alloc_bytes h \<subseteq> owned p" using inv by (simp_all add: heap_over_def)
  obtain x p' where pa: "page_alloc ?n p = Some (x, p')" "pinv p'" "owned p' = owned p"
    "case x of None \<Rightarrow> avail p' = avail p | Some a \<Rightarrow> chunk_ok (a, ?n * PAGE_LEN) \<and> PAGE_LEN dvd a \<and>
       extent (a, ?n * PAGE_LEN) \<subseteq> avail p \<and> avail p' = avail p - extent (a, ?n * PAGE_LEN)"
    using alloc_law [OF i(1) n(2,3)] by blast
  show thesis
  proof (cases x)
    case None
    then have "heap_grow page_alloc sz h p = Some (ERR_NO_MEMORY, h, p')" using pa(1) by (simp add: heap_grow_def Let_def)
    moreover have "heap_over pinv avail owned h p'" using i pa None by (simp add: heap_over_def)
    ultimately show thesis using none pa(1) None by simp
  next
    case (Some a)
    let ?c = "(a, ?r)"
    have c: "chunk_ok ?c" "extent ?c \<subseteq> avail p" "avail p' = avail p - extent ?c" using pa(4) Some n(1) by simp_all
    obtain y h1 where h1: "heap_insert_free_chunk ?c h = Some (y, h1)" "heap_inv (avail p - extent ?c) h1" "allocs h1 = allocs h"
      "chunk_bytes (free_chunks h1) = chunk_bytes (free_chunks h) \<union> extent ?c" "free_list_at h1 = free_list_at h"
      by (rule add_pages_ok [OF i(2) c(1,2)])
    obtain h' where g: "heap_grow page_alloc sz h p = Some (signed_take_bit 63 (int ?r), h', p')"
      and same: "free_chunks h' = free_chunks h1" "allocs h' = allocs h1" "hp_remaining h' = hp_remaining h1" "free_list_at h' = free_list_at h1"
      using pa(1) Some h1(1) r(1) by (simp add: heap_grow_def Let_def heap_create_free_chunk_def PAGE_LEN_def split: if_splits)
        (auto simp: dvd_eq_mod_eq_0 [symmetric] elim: dvd_trans [rotated])
    have "signed_take_bit 63 (int ?r) = int ?r" using r(3) sz(2) by (intro signed_take_bit_int_eq_self) simp_all
    then have e: "0 \<le> signed_take_bit 63 (int ?r)" by simp
    have ab: "alloc_bytes h' = alloc_bytes h" by (simp add: alloc_bytes_def same h1(3))
    have hi: "heap_inv (avail p') h'"
      using h1(2) unfolding heap_inv_def chunks_ok_def c(3) same ab using h1(3) by (simp add: alloc_bytes_def)
    have "chunk_bytes (free_chunks h') \<union> alloc_bytes h' \<subseteq> owned p'"
      unfolding ab same h1(4) pa(3) using i(3) c(2) avail_owned [OF i(1)] by blast
    with pa(2) hi have over: "heap_over pinv avail owned h' p'" by (simp add: heap_over_def)
    have "\<exists>c\<in>set (free_chunks h'). ?r \<le> snd c"
    proof (rule interval_in_chunk)
      show "gapped (free_chunks h')" "\<forall>c\<in>set (free_chunks h'). 0 < snd c"
        using heap_invD(1) [OF hi] by (auto simp: chunks_ok_def chunk_ok_def CHUNK_SIZE_def)
      show "{a..<a + ?r} \<subseteq> chunk_bytes (free_chunks h')" unfolding same h1(4) by (auto simp: extent_def)
      show "0 < ?r" using r sz by simp
    qed
    then have "\<exists>c\<in>set (free_chunks h'). sz \<le> snd c" using r(2) order_trans by blast
    moreover have "avail p - avail p' = extent ?c" using c(2,3) by auto
    ultimately show thesis using grown [OF g e over] same h1(3,4) by simp
  qed
qed

lemma miniheap_alloc_ok:
  assumes inv: "heap_over pinv avail owned h p" and n: "n < 2 ^ 41" and al: "alignment AND (alignment - 1) = 0"
  shows "\<exists>r h' p'. miniheap_alloc page_alloc n alignment h p = Some (r, h', p') \<and> heap_over pinv avail owned h' p' \<and>
    (case r of
       None \<Rightarrow> h' = h \<and> (\<forall>c\<in>set (free_chunks h). snd c < alloc_size n (unat alignment)) \<and>
         page_alloc (roundup64 (alloc_size n (unat alignment)) PAGE_LEN div PAGE_LEN) p = Some (None, p')
     | Some ptr \<Rightarrow> allocated ptr n (unat alignment) (avail p - avail p') h h')"
proof -
  let ?al = "unat alignment"
  let ?sz = "alloc_size n ?al" and ?a = "alloc_align ?al"
  have al32: "?al < 2 ^ 32" using unsigned_less [of alignment] by simp
  note ap = align_pow2 [OF al]
  have n62: "n < 2 ^ 62" using n by simp
  note s = alloc_size_ok [OF n62 al32]
  have sz: "8 dvd ?sz" "CHUNK_SIZE \<le> ?sz" "n + BEGIN_SIZE + ?a \<le> ?sz" "?sz < 2 ^ 63" using s(1-3) s(4) n ap(2) by simp_all
  have over: "pinv p" "heap_inv (avail p) h" "chunk_bytes (free_chunks h) \<union> alloc_bytes h \<subseteq> owned p" using inv by (simp_all add: heap_over_def)
  have done_: "heap_over pinv avail owned h2 q \<and> allocated ptr n ?al (avail p - avail q) h h2"
    if "heap_over pinv avail owned h1 q" "allocs h1 = allocs h" "heap_inv (avail q) h2" "allocs h2 = (allocs h1)(ptr \<mapsto> as)" "allocs h1 ptr = None"
      "{ptr..<ptr + n} \<subseteq> block as" "if ?a = 0 then 8 dvd ptr else ?a dvd ptr" "block as \<subseteq> chunk_bytes (free_chunks h1)"
      "chunk_bytes (free_chunks h2) = chunk_bytes (free_chunks h1) - block as"
      "chunk_bytes (free_chunks h1) = chunk_bytes (free_chunks h) \<union> (avail p - avail q)" for h1 h2 q ptr as
  proof -
    have "alloc_bytes h2 = alloc_bytes h1 \<union> block as" by (rule alloc_bytes_add [OF that(4,5)])
    then have "heap_over pinv avail owned h2 q" using that(1,3,8,9) by (auto simp: heap_over_def)
    moreover have "if ?al = 0 then 8 dvd ptr else ?al dvd ptr"
      using that(7) ap(3) by (auto simp: alloc_align_def intro: dvd_trans split: if_splits)
    moreover have "alloc_bytes h1 = alloc_bytes h" using that(2) by (simp add: alloc_bytes_def)
    then have "block as \<inter> alloc_bytes h = {}" using that(1,8) heap_invD(8) [of "avail q" h1] by (auto simp: heap_over_def)
    moreover have "chunk_bytes (free_chunks h2) \<union> block as = chunk_bytes (free_chunks h) \<union> (avail p - avail q)" using that(8-10) by auto
    ultimately show ?thesis using that(2,4,5,6) unfolding allocated_def by metis
  qed
  show ?thesis
  proof (cases rule: try_alloc_ok [OF over(2) sz])
    case (2 ptr as h')
    have "miniheap_alloc page_alloc n alignment h p = Some (Some ptr, h', p)" using 2(1) al by (simp add: miniheap_alloc_def)
    then show ?thesis using done_ [OF inv refl 2(2-8)] by simp
  next
    case none: 1
    have s0: "0 < ?sz" "?sz + 4096 < 2 ^ 42" using s(2,4) n by (simp_all add: CHUNK_SIZE_def)
    show ?thesis
    proof (cases rule: heap_grow_ok [OF inv s0])
      case (1 p')
      have "miniheap_alloc page_alloc n alignment h p = Some (None, h, p')" using none(1) 1(2) al by (simp add: miniheap_alloc_def)
      then show ?thesis using 1 none(2) by auto
    next
      case (2 e h1 p')
      note new = 2(6)
      have over1: "heap_inv (avail p') h1" using 2(3) by (simp add: heap_over_def)
      show ?thesis
      proof (cases rule: try_alloc_ok [OF over1 sz])
        case 1
        then show ?thesis using 2(5) by auto
      next
        case (2 ptr as h')
        have "miniheap_alloc page_alloc n alignment h p = Some (Some ptr, h', p')"
          using none(1) \<open>heap_grow page_alloc ?sz h p = Some (e, h1, p')\<close> \<open>0 \<le> e\<close> 2(1) al by (simp add: miniheap_alloc_def)
        then show ?thesis using done_ [OF \<open>heap_over pinv avail owned h1 p'\<close> \<open>allocs h1 = allocs h\<close> 2(2-8)] new by simp
      qed
    qed
  qed
qed

end

declare trim_pages.simps [simp del]

lemma trim_pages_ok:
  assumes "trim_pages start fin sp ep = Some (s, e)" and "start \<le> sp" and "ep \<le> fin" and "4096 dvd sp" and "4096 dvd ep"
  shows "start \<le> s \<and> s < e \<and> e \<le> fin \<and> 4096 dvd s \<and> 4096 dvd e \<and> (s = start \<or> CHUNK_SIZE \<le> s - start) \<and> (e = fin \<or> CHUNK_SIZE \<le> fin - e)"
  using assms
proof (induction start fin sp ep rule: trim_pages.induct)
  case (1 start fin sp ep)
  have u: "trim_pages start fin sp ep = (if ep > sp then
        if sp \<noteq> start \<and> sp - start < CHUNK_SIZE then trim_pages start fin (sp + PAGE_LEN) ep
        else if ep < fin \<and> fin - ep < CHUNK_SIZE then trim_pages start fin sp (ep - PAGE_LEN)
        else Some (sp, ep) else None)" by (rule trim_pages.simps)
  have gt: "sp < ep" using 1(3) u by (auto split: if_splits)
  have le: "PAGE_LEN \<le> ep" using gt 1(7) by (auto simp: PAGE_LEN_def elim!: dvdE)
  show ?case
  proof (cases "sp \<noteq> start \<and> sp - start < CHUNK_SIZE")
    case True
    then show ?thesis using 1(1) [OF gt True] 1(3-7) u gt by (simp add: PAGE_LEN_def)
  next
    case F: False
    show ?thesis
    proof (cases "ep < fin \<and> fin - ep < CHUNK_SIZE")
      case True
      have "4096 dvd ep - PAGE_LEN" using 1(7) by (simp add: PAGE_LEN_def dvd_diff_nat)
      then show ?thesis using 1(2) [OF gt F True] 1(3-7) u gt F True by auto
    next
      case False
      then show ?thesis using 1(3-7) u gt F by auto
    qed
  qed
qed

lemma trim_chunk_ok:
  assumes c: "chunk_ok c"
  obtains keep pages where "trim_chunk c = Some (keep, pages)" "gapped keep" "\<forall>k\<in>set keep. chunk_ok k"
    "\<forall>k\<in>set keep. fst c \<le> fst k \<and> fst k + snd k \<le> fst c + snd c"
    "case pages of None \<Rightarrow> keep = [c]
     | Some (s, e) \<Rightarrow> s < e \<and> 4096 dvd s \<and> 4096 dvd e \<and> {s..<e} \<subseteq> extent c \<and> chunk_bytes keep = extent c - {s..<e}"
proof -
  obtain a l where al: "c = (a, l)" by (cases c)
  have ok: "0 < a" "8 dvd a" "8 dvd l" "24 \<le> l" "a + l + 4096 \<le> 2 ^ 64" using c by (simp_all add: al chunk_ok_def CHUNK_SIZE_def)
  have ce: "chunk_end c = a + l" using chunk_end_ok [OF c] al by simp
  note r = roundup64_ok [of PAGE_LEN a]
  have r': "4096 dvd roundup64 a 4096" "a \<le> roundup64 a 4096" using r ok(4,5) by (simp_all add: PAGE_LEN_def)
  let ?ep = "rounddown64 (a + l) 4096"
  have e: "4096 dvd ?ep" "?ep \<le> a + l" by (simp_all add: rounddown64_def)
  show thesis
  proof (cases "trim_pages a (a + l) (roundup64 a 4096) ?ep")
    case None
    then have "trim_chunk c = Some ([c], None)" using ok r' e ce by (simp add: trim_chunk_def Let_def al PAGE_LEN_def)
    then show thesis using that c by simp
  next
    case (Some se)
    obtain s f where se: "se = (s, f)" by (cases se)
    note t = trim_pages_ok [OF Some [unfolded se] r'(2) e(2) r'(1) e(1)]
    define after where "after = (if f < a + l then [(f, a + l - f)] else [])"
    define keep where "keep = (if s = a then [] else [(a, s - a)])"
    have "8 dvd f" "8 dvd s" using t by (auto intro: dvd_trans [of 8 4096])
    then have d8: "8 dvd a + l - f" "8 dvd s - a" using ok t by (auto simp: dvd_diff_nat)
    have "trim_chunk c = Some (keep @ after, Some (s, f))"
      using ok r' e ce Some d8 t by (auto simp: trim_chunk_def Let_def al PAGE_LEN_def se heap_create_free_chunk_def keep_def after_def)
    moreover have "gapped (keep @ after)" using t by (auto simp: keep_def after_def)
    moreover have "\<forall>k\<in>set (keep @ after). chunk_ok k"
      using t ok d8 \<open>8 dvd f\<close> by (auto simp: keep_def after_def chunk_ok_def CHUNK_SIZE_def)
    moreover have "\<forall>k\<in>set (keep @ after). fst c \<le> fst k \<and> fst k + snd k \<le> fst c + snd c" using t by (auto simp: keep_def after_def al)
    moreover have "{s..<f} \<subseteq> extent c \<and> chunk_bytes (keep @ after) = extent c - {s..<f}"
      using t by (auto simp: keep_def after_def al extent_def)
    ultimately show thesis using t that by simp
  qed
qed

context page_source
begin

lemma trim_chunks_ok:
  assumes "pinv p" and "gapped cs" and "\<forall>c\<in>set cs. chunk_ok c" and "chunk_bytes cs \<subseteq> owned p - avail p"
    and "card (chunk_bytes cs) \<le> rem" and "rem < 2 ^ 64"
  shows "\<exists>cs' rem' p'. trim_chunks page_free cs rem p = Some (cs', rem', p') \<and> pinv p' \<and> owned p' = owned p \<and>
    gapped cs' \<and> (\<forall>c\<in>set cs'. chunk_ok c) \<and> (\<forall>k\<in>set cs'. \<exists>c\<in>set cs. fst c \<le> fst k) \<and>
    chunk_bytes cs' \<subseteq> chunk_bytes cs \<and> avail p' = avail p \<union> (chunk_bytes cs - chunk_bytes cs') \<and>
    rem' + card (chunk_bytes cs) = rem + card (chunk_bytes cs')"
  using assms
proof (induction cs arbitrary: rem p)
  case Nil
  then show ?case by simp
next
  case (Cons c cs)
  have c: "chunk_ok c" "\<forall>n\<in>set cs. fst c + snd c < fst n" "gapped cs" "\<forall>c\<in>set cs. chunk_ok c" using Cons.prems(2,3) by auto
  have dis: "extent c \<inter> chunk_bytes cs = {}" using chunk_bytes_apart(1) [OF c(2)] .
  have card: "card (chunk_bytes (c # cs)) = snd c + card (chunk_bytes cs)" using dis by (simp add: card_Un_disjoint)
  obtain keep pages where k: "trim_chunk c = Some (keep, pages)" "gapped keep" "\<forall>k\<in>set keep. chunk_ok k"
    "\<forall>k\<in>set keep. fst c \<le> fst k \<and> fst k + snd k \<le> fst c + snd c"
    "case pages of None \<Rightarrow> keep = [c]
     | Some (s, e) \<Rightarrow> s < e \<and> 4096 dvd s \<and> 4096 dvd e \<and> {s..<e} \<subseteq> extent c \<and> chunk_bytes keep = extent c - {s..<e}"
    by (rule trim_chunk_ok [OF c(1)])
  have sub: "chunk_bytes keep \<subseteq> extent c" using k(5) by (auto split: option.splits)
  have "\<exists>rem1 p1. (case pages of None \<Rightarrow> Some (rem, p)
          | Some (s, e) \<Rightarrow> do { p \<leftarrow> page_free s ((e - s) div PAGE_LEN) p; Some (u64_of (int rem - int (e - s)), p) }) = Some (rem1, p1) \<and>
      pinv p1 \<and> owned p1 = owned p \<and> avail p1 = avail p \<union> (extent c - chunk_bytes keep) \<and> rem1 + snd c = rem + card (chunk_bytes keep)"
  proof (cases pages)
    case None
    then show ?thesis using k(5) Cons.prems(1) by simp
  next
    case (Some se)
    obtain s e where se: "se = (s, e)" by (cases se)
    have g: "s < e" "4096 dvd s" "4096 dvd e" "{s..<e} \<subseteq> extent c" "chunk_bytes keep = extent c - {s..<e}" using k(5) Some se by auto
    have n: "(e - s) div PAGE_LEN * PAGE_LEN = e - s" using g by (simp add: PAGE_LEN_def dvd_diff_nat)
    then have n0: "0 < (e - s) div PAGE_LEN" using g(1) by (cases "(e - s) div PAGE_LEN") simp_all
    have ex: "extent (s, (e - s) div PAGE_LEN * PAGE_LEN) = {s..<e}" unfolding n using g(1) by (auto simp: extent_def)
    obtain p1 where p1: "page_free s ((e - s) div PAGE_LEN) p = Some p1" "pinv p1" "owned p1 = owned p" "avail p1 = avail p \<union> {s..<e}"
      using free_law [OF Cons.prems(1) n0, of s] g(2,4) Cons.prems(4) unfolding ex by (auto simp: PAGE_LEN_def)
    have "card {s..<e} \<le> card (extent c)" using g(4) by (intro card_mono) auto
    then have es: "e - s \<le> snd c" by simp
    then have "u64_of (int rem - int (e - s)) = rem - (e - s)" using card Cons.prems(5,6) by (intro u64_of_diff) simp_all
    moreover have "card (chunk_bytes keep) = snd c - (e - s)" unfolding g(5) using card_Diff_subset [OF _ g(4)] by simp
    moreover have "extent c - chunk_bytes keep = {s..<e}" using g(4,5) by auto
    ultimately show ?thesis using p1 es card Cons.prems(5) by (simp add: Some se)
  qed
  then obtain rem1 p1 where p1: "(case pages of None \<Rightarrow> Some (rem, p)
          | Some (s, e) \<Rightarrow> do { p \<leftarrow> page_free s ((e - s) div PAGE_LEN) p; Some (u64_of (int rem - int (e - s)), p) }) = Some (rem1, p1)"
    "pinv p1" "owned p1 = owned p" "avail p1 = avail p \<union> (extent c - chunk_bytes keep)" "rem1 + snd c = rem + card (chunk_bytes keep)" by blast
  have ck: "card (chunk_bytes keep) \<le> snd c" using card_mono [OF _ sub] by simp
  have pre: "chunk_bytes cs \<subseteq> owned p1 - avail p1" "card (chunk_bytes cs) \<le> rem1" "rem1 < 2 ^ 64"
    using p1(3,4,5) Cons.prems(4,5,6) dis card ck by auto
  obtain cs' rem' p' where ih: "trim_chunks page_free cs rem1 p1 = Some (cs', rem', p')" "pinv p'" "owned p' = owned p1"
    "gapped cs'" "\<forall>c\<in>set cs'. chunk_ok c" "\<forall>k\<in>set cs'. \<exists>c\<in>set cs. fst c \<le> fst k" "chunk_bytes cs' \<subseteq> chunk_bytes cs"
    "avail p' = avail p1 \<union> (chunk_bytes cs - chunk_bytes cs')" "rem' + card (chunk_bytes cs) = rem1 + card (chunk_bytes cs')"
    using Cons.IH [OF p1(2) c(3,4) pre] by blast
  have "trim_chunks page_free (c # cs) rem p = Some (keep @ cs', rem', p')" using k(1) p1(1) ih(1) by simp
  moreover have "gapped (keep @ cs')" using k(2,4) ih(4,6) c(2) by fastforce
  moreover have "card (chunk_bytes (keep @ cs')) = card (chunk_bytes keep) + card (chunk_bytes cs')"
    unfolding chunk_bytes_simps using sub dis ih(7) by (intro card_Un_disjoint) auto
  then have "rem' + card (chunk_bytes (c # cs)) = rem + card (chunk_bytes (keep @ cs'))" using card p1(5) ih(9) by simp
  moreover have "avail p' = avail p \<union> (chunk_bytes (c # cs) - chunk_bytes (keep @ cs'))"
    unfolding ih(8) p1(4) using sub ih(7) dis by auto
  ultimately show ?case using k(3,4) ih p1(3) sub by fastforce
qed

lemma miniheap_trim_ok:
  assumes inv: "heap_over pinv avail owned h p"
  shows "\<exists>h' p'. miniheap_trim page_free h p = Some (h', p') \<and> heap_over pinv avail owned h' p' \<and> allocs h' = allocs h \<and>
    chunk_bytes (free_chunks h') \<subseteq> chunk_bytes (free_chunks h) \<and>
    avail p' = avail p \<union> (chunk_bytes (free_chunks h) - chunk_bytes (free_chunks h'))"
proof -
  have i0: "pinv p" "heap_inv (avail p) h" "chunk_bytes (free_chunks h) \<union> alloc_bytes h \<subseteq> owned p" using inv by (simp_all add: heap_over_def)
  note i = heap_invD [OF i0(2)]
  have ch: "gapped (free_chunks h)" "\<forall>c\<in>set (free_chunks h). chunk_ok c" "hp_remaining h = card (chunk_bytes (free_chunks h))"
    using i(1) by (simp_all add: chunks_ok_def)
  have "card (chunk_bytes (free_chunks h)) \<le> card {1..<2 ^ 64 :: nat}" using chunk_bytes_bound [OF ch(2)] by (intro card_mono) auto
  then have rem: "hp_remaining h < 2 ^ 64" using ch(3) by simp
  have sub: "chunk_bytes (free_chunks h) \<subseteq> owned p - avail p" using i0(3) i(6) by auto
  obtain cs' rem' p' where t: "trim_chunks page_free (free_chunks h) (hp_remaining h) p = Some (cs', rem', p')" "pinv p'" "owned p' = owned p"
    "gapped cs'" "\<forall>c\<in>set cs'. chunk_ok c" "chunk_bytes cs' \<subseteq> chunk_bytes (free_chunks h)"
    "avail p' = avail p \<union> (chunk_bytes (free_chunks h) - chunk_bytes cs')"
    "rem' + card (chunk_bytes (free_chunks h)) = hp_remaining h + card (chunk_bytes cs')"
    using trim_chunks_ok [OF i0(1) ch(1,2) sub _ rem] ch(3) by auto
  let ?h = "h\<lparr>free_chunks := cs', hp_remaining := rem'\<rparr>"
  have ab: "alloc_bytes ?h = alloc_bytes h" by (simp add: alloc_bytes_def)
  have "heap_inv (avail p') ?h"
    unfolding heap_inv_def ab using t i(2-10) ch(3) by (auto simp: chunks_ok_def)
  then have "heap_over pinv avail owned ?h p'" using t i0(3) ab by (auto simp: heap_over_def)
  then show ?thesis using t by (simp add: miniheap_trim_def)
qed

end

lemma miniheap_init_ok:
  assumes "chunk_ok (ptr, len)" and "extent (ptr, len) \<subseteq> avail" and "0 < free_list_at h" and "free_list_at h - 1 \<notin> avail"
    and "allocs h = Map.empty"
  obtains h' where "miniheap_init ptr len h = Some h'" "heap_inv (avail - extent (ptr, len)) h'" "allocs h' = Map.empty"
    "chunk_bytes (free_chunks h') = extent (ptr, len)" "free_list_at h' = free_list_at h"
proof -
  let ?h = "h\<lparr>hp_base := ptr, hp_len := len, hp_remaining := 0, low_watermark := 0, free_chunks := []\<rparr>"
  have "heap_inv avail ?h" using assms(3-5) by (simp add: heap_inv_def chunks_ok_def alloc_bytes_def)
  then obtain r h' where h': "heap_insert_free_chunk (ptr, len) ?h = Some (r, h')" "heap_inv (avail - extent (ptr, len)) h'" "allocs h' = allocs ?h"
    "chunk_bytes (free_chunks h') = chunk_bytes (free_chunks ?h) \<union> extent (ptr, len)" "free_list_at h' = free_list_at ?h"
    by (rule add_pages_ok [OF _ assms(1,2)])
  have "0 < len" "len mod 8 = 0" using assms(1) by (auto simp: chunk_ok_def CHUNK_SIZE_def)
  then have "miniheap_init ptr len h = Some h'" using h'(1) by (simp add: miniheap_init_def Let_def heap_create_free_chunk_def)
  then show ?thesis using that h' assms(5) by simp
qed

text \<open>The statistics: what is free is what the chunks hold, and no chunk is larger than the largest.\<close>

lemma get_stats_ok:
  assumes "chunks_ok h"
  shows "heap_free (miniheap_get_stats h) = hp_remaining h" "\<forall>c\<in>set (free_chunks h). snd c \<le> heap_max_chunk (miniheap_get_stats h)"
proof -
  have "fold (\<lambda>c n. u64_of (int n + int (snd c))) cs x = x + card (chunk_bytes cs)"
    if "gapped cs" "\<forall>c\<in>set cs. chunk_ok c" "x + card (chunk_bytes cs) < 2 ^ 64" for cs x
    using that
  proof (induction cs arbitrary: x)
    case (Cons c cs)
    have "card (chunk_bytes (c # cs)) = snd c + card (chunk_bytes cs)"
      using chunk_bytes_apart(1) [of cs c] Cons.prems(1) by (simp add: card_Un_disjoint)
    then show ?case using Cons by (simp add: u64_of_sum)
  qed simp
  moreover have "card (chunk_bytes (free_chunks h)) \<le> card {1..<2 ^ 64 :: nat}"
    using chunk_bytes_bound [of "free_chunks h"] assms by (intro card_mono) (auto simp: chunks_ok_def)
  ultimately show "heap_free (miniheap_get_stats h) = hp_remaining h" using assms by (simp add: miniheap_get_stats_def chunks_ok_def)
  have "m \<le> fold (\<lambda>c m. if snd c > m then snd c else m) cs m \<and> (\<forall>c\<in>set cs. snd c \<le> fold (\<lambda>c m. if snd c > m then snd c else m) cs m)"
    for m and cs :: "chunk list"
  proof (induction cs arbitrary: m)
    case (Cons c cs)
    show ?case using Cons.IH [of "if snd c > m then snd c else m"] by (auto split: if_splits)
  qed simp
  then show "\<forall>c\<in>set (free_chunks h). snd c \<le> heap_max_chunk (miniheap_get_stats h)" by (simp add: miniheap_get_stats_def)
qed

context page_source
begin

lemma free_over:
  assumes "heap_over pinv avail owned h p" and "allocs h ptr = Some as"
  obtains h' where "miniheap_free (Some ptr) h = Some h'" "heap_over pinv avail owned h' p" "allocs h' = (allocs h)(ptr := None)"
    "chunk_bytes (free_chunks h') = chunk_bytes (free_chunks h) \<union> block as"
proof -
  have i: "pinv p" "heap_inv (avail p) h" "chunk_bytes (free_chunks h) \<union> alloc_bytes h \<subseteq> owned p" using assms(1) by (simp_all add: heap_over_def)
  obtain h' where h': "miniheap_free (Some ptr) h = Some h'" "heap_inv (avail p) h'" "allocs h' = (allocs h)(ptr := None)"
    "chunk_bytes (free_chunks h') = chunk_bytes (free_chunks h) \<union> block as" by (rule miniheap_free_ok [OF i(2) assms(2)])
  have "alloc_bytes h' \<subseteq> alloc_bytes h" unfolding alloc_bytes_def h'(3) by (auto simp: ran_def split: if_splits)
  then have "heap_over pinv avail owned h' p" using i h' block_bytes [OF assms(2)] by (auto simp: heap_over_def)
  then show ?thesis using that h' by blast
qed

lemma alloc_free_ok:
  assumes inv: "heap_over pinv avail owned h p" and n: "n < 2 ^ 41" and al: "alignment AND (alignment - 1) = 0"
    and a: "miniheap_alloc page_alloc n alignment h p = Some (Some ptr, h', p')"
  shows "\<exists>h''. miniheap_free (Some ptr) h' = Some h'' \<and> heap_over pinv avail owned h'' p' \<and> allocs h'' = allocs h \<and>
    chunk_bytes (free_chunks h'') = chunk_bytes (free_chunks h) \<union> (avail p - avail p') \<and>
    (avail p' = avail p \<longrightarrow> free_chunks h'' = free_chunks h \<and> hp_remaining h'' = hp_remaining h)"
proof -
  have r: "heap_over pinv avail owned h' p'" "allocated ptr n (unat alignment) (avail p - avail p') h h'"
    using miniheap_alloc_ok [OF inv n al] a by auto
  then obtain as where as: "allocs h' = (allocs h)(ptr \<mapsto> as)" "allocs h ptr = None"
    "chunk_bytes (free_chunks h') \<union> block as = chunk_bytes (free_chunks h) \<union> (avail p - avail p')" by (auto simp: allocated_def)
  have "allocs h' ptr = Some as" by (simp add: as(1))
  then obtain h'' where f: "miniheap_free (Some ptr) h' = Some h''" "heap_over pinv avail owned h'' p'" "allocs h'' = (allocs h')(ptr := None)"
    "chunk_bytes (free_chunks h'') = chunk_bytes (free_chunks h') \<union> block as" by (rule free_over [OF r(1)])
  have "allocs h'' = allocs h" unfolding f(3) as(1) using as(2) by auto
  moreover have "free_chunks h'' = free_chunks h \<and> hp_remaining h'' = hp_remaining h" if "avail p' = avail p"
    using free_chunks_unique [of "avail p'" h'' "avail p" h] f(2,4) inv as(3) that by (simp add: heap_over_def)
  ultimately show ?thesis using f as(3) by auto
qed

lemma realloc_ok:
  assumes inv: "heap_over pinv avail owned h p" and n: "n < 2 ^ 41" and ptr: "\<And>q. ptr = Some q \<Longrightarrow> allocs h q \<noteq> None"
  shows "\<exists>r c h' p'. miniheap_realloc page_alloc ptr n h p = Some (r, c, h', p') \<and> heap_over pinv avail owned h' p' \<and>
    (case r of
       Some q \<Rightarrow> dom (allocs h') = insert q (dom (allocs h) - set_option ptr) \<and> c = map_option (\<lambda>old. (q, old, n)) ptr \<and>
         (\<exists>as. allocs h' q = Some as \<and> {q..<q + n} \<subseteq> block as)
     | None \<Rightarrow> c = None \<and> dom (allocs h') = (if n = 0 then dom (allocs h) - set_option ptr else dom (allocs h)))"
proof -
  obtain r h1 p1 where a: "miniheap_alloc page_alloc n 0 h p = Some (r, h1, p1)" "heap_over pinv avail owned h1 p1"
    "case r of None \<Rightarrow> h1 = h | Some q \<Rightarrow> allocated q n 0 (avail p - avail p1) h h1"
    using miniheap_alloc_ok [OF inv n, of 0] by (force split: option.splits)
  show ?thesis
  proof (cases ptr)
    case None
    then show ?thesis using a by (auto simp: miniheap_realloc_def allocated_def split: option.splits)
  next
    case (Some old)
    obtain as where as: "allocs h old = Some as" using ptr [OF Some] by auto
    show ?thesis
    proof (cases "n = 0")
      case True
      obtain h' where "miniheap_free (Some old) h = Some h'" "heap_over pinv avail owned h' p" "allocs h' = (allocs h)(old := None)"
        by (rule free_over [OF inv as])
      then show ?thesis using True Some by (auto simp: miniheap_realloc_def)
    next
      case False
      show ?thesis
      proof (cases r)
        case None
        then show ?thesis using a False Some by (auto simp: miniheap_realloc_def)
      next
        case r: (Some q)
        then obtain bs where bs: "allocs h1 = (allocs h)(q \<mapsto> bs)" "allocs h q = None" "{q..<q + n} \<subseteq> block bs" using a(3) by (auto simp: allocated_def)
        then have "allocs h1 old = Some as" using as by auto
        then obtain h' where h': "miniheap_free (Some old) h1 = Some h'" "heap_over pinv avail owned h' p1" "allocs h' = (allocs h1)(old := None)"
          by (rule free_over [OF a(2)])
        have "dom (allocs h') = insert q (dom (allocs h) - {old})" unfolding h'(3) bs(1) using bs(2) as by auto
        moreover have "allocs h' q = Some bs" unfolding h'(3) bs(1) using bs(2) as by auto
        ultimately show ?thesis using a(1) r h' bs(3) False Some by (auto simp: miniheap_realloc_def)
      qed
    qed
  qed
qed

end

end
