(* ===== verification/LK_Heap.thy ===== *)
theory LK_Heap
  imports LK_Miniheap LK_Vmm
begin

text \<open>
  The page allocator behind the heap, \<^verbatim>\<open>lib/heap/page_alloc.c\<close>, over the physical memory manager, and the calls of the C
  library, \<^verbatim>\<open>lib/heap/heap_wrapper.c\<close>, over the heap of \<open>LK_Miniheap\<close>, with the list of blocks that are freed later because they
  were given back in a place where the lock of the heap cannot be taken. The table of initial mappings and the answer of
  \<^verbatim>\<open>arch_mmu_query\<close> are arguments, as in \<open>LK_Vmm\<close>.
\<close>

section \<open>Pages\<close>

definition page_alloc ::
  "mmu_initial_mapping list \<Rightarrow> nat \<Rightarrow> 'a vmm_state_scheme \<Rightarrow> (nat option \<times> 'a vmm_state_scheme) option" where
  "page_alloc maps pages s =
     do {
       (r, _, s) \<leftarrow> pmm_alloc_kpages (paddr_to_kvaddr maps) (u32_of pages) None s;
       Some (map_option unat r, s)
     }"

definition page_free ::
  "(nat \<Rightarrow> u64 \<Rightarrow> u64 option) \<Rightarrow> nat \<Rightarrow> nat \<Rightarrow> 'a vmm_state_scheme \<Rightarrow> 'a vmm_state_scheme option" where
  "page_free query ptr pages s =
     do {
       dassert (ptr mod PAGE_LEN = 0);
       (_, s) \<leftarrow> pmm_free_kpages (\<lambda>p. vaddr_to_paddr query p s) (of_nat ptr) (u32_of pages) s;
       Some s
     }"

definition page_get_arenas :: "mmu_initial_mapping list \<Rightarrow> (int \<times> nat \<times> nat) option" where
  "page_get_arenas maps = map_option (\<lambda>(a, l). (1, unat a, unat l)) (kvaddr_get_range maps)"

definition page_first_alloc ::
  "mmu_initial_mapping list \<Rightarrow> 'a vmm_state_scheme \<Rightarrow> (nat option \<times> nat \<times> 'a vmm_state_scheme) option" where
  "page_first_alloc maps s = do { (r, s) \<leftarrow> page_alloc maps 1 s; Some (r, PAGE_LEN, s) }"

section \<open>The calls of the C library\<close>

record 'p kheap =
  theheap :: heap
  delayed_free_list :: "nat list"
  page_state :: 'p

fun heap_free_list :: "nat list \<Rightarrow> heap \<Rightarrow> heap option" where
  "heap_free_list [] h = Some h"
| "heap_free_list (p # ps) h = do { h \<leftarrow> miniheap_free (Some p) h; heap_free_list ps h }"

text \<open>The nodes are moved one by one to the head of a second list and freed from there.\<close>

definition heap_free_delayed_list :: "'p kheap \<Rightarrow> 'p kheap option" where
  "heap_free_delayed_list s =
     do {
       let l = fold (#) (delayed_free_list s) [];
       h \<leftarrow> heap_free_list l (theheap s);
       Some (s\<lparr>theheap := h, delayed_free_list := []\<rparr>)
     }"

definition heap_pending :: "'p kheap \<Rightarrow> 'p kheap option" where
  "heap_pending s = (if delayed_free_list s \<noteq> [] then heap_free_delayed_list s else Some s)"

text \<open>Without a first page the heap would start at address 0.\<close>

definition heap_init ::
  "mmu_initial_mapping list \<Rightarrow> 'a vmm_state_scheme kheap \<Rightarrow> 'a vmm_state_scheme kheap option" where
  "heap_init maps s =
     do {
       (r, len, p) \<leftarrow> page_first_alloc maps (page_state s);
       ptr \<leftarrow> r;
       h \<leftarrow> miniheap_init ptr len (theheap s);
       Some (s\<lparr>theheap := h, page_state := p\<rparr>)
     }"

definition heap_trim ::
  "(nat \<Rightarrow> u64 \<Rightarrow> u64 option) \<Rightarrow> 'a vmm_state_scheme kheap \<Rightarrow> 'a vmm_state_scheme kheap option" where
  "heap_trim query s =
     do {
       s \<leftarrow> heap_pending s;
       (h, p) \<leftarrow> miniheap_trim (page_free query) (theheap s) (page_state s);
       Some (s\<lparr>theheap := h, page_state := p\<rparr>)
     }"

definition heap_memalign ::
  "mmu_initial_mapping list \<Rightarrow> nat \<Rightarrow> nat \<Rightarrow> 'a vmm_state_scheme kheap \<Rightarrow> (nat option \<times> 'a vmm_state_scheme kheap) option" where
  "heap_memalign maps boundary sz s =
     do {
       s \<leftarrow> heap_pending s;
       (r, h, p) \<leftarrow> miniheap_alloc (page_alloc maps) sz (of_nat boundary) (theheap s) (page_state s);
       Some (r, s\<lparr>theheap := h, page_state := p\<rparr>)
     }"

definition heap_malloc ::
  "mmu_initial_mapping list \<Rightarrow> nat \<Rightarrow> 'a vmm_state_scheme kheap \<Rightarrow> (nat option \<times> 'a vmm_state_scheme kheap) option" where
  "heap_malloc maps sz s =
     do {
       s \<leftarrow> heap_pending s;
       (r, h, p) \<leftarrow> miniheap_alloc (page_alloc maps) sz 0 (theheap s) (page_state s);
       Some (r, s\<lparr>theheap := h, page_state := p\<rparr>)
     }"

text \<open>The length of the memory that is cleared is returned too.\<close>

definition heap_calloc ::
  "mmu_initial_mapping list \<Rightarrow> nat \<Rightarrow> nat \<Rightarrow> 'a vmm_state_scheme kheap \<Rightarrow> (nat option \<times> nat \<times> 'a vmm_state_scheme kheap) option" where
  "heap_calloc maps n sz s =
     do {
       s \<leftarrow> heap_pending s;
       let realsize = u64_of (int (n * sz));
       (r, h, p) \<leftarrow> miniheap_alloc (page_alloc maps) realsize 0 (theheap s) (page_state s);
       Some (r, if r = None then 0 else realsize, s\<lparr>theheap := h, page_state := p\<rparr>)
     }"

definition heap_realloc ::
  "mmu_initial_mapping list \<Rightarrow> nat option \<Rightarrow> nat \<Rightarrow> 'a vmm_state_scheme kheap \<Rightarrow>
     (nat option \<times> (nat \<times> nat \<times> nat) option \<times> 'a vmm_state_scheme kheap) option" where
  "heap_realloc maps ptr sz s =
     do {
       s \<leftarrow> heap_pending s;
       (r, c, h, p) \<leftarrow> miniheap_realloc (page_alloc maps) ptr sz (theheap s) (page_state s);
       Some (r, c, s\<lparr>theheap := h, page_state := p\<rparr>)
     }"

definition heap_free :: "nat option \<Rightarrow> 'p kheap \<Rightarrow> 'p kheap option" where
  "heap_free ptr s = do { h \<leftarrow> miniheap_free ptr (theheap s); Some (s\<lparr>theheap := h\<rparr>) }"

text \<open>
  The node of the list is laid over the block, whatever the size of the block. Where they do
  not, the header or the chunk behind the block is overwritten, and there is no value.
\<close>

definition LIST_NODE_SIZE :: nat where "LIST_NODE_SIZE = 16"

definition heap_delayed_free :: "nat \<Rightarrow> 'p kheap \<Rightarrow> 'p kheap option" where
  "heap_delayed_free ptr s =
     do {
       dassert (has_room (theheap s) ptr LIST_NODE_SIZE);
       Some (s\<lparr>delayed_free_list := ptr # delayed_free_list s\<rparr>)
     }"

section \<open>The physical memory manager as a source of pages\<close>

text \<open>
  The kernel sees the arenas with the flag \<^verbatim>\<open>KMAP\<close> at their physical addresses plus an offset, and the page tables translate
  back.
\<close>

definition kmapped :: "'a pmm_state_scheme \<Rightarrow> nat set" where
  "kmapped s = {a \<in> set (arena_list s). ar_flags (arenas s a) AND PMM_ARENA_FLAG_KMAP \<noteq> 0}"

definition kpage_addr :: "u64 \<Rightarrow> 'a pmm_state_scheme \<Rightarrow> page \<Rightarrow> nat" where
  "kpage_addr off s pg = unat (ar_base (arenas s (fst pg))) + 4096 * snd pg + unat off"

definition kpage_bytes :: "u64 \<Rightarrow> 'a pmm_state_scheme \<Rightarrow> page set \<Rightarrow> nat set" where
  "kpage_bytes off s P = (\<Union>pg\<in>{pg \<in> P. fst pg \<in> kmapped s}. extent (kpage_addr off s pg, 4096))"

definition kmap_ok :: "mmu_initial_mapping list \<Rightarrow> (nat \<Rightarrow> u64 \<Rightarrow> u64 option) \<Rightarrow> u64 \<Rightarrow> 'a pmm_state_scheme \<Rightarrow> bool" where
  "kmap_ok maps query off s \<longleftrightarrow> 4096 dvd unat off \<and>
     (\<forall>a\<in>kmapped s. 0 < unat (ar_base (arenas s a)) + unat off \<and>
        unat (ar_base (arenas s a)) + unat (ar_size (arenas s a)) + unat off + 4096 \<le> 2 ^ 64 \<and>
        (\<forall>k<arena_pages (arenas s a). let pa = ar_base (arenas s a) + of_nat k * PAGE_SIZE in
           paddr_to_kvaddr maps pa = Some (pa + off) \<and> is_kernel_address (pa + off) \<and> query kernel_aspace (pa + off) = Some pa))"

definition kpages_inv :: "mmu_initial_mapping list \<Rightarrow> (nat \<Rightarrow> u64 \<Rightarrow> u64 option) \<Rightarrow> u64 \<Rightarrow> 'a pmm_state_scheme \<Rightarrow> bool" where
  "kpages_inv maps query off s \<longleftrightarrow> pmm_inv s \<and> kmap_ok maps query off s \<and>
     (\<forall>a\<in>set (arena_list s). arena_pages (arenas s a) < 2 ^ 31) \<and> card (all_pages s) < 2 ^ 32"

lemma contig_None:
  "pmm_alloc_contiguous cnt al None s = map_option (\<lambda>(n, pa, _, s'). (n, pa, None, s')) (pmm_alloc_contiguous cnt al (Some []) s)"
  by (auto simp: pmm_alloc_contiguous_def Let_def split: option.split bind_splits prod.split)

lemma same_pmm_kmap:
  assumes "same_pmm s s'"
  shows "kmapped s' = kmapped s" "kpage_addr off s' = kpage_addr off s" "kpage_bytes off s' P = kpage_bytes off s P"
    "kmap_ok maps query off s' = kmap_ok maps query off s" "arena_pages (arenas s' a) = arena_pages (arenas s a)"
proof -
  have a: "arena_list s' = arena_list s" "ar_base (arenas s' x) = ar_base (arenas s x)" "ar_size (arenas s' x) = ar_size (arenas s x)"
    "ar_flags (arenas s' x) = ar_flags (arenas s x)" "arena_pages (arenas s' x) = arena_pages (arenas s x)" for x
    using assms by (simp_all add: same_pmm_def same_arena_def arena_pages_def)
  show k: "kmapped s' = kmapped s" "kpage_addr off s' = kpage_addr off s" by (simp_all add: kmapped_def kpage_addr_def a fun_eq_iff)
  then show "kpage_bytes off s' P = kpage_bytes off s P" by (simp add: kpage_bytes_def)
  show "kmap_ok maps query off s' = kmap_ok maps query off s" by (simp add: kmap_ok_def k a)
  show "arena_pages (arenas s' a) = arena_pages (arenas s a)" by (rule a(5))
qed

lemma kpages_inv_same:
  assumes "kpages_inv maps query off s" and "same_pmm s s'" and "pmm_inv s'"
  shows "kpages_inv maps query off s'"
  using assms same_pmm_kmap [OF assms(2)] same_pmm_pages [OF assms(2)] by (auto simp: kpages_inv_def same_pmm_def)

lemma kpage_addr_ok:
  assumes inv: "kpages_inv maps query off s" and a: "a \<in> kmapped s" and k: "k < arena_pages (arenas s a)"
  shows "unat (ar_base (arenas s a) + of_nat k * PAGE_SIZE + off) = kpage_addr off s (a, k)" "4096 dvd kpage_addr off s (a, k)"
    "0 < kpage_addr off s (a, k)" "kpage_addr off s (a, k) + 4096 \<le> unat (ar_base (arenas s a)) + unat (ar_size (arenas s a)) + unat off"
    "kpage_addr off s (a, k) + 4096 + 4096 \<le> 2 ^ 64"
proof -
  have al: "a \<in> set (arena_list s)" using a by (simp add: kmapped_def)
  have ok: "arena_ok (arenas s a)" using inv al by (simp add: kpages_inv_def pmm_inv_def)
  have m: "4096 dvd unat off" "0 < unat (ar_base (arenas s a)) + unat off"
    "unat (ar_base (arenas s a)) + unat (ar_size (arenas s a)) + unat off + 4096 \<le> 2 ^ 64"
    using inv a by (simp_all add: kpages_inv_def kmap_ok_def)
  note pa = page_address [OF ok k]
  have sz: "4096 * k + 4096 \<le> unat (ar_size (arenas s a))" using k unfolding arena_pages_unat by (simp add: less_eq_div_iff_mult_less_eq flip: Suc_le_eq)
  then show 4: "kpage_addr off s (a, k) + 4096 \<le> unat (ar_base (arenas s a)) + unat (ar_size (arenas s a)) + unat off" by (simp add: kpage_addr_def)
  then show "kpage_addr off s (a, k) + 4096 + 4096 \<le> 2 ^ 64" using m(3) by linarith
  have "unat (ar_base (arenas s a) + of_nat k * PAGE_SIZE) + unat off < 2 ^ LENGTH(64)" using 4 m(3) unfolding pa(1) kpage_addr_def by simp
  then have "unat (ar_base (arenas s a) + of_nat k * PAGE_SIZE + off) = unat (ar_base (arenas s a) + of_nat k * PAGE_SIZE) + unat off"
    by (rule unat_add_lem [THEN iffD1])
  then show "unat (ar_base (arenas s a) + of_nat k * PAGE_SIZE + off) = kpage_addr off s (a, k)" unfolding pa(1) by (simp add: kpage_addr_def)
  have "4096 dvd unat (ar_base (arenas s a))" using ok by (auto simp: arena_ok_def mod_eq_0_iff_dvd)
  then show "4096 dvd kpage_addr off s (a, k)" using m(1) by (simp add: kpage_addr_def)
  show "0 < kpage_addr off s (a, k)" using m(2) by (auto simp: kpage_addr_def)
qed

lemma kpage_addr_inj:
  assumes inv: "kpages_inv maps query off s" and p: "p \<in> all_pages s" "fst p \<in> kmapped s" and q: "q \<in> all_pages s" "fst q \<in> kmapped s"
    and eq: "kpage_addr off s p = kpage_addr off s q"
  shows "p = q"
proof -
  obtain a k b j where e: "p = (a, k)" "q = (b, j)" by (cases p, cases q)
  have kj: "k < arena_pages (arenas s a)" "j < arena_pages (arenas s b)" "a \<in> set (arena_list s)" "b \<in> set (arena_list s)"
    using p q e by (auto simp: all_pages_def)
  note 1 = kpage_addr_ok(4) [OF inv, of a k] and 2 = kpage_addr_ok(4) [OF inv, of b j]
  have "a = b"
  proof (rule ccontr)
    assume "a \<noteq> b"
    then have "unat (ar_base (arenas s a)) + unat (ar_size (arenas s a)) \<le> unat (ar_base (arenas s b)) \<or>
      unat (ar_base (arenas s b)) + unat (ar_size (arenas s b)) \<le> unat (ar_base (arenas s a))"
      using inv kj(3,4) by (simp add: kpages_inv_def pmm_inv_def)
    then show False using 1 2 kj p q e eq by (auto simp: kpage_addr_def)
  qed
  then show ?thesis using eq e by (simp add: kpage_addr_def)
qed

lemma aligned_extent:
  assumes "4096 dvd a" and "4096 dvd (b :: nat)" and "x \<in> extent (a, 4096)" and "x \<in> extent (b, 4096)"
  shows "a = b"
proof -
  have "x div 4096 = a div 4096" "x div 4096 = b div 4096" using assms by (auto simp: extent_def elim!: dvdE)
  then show ?thesis using assms(1,2) by (metis dvd_div_mult_self)
qed

lemma kpage_bytes_mem:
  assumes inv: "kpages_inv maps query off s" and P: "P \<subseteq> all_pages s" and p: "p \<in> all_pages s" "fst p \<in> kmapped s"
    and x: "x \<in> extent (kpage_addr off s p, 4096)"
  shows "x \<in> kpage_bytes off s P \<longleftrightarrow> p \<in> P"
proof
  assume "x \<in> kpage_bytes off s P"
  then obtain q where q: "q \<in> P" "fst q \<in> kmapped s" "x \<in> extent (kpage_addr off s q, 4096)" by (auto simp: kpage_bytes_def)
  have al: "4096 dvd kpage_addr off s p" "4096 dvd kpage_addr off s q"
    using kpage_addr_ok(2) [OF inv, of "fst p" "snd p"] kpage_addr_ok(2) [OF inv, of "fst q" "snd q"] p q P by (auto simp: all_pages_def)
  have "p = q" by (rule kpage_addr_inj [OF inv p _ q(2) aligned_extent [OF al x q(3)]]) (use q P in auto)
  then show "p \<in> P" using q by simp
next
  assume "p \<in> P"
  then show "x \<in> kpage_bytes off s P" using p x by (cases p) (auto simp: kpage_bytes_def)
qed

lemma kpage_bytes_Diff:
  assumes "kpages_inv maps query off s" and "P \<subseteq> all_pages s" and "Q \<subseteq> all_pages s"
  shows "kpage_bytes off s (P - Q) = kpage_bytes off s P - kpage_bytes off s Q"
proof (rule set_eqI)
  fix x
  show "x \<in> kpage_bytes off s (P - Q) \<longleftrightarrow> x \<in> kpage_bytes off s P - kpage_bytes off s Q"
  proof (cases "\<exists>p\<in>all_pages s. fst p \<in> kmapped s \<and> x \<in> extent (kpage_addr off s p, 4096)")
    case True
    then obtain p where p: "p \<in> all_pages s" "fst p \<in> kmapped s" "x \<in> extent (kpage_addr off s p, 4096)" by blast
    have "P - Q \<subseteq> all_pages s" using assms(2) by auto
    note m = kpage_bytes_mem [OF assms(1) _ p]
    show ?thesis using m [OF assms(2)] m [OF assms(3)] m [OF \<open>P - Q \<subseteq> all_pages s\<close>] by simp
  next
    case False
    then show ?thesis using assms(2,3) unfolding kpage_bytes_def by blast
  qed
qed

lemma kpage_bytes_Un: "kpage_bytes off s (P \<union> Q) = kpage_bytes off s P \<union> kpage_bytes off s Q"
  by (auto simp: kpage_bytes_def)

lemma kpage_bytes_mono: "P \<subseteq> Q \<Longrightarrow> kpage_bytes off s P \<subseteq> kpage_bytes off s Q"
  by (auto simp: kpage_bytes_def)

lemma extent_pages: "extent (a, n * 4096) = (\<Union>i<n. extent (a + 4096 * i, 4096))"
proof (induction n)
  case (Suc n)
  have "extent (a, Suc n * 4096) = extent (a, n * 4096) \<union> extent (a + 4096 * n, 4096)" by (auto simp: extent_def)
  then show ?case using Suc by (auto simp: lessThan_Suc)
qed (simp add: extent_def)

lemma kpage_bytes_run:
  assumes "a \<in> kmapped s"
  shows "kpage_bytes off s (set (map (Pair a) [k..<k + n])) = extent (kpage_addr off s (a, k), n * 4096)"
proof -
  have "extent (kpage_addr off s (a, k), n * 4096) = (\<Union>i<n. extent (kpage_addr off s (a, k + i), 4096))"
    unfolding extent_pages by (simp add: kpage_addr_def algebra_simps)
  also have "\<dots> = (\<Union>i\<in>{k..<k + n}. extent (kpage_addr off s (a, i), 4096))"
  proof -
    have "{k..<k + n} = (+) k ` {..<n}" by (simp add: lessThan_atLeast0 add.commute)
    then show ?thesis by auto
  qed
  finally show ?thesis using assms by (auto simp: kpage_bytes_def)
qed

lemma page_alloc_ok:
  assumes inv: "kpages_inv maps query off s" and n: "0 < n" "n < 2 ^ 30"
  shows "\<exists>r s'. page_alloc maps n s = Some (r, s') \<and> kpages_inv maps query off s' \<and> same_pmm s s' \<and>
    (r = None \<longleftrightarrow> \<not> (\<exists>a k. has_run n (max 12 PAGE_SIZE_SHIFT) s a k)) \<and>
    (case r of None \<Rightarrow> s' = s
     | Some a \<Rightarrow> chunk_ok (a, n * 4096) \<and> 4096 dvd a \<and> extent (a, n * 4096) \<subseteq> kpage_bytes off s (free_pages s) \<and>
         kpage_bytes off s' (free_pages s') = kpage_bytes off s (free_pages s) - extent (a, n * 4096))"
proof -
  have pm: "pmm_inv s" using inv by (simp add: kpages_inv_def)
  have cs: "contig_sizes n (max 12 PAGE_SIZE_SHIFT) s" using inv n by (simp add: contig_sizes_def kpages_inv_def PAGE_SIZE_SHIFT_def)
  have u: "u32_of n = n" using n by (intro u32_of_id) simp
  note ok = pmm_alloc_contiguous_ok [OF pm cs, of "[]"]
  show ?thesis
  proof (cases "\<exists>a k. has_run n (max 12 PAGE_SIZE_SHIFT) s a k")
    case False
    then obtain l' where "pmm_alloc_contiguous n PAGE_SIZE_SHIFT (Some []) s = Some (0, None, l', s)" using ok by auto
    then have "page_alloc maps n s = Some (None, s)" by (simp add: page_alloc_def pmm_alloc_kpages_def u contig_None)
    then show ?thesis using inv False by simp
  next
    case True
    with ok obtain a k p l' s' where c: "pmm_alloc_contiguous n PAGE_SIZE_SHIFT (Some []) s = Some (n, Some p, l', s')"
      "has_run n (max 12 PAGE_SIZE_SHIFT) s a k" "taken (map (Pair a) [k..<k + n]) s s'" "unat p = unat (ar_base (arenas s a)) + 4096 * k"
      by auto
    have a: "a \<in> kmapped s" "k + n \<le> arena_pages (arenas s a)" "a \<in> set (arena_list s)" using c(2) by (simp_all add: has_run_def kmapped_def)
    have k: "k < arena_pages (arenas s a)" "k + n - 1 < arena_pages (arenas s a)" using a(2) n by simp_all
    have arok: "arena_ok (arenas s a)" using pm a(3) by (simp add: pmm_inv_def)
    have p: "p = ar_base (arenas s a) + of_nat k * PAGE_SIZE" using c(4) page_address(1) [OF arok k(1)] by (simp add: word_unat_eq_iff)
    have kv: "paddr_to_kvaddr maps p = Some (p + off)" using inv a(1) k(1) by (simp add: kpages_inv_def kmap_ok_def Let_def p)
    note ad = kpage_addr_ok [OF inv a(1) k(1)] and ad2 = kpage_addr_ok(5) [OF inv a(1) k(2)]
    have up: "unat (p + off) = kpage_addr off s (a, k)" using ad(1) by (simp add: p)
    have r: "page_alloc maps n s = Some (Some (kpage_addr off s (a, k)), s')"
      using c(1) n kv up by (simp add: page_alloc_def pmm_alloc_kpages_def u contig_None)
    have t: "set (map (Pair a) [k..<k + n]) \<subseteq> free_pages s" "free_pages s' = free_pages s - set (map (Pair a) [k..<k + n])"
      "same_pmm s s'" "pmm_inv s'" using c(3) unfolding taken_def by blast+
    have "kpage_addr off s (a, k) + n * 4096 = kpage_addr off s (a, k + n - 1) + 4096" using n by (simp add: kpage_addr_def algebra_simps)
    then have bound: "kpage_addr off s (a, k) + n * 4096 + 4096 \<le> 2 ^ 64" using ad2 by simp
    have "8 dvd kpage_addr off s (a, k)" using ad(2) by (rule dvd_trans [rotated]) simp
    then have ck: "chunk_ok (kpage_addr off s (a, k), n * 4096)"
      using ad(3) n bound by (simp add: chunk_ok_def CHUNK_SIZE_def)
    note run = kpage_bytes_run [OF a(1), of off k n]
    have all: "free_pages s \<subseteq> all_pages s" using free_pages_all [OF pm] .
    have "kpage_bytes off s' (free_pages s') = kpage_bytes off s (free_pages s) - extent (kpage_addr off s (a, k), n * 4096)"
      unfolding same_pmm_kmap(3) [OF t(3)] t(2) run [symmetric] by (rule kpage_bytes_Diff [OF inv all]) (use t(1) all in blast)
    moreover have "extent (kpage_addr off s (a, k), n * 4096) \<subseteq> kpage_bytes off s (free_pages s)"
      unfolding run [symmetric] by (rule kpage_bytes_mono [OF t(1)])
    ultimately show ?thesis using r ck ad(2) t(3) kpages_inv_same [OF inv t(3,4)] True by auto
  qed
qed

lemma vm_page_at:
  assumes inv: "pmm_inv s" and p: "(a, k) \<in> all_pages s"
  shows "paddr_to_vm_page (ar_base (arenas s a) + of_nat k * PAGE_SIZE) s = Some (a, k)"
proof -
  have "vm_page_to_paddr (a, k) s = ar_base (arenas s a) + of_nat k * PAGE_SIZE"
    using find_belongs [OF inv p] by (simp add: vm_page_to_paddr_def PAGE_ADDRESS_FROM_ARENA_def add.commute)
  then show ?thesis using paddr_round_trip(1) [OF inv p] by simp
qed

lemma kpages_list_ok:
  assumes inv: "kpages_inv maps query off s" and "4096 dvd ptr" and "\<forall>i<n. ptr + 4096 * i \<in> kpage_bytes off s (all_pages s)"
  shows "map (kpage_addr off s) (kpages_list (\<lambda>p. vaddr_to_paddr query p s) (of_nat ptr) n s) = map (\<lambda>i. ptr + 4096 * i) [0..<n] \<and>
    set (kpages_list (\<lambda>p. vaddr_to_paddr query p s) (of_nat ptr) n s) \<subseteq> {pg \<in> all_pages s. fst pg \<in> kmapped s}"
  using assms(2,3)
proof (induction n arbitrary: ptr)
  case (Suc n)
  let ?v = "\<lambda>p. vaddr_to_paddr query p s"
  have pm: "pmm_inv s" using inv by (simp add: kpages_inv_def)
  obtain a k where ak: "(a, k) \<in> all_pages s" "a \<in> kmapped s" "ptr \<in> extent (kpage_addr off s (a, k), 4096)"
    using Suc.prems(2) by (auto simp: kpage_bytes_def)
  have k: "k < arena_pages (arenas s a)" using ak(1) by (simp add: all_pages_def)
  note ad = kpage_addr_ok [OF inv ak(2) k]
  have ptr: "ptr = kpage_addr off s (a, k)"
    by (rule aligned_extent [OF Suc.prems(1) ad(2) _ ak(3)]) (simp add: extent_def)
  let ?pa = "ar_base (arenas s a) + of_nat k * PAGE_SIZE"
  have w: "of_nat ptr = ?pa + off" unfolding ptr ad(1) [symmetric] by simp
  have "is_kernel_address (?pa + off)" "query kernel_aspace (?pa + off) = Some ?pa"
    using inv ak(2) k by (simp_all add: kpages_inv_def kmap_ok_def Let_def)
  then have v: "paddr_to_vm_page (?v (of_nat ptr)) s = Some (a, k)"
    unfolding w by (simp add: vaddr_to_paddr_def vaddr_to_aspace_def vm_page_at [OF pm ak(1)])
  have nx: "of_nat ptr + PAGE_SIZE = (of_nat (ptr + 4096) :: u64)" by (simp add: PAGE_SIZE_def)
  have "\<forall>i<n. ptr + 4096 + 4096 * i \<in> kpage_bytes off s (all_pages s)"
  proof (intro allI impI)
    fix i assume "i < n"
    then have "ptr + 4096 * Suc i \<in> kpage_bytes off s (all_pages s)" using Suc.prems(2) by blast
    then show "ptr + 4096 + 4096 * i \<in> kpage_bytes off s (all_pages s)" by (simp add: add.assoc)
  qed
  then have ih: "map (kpage_addr off s) (kpages_list ?v (of_nat (ptr + 4096)) n s) = map (\<lambda>i. ptr + 4096 + 4096 * i) [0..<n]"
    "set (kpages_list ?v (of_nat (ptr + 4096)) n s) \<subseteq> {pg \<in> all_pages s. fst pg \<in> kmapped s}"
    using Suc.IH [of "ptr + 4096"] Suc.prems(1) by simp_all
  have e: "kpages_list ?v (of_nat ptr) (Suc n) s = (a, k) # kpages_list ?v (of_nat (ptr + 4096)) n s"
    unfolding kpages_list.simps v nx by simp
  have "[0..<Suc n] = 0 # map Suc [0..<n]" by (simp add: map_Suc_upt upt_conv_Cons del: upt_Suc)
  then show ?case unfolding e using ih ak(1,2) ptr by (simp add: comp_def add.assoc)
qed simp

lemma finite_all_pages: "finite (all_pages s)"
proof -
  have "all_pages s = (SIGMA a:set (arena_list s). {..<arena_pages (arenas s a)})" by (auto simp: all_pages_def)
  then show ?thesis by simp
qed

lemma page_free_ok:
  assumes inv: "kpages_inv maps query off s" and al: "4096 dvd ptr"
    and sub: "extent (ptr, n * 4096) \<subseteq> kpage_bytes off s (all_pages s) - kpage_bytes off s (free_pages s)"
  shows "\<exists>s'. page_free query ptr n s = Some s' \<and> kpages_inv maps query off s' \<and> same_pmm s s' \<and>
    kpage_bytes off s' (free_pages s') = kpage_bytes off s (free_pages s) \<union> extent (ptr, n * 4096)"
proof -
  have pm: "pmm_inv s" using inv by (simp add: kpages_inv_def)
  have "card (extent (ptr, n * 4096)) \<le> card (kpage_bytes off s (all_pages s))"
    using sub by (intro card_mono) (auto simp: kpage_bytes_def finite_all_pages)
  also have "\<dots> \<le> (\<Sum>pg\<in>{pg \<in> all_pages s. fst pg \<in> kmapped s}. card (extent (kpage_addr off s pg, 4096)))"
    unfolding kpage_bytes_def by (rule card_UN_le) (simp add: finite_all_pages)
  also have "\<dots> = 4096 * card {pg \<in> all_pages s. fst pg \<in> kmapped s}" by simp
  also have "\<dots> \<le> 4096 * card (all_pages s)" by (simp add: card_mono finite_all_pages)
  finally have "n < 2 ^ 32" using inv by (simp add: kpages_inv_def)
  then have u: "u32_of n = n" by (rule u32_of_id)
  let ?ps = "kpages_list (\<lambda>p. vaddr_to_paddr query p s) (of_nat ptr) n s"
  have ex: "extent (ptr + 4096 * i, 4096) \<subseteq> extent (ptr, n * 4096)" if "i < n" for i using that unfolding extent_pages by blast
  have "\<forall>i<n. ptr + 4096 * i \<in> kpage_bytes off s (all_pages s)" using ex sub by (fastforce simp: extent_def)
  note kp = kpages_list_ok [OF inv al this]
  have m: "map (kpage_addr off s) ?ps = map (\<lambda>i. ptr + 4096 * i) [0..<n]" and all: "set ?ps \<subseteq> {pg \<in> all_pages s. fst pg \<in> kmapped s}"
    using kp by blast+
  have "distinct (map (kpage_addr off s) ?ps)" unfolding m by (simp add: distinct_map inj_on_def)
  then have d: "distinct ?ps" by (simp add: distinct_map)
  have img: "kpage_addr off s ` set ?ps = (\<lambda>i. ptr + 4096 * i) ` {..<n}" using arg_cong [OF m, of set] by (simp add: lessThan_atLeast0)
  have bytes: "kpage_bytes off s (set ?ps) = extent (ptr, n * 4096)"
  proof -
    have "{pg \<in> set ?ps. fst pg \<in> kmapped s} = set ?ps" using all by auto
    then have "kpage_bytes off s (set ?ps) = (\<Union>x\<in>kpage_addr off s ` set ?ps. extent (x, 4096))" by (simp add: kpage_bytes_def)
    then show ?thesis unfolding img extent_pages by simp
  qed
  have fr: "free_pages s \<subseteq> all_pages s" using free_pages_all [OF pm] .
  have "pg \<notin> free_pages s" if "pg \<in> set ?ps" for pg
  proof -
    have x: "kpage_addr off s pg \<in> extent (kpage_addr off s pg, 4096)" by (simp add: extent_def)
    then have "kpage_addr off s pg \<in> kpage_bytes off s (set ?ps)" using that all unfolding kpage_bytes_def by blast
    then have "kpage_addr off s pg \<notin> kpage_bytes off s (free_pages s)" using sub bytes by blast
    then show ?thesis using kpage_bytes_mem [OF inv fr _ _ x] that all by blast
  qed
  then have "set ?ps \<subseteq> all_pages s - free_pages s" using all by blast
  from pmm_free_ok [OF pm d this] obtain s' where s': "pmm_free ?ps s = Some (length ?ps, s')" "pmm_inv s'"
    "free_pages s' = free_pages s \<union> set ?ps" "same_pmm s s'" by blast
  have "page_free query ptr n s = Some s'" using al s'(1) by (simp add: page_free_def pmm_free_kpages_def u PAGE_LEN_def)
  moreover have "kpage_bytes off s' (free_pages s') = kpage_bytes off s (free_pages s) \<union> extent (ptr, n * 4096)"
    unfolding same_pmm_kmap(3) [OF s'(4)] s'(3) kpage_bytes_Un bytes ..
  ultimately show ?thesis using s'(4) kpages_inv_same [OF inv s'(4,2)] by blast
qed

interpretation kpages: page_source "page_alloc maps" "page_free query" "kpages_inv maps query off"
  "\<lambda>s. kpage_bytes off s (free_pages s)" "\<lambda>s. kpage_bytes off s (all_pages s)"
proof
  fix p :: "'a vmm_state_scheme" and n a
  assume inv: "kpages_inv maps query off p"
  then have pm: "pmm_inv p" by (simp add: kpages_inv_def)
  show "kpage_bytes off p (free_pages p) \<subseteq> kpage_bytes off p (all_pages p)" by (rule kpage_bytes_mono [OF free_pages_all [OF pm]])
  show "\<exists>r p'. page_alloc maps n p = Some (r, p') \<and> kpages_inv maps query off p' \<and>
      kpage_bytes off p' (all_pages p') = kpage_bytes off p (all_pages p) \<and>
      (case r of None \<Rightarrow> kpage_bytes off p' (free_pages p') = kpage_bytes off p (free_pages p)
       | Some a \<Rightarrow> chunk_ok (a, n * PAGE_LEN) \<and> PAGE_LEN dvd a \<and> extent (a, n * PAGE_LEN) \<subseteq> kpage_bytes off p (free_pages p) \<and>
           kpage_bytes off p' (free_pages p') = kpage_bytes off p (free_pages p) - extent (a, n * PAGE_LEN))"
    if "0 < n" "n < 2 ^ 30"
    using page_alloc_ok [OF inv that] same_pmm_kmap(3) same_pmm_pages by (fastforce simp: PAGE_LEN_def split: option.splits)
  show "\<exists>p'. page_free query a n p = Some p' \<and> kpages_inv maps query off p' \<and>
      kpage_bytes off p' (all_pages p') = kpage_bytes off p (all_pages p) \<and>
      kpage_bytes off p' (free_pages p') = kpage_bytes off p (free_pages p) \<union> extent (a, n * PAGE_LEN)"
    if "0 < n" "PAGE_LEN dvd a" "extent (a, n * PAGE_LEN) \<subseteq> kpage_bytes off p (all_pages p) - kpage_bytes off p (free_pages p)"
    using page_free_ok [OF inv, of a n] that same_pmm_kmap(3) same_pmm_pages by (fastforce simp: PAGE_LEN_def)
qed

section \<open>The heap as its callers see it\<close>

context page_source
begin

lemma free_list_ok:
  assumes "heap_over pinv avail owned h p" and "distinct ps" and "set ps \<subseteq> dom (allocs h)"
  shows "\<exists>h'. heap_free_list ps h = Some h' \<and> heap_over pinv avail owned h' p \<and> allocs h' = allocs h |` (- set ps)"
  using assms
proof (induction ps arbitrary: h)
  case (Cons x ps)
  then obtain as where as: "allocs h x = Some as" by auto
  obtain h1 where h1: "miniheap_free (Some x) h = Some h1" "heap_over pinv avail owned h1 p" "allocs h1 = (allocs h)(x := None)"
    by (rule free_over [OF Cons.prems(1) as])
  have "set ps \<subseteq> dom (allocs h1)" using Cons.prems(2,3) h1(3) by auto
  from Cons.IH [OF h1(2) _ this] Cons.prems(2) obtain h' where h': "heap_free_list ps h1 = Some h'" "heap_over pinv avail owned h' p"
    "allocs h' = allocs h1 |` (- set ps)" by auto
  have "allocs h' = allocs h |` (- set (x # ps))" unfolding h'(3) h1(3) by (auto simp: restrict_map_def fun_eq_iff)
  then show ?case using h1(1) h' by auto
qed (simp add: restrict_map_def)

end

definition kheap_inv :: "mmu_initial_mapping list \<Rightarrow> (nat \<Rightarrow> u64 \<Rightarrow> u64 option) \<Rightarrow> u64 \<Rightarrow> 'a vmm_state_scheme kheap \<Rightarrow> bool" where
  "kheap_inv maps query off s \<longleftrightarrow>
     heap_over (kpages_inv maps query off) (\<lambda>s. kpage_bytes off s (free_pages s)) (\<lambda>s. kpage_bytes off s (all_pages s)) (theheap s) (page_state s) \<and>
     distinct (delayed_free_list s) \<and> set (delayed_free_list s) \<subseteq> dom (allocs (theheap s))"

text \<open>An allocation that its owner has not given back.\<close>

definition live_alloc :: "'p kheap \<Rightarrow> nat \<Rightarrow> bool" where
  "live_alloc s ptr \<longleftrightarrow> allocs (theheap s) ptr \<noteq> None \<and> ptr \<notin> set (delayed_free_list s)"

datatype heap_call =
  Malloc nat | Memalign nat nat | Calloc nat nat | Realloc "nat option" nat | Free "nat option" | Delayed_free nat | Trim

definition heap_exec ::
  "mmu_initial_mapping list \<Rightarrow> (nat \<Rightarrow> u64 \<Rightarrow> u64 option) \<Rightarrow> heap_call \<Rightarrow> 'a vmm_state_scheme kheap \<Rightarrow>
     (nat option \<times> 'a vmm_state_scheme kheap) option" where
  "heap_exec maps query c s =
     (case c of
        Malloc n \<Rightarrow> heap_malloc maps n s
      | Memalign b n \<Rightarrow> heap_memalign maps b n s
      | Calloc n m \<Rightarrow> map_option (\<lambda>(r, _, s). (r, s)) (heap_calloc maps n m s)
      | Realloc ptr n \<Rightarrow> map_option (\<lambda>(r, _, s). (r, s)) (heap_realloc maps ptr n s)
      | Free ptr \<Rightarrow> map_option (Pair None) (heap_free ptr s)
      | Delayed_free ptr \<Rightarrow> map_option (Pair None) (heap_delayed_free ptr s)
      | Trim \<Rightarrow> map_option (Pair None) (heap_trim query s))"

text \<open>
  What the callers owe: pointers are live allocations, a request stays below 2 TB, the most the page allocator counts, and a block that is
  freed later has room for the list node.
\<close>

definition heap_may :: "heap_call \<Rightarrow> 'p kheap \<Rightarrow> bool" where
  "heap_may c s \<longleftrightarrow>
     (case c of
        Malloc n \<Rightarrow> n < 2 ^ 41 | Memalign b n \<Rightarrow> n < 2 ^ 41 | Calloc n m \<Rightarrow> n * m < 2 ^ 41
      | Realloc ptr n \<Rightarrow> n < 2 ^ 41 \<and> (\<forall>p\<in>set_option ptr. live_alloc s p)
      | Free ptr \<Rightarrow> (\<forall>p\<in>set_option ptr. live_alloc s p)
      | Delayed_free ptr \<Rightarrow> live_alloc s ptr \<and> has_room (theheap s) ptr LIST_NODE_SIZE
      | Trim \<Rightarrow> True)"

text \<open>The state at boot: no allocation, memory for at least one page, and the list head not in memory of the page allocator.\<close>

definition heap_boot :: "mmu_initial_mapping list \<Rightarrow> (nat \<Rightarrow> u64 \<Rightarrow> u64 option) \<Rightarrow> u64 \<Rightarrow> 'a vmm_state_scheme kheap \<Rightarrow> bool" where
  "heap_boot maps query off s \<longleftrightarrow> kpages_inv maps query off (page_state s) \<and> (\<exists>r p. page_alloc maps 1 (page_state s) = Some (Some r, p)) \<and>
     allocs (theheap s) = Map.empty \<and> delayed_free_list s = [] \<and> 0 < free_list_at (theheap s) \<and>
     free_list_at (theheap s) - 1 \<notin> kpage_bytes off (page_state s) (free_pages (page_state s))"

inductive heap_reach :: "mmu_initial_mapping list \<Rightarrow> (nat \<Rightarrow> u64 \<Rightarrow> u64 option) \<Rightarrow> u64 \<Rightarrow> 'a vmm_state_scheme kheap \<Rightarrow> bool"
  for maps query off where
  init: "heap_boot maps query off s0 \<Longrightarrow> heap_init maps s0 = Some s \<Longrightarrow> heap_reach maps query off s"
| step: "heap_reach maps query off s \<Longrightarrow> heap_may c s \<Longrightarrow> heap_exec maps query c s = Some (r, s') \<Longrightarrow> heap_reach maps query off s'"

lemma heap_init_ok:
  assumes "heap_boot maps query off s0"
  shows "\<exists>s. heap_init maps s0 = Some s \<and> kheap_inv maps query off s \<and> (\<exists>c\<in>set (free_chunks (theheap s)). PAGE_LEN \<le> snd c)"
proof -
  let ?p = "page_state s0"
  note b = assms [unfolded heap_boot_def]
  then obtain a p where a: "page_alloc maps 1 ?p = Some (Some a, p)" by blast
  have al: "kpages_inv maps query off p" "kpage_bytes off p (all_pages p) = kpage_bytes off ?p (all_pages ?p)"
    "chunk_ok (a, PAGE_LEN)" "extent (a, PAGE_LEN) \<subseteq> kpage_bytes off ?p (free_pages ?p)"
    "kpage_bytes off p (free_pages p) = kpage_bytes off ?p (free_pages ?p) - extent (a, PAGE_LEN)"
    using kpages.alloc_law [of maps query off ?p 1] a b by auto
  obtain h where h: "miniheap_init a PAGE_LEN (theheap s0) = Some h"
    "heap_inv (kpage_bytes off ?p (free_pages ?p) - extent (a, PAGE_LEN)) h" "allocs h = Map.empty" "chunk_bytes (free_chunks h) = extent (a, PAGE_LEN)"
    by (rule miniheap_init_ok [OF al(3,4)]) (use b in auto)
  let ?s = "s0\<lparr>theheap := h, page_state := p\<rparr>"
  have ab: "alloc_bytes h = {}" by (simp add: alloc_bytes_def h(3))
  have "extent (a, PAGE_LEN) \<subseteq> kpage_bytes off ?p (all_pages ?p)" using al(4) kpages.avail_owned [of maps query off ?p] b by auto
  then have "kheap_inv maps query off ?s" using b al(1,2,5) h(2,4) ab by (simp add: kheap_inv_def heap_over_def)
  moreover have "heap_init maps s0 = Some ?s" using a h(1) by (simp add: heap_init_def page_first_alloc_def)
  moreover have "\<exists>c\<in>set (free_chunks h). PAGE_LEN \<le> snd c"
  proof (rule interval_in_chunk)
    show "gapped (free_chunks h)" "\<forall>c\<in>set (free_chunks h). 0 < snd c"
      using heap_invD(1) [OF h(2)] by (auto simp: chunks_ok_def chunk_ok_def CHUNK_SIZE_def)
    show "{a..<a + PAGE_LEN} \<subseteq> chunk_bytes (free_chunks h)" by (simp add: h(4) extent_def)
  qed (simp add: PAGE_LEN_def)
  ultimately show ?thesis by auto
qed

lemma heap_pending_ok:
  assumes "kheap_inv maps query off s"
  shows "\<exists>s'. heap_pending s = Some s' \<and> kheap_inv maps query off s' \<and> delayed_free_list s' = [] \<and> page_state s' = page_state s \<and>
    allocs (theheap s') = allocs (theheap s) |` (- set (delayed_free_list s))"
proof -
  let ?l = "fold (#) (delayed_free_list s) []"
  have l: "?l = rev (delayed_free_list s)" by (simp add: rev_conv_fold)
  obtain h where h: "heap_free_list ?l (theheap s) = Some h"
    "heap_over (kpages_inv maps query off) (\<lambda>s. kpage_bytes off s (free_pages s)) (\<lambda>s. kpage_bytes off s (all_pages s)) h (page_state s)"
    "allocs h = allocs (theheap s) |` (- set (delayed_free_list s))"
    using kpages.free_list_ok [of maps query off "theheap s" "page_state s" ?l] assms by (auto simp: kheap_inv_def l)
  show ?thesis
  proof (cases "delayed_free_list s = []")
    case True
    then show ?thesis using assms by (simp add: heap_pending_def restrict_map_def)
  next
    case False
    then have "heap_pending s = Some (s\<lparr>theheap := h, delayed_free_list := []\<rparr>)" using h(1) by (simp add: heap_pending_def heap_free_delayed_list_def)
    then show ?thesis using h by (simp add: kheap_inv_def)
  qed
qed

lemma pending_alloc_ok:
  assumes inv: "kheap_inv maps query off s" and n: "n < 2 ^ 41"
  obtains s1 r h p where "heap_pending s = Some s1" "allocs (theheap s1) = allocs (theheap s) |` (- set (delayed_free_list s))" "kheap_inv maps query off s1"
    "miniheap_alloc (page_alloc maps) n al (theheap s1) (page_state s1) = Some (r, h, p)"
    "kheap_inv maps query off (s1\<lparr>theheap := h, page_state := p\<rparr>)" "page_state s1 = page_state s" "delayed_free_list s1 = []"
    "case r of None \<Rightarrow> h = theheap s1 \<and> (al AND (al - 1) = 0 \<longrightarrow>
         (\<forall>c\<in>set (free_chunks h). snd c < alloc_size n (unat al)) \<and>
         page_alloc maps (roundup64 (alloc_size n (unat al)) PAGE_LEN div PAGE_LEN) (page_state s) = Some (None, p))
     | Some ptr \<Rightarrow> allocated ptr n (unat al) (kpage_bytes off (page_state s) (free_pages (page_state s)) - kpage_bytes off p (free_pages p)) (theheap s1) h"
proof -
  obtain s1 where s1: "heap_pending s = Some s1" "kheap_inv maps query off s1" "delayed_free_list s1 = []" "page_state s1 = page_state s"
    "allocs (theheap s1) = allocs (theheap s) |` (- set (delayed_free_list s))"
    using heap_pending_ok [OF inv] by blast
  show ?thesis
  proof (cases "al AND (al - 1) = 0")
    case True
    from s1(2) have o: "heap_over (kpages_inv maps query off) (\<lambda>s. kpage_bytes off s (free_pages s)) (\<lambda>s. kpage_bytes off s (all_pages s))
       (theheap s1) (page_state s1)" by (simp add: kheap_inv_def)
    from kpages.miniheap_alloc_ok [OF o n True] obtain r h p where
      a: "miniheap_alloc (page_alloc maps) n al (theheap s1) (page_state s1) = Some (r, h, p)"
        "heap_over (kpages_inv maps query off) (\<lambda>s. kpage_bytes off s (free_pages s)) (\<lambda>s. kpage_bytes off s (all_pages s)) h p"
        "case r of None \<Rightarrow> h = theheap s1 \<and> (\<forall>c\<in>set (free_chunks (theheap s1)). snd c < alloc_size n (unat al)) \<and>
           page_alloc maps (roundup64 (alloc_size n (unat al)) PAGE_LEN div PAGE_LEN) (page_state s1) = Some (None, p)
         | Some ptr \<Rightarrow> allocated ptr n (unat al) (kpage_bytes off (page_state s1) (free_pages (page_state s1)) - kpage_bytes off p (free_pages p)) (theheap s1) h"
      by blast
    have "kheap_inv maps query off (s1\<lparr>theheap := h, page_state := p\<rparr>)" using a(2) s1(3) by (simp add: kheap_inv_def)
    then show ?thesis using that [OF s1(1,5,2) a(1)] a(3) s1(3,4) by (auto split: option.splits)
  next
    case False
    then have "miniheap_alloc (page_alloc maps) n al (theheap s1) (page_state s1) = Some (None, theheap s1, page_state s1)"
      by (simp add: miniheap_alloc_def)
    moreover have "kheap_inv maps query off (s1\<lparr>theheap := theheap s1, page_state := page_state s1\<rparr>)" using s1(2) by simp
    ultimately show ?thesis using that [OF s1(1,5,2) _ _ s1(4,3)] False by auto
  qed
qed

lemma kheap_free_ok:
  assumes inv: "kheap_inv maps query off s" and live: "live_alloc s ptr"
  shows "\<exists>s'. heap_free (Some ptr) s = Some s' \<and> kheap_inv maps query off s' \<and> allocs (theheap s') = (allocs (theheap s))(ptr := None)"
proof -
  obtain as where as: "allocs (theheap s) ptr = Some as" "ptr \<notin> set (delayed_free_list s)" using live by (auto simp: live_alloc_def)
  from inv have o: "heap_over (kpages_inv maps query off) (\<lambda>s. kpage_bytes off s (free_pages s)) (\<lambda>s. kpage_bytes off s (all_pages s))
       (theheap s) (page_state s)" by (simp add: kheap_inv_def)
  obtain h where "miniheap_free (Some ptr) (theheap s) = Some h" "allocs h = (allocs (theheap s))(ptr := None)"
    "heap_over (kpages_inv maps query off) (\<lambda>s. kpage_bytes off s (free_pages s)) (\<lambda>s. kpage_bytes off s (all_pages s)) h (page_state s)"
    by (rule kpages.free_over [OF o as(1)])
  then show ?thesis using inv as(2) by (auto simp: heap_free_def kheap_inv_def)
qed

lemma heap_realloc_ok:
  assumes inv: "kheap_inv maps query off s" and n: "n < 2 ^ 41" and live: "\<And>q. ptr = Some q \<Longrightarrow> live_alloc s q"
  shows "\<exists>r c s'. heap_realloc maps ptr n s = Some (r, c, s') \<and> kheap_inv maps query off s' \<and>
    (case r of None \<Rightarrow> c = None
     | Some q \<Rightarrow> c = map_option (\<lambda>old. (q, old, n)) ptr \<and> has_room (theheap s') q n)"
proof -
  obtain s1 where s1: "heap_pending s = Some s1" "kheap_inv maps query off s1" "delayed_free_list s1 = []" "page_state s1 = page_state s"
    "allocs (theheap s1) = allocs (theheap s) |` (- set (delayed_free_list s))"
    using heap_pending_ok [OF inv] by blast
  have p: "allocs (theheap s1) q \<noteq> None" if "ptr = Some q" for q using live [OF that] s1(5) by (auto simp: live_alloc_def)
  from s1(2) have o: "heap_over (kpages_inv maps query off) (\<lambda>s. kpage_bytes off s (free_pages s)) (\<lambda>s. kpage_bytes off s (all_pages s))
       (theheap s1) (page_state s1)" by (simp add: kheap_inv_def)
  from kpages.realloc_ok [OF o n p] obtain r x h p where m: "miniheap_realloc (page_alloc maps) ptr n (theheap s1) (page_state s1) = Some (r, x, h, p)"
    and h: "heap_over (kpages_inv maps query off) (\<lambda>s. kpage_bytes off s (free_pages s)) (\<lambda>s. kpage_bytes off s (all_pages s)) h p"
    and r: "case r of
       Some q \<Rightarrow> dom (allocs h) = insert q (dom (allocs (theheap s1)) - set_option ptr) \<and> x = map_option (\<lambda>old. (q, old, n)) ptr \<and>
         (\<exists>as. allocs h q = Some as \<and> {q..<q + n} \<subseteq> block as)
     | None \<Rightarrow> x = None \<and> dom (allocs h) = (if n = 0 then dom (allocs (theheap s1)) - set_option ptr else dom (allocs (theheap s1)))"
    by blast
  from h have "heap_inv (kpage_bytes off p (free_pages p)) h" by (simp add: heap_over_def)
  note block_has_room [OF this]
  with r have "case r of None \<Rightarrow> x = None | Some q \<Rightarrow> x = map_option (\<lambda>old. (q, old, n)) ptr \<and> has_room h q n" by (auto split: option.splits)
  then show ?thesis using s1(1,3) m h by (cases r) (simp_all add: heap_realloc_def kheap_inv_def)
qed

lemma heap_calloc_ok:
  assumes inv: "kheap_inv maps query off s" and n: "n * m < 2 ^ 41"
  shows "\<exists>r len s'. heap_calloc maps n m s = Some (r, len, s') \<and> kheap_inv maps query off s' \<and>
    (case r of None \<Rightarrow> len = 0 | Some q \<Rightarrow> len = n * m \<and> has_room (theheap s') q len)"
proof (rule pending_alloc_ok [OF inv n, of 0])
  fix s1 r h p
  assume a: "heap_pending s = Some s1" "miniheap_alloc (page_alloc maps) (n * m) 0 (theheap s1) (page_state s1) = Some (r, h, p)"
    "kheap_inv maps query off (s1\<lparr>theheap := h, page_state := p\<rparr>)"
    and r: "case r of None \<Rightarrow> h = theheap s1 \<and> (0 AND (0 - 1) = (0 :: u32) \<longrightarrow>
         (\<forall>c\<in>set (free_chunks h). snd c < alloc_size (n * m) (unat (0 :: u32))) \<and>
         page_alloc maps (roundup64 (alloc_size (n * m) (unat (0 :: u32))) PAGE_LEN div PAGE_LEN) (page_state s) = Some (None, p))
     | Some ptr \<Rightarrow> allocated ptr (n * m) (unat (0 :: u32)) (kpage_bytes off (page_state s) (free_pages (page_state s)) - kpage_bytes off p (free_pages p)) (theheap s1) h"
  have u: "u64_of (int (n * m)) = n * m" using n by (intro u64_of_id) simp
  have "heap_inv (kpage_bytes off p (free_pages p)) h" using a(3) by (simp add: kheap_inv_def heap_over_def)
  then have "case r of None \<Rightarrow> True | Some q \<Rightarrow> has_room h q (n * m)" using r by (auto simp: allocated_def intro: block_has_room split: option.splits)
  then show ?thesis using a by (cases r) (simp_all add: heap_calloc_def u Let_def del: of_nat_mult)
qed

lemma heap_exec_ok:
  assumes inv: "kheap_inv maps query off s" and may: "heap_may c s"
  shows "\<exists>r s'. heap_exec maps query c s = Some (r, s') \<and> kheap_inv maps query off s'"
proof (cases c)
  case (Malloc n)
  then have n: "n < 2 ^ 41" using may by (simp add: heap_may_def)
  show ?thesis by (rule pending_alloc_ok [OF inv n, of 0]) (simp add: Malloc heap_exec_def heap_malloc_def)
next
  case (Memalign b n)
  then have n: "n < 2 ^ 41" using may by (simp add: heap_may_def)
  show ?thesis by (rule pending_alloc_ok [OF inv n, of "of_nat b"]) (simp add: Memalign heap_exec_def heap_memalign_def)
next
  case (Calloc n m)
  then have n: "n * m < 2 ^ 41" using may by (simp add: heap_may_def)
  from heap_calloc_ok [OF inv n] show ?thesis by (auto simp: Calloc heap_exec_def)
next
  case (Realloc ptr n)
  then have n: "n < 2 ^ 41" "\<And>q. ptr = Some q \<Longrightarrow> live_alloc s q" using may by (simp_all add: heap_may_def)
  from heap_realloc_ok [OF inv n(1), of ptr] n(2) show ?thesis by (auto simp: Realloc heap_exec_def)
next
  case (Free ptr)
  then show ?thesis using kheap_free_ok [OF inv] may inv
    by (cases ptr) (force simp: heap_exec_def heap_may_def heap_free_def miniheap_free_def)+
next
  case (Delayed_free ptr)
  then show ?thesis using may inv by (auto simp: heap_exec_def heap_may_def heap_delayed_free_def live_alloc_def kheap_inv_def)
next
  case Trim
  obtain s1 where s1: "heap_pending s = Some s1" "kheap_inv maps query off s1" "delayed_free_list s1 = []"
    using heap_pending_ok [OF inv] by blast
  from s1(2) have o: "heap_over (kpages_inv maps query off) (\<lambda>s. kpage_bytes off s (free_pages s)) (\<lambda>s. kpage_bytes off s (all_pages s))
       (theheap s1) (page_state s1)" by (simp add: kheap_inv_def)
  from kpages.miniheap_trim_ok [OF o] obtain h p where "miniheap_trim (page_free query) (theheap s1) (page_state s1) = Some (h, p)"
    "heap_over (kpages_inv maps query off) (\<lambda>s. kpage_bytes off s (free_pages s)) (\<lambda>s. kpage_bytes off s (all_pages s)) h p" by blast
  then show ?thesis using s1(1,3) by (simp add: Trim heap_exec_def heap_trim_def kheap_inv_def)
qed

lemma heap_reach_inv: "heap_reach maps query off s \<Longrightarrow> kheap_inv maps query off s"
proof (induction rule: heap_reach.induct)
  case (init s0 s)
  then show ?case using heap_init_ok by fastforce
next
  case (step s c r s')
  then show ?case using heap_exec_ok by fastforce
qed

section \<open>A concrete heap\<close>

text \<open>The memory of \<open>demo_vmm\<close>, seen by the kernel at an offset of \<open>0xffff000000000000\<close>.\<close>

definition demo_off :: u64 where "demo_off = 0xffff000000000000"

definition demo_maps :: "mmu_initial_mapping list" where
  "demo_maps = [\<lparr>map_phys = 0x80000000, map_virt = 0xffff000080000000, map_size = 0x20000000, map_flags = 0, map_name = ''ram''\<rparr>]"

definition demo_query :: "nat \<Rightarrow> u64 \<Rightarrow> u64 option" where "demo_query x va = Some (va - demo_off)"

definition demo_kheap :: "vmm_state kheap" where
  "demo_kheap = \<lparr>theheap = \<lparr>hp_base = 0, hp_len = 0, hp_remaining = 0, low_watermark = 0, free_chunks = [], free_list_at = 0x1000, allocs = Map.empty\<rparr>,
     delayed_free_list = [], page_state = demo_vmm\<rparr>"

lemma demo_kmapped: "kmapped demo_vmm = {0, 1}"
  by (auto simp: kmapped_def demo_arena_def PMM_ARENA_FLAG_KMAP_def)

lemma demo_kaddr:
  assumes "pa \<ge> 0x80000000" and "pa < 0xa0000000"
  shows "paddr_to_kvaddr demo_maps pa = Some (pa + demo_off) \<and> is_kernel_address (pa + demo_off) \<and> demo_query kernel_aspace (pa + demo_off) = Some pa"
proof -
  have u: "unat pa \<ge> 0x80000000" "unat pa < 0xa0000000" using assms by (simp_all add: word_le_nat_alt word_less_nat_alt)
  have le: "pa \<le> 0x9FFFFFFF" using u by (simp add: word_le_nat_alt)
  have "unat (pa + demo_off) = unat pa + unat demo_off" using u by (intro unat_add_lem [THEN iffD1]) (simp add: demo_off_def)
  then have "is_kernel_address (pa + demo_off)"
    using u by (simp add: is_kernel_address_def word_le_nat_alt KERNEL_ASPACE_BASE_def KERNEL_ASPACE_SIZE_def demo_off_def)
  moreover have "paddr_to_kvaddr demo_maps pa = Some (pa + demo_off)"
    using assms le by (simp add: paddr_to_kvaddr_def demo_maps_def demo_off_def)
  ultimately show ?thesis by (simp add: demo_query_def)
qed

lemma demo_page_addr:
  fixes base :: u64
  assumes "base = 0x80000000 \<or> base = 0x90000000" and "k < 8"
  shows "base + of_nat k * PAGE_SIZE \<ge> 0x80000000" "base + of_nat k * PAGE_SIZE < 0xa0000000"
proof -
  have "k \<in> {0, 1, 2, 3, 4, 5, 6, 7}" using assms(2) by auto
  then show "base + of_nat k * PAGE_SIZE \<ge> 0x80000000" "base + of_nat k * PAGE_SIZE < 0xa0000000"
    using assms(1) by (auto simp: PAGE_SIZE_def)
qed

lemma demo_kpages_inv: "kpages_inv demo_maps demo_query demo_off demo_vmm"
proof -
  have pages: "arena_pages (demo_arena 0x80000000 4 [0]) = 4" "arena_pages (demo_arena 0x90000000 8 []) = 8" using demo_0 demo_1 by simp_all
  have base: "ar_base (demo_arena b n u) = b" for b n u by (simp add: demo_arena_def)
  have "kmap_ok demo_maps demo_query demo_off demo_vmm"
    unfolding kmap_ok_def demo_kmapped
  proof (intro conjI ballI allI impI)
    show "4096 dvd unat demo_off" by (simp add: demo_off_def)
    show "let pa = ar_base (arenas demo_vmm a) + of_nat k * PAGE_SIZE in paddr_to_kvaddr demo_maps pa = Some (pa + demo_off) \<and>
        is_kernel_address (pa + demo_off) \<and> demo_query kernel_aspace (pa + demo_off) = Some pa"
      if "a \<in> {0, 1}" "k < arena_pages (arenas demo_vmm a)" for a k
      unfolding Let_def using that demo_kaddr demo_page_addr [of _ k] by (auto simp: base pages)
  qed (auto simp: base demo_0 demo_1 demo_off_def)
  moreover have "all_pages demo_vmm = {0} \<times> {..<4} \<union> {1} \<times> {..<8}" by (auto simp: all_pages_def pages)
  then have "card (all_pages demo_vmm) < 2 ^ 32" by simp (subst card_Un_disjoint; auto simp: card_cartesian_product)
  ultimately show ?thesis using demo_vmm_inv by (simp add: kpages_inv_def pages)
qed

lemma demo_boot: "heap_boot demo_maps demo_query demo_off demo_kheap"
proof -
  have pages: "arena_pages (demo_arena 0x80000000 4 [0]) = 4" using demo_0 by simp
  have "has_run 1 (max 12 PAGE_SIZE_SHIFT) demo_vmm 0 1"
    using demo_free by (simp add: has_run_def PAGE_SIZE_SHIFT_def free_pages_def pages) (simp add: demo_arena_def PMM_ARENA_FLAG_KMAP_def)
  then have "\<exists>r p. page_alloc demo_maps 1 demo_vmm = Some (Some r, p)"
    using page_alloc_ok [OF demo_kpages_inv, of 1] by fastforce
  moreover have "0xfff \<notin> kpage_bytes demo_off demo_vmm P" for P
    by (auto simp: kpage_bytes_def extent_def kpage_addr_def demo_off_def)
  ultimately show ?thesis using demo_kpages_inv by (simp add: heap_boot_def demo_kheap_def)
qed

lemma demo_reach:
  "\<exists>(s :: vmm_state kheap) ptr s1. heap_reach demo_maps demo_query demo_off s \<and> delayed_free_list s = [] \<and>
     heap_malloc demo_maps 100 s = Some (Some ptr, s1)"
proof -
  obtain s c where s: "heap_init demo_maps demo_kheap = Some s" "kheap_inv demo_maps demo_query demo_off s"
    "c \<in> set (free_chunks (theheap s))" "PAGE_LEN \<le> snd c" using heap_init_ok [OF demo_boot] by blast
  have d: "delayed_free_list s = []" using s(1) by (auto simp: heap_init_def demo_kheap_def split: bind_splits)
  have sz: "alloc_size 100 0 = 128" by (simp add: alloc_size_def roundup64_def u64_of_def BEGIN_SIZE_def CHUNK_SIZE_def alloc_align_def)
  obtain r h p where a: "miniheap_alloc (page_alloc demo_maps) 100 0 (theheap s) (page_state s) = Some (r, h, p)"
    "r = None \<longrightarrow> (\<forall>c\<in>set (free_chunks (theheap s)). snd c < alloc_size 100 0)"
    using kpages.miniheap_alloc_ok [of demo_maps demo_query demo_off "theheap s" "page_state s" 100 0] s(2)
    by (auto simp: kheap_inv_def split: option.splits)
  then obtain ptr where "r = Some ptr" using s(3,4) sz by (cases r) (auto simp: PAGE_LEN_def)
  then have "heap_malloc demo_maps 100 s = Some (Some ptr, s\<lparr>theheap := h, page_state := p\<rparr>)" using a(1) d by (simp add: heap_malloc_def heap_pending_def)
  then show ?thesis using heap_reach.init [OF demo_boot s(1)] d by blast
qed

text \<open>
  A block for eight bytes or fewer has eight bytes behind its header, and the list node of a delayed free needs sixteen: freed later it overwrites
  what lies behind it. Only \<open>heap_may\<close> rules that out; the code does not look.
\<close>

lemma small_block_no_room:
  assumes "heap_reach maps query off s" and "delayed_free_list s = []" and "free_chunks (theheap s) = (a, l) # cs" and "56 < l" and "n \<le> 8"
  shows "\<exists>ptr s'. heap_malloc maps n s = Some (Some ptr, s') \<and> live_alloc s' ptr \<and> heap_delayed_free ptr s' = None"
proof -
  have "heap_inv (kpage_bytes off (page_state s) (free_pages (page_state s))) (theheap s)"
    using heap_reach_inv [OF assms(1)] by (simp add: kheap_inv_def heap_over_def)
  from try_alloc_small [OF this assms(3-5)] obtain h where h: "heap_try_alloc (alloc_size n 0) 0 (theheap s) = Some (Some (a + 24), h)"
    "allocs h (a + 24) \<noteq> None" "\<not> has_room h (a + 24) 16" by blast
  have "heap_malloc maps n s = Some (Some (a + 24), s\<lparr>theheap := h\<rparr>)"
    using assms(2) h(1) by (simp add: heap_malloc_def heap_pending_def miniheap_alloc_def alloc_align_def)
  then show ?thesis using assms(2) h(2,3) by (simp add: live_alloc_def heap_delayed_free_def LIST_NODE_SIZE_def)
qed

section \<open>Properties\<close>

text \<open>
  C11: the heap is never corrupted. From boot, after any sequence of calls of the C library's heap, every call whose caller passes live pointers, a size
  below 2 TB and, to be freed later, a block with room for a list node returns: no assertion fails. Live allocations never overlap each other, a free chunk
  or a page the physical memory manager holds, and the count of free bytes is exact. What the calls write into memory they hand out, the zeros of
  \<^verbatim>\<open>calloc\<close> and the copy of \<^verbatim>\<open>realloc\<close>, lies inside the new block; the node of a delayed free lies inside its block. (The copy of a
  \<^verbatim>\<open>realloc\<close> that grows a block reads past the old one: that is not excluded.)
\<close>

theorem heap_never_corrupts:
  assumes "heap_reach maps query off s" and "heap_may c s"
  shows "(\<exists>r s'. heap_exec maps query c s = Some (r, s')) \<and>
    (\<forall>p q as bs. allocs (theheap s) p = Some as \<longrightarrow> allocs (theheap s) q = Some bs \<longrightarrow> p \<noteq> q \<longrightarrow> block as \<inter> block bs = {}) \<and>
    (\<forall>p as. allocs (theheap s) p = Some as \<longrightarrow>
       block as \<inter> (chunk_bytes (free_chunks (theheap s)) \<union> kpage_bytes off (page_state s) (free_pages (page_state s))) = {}) \<and>
    hp_remaining (theheap s) = card (chunk_bytes (free_chunks (theheap s))) \<and>
    (\<forall>n m r len s'. c = Calloc n m \<longrightarrow> heap_calloc maps n m s = Some (Some r, len, s') \<longrightarrow> len = n * m \<and> has_room (theheap s') r len) \<and>
    (\<forall>ptr n r dst src len s'. c = Realloc ptr n \<longrightarrow> heap_realloc maps ptr n s = Some (r, Some (dst, src, len), s') \<longrightarrow>
       r = Some dst \<and> ptr = Some src \<and> len = n \<and> has_room (theheap s') dst len) \<and>
    (\<forall>ptr. c = Delayed_free ptr \<longrightarrow> has_room (theheap s) ptr LIST_NODE_SIZE)"
proof -
  have k: "kheap_inv maps query off s" using heap_reach_inv [OF assms(1)] .
  then have inv: "heap_inv (kpage_bytes off (page_state s) (free_pages (page_state s))) (theheap s)" by (simp add: kheap_inv_def heap_over_def)
  note i = heap_invD [OF inv]
  have runs: "\<exists>r s'. heap_exec maps query c s = Some (r, s')" using heap_exec_ok [OF k assms(2)] by blast
  have apart: "block as \<inter> (chunk_bytes (free_chunks (theheap s)) \<union> kpage_bytes off (page_state s) (free_pages (page_state s))) = {}"
    if "allocs (theheap s) p = Some as" for p as using block_bytes [OF that] i(7,8) by blast
  have count: "hp_remaining (theheap s) = card (chunk_bytes (free_chunks (theheap s)))" using i(1) by (simp add: chunks_ok_def)
  have clear: "len = n * m \<and> has_room (theheap s') r len"
    if "c = Calloc n m" "heap_calloc maps n m s = Some (Some r, len, s')" for n m r len s'
    using heap_calloc_ok [OF k, of n m] that assms(2) by (auto simp: heap_may_def)
  have copy: "r = Some dst \<and> ptr = Some src \<and> len = n \<and> has_room (theheap s') dst len"
    if "c = Realloc ptr n" "heap_realloc maps ptr n s = Some (r, Some (dst, src, len), s')" for ptr n r dst src len s'
    using heap_realloc_ok [OF k, of n ptr] that assms(2)
    by (cases ptr) (auto simp: heap_may_def split: option.splits)
  have node: "has_room (theheap s) ptr LIST_NODE_SIZE" if "c = Delayed_free ptr" for ptr using assms(2) that by (simp add: heap_may_def)
  note copies = copy [THEN conjunct1] copy [THEN conjunct2, THEN conjunct1] copy [THEN conjunct2, THEN conjunct2, THEN conjunct1]
    copy [THEN conjunct2, THEN conjunct2, THEN conjunct2]
  show ?thesis
    by (intro conjI allI impI) (rule runs count | (rule i(10) apart node clear [THEN conjunct1] clear [THEN conjunct2] copies; assumption))+
qed

theorem heap_never_corrupts_witness:
  "\<exists>s :: vmm_state kheap. heap_reach demo_maps demo_query demo_off s \<and> heap_may (Malloc 10000) s \<and>
     (\<exists>r s'. heap_exec demo_maps demo_query (Malloc 10000) s = Some (r, s'))"
proof -
  obtain s :: "vmm_state kheap" where s: "heap_reach demo_maps demo_query demo_off s" using demo_reach by blast
  have m: "heap_may (Malloc 10000) s" by (simp add: heap_may_def)
  from heap_never_corrupts [OF s m, THEN conjunct1] s m show ?thesis by blast
qed

text \<open>
  C14: \<^verbatim>\<open>malloc\<close> gives memory of its own: the block holds the bytes asked for, is aligned to 8 bytes, overlaps no live allocation, and every live
  allocation stays as it was. It returns NULL only when no free chunk is large enough and the page allocator has no run of pages either.
\<close>

theorem malloc_fresh:
  assumes "heap_reach maps query off s" and "n < 2 ^ 41"
  shows "\<exists>r s'. heap_malloc maps n s = Some (r, s') \<and> (\<forall>q. live_alloc s q \<longrightarrow> live_alloc s' q \<and> allocs (theheap s') q = allocs (theheap s) q) \<and>
    (case r of
       None \<Rightarrow> (\<forall>c\<in>set (free_chunks (theheap s')). snd c < alloc_size n 0) \<and>
         page_alloc maps (roundup64 (alloc_size n 0) PAGE_LEN div PAGE_LEN) (page_state s) = Some (None, page_state s')
     | Some ptr \<Rightarrow> 8 dvd ptr \<and> \<not> live_alloc s ptr \<and> live_alloc s' ptr \<and>
         (\<exists>as. allocs (theheap s') ptr = Some as \<and> {ptr..<ptr + n} \<subseteq> block as \<and>
            (\<forall>q bs. live_alloc s q \<longrightarrow> allocs (theheap s) q = Some bs \<longrightarrow> block as \<inter> block bs = {})))"
proof (rule pending_alloc_ok [OF heap_reach_inv [OF assms(1)] assms(2), of 0])
  fix s1 r h p
  assume a: "heap_pending s = Some s1" "allocs (theheap s1) = allocs (theheap s) |` (- set (delayed_free_list s))"
    "miniheap_alloc (page_alloc maps) n 0 (theheap s1) (page_state s1) = Some (r, h, p)" "delayed_free_list s1 = []" "page_state s1 = page_state s"
    and r: "case r of None \<Rightarrow> h = theheap s1 \<and> (0 AND (0 - 1) = (0 :: u32) \<longrightarrow>
         (\<forall>c\<in>set (free_chunks h). snd c < alloc_size n (unat (0 :: u32))) \<and>
         page_alloc maps (roundup64 (alloc_size n (unat (0 :: u32))) PAGE_LEN div PAGE_LEN) (page_state s) = Some (None, p))
     | Some ptr \<Rightarrow> allocated ptr n (unat (0 :: u32)) (kpage_bytes off (page_state s) (free_pages (page_state s)) - kpage_bytes off p (free_pages p)) (theheap s1) h"
  let ?s = "s1\<lparr>theheap := h, page_state := p\<rparr>"
  have m: "heap_malloc maps n s = Some (r, ?s)" using a(1,3) by (simp add: heap_malloc_def)
  have l: "live_alloc s q \<longleftrightarrow> allocs (theheap s1) q \<noteq> None" "live_alloc s q \<Longrightarrow> allocs (theheap s1) q = allocs (theheap s) q" for q
    using a(2) by (auto simp: live_alloc_def restrict_map_def)
  show ?thesis
  proof (cases r)
    case None
    then show ?thesis using m r l a(4) by (auto simp: live_alloc_def)
  next
    case (Some ptr)
    then obtain as where as: "allocs (theheap s1) ptr = None" "8 dvd ptr" "allocs h = (allocs (theheap s1))(ptr \<mapsto> as)" "{ptr..<ptr + n} \<subseteq> block as"
      "block as \<inter> alloc_bytes (theheap s1) = {}" using r by (auto simp: allocated_def)
    have "live_alloc ?s q \<and> allocs (theheap ?s) q = allocs (theheap s) q" if "live_alloc s q" for q
      using that l [of q] as(1,3) a(4) by (auto simp: live_alloc_def)
    moreover have "block as \<inter> block bs = {}" if "live_alloc s q" "allocs (theheap s) q = Some bs" for q bs
      using as(5) block_bytes [of "theheap s1" q bs] that l(2) by auto
    moreover have "\<not> live_alloc s ptr" "live_alloc ?s ptr" "allocs (theheap ?s) ptr = Some as" using l(1) [of ptr] as(1,3) a(4) by (simp_all add: live_alloc_def)
    ultimately show ?thesis using m Some as(2,4) by auto
  qed
qed

theorem malloc_fresh_witness:
  "\<exists>(s :: vmm_state kheap) ptr s'. heap_reach demo_maps demo_query demo_off s \<and> heap_malloc demo_maps 100 s = Some (Some ptr, s') \<and>
     8 dvd ptr \<and> \<not> live_alloc s ptr \<and> live_alloc s' ptr"
proof -
  obtain s :: "vmm_state kheap" and ptr s' where s: "heap_reach demo_maps demo_query demo_off s" "heap_malloc demo_maps 100 s = Some (Some ptr, s')"
    using demo_reach by blast
  have "8 dvd ptr \<and> \<not> live_alloc s ptr \<and> live_alloc s' ptr" using malloc_fresh [OF s(1), of 100] s(2) by auto
  with s show ?thesis by blast
qed

text \<open>
  C15: freeing undoes allocating: giving back what \<^verbatim>\<open>malloc\<close> has just returned leaves the same allocations, and the free memory is what was free
  before and the pages the heap has grown by. When it has not grown, the list of free chunks is the same, chunk by chunk.
\<close>

theorem free_undoes_malloc:
  assumes "heap_reach maps query off s" and "delayed_free_list s = []" and "n < 2 ^ 41" and "heap_malloc maps n s = Some (Some ptr, s1)"
  shows "\<exists>s2. heap_free (Some ptr) s1 = Some s2 \<and> allocs (theheap s2) = allocs (theheap s) \<and>
    chunk_bytes (free_chunks (theheap s2)) = chunk_bytes (free_chunks (theheap s)) \<union>
      (kpage_bytes off (page_state s) (free_pages (page_state s)) - kpage_bytes off (page_state s1) (free_pages (page_state s1))) \<and>
    (page_state s1 = page_state s \<longrightarrow> free_chunks (theheap s2) = free_chunks (theheap s) \<and> hp_remaining (theheap s2) = hp_remaining (theheap s))"
proof -
  have "kheap_inv maps query off s" using heap_reach_inv [OF assms(1)] .
  then have o: "heap_over (kpages_inv maps query off) (\<lambda>s. kpage_bytes off s (free_pages s)) (\<lambda>s. kpage_bytes off s (all_pages s))
       (theheap s) (page_state s)" by (simp add: kheap_inv_def)
  obtain h p where a: "miniheap_alloc (page_alloc maps) n 0 (theheap s) (page_state s) = Some (Some ptr, h, p)" "s1 = s\<lparr>theheap := h, page_state := p\<rparr>"
    using assms(2,4) by (auto simp: heap_malloc_def heap_pending_def split: bind_splits)
  from kpages.alloc_free_ok [OF o assms(3) _ a(1)] show ?thesis by (auto simp: heap_free_def a(2))
qed

theorem free_undoes_malloc_witness:
  "\<exists>(s :: vmm_state kheap) ptr s1 s2. heap_reach demo_maps demo_query demo_off s \<and> heap_malloc demo_maps 100 s = Some (Some ptr, s1) \<and>
     heap_free (Some ptr) s1 = Some s2 \<and> allocs (theheap s2) = allocs (theheap s)"
proof -
  obtain s :: "vmm_state kheap" and ptr s1 where s: "heap_reach demo_maps demo_query demo_off s" "delayed_free_list s = []"
    "heap_malloc demo_maps 100 s = Some (Some ptr, s1)" using demo_reach by blast
  from free_undoes_malloc [OF s(1,2) _ s(3)] s(1,3) show ?thesis by auto
qed

end
