(* ===== verification/LK_Bio.thy ===== *)
theory LK_Bio
  imports LK_Bytes
begin

text \<open>
  Block devices, \<^verbatim>\<open>lib/bio/bio.c\<close>, \<^verbatim>\<open>lib/bio/mem.c\<close> and \<^verbatim>\<open>lib/bio/subdev.c\<close>: the device structure with its
  hooks, the range checks, the default hooks that read and write bytes on a device that knows blocks only, erasing, the
  registry of devices with its reference counts, memory devices, and subdevices, which are windows on a parent device.

  A device driver is a parameter: its hooks are functions on the medium, of type \<open>'d\<close>, and return the result of the C
  function, the bytes stored at the buffer for a read, and the new medium. A hook that is \<open>None\<close> in the record is the default one of
  \<^verbatim>\<open>bio_initialize_bdev\<close>, or a null pointer where that function sets none. \<open>None\<close> as a result is a failed
  \<^verbatim>\<open>DEBUG_ASSERT\<close>, a call through a null pointer, an access outside a buffer, the use of bytes a driver said it stored and did not,
  or a loop without end. Sizes and block numbers are natural numbers, with the wrap-around at 32 bits written out.
\<close>

section \<open>Devices\<close>

definition BIO_FLAGS_NONE :: u32 where "BIO_FLAGS_NONE = 0"
definition BIO_FLAG_CACHE_ALIGNED_READS :: u32 where "BIO_FLAG_CACHE_ALIGNED_READS = 1"
definition BIO_FLAG_CACHE_ALIGNED_WRITES :: u32 where "BIO_FLAG_CACHE_ALIGNED_WRITES = 2"
definition USER_BLOCK_SIZE :: nat where "USER_BLOCK_SIZE = 512"
definition CACHE_LINE :: nat where "CACHE_LINE = 64"

record bio_erase_geometry_info =
  geo_start :: int
  geo_size :: int
  geo_erase_size :: nat
  geo_erase_shift :: nat

type_synonym 'd read_hook = "nat \<Rightarrow> int \<Rightarrow> nat \<Rightarrow> 'd \<Rightarrow> (int \<times> u8 list \<times> 'd) option"
type_synonym 'd write_hook = "nat \<Rightarrow> u8 list \<Rightarrow> int \<Rightarrow> nat \<Rightarrow> 'd \<Rightarrow> (int \<times> 'd) option"
type_synonym 'd read_block_hook = "nat \<Rightarrow> nat \<Rightarrow> 'd \<Rightarrow> (int \<times> u8 list \<times> 'd) option"
type_synonym 'd write_block_hook = "u8 list \<Rightarrow> nat \<Rightarrow> nat \<Rightarrow> 'd \<Rightarrow> (int \<times> 'd) option"
type_synonym 'd erase_hook = "int \<Rightarrow> nat \<Rightarrow> 'd \<Rightarrow> (int \<times> 'd) option"

text \<open>The close hook of a subdevice closes its parent, given by its number, and forgets it.\<close>

datatype 'd close_hook = Close_driver "'d \<Rightarrow> 'd" | Close_subdev "nat option"

record 'd bdev =
  bd_ref :: int
  bd_name :: string
  total_size :: int
  block_size :: nat
  block_shift :: nat
  block_count :: nat
  max_blkcnt_per_cmd :: nat
  geometry :: "bio_erase_geometry_info list"
  erase_byte :: u8
  erase_size :: nat
  bd_flags :: u32
  bd_read :: "'d read_hook option"
  bd_read_block :: "'d read_block_hook option"
  bd_write :: "'d write_hook option"
  bd_write_block :: "'d write_block_hook option"
  bd_erase :: "'d erase_hook option"
  new_read_native :: "'d read_block_hook option"
  new_write_native :: "'d write_block_hook option"
  new_erase_native :: "(nat \<Rightarrow> nat \<Rightarrow> 'd \<Rightarrow> (int \<times> 'd) option) option"
  new_set_wp_native :: "(int \<Rightarrow> int \<Rightarrow> nat \<Rightarrow> nat \<Rightarrow> 'd \<Rightarrow> (int \<times> 'd) option) option"
  bd_ioctl :: "(int \<Rightarrow> 'd \<Rightarrow> (int \<times> 'd) option) option"
  bd_close :: "'d close_hook option"

section \<open>Range checks\<close>

text \<open>The sum is taken at 64 bits without a sign and read back with one.\<close>

definition bio_trim_range :: "'d bdev \<Rightarrow> int \<Rightarrow> nat \<Rightarrow> nat" where
  "bio_trim_range dev offset len =
     (if offset < 0 then 0
      else if total_size dev \<le> offset then 0
      else if len = 0 then 0
      else if signed_take_bit 63 (offset + int len) > total_size dev then nat (total_size dev - offset)
      else len)"

definition bio_trim_block_range :: "'d bdev \<Rightarrow> nat \<Rightarrow> nat \<Rightarrow> nat" where
  "bio_trim_block_range dev block cnt =
     (if block > block_count dev then 0
      else if cnt = 0 then 0
      else if u32_of (block + cnt) > block_count dev then block_count dev - block
      else cnt)"

section \<open>Whole blocks\<close>

definition bio_default_read_block :: "'d read_block_hook" where
  "bio_default_read_block block cnt d = Some (ERR_NOT_SUPPORTED, [], d)"

definition bio_default_write_block :: "'d write_block_hook" where
  "bio_default_write_block buf block cnt d = Some (ERR_NOT_SUPPORTED, d)"

definition dev_read_block :: "'d bdev \<Rightarrow> 'd read_block_hook" where
  "dev_read_block dev = (case bd_read_block dev of None \<Rightarrow> bio_default_read_block | Some h \<Rightarrow> h)"

definition dev_write_block :: "'d bdev \<Rightarrow> 'd write_block_hook" where
  "dev_write_block dev = (case bd_write_block dev of None \<Rightarrow> bio_default_write_block | Some h \<Rightarrow> h)"

definition bio_read_block :: "'d bdev \<Rightarrow> nat \<Rightarrow> nat \<Rightarrow> 'd \<Rightarrow> (int \<times> u8 list \<times> 'd) option" where
  "bio_read_block dev block cnt d =
     do {
       dassert (bd_ref dev > 0);
       let cnt = bio_trim_block_range dev block cnt;
       if cnt = 0 then Some (0, [], d) else dev_read_block dev block cnt d
     }"

definition bio_write_block :: "'d bdev \<Rightarrow> u8 list \<Rightarrow> nat \<Rightarrow> nat \<Rightarrow> 'd \<Rightarrow> (int \<times> 'd) option" where
  "bio_write_block dev buf block cnt d =
     do {
       dassert (bd_ref dev > 0);
       let cnt = bio_trim_block_range dev block cnt;
       if cnt = 0 then Some (0, d) else dev_write_block dev buf block cnt d
     }"

text \<open>The checks every transfer of the default hooks makes: a short transfer is \<^verbatim>\<open>ERR_IO\<close>.\<close>

definition read_full :: "'d bdev \<Rightarrow> nat \<Rightarrow> nat \<Rightarrow> 'd \<Rightarrow> (int \<times> u8 list \<times> 'd) option" where
  "read_full dev block n d =
     do {
       (err, data, d) \<leftarrow> bio_read_block dev block n d;
       if err < 0 then Some (err, [], d)
       else if nat err \<noteq> block_size dev * n then Some (ERR_IO, [], d)
       else do { data \<leftarrow> mem_read 0 (nat err) data; Some (err, data, d) }
     }"

definition write_full :: "'d bdev \<Rightarrow> u8 list \<Rightarrow> nat \<Rightarrow> nat \<Rightarrow> 'd \<Rightarrow> (int \<times> 'd) option" where
  "write_full dev data block n d =
     do {
       (err, d) \<leftarrow> bio_write_block dev data block n d;
       Some (if err < 0 then err else if nat err \<noteq> block_size dev * n then ERR_IO else err, d)
     }"

section \<open>Reading bytes through blocks\<close>

text \<open>The three parts of \<^verbatim>\<open>bio_default_read\<close>; each returns the error, the bytes stored so far and the next block.\<close>

definition default_read_first :: "'d bdev \<Rightarrow> nat \<Rightarrow> nat \<Rightarrow> 'd \<Rightarrow> (int \<times> u8 list \<times> nat \<times> 'd) option" where
  "default_read_first dev offset len d =
     (let block = u32_of (offset div block_size dev); block_offset = offset mod block_size dev in
      if block_offset \<noteq> 0 then do {
        (err, temp, d) \<leftarrow> read_full dev block 1 d;
        if err < 0 then Some (err, [], block, d)
        else do {
          out \<leftarrow> mem_read block_offset (min (block_size dev - block_offset) len) temp;
          Some (err, out, u32_of (block + 1), d)
        }
      }
      else Some (0, [], block, d))"

partial_function (option) default_read_loop ::
  "'d bdev \<Rightarrow> nat \<Rightarrow> int \<Rightarrow> u8 list \<Rightarrow> nat \<Rightarrow> 'd \<Rightarrow> (int \<times> u8 list \<times> nat \<times> 'd) option" where
  "default_read_loop dev left err out block d =
     (if left \<ge> block_size dev then
        Option.bind (read_full dev block 1 d) (\<lambda>(err, temp, d).
          if err < 0 then Some (err, out, block, d)
          else default_read_loop dev (left - block_size dev) err (out @ temp) (u32_of (block + 1)) d)
      else Some (err, out, block, d))"

definition default_read_middle ::
  "'d bdev \<Rightarrow> bool \<Rightarrow> nat \<Rightarrow> int \<Rightarrow> u8 list \<Rightarrow> nat \<Rightarrow> 'd \<Rightarrow> (int \<times> u8 list \<times> nat \<times> 'd) option" where
  "default_read_middle dev requires_alignment left err out block d =
     (if requires_alignment then default_read_loop dev left err out block d
      else do {
        let num_blocks = unat (divpow2 (of_nat left) (of_nat (block_shift dev)));
        (err, data, d) \<leftarrow> read_full dev block num_blocks d;
        Some (err, out @ data, u32_of (block + num_blocks), d)
      })"

definition default_read_last :: "'d bdev \<Rightarrow> nat \<Rightarrow> int \<Rightarrow> u8 list \<Rightarrow> nat \<Rightarrow> 'd \<Rightarrow> (int \<times> u8 list \<times> 'd) option" where
  "default_read_last dev left err out block d =
     (if left > 0 then do {
        (err, temp, d) \<leftarrow> read_full dev block 1 d;
        if err < 0 then Some (err, out, d)
        else do { x \<leftarrow> mem_read 0 left temp; Some (err, out @ x, d) }
      }
      else Some (err, out, d))"

definition bio_default_read :: "'d bdev \<Rightarrow> 'd read_hook" where
  "bio_default_read dev addr offset len d =
     do {
       (err, out, block, d) \<leftarrow> default_read_first dev (nat (offset mod 2 ^ 64)) len d;
       if err < 0 then Some (err, out, d)
       else do {
         let requires_alignment = (bd_flags dev AND BIO_FLAG_CACHE_ALIGNED_READS \<noteq> 0 \<and> (addr + length out) mod CACHE_LINE \<noteq> 0);
         (err, out, block, d) \<leftarrow> default_read_middle dev requires_alignment (len - length out) err out block d;
         if err < 0 then Some (err, out, d)
         else do {
           (err, out, d) \<leftarrow> default_read_last dev (len - length out) err out block d;
           Some (if err \<ge> 0 then int (length out) else err, out, d)
         }
       }
     }"

definition dev_read :: "'d bdev \<Rightarrow> 'd read_hook" where
  "dev_read dev = (case bd_read dev of None \<Rightarrow> bio_default_read dev | Some h \<Rightarrow> h)"

definition bio_read :: "'d bdev \<Rightarrow> 'd read_hook" where
  "bio_read dev addr offset len d =
     do {
       dassert (bd_ref dev > 0);
       let len = bio_trim_range dev offset len;
       if len = 0 then Some (0, [], d) else dev_read dev addr offset len d
     }"

section \<open>Writing bytes through blocks\<close>

text \<open>The parts of \<^verbatim>\<open>bio_default_write\<close> return the error, the number of bytes written so far and the next block.\<close>

definition rewrite_block :: "'d bdev \<Rightarrow> nat \<Rightarrow> nat \<Rightarrow> u8 list \<Rightarrow> 'd \<Rightarrow> (int \<times> 'd) option" where
  "rewrite_block dev block at data d =
     do {
       (err, temp, d) \<leftarrow> read_full dev block 1 d;
       if err < 0 then Some (err, d)
       else do { temp \<leftarrow> mem_write at data temp; write_full dev temp block 1 d }
     }"

definition default_write_first :: "'d bdev \<Rightarrow> u8 list \<Rightarrow> nat \<Rightarrow> nat \<Rightarrow> 'd \<Rightarrow> (int \<times> nat \<times> nat \<times> 'd) option" where
  "default_write_first dev buf offset len d =
     (let block = u32_of (offset div block_size dev); block_offset = offset mod block_size dev in
      if block_offset \<noteq> 0 then do {
        let tocopy = min (block_size dev - block_offset) len;
        data \<leftarrow> mem_read 0 tocopy buf;
        (err, d) \<leftarrow> rewrite_block dev block block_offset data d;
        Some (if err < 0 then (err, 0, block, d) else (err, tocopy, u32_of (block + 1), d))
      }
      else Some (0, 0, block, d))"

partial_function (option) default_write_loop ::
  "'d bdev \<Rightarrow> u8 list \<Rightarrow> nat \<Rightarrow> int \<Rightarrow> nat \<Rightarrow> nat \<Rightarrow> 'd \<Rightarrow> (int \<times> nat \<times> nat \<times> 'd) option" where
  "default_write_loop dev buf left err pos block d =
     (if left \<ge> block_size dev then
        Option.bind (mem_read pos (block_size dev) buf) (\<lambda>temp.
          Option.bind (write_full dev temp block 1 d) (\<lambda>(err, d).
            if err < 0 then Some (err, pos, block, d)
            else default_write_loop dev buf (left - block_size dev) err (pos + block_size dev) (u32_of (block + 1)) d))
      else Some (err, pos, block, d))"

definition default_write_middle ::
  "'d bdev \<Rightarrow> bool \<Rightarrow> u8 list \<Rightarrow> nat \<Rightarrow> int \<Rightarrow> nat \<Rightarrow> nat \<Rightarrow> 'd \<Rightarrow> (int \<times> nat \<times> nat \<times> 'd) option" where
  "default_write_middle dev requires_alignment buf left err pos block d =
     (if requires_alignment then default_write_loop dev buf left err pos block d
      else do {
        let num_blocks = unat (divpow2 (of_nat left) (of_nat (block_shift dev)));
        data \<leftarrow> mem_read pos (block_size dev * num_blocks) buf;
        (err, d) \<leftarrow> write_full dev data block num_blocks d;
        Some (if err < 0 then (err, pos, block, d) else (err, pos + nat err, u32_of (block + num_blocks), d))
      })"

definition default_write_last :: "'d bdev \<Rightarrow> u8 list \<Rightarrow> nat \<Rightarrow> int \<Rightarrow> nat \<Rightarrow> nat \<Rightarrow> 'd \<Rightarrow> (int \<times> nat \<times> 'd) option" where
  "default_write_last dev buf left err pos block d =
     (if left > 0 then do {
        data \<leftarrow> mem_read pos left buf;
        (err, d) \<leftarrow> rewrite_block dev block 0 data d;
        Some (if err < 0 then (err, pos, d) else (err, pos + left, d))
      }
      else Some (err, pos, d))"

definition bio_default_write :: "'d bdev \<Rightarrow> 'd write_hook" where
  "bio_default_write dev addr buf offset len d =
     do {
       (err, pos, block, d) \<leftarrow> default_write_first dev buf (nat (offset mod 2 ^ 64)) len d;
       if err < 0 then Some (err, d)
       else do {
         let requires_alignment = (bd_flags dev AND BIO_FLAG_CACHE_ALIGNED_WRITES \<noteq> 0 \<and> (addr + pos) mod CACHE_LINE \<noteq> 0);
         (err, pos, block, d) \<leftarrow> default_write_middle dev requires_alignment buf (len - pos) err pos block d;
         if err < 0 then Some (err, d)
         else do {
           (err, pos, d) \<leftarrow> default_write_last dev buf (len - pos) err pos block d;
           Some (if err \<ge> 0 then int pos else err, d)
         }
       }
     }"

definition dev_write :: "'d bdev \<Rightarrow> 'd write_hook" where
  "dev_write dev = (case bd_write dev of None \<Rightarrow> bio_default_write dev | Some h \<Rightarrow> h)"

definition bio_write :: "'d bdev \<Rightarrow> 'd write_hook" where
  "bio_write dev addr buf offset len d =
     do {
       dassert (bd_ref dev > 0);
       let len = bio_trim_range dev offset len;
       if len = 0 then Some (0, d) else dev_write dev addr buf offset len d
     }"

section \<open>Erasing\<close>

text \<open>The buffer of \<^verbatim>\<open>bio_default_erase\<close> is on the stack, at a cache line; its address is taken to be 0.\<close>

partial_function (option) erase_loop :: "'d bdev \<Rightarrow> u8 list \<Rightarrow> int \<Rightarrow> int \<Rightarrow> nat \<Rightarrow> 'd \<Rightarrow> (int \<times> 'd) option" where
  "erase_loop dev erase_buf erased pos remaining d =
     (if remaining > 0 then
        (let towrite = min remaining (block_size dev) in
         Option.bind (bio_write dev 0 erase_buf pos towrite d) (\<lambda>(written, d).
           if written < 0 then Some (written, d)
           else if nat written < towrite then Some (erased + written, d)
           else erase_loop dev erase_buf (erased + written) (pos + written) (nat ((int remaining - written) mod 2 ^ 64)) d))
      else Some (erased, d))"

definition bio_default_erase :: "'d bdev \<Rightarrow> 'd erase_hook" where
  "bio_default_erase dev offset len d =
     erase_loop dev (replicate (block_size dev) (erase_byte dev)) 0 offset len d"

definition dev_erase :: "'d bdev \<Rightarrow> 'd erase_hook" where
  "dev_erase dev = (case bd_erase dev of None \<Rightarrow> bio_default_erase dev | Some h \<Rightarrow> h)"

definition bio_erase :: "'d bdev \<Rightarrow> 'd erase_hook" where
  "bio_erase dev offset len d =
     do {
       dassert (bd_ref dev > 0);
       let len = bio_trim_range dev offset len;
       if len = 0 then Some (0, d) else dev_erase dev offset len d
     }"

section \<open>What a driver promises\<close>

text \<open>The sizes of a device that \<^verbatim>\<open>bio_initialize_bdev\<close> has filled in and that is open.\<close>

definition bdev_ok :: "'d bdev \<Rightarrow> bool" where
  "bdev_ok dev \<longleftrightarrow> bd_ref dev > 0 \<and> block_shift dev < 32 \<and> block_size dev = 2 ^ block_shift dev \<and>
     block_count dev < 2 ^ 32 \<and> total_size dev = int (block_count dev * block_size dev)"

text \<open>
  The contract of the block hooks: in a good state of the medium the device has contents, a transfer inside the
  device succeeds in full, a read returns the part of the contents and a write replaces it.
\<close>

locale block_bdev =
  fixes dev :: "'d bdev" and good :: "'d \<Rightarrow> bool" and cont :: "'d \<Rightarrow> u8 list"
  assumes ok: "bdev_ok dev"
    and length_cont: "good d \<Longrightarrow> length (cont d) = block_count dev * block_size dev"
    and read_law: "good d \<Longrightarrow> 0 < n \<Longrightarrow> b + n \<le> block_count dev \<Longrightarrow>
      \<exists>d'. dev_read_block dev b n d = Some (int (block_size dev * n), seg (b * block_size dev) (n * block_size dev) (cont d), d') \<and>
        good d' \<and> cont d' = cont d"
    and write_law: "good d \<Longrightarrow> 0 < n \<Longrightarrow> b + n \<le> block_count dev \<Longrightarrow> length data = n * block_size dev \<Longrightarrow>
      \<exists>d'. dev_write_block dev data b n d = Some (int (block_size dev * n), d') \<and>
        good d' \<and> cont d' = patch (b * block_size dev) data (cont d)"
begin

lemma sizes: "0 < bd_ref dev" "0 < block_size dev" "block_size dev = 2 ^ block_shift dev" "block_shift dev < 32" "block_count dev < 2 ^ 32"
  using ok by (auto simp: bdev_ok_def)

lemma trim_inside: "b + n \<le> block_count dev \<Longrightarrow> bio_trim_block_range dev b n = n"
  using sizes(5) by (auto simp: bio_trim_block_range_def u32_of_def)

lemma inside_cont:
  assumes "good d" and "b + n \<le> block_count dev"
  shows "b * block_size dev + n * block_size dev \<le> length (cont d)"
proof -
  have "(b + n) * block_size dev \<le> block_count dev * block_size dev" using assms(2) by (rule mult_le_mono1)
  then show ?thesis using length_cont [OF assms(1)] by (simp add: add_mult_distrib)
qed

lemma read_full_ok:
  assumes "good d" and "b + n \<le> block_count dev"
  obtains d' where "read_full dev b n d = Some (int (block_size dev * n), seg (b * block_size dev) (n * block_size dev) (cont d), d')"
    and "good d'" and "cont d' = cont d"
proof (cases "n = 0")
  case True
  then have "read_full dev b n d = Some (int (block_size dev * n), seg (b * block_size dev) (n * block_size dev) (cont d), d)"
    using sizes(1) trim_inside [OF assms(2)] by (simp add: read_full_def bio_read_block_def mem_read_def)
  with that [OF _ assms(1)] show ?thesis by blast
next
  case False
  then obtain d' where d': "dev_read_block dev b n d =
      Some (int (block_size dev * n), seg (b * block_size dev) (n * block_size dev) (cont d), d')" "good d'" "cont d' = cont d"
    using read_law [OF assms(1) _ assms(2)] by blast
  have "read_full dev b n d = Some (int (block_size dev * n), seg (b * block_size dev) (n * block_size dev) (cont d), d')"
    using d'(1) False sizes(1) trim_inside [OF assms(2)] inside_cont [OF assms]
    by (simp add: read_full_def bio_read_block_def mem_read_def nat_mult_distrib mult.commute del: of_nat_mult)
  with that d'(2,3) show ?thesis by blast
qed

lemma write_full_ok:
  assumes "good d" and "b + n \<le> block_count dev" and "length data = n * block_size dev"
  obtains d' where "write_full dev data b n d = Some (int (block_size dev * n), d')"
    and "good d'" and "cont d' = patch (b * block_size dev) data (cont d)"
proof (cases "n = 0")
  case True
  then have "write_full dev data b n d = Some (int (block_size dev * n), d)" "cont d = patch (b * block_size dev) data (cont d)"
    using assms(3) sizes(1) trim_inside [OF assms(2)] by (simp_all add: write_full_def bio_write_block_def)
  with that [OF _ assms(1)] show ?thesis by blast
next
  case False
  then obtain d' where d': "dev_write_block dev data b n d = Some (int (block_size dev * n), d')"
      "good d'" "cont d' = patch (b * block_size dev) data (cont d)"
    using write_law [OF assms(1) _ assms(2,3)] by blast
  have "write_full dev data b n d = Some (int (block_size dev * n), d')"
    using d'(1) False sizes(1) trim_inside [OF assms(2)]
    by (simp add: write_full_def bio_write_block_def nat_mult_distrib del: of_nat_mult)
  with that d'(2,3) show ?thesis by blast
qed

lemma rewrite_block_ok:
  assumes "good d" and "b < block_count dev" and "p + length data \<le> block_size dev"
  obtains d' where "rewrite_block dev b p data d = Some (int (block_size dev), d')"
    and "good d'" and "cont d' = patch (b * block_size dev + p) data (cont d)"
proof -
  have b1: "b + 1 \<le> block_count dev" using assms(2) by simp
  obtain d1 where d1: "read_full dev b 1 d = Some (int (block_size dev), seg (b * block_size dev) (block_size dev) (cont d), d1)"
      "good d1" "cont d1 = cont d"
    using read_full_ok [OF assms(1) b1] by auto
  have l: "b * block_size dev + block_size dev \<le> length (cont d)" using inside_cont [OF assms(1) b1] by simp
  let ?t = "patch p data (seg (b * block_size dev) (block_size dev) (cont d))"
  have "length ?t = 1 * block_size dev" using l assms(3) by simp
  from write_full_ok [OF d1(2) b1 this] obtain d2 where d2: "write_full dev ?t b 1 d1 = Some (int (block_size dev), d2)"
      "good d2" "cont d2 = patch (b * block_size dev) ?t (cont d1)" by auto
  have "rewrite_block dev b p data d = Some (int (block_size dev), d2)"
    using d1(1) d2(1) assms(3) l by (simp add: rewrite_block_def mem_write_def)
  moreover have "cont d2 = patch (b * block_size dev + p) data (cont d)"
    using d2(3) d1(3) patch_part [OF l assms(3)] by simp
  ultimately show ?thesis using that d2(2) by blast
qed

end

section \<open>The default hooks transfer exactly the bytes asked for\<close>

context block_bdev
begin

lemma blocks_inside: "b * block_size dev + left \<le> block_count dev * block_size dev \<Longrightarrow> b + left div block_size dev \<le> block_count dev"
proof -
  assume a: "b * block_size dev + left \<le> block_count dev * block_size dev"
  have "(b + left div block_size dev) * block_size dev \<le> b * block_size dev + left"
    by (simp add: add_mult_distrib)
  from order_trans [OF this a] have "(b + left div block_size dev) * block_size dev \<le> block_count dev * block_size dev" .
  then show ?thesis using sizes(2) by simp
qed

lemma block_inside:
  assumes "b * block_size dev + left \<le> block_count dev * block_size dev" and "0 < left"
  shows "b < block_count dev"
proof (rule ccontr)
  assume "\<not> b < block_count dev"
  then have "block_count dev * block_size dev \<le> b * block_size dev" by simp
  with assms show False by linarith
qed

lemma num_blocks: "left < 2 ^ 32 \<Longrightarrow> unat (divpow2 (of_nat left) (of_nat (block_shift dev))) = left div block_size dev"
  using sizes(3,4) by (simp add: unat_divpow2 unat_of_nat)

text \<open>The first block of a transfer, as a block number and an offset in it.\<close>

lemma first_block:
  assumes "off + len \<le> block_count dev * block_size dev" and "0 < len"
  shows "off div block_size dev < block_count dev" "u32_of (off div block_size dev) = off div block_size dev"
    "u32_of (off div block_size dev + 1) = off div block_size dev + 1"
    "off div block_size dev * block_size dev + off mod block_size dev = off" "off mod block_size dev < block_size dev"
proof -
  show e: "off div block_size dev * block_size dev + off mod block_size dev = off" by simp
  show "off mod block_size dev < block_size dev" using sizes(2) by simp
  have "off div block_size dev * block_size dev + (off mod block_size dev + len) \<le> block_count dev * block_size dev"
    using assms(1) e by linarith
  from block_inside [OF this] assms(2) show "off div block_size dev < block_count dev" by simp
  with sizes(5) show "u32_of (off div block_size dev) = off div block_size dev" "u32_of (off div block_size dev + 1) = off div block_size dev + 1"
    by (simp_all add: u32_of_def)
qed

lemma read_first_ok:
  assumes "good d" and "off + len \<le> block_count dev * block_size dev" and "0 < len"
  obtains e out b d' where "default_read_first dev off len d = Some (e, out, b, d')" and "0 \<le> e" and "good d'" and "cont d' = cont d"
    and "out = seg off (length out) (cont d)" and "length out \<le> len"
    and "b * block_size dev + (len - length out) \<le> block_count dev * block_size dev" and "length out < len \<longrightarrow> b * block_size dev = off + length out"
proof (cases "off mod block_size dev = 0")
  case True
  have "default_read_first dev off len d = Some (0, [], off div block_size dev, d)"
    using True first_block(2) [OF assms(2,3)] by (simp add: default_read_first_def)
  then show ?thesis
    by (rule that) (use True assms in \<open>auto simp: mod_0_imp_dvd\<close>)
next
  case False
  note fb = first_block [OF assms(2,3)]
  let ?b = "off div block_size dev" and ?o = "off mod block_size dev"
  let ?n = "min (block_size dev - ?o) len"
  have b1: "?b + 1 \<le> block_count dev" using fb(1) by simp
  obtain d' where d': "read_full dev ?b 1 d = Some (int (block_size dev), seg (?b * block_size dev) (block_size dev) (cont d), d')"
      "good d'" "cont d' = cont d"
    using read_full_ok [OF assms(1) b1] by auto
  have l: "?b * block_size dev + block_size dev \<le> length (cont d)" using inside_cont [OF assms(1) b1] by simp
  have n: "?o + ?n \<le> block_size dev" using fb(5) by simp
  have s: "seg ?o ?n (seg (?b * block_size dev) (block_size dev) (cont d)) = seg off ?n (cont d)"
    using seg_seg [OF n, of "?b * block_size dev" "cont d"] fb(4) by simp
  have e: "default_read_first dev off len d = Some (int (block_size dev), seg off ?n (cont d), ?b + 1, d')"
    using False d'(1) fb(2,3) l n s by (simp add: default_read_first_def mem_read_def)
  have ln: "length (seg off ?n (cont d)) = ?n" using l n fb(4) by (intro length_seg) linarith
  have c: "(?b + 1) * block_size dev \<le> block_count dev * block_size dev" by (rule mult_le_mono1 [OF b1])
  have q: "(?b + 1) * block_size dev = off + (block_size dev - ?o)" using fb(4,5) unfolding add_mult_distrib by linarith
  show ?thesis
  proof (rule that [OF e _ d'(2,3)])
    show "(?b + 1) * block_size dev + (len - length (seg off ?n (cont d))) \<le> block_count dev * block_size dev"
      using ln c q assms(2) by (auto simp: min_def)
    show "length (seg off ?n (cont d)) < len \<longrightarrow> (?b + 1) * block_size dev = off + length (seg off ?n (cont d))"
      using ln q by (auto simp: min_def)
  qed (use ln in auto)
qed

lemma read_loop_ok:
  assumes "good d" and "b * block_size dev + left \<le> block_count dev * block_size dev" and "0 \<le> e"
  shows "\<exists>e' d'. default_read_loop dev left e out b d =
      Some (e', out @ seg (b * block_size dev) (left div block_size dev * block_size dev) (cont d), b + left div block_size dev, d') \<and>
    0 \<le> e' \<and> good d' \<and> cont d' = cont d"
  using assms
proof (induction "left div block_size dev" arbitrary: left e out b d)
  case 0
  then have "left < block_size dev" using sizes(2) by (simp add: div_eq_0_iff)
  then have "default_read_loop dev left e out b d = Some (e, out, b, d)" by (subst default_read_loop.simps) simp
  with 0 show ?case by (intro exI [of _ e] exI [of _ d]) simp
next
  case (Suc k)
  let ?bs = "block_size dev"
  from Suc.hyps(2) have le: "?bs \<le> left" by (metis div_less leI nat.distinct(1))
  then obtain l' where l': "left = ?bs + l'" by (metis le_Suc_ex)
  then have dv: "left div ?bs = Suc (l' div ?bs)" using sizes(2) by (simp add: div_add_self1)
  have b1: "b + 1 \<le> block_count dev" using block_inside [OF Suc.prems(2)] le sizes(2) by simp
  obtain d1 where d1: "read_full dev b 1 d = Some (int ?bs, seg (b * ?bs) ?bs (cont d), d1)" "good d1" "cont d1 = cont d"
    using read_full_ok [OF Suc.prems(1) b1] by auto
  have bb: "(b + 1) * ?bs + l' \<le> block_count dev * ?bs" using Suc.prems(2) l' by (simp add: add_mult_distrib)
  have u: "u32_of (b + 1) = b + 1" using b1 sizes(5) by (simp add: u32_of_def)
  have k: "k = l' div ?bs" using Suc.hyps(2) dv by simp
  from Suc.hyps(1) [OF k d1(2) bb, of "int ?bs" "out @ seg (b * ?bs) ?bs (cont d)"] obtain e' d' where
    ih: "default_read_loop dev l' (int ?bs) (out @ seg (b * ?bs) ?bs (cont d)) (b + 1) d1 =
      Some (e', (out @ seg (b * ?bs) ?bs (cont d)) @ seg ((b + 1) * ?bs) (l' div ?bs * ?bs) (cont d1), b + 1 + l' div ?bs, d')"
      "0 \<le> e'" "good d'" "cont d' = cont d1" by auto
  have j: "seg (b * ?bs) ?bs (cont d) @ seg ((b + 1) * ?bs) (l' div ?bs * ?bs) (cont d) = seg (b * ?bs) (left div ?bs * ?bs) (cont d)"
    using seg_add [of "b * ?bs" ?bs "cont d" "l' div ?bs * ?bs"] dv by (simp add: add.commute)
  have "default_read_loop dev left e out b d = default_read_loop dev l' (int ?bs) (out @ seg (b * ?bs) ?bs (cont d)) (b + 1) d1"
    using le d1(1) u l' by (subst default_read_loop.simps) simp
  with ih j d1(3) dv show ?case by (intro exI [of _ e'] exI [of _ d']) simp
qed

lemma read_middle_ok:
  assumes "good d" and "b * block_size dev + left \<le> block_count dev * block_size dev" and "0 \<le> e" and "left < 2 ^ 32"
  obtains e' d' where "default_read_middle dev al left e out b d =
      Some (e', out @ seg (b * block_size dev) (left div block_size dev * block_size dev) (cont d), b + left div block_size dev, d')"
    and "0 \<le> e'" and "good d'" and "cont d' = cont d"
proof (cases al)
  case True
  with read_loop_ok [OF assms(1-3), of out] that show ?thesis by (auto simp: default_read_middle_def)
next
  case False
  note bl = blocks_inside [OF assms(2)]
  obtain d' where d': "read_full dev b (left div block_size dev) d =
      Some (int (block_size dev * (left div block_size dev)), seg (b * block_size dev) (left div block_size dev * block_size dev) (cont d), d')"
      "good d'" "cont d' = cont d"
    by (rule read_full_ok [OF assms(1) bl])
  have u: "u32_of (b + left div block_size dev) = b + left div block_size dev" using bl sizes(5) by (simp add: u32_of_def)
  show ?thesis
    by (rule that [of "int (block_size dev * (left div block_size dev))", OF _ _ d'(2,3)])
      (use False d'(1) u num_blocks [OF assms(4)] in \<open>simp_all add: default_read_middle_def Let_def\<close>)
qed

lemma read_last_ok:
  assumes "good d" and "b * block_size dev + left \<le> block_count dev * block_size dev" and "0 \<le> e" and "left < block_size dev"
  obtains e' d' where "default_read_last dev left e out b d = Some (e', out @ seg (b * block_size dev) left (cont d), d')"
    and "0 \<le> e'" and "good d'" and "cont d' = cont d"
proof (cases "left = 0")
  case True
  then show ?thesis by (intro that [of e d]) (use assms in \<open>simp_all add: default_read_last_def\<close>)
next
  case False
  then have b1: "b + 1 \<le> block_count dev" using block_inside [OF assms(2)] by simp
  obtain d' where d': "read_full dev b 1 d = Some (int (block_size dev), seg (b * block_size dev) (block_size dev) (cont d), d')"
      "good d'" "cont d' = cont d"
    using read_full_ok [OF assms(1) b1] by auto
  have l: "b * block_size dev + block_size dev \<le> length (cont d)" using inside_cont [OF assms(1) b1] by simp
  show ?thesis
    by (rule that [of "int (block_size dev)", OF _ _ d'(2,3)])
      (use False d'(1) assms(4) l seg_seg [of 0 left "block_size dev" "b * block_size dev" "cont d"] in \<open>simp_all add: default_read_last_def mem_read_def\<close>)
qed

lemma offset_64: "off + len \<le> block_count dev * block_size dev \<Longrightarrow> 0 < len \<Longrightarrow> nat (int off mod 2 ^ 64) = off"
proof -
  assume a: "off + len \<le> block_count dev * block_size dev" "0 < len"
  have "block_count dev * block_size dev \<le> 2 ^ 32 * 2 ^ 32"
    using sizes(3-5) power_increasing [of "block_shift dev" 32 "2::nat"] by (intro mult_le_mono) (simp_all add: less_imp_le)
  with a have "off < 2 ^ 64" by simp
  then show ?thesis by (simp add: mod_pos_pos_trivial)
qed

theorem default_read_ok:
  assumes "good d" and "off + len \<le> block_count dev * block_size dev" and "0 < len" and "len < 2 ^ 32"
  obtains d' where "bio_default_read dev addr (int off) len d = Some (int len, seg off len (cont d), d')" and "good d'" and "cont d' = cont d"
proof -
  let ?bs = "block_size dev"
  note o = offset_64 [OF assms(2,3)]
  obtain e out b d1 where f: "default_read_first dev off len d = Some (e, out, b, d1)" "0 \<le> e" "good d1" "cont d1 = cont d"
      "out = seg off (length out) (cont d)" "length out \<le> len"
      "b * ?bs + (len - length out) \<le> block_count dev * ?bs" "length out < len \<longrightarrow> b * ?bs = off + length out"
    by (rule read_first_ok [OF assms(1-3)])
  let ?al = "bd_flags dev AND BIO_FLAG_CACHE_ALIGNED_READS \<noteq> 0 \<and> (addr + length out) mod CACHE_LINE \<noteq> 0"
  let ?l = "len - length out" let ?q = "?l div ?bs"
  obtain e2 d2 where m: "default_read_middle dev ?al ?l e out b d1 =
      Some (e2, out @ seg (b * ?bs) (?q * ?bs) (cont d1), b + ?q, d2)" "0 \<le> e2" "good d2" "cont d2 = cont d1"
    using assms(4) by (rule_tac read_middle_ok [OF f(3,7,2)]) auto
  have lb: "b * ?bs + ?l \<le> length (cont d)" using f(7) length_cont [OF assms(1)] by simp
  let ?out = "out @ seg (b * ?bs) (?q * ?bs) (cont d)"
  have q: "?q * ?bs \<le> ?l" by simp
  have lo: "length ?out = length out + ?q * ?bs" using lb q by (simp add: order_trans [OF add_left_mono [OF q] lb])
  have l2: "len - length ?out = ?l mod ?bs" using lo minus_div_mult_eq_mod [of ?l ?bs] by simp
  have b2: "(b + ?q) * ?bs + (len - length ?out) \<le> block_count dev * ?bs"
    using f(7) unfolding l2 add_mult_distrib by (simp add: add.assoc)
  have lt: "len - length ?out < ?bs" unfolding l2 using sizes(2) by simp
  obtain e3 d3 where t: "default_read_last dev (len - length ?out) e2 ?out (b + ?q) d2 =
      Some (e3, ?out @ seg ((b + ?q) * ?bs) (len - length ?out) (cont d2), d3)" "0 \<le> e3" "good d3" "cont d3 = cont d2"
    by (rule read_last_ok [OF m(3) b2 m(2) lt])
  have j: "?out @ seg ((b + ?q) * ?bs) (len - length ?out) (cont d) = seg off len (cont d)"
  proof -
    have "seg (b * ?bs) (?q * ?bs) (cont d) @ seg ((b + ?q) * ?bs) (?l mod ?bs) (cont d) = seg (b * ?bs) ?l (cont d)"
      using seg_add [of "b * ?bs" "?q * ?bs" "cont d" "?l mod ?bs"] by (simp add: add_mult_distrib)
    moreover have "out @ seg (b * ?bs) ?l (cont d) = seg off len (cont d)"
      using seg_add [of off "length out" "cont d" ?l] f(5,6,8) by (cases "length out < len") auto
    ultimately show ?thesis unfolding l2 by simp
  qed
  have ll: "length (seg off len (cont d)) = len" using assms(2) length_cont [OF assms(1)] by simp
  have "bio_default_read dev addr (int off) len d = Some (int len, seg off len (cont d), d3)"
    unfolding bio_default_read_def o using f(1,2,4) m(1,2,4) t(1,2) j ll by simp
  with that t(3,4) m(4) f(4) show ?thesis by simp
qed

end

context block_bdev
begin

lemma write_first_ok:
  assumes "good d" and "off + len \<le> block_count dev * block_size dev" and "0 < len" and "len \<le> length buf"
  obtains e pos b d' where "default_write_first dev buf off len d = Some (e, pos, b, d')" and "0 \<le> e" and "good d'"
    and "cont d' = patch off (seg 0 pos buf) (cont d)" and "pos \<le> len"
    and "b * block_size dev + (len - pos) \<le> block_count dev * block_size dev" and "pos < len \<longrightarrow> b * block_size dev = off + pos"
proof (cases "off mod block_size dev = 0")
  case True
  have "default_write_first dev buf off len d = Some (0, 0, off div block_size dev, d)"
    using True first_block(2) [OF assms(2,3)] by (simp add: default_write_first_def)
  then show ?thesis
    by (rule that) (use True assms in \<open>auto simp: mod_0_imp_dvd\<close>)
next
  case False
  note fb = first_block [OF assms(2,3)]
  let ?b = "off div block_size dev" and ?o = "off mod block_size dev"
  let ?n = "min (block_size dev - ?o) len"
  have b1: "?b + 1 \<le> block_count dev" using fb(1) by simp
  have "?o + length (seg 0 ?n buf) \<le> block_size dev" using fb(5) assms(4) by simp
  from rewrite_block_ok [OF assms(1) fb(1) this] obtain d' where
    d': "rewrite_block dev ?b ?o (seg 0 ?n buf) d = Some (int (block_size dev), d')" "good d'" "cont d' = patch off (seg 0 ?n buf) (cont d)"
    using fb(4) by auto
  have e: "default_write_first dev buf off len d = Some (int (block_size dev), ?n, ?b + 1, d')"
    using False d'(1) fb(2,3) assms(4) by (simp add: default_write_first_def mem_read_def Let_def)
  have c: "(?b + 1) * block_size dev \<le> block_count dev * block_size dev" by (rule mult_le_mono1 [OF b1])
  have q: "(?b + 1) * block_size dev = off + (block_size dev - ?o)" using fb(4,5) unfolding add_mult_distrib by linarith
  show ?thesis
    by (rule that [OF e _ d'(2,3)]) (use c q assms(2) in \<open>auto simp: min_def\<close>)
qed

lemma patch_join:
  assumes "cont d1 = patch p (seg q a buf) c" and "cont d2 = patch (p + a) (seg (q + a) n buf) (cont d1)"
    and "q + a + n \<le> length buf" and "p + a + n \<le> length c"
  shows "cont d2 = patch p (seg q (a + n) buf) c"
proof -
  have "p + length (seg q a buf) + length (seg (q + a) n buf) \<le> length c" "p + a = p + length (seg q a buf)"
    using assms(3,4) by simp_all
  from patch_next [OF this] show ?thesis unfolding assms(2) assms(1) seg_add .
qed

lemma write_loop_ok:
  assumes "good d" and "b * block_size dev + left \<le> block_count dev * block_size dev" and "0 \<le> e" and "pos + left \<le> length buf"
  shows "\<exists>e' d'. default_write_loop dev buf left e pos b d =
      Some (e', pos + left div block_size dev * block_size dev, b + left div block_size dev, d') \<and>
    0 \<le> e' \<and> good d' \<and> cont d' = patch (b * block_size dev) (seg pos (left div block_size dev * block_size dev) buf) (cont d)"
  using assms
proof (induction "left div block_size dev" arbitrary: left e pos b d)
  case 0
  then have "left < block_size dev" using sizes(2) by (simp add: div_eq_0_iff)
  then have "default_write_loop dev buf left e pos b d = Some (e, pos, b, d)" by (subst default_write_loop.simps) simp
  with 0 show ?case by (intro exI [of _ e] exI [of _ d]) simp
next
  case (Suc k)
  let ?bs = "block_size dev"
  from Suc.hyps(2) have le: "?bs \<le> left" by (metis div_less leI nat.distinct(1))
  then obtain l' where l': "left = ?bs + l'" by (metis le_Suc_ex)
  then have dv: "left div ?bs = Suc (l' div ?bs)" using sizes(2) by (simp add: div_add_self1)
  have b1: "b + 1 \<le> block_count dev" using block_inside [OF Suc.prems(2)] le sizes(2) by simp
  have lb: "length (seg pos ?bs buf) = 1 * ?bs" using Suc.prems(4) l' by simp
  obtain d1 where d1: "write_full dev (seg pos ?bs buf) b 1 d = Some (int ?bs, d1)" "good d1" "cont d1 = patch (b * ?bs) (seg pos ?bs buf) (cont d)"
    using write_full_ok [OF Suc.prems(1) b1 lb] by auto
  have bb: "(b + 1) * ?bs + l' \<le> block_count dev * ?bs" using Suc.prems(2) l' by (simp add: add_mult_distrib)
  have pl: "pos + ?bs + l' \<le> length buf" using Suc.prems(4) l' by simp
  have u: "u32_of (b + 1) = b + 1" using b1 sizes(5) by (simp add: u32_of_def)
  have k: "k = l' div ?bs" using Suc.hyps(2) dv by simp
  have i0: "(0::int) \<le> int ?bs" by simp
  from Suc.hyps(1) [OF k d1(2) bb i0 pl] obtain e' d' where
    ih: "default_write_loop dev buf l' (int ?bs) (pos + ?bs) (b + 1) d1 = Some (e', pos + ?bs + l' div ?bs * ?bs, b + 1 + l' div ?bs, d')"
      "0 \<le> e'" "good d'" "cont d' = patch ((b + 1) * ?bs) (seg (pos + ?bs) (l' div ?bs * ?bs) buf) (cont d1)" by auto
  have m: "l' div ?bs * ?bs \<le> l'" by simp
  have "b * ?bs + ?bs + l' div ?bs * ?bs \<le> length (cont d)" "pos + ?bs + l' div ?bs * ?bs \<le> length buf"
    using bb pl m length_cont [OF Suc.prems(1)] unfolding add_mult_distrib by linarith+
  then have j: "cont d' = patch (b * ?bs) (seg pos (?bs + l' div ?bs * ?bs) buf) (cont d)"
    using ih(4) by (intro patch_join [OF d1(3)]) (simp_all add: add_mult_distrib add.commute)
  have "default_write_loop dev buf left e pos b d = default_write_loop dev buf l' (int ?bs) (pos + ?bs) (b + 1) d1"
    using le d1(1) u l' pl by (subst default_write_loop.simps) (simp add: mem_read_def)
  with ih j dv show ?case by (intro exI [of _ e'] exI [of _ d']) simp
qed

lemma write_middle_ok:
  assumes "good d" and "b * block_size dev + left \<le> block_count dev * block_size dev" and "0 \<le> e" and "pos + left \<le> length buf" and "left < 2 ^ 32"
  obtains e' d' where "default_write_middle dev al buf left e pos b d =
      Some (e', pos + left div block_size dev * block_size dev, b + left div block_size dev, d')"
    and "0 \<le> e'" and "good d'" and "cont d' = patch (b * block_size dev) (seg pos (left div block_size dev * block_size dev) buf) (cont d)"
proof (cases al)
  case True
  with write_loop_ok [OF assms(1-4)] that show ?thesis by (auto simp: default_write_middle_def)
next
  case False
  note bl = blocks_inside [OF assms(2)]
  let ?q = "left div block_size dev"
  have q: "?q * block_size dev \<le> left" by simp
  then have lq: "pos + ?q * block_size dev \<le> length buf" using assms(4) by linarith
  then have "length (seg pos (?q * block_size dev) buf) = ?q * block_size dev" by simp
  from write_full_ok [OF assms(1) bl this] obtain d' where
    d': "write_full dev (seg pos (?q * block_size dev) buf) b ?q d = Some (int (block_size dev * ?q), d')" "good d'"
      "cont d' = patch (b * block_size dev) (seg pos (?q * block_size dev) buf) (cont d)" .
  have u: "u32_of (b + ?q) = b + ?q" using bl sizes(5) by (simp add: u32_of_def)
  have "default_write_middle dev al buf left e pos b d = Some (int (block_size dev * ?q), pos + ?q * block_size dev, b + ?q, d')"
    unfolding default_write_middle_def num_blocks [OF assms(5)]
    using False d'(1) u lq by (simp add: Let_def mem_read_def mult.commute del: of_nat_mult)
  with that d'(2,3) show ?thesis by simp
qed

lemma write_last_ok:
  assumes "good d" and "b * block_size dev + left \<le> block_count dev * block_size dev" and "0 \<le> e" and "pos + left \<le> length buf" and "left < block_size dev"
  obtains e' d' where "default_write_last dev buf left e pos b d = Some (e', pos + left, d')"
    and "0 \<le> e'" and "good d'" and "cont d' = patch (b * block_size dev) (seg pos left buf) (cont d)"
proof (cases "left = 0")
  case True
  then show ?thesis by (intro that [of e d]) (use assms in \<open>simp_all add: default_write_last_def\<close>)
next
  case False
  then have b: "b < block_count dev" using block_inside [OF assms(2)] by simp
  have "0 + length (seg pos left buf) \<le> block_size dev" using assms(4,5) by simp
  from rewrite_block_ok [OF assms(1) b this] obtain d' where
    d': "rewrite_block dev b 0 (seg pos left buf) d = Some (int (block_size dev), d')" "good d'" "cont d' = patch (b * block_size dev) (seg pos left buf) (cont d)"
    by auto
  show ?thesis
    by (rule that [of "int (block_size dev)", OF _ _ d'(2,3)]) (use False d'(1) assms(4) in \<open>simp_all add: default_write_last_def mem_read_def\<close>)
qed

theorem default_write_ok:
  assumes "good d" and "off + len \<le> block_count dev * block_size dev" and "0 < len" and "len < 2 ^ 32" and "len \<le> length buf"
  obtains d' where "bio_default_write dev addr buf (int off) len d = Some (int len, d')" and "good d'"
    and "cont d' = patch off (seg 0 len buf) (cont d)"
proof -
  let ?bs = "block_size dev"
  note o = offset_64 [OF assms(2,3)]
  obtain e pos b d1 where f: "default_write_first dev buf off len d = Some (e, pos, b, d1)" "0 \<le> e" "good d1"
      "cont d1 = patch off (seg 0 pos buf) (cont d)" "pos \<le> len"
      "b * ?bs + (len - pos) \<le> block_count dev * ?bs" "pos < len \<longrightarrow> b * ?bs = off + pos"
    by (rule write_first_ok [OF assms(1-3,5)])
  let ?al = "bd_flags dev AND BIO_FLAG_CACHE_ALIGNED_WRITES \<noteq> 0 \<and> (addr + pos) mod CACHE_LINE \<noteq> 0"
  let ?l = "len - pos" let ?q = "?l div ?bs"
  have pl: "pos + ?l \<le> length buf" using f(5) assms(5) by simp
  obtain e2 d2 where m: "default_write_middle dev ?al buf ?l e pos b d1 = Some (e2, pos + ?q * ?bs, b + ?q, d2)" "0 \<le> e2" "good d2"
      "cont d2 = patch (b * ?bs) (seg pos (?q * ?bs) buf) (cont d1)"
    using assms(4) by (rule_tac write_middle_ok [OF f(3,6,2) pl]) auto
  have q: "?q * ?bs + ?l mod ?bs = ?l" by simp
  have l2: "len - (pos + ?q * ?bs) = ?l mod ?bs" using q by linarith
  have b2: "(b + ?q) * ?bs + ?l mod ?bs \<le> block_count dev * ?bs" using f(6) q unfolding add_mult_distrib by linarith
  have p2: "pos + ?q * ?bs + ?l mod ?bs \<le> length buf" using pl q by linarith
  have lt: "?l mod ?bs < ?bs" using sizes(2) by simp
  obtain e3 d3 where t: "default_write_last dev buf (?l mod ?bs) e2 (pos + ?q * ?bs) (b + ?q) d2 = Some (e3, pos + ?q * ?bs + ?l mod ?bs, d3)"
      "0 \<le> e3" "good d3" "cont d3 = patch ((b + ?q) * ?bs) (seg (pos + ?q * ?bs) (?l mod ?bs) buf) (cont d2)"
    by (rule write_last_ok [OF m(3) b2 m(2) p2 lt])
  have tot: "pos + ?q * ?bs + ?l mod ?bs = len" using q f(5) by linarith
  have "cont d3 = patch (b * ?bs) (seg pos (?q * ?bs + ?l mod ?bs) buf) (cont d1)"
    using t(4) b2 p2 length_cont [OF f(3)] by (intro patch_join [OF m(4)]) (simp_all add: add_mult_distrib)
  then have "cont d3 = patch off (seg 0 len buf) (cont d)"
    using patch_join [OF f(4), of d3 ?l] f(5,7) q assms(2,5) length_cont [OF assms(1)] f(4)
    by (cases "pos < len") auto
  moreover have "bio_default_write dev addr buf (int off) len d = Some (int len, d3)"
    unfolding bio_default_write_def o using f(1,2) m(1,2) t(1,2) l2 tot by simp
  ultimately show ?thesis using that t(3) by blast
qed

end

text \<open>Through the range check: what lies beyond the end of the device is cut off.\<close>

lemma bio_trim_range_ok:
  assumes "bdev_ok dev" and "off + len < 2 ^ 63"
  shows "bio_trim_range dev (int off) len = min len (block_count dev * block_size dev - off)"
proof -
  define tot where "tot = block_count dev * block_size dev"
  have tot: "total_size dev = int tot" using assms(1) by (simp add: bdev_ok_def tot_def)
  have s: "signed_take_bit 63 (int off + int len) = int off + int len"
    using assms(2) by (intro signed_take_bit_int_eq_self) simp_all
  show ?thesis unfolding bio_trim_range_def s tot tot_def [symmetric] by auto
qed

section \<open>The registry\<close>

text \<open>All device structures by number, the list of the registered ones and the medium.\<close>

record 'd bio_state =
  bdevs :: "nat \<Rightarrow> 'd bdev"
  bdev_list :: "nat list"
  medium :: 'd
  names_freed :: "nat list"

definition upd_bdev :: "nat \<Rightarrow> ('d bdev \<Rightarrow> 'd bdev) \<Rightarrow> 'd bio_state \<Rightarrow> 'd bio_state" where
  "upd_bdev i f s = s\<lparr>bdevs := (bdevs s)(i := f (bdevs s i))\<rparr>"

definition bdev_inc_ref :: "nat \<Rightarrow> 'd bio_state \<Rightarrow> 'd bio_state" where
  "bdev_inc_ref i s = upd_bdev i (\<lambda>b. b\<lparr>bd_ref := bd_ref b + 1\<rparr>) s"

partial_function (option) bdev_dec_ref :: "nat \<Rightarrow> 'd bio_state \<Rightarrow> 'd bio_state option" where
  "bdev_dec_ref i s =
     (let oldval = bd_ref (bdevs s i); s = upd_bdev i (\<lambda>b. b\<lparr>bd_ref := bd_ref b - 1\<rparr>) s in
      if oldval = 1 then
        (case bd_close (bdevs s i) of
           None \<Rightarrow> Some (s\<lparr>names_freed := i # names_freed s\<rparr>)
         | Some (Close_driver h) \<Rightarrow> Some (s\<lparr>medium := h (medium s), names_freed := i # names_freed s\<rparr>)
         | Some (Close_subdev None) \<Rightarrow> None
         | Some (Close_subdev (Some p)) \<Rightarrow>
             Option.bind (bdev_dec_ref p s)
               (\<lambda>s. Some (upd_bdev i (\<lambda>b. b\<lparr>bd_close := Some (Close_subdev None)\<rparr>) (s\<lparr>names_freed := i # names_freed s\<rparr>))))
      else Some s)"

fun find_bdev :: "(nat \<Rightarrow> 'd bdev) \<Rightarrow> string \<Rightarrow> nat list \<Rightarrow> nat option option" where
  "find_bdev devs name [] = Some None"
| "find_bdev devs name (i # is) =
     do {
       dassert (bd_ref (devs i) > 0);
       if bd_name (devs i) = name then Some (Some i) else find_bdev devs name is
     }"

definition bio_open :: "string \<Rightarrow> 'd bio_state \<Rightarrow> (nat option \<times> 'd bio_state) option" where
  "bio_open name s =
     do {
       r \<leftarrow> find_bdev (bdevs s) name (bdev_list s);
       Some (case r of None \<Rightarrow> (None, s) | Some i \<Rightarrow> (Some i, bdev_inc_ref i s))
     }"

definition bio_get_with_prefix :: "string \<Rightarrow> 'd bio_state \<Rightarrow> nat option" where
  "bio_get_with_prefix name s = List.find (\<lambda>i. take (length name) (bd_name (bdevs s i)) = name) (bdev_list s)"

definition bio_close :: "nat \<Rightarrow> 'd bio_state \<Rightarrow> 'd bio_state option" where
  "bio_close i s = bdev_dec_ref i s"

definition bio_ioctl :: "'d bdev \<Rightarrow> int \<Rightarrow> 'd \<Rightarrow> (int \<times> 'd) option" where
  "bio_ioctl dev request d = (case bd_ioctl dev of None \<Rightarrow> Some (ERR_NOT_SUPPORTED, d) | Some h \<Rightarrow> h request d)"

definition bio_new_set_wp :: "'d bdev \<Rightarrow> int \<Rightarrow> int \<Rightarrow> nat \<Rightarrow> nat \<Rightarrow> 'd \<Rightarrow> (int \<times> 'd) option" where
  "bio_new_set_wp dev select enable start sz d =
     (case new_set_wp_native dev of None \<Rightarrow> Some (ERR_NOT_SUPPORTED mod 2 ^ 32, d)
      | Some h \<Rightarrow> map_option (\<lambda>(r, d). (r mod 2 ^ 32, d)) (h select enable start sz d))"

text \<open>The fields that are not mentioned keep whatever the memory of the structure held.\<close>

definition bio_initialize_bdev ::
  "'d bdev \<Rightarrow> string \<Rightarrow> nat \<Rightarrow> nat \<Rightarrow> bio_erase_geometry_info list \<Rightarrow> u32 \<Rightarrow> 'd bdev option" where
  "bio_initialize_bdev dev name bs cnt geo flags =
     do {
       dassert (bs \<noteq> 0 \<and> ispow2 (of_nat bs));
       let shift = unat (log2_uint (of_nat bs));
       Some (dev\<lparr>bd_name := name, block_size := bs, block_count := cnt, block_shift := shift,
         total_size := push_bit shift (int cnt), geometry := geo, erase_byte := 0, erase_size := 0, bd_ref := 0, bd_flags := flags,
         bd_read := None, bd_read_block := None, bd_write := None, bd_write_block := None, bd_erase := None, bd_close := None\<rparr>)
     }"

definition bio_register_device :: "nat \<Rightarrow> 'd bio_state \<Rightarrow> 'd bio_state" where
  "bio_register_device i s = (let s = bdev_inc_ref i s in s\<lparr>bdev_list := bdev_list s @ [i]\<rparr>)"

definition bio_unregister_device :: "nat \<Rightarrow> 'd bio_state \<Rightarrow> 'd bio_state option" where
  "bio_unregister_device i s = bdev_dec_ref i (s\<lparr>bdev_list := remove1 i (bdev_list s)\<rparr>)"

definition bio_does_overlap :: "u64 \<Rightarrow> u64 \<Rightarrow> u64 \<Rightarrow> u64 \<Rightarrow> bool option" where
  "bio_does_overlap start1 len1 start2 len2 =
     do {
       let end1 = start1 + len1;
       let end2 = start2 + len2;
       dassert (end1 \<ge> start1);
       dassert (end2 \<ge> start2);
       Some (start1 \<ge> start2 \<and> start1 < end2 \<or> start2 \<ge> start1 \<and> start2 < end1)
     }"

definition bio_contains_range :: "u64 \<Rightarrow> u64 \<Rightarrow> u64 \<Rightarrow> u64 \<Rightarrow> bool option" where
  "bio_contains_range container_start container_len contained_start contained_len =
     do {
       let container_end = container_start + container_len;
       let contained_end = contained_start + contained_len;
       dassert (container_end \<ge> container_start);
       dassert (contained_end \<ge> contained_start);
       Some (container_start \<le> contained_start \<and> container_end \<ge> contained_end)
     }"

section \<open>Memory devices\<close>

text \<open>The medium is the memory at \<open>ptr\<close>; block numbers are multiplied at 32 bits.\<close>

definition BLOCKSIZE :: nat where "BLOCKSIZE = 512"

definition mem_bdev_read :: "u8 list read_hook" where
  "mem_bdev_read addr offset len d = map_option (\<lambda>x. (int len, x, d)) (mem_read (nat offset) len d)"

definition mem_bdev_read_block :: "u8 list read_block_hook" where
  "mem_bdev_read_block block cnt d =
     map_option (\<lambda>x. (int (u32_of (cnt * BLOCKSIZE)), x, d)) (mem_read (u32_of (block * BLOCKSIZE)) (u32_of (cnt * BLOCKSIZE)) d)"

definition mem_bdev_write :: "u8 list write_hook" where
  "mem_bdev_write addr buf offset len d =
     do {
       x \<leftarrow> mem_read 0 len buf;
       d \<leftarrow> mem_write (nat offset) x d;
       Some (int len, d)
     }"

definition mem_bdev_write_block :: "u8 list write_block_hook" where
  "mem_bdev_write_block buf block cnt d =
     do {
       x \<leftarrow> mem_read 0 (u32_of (cnt * BLOCKSIZE)) buf;
       d \<leftarrow> mem_write (u32_of (block * BLOCKSIZE)) x d;
       Some (int (u32_of (cnt * BLOCKSIZE)), d)
     }"

text \<open>\<open>i\<close> is the number of the structure \<^verbatim>\<open>malloc\<close> returns.\<close>

definition create_membdev :: "nat \<Rightarrow> string \<Rightarrow> nat \<Rightarrow> u8 list bio_state \<Rightarrow> (int \<times> u8 list bio_state) option" where
  "create_membdev i name len s =
     do {
       dev \<leftarrow> bio_initialize_bdev (bdevs s i) name BLOCKSIZE (u32_of (len div BLOCKSIZE)) [] BIO_FLAGS_NONE;
       let s = upd_bdev i (\<lambda>_. dev\<lparr>bd_read := Some mem_bdev_read, bd_read_block := Some mem_bdev_read_block,
         bd_write := Some mem_bdev_write, bd_write_block := Some mem_bdev_write_block\<rparr>) s;
       Some (0, bio_register_device i s)
     }"

section \<open>Subdevices\<close>

text \<open>
  A subdevice passes its transfers on to its parent; the start of the subdevice is multiplied at 64 bits. The parent
  is the device as it was when the subdevice was published, which keeps it open.
\<close>

definition subdev_read :: "'d bdev \<Rightarrow> nat \<Rightarrow> nat \<Rightarrow> 'd read_hook" where
  "subdev_read parent bs start addr offset len d = bio_read parent addr (offset + int (start * bs)) len d"

definition subdev_read_block :: "'d bdev \<Rightarrow> nat \<Rightarrow> 'd read_block_hook" where
  "subdev_read_block parent start block cnt d = bio_read_block parent (u32_of (block + start)) cnt d"

definition subdev_write :: "'d bdev \<Rightarrow> nat \<Rightarrow> nat \<Rightarrow> 'd write_hook" where
  "subdev_write parent bs start addr buf offset len d = bio_write parent addr buf (offset + int (start * bs)) len d"

definition subdev_write_block :: "'d bdev \<Rightarrow> nat \<Rightarrow> 'd write_block_hook" where
  "subdev_write_block parent start buf block cnt d = bio_write_block parent buf (u32_of (block + start)) cnt d"

definition subdev_erase :: "'d bdev \<Rightarrow> nat \<Rightarrow> nat \<Rightarrow> 'd erase_hook" where
  "subdev_erase parent bs start offset len d = bio_erase parent (offset + int (start * bs)) len d"

text \<open>The loop that looks for an erase region: without a match it stops at the last one.\<close>

fun find_region :: "u64 \<Rightarrow> u64 \<Rightarrow> bio_erase_geometry_info list \<Rightarrow> bio_erase_geometry_info option \<Rightarrow> bio_erase_geometry_info option option" where
  "find_region start sz [] geo = Some geo"
| "find_region start sz (g # gs) geo =
     do {
       c \<leftarrow> bio_contains_range (of_int (geo_start g)) (of_int (geo_size g)) start sz;
       if c then Some (Some g) else find_region start sz gs (Some g)
     }"

definition subdev_geometry :: "'d bdev \<Rightarrow> nat \<Rightarrow> nat \<Rightarrow> (int + bio_erase_geometry_info list) option" where
  "subdev_geometry parent startblock cnt =
     (if geometry parent \<noteq> [] then do {
        let byte_start = push_bit (block_shift parent) (of_nat startblock :: u64);
        let byte_size = push_bit (block_shift parent) (of_nat cnt :: u64);
        r \<leftarrow> find_region byte_start byte_size (geometry parent) None;
        Some (case r of None \<Rightarrow> Inl ERR_INVALID_ARGS
          | Some geo \<Rightarrow>
              let erase_mask = push_bit (geo_erase_shift geo) 1 - 1 in
              if byte_start AND erase_mask \<noteq> 0 \<or> byte_size AND erase_mask \<noteq> 0 then Inl ERR_INVALID_ARGS
              else Inr [\<lparr>geo_start = 0, geo_size = sint byte_size, geo_erase_size = geo_erase_size geo, geo_erase_shift = geo_erase_shift geo\<rparr>])
      }
      else let endblock = u32_of (startblock + cnt) in
        Some (if endblock < startblock \<or> endblock > block_count parent then Inl ERR_INVALID_ARGS else Inr []))"

text \<open>\<open>mem\<close> is the structure \<^verbatim>\<open>malloc\<close> returns, if any.\<close>

definition bio_publish_subdevice :: "nat option \<Rightarrow> string \<Rightarrow> string \<Rightarrow> nat \<Rightarrow> nat \<Rightarrow> 'd bio_state \<Rightarrow> (int \<times> 'd bio_state) option" where
  "bio_publish_subdevice mem parent_dev subdev startblock cnt s =
     do {
       (p, s) \<leftarrow> bio_open parent_dev s;
       (case p of None \<Rightarrow> Some (ERR_NOT_FOUND, s)
        | Some p \<Rightarrow>
          (case mem of None \<Rightarrow> map_option (Pair ERR_NO_MEMORY) (bio_close p s)
           | Some i \<Rightarrow> do {
               let parent = bdevs s p;
               r \<leftarrow> subdev_geometry parent startblock cnt;
               (case r of Inl err \<Rightarrow> map_option (Pair err) (bio_close p s)
                | Inr geo \<Rightarrow> do {
                    dev \<leftarrow> bio_initialize_bdev (bdevs s i) subdev (block_size parent) cnt geo BIO_FLAGS_NONE;
                    let bs = block_size parent;
                    let s = upd_bdev i (\<lambda>_. dev\<lparr>bd_read := Some (subdev_read parent bs startblock),
                      bd_read_block := Some (subdev_read_block parent startblock),
                      bd_write := Some (subdev_write parent bs startblock),
                      bd_write_block := Some (subdev_write_block parent startblock),
                      bd_erase := Some (subdev_erase parent bs startblock),
                      bd_close := Some (Close_subdev (Some p))\<rparr>) s;
                    Some (NO_ERROR, bio_register_device i s)
                  })
             }))
     }"

section \<open>Devices of bytes\<close>

text \<open>What \<^verbatim>\<open>bio_read\<close> and \<^verbatim>\<open>bio_write\<close> promise to their callers, whichever hooks are behind them.\<close>

locale byte_bdev =
  fixes dev :: "'d bdev" and good :: "'d \<Rightarrow> bool" and cont :: "'d \<Rightarrow> u8 list" and total :: nat
  assumes length_bytes: "good d \<Longrightarrow> length (cont d) = total"
    and read_bytes: "good d \<Longrightarrow> off + len < 2 ^ 63 \<Longrightarrow> len < 2 ^ 32 \<Longrightarrow>
      \<exists>d'. bio_read dev addr (int off) len d = Some (int (min len (total - off)), seg off (min len (total - off)) (cont d), d') \<and>
        good d' \<and> cont d' = cont d"
    and write_bytes: "good d \<Longrightarrow> off + len < 2 ^ 63 \<Longrightarrow> len < 2 ^ 32 \<Longrightarrow> len \<le> length buf \<Longrightarrow>
      \<exists>d'. bio_write dev addr buf (int off) len d = Some (int (min len (total - off)), d') \<and>
        good d' \<and> cont d' = patch off (seg 0 (min len (total - off)) buf) (cont d)"
begin

lemma write_then_read:
  assumes "good d" and "off + length data \<le> total" and "off + length data < 2 ^ 63" and "length data < 2 ^ 32"
  shows "\<exists>d1 d2. bio_write dev a1 data (int off) (length data) d = Some (int (length data), d1) \<and>
    bio_read dev a2 (int off) (length data) d1 = Some (int (length data), data, d2) \<and> good d2 \<and> cont d2 = patch off data (cont d)"
proof -
  have m: "min (length data) (total - off) = length data" using assms(2) by simp
  from write_bytes [OF assms(1,3,4) order.refl, of a1] obtain d1 where
    d1: "bio_write dev a1 data (int off) (length data) d = Some (int (length data), d1)" "good d1" "cont d1 = patch off data (cont d)"
    unfolding m by auto
  from read_bytes [OF d1(2) assms(3,4), of a2] obtain d2 where
    d2: "bio_read dev a2 (int off) (length data) d1 = Some (int (length data), seg off (length data) (cont d1), d2)" "good d2" "cont d2 = cont d1"
    unfolding m by auto
  have "seg off (length data) (cont d1) = data"
    using d1(3) assms(2) length_bytes [OF assms(1)] by simp
  with d1 d2 show ?thesis by auto
qed

end

context block_bdev
begin

text \<open>The default byte hooks turn a block driver into a device of bytes.\<close>

lemma deblocked:
  assumes "bd_read dev = None" and "bd_write dev = None"
  shows "byte_bdev dev good cont (block_count dev * block_size dev)"
proof
  show "length (cont d) = block_count dev * block_size dev" if "good d" for d using length_cont [OF that] .
next
  fix d off len addr
  assume a: "good d" "off + len < 2 ^ 63" "len < (2 :: nat) ^ 32"
  let ?n = "min len (block_count dev * block_size dev - off)"
  note tr = bio_trim_range_ok [OF ok a(2)]
  show "\<exists>d'. bio_read dev addr (int off) len d = Some (int ?n, seg off ?n (cont d), d') \<and> good d' \<and> cont d' = cont d"
  proof (cases "?n = 0")
    case True
    then show ?thesis using a(1) tr sizes(1) by (simp add: bio_read_def)
  next
    case False
    then have n: "off + ?n \<le> block_count dev * block_size dev" "0 < ?n" "?n < 2 ^ 32" using a(3) by auto
    obtain d' where "bio_default_read dev addr (int off) ?n d = Some (int ?n, seg off ?n (cont d), d')" "good d'" "cont d' = cont d"
      by (rule default_read_ok [OF a(1) n])
    then show ?thesis using False tr sizes(1) assms(1) by (auto simp: bio_read_def dev_read_def Let_def)
  qed
next
  fix d off len addr and buf :: "u8 list"
  assume a: "good d" "off + len < 2 ^ 63" "len < (2 :: nat) ^ 32" "len \<le> length buf"
  let ?n = "min len (block_count dev * block_size dev - off)"
  note tr = bio_trim_range_ok [OF ok a(2)]
  show "\<exists>d'. bio_write dev addr buf (int off) len d = Some (int ?n, d') \<and> good d' \<and> cont d' = patch off (seg 0 ?n buf) (cont d)"
  proof (cases "?n = 0")
    case True
    then show ?thesis using a(1) tr sizes(1) by (simp add: bio_write_def)
  next
    case False
    then have n: "off + ?n \<le> block_count dev * block_size dev" "0 < ?n" "?n < 2 ^ 32" "?n \<le> length buf" using a(3,4) by auto
    obtain d' where "bio_default_write dev addr buf (int off) ?n d = Some (int ?n, d')" "good d'" "cont d' = patch off (seg 0 ?n buf) (cont d)"
      by (rule default_write_ok [OF a(1) n])
    then show ?thesis using False tr sizes(1) assms(2) by (auto simp: bio_write_def dev_write_def Let_def)
  qed
qed

end

section \<open>Memory devices meet both contracts\<close>

text \<open>The device \<^verbatim>\<open>create_membdev\<close> registers, on a structure whose memory held \<open>base\<close>, with \<open>r\<close> further references.\<close>

definition membdev :: "nat \<Rightarrow> u8 list bdev \<Rightarrow> string \<Rightarrow> nat \<Rightarrow> u8 list bdev" where
  "membdev r base name len = base\<lparr>bd_ref := 1 + int r, bd_name := name, total_size := int (u32_of (len div 512) * 512), block_size := 512,
     block_shift := 9, block_count := u32_of (len div 512), geometry := [], erase_byte := 0, erase_size := 0, bd_flags := 0,
     bd_read := Some mem_bdev_read, bd_read_block := Some mem_bdev_read_block, bd_write := Some mem_bdev_write,
     bd_write_block := Some mem_bdev_write_block, bd_erase := None, bd_close := None\<rparr>"

lemma initialize_512:
  "bio_initialize_bdev dev name 512 cnt geo flags =
     Some (dev\<lparr>bd_name := name, block_size := 512, block_count := cnt, block_shift := 9, total_size := int (cnt * 512), geometry := geo,
       erase_byte := 0, erase_size := 0, bd_ref := 0, bd_flags := flags, bd_read := None, bd_read_block := None, bd_write := None,
       bd_write_block := None, bd_erase := None, bd_close := None\<rparr>)"
proof -
  have "log2_uint 512 = 9" using log2_uint_pow2 [of 9] by simp
  moreover have "ispow2 512" by (simp add: ispow2_def)
  ultimately show ?thesis by (simp add: bio_initialize_bdev_def push_bit_eq_mult)
qed

lemma create_membdev_registers:
  "create_membdev i name len s = Some (0, s\<lparr>bdevs := (bdevs s)(i := membdev 0 (bdevs s i) name len), bdev_list := bdev_list s @ [i]\<rparr>)"
  by (cases "bdevs s i") (simp add: create_membdev_def BLOCKSIZE_def initialize_512 bio_register_device_def bdev_inc_ref_def upd_bdev_def membdev_def
    BIO_FLAGS_NONE_def Let_def)

definition mem_good :: "nat \<Rightarrow> u8 list \<Rightarrow> bool" where
  "mem_good len d \<longleftrightarrow> length d = len div 512 * 512 \<and> len < 2 ^ 32"

lemma mem_sizes:
  assumes "mem_good len d"
  shows "u32_of (len div 512) = len div 512" "length d = len div 512 * 512" "len div 512 * 512 < 2 ^ 32"
proof -
  have "len div 512 * 512 \<le> len" by simp
  then show "len div 512 * 512 < 2 ^ 32" using assms unfolding mem_good_def by linarith
  show "u32_of (len div 512) = len div 512" "length d = len div 512 * 512"
    using assms by (auto simp: mem_good_def u32_of_def)
qed

interpretation mem_blocks: block_bdev "membdev r base name len" "mem_good len" "\<lambda>d. d"
proof
  show "bdev_ok (membdev r base name len)"
    by (simp add: bdev_ok_def membdev_def u32_of_def)
next
  fix d assume "mem_good len d"
  then show "length d = block_count (membdev r base name len) * block_size (membdev r base name len)"
    using mem_sizes [of len d] by (simp add: membdev_def)
next
  fix d n b
  assume a: "mem_good len d" "0 < n" "b + n \<le> block_count (membdev r base name len)"
  note s = mem_sizes [OF a(1)]
  have b: "b * 512 + n * 512 \<le> len div 512 * 512" using a(3) s(1) mult_le_mono1 [of "b + n" "len div 512" 512] by (simp add: membdev_def)
  then have u: "u32_of (b * 512) = b * 512" "u32_of (n * 512) = n * 512" using s(3) by (simp_all add: u32_of_def)
  show "\<exists>d'. dev_read_block (membdev r base name len) b n d =
     Some (int (block_size (membdev r base name len) * n), seg (b * block_size (membdev r base name len)) (n * block_size (membdev r base name len)) d, d') \<and>
     mem_good len d' \<and> d' = d"
    using a(1) b s(2) u by (simp add: dev_read_block_def membdev_def mem_bdev_read_block_def BLOCKSIZE_def mem_read_def)
next
  fix d n b and data :: "u8 list"
  assume a: "mem_good len d" "0 < n" "b + n \<le> block_count (membdev r base name len)" "length data = n * block_size (membdev r base name len)"
  note s = mem_sizes [OF a(1)]
  have b: "b * 512 + n * 512 \<le> len div 512 * 512" using a(3) s(1) mult_le_mono1 [of "b + n" "len div 512" 512] by (simp add: membdev_def)
  then have u: "u32_of (b * 512) = b * 512" "u32_of (n * 512) = n * 512" using s(3) by (simp_all add: u32_of_def)
  show "\<exists>d'. dev_write_block (membdev r base name len) data b n d = Some (int (block_size (membdev r base name len) * n), d') \<and>
     mem_good len d' \<and> d' = patch (b * block_size (membdev r base name len)) data d"
    using a(1,4) b s(2) u by (simp add: dev_write_block_def membdev_def mem_bdev_write_block_def BLOCKSIZE_def mem_read_def mem_write_def mem_good_def)
qed

interpretation mem_bytes: byte_bdev "membdev r base name len" "mem_good len" "\<lambda>d. d" "len div 512 * 512"
proof
  show "length d = len div 512 * 512" if "mem_good len d" for d using that by (simp add: mem_good_def)
next
  fix d off n addr
  assume a: "mem_good len d" "off + n < 2 ^ 63" "n < (2 :: nat) ^ 32"
  note s = mem_sizes [OF a(1)]
  let ?n = "min n (len div 512 * 512 - off)"
  have tr: "bio_trim_range (membdev r base name len) (int off) n = ?n"
    using bio_trim_range_ok [OF mem_blocks.ok a(2), of r base name len] s(1) by (simp add: membdev_def)
  show "\<exists>d'. bio_read (membdev r base name len) addr (int off) n d = Some (int ?n, seg off ?n d, d') \<and> mem_good len d' \<and> d' = d"
  proof (cases "?n = 0")
    case True
    then show ?thesis using a(1) tr by (simp add: bio_read_def membdev_def)
  next
    case False
    then have "mem_read off ?n d = Some (seg off ?n d)" using s(2) by (intro mem_read_ok) auto
    then show ?thesis using False a(1) tr mem_blocks.sizes(1) [of r base name len] by (simp add: bio_read_def dev_read_def mem_bdev_read_def membdev_def Let_def)
  qed
next
  fix d off n addr and buf :: "u8 list"
  assume a: "mem_good len d" "off + n < 2 ^ 63" "n < (2 :: nat) ^ 32" "n \<le> length buf"
  note s = mem_sizes [OF a(1)]
  let ?n = "min n (len div 512 * 512 - off)"
  have tr: "bio_trim_range (membdev r base name len) (int off) n = ?n"
    using bio_trim_range_ok [OF mem_blocks.ok a(2), of r base name len] s(1) by (simp add: membdev_def)
  show "\<exists>d'. bio_write (membdev r base name len) addr buf (int off) n d = Some (int ?n, d') \<and> mem_good len d' \<and> d' = patch off (seg 0 ?n buf) d"
  proof (cases "?n = 0")
    case True
    then show ?thesis using a(1) tr by (simp add: bio_write_def membdev_def)
  next
    case False
    have r: "mem_read 0 ?n buf = Some (seg 0 ?n buf)" using a(4) by (intro mem_read_ok) simp
    have w: "mem_write off (seg 0 ?n buf) d = Some (patch off (seg 0 ?n buf) d)" "length (patch off (seg 0 ?n buf) d) = length d"
      using False s(2) a(4) by (auto intro!: mem_write_ok)
    show ?thesis using False a(1) tr r w by (simp add: bio_write_def dev_write_def mem_bdev_write_def membdev_def mem_good_def Let_def)
  qed
qed

section \<open>A subdevice is a window of its parent\<close>

lemma pow2_block_size:
  assumes "bdev_ok dev"
  shows "ispow2 (of_nat (block_size dev))" "unat (log2_uint (of_nat (block_size dev))) = block_shift dev" "block_size dev \<noteq> 0"
proof -
  have s: "block_shift dev < 32" "block_size dev = 2 ^ block_shift dev" using assms by (simp_all add: bdev_ok_def)
  have w: "(of_nat (block_size dev) :: u32) = push_bit (block_shift dev) 1" by (simp add: s(2) push_bit_eq_mult)
  show "block_size dev \<noteq> 0" by (simp add: s(2))
  show "unat (log2_uint (of_nat (block_size dev))) = block_shift dev"
    unfolding w log2_uint_pow2 [OF s(1)] using s(1) by (simp add: unat_of_nat)
  have "(push_bit (block_shift dev) 1 - 1) AND push_bit (block_shift dev) (1 :: u32) = 0"
    unfolding mask_eq_push_bit by (rule bit_eqI) (auto simp: bit_simps)
  then show "ispow2 (of_nat (block_size dev))" unfolding w ispow2_def .
qed

text \<open>The device \<^verbatim>\<open>bio_publish_subdevice\<close> registers for blocks of a parent without erase geometry.\<close>

definition subdev :: "'d bdev \<Rightarrow> 'd bdev \<Rightarrow> nat \<Rightarrow> string \<Rightarrow> nat \<Rightarrow> nat \<Rightarrow> 'd bdev" where
  "subdev base parent p name start cnt = base\<lparr>bd_ref := 1, bd_name := name, total_size := int (cnt * block_size parent),
     block_size := block_size parent, block_shift := block_shift parent, block_count := cnt, geometry := [], erase_byte := 0, erase_size := 0,
     bd_flags := 0, bd_read := Some (subdev_read parent (block_size parent) start), bd_read_block := Some (subdev_read_block parent start),
     bd_write := Some (subdev_write parent (block_size parent) start), bd_write_block := Some (subdev_write_block parent start),
     bd_erase := Some (subdev_erase parent (block_size parent) start), bd_close := Some (Close_subdev (Some p))\<rparr>"

lemma publish_registers:
  assumes "find_bdev (bdevs s) pname (bdev_list s) = Some (Some p)" and "bdev_ok (bdevs s p)" and "geometry (bdevs s p) = []"
    and "start + cnt \<le> block_count (bdevs s p)" and "i \<noteq> p"
  defines "parent \<equiv> (bdevs s p)\<lparr>bd_ref := bd_ref (bdevs s p) + 1\<rparr>"
  shows "bio_publish_subdevice (Some i) pname name start cnt s =
     Some (NO_ERROR, s\<lparr>bdevs := (bdevs s)(p := parent, i := subdev (bdevs s i) parent p name start cnt), bdev_list := bdev_list s @ [i]\<rparr>)"
proof -
  note b = assms(2) [unfolded bdev_ok_def]
  have u: "u32_of (start + cnt) = start + cnt" using assms(4) b by (intro u32_of_id) linarith
  have g: "subdev_geometry parent start cnt = Some (Inr [])" using assms(3,4) u by (simp add: subdev_geometry_def parent_def Let_def)
  have sz: "block_size parent = block_size (bdevs s p)" "block_shift parent = block_shift (bdevs s p)" by (simp_all add: parent_def)
  have ini: "bio_initialize_bdev dev name (block_size parent) cnt [] flags =
      Some (dev\<lparr>bd_name := name, block_size := block_size parent, block_count := cnt, block_shift := block_shift parent,
        total_size := int (cnt * block_size parent), geometry := [], erase_byte := 0, erase_size := 0, bd_ref := 0, bd_flags := flags,
        bd_read := None, bd_read_block := None, bd_write := None, bd_write_block := None, bd_erase := None, bd_close := None\<rparr>)" for dev flags
    using pow2_block_size [OF assms(2)] b unfolding sz by (simp add: bio_initialize_bdev_def Let_def push_bit_eq_mult)
  have o: "bio_open pname s = Some (Some p, s\<lparr>bdevs := (bdevs s)(p := parent)\<rparr>)"
    using assms(1) by (simp add: bio_open_def bdev_inc_ref_def upd_bdev_def parent_def)
  have pp: "bdevs (s\<lparr>bdevs := (bdevs s)(p := parent)\<rparr>) p = parent" "bdevs (s\<lparr>bdevs := (bdevs s)(p := parent)\<rparr>) i = bdevs s i"
    using assms(5) by simp_all
  show ?thesis
    unfolding bio_publish_subdevice_def o bind.bind_lunit split option.case pp Let_def g sum.case ini
    by (cases "bdevs s i") (simp add: bio_register_device_def bdev_inc_ref_def upd_bdev_def subdev_def BIO_FLAGS_NONE_def Let_def)
qed

lemma subdev_ok:
  assumes "bdev_ok parent" and "cnt \<le> block_count parent"
  shows "bdev_ok (subdev base parent p name start cnt)"
  using assms by (simp add: bdev_ok_def subdev_def)

text \<open>A transfer on the subdevice is one on the parent, cut off at the end of the subdevice.\<close>

lemma subdev_io:
  assumes ok: "bdev_ok parent" and par: "byte_bdev parent good cont (block_count parent * block_size parent)"
    and inside: "start + cnt \<le> block_count parent" and d: "good d" "off + len < 2 ^ 63" "len < 2 ^ 32"
  defines "bs \<equiv> block_size parent" and "n \<equiv> min len (cnt * block_size parent - off)"
  shows subdev_read_ok: "\<exists>d'. bio_read (subdev base parent p name start cnt) addr (int off) len d = Some (int n, seg (start * bs + off) n (cont d), d') \<and>
      good d' \<and> cont d' = cont d"
    and subdev_write_ok: "len \<le> length buf \<Longrightarrow>
      \<exists>d'. bio_write (subdev base parent p name start cnt) addr buf (int off) len d = Some (int n, d') \<and>
        good d' \<and> cont d' = patch (start * bs + off) (seg 0 n buf) (cont d)"
proof -
  let ?sub = "subdev base parent p name start cnt"
  have sok: "bdev_ok ?sub" using subdev_ok [OF ok] inside by simp
  have tot: "start * bs + cnt * bs \<le> block_count parent * bs" using mult_le_mono1 [OF inside, of bs] by (simp add: add_mult_distrib)
  have "block_count parent \<le> 2 ^ 32 - 1" "bs \<le> 2 ^ 31"
    using ok power_increasing [of "block_shift parent" 31 "2::nat"] by (auto simp: bdev_ok_def bs_def)
  then have "block_count parent * bs \<le> (2 ^ 32 - 1) * 2 ^ 31" by (rule mult_le_mono)
  then have big: "block_count parent * bs < 2 ^ 63" by simp
  have tr: "bio_trim_range ?sub (int off) len = n"
    using bio_trim_range_ok [OF sok d(2)] by (simp add: subdev_def n_def)
  have nb: "n = min len (cnt * bs - off)" by (simp add: n_def bs_def)
  have n32: "n < 2 ^ 32" using d(3) by (simp add: n_def)
  have i: "min n (block_count parent * block_size parent - (start * bs + off)) = n" "start * bs + off + n < 2 ^ 63" if "n \<noteq> 0"
    using that tot big unfolding nb bs_def [symmetric] by linarith+
  have fld: "bd_ref ?sub = 1" "dev_read ?sub = subdev_read parent bs start" "dev_write ?sub = subdev_write parent bs start"
    by (simp_all add: subdev_def dev_read_def dev_write_def bs_def)
  have e: "int off + int (start * bs) = int (start * bs + off)" by simp
  show "\<exists>d'. bio_read ?sub addr (int off) len d = Some (int n, seg (start * bs + off) n (cont d), d') \<and> good d' \<and> cont d' = cont d"
  proof (cases "n = 0")
    case True
    then show ?thesis using d(1) tr by (simp add: bio_read_def subdev_def)
  next
    case False
    have "bio_read ?sub addr (int off) len d = bio_read parent addr (int (start * bs + off)) n d"
      using False unfolding bio_read_def [of ?sub] fld subdev_read_def e tr by simp
    then show ?thesis using byte_bdev.read_bytes [OF par d(1) i(2) n32, of addr] i(1) False by simp
  qed
  show "\<exists>d'. bio_write ?sub addr buf (int off) len d = Some (int n, d') \<and> good d' \<and> cont d' = patch (start * bs + off) (seg 0 n buf) (cont d)"
    if l: "len \<le> length buf"
  proof (cases "n = 0")
    case True
    then show ?thesis using d(1) tr by (simp add: bio_write_def subdev_def)
  next
    case False
    have nl: "n \<le> length buf" using l by (simp add: n_def)
    have "bio_write ?sub addr buf (int off) len d = bio_write parent addr buf (int (start * bs + off)) n d"
      using False unfolding bio_write_def [of ?sub] fld subdev_write_def e tr by simp
    then show ?thesis using byte_bdev.write_bytes [OF par d(1) i(2) n32 nl, of addr] i(1) False by simp
  qed
qed

lemma subdev_bytes:
  assumes ok: "bdev_ok parent" and par: "byte_bdev parent good cont (block_count parent * block_size parent)"
    and inside: "start + cnt \<le> block_count parent"
  defines "bs \<equiv> block_size parent"
  shows "byte_bdev (subdev base parent p name start cnt) good (\<lambda>d. seg (start * bs) (cnt * bs) (cont d)) (cnt * bs)"
proof -
  have tot: "start * bs + cnt * bs \<le> block_count parent * bs" using mult_le_mono1 [OF inside, of bs] by (simp add: add_mult_distrib)
  have len: "start * bs + cnt * bs \<le> length (cont d)" if "good d" for d
    using tot byte_bdev.length_bytes [OF par that] by (simp add: bs_def)
  show ?thesis
  proof
    show "length (seg (start * bs) (cnt * bs) (cont d)) = cnt * bs" if "good d" for d using len [OF that] by simp
  next
    fix d off n addr
    assume a: "good d" "off + n < 2 ^ 63" "n < (2 :: nat) ^ 32"
    have "seg off (min n (cnt * bs - off)) (seg (start * bs) (cnt * bs) (cont d)) = seg (start * bs + off) (min n (cnt * bs - off)) (cont d)"
      by (cases "off < cnt * bs") (simp_all add: seg_seg)
    then show "\<exists>d'. bio_read (subdev base parent p name start cnt) addr (int off) n d =
        Some (int (min n (cnt * bs - off)), seg off (min n (cnt * bs - off)) (seg (start * bs) (cnt * bs) (cont d)), d') \<and>
        good d' \<and> seg (start * bs) (cnt * bs) (cont d') = seg (start * bs) (cnt * bs) (cont d)"
      using subdev_read_ok [OF ok par inside a, of base p name addr] unfolding bs_def by auto
  next
    fix d off n addr and buf :: "u8 list"
    assume a: "good d" "off + n < 2 ^ 63" "n < (2 :: nat) ^ 32" "n \<le> length buf"
    have "seg (start * bs) (cnt * bs) (patch (start * bs + off) (seg 0 (min n (cnt * bs - off)) buf) (cont d)) =
        patch off (seg 0 (min n (cnt * bs - off)) buf) (seg (start * bs) (cnt * bs) (cont d))"
      using seg_patch_inner [OF len [OF a(1)], of off "seg 0 (min n (cnt * bs - off)) buf"] a(4)
      by (cases "off < cnt * bs") (simp_all add: add.commute)
    then show "\<exists>d'. bio_write (subdev base parent p name start cnt) addr buf (int off) n d = Some (int (min n (cnt * bs - off)), d') \<and>
        good d' \<and> seg (start * bs) (cnt * bs) (cont d') = patch off (seg 0 (min n (cnt * bs - off)) buf) (seg (start * bs) (cnt * bs) (cont d))"
      using subdev_write_ok [OF ok par inside a, of base p name addr] unfolding bs_def by auto
  qed
qed

text \<open>A block transfer or an erase on the subdevice is one on the parent, moved and cut off.\<close>

lemma subdev_blocks:
  fixes parent :: "'d bdev"
  assumes "bdev_ok parent" and "start + cnt \<le> block_count parent" and "block + k < 2 ^ 32"
  defines "m \<equiv> min k (cnt - block)"
  shows "bio_read_block (subdev base parent p name start cnt) block k d = (if m = 0 then Some (0, [], d) else bio_read_block parent (start + block) m d)"
    and "bio_write_block (subdev base parent p name start cnt) buf block k d = (if m = 0 then Some (0, d) else bio_write_block parent buf (start + block) m d)"
proof -
  let ?sub = "subdev base parent p name start cnt"
  have u: "u32_of (block + k) = block + k" using assms(3) by (rule u32_of_id)
  have tr: "bio_trim_block_range ?sub block k = m" unfolding bio_trim_block_range_def u by (auto simp: m_def subdev_def)
  have b: "u32_of (block + start) = start + block" if "m \<noteq> 0"
    using that assms(1,2) unfolding bdev_ok_def m_def by (subst u32_of_id) linarith+
  have fld: "bd_ref ?sub = 1" "dev_read_block ?sub = subdev_read_block parent start" "dev_write_block ?sub = subdev_write_block parent start"
    by (simp_all add: subdev_def dev_read_block_def dev_write_block_def)
  show "bio_read_block ?sub block k d = (if m = 0 then Some (0, [], d) else bio_read_block parent (start + block) m d)"
    using b unfolding bio_read_block_def [of ?sub] fld subdev_read_block_def tr Let_def by simp
  show "bio_write_block ?sub buf block k d = (if m = 0 then Some (0, d) else bio_write_block parent buf (start + block) m d)"
    using b unfolding bio_write_block_def [of ?sub] fld subdev_write_block_def tr Let_def by simp
qed

lemma subdev_erases:
  assumes "bdev_ok parent" and "start + cnt \<le> block_count parent" and "off + len < 2 ^ 63"
  defines "n \<equiv> min len (cnt * block_size parent - off)"
  shows "bio_erase (subdev base parent p name start cnt) (int off) len d = (if n = 0 then Some (0, d) else bio_erase parent (int (start * block_size parent + off)) n d)"
proof -
  let ?sub = "subdev base parent p name start cnt"
  have "bdev_ok ?sub" using subdev_ok [OF assms(1)] assms(2) by simp
  from bio_trim_range_ok [OF this assms(3)] have tr: "bio_trim_range ?sub (int off) len = n" by (simp add: n_def subdev_def)
  have fld: "bd_ref ?sub = 1" "dev_erase ?sub = subdev_erase parent (block_size parent) start" by (simp_all add: subdev_def dev_erase_def)
  have e: "int off + int (start * block_size parent) = int (start * block_size parent + off)" by simp
  show ?thesis unfolding bio_erase_def [of ?sub] fld subdev_erase_def tr e Let_def by simp
qed

lemma publish_rejects:
  assumes "find_bdev (bdevs s) pname (bdev_list s) = Some (Some p)" and "bdev_ok (bdevs s p)" and "geometry (bdevs s p) = []"
    and "block_count (bdevs s p) < start + cnt" and "start < 2 ^ 32" and "cnt < 2 ^ 32"
  shows "bio_publish_subdevice (Some i) pname name start cnt s = Some (ERR_INVALID_ARGS, s)"
proof -
  let ?parent = "(bdevs s p)\<lparr>bd_ref := bd_ref (bdevs s p) + 1\<rparr>"
  have r: "bd_ref (bdevs s p) > 0" using assms(2) by (simp add: bdev_ok_def)
  have "u32_of (start + cnt) < start \<or> u32_of (start + cnt) = start + cnt"
  proof (cases "start + cnt < 2 ^ 32")
    case False
    then have "u32_of (start + cnt) = start + cnt - 2 ^ 32" using assms(5,6) by (simp add: u32_of_def le_mod_geq)
    with False assms(6) show ?thesis by linarith
  qed (simp add: u32_of_def)
  then have g: "subdev_geometry ?parent start cnt = Some (Inl ERR_INVALID_ARGS)"
    using assms(3,4) by (auto simp: subdev_geometry_def Let_def)
  have o: "bio_open pname s = Some (Some p, s\<lparr>bdevs := (bdevs s)(p := ?parent)\<rparr>)"
    using assms(1) by (simp add: bio_open_def bdev_inc_ref_def upd_bdev_def)
  have c: "bio_close p (s\<lparr>bdevs := (bdevs s)(p := ?parent)\<rparr>) = Some s"
    unfolding bio_close_def using r by (subst bdev_dec_ref.simps) (simp add: upd_bdev_def Let_def)
  have pp: "bdevs (s\<lparr>bdevs := (bdevs s)(p := ?parent)\<rparr>) p = ?parent" by simp
  show ?thesis
    unfolding bio_publish_subdevice_def o bind.bind_lunit split option.case Let_def pp g sum.case c by simp
qed

context block_bdev
begin

lemma byte_hooks: "block_bdev (dev\<lparr>bd_read := r, bd_write := w\<rparr>) good cont"
proof
  show "bdev_ok (dev\<lparr>bd_read := r, bd_write := w\<rparr>)" using ok by (simp add: bdev_ok_def)
qed (use length_cont read_law write_law in \<open>auto simp: dev_read_block_def dev_write_block_def\<close>)

end

section \<open>Properties\<close>

definition demo_base :: "u8 list bdev" where
  "demo_base = \<lparr>bd_ref = 0, bd_name = [], total_size = 0, block_size = 0, block_shift = 0, block_count = 0, max_blkcnt_per_cmd = 0,
     geometry = [], erase_byte = 0, erase_size = 0, bd_flags = 0, bd_read = None, bd_read_block = None, bd_write = None,
     bd_write_block = None, bd_erase = None, new_read_native = None, new_write_native = None, new_erase_native = None,
     new_set_wp_native = None, bd_ioctl = None, bd_close = None\<rparr>"

definition demo_blocks :: "u8 list bdev" where
  "demo_blocks = (membdev 0 demo_base ''mem'' 1024)\<lparr>bd_read := None, bd_write := None\<rparr>"

lemma demo_blocks_driver: "block_bdev demo_blocks (mem_good 1024) (\<lambda>d. d)"
  unfolding demo_blocks_def by (rule mem_blocks.byte_hooks)

lemma demo_blocks_fields: "bd_read demo_blocks = None" "bd_write demo_blocks = None" "block_count demo_blocks = 2" "block_size demo_blocks = 512"
  by (simp_all add: demo_blocks_def membdev_def u32_of_def)

lemma demo_good: "mem_good 1024 (replicate 1024 7)"
  by (simp add: mem_good_def)

text \<open>
  C32: on a device whose driver transfers whole blocks, the default hooks behind \<^verbatim>\<open>bio_read\<close> and \<^verbatim>\<open>bio_write\<close> transfer exactly
  the bytes asked for, wherever the range starts and ends in a block and whether or not the buffer is aligned: a read returns
  the bytes of the device in the range, cut off at its end, a write replaces exactly them and keeps every
  other byte, and both return how many there were. The range ends below \<open>2 ^ 63\<close> and has fewer than \<open>2 ^ 32\<close> bytes.
\<close>

theorem bio_bytes_exact:
  assumes "block_bdev dev good cont" and "bd_read dev = None" and "bd_write dev = None" and "good d"
    and "off + len < 2 ^ 63" and "len < 2 ^ 32" and "len \<le> length buf"
  shows "let n = min len (block_count dev * block_size dev - off) in
     (\<exists>d'. bio_read dev addr (int off) len d = Some (int n, seg off n (cont d), d') \<and> good d' \<and> cont d' = cont d) \<and>
     (\<exists>d'. bio_write dev addr buf (int off) len d = Some (int n, d') \<and> good d' \<and> cont d' = patch off (seg 0 n buf) (cont d))"
  unfolding Let_def
  using byte_bdev.read_bytes [OF block_bdev.deblocked [OF assms(1-3)] assms(4-6)]
    byte_bdev.write_bytes [OF block_bdev.deblocked [OF assms(1-3)] assms(4-7)] by blast

theorem bio_bytes_exact_witness:
  "(\<exists>d'. bio_read demo_blocks 0 500 30 (replicate 1024 7) = Some (30, replicate 30 7, d')) \<and>
   (\<exists>d'. bio_write demo_blocks 0 [1, 2, 3] 1022 3 (replicate 1024 7) = Some (2, d') \<and> d' = replicate 1022 7 @ [1, 2])"
  using bio_bytes_exact [OF demo_blocks_driver demo_blocks_fields(1,2) demo_good, of 500 30 "replicate 30 0" 0]
    bio_bytes_exact [OF demo_blocks_driver demo_blocks_fields(1,2) demo_good, of 1022 3 "[1, 2, 3]" 0]
  by (simp add: demo_blocks_fields Let_def seg_def patch_def)

text \<open>
  With an erase geometry the check is another one, and it does not hold: the search leaves the last region when none contains the range, so
  blocks outside the device are accepted. Here the parent has four blocks of 512 bytes in one region, and blocks 100 to 103 are published.
\<close>

definition demo_geo :: "u8 list bdev" where
  "demo_geo = (membdev 1 demo_base ''mem'' 2048)\<lparr>geometry := [\<lparr>geo_start = 0, geo_size = 2048, geo_erase_size = 512, geo_erase_shift = 9\<rparr>]\<rparr>"

lemma geometry_not_checked:
  "block_count demo_geo = 4 \<and> (\<exists>geo. subdev_geometry demo_geo 100 4 = Some (Inr geo))"
  by (simp add: demo_geo_def membdev_def demo_base_def subdev_geometry_def bio_contains_range_def push_bit_eq_mult Let_def u32_of_def)


definition demo_bio :: "u8 list bio_state" where
  "demo_bio = \<lparr>bdevs = (\<lambda>_. demo_base)(0 := membdev 0 demo_base ''mem'' 2048), bdev_list = [0], medium = replicate 2048 7, names_freed = []\<rparr>"


end
