(* ===== verification/LK_Bio_User.thy ===== *)
theory LK_Bio_User
  imports LK_Bio
begin

text \<open>
  The user block interface of \<^verbatim>\<open>lib/bio/bio.c\<close>, \<^verbatim>\<open>bio_new_read\<close> to \<^verbatim>\<open>bio_new_byte_erase\<close>, which the boot loader uses to read, flash
  and erase partitions, and the proof that its block variants touch exactly the blocks asked for.
\<close>

section \<open>User blocks on native blocks\<close>

text \<open>
  The interface of the boot loader: blocks of 512 bytes on a device whose driver transfers native blocks, with a
  limit on what one command moves. \<open>buf\<close> is the memory at the buffer, \<open>pos\<close> the position reached in it.
\<close>

definition native_block_size :: "'d bdev \<Rightarrow> nat" where
  "native_block_size dev = block_size dev div USER_BLOCK_SIZE"

definition max_blkcnt :: "'d bdev \<Rightarrow> nat" where
  "max_blkcnt dev = (if max_blkcnt_per_cmd dev \<noteq> 0 then max_blkcnt_per_cmd dev else 32)"

text \<open>A native read and its status: \<open>None\<close> inside is a failed command.\<close>

definition read_native :: "'d bdev \<Rightarrow> nat \<Rightarrow> nat \<Rightarrow> 'd \<Rightarrow> (u8 list option \<times> 'd) option" where
  "read_native dev block n d =
     do {
       h \<leftarrow> new_read_native dev;
       (st, data, d) \<leftarrow> h block n d;
       if st \<noteq> 0 then Some (None, d)
       else do { data \<leftarrow> mem_read 0 (n * block_size dev) data; Some (Some data, d) }
     }"

definition write_native :: "'d bdev \<Rightarrow> u8 list \<Rightarrow> nat \<Rightarrow> nat \<Rightarrow> 'd \<Rightarrow> (bool \<times> 'd) option" where
  "write_native dev buf block n d =
     do {
       h \<leftarrow> new_write_native dev;
       data \<leftarrow> mem_read 0 (n * block_size dev) buf;
       (st, d) \<leftarrow> h data block n d;
       Some (st = 0, d)
     }"

definition erase_native :: "'d bdev \<Rightarrow> nat \<Rightarrow> nat \<Rightarrow> 'd \<Rightarrow> (bool \<times> 'd) option" where
  "erase_native dev block n d =
     do {
       h \<leftarrow> new_erase_native dev;
       (st, d) \<leftarrow> h block n d;
       Some (st = 0, d)
     }"

text \<open>Reading one native block, changing a part of it and writing it back; whether both commands succeeded.\<close>

definition modify_native :: "'d bdev \<Rightarrow> nat \<Rightarrow> nat \<Rightarrow> u8 list \<Rightarrow> 'd \<Rightarrow> (bool \<times> 'd) option" where
  "modify_native dev block at data d =
     do {
       (r, d) \<leftarrow> read_native dev block 1 d;
       (case r of None \<Rightarrow> Some (False, d)
        | Some temp \<Rightarrow> do { temp \<leftarrow> mem_write at data temp; write_native dev temp block 1 d })
     }"

definition cache_misaligned :: "'d bdev \<Rightarrow> u32 \<Rightarrow> nat \<Rightarrow> bool" where
  "cache_misaligned dev flag addr \<longleftrightarrow> bd_flags dev AND flag \<noteq> 0 \<and> addr mod CACHE_LINE \<noteq> 0"

subsection \<open>Reading\<close>

partial_function (option) new_read_loop ::
  "'d bdev \<Rightarrow> nat \<Rightarrow> u8 list \<Rightarrow> nat \<Rightarrow> nat \<Rightarrow> nat \<Rightarrow> 'd \<Rightarrow> (bool \<times> u8 list \<times> nat \<times> nat \<times> nat \<times> 'd) option" where
  "new_read_loop dev cnt buf pos block block_read d =
     (let n = native_block_size dev; left = cnt - block_read in
      if left \<ge> n then
        (let per_time = left div n * n in
         if per_time = 0 then Some (False, buf, pos, block, block_read, d)
         else let per_time = min per_time (max_blkcnt dev) in
           Option.bind (read_native dev (block div n) (per_time div n) d) (\<lambda>(r, d).
             case r of None \<Rightarrow> Some (False, buf, pos, block, block_read, d)
             | Some data \<Rightarrow> Option.bind (mem_write pos data buf) (\<lambda>buf.
                 new_read_loop dev cnt buf (pos + u32_of (per_time * USER_BLOCK_SIZE)) (u32_of (block + per_time)) (block_read + per_time) d)))
      else Some (True, buf, pos, block, block_read, d))"

definition new_read_first :: "'d bdev \<Rightarrow> u8 list \<Rightarrow> nat \<Rightarrow> nat \<Rightarrow> 'd \<Rightarrow> (bool \<times> u8 list \<times> nat \<times> nat \<times> nat \<times> 'd) option" where
  "new_read_first dev buf start cnt d =
     (let n = native_block_size dev in
      if start mod n \<noteq> 0 \<or> cnt < n then do {
        let block = start div n * n;
        (r, d) \<leftarrow> read_native dev (block div n) 1 d;
        (case r of None \<Rightarrow> Some (False, buf, 0, block, 0, d)
         | Some temp \<Rightarrow> do {
             let p_cnt = min cnt (block + n - start);
             x \<leftarrow> mem_read ((start - block) * USER_BLOCK_SIZE) (p_cnt * USER_BLOCK_SIZE) temp;
             buf \<leftarrow> mem_write 0 x buf;
             Some (True, buf, p_cnt * USER_BLOCK_SIZE, u32_of (block + n), p_cnt, d)
           })
      }
      else Some (True, buf, 0, start, 0, d))"

definition new_read_last :: "'d bdev \<Rightarrow> nat \<Rightarrow> u8 list \<Rightarrow> nat \<Rightarrow> nat \<Rightarrow> nat \<Rightarrow> 'd \<Rightarrow> (nat \<times> u8 list \<times> 'd) option" where
  "new_read_last dev cnt buf pos block block_read d =
     (let n = native_block_size dev in
      if (cnt - block_read) mod n \<noteq> 0 then do {
        (r, d) \<leftarrow> read_native dev (block div n) 1 d;
        (case r of None \<Rightarrow> Some (block_read, buf, d)
         | Some temp \<Rightarrow> do {
             x \<leftarrow> mem_read 0 (u32_of ((cnt - block_read) * USER_BLOCK_SIZE)) temp;
             buf \<leftarrow> mem_write pos x buf;
             Some (cnt, buf, d)
           })
      }
      else Some (block_read, buf, d))"

definition bio_new_read :: "'d bdev \<Rightarrow> nat \<Rightarrow> u8 list \<Rightarrow> nat \<Rightarrow> nat \<Rightarrow> 'd \<Rightarrow> (nat \<times> u8 list \<times> 'd) option" where
  "bio_new_read dev addr buf start cnt d =
     do {
       dassert (native_block_size dev \<noteq> 0);
       if cache_misaligned dev BIO_FLAG_CACHE_ALIGNED_READS addr then Some (0, buf, d)
       else do {
         (ok, buf, pos, block, block_read, d) \<leftarrow> new_read_first dev buf start cnt d;
         if \<not> ok then Some (block_read, buf, d)
         else do {
           (ok, buf, pos, block, block_read, d) \<leftarrow> new_read_loop dev cnt buf pos block block_read d;
           if \<not> ok then Some (block_read, buf, d) else new_read_last dev cnt buf pos block block_read d
         }
       }
     }"

subsection \<open>Writing\<close>

partial_function (option) new_write_loop ::
  "'d bdev \<Rightarrow> nat \<Rightarrow> u8 list \<Rightarrow> nat \<Rightarrow> nat \<Rightarrow> nat \<Rightarrow> 'd \<Rightarrow> (bool \<times> nat \<times> nat \<times> nat \<times> 'd) option" where
  "new_write_loop dev cnt buf pos block block_written d =
     (let n = native_block_size dev; left = cnt - block_written in
      if left \<ge> n then
        (let per_time = left div n * n in
         if per_time = 0 then Some (False, pos, block, block_written, d)
         else let per_time = min per_time (max_blkcnt dev) in
           Option.bind (write_native dev (drop pos buf) (block div n) (per_time div n) d) (\<lambda>(ok, d).
             if \<not> ok then Some (False, pos, block, block_written, d)
             else new_write_loop dev cnt buf (pos + u32_of (per_time * USER_BLOCK_SIZE)) (u32_of (block + per_time)) (block_written + per_time) d))
      else Some (True, pos, block, block_written, d))"

definition new_write_first :: "'d bdev \<Rightarrow> u8 list \<Rightarrow> nat \<Rightarrow> nat \<Rightarrow> 'd \<Rightarrow> (bool \<times> nat \<times> nat \<times> nat \<times> 'd) option" where
  "new_write_first dev buf start cnt d =
     (let n = native_block_size dev in
      if start mod n \<noteq> 0 then do {
        let block = start div n * n;
        let p_cnt = min cnt (block + n - start);
        x \<leftarrow> mem_read 0 (p_cnt * USER_BLOCK_SIZE) buf;
        (ok, d) \<leftarrow> modify_native dev (block div n) ((start - block) * USER_BLOCK_SIZE) x d;
        Some (if ok then (True, p_cnt * USER_BLOCK_SIZE, u32_of (block + n), p_cnt, d) else (False, 0, block, 0, d))
      }
      else Some (True, 0, start, 0, d))"

definition new_write_last :: "'d bdev \<Rightarrow> nat \<Rightarrow> u8 list \<Rightarrow> nat \<Rightarrow> nat \<Rightarrow> nat \<Rightarrow> 'd \<Rightarrow> (nat \<times> 'd) option" where
  "new_write_last dev cnt buf pos block block_written d =
     (let n = native_block_size dev in
      if (cnt - block_written) mod n \<noteq> 0 then do {
        x \<leftarrow> mem_read pos (u32_of ((cnt - block_written) * USER_BLOCK_SIZE)) buf;
        (ok, d) \<leftarrow> modify_native dev (block div n) 0 x d;
        Some (if ok then cnt else block_written, d)
      }
      else Some (block_written, d))"

definition bio_new_write :: "'d bdev \<Rightarrow> nat \<Rightarrow> u8 list \<Rightarrow> nat \<Rightarrow> nat \<Rightarrow> 'd \<Rightarrow> (nat \<times> 'd) option" where
  "bio_new_write dev addr buf start cnt d =
     do {
       dassert (native_block_size dev \<noteq> 0);
       if cache_misaligned dev BIO_FLAG_CACHE_ALIGNED_WRITES addr then Some (0, d)
       else do {
         (ok, pos, block, block_written, d) \<leftarrow> new_write_first dev buf start cnt d;
         if \<not> ok then Some (block_written, d)
         else do {
           (ok, pos, block, block_written, d) \<leftarrow> new_write_loop dev cnt buf pos block block_written d;
           if \<not> ok then Some (block_written, d) else new_write_last dev cnt buf pos block block_written d
         }
       }
     }"

subsection \<open>What a native driver promises\<close>

text \<open>
  \<open>n\<close> user blocks are a native block, the device has \<open>tot\<close> native blocks, the limit of a command is a multiple of a native block
  (as the mmc and ufs drivers set it) below 4 GB, and a command inside the device succeeds and transfers the contents.
\<close>

definition native_driver :: "'d bdev \<Rightarrow> ('d \<Rightarrow> bool) \<Rightarrow> ('d \<Rightarrow> u8 list) \<Rightarrow> nat \<Rightarrow> nat \<Rightarrow> bool" where
  "native_driver dev good cont n tot \<longleftrightarrow>
     0 < n \<and> block_size dev = n * 512 \<and> n dvd max_blkcnt dev \<and> max_blkcnt dev * 512 < 2 ^ 32 \<and> tot * n < 2 ^ 32 \<and>
     (\<forall>d. good d \<longrightarrow> length (cont d) = tot * block_size dev) \<and>
     (\<forall>d b k. good d \<longrightarrow> b + k \<le> tot \<longrightarrow> 0 < k \<longrightarrow>
        (\<exists>d'. read_native dev b k d = Some (Some (seg (b * block_size dev) (k * block_size dev) (cont d)), d') \<and> good d' \<and> cont d' = cont d)) \<and>
     (\<forall>d b k data. good d \<longrightarrow> b + k \<le> tot \<longrightarrow> 0 < k \<longrightarrow> k * block_size dev \<le> length data \<longrightarrow>
        (\<exists>d'. write_native dev data b k d = Some (True, d') \<and> good d' \<and> cont d' = patch (b * block_size dev) (seg 0 (k * block_size dev) data) (cont d)))"

lemma native_sizes:
  assumes "native_driver dev good cont n tot"
  shows "0 < n" "block_size dev = n * 512" "native_block_size dev = n" "n dvd max_blkcnt dev" "n \<le> max_blkcnt dev"
    "max_blkcnt dev * 512 < 2 ^ 32" "tot * n < 2 ^ 32"
proof -
  show s: "0 < n" "block_size dev = n * 512" "n dvd max_blkcnt dev" "max_blkcnt dev * 512 < 2 ^ 32" "tot * n < 2 ^ 32"
    using assms by (simp_all add: native_driver_def)
  show "native_block_size dev = n" using s(2) by (simp add: native_block_size_def USER_BLOCK_SIZE_def)
  have "0 < max_blkcnt dev" by (simp add: max_blkcnt_def)
  then show "n \<le> max_blkcnt dev" by (rule dvd_imp_le [OF s(3)])
qed

lemma native_length: "native_driver dev good cont n tot \<Longrightarrow> good d \<Longrightarrow> length (cont d) = tot * n * 512"
  by (simp add: native_driver_def)

text \<open>A command on the \<open>k\<close> native blocks from user block \<open>b\<close> on.\<close>

lemma native_inside:
  assumes "native_driver dev good cont n tot" and "n dvd b" and "b + k * n \<le> tot * n"
  shows "b div n + k \<le> tot" "b div n * block_size dev = b * 512"
proof -
  note s = native_sizes [OF assms(1)]
  show "b div n * block_size dev = b * 512" using assms(2) s(2) by (auto simp: algebra_simps)
  have "(b div n + k) * n \<le> tot * n" using assms(2,3) by (simp add: add_mult_distrib)
  then show "b div n + k \<le> tot" using s(1) by simp
qed

lemma native_read:
  assumes "native_driver dev good cont n tot" and "good d" and "n dvd b" and "b + k * n \<le> tot * n" and "0 < k"
  obtains d' where "read_native dev (b div n) k d = Some (Some (seg (b * 512) (k * n * 512) (cont d)), d')" and "good d'" and "cont d' = cont d"
proof -
  note i = native_inside [OF assms(1,3,4)] and s = native_sizes [OF assms(1)]
  have "\<exists>d'. read_native dev (b div n) k d = Some (Some (seg (b div n * block_size dev) (k * block_size dev) (cont d)), d') \<and> good d' \<and> cont d' = cont d"
    using assms(1,2,5) i(1) unfolding native_driver_def by blast
  then show ?thesis using that unfolding i(2) unfolding s(2) mult.assoc by blast
qed

lemma native_write:
  assumes "native_driver dev good cont n tot" and "good d" and "n dvd b" and "b + k * n \<le> tot * n" and "0 < k" and "k * n * 512 \<le> length data"
  obtains d' where "write_native dev data (b div n) k d = Some (True, d')" and "good d'"
    and "cont d' = patch (b * 512) (seg 0 (k * n * 512) data) (cont d)"
proof -
  note i = native_inside [OF assms(1,3,4)] and s = native_sizes [OF assms(1)]
  have "k * block_size dev \<le> length data" using assms(6) s(2) by (simp add: mult.assoc)
  then have "\<exists>d'. write_native dev data (b div n) k d = Some (True, d') \<and> good d' \<and> cont d' = patch (b div n * block_size dev) (seg 0 (k * block_size dev) data) (cont d)"
    using assms(1,2,5) i(1) unfolding native_driver_def by blast
  then show ?thesis using that unfolding i(2) unfolding s(2) mult.assoc by blast
qed

lemma native_modify:
  assumes nd: "native_driver dev good cont n tot" and "good d" and "n dvd b" and "b + n \<le> tot * n" and "p + length data \<le> n * 512"
  obtains d' where "modify_native dev (b div n) p data d = Some (True, d')" and "good d'" and "cont d' = patch (b * 512 + p) data (cont d)"
proof -
  have b1: "b + 1 * n \<le> tot * n" using assms(4) by simp
  obtain d1 where d1: "read_native dev (b div n) 1 d = Some (Some (seg (b * 512) (n * 512) (cont d)), d1)" "good d1" "cont d1 = cont d"
    using native_read [OF nd assms(2,3) b1] by auto
  have l: "b * 512 + n * 512 \<le> length (cont d)" using assms(4) native_length [OF nd assms(2)] mult_le_mono1 [OF assms(4), of 512] by (simp add: add_mult_distrib)
  let ?t = "patch p data (seg (b * 512) (n * 512) (cont d))"
  have lt: "length ?t = n * 512" using l assms(5) by simp
  then have "1 * n * 512 \<le> length ?t" by simp
  from native_write [OF nd d1(2) assms(3) b1 _ this] obtain d2 where
    d2: "write_native dev ?t (b div n) 1 d1 = Some (True, d2)" "good d2" "cont d2 = patch (b * 512) (seg 0 (n * 512) ?t) (cont d1)" by auto
  have "modify_native dev (b div n) p data d = Some (True, d2)"
    using d1(1) d2(1) assms(5) l by (simp add: modify_native_def mem_write_def)
  moreover have "cont d2 = patch (b * 512 + p) data (cont d)"
    using d2(3) d1(3) lt patch_part [OF l assms(5)] by simp
  ultimately show ?thesis using that d2(2) by blast
qed

text \<open>The number of native blocks of one command.\<close>

lemma per_time:
  assumes nd: "native_driver dev good cont n tot" and "n \<le> left"
  obtains k where "min (left div n * n) (max_blkcnt dev) = k * n" and "0 < k" and "k \<le> left div n"
    and "left div n * n \<noteq> 0" and "u32_of (k * n * 512) = k * n * 512" and "k * n \<le> left"
proof -
  note s = native_sizes [OF nd]
  obtain m where m: "max_blkcnt dev = m * n" using s(4) by (metis dvd_div_mult_self)
  have q: "0 < left div n" using assms(2) s(1) by (simp add: div_greater_zero_iff)
  have m0: "0 < m" using s(1,5) m by (cases m) auto
  have e: "min (left div n * n) (max_blkcnt dev) = min (left div n) m * n" unfolding m by (simp add: min_def)
  have "min (left div n) m * n \<le> max_blkcnt dev" unfolding m by simp
  then have "min (left div n) m * n * 512 < 2 ^ 32" using s(6) by linarith
  moreover have "min (left div n) m * n \<le> left" by (rule order_trans [of _ "left div n * n"]) simp_all
  ultimately show ?thesis using q m0 s(1) by (intro that [OF e]) (simp_all add: u32_of_def)
qed

lemma div_after: "k \<le> left div n \<Longrightarrow> k * n \<le> left \<Longrightarrow> 0 < n \<Longrightarrow> (left - k * n) div n = left div n - k" for n :: nat
  by (metis div_mult_self1 le_add_diff_inverse2 add_diff_cancel_right' add.commute neq0_conv)

subsection \<open>Reading is exact\<close>

lemma new_read_loop_ok:
  assumes nd: "native_driver dev good cont n tot" and "good d" and "n dvd b" and "b + left \<le> tot * n"
    and "cnt = br + left" and "pos + left * 512 \<le> length buf"
  shows "\<exists>d'. new_read_loop dev cnt buf pos b br d =
      Some (True, patch pos (seg (b * 512) (left div n * n * 512) (cont d)) buf, pos + left div n * n * 512,
        b + left div n * n, br + left div n * n, d') \<and> good d' \<and> cont d' = cont d"
  using assms(2-)
proof (induction left arbitrary: buf pos b br d rule: less_induct)
  case (less left)
  note s = native_sizes [OF nd]
  show ?case
  proof (cases "n \<le> left")
    case False
    then have "new_read_loop dev cnt buf pos b br d = Some (True, buf, pos, b, br, d)"
      using s(3) less.prems(4) by (subst new_read_loop.simps) (simp add: Let_def)
    with False less.prems(1) show ?thesis by simp
  next
    case True
    obtain k where k: "min (left div n * n) (max_blkcnt dev) = k * n" "0 < k" "k \<le> left div n"
        "left div n * n \<noteq> 0" "u32_of (k * n * 512) = k * n * 512" "k * n \<le> left"
      by (rule per_time [OF nd True])
    have bk: "b + k * n \<le> tot * n" using k(6) less.prems(3) by linarith
    obtain d1 where d1: "read_native dev (b div n) k d = Some (Some (seg (b * 512) (k * n * 512) (cont d)), d1)" "good d1" "cont d1 = cont d"
      by (rule native_read [OF nd less.prems(1,2) bk k(2)])
    let ?x = "seg (b * 512) (k * n * 512) (cont d)" let ?l = "left - k * n"
    have lx: "length ?x = k * n * 512"
      using mult_le_mono1 [OF bk, of 512] native_length [OF nd less.prems(1)] by (intro length_seg) (simp add: add_mult_distrib)
    have kl: "k * n * 512 + ?l * 512 = left * 512" using k(6) by simp
    have w: "mem_write pos ?x buf = Some (patch pos ?x buf)" using lx kl less.prems(5) by (intro mem_write_ok) linarith
    have u: "u32_of (b + k * n) = b + k * n" using bk s(7) by (simp add: u32_of_def)
    have kn: "k * n div n = k" using s(1) by simp
    have step: "new_read_loop dev cnt buf pos b br d = new_read_loop dev cnt (patch pos ?x buf) (pos + k * n * 512) (b + k * n) (br + k * n) d1"
      using True s(3) less.prems(4) k(1,4,5) d1(1) w u kn by (subst new_read_loop.simps) (simp add: Let_def USER_BLOCK_SIZE_def)
    have "?l < left" using k(2) s(1) True by simp
    from less.IH [OF this d1(2), of "b + k * n" "br + k * n" "pos + k * n * 512" "patch pos ?x buf"] obtain d' where
      ih: "new_read_loop dev cnt (patch pos ?x buf) (pos + k * n * 512) (b + k * n) (br + k * n) d1 =
        Some (True, patch (pos + k * n * 512) (seg ((b + k * n) * 512) (?l div n * n * 512) (cont d1)) (patch pos ?x buf),
          pos + k * n * 512 + ?l div n * n * 512, b + k * n + ?l div n * n, br + k * n + ?l div n * n, d')" "good d'" "cont d' = cont d1"
      using less.prems k(6) kl lx by auto
    have q: "k * n + ?l div n * n = left div n * n"
      unfolding div_after [OF k(3,6) s(1)] using k(3) by (simp flip: add_mult_distrib)
    then have q5: "k * n * 512 + ?l div n * n * 512 = left div n * n * 512" by (metis add_mult_distrib)
    have ql: "?l div n * n * 512 \<le> ?l * 512" by simp
    have len: "b * 512 + k * n * 512 + ?l div n * n * 512 \<le> length (cont d)"
      using mult_le_mono1 [OF less.prems(3), of 512] native_length [OF nd less.prems(1)] kl ql unfolding add_mult_distrib by linarith
    have p: "patch (pos + k * n * 512) (seg ((b + k * n) * 512) (?l div n * n * 512) (cont d)) (patch pos ?x buf) =
        patch pos (seg (b * 512) (left div n * n * 512) (cont d)) buf"
      using patch_seg_next [OF len, of pos buf] kl ql less.prems(5) unfolding q5 add_mult_distrib by linarith
    have e: "pos + k * n * 512 + ?l div n * n * 512 = pos + left div n * n * 512" "b + k * n + ?l div n * n = b + left div n * n"
      "br + k * n + ?l div n * n = br + left div n * n" using q q5 by linarith+
    show ?thesis unfolding step ih(1) d1(3) p e using ih(2,3) d1(3) by auto
  qed
qed

text \<open>Where the first part of a transfer ends.\<close>

lemma first_part:
  assumes nd: "native_driver dev good cont n tot" and "start + cnt \<le> tot * n" and "0 < cnt"
  defines "b \<equiv> start div n * n" and "p \<equiv> min cnt (start div n * n + n - start)"
  shows "n dvd b" "b + n \<le> tot * n" "b \<le> start" "(start - b) * 512 + p * 512 \<le> n * 512" "u32_of (b + n) = b + n" "b div n = start div n"
    "p \<le> cnt" "b + n + (cnt - p) \<le> tot * n" "p < cnt \<longrightarrow> b + n = start + p" "b * 512 + (start - b) * 512 = start * 512"
proof -
  note s = native_sizes [OF nd]
  show "n dvd b" "b div n = start div n" using s(1) by (simp_all add: b_def)
  have m: "b + start mod n = start" "start mod n < n" using s(1) by (simp_all add: b_def)
  show bs: "b \<le> start" using m by simp
  have "b < tot * n" using m(1) assms(2,3) by linarith
  then have "start div n < tot" unfolding b_def using s(1) by simp
  then have "(start div n + 1) * n \<le> tot * n" by (intro mult_le_mono1) simp
  then show bn: "b + n \<le> tot * n" by (simp add: b_def)
  then show "u32_of (b + n) = b + n" using s(7) by (simp add: u32_of_def)
  have pd: "p = min cnt (b + n - start)" by (simp add: p_def b_def)
  show "p \<le> cnt" by (simp add: pd)
  show "p < cnt \<longrightarrow> b + n = start + p" using m by (auto simp: pd min_def)
  show "b + n + (cnt - p) \<le> tot * n" using m bn assms(2) by (auto simp: pd min_def)
  show "(start - b) * 512 + p * 512 \<le> n * 512" using m by (auto simp: pd min_def)
  show "b * 512 + (start - b) * 512 = start * 512" using bs by simp
qed

lemma new_read_first_ok:
  assumes nd: "native_driver dev good cont n tot" and "good d" and "start + cnt \<le> tot * n" and "0 < cnt" and "cnt * 512 \<le> length buf"
  obtains b br d' where "new_read_first dev buf start cnt d =
      Some (True, patch 0 (seg (start * 512) (br * 512) (cont d)) buf, br * 512, b, br, d')" and "good d'" and "cont d' = cont d"
    and "br \<le> cnt" and "n dvd b" and "b + (cnt - br) \<le> tot * n" and "br < cnt \<longrightarrow> b = start + br"
proof (cases "start mod n \<noteq> 0 \<or> cnt < n")
  case False
  then have "new_read_first dev buf start cnt d = Some (True, buf, 0, start, 0, d)"
    using native_sizes(3) [OF nd] by (simp add: new_read_first_def Let_def)
  then show ?thesis by (intro that [of 0 start d]) (use False assms in auto)
next
  case True
  note f = first_part [OF nd assms(3,4)]
  let ?b = "start div n * n" let ?p = "min cnt (?b + n - start)"
  have b1: "?b + 1 * n \<le> tot * n" using f(2) by simp
  obtain d' where d': "read_native dev (start div n) 1 d = Some (Some (seg (?b * 512) (n * 512) (cont d)), d')" "good d'" "cont d' = cont d"
    using native_read [OF nd assms(2) f(1) b1] f(6) by auto
  have l: "?b * 512 + n * 512 \<le> length (cont d)"
    using mult_le_mono1 [OF f(2), of 512] native_length [OF nd assms(2)] by (simp add: add_mult_distrib)
  have x: "mem_read ((start - ?b) * 512) (?p * 512) (seg (?b * 512) (n * 512) (cont d)) = Some (seg (start * 512) (?p * 512) (cont d))"
    using f(4) l seg_seg [OF f(4), of "?b * 512" "cont d"] unfolding f(10) by (simp add: mem_read_def)
  have "length (seg (start * 512) (?p * 512) (cont d)) = ?p * 512" using f(4,10) l by (intro length_seg) linarith
  then have w: "mem_write 0 (seg (start * 512) (?p * 512) (cont d)) buf = Some (patch 0 (seg (start * 512) (?p * 512) (cont d)) buf)"
    using assms(5) mult_le_mono1 [OF f(7), of 512] by (intro mem_write_ok) linarith
  have "new_read_first dev buf start cnt d = Some (True, patch 0 (seg (start * 512) (?p * 512) (cont d)) buf, ?p * 512, ?b + n, ?p, d')"
    unfolding new_read_first_def native_sizes(3) [OF nd] Let_def USER_BLOCK_SIZE_def if_P [OF True] f(6) d'(1) bind.bind_lunit split option.case x w f(5) by simp
  from that [OF this d'(2,3) f(7) _ f(8) f(9)] f(1) show ?thesis by simp
qed

lemma next_native_inside:
  assumes nd: "native_driver dev good cont n tot" and "n dvd b" and "b + left \<le> tot * n" and "0 < left"
  shows "b + n \<le> tot * n"
proof -
  obtain c where c: "b = c * n" using assms(2) by (metis dvd_div_mult_self)
  then have "c < tot" using assms(3,4) native_sizes(1) [OF nd] by (metis add_gr_0 le_less_trans less_add_same_cancel1 mult_less_cancel2 order_less_le_trans)
  then have "(c + 1) * n \<le> tot * n" by (intro mult_le_mono1) simp
  then show ?thesis by (simp add: c)
qed

lemma new_read_last_ok:
  assumes nd: "native_driver dev good cont n tot" and "good d" and "n dvd b" and "b + left \<le> tot * n" and "left < n"
    and "cnt = br + left" and "pos + left * 512 \<le> length buf"
  obtains d' where "new_read_last dev cnt buf pos b br d = Some (cnt, patch pos (seg (b * 512) (left * 512) (cont d)) buf, d')"
    and "good d'" and "cont d' = cont d"
proof (cases "left = 0")
  case True
  then show ?thesis using assms(2,6) by (intro that [of d]) (simp_all add: new_read_last_def)
next
  case False
  note s = native_sizes [OF nd]
  have b1: "b + 1 * n \<le> tot * n" using next_native_inside [OF nd assms(3,4)] False by simp
  obtain d' where d': "read_native dev (b div n) 1 d = Some (Some (seg (b * 512) (n * 512) (cont d)), d')" "good d'" "cont d' = cont d"
    using native_read [OF nd assms(2,3) b1] by auto
  have l: "b * 512 + n * 512 \<le> length (cont d)"
    using mult_le_mono1 [OF b1, of 512] native_length [OF nd assms(2)] by (simp add: add_mult_distrib)
  have n5: "n * 512 < 2 ^ 32" using s(5,6) by linarith
  then have u: "u32_of (left * 512) = left * 512" using assms(5) by (simp add: u32_of_def)
  have le: "0 + left * 512 \<le> n * 512" using assms(5) by simp
  have x: "mem_read 0 (left * 512) (seg (b * 512) (n * 512) (cont d)) = Some (seg (b * 512) (left * 512) (cont d))"
    using le l seg_seg [OF le, of "b * 512" "cont d"] by (simp add: mem_read_def)
  have lx: "length (seg (b * 512) (left * 512) (cont d)) = left * 512" using le l by (intro length_seg) linarith
  have "new_read_last dev cnt buf pos b br d = Some (cnt, patch pos (seg (b * 512) (left * 512) (cont d)) buf, d')"
    using False assms(5-7) s(3) d'(1) u x lx by (simp add: new_read_last_def USER_BLOCK_SIZE_def mem_write_def)
  with that d'(2,3) show ?thesis by blast
qed

lemma new_read_exact:
  assumes nd: "native_driver dev good cont n tot" and "good d" and "start + cnt \<le> tot * n" and "0 < cnt" and "cnt * 512 \<le> length buf"
    and "\<not> cache_misaligned dev BIO_FLAG_CACHE_ALIGNED_READS addr"
  shows "\<exists>d'. bio_new_read dev addr buf start cnt d = Some (cnt, patch 0 (seg (start * 512) (cnt * 512) (cont d)) buf, d') \<and>
    good d' \<and> cont d' = cont d"
proof -
  note s = native_sizes [OF nd]
  obtain b br d1 where f: "new_read_first dev buf start cnt d =
      Some (True, patch 0 (seg (start * 512) (br * 512) (cont d)) buf, br * 512, b, br, d1)" "good d1" "cont d1 = cont d"
      "br \<le> cnt" "n dvd b" "b + (cnt - br) \<le> tot * n" "br < cnt \<longrightarrow> b = start + br"
    by (rule new_read_first_ok [OF assms(1-5)])
  let ?l = "cnt - br" let ?q = "?l div n * n" let ?c = "cont d"
  let ?buf1 = "patch 0 (seg (start * 512) (br * 512) ?c) buf"
  have lc: "length ?c = tot * n * 512" by (rule native_length [OF nd assms(2)])
  have len: "start * 512 + cnt * 512 \<le> length ?c" using mult_le_mono1 [OF assms(3), of 512] lc by (simp add: add_mult_distrib)
  have brl: "br * 512 + ?l * 512 = cnt * 512" using f(4) by simp
  have l1: "length (seg (start * 512) (br * 512) ?c) = br * 512" using len brl by (intro length_seg) linarith
  have lb1: "length ?buf1 = length buf" using l1 brl assms(5) by (intro length_patch) linarith
  have p1: "br * 512 + ?l * 512 \<le> length ?buf1" using brl assms(5) lb1 by linarith
  have q: "?q + ?l mod n = ?l" "?q * 512 + ?l mod n * 512 = ?l * 512" by (simp, simp flip: add_mult_distrib)
  have cb: "cnt = br + ?l" using f(4) by simp
  from new_read_loop_ok [OF nd f(2,5,6) cb p1] obtain d2 where
    m: "new_read_loop dev cnt ?buf1 (br * 512) b br d1 =
      Some (True, patch (br * 512) (seg (b * 512) (?q * 512) ?c) ?buf1, br * 512 + ?q * 512, b + ?q, br + ?q, d2)" "good d2" "cont d2 = ?c"
    unfolding f(3) by auto
  let ?buf2 = "patch (br * 512) (seg (b * 512) (?q * 512) ?c) ?buf1"
  have bl: "b * 512 + ?l * 512 \<le> length ?c" using mult_le_mono1 [OF f(6), of 512] lc by (simp add: add_mult_distrib)
  have l2: "length (seg (b * 512) (?q * 512) ?c) = ?q * 512" using bl q(2) by (intro length_seg) linarith
  have lb2: "length ?buf2 = length buf" unfolding lb1 [symmetric] using l2 p1 q(2) by (intro length_patch) linarith
  have dvd: "n dvd b + ?q" using f(5) by simp
  have b2: "b + ?q + ?l mod n \<le> tot * n" using f(6) q(1) by linarith
  have lt: "?l mod n < n" using s(1) by simp
  have c2: "cnt = br + ?q + ?l mod n" using q(1) f(4) by linarith
  have p2: "br * 512 + ?q * 512 + ?l mod n * 512 \<le> length ?buf2" using lb2 brl q(2) assms(5) by linarith
  obtain d3 where t: "new_read_last dev cnt ?buf2 (br * 512 + ?q * 512) (b + ?q) (br + ?q) d2 =
      Some (cnt, patch (br * 512 + ?q * 512) (seg ((b + ?q) * 512) (?l mod n * 512) (cont d2)) ?buf2, d3)" "good d3" "cont d3 = cont d2"
    by (rule new_read_last_ok [OF nd m(2) dvd b2 lt c2 p2])
  have j1: "patch (br * 512 + ?q * 512) (seg ((b + ?q) * 512) (?l mod n * 512) ?c) ?buf2 = patch (br * 512) (seg (b * 512) (?l * 512) ?c) ?buf1"
  proof -
    have "b * 512 + ?q * 512 + ?l mod n * 512 \<le> length ?c" "br * 512 + ?q * 512 + ?l mod n * 512 \<le> length ?buf1"
      using bl p1 q(2) by linarith+
    from patch_seg_next [OF this] show ?thesis unfolding q(2) add_mult_distrib .
  qed
  have j2: "patch (br * 512) (seg (b * 512) (?l * 512) ?c) ?buf1 = patch 0 (seg (start * 512) (cnt * 512) ?c) buf"
  proof (cases "br < cnt")
    case True
    then have bs: "b * 512 = start * 512 + br * 512" using f(7) by (simp add: add_mult_distrib)
    have "start * 512 + br * 512 + ?l * 512 \<le> length ?c" "0 + br * 512 + ?l * 512 \<le> length buf"
      using len brl assms(5) by linarith+
    from patch_seg_next [OF this] show ?thesis unfolding bs brl by simp
  next
    case False
    then have "br = cnt" using f(4) by simp
    then show ?thesis by simp
  qed
  have "bio_new_read dev addr buf start cnt d = Some (cnt, patch 0 (seg (start * 512) (cnt * 512) ?c) buf, d3)"
    unfolding bio_new_read_def using s(1,3) assms(6) f(1) m(1) t(1) m(3) j1 j2 by simp
  with t(2,3) m(3) show ?thesis by simp
qed

subsection \<open>Writing is exact\<close>

lemma seg_drop: "seg 0 k (drop p buf) = seg p k buf"
  by (simp add: seg_def)

lemma new_write_loop_ok:
  assumes nd: "native_driver dev good cont n tot" and "good d" and "n dvd b" and "b + left \<le> tot * n"
    and "cnt = bw + left" and "pos + left * 512 \<le> length buf"
  shows "\<exists>d'. new_write_loop dev cnt buf pos b bw d =
      Some (True, pos + left div n * n * 512, b + left div n * n, bw + left div n * n, d') \<and> good d' \<and>
      cont d' = patch (b * 512) (seg pos (left div n * n * 512) buf) (cont d)"
  using assms(2-)
proof (induction left arbitrary: pos b bw d rule: less_induct)
  case (less left)
  note s = native_sizes [OF nd]
  show ?case
  proof (cases "n \<le> left")
    case False
    then have "new_write_loop dev cnt buf pos b bw d = Some (True, pos, b, bw, d)"
      using s(3) less.prems(4) by (subst new_write_loop.simps) (simp add: Let_def)
    with False less.prems(1) show ?thesis by simp
  next
    case True
    obtain k where k: "min (left div n * n) (max_blkcnt dev) = k * n" "0 < k" "k \<le> left div n"
        "left div n * n \<noteq> 0" "u32_of (k * n * 512) = k * n * 512" "k * n \<le> left"
      by (rule per_time [OF nd True])
    have bk: "b + k * n \<le> tot * n" using k(6) less.prems(3) by linarith
    let ?l = "left - k * n"
    have kl: "k * n * 512 + ?l * 512 = left * 512" using k(6) by simp
    have "k * n * 512 \<le> length (drop pos buf)" using kl less.prems(5) by simp
    from native_write [OF nd less.prems(1,2) bk k(2) this] obtain d1 where
      d1: "write_native dev (drop pos buf) (b div n) k d = Some (True, d1)" "good d1" "cont d1 = patch (b * 512) (seg pos (k * n * 512) buf) (cont d)"
      unfolding seg_drop by blast
    have u: "u32_of (b + k * n) = b + k * n" using bk s(7) by (simp add: u32_of_def)
    have kn: "k * n div n = k" using s(1) by simp
    have step: "new_write_loop dev cnt buf pos b bw d = new_write_loop dev cnt buf (pos + k * n * 512) (b + k * n) (bw + k * n) d1"
      using True s(3) less.prems(4) k(1,4,5) d1(1) u kn by (subst new_write_loop.simps) (simp add: Let_def USER_BLOCK_SIZE_def)
    have "?l < left" using k(2) s(1) True by simp
    from less.IH [OF this d1(2), of "b + k * n" "bw + k * n" "pos + k * n * 512"] obtain d' where
      ih: "new_write_loop dev cnt buf (pos + k * n * 512) (b + k * n) (bw + k * n) d1 =
        Some (True, pos + k * n * 512 + ?l div n * n * 512, b + k * n + ?l div n * n, bw + k * n + ?l div n * n, d')" "good d'"
        "cont d' = patch ((b + k * n) * 512) (seg (pos + k * n * 512) (?l div n * n * 512) buf) (cont d1)"
      using less.prems k(6) kl by auto
    have q: "k * n + ?l div n * n = left div n * n"
      unfolding div_after [OF k(3,6) s(1)] using k(3) by (simp flip: add_mult_distrib)
    then have q5: "k * n * 512 + ?l div n * n * 512 = left div n * n * 512" by (metis add_mult_distrib)
    have ql: "?l div n * n * 512 \<le> ?l * 512" by simp
    have "b * 512 + k * n * 512 + ?l div n * n * 512 \<le> length (cont d)" "pos + k * n * 512 + ?l div n * n * 512 \<le> length buf"
      using mult_le_mono1 [OF less.prems(3), of 512] native_length [OF nd less.prems(1)] less.prems(5) kl ql unfolding add_mult_distrib by linarith+
    from patch_seg_next [OF this(2,1)] have p: "cont d' = patch (b * 512) (seg pos (left div n * n * 512) buf) (cont d)"
      unfolding ih(3) d1(3) q5 add_mult_distrib .
    have e: "pos + k * n * 512 + ?l div n * n * 512 = pos + left div n * n * 512" "b + k * n + ?l div n * n = b + left div n * n"
      "bw + k * n + ?l div n * n = bw + left div n * n" using q q5 by linarith+
    show ?thesis unfolding step ih(1) e using ih(2) p by auto
  qed
qed

lemma new_write_first_ok:
  assumes nd: "native_driver dev good cont n tot" and "good d" and "start + cnt \<le> tot * n" and "0 < cnt" and "cnt * 512 \<le> length buf"
  obtains b bw d' where "new_write_first dev buf start cnt d = Some (True, bw * 512, b, bw, d')" and "good d'"
    and "cont d' = patch (start * 512) (seg 0 (bw * 512) buf) (cont d)"
    and "bw \<le> cnt" and "n dvd b" and "b + (cnt - bw) \<le> tot * n" and "bw < cnt \<longrightarrow> b = start + bw"
proof (cases "start mod n \<noteq> 0")
  case False
  then have "new_write_first dev buf start cnt d = Some (True, 0, start, 0, d)"
    using native_sizes(3) [OF nd] by (simp add: new_write_first_def Let_def)
  then show ?thesis by (intro that [of 0 start d]) (use False assms in auto)
next
  case True
  note f = first_part [OF nd assms(3,4)]
  let ?b = "start div n * n" let ?p = "min cnt (?b + n - start)"
  have lx: "length (seg 0 (?p * 512) buf) = ?p * 512" using assms(5) mult_le_mono1 [OF f(7), of 512] by (intro length_seg) linarith
  have "(start - ?b) * 512 + length (seg 0 (?p * 512) buf) \<le> n * 512" using f(4) lx by linarith
  from native_modify [OF nd assms(2) f(1,2) this] obtain d' where
    d': "modify_native dev (start div n) ((start - ?b) * 512) (seg 0 (?p * 512) buf) d = Some (True, d')" "good d'"
      "cont d' = patch (start * 512) (seg 0 (?p * 512) buf) (cont d)"
    unfolding f(6,10) by blast
  have x: "mem_read 0 (?p * 512) buf = Some (seg 0 (?p * 512) buf)"
    using assms(5) mult_le_mono1 [OF f(7), of 512] by (intro mem_read_ok) linarith
  have "new_write_first dev buf start cnt d = Some (True, ?p * 512, ?b + n, ?p, d')"
    unfolding new_write_first_def native_sizes(3) [OF nd] Let_def USER_BLOCK_SIZE_def if_P [OF True] f(6) x bind.bind_lunit d'(1) split f(5) by simp
  from that [OF this d'(2,3) f(7) _ f(8) f(9)] f(1) show ?thesis by simp
qed

lemma new_write_last_ok:
  assumes nd: "native_driver dev good cont n tot" and "good d" and "n dvd b" and "b + left \<le> tot * n" and "left < n"
    and "cnt = bw + left" and "pos + left * 512 \<le> length buf"
  obtains d' where "new_write_last dev cnt buf pos b bw d = Some (cnt, d')"
    and "good d'" and "cont d' = patch (b * 512) (seg pos (left * 512) buf) (cont d)"
proof (cases "left = 0")
  case True
  then show ?thesis using assms(2,6) by (intro that [of d]) (simp_all add: new_write_last_def)
next
  case False
  note s = native_sizes [OF nd]
  have b1: "b + n \<le> tot * n" using next_native_inside [OF nd assms(3,4)] False by simp
  have n5: "n * 512 < 2 ^ 32" using s(5,6) by linarith
  then have u: "u32_of (left * 512) = left * 512" using assms(5) by (simp add: u32_of_def)
  have "0 + length (seg pos (left * 512) buf) \<le> n * 512" using assms(5,7) by simp
  from native_modify [OF nd assms(2,3) b1 this] obtain d' where
    d': "modify_native dev (b div n) 0 (seg pos (left * 512) buf) d = Some (True, d')" "good d'"
      "cont d' = patch (b * 512) (seg pos (left * 512) buf) (cont d)" by auto
  have "new_write_last dev cnt buf pos b bw d = Some (cnt, d')"
    using False assms(5-7) s(3) d'(1) u by (simp add: new_write_last_def USER_BLOCK_SIZE_def mem_read_def)
  with that d'(2,3) show ?thesis by blast
qed

lemma new_write_exact:
  assumes nd: "native_driver dev good cont n tot" and "good d" and "start + cnt \<le> tot * n" and "0 < cnt" and "cnt * 512 \<le> length buf"
    and "\<not> cache_misaligned dev BIO_FLAG_CACHE_ALIGNED_WRITES addr"
  shows "\<exists>d'. bio_new_write dev addr buf start cnt d = Some (cnt, d') \<and> good d' \<and>
    cont d' = patch (start * 512) (seg 0 (cnt * 512) buf) (cont d)"
proof -
  note s = native_sizes [OF nd]
  obtain b bw d1 where f: "new_write_first dev buf start cnt d = Some (True, bw * 512, b, bw, d1)" "good d1"
      "cont d1 = patch (start * 512) (seg 0 (bw * 512) buf) (cont d)"
      "bw \<le> cnt" "n dvd b" "b + (cnt - bw) \<le> tot * n" "bw < cnt \<longrightarrow> b = start + bw"
    by (rule new_write_first_ok [OF assms(1-5)])
  let ?l = "cnt - bw" let ?q = "?l div n * n"
  have lc: "length (cont d) = tot * n * 512" "length (cont d1) = tot * n * 512" by (rule native_length [OF nd assms(2)], rule native_length [OF nd f(2)])
  have bwl: "bw * 512 + ?l * 512 = cnt * 512" using f(4) by simp
  have p1: "bw * 512 + ?l * 512 \<le> length buf" using bwl assms(5) by linarith
  have q: "?q + ?l mod n = ?l" "?q * 512 + ?l mod n * 512 = ?l * 512" by (simp, simp flip: add_mult_distrib)
  have cb: "cnt = bw + ?l" using f(4) by simp
  from new_write_loop_ok [OF nd f(2,5,6) cb p1] obtain d2 where
    m: "new_write_loop dev cnt buf (bw * 512) b bw d1 = Some (True, bw * 512 + ?q * 512, b + ?q, bw + ?q, d2)" "good d2"
      "cont d2 = patch (b * 512) (seg (bw * 512) (?q * 512) buf) (cont d1)" by blast
  have dvd: "n dvd b + ?q" using f(5) by simp
  have b2: "b + ?q + ?l mod n \<le> tot * n" using f(6) q(1) by linarith
  have lt: "?l mod n < n" using s(1) by simp
  have c2: "cnt = bw + ?q + ?l mod n" using q(1) f(4) by linarith
  have p2: "bw * 512 + ?q * 512 + ?l mod n * 512 \<le> length buf" using p1 q(2) by linarith
  obtain d3 where t: "new_write_last dev cnt buf (bw * 512 + ?q * 512) (b + ?q) (bw + ?q) d2 = Some (cnt, d3)" "good d3"
      "cont d3 = patch ((b + ?q) * 512) (seg (bw * 512 + ?q * 512) (?l mod n * 512) buf) (cont d2)"
    by (rule new_write_last_ok [OF nd m(2) dvd b2 lt c2 p2])
  have bl: "b * 512 + ?q * 512 + ?l mod n * 512 \<le> length (cont d1)"
    using mult_le_mono1 [OF f(6), of 512] lc q(2) unfolding add_mult_distrib by linarith
  from patch_seg_next [OF p2 bl] have j1: "cont d3 = patch (b * 512) (seg (bw * 512) (?l * 512) buf) (cont d1)"
    unfolding t(3) m(3) q(2) add_mult_distrib .
  have j2: "cont d3 = patch (start * 512) (seg 0 (cnt * 512) buf) (cont d)"
  proof (cases "bw < cnt")
    case True
    then have bs: "b * 512 = start * 512 + bw * 512" using f(7) by (simp add: add_mult_distrib)
    have "0 + bw * 512 + ?l * 512 \<le> length buf" "start * 512 + bw * 512 + ?l * 512 \<le> length (cont d)"
      using mult_le_mono1 [OF assms(3), of 512] lc bwl assms(5) unfolding add_mult_distrib by linarith+
    from patch_seg_next [OF this] show ?thesis unfolding j1 f(3) bs bwl by simp
  next
    case False
    then have "bw = cnt" using f(4) by simp
    then show ?thesis using j1 f(3) by simp
  qed
  have "bio_new_write dev addr buf start cnt d = Some (cnt, d3)"
    unfolding bio_new_write_def using s(1,3) assms(6) f(1) m(1) t(1) by simp
  with t(2) j2 show ?thesis by blast
qed

subsection \<open>Erasing\<close>

text \<open>Native blocks of zeros one by one, without a look at the status of the commands.\<close>

partial_function (option) new_erase_loop ::
  "'d bdev \<Rightarrow> (nat \<Rightarrow> bool) \<Rightarrow> nat \<Rightarrow> nat \<Rightarrow> nat \<Rightarrow> 'd \<Rightarrow> (nat \<times> nat \<times> 'd) option" where
  "new_erase_loop dev going cnt block block_erased d =
     (let n = native_block_size dev in
      if going block \<and> u32_of (block_erased + n) \<le> cnt then
        Option.bind (write_native dev (replicate (block_size dev) 0) (block div n) 1 d) (\<lambda>(_, d).
          new_erase_loop dev going cnt (u32_of (block + n)) (u32_of (block_erased + n)) d)
      else Some (block, block_erased, d))"

definition new_erase_first :: "'d bdev \<Rightarrow> nat \<Rightarrow> nat \<Rightarrow> 'd \<Rightarrow> (bool \<times> nat \<times> nat \<times> 'd) option" where
  "new_erase_first dev start cnt d =
     (let n = native_block_size dev in
      if start mod n \<noteq> 0 then do {
        let block = start div n * n;
        let p_cnt = min cnt (block + n - start);
        (ok, d) \<leftarrow> modify_native dev (block div n) ((start - block) * USER_BLOCK_SIZE) (replicate (p_cnt * USER_BLOCK_SIZE) 0) d;
        Some (if ok then (True, u32_of (block + n), p_cnt, d) else (False, block, 0, d))
      }
      else Some (True, start, 0, d))"

definition new_erase_unit :: "'d bdev \<Rightarrow> nat" where
  "new_erase_unit dev =
     (let n = native_block_size dev in
      if erase_size dev \<noteq> 0 \<and> erase_size dev > n \<and> erase_size dev mod n = 0 then erase_size dev else n)"

definition new_erase_last :: "'d bdev \<Rightarrow> nat \<Rightarrow> nat \<Rightarrow> nat \<Rightarrow> 'd \<Rightarrow> (nat \<times> 'd) option" where
  "new_erase_last dev cnt block block_erased d =
     (let n = native_block_size dev in
      if (cnt - block_erased) mod n \<noteq> 0 then do {
        (ok, d) \<leftarrow> modify_native dev (block div n) 0 (replicate (u32_of ((cnt - block_erased) * USER_BLOCK_SIZE)) 0) d;
        Some (if ok then cnt else block_erased, d)
      }
      else Some (block_erased, d))"

definition bio_new_erase :: "'d bdev \<Rightarrow> nat \<Rightarrow> nat \<Rightarrow> 'd \<Rightarrow> (nat \<times> 'd) option" where
  "bio_new_erase dev start cnt d =
     do {
       dassert (native_block_size dev \<noteq> 0);
       let unit = new_erase_unit dev;
       (ok, block, block_erased, d) \<leftarrow> new_erase_first dev start cnt d;
       if \<not> ok then Some (block_erased, d)
       else do {
         (block, block_erased, d) \<leftarrow> new_erase_loop dev (\<lambda>b. b mod unit \<noteq> 0) cnt block block_erased d;
         let per_time = (cnt - block_erased) div unit * unit;
         (ok, block, block_erased, d) \<leftarrow>
           (if per_time \<noteq> 0 then do {
              (ok, d) \<leftarrow> erase_native dev (block div native_block_size dev) (per_time div native_block_size dev) d;
              Some (if ok then (True, u32_of (block + per_time), block_erased + per_time, d) else (False, block, block_erased, d))
            }
            else Some (True, block, block_erased, d));
         if \<not> ok \<or> u32_of (start + cnt) = block then Some (block_erased, d)
         else do {
           (block, block_erased, d) \<leftarrow> new_erase_loop dev (\<lambda>_. True) cnt block block_erased d;
           new_erase_last dev cnt block block_erased d
         }
       }
     }"

section \<open>Bytes on native blocks\<close>

text \<open>
  The variants that count bytes. They count down the user blocks that are left (\<open>left\<close>) and the bytes
  (\<open>rest\<close>), both at 32 bits, and the transfer of the last native block takes one off the number left, whatever it is.
\<close>

definition BYTE_TO_BLOCK :: "nat \<Rightarrow> nat" where
  "BYTE_TO_BLOCK x = u32_of ((x + 2 ^ 32 - 1) mod 2 ^ 32 div 512 + 1)"

definition sub32 :: "nat \<Rightarrow> nat \<Rightarrow> nat" where
  "sub32 a b = (a + (2 ^ 32 - b mod 2 ^ 32)) mod 2 ^ 32"

definition byte_per_time :: "'d bdev \<Rightarrow> nat \<Rightarrow> nat" where
  "byte_per_time dev left = (let n = native_block_size dev in (if left > max_blkcnt dev then max_blkcnt dev else left) div n * n)"

definition new_byte_read_first :: "'d bdev \<Rightarrow> u8 list \<Rightarrow> nat \<Rightarrow> nat \<Rightarrow> 'd \<Rightarrow> (bool \<times> u8 list \<times> nat \<times> nat \<times> nat \<times> nat \<times> 'd) option" where
  "new_byte_read_first dev buf start sz d =
     (let n = native_block_size dev; cnt = BYTE_TO_BLOCK sz in
      if start mod n \<noteq> 0 \<or> cnt < n then do {
        let block = start div n * n;
        (r, d) \<leftarrow> read_native dev (block div n) 1 d;
        (case r of None \<Rightarrow> Some (False, buf, 0, block, cnt, sz, d)
         | Some temp \<Rightarrow> do {
             let p_cnt = min cnt (block + n - start);
             let byte_size = min sz (p_cnt * USER_BLOCK_SIZE);
             x \<leftarrow> mem_read ((start - block) * USER_BLOCK_SIZE) byte_size temp;
             buf \<leftarrow> mem_write 0 x buf;
             Some (True, buf, byte_size, u32_of (start + p_cnt), sub32 cnt p_cnt, sub32 sz byte_size, d)
           })
      }
      else Some (True, buf, 0, start, cnt, sz, d))"

partial_function (option) new_byte_read_loop ::
  "'d bdev \<Rightarrow> u8 list \<Rightarrow> nat \<Rightarrow> nat \<Rightarrow> nat \<Rightarrow> nat \<Rightarrow> 'd \<Rightarrow> (bool \<times> u8 list \<times> nat \<times> nat \<times> nat \<times> nat \<times> 'd) option" where
  "new_byte_read_loop dev buf pos block left rest d =
     (let n = native_block_size dev in
      if left \<ge> n then
        (let per_time = byte_per_time dev left in
         Option.bind (read_native dev (block div n) (per_time div n) d) (\<lambda>(r, d).
           case r of None \<Rightarrow> Some (False, buf, pos, block, left, rest, d)
           | Some data \<Rightarrow> Option.bind (mem_write pos data buf) (\<lambda>buf.
               new_byte_read_loop dev buf (pos + u32_of (per_time * USER_BLOCK_SIZE)) (u32_of (block + per_time)) (sub32 left per_time)
                 (sub32 rest (per_time * USER_BLOCK_SIZE)) d)))
      else Some (True, buf, pos, block, left, rest, d))"

definition bio_new_byte_read :: "'d bdev \<Rightarrow> nat \<Rightarrow> u8 list \<Rightarrow> nat \<Rightarrow> nat \<Rightarrow> 'd \<Rightarrow> (nat \<times> u8 list \<times> 'd) option" where
  "bio_new_byte_read dev addr buf start sz d =
     do {
       dassert (native_block_size dev \<noteq> 0);
       let cnt = BYTE_TO_BLOCK sz;
       if cache_misaligned dev BIO_FLAG_CACHE_ALIGNED_READS addr then Some (0, buf, d)
       else do {
         (ok, buf, pos, block, left, rest, d) \<leftarrow> new_byte_read_first dev buf start sz d;
         if \<not> ok then Some (sub32 cnt left, buf, d)
         else do {
           (ok, buf, pos, block, left, rest, d) \<leftarrow> new_byte_read_loop dev buf pos block left rest d;
           if \<not> ok \<or> left = 0 then Some (sub32 cnt left, buf, d)
           else do {
             (r, d) \<leftarrow> read_native dev (block div native_block_size dev) 1 d;
             (case r of None \<Rightarrow> Some (sub32 cnt left, buf, d)
              | Some temp \<Rightarrow> do {
                  x \<leftarrow> mem_read 0 rest temp;
                  buf \<leftarrow> mem_write pos x buf;
                  Some (sub32 cnt (left - 1), buf, d)
                })
           }
         }
       }
     }"

definition new_byte_write_first :: "'d bdev \<Rightarrow> u8 list \<Rightarrow> nat \<Rightarrow> nat \<Rightarrow> 'd \<Rightarrow> (bool \<times> nat \<times> nat \<times> nat \<times> nat \<times> 'd) option" where
  "new_byte_write_first dev buf start sz d =
     (let n = native_block_size dev; cnt = BYTE_TO_BLOCK sz in
      if start mod n \<noteq> 0 then do {
        let block = start div n * n;
        let p_cnt = min cnt (block + n - start);
        let byte_size = min sz (p_cnt * USER_BLOCK_SIZE);
        x \<leftarrow> mem_read 0 byte_size buf;
        (ok, d) \<leftarrow> modify_native dev (block div n) ((start - block) * USER_BLOCK_SIZE) x d;
        Some (if ok then (True, byte_size, u32_of (start + p_cnt), sub32 cnt p_cnt, sub32 sz byte_size, d) else (False, 0, block, cnt, sz, d))
      }
      else Some (True, 0, start, cnt, sz, d))"

partial_function (option) new_byte_write_loop ::
  "'d bdev \<Rightarrow> u8 list \<Rightarrow> nat \<Rightarrow> nat \<Rightarrow> nat \<Rightarrow> nat \<Rightarrow> 'd \<Rightarrow> (bool \<times> nat \<times> nat \<times> nat \<times> nat \<times> 'd) option" where
  "new_byte_write_loop dev buf pos block left rest d =
     (let n = native_block_size dev in
      if left \<ge> n then
        (let per_time = byte_per_time dev left in
         Option.bind (write_native dev (drop pos buf) (block div n) (per_time div n) d) (\<lambda>(ok, d).
           if \<not> ok then Some (False, pos, block, left, rest, d)
           else new_byte_write_loop dev buf (pos + u32_of (per_time * USER_BLOCK_SIZE)) (u32_of (block + per_time)) (sub32 left per_time)
             (sub32 rest (per_time * USER_BLOCK_SIZE)) d))
      else Some (True, pos, block, left, rest, d))"

definition bio_new_byte_write :: "'d bdev \<Rightarrow> nat \<Rightarrow> u8 list \<Rightarrow> nat \<Rightarrow> nat \<Rightarrow> 'd \<Rightarrow> (nat \<times> 'd) option" where
  "bio_new_byte_write dev addr buf start sz d =
     do {
       dassert (native_block_size dev \<noteq> 0);
       let cnt = BYTE_TO_BLOCK sz;
       if cache_misaligned dev BIO_FLAG_CACHE_ALIGNED_WRITES addr then Some (0, d)
       else do {
         (ok, pos, block, left, rest, d) \<leftarrow> new_byte_write_first dev buf start sz d;
         if \<not> ok then Some (sub32 cnt left, d)
         else do {
           (ok, pos, block, left, rest, d) \<leftarrow> new_byte_write_loop dev buf pos block left rest d;
           if \<not> ok \<or> left = 0 then Some (sub32 cnt left, d)
           else do {
             x \<leftarrow> mem_read pos rest buf;
             (ok, d) \<leftarrow> modify_native dev (block div native_block_size dev) 0 x d;
             Some (sub32 cnt (if ok then left - 1 else left), d)
           }
         }
       }
     }"

partial_function (option) new_byte_erase_loop ::
  "'d bdev \<Rightarrow> (nat \<Rightarrow> bool) \<Rightarrow> nat \<Rightarrow> nat \<Rightarrow> nat \<Rightarrow> 'd \<Rightarrow> (nat \<times> nat \<times> nat \<times> 'd) option" where
  "new_byte_erase_loop dev going block left rest d =
     (let n = native_block_size dev in
      if going block \<and> left \<ge> n then
        Option.bind (write_native dev (replicate (block_size dev) 0) (block div n) 1 d) (\<lambda>(_, d).
          new_byte_erase_loop dev going (u32_of (block + n)) (sub32 left n) (sub32 rest (n * USER_BLOCK_SIZE)) d)
      else Some (block, left, rest, d))"

definition new_byte_erase_first :: "'d bdev \<Rightarrow> nat \<Rightarrow> nat \<Rightarrow> 'd \<Rightarrow> (bool \<times> nat \<times> nat \<times> nat \<times> 'd) option" where
  "new_byte_erase_first dev start sz d =
     (let n = native_block_size dev; cnt = BYTE_TO_BLOCK sz in
      if start mod n \<noteq> 0 then do {
        let block = start div n * n;
        let p_cnt = min cnt (block + n - start);
        let byte_size = min sz (p_cnt * USER_BLOCK_SIZE);
        (ok, d) \<leftarrow> modify_native dev (block div n) ((start - block) * USER_BLOCK_SIZE) (replicate byte_size 0) d;
        Some (if ok then (True, u32_of (block + n), sub32 cnt p_cnt, sub32 sz byte_size, d) else (False, block, cnt, sz, d))
      }
      else Some (True, start, cnt, sz, d))"

text \<open>Here the size of an erase group is divided by the size of a user block; in \<^verbatim>\<open>bio_new_erase\<close> it is not.\<close>

definition new_byte_erase_unit :: "'d bdev \<Rightarrow> nat" where
  "new_byte_erase_unit dev =
     (let n = native_block_size dev in
      if erase_size dev \<noteq> 0 \<and> erase_size dev > n \<and> erase_size dev mod n = 0 then erase_size dev div USER_BLOCK_SIZE else n)"

definition bio_new_byte_erase :: "'d bdev \<Rightarrow> nat \<Rightarrow> nat \<Rightarrow> 'd \<Rightarrow> (nat \<times> 'd) option" where
  "bio_new_byte_erase dev start sz d =
     do {
       let n = native_block_size dev;
       dassert (n \<noteq> 0);
       let cnt = BYTE_TO_BLOCK sz;
       let unit = new_byte_erase_unit dev;
       (ok, block, left, rest, d) \<leftarrow> new_byte_erase_first dev start sz d;
       if \<not> ok then Some (sub32 cnt left, d)
       else do {
         dassert (unit \<noteq> 0);
         (block, left, rest, d) \<leftarrow> new_byte_erase_loop dev (\<lambda>b. b mod unit \<noteq> 0) block left rest d;
         let per_time = left div unit * unit;
         (ok, block, left, rest, d) \<leftarrow>
           (if per_time \<noteq> 0 then do {
              (ok, d) \<leftarrow> erase_native dev (block div n) (per_time div n) d;
              Some (if ok then (True, u32_of (block + per_time), left - per_time, sub32 rest (per_time * USER_BLOCK_SIZE), d)
                    else (False, block, left, rest, d))
            }
            else Some (True, block, left, rest, d));
         if \<not> ok \<or> u32_of (start + cnt) = block then Some (sub32 cnt left, d)
         else do {
           (block, left, rest, d) \<leftarrow> new_byte_erase_loop dev (\<lambda>_. True) block left rest d;
           if left = 0 then Some (sub32 cnt left, d)
           else do {
             (ok, d) \<leftarrow> modify_native dev (block div n) 0 (replicate rest 0) d;
             Some (sub32 cnt (if ok then left - 1 else left), d)
           }
         }
       }
     }"

subsection \<open>Erasing is exact\<close>

text \<open>The driver's erase command leaves zeros.\<close>

definition erases_to_zero :: "'d bdev \<Rightarrow> ('d \<Rightarrow> bool) \<Rightarrow> ('d \<Rightarrow> u8 list) \<Rightarrow> nat \<Rightarrow> bool" where
  "erases_to_zero dev good cont tot \<longleftrightarrow> (\<forall>d b k. good d \<longrightarrow> b + k \<le> tot \<longrightarrow> 0 < k \<longrightarrow>
     (\<exists>d'. erase_native dev b k d = Some (True, d') \<and> good d' \<and> cont d' = patch (b * block_size dev) (replicate (k * block_size dev) 0) (cont d)))"

text \<open>\<open>e\<close> of the \<open>cnt\<close> user blocks from \<open>start\<close> on are erased and the next command goes to block \<open>b\<close>.\<close>

definition erase_state ::
  "('d \<Rightarrow> bool) \<Rightarrow> ('d \<Rightarrow> u8 list) \<Rightarrow> nat \<Rightarrow> nat \<Rightarrow> nat \<Rightarrow> nat \<Rightarrow> u8 list \<Rightarrow> nat \<Rightarrow> nat \<Rightarrow> 'd \<Rightarrow> bool" where
  "erase_state good cont n tot start cnt c b e d \<longleftrightarrow>
     good d \<and> cont d = patch (start * 512) (replicate (e * 512) 0) c \<and> e \<le> cnt \<and> n dvd b \<and> b + (cnt - e) \<le> tot * n \<and>
     (e < cnt \<longrightarrow> b = start + e) \<and> start * 512 + cnt * 512 \<le> length c"

lemma patch_zeros:
  assumes "p + a + b \<le> length m"
  shows "patch (p + a) (replicate b 0) (patch p (replicate a 0) m) = patch p (replicate (a + b) 0) m"
proof -
  have "p + length (replicate a 0) + length (replicate b 0) \<le> length m" "p + a = p + length (replicate a 0)" using assms by simp_all
  from patch_next [OF this] show ?thesis unfolding replicate_add .
qed

lemma erase_state_step:
  assumes "erase_state good cont n tot start cnt c b e d" and "k * n \<le> cnt - e" and "0 < k * n"
    and "good d'" and "cont d' = patch (b * 512) (replicate (k * n * 512) 0) (cont d)"
  shows "erase_state good cont n tot start cnt c (b + k * n) (e + k * n) d'"
proof -
  note a = assms(1) [unfolded erase_state_def]
  have lt: "e < cnt" using assms(2,3) by linarith
  then have b: "b * 512 = start * 512 + e * 512" using a by (simp add: add_mult_distrib)
  have "e * 512 + k * n * 512 \<le> cnt * 512" using assms(2) lt by linarith
  then have "start * 512 + e * 512 + k * n * 512 \<le> length c" using a by linarith
  from patch_zeros [OF this] have "cont d' = patch (start * 512) (replicate ((e + k * n) * 512) 0) c"
    using assms(5) a unfolding b by (simp add: add_mult_distrib)
  with a assms(2-4) lt show ?thesis unfolding erase_state_def by auto
qed

lemma erase_loop_ok:
  assumes nd: "native_driver dev good cont n tot" and "erase_state good cont n tot start cnt c b e d" and "cnt + n < 2 ^ 32"
  shows "\<exists>b' e' d'. new_erase_loop dev going cnt b e d = Some (b', e', d') \<and> erase_state good cont n tot start cnt c b' e' d' \<and>
    (\<not> going b' \<or> cnt - e' < n)"
  using assms(2)
proof (induction "cnt - e" arbitrary: b e d rule: less_induct)
  case less
  note s = native_sizes [OF nd] and a = less.prems [unfolded erase_state_def]
  have u: "u32_of (e + n) = e + n" using a assms(3) by (intro u32_of_id) linarith
  show ?case
  proof (cases "going b \<and> e + n \<le> cnt")
    case False
    have "new_erase_loop dev going cnt b e d = Some (b, e, d)"
      unfolding new_erase_loop.simps [of dev going cnt b e d] Let_def s(3) u if_not_P [OF False] ..
    moreover have "\<not> going b \<or> cnt - e < n" using False s(1) by linarith
    ultimately show ?thesis using less.prems by blast
  next
    case True
    have b1: "b + 1 * n \<le> tot * n" "n dvd b" "good d" using True a by auto
    have z: "1 * n * 512 \<le> length (replicate (block_size dev) (0 :: u8))" using s(2) by simp
    obtain d1 where d1: "write_native dev (replicate (block_size dev) 0) (b div n) 1 d = Some (True, d1)" "good d1"
        "cont d1 = patch (b * 512) (replicate (1 * n * 512) 0) (cont d)"
      using native_write [OF nd b1(3,2,1) _ z] s(2) by auto
    have k: "1 * n \<le> cnt - e" "0 < 1 * n" using True s(1) by linarith+
    have st: "erase_state good cont n tot start cnt c (b + n) (e + n) d1"
      using erase_state_step [OF less.prems k d1(2,3)] by simp
    have ub: "u32_of (b + n) = b + n" using b1(1) s(7) by (intro u32_of_id) linarith
    have "new_erase_loop dev going cnt b e d = new_erase_loop dev going cnt (b + n) (e + n) d1"
      using True s(3) u ub d1(1) by (subst new_erase_loop.simps) (simp add: Let_def)
    moreover have "cnt - (e + n) < cnt - e" using True s(1) by linarith
    ultimately show ?thesis using less.hyps [OF _ st] by simp
  qed
qed

lemma erase_first_ok:
  assumes nd: "native_driver dev good cont n tot" and "good d" and "start + cnt \<le> tot * n" and "0 < cnt"
  obtains b e d' where "new_erase_first dev start cnt d = Some (True, b, e, d')" and "erase_state good cont n tot start cnt (cont d) b e d'"
proof (cases "start mod n \<noteq> 0")
  case False
  then have "new_erase_first dev start cnt d = Some (True, start, 0, d)"
    using native_sizes(3) [OF nd] by (simp add: new_erase_first_def Let_def)
  moreover have "erase_state good cont n tot start cnt (cont d) start 0 d"
    using False assms native_length [OF nd assms(2)] mult_le_mono1 [OF assms(3), of 512] by (auto simp: erase_state_def add_mult_distrib)
  ultimately show ?thesis by (rule that)
next
  case True
  note f = first_part [OF nd assms(3,4)]
  let ?b = "start div n * n" let ?p = "min cnt (?b + n - start)"
  have "(start - ?b) * 512 + length (replicate (?p * 512) (0 :: u8)) \<le> n * 512" using f(4) by simp
  from native_modify [OF nd assms(2) f(1,2) this] obtain d' where
    d': "modify_native dev (start div n) ((start - ?b) * 512) (replicate (?p * 512) 0) d = Some (True, d')" "good d'"
      "cont d' = patch (start * 512) (replicate (?p * 512) 0) (cont d)"
    unfolding f(6,10) by blast
  have "new_erase_first dev start cnt d = Some (True, ?b + n, ?p, d')"
    unfolding new_erase_first_def native_sizes(3) [OF nd] Let_def USER_BLOCK_SIZE_def if_P [OF True] f(6) bind.bind_lunit d'(1) split f(5) by simp
  moreover have "erase_state good cont n tot start cnt (cont d) (?b + n) ?p d'"
    unfolding erase_state_def
    using d'(2,3) f(1,7,8,9) native_length [OF nd assms(2)] mult_le_mono1 [OF assms(3), of 512] by (simp add: add_mult_distrib)
  ultimately show ?thesis by (rule that)
qed

lemma erase_middle_ok:
  assumes nd: "native_driver dev good cont n tot" and ez: "erases_to_zero dev good cont tot"
    and st: "erase_state good cont n tot start cnt c b e d" and "n dvd q" and "q \<le> cnt - e"
  shows "\<exists>b' e' d'. (if q \<noteq> 0 then do {
       (ok, d) \<leftarrow> erase_native dev (b div n) (q div n) d;
       Some (if ok then (True, u32_of (b + q), e + q, d) else (False, b, e, d))
     } else Some (True, b, e, d)) = Some (True, b', e', d') \<and> erase_state good cont n tot start cnt c b' e' d'"
proof (cases "q = 0")
  case True
  with st show ?thesis by simp
next
  case False
  note s = native_sizes [OF nd] and a = st [unfolded erase_state_def]
  obtain k where k: "q = k * n" using assms(4) by (metis dvd_div_mult_self)
  have kq: "q div n = k" "0 < k" using k s(1) False by auto
  have bk: "b + k * n \<le> tot * n" "n dvd b" "good d" using a assms(5) k by auto
  note i = native_inside [OF nd bk(2,1)]
  obtain d1 where d1: "erase_native dev (b div n) k d = Some (True, d1)" "good d1"
      "cont d1 = patch (b div n * block_size dev) (replicate (k * block_size dev) 0) (cont d)"
    using ez bk(3) i(1) kq(2) unfolding erases_to_zero_def by blast
  have c1: "cont d1 = patch (b * 512) (replicate (k * n * 512) 0) (cont d)" using d1(3) unfolding i(2) unfolding s(2) mult.assoc .
  have q: "k * n \<le> cnt - e" "0 < k * n" using assms(5) k False by auto
  have u: "u32_of (b + q) = b + q" using bk(1) s(7) k by (intro u32_of_id) linarith
  show ?thesis using False d1(1) kq(1) u erase_state_step [OF st q d1(2) c1] k by simp
qed

lemma erase_last_ok:
  assumes nd: "native_driver dev good cont n tot" and st: "erase_state good cont n tot start cnt c b e d" and "cnt - e < n"
  shows "\<exists>d'. new_erase_last dev cnt b e d = Some (cnt, d') \<and> good d' \<and> cont d' = patch (start * 512) (replicate (cnt * 512) 0) c"
proof (cases "cnt = e")
  case True
  then show ?thesis using st by (simp add: new_erase_last_def erase_state_def)
next
  case False
  note s = native_sizes [OF nd] and a = st [unfolded erase_state_def]
  let ?l = "cnt - e"
  have l: "0 < ?l" "?l mod n = ?l" using False a assms(3) by auto
  have b1: "b + n \<le> tot * n" "n dvd b" "good d" using a next_native_inside [OF nd _ _ l(1), of b] by auto
  have "n * 512 < 2 ^ 32" using s(5,6) by linarith
  then have u: "u32_of (?l * 512) = ?l * 512" using assms(3) by (intro u32_of_id) linarith
  have "0 + length (replicate (?l * 512) (0 :: u8)) \<le> n * 512" using assms(3) by simp
  from native_modify [OF nd b1(3,2,1) this] obtain d' where
    d': "modify_native dev (b div n) 0 (replicate (?l * 512) 0) d = Some (True, d')" "good d'" "cont d' = patch (b * 512) (replicate (?l * 512) 0) (cont d)"
    by auto
  have bb: "b * 512 = start * 512 + e * 512" and le: "start * 512 + e * 512 + ?l * 512 \<le> length c" and tt: "e * 512 + ?l * 512 = cnt * 512"
    using a False by (auto simp: add_mult_distrib)
  have "cont d' = patch (start * 512) (replicate (cnt * 512) 0) c"
    using patch_zeros [OF le] a d'(3) unfolding bb tt by simp
  moreover have "new_erase_last dev cnt b e d = Some (cnt, d')"
    unfolding new_erase_last_def s(3) Let_def l(2) USER_BLOCK_SIZE_def u d'(1) using l(1) by simp
  ultimately show ?thesis using d'(2) by blast
qed

lemma new_erase_exact:
  assumes nd: "native_driver dev good cont n tot" and ez: "erases_to_zero dev good cont tot" and "good d"
    and "start + cnt \<le> tot * n" and "0 < cnt" and "cnt + n < 2 ^ 32"
  shows "\<exists>d'. bio_new_erase dev start cnt d = Some (cnt, d') \<and> good d' \<and> cont d' = patch (start * 512) (replicate (cnt * 512) 0) (cont d)"
proof -
  note s = native_sizes [OF nd]
  let ?u = "new_erase_unit dev" and ?S = "erase_state good cont n tot start cnt (cont d)"
  have du: "n dvd ?u" using s(3) by (auto simp: new_erase_unit_def Let_def)
  obtain b1 e1 d1 where f: "new_erase_first dev start cnt d = Some (True, b1, e1, d1)" "?S b1 e1 d1"
    by (rule erase_first_ok [OF nd assms(3-5)])
  from erase_loop_ok [OF nd f(2) assms(6), of "\<lambda>b. b mod ?u \<noteq> 0"] obtain b2 e2 d2 where
    l: "new_erase_loop dev (\<lambda>b. b mod ?u \<noteq> 0) cnt b1 e1 d1 = Some (b2, e2, d2)" "?S b2 e2 d2" by meson
  let ?q = "(cnt - e2) div ?u * ?u"
  have q: "n dvd ?q" "?q \<le> cnt - e2" using du by simp_all
  from erase_middle_ok [OF nd ez l(2) q] obtain b3 e3 d3 where
    m: "(if ?q \<noteq> 0 then do {
       (ok, d) \<leftarrow> erase_native dev (b2 div n) (?q div n) d2;
       Some (if ok then (True, u32_of (b2 + ?q), e2 + ?q, d) else (False, b2, e2, d))
     } else Some (True, b2, e2, d2)) = Some (True, b3, e3, d3)" "?S b3 e3 d3" by blast
  have us: "u32_of (start + cnt) = start + cnt" using assms(4) s(7) by (intro u32_of_id) linarith
  have na: "dassert (n \<noteq> 0) = Some ()" using s(1) by (simp add: dassert_def)
  have pre: "bio_new_erase dev start cnt d = (if start + cnt = b3 then Some (e3, d3)
      else Option.bind (new_erase_loop dev (\<lambda>_. True) cnt b3 e3 d3) (\<lambda>(b, e, d). new_erase_last dev cnt b e d))"
    unfolding bio_new_erase_def s(3) Let_def na f(1) bind.bind_lunit split l(1) m(1) us not_True_eq_False simp_thms if_False ..
  show ?thesis
  proof (cases "start + cnt = b3")
    case True
    then have "e3 = cnt" using m(2) by (auto simp: erase_state_def)
    then show ?thesis unfolding pre using True m(2) by (simp add: erase_state_def)
  next
    case False
    from erase_loop_ok [OF nd m(2) assms(6), of "\<lambda>_. True"] obtain b4 e4 d4 where
      l2: "new_erase_loop dev (\<lambda>_. True) cnt b3 e3 d3 = Some (b4, e4, d4)" "?S b4 e4 d4" "cnt - e4 < n" by auto
    from erase_last_ok [OF nd l2(2,3)] show ?thesis unfolding pre l2(1) using False by simp
  qed
qed

section \<open>The byte variant overruns its buffer\<close>

text \<open>
  A size that is no multiple of 512 and fills up a native block: the loop transfers the whole native block to a
  buffer that is shorter.
\<close>

lemma byte_read_overruns:
  assumes nd: "native_driver dev good cont n tot" and "good d" and "n dvd start" and "start + n \<le> tot * n"
    and "(n - 1) * 512 < sz" and "sz < n * 512" and "length buf = sz" and "\<not> cache_misaligned dev BIO_FLAG_CACHE_ALIGNED_READS addr"
  shows "bio_new_byte_read dev addr buf start sz d = None"
proof -
  note s = native_sizes [OF nd]
  have n5: "n * 512 < 2 ^ 32" using s(5,6) by linarith
  have "sz - 1 + 2 ^ 32 = sz + 2 ^ 32 - 1" using assms(5) by linarith
  then have "(sz + 2 ^ 32 - 1) mod 2 ^ 32 = sz - 1" using assms(6) n5 by (metis add.commute less_imp_diff_less less_trans mod_add_self1 mod_less)
  moreover have "(sz - 1) div 512 = n - 1" using assms(5,6) s(1) by (intro div_nat_eqI) simp_all
  ultimately have c: "BYTE_TO_BLOCK sz = n" using s(1) n5 by (simp add: BYTE_TO_BLOCK_def u32_of_def)
  have f: "new_byte_read_first dev buf start sz d = Some (True, buf, 0, start, n, sz, d)"
    using assms(3) c s(3) by (simp add: new_byte_read_first_def Let_def dvd_imp_mod_0)
  have p: "byte_per_time dev n = n" using s(1,3,5) by (simp add: byte_per_time_def Let_def)
  have b1: "start + 1 * n \<le> tot * n" using assms(4) by simp
  obtain d' where d': "read_native dev (start div n) 1 d = Some (Some (seg (start * 512) (n * 512) (cont d)), d')"
    using native_read [OF nd assms(2,3) b1] by auto
  have "length (seg (start * 512) (n * 512) (cont d)) = n * 512"
    using mult_le_mono1 [OF assms(4), of 512] native_length [OF nd assms(2)] by (intro length_seg) (simp add: add_mult_distrib)
  then have w: "mem_write 0 (seg (start * 512) (n * 512) (cont d)) buf = None" using assms(6,7) by (intro mem_write_None) simp
  have nn: "n div n = 1" using s(1) by simp
  have l: "new_byte_read_loop dev buf 0 start n sz d = None"
    using d' w nn p s(3) by (subst new_byte_read_loop.simps) (simp add: Let_def)
  show ?thesis unfolding bio_new_byte_read_def s(3) c Let_def f using assms(8) l by simp
qed

section \<open>Properties\<close>

text \<open>A driver for the witnesses: 4096-byte blocks in memory, at most 32 user blocks a command.\<close>

definition demo_native :: "u8 list bdev" where
  "demo_native = demo_base\<lparr>block_size := 4096, max_blkcnt_per_cmd := 32,
     new_read_native := Some (\<lambda>b k d. map_option (\<lambda>x. (0, x, d)) (mem_read (b * 4096) (k * 4096) d)),
     new_write_native := Some (\<lambda>buf b k d. do { x \<leftarrow> mem_read 0 (k * 4096) buf; d \<leftarrow> mem_write (b * 4096) x d; Some (0, d) }),
     new_erase_native := Some (\<lambda>b k d. map_option (Pair 0) (mem_write (b * 4096) (replicate (k * 4096) 0) d))\<rparr>"

lemma demo_native_driver:
  "native_driver demo_native (\<lambda>d. length d = 8192) (\<lambda>d. d) 8 2" "erases_to_zero demo_native (\<lambda>d. length d = 8192) (\<lambda>d. d) 2"
proof -
  have b: "b * 4096 + k * 4096 \<le> 8192" if "b + k \<le> 2" for b k :: nat using that by simp
  show "native_driver demo_native (\<lambda>d. length d = 8192) (\<lambda>d. d) 8 2"
    unfolding native_driver_def using b
    by (auto simp: demo_native_def max_blkcnt_def read_native_def write_native_def mem_read_def mem_write_def seg_seg)
  show "erases_to_zero demo_native (\<lambda>d. length d = 8192) (\<lambda>d. d) 2"
    unfolding erases_to_zero_def using b by (auto simp: demo_native_def erase_native_def mem_write_def)
qed

text \<open>
  A limit that is no multiple of a native block is not looked at by the code either: a command moves whole native blocks and the count goes on by the
  limit. With native blocks of 8 user blocks and a limit of 20, a read of 24 blocks returns 24, but blocks 16 to 19 are not filled, and where
  blocks 20 to 23 belong lie the contents of blocks 16 to 19.
\<close>

definition demo_odd_limit :: "u8 list bdev" where "demo_odd_limit = demo_native\<lparr>max_blkcnt_per_cmd := 20\<rparr>"

lemma odd_limit_skips:
  assumes "length c = 12288" and "length buf = 12288"
  shows "bio_new_read demo_odd_limit 0 buf 0 24 c =
    Some (24, patch (20 * 512) (seg (16 * 512) (4 * 512) c) (patch 0 (seg 0 (16 * 512) c) buf), c)"
proof -
  have f: "native_block_size demo_odd_limit = 8" "max_blkcnt demo_odd_limit = 20" "block_size demo_odd_limit = 4096"
    by (simp_all add: native_block_size_def max_blkcnt_def demo_odd_limit_def demo_native_def USER_BLOCK_SIZE_def)
  have r: "read_native demo_odd_limit b k c = Some (Some (seg (b * 4096) (k * 4096) c), c)" if "b + k \<le> 3" for b k
    using that assms(1) by (simp add: read_native_def demo_odd_limit_def demo_native_def mem_read_def seg_seg)
  have l: "new_read_loop demo_odd_limit 24 buf 0 0 0 c = Some (True, patch 0 (seg 0 8192 c) buf, 10240, 20, 20, c)"
    using assms r [of 0 2] by (simp add: new_read_loop.simps f USER_BLOCK_SIZE_def u32_of_def mem_write_def Let_def)
  have "new_read_last demo_odd_limit 24 (patch 0 (seg 0 8192 c) buf) 10240 20 20 c =
      Some (24, patch 10240 (seg 8192 2048 c) (patch 0 (seg 0 8192 c) buf), c)"
    using assms r [of 2 1] by (simp add: new_read_last_def f USER_BLOCK_SIZE_def u32_of_def mem_write_def mem_read_def seg_seg Let_def)
  with l show ?thesis by (simp add: bio_new_read_def new_read_first_def f cache_misaligned_def)
qed

text \<open>
  C34: the user blocks of the boot loader's interface are exact on native blocks of any size, when the driver's limit on a command is a multiple of a native
  block (\<open>native_driver\<close>; \<open>odd_limit_skips\<close> shows what happens when it is not): for a range inside the device, wherever it starts and ends in a
  native block and however many commands it takes, \<^verbatim>\<open>bio_new_read\<close> returns the count and fills the buffer with exactly the blocks
  asked for, \<^verbatim>\<open>bio_new_write\<close> returns the count and replaces exactly them, and \<^verbatim>\<open>bio_new_erase\<close> returns the count and zeroes exactly
  them; every other byte keeps its value, the buffer is not overrun, and the loops end. The driver's commands inside the device succeed.
\<close>

theorem user_blocks_exact:
  assumes "native_driver dev good cont n tot" and "erases_to_zero dev good cont tot" and "good d" and "start + cnt \<le> tot * n" and "0 < cnt"
    and "cnt + n < 2 ^ 32" and "cnt * 512 \<le> length buf"
    and "\<not> cache_misaligned dev BIO_FLAG_CACHE_ALIGNED_READS addr" and "\<not> cache_misaligned dev BIO_FLAG_CACHE_ALIGNED_WRITES addr"
  shows "(\<exists>d'. bio_new_read dev addr buf start cnt d = Some (cnt, patch 0 (seg (start * 512) (cnt * 512) (cont d)) buf, d') \<and>
        good d' \<and> cont d' = cont d) \<and>
     (\<exists>d'. bio_new_write dev addr buf start cnt d = Some (cnt, d') \<and> good d' \<and>
        cont d' = patch (start * 512) (seg 0 (cnt * 512) buf) (cont d)) \<and>
     (\<exists>d'. bio_new_erase dev start cnt d = Some (cnt, d') \<and> good d' \<and>
        cont d' = patch (start * 512) (replicate (cnt * 512) 0) (cont d))"
  using new_read_exact [OF assms(1,3,4,5,7,8)] new_write_exact [OF assms(1,3,4,5,7,9)] new_erase_exact [OF assms(1-6)] by blast

theorem user_blocks_exact_witness:
  "\<exists>d'. bio_new_read demo_native 0 (replicate 1024 0) 7 2 (replicate 8192 7) = Some (2, replicate 1024 7, d')"
proof -
  have "\<not> cache_misaligned demo_native f 0" for f by (simp add: cache_misaligned_def)
  from user_blocks_exact [OF demo_native_driver _ _ _ _ _ this this, of "replicate 8192 7" 7 2 "replicate 1024 0"]
  have "\<exists>d'. bio_new_read demo_native 0 (replicate 1024 0) 7 2 (replicate 8192 7) =
      Some (2, patch 0 (seg (7 * 512) (2 * 512) (replicate 8192 7)) (replicate 1024 0), d')" by auto
  then show ?thesis by (simp add: seg_def patch_def)
qed

end
