(* ===== verification/LK_Bcache.thy ===== *)
theory LK_Bcache
  imports LK_Bio
begin

text \<open>
  The block cache, \<^verbatim>\<open>lib/bcache/bcache.c\<close>: a fixed number of buffers, the free ones on one list and the used ones on
  another, least recently used first, over \<^verbatim>\<open>bio_read\<close> and \<^verbatim>\<open>bio_write\<close> of a device. Buffers are numbers.
  \<open>None\<close> is a failed \<^verbatim>\<open>DEBUG_ASSERT\<close> or an access outside a buffer.
\<close>

section \<open>The operations\<close>

record bcache_block =
  bb_blocknum :: nat
  bb_ref_count :: int
  bb_is_dirty :: bool
  bb_ptr :: "u8 list"

record bcache_stats =
  st_hits :: u32
  st_depth :: u32
  st_misses :: u32
  st_reads :: u32
  st_writes :: u32

record bcache =
  bc_block_size :: nat
  bc_count :: nat
  bc_stats :: bcache_stats
  bc_free_list :: "nat list"
  bc_lru_list :: "nat list"
  bc_blocks :: "nat \<Rightarrow> bcache_block"

definition upd_block :: "nat \<Rightarrow> (bcache_block \<Rightarrow> bcache_block) \<Rightarrow> bcache \<Rightarrow> bcache" where
  "upd_block b f c = c\<lparr>bc_blocks := (bc_blocks c)(b := f (bc_blocks c b))\<rparr>"

text \<open>\<open>heap\<close> is what the memory of the buffers held; the loop adds at the head of the free list.\<close>

definition bcache_create :: "(nat \<Rightarrow> bcache_block) \<Rightarrow> nat \<Rightarrow> nat \<Rightarrow> bcache" where
  "bcache_create heap bs cnt =
     \<lparr>bc_block_size = bs, bc_count = cnt,
      bc_stats = \<lparr>st_hits = 0, st_depth = 0, st_misses = 0, st_reads = 0, st_writes = 0\<rparr>,
      bc_free_list = rev [0..<cnt], bc_lru_list = [],
      bc_blocks = (\<lambda>i. if i < cnt then (heap i)\<lparr>bb_ref_count := 0, bb_is_dirty := False\<rparr> else heap i)\<rparr>"

text \<open>The result of a transfer is stored in an \<^verbatim>\<open>int\<close>.\<close>

definition to_int :: "int \<Rightarrow> int" where "to_int r = signed_take_bit 31 r"

definition flush_block :: "'d bdev \<Rightarrow> nat \<Rightarrow> bcache \<Rightarrow> 'd \<Rightarrow> (int \<times> bcache \<times> 'd) option" where
  "flush_block dev b c d =
     do {
       let blk = bc_blocks c b;
       (rc, d) \<leftarrow> bio_write dev 0 (bb_ptr blk) (int (bb_blocknum blk * bc_block_size c)) (bc_block_size c) d;
       let rc = to_int rc;
       if rc < 0 then Some (rc, c, d)
       else let c = upd_block b (\<lambda>blk. blk\<lparr>bb_is_dirty := False\<rparr>) c in
         Some (0, c\<lparr>bc_stats := (bc_stats c)\<lparr>st_writes := st_writes (bc_stats c) + 1\<rparr>\<rparr>, d)
     }"

definition bcache_destroy :: "bcache \<Rightarrow> unit option" where
  "bcache_destroy c = dassert (\<forall>i\<in>set [0..<bc_count c]. bb_ref_count (bc_blocks c i) = 0)"

fun lru_find :: "(nat \<Rightarrow> bcache_block) \<Rightarrow> nat \<Rightarrow> u32 \<Rightarrow> nat list \<Rightarrow> (nat \<times> u32) option" where
  "lru_find blocks num depth [] = None"
| "lru_find blocks num depth (b # bs) =
     (if bb_blocknum (blocks b) = num then Some (b, depth + 1) else lru_find blocks num (depth + 1) bs)"

definition to_tail :: "nat \<Rightarrow> bcache \<Rightarrow> bcache" where
  "to_tail b c = c\<lparr>bc_lru_list := remove1 b (bc_lru_list c) @ [b]\<rparr>"

definition find_block :: "nat \<Rightarrow> bcache \<Rightarrow> nat option \<times> bcache" where
  "find_block num c =
     (case lru_find (bc_blocks c) num 0 (bc_lru_list c) of
        Some (b, depth) \<Rightarrow>
          let c = to_tail b c; st = bc_stats c in
          (Some b, c\<lparr>bc_stats := st\<lparr>st_hits := st_hits st + 1, st_depth := st_depth st + depth\<rparr>\<rparr>)
      | None \<Rightarrow> let st = bc_stats c in (None, c\<lparr>bc_stats := st\<lparr>st_misses := st_misses st + 1\<rparr>\<rparr>))"

definition alloc_block :: "'d bdev \<Rightarrow> bcache \<Rightarrow> 'd \<Rightarrow> (nat option \<times> bcache \<times> 'd) option" where
  "alloc_block dev c d =
     (case bc_free_list c of
        b # fs \<Rightarrow>
          let c = upd_block b (\<lambda>blk. blk\<lparr>bb_ref_count := 0\<rparr>) (c\<lparr>bc_free_list := fs\<rparr>) in
          Some (Some b, c\<lparr>bc_lru_list := bc_lru_list c @ [b]\<rparr>, d)
      | [] \<Rightarrow>
          (case List.find (\<lambda>b. bb_ref_count (bc_blocks c b) = 0) (bc_lru_list c) of
             None \<Rightarrow> Some (None, c, d)
           | Some b \<Rightarrow> do {
               (err, c, d) \<leftarrow> (if bb_is_dirty (bc_blocks c b) then flush_block dev b c d else Some (0, c, d));
               Some (if err \<noteq> 0 then (None, c, d) else (Some b, to_tail b c, d))
             }))"

text \<open>
  When the read fails the block is added to the free list while it is on the other list. From then on the pointers of
  the two lists run into each other, which the lists here do not show; the invariant below excludes such a state.
\<close>

definition find_or_fill_block :: "'d bdev \<Rightarrow> nat \<Rightarrow> bcache \<Rightarrow> 'd \<Rightarrow> (nat option \<times> bcache \<times> 'd) option" where
  "find_or_fill_block dev num c d =
     (case find_block num c of
        (Some b, c) \<Rightarrow> do { dassert (bb_blocknum (bc_blocks c b) = num); Some (Some b, c, d) }
      | (None, c) \<Rightarrow> do {
          (r, c, d) \<leftarrow> alloc_block dev c d;
          b \<leftarrow> r;
          let c = upd_block b (\<lambda>blk. blk\<lparr>bb_blocknum := num\<rparr>) c;
          (err, data, d) \<leftarrow> bio_read dev 0 (int (num * bc_block_size c)) (bc_block_size c) d;
          ptr \<leftarrow> mem_write 0 data (bb_ptr (bc_blocks c b));
          let c = upd_block b (\<lambda>blk. blk\<lparr>bb_ptr := ptr\<rparr>) c;
          if to_int err < 0 then Some (None, c\<lparr>bc_free_list := bc_free_list c @ [b]\<rparr>, d)
          else Some (Some b, c\<lparr>bc_stats := (bc_stats c)\<lparr>st_reads := st_reads (bc_stats c) + 1\<rparr>\<rparr>, d)
        })"

definition bcache_read_block :: "'d bdev \<Rightarrow> nat \<Rightarrow> bcache \<Rightarrow> 'd \<Rightarrow> (int \<times> u8 list \<times> bcache \<times> 'd) option" where
  "bcache_read_block dev num c d =
     do {
       (r, c, d) \<leftarrow> find_or_fill_block dev num c d;
       (case r of None \<Rightarrow> Some (-1, [], c, d)
        | Some b \<Rightarrow> do { x \<leftarrow> mem_read 0 (bc_block_size c) (bb_ptr (bc_blocks c b)); Some (0, x, c, d) })
     }"

text \<open>The pointer \<^verbatim>\<open>bcache_get_block\<close> returns is the number of the buffer.\<close>

definition bcache_get_block :: "'d bdev \<Rightarrow> nat \<Rightarrow> bcache \<Rightarrow> 'd \<Rightarrow> (int \<times> nat option \<times> bcache \<times> 'd) option" where
  "bcache_get_block dev num c d =
     do {
       (r, c, d) \<leftarrow> find_or_fill_block dev num c d;
       Some (case r of None \<Rightarrow> (-1, None, c, d)
         | Some b \<Rightarrow> (0, Some b, upd_block b (\<lambda>blk. blk\<lparr>bb_ref_count := bb_ref_count blk + 1\<rparr>) c, d))
     }"

definition bcache_put_block :: "nat \<Rightarrow> bcache \<Rightarrow> (int \<times> bcache) option" where
  "bcache_put_block num c =
     (case find_block num c of
        (None, c) \<Rightarrow> None
      | (Some b, c) \<Rightarrow> do {
          dassert (bb_ref_count (bc_blocks c b) > 0);
          Some (0, upd_block b (\<lambda>blk. blk\<lparr>bb_ref_count := bb_ref_count blk - 1\<rparr>) c)
        })"

definition bcache_mark_block_dirty :: "nat \<Rightarrow> bcache \<Rightarrow> int \<times> bcache" where
  "bcache_mark_block_dirty num c =
     (case find_block num c of
        (None, c) \<Rightarrow> (-1, c)
      | (Some b, c) \<Rightarrow> (0, upd_block b (\<lambda>blk. blk\<lparr>bb_is_dirty := True\<rparr>) c))"

definition bcache_zero_block :: "'d bdev \<Rightarrow> nat \<Rightarrow> bcache \<Rightarrow> 'd \<Rightarrow> (int \<times> bcache \<times> 'd) option" where
  "bcache_zero_block dev num c d =
     do {
       let (r, c) = find_block num c;
       (r, c, d) \<leftarrow>
         (case r of Some b \<Rightarrow> Some (Some b, c, d)
          | None \<Rightarrow> do {
              (r, c, d) \<leftarrow> alloc_block dev c d;
              Some (r, (case r of None \<Rightarrow> c | Some b \<Rightarrow> upd_block b (\<lambda>blk. blk\<lparr>bb_blocknum := num\<rparr>) c), d)
            });
       (case r of None \<Rightarrow> Some (-1, c, d)
        | Some b \<Rightarrow> do {
            ptr \<leftarrow> mem_write 0 (replicate (bc_block_size c) 0) (bb_ptr (bc_blocks c b));
            Some (0, upd_block b (\<lambda>blk. blk\<lparr>bb_ptr := ptr, bb_is_dirty := True\<rparr>) c, d)
          })
     }"

fun flush_list :: "'d bdev \<Rightarrow> nat list \<Rightarrow> bcache \<Rightarrow> 'd \<Rightarrow> (int \<times> bcache \<times> 'd) option" where
  "flush_list dev [] c d = Some (0, c, d)"
| "flush_list dev (b # bs) c d =
     (if bb_is_dirty (bc_blocks c b) then do {
        (err, c, d) \<leftarrow> flush_block dev b c d;
        if err \<noteq> 0 then Some (err, c, d) else flush_list dev bs c d
      }
      else flush_list dev bs c d)"

definition bcache_flush :: "'d bdev \<Rightarrow> bcache \<Rightarrow> 'd \<Rightarrow> (int \<times> bcache \<times> 'd) option" where
  "bcache_flush dev c d = flush_list dev (bc_lru_list c) c d"

text \<open>What a caller does with the pointer of a block: store into its memory.\<close>

definition block_store :: "nat \<Rightarrow> u8 list \<Rightarrow> bcache \<Rightarrow> bcache" where
  "block_store b data c = upd_block b (\<lambda>blk. blk\<lparr>bb_ptr := data\<rparr>) c"

section \<open>The cache shows the device\<close>

text \<open>
  \<open>bc_view\<close> is what the user of the cache sees at a block number: the cached block if there is one, the device otherwise.
  In a good state the two lists share no buffer, no block number is cached twice, every cached block lies inside the device, and a
  block that is not dirty is the block on the device.
\<close>

definition block_at :: "nat \<Rightarrow> nat \<Rightarrow> u8 list \<Rightarrow> u8 list" where
  "block_at bs num m = seg (num * bs) bs m"

definition cached :: "bcache \<Rightarrow> nat \<Rightarrow> nat option" where
  "cached c num = List.find (\<lambda>b. bb_blocknum (bc_blocks c b) = num) (bc_lru_list c)"

definition bc_view :: "('d \<Rightarrow> u8 list) \<Rightarrow> bcache \<Rightarrow> 'd \<Rightarrow> nat \<Rightarrow> u8 list" where
  "bc_view cont c d num = (case cached c num of Some b \<Rightarrow> bb_ptr (bc_blocks c b) | None \<Rightarrow> block_at (bc_block_size c) num (cont d))"

definition bc_inv :: "('d \<Rightarrow> bool) \<Rightarrow> ('d \<Rightarrow> u8 list) \<Rightarrow> nat \<Rightarrow> bcache \<Rightarrow> 'd \<Rightarrow> bool" where
  "bc_inv good cont tot c d \<longleftrightarrow>
     good d \<and> 0 < bc_block_size c \<and> bc_block_size c < 2 ^ 31 \<and> tot < 2 ^ 62 \<and>
     distinct (bc_lru_list c @ bc_free_list c) \<and> inj_on (\<lambda>b. bb_blocknum (bc_blocks c b)) (set (bc_lru_list c)) \<and>
     (\<forall>b\<in>set (bc_lru_list c @ bc_free_list c). length (bb_ptr (bc_blocks c b)) = bc_block_size c) \<and>
     (\<forall>b\<in>set (bc_free_list c). \<not> bb_is_dirty (bc_blocks c b)) \<and>
     (\<forall>b\<in>set (bc_lru_list c). bb_blocknum (bc_blocks c b) * bc_block_size c + bc_block_size c \<le> tot \<and>
        (\<not> bb_is_dirty (bc_blocks c b) \<longrightarrow> bb_ptr (bc_blocks c b) = block_at (bc_block_size c) (bb_blocknum (bc_blocks c b)) (cont d)))"

lemma bc_invD:
  assumes "bc_inv good cont tot c d"
  shows "good d" "0 < bc_block_size c" "bc_block_size c < 2 ^ 31" "tot < 2 ^ 62" "distinct (bc_lru_list c)" "distinct (bc_free_list c)"
    "set (bc_lru_list c) \<inter> set (bc_free_list c) = {}" "inj_on (\<lambda>b. bb_blocknum (bc_blocks c b)) (set (bc_lru_list c))"
    "\<And>b. b \<in> set (bc_lru_list c) \<Longrightarrow> length (bb_ptr (bc_blocks c b)) = bc_block_size c"
    "\<And>b. b \<in> set (bc_free_list c) \<Longrightarrow> length (bb_ptr (bc_blocks c b)) = bc_block_size c"
    "\<And>b. b \<in> set (bc_free_list c) \<Longrightarrow> \<not> bb_is_dirty (bc_blocks c b)"
    "\<And>b. b \<in> set (bc_lru_list c) \<Longrightarrow> bb_blocknum (bc_blocks c b) * bc_block_size c + bc_block_size c \<le> tot"
    "\<And>b. b \<in> set (bc_lru_list c) \<Longrightarrow> \<not> bb_is_dirty (bc_blocks c b) \<Longrightarrow>
       bb_ptr (bc_blocks c b) = block_at (bc_block_size c) (bb_blocknum (bc_blocks c b)) (cont d)"
  using assms by (auto simp: bc_inv_def)

text \<open>A block is cached exactly when it is on the used list with its number.\<close>

lemma cached_Some:
  assumes "inj_on (\<lambda>b. bb_blocknum (bc_blocks c b)) (set (bc_lru_list c))"
  shows "cached c num = Some b \<longleftrightarrow> b \<in> set (bc_lru_list c) \<and> bb_blocknum (bc_blocks c b) = num"
proof
  assume "cached c num = Some b"
  then show "b \<in> set (bc_lru_list c) \<and> bb_blocknum (bc_blocks c b) = num"
    by (auto simp: cached_def find_Some_iff)
next
  assume a: "b \<in> set (bc_lru_list c) \<and> bb_blocknum (bc_blocks c b) = num"
  then obtain b' where b': "cached c num = Some b'" by (cases "cached c num") (auto simp: cached_def find_None_iff)
  then have "b' \<in> set (bc_lru_list c)" "bb_blocknum (bc_blocks c b') = num" by (auto simp: cached_def find_Some_iff)
  with a assms have "b' = b" by (auto dest: inj_onD)
  with b' show "cached c num = Some b" by simp
qed

lemma cached_None: "cached c num = None \<longleftrightarrow> (\<forall>b\<in>set (bc_lru_list c). bb_blocknum (bc_blocks c b) \<noteq> num)"
  by (auto simp: cached_def find_None_iff)

lemma blocks_apart: "(i :: nat) \<noteq> j \<Longrightarrow> i * bs + bs \<le> j * bs \<or> j * bs + bs \<le> i * bs"
proof (cases "i < j")
  case True
  then have "(i + 1) * bs \<le> j * bs" by (intro mult_le_mono1) simp
  then show ?thesis by simp
next
  case False
  moreover assume "i \<noteq> j"
  ultimately have "(j + 1) * bs \<le> i * bs" by (intro mult_le_mono1) simp
  then show ?thesis by simp
qed

lemma block_at_patch:
  assumes "length x = bs" and "num * bs + bs \<le> length m" and "k * bs + bs \<le> length m"
  shows "block_at bs k (patch (num * bs) x m) = (if k = num then x else block_at bs k m)"
  using assms blocks_apart [of k num bs] by (auto simp: block_at_def seg_patch_other)

text \<open>The order of the used list and the statistics do not matter.\<close>

lemma bc_inv_cong:
  assumes "bc_inv good cont tot c d" and "bc_block_size c' = bc_block_size c" and "bc_blocks c' = bc_blocks c"
    and "set (bc_lru_list c') = set (bc_lru_list c)" and "distinct (bc_lru_list c')" and "bc_free_list c' = bc_free_list c"
  shows "bc_inv good cont tot c' d" "bc_view cont c' d = bc_view cont c d" "cached c' = cached c"
proof -
  show i: "bc_inv good cont tot c' d" using assms by (simp add: bc_inv_def)
  show ca: "cached c' = cached c"
  proof
    fix num
    have "cached c' num = Some b \<longleftrightarrow> cached c num = Some b" for b
      unfolding cached_Some [OF bc_invD(8) [OF i]] cached_Some [OF bc_invD(8) [OF assms(1)]] using assms(3,4) by simp
    then show "cached c' num = cached c num" by (metis option.exhaust)
  qed
  show "bc_view cont c' d = bc_view cont c d" by (rule ext) (simp add: bc_view_def ca assms(2,3) split: option.split)
qed

lemma lru_find_find: "map_option fst (lru_find blocks num depth l) = List.find (\<lambda>b. bb_blocknum (blocks b) = num) l"
  by (induction l arbitrary: depth) auto

lemma find_block_ok:
  assumes "bc_inv good cont tot c d"
  obtains c' where "find_block num c = (cached c num, c')" and "bc_inv good cont tot c' d" and "bc_view cont c' d = bc_view cont c d"
    and "cached c' = cached c" and "bc_blocks c' = bc_blocks c" and "set (bc_lru_list c') = set (bc_lru_list c)"
    and "bc_free_list c' = bc_free_list c" and "bc_block_size c' = bc_block_size c"
proof (cases "lru_find (bc_blocks c) num 0 (bc_lru_list c)")
  case None
  then have ca: "cached c num = None" using lru_find_find [of "bc_blocks c" num 0 "bc_lru_list c"] by (simp add: cached_def)
  let ?c = "c\<lparr>bc_stats := (bc_stats c)\<lparr>st_misses := st_misses (bc_stats c) + 1\<rparr>\<rparr>"
  have e: "find_block num c = (cached c num, ?c)" using None ca by (simp add: find_block_def Let_def)
  have f: "bc_block_size ?c = bc_block_size c" "bc_blocks ?c = bc_blocks c" "set (bc_lru_list ?c) = set (bc_lru_list c)"
      "distinct (bc_lru_list ?c)" "bc_free_list ?c = bc_free_list c" using bc_invD(5) [OF assms] by simp_all
  from that [OF e bc_inv_cong [OF assms f] f(2,3,5,1)] show ?thesis .
next
  case (Some x)
  then obtain b dp where x: "lru_find (bc_blocks c) num 0 (bc_lru_list c) = Some (b, dp)" by (cases x) auto
  then have ca: "cached c num = Some b" using lru_find_find [of "bc_blocks c" num 0 "bc_lru_list c"] by (simp add: cached_def)
  then have b: "b \<in> set (bc_lru_list c)" using cached_Some [OF bc_invD(8) [OF assms]] by simp
  define c' where "c' = (let c1 = to_tail b c; st = bc_stats c1 in c1\<lparr>bc_stats := st\<lparr>st_hits := st_hits st + 1, st_depth := st_depth st + dp\<rparr>\<rparr>)"
  have e: "find_block num c = (cached c num, c')" using x ca by (simp add: find_block_def Let_def c'_def)
  have f: "bc_block_size c' = bc_block_size c" "bc_blocks c' = bc_blocks c" "set (bc_lru_list c') = set (bc_lru_list c)"
      "distinct (bc_lru_list c')" "bc_free_list c' = bc_free_list c"
    using bc_invD(5) [OF assms] b by (auto simp: c'_def to_tail_def Let_def)
  from that [OF e bc_inv_cong [OF assms f] f(2,3,5,1)] show ?thesis .
qed

lemma to_int_small: "0 \<le> r \<Longrightarrow> r < 2 ^ 31 \<Longrightarrow> to_int r = r"
  unfolding to_int_def by (intro signed_take_bit_int_eq_self) simp_all

text \<open>A buffer that is not in use becomes the block \<open>num\<close>.\<close>

lemma install:
  assumes inv: "bc_inv good cont tot c d" and b: "b \<in> set (bc_free_list c)" and "cached c num = None"
    and "num * bc_block_size c + bc_block_size c \<le> tot" and blk: "bb_blocknum blk = num" "length (bb_ptr blk) = bc_block_size c"
    and cl: "\<not> bb_is_dirty blk \<longrightarrow> bb_ptr blk = block_at (bc_block_size c) num (cont d)"
    and c': "bc_block_size c' = bc_block_size c" "bc_blocks c' = (bc_blocks c)(b := blk)" "bc_lru_list c' = bc_lru_list c @ [b]"
      "bc_free_list c' = remove1 b (bc_free_list c)"
  shows "bc_inv good cont tot c' d" "bc_view cont c' d = (bc_view cont c d)(num := bb_ptr blk)" "cached c' num = Some b"
proof -
  note i = bc_invD [OF inv]
  have nb: "b \<notin> set (bc_lru_list c)" using b i(7) by auto
  have nn: "\<And>x. x \<in> set (bc_lru_list c) \<Longrightarrow> bb_blocknum (bc_blocks c x) \<noteq> num" using assms(3) by (auto simp: cached_None)
  show i': "bc_inv good cont tot c' d"
  proof -
    have "inj_on (\<lambda>x. bb_blocknum (bc_blocks c' x)) (set (bc_lru_list c'))"
    proof (rule inj_onI)
      fix x y
      assume a: "x \<in> set (bc_lru_list c')" "y \<in> set (bc_lru_list c')" "bb_blocknum (bc_blocks c' x) = bb_blocknum (bc_blocks c' y)"
      have x: "z = b \<or> z \<in> set (bc_lru_list c) \<and> bb_blocknum (bc_blocks c' z) = bb_blocknum (bc_blocks c z)" if "z \<in> set (bc_lru_list c')" for z
        using that by (auto simp: c')
      have b': "bb_blocknum (bc_blocks c' b) = num" by (simp add: c' blk)
      show "x = y" using a(3) x [OF a(1)] x [OF a(2)] b' nn inj_onD [OF i(8), of x y] by metis
    qed
    then show ?thesis unfolding bc_inv_def using i(1-7) i(9-13) b nb assms(4) blk cl by (auto simp: c')
  qed
  have ca: "cached c' k = (if k = num then Some b else cached c k)" for k
  proof -
    have "cached c' k = Some x \<longleftrightarrow> (if k = num then Some b else cached c k) = Some x" for x
      unfolding cached_Some [OF bc_invD(8) [OF i']] using cached_Some [OF i(8), of k x] blk(1) nb nn
      by (auto simp: c')
    then show ?thesis by (metis option.exhaust)
  qed
  show "cached c' num = Some b" by (simp add: ca)
  show "bc_view cont c' d = (bc_view cont c d)(num := bb_ptr blk)"
  proof
    fix k show "bc_view cont c' d k = ((bc_view cont c d)(num := bb_ptr blk)) k"
    proof (cases "k = num")
      case False
      have "cached c k \<noteq> Some b" using cached_Some [OF i(8), of k b] nb by simp
      with False show ?thesis by (auto simp: bc_view_def ca c' split: option.split)
    qed (simp add: bc_view_def ca c')
  qed
qed

text \<open>Changing a cached block in place.\<close>

lemma change_cached:
  assumes inv: "bc_inv good cont tot c d" and ca: "cached c num = Some b" and f: "bb_blocknum blk = num" "length (bb_ptr blk) = bc_block_size c"
    and cl: "\<not> bb_is_dirty blk \<longrightarrow> bb_ptr blk = block_at (bc_block_size c) num (cont d)"
  shows "bc_inv good cont tot (upd_block b (\<lambda>_. blk) c) d" "bc_view cont (upd_block b (\<lambda>_. blk) c) d = (bc_view cont c d)(num := bb_ptr blk)"
    "cached (upd_block b (\<lambda>_. blk) c) = cached c"
proof -
  note i = bc_invD [OF inv]
  have b: "b \<in> set (bc_lru_list c)" "bb_blocknum (bc_blocks c b) = num" using ca cached_Some [OF i(8)] by auto
  have nf: "b \<notin> set (bc_free_list c)" using b(1) i(7) by auto
  let ?c = "upd_block b (\<lambda>_. blk) c"
  have fl: "bc_block_size ?c = bc_block_size c" "bc_lru_list ?c = bc_lru_list c" "bc_free_list ?c = bc_free_list c"
    "bc_blocks ?c = (bc_blocks c)(b := blk)" by (simp_all add: upd_block_def)
  have num: "bb_blocknum (bc_blocks ?c x) = bb_blocknum (bc_blocks c x)" for x using b(2) f(1) by (simp add: fl)
  show "bc_inv good cont tot ?c d"
    unfolding bc_inv_def num fl(1-3) using i b nf f cl by (auto simp: fl)
  show cc: "cached ?c = cached c" by (rule ext) (simp add: cached_def num fl(2))
  show "bc_view cont ?c d = (bc_view cont c d)(num := bb_ptr blk)"
  proof
    fix k show "bc_view cont ?c d k = ((bc_view cont c d)(num := bb_ptr blk)) k"
    proof (cases "k = num")
      case True
      then show ?thesis using ca by (simp add: bc_view_def cc fl)
    next
      case False
      then have "cached c k \<noteq> Some b" using cached_Some [OF i(8), of k b] b(2) by simp
      with False show ?thesis by (auto simp: bc_view_def cc fl split: option.split)
    qed
  qed
qed

context byte_bdev
begin

lemma flush_block_ok:
  assumes inv: "bc_inv good cont total c d" and b: "b \<in> set (bc_lru_list c)"
  obtains c' d' where "flush_block dev b c d = Some (0, c', d')" and "bc_inv good cont total c' d'" and "bc_view cont c' d' = bc_view cont c d"
    and "cached c' = cached c" and "bc_blocks c' = (bc_blocks c)(b := (bc_blocks c b)\<lparr>bb_is_dirty := False\<rparr>)" and "bc_lru_list c' = bc_lru_list c"
    and "bc_free_list c' = bc_free_list c" and "bc_block_size c' = bc_block_size c"
proof -
  note i = bc_invD [OF inv]
  let ?bs = "bc_block_size c" and ?blk = "bc_blocks c b"
  let ?n = "bb_blocknum ?blk"
  have in_tot: "?n * ?bs + ?bs \<le> total" using i(12) [OF b] .
  have l: "length (bb_ptr ?blk) = ?bs" using i(9) [OF b] .
  have sz: "?n * ?bs + ?bs < 2 ^ 63" "?bs < 2 ^ 32" "?bs \<le> length (bb_ptr ?blk)" using in_tot i(3,4) l by simp_all
  have m: "min ?bs (total - ?n * ?bs) = ?bs" using in_tot by simp
  obtain d' where d': "bio_write dev 0 (bb_ptr ?blk) (int (?n * ?bs)) ?bs d = Some (int ?bs, d')" "good d'"
      "cont d' = patch (?n * ?bs) (bb_ptr ?blk) (cont d)"
    using write_bytes [OF i(1) sz, of 0] l unfolding m by auto
  have r: "to_int (int ?bs) = int ?bs" using i(3) by (intro to_int_small) simp_all
  define c' where "c' = (let c1 = upd_block b (\<lambda>blk. blk\<lparr>bb_is_dirty := False\<rparr>) c in
    c1\<lparr>bc_stats := (bc_stats c1)\<lparr>st_writes := st_writes (bc_stats c1) + 1\<rparr>\<rparr>)"
  have e: "flush_block dev b c d = Some (0, c', d')"
    unfolding flush_block_def Let_def d'(1) c'_def using r by (simp del: of_nat_mult)
  have fl: "bc_block_size c' = ?bs" "bc_lru_list c' = bc_lru_list c" "bc_free_list c' = bc_free_list c"
      "bc_blocks c' = (bc_blocks c)(b := ?blk\<lparr>bb_is_dirty := False\<rparr>)" by (simp_all add: c'_def upd_block_def Let_def)
  have num: "bb_blocknum (bc_blocks c' x) = bb_blocknum (bc_blocks c x)" "bb_ptr (bc_blocks c' x) = bb_ptr (bc_blocks c x)" for x by (simp_all add: fl)
  have at: "block_at ?bs k (cont d') = (if k = ?n then bb_ptr ?blk else block_at ?bs k (cont d))" if "k * ?bs + ?bs \<le> total" for k
    unfolding d'(3) using that in_tot l length_bytes [OF i(1)] by (intro block_at_patch) simp_all
  have inj: "bb_blocknum (bc_blocks c x) = ?n \<longleftrightarrow> x = b" if "x \<in> set (bc_lru_list c)" for x
    using i(8) that b by (auto dest: inj_onD)
  have inv': "bc_inv good cont total c' d'"
    unfolding bc_inv_def num fl(1-3) using i d'(2) at inj by (auto simp: fl)
  have cc: "cached c' = cached c" by (rule ext) (simp add: cached_def num fl(2))
  have "bc_view cont c' d' k = bc_view cont c d k" for k
  proof (cases "cached c k")
    case None
    then have "k \<noteq> ?n" using b by (auto simp: cached_None)
    have "block_at ?bs k (cont d') = block_at ?bs k (cont d)"
      unfolding d'(3) block_at_def using in_tot l length_bytes [OF i(1)] blocks_apart [OF \<open>k \<noteq> ?n\<close>, of ?bs] by (intro seg_patch_other) auto
    with None show ?thesis by (simp add: bc_view_def cc fl)
  qed (simp add: bc_view_def cc num)
  then have "bc_view cont c' d' = bc_view cont c d" by blast
  with that [OF e inv' _ cc fl(4,2,3,1)] show ?thesis by blast
qed

end

section \<open>Every operation keeps the view\<close>

text \<open>A buffer can be had: one is free or one of the used ones is not held.\<close>

definition can_alloc_block :: "bcache \<Rightarrow> bool" where
  "can_alloc_block c \<longleftrightarrow> bc_free_list c \<noteq> [] \<or> (\<exists>b\<in>set (bc_lru_list c). bb_ref_count (bc_blocks c b) = 0)"

lemma ref_count_only:
  fixes b r defines "f \<equiv> upd_block b (\<lambda>blk. blk\<lparr>bb_ref_count := r (bb_ref_count blk)\<rparr>)"
  assumes "bc_inv good cont tot c d"
  shows "bc_inv good cont tot (f c) d" "bc_view cont (f c) d = bc_view cont c d" "cached (f c) = cached c"
proof -
  have e: "bb_blocknum (bc_blocks (f c) x) = bb_blocknum (bc_blocks c x)" "bb_ptr (bc_blocks (f c) x) = bb_ptr (bc_blocks c x)"
    "bb_is_dirty (bc_blocks (f c) x) = bb_is_dirty (bc_blocks c x)" for x by (simp_all add: f_def upd_block_def)
  have l: "bc_lru_list (f c) = bc_lru_list c" "bc_free_list (f c) = bc_free_list c" "bc_block_size (f c) = bc_block_size c"
    by (simp_all add: f_def upd_block_def)
  show "bc_inv good cont tot (f c) d" using assms(2) unfolding bc_inv_def e l .
  show c: "cached (f c) = cached c" by (rule ext) (simp only: cached_def e l)
  show "bc_view cont (f c) d = bc_view cont c d" by (rule ext) (simp only: bc_view_def c e l)
qed

text \<open>A clean block that leaves the used list leaves the view alone.\<close>

lemma evict:
  assumes inv: "bc_inv good cont tot c d" and b: "b \<in> set (bc_lru_list c)" "\<not> bb_is_dirty (bc_blocks c b)"
  defines "c1 \<equiv> c\<lparr>bc_lru_list := remove1 b (bc_lru_list c), bc_free_list := b # bc_free_list c\<rparr>"
  shows "bc_inv good cont tot c1 d" "bc_view cont c1 d = bc_view cont c d" "cached c num = None \<Longrightarrow> cached c1 num = None"
proof -
  note i = bc_invD [OF inv]
  have s: "set (remove1 b (bc_lru_list c)) = set (bc_lru_list c) - {b}" using i(5) by simp
  show i1: "bc_inv good cont tot c1 d"
    using inv b i(5) i(9) [OF b(1)] unfolding bc_inv_def c1_def by (auto intro: inj_on_subset)
  show "cached c1 num = None" if "cached c num = None" using that by (auto simp: cached_None c1_def s)
  show "bc_view cont c1 d = bc_view cont c d"
  proof
    fix k
    have ca: "cached c1 k = Some x \<longleftrightarrow> cached c k = Some x \<and> x \<noteq> b" for x
      unfolding cached_Some [OF bc_invD(8) [OF i1]] cached_Some [OF i(8)] by (auto simp: c1_def s)
    show "bc_view cont c1 d k = bc_view cont c d k"
    proof (cases "cached c k = Some b")
      case True
      then have "cached c1 k = None" using ca by (metis option.exhaust option.inject)
      moreover have "bb_blocknum (bc_blocks c b) = k" using True cached_Some [OF i(8)] by simp
      ultimately show ?thesis using True i(13) [OF b] by (simp add: bc_view_def c1_def)
    next
      case False
      then have "cached c1 k = cached c k" using ca by (metis option.exhaust)
      then show ?thesis by (simp add: bc_view_def c1_def split: option.split)
    qed
  qed
qed

context byte_bdev
begin

lemma alloc_block_ok:
  assumes inv: "bc_inv good cont total c d" and "can_alloc_block c"
  obtains b c1 c' d' where "alloc_block dev c d = Some (Some b, c', d')" and "bc_inv good cont total c1 d'" and "b \<in> set (bc_free_list c1)"
    and "bc_view cont c1 d' = bc_view cont c d" and "\<forall>num. cached c num = None \<longrightarrow> cached c1 num = None" and "bc_block_size c1 = bc_block_size c"
    and "bc_blocks c' = bc_blocks c1" and "bc_lru_list c' = bc_lru_list c1 @ [b]" and "bc_free_list c' = remove1 b (bc_free_list c1)"
    and "bc_block_size c' = bc_block_size c"
proof (cases "bc_free_list c")
  case (Cons b fs)
  let ?c1 = "upd_block b (\<lambda>blk. blk\<lparr>bb_ref_count := (\<lambda>_. 0) (bb_ref_count blk)\<rparr>) c"
  note r = ref_count_only [OF inv, of b "\<lambda>_. 0"]
  let ?c' = "?c1\<lparr>bc_free_list := fs, bc_lru_list := bc_lru_list c @ [b]\<rparr>"
  have e: "alloc_block dev c d = Some (Some b, ?c', d)" using Cons by (simp add: alloc_block_def upd_block_def Let_def)
  show ?thesis
    by (rule that [OF e r(1) _ r(2)]) (use Cons r(3) in \<open>simp_all add: upd_block_def\<close>)
next
  case Nil
  then obtain b where b: "List.find (\<lambda>b. bb_ref_count (bc_blocks c b) = 0) (bc_lru_list c) = Some b"
    using assms(2) by (cases "List.find (\<lambda>b. bb_ref_count (bc_blocks c b) = 0) (bc_lru_list c)") (auto simp: can_alloc_block_def find_None_iff)
  then have bl: "b \<in> set (bc_lru_list c)" by (auto simp: find_Some_iff)
  obtain c2 d' where f: "(if bb_is_dirty (bc_blocks c b) then flush_block dev b c d else Some (0, c, d)) = Some (0, c2, d')"
      "bc_inv good cont total c2 d'" "bc_view cont c2 d' = bc_view cont c d" "cached c2 = cached c" "\<not> bb_is_dirty (bc_blocks c2 b)"
      "bc_lru_list c2 = bc_lru_list c" "bc_free_list c2 = bc_free_list c" "bc_block_size c2 = bc_block_size c"
  proof (cases "bb_is_dirty (bc_blocks c b)")
    case True
    obtain c2 d' where "flush_block dev b c d = Some (0, c2, d')" "bc_inv good cont total c2 d'" "bc_view cont c2 d' = bc_view cont c d"
        "cached c2 = cached c" "bc_blocks c2 = (bc_blocks c)(b := (bc_blocks c b)\<lparr>bb_is_dirty := False\<rparr>)" "bc_lru_list c2 = bc_lru_list c"
        "bc_free_list c2 = bc_free_list c" "bc_block_size c2 = bc_block_size c"
      by (rule flush_block_ok [OF inv bl])
    with True that [of c2 d'] show ?thesis by simp
  next
    case False
    with inv that [of c d] show ?thesis by simp
  qed
  have e: "alloc_block dev c d = Some (Some b, to_tail b c2, d')"
    unfolding alloc_block_def Nil list.case b option.case f(1) by simp
  have bl2: "b \<in> set (bc_lru_list c2)" using bl f(6) by simp
  note ev = evict [OF f(2) bl2 f(5)]
  show ?thesis
    by (rule that [OF e ev(1)]) (use Nil f ev(2,3) in \<open>simp_all add: to_tail_def\<close>)
qed

lemma find_or_fill_ok:
  assumes inv: "bc_inv good cont total c d" and al: "can_alloc_block c \<or> cached c num \<noteq> None" and "num * bc_block_size c + bc_block_size c \<le> total"
  obtains b c' d' where "find_or_fill_block dev num c d = Some (Some b, c', d')" and "bc_inv good cont total c' d'"
    and "bc_view cont c' d' = bc_view cont c d" and "cached c' num = Some b" and "bc_block_size c' = bc_block_size c"
proof -
  obtain c0 where c0: "find_block num c = (cached c num, c0)" "bc_inv good cont total c0 d" "bc_view cont c0 d = bc_view cont c d"
      "cached c0 = cached c" "bc_blocks c0 = bc_blocks c" "set (bc_lru_list c0) = set (bc_lru_list c)" "bc_free_list c0 = bc_free_list c"
      "bc_block_size c0 = bc_block_size c"
    by (rule find_block_ok [OF inv])
  show ?thesis
  proof (cases "cached c num")
    case (Some b)
    then have "bb_blocknum (bc_blocks c0 b) = num" using cached_Some [OF bc_invD(8) [OF inv]] c0(5) by simp
    then have "find_or_fill_block dev num c d = Some (Some b, c0, d)" using c0(1) Some by (simp add: find_or_fill_block_def)
    from that [OF this c0(2,3)] Some c0(4,8) show ?thesis by simp
  next
    case None
    then have ca: "can_alloc_block c0" using al c0(5,6,7) by (simp add: can_alloc_block_def)
    obtain b c1 c2 d1 where a: "alloc_block dev c0 d = Some (Some b, c2, d1)" "bc_inv good cont total c1 d1" "b \<in> set (bc_free_list c1)"
        "bc_view cont c1 d1 = bc_view cont c0 d" "\<forall>num. cached c0 num = None \<longrightarrow> cached c1 num = None" "bc_block_size c1 = bc_block_size c0"
        "bc_blocks c2 = bc_blocks c1" "bc_lru_list c2 = bc_lru_list c1 @ [b]" "bc_free_list c2 = remove1 b (bc_free_list c1)" "bc_block_size c2 = bc_block_size c0"
      by (rule alloc_block_ok [OF c0(2) ca])
    let ?bs = "bc_block_size c"
    note i = bc_invD [OF a(2)] and j = bc_invD [OF inv]
    have sz: "num * ?bs + ?bs < 2 ^ 63" "?bs < 2 ^ 32" using assms(3) j(3,4) by simp_all
    have m: "min ?bs (total - num * ?bs) = ?bs" using assms(3) by simp
    obtain d2 where d2: "bio_read dev 0 (int (num * ?bs)) ?bs d1 = Some (int ?bs, block_at ?bs num (cont d1), d2)" "good d2" "cont d2 = cont d1"
      using read_bytes [OF i(1) sz, of 0] unfolding m block_at_def by auto
    have r: "\<not> to_int (int ?bs) < 0" using j(3) to_int_small [of "int ?bs"] by simp
    have n1: "cached c1 num = None" using a(5) None c0(4) by simp
    have l: "length (block_at ?bs num (cont d1)) = ?bs" using assms(3) length_bytes [OF i(1)] by (simp add: block_at_def)
    have lp: "length (bb_ptr (bc_blocks c1 b)) = ?bs" using i(10) [OF a(3)] a(6) c0(8) by simp
    have w: "mem_write 0 (block_at ?bs num (cont d1)) (bb_ptr (bc_blocks c1 b)) = Some (block_at ?bs num (cont d1))"
      using l lp by (simp add: mem_write_def patch_def)
    define blk where "blk = (bc_blocks c1 b)\<lparr>bb_blocknum := num, bb_ptr := block_at ?bs num (cont d1)\<rparr>"
    define c' where "c' = c2\<lparr>bc_blocks := (bc_blocks c2)(b := blk), bc_stats := (bc_stats c2)\<lparr>st_reads := st_reads (bc_stats c2) + 1\<rparr>\<rparr>"
    have e: "find_or_fill_block dev num c d = Some (Some b, c', d2)"
      using c0(1) None a(1) d2(1) r w c0(8) a(7,10) by (simp add: find_or_fill_block_def upd_block_def c'_def blk_def Let_def)
    have inv2: "bc_inv good cont total c1 d2" "bc_view cont c1 d2 = bc_view cont c1 d1"
      using a(2) d2(2) by (simp_all add: bc_inv_def bc_view_def fun_eq_iff d2(3) split: option.split)
    have sz1: "num * bc_block_size c1 + bc_block_size c1 \<le> total" using assms(3) a(6) c0(8) by simp
    have ins: "bc_inv good cont total c' d2" "bc_view cont c' d2 = (bc_view cont c1 d2)(num := bb_ptr blk)" "cached c' num = Some b"
      using install [OF inv2(1) a(3) n1 sz1, of blk c'] l a(6-10) c0(8) d2(3) by (simp_all add: blk_def c'_def)
    have "bc_view cont c1 d2 num = bb_ptr blk" using n1 a(6) c0(8) d2(3) by (simp add: bc_view_def blk_def)
    then have "bc_view cont c' d2 = bc_view cont c d" unfolding ins(2) inv2(2) a(4) c0(3) by (metis fun_upd_triv a(4) c0(3) inv2(2))
    from that [OF e ins(1) this ins(3)] show ?thesis using a(10) c0(8) by (simp add: c'_def)
  qed
qed

end

context byte_bdev
begin

lemma read_block_ok:
  assumes "bc_inv good cont total c d" and "can_alloc_block c \<or> cached c num \<noteq> None" and "num * bc_block_size c + bc_block_size c \<le> total"
  shows "\<exists>c' d'. bcache_read_block dev num c d = Some (0, bc_view cont c d num, c', d') \<and> bc_inv good cont total c' d' \<and>
    bc_view cont c' d' = bc_view cont c d"
proof -
  obtain b c' d' where f: "find_or_fill_block dev num c d = Some (Some b, c', d')" "bc_inv good cont total c' d'"
      "bc_view cont c' d' = bc_view cont c d" "cached c' num = Some b" "bc_block_size c' = bc_block_size c"
    by (rule find_or_fill_ok [OF assms])
  have b: "b \<in> set (bc_lru_list c')" using f(4) cached_Some [OF bc_invD(8) [OF f(2)]] by simp
  have "bc_view cont c' d' num = bb_ptr (bc_blocks c' b)" using f(4) by (simp add: bc_view_def)
  with f bc_invD(9) [OF f(2) b] show ?thesis by (simp add: bcache_read_block_def mem_read_def)
qed

lemma get_block_ok:
  assumes "bc_inv good cont total c d" and "can_alloc_block c \<or> cached c num \<noteq> None" and "num * bc_block_size c + bc_block_size c \<le> total"
  shows "\<exists>b c' d'. bcache_get_block dev num c d = Some (0, Some b, c', d') \<and> bc_inv good cont total c' d' \<and>
    bc_view cont c' d' = bc_view cont c d \<and> cached c' num = Some b \<and> bb_ptr (bc_blocks c' b) = bc_view cont c d num \<and>
    bc_block_size c' = bc_block_size c"
proof -
  obtain b c' d' where f: "find_or_fill_block dev num c d = Some (Some b, c', d')" "bc_inv good cont total c' d'"
      "bc_view cont c' d' = bc_view cont c d" "cached c' num = Some b" "bc_block_size c' = bc_block_size c"
    by (rule find_or_fill_ok [OF assms])
  note r = ref_count_only [OF f(2), of b "\<lambda>x. x + 1"]
  have "bc_view cont c' d' num = bb_ptr (bc_blocks c' b)" using f(4) by (simp add: bc_view_def)
  then show ?thesis using f r by (simp add: bcache_get_block_def upd_block_def)
qed

text \<open>Storing into a cached block and marking it dirty writes the block.\<close>

lemma store_ok:
  assumes inv: "bc_inv good cont total c d" and ca: "cached c num = Some b" and "length data = bc_block_size c"
  shows "\<exists>c'. bcache_mark_block_dirty num (block_store b data c) = (0, c') \<and> bc_inv good cont total c' d \<and>
    bc_view cont c' d = (bc_view cont c d)(num := data)"
proof -
  note i = bc_invD [OF inv]
  have b: "bb_blocknum (bc_blocks c b) = num" using ca cached_Some [OF i(8)] by simp
  define blk where "blk = (bc_blocks c b)\<lparr>bb_ptr := data, bb_is_dirty := True\<rparr>"
  have blk: "bb_blocknum blk = num" "length (bb_ptr blk) = bc_block_size c" "\<not> bb_is_dirty blk \<longrightarrow> bb_ptr blk = block_at (bc_block_size c) num (cont d)"
    using b assms(3) by (simp_all add: blk_def)
  note ch = change_cached [OF inv ca blk]
  let ?s = "block_store b data c"
  have num: "bb_blocknum (bc_blocks ?s x) = bb_blocknum (bc_blocks c x)" for x by (simp add: block_store_def upd_block_def)
  have ls: "bc_lru_list ?s = bc_lru_list c" by (simp add: block_store_def upd_block_def)
  have lf: "lru_find (bc_blocks ?s) num dp l = lru_find (bc_blocks c) num dp l" for dp l by (induction l arbitrary: dp) (simp_all add: num)
  obtain dp where dp: "lru_find (bc_blocks c) num 0 (bc_lru_list c) = Some (b, dp)"
    using lru_find_find [of "bc_blocks c" num 0 "bc_lru_list c"] ca by (auto simp: cached_def)
  have bl: "b \<in> set (bc_lru_list c)" using ca cached_Some [OF i(8)] by simp
  define st where "st = (let s = bc_stats (to_tail b ?s) in s\<lparr>st_hits := st_hits s + 1, st_depth := st_depth s + dp\<rparr>)"
  have fb: "find_block num ?s = (Some b, (to_tail b ?s)\<lparr>bc_stats := st\<rparr>)"
    unfolding find_block_def lf ls dp by (simp add: st_def Let_def)
  define c' where "c' = upd_block b (\<lambda>blk. blk\<lparr>bb_is_dirty := True\<rparr>) ((to_tail b ?s)\<lparr>bc_stats := st\<rparr>)"
  have e: "bcache_mark_block_dirty num ?s = (0, c')" by (simp add: bcache_mark_block_dirty_def fb c'_def)
  have f: "bc_block_size c' = bc_block_size (upd_block b (\<lambda>_. blk) c)" "bc_blocks c' = bc_blocks (upd_block b (\<lambda>_. blk) c)"
      "set (bc_lru_list c') = set (bc_lru_list (upd_block b (\<lambda>_. blk) c))" "distinct (bc_lru_list c')"
      "bc_free_list c' = bc_free_list (upd_block b (\<lambda>_. blk) c)"
    unfolding c'_def using bl i(5) by (auto simp: to_tail_def upd_block_def block_store_def blk_def)
  note cg = bc_inv_cong [OF ch(1) f]
  have "bb_ptr blk = data" by (simp add: blk_def)
  with e cg ch(2) show ?thesis by auto
qed

lemma zero_block_ok:
  assumes inv: "bc_inv good cont total c d" and al: "can_alloc_block c \<or> cached c num \<noteq> None" and "num * bc_block_size c + bc_block_size c \<le> total"
  shows "\<exists>c' d'. bcache_zero_block dev num c d = Some (0, c', d') \<and> bc_inv good cont total c' d' \<and>
    bc_view cont c' d' = (bc_view cont c d)(num := replicate (bc_block_size c) 0)"
proof -
  obtain c0 where c0: "find_block num c = (cached c num, c0)" "bc_inv good cont total c0 d" "bc_view cont c0 d = bc_view cont c d"
      "cached c0 = cached c" "bc_blocks c0 = bc_blocks c" "set (bc_lru_list c0) = set (bc_lru_list c)" "bc_free_list c0 = bc_free_list c"
      "bc_block_size c0 = bc_block_size c"
    by (rule find_block_ok [OF inv])
  let ?z = "replicate (bc_block_size c) (0 :: u8)"
  show ?thesis
  proof (cases "cached c num")
    case (Some b)
    then have ca: "cached c0 num = Some b" using c0(4) by simp
    then have b: "b \<in> set (bc_lru_list c0)" "bb_blocknum (bc_blocks c0 b) = num" using cached_Some [OF bc_invD(8) [OF c0(2)]] by auto
    define blk where "blk = (bc_blocks c0 b)\<lparr>bb_ptr := ?z, bb_is_dirty := True\<rparr>"
    have blk: "bb_blocknum blk = num" "length (bb_ptr blk) = bc_block_size c0" "\<not> bb_is_dirty blk \<longrightarrow> bb_ptr blk = block_at (bc_block_size c0) num (cont d)"
      using b(2) c0(8) by (simp_all add: blk_def)
    have "bcache_zero_block dev num c d = Some (0, upd_block b (\<lambda>_. blk) c0, d)"
      using c0(1,8) Some bc_invD(9) [OF c0(2) b(1)] by (simp add: bcache_zero_block_def mem_write_def patch_def upd_block_def blk_def)
    with change_cached [OF c0(2) ca blk] c0(3) show ?thesis by (simp add: blk_def)
  next
    case None
    then have ca: "can_alloc_block c0" using al c0(5,6,7) by (simp add: can_alloc_block_def)
    obtain b c1 c2 d1 where a: "alloc_block dev c0 d = Some (Some b, c2, d1)" "bc_inv good cont total c1 d1" "b \<in> set (bc_free_list c1)"
        "bc_view cont c1 d1 = bc_view cont c0 d" "\<forall>num. cached c0 num = None \<longrightarrow> cached c1 num = None" "bc_block_size c1 = bc_block_size c0"
        "bc_blocks c2 = bc_blocks c1" "bc_lru_list c2 = bc_lru_list c1 @ [b]" "bc_free_list c2 = remove1 b (bc_free_list c1)" "bc_block_size c2 = bc_block_size c0"
      by (rule alloc_block_ok [OF c0(2) ca])
    have n1: "cached c1 num = None" using a(5) None c0(4) by simp
    have sz1: "num * bc_block_size c1 + bc_block_size c1 \<le> total" using assms(3) a(6) c0(8) by simp
    have lp: "length (bb_ptr (bc_blocks c1 b)) = bc_block_size c" using bc_invD(10) [OF a(2,3)] a(6) c0(8) by simp
    define blk where "blk = (bc_blocks c1 b)\<lparr>bb_blocknum := num, bb_ptr := ?z, bb_is_dirty := True\<rparr>"
    define c' where "c' = c2\<lparr>bc_blocks := (bc_blocks c2)(b := blk)\<rparr>"
    have "bcache_zero_block dev num c d = Some (0, c', d1)"
      using c0(1,8) None a(1,7,10) lp by (simp add: bcache_zero_block_def mem_write_def patch_def upd_block_def blk_def c'_def)
    with install [OF a(2,3) n1 sz1, of blk c'] a(4,6-10) c0(3,8) show ?thesis by (simp add: blk_def c'_def)
  qed
qed

lemma flush_list_ok:
  assumes "bc_inv good cont total c d" and "set l \<subseteq> set (bc_lru_list c)"
  shows "\<exists>c' d'. flush_list dev l c d = Some (0, c', d') \<and> bc_inv good cont total c' d' \<and> bc_view cont c' d' = bc_view cont c d \<and>
    cached c' = cached c \<and> bc_lru_list c' = bc_lru_list c \<and> bc_block_size c' = bc_block_size c \<and>
    (\<forall>b. bb_is_dirty (bc_blocks c' b) \<longrightarrow> bb_is_dirty (bc_blocks c b) \<and> b \<notin> set l)"
  using assms
proof (induction l arbitrary: c d)
  case Nil
  then show ?case by simp
next
  case (Cons b l)
  show ?case
  proof (cases "bb_is_dirty (bc_blocks c b)")
    case False
    with Cons.IH [OF Cons.prems(1)] Cons.prems(2) show ?thesis by fastforce
  next
    case True
    have b: "b \<in> set (bc_lru_list c)" using Cons.prems(2) by simp
    obtain c1 d1 where f: "flush_block dev b c d = Some (0, c1, d1)" "bc_inv good cont total c1 d1" "bc_view cont c1 d1 = bc_view cont c d"
        "cached c1 = cached c" "bc_blocks c1 = (bc_blocks c)(b := (bc_blocks c b)\<lparr>bb_is_dirty := False\<rparr>)" "bc_lru_list c1 = bc_lru_list c"
        "bc_free_list c1 = bc_free_list c" "bc_block_size c1 = bc_block_size c"
      by (rule flush_block_ok [OF Cons.prems(1) b])
    have "set l \<subseteq> set (bc_lru_list c1)" using Cons.prems(2) f(6) by simp
    from Cons.IH [OF f(2) this] obtain c' d' where
      ih: "flush_list dev l c1 d1 = Some (0, c', d')" "bc_inv good cont total c' d'" "bc_view cont c' d' = bc_view cont c1 d1"
        "cached c' = cached c1" "bc_lru_list c' = bc_lru_list c1" "bc_block_size c' = bc_block_size c1"
        "\<forall>b. bb_is_dirty (bc_blocks c' b) \<longrightarrow> bb_is_dirty (bc_blocks c1 b) \<and> b \<notin> set l" by blast
    have "flush_list dev (b # l) c d = Some (0, c', d')" using True f(1) ih(1) by simp
    moreover have "bb_is_dirty (bc_blocks c x) \<and> x \<notin> set (b # l)" if "bb_is_dirty (bc_blocks c' x)" for x
      using ih(7) that f(5) by (cases "x = b") auto
    ultimately show ?thesis using f ih by auto
  qed
qed

text \<open>After a flush the device itself is what the cache showed.\<close>

lemma flush_ok:
  assumes "bc_inv good cont total c d"
  shows "\<exists>c' d'. bcache_flush dev c d = Some (0, c', d') \<and> bc_inv good cont total c' d' \<and> bc_view cont c' d' = bc_view cont c d \<and>
    (\<forall>num. block_at (bc_block_size c) num (cont d') = bc_view cont c d num)"
proof -
  obtain c' d' where f: "flush_list dev (bc_lru_list c) c d = Some (0, c', d')" "bc_inv good cont total c' d'"
      "bc_view cont c' d' = bc_view cont c d" "bc_lru_list c' = bc_lru_list c" "bc_block_size c' = bc_block_size c"
      "\<forall>b. bb_is_dirty (bc_blocks c' b) \<longrightarrow> bb_is_dirty (bc_blocks c b) \<and> b \<notin> set (bc_lru_list c)"
    using flush_list_ok [OF assms, of "bc_lru_list c"] by auto
  note i = bc_invD [OF f(2)]
  have "block_at (bc_block_size c) num (cont d') = bc_view cont c' d' num" for num
  proof (cases "cached c' num")
    case (Some b)
    then have b: "b \<in> set (bc_lru_list c')" "bb_blocknum (bc_blocks c' b) = num" using cached_Some [OF i(8)] by auto
    then have "\<not> bb_is_dirty (bc_blocks c' b)" using f(4,6) by auto
    from i(13) [OF b(1) this] Some b(2) f(5) show ?thesis by (simp add: bc_view_def)
  qed (use f(5) in \<open>simp add: bc_view_def\<close>)
  with f(1-3) show ?thesis by (simp add: bcache_flush_def)
qed

end

lemma create_ok:
  assumes "good d" and "0 < bs" and "bs < 2 ^ 31" and "tot < 2 ^ 62" and "\<And>i. i < cnt \<Longrightarrow> length (bb_ptr (heap i)) = bs"
  shows "bc_inv good cont tot (bcache_create heap bs cnt) d" "bc_view cont (bcache_create heap bs cnt) d num = block_at bs num (cont d)"
  using assms by (auto simp: bc_inv_def bcache_create_def bc_view_def cached_def)

section \<open>Properties\<close>

definition demo_cache :: bcache where
  "demo_cache = bcache_create (\<lambda>_. \<lparr>bb_blocknum = 0, bb_ref_count = 0, bb_is_dirty = False, bb_ptr = replicate 512 0\<rparr>) 512 2"

text \<open>
  C35: the cache refines the device: what a user sees at a block number, the cached block or else the one on the device, is what
  \<^verbatim>\<open>bcache_read_block\<close> returns, also when it has to write back another block to make room; reading changes nothing a
  user can see. \<^verbatim>\<open>bcache_zero_block\<close>, and storing through the pointer of \<^verbatim>\<open>bcache_get_block\<close> followed by
  \<^verbatim>\<open>bcache_mark_block_dirty\<close>, change exactly the block asked for. After \<^verbatim>\<open>bcache_flush\<close> the device itself
  holds, at every block number, what the cache showed before.
\<close>

theorem bcache_refines_device:
  assumes "byte_bdev dev good cont tot" and "bc_inv good cont tot c d" and "can_alloc_block c \<or> cached c num \<noteq> None"
    and "num * bc_block_size c + bc_block_size c \<le> tot" and "length data = bc_block_size c"
  shows "(\<exists>c' d'. bcache_read_block dev num c d = Some (0, bc_view cont c d num, c', d') \<and> bc_inv good cont tot c' d' \<and>
        bc_view cont c' d' = bc_view cont c d) \<and>
     (\<exists>c' d'. bcache_zero_block dev num c d = Some (0, c', d') \<and> bc_inv good cont tot c' d' \<and>
        bc_view cont c' d' = (bc_view cont c d)(num := replicate (bc_block_size c) 0)) \<and>
     (\<exists>b c1 d1 c2. bcache_get_block dev num c d = Some (0, Some b, c1, d1) \<and> bb_ptr (bc_blocks c1 b) = bc_view cont c d num \<and>
        bcache_mark_block_dirty num (block_store b data c1) = (0, c2) \<and> bc_inv good cont tot c2 d1 \<and>
        bc_view cont c2 d1 = (bc_view cont c d)(num := data)) \<and>
     (\<exists>c' d'. bcache_flush dev c d = Some (0, c', d') \<and> bc_inv good cont tot c' d' \<and> bc_view cont c' d' = bc_view cont c d \<and>
        (\<forall>k. block_at (bc_block_size c) k (cont d') = bc_view cont c d k))"
proof (intro conjI)
  note a = assms(2-4)
  from byte_bdev.get_block_ok [OF assms(1) a] obtain b c1 d1 where
    g: "bcache_get_block dev num c d = Some (0, Some b, c1, d1)" "bc_inv good cont tot c1 d1" "bc_view cont c1 d1 = bc_view cont c d"
      "cached c1 num = Some b" "bb_ptr (bc_blocks c1 b) = bc_view cont c d num" "bc_block_size c1 = bc_block_size c" by blast
  have "length data = bc_block_size c1" using assms(5) g(6) by simp
  from byte_bdev.store_ok [OF assms(1) g(2,4) this] g
  show "\<exists>b c1 d1 c2. bcache_get_block dev num c d = Some (0, Some b, c1, d1) \<and> bb_ptr (bc_blocks c1 b) = bc_view cont c d num \<and>
      bcache_mark_block_dirty num (block_store b data c1) = (0, c2) \<and> bc_inv good cont tot c2 d1 \<and>
      bc_view cont c2 d1 = (bc_view cont c d)(num := data)" by auto
qed (rule byte_bdev.read_block_ok [OF assms(1-4)], rule byte_bdev.zero_block_ok [OF assms(1-4)], rule byte_bdev.flush_ok [OF assms(1,2)])

theorem bcache_refines_device_witness:
  "\<exists>c' d'. bcache_read_block (membdev 0 demo_base ''mem'' 2048) 3 demo_cache (replicate 2048 7) = Some (0, replicate 512 7, c', d')"
proof -
  have g: "mem_good 2048 (replicate 2048 7)" by (simp add: mem_good_def)
  have inv: "bc_inv (mem_good 2048) (\<lambda>d. d) (2048 div 512 * 512) demo_cache (replicate 2048 7)"
    unfolding demo_cache_def by (rule create_ok [where good = "mem_good 2048", OF g]) simp_all
  have "bc_view (\<lambda>d. d) demo_cache (replicate 2048 7) 3 = block_at 512 3 (replicate 2048 7)"
    unfolding demo_cache_def by (rule create_ok(2) [where good = "mem_good 2048" and tot = 0, OF g]) simp_all
  then have v: "bc_view (\<lambda>d. d) demo_cache (replicate 2048 7) 3 = replicate 512 7" by (simp add: block_at_def seg_def)
  have al: "can_alloc_block demo_cache \<or> cached demo_cache 3 \<noteq> None" by (simp add: can_alloc_block_def demo_cache_def bcache_create_def)
  have s: "bc_block_size demo_cache = 512" by (simp add: demo_cache_def bcache_create_def)
  show ?thesis
    using bcache_refines_device [OF mem_bytes.byte_bdev_axioms inv al, of "replicate 512 0" 0 demo_base "''mem''"] unfolding s v by auto
qed

text \<open>A device that fails: the block ends up on both lists.\<close>

lemma read_error_breaks_lists:
  assumes "find_block num c = (None, c0)" and "alloc_block dev c0 d = Some (Some b, c1, d1)"
    and "bio_read dev 0 (int (num * bc_block_size c1)) (bc_block_size c1) d1 = Some (e, data, d2)" and "to_int e < 0"
    and "length data \<le> length (bb_ptr (bc_blocks c1 b))"
  shows "\<exists>c'. bcache_read_block dev num c d = Some (-1, [], c', d2) \<and> b \<in> set (bc_lru_list c') \<and> b \<in> set (bc_free_list c') \<and>
    \<not> bc_inv good cont tot c' d2"
proof -
  obtain ptr where ptr: "mem_write 0 data (bb_ptr (bc_blocks c1 b)) = Some ptr"
    using assms(5) by (simp add: mem_write_def)
  define c2 where "c2 = upd_block b (\<lambda>blk. blk\<lparr>bb_ptr := ptr\<rparr>) (upd_block b (\<lambda>blk. blk\<lparr>bb_blocknum := num\<rparr>) c1)"
  define c' where "c' = c2\<lparr>bc_free_list := bc_free_list c2 @ [b]\<rparr>"
  have "find_or_fill_block dev num c d = Some (None, c', d2)"
    using assms ptr by (simp add: find_or_fill_block_def upd_block_def Let_def c'_def c2_def)
  moreover have "b \<in> set (bc_lru_list c1)"
    using assms(2) by (auto simp: alloc_block_def Let_def to_tail_def upd_block_def split: list.splits option.splits if_splits bind_splits)
  then have "b \<in> set (bc_lru_list c')" "b \<in> set (bc_free_list c')" by (simp_all add: c'_def c2_def upd_block_def)
  moreover from this have "\<not> bc_inv good cont tot c' d2" using bc_invD(7) by fastforce
  ultimately show ?thesis by (auto simp: bcache_read_block_def)
qed

end
