(* ===== verification/LK_Path.thy ===== *)
theory LK_Path
  imports LK_Bytes
begin

text \<open>
  Path names, \<^verbatim>\<open>fs_normalize_path\<close> and \<^verbatim>\<open>trim_name\<close> of \<^verbatim>\<open>lib/fs/fs.c\<close>. The normaliser works in place: it reads the buffer at one
  position and writes at another. The buffer is a list of characters with the terminating zero in it; an access outside of it is the value \<open>None\<close>, and
  so is a loop without end.
\<close>

section \<open>The operations\<close>

abbreviation NUL :: char where "NUL \<equiv> CHR 0x00"

datatype norm_state = INITIAL | FIELD_START | IN_FIELD | SEP | SEEN_SEP | DOT | SEEN_DOT | DOTDOT | SEEN_DOTDOT

record norm =
  n_path :: "char list"
  n_pos :: nat
  n_outpos :: nat
  n_state :: norm_state
  n_done :: bool

text \<open>\<^verbatim>\<open>path[outpos++] = c\<close>\<close>

definition emit :: "char \<Rightarrow> norm \<Rightarrow> norm option" where
  "emit c s =
     do {
       dassert (n_outpos s < length (n_path s));
       Some (s\<lparr>n_path := (n_path s)[n_outpos s := c], n_outpos := n_outpos s + 1\<rparr>)
     }"

text \<open>The walk backwards over the last field, to a separator or to the start.\<close>

fun walk_back :: "char list \<Rightarrow> nat \<Rightarrow> nat" where
  "walk_back path 0 = 0"
| "walk_back path (Suc n) = (if path ! n = CHR ''/'' then Suc n else walk_back path n)"

definition norm_step :: "norm \<Rightarrow> norm option" where
  "norm_step s =
     do {
       dassert (n_pos s < length (n_path s));
       let c = n_path s ! n_pos s;
       (case n_state s of
          INITIAL \<Rightarrow> Some (s\<lparr>n_state := (if c = CHR ''/'' then SEP else if c = CHR ''.'' then DOT else FIELD_START)\<rparr>)
        | FIELD_START \<Rightarrow>
            Some (if c = CHR ''.'' then s\<lparr>n_state := DOT\<rparr> else if c = NUL then s\<lparr>n_done := True\<rparr> else s\<lparr>n_state := IN_FIELD\<rparr>)
        | IN_FIELD \<Rightarrow>
            if c = CHR ''/'' then Some (s\<lparr>n_state := SEP\<rparr>)
            else if c = NUL then Some (s\<lparr>n_done := True\<rparr>)
            else do { s \<leftarrow> emit c s; Some (s\<lparr>n_pos := n_pos s + 1\<rparr>) }
        | SEP \<Rightarrow> do { s \<leftarrow> emit (CHR ''/'') (s\<lparr>n_pos := n_pos s + 1\<rparr>); Some (s\<lparr>n_state := SEEN_SEP\<rparr>) }
        | SEEN_SEP \<Rightarrow>
            Some (if c = CHR ''/'' then s\<lparr>n_pos := n_pos s + 1\<rparr> else if c = NUL then s\<lparr>n_done := True\<rparr> else s\<lparr>n_state := FIELD_START\<rparr>)
        | DOT \<Rightarrow> Some (s\<lparr>n_pos := n_pos s + 1, n_state := SEEN_DOT\<rparr>)
        | SEEN_DOT \<Rightarrow>
            if c = CHR ''.'' then Some (s\<lparr>n_state := DOTDOT\<rparr>)
            else if c = CHR ''/'' then Some (s\<lparr>n_pos := n_pos s + 1, n_state := SEEN_SEP\<rparr>)
            else if c = NUL then Some (s\<lparr>n_done := True\<rparr>)
            else do { s \<leftarrow> emit (CHR ''.'') s; Some (s\<lparr>n_state := IN_FIELD\<rparr>) }
        | DOTDOT \<Rightarrow> Some (s\<lparr>n_pos := n_pos s + 1, n_state := SEEN_DOTDOT\<rparr>)
        | SEEN_DOTDOT \<Rightarrow>
            if c = CHR ''/'' \<or> c = NUL then
              let s = (if n_outpos s > 0 then s\<lparr>n_outpos := walk_back (n_path s) (n_outpos s - 1)\<rparr> else s) in
              Some (s\<lparr>n_pos := n_pos s + 1, n_state := SEEN_SEP, n_done := (c = NUL)\<rparr>)
            else do {
              s \<leftarrow> emit (CHR ''.'') s;
              s \<leftarrow> emit (CHR ''.'') s;
              Some (s\<lparr>n_state := IN_FIELD\<rparr>)
            })
     }"

partial_function (option) norm_loop :: "norm \<Rightarrow> norm option" where
  "norm_loop s = (if n_done s then Some s else Option.bind (norm_step s) norm_loop)"

definition fs_normalize_path :: "char list \<Rightarrow> char list option" where
  "fs_normalize_path path =
     do {
       s \<leftarrow> norm_loop \<lparr>n_path = path, n_pos = 0, n_outpos = 0, n_state = INITIAL, n_done = False\<rparr>;
       let outpos = (if n_outpos s > 0 \<and> n_path s ! (n_outpos s - 1) = CHR ''/'' then n_outpos s - 1 else n_outpos s);
       dassert (outpos < length (n_path s));
       Some ((n_path s)[outpos := NUL])
     }"

definition trim_name :: "char list \<Rightarrow> char list" where
  "trim_name name = dropWhile (\<lambda>c. c = CHR ''/'') (dropWhile (\<lambda>c. c = CHR '' '') name)"

section \<open>What it computes\<close>

text \<open>
  The reference: the fields of the path one after the other; an empty field and \<open>.\<close> are left out, \<open>..\<close> takes the last field back. The field before a leading
  separator is empty and counts as a field that \<open>..\<close> can take back.
\<close>

fun fields :: "char list \<Rightarrow> char list list" where
  "fields [] = [[]]"
| "fields (c # cs) = (if c = CHR ''/'' then [] # fields cs else (case fields cs of [] \<Rightarrow> [[c]] | f # fs \<Rightarrow> (c # f) # fs))"

definition add_field :: "char list list \<Rightarrow> char list \<Rightarrow> char list list" where
  "add_field fs f = (if f = [] \<or> f = ''.'' then fs else if f = ''..'' then butlast fs else fs @ [f])"

fun join_path :: "char list list \<Rightarrow> char list" where
  "join_path [] = []"
| "join_path [f] = f"
| "join_path (f # fs) = f @ CHR ''/'' # join_path fs"

definition resolve :: "char list \<Rightarrow> char list list" where
  "resolve p = foldl add_field (if p \<noteq> [] \<and> hd p = CHR ''/'' then [[]] else []) (fields p)"

text \<open>A string in a buffer.\<close>

definition c_str :: "char list \<Rightarrow> char list" where "c_str buf = takeWhile (\<lambda>c. c \<noteq> NUL) buf"

section \<open>The machine on strings\<close>

text \<open>
  \<open>norm_at st out rest k s\<close>: the machine is in state \<open>st\<close>, has written \<open>out\<close> and has \<open>rest\<close> left to read, and at least \<open>k\<close> characters lie between what is
  written and what is read next.
\<close>

definition norm_at :: "norm_state \<Rightarrow> char list \<Rightarrow> char list \<Rightarrow> nat \<Rightarrow> norm \<Rightarrow> bool" where
  "norm_at st out rest k s \<longleftrightarrow> n_state s = st \<and> \<not> n_done s \<and> n_outpos s = length out \<and> take (length out) (n_path s) = out \<and>
     length out + k \<le> n_pos s \<and> (\<exists>tail. drop (n_pos s) (n_path s) = rest @ NUL # tail)"

lemma drop_Cons_nth: "drop n xs = y # ys \<Longrightarrow> n < length xs \<and> xs ! n = y \<and> drop (Suc n) xs = ys"
  by (metis Cons_nth_drop_Suc drop_eq_Nil2 leI list.inject list.distinct(1))

lemma norm_at_read:
  assumes "norm_at st out rest k s"
  shows "n_pos s < length (n_path s)" "n_path s ! n_pos s = hd (rest @ [NUL])" "n_outpos s = length out" "take (length out) (n_path s) = out" "\<not> n_done s" "n_state s = st"
  using assms drop_Cons_nth [of "n_pos s" "n_path s"] by (cases rest; auto simp: norm_at_def)+

lemma norm_at_state: "norm_at st out rest k s \<Longrightarrow> norm_at st' out rest k (s\<lparr>n_state := st'\<rparr>)"
  by (simp add: norm_at_def)

lemma norm_at_weaken: "norm_at st out rest k s \<Longrightarrow> k' \<le> k \<Longrightarrow> norm_at st out rest k' s"
  by (auto simp: norm_at_def)

lemma norm_at_next: "norm_at st out (c # rest) k s \<Longrightarrow> norm_at st out rest (Suc k) (s\<lparr>n_pos := Suc (n_pos s)\<rparr>)"
  by (auto simp: norm_at_def dest!: drop_Cons_nth)

lemma emit_ok:
  assumes "norm_at st out rest (Suc k) s"
  obtains s' where "emit c s = Some s'" "norm_at st (out @ [c]) rest k s'" "length (n_path s') = length (n_path s)"
proof -
  have a: "n_outpos s = length out" "take (length out) (n_path s) = out" "length out + Suc k \<le> n_pos s" "n_pos s < length (n_path s)"
    using assms norm_at_read [OF assms] by (auto simp: norm_at_def)
  let ?s = "s\<lparr>n_path := (n_path s)[length out := c], n_outpos := length out + 1\<rparr>"
  have "take (Suc (length out)) ((n_path s)[length out := c]) = out @ [c]"
    using a by (subst take_Suc_conv_app_nth) (simp_all add: take_update_swap list_update_beyond)
  moreover have "drop (n_pos s) ((n_path s)[length out := c]) = drop (n_pos s) (n_path s)" using a(3) by simp
  ultimately have "norm_at st (out @ [c]) rest k ?s" using assms a(3) by (auto simp: norm_at_def)
  moreover have "emit c s = Some ?s" using a by (simp add: emit_def)
  ultimately show ?thesis using that by simp
qed

text \<open>The loop goes on from \<open>s\<close> as from \<open>t\<close>.\<close>

definition leads :: "norm \<Rightarrow> norm \<Rightarrow> bool" where
  "leads s t \<longleftrightarrow> norm_loop s = norm_loop t \<and> length (n_path t) = length (n_path s)"

lemma leads_trans: "leads s t \<Longrightarrow> leads t u \<Longrightarrow> leads s u"
  by (simp add: leads_def)

lemma leads_step: "\<not> n_done s \<Longrightarrow> norm_step s = Some t \<Longrightarrow> length (n_path t) = length (n_path s) \<Longrightarrow> leads s t"
  by (simp add: leads_def norm_loop.simps [of s])

lemma step_state:
  assumes "norm_at st out rest k s" and "norm_step s = Some (s\<lparr>n_state := st'\<rparr>)"
  obtains t where "leads s t" "norm_at st' out rest k t"
  using that leads_step [OF norm_at_read(5) [OF assms(1)] assms(2)] norm_at_state [OF assms(1)] by simp

lemma in_field_step:
  assumes "norm_at IN_FIELD out (c # rest) 0 s" and "c \<noteq> CHR ''/''" and "c \<noteq> NUL"
  obtains t where "leads s t" "norm_at IN_FIELD (out @ [c]) rest 0 t"
proof -
  note r = norm_at_read [OF assms(1)]
  obtain t where t: "emit c (s\<lparr>n_pos := Suc (n_pos s)\<rparr>) = Some t" "norm_at IN_FIELD (out @ [c]) rest 0 t" "length (n_path t) = length (n_path s)"
    using emit_ok [OF norm_at_next [OF assms(1)], of c] by auto
  have "length out < length (n_path s)" using r assms(1) by (auto simp: norm_at_def)
  then have "norm_step s = Some t" using t(1) r assms(2,3) by (auto simp: norm_step_def emit_def)
  then show ?thesis using that leads_step [OF r(5)] t by simp
qed

lemma in_field_run:
  assumes "norm_at IN_FIELD out (f @ rest) 0 s" and "CHR ''/'' \<notin> set f" and "NUL \<notin> set f"
  obtains t where "leads s t" "norm_at IN_FIELD (out @ f) rest 0 t"
  using assms
proof (induction f arbitrary: out s thesis)
  case Nil
  then show ?case by (auto simp: leads_def)
next
  case (Cons c f)
  have "norm_at IN_FIELD out (c # f @ rest) 0 s" using Cons.prems(2) by simp
  then obtain t where t: "leads s t" "norm_at IN_FIELD (out @ [c]) (f @ rest) 0 t" by (rule in_field_step) (use Cons.prems(3,4) in auto)
  obtain u where "leads t u" "norm_at IN_FIELD ((out @ [c]) @ f) rest 0 u" using Cons.IH [OF _ t(2)] Cons.prems(3,4) by auto
  then show ?case using Cons.prems(1) [of u] leads_trans [OF t(1)] by simp
qed

lemma sep_step:
  assumes "norm_at SEP out (c # rest) 0 s"
  obtains t where "leads s t" "norm_at SEEN_SEP (out @ ''/'') rest 0 t"
proof -
  note r = norm_at_read [OF assms]
  obtain t where t: "emit (CHR ''/'') (s\<lparr>n_pos := Suc (n_pos s)\<rparr>) = Some t" "norm_at SEP (out @ ''/'') rest 0 t" "length (n_path t) = length (n_path s)"
    using emit_ok [OF norm_at_next [OF assms], of "CHR ''/''"] by auto
  have "norm_step s = Some (t\<lparr>n_state := SEEN_SEP\<rparr>)" using t(1) r by (simp add: norm_step_def)
  then show ?thesis using that leads_step [OF r(5)] t(3) norm_at_state [OF t(2)] by simp
qed

text \<open>From the start of a field that begins with a dot to the state after the dot.\<close>

lemma dot_step:
  assumes "norm_at st out (CHR ''.'' # rest) 0 s" and "st = INITIAL \<or> st = FIELD_START"
  obtains t where "leads s t" "norm_at SEEN_DOT out rest 1 t"
proof -
  have "norm_step s = Some (s\<lparr>n_state := DOT\<rparr>)" using norm_at_read [OF assms(1)] assms(2) by (auto simp: norm_step_def)
  then obtain t where t: "leads s t" "norm_at DOT out (CHR ''.'' # rest) 0 t" by (rule step_state [OF assms(1)])
  note r = norm_at_read [OF t(2)]
  let ?u = "t\<lparr>n_pos := Suc (n_pos t), n_state := SEEN_DOT\<rparr>"
  have "norm_step t = Some ?u" using r by (simp add: norm_step_def)
  then have "leads t ?u" using leads_step [OF r(5)] by simp
  moreover have "norm_at SEEN_DOT out rest 1 ?u" using norm_at_state [OF norm_at_next [OF t(2)], of SEEN_DOT] by simp
  ultimately show ?thesis by (intro that [of ?u] leads_trans [OF t(1)])
qed

lemma dotdot_step:
  assumes "norm_at SEEN_DOT out (CHR ''.'' # rest) 1 s"
  obtains t where "leads s t" "norm_at SEEN_DOTDOT out rest 2 t"
proof -
  have "norm_step s = Some (s\<lparr>n_state := DOTDOT\<rparr>)" using norm_at_read [OF assms] by (simp add: norm_step_def)
  then obtain t where t: "leads s t" "norm_at DOTDOT out (CHR ''.'' # rest) 1 t" by (rule step_state [OF assms])
  note r = norm_at_read [OF t(2)]
  let ?u = "t\<lparr>n_pos := Suc (n_pos t), n_state := SEEN_DOTDOT\<rparr>"
  have "norm_step t = Some ?u" using r by (simp add: norm_step_def)
  then have "leads t ?u" using leads_step [OF r(5)] by simp
  moreover have "norm_at SEEN_DOTDOT out rest 2 ?u" using norm_at_state [OF norm_at_next [OF t(2)], of SEEN_DOTDOT] by (simp add: numeral_2_eq_2)
  ultimately show ?thesis by (intro that [of ?u] leads_trans [OF t(1)])
qed

lemma dot_field:
  assumes "norm_at SEEN_DOT out rest 1 s" and "hd (rest @ [NUL]) \<notin> {CHR ''.'', CHR ''/'', NUL}"
  obtains t where "leads s t" "norm_at IN_FIELD (out @ ''.'') rest 0 t"
proof -
  note r = norm_at_read [OF assms(1)]
  obtain t where t: "emit (CHR ''.'') s = Some t" "norm_at SEEN_DOT (out @ ''.'') rest 0 t" "length (n_path t) = length (n_path s)"
    using emit_ok [of SEEN_DOT out rest 0 s "CHR ''.''"] assms(1) by auto
  have "norm_step s = Some (t\<lparr>n_state := IN_FIELD\<rparr>)" using r assms(2) t(1) by (simp add: norm_step_def)
  then show ?thesis using that leads_step [OF r(5)] t(3) norm_at_state [OF t(2)] by simp
qed

lemma dotdot_field:
  assumes "norm_at SEEN_DOTDOT out rest 2 s" and "hd (rest @ [NUL]) \<notin> {CHR ''/'', NUL}"
  obtains t where "leads s t" "norm_at IN_FIELD (out @ ''..'') rest 0 t"
proof -
  note r = norm_at_read [OF assms(1)]
  obtain t where t: "emit (CHR ''.'') s = Some t" "norm_at SEEN_DOTDOT (out @ ''.'') rest 1 t" "length (n_path t) = length (n_path s)"
    using emit_ok [of SEEN_DOTDOT out rest 1 s "CHR ''.''"] assms(1) by (auto simp: numeral_2_eq_2)
  obtain u where u: "emit (CHR ''.'') t = Some u" "norm_at SEEN_DOTDOT (out @ ''..'') rest 0 u" "length (n_path u) = length (n_path s)"
    using emit_ok [of SEEN_DOTDOT "out @ ''.''" rest 0 t "CHR ''.''"] t by auto
  have "norm_step s = Some (u\<lparr>n_state := IN_FIELD\<rparr>)" using r assms(2) t(1) u(1) by (simp add: norm_step_def)
  then show ?thesis using that leads_step [OF r(5)] u(3) norm_at_state [OF u(2)] by simp
qed

section \<open>Fields\<close>

definition slashed :: "char list list \<Rightarrow> char list" where "slashed fs = concat (map (\<lambda>f. f @ ''/'') fs)"

definition field_ok :: "char list \<Rightarrow> bool" where "field_ok f \<longleftrightarrow> CHR ''/'' \<notin> set f \<and> NUL \<notin> set f"

lemma slashed_simps [simp]:
  "slashed [] = []" "slashed (f # fs) = f @ CHR ''/'' # slashed fs" "slashed (fs @ gs) = slashed fs @ slashed gs"
  by (simp_all add: slashed_def)

lemma slashed_snoc: "slashed (fs @ [f]) = slashed fs @ f @ ''/''"
  by simp

lemma join_path_snoc: "join_path (fs @ [f]) = slashed fs @ f"
  by (induction fs rule: join_path.induct) simp_all

definition strip_slash :: "char list \<Rightarrow> char list" where
  "strip_slash out = (if out \<noteq> [] \<and> last out = CHR ''/'' then butlast out else out)"

lemma strip_slashed: "strip_slash (slashed fs) = join_path fs"
  by (cases fs rule: rev_cases) (simp_all add: strip_slash_def join_path_snoc butlast_append)

lemma strip_field: "f \<noteq> [] \<Longrightarrow> CHR ''/'' \<notin> set f \<Longrightarrow> strip_slash (slashed fs @ f) = join_path (fs @ [f])"
  by (metis append_is_Nil_conv join_path_snoc last_appendR last_in_set strip_slash_def)

lemma fields_split:
  assumes "p = [] \<or> hd p \<noteq> CHR ''/''"
  obtains f where "p = f" "CHR ''/'' \<notin> set f" "fields p = [f]"
  | f r where "p = f @ CHR ''/'' # r" "f \<noteq> []" "CHR ''/'' \<notin> set f" "fields p = f # fields r"
proof -
  have "(CHR ''/'' \<notin> set p \<and> fields p = [p]) \<or> (\<exists>f r. p = f @ CHR ''/'' # r \<and> CHR ''/'' \<notin> set f \<and> fields p = f # fields r)"
  proof (induction p)
    case (Cons c p)
    show ?case
    proof (cases "c = CHR ''/''")
      case True
      then show ?thesis by (intro disjI2 exI [of _ "[]"] exI [of _ p]) simp
    next
      case False
      from Cons.IH show ?thesis
      proof (elim disjE exE conjE)
        fix f r
        assume "p = f @ CHR ''/'' # r" "CHR ''/'' \<notin> set f" "fields p = f # fields r"
        then show ?thesis using False by (intro disjI2 exI [of _ "c # f"] exI [of _ r]) simp
      qed (use False in simp)
    qed
  qed simp
  then show ?thesis
  proof (elim disjE exE conjE)
    fix f r
    assume f: "p = f @ CHR ''/'' # r" "CHR ''/'' \<notin> set f" "fields p = f # fields r"
    then have "f \<noteq> []" using assms by auto
    with f show ?thesis by (intro that(2))
  qed (rule that(1), simp_all)
qed

lemma walk_back_stop:
  "n \<le> length path \<Longrightarrow> (\<forall>i. m \<le> i \<and> i < n \<longrightarrow> path ! i \<noteq> CHR ''/'') \<Longrightarrow> m \<le> n \<Longrightarrow> m = 0 \<or> path ! (m - 1) = CHR ''/'' \<Longrightarrow> walk_back path n = m"
proof (induction n)
  case (Suc n)
  show ?case
  proof (cases "m = Suc n")
    case True
    then show ?thesis using Suc.prems(4) by simp
  next
    case False
    then show ?thesis using Suc.IH Suc.prems by simp
  qed
qed simp

lemma slashed_last: "slashed fs = [] \<or> slashed fs ! (length (slashed fs) - 1) = CHR ''/''"
  by (cases fs rule: rev_cases) (simp_all add: nth_append)

lemma walk_back_slashed:
  assumes "take (length (slashed fs)) path = slashed fs" and "\<forall>f\<in>set fs. field_ok f" and "fs \<noteq> []"
  shows "walk_back path (length (slashed fs) - 1) = length (slashed (butlast fs))"
proof -
  obtain gs g where fs: "fs = gs @ [g]" using assms(3) by (cases fs rule: rev_cases) auto
  let ?m = "length (slashed gs)"
  have t: "take (?m + length g + 1) path = slashed gs @ g @ ''/''" using assms(1) by (simp add: fs)
  then have l: "?m + length g < length path" by (metis append_assoc length_append length_append_singleton length_take less_eq_Suc_le min.absorb_iff2 min.commute min_less_iff_disj not_less_eq_eq plus_1_eq_Suc add.commute add.assoc)
  have n: "path ! i = (slashed gs @ g @ ''/'') ! i" if "i < ?m + length g + 1" for i using that t by (metis nth_take)
  have "path ! i \<noteq> CHR ''/''" if "?m \<le> i" "i < ?m + length g" for i
  proof -
    have j: "i - ?m < length g" using that by arith
    then have "path ! i = g ! (i - ?m)" using that n [of i] by (simp add: nth_append)
    moreover have "CHR ''/'' \<notin> set g" using assms(2) by (simp add: fs field_ok_def)
    ultimately show ?thesis using nth_mem [OF j] by metis
  qed
  moreover have "?m = 0 \<or> path ! (?m - 1) = CHR ''/''" using slashed_last [of gs] n [of "?m - 1"] by (cases "?m = 0") (auto simp: nth_append)
  ultimately have "walk_back path (?m + length g) = ?m" using l by (intro walk_back_stop) auto
  then show ?thesis by (simp add: fs)
qed

lemma add_field_ok: "\<forall>f\<in>set fs. field_ok f \<Longrightarrow> field_ok f \<Longrightarrow> \<forall>f\<in>set (add_field fs f). field_ok f"
  by (auto simp: add_field_def dest: in_set_butlastD)

section \<open>The machine on fields\<close>

text \<open>The loop ends with \<open>out\<close> written and room for the zero behind it.\<close>

definition finishes :: "norm \<Rightarrow> char list \<Rightarrow> bool" where
  "finishes s out \<longleftrightarrow> (\<exists>t. norm_loop s = Some t \<and> n_outpos t = length out \<and> take (length out) (n_path t) = out \<and>
     length out < length (n_path t) \<and> length (n_path t) = length (n_path s))"

lemma leads_finishes: "leads s t \<Longrightarrow> finishes t out \<Longrightarrow> finishes s out"
  by (auto simp: leads_def finishes_def)

lemma norm_loop_done: "\<not> n_done s \<Longrightarrow> norm_step s = Some t \<Longrightarrow> n_done t \<Longrightarrow> norm_loop s = Some t"
  by (simp add: norm_loop.simps [of s] norm_loop.simps [of t])

lemma done_finishes:
  assumes "norm_at st out [] k s" and "norm_step s = Some (s\<lparr>n_done := True\<rparr>)"
  shows "finishes s out"
proof -
  note r = norm_at_read [OF assms(1)]
  have "norm_loop s = Some (s\<lparr>n_done := True\<rparr>)" using norm_loop_done [OF r(5) assms(2)] by simp
  moreover have "length out < length (n_path s)" using r assms(1) by (auto simp: norm_at_def)
  ultimately show ?thesis using r by (auto simp: finishes_def)
qed

lemma dotted_field:
  assumes "norm_at SEEN_DOT out (g @ rest) 1 s" and "field_ok g"
  shows "\<exists>t. leads s t \<and>
    (if g = [] then norm_at SEEN_DOT out rest 1 t else if g = ''.'' then norm_at SEEN_DOTDOT out rest 2 t else norm_at IN_FIELD (out @ CHR ''.'' # g) rest 0 t)"
proof (cases g)
  case Nil
  then show ?thesis using assms(1) by (auto simp: leads_def)
next
  case (Cons d h)
  note g = assms(2) [unfolded field_ok_def]
  have d: "d \<noteq> CHR ''/''" "d \<noteq> NUL" using g Cons by auto
  show ?thesis
  proof (cases "d = CHR ''.''")
    case False
    then obtain u where u: "leads s u" "norm_at IN_FIELD (out @ ''.'') (g @ rest) 0 u"
      using dot_field [OF assms(1)] d Cons by auto
    then obtain v where "leads u v" "norm_at IN_FIELD ((out @ ''.'') @ g) rest 0 v" using in_field_run [OF u(2)] g by auto
    then show ?thesis using leads_trans [OF u(1)] False by (auto simp: Cons)
  next
    case True
    obtain u where u: "leads s u" "norm_at SEEN_DOTDOT out (h @ rest) 2 u" using dotdot_step [of out "h @ rest" s] assms(1) True by (auto simp: Cons)
    show ?thesis
    proof (cases h)
      case Nil
      then show ?thesis using u True by (auto simp: Cons)
    next
      case h: (Cons e i)
      then have "hd ((h @ rest) @ [NUL]) \<notin> {CHR ''/'', NUL}" using g by (auto simp: Cons)
      then obtain v where v: "leads u v" "norm_at IN_FIELD (out @ ''..'') (h @ rest) 0 v" using dotdot_field [OF u(2)] by auto
      then obtain w where "leads v w" "norm_at IN_FIELD ((out @ ''..'') @ h) rest 0 w" using in_field_run [OF v(2)] g Cons by auto
      then show ?thesis using leads_trans [OF u(1) leads_trans [OF v(1)]] True h by (auto simp: Cons)
    qed
  qed
qed

lemma field_begin:
  assumes "norm_at st out (c # rest) 0 s" and "st = INITIAL \<or> st = FIELD_START" and "c \<notin> {CHR ''.'', CHR ''/'', NUL}"
  obtains t where "leads s t" "norm_at IN_FIELD out (c # rest) 0 t"
proof -
  obtain t where t: "leads s t" "norm_at FIELD_START out (c # rest) 0 t"
  proof (cases "st = INITIAL")
    case True
    then have "norm_step s = Some (s\<lparr>n_state := FIELD_START\<rparr>)" using norm_at_read [OF assms(1)] assms(3) by (auto simp: norm_step_def)
    then show ?thesis using step_state [OF assms(1)] that by blast
  next
    case False
    then show ?thesis using that [of s] assms(1,2) by (simp add: leads_def)
  qed
  have "norm_step t = Some (t\<lparr>n_state := IN_FIELD\<rparr>)" using norm_at_read [OF t(2)] assms(3) by (simp add: norm_step_def)
  then show ?thesis using step_state [OF t(2)] leads_trans [OF t(1)] that by blast
qed

lemma start_field:
  assumes "norm_at st out (f @ rest) 0 s" and "st = INITIAL \<or> st = FIELD_START" and "f \<noteq> []" and "field_ok f"
  shows "\<exists>t. leads s t \<and> (if f = ''.'' then norm_at SEEN_DOT out rest 1 t else if f = ''..'' then norm_at SEEN_DOTDOT out rest 2 t else norm_at IN_FIELD (out @ f) rest 0 t)"
proof -
  obtain c g where f: "f = c # g" and c: "c \<noteq> CHR ''/''" "c \<noteq> NUL" "field_ok g" using assms(3,4) by (cases f) (auto simp: field_ok_def)
  show ?thesis
  proof (cases "c = CHR ''.''")
    case False
    then obtain u where u: "leads s u" "norm_at IN_FIELD out (f @ rest) 0 u" using field_begin [of st out c "g @ rest" s] assms(1,2) c by (auto simp: f)
    obtain v where "leads u v" "norm_at IN_FIELD (out @ f) rest 0 v" using in_field_run [OF u(2)] assms(4) by (auto simp: field_ok_def)
    then show ?thesis using leads_trans [OF u(1)] False by (auto simp: f)
  next
    case True
    obtain t where t: "leads s t" "norm_at SEEN_DOT out (g @ rest) 1 t" using dot_step [of st out "g @ rest" s] assms(1,2) True by (auto simp: f)
    then obtain u where "leads t u" "if g = [] then norm_at SEEN_DOT out rest 1 u else if g = ''.'' then norm_at SEEN_DOTDOT out rest 2 u
        else norm_at IN_FIELD (out @ CHR ''.'' # g) rest 0 u"
      using dotted_field [OF t(2) c(3)] by auto
    then show ?thesis using leads_trans [OF t(1)] True by (intro exI [of _ u]) (simp add: f split: if_splits)
  qed
qed

lemma norm_at_shrink:
  assumes "norm_at st out rest k s" and "out = out' @ x"
  shows "norm_at st out' rest k (s\<lparr>n_outpos := length out'\<rparr>)"
proof -
  have "take (length out') (n_path s) = out'"
    using assms by (metis append_eq_conv_conj length_append min.absorb_iff1 le_add1 norm_at_def take_take)
  then show ?thesis using assms by (auto simp: norm_at_def)
qed

lemma back_field:
  assumes "norm_at st (slashed fs) rest k s" and "\<forall>f\<in>set fs. field_ok f"
  shows "(if n_outpos s > 0 then s\<lparr>n_outpos := walk_back (n_path s) (n_outpos s - 1)\<rparr> else s) = s\<lparr>n_outpos := length (slashed (butlast fs))\<rparr>"
    and "norm_at st (slashed (butlast fs)) rest k (s\<lparr>n_outpos := length (slashed (butlast fs))\<rparr>)"
proof -
  note r = norm_at_read [OF assms(1)]
  show "(if n_outpos s > 0 then s\<lparr>n_outpos := walk_back (n_path s) (n_outpos s - 1)\<rparr> else s) = s\<lparr>n_outpos := length (slashed (butlast fs))\<rparr>"
    using r walk_back_slashed [OF r(4) assms(2)] by (cases "fs = []") (auto simp: slashed_def)
  have "\<exists>x. slashed fs = slashed (butlast fs) @ x" by (cases fs rule: rev_cases) auto
  then show "norm_at st (slashed (butlast fs)) rest k (s\<lparr>n_outpos := length (slashed (butlast fs))\<rparr>)"
    using norm_at_shrink [OF assms(1)] by blast
qed

lemma field_sep:
  assumes "norm_at st (slashed fs) (f @ CHR ''/'' # rest) 0 s" and "st = INITIAL \<or> st = FIELD_START" and "f \<noteq> []" and "field_ok f" and "\<forall>f\<in>set fs. field_ok f"
  obtains t where "leads s t" "norm_at SEEN_SEP (slashed (add_field fs f)) rest 0 t"
proof -
  obtain t where t: "leads s t" "if f = ''.'' then norm_at SEEN_DOT (slashed fs) (CHR ''/'' # rest) 1 t
      else if f = ''..'' then norm_at SEEN_DOTDOT (slashed fs) (CHR ''/'' # rest) 2 t else norm_at IN_FIELD (slashed fs @ f) (CHR ''/'' # rest) 0 t"
    using start_field [OF assms(1-4)] by blast
  consider "f = ''.''" | "f = ''..''" | "f \<noteq> ''.''" "f \<noteq> ''..''" by blast
  then show ?thesis
  proof cases
    case 1
    then have n: "norm_at SEEN_DOT (slashed fs) (CHR ''/'' # rest) 1 t" using t(2) by simp
    let ?u = "t\<lparr>n_pos := Suc (n_pos t), n_state := SEEN_SEP\<rparr>"
    have "leads t ?u" using leads_step [OF norm_at_read(5) [OF n]] norm_at_read [OF n] by (simp add: norm_step_def)
    moreover have "norm_at SEEN_SEP (slashed fs) rest 0 ?u" using norm_at_weaken [OF norm_at_state [OF norm_at_next [OF n], of SEEN_SEP], of 0] by simp
    ultimately show ?thesis using that [of ?u] leads_trans [OF t(1)] 1 by (simp add: add_field_def)
  next
    case 2
    then have n: "norm_at SEEN_DOTDOT (slashed fs) (CHR ''/'' # rest) 2 t" using t(2) by simp
    let ?u = "t\<lparr>n_outpos := length (slashed (butlast fs)), n_pos := Suc (n_pos t), n_state := SEEN_SEP, n_done := False\<rparr>"
    have "norm_step t = Some ?u" using norm_at_read [OF n] back_field(1) [OF n assms(5)] by (simp add: norm_step_def)
    then have "leads t ?u" using leads_step [OF norm_at_read(5) [OF n]] by simp
    moreover have "norm_at SEEN_SEP (slashed (butlast fs)) rest 0 ?u"
      using norm_at_weaken [OF norm_at_state [OF norm_at_next [OF back_field(2) [OF n assms(5)]], of SEEN_SEP], of 0] norm_at_read(5) [OF n] by (auto simp: norm_at_def)
    ultimately show ?thesis using that [of ?u] leads_trans [OF t(1)] 2 by (simp add: add_field_def)
  next
    case 3
    then have n: "norm_at IN_FIELD (slashed fs @ f) (CHR ''/'' # rest) 0 t" using t(2) by simp
    have "norm_step t = Some (t\<lparr>n_state := SEP\<rparr>)" using norm_at_read [OF n] by (simp add: norm_step_def)
    then obtain u where u: "leads t u" "norm_at SEP (slashed fs @ f) (CHR ''/'' # rest) 0 u" by (rule step_state [OF n])
    obtain v where "leads u v" "norm_at SEEN_SEP ((slashed fs @ f) @ ''/'') rest 0 v" by (rule sep_step [OF u(2)])
    then show ?thesis using that [of v] leads_trans [OF t(1) leads_trans [OF u(1)]] 3 assms(3) by (simp add: add_field_def)
  qed
qed

lemma field_end:
  assumes "norm_at st (slashed fs) f 0 s" and "st = INITIAL \<or> st = FIELD_START" and "f \<noteq> []" and "field_ok f" and "\<forall>f\<in>set fs. field_ok f"
  shows "\<exists>out. finishes s out \<and> strip_slash out = join_path (add_field fs f)"
proof -
  obtain t where t: "leads s t" "if f = ''.'' then norm_at SEEN_DOT (slashed fs) [] 1 t
      else if f = ''..'' then norm_at SEEN_DOTDOT (slashed fs) [] 2 t else norm_at IN_FIELD (slashed fs @ f) [] 0 t"
    using start_field [of st "slashed fs" f "[]" s] assms by auto
  consider "f = ''.''" | "f = ''..''" | "f \<noteq> ''.''" "f \<noteq> ''..''" by blast
  then show ?thesis
  proof cases
    case 1
    then have n: "norm_at SEEN_DOT (slashed fs) [] 1 t" using t(2) by simp
    have "finishes t (slashed fs)" using norm_at_read [OF n] by (intro done_finishes [OF n]) (simp add: norm_step_def)
    then show ?thesis using leads_finishes [OF t(1)] strip_slashed [of fs] 1 by (auto simp: add_field_def)
  next
    case 2
    then have n: "norm_at SEEN_DOTDOT (slashed fs) [] 2 t" using t(2) by simp
    let ?u = "t\<lparr>n_outpos := length (slashed (butlast fs)), n_pos := Suc (n_pos t), n_state := SEEN_SEP, n_done := True\<rparr>"
    note b = back_field(2) [OF n assms(5)]
    have "norm_step t = Some ?u" using norm_at_read [OF n] back_field(1) [OF n assms(5)] by (simp add: norm_step_def)
    then have "norm_loop t = Some ?u" using norm_loop_done [OF norm_at_read(5) [OF n]] by simp
    moreover have "length (slashed (butlast fs)) < length (n_path t)" using b norm_at_read [OF b] by (auto simp: norm_at_def)
    ultimately have "finishes t (slashed (butlast fs))" using norm_at_read(4) [OF b] by (auto simp: finishes_def)
    then show ?thesis using leads_finishes [OF t(1)] strip_slashed [of "butlast fs"] 2 by (auto simp: add_field_def)
  next
    case 3
    then have n: "norm_at IN_FIELD (slashed fs @ f) [] 0 t" using t(2) by simp
    have "finishes t (slashed fs @ f)" using norm_at_read [OF n] by (intro done_finishes [OF n]) (simp add: norm_step_def)
    then show ?thesis using leads_finishes [OF t(1)] strip_field [OF assms(3)] 3 assms(3,4) by (auto simp: add_field_def field_ok_def)
  qed
qed

text \<open>The rest of a path from a field boundary, either at the start or after a separator.\<close>

lemma boundary_end:
  assumes "norm_at st out [] 0 s" and "st = INITIAL \<or> st = SEEN_SEP"
  shows "finishes s out"
proof (cases "st = SEEN_SEP")
  case True
  then show ?thesis using norm_at_read [OF assms(1)] by (intro done_finishes [OF assms(1)]) (simp add: norm_step_def)
next
  case False
  then have "norm_step s = Some (s\<lparr>n_state := FIELD_START\<rparr>)" using norm_at_read [OF assms(1)] assms(2) by (simp add: norm_step_def)
  then obtain t where t: "leads s t" "norm_at FIELD_START out [] 0 t" by (rule step_state [OF assms(1)])
  have "finishes t out" using norm_at_read [OF t(2)] by (intro done_finishes [OF t(2)]) (simp add: norm_step_def)
  then show ?thesis using leads_finishes t(1) by blast
qed

lemma boundary_field:
  assumes "norm_at st out (c # rest) 0 s" and "st = INITIAL \<or> st = SEEN_SEP" and "c \<noteq> CHR ''/''" and "c \<noteq> NUL"
  obtains st' t where "leads s t" "norm_at st' out (c # rest) 0 t" "st' = INITIAL \<or> st' = FIELD_START"
proof (cases "st = SEEN_SEP")
  case True
  then have "norm_step s = Some (s\<lparr>n_state := FIELD_START\<rparr>)" using norm_at_read [OF assms(1)] assms(3,4) by (simp add: norm_step_def)
  then show ?thesis using step_state [OF assms(1)] that by blast
next
  case False
  then show ?thesis using that [of s st] assms(1,2) by (simp add: leads_def)
qed

lemma norm_fields:
  "norm_at st (slashed fs) rest 0 s \<Longrightarrow> (st = INITIAL \<and> (rest = [] \<or> hd rest \<noteq> CHR ''/'')) \<or> st = SEEN_SEP \<Longrightarrow> NUL \<notin> set rest \<Longrightarrow> \<forall>f\<in>set fs. field_ok f \<Longrightarrow>
   \<exists>out. finishes s out \<and> strip_slash out = join_path (foldl add_field fs (fields rest))"
proof (induction "length rest" arbitrary: st fs rest s rule: less_induct)
  case less
  note n = less.prems(1)
  consider (nil) "rest = []" | (sep) r where "rest = CHR ''/'' # r" "st = SEEN_SEP" | (field) "rest \<noteq> []" "hd rest \<noteq> CHR ''/''"
    using less.prems(2) by (cases rest) auto
  then show ?case
  proof cases
    case nil
    then show ?thesis using boundary_end [of st "slashed fs" s] n less.prems(2) strip_slashed by (auto simp: add_field_def)
  next
    case sep
    let ?t = "s\<lparr>n_pos := Suc (n_pos s)\<rparr>"
    have "leads s ?t" using leads_step [OF norm_at_read(5) [OF n]] norm_at_read [OF n] sep by (simp add: norm_step_def)
    moreover have "norm_at SEEN_SEP (slashed fs) r 0 ?t" using norm_at_weaken [OF norm_at_next, of st "slashed fs" "CHR ''/''" r 0 s 0] n sep by simp
    then have "\<exists>out. finishes ?t out \<and> strip_slash out = join_path (foldl add_field fs (fields r))"
      using less.hyps [of r] less.prems(3,4) sep by simp
    ultimately show ?thesis using leads_finishes sep(1) by (auto simp: add_field_def)
  next
    case field
    then obtain c r where c: "rest = c # r" "c \<noteq> CHR ''/''" "c \<noteq> NUL" using less.prems(3) by (cases rest) auto
    have "st = INITIAL \<or> st = SEEN_SEP" using less.prems(2) by blast
    then obtain st' t where t: "leads s t" "norm_at st' (slashed fs) rest 0 t" "st' = INITIAL \<or> st' = FIELD_START"
      using boundary_field [OF n [unfolded c(1)] _ c(2,3)] c(1) by metis
    have "rest = [] \<or> hd rest \<noteq> CHR ''/''" using field by simp
    then show ?thesis
    proof (cases rule: fields_split)
      case (1 f)
      then have "field_ok f" using less.prems(3) by (simp add: field_ok_def)
      then show ?thesis using field_end [of st' fs f t] t 1 field(1) less.prems(4) leads_finishes [OF t(1)] by auto
    next
      case (2 f r)
      then have f: "field_ok f" using less.prems(3) by (simp add: field_ok_def)
      obtain u where u: "leads t u" "norm_at SEEN_SEP (slashed (add_field fs f)) r 0 u"
        using field_sep [of st' fs f r t] t 2 f less.prems(4) by auto
      have "\<exists>out. finishes u out \<and> strip_slash out = join_path (foldl add_field (add_field fs f) (fields r))"
        using less.hyps [OF _ u(2)] 2 less.prems(3) add_field_ok [OF less.prems(4) f] by auto
      then show ?thesis using leads_finishes [OF leads_trans [OF t(1) u(1)]] 2(4) by auto
    qed
  qed
qed

section \<open>Properties\<close>

lemma c_str_end: "NUL \<notin> set p \<Longrightarrow> c_str (p @ NUL # tail) = p"
  by (induction p) (auto simp: c_str_def)

lemma c_str_prefix:
  assumes "take n buf = w" and "NUL \<notin> set w" and "n < length buf" and "buf ! n = NUL"
  shows "c_str buf = w"
  using c_str_end [OF assms(2), of "drop (Suc n) buf"] id_take_nth_drop [OF assms(3)] assms(1,4) by simp

lemma foldl_add_field_ok: "\<forall>f\<in>set fs. field_ok f \<Longrightarrow> \<forall>f\<in>set gs. field_ok f \<Longrightarrow> \<forall>f\<in>set (foldl add_field fs gs). field_ok f"
proof (induction gs arbitrary: fs)
  case (Cons g gs)
  have "\<forall>f\<in>set (add_field fs g). field_ok f" by (rule add_field_ok [OF Cons.prems(1)]) (simp add: Cons.prems(2))
  then show ?case unfolding foldl_Cons by (rule Cons.IH) (simp add: Cons.prems(2))
qed simp

lemma fields_ne: "fields p \<noteq> []"
  by (induction p) (auto split: list.split)

lemma fields_ok: "NUL \<notin> set p \<Longrightarrow> \<forall>f\<in>set (fields p). field_ok f"
  by (induction p) (auto simp: field_ok_def split: list.splits)

lemma resolve_ok: "NUL \<notin> set p \<Longrightarrow> \<forall>f\<in>set (resolve p). field_ok f"
  unfolding resolve_def by (rule foldl_add_field_ok [OF _ fields_ok]) (simp_all add: field_ok_def)

lemma join_path_nul: "\<forall>f\<in>set fs. field_ok f \<Longrightarrow> NUL \<notin> set (join_path fs)"
  by (induction fs rule: join_path.induct) (auto simp: field_ok_def)

lemma norm_at_init: "norm_at INITIAL [] p 0 \<lparr>n_path = p @ NUL # tail, n_pos = 0, n_outpos = 0, n_state = INITIAL, n_done = False\<rparr>"
  by (simp add: norm_at_def)

lemma norm_resolves:
  assumes "norm_at INITIAL [] p 0 s" and "NUL \<notin> set p"
  shows "\<exists>out. finishes s out \<and> strip_slash out = join_path (resolve p)"
proof (cases "p \<noteq> [] \<and> hd p = CHR ''/''")
  case True
  then obtain r where p: "p = CHR ''/'' # r" by (cases p) auto
  have "norm_step s = Some (s\<lparr>n_state := SEP\<rparr>)" using norm_at_read [OF assms(1)] p by (simp add: norm_step_def)
  then obtain t where t: "leads s t" "norm_at SEP [] p 0 t" by (rule step_state [OF assms(1)])
  obtain u where u: "leads t u" "norm_at SEEN_SEP ''/'' r 0 u" using sep_step [of "[]" "CHR ''/''" r t] t(2) p by auto
  have "\<exists>out. finishes u out \<and> strip_slash out = join_path (foldl add_field [[]] (fields r))"
    using norm_fields [of SEEN_SEP "[[]]" r u] u(2) assms(2) p by (auto simp: field_ok_def)
  then show ?thesis using leads_finishes [OF leads_trans [OF t(1) u(1)]] p by (auto simp: resolve_def add_field_def)
next
  case False
  then show ?thesis using norm_fields [of INITIAL "[]" p s] assms by (auto simp: resolve_def)
qed

lemma normalize_gives:
  assumes "NUL \<notin> set p"
  obtains buf where "fs_normalize_path (p @ NUL # tail) = Some buf" "c_str buf = join_path (resolve p)" "length buf = length (p @ NUL # tail)"
proof -
  let ?s = "\<lparr>n_path = p @ NUL # tail, n_pos = 0, n_outpos = 0, n_state = INITIAL, n_done = False\<rparr>"
  obtain out where o: "finishes ?s out" "strip_slash out = join_path (resolve p)" using norm_resolves [OF norm_at_init assms] by blast
  obtain t where t: "norm_loop ?s = Some t" "n_outpos t = length out" "take (length out) (n_path t) = out" "length out < length (n_path t)"
    "length (n_path t) = length (p @ NUL # tail)"
    using o(1) by (auto simp: finishes_def)
  let ?n = "length (strip_slash out)"
  have "n_path t ! (length out - 1) = last out" if "out \<noteq> []" using that t(3) by (metis diff_less last_conv_nth length_greater_0_conv nth_take zero_less_one)
  then have n: "(if n_outpos t > 0 \<and> n_path t ! (n_outpos t - 1) = CHR ''/'' then n_outpos t - 1 else n_outpos t) = ?n"
    using t(2) by (auto simp: strip_slash_def)
  have l: "?n \<le> length out" "?n < length (n_path t)" using t(4) by (auto simp: strip_slash_def)
  have "take ?n out = strip_slash out" by (simp add: strip_slash_def butlast_conv_take)
  then have "take ?n ((n_path t)[?n := NUL]) = join_path (resolve p)" using t(3) l o(2) by (metis list_update_beyond length_take min.absorb2 min.cobounded1 order_refl take_take min.absorb1 take_update_swap take_update_cancel)
  then have "c_str ((n_path t)[?n := NUL]) = join_path (resolve p)" using l join_path_nul [OF resolve_ok [OF assms]] by (intro c_str_prefix [of ?n]) simp_all
  moreover have "fs_normalize_path (p @ NUL # tail) = Some ((n_path t)[?n := NUL])" using t(1) n l by (simp add: fs_normalize_path_def Let_def)
  ultimately show ?thesis using that t(5) by simp
qed

text \<open>A normal path: no empty field but a first one, no \<open>.\<close> and no \<open>..\<close>.\<close>

definition proper_field :: "char list \<Rightarrow> bool" where "proper_field f \<longleftrightarrow> f \<noteq> [] \<and> f \<noteq> ''.'' \<and> f \<noteq> ''..''"

definition normal_path :: "char list \<Rightarrow> bool" where
  "normal_path p \<longleftrightarrow> p = [] \<or> list_all proper_field (tl (fields p)) \<and> (hd (fields p) = [] \<or> proper_field (hd (fields p)))"

definition normal_fields :: "char list list \<Rightarrow> bool" where
  "normal_fields fs \<longleftrightarrow> fs = [] \<or> (list_all proper_field (tl fs) \<and> (hd fs = [] \<or> proper_field (hd fs)))"

lemma fields_append: "CHR ''/'' \<notin> set f \<Longrightarrow> fields (f @ CHR ''/'' # r) = f # fields r" "CHR ''/'' \<notin> set f \<Longrightarrow> fields f = [f]"
  by (induction f) auto

lemma fields_join: "fs \<noteq> [] \<Longrightarrow> \<forall>f\<in>set fs. field_ok f \<Longrightarrow> fields (join_path fs) = fs"
  by (induction fs rule: join_path.induct) (simp_all add: fields_append field_ok_def)

lemma add_field_normal: "normal_fields fs \<Longrightarrow> normal_fields (add_field fs f)"
  by (cases fs; cases "tl fs" rule: rev_cases) (auto simp: normal_fields_def add_field_def proper_field_def)

lemma resolve_normal: "normal_fields (resolve p)"
proof -
  have "normal_fields (foldl add_field fs gs)" if "normal_fields fs" for fs gs
    using that by (induction gs arbitrary: fs) (simp_all add: add_field_normal)
  then show ?thesis by (simp add: resolve_def normal_fields_def)
qed

lemma join_normal: "normal_fields fs \<Longrightarrow> \<forall>f\<in>set fs. field_ok f \<Longrightarrow> normal_path (join_path fs)"
  by (cases "fs = []") (simp_all add: normal_path_def fields_join normal_fields_def)

lemma foldl_add_proper: "list_all proper_field gs \<Longrightarrow> foldl add_field fs gs = fs @ gs"
  by (induction gs arbitrary: fs) (simp_all add: add_field_def proper_field_def)

lemma join_fields: "join_path (fields p) = p"
proof (induction p)
  case (Cons c p)
  then show ?case using fields_ne [of p] by (cases "fields p"; cases "tl (fields p)") auto
qed simp

lemma resolve_normal_id:
  assumes "normal_path p"
  shows "join_path (resolve p) = p"
proof (cases "p = []")
  case False
  obtain g gs where g: "fields p = g # gs" using fields_ne [of p] by (cases "fields p") auto
  have n: "list_all proper_field gs" "g = [] \<or> proper_field g" using assms False g by (auto simp: normal_path_def)
  have "resolve p = fields p"
  proof (cases "hd p = CHR ''/''")
    case True
    then have "g = []" using False g by (cases p) auto
    then show ?thesis using n foldl_add_proper [of gs "[[]]"] True False by (simp add: resolve_def g add_field_def)
  next
    case False
    then have "g \<noteq> []" using \<open>p \<noteq> []\<close> g by (cases p) (auto split: list.splits)
    then show ?thesis using n foldl_add_proper [of "g # gs" "[]"] False by (simp add: resolve_def g)
  qed
  then show ?thesis by (simp add: join_fields)
qed (simp add: resolve_def add_field_def)

text \<open>
  C18: on every path of a buffer, \<open>fs_normalize_path\<close> ends, never leaves the buffer, keeps its length and leaves in it the path that the reference
  computes field by field: empty fields and \<open>.\<close> dropped, each \<open>..\<close> taking back the field before it, no trailing separator.
\<close>

theorem fs_normalize_resolves:
  assumes "NUL \<notin> set p"
  shows "\<exists>buf. fs_normalize_path (p @ NUL # tail) = Some buf \<and> length buf = length (p @ NUL # tail) \<and> c_str buf = join_path (resolve p)"
  by (rule normalize_gives [OF assms, of tail]) auto

theorem fs_normalize_resolves_witness:
  "(\<exists>buf. fs_normalize_path (''/a/./b//../c/'' @ NUL # ''xy'') = Some buf \<and> length buf = length (''/a/./b//../c/'' @ NUL # ''xy'') \<and> c_str buf = ''/a/c'')"
  using fs_normalize_resolves [of "''/a/./b//../c/''" "''xy''"] by (simp add: resolve_def add_field_def)

text \<open>
  C19: what \<open>fs_normalize_path\<close> leaves is a normal path (no empty field but a first one, no \<open>.\<close>, no \<open>..\<close>), and a normal path is left as it is, so a second call
  changes nothing.
\<close>

theorem fs_normalize_normal:
  assumes "NUL \<notin> set p" and "fs_normalize_path (p @ NUL # tail) = Some buf"
  shows "normal_path (c_str buf) \<and> (normal_path p \<longrightarrow> c_str buf = p) \<and>
    (\<exists>buf'. fs_normalize_path (c_str buf @ NUL # tail') = Some buf' \<and> c_str buf' = c_str buf)"
proof -
  have b: "c_str buf = join_path (resolve p)" using normalize_gives [OF assms(1), of tail] assms(2) by (metis option.inject)
  have n: "normal_path (c_str buf)" unfolding b by (rule join_normal [OF resolve_normal resolve_ok [OF assms(1)]])
  have "NUL \<notin> set (c_str buf)" unfolding b by (rule join_path_nul [OF resolve_ok [OF assms(1)]])
  then have "\<exists>buf'. fs_normalize_path (c_str buf @ NUL # tail') = Some buf' \<and> c_str buf' = c_str buf"
    using normalize_gives [of "c_str buf" tail'] resolve_normal_id [OF n] by metis
  moreover have "c_str buf = p" if "normal_path p" using resolve_normal_id [OF that] b by simp
  ultimately show ?thesis using n by blast
qed

lemma normalize_sample: "fs_normalize_path (''./a/..b/'' @ NUL # []) = Some (''a/..b'' @ [NUL, CHR ''b'', CHR ''/'', NUL])"
  by (simp add: fs_normalize_path_def norm_loop.simps norm_step_def emit_def Let_def numeral_nat)

theorem fs_normalize_normal_witness:
  "normal_path ''a/..b'' \<and> (\<exists>buf'. fs_normalize_path (''a/..b'' @ NUL # ''z'') = Some buf' \<and> c_str buf' = ''a/..b'')"
  using fs_normalize_normal [OF _ normalize_sample, of "''z''"] by (simp add: c_str_def)

end
