(* ===== verification/LK_Fs.thy ===== *)
theory LK_Fs
  imports LK_Path LK_Bio
begin

text \<open>
  The file system layer, \<^verbatim>\<open>lib/fs/fs.c\<close>: the table of mounted file systems with their reference counts, the handles of open files and directories, and the
  dispatch of every call through the table of functions of the implementation. A pointer is a number; reading a structure that was freed, a call through a
  null pointer and a failed allocation that the code does not check are the value \<open>None\<close>. The mount lock makes each access to the table atomic; the operations
  are steps of one caller.
\<close>

section \<open>Data\<close>

definition FS_MAX_PATH_LEN :: nat where "FS_MAX_PATH_LEN = 128"
definition FS_MAX_FILE_LEN :: nat where "FS_MAX_FILE_LEN = 64"

abbreviation (input) ERR_BAD_PATH :: status_t where "ERR_BAD_PATH \<equiv> -18"
abbreviation (input) ERR_ALREADY_MOUNTED :: status_t where "ERR_ALREADY_MOUNTED \<equiv> -19"

record file_stat =
  st_is_dir :: bool
  st_size :: nat
  st_capacity :: nat

record fs_stat =
  free_space :: nat
  total_space :: nat
  free_inodes :: nat
  total_inodes :: nat

text \<open>An action on the world of an implementation; a call that fills in a pointer on success returns the error or the pointer.\<close>

type_synonym ('r, 'w) act = "'w \<Rightarrow> ('r \<times> 'w) option"

record 'w fs_api =
  fa_format :: "(nat option \<Rightarrow> nat \<Rightarrow> (int, 'w) act) option"
  fa_fs_stat :: "(nat \<Rightarrow> fs_stat \<Rightarrow> (int \<times> fs_stat, 'w) act) option"
  fa_mount :: "(nat option \<Rightarrow> (int + nat, 'w) act) option"
  fa_unmount :: "(nat \<Rightarrow> (int, 'w) act) option"
  fa_open :: "(nat \<Rightarrow> string \<Rightarrow> (int + nat, 'w) act) option"
  fa_create :: "(nat \<Rightarrow> string \<Rightarrow> nat \<Rightarrow> (int + nat, 'w) act) option"
  fa_remove :: "(nat \<Rightarrow> string \<Rightarrow> (int, 'w) act) option"
  fa_truncate :: "(nat \<Rightarrow> nat \<Rightarrow> (int, 'w) act) option"
  fa_stat :: "(nat \<Rightarrow> file_stat option \<Rightarrow> (int \<times> file_stat option, 'w) act) option"
  fa_read :: "(nat \<Rightarrow> int \<Rightarrow> nat \<Rightarrow> (int \<times> u8 list, 'w) act) option"
  fa_write :: "(nat \<Rightarrow> u8 list \<Rightarrow> int \<Rightarrow> nat \<Rightarrow> (int, 'w) act) option"
  fa_close :: "(nat \<Rightarrow> (int, 'w) act) option"
  fa_mkdir :: "(nat \<Rightarrow> string \<Rightarrow> (int, 'w) act) option"
  fa_opendir :: "(nat \<Rightarrow> string \<Rightarrow> (int + nat, 'w) act) option"
  fa_readdir :: "(nat \<Rightarrow> (int + string, 'w) act) option"
  fa_closedir :: "(nat \<Rightarrow> (int, 'w) act) option"
  fa_file_ioctl :: "(nat \<Rightarrow> int \<Rightarrow> nat \<Rightarrow> (int, 'w) act) option"

record 'w fs_mount_t =
  m_path :: "string option"
  m_dev :: "nat option"
  m_cookie :: nat
  m_ref :: int
  m_api :: "'w fs_api"

record filehandle =
  fh_cookie :: nat
  fh_mount :: nat

text \<open>Directory handles have the same two fields. The implementations work on the block devices and on a state of their own.\<close>

record ('d, 'w) fs_state =
  fs_bio :: "'d bio_state"
  fs_drv :: 'w
  fs_mounts :: "nat list"
  fs_mnt :: "nat \<Rightarrow> ('d bio_state \<times> 'w) fs_mount_t option"
  fs_fh :: "nat \<Rightarrow> filehandle option"
  fs_dh :: "nat \<Rightarrow> filehandle option"
  fs_next :: nat
  fs_oom :: "nat \<Rightarrow> bool"

text \<open>The implementations that are linked in, \<^verbatim>\<open>__fs_impl_start\<close> to \<^verbatim>\<open>__fs_impl_end\<close>.\<close>

type_synonym ('d, 'w) fs_impls = "(string \<times> ('d bio_state \<times> 'w) fs_api) list"

definition find_fs :: "('d, 'w) fs_impls \<Rightarrow> string \<Rightarrow> ('d bio_state \<times> 'w) fs_api option" where
  "find_fs impls name = map_option snd (List.find (\<lambda>fs. fst fs = name) impls)"

text \<open>A call into the implementation.\<close>

definition drv :: "('r, 'd bio_state \<times> 'w) act \<Rightarrow> ('d, 'w) fs_state \<Rightarrow> ('r \<times> ('d, 'w) fs_state) option" where
  "drv h s = map_option (\<lambda>(r, b, w). (r, s\<lparr>fs_bio := b, fs_drv := w\<rparr>)) (h (fs_bio s, fs_drv s))"

text \<open>An allocation: no call of this file checks that it got one before it uses it.\<close>

definition new_obj :: "('d, 'w) fs_state \<Rightarrow> (nat option \<times> ('d, 'w) fs_state)" where
  "new_obj s = (if fs_oom s (fs_next s) then None else Some (fs_next s), s\<lparr>fs_next := fs_next s + 1\<rparr>)"

section \<open>Mounts\<close>

fun search_mount :: "(nat \<Rightarrow> 'w fs_mount_t option) \<Rightarrow> string \<Rightarrow> nat list \<Rightarrow> (nat \<times> string) option option" where
  "search_mount mnt path [] = Some None"
| "search_mount mnt path (i # is) =
     do {
       m \<leftarrow> mnt i;
       mp \<leftarrow> m_path m;
       if length path < length mp then search_mount mnt path is
       else if take (length mp) path = mp then Some (Some (i, drop (length mp) path))
       else search_mount mnt path is
     }"

definition find_mount :: "string \<Rightarrow> ('d, 'w) fs_state \<Rightarrow> ((nat \<times> string) option \<times> ('d, 'w) fs_state) option" where
  "find_mount path s =
     do {
       r \<leftarrow> search_mount (fs_mnt s) path (fs_mounts s);
       (case r of
          None \<Rightarrow> Some (None, s)
        | Some (i, rest) \<Rightarrow> do {
            m \<leftarrow> fs_mnt s i;
            Some (Some (i, rest), s\<lparr>fs_mnt := (fs_mnt s)(i \<mapsto> m\<lparr>m_ref := m_ref m + 1\<rparr>)\<rparr>)
          })
     }"

definition put_mount :: "nat \<Rightarrow> ('d, 'w) fs_state \<Rightarrow> ('d, 'w) fs_state option" where
  "put_mount i s =
     do {
       m \<leftarrow> fs_mnt s i;
       let m = m\<lparr>m_ref := m_ref m - 1\<rparr>;
       let s = s\<lparr>fs_mnt := (fs_mnt s)(i \<mapsto> m)\<rparr>;
       if m_ref m = 0 then do {
         let s = s\<lparr>fs_mounts := remove1 i (fs_mounts s)\<rparr>;
         h \<leftarrow> fa_unmount (m_api m);
         (_, s) \<leftarrow> drv (h (m_cookie m)) s;
         s \<leftarrow> (case m_dev m of None \<Rightarrow> Some s | Some d \<Rightarrow> do { b \<leftarrow> bio_close d (fs_bio s); Some (s\<lparr>fs_bio := b\<rparr>) });
         Some (s\<lparr>fs_mnt := (fs_mnt s)(i := None)\<rparr>)
       }
       else Some s
     }"

text \<open>
  \<^verbatim>\<open>strlcpy\<close> into the local buffer, then \<open>fs_normalize_path\<close>. What the buffer holds behind the string does not matter (\<open>fs_normalize_resolves\<close>).
\<close>

definition temppath :: "string \<Rightarrow> string option" where
  "temppath path = map_option c_str (fs_normalize_path (take (FS_MAX_PATH_LEN - 1) path @ [NUL]))"

text \<open>\<^verbatim>\<open>device && device[0] != 0\<close>: open it. The first result is false when there is no such device.\<close>

definition open_dev :: "string option \<Rightarrow> ('d, 'w) fs_state \<Rightarrow> ((bool \<times> nat option) \<times> ('d, 'w) fs_state) option" where
  "open_dev device s =
     (case device of
        Some name \<Rightarrow>
          if name \<noteq> [] then do {
            (dev, b) \<leftarrow> bio_open name (fs_bio s);
            Some ((dev \<noteq> None, dev), s\<lparr>fs_bio := b\<rparr>)
          }
          else Some ((True, None), s)
      | None \<Rightarrow> Some ((True, None), s))"

definition mount :: "string \<Rightarrow> string option \<Rightarrow> ('d bio_state \<times> 'w) fs_api \<Rightarrow> ('d, 'w) fs_state \<Rightarrow> (int \<times> ('d, 'w) fs_state) option" where
  "mount path device api s =
     do {
       temp \<leftarrow> temppath path;
       if temp = [] \<or> hd temp \<noteq> CHR ''/'' then Some (ERR_BAD_PATH, s)
       else do {
         (r, s) \<leftarrow> find_mount temp s;
         (case r of
            Some (i, _) \<Rightarrow> do { s \<leftarrow> put_mount i s; Some (ERR_ALREADY_MOUNTED, s) }
          | None \<Rightarrow> do {
              ((ok, dev), s) \<leftarrow> open_dev device s;
              if \<not> ok then Some (ERR_NOT_FOUND, s)
              else do {
                h \<leftarrow> fa_mount api;
                (r, s) \<leftarrow> drv (h dev) s;
                (case r of
                   Inl err \<Rightarrow> do {
                     s \<leftarrow> (case dev of None \<Rightarrow> Some s | Some d \<Rightarrow> do { b \<leftarrow> bio_close d (fs_bio s); Some (s\<lparr>fs_bio := b\<rparr>) });
                     Some (err, s)
                   }
                 | Inr cookie \<Rightarrow> do {
                     let (i, s) = new_obj s;
                     i \<leftarrow> i;
                     let (p, s) = new_obj s;
                     let m = \<lparr>m_path = map_option (\<lambda>_. temp) p, m_dev = dev, m_cookie = cookie, m_ref = 1, m_api = api\<rparr>;
                     Some (0, s\<lparr>fs_mnt := (fs_mnt s)(i \<mapsto> m), fs_mounts := i # fs_mounts s\<rparr>)
                   })
              }
            })
       }
     }"

definition fs_format_device ::
  "('d, 'w) fs_impls \<Rightarrow> string \<Rightarrow> string option \<Rightarrow> nat \<Rightarrow> ('d, 'w) fs_state \<Rightarrow> (int \<times> ('d, 'w) fs_state) option" where
  "fs_format_device impls fsname device args s =
     (case find_fs impls fsname of
        None \<Rightarrow> Some (ERR_NOT_FOUND, s)
      | Some api \<Rightarrow>
          (case fa_format api of
             None \<Rightarrow> Some (ERR_NOT_SUPPORTED, s)
           | Some h \<Rightarrow> do {
               ((ok, dev), s) \<leftarrow> open_dev device s;
               if \<not> ok then Some (ERR_NOT_FOUND, s) else drv (h dev args) s
             }))"

definition fs_mount ::
  "('d, 'w) fs_impls \<Rightarrow> string \<Rightarrow> string \<Rightarrow> string option \<Rightarrow> ('d, 'w) fs_state \<Rightarrow> (int \<times> ('d, 'w) fs_state) option" where
  "fs_mount impls path fsname device s =
     (case find_fs impls fsname of None \<Rightarrow> Some (ERR_NOT_FOUND, s) | Some api \<Rightarrow> mount path device api s)"

definition fs_unmount :: "string \<Rightarrow> ('d, 'w) fs_state \<Rightarrow> (int \<times> ('d, 'w) fs_state) option" where
  "fs_unmount path s =
     do {
       temp \<leftarrow> temppath path;
       (r, s) \<leftarrow> find_mount temp s;
       (case r of
          None \<Rightarrow> Some (ERR_NOT_FOUND, s)
        | Some (i, _) \<Rightarrow> do {
            s \<leftarrow> put_mount i s;
            s \<leftarrow> put_mount i s;
            Some (0, s)
          })
     }"

section \<open>Files\<close>

text \<open>The new handle, \<^verbatim>\<open>malloc\<close> and the two assignments to it.\<close>

definition new_file :: "nat \<Rightarrow> nat \<Rightarrow> ('d, 'w) fs_state \<Rightarrow> (nat \<times> ('d, 'w) fs_state) option" where
  "new_file cookie i s =
     (let (f, s) = new_obj s in
      do { f \<leftarrow> f; Some (f, s\<lparr>fs_fh := (fs_fh s)(f \<mapsto> \<lparr>fh_cookie = cookie, fh_mount = i\<rparr>)\<rparr>) })"

definition new_dir :: "nat \<Rightarrow> nat \<Rightarrow> ('d, 'w) fs_state \<Rightarrow> (nat \<times> ('d, 'w) fs_state) option" where
  "new_dir cookie i s =
     (let (f, s) = new_obj s in
      do { f \<leftarrow> f; Some (f, s\<lparr>fs_dh := (fs_dh s)(f \<mapsto> \<lparr>fh_cookie = cookie, fh_mount = i\<rparr>)\<rparr>) })"

text \<open>The mount of a handle: both structures have to be there.\<close>

definition fh_api :: "nat \<Rightarrow> ('d, 'w) fs_state \<Rightarrow> (filehandle \<times> ('d bio_state \<times> 'w) fs_api) option" where
  "fh_api f s = do { fh \<leftarrow> fs_fh s f; m \<leftarrow> fs_mnt s (fh_mount fh); Some (fh, m_api m) }"

definition dh_api :: "nat \<Rightarrow> ('d, 'w) fs_state \<Rightarrow> (filehandle \<times> ('d bio_state \<times> 'w) fs_api) option" where
  "dh_api f s = do { fh \<leftarrow> fs_dh s f; m \<leftarrow> fs_mnt s (fh_mount fh); Some (fh, m_api m) }"

definition fs_open_file :: "string \<Rightarrow> ('d, 'w) fs_state \<Rightarrow> ((int + nat) \<times> ('d, 'w) fs_state) option" where
  "fs_open_file path s =
     do {
       temp \<leftarrow> temppath path;
       (r, s) \<leftarrow> find_mount temp s;
       (case r of
          None \<Rightarrow> Some (Inl ERR_NOT_FOUND, s)
        | Some (i, newpath) \<Rightarrow> do {
            m \<leftarrow> fs_mnt s i;
            h \<leftarrow> fa_open (m_api m);
            (r, s) \<leftarrow> drv (h (m_cookie m) newpath) s;
            (case r of
               Inl err \<Rightarrow> do { s \<leftarrow> put_mount i s; Some (Inl err, s) }
             | Inr cookie \<Rightarrow> do { (f, s) \<leftarrow> new_file cookie i s; Some (Inr f, s) })
          })
     }"

definition fs_file_ioctl :: "nat option \<Rightarrow> int \<Rightarrow> nat \<Rightarrow> ('d, 'w) fs_state \<Rightarrow> (int \<times> ('d, 'w) fs_state) option" where
  "fs_file_ioctl f request argp s =
     (case f of
        None \<Rightarrow> Some (ERR_INVALID_ARGS, s)
      | Some f \<Rightarrow> do {
          (fh, api) \<leftarrow> fh_api f s;
          (case fa_file_ioctl api of None \<Rightarrow> Some (ERR_INVALID_ARGS, s) | Some h \<Rightarrow> drv (h (fh_cookie fh) request argp) s)
        })"

definition fs_create_file :: "string \<Rightarrow> nat \<Rightarrow> ('d, 'w) fs_state \<Rightarrow> ((int + nat) \<times> ('d, 'w) fs_state) option" where
  "fs_create_file path len s =
     do {
       temp \<leftarrow> temppath path;
       (r, s) \<leftarrow> find_mount temp s;
       (case r of
          None \<Rightarrow> Some (Inl ERR_NOT_FOUND, s)
        | Some (i, newpath) \<Rightarrow> do {
            m \<leftarrow> fs_mnt s i;
            (case fa_create (m_api m) of
               None \<Rightarrow> do { s \<leftarrow> put_mount i s; Some (Inl ERR_NOT_SUPPORTED, s) }
             | Some h \<Rightarrow> do {
                 (r, s) \<leftarrow> drv (h (m_cookie m) newpath len) s;
                 (case r of
                    Inl err \<Rightarrow> do { s \<leftarrow> put_mount i s; Some (Inl err, s) }
                  | Inr cookie \<Rightarrow> do { (f, s) \<leftarrow> new_file cookie i s; Some (Inr f, s) })
               })
          })
     }"

definition fs_truncate_file :: "nat option \<Rightarrow> nat \<Rightarrow> ('d, 'w) fs_state \<Rightarrow> (int \<times> ('d, 'w) fs_state) option" where
  "fs_truncate_file f len s =
     (case f of
        None \<Rightarrow> Some (ERR_INVALID_ARGS, s)
      | Some f \<Rightarrow> do { (fh, api) \<leftarrow> fh_api f s; h \<leftarrow> fa_truncate api; drv (h (fh_cookie fh) len) s })"

definition fs_remove_file :: "string \<Rightarrow> ('d, 'w) fs_state \<Rightarrow> (int \<times> ('d, 'w) fs_state) option" where
  "fs_remove_file path s =
     do {
       temp \<leftarrow> temppath path;
       (r, s) \<leftarrow> find_mount temp s;
       (case r of
          None \<Rightarrow> Some (ERR_NOT_FOUND, s)
        | Some (i, newpath) \<Rightarrow> do {
            m \<leftarrow> fs_mnt s i;
            (case fa_remove (m_api m) of
               None \<Rightarrow> do { s \<leftarrow> put_mount i s; Some (ERR_NOT_SUPPORTED, s) }
             | Some h \<Rightarrow> do {
                 (err, s) \<leftarrow> drv (h (m_cookie m) newpath) s;
                 s \<leftarrow> put_mount i s;
                 Some (err, s)
               })
          })
     }"

definition fs_read_file :: "nat \<Rightarrow> int \<Rightarrow> nat \<Rightarrow> ('d, 'w) fs_state \<Rightarrow> ((int \<times> u8 list) \<times> ('d, 'w) fs_state) option" where
  "fs_read_file f offset len s = do { (fh, api) \<leftarrow> fh_api f s; h \<leftarrow> fa_read api; drv (h (fh_cookie fh) offset len) s }"

definition fs_write_file :: "nat \<Rightarrow> u8 list \<Rightarrow> int \<Rightarrow> nat \<Rightarrow> ('d, 'w) fs_state \<Rightarrow> (int \<times> ('d, 'w) fs_state) option" where
  "fs_write_file f buf offset len s =
     do {
       (fh, api) \<leftarrow> fh_api f s;
       (case fa_write api of None \<Rightarrow> Some (ERR_NOT_SUPPORTED, s) | Some h \<Rightarrow> drv (h (fh_cookie fh) buf offset len) s)
     }"

definition fs_close_file :: "nat \<Rightarrow> ('d, 'w) fs_state \<Rightarrow> (int \<times> ('d, 'w) fs_state) option" where
  "fs_close_file f s =
     do {
       (fh, api) \<leftarrow> fh_api f s;
       h \<leftarrow> fa_close api;
       (err, s) \<leftarrow> drv (h (fh_cookie fh)) s;
       if err < 0 then Some (err, s)
       else do {
         s \<leftarrow> put_mount (fh_mount fh) s;
         Some (0, s\<lparr>fs_fh := (fs_fh s)(f := None)\<rparr>)
       }
     }"

definition fs_stat_file ::
  "nat \<Rightarrow> file_stat option \<Rightarrow> ('d, 'w) fs_state \<Rightarrow> ((int \<times> file_stat option) \<times> ('d, 'w) fs_state) option" where
  "fs_stat_file f stat s = do { (fh, api) \<leftarrow> fh_api f s; h \<leftarrow> fa_stat api; drv (h (fh_cookie fh) stat) s }"

section \<open>Directories\<close>

definition fs_make_dir :: "string \<Rightarrow> ('d, 'w) fs_state \<Rightarrow> (int \<times> ('d, 'w) fs_state) option" where
  "fs_make_dir path s =
     do {
       temp \<leftarrow> temppath path;
       (r, s) \<leftarrow> find_mount temp s;
       (case r of
          None \<Rightarrow> Some (ERR_NOT_FOUND, s)
        | Some (i, newpath) \<Rightarrow> do {
            m \<leftarrow> fs_mnt s i;
            (case fa_mkdir (m_api m) of
               None \<Rightarrow> do { s \<leftarrow> put_mount i s; Some (ERR_NOT_SUPPORTED, s) }
             | Some h \<Rightarrow> do {
                 (err, s) \<leftarrow> drv (h (m_cookie m) newpath) s;
                 s \<leftarrow> put_mount i s;
                 Some (err, s)
               })
          })
     }"

definition fs_open_dir :: "string \<Rightarrow> ('d, 'w) fs_state \<Rightarrow> ((int + nat) \<times> ('d, 'w) fs_state) option" where
  "fs_open_dir path s =
     do {
       temp \<leftarrow> temppath path;
       (r, s) \<leftarrow> find_mount temp s;
       (case r of
          None \<Rightarrow> Some (Inl ERR_NOT_FOUND, s)
        | Some (i, newpath) \<Rightarrow> do {
            m \<leftarrow> fs_mnt s i;
            (case fa_opendir (m_api m) of
               None \<Rightarrow> do { s \<leftarrow> put_mount i s; Some (Inl ERR_NOT_SUPPORTED, s) }
             | Some h \<Rightarrow> do {
                 (r, s) \<leftarrow> drv (h (m_cookie m) newpath) s;
                 (case r of
                    Inl err \<Rightarrow> do { s \<leftarrow> put_mount i s; Some (Inl err, s) }
                  | Inr cookie \<Rightarrow> do { (f, s) \<leftarrow> new_dir cookie i s; Some (Inr f, s) })
               })
          })
     }"

definition fs_read_dir :: "nat \<Rightarrow> ('d, 'w) fs_state \<Rightarrow> ((int + string) \<times> ('d, 'w) fs_state) option" where
  "fs_read_dir f s =
     do {
       (fh, api) \<leftarrow> dh_api f s;
       (case fa_readdir api of None \<Rightarrow> Some (Inl ERR_NOT_SUPPORTED, s) | Some h \<Rightarrow> drv (h (fh_cookie fh)) s)
     }"

definition fs_close_dir :: "nat \<Rightarrow> ('d, 'w) fs_state \<Rightarrow> (int \<times> ('d, 'w) fs_state) option" where
  "fs_close_dir f s =
     do {
       (fh, api) \<leftarrow> dh_api f s;
       (case fa_closedir api of
          None \<Rightarrow> Some (ERR_NOT_SUPPORTED, s)
        | Some h \<Rightarrow> do {
            (err, s) \<leftarrow> drv (h (fh_cookie fh)) s;
            if err < 0 then Some (err, s)
            else do {
              s \<leftarrow> put_mount (fh_mount fh) s;
              Some (0, s\<lparr>fs_dh := (fs_dh s)(f := None)\<rparr>)
            }
          })
     }"

text \<open>The path is the one of the caller: this call does not normalise it.\<close>

definition fs_stat_fs :: "string \<Rightarrow> fs_stat option \<Rightarrow> ('d, 'w) fs_state \<Rightarrow> ((int \<times> fs_stat option) \<times> ('d, 'w) fs_state) option" where
  "fs_stat_fs mountpoint stat s =
     (case stat of
        None \<Rightarrow> Some ((ERR_INVALID_ARGS, None), s)
      | Some st \<Rightarrow> do {
          (r, s) \<leftarrow> find_mount mountpoint s;
          (case r of
             None \<Rightarrow> Some ((ERR_NOT_FOUND, Some st), s)
           | Some (i, _) \<Rightarrow> do {
               m \<leftarrow> fs_mnt s i;
               (case fa_fs_stat (m_api m) of
                  None \<Rightarrow> do { s \<leftarrow> put_mount i s; Some ((ERR_NOT_SUPPORTED, Some st), s) }
                | Some h \<Rightarrow> do {
                    ((result, st), s) \<leftarrow> drv (h (m_cookie m) st) s;
                    s \<leftarrow> put_mount i s;
                    Some ((result, Some st), s)
                  })
             })
        })"

text \<open>\<open>stat\<close> is what the local variable holds before \<open>fs_stat_file\<close> fills it in.\<close>

definition fs_load_file :: "file_stat \<Rightarrow> string \<Rightarrow> nat \<Rightarrow> ('d, 'w) fs_state \<Rightarrow> ((int \<times> u8 list) \<times> ('d, 'w) fs_state) option" where
  "fs_load_file stat path maxlen s =
     do {
       (r, s) \<leftarrow> fs_open_file path s;
       (case r of
          Inl err \<Rightarrow> Some ((err, []), s)
        | Inr f \<Rightarrow> do {
            ((_, stat), s) \<leftarrow> fs_stat_file f (Some stat) s;
            stat \<leftarrow> stat;
            ((read_bytes, data), s) \<leftarrow> fs_read_file f 0 (min maxlen (st_size stat)) s;
            (_, s) \<leftarrow> fs_close_file f s;
            Some ((read_bytes, data), s)
          })
     }"

section \<open>What an implementation promises\<close>

text \<open>A call into an implementation may do block I/O, but leaves the registry and the reference counts of the devices alone.\<close>

definition same_refs :: "'d bio_state \<Rightarrow> 'd bio_state \<Rightarrow> bool" where
  "same_refs b b' \<longleftrightarrow> bdev_list b' = bdev_list b \<and> (\<forall>i. bd_ref (bdevs b' i) = bd_ref (bdevs b i))"

text \<open>The action returns, and the result and the state of the implementation satisfy \<open>Q\<close>.\<close>

definition act_ok :: "('r, 'd bio_state \<times> 'w) act \<Rightarrow> 'd bio_state \<times> 'w \<Rightarrow> ('r \<Rightarrow> 'w \<Rightarrow> bool) \<Rightarrow> bool" where
  "act_ok h x Q \<longleftrightarrow> (\<exists>r b' w'. h x = Some (r, b', w') \<and> same_refs (fst x) b' \<and> Q r w')"

text \<open>
  The contract of an implementation. \<open>finv w M F D\<close>: its state \<open>w\<close> is consistent with the cookies handed out, \<open>M\<close> those of the mounts, \<open>F\<close> and \<open>D\<close> those of the
  open files and directories with the mount each belongs to. Given that, every call on a cookie that is out returns and keeps the state consistent.
  \<open>removable\<close> says which files may be removed, \<open>fits\<close> which offsets and lengths may be given to a read or a write.
\<close>

locale fs_driver =
  fixes api :: "('d bio_state \<times> 'w) fs_api"
    and finv :: "'w \<Rightarrow> (nat \<Rightarrow> nat option) \<Rightarrow> (nat \<Rightarrow> (nat \<times> nat) option) \<Rightarrow> (nat \<Rightarrow> (nat \<times> nat) option) \<Rightarrow> bool"
    and removable :: "'w \<Rightarrow> nat \<Rightarrow> string \<Rightarrow> (nat \<Rightarrow> (nat \<times> nat) option) \<Rightarrow> (nat \<Rightarrow> (nat \<times> nat) option) \<Rightarrow> bool"
    and fits :: "int \<Rightarrow> nat \<Rightarrow> bool"
  assumes mount_law: "finv w M F D \<Longrightarrow> M i = None \<Longrightarrow>
      \<exists>h. fa_mount api = Some h \<and> act_ok (h dev) (b, w) (\<lambda>r w'. case r of Inl _ \<Rightarrow> finv w' M F D | Inr c \<Rightarrow> finv w' (M(i \<mapsto> c)) F D)"
    and format_law: "finv w M F D \<Longrightarrow> fa_format api = Some hf \<Longrightarrow> act_ok (hf dev args) (b, w) (\<lambda>_ w'. finv w' M F D)"
    and unmount_law: "finv w M F D \<Longrightarrow> M i = Some c \<Longrightarrow> (\<forall>k x. F k \<noteq> Some (i, x)) \<Longrightarrow> (\<forall>k x. D k \<noteq> Some (i, x)) \<Longrightarrow>
      \<exists>h. fa_unmount api = Some h \<and> act_ok (h c) (b, w) (\<lambda>_ w'. finv w' (M(i := None)) F D)"
    and open_law: "finv w M F D \<Longrightarrow> M i = Some c \<Longrightarrow> F k = None \<Longrightarrow>
      \<exists>h. fa_open api = Some h \<and> act_ok (h c p) (b, w) (\<lambda>r w'. case r of Inl _ \<Rightarrow> finv w' M F D | Inr f \<Rightarrow> finv w' M (F(k \<mapsto> (i, f))) D)"
    and create_law: "finv w M F D \<Longrightarrow> M i = Some c \<Longrightarrow> F k = None \<Longrightarrow> fa_create api = Some hc \<Longrightarrow>
      act_ok (hc c p len) (b, w) (\<lambda>r w'. case r of Inl _ \<Rightarrow> finv w' M F D | Inr f \<Rightarrow> finv w' M (F(k \<mapsto> (i, f))) D)"
    and opendir_law: "finv w M F D \<Longrightarrow> M i = Some c \<Longrightarrow> D k = None \<Longrightarrow> fa_opendir api = Some ho \<Longrightarrow>
      act_ok (ho c p) (b, w) (\<lambda>r w'. case r of Inl _ \<Rightarrow> finv w' M F D | Inr f \<Rightarrow> finv w' M F (D(k \<mapsto> (i, f))))"
    and remove_law: "finv w M F D \<Longrightarrow> M i = Some c \<Longrightarrow> removable w c p F D \<Longrightarrow> fa_remove api = Some hr \<Longrightarrow> act_ok (hr c p) (b, w) (\<lambda>_ w'. finv w' M F D)"
    and mkdir_law: "finv w M F D \<Longrightarrow> M i = Some c \<Longrightarrow> fa_mkdir api = Some hm \<Longrightarrow> act_ok (hm c p) (b, w) (\<lambda>_ w'. finv w' M F D)"
    and fs_stat_law: "finv w M F D \<Longrightarrow> M i = Some c \<Longrightarrow> fa_fs_stat api = Some hs \<Longrightarrow> act_ok (hs c st) (b, w) (\<lambda>_ w'. finv w' M F D)"
    and read_law: "finv w M F D \<Longrightarrow> F k = Some (i, f) \<Longrightarrow> fits off len \<Longrightarrow>
      \<exists>h. fa_read api = Some h \<and> act_ok (h f off len) (b, w) (\<lambda>_ w'. finv w' M F D)"
    and write_law: "finv w M F D \<Longrightarrow> F k = Some (i, f) \<Longrightarrow> fits off len \<Longrightarrow> len \<le> length buf \<Longrightarrow> fa_write api = Some hw \<Longrightarrow>
      act_ok (hw f buf off len) (b, w) (\<lambda>_ w'. finv w' M F D)"
    and truncate_law: "finv w M F D \<Longrightarrow> F k = Some (i, f) \<Longrightarrow> \<exists>h. fa_truncate api = Some h \<and> act_ok (h f len) (b, w) (\<lambda>_ w'. finv w' M F D)"
    and stat_law: "finv w M F D \<Longrightarrow> F k = Some (i, f) \<Longrightarrow> \<exists>h. fa_stat api = Some h \<and> act_ok (h f sto) (b, w) (\<lambda>r w'. finv w' M F D \<and> (sto = None \<longrightarrow> snd r = None) \<and> (sto \<noteq> None \<longrightarrow> snd r \<noteq> None))"
    and ioctl_law: "finv w M F D \<Longrightarrow> F k = Some (i, f) \<Longrightarrow> fa_file_ioctl api = Some hi \<Longrightarrow> act_ok (hi f req argp) (b, w) (\<lambda>_ w'. finv w' M F D)"
    and close_law: "finv w M F D \<Longrightarrow> F k = Some (i, f) \<Longrightarrow>
      \<exists>h. fa_close api = Some h \<and> act_ok (h f) (b, w) (\<lambda>r w'. if r < 0 then finv w' M F D else finv w' M (F(k := None)) D)"
    and readdir_law: "finv w M F D \<Longrightarrow> D k = Some (i, f) \<Longrightarrow> fa_readdir api = Some hrd \<Longrightarrow> act_ok (hrd f) (b, w) (\<lambda>_ w'. finv w' M F D)"
    and closedir_law: "finv w M F D \<Longrightarrow> D k = Some (i, f) \<Longrightarrow> fa_closedir api = Some hcd \<Longrightarrow>
      act_ok (hcd f) (b, w) (\<lambda>r w'. if r < 0 then finv w' M F D else finv w' M F (D(k := None)))"

section \<open>The invariant\<close>

abbreviation handle_of :: "filehandle \<Rightarrow> nat \<times> nat" where "handle_of fh \<equiv> (fh_mount fh, fh_cookie fh)"

definition mount_cookies :: "(nat \<Rightarrow> 'w fs_mount_t option) \<Rightarrow> nat \<Rightarrow> nat option" where
  "mount_cookies mnt = (\<lambda>i. map_option m_cookie (mnt i))"

definition handle_cookies :: "(nat \<Rightarrow> filehandle option) \<Rightarrow> nat \<Rightarrow> (nat \<times> nat) option" where
  "handle_cookies fhs = (\<lambda>k. map_option handle_of (fhs k))"

definition on_mount :: "(nat \<Rightarrow> filehandle option) \<Rightarrow> nat \<Rightarrow> nat set" where
  "on_mount fhs i = {k. \<exists>fh. fhs k = Some fh \<and> fh_mount fh = i}"

definition on_dev :: "(nat \<Rightarrow> 'w fs_mount_t option) \<Rightarrow> nat \<Rightarrow> nat set" where
  "on_dev mnt d = {i. \<exists>m. mnt i = Some m \<and> m_dev m = Some d}"

text \<open>The references a mount should have: one while it is attached, the temporary ones \<open>e\<close> of a call under way and one for each open handle.\<close>

definition refs :: "nat set \<Rightarrow> (nat \<Rightarrow> nat) \<Rightarrow> ('d, 'w) fs_state \<Rightarrow> nat \<Rightarrow> nat" where
  "refs A e s i = of_bool (i \<in> A) + e i + card (on_mount (fs_fh s) i) + card (on_mount (fs_dh s) i)"

definition handles_ok :: "nat \<Rightarrow> (nat \<Rightarrow> 'w fs_mount_t option) \<Rightarrow> (nat \<Rightarrow> filehandle option) \<Rightarrow> bool" where
  "handles_ok n mnt fhs \<longleftrightarrow> (\<forall>k fh. fhs k = Some fh \<longrightarrow> k < n \<and> fh_mount fh \<in> dom mnt)"

definition devs_ok :: "'d bio_state \<Rightarrow> (nat \<Rightarrow> 'w fs_mount_t option) \<Rightarrow> bool" where
  "devs_ok b mnt \<longleftrightarrow> (\<forall>d. on_dev mnt d \<noteq> {} \<longrightarrow> d \<in> set (bdev_list b)) \<and> (\<forall>d\<in>set (bdev_list b). 1 + int (card (on_dev mnt d)) \<le> bd_ref (bdevs b d))"

definition table_ok :: "('d bio_state \<times> 'w) fs_api \<Rightarrow> nat set \<Rightarrow> (nat \<Rightarrow> nat) \<Rightarrow> ('d, 'w) fs_state \<Rightarrow> bool" where
  "table_ok api A e s \<longleftrightarrow> distinct (fs_mounts s) \<and> set (fs_mounts s) = dom (fs_mnt s) \<and>
     (\<forall>i m. fs_mnt s i = Some m \<longrightarrow> i < fs_next s \<and> m_path m \<noteq> None \<and> m_api m = api \<and> m_ref m = int (refs A e s i) \<and> 0 < refs A e s i) \<and>
     handles_ok (fs_next s) (fs_mnt s) (fs_fh s) \<and> handles_ok (fs_next s) (fs_mnt s) (fs_dh s) \<and> devs_ok (fs_bio s) (fs_mnt s) \<and>
     (\<forall>n. \<not> fs_oom s n)"

lemma on_mount_finite: "handles_ok n mnt fhs \<Longrightarrow> finite (on_mount fhs i)"
  by (rule finite_subset [of _ "{..<n}"]) (auto simp: handles_ok_def on_mount_def)

lemma on_dev_upd_ref [simp]: "mnt i = Some m \<Longrightarrow> on_dev (mnt(i \<mapsto> m\<lparr>m_ref := r\<rparr>)) d = on_dev mnt d"
  by (auto simp: on_dev_def)

lemma devs_ok_upd_ref [simp]: "mnt i = Some m \<Longrightarrow> devs_ok b (mnt(i \<mapsto> m\<lparr>m_ref := r\<rparr>)) = devs_ok b mnt"
  by (simp add: devs_ok_def)

lemma handles_ok_upd [simp]: "mnt i = Some m \<Longrightarrow> handles_ok n (mnt(i \<mapsto> m')) fhs = handles_ok n mnt fhs"
  by (simp add: handles_ok_def insert_absorb domI)

lemma devs_ok_same: "devs_ok b mnt \<Longrightarrow> same_refs b b' \<Longrightarrow> devs_ok b' mnt"
  by (simp add: devs_ok_def same_refs_def)

lemma table_ok_drv: "table_ok api A e s \<Longrightarrow> same_refs (fs_bio s) b \<Longrightarrow> table_ok api A e (s\<lparr>fs_bio := b, fs_drv := w\<rparr>)"
  by (auto simp: table_ok_def refs_def intro: devs_ok_same)

lemma table_okD:
  assumes "table_ok api A e s" and "fs_mnt s i = Some m"
  shows "m_path m \<noteq> None" "m_api m = api" "m_ref m = int (refs A e s i)" "0 < refs A e s i" "i < fs_next s" "i \<in> set (fs_mounts s)"
  using assms unfolding table_ok_def by blast+

lemma search_mount_ok:
  "\<forall>i\<in>set is. \<exists>m p. mnt i = Some m \<and> m_path m = Some p \<Longrightarrow>
   \<exists>r. search_mount mnt path is = Some r \<and> (\<forall>i rest. r = Some (i, rest) \<longrightarrow> i \<in> set is \<and> (\<exists>m p. mnt i = Some m \<and> m_path m = Some p \<and> path = p @ rest))"
proof (induction "is")
  case (Cons i "is")
  then obtain m p where m: "mnt i = Some m" "m_path m = Some p" by auto
  from Cons obtain r where r: "search_mount mnt path is = Some r"
    "\<forall>i rest. r = Some (i, rest) \<longrightarrow> i \<in> set is \<and> (\<exists>m p. mnt i = Some m \<and> m_path m = Some p \<and> path = p @ rest)" by auto
  show ?case
  proof (cases "take (length p) path = p")
    case True
    then have "path = p @ drop (length p) path" by (metis append_take_drop_id)
    moreover have "\<not> length path < length p" using True by (metis length_take min.commute min_less_iff_conj nat_neq_iff)
    ultimately show ?thesis using m True by auto
  next
    case False
    then show ?thesis using m r by auto
  qed
qed simp

lemma drv_ok:
  assumes "act_ok h (fs_bio s, fs_drv s) Q"
  obtains r b w where "drv h s = Some (r, s\<lparr>fs_bio := b, fs_drv := w\<rparr>)" "same_refs (fs_bio s) b" "Q r w"
  using assms by (auto simp: act_ok_def drv_def)

lemma table_ok_find:
  assumes "table_ok api A e s"
  shows "\<exists>r s'. find_mount path s = Some (r, s') \<and>
    (case r of None \<Rightarrow> s' = s
     | Some (i, rest) \<Rightarrow> \<exists>m p. fs_mnt s i = Some m \<and> m_path m = Some p \<and> path = p @ rest \<and>
         s' = s\<lparr>fs_mnt := (fs_mnt s)(i \<mapsto> m\<lparr>m_ref := m_ref m + 1\<rparr>)\<rparr> \<and> table_ok api A (e(i := e i + 1)) s')"
proof -
  have "\<forall>i\<in>set (fs_mounts s). \<exists>m p. fs_mnt s i = Some m \<and> m_path m = Some p" using assms by (auto simp: table_ok_def)
  then obtain r where r: "search_mount (fs_mnt s) path (fs_mounts s) = Some r"
    "\<And>i rest. r = Some (i, rest) \<Longrightarrow> \<exists>m p. fs_mnt s i = Some m \<and> m_path m = Some p \<and> path = p @ rest"
    by (meson search_mount_ok)
  show ?thesis
  proof (cases r)
    case None
    then show ?thesis using r(1) by (simp add: find_mount_def)
  next
    case (Some x)
    then obtain i rest where x: "r = Some (i, rest)" by (cases x) auto
    then obtain m p where m: "fs_mnt s i = Some m" "m_path m = Some p" "path = p @ rest" using r(2) by blast
    let ?s = "s\<lparr>fs_mnt := (fs_mnt s)(i \<mapsto> m\<lparr>m_ref := m_ref m + 1\<rparr>)\<rparr>"
    have "refs A (e(i := e i + 1)) ?s j = refs A e s j + of_bool (j = i)" for j by (simp add: refs_def)
    then have "table_ok api A (e(i := e i + 1)) ?s" using assms m(1) by (auto simp: table_ok_def insert_absorb domI)
    moreover have "find_mount path s = Some (Some (i, rest), ?s)" using r(1) x m(1) by (simp add: find_mount_def)
    ultimately show ?thesis using m by auto
  qed
qed

lemma put_mount_keep:
  assumes "table_ok api A e s" and "fs_mnt s i = Some m" and "e i > 0" and "refs A e s i \<noteq> 1"
  shows "put_mount i s = Some (s\<lparr>fs_mnt := (fs_mnt s)(i \<mapsto> m\<lparr>m_ref := m_ref m - 1\<rparr>)\<rparr>)"
    and "table_ok api A (e(i := e i - 1)) (s\<lparr>fs_mnt := (fs_mnt s)(i \<mapsto> m\<lparr>m_ref := m_ref m - 1\<rparr>)\<rparr>)"
proof -
  let ?s = "s\<lparr>fs_mnt := (fs_mnt s)(i \<mapsto> m\<lparr>m_ref := m_ref m - 1\<rparr>)\<rparr>"
  note m = table_okD [OF assms(1,2)]
  have "m_ref m - 1 \<noteq> 0" using m(3) assms(4) by simp
  then show "put_mount i s = Some ?s" using assms(2) by (simp add: put_mount_def)
  have r: "refs A (e(i := e i - 1)) ?s j + of_bool (j = i) = refs A e s j" for j using assms(3) by (simp add: refs_def)
  have "m_ref m - 1 = int (refs A (e(i := e i - 1)) ?s i)" "0 < refs A (e(i := e i - 1)) ?s i" using r [of i] m(3,4) assms(4) by simp_all
  moreover have "refs A (e(i := e i - 1)) ?s j = refs A e s j" if "j \<noteq> i" for j using r [of j] that by simp
  ultimately show "table_ok api A (e(i := e i - 1)) ?s" using assms(1,2) m(1,2,5) by (auto simp: table_ok_def insert_absorb domI)
qed

lemma bio_close_held:
  assumes "devs_ok b mnt" and "mnt i = Some m" and "m_dev m = Some d" and "finite (dom mnt)"
  shows "\<exists>b'. bio_close d b = Some b' \<and> devs_ok b' (mnt(i := None))"
proof -
  have i: "i \<in> on_dev mnt d" using assms(2,3) by (auto simp: on_dev_def)
  have fin: "finite (on_dev mnt d)" by (rule finite_subset [OF _ assms(4)]) (auto simp: on_dev_def)
  have o: "on_dev (mnt(i := None)) d' = on_dev mnt d' - {i}" for d' by (auto simp: on_dev_def)
  have i': "i \<notin> on_dev mnt d'" if "d' \<noteq> d" for d' using assms(2,3) that by (auto simp: on_dev_def)
  have c: "card (on_dev mnt d) = Suc (card (on_dev mnt d - {i}))" using card.remove [OF fin i] .
  have l: "1 + int (card (on_dev mnt d)) \<le> bd_ref (bdevs b d)" using assms(1) i by (auto simp: devs_ok_def)
  then have "bd_ref (bdevs b d) \<noteq> 1" using c by simp
  then have "bio_close d b = Some (upd_bdev d (\<lambda>x. x\<lparr>bd_ref := bd_ref x - 1\<rparr>) b)"
    by (simp add: bio_close_def bdev_dec_ref.simps [of d b] Let_def)
  moreover have "devs_ok (upd_bdev d (\<lambda>x. x\<lparr>bd_ref := bd_ref x - 1\<rparr>) b) (mnt(i := None))"
    using assms(1) l c i' by (auto simp: devs_ok_def o upd_bdev_def)
  ultimately show ?thesis by blast
qed

lemma devs_ok_drop: "devs_ok b mnt \<Longrightarrow> mnt i = Some m \<Longrightarrow> m_dev m = None \<Longrightarrow> devs_ok b (mnt(i := None))"
proof -
  assume a: "devs_ok b mnt" "mnt i = Some m" "m_dev m = None"
  have "on_dev (mnt(i := None)) d = on_dev mnt d" for d using a(2,3) by (auto simp: on_dev_def)
  with a(1) show ?thesis by (simp add: devs_ok_def)
qed

lemma table_ok_finite: "table_ok api A e s \<Longrightarrow> finite (dom (fs_mnt s))"
  unfolding table_ok_def by (metis List.finite_set)

text \<open>The last reference goes: nothing else refers to the mount.\<close>

lemma last_ref:
  assumes "table_ok api A e s" and "e i > 0" and "refs A e s i = 1"
  shows "i \<notin> A" "e i = 1" "on_mount (fs_fh s) i = {}" "on_mount (fs_dh s) i = {}"
proof -
  have f: "finite (on_mount (fs_fh s) i)" "finite (on_mount (fs_dh s) i)"
    using assms(1) on_mount_finite [of "fs_next s" "fs_mnt s" _ i] by (simp_all add: table_ok_def)
  have c: "i \<notin> A" "e i = 1" "card (on_mount (fs_fh s) i) = 0" "card (on_mount (fs_dh s) i) = 0"
    using assms(2,3) by (cases "i \<in> A"; simp add: refs_def)+
  show "i \<notin> A" "e i = 1" "on_mount (fs_fh s) i = {}" "on_mount (fs_dh s) i = {}" using c f by simp_all
qed

lemma cookies_simps [simp]:
  "mount_cookies (mnt(i \<mapsto> m)) = (mount_cookies mnt)(i \<mapsto> m_cookie m)"
  "mount_cookies (mnt(i := None)) = (mount_cookies mnt)(i := None)"
  "handle_cookies (fhs(k \<mapsto> fh)) = (handle_cookies fhs)(k \<mapsto> handle_of fh)"
  "handle_cookies (fhs(k := None)) = (handle_cookies fhs)(k := None)"
  by (simp_all add: mount_cookies_def handle_cookies_def fun_eq_iff)

lemma cookie_lookup:
  "mnt i = Some m \<Longrightarrow> mount_cookies mnt i = Some (m_cookie m)" "mnt i = None \<Longrightarrow> mount_cookies mnt i = None"
  "fhs k = Some fh \<Longrightarrow> handle_cookies fhs k = Some (handle_of fh)" "fhs k = None \<Longrightarrow> handle_cookies fhs k = None"
  by (simp_all add: mount_cookies_def handle_cookies_def)

lemma cookies_upd_ref [simp]: "mnt i = Some m \<Longrightarrow> (mount_cookies mnt)(i \<mapsto> m_cookie m) = mount_cookies mnt"
  by (simp add: mount_cookies_def fun_eq_iff)

lemma no_cookies: "on_mount fhs i = {} \<Longrightarrow> \<forall>k x. handle_cookies fhs k \<noteq> Some (i, x)"
  by (auto simp: handle_cookies_def on_mount_def)

definition fs_ok ::
  "('d bio_state \<times> 'w) fs_api \<Rightarrow> ('w \<Rightarrow> (nat \<Rightarrow> nat option) \<Rightarrow> (nat \<Rightarrow> (nat \<times> nat) option) \<Rightarrow> (nat \<Rightarrow> (nat \<times> nat) option) \<Rightarrow> bool) \<Rightarrow>
   nat set \<Rightarrow> (nat \<Rightarrow> nat) \<Rightarrow> ('d, 'w) fs_state \<Rightarrow> bool" where
  "fs_ok api finv A e s \<longleftrightarrow> table_ok api A e s \<and> finv (fs_drv s) (mount_cookies (fs_mnt s)) (handle_cookies (fs_fh s)) (handle_cookies (fs_dh s))"

text \<open>Taking a mount out of the table.\<close>

lemma table_ok_remove:
  assumes "table_ok api A e s" and "e i > 0" and "refs A e s i = 1" and "devs_ok b ((fs_mnt s)(i := None))"
  shows "table_ok api A (e(i := e i - 1)) (s\<lparr>fs_bio := b, fs_drv := w, fs_mounts := remove1 i (fs_mounts s), fs_mnt := (fs_mnt s)(i := None)\<rparr>)"
proof -
  note l = last_ref [OF assms(1-3)]
  have "refs A (e(i := e i - 1)) s j = refs A e s j" if "j \<noteq> i" for j using that by (simp add: refs_def)
  moreover have "handles_ok (fs_next s) ((fs_mnt s)(i := None)) (fs_fh s)" "handles_ok (fs_next s) ((fs_mnt s)(i := None)) (fs_dh s)"
    using assms(1) l(3,4) by (auto simp: table_ok_def handles_ok_def on_mount_def)
  ultimately show ?thesis using assms(1,4) by (auto simp: table_ok_def refs_def)
qed

context fs_driver
begin

lemma put_last:
  assumes "fs_ok api finv A e s" and "fs_mnt s i = Some m" and "e i > 0" and "refs A e s i = 1"
  shows "\<exists>s'. put_mount i s = Some s' \<and> fs_ok api finv A (e(i := e i - 1)) s' \<and> fs_fh s' = fs_fh s \<and> fs_dh s' = fs_dh s \<and> fs_next s' = fs_next s"
proof -
  have t: "table_ok api A e s" and f: "finv (fs_drv s) (mount_cookies (fs_mnt s)) (handle_cookies (fs_fh s)) (handle_cookies (fs_dh s))" using assms(1) by (simp_all add: fs_ok_def)
  note m = table_okD [OF t assms(2)] and l = last_ref [OF t assms(3,4)]
  let ?s = "s\<lparr>fs_mnt := (fs_mnt s)(i \<mapsto> m\<lparr>m_ref := m_ref m - 1\<rparr>), fs_mounts := remove1 i (fs_mounts s)\<rparr>"
  from unmount_law [OF f cookie_lookup(1) [of "fs_mnt s", OF assms(2)] no_cookies [OF l(3)] no_cookies [OF l(4)], of "fs_bio s"]
  obtain h where h: "fa_unmount api = Some h"
    "act_ok (h (m_cookie m)) (fs_bio ?s, fs_drv ?s) (\<lambda>_ w'. finv w' ((mount_cookies (fs_mnt s))(i := None)) (handle_cookies (fs_fh s)) (handle_cookies (fs_dh s)))" by auto
  from h(2) obtain r b w where d: "drv (h (m_cookie m)) ?s = Some (r, ?s\<lparr>fs_bio := b, fs_drv := w\<rparr>)" "same_refs (fs_bio s) b"
    "finv w ((mount_cookies (fs_mnt s))(i := None)) (handle_cookies (fs_fh s)) (handle_cookies (fs_dh s))" by (rule drv_ok) auto
  have b: "devs_ok b (fs_mnt s)" using t d(2) by (auto simp: table_ok_def intro: devs_ok_same)
  obtain b' where b': "case m_dev m of None \<Rightarrow> b' = b | Some d \<Rightarrow> bio_close d b = Some b'" "devs_ok b' ((fs_mnt s)(i := None))"
  proof (cases "m_dev m")
    case None
    then show ?thesis using that devs_ok_drop [OF b assms(2)] by simp
  next
    case (Some d)
    then show ?thesis using that bio_close_held [OF b assms(2) Some table_ok_finite [OF t]] by auto
  qed
  let ?s' = "s\<lparr>fs_bio := b', fs_drv := w, fs_mounts := remove1 i (fs_mounts s), fs_mnt := (fs_mnt s)(i := None)\<rparr>"
  have "m_ref m = 1" using m(3) assms(4) by simp
  then have "put_mount i s = Some ?s'"
    using assms(2) m(2) h(1) d(1) b'(1) by (cases "m_dev m") (simp_all add: put_mount_def)
  moreover have "fs_ok api finv A (e(i := e i - 1)) ?s'" using table_ok_remove [OF t assms(3,4) b'(2)] d(3) by (simp add: fs_ok_def)
  ultimately show ?thesis by auto
qed

lemma put_ok:
  assumes "fs_ok api finv A e s" and "e i > 0" and "i \<in> dom (fs_mnt s)"
  shows "\<exists>s'. put_mount i s = Some s' \<and> fs_ok api finv A (e(i := e i - 1)) s' \<and> fs_fh s' = fs_fh s \<and> fs_dh s' = fs_dh s \<and> fs_next s' = fs_next s"
proof (cases "refs A e s i = 1")
  case True
  then show ?thesis using put_last assms by blast
next
  case False
  obtain m where m: "fs_mnt s i = Some m" using assms(3) by auto
  show ?thesis using put_mount_keep [OF _ m assms(2) False] assms(1) m by (auto simp: fs_ok_def)
qed

end

section \<open>Handles\<close>

lemma on_mount_add: "fhs k = None \<Longrightarrow> on_mount (fhs(k \<mapsto> fh)) i = (if fh_mount fh = i then insert k (on_mount fhs i) else on_mount fhs i)"
  by (auto simp: on_mount_def)

lemma on_mount_del: "fhs k = Some fh \<Longrightarrow> on_mount (fhs(k := None)) i = (if fh_mount fh = i then on_mount fhs i - {k} else on_mount fhs i)"
  by (auto simp: on_mount_def)

lemma fresh_handle: "handles_ok n mnt fhs \<Longrightarrow> fhs n = None"
  by (metis handles_ok_def less_irrefl not_None_eq)

lemma handles_ok_more: "handles_ok n mnt fhs \<Longrightarrow> n \<le> n' \<Longrightarrow> handles_ok n' mnt fhs"
  by (fastforce simp: handles_ok_def)

lemma card_on_mount_add:
  assumes "handles_ok n mnt fhs"
  shows "card (on_mount (fhs(n \<mapsto> fh)) i) = card (on_mount fhs i) + of_bool (fh_mount fh = i)"
proof -
  have "n \<notin> on_mount fhs i" using fresh_handle [OF assms] by (simp add: on_mount_def)
  then show ?thesis using fresh_handle [OF assms] on_mount_finite [OF assms, of i] by (simp add: on_mount_add)
qed

lemma card_on_mount_del:
  assumes "handles_ok n mnt fhs" and "fhs k = Some fh"
  shows "card (on_mount (fhs(k := None)) i) + of_bool (fh_mount fh = i) = card (on_mount fhs i)"
proof -
  have "fh_mount fh = i \<Longrightarrow> k \<in> on_mount fhs i" using assms(2) by (auto simp: on_mount_def)
  then show ?thesis using on_mount_finite [OF assms(1), of i] assms(2) card.remove [of "on_mount fhs i" k] by (cases "fh_mount fh = i") (simp_all add: on_mount_del)
qed

text \<open>Opening turns the temporary reference into that of the handle, closing the other way round.\<close>

lemma table_ok_new_file:
  assumes "table_ok api A e s" and "e i > 0" and "i \<in> dom (fs_mnt s)"
  shows "table_ok api A (e(i := e i - 1)) (s\<lparr>fs_next := fs_next s + 1, fs_fh := (fs_fh s)(fs_next s \<mapsto> \<lparr>fh_cookie = c, fh_mount = i\<rparr>)\<rparr>)" (is "table_ok api A ?e ?s")
proof -
  have h: "handles_ok (fs_next s) (fs_mnt s) (fs_fh s)" "handles_ok (fs_next s) (fs_mnt s) (fs_dh s)" using assms(1) by (simp_all add: table_ok_def)
  have "refs A ?e ?s j = refs A e s j" for j using assms(2) by (simp add: refs_def card_on_mount_add [OF h(1)])
  moreover have "handles_ok (fs_next s + 1) (fs_mnt s) ((fs_fh s)(fs_next s \<mapsto> \<lparr>fh_cookie = c, fh_mount = i\<rparr>))"
    using h(1) assms(3) by (auto simp: handles_ok_def less_SucI)
  ultimately show ?thesis using assms(1) handles_ok_more [OF h(2), of "fs_next s + 1"] by (auto simp: table_ok_def less_SucI)
qed

lemma table_ok_new_dir:
  assumes "table_ok api A e s" and "e i > 0" and "i \<in> dom (fs_mnt s)"
  shows "table_ok api A (e(i := e i - 1)) (s\<lparr>fs_next := fs_next s + 1, fs_dh := (fs_dh s)(fs_next s \<mapsto> \<lparr>fh_cookie = c, fh_mount = i\<rparr>)\<rparr>)" (is "table_ok api A ?e ?s")
proof -
  have h: "handles_ok (fs_next s) (fs_mnt s) (fs_fh s)" "handles_ok (fs_next s) (fs_mnt s) (fs_dh s)" using assms(1) by (simp_all add: table_ok_def)
  have "refs A ?e ?s j = refs A e s j" for j using assms(2) by (simp add: refs_def card_on_mount_add [OF h(2)])
  moreover have "handles_ok (fs_next s + 1) (fs_mnt s) ((fs_dh s)(fs_next s \<mapsto> \<lparr>fh_cookie = c, fh_mount = i\<rparr>))"
    using h(2) assms(3) by (auto simp: handles_ok_def less_SucI)
  ultimately show ?thesis using assms(1) handles_ok_more [OF h(1), of "fs_next s + 1"] by (auto simp: table_ok_def less_SucI)
qed

lemma table_ok_del_file:
  assumes "table_ok api A e s" and "fs_fh s k = Some fh" and "i = fh_mount fh"
  shows "table_ok api A (e(i := e i + 1)) (s\<lparr>fs_fh := (fs_fh s)(k := None)\<rparr>)" (is "table_ok api A ?e ?s")
proof -
  have h: "handles_ok (fs_next s) (fs_mnt s) (fs_fh s)" using assms(1) by (simp add: table_ok_def)
  have "refs A ?e ?s j = refs A e s j" for j using card_on_mount_del [OF h assms(2), of j] by (auto simp: refs_def assms(3))
  moreover have "handles_ok (fs_next s) (fs_mnt s) ((fs_fh s)(k := None))" using h by (auto simp: handles_ok_def)
  ultimately show ?thesis using assms(1) by (auto simp: table_ok_def)
qed

lemma table_ok_del_dir:
  assumes "table_ok api A e s" and "fs_dh s k = Some fh" and "i = fh_mount fh"
  shows "table_ok api A (e(i := e i + 1)) (s\<lparr>fs_dh := (fs_dh s)(k := None)\<rparr>)" (is "table_ok api A ?e ?s")
proof -
  have h: "handles_ok (fs_next s) (fs_mnt s) (fs_dh s)" using assms(1) by (simp add: table_ok_def)
  have "refs A ?e ?s j = refs A e s j" for j using card_on_mount_del [OF h assms(2), of j] by (auto simp: refs_def assms(3))
  moreover have "handles_ok (fs_next s) (fs_mnt s) ((fs_dh s)(k := None))" using h by (auto simp: handles_ok_def)
  ultimately show ?thesis using assms(1) by (auto simp: table_ok_def)
qed

text \<open>Dropping a mount does not look at the handles.\<close>

lemma put_mount_fh: "put_mount i (s\<lparr>fs_fh := x\<rparr>) = map_option (\<lambda>s. s\<lparr>fs_fh := x\<rparr>) (put_mount i s)"
  by (auto simp: put_mount_def drv_def Let_def split: bind_splits option.splits)

lemma put_mount_dh: "put_mount i (s\<lparr>fs_dh := x\<rparr>) = map_option (\<lambda>s. s\<lparr>fs_dh := x\<rparr>) (put_mount i s)"
  by (auto simp: put_mount_def drv_def Let_def split: bind_splits option.splits)

lemma table_ok_detach: "table_ok api A e s \<Longrightarrow> i \<in> A \<Longrightarrow> table_ok api (A - {i}) (e(i := e i + 1)) s"
proof -
  assume a: "table_ok api A e s" "i \<in> A"
  have "refs (A - {i}) (e(i := e i + 1)) s j = refs A e s j" for j using a(2) by (simp add: refs_def)
  with a(1) show ?thesis by (simp add: table_ok_def)
qed

section \<open>Every call is safe\<close>

text \<open>\<open>same_tables s s'\<close>: only the devices and the state of the implementation differ.\<close>

definition same_tables :: "('d, 'w) fs_state \<Rightarrow> ('d, 'w) fs_state \<Rightarrow> bool" where
  "same_tables s s' \<longleftrightarrow> fs_mnt s' = fs_mnt s \<and> fs_mounts s' = fs_mounts s \<and> fs_fh s' = fs_fh s \<and> fs_dh s' = fs_dh s \<and> fs_next s' = fs_next s \<and> fs_oom s' = fs_oom s"

text \<open>The mount that a path leads to and what is left of the path.\<close>

definition finds :: "string \<Rightarrow> ('d, 'w) fs_state \<Rightarrow> (nat \<times> string) option" where
  "finds path s = Option.bind (temppath path) (\<lambda>x. Option.bind (search_mount (fs_mnt s) x (fs_mounts s)) (\<lambda>r. r))"

text \<open>\<open>same_but_ref i s s'\<close>: one more reference to the mount \<open>i\<close>, everything else alike.\<close>

definition same_but_ref :: "nat \<Rightarrow> ('d, 'w) fs_state \<Rightarrow> ('d, 'w) fs_state \<Rightarrow> bool" where
  "same_but_ref i s s' \<longleftrightarrow> (\<exists>m. fs_mnt s i = Some m \<and> s' = s\<lparr>fs_mnt := (fs_mnt s)(i \<mapsto> m\<lparr>m_ref := m_ref m + 1\<rparr>)\<rparr>)"

lemma temppath_some: "\<exists>q. temppath path = Some q"
  if "NUL \<notin> set path"
proof -
  have "NUL \<notin> set (take (FS_MAX_PATH_LEN - 1) path)" using that by (meson in_set_takeD)
  then obtain buf where "fs_normalize_path (take (FS_MAX_PATH_LEN - 1) path @ NUL # []) = Some buf" using normalize_gives by metis
  then show ?thesis by (simp add: temppath_def)
qed

context fs_driver
begin

lemma find_ok:
  assumes "fs_ok api finv A e s"
  shows "\<exists>r s'. find_mount path s = Some (r, s') \<and>
    (case r of None \<Rightarrow> s' = s
     | Some (i, rest) \<Rightarrow> fs_ok api finv A (e(i := e i + 1)) s' \<and> (\<exists>m. fs_mnt s' i = Some m \<and> m_api m = api) \<and> same_but_ref i s s')"
proof -
  have t: "table_ok api A e s" using assms by (simp add: fs_ok_def)
  obtain r s' where r: "find_mount path s = Some (r, s')" "case r of None \<Rightarrow> s' = s
     | Some (i, rest) \<Rightarrow> \<exists>m p. fs_mnt s i = Some m \<and> m_path m = Some p \<and> path = p @ rest \<and>
         s' = s\<lparr>fs_mnt := (fs_mnt s)(i \<mapsto> m\<lparr>m_ref := m_ref m + 1\<rparr>)\<rparr> \<and> table_ok api A (e(i := e i + 1)) s'"
    using table_ok_find [OF t] by blast
  show ?thesis using r assms table_okD(2) [OF t] by (cases r) (auto simp: fs_ok_def same_but_ref_def)
qed

text \<open>A call into the implementation that keeps the cookies.\<close>

lemma drv_keeps:
  assumes "fs_ok api finv A e s"
    and "act_ok h (fs_bio s, fs_drv s) (\<lambda>_ w'. finv w' (mount_cookies (fs_mnt s)) (handle_cookies (fs_fh s)) (handle_cookies (fs_dh s)))"
  shows "\<exists>r s'. drv h s = Some (r, s') \<and> fs_ok api finv A e s' \<and> same_tables s s'"
proof -
  from assms(2) obtain r b w where d: "drv h s = Some (r, s\<lparr>fs_bio := b, fs_drv := w\<rparr>)" "same_refs (fs_bio s) b"
    "finv w (mount_cookies (fs_mnt s)) (handle_cookies (fs_fh s)) (handle_cookies (fs_dh s))" by (rule drv_ok)
  then show ?thesis using assms(1) table_ok_drv [OF _ d(2)] by (auto simp: fs_ok_def same_tables_def)
qed

lemma new_file_ok:
  assumes "table_ok api A e s" and "e i > 0" and "i \<in> dom (fs_mnt s)"
    and "finv (fs_drv s) (mount_cookies (fs_mnt s)) ((handle_cookies (fs_fh s))(fs_next s \<mapsto> (i, c))) (handle_cookies (fs_dh s))"
  shows "\<exists>f s'. new_file c i s = Some (f, s') \<and> fs_ok api finv A (e(i := e i - 1)) s' \<and> f = fs_next s \<and> fs_fh s' f = Some \<lparr>fh_cookie = c, fh_mount = i\<rparr>"
  using assms table_ok_new_file [OF assms(1-3)] by (auto simp: new_file_def new_obj_def fs_ok_def table_ok_def)

lemma new_dir_ok:
  assumes "table_ok api A e s" and "e i > 0" and "i \<in> dom (fs_mnt s)"
    and "finv (fs_drv s) (mount_cookies (fs_mnt s)) (handle_cookies (fs_fh s)) ((handle_cookies (fs_dh s))(fs_next s \<mapsto> (i, c)))"
  shows "\<exists>f s'. new_dir c i s = Some (f, s') \<and> fs_ok api finv A (e(i := e i - 1)) s' \<and> f = fs_next s \<and> fs_dh s' f = Some \<lparr>fh_cookie = c, fh_mount = i\<rparr>"
  using assms table_ok_new_dir [OF assms(1-3)] by (auto simp: new_dir_def new_obj_def fs_ok_def table_ok_def)

lemma drop_file_ok:
  assumes "table_ok api A e s" and "fs_fh s k = Some fh"
    and "finv (fs_drv s) (mount_cookies (fs_mnt s)) ((handle_cookies (fs_fh s))(k := None)) (handle_cookies (fs_dh s))"
  shows "\<exists>s'. put_mount (fh_mount fh) s = Some s' \<and> fs_ok api finv A e (s'\<lparr>fs_fh := (fs_fh s')(k := None)\<rparr>) \<and> fs_fh s' = fs_fh s \<and> fs_dh s' = fs_dh s"
proof -
  let ?i = "fh_mount fh" and ?x = "(fs_fh s)(k := None)"
  have "?i \<in> dom (fs_mnt s)" using assms(1,2) by (auto simp: table_ok_def handles_ok_def)
  moreover have "fs_ok api finv A (e(?i := e ?i + 1)) (s\<lparr>fs_fh := ?x\<rparr>)" using table_ok_del_file [OF assms(1,2) refl] assms(3) by (simp add: fs_ok_def)
  ultimately obtain s' where s': "put_mount ?i (s\<lparr>fs_fh := ?x\<rparr>) = Some s'" "fs_ok api finv A e s'" "fs_fh s' = ?x" "fs_dh s' = fs_dh s"
    using put_ok [of A "e(?i := e ?i + 1)" "s\<lparr>fs_fh := ?x\<rparr>" ?i] by auto
  have "put_mount ?i s = put_mount ?i ((s\<lparr>fs_fh := ?x\<rparr>)\<lparr>fs_fh := fs_fh s\<rparr>)" by simp
  also have "\<dots> = Some (s'\<lparr>fs_fh := fs_fh s\<rparr>)" using s'(1) by (subst put_mount_fh) simp
  finally have p: "put_mount ?i s = Some (s'\<lparr>fs_fh := fs_fh s\<rparr>)" .
  have "s'\<lparr>fs_fh := ?x\<rparr> = s'" using s'(3) by (cases s') simp
  then show ?thesis using p s'(2,4) by (intro exI [of _ "s'\<lparr>fs_fh := fs_fh s\<rparr>"]) simp
qed

lemma drop_dir_ok:
  assumes "table_ok api A e s" and "fs_dh s k = Some fh"
    and "finv (fs_drv s) (mount_cookies (fs_mnt s)) (handle_cookies (fs_fh s)) ((handle_cookies (fs_dh s))(k := None))"
  shows "\<exists>s'. put_mount (fh_mount fh) s = Some s' \<and> fs_ok api finv A e (s'\<lparr>fs_dh := (fs_dh s')(k := None)\<rparr>) \<and> fs_fh s' = fs_fh s \<and> fs_dh s' = fs_dh s"
proof -
  let ?i = "fh_mount fh" and ?x = "(fs_dh s)(k := None)"
  have "?i \<in> dom (fs_mnt s)" using assms(1,2) by (auto simp: table_ok_def handles_ok_def)
  moreover have "fs_ok api finv A (e(?i := e ?i + 1)) (s\<lparr>fs_dh := ?x\<rparr>)" using table_ok_del_dir [OF assms(1,2) refl] assms(3) by (simp add: fs_ok_def)
  ultimately obtain s' where s': "put_mount ?i (s\<lparr>fs_dh := ?x\<rparr>) = Some s'" "fs_ok api finv A e s'" "fs_dh s' = ?x" "fs_fh s' = fs_fh s"
    using put_ok [of A "e(?i := e ?i + 1)" "s\<lparr>fs_dh := ?x\<rparr>" ?i] by auto
  have "put_mount ?i s = put_mount ?i ((s\<lparr>fs_dh := ?x\<rparr>)\<lparr>fs_dh := fs_dh s\<rparr>)" by simp
  also have "\<dots> = Some (s'\<lparr>fs_dh := fs_dh s\<rparr>)" using s'(1) by (subst put_mount_dh) simp
  finally have p: "put_mount ?i s = Some (s'\<lparr>fs_dh := fs_dh s\<rparr>)" .
  have "s'\<lparr>fs_dh := ?x\<rparr> = s'" using s'(3) by (cases s') simp
  then show ?thesis using p s'(2,4) by (intro exI [of _ "s'\<lparr>fs_dh := fs_dh s\<rparr>"]) simp
qed

end

text \<open>A call is safe when it returns and leaves the tables and the implementation consistent, with no temporary reference left.\<close>

definition safe ::
  "('d bio_state \<times> 'w) fs_api \<Rightarrow> ('w \<Rightarrow> (nat \<Rightarrow> nat option) \<Rightarrow> (nat \<Rightarrow> (nat \<times> nat) option) \<Rightarrow> (nat \<Rightarrow> (nat \<times> nat) option) \<Rightarrow> bool) \<Rightarrow>
   nat set \<Rightarrow> ('r \<times> ('d, 'w) fs_state) option \<Rightarrow> bool" where
  "safe api finv A r \<longleftrightarrow> (\<exists>x s'. r = Some (x, s') \<and> fs_ok api finv A (\<lambda>_. 0) s')"

lemma safe_Some [simp]: "safe api finv A (Some (x, s)) = fs_ok api finv A (\<lambda>_. 0) s"
  by (simp add: safe_def)

lemma fresh_cookie: "table_ok api A e s \<Longrightarrow> handle_cookies (fs_fh s) (fs_next s) = None" "table_ok api A e s \<Longrightarrow> handle_cookies (fs_dh s) (fs_next s) = None"
  using fresh_handle [of "fs_next s" "fs_mnt s"] by (simp_all add: table_ok_def handle_cookies_def)

lemma no_ref [simp]: "(\<lambda>_. 0)(i := 0) = (\<lambda>_. 0 :: nat)"
  by (simp add: fun_eq_iff)

context fs_driver
begin

text \<open>A mount with one temporary reference: after \<open>find_mount\<close>.\<close>

lemma put_safe:
  assumes "fs_ok api finv A ((\<lambda>_. 0)(i := 1)) s" and "i \<in> dom (fs_mnt s)"
  shows "safe api finv A (do { s \<leftarrow> put_mount i s; Some (x, s) })"
  using put_ok [OF assms(1) _ assms(2)] by auto

lemma release_safe:
  assumes "fs_ok api finv A ((\<lambda>_. 0)(i := 1)) s" and "i \<in> dom (fs_mnt s)"
    and "act_ok h (fs_bio s, fs_drv s) (\<lambda>_ w'. finv w' (mount_cookies (fs_mnt s)) (handle_cookies (fs_fh s)) (handle_cookies (fs_dh s)))"
  shows "safe api finv A (do { (err, s) \<leftarrow> drv h s; s \<leftarrow> put_mount i s; Some (g err, s) })"
proof -
  obtain r s' where d: "drv h s = Some (r, s')" "fs_ok api finv A ((\<lambda>_. 0)(i := 1)) s'" "same_tables s s'" using drv_keeps [OF assms(1,3)] by blast
  have "i \<in> dom (fs_mnt s')" using d(3) assms(2) by (simp add: same_tables_def)
  from put_safe [OF d(2) this] d(1) show ?thesis by simp
qed

lemma open_safe:
  assumes "fs_ok api finv A ((\<lambda>_. 0)(i := 1)) s" and "i \<in> dom (fs_mnt s)"
    and "act_ok h (fs_bio s, fs_drv s) (\<lambda>r w'. case r of
      Inl _ \<Rightarrow> finv w' (mount_cookies (fs_mnt s)) (handle_cookies (fs_fh s)) (handle_cookies (fs_dh s))
    | Inr f \<Rightarrow> finv w' (mount_cookies (fs_mnt s)) ((handle_cookies (fs_fh s))(fs_next s \<mapsto> (i, f))) (handle_cookies (fs_dh s)))"
  shows "safe api finv A (do { (r, s) \<leftarrow> drv h s;
      (case r of Inl err \<Rightarrow> do { s \<leftarrow> put_mount i s; Some (Inl err, s) } | Inr cookie \<Rightarrow> do { (f, s) \<leftarrow> new_file cookie i s; Some (Inr f, s) }) })"
proof -
  have t: "table_ok api A ((\<lambda>_. 0)(i := 1)) s" using assms(1) by (simp add: fs_ok_def)
  from assms(3) obtain r b w where d: "drv h s = Some (r, s\<lparr>fs_bio := b, fs_drv := w\<rparr>)" "same_refs (fs_bio s) b"
    "case r of Inl _ \<Rightarrow> finv w (mount_cookies (fs_mnt s)) (handle_cookies (fs_fh s)) (handle_cookies (fs_dh s))
     | Inr f \<Rightarrow> finv w (mount_cookies (fs_mnt s)) ((handle_cookies (fs_fh s))(fs_next s \<mapsto> (i, f))) (handle_cookies (fs_dh s))" by (rule drv_ok)
  let ?s = "s\<lparr>fs_bio := b, fs_drv := w\<rparr>"
  note t' = table_ok_drv [OF t d(2), of w]
  show ?thesis
  proof (cases r)
    case (Inl err)
    then have "fs_ok api finv A ((\<lambda>_. 0)(i := 1)) ?s" using d(3) t' by (simp add: fs_ok_def)
    from put_safe [OF this] assms(2) d(1) Inl show ?thesis by simp
  next
    case (Inr c)
    then show ?thesis using d(1,3) new_file_ok [OF t', of i c] assms(2) by auto
  qed
qed

lemma opendir_safe:
  assumes "fs_ok api finv A ((\<lambda>_. 0)(i := 1)) s" and "i \<in> dom (fs_mnt s)"
    and "act_ok h (fs_bio s, fs_drv s) (\<lambda>r w'. case r of
      Inl _ \<Rightarrow> finv w' (mount_cookies (fs_mnt s)) (handle_cookies (fs_fh s)) (handle_cookies (fs_dh s))
    | Inr f \<Rightarrow> finv w' (mount_cookies (fs_mnt s)) (handle_cookies (fs_fh s)) ((handle_cookies (fs_dh s))(fs_next s \<mapsto> (i, f))))"
  shows "safe api finv A (do { (r, s) \<leftarrow> drv h s;
      (case r of Inl err \<Rightarrow> do { s \<leftarrow> put_mount i s; Some (Inl err, s) } | Inr cookie \<Rightarrow> do { (f, s) \<leftarrow> new_dir cookie i s; Some (Inr f, s) }) })"
proof -
  have t: "table_ok api A ((\<lambda>_. 0)(i := 1)) s" using assms(1) by (simp add: fs_ok_def)
  from assms(3) obtain r b w where d: "drv h s = Some (r, s\<lparr>fs_bio := b, fs_drv := w\<rparr>)" "same_refs (fs_bio s) b"
    "case r of Inl _ \<Rightarrow> finv w (mount_cookies (fs_mnt s)) (handle_cookies (fs_fh s)) (handle_cookies (fs_dh s))
     | Inr f \<Rightarrow> finv w (mount_cookies (fs_mnt s)) (handle_cookies (fs_fh s)) ((handle_cookies (fs_dh s))(fs_next s \<mapsto> (i, f)))" by (rule drv_ok)
  let ?s = "s\<lparr>fs_bio := b, fs_drv := w\<rparr>"
  note t' = table_ok_drv [OF t d(2), of w]
  show ?thesis
  proof (cases r)
    case (Inl err)
    then have "fs_ok api finv A ((\<lambda>_. 0)(i := 1)) ?s" using d(3) t' by (simp add: fs_ok_def)
    from put_safe [OF this] assms(2) d(1) Inl show ?thesis by simp
  next
    case (Inr c)
    then show ?thesis using d(1,3) new_dir_ok [OF t', of i c] assms(2) by auto
  qed
qed

text \<open>The start of a call that takes a path.\<close>

lemma path_cases:
  assumes "fs_ok api finv A (\<lambda>_. 0) s" and "NUL \<notin> set path"
    and "finds path s = None \<Longrightarrow> P (Some (y, s))"
    and "\<And>i rest s' m. finds path s = Some (i, rest) \<Longrightarrow> fs_ok api finv A ((\<lambda>_. 0)(i := 1)) s' \<Longrightarrow> fs_mnt s' i = Some m \<Longrightarrow> m_api m = api \<Longrightarrow>
      same_but_ref i s s' \<Longrightarrow> P (k (i, rest) s')"
  shows "P (do { temp \<leftarrow> temppath path; (r, s) \<leftarrow> find_mount temp s; (case r of None \<Rightarrow> Some (y, s) | Some ir \<Rightarrow> k ir s) })"
proof -
  obtain x where x: "temppath path = Some x" using temppath_some [OF assms(2)] by blast
  obtain r s' where r: "find_mount x s = Some (r, s')" "case r of None \<Rightarrow> s' = s
     | Some (i, rest) \<Rightarrow> fs_ok api finv A ((\<lambda>_. 0)(i := 1)) s' \<and> (\<exists>m. fs_mnt s' i = Some m \<and> m_api m = api) \<and> same_but_ref i s s'"
    using find_ok [OF assms(1), of x, unfolded add_0] by blast
  have "finds path s = r" using x r(1) by (auto simp: finds_def find_mount_def split: bind_splits option.splits)
  then show ?thesis using x r assms(3,4) by (cases r) auto
qed

lemma path_call:
  assumes "fs_ok api finv A (\<lambda>_. 0) s" and "NUL \<notin> set path"
    and "\<And>i rest s' m. finds path s = Some (i, rest) \<Longrightarrow> fs_ok api finv A ((\<lambda>_. 0)(i := 1)) s' \<Longrightarrow> fs_mnt s' i = Some m \<Longrightarrow> m_api m = api \<Longrightarrow>
      same_but_ref i s s' \<Longrightarrow> safe api finv A (k (i, rest) s')"
  shows "safe api finv A (do { temp \<leftarrow> temppath path; (r, s) \<leftarrow> find_mount temp s; (case r of None \<Rightarrow> Some (y, s) | Some ir \<Rightarrow> k ir s) })"
  by (rule path_cases [OF assms(1,2)]) (use assms(1,3) in simp_all)

lemma open_file_safe:
  assumes "fs_ok api finv A (\<lambda>_. 0) s" and "NUL \<notin> set path"
  shows "safe api finv A (fs_open_file path s)"
  unfolding fs_open_file_def
proof (rule path_call [OF assms], goal_cases)
  case (1 i rest s' m)
  have f: "finv (fs_drv s') (mount_cookies (fs_mnt s')) (handle_cookies (fs_fh s')) (handle_cookies (fs_dh s'))" using 1(2) by (simp add: fs_ok_def)
  have n: "handle_cookies (fs_fh s') (fs_next s') = None" using 1(2) by (auto simp: fs_ok_def intro: fresh_cookie)
  from open_law [OF f cookie_lookup(1) [of "fs_mnt s'", OF 1(3)] n, of rest "fs_bio s'"] obtain h where h: "fa_open api = Some h"
    "act_ok (h (m_cookie m) rest) (fs_bio s', fs_drv s') (\<lambda>r w'. case r of
      Inl _ \<Rightarrow> finv w' (mount_cookies (fs_mnt s')) (handle_cookies (fs_fh s')) (handle_cookies (fs_dh s'))
    | Inr f \<Rightarrow> finv w' (mount_cookies (fs_mnt s')) ((handle_cookies (fs_fh s'))(fs_next s' \<mapsto> (i, f))) (handle_cookies (fs_dh s')))" by blast
  from open_safe [OF 1(2) _ h(2)] h(1) 1(3,4) show ?case by (simp add: domI)
qed

lemma create_file_safe:
  assumes "fs_ok api finv A (\<lambda>_. 0) s" and "NUL \<notin> set path"
  shows "safe api finv A (fs_create_file path len s)"
  unfolding fs_create_file_def
proof (rule path_call [OF assms], goal_cases)
  case (1 i rest s' m)
  have f: "finv (fs_drv s') (mount_cookies (fs_mnt s')) (handle_cookies (fs_fh s')) (handle_cookies (fs_dh s'))" using 1(2) by (simp add: fs_ok_def)
  have n: "handle_cookies (fs_fh s') (fs_next s') = None" using 1(2) by (auto simp: fs_ok_def intro: fresh_cookie)
  note l = create_law [OF f cookie_lookup(1) [of "fs_mnt s'", OF 1(3)] n]
  show ?case using open_safe [OF 1(2) _ l] put_safe [OF 1(2)] 1(3,4) by (cases "fa_create api") (simp_all add: domI)
qed

lemma open_dir_safe:
  assumes "fs_ok api finv A (\<lambda>_. 0) s" and "NUL \<notin> set path"
  shows "safe api finv A (fs_open_dir path s)"
  unfolding fs_open_dir_def
proof (rule path_call [OF assms], goal_cases)
  case (1 i rest s' m)
  have f: "finv (fs_drv s') (mount_cookies (fs_mnt s')) (handle_cookies (fs_fh s')) (handle_cookies (fs_dh s'))" using 1(2) by (simp add: fs_ok_def)
  have n: "handle_cookies (fs_dh s') (fs_next s') = None" using 1(2) by (auto simp: fs_ok_def intro: fresh_cookie)
  note l = opendir_law [OF f cookie_lookup(1) [of "fs_mnt s'", OF 1(3)] n]
  show ?case using opendir_safe [OF 1(2) _ l] put_safe [OF 1(2)] 1(3,4) by (cases "fa_opendir api") (simp_all add: domI)
qed

lemma make_dir_safe:
  assumes "fs_ok api finv A (\<lambda>_. 0) s" and "NUL \<notin> set path"
  shows "safe api finv A (fs_make_dir path s)"
  unfolding fs_make_dir_def
proof (rule path_call [OF assms], goal_cases)
  case (1 i rest s' m)
  have f: "finv (fs_drv s') (mount_cookies (fs_mnt s')) (handle_cookies (fs_fh s')) (handle_cookies (fs_dh s'))" using 1(2) by (simp add: fs_ok_def)
  note l = mkdir_law [OF f cookie_lookup(1) [of "fs_mnt s'", OF 1(3)]]
  show ?case using release_safe [OF 1(2) _ l, of _ _ "\<lambda>x. x"] put_safe [OF 1(2)] 1(3,4) by (cases "fa_mkdir api") (simp_all add: domI)
qed

end

lemma on_mount_none: "handles_ok n mnt fhs \<Longrightarrow> i \<notin> dom mnt \<Longrightarrow> on_mount fhs i = {}"
  unfolding handles_ok_def on_mount_def by blast

lemma table_ok_attach:
  assumes "table_ok api A (\<lambda>_. 0) s" and "devs_ok (fs_bio s) ((fs_mnt s)(fs_next s \<mapsto> m))" and "m_path m = Some p" and "m_ref m = 1" and "m_api m = api"
  shows "table_ok api (insert (fs_next s) A) (\<lambda>_. 0)
    (s\<lparr>fs_next := Suc (Suc (fs_next s)), fs_mnt := (fs_mnt s)(fs_next s \<mapsto> m), fs_mounts := fs_next s # fs_mounts s\<rparr>)" (is "table_ok api ?A ?e ?s")
proof -
  let ?n = "fs_next s"
  have n: "?n \<notin> dom (fs_mnt s)" using assms(1) unfolding table_ok_def by (metis domIff less_irrefl not_None_eq)
  have h: "handles_ok ?n (fs_mnt s) (fs_fh s)" "handles_ok ?n (fs_mnt s) (fs_dh s)" using assms(1) by (simp_all add: table_ok_def)
  have none: "on_mount (fs_fh s) ?n = {}" "on_mount (fs_dh s) ?n = {}" using h n by (simp_all add: on_mount_none)
  have "refs ?A ?e ?s ?n = 1" using none by (simp add: refs_def)
  moreover have "refs ?A ?e ?s j = refs A ?e s j" if "j \<noteq> ?n" for j using that by (simp add: refs_def)
  moreover have "handles_ok (Suc (Suc ?n)) ((fs_mnt s)(?n \<mapsto> m)) (fs_fh s)" "handles_ok (Suc (Suc ?n)) ((fs_mnt s)(?n \<mapsto> m)) (fs_dh s)"
    using h by (fastforce simp: handles_ok_def)+
  ultimately show ?thesis using assms n by (auto simp: table_ok_def less_SucI)
qed

text \<open>Opening a device takes the reference that the mount will hold.\<close>

definition devs_held :: "'d bio_state \<Rightarrow> (nat \<Rightarrow> 'w fs_mount_t option) \<Rightarrow> nat option \<Rightarrow> bool" where
  "devs_held b mnt dev \<longleftrightarrow> devs_ok b mnt \<and> (\<forall>d. dev = Some d \<longrightarrow> d \<in> set (bdev_list b) \<and> 2 + int (card (on_dev mnt d)) \<le> bd_ref (bdevs b d))"

lemma find_bdev_some: "\<forall>i\<in>set is. bd_ref (devs i) > 0 \<Longrightarrow> \<exists>r. find_bdev devs name is = Some r \<and> (\<forall>i. r = Some i \<longrightarrow> i \<in> set is)"
  by (induction "is") auto

lemma open_dev_ok:
  assumes "devs_ok (fs_bio s) mnt"
  shows "\<exists>ok dev b. open_dev device s = Some ((ok, dev), s\<lparr>fs_bio := b\<rparr>) \<and> devs_held b mnt dev"
proof (cases "\<exists>name. device = Some name \<and> name \<noteq> []")
  case False
  then have "open_dev device s = Some ((True, None), s\<lparr>fs_bio := fs_bio s\<rparr>)" by (auto simp: open_dev_def split: option.splits)
  then show ?thesis using assms unfolding devs_held_def by blast
next
  case True
  then obtain name where name: "device = Some name" "name \<noteq> []" by blast
  have p: "1 + int (card (on_dev mnt i)) \<le> bd_ref (bdevs (fs_bio s) i)" if "i \<in> set (bdev_list (fs_bio s))" for i
    using assms that by (auto simp: devs_ok_def)
  then have "\<forall>i\<in>set (bdev_list (fs_bio s)). bd_ref (bdevs (fs_bio s) i) > 0" by (smt (verit) of_nat_0_le_iff)
  then obtain r where r: "find_bdev (bdevs (fs_bio s)) name (bdev_list (fs_bio s)) = Some r" "\<forall>i. r = Some i \<longrightarrow> i \<in> set (bdev_list (fs_bio s))"
    using find_bdev_some by blast
  show ?thesis
  proof (cases r)
    case None
    then have "open_dev device s = Some ((False, None), s\<lparr>fs_bio := fs_bio s\<rparr>)" using name r(1) by (simp add: open_dev_def bio_open_def)
    then show ?thesis using assms unfolding devs_held_def by blast
  next
    case (Some i)
    have "open_dev device s = Some ((True, Some i), s\<lparr>fs_bio := bdev_inc_ref i (fs_bio s)\<rparr>)" using name r(1) Some by (simp add: open_dev_def bio_open_def)
    moreover have "1 + int (card (on_dev mnt i)) \<le> bd_ref (bdevs (fs_bio s) i)" using p r(2) Some by blast
    then have "devs_held (bdev_inc_ref i (fs_bio s)) mnt (Some i)"
      using assms r(2) Some by (auto simp: devs_held_def devs_ok_def bdev_inc_ref_def upd_bdev_def)
    ultimately show ?thesis by blast
  qed
qed

lemma devs_held_same: "devs_held b mnt dev \<Longrightarrow> same_refs b b' \<Longrightarrow> devs_held b' mnt dev"
  by (auto simp: devs_held_def same_refs_def intro: devs_ok_same [unfolded same_refs_def])

lemma devs_held_attach:
  assumes "devs_held b mnt dev" and "m_dev m = dev" and "mnt i = None" and "finite (dom mnt)"
  shows "devs_ok b (mnt(i \<mapsto> m))"
proof -
  have fin: "finite (on_dev mnt d)" for d by (rule finite_subset [OF _ assms(4)]) (auto simp: on_dev_def)
  have o: "on_dev (mnt(i \<mapsto> m)) d = (if dev = Some d then insert i (on_dev mnt d) else on_dev mnt d)" for d
    using assms(2,3) by (auto simp: on_dev_def)
  have i: "i \<notin> on_dev mnt d" for d using assms(3) by (simp add: on_dev_def)
  show ?thesis using assms(1) i fin by (auto simp: devs_ok_def devs_held_def o)
qed

lemma devs_held_close:
  assumes "devs_held b mnt (Some d)"
  shows "\<exists>b'. bio_close d b = Some b' \<and> devs_ok b' mnt"
proof -
  have l: "2 + int (card (on_dev mnt d)) \<le> bd_ref (bdevs b d)" using assms by (simp add: devs_held_def)
  then have "bd_ref (bdevs b d) \<noteq> 1" by (smt (verit) of_nat_0_le_iff)
  then have "bio_close d b = Some (upd_bdev d (\<lambda>x. x\<lparr>bd_ref := bd_ref x - 1\<rparr>) b)"
    by (simp add: bio_close_def bdev_dec_ref.simps [of d b] Let_def)
  moreover have "devs_ok (upd_bdev d (\<lambda>x. x\<lparr>bd_ref := bd_ref x - 1\<rparr>) b) mnt"
    using assms l by (auto simp: devs_ok_def devs_held_def upd_bdev_def)
  ultimately show ?thesis by blast
qed

context fs_driver
begin

lemma fs_okD:
  assumes "fs_ok api finv A e s"
  shows "table_ok api A e s" "finv (fs_drv s) (mount_cookies (fs_mnt s)) (handle_cookies (fs_fh s)) (handle_cookies (fs_dh s))"
    "devs_ok (fs_bio s) (fs_mnt s)" "finite (dom (fs_mnt s))" "fs_mnt s (fs_next s) = None"
proof -
  show t: "table_ok api A e s" and "finv (fs_drv s) (mount_cookies (fs_mnt s)) (handle_cookies (fs_fh s)) (handle_cookies (fs_dh s))"
    using assms by (simp_all add: fs_ok_def)
  show "devs_ok (fs_bio s) (fs_mnt s)" "finite (dom (fs_mnt s))" using t table_ok_finite by (auto simp: table_ok_def)
  show "fs_mnt s (fs_next s) = None" using t unfolding table_ok_def by (metis less_irrefl not_None_eq)
qed

lemma fs_ok_bio: "fs_ok api finv A e s \<Longrightarrow> devs_ok b (fs_mnt s) \<Longrightarrow> fs_ok api finv A e (s\<lparr>fs_bio := b\<rparr>)"
  by (simp add: fs_ok_def table_ok_def refs_def)

text \<open>A mount: either it fails and nothing is attached, or the new mount is.\<close>

lemma attach_safe:
  assumes "fs_ok api finv A (\<lambda>_. 0) s" and "devs_held (fs_bio s) (fs_mnt s) dev"
  shows "\<exists>r s'. do { h \<leftarrow> fa_mount api; (r, s) \<leftarrow> drv (h dev) s;
        (case r of
           Inl err \<Rightarrow> do {
             s \<leftarrow> (case dev of None \<Rightarrow> Some s | Some d \<Rightarrow> do { b \<leftarrow> bio_close d (fs_bio s); Some (s\<lparr>fs_bio := b\<rparr>) });
             Some (err, s)
           }
         | Inr cookie \<Rightarrow> do {
             let (i, s) = new_obj s;
             i \<leftarrow> i;
             let (p, s) = new_obj s;
             let m = \<lparr>m_path = map_option (\<lambda>_. temp) p, m_dev = dev, m_cookie = cookie, m_ref = 1, m_api = api\<rparr>;
             Some (0, s\<lparr>fs_mnt := (fs_mnt s)(i \<mapsto> m), fs_mounts := i # fs_mounts s\<rparr>)
           }) } = Some (r, s') \<and>
      (fs_ok api finv A (\<lambda>_. 0) s' \<and> fs_mounts s' = fs_mounts s \<or> fs_ok api finv (insert (fs_next s) A) (\<lambda>_. 0) s' \<and> fs_mounts s' = fs_next s # fs_mounts s)"
proof -
  note ok = fs_okD [OF assms(1)]
  obtain h where h: "fa_mount api = Some h" "act_ok (h dev) (fs_bio s, fs_drv s) (\<lambda>r w'. case r of
      Inl _ \<Rightarrow> finv w' (mount_cookies (fs_mnt s)) (handle_cookies (fs_fh s)) (handle_cookies (fs_dh s))
    | Inr c \<Rightarrow> finv w' ((mount_cookies (fs_mnt s))(fs_next s \<mapsto> c)) (handle_cookies (fs_fh s)) (handle_cookies (fs_dh s)))"
    using mount_law [OF ok(2) cookie_lookup(2) [of "fs_mnt s", OF ok(5)]] by blast
  from h(2) obtain r b w where d: "drv (h dev) s = Some (r, s\<lparr>fs_bio := b, fs_drv := w\<rparr>)" "same_refs (fs_bio s) b" "case r of
      Inl _ \<Rightarrow> finv w (mount_cookies (fs_mnt s)) (handle_cookies (fs_fh s)) (handle_cookies (fs_dh s))
    | Inr c \<Rightarrow> finv w ((mount_cookies (fs_mnt s))(fs_next s \<mapsto> c)) (handle_cookies (fs_fh s)) (handle_cookies (fs_dh s))" by (rule drv_ok)
  let ?s = "s\<lparr>fs_bio := b, fs_drv := w\<rparr>"
  note t = table_ok_drv [OF ok(1) d(2), of w] and held = devs_held_same [OF assms(2) d(2)]
  show ?thesis
  proof (cases r)
    case (Inl err)
    then have k: "fs_ok api finv A (\<lambda>_. 0) ?s" using t d(3) by (simp add: fs_ok_def)
    show ?thesis
    proof (cases dev)
      case None
      then show ?thesis using h(1) d(1) Inl k by simp
    next
      case (Some dv)
      then obtain b' where "bio_close dv b = Some b'" "devs_ok b' (fs_mnt s)" using devs_held_close held by blast
      then show ?thesis using h(1) d(1) Inl fs_ok_bio [OF k, of b'] Some by simp
    qed
  next
    case (Inr c)
    let ?m = "\<lparr>m_path = Some temp, m_dev = dev, m_cookie = c, m_ref = 1, m_api = api\<rparr>"
    have "devs_ok b ((fs_mnt s)(fs_next s \<mapsto> ?m))" using devs_held_attach [OF held _ ok(5,4)] by simp
    then have "table_ok api (insert (fs_next s) A) (\<lambda>_. 0)
      (?s\<lparr>fs_next := Suc (Suc (fs_next s)), fs_mnt := (fs_mnt s)(fs_next s \<mapsto> ?m), fs_mounts := fs_next s # fs_mounts s\<rparr>)"
      using table_ok_attach [OF t, of ?m temp] by simp
    then show ?thesis using h(1) d(1,3) Inr t by (simp add: fs_ok_def new_obj_def table_ok_def)
  qed
qed

end

text \<open>The mounts attached after a call: those before it and a new one, if there is one.\<close>

definition attached :: "nat set \<Rightarrow> ('d, 'w) fs_state \<Rightarrow> ('d, 'w) fs_state \<Rightarrow> nat set" where
  "attached A s s' = A \<union> (set (fs_mounts s') - set (fs_mounts s))"

context fs_driver
begin

lemma mounts_dom: "fs_ok api finv A e s \<Longrightarrow> set (fs_mounts s) = dom (fs_mnt s)"
  by (simp add: fs_ok_def table_ok_def)

lemma attached_same: "fs_mounts s' = fs_mounts s \<Longrightarrow> attached A s s' = A"
  by (auto simp: attached_def)

lemma put_keeps_table:
  assumes "fs_ok api finv A (\<lambda>_. 0) s" and "same_but_ref i s s'" and "fs_ok api finv A ((\<lambda>_. 0)(i := 1)) s'"
  shows "\<exists>s''. put_mount i s' = Some s'' \<and> fs_ok api finv A (\<lambda>_. 0) s'' \<and> fs_mounts s'' = fs_mounts s"
proof -
  have t: "table_ok api A ((\<lambda>_. 0)(i := 1)) s'" using assms(3) by (simp add: fs_ok_def)
  obtain m where m: "fs_mnt s i = Some m" "s' = s\<lparr>fs_mnt := (fs_mnt s)(i \<mapsto> m\<lparr>m_ref := m_ref m + 1\<rparr>)\<rparr>" using assms(2) by (auto simp: same_but_ref_def)
  have "refs A ((\<lambda>_. 0)(i := 1)) s' i = refs A (\<lambda>_. 0) s i + 1" by (simp add: refs_def m(2))
  moreover have "refs A (\<lambda>_. 0) s i > 0" using assms(1) table_okD(4) [OF _ m(1)] by (auto simp: fs_ok_def)
  ultimately have "refs A ((\<lambda>_. 0)(i := 1)) s' i \<noteq> 1" by simp
  moreover have m': "fs_mnt s' i = Some (m\<lparr>m_ref := m_ref m + 1\<rparr>)" using m(2) by simp
  ultimately have p: "put_mount i s' = Some s" using put_mount_keep(1) [OF t m'] m by (simp add: fun_upd_idem)
  then show ?thesis using assms(1) by blast
qed

lemma mount_safe:
  assumes "fs_ok api finv A (\<lambda>_. 0) s" and "NUL \<notin> set path"
  shows "\<exists>r s'. mount path device api s = Some (r, s') \<and> fs_ok api finv (attached A s s') (\<lambda>_. 0) s'"
proof -
  obtain x where x: "temppath path = Some x" using temppath_some [OF assms(2)] by blast
  show ?thesis
  proof (cases "x = [] \<or> hd x \<noteq> CHR ''/''")
    case True
    then show ?thesis using x assms(1) by (auto simp: mount_def attached_same)
  next
    case False
    obtain r s' where r: "find_mount x s = Some (r, s')" "case r of None \<Rightarrow> s' = s
       | Some (i, rest) \<Rightarrow> fs_ok api finv A ((\<lambda>_. 0)(i := 1)) s' \<and> (\<exists>m. fs_mnt s' i = Some m \<and> m_api m = api) \<and> same_but_ref i s s'"
      using find_ok [OF assms(1), of x, unfolded add_0] by blast
    show ?thesis
    proof (cases r)
      case (Some ir)
      obtain i rest where i: "ir = (i, rest)" by fastforce
      then obtain s'' where "put_mount i s' = Some s''" "fs_ok api finv A (\<lambda>_. 0) s''" "fs_mounts s'' = fs_mounts s"
        using put_keeps_table [OF assms(1), of i s'] r(2) Some by auto
      then show ?thesis using x r(1) Some i False by (auto simp: mount_def attached_same)
    next
      case None
      obtain ok dev b where o: "open_dev device s = Some ((ok, dev), s\<lparr>fs_bio := b\<rparr>)" "devs_held b (fs_mnt s) dev"
        using open_dev_ok [OF fs_okD(3) [OF assms(1)]] by blast
      have b: "fs_ok api finv A (\<lambda>_. 0) (s\<lparr>fs_bio := b\<rparr>)" using fs_ok_bio [OF assms(1)] o(2) by (simp add: devs_held_def)
      show ?thesis
      proof (cases ok)
        case False
        then show ?thesis using x r None o(1) b \<open>\<not> (x = [] \<or> hd x \<noteq> CHR ''/'')\<close> by (auto simp: mount_def attached_same)
      next
        case True
        have n: "fs_next s \<notin> set (fs_mounts s)" using fs_okD(5) [OF assms(1)] mounts_dom [OF assms(1)] by auto
        have at: "attached A s s' = (if fs_mounts s' = fs_mounts s then A else insert (fs_next s) A)"
          if "fs_mounts s' = fs_mounts s \<or> fs_mounts s' = fs_next s # fs_mounts s" for s'
          using that n by (auto simp: attached_def)
        show ?thesis using attach_safe [OF b, of dev x] o x r None True False by (auto simp: mount_def at attached_same)
      qed
    qed
  qed
qed

lemma unmount_safe:
  assumes "fs_ok api finv A (\<lambda>_. 0) s" and "NUL \<notin> set path" and "\<And>i rest. finds path s = Some (i, rest) \<Longrightarrow> i \<in> A"
  shows "safe api finv (case finds path s of None \<Rightarrow> A | Some (i, rest) \<Rightarrow> A - {i}) (fs_unmount path s)"
  unfolding fs_unmount_def
proof (rule path_cases [OF assms(1,2)], goal_cases)
  case 1
  then show ?case using assms(1) by simp
next
  case (2 i rest s' m)
  let ?e = "(\<lambda>_. 0)(i := 1) :: nat \<Rightarrow> nat"
  have i: "i \<in> A" using assms(3) 2(1) .
  have "table_ok api (A - {i}) ((\<lambda>_. 0)(i := 2)) s'" using table_ok_detach [OF fs_okD(1) [OF 2(2)] i] by (simp add: numeral_2_eq_2)
  then have d: "fs_ok api finv (A - {i}) ((\<lambda>_. 0)(i := 2)) s'" using 2(2) by (simp add: fs_ok_def)
  have t: "table_ok api (A - {i}) ((\<lambda>_. 0)(i := 2)) s'" using d by (simp add: fs_ok_def)
  have "refs (A - {i}) ((\<lambda>_. 0)(i := 2)) s' i \<noteq> 1" by (simp add: refs_def)
  note k = put_mount_keep [OF t 2(3) _ this]
  let ?s = "s'\<lparr>fs_mnt := (fs_mnt s')(i \<mapsto> m\<lparr>m_ref := m_ref m - 1\<rparr>)\<rparr>"
  have "fs_ok api finv (A - {i}) ((\<lambda>_. 0)(i := 1)) ?s" using k(2) d 2(3) by (simp add: fs_ok_def)
  from put_safe [OF this] k(1) 2(1) show ?case by simp
qed

lemma remove_file_safe:
  assumes "fs_ok api finv A (\<lambda>_. 0) s" and "NUL \<notin> set path"
    and "\<And>i rest m. finds path s = Some (i, rest) \<Longrightarrow> fs_mnt s i = Some m \<Longrightarrow> removable (fs_drv s) (m_cookie m) rest (handle_cookies (fs_fh s)) (handle_cookies (fs_dh s))"
  shows "safe api finv A (fs_remove_file path s)"
  unfolding fs_remove_file_def
proof (rule path_call [OF assms(1,2)], goal_cases)
  case (1 i rest s' m)
  have f: "finv (fs_drv s') (mount_cookies (fs_mnt s')) (handle_cookies (fs_fh s')) (handle_cookies (fs_dh s'))" using 1(2) by (simp add: fs_ok_def)
  have "removable (fs_drv s') (m_cookie m) rest (handle_cookies (fs_fh s')) (handle_cookies (fs_dh s'))"
    using 1(3,5) assms(3) [OF 1(1)] by (auto simp: same_but_ref_def)
  note l = remove_law [OF f cookie_lookup(1) [of "fs_mnt s'", OF 1(3)] this]
  show ?case using release_safe [OF 1(2) _ l, of _ "\<lambda>x. x"] put_safe [OF 1(2)] 1(3,4) by (cases "fa_remove api") (simp_all add: domI)
qed

text \<open>The calls on a handle.\<close>

lemma file_mount:
  assumes "fs_ok api finv A (\<lambda>_. 0) s" and "fs_fh s f = Some fh"
  shows "fh_api f s = Some (fh, api)"
proof -
  have "handles_ok (fs_next s) (fs_mnt s) (fs_fh s)" using assms(1) by (simp add: fs_ok_def table_ok_def)
  then obtain m where m: "fs_mnt s (fh_mount fh) = Some m" using assms(2) unfolding handles_ok_def by blast
  then show ?thesis using assms(2) table_okD(2) [OF fs_okD(1) [OF assms(1)] m] by (simp add: fh_api_def)
qed

lemma dir_mount:
  assumes "fs_ok api finv A (\<lambda>_. 0) s" and "fs_dh s f = Some fh"
  shows "dh_api f s = Some (fh, api)"
proof -
  have "handles_ok (fs_next s) (fs_mnt s) (fs_dh s)" using assms(1) by (simp add: fs_ok_def table_ok_def)
  then obtain m where m: "fs_mnt s (fh_mount fh) = Some m" using assms(2) unfolding handles_ok_def by blast
  then show ?thesis using assms(2) table_okD(2) [OF fs_okD(1) [OF assms(1)] m] by (simp add: dh_api_def)
qed

lemma act_ok_mono: "act_ok h x Q \<Longrightarrow> (\<And>r w. Q r w \<Longrightarrow> P r w) \<Longrightarrow> act_ok h x P"
  unfolding act_ok_def by blast

lemma drv_safe:
  assumes "fs_ok api finv A (\<lambda>_. 0) s"
    and "act_ok h (fs_bio s, fs_drv s) (\<lambda>_ w'. finv w' (mount_cookies (fs_mnt s)) (handle_cookies (fs_fh s)) (handle_cookies (fs_dh s)))"
  shows "safe api finv A (drv h s)"
  using drv_keeps [OF assms] by auto

lemma handle_calls_safe:
  assumes "fs_ok api finv A (\<lambda>_. 0) s" and "fs_fh s f = Some fh"
  shows "fits off len \<Longrightarrow> safe api finv A (fs_read_file f off len s)"
    and "fits off len \<Longrightarrow> len \<le> length buf \<Longrightarrow> safe api finv A (fs_write_file f buf off len s)"
    and "safe api finv A (fs_truncate_file (Some f) n s)"
    and "safe api finv A (fs_stat_file f st s)"
    and "safe api finv A (fs_file_ioctl (Some f) req argp s)"
proof -
  note inv = fs_okD(2) [OF assms(1)] and c = cookie_lookup(3) [of "fs_fh s", OF assms(2)] and fm = file_mount [OF assms]
  show "safe api finv A (fs_read_file f off len s)" if "fits off len"
    using read_law [OF inv c that, of "fs_bio s"] drv_safe [OF assms(1)] fm by (auto simp: fs_read_file_def)
  show "safe api finv A (fs_write_file f buf off len s)" if "fits off len" "len \<le> length buf"
    using write_law [OF inv c that, of _ "fs_bio s"] drv_safe [OF assms(1)] fm assms(1) by (cases "fa_write api") (simp_all add: fs_write_file_def)
  show "safe api finv A (fs_truncate_file (Some f) n s)"
    using truncate_law [OF inv c, of n "fs_bio s"] drv_safe [OF assms(1)] fm by (auto simp: fs_truncate_file_def)
  show "safe api finv A (fs_stat_file f st s)"
  proof -
    obtain h where h: "fa_stat api = Some h" "act_ok (h (fh_cookie fh) st) (fs_bio s, fs_drv s)
        (\<lambda>_ w'. finv w' (mount_cookies (fs_mnt s)) (handle_cookies (fs_fh s)) (handle_cookies (fs_dh s)))"
      using stat_law [OF inv c, of st "fs_bio s"] act_ok_mono by (metis (no_types, lifting))
    then show ?thesis using drv_safe [OF assms(1) h(2)] fm by (simp add: fs_stat_file_def)
  qed
  show "safe api finv A (fs_file_ioctl (Some f) req argp s)"
    using ioctl_law [OF inv c, of _ req argp "fs_bio s"] drv_safe [OF assms(1)] fm assms(1) by (cases "fa_file_ioctl api") (simp_all add: fs_file_ioctl_def)
qed

lemma read_dir_safe:
  assumes "fs_ok api finv A (\<lambda>_. 0) s" and "fs_dh s f = Some fh"
  shows "safe api finv A (fs_read_dir f s)"
  using readdir_law [OF fs_okD(2) [OF assms(1)] cookie_lookup(3) [of "fs_dh s", OF assms(2)], of _ "fs_bio s"] drv_safe [OF assms(1)] dir_mount [OF assms] assms(1)
  by (cases "fa_readdir api") (simp_all add: fs_read_dir_def)

end

section \<open>All calls\<close>

datatype fs_call =
    Fs_format string "string option" nat
  | Fs_mount string string "string option"
  | Fs_unmount string
  | Fs_open string
  | Fs_create string nat
  | Fs_remove string
  | Fs_read nat int nat
  | Fs_write nat "u8 list" int nat
  | Fs_truncate "nat option" nat
  | Fs_stat nat "file_stat option"
  | Fs_ioctl "nat option" int nat
  | Fs_close nat
  | Fs_mkdir string
  | Fs_opendir string
  | Fs_readdir nat
  | Fs_closedir nat
  | Fs_statfs string "fs_stat option"
  | Fs_load file_stat string nat

fun fs_exec :: "('d, 'w) fs_impls \<Rightarrow> fs_call \<Rightarrow> ('d, 'w) fs_state \<Rightarrow> ('d, 'w) fs_state option" where
  "fs_exec impls (Fs_format fs dev args) s = map_option snd (fs_format_device impls fs dev args s)"
| "fs_exec impls (Fs_mount path fs dev) s = map_option snd (fs_mount impls path fs dev s)"
| "fs_exec impls (Fs_unmount path) s = map_option snd (fs_unmount path s)"
| "fs_exec impls (Fs_open path) s = map_option snd (fs_open_file path s)"
| "fs_exec impls (Fs_create path len) s = map_option snd (fs_create_file path len s)"
| "fs_exec impls (Fs_remove path) s = map_option snd (fs_remove_file path s)"
| "fs_exec impls (Fs_read f off len) s = map_option snd (fs_read_file f off len s)"
| "fs_exec impls (Fs_write f buf off len) s = map_option snd (fs_write_file f buf off len s)"
| "fs_exec impls (Fs_truncate f len) s = map_option snd (fs_truncate_file f len s)"
| "fs_exec impls (Fs_stat f st) s = map_option snd (fs_stat_file f st s)"
| "fs_exec impls (Fs_ioctl f req argp) s = map_option snd (fs_file_ioctl f req argp s)"
| "fs_exec impls (Fs_close f) s = map_option snd (fs_close_file f s)"
| "fs_exec impls (Fs_mkdir path) s = map_option snd (fs_make_dir path s)"
| "fs_exec impls (Fs_opendir path) s = map_option snd (fs_open_dir path s)"
| "fs_exec impls (Fs_readdir f) s = map_option snd (fs_read_dir f s)"
| "fs_exec impls (Fs_closedir f) s = map_option snd (fs_close_dir f s)"
| "fs_exec impls (Fs_statfs path st) s = map_option snd (fs_stat_fs path st s)"
| "fs_exec impls (Fs_load st path maxlen) s = map_option snd (fs_load_file st path maxlen s)"

text \<open>
  The rules for the callers. Paths are strings; a handle is one that is open; reads and writes stay within what the implementation can add up and the buffer has
  the length that is given; only a file that is \<open>removable\<close> is removed; and a path is unmounted only while the mount it leads to is attached, once for each
  mount.
\<close>

fun fs_may ::
  "('w \<Rightarrow> nat \<Rightarrow> string \<Rightarrow> (nat \<Rightarrow> (nat \<times> nat) option) \<Rightarrow> (nat \<Rightarrow> (nat \<times> nat) option) \<Rightarrow> bool) \<Rightarrow> (int \<Rightarrow> nat \<Rightarrow> bool) \<Rightarrow>
   nat set \<Rightarrow> fs_call \<Rightarrow> ('d, 'w) fs_state \<Rightarrow> bool" where
  "fs_may removable fits A (Fs_format fs dev args) s = True"
| "fs_may removable fits A (Fs_mount path fs dev) s = (NUL \<notin> set path)"
| "fs_may removable fits A (Fs_unmount path) s = (NUL \<notin> set path \<and> (\<forall>i rest. finds path s = Some (i, rest) \<longrightarrow> i \<in> A))"
| "fs_may removable fits A (Fs_open path) s = (NUL \<notin> set path)"
| "fs_may removable fits A (Fs_create path len) s = (NUL \<notin> set path)"
| "fs_may removable fits A (Fs_remove path) s = (NUL \<notin> set path \<and> (\<forall>i rest m. finds path s = Some (i, rest) \<longrightarrow> fs_mnt s i = Some m \<longrightarrow>
     removable (fs_drv s) (m_cookie m) rest (handle_cookies (fs_fh s)) (handle_cookies (fs_dh s))))"
| "fs_may removable fits A (Fs_read f off len) s = (fs_fh s f \<noteq> None \<and> fits off len)"
| "fs_may removable fits A (Fs_write f buf off len) s = (fs_fh s f \<noteq> None \<and> fits off len \<and> len \<le> length buf)"
| "fs_may removable fits A (Fs_truncate f len) s = (\<forall>g. f = Some g \<longrightarrow> fs_fh s g \<noteq> None)"
| "fs_may removable fits A (Fs_stat f st) s = (fs_fh s f \<noteq> None)"
| "fs_may removable fits A (Fs_ioctl f req argp) s = (\<forall>g. f = Some g \<longrightarrow> fs_fh s g \<noteq> None)"
| "fs_may removable fits A (Fs_close f) s = (fs_fh s f \<noteq> None)"
| "fs_may removable fits A (Fs_mkdir path) s = (NUL \<notin> set path)"
| "fs_may removable fits A (Fs_opendir path) s = (NUL \<notin> set path)"
| "fs_may removable fits A (Fs_readdir f) s = (fs_dh s f \<noteq> None)"
| "fs_may removable fits A (Fs_closedir f) s = (fs_dh s f \<noteq> None)"
| "fs_may removable fits A (Fs_statfs path st) s = True"
| "fs_may removable fits A (Fs_load st path maxlen) s = (NUL \<notin> set path \<and> (\<forall>n\<le>maxlen. fits 0 n))"

text \<open>The mounts that are attached after a call.\<close>

fun attached_after :: "nat set \<Rightarrow> fs_call \<Rightarrow> ('d, 'w) fs_state \<Rightarrow> ('d, 'w) fs_state \<Rightarrow> nat set" where
  "attached_after A (Fs_mount path fs dev) s s' = attached A s s'"
| "attached_after A (Fs_unmount path) s s' = (case finds path s of None \<Rightarrow> A | Some (i, rest) \<Rightarrow> A - {i})"
| "attached_after A c s s' = A"

lemma find_fs_api: "find_fs impls name = Some a \<Longrightarrow> \<forall>p\<in>set impls. snd p = api \<Longrightarrow> a = api"
  unfolding find_fs_def map_option_eq_Some find_Some_iff by (metis nth_mem)

lemma drv_fh: "drv h s = Some (r, s') \<Longrightarrow> fs_fh s' = fs_fh s"
  by (auto simp: drv_def)

lemma stat_fh: "fs_stat_file f st s = Some (r, s') \<Longrightarrow> fs_fh s' = fs_fh s"
  by (auto simp: fs_stat_file_def drv_fh split: bind_splits)

lemma read_fh: "fs_read_file f off len s = Some (r, s') \<Longrightarrow> fs_fh s' = fs_fh s"
  by (auto simp: fs_read_file_def drv_fh split: bind_splits)

lemma opened_fh: "fs_open_file path s = Some (Inr f, s') \<Longrightarrow> fs_fh s' f \<noteq> None"
  by (auto simp: fs_open_file_def new_file_def Let_def split: bind_splits option.splits sum.splits prod.splits)

context fs_driver
begin

lemma close_file_safe:
  assumes "fs_ok api finv A (\<lambda>_. 0) s" and "fs_fh s f = Some fh"
  shows "safe api finv A (fs_close_file f s)"
proof -
  obtain h where h: "fa_close api = Some h" "act_ok (h (fh_cookie fh)) (fs_bio s, fs_drv s) (\<lambda>r w'.
      if r < 0 then finv w' (mount_cookies (fs_mnt s)) (handle_cookies (fs_fh s)) (handle_cookies (fs_dh s))
      else finv w' (mount_cookies (fs_mnt s)) ((handle_cookies (fs_fh s))(f := None)) (handle_cookies (fs_dh s)))"
    using close_law [OF fs_okD(2) [OF assms(1)] cookie_lookup(3) [of "fs_fh s", OF assms(2)], of "fs_bio s"] by auto
  from h(2) obtain r b w where d: "drv (h (fh_cookie fh)) s = Some (r, s\<lparr>fs_bio := b, fs_drv := w\<rparr>)" "same_refs (fs_bio s) b"
    "if r < 0 then finv w (mount_cookies (fs_mnt s)) (handle_cookies (fs_fh s)) (handle_cookies (fs_dh s))
     else finv w (mount_cookies (fs_mnt s)) ((handle_cookies (fs_fh s))(f := None)) (handle_cookies (fs_dh s))" by (rule drv_ok)
  note t = table_ok_drv [OF fs_okD(1) [OF assms(1)] d(2), of w]
  show ?thesis
  proof (cases "r < 0")
    case True
    then show ?thesis using file_mount [OF assms] h(1) d(1,3) t by (simp add: fs_close_file_def fs_ok_def)
  next
    case False
    then show ?thesis using drop_file_ok [OF t, of f fh] assms(2) file_mount [OF assms] h(1) d(1,3) by (auto simp: fs_close_file_def)
  qed
qed

lemma close_dir_safe:
  assumes "fs_ok api finv A (\<lambda>_. 0) s" and "fs_dh s f = Some fh"
  shows "safe api finv A (fs_close_dir f s)"
proof (cases "fa_closedir api")
  case None
  then show ?thesis using dir_mount [OF assms] assms(1) by (simp add: fs_close_dir_def)
next
  case (Some h)
  have "act_ok (h (fh_cookie fh)) (fs_bio s, fs_drv s) (\<lambda>r w'.
      if r < 0 then finv w' (mount_cookies (fs_mnt s)) (handle_cookies (fs_fh s)) (handle_cookies (fs_dh s))
      else finv w' (mount_cookies (fs_mnt s)) (handle_cookies (fs_fh s)) ((handle_cookies (fs_dh s))(f := None)))"
    using closedir_law [OF fs_okD(2) [OF assms(1)] cookie_lookup(3) [of "fs_dh s", OF assms(2)] Some, of "fs_bio s"] by auto
  then obtain r b w where d: "drv (h (fh_cookie fh)) s = Some (r, s\<lparr>fs_bio := b, fs_drv := w\<rparr>)" "same_refs (fs_bio s) b"
    "if r < 0 then finv w (mount_cookies (fs_mnt s)) (handle_cookies (fs_fh s)) (handle_cookies (fs_dh s))
     else finv w (mount_cookies (fs_mnt s)) (handle_cookies (fs_fh s)) ((handle_cookies (fs_dh s))(f := None))" by (rule drv_ok)
  note t = table_ok_drv [OF fs_okD(1) [OF assms(1)] d(2), of w]
  show ?thesis
  proof (cases "r < 0")
    case True
    then show ?thesis using dir_mount [OF assms] Some d(1,3) t by (simp add: fs_close_dir_def fs_ok_def)
  next
    case False
    then show ?thesis using drop_dir_ok [OF t, of f fh] assms(2) dir_mount [OF assms] Some d(1,3) by (auto simp: fs_close_dir_def)
  qed
qed

lemma stat_fs_safe:
  assumes "fs_ok api finv A (\<lambda>_. 0) s"
  shows "safe api finv A (fs_stat_fs path st s)"
proof (cases st)
  case None
  then show ?thesis using assms by (simp add: fs_stat_fs_def)
next
  case st: (Some x)
  obtain r s' where r: "find_mount path s = Some (r, s')" "case r of None \<Rightarrow> s' = s
     | Some (i, rest) \<Rightarrow> fs_ok api finv A ((\<lambda>_. 0)(i := 1)) s' \<and> (\<exists>m. fs_mnt s' i = Some m \<and> m_api m = api) \<and> same_but_ref i s s'"
    using find_ok [OF assms(1), of path, unfolded add_0] by blast
  show ?thesis
  proof (cases r)
    case None
    then show ?thesis using assms r st by (simp add: fs_stat_fs_def)
  next
    case (Some ir)
    obtain i rest where i: "ir = (i, rest)" by fastforce
    then obtain m where m: "fs_ok api finv A ((\<lambda>_. 0)(i := 1)) s'" "fs_mnt s' i = Some m" "m_api m = api" using r(2) Some by auto
    note l = fs_stat_law [OF fs_okD(2) [OF m(1)] cookie_lookup(1) [of "fs_mnt s'", OF m(2)], of _ x]
    show ?thesis
      using release_safe [OF m(1) _ l, of _ "\<lambda>(result, st). (result, Some st)"] put_safe [OF m(1)] m(2,3) r(1) st Some i
      by (cases "fa_fs_stat api") (simp_all add: fs_stat_fs_def domI case_prod_unfold)
  qed
qed

lemma format_safe:
  assumes "fs_ok api finv A (\<lambda>_. 0) s" and "\<forall>p\<in>set impls. snd p = api"
  shows "safe api finv A (fs_format_device impls fsname device args s)"
proof (cases "find_fs impls fsname")
  case None
  then show ?thesis using assms(1) by (simp add: fs_format_device_def)
next
  case (Some a)
  then have a: "a = api" using assms(2) by (rule find_fs_api)
  obtain ok dev b where o: "open_dev device s = Some ((ok, dev), s\<lparr>fs_bio := b\<rparr>)" "devs_held b (fs_mnt s) dev"
    using open_dev_ok [OF fs_okD(3) [OF assms(1)]] by blast
  have b: "fs_ok api finv A (\<lambda>_. 0) (s\<lparr>fs_bio := b\<rparr>)" using fs_ok_bio [OF assms(1)] o(2) by (simp add: devs_held_def)
  show ?thesis
    using drv_safe [OF b format_law [OF fs_okD(2) [OF b]]] Some a o(1) b assms(1)
    by (cases "fa_format api"; cases ok) (simp_all add: fs_format_device_def)
qed

end

context fs_driver
begin

lemma stat_file_fills:
  assumes "fs_ok api finv A (\<lambda>_. 0) s" and "fs_fh s f = Some fh"
  shows "\<exists>e x s'. fs_stat_file f (Some st) s = Some ((e, Some x), s') \<and> fs_ok api finv A (\<lambda>_. 0) s'"
proof -
  obtain h where h: "fa_stat api = Some h" "act_ok (h (fh_cookie fh) (Some st)) (fs_bio s, fs_drv s)
      (\<lambda>r w'. finv w' (mount_cookies (fs_mnt s)) (handle_cookies (fs_fh s)) (handle_cookies (fs_dh s)) \<and> snd r \<noteq> None)"
    using stat_law [OF fs_okD(2) [OF assms(1)] cookie_lookup(3) [of "fs_fh s", OF assms(2)], of "Some st" "fs_bio s"] by auto
  from h(2) obtain r b w where d: "drv (h (fh_cookie fh) (Some st)) s = Some (r, s\<lparr>fs_bio := b, fs_drv := w\<rparr>)" "same_refs (fs_bio s) b"
    "finv w (mount_cookies (fs_mnt s)) (handle_cookies (fs_fh s)) (handle_cookies (fs_dh s)) \<and> snd r \<noteq> None" by (rule drv_ok)
  have "fs_ok api finv A (\<lambda>_. 0) (s\<lparr>fs_bio := b, fs_drv := w\<rparr>)"
    using d(3) table_ok_drv [OF fs_okD(1) [OF assms(1)] d(2), of w] by (simp add: fs_ok_def)
  then show ?thesis using file_mount [OF assms] h(1) d(1,3) by (cases r) (auto simp: fs_stat_file_def)
qed

lemma load_file_safe:
  assumes "fs_ok api finv A (\<lambda>_. 0) s" and "NUL \<notin> set path" and "\<forall>n\<le>maxlen. fits 0 n"
  shows "safe api finv A (fs_load_file st path maxlen s)"
proof -
  obtain r s1 where o: "fs_open_file path s = Some (r, s1)" "fs_ok api finv A (\<lambda>_. 0) s1"
    using open_file_safe [OF assms(1,2)] by (auto simp: safe_def)
  show ?thesis
  proof (cases r)
    case (Inl err)
    then show ?thesis using o by (simp add: fs_load_file_def)
  next
    case (Inr f)
    then obtain fh where fh: "fs_fh s1 f = Some fh" using o(1) opened_fh by blast
    obtain e x s2 where s2: "fs_stat_file f (Some st) s1 = Some ((e, Some x), s2)" "fs_ok api finv A (\<lambda>_. 0) s2"
      using stat_file_fills [OF o(2) fh, of st] by blast
    have fh2: "fs_fh s2 f = Some fh" using fh stat_fh [OF s2(1)] by simp
    obtain n data s3 where s3: "fs_read_file f 0 (min maxlen (st_size x)) s2 = Some ((n, data), s3)" "fs_ok api finv A (\<lambda>_. 0) s3"
      using handle_calls_safe(1) [OF s2(2) fh2, of 0 "min maxlen (st_size x)"] assms(3) by (auto simp: safe_def)
    have fh3: "fs_fh s3 f = Some fh" using fh2 read_fh [OF s3(1)] by simp
    obtain y s4 where "fs_close_file f s3 = Some (y, s4)" "fs_ok api finv A (\<lambda>_. 0) s4"
      using close_file_safe [OF s3(2) fh3] by (auto simp: safe_def)
    then show ?thesis using o(1) Inr s2(1) s3(1) by (simp add: fs_load_file_def)
  qed
qed

lemma safe_exec: "safe api finv A r \<Longrightarrow> \<exists>s'. map_option snd r = Some s' \<and> fs_ok api finv A (\<lambda>_. 0) s'"
  by (auto simp: safe_def)

text \<open>Every call that keeps the rules returns and keeps the invariant.\<close>

theorem call_safe:
  assumes "fs_ok api finv A (\<lambda>_. 0) s" and "fs_may removable fits A c s" and "\<forall>p\<in>set impls. snd p = api"
  shows "\<exists>s'. fs_exec impls c s = Some s' \<and> fs_ok api finv (attached_after A c s s') (\<lambda>_. 0) s'"
proof (cases c)
  case (Fs_mount path fsname device)
  then show ?thesis
  proof (cases "find_fs impls fsname")
    case None
    then show ?thesis using Fs_mount assms(1) by (simp add: fs_mount_def attached_def)
  next
    case (Some a)
    then have "a = api" using assms(3) by (rule find_fs_api)
    then show ?thesis using Fs_mount Some mount_safe [OF assms(1), of path device] assms(2) by (auto simp: fs_mount_def)
  qed
next
  case (Fs_unmount path)
  then have u: "NUL \<notin> set path" "\<And>i rest. finds path s = Some (i, rest) \<Longrightarrow> i \<in> A" using assms(2) by auto
  show ?thesis using safe_exec [OF unmount_safe [OF assms(1) u]] Fs_unmount by simp
next
  case (Fs_load st path maxlen)
  then show ?thesis using safe_exec [OF load_file_safe [OF assms(1)]] assms(2) by simp
next
  case (Fs_format fs dev args)
  then show ?thesis using safe_exec [OF format_safe [OF assms(1,3)]] by simp
next
  case (Fs_open path)
  then show ?thesis using safe_exec [OF open_file_safe [OF assms(1)]] assms(2) by simp
next
  case (Fs_create path len)
  then show ?thesis using safe_exec [OF create_file_safe [OF assms(1)]] assms(2) by simp
next
  case (Fs_remove path)
  then show ?thesis using safe_exec [OF remove_file_safe [OF assms(1)]] assms(2) by simp
next
  case (Fs_read f off len)
  then obtain fh where "fs_fh s f = Some fh" "fits off len" using assms(2) by auto
  then show ?thesis using safe_exec [OF handle_calls_safe(1) [OF assms(1)]] Fs_read by simp
next
  case (Fs_write f buf off len)
  then obtain fh where "fs_fh s f = Some fh" "fits off len" "len \<le> length buf" using assms(2) by auto
  then show ?thesis using safe_exec [OF handle_calls_safe(2) [OF assms(1)]] Fs_write by simp
next
  case (Fs_truncate f len)
  then show ?thesis using safe_exec [OF handle_calls_safe(3) [OF assms(1)]] assms(1,2) by (cases f) (auto simp: fs_truncate_file_def)
next
  case (Fs_stat f st)
  then show ?thesis using safe_exec [OF handle_calls_safe(4) [OF assms(1)]] assms(2) by auto
next
  case (Fs_ioctl f req argp)
  then show ?thesis using safe_exec [OF handle_calls_safe(5) [OF assms(1)]] assms(1,2) by (cases f) (auto simp: fs_file_ioctl_def)
next
  case (Fs_close f)
  then show ?thesis using safe_exec [OF close_file_safe [OF assms(1)]] assms(2) by auto
next
  case (Fs_mkdir path)
  then show ?thesis using safe_exec [OF make_dir_safe [OF assms(1)]] assms(2) by simp
next
  case (Fs_opendir path)
  then show ?thesis using safe_exec [OF open_dir_safe [OF assms(1)]] assms(2) by simp
next
  case (Fs_readdir f)
  then show ?thesis using safe_exec [OF read_dir_safe [OF assms(1)]] assms(2) by auto
next
  case (Fs_closedir f)
  then show ?thesis using safe_exec [OF close_dir_safe [OF assms(1)]] assms(2) by auto
next
  case (Fs_statfs path st)
  then show ?thesis using safe_exec [OF stat_fs_safe [OF assms(1)]] by simp
qed

end

section \<open>Reachable states\<close>

text \<open>What callers that keep the rules can get to; \<open>A\<close> are the mounts that are attached.\<close>

inductive fs_reach ::
  "('d, 'w) fs_impls \<Rightarrow> ('w \<Rightarrow> nat \<Rightarrow> string \<Rightarrow> (nat \<Rightarrow> (nat \<times> nat) option) \<Rightarrow> (nat \<Rightarrow> (nat \<times> nat) option) \<Rightarrow> bool) \<Rightarrow> (int \<Rightarrow> nat \<Rightarrow> bool) \<Rightarrow>
   ('d, 'w) fs_state \<Rightarrow> nat set \<Rightarrow> ('d, 'w) fs_state \<Rightarrow> bool"
  for impls removable fits s0 where
  fs_start: "fs_reach impls removable fits s0 {} s0"
| fs_step: "fs_reach impls removable fits s0 A s \<Longrightarrow> fs_may removable fits A c s \<Longrightarrow> fs_exec impls c s = Some s' \<Longrightarrow>
    fs_reach impls removable fits s0 (attached_after A c s s') s'"

text \<open>Before the first call: nothing mounted, nothing open, every registered device with the reference of its registration.\<close>

definition fs_initial :: "'d bio_state \<Rightarrow> 'w \<Rightarrow> ('d, 'w) fs_state" where
  "fs_initial b w = \<lparr>fs_bio = b, fs_drv = w, fs_mounts = [], fs_mnt = (\<lambda>_. None), fs_fh = (\<lambda>_. None), fs_dh = (\<lambda>_. None), fs_next = 0, fs_oom = (\<lambda>_. False)\<rparr>"

definition registered_ok :: "'d bio_state \<Rightarrow> bool" where
  "registered_ok b \<longleftrightarrow> (\<forall>d\<in>set (bdev_list b). 0 < bd_ref (bdevs b d))"

context fs_driver
begin

lemma initial_ok: "finv w (\<lambda>_. None) (\<lambda>_. None) (\<lambda>_. None) \<Longrightarrow> registered_ok b \<Longrightarrow> fs_ok api finv {} (\<lambda>_. 0) (fs_initial b w)"
  by (force simp: fs_initial_def fs_ok_def table_ok_def handles_ok_def devs_ok_def on_dev_def mount_cookies_def handle_cookies_def registered_ok_def)

lemma reach_ok:
  assumes "fs_reach impls removable fits (fs_initial b w) A s" and "finv w (\<lambda>_. None) (\<lambda>_. None) (\<lambda>_. None)" and "registered_ok b"
    and "\<forall>p\<in>set impls. snd p = api"
  shows "fs_ok api finv A (\<lambda>_. 0) s"
  using assms(1)
proof induction
  case fs_start
  then show ?case by (rule initial_ok [OF assms(2,3)])
next
  case (fs_step A s c s')
  then show ?case using call_safe [OF fs_step.IH fs_step.hyps(2) assms(4)] by simp
qed

text \<open>What the invariant says of the tables.\<close>

lemma ok_tables:
  assumes "fs_ok api finv A (\<lambda>_. 0) s"
  shows "fs_mnt s i = Some m \<Longrightarrow> m_ref m = int (of_bool (i \<in> A) + card (on_mount (fs_fh s) i) + card (on_mount (fs_dh s) i)) \<and> 0 < m_ref m"
    and "fs_fh s f = Some fh \<Longrightarrow> fh_mount fh \<in> dom (fs_mnt s)"
    and "fs_dh s f = Some fh \<Longrightarrow> fh_mount fh \<in> dom (fs_mnt s)"
    and "set (fs_mounts s) = dom (fs_mnt s)"
proof -
  note t = fs_okD(1) [OF assms]
  show "m_ref m = int (of_bool (i \<in> A) + card (on_mount (fs_fh s) i) + card (on_mount (fs_dh s) i)) \<and> 0 < m_ref m" if "fs_mnt s i = Some m"
  proof -
    have "m_ref m = int (refs A (\<lambda>_. 0) s i)" "0 < refs A (\<lambda>_. 0) s i" using table_okD(3,4) [OF t that] .
    then show ?thesis by (simp only: refs_def add_0_right of_nat_0_less_iff)
  qed
  show "fh_mount fh \<in> dom (fs_mnt s)" if "fs_fh s f = Some fh" using t that unfolding table_ok_def handles_ok_def by blast
  show "fh_mount fh \<in> dom (fs_mnt s)" if "fs_dh s f = Some fh" using t that unfolding table_ok_def handles_ok_def by blast
  show "set (fs_mounts s) = dom (fs_mnt s)" using t by (simp add: table_ok_def)
qed

end

end
