(* ===== verification/LK_Memfs.thy ===== *)
theory LK_Memfs
  imports LK_Fs
begin

text \<open>
  The memory file system, \<^verbatim>\<open>lib/fs/memfs/memfs.c\<close>: one flat directory of files held in memory. A pointer is the number of its allocation; using an object
  that was freed is the value \<open>None\<close>. Allocations fail as an oracle says; the code does not check the one of the name (\<^verbatim>\<open>strdup\<close>), whose failures have
  an oracle of their own. What \<^verbatim>\<open>realloc\<close> puts behind the old bytes is unspecified: \<open>mm_junk\<close>. The lock of the file system makes every call atomic.
\<close>

section \<open>Data\<close>

record memfs =
  mf_files :: "nat list"
  mf_dcookies :: "nat list"

record memfs_file =
  f_fs :: nat
  f_name :: "string option"
  f_ptr :: "u8 list"
  f_len :: nat

record memfs_dir =
  d_fs :: nat
  d_next :: "nat option"

record memw =
  mm_fs :: "nat \<Rightarrow> memfs option"
  mm_file :: "nat \<Rightarrow> memfs_file option"
  mm_dir :: "nat \<Rightarrow> memfs_dir option"
  mm_allocs :: nat
  mm_oom :: "nat \<Rightarrow> bool"
  mm_no_name :: "nat \<Rightarrow> bool"
  mm_junk :: "nat \<Rightarrow> nat \<Rightarrow> u8"

text \<open>\<^verbatim>\<open>malloc\<close> and \<^verbatim>\<open>calloc\<close>: the number of the allocation, unless it fails.\<close>

definition m_alloc :: "memw \<Rightarrow> nat option \<times> memw" where
  "m_alloc w = (if mm_oom w (mm_allocs w) then None else Some (mm_allocs w), w\<lparr>mm_allocs := mm_allocs w + 1\<rparr>)"

definition m_strdup :: "string \<Rightarrow> memw \<Rightarrow> string option \<times> memw" where
  "m_strdup name w = (if mm_no_name w (mm_allocs w) then None else Some name, w\<lparr>mm_allocs := mm_allocs w + 1\<rparr>)"

text \<open>\<^verbatim>\<open>realloc\<close> of a block to \<open>n\<close> bytes.\<close>

definition m_realloc :: "u8 list \<Rightarrow> nat \<Rightarrow> memw \<Rightarrow> u8 list option \<times> memw" where
  "m_realloc old n w =
     (if mm_oom w (mm_allocs w) then None
      else Some (take n old @ map (mm_junk w (mm_allocs w)) [length old..<n]), w\<lparr>mm_allocs := mm_allocs w + 1\<rparr>)"

definition u64_add :: "int \<Rightarrow> nat \<Rightarrow> nat" where
  "u64_add off len = nat ((off + int len) mod 2 ^ 64)"

section \<open>The operations\<close>

fun find_file :: "(nat \<Rightarrow> memfs_file option) \<Rightarrow> string \<Rightarrow> nat list \<Rightarrow> nat option option" where
  "find_file files name [] = Some None"
| "find_file files name (f # fs) =
     do { fl \<leftarrow> files f; nm \<leftarrow> f_name fl; if name = nm then Some (Some f) else find_file files name fs }"

definition memfs_mount :: "nat option \<Rightarrow> memw \<Rightarrow> ((int + nat) \<times> memw) option" where
  "memfs_mount dev w =
     (let (p, w) = m_alloc w in
      Some (case p of
          None \<Rightarrow> (Inl ERR_NO_MEMORY, w)
        | Some c \<Rightarrow> (Inr c, w\<lparr>mm_fs := (mm_fs w)(c \<mapsto> \<lparr>mf_files = [], mf_dcookies = []\<rparr>)\<rparr>)))"

definition free_file :: "nat \<Rightarrow> memw \<Rightarrow> memw option" where
  "free_file f w = do { _ \<leftarrow> mm_file w f; Some (w\<lparr>mm_file := (mm_file w)(f := None)\<rparr>) }"

fun free_files :: "nat list \<Rightarrow> memw \<Rightarrow> memw option" where
  "free_files [] w = Some w"
| "free_files (f # fs) w = do { w \<leftarrow> free_file f w; free_files fs w }"

text \<open>The directory cookies that are still out are not freed.\<close>

definition memfs_unmount :: "nat \<Rightarrow> memw \<Rightarrow> (int \<times> memw) option" where
  "memfs_unmount c w =
     do {
       t \<leftarrow> mm_fs w c;
       w \<leftarrow> free_files (mf_files t) w;
       Some (0, w\<lparr>mm_fs := (mm_fs w)(c := None)\<rparr>)
     }"

definition memfs_create :: "nat \<Rightarrow> string \<Rightarrow> nat \<Rightarrow> memw \<Rightarrow> ((int + nat) \<times> memw) option" where
  "memfs_create c name len w =
     (if len \<ge> 2 ^ 64 - 1 then Some (Inl ERR_NO_MEMORY, w)
      else
        let name = trim_name name in
        if CHR ''/'' \<in> set name then Some (Inl ERR_NOT_SUPPORTED, w)
        else do {
          t \<leftarrow> mm_fs w c;
          r \<leftarrow> find_file (mm_file w) name (mf_files t);
          if r \<noteq> None then Some (Inl ERR_ALREADY_EXISTS, w)
          else
            let (file, w) = m_alloc w in
            (case file of
               None \<Rightarrow> Some (Inl ERR_NO_MEMORY, w)
             | Some file \<Rightarrow>
                 let (ptr, w) = m_alloc w in
                 (case ptr of
                    None \<Rightarrow> Some (Inl ERR_NO_MEMORY, w)
                  | Some _ \<Rightarrow>
                      let (nm, w) = m_strdup name w in
                      Some (Inr file,
                        w\<lparr>mm_file := (mm_file w)(file \<mapsto> \<lparr>f_fs = c, f_name = nm, f_ptr = replicate len 0, f_len = len\<rparr>),
                          mm_fs := (mm_fs w)(c \<mapsto> t\<lparr>mf_files := mf_files t @ [file]\<rparr>)\<rparr>)))
        })"

definition memfs_open :: "nat \<Rightarrow> string \<Rightarrow> memw \<Rightarrow> ((int + nat) \<times> memw) option" where
  "memfs_open c name w =
     do {
       t \<leftarrow> mm_fs w c;
       r \<leftarrow> find_file (mm_file w) (trim_name name) (mf_files t);
       Some (case r of None \<Rightarrow> Inl ERR_NOT_FOUND | Some f \<Rightarrow> Inr f, w)
     }"

definition memfs_remove :: "nat \<Rightarrow> string \<Rightarrow> memw \<Rightarrow> (int \<times> memw) option" where
  "memfs_remove c name w =
     do {
       t \<leftarrow> mm_fs w c;
       r \<leftarrow> find_file (mm_file w) (trim_name name) (mf_files t);
       (case r of
          None \<Rightarrow> Some (ERR_NOT_FOUND, w)
        | Some f \<Rightarrow> do {
            w \<leftarrow> free_file f (w\<lparr>mm_fs := (mm_fs w)(c \<mapsto> t\<lparr>mf_files := remove1 f (mf_files t)\<rparr>)\<rparr>);
            Some (0, w)
          })
     }"

definition memfs_close :: "nat \<Rightarrow> memw \<Rightarrow> (int \<times> memw) option" where
  "memfs_close f w = Some (0, w)"

text \<open>The comparisons are of unsigned 64-bit values; the copy reads the block of the file.\<close>

definition memfs_read :: "nat \<Rightarrow> int \<Rightarrow> nat \<Rightarrow> memw \<Rightarrow> ((int \<times> u8 list) \<times> memw) option" where
  "memfs_read f off len w =
     do {
       fl \<leftarrow> mm_file w f;
       if off < 0 then Some ((ERR_INVALID_ARGS, []), w)
       else do {
         _ \<leftarrow> mm_fs w (f_fs fl);
         let len = (if nat off \<ge> f_len fl then 0 else if u64_add off len > f_len fl then f_len fl - nat off else len);
         data \<leftarrow> (if len = 0 then Some [] else mem_read (nat off) len (f_ptr fl));
         Some ((int len, data), w)
       }
     }"

definition memfs_truncate :: "nat \<Rightarrow> nat \<Rightarrow> memw \<Rightarrow> (int \<times> memw) option" where
  "memfs_truncate f len w =
     do {
       fl \<leftarrow> mm_file w f;
       _ \<leftarrow> mm_fs w (f_fs fl);
       if len > f_len fl then Some (ERR_INVALID_ARGS, w)
       else
         let (ptr, w) = m_realloc (f_ptr fl) (if len = 0 then 1 else len) w in
         (case ptr of
            None \<Rightarrow> Some (ERR_NO_MEMORY, w)
          | Some ptr \<Rightarrow> Some (0, w\<lparr>mm_file := (mm_file w)(f \<mapsto> fl\<lparr>f_len := len, f_ptr := ptr\<rparr>)\<rparr>))
     }"

definition memfs_write :: "nat \<Rightarrow> u8 list \<Rightarrow> int \<Rightarrow> nat \<Rightarrow> memw \<Rightarrow> (int \<times> memw) option" where
  "memfs_write f buf off len w =
     do {
       fl \<leftarrow> mm_file w f;
       if off < 0 then Some (ERR_INVALID_ARGS, w)
       else do {
         _ \<leftarrow> mm_fs w (f_fs fl);
         let n = u64_add off len;
         let (fl', w) =
           (if n > f_len fl then
              (case m_realloc (f_ptr fl) n w of
                 (None, w) \<Rightarrow> (None, w)
               | (Some ptr, w) \<Rightarrow> (Some (fl\<lparr>f_ptr := ptr, f_len := n\<rparr>), w))
            else (Some fl, w));
         (case fl' of
            None \<Rightarrow> Some (ERR_NO_MEMORY, w)
          | Some fl \<Rightarrow> do {
              data \<leftarrow> mem_read 0 len buf;
              ptr \<leftarrow> (if len = 0 then Some (f_ptr fl) else mem_write (nat off) data (f_ptr fl));
              Some (int len, w\<lparr>mm_file := (mm_file w)(f \<mapsto> fl\<lparr>f_ptr := ptr\<rparr>)\<rparr>)
            })
       }
     }"

definition memfs_stat :: "nat \<Rightarrow> file_stat option \<Rightarrow> memw \<Rightarrow> ((int \<times> file_stat option) \<times> memw) option" where
  "memfs_stat f st w =
     do {
       fl \<leftarrow> mm_file w f;
       _ \<leftarrow> mm_fs w (f_fs fl);
       Some ((0, map_option (\<lambda>st. st\<lparr>st_is_dir := False, st_size := f_len fl\<rparr>) st), w)
     }"

definition memfs_opendir :: "nat \<Rightarrow> string \<Rightarrow> memw \<Rightarrow> ((int + nat) \<times> memw) option" where
  "memfs_opendir c name w =
     (if trim_name name \<noteq> [] then Some (Inl ERR_NOT_FOUND, w)
      else
        let (d, w) = m_alloc w in
        (case d of
           None \<Rightarrow> Some (Inl ERR_NO_MEMORY, w)
         | Some d \<Rightarrow> do {
             t \<leftarrow> mm_fs w c;
             let dir = \<lparr>d_fs = c, d_next = (case mf_files t of [] \<Rightarrow> None | f # _ \<Rightarrow> Some f)\<rparr>;
             Some (Inr d, w\<lparr>mm_dir := (mm_dir w)(d \<mapsto> dir), mm_fs := (mm_fs w)(c \<mapsto> t\<lparr>mf_dcookies := d # mf_dcookies t\<rparr>)\<rparr>)
           }))"

text \<open>\<^verbatim>\<open>list_next\<close>: the element behind one that is in the list.\<close>

fun next_in :: "'a \<Rightarrow> 'a list \<Rightarrow> 'a option" where
  "next_in x [] = None"
| "next_in x (y # ys) = (if x = y then (case ys of [] \<Rightarrow> None | z # _ \<Rightarrow> Some z) else next_in x ys)"

text \<open>The caller's entry is there: the check for a null pointer is the second argument. The name is cut to the size of the entry.\<close>

definition memfs_readdir :: "nat \<Rightarrow> bool \<Rightarrow> memw \<Rightarrow> ((int + string) \<times> memw) option" where
  "memfs_readdir d ent w =
     (if \<not> ent then Some (Inl ERR_INVALID_ARGS, w)
      else do {
        dir \<leftarrow> mm_dir w d;
        t \<leftarrow> mm_fs w (d_fs dir);
        (case d_next dir of
           None \<Rightarrow> Some (Inl ERR_NOT_FOUND, w)
         | Some f \<Rightarrow> do {
             fl \<leftarrow> mm_file w f;
             nm \<leftarrow> f_name fl;
             Some (Inr (take (FS_MAX_FILE_LEN - 1) nm), w\<lparr>mm_dir := (mm_dir w)(d \<mapsto> dir\<lparr>d_next := next_in f (mf_files t)\<rparr>)\<rparr>)
           })
      })"

definition memfs_closedir :: "nat \<Rightarrow> memw \<Rightarrow> (int \<times> memw) option" where
  "memfs_closedir d w =
     do {
       dir \<leftarrow> mm_dir w d;
       t \<leftarrow> mm_fs w (d_fs dir);
       Some (0, w\<lparr>mm_fs := (mm_fs w)(d_fs dir \<mapsto> t\<lparr>mf_dcookies := remove1 d (mf_dcookies t)\<rparr>), mm_dir := (mm_dir w)(d := None)\<rparr>)
     }"

text \<open>The table of functions. The block devices play no part.\<close>

definition on_mem :: "(memw \<Rightarrow> ('r \<times> memw) option) \<Rightarrow> ('r, 'd bio_state \<times> memw) act" where
  "on_mem h = (\<lambda>(b, w). map_option (\<lambda>(r, w). (r, b, w)) (h w))"

definition memfs_api :: "('d bio_state \<times> memw) fs_api" where
  "memfs_api =
     \<lparr>fa_format = None, fa_fs_stat = None,
      fa_mount = Some (\<lambda>dev. on_mem (memfs_mount dev)),
      fa_unmount = Some (\<lambda>c. on_mem (memfs_unmount c)),
      fa_open = Some (\<lambda>c name. on_mem (memfs_open c name)),
      fa_create = Some (\<lambda>c name len. on_mem (memfs_create c name len)),
      fa_remove = Some (\<lambda>c name. on_mem (memfs_remove c name)),
      fa_truncate = Some (\<lambda>f len. on_mem (memfs_truncate f len)),
      fa_stat = Some (\<lambda>f st. on_mem (memfs_stat f st)),
      fa_read = Some (\<lambda>f off len. on_mem (memfs_read f off len)),
      fa_write = Some (\<lambda>f buf off len. on_mem (memfs_write f buf off len)),
      fa_close = Some (\<lambda>f. on_mem (memfs_close f)),
      fa_mkdir = None,
      fa_opendir = Some (\<lambda>c name. on_mem (memfs_opendir c name)),
      fa_readdir = Some (\<lambda>d. on_mem (memfs_readdir d True)),
      fa_closedir = Some (\<lambda>d. on_mem (memfs_closedir d)),
      fa_file_ioctl = None\<rparr>"

section \<open>The invariant\<close>

definition file_name :: "memw \<Rightarrow> nat \<Rightarrow> string option" where
  "file_name w f = Option.bind (mm_file w f) f_name"

definition file_good :: "memw \<Rightarrow> nat \<Rightarrow> nat \<Rightarrow> bool" where
  "file_good w c f \<longleftrightarrow> (\<exists>fl nm. mm_file w f = Some fl \<and> f_fs fl = c \<and> f_name fl = Some nm \<and> f_len fl \<le> length (f_ptr fl))"

definition fs_good :: "memw \<Rightarrow> nat \<Rightarrow> memfs \<Rightarrow> bool" where
  "fs_good w c t \<longleftrightarrow> distinct (mf_files t) \<and> (\<forall>f\<in>set (mf_files t). file_good w c f) \<and> inj_on (file_name w) (set (mf_files t))"

definition mem_ok :: "memw \<Rightarrow> bool" where
  "mem_ok w \<longleftrightarrow> (\<forall>c t. mm_fs w c = Some t \<longrightarrow> c < mm_allocs w \<and> fs_good w c t) \<and> (\<forall>f. mm_file w f \<noteq> None \<longrightarrow> f < mm_allocs w) \<and>
     (\<forall>d. mm_dir w d \<noteq> None \<longrightarrow> d < mm_allocs w) \<and> (\<forall>n. \<not> mm_no_name w n)"

definition dir_good :: "memw \<Rightarrow> nat \<Rightarrow> nat \<Rightarrow> bool" where
  "dir_good w c d \<longleftrightarrow> (\<exists>t dr. mm_fs w c = Some t \<and> mm_dir w d = Some dr \<and> d_fs dr = c \<and> (\<forall>f. d_next dr = Some f \<longrightarrow> f \<in> set (mf_files t)))"

definition mem_files :: "memw \<Rightarrow> nat \<Rightarrow> nat list" where
  "mem_files w c = (case mm_fs w c of None \<Rightarrow> [] | Some t \<Rightarrow> mf_files t)"

definition out_ok :: "memw \<Rightarrow> (nat \<Rightarrow> nat option) \<Rightarrow> (nat \<Rightarrow> (nat \<times> nat) option) \<Rightarrow> (nat \<Rightarrow> (nat \<times> nat) option) \<Rightarrow> bool" where
  "out_ok w M F D \<longleftrightarrow> (\<forall>i c. M i = Some c \<longrightarrow> mm_fs w c \<noteq> None) \<and> (\<forall>i j c. M i = Some c \<longrightarrow> M j = Some c \<longrightarrow> i = j) \<and>
     (\<forall>k i f. F k = Some (i, f) \<longrightarrow> (\<exists>c. M i = Some c \<and> f \<in> set (mem_files w c))) \<and>
     (\<forall>k i d. D k = Some (i, d) \<longrightarrow> (\<exists>c. M i = Some c \<and> dir_good w c d)) \<and>
     (\<forall>k k' i i' d. D k = Some (i, d) \<longrightarrow> D k' = Some (i', d) \<longrightarrow> k = k')"

definition memfs_inv :: "memw \<Rightarrow> (nat \<Rightarrow> nat option) \<Rightarrow> (nat \<Rightarrow> (nat \<times> nat) option) \<Rightarrow> (nat \<Rightarrow> (nat \<times> nat) option) \<Rightarrow> bool" where
  "memfs_inv w M F D \<longleftrightarrow> mem_ok w \<and> out_ok w M F D"

text \<open>A file may be removed while no handle is open on it and no directory is about to return it.\<close>

definition memfs_removable :: "memw \<Rightarrow> nat \<Rightarrow> string \<Rightarrow> (nat \<Rightarrow> (nat \<times> nat) option) \<Rightarrow> (nat \<Rightarrow> (nat \<times> nat) option) \<Rightarrow> bool" where
  "memfs_removable w c name F D \<longleftrightarrow> (\<forall>f. find_file (mm_file w) (trim_name name) (mem_files w c) = Some (Some f) \<longrightarrow>
     (\<forall>k i. F k \<noteq> Some (i, f)) \<and> (\<forall>k i d dr. D k = Some (i, d) \<longrightarrow> mm_dir w d = Some dr \<longrightarrow> d_next dr \<noteq> Some f))"

definition memfs_fits :: "int \<Rightarrow> nat \<Rightarrow> bool" where
  "memfs_fits off len \<longleftrightarrow> off < 0 \<or> nat off + len < 2 ^ 64"

lemma u64_add_fits: "memfs_fits off len \<Longrightarrow> 0 \<le> off \<Longrightarrow> u64_add off len = nat off + len"
proof -
  assume a: "memfs_fits off len" "0 \<le> off"
  then have "nat off + len < 2 ^ 64" by (simp add: memfs_fits_def)
  then have "int (nat off + len) < int (2 ^ 64)" by (simp only: of_nat_less_iff)
  then have "off + int len < 2 ^ 64" using a(2) by simp
  then show ?thesis using a(2) by (simp add: u64_add_def nat_add_distrib)
qed

section \<open>Looking up a name\<close>

lemma find_file_good:
  "\<forall>f\<in>set fs. file_good w c f \<Longrightarrow> \<exists>r. find_file (mm_file w) name fs = Some r \<and>
    (case r of None \<Rightarrow> \<forall>f\<in>set fs. file_name w f \<noteq> Some name | Some f \<Rightarrow> f \<in> set fs \<and> file_name w f = Some name)"
  by (induction fs) (force simp: file_good_def file_name_def split: option.splits)+

lemma mem_okD:
  assumes "mem_ok w" and "mm_fs w c = Some t"
  shows "c < mm_allocs w" "distinct (mf_files t)" "\<And>f. f \<in> set (mf_files t) \<Longrightarrow> file_good w c f" "inj_on (file_name w) (set (mf_files t))"
proof -
  have "c < mm_allocs w \<and> fs_good w c t" using assms unfolding mem_ok_def by blast
  then show "c < mm_allocs w" "distinct (mf_files t)" "\<And>f. f \<in> set (mf_files t) \<Longrightarrow> file_good w c f" "inj_on (file_name w) (set (mf_files t))"
    by (simp_all add: fs_good_def)
qed

lemma find_in_fs:
  assumes "mem_ok w" and "mm_fs w c = Some t"
  shows "\<exists>r. find_file (mm_file w) name (mf_files t) = Some r \<and>
    (case r of None \<Rightarrow> \<forall>f\<in>set (mf_files t). file_name w f \<noteq> Some name | Some f \<Rightarrow> f \<in> set (mf_files t) \<and> file_name w f = Some name)"
  by (rule find_file_good) (use mem_okD(3) [OF assms] in blast)

lemma mem_ok_fresh: "mem_ok w \<Longrightarrow> mm_allocs w \<le> n \<Longrightarrow> mm_fs w n = None \<and> mm_file w n = None \<and> mm_dir w n = None"
  unfolding mem_ok_def by (meson leD not_None_eq)

lemma good_allocs [simp]:
  "file_name (w\<lparr>mm_allocs := n\<rparr>) = file_name w" "file_good (w\<lparr>mm_allocs := n\<rparr>) = file_good w" "fs_good (w\<lparr>mm_allocs := n\<rparr>) = fs_good w"
  by (simp_all add: fun_eq_iff file_name_def file_good_def fs_good_def inj_on_def)

lemma mem_ok_allocs: "mem_ok w \<Longrightarrow> mm_allocs w \<le> n \<Longrightarrow> mem_ok (w\<lparr>mm_allocs := n\<rparr>)"
  unfolding mem_ok_def by (simp, meson less_le_trans)

lemma out_ok_allocs [simp]: "out_ok (w\<lparr>mm_allocs := n\<rparr>) = out_ok w"
  by (simp add: out_ok_def fun_eq_iff dir_good_def mem_files_def)

text \<open>A file that keeps its name and its place.\<close>

lemma mem_ok_upd_file:
  assumes "mem_ok w" and "mm_file w f = Some fl" and "f_fs fl' = f_fs fl" and "f_name fl' = f_name fl" and "f_len fl' \<le> length (f_ptr fl')"
  shows "mem_ok (w\<lparr>mm_file := (mm_file w)(f \<mapsto> fl')\<rparr>)"
proof -
  let ?w = "w\<lparr>mm_file := (mm_file w)(f \<mapsto> fl')\<rparr>"
  have n: "file_name ?w = file_name w" using assms(2,4) by (simp add: file_name_def fun_eq_iff)
  have "file_good w c g \<Longrightarrow> file_good ?w c g" for c g using assms(2-5) by (auto simp: file_good_def)
  then show ?thesis using assms(1,2) unfolding mem_ok_def fs_good_def by (auto simp: n)
qed

lemma out_ok_upd_file [simp]: "out_ok (w\<lparr>mm_file := x\<rparr>) = out_ok w"
  by (simp add: out_ok_def fun_eq_iff dir_good_def mem_files_def)

text \<open>A file of an open handle.\<close>

lemma open_file_good:
  assumes "memfs_inv w M F D" and "F k = Some (i, f)"
  obtains c t fl nm where "M i = Some c" "mm_fs w c = Some t" "f \<in> set (mf_files t)" "mm_file w f = Some fl" "f_fs fl = c" "f_name fl = Some nm" "f_len fl \<le> length (f_ptr fl)"
proof -
  obtain c where c: "M i = Some c" "f \<in> set (mem_files w c)" using assms unfolding memfs_inv_def out_ok_def by blast
  then obtain t where t: "mm_fs w c = Some t" "f \<in> set (mf_files t)" by (cases "mm_fs w c") (auto simp: mem_files_def)
  then have "file_good w c f" using mem_okD(3) assms(1) by (auto simp: memfs_inv_def)
  then show ?thesis using that c(1) t by (auto simp: file_good_def)
qed

lemma open_dir_good:
  assumes "memfs_inv w M F D" and "D k = Some (i, d)"
  obtains c t dr where "M i = Some c" "mm_fs w c = Some t" "mm_dir w d = Some dr" "d_fs dr = c" "\<And>f. d_next dr = Some f \<Longrightarrow> f \<in> set (mf_files t)"
proof -
  obtain c where c: "M i = Some c" "dir_good w c d" using assms unfolding memfs_inv_def out_ok_def by blast
  then show ?thesis using that by (auto simp: dir_good_def)
qed

section \<open>The calls on files\<close>

lemma length_realloc: "m_realloc old n w = (Some p, w') \<Longrightarrow> length p = n"
  by (auto simp: m_realloc_def split: if_splits)

text \<open>\<open>keeps w M F D r\<close>: the call returned and the invariant still holds.\<close>

definition keeps :: "(nat \<Rightarrow> nat option) \<Rightarrow> (nat \<Rightarrow> (nat \<times> nat) option) \<Rightarrow> (nat \<Rightarrow> (nat \<times> nat) option) \<Rightarrow> ('r \<times> memw) option \<Rightarrow> bool" where
  "keeps M F D r \<longleftrightarrow> (\<exists>x w'. r = Some (x, w') \<and> memfs_inv w' M F D)"

lemma keeps_Some [simp]: "keeps M F D (Some (x, w)) = memfs_inv w M F D"
  by (simp add: keeps_def)

lemma read_keeps:
  assumes "memfs_inv w M F D" and "F k = Some (i, f)" and "memfs_fits off len"
  shows "keeps M F D (memfs_read f off len w)"
proof -
  from assms(1,2) obtain c t fl nm where f: "mm_fs w c = Some t" "mm_file w f = Some fl" "f_fs fl = c" "f_len fl \<le> length (f_ptr fl)" by (rule open_file_good)
  show ?thesis
  proof (cases "off < 0")
    case True
    then show ?thesis using f assms(1) by (simp add: memfs_read_def)
  next
    case False
    then have "u64_add off len = nat off + len" using u64_add_fits [OF assms(3)] by simp
    then show ?thesis using f assms(1) False by (auto simp: memfs_read_def mem_read_def Let_def)
  qed
qed

lemma truncate_keeps:
  assumes "memfs_inv w M F D" and "F k = Some (i, f)"
  shows "keeps M F D (memfs_truncate f len w)"
proof -
  from assms obtain c t fl nm where f: "mm_fs w c = Some t" "mm_file w f = Some fl" "f_fs fl = c" "f_len fl \<le> length (f_ptr fl)" by (rule open_file_good)
  let ?w = "w\<lparr>mm_allocs := mm_allocs w + 1\<rparr>"
  have m: "mem_ok ?w" "out_ok ?w M F D" using assms(1) mem_ok_allocs by (auto simp: memfs_inv_def)
  have "mem_ok (?w\<lparr>mm_file := (mm_file ?w)(f \<mapsto> fl')\<rparr>)" if "f_fs fl' = f_fs fl" "f_name fl' = f_name fl" "f_len fl' \<le> length (f_ptr fl')" for fl'
    using mem_ok_upd_file [OF m(1), of f fl fl'] f(2) that by simp
  then show ?thesis using f assms(1) m by (auto simp: memfs_truncate_def m_realloc_def memfs_inv_def)
qed

lemma write_keeps:
  assumes "memfs_inv w M F D" and "F k = Some (i, f)" and "memfs_fits off len" and "len \<le> length buf"
  shows "keeps M F D (memfs_write f buf off len w)"
proof -
  from assms(1,2) obtain c t fl nm where f: "mm_fs w c = Some t" "mm_file w f = Some fl" "f_fs fl = c" "f_len fl \<le> length (f_ptr fl)" by (rule open_file_good)
  show ?thesis
  proof (cases "off < 0")
    case True
    then show ?thesis using f assms(1) by (simp add: memfs_write_def)
  next
    case False
    then have u: "u64_add off len = nat off + len" using u64_add_fits [OF assms(3)] by simp
    have b: "mem_read 0 len buf = Some (take len buf)" using assms(4) by (simp add: mem_read_def seg_def)
    have upd: "memfs_inv (w\<lparr>mm_allocs := n, mm_file := (mm_file w)(f \<mapsto> fl')\<rparr>) M F D"
      if "n \<ge> mm_allocs w" "f_fs fl' = f_fs fl" "f_name fl' = f_name fl" "f_len fl' \<le> length (f_ptr fl')" for n fl'
    proof -
      have "mem_ok (w\<lparr>mm_allocs := n\<rparr>)" using assms(1) that(1) mem_ok_allocs by (auto simp: memfs_inv_def)
      from mem_ok_upd_file [OF this, of f fl fl'] show ?thesis using assms(1) f(2) that by (simp add: memfs_inv_def)
    qed
    show ?thesis
    proof (cases "nat off + len > f_len fl")
      case True
      then show ?thesis using f assms(1,4) False u b upd [of "Suc (mm_allocs w)"] mem_ok_allocs [of w "Suc (mm_allocs w)"]
        by (auto simp: memfs_write_def m_realloc_def mem_write_def Let_def memfs_inv_def)
    next
      case le: False
      have "memfs_inv (w\<lparr>mm_file := (mm_file w)(f \<mapsto> fl')\<rparr>) M F D" if "f_fs fl' = f_fs fl" "f_name fl' = f_name fl" "f_len fl' \<le> length (f_ptr fl')" for fl'
        using mem_ok_upd_file [of w f fl fl'] assms(1) f(2) that by (simp add: memfs_inv_def)
      then show ?thesis using f assms(1,4) False u b le by (auto simp: memfs_write_def mem_write_def Let_def)
    qed
  qed
qed

lemma stat_keeps:
  assumes "memfs_inv w M F D" and "F k = Some (i, f)"
  shows "\<exists>st'. memfs_stat f st w = Some ((0, st'), w) \<and> (st = None \<longrightarrow> st' = None) \<and> (st \<noteq> None \<longrightarrow> st' \<noteq> None)"
proof -
  from assms obtain c t fl nm where "mm_fs w c = Some t" "mm_file w f = Some fl" "f_fs fl = c" by (rule open_file_good)
  then show ?thesis by (cases st) (auto simp: memfs_stat_def)
qed

lemma inv_mount: "memfs_inv w M F D \<Longrightarrow> M i = Some c \<Longrightarrow> \<exists>t. mm_fs w c = Some t"
  unfolding memfs_inv_def out_ok_def by blast

lemma out_ok_mono:
  assumes "out_ok w M F D" and "\<And>g c. g \<in> set (mem_files w c) \<Longrightarrow> g \<in> set (mem_files w' c)" and "\<And>c d. dir_good w c d \<Longrightarrow> dir_good w' c d"
    and "\<And>c. mm_fs w c \<noteq> None \<Longrightarrow> mm_fs w' c \<noteq> None"
  shows "out_ok w' M F D"
proof -
  note o = assms(1) [unfolded out_ok_def]
  have "\<forall>i c. M i = Some c \<longrightarrow> mm_fs w' c \<noteq> None" using o assms(4) by blast
  moreover have "\<forall>k i f. F k = Some (i, f) \<longrightarrow> (\<exists>c. M i = Some c \<and> f \<in> set (mem_files w' c))" using o assms(2) by meson
  moreover have "\<forall>k i d. D k = Some (i, d) \<longrightarrow> (\<exists>c. M i = Some c \<and> dir_good w' c d)" using o assms(3) by meson
  ultimately show ?thesis using o by (simp add: out_ok_def)
qed

lemma fs_good_keep:
  assumes "fs_good w c t" and "\<And>f. f \<in> set (mf_files t) \<Longrightarrow> file_good w c f \<Longrightarrow> file_good w' c f \<and> file_name w' f = file_name w f"
  shows "fs_good w' c t"
proof -
  have "inj_on (file_name w') (set (mf_files t)) = inj_on (file_name w) (set (mf_files t))"
    by (rule inj_on_cong) (use assms in \<open>auto simp: fs_good_def\<close>)
  then show ?thesis using assms by (simp add: fs_good_def)
qed

lemma out_ok_new_file:
  assumes "out_ok w M F D" and "M i = Some c" and "f \<in> set (mem_files w c)"
  shows "out_ok w M (F(k \<mapsto> (i, f))) D"
  using assms by (auto simp: out_ok_def)

text \<open>\<open>opens r M F D k i\<close>: a call that may open a file for the handle \<open>k\<close> on the mount \<open>i\<close>.\<close>

definition opens :: "(nat \<Rightarrow> nat option) \<Rightarrow> (nat \<Rightarrow> (nat \<times> nat) option) \<Rightarrow> (nat \<Rightarrow> (nat \<times> nat) option) \<Rightarrow> nat \<Rightarrow> nat \<Rightarrow> ((int + nat) \<times> memw) option \<Rightarrow> bool" where
  "opens M F D k i r \<longleftrightarrow> (\<exists>x w'. r = Some (x, w') \<and> (case x of Inl _ \<Rightarrow> memfs_inv w' M F D | Inr f \<Rightarrow> memfs_inv w' M (F(k \<mapsto> (i, f))) D))"

lemma opens_simps [simp]:
  "opens M F D k i (Some (Inl e, w)) = memfs_inv w M F D" "opens M F D k i (Some (Inr f, w)) = memfs_inv w M (F(k \<mapsto> (i, f))) D"
  by (simp_all add: opens_def)

lemma open_opens:
  assumes "memfs_inv w M F D" and "M i = Some c"
  shows "opens M F D k i (memfs_open c name w)"
proof -
  obtain t where t: "mm_fs w c = Some t" using inv_mount [OF assms] by blast
  obtain r where r: "find_file (mm_file w) (trim_name name) (mf_files t) = Some r"
    "case r of None \<Rightarrow> \<forall>f\<in>set (mf_files t). file_name w f \<noteq> Some (trim_name name) | Some f \<Rightarrow> f \<in> set (mf_files t) \<and> file_name w f = Some (trim_name name)"
    using find_in_fs [OF _ t] assms(1) by (auto simp: memfs_inv_def)
  show ?thesis
  proof (cases r)
    case None
    then show ?thesis using assms(1) t r(1) by (simp add: memfs_open_def)
  next
    case (Some f)
    then have "f \<in> set (mem_files w c)" using r(2) t by (simp add: mem_files_def)
    then show ?thesis using out_ok_new_file [of w M F D i c f k] assms t r(1) Some by (simp add: memfs_open_def memfs_inv_def)
  qed
qed

text \<open>A new file at the end of a file system.\<close>

definition add_file :: "nat \<Rightarrow> memfs \<Rightarrow> nat \<Rightarrow> memfs_file \<Rightarrow> memw \<Rightarrow> memw" where
  "add_file c t f fl w = w\<lparr>mm_file := (mm_file w)(f \<mapsto> fl), mm_fs := (mm_fs w)(c \<mapsto> t\<lparr>mf_files := mf_files t @ [f]\<rparr>)\<rparr>"

lemma add_file_good:
  assumes "mem_ok w" and "mm_fs w c = Some t" and "mm_file w f = None" and "f < mm_allocs w" and "f_fs fl = c" and "f_name fl = Some nm"
    and "f_len fl \<le> length (f_ptr fl)" and "\<forall>g\<in>set (mf_files t). file_name w g \<noteq> Some nm"
  shows "mem_ok (add_file c t f fl w)"
proof -
  let ?w = "add_file c t f fl w"
  have old: "file_good w c' g \<Longrightarrow> file_good ?w c' g \<and> file_name ?w g = file_name w g" for c' g
    using assms(3) by (auto simp: file_good_def add_file_def file_name_def)
  have new: "file_good ?w c f" "file_name ?w f = Some nm" using assms(5-7) by (auto simp: file_good_def add_file_def file_name_def)
  have keep: "fs_good ?w c' t'" if "mm_fs w c' = Some t'" for c' t'
  proof -
    have "fs_good w c' t'" using assms(1) that unfolding mem_ok_def by blast
    then show ?thesis by (rule fs_good_keep) (use old in blast)
  qed
  note g = mem_okD [OF assms(1,2)]
  have "f \<notin> set (mf_files t)" using g(3) [of f] assms(3) by (auto simp: file_good_def)
  moreover have old_name: "file_name ?w h = file_name w h" if "h \<in> set (mf_files t)" for h using old [of c h] g(3) that by blast
  ultimately have "fs_good ?w c (t\<lparr>mf_files := mf_files t @ [f]\<rparr>)"
    using g new assms(8) keep [OF assms(2)] old_name unfolding fs_good_def by (auto simp: image_iff)
  then show ?thesis using assms(1,4) keep g(1) by (auto simp: mem_ok_def add_file_def)
qed

lemma add_file_out:
  assumes "out_ok w M F D" and "mm_fs w c = Some t" and "M i = Some c"
  shows "out_ok (add_file c t f fl w) M (F(k \<mapsto> (i, f))) D"
proof -
  let ?w = "add_file c t f fl w"
  have "out_ok ?w M F D"
    using assms(2) by (intro out_ok_mono [OF assms(1)]) (auto simp: mem_files_def dir_good_def add_file_def)
  moreover have "f \<in> set (mem_files ?w c)" by (simp add: mem_files_def add_file_def)
  ultimately show ?thesis using out_ok_new_file [of ?w M F D i c f k] assms(3) by simp
qed

lemma memfs_inv_allocs: "memfs_inv w M F D \<Longrightarrow> mm_allocs w \<le> n \<Longrightarrow> memfs_inv (w\<lparr>mm_allocs := n\<rparr>) M F D"
  by (simp add: memfs_inv_def mem_ok_allocs)

lemma create_opens:
  assumes "memfs_inv w M F D" and "M i = Some c"
  shows "opens M F D k i (memfs_create c name len w)"
proof -
  obtain t where t: "mm_fs w c = Some t" using inv_mount [OF assms] by blast
  obtain r where r: "find_file (mm_file w) (trim_name name) (mf_files t) = Some r"
    "case r of None \<Rightarrow> \<forall>f\<in>set (mf_files t). file_name w f \<noteq> Some (trim_name name) | Some f \<Rightarrow> f \<in> set (mf_files t) \<and> file_name w f = Some (trim_name name)"
    using find_in_fs [OF _ t] assms(1) by (auto simp: memfs_inv_def)
  have dup: "\<not> mm_no_name w n" for n using assms(1) by (auto simp: memfs_inv_def mem_ok_def)
  let ?n = "mm_allocs w" and ?w = "w\<lparr>mm_allocs := Suc (Suc (Suc (mm_allocs w)))\<rparr>"
  let ?fl = "\<lparr>f_fs = c, f_name = Some (trim_name name), f_ptr = replicate len 0, f_len = len\<rparr>"
  have w: "mem_ok ?w" "out_ok ?w M F D" using memfs_inv_allocs [OF assms(1)] by (auto simp: memfs_inv_def)
  have "memfs_inv (add_file c t ?n ?fl ?w) M (F(k \<mapsto> (i, ?n))) D" if "r = None"
  proof -
    have "mm_file w ?n = None" using mem_ok_fresh [of w ?n] assms(1) by (simp add: memfs_inv_def)
    then have "mem_ok (add_file c t ?n ?fl ?w)" using w(1) t r(2) that by (intro add_file_good [of _ _ _ _ _ "trim_name name"]) simp_all
    then show ?thesis using add_file_out [OF w(2) _ assms(2), of t] t by (simp add: memfs_inv_def)
  qed
  then show ?thesis
    using assms(1) t r(1) dup memfs_inv_allocs [OF assms(1)]
    by (auto simp: memfs_create_def Let_def m_alloc_def m_strdup_def add_file_def)
qed

lemma out_ok_new_mount:
  assumes "out_ok w M F D" and "M i = None" and "mm_fs w c \<noteq> None" and "\<And>j. M j \<noteq> Some c"
  shows "out_ok w (M(i \<mapsto> c)) F D"
proof -
  note o = assms(1) [unfolded out_ok_def]
  have "\<forall>k j f. F k = Some (j, f) \<longrightarrow> (\<exists>c'. (M(i \<mapsto> c)) j = Some c' \<and> f \<in> set (mem_files w c'))"
    using o assms(2) by (metis fun_upd_other option.distinct(1))
  moreover have "\<forall>k j d. D k = Some (j, d) \<longrightarrow> (\<exists>c'. (M(i \<mapsto> c)) j = Some c' \<and> dir_good w c' d)"
    using o assms(2) by (metis fun_upd_other option.distinct(1))
  moreover have "\<forall>j j' c'. (M(i \<mapsto> c)) j = Some c' \<longrightarrow> (M(i \<mapsto> c)) j' = Some c' \<longrightarrow> j = j'" using o assms(4) by (metis fun_upd_apply)
  moreover have "\<forall>j c'. (M(i \<mapsto> c)) j = Some c' \<longrightarrow> mm_fs w c' \<noteq> None" using o assms(3) by simp
  ultimately show ?thesis using o unfolding out_ok_def by blast
qed

lemma mount_opens:
  assumes "memfs_inv w M F D" and "M i = None"
  shows "\<exists>x w'. memfs_mount dev w = Some (x, w') \<and> (case x of Inl _ \<Rightarrow> memfs_inv w' M F D | Inr c \<Rightarrow> memfs_inv w' (M(i \<mapsto> c)) F D)"
proof (cases "mm_oom w (mm_allocs w)")
  case True
  then show ?thesis using memfs_inv_allocs [OF assms(1), of "Suc (mm_allocs w)"] by (simp add: memfs_mount_def m_alloc_def)
next
  case False
  let ?c = "mm_allocs w"
  let ?w = "w\<lparr>mm_allocs := Suc ?c, mm_fs := (mm_fs w)(?c \<mapsto> \<lparr>mf_files = [], mf_dcookies = []\<rparr>)\<rparr>"
  have m: "mem_ok w" and o: "out_ok w M F D" using assms(1) by (simp_all add: memfs_inv_def)
  have n: "mm_fs w ?c = None" using mem_ok_fresh [OF m] by simp
  have g: "file_name ?w = file_name w" "file_good ?w = file_good w" by (simp_all add: fun_eq_iff file_name_def file_good_def)
  have "fs_good ?w c t = fs_good w c t" for c t by (simp add: fs_good_def g)
  moreover have "fs_good w ?c \<lparr>mf_files = [], mf_dcookies = []\<rparr>" by (simp add: fs_good_def)
  ultimately have "mem_ok ?w" using m unfolding mem_ok_def by (auto simp: less_SucI)
  moreover have "out_ok ?w (M(i \<mapsto> ?c)) F D"
  proof -
    have o': "out_ok ?w M F D" using n by (intro out_ok_mono [OF o]) (auto simp: mem_files_def dir_good_def)
    have "M j \<noteq> Some ?c" for j using o n unfolding out_ok_def by metis
    then show ?thesis using out_ok_new_mount [OF o' assms(2)] by simp
  qed
  ultimately show ?thesis using False by (simp add: memfs_mount_def m_alloc_def memfs_inv_def)
qed

section \<open>Removing\<close>

lemma free_files_ok:
  "distinct fs \<Longrightarrow> \<forall>f\<in>set fs. mm_file w f \<noteq> None \<Longrightarrow> free_files fs w = Some (w\<lparr>mm_file := (\<lambda>f. if f \<in> set fs then None else mm_file w f)\<rparr>)"
proof (induction fs arbitrary: w)
  case (Cons f fs)
  let ?w = "w\<lparr>mm_file := (mm_file w)(f := None)\<rparr>"
  have "free_files fs ?w = Some (?w\<lparr>mm_file := (\<lambda>g. if g \<in> set fs then None else mm_file ?w g)\<rparr>)" using Cons by (intro Cons.IH) auto
  also have "\<dots> = Some (w\<lparr>mm_file := (\<lambda>g. if g \<in> set (f # fs) then None else mm_file w g)\<rparr>)"
    by (auto intro!: arg_cong [of _ _ "\<lambda>x. w\<lparr>mm_file := x\<rparr>"])
  finally show ?case using Cons.prems by (auto simp: free_file_def)
qed simp

text \<open>Taking files away from the file system \<open>c\<close>: the others keep theirs.\<close>

lemma fs_good_other:
  assumes "mem_ok w" and "mm_fs w c' = Some t'" and "\<And>f. mm_file w' f \<noteq> mm_file w f \<Longrightarrow> file_good w c f" and "c' \<noteq> c"
  shows "fs_good w' c' t'"
proof (rule fs_good_keep)
  show "fs_good w c' t'" using assms(1,2) unfolding mem_ok_def by blast
  fix f assume "file_good w c' f"
  moreover have "mm_file w' f = mm_file w f"
  proof (rule ccontr)
    assume "mm_file w' f \<noteq> mm_file w f"
    then have "file_good w c f" by (rule assms(3))
    with \<open>file_good w c' f\<close> assms(4) show False by (auto simp: file_good_def)
  qed
  ultimately show "file_good w' c' f \<and> file_name w' f = file_name w f" by (simp add: file_good_def file_name_def)
qed

lemma unmount_keeps:
  assumes "memfs_inv w M F D" and "M i = Some c" and "\<forall>k x. F k \<noteq> Some (i, x)" and "\<forall>k x. D k \<noteq> Some (i, x)"
  shows "keeps (M(i := None)) F D (memfs_unmount c w)"
proof -
  have m: "mem_ok w" and o: "out_ok w M F D" using assms(1) by (simp_all add: memfs_inv_def)
  obtain t where t: "mm_fs w c = Some t" using inv_mount [OF assms(1,2)] by blast
  note g = mem_okD [OF m t]
  let ?w = "w\<lparr>mm_file := (\<lambda>f. if f \<in> set (mf_files t) then None else mm_file w f), mm_fs := (mm_fs w)(c := None)\<rparr>"
  have "\<forall>f\<in>set (mf_files t). mm_file w f \<noteq> None" using g(3) by (force simp: file_good_def)
  then have r: "memfs_unmount c w = Some (0, ?w)" using t free_files_ok [OF g(2)] by (simp add: memfs_unmount_def)
  have "fs_good ?w c' t'" if "mm_fs w c' = Some t'" "c' \<noteq> c" for c' t'
    by (rule fs_good_other [OF m that(1) _ that(2)]) (use g(3) in \<open>auto split: if_splits\<close>)
  then have "mem_ok ?w" using m unfolding mem_ok_def by auto
  moreover have "out_ok ?w (M(i := None)) F D"
  proof -
    note o' = o [unfolded out_ok_def]
    have c: "c' \<noteq> c" if "M j = Some c'" "j \<noteq> i" for j c' using o' assms(2) that by metis
    have same: "mem_files ?w c' = mem_files w c'" "dir_good ?w c' d = dir_good w c' d" if "c' \<noteq> c" for c' d using that by (simp_all add: mem_files_def dir_good_def)
    have "\<forall>k j f. F k = Some (j, f) \<longrightarrow> (\<exists>c'. (M(i := None)) j = Some c' \<and> f \<in> set (mem_files ?w c'))"
    proof (intro allI impI)
      fix k j f assume k: "F k = Some (j, f)"
      then obtain c' where "M j = Some c'" "f \<in> set (mem_files w c')" "j \<noteq> i" using o' assms(3) by blast
      then show "\<exists>c'. (M(i := None)) j = Some c' \<and> f \<in> set (mem_files ?w c')" using c same(1) by auto
    qed
    moreover have "\<forall>k j d. D k = Some (j, d) \<longrightarrow> (\<exists>c'. (M(i := None)) j = Some c' \<and> dir_good ?w c' d)"
    proof (intro allI impI)
      fix k j d assume k: "D k = Some (j, d)"
      then obtain c' where "M j = Some c'" "dir_good w c' d" "j \<noteq> i" using o' assms(4) by blast
      then show "\<exists>c'. (M(i := None)) j = Some c' \<and> dir_good ?w c' d" using c same(2) by auto
    qed
    moreover have "\<forall>j c'. (M(i := None)) j = Some c' \<longrightarrow> mm_fs ?w c' \<noteq> None" using o' c by simp
    moreover have "\<forall>j j' c'. (M(i := None)) j = Some c' \<longrightarrow> (M(i := None)) j' = Some c' \<longrightarrow> j = j'" using o' by (metis fun_upd_apply option.distinct(1))
    ultimately show ?thesis using o' unfolding out_ok_def by blast
  qed
  ultimately show ?thesis using r by (simp add: memfs_inv_def)
qed

lemma remove_keeps:
  assumes "memfs_inv w M F D" and "M i = Some c" and "memfs_removable w c name F D"
  shows "keeps M F D (memfs_remove c name w)"
proof -
  have m: "mem_ok w" and o: "out_ok w M F D" using assms(1) by (simp_all add: memfs_inv_def)
  obtain t where t: "mm_fs w c = Some t" using inv_mount [OF assms(1,2)] by blast
  note g = mem_okD [OF m t]
  obtain r where r: "find_file (mm_file w) (trim_name name) (mf_files t) = Some r"
    "case r of None \<Rightarrow> \<forall>f\<in>set (mf_files t). file_name w f \<noteq> Some (trim_name name) | Some f \<Rightarrow> f \<in> set (mf_files t) \<and> file_name w f = Some (trim_name name)"
    using find_in_fs [OF m t] by blast
  show ?thesis
  proof (cases r)
    case None
    then show ?thesis using t r(1) assms(1) by (simp add: memfs_remove_def)
  next
    case (Some f)
    then have f: "f \<in> set (mf_files t)" "mm_file w f \<noteq> None" using r(2) g(3) [of f] by (auto simp: file_good_def)
    let ?t = "t\<lparr>mf_files := remove1 f (mf_files t)\<rparr>"
    let ?w = "w\<lparr>mm_fs := (mm_fs w)(c \<mapsto> ?t), mm_file := (mm_file w)(f := None)\<rparr>"
    have e: "memfs_remove c name w = Some (0, ?w)" using t r(1) Some f(2) by (auto simp: memfs_remove_def free_file_def)
    have no: "F k \<noteq> Some (j, f)" "D k = Some (j, d) \<Longrightarrow> mm_dir w d = Some dr \<Longrightarrow> d_next dr \<noteq> Some f" for k j d dr
      using assms(3) t r(1) Some by (auto simp: memfs_removable_def mem_files_def)
    have "fs_good w c ?t" using m t unfolding mem_ok_def fs_good_def by (auto simp: inj_on_def dest: notin_set_remove1)
    then have "fs_good ?w c ?t" by (rule fs_good_keep) (use g(2) in \<open>auto simp: file_good_def file_name_def\<close>)
    moreover have "fs_good ?w c' t'" if "mm_fs w c' = Some t'" "c' \<noteq> c" for c' t'
      by (rule fs_good_other [OF m that(1) _ that(2)]) (use g(3) f in \<open>auto split: if_splits\<close>)
    ultimately have "mem_ok ?w" using m g(1) unfolding mem_ok_def by auto
    moreover have "out_ok ?w M F D"
    proof -
      note o' = o [unfolded out_ok_def]
      have fl: "x \<in> set (mem_files ?w c')" if "x \<in> set (mem_files w c')" "x \<noteq> f" for x c' using that t by (auto simp: mem_files_def)
      have dr: "dir_good ?w c' d" if "D k = Some (j, d)" "dir_good w c' d" for k j c' d using that(2) no(2) [OF that(1)] t by (auto simp: dir_good_def)
      have "\<forall>k j x. F k = Some (j, x) \<longrightarrow> (\<exists>c'. M j = Some c' \<and> x \<in> set (mem_files ?w c'))" using o' no(1) fl by metis
      moreover have "\<forall>k j d. D k = Some (j, d) \<longrightarrow> (\<exists>c'. M j = Some c' \<and> dir_good ?w c' d)" using o' dr by metis
      ultimately show ?thesis using o' unfolding out_ok_def by simp
    qed
    ultimately show ?thesis using e by (simp add: memfs_inv_def)
  qed
qed

section \<open>Directories\<close>

lemma good_dirs [simp]: "file_name (w\<lparr>mm_dir := x\<rparr>) = file_name w" "file_good (w\<lparr>mm_dir := x\<rparr>) = file_good w" "fs_good (w\<lparr>mm_dir := x\<rparr>) = fs_good w"
  by (simp_all add: fun_eq_iff file_name_def file_good_def fs_good_def inj_on_def)

lemma good_fs [simp]: "file_name (w\<lparr>mm_fs := x\<rparr>) = file_name w" "file_good (w\<lparr>mm_fs := x\<rparr>) = file_good w" "fs_good (w\<lparr>mm_fs := x\<rparr>) = fs_good w"
  "fs_good w c (t\<lparr>mf_dcookies := y\<rparr>) = fs_good w c t"
  by (simp_all add: fun_eq_iff file_name_def file_good_def fs_good_def inj_on_def)

text \<open>Changing the directory cookies of one file system.\<close>

lemma mem_ok_dirs:
  assumes "mem_ok w" and "mm_fs w c = Some t" and "\<And>d. dirs d \<noteq> None \<Longrightarrow> d < mm_allocs w"
  shows "mem_ok (w\<lparr>mm_fs := (mm_fs w)(c \<mapsto> t\<lparr>mf_dcookies := y\<rparr>), mm_dir := dirs\<rparr>)"
  using assms unfolding mem_ok_def by auto

lemma opendir_opens:
  assumes "memfs_inv w M F D" and "M i = Some c" and "D k = None"
  shows "\<exists>x w'. memfs_opendir c name w = Some (x, w') \<and> (case x of Inl _ \<Rightarrow> memfs_inv w' M F D | Inr d \<Rightarrow> memfs_inv w' M F (D(k \<mapsto> (i, d))))"
proof (cases "trim_name name \<noteq> [] \<or> mm_oom w (mm_allocs w)")
  case True
  then show ?thesis using assms(1) memfs_inv_allocs [OF assms(1), of "Suc (mm_allocs w)"] by (auto simp: memfs_opendir_def m_alloc_def Let_def)
next
  case False
  let ?d = "mm_allocs w"
  obtain t where t: "mm_fs w c = Some t" using inv_mount [OF assms(1,2)] by blast
  have m: "mem_ok w" and o: "out_ok w M F D" using assms(1) by (simp_all add: memfs_inv_def)
  let ?dir = "\<lparr>d_fs = c, d_next = (case mf_files t of [] \<Rightarrow> None | f # _ \<Rightarrow> Some f)\<rparr>"
  let ?v = "w\<lparr>mm_allocs := Suc ?d\<rparr>"
  let ?w = "?v\<lparr>mm_fs := (mm_fs w)(c \<mapsto> t\<lparr>mf_dcookies := ?d # mf_dcookies t\<rparr>), mm_dir := (mm_dir w)(?d \<mapsto> ?dir)\<rparr>"
  have m': "mem_ok ?v" using mem_ok_allocs [OF m] by simp
  have "d < Suc ?d" if "((mm_dir w)(?d \<mapsto> ?dir)) d \<noteq> None" for d
    using that m by (auto simp: mem_ok_def less_SucI split: if_splits)
  then have "mem_ok ?w" using mem_ok_dirs [OF m', of c t "(mm_dir w)(?d \<mapsto> ?dir)" "?d # mf_dcookies t"] t by simp
  moreover have "out_ok ?w M F (D(k \<mapsto> (i, ?d)))"
  proof -
    have fresh: "mm_dir w ?d = None" using mem_ok_fresh [OF m] by simp
    then have no: "D k' \<noteq> Some (j, ?d)" for k' j using o unfolding out_ok_def dir_good_def by fastforce
    have "dir_good w c' d \<Longrightarrow> dir_good ?w c' d" for c' d using fresh t by (auto simp: dir_good_def)
    then have o': "out_ok ?w M F D" using t by (intro out_ok_mono [OF o]) (auto simp: mem_files_def)
    have "dir_good ?w c ?d" by (auto simp: dir_good_def split: list.splits)
    then show ?thesis using o' assms(2) no unfolding out_ok_def by (auto split: if_splits)
  qed
  moreover have "memfs_opendir c name w = Some (Inr ?d, ?w)" using False t by (simp add: memfs_opendir_def m_alloc_def)
  ultimately show ?thesis by (simp add: memfs_inv_def)
qed

lemma next_in_mem: "next_in x xs = Some y \<Longrightarrow> y \<in> set xs"
  by (induction x xs rule: next_in.induct) (auto split: if_splits list.splits)

lemma readdir_keeps:
  assumes "memfs_inv w M F D" and "D k = Some (i, d)"
  shows "keeps M F D (memfs_readdir d ent w)"
proof (cases ent)
  case False
  then show ?thesis using assms(1) by (simp add: memfs_readdir_def)
next
  case True
  have m: "mem_ok w" and o: "out_ok w M F D" using assms(1) by (simp_all add: memfs_inv_def)
  from assms obtain c t dr where d: "mm_fs w c = Some t" "mm_dir w d = Some dr" "d_fs dr = c" "\<And>f. d_next dr = Some f \<Longrightarrow> f \<in> set (mf_files t)"
    by (rule open_dir_good) blast
  show ?thesis
  proof (cases "d_next dr")
    case None
    then show ?thesis using assms(1) d True by (simp add: memfs_readdir_def)
  next
    case (Some f)
    then have "file_good w c f" using d(4) mem_okD(3) [OF m d(1)] by blast
    then obtain fl nm where f: "mm_file w f = Some fl" "f_name fl = Some nm" by (auto simp: file_good_def)
    let ?w = "w\<lparr>mm_dir := (mm_dir w)(d \<mapsto> dr\<lparr>d_next := next_in f (mf_files t)\<rparr>)\<rparr>"
    have "mem_ok ?w" using m d(2) unfolding mem_ok_def by auto
    moreover have "dir_good w c' d' \<Longrightarrow> dir_good ?w c' d'" for c' d' using d next_in_mem by (fastforce simp: dir_good_def)
    then have "out_ok ?w M F D" by (intro out_ok_mono [OF o]) (auto simp: mem_files_def)
    ultimately show ?thesis using d Some f True by (simp add: memfs_readdir_def memfs_inv_def)
  qed
qed

lemma closedir_keeps:
  assumes "memfs_inv w M F D" and "D k = Some (i, d)"
  shows "\<exists>w'. memfs_closedir d w = Some (0, w') \<and> memfs_inv w' M F (D(k := None))"
proof -
  have m: "mem_ok w" and o: "out_ok w M F D" using assms(1) by (simp_all add: memfs_inv_def)
  from assms obtain c t dr where d: "mm_fs w c = Some t" "mm_dir w d = Some dr" "d_fs dr = c" by (rule open_dir_good) blast
  let ?w = "w\<lparr>mm_fs := (mm_fs w)(c \<mapsto> t\<lparr>mf_dcookies := remove1 d (mf_dcookies t)\<rparr>), mm_dir := (mm_dir w)(d := None)\<rparr>"
  have "d' < mm_allocs w" if "((mm_dir w)(d := None)) d' \<noteq> None" for d' using that m by (auto simp: mem_ok_def split: if_splits)
  then have "mem_ok ?w" using mem_ok_dirs [OF m d(1)] by blast
  moreover have "out_ok ?w M F (D(k := None))"
  proof -
    note o' = o [unfolded out_ok_def]
    have fl: "set (mem_files ?w c') = set (mem_files w c')" for c' using d(1) by (auto simp: mem_files_def)
    have dg: "dir_good ?w c' d'" if "dir_good w c' d'" "d' \<noteq> d" for c' d' using that d(1) by (auto simp: dir_good_def)
    have "\<forall>k' j d'. (D(k := None)) k' = Some (j, d') \<longrightarrow> (\<exists>c'. M j = Some c' \<and> dir_good ?w c' d')"
    proof (intro allI impI)
      fix k' j d' assume a: "(D(k := None)) k' = Some (j, d')"
      then have k': "D k' = Some (j, d')" "k' \<noteq> k" by (auto split: if_splits)
      then have "d' \<noteq> d" using o' assms(2) by metis
      then show "\<exists>c'. M j = Some c' \<and> dir_good ?w c' d'" using o' k'(1) dg by meson
    qed
    moreover have "\<forall>k1 k2 i1 i2 d'. (D(k := None)) k1 = Some (i1, d') \<longrightarrow> (D(k := None)) k2 = Some (i2, d') \<longrightarrow> k1 = k2"
      using o' by (metis fun_upd_apply option.distinct(1))
    moreover have "\<forall>j c'. M j = Some c' \<longrightarrow> mm_fs ?w c' \<noteq> None" using o' by simp
    ultimately show ?thesis using o' unfolding out_ok_def fl by blast
  qed
  ultimately show ?thesis using d by (simp add: memfs_closedir_def memfs_inv_def)
qed

section \<open>The memory file system keeps the contract\<close>

lemma act_on_mem: "act_ok (on_mem h) (b, w) Q \<longleftrightarrow> (\<exists>r w'. h w = Some (r, w') \<and> Q r w')"
  by (auto simp: act_ok_def on_mem_def same_refs_def)

interpretation memfs: fs_driver memfs_api memfs_inv memfs_removable memfs_fits
proof (unfold_locales, goal_cases)
  case (1 w M F D i dev b)
  then show ?case using mount_opens [of w M F D i dev] by (simp add: memfs_api_def act_on_mem)
next
  case (3 w M F D i c b)
  then show ?case using unmount_keeps [of w M F D i c] by (simp add: memfs_api_def act_on_mem keeps_def)
next
  case (4 w M F D i c k p b)
  then show ?case using open_opens [of w M F D i c k p] by (simp add: memfs_api_def act_on_mem opens_def)
next
  case (5 w M F D i c k hc p len b)
  then show ?case using create_opens [of w M F D i c k p len] by (auto simp: memfs_api_def act_on_mem opens_def)
next
  case (6 w M F D i c k ho p b)
  then show ?case using opendir_opens [of w M F D i c k p] by (auto simp: memfs_api_def act_on_mem)
next
  case (7 w M F D i c p hr b)
  then show ?case using remove_keeps [of w M F D i c p] by (auto simp: memfs_api_def act_on_mem keeps_def)
next
  case (10 w M F D k i f off len b)
  then show ?case using read_keeps [of w M F D k i f off len] by (auto simp: memfs_api_def act_on_mem keeps_def)
next
  case (11 w M F D k i f off len buf hw b)
  then show ?case using write_keeps [of w M F D k i f off len buf] by (auto simp: memfs_api_def act_on_mem keeps_def)
next
  case (12 w M F D k i f len b)
  then show ?case using truncate_keeps [of w M F D k i f len] by (auto simp: memfs_api_def act_on_mem keeps_def)
next
  case (13 w M F D k i f sto b)
  then show ?case using stat_keeps [of w M F D k i f sto] by (auto simp: memfs_api_def act_on_mem)
next
  case (15 w M F D k i f b)
  have "memfs_inv w M (F(k := None)) D" using 15 by (auto simp: memfs_inv_def out_ok_def)
  then show ?case by (simp add: memfs_api_def act_on_mem memfs_close_def)
next
  case (16 w M F D k i f hrd b)
  then show ?case using readdir_keeps [of w M F D k i f True] by (auto simp: memfs_api_def act_on_mem keeps_def)
next
  case (17 w M F D k i f hcd b)
  then show ?case using closedir_keeps [of w M F D k i f] by (auto simp: memfs_api_def act_on_mem)
qed (simp_all add: memfs_api_def)

section \<open>A file system is a map from names to bytes\<close>

definition content :: "memw \<Rightarrow> nat \<Rightarrow> u8 list" where
  "content w f = (case mm_file w f of None \<Rightarrow> [] | Some fl \<Rightarrow> take (f_len fl) (f_ptr fl))"

definition dir_map :: "memw \<Rightarrow> nat \<Rightarrow> string \<Rightarrow> u8 list option" where
  "dir_map w c nm = (case find_file (mm_file w) nm (mem_files w c) of Some (Some f) \<Rightarrow> Some (content w f) | _ \<Rightarrow> None)"

lemma content_allocs [simp]: "content (w\<lparr>mm_allocs := n\<rparr>) = content w" "mem_files (w\<lparr>mm_allocs := n\<rparr>) = mem_files w"
  by (simp_all add: content_def mem_files_def fun_eq_iff)

lemma dir_map_allocs [simp]: "dir_map (w\<lparr>mm_allocs := n\<rparr>) = dir_map w"
  by (simp add: dir_map_def fun_eq_iff split: option.splits)

text \<open>In a good state a name is that of one file at most.\<close>

lemma same_name:
  assumes "mem_ok w" and "mm_fs w c = Some t" and "f \<in> set (mf_files t)" and "g \<in> set (mf_files t)" and "file_name w f = Some nm" and "file_name w g = Some nm"
  shows "g = f"
  using inj_onD [OF mem_okD(4) [OF assms(1,2)], of g f] assms(3-6) by simp

lemma find_unique:
  assumes "mem_ok w" and "mm_fs w c = Some t" and "f \<in> set (mf_files t)" and "file_name w f = Some nm"
  shows "find_file (mm_file w) nm (mf_files t) = Some (Some f)"
proof -
  obtain r where r: "find_file (mm_file w) nm (mf_files t) = Some r"
    "case r of None \<Rightarrow> \<forall>f\<in>set (mf_files t). file_name w f \<noteq> Some nm | Some f \<Rightarrow> f \<in> set (mf_files t) \<and> file_name w f = Some nm"
    using find_in_fs [OF assms(1,2)] by blast
  then obtain g where "r = Some g" using assms(3,4) by (cases r) auto
  moreover have "g = f" using r(2) calculation same_name [OF assms(1-3) _ assms(4)] by simp
  ultimately show ?thesis using r(1) by simp
qed

lemma dir_map_file:
  assumes "mem_ok w" and "mm_fs w c = Some t" and "f \<in> set (mf_files t)" and "file_name w f = Some nm"
  shows "dir_map w c nm = Some (content w f)"
  using find_unique [OF assms] assms(2) by (simp add: dir_map_def mem_files_def)

lemma dir_map_none:
  assumes "mem_ok w" and "mm_fs w c = Some t"
  shows "dir_map w c nm = None \<longleftrightarrow> (\<forall>f\<in>set (mf_files t). file_name w f \<noteq> Some nm)"
proof
  assume "dir_map w c nm = None"
  then show "\<forall>f\<in>set (mf_files t). file_name w f \<noteq> Some nm" using dir_map_file [OF assms] by fastforce
next
  assume a: "\<forall>f\<in>set (mf_files t). file_name w f \<noteq> Some nm"
  obtain r where "find_file (mm_file w) nm (mf_files t) = Some r"
    "case r of None \<Rightarrow> \<forall>f\<in>set (mf_files t). file_name w f \<noteq> Some nm | Some f \<Rightarrow> f \<in> set (mf_files t) \<and> file_name w f = Some nm"
    using find_in_fs [OF assms] by blast
  then show "dir_map w c nm = None" using a assms(2) by (cases r) (auto simp: dir_map_def mem_files_def)
qed

text \<open>The map of a state from its files.\<close>

lemma dir_map_iff: "mem_ok w \<Longrightarrow> mm_fs w c = Some t \<Longrightarrow> (\<exists>f\<in>set (mf_files t). file_name w f = Some nm \<and> content w f = x) \<longleftrightarrow> dir_map w c nm = Some x"
  using dir_map_file [of w c t] dir_map_none [of w c t nm] by (metis option.distinct(1) option.inject)

lemma dir_mapI:
  assumes "mem_ok w" and "mm_fs w c = Some t" and "\<And>nm x. (\<exists>f\<in>set (mf_files t). file_name w f = Some nm \<and> content w f = x) \<longleftrightarrow> m nm = Some x"
  shows "dir_map w c = m"
  using assms(3) dir_map_iff [OF assms(1,2)] by (metis (no_types, opaque_lifting) ext not_Some_eq)

text \<open>Another file in a file system.\<close>

lemma dir_map_add:
  assumes "mem_ok w" and "mm_fs w c = Some t" and "mem_ok (add_file c t f fl w)" and "mm_file w f = None" and "f_name fl = Some nm"
  shows "dir_map (add_file c t f fl w) c = (dir_map w c)(nm \<mapsto> take (f_len fl) (f_ptr fl))"
proof (rule dir_mapI [OF assms(3)])
  let ?w = "add_file c t f fl w"
  show "mm_fs ?w c = Some (t\<lparr>mf_files := mf_files t @ [f]\<rparr>)" by (simp add: add_file_def)
  fix n x
  have fn: "f \<notin> set (mf_files t)" using mem_okD(3) [OF assms(1,2), of f] assms(4) by (auto simp: file_good_def)
  have old: "file_name ?w g = file_name w g" "content ?w g = content w g" if "g \<in> set (mf_files t)" for g
    using that fn by (auto simp: add_file_def file_name_def content_def)
  have new: "file_name ?w f = Some nm" "content ?w f = take (f_len fl) (f_ptr fl)" using assms(5) by (simp_all add: add_file_def file_name_def content_def)
  have u: "\<forall>g\<in>set (mf_files t). file_name w g \<noteq> Some nm"
  proof (rule ccontr)
    assume "\<not> (\<forall>g\<in>set (mf_files t). file_name w g \<noteq> Some nm)"
    then obtain g where "g \<in> set (mf_files t)" "file_name ?w g = Some nm" using old(1) by auto
    then show False using same_name [OF assms(3), of c "t\<lparr>mf_files := mf_files t @ [f]\<rparr>" f g nm] new(1) fn by (auto simp: add_file_def)
  qed
  show "(\<exists>g\<in>set (mf_files (t\<lparr>mf_files := mf_files t @ [f]\<rparr>)). file_name ?w g = Some n \<and> content ?w g = x) \<longleftrightarrow>
      ((dir_map w c)(nm \<mapsto> take (f_len fl) (f_ptr fl))) n = Some x"
    using old new u dir_map_iff [OF assms(1,2), of n x] by auto
qed

text \<open>Other bytes in a file.\<close>

lemma dir_map_upd:
  assumes "mem_ok w" and "mm_fs w c = Some t" and "f \<in> set (mf_files t)" and "mm_file w f = Some fl" and "f_fs fl' = f_fs fl" and "f_name fl' = f_name fl"
    and "f_len fl' \<le> length (f_ptr fl')" and "f_name fl = Some nm"
  shows "dir_map (w\<lparr>mm_file := (mm_file w)(f \<mapsto> fl')\<rparr>) c = (dir_map w c)(nm \<mapsto> take (f_len fl') (f_ptr fl'))"
proof (rule dir_mapI)
  let ?w = "w\<lparr>mm_file := (mm_file w)(f \<mapsto> fl')\<rparr>"
  show "mem_ok ?w" by (rule mem_ok_upd_file [OF assms(1,4-7)])
  show "mm_fs ?w c = Some t" using assms(2) by simp
  fix n x
  have name: "file_name ?w g = file_name w g" for g using assms(4,6) by (simp add: file_name_def)
  have cont: "content ?w g = (if g = f then take (f_len fl') (f_ptr fl') else content w g)" for g by (simp add: content_def)
  have fnm: "file_name w f = Some nm" using assms(4,8) by (simp add: file_name_def)
  have uniq: "g \<in> set (mf_files t) \<Longrightarrow> file_name w g = Some nm \<Longrightarrow> g = f" for g using same_name [OF assms(1-3) _ fnm] by blast
  show "(\<exists>g\<in>set (mf_files t). file_name ?w g = Some n \<and> content ?w g = x) \<longleftrightarrow> ((dir_map w c)(nm \<mapsto> take (f_len fl') (f_ptr fl'))) n = Some x"
  proof (cases "n = nm")
    case True
    have "(\<exists>g\<in>set (mf_files t). file_name w g = Some nm \<and> content ?w g = x) \<longleftrightarrow> content ?w f = x" using uniq fnm assms(3) by blast
    then show ?thesis using True by (simp add: name cont)
  next
    case False
    have "(\<exists>g\<in>set (mf_files t). file_name w g = Some n \<and> content ?w g = x) \<longleftrightarrow> (\<exists>g\<in>set (mf_files t). file_name w g = Some n \<and> content w g = x)"
      using fnm False by (intro bex_cong refl) (auto simp: cont)
    then show ?thesis using False dir_map_iff [OF assms(1,2), of n x] by (simp add: name)
  qed
qed

text \<open>One file less.\<close>

lemma dir_map_remove:
  assumes "mem_ok w" and "mm_fs w c = Some t" and "f \<in> set (mf_files t)" and "file_name w f = Some nm"
    and "w' = w\<lparr>mm_fs := (mm_fs w)(c \<mapsto> t\<lparr>mf_files := remove1 f (mf_files t)\<rparr>), mm_file := (mm_file w)(f := None)\<rparr>" and "mem_ok w'"
  shows "dir_map w' c = (dir_map w c)(nm := None)"
proof (rule dir_mapI [OF assms(6)])
  show "mm_fs w' c = Some (t\<lparr>mf_files := remove1 f (mf_files t)\<rparr>)" by (simp add: assms(5))
  fix n x
  have uniq: "g \<in> set (mf_files t) \<Longrightarrow> file_name w g = Some nm \<Longrightarrow> g = f" for g using same_name [OF assms(1-3) _ assms(4)] by blast
  have same: "file_name w' g = file_name w g" "content w' g = content w g" if "g \<noteq> f" for g using that by (simp_all add: assms(5) file_name_def content_def)
  have s: "set (remove1 f (mf_files t)) = set (mf_files t) - {f}" using mem_okD(2) [OF assms(1,2)] by simp
  show "(\<exists>g\<in>set (mf_files (t\<lparr>mf_files := remove1 f (mf_files t)\<rparr>)). file_name w' g = Some n \<and> content w' g = x) \<longleftrightarrow> ((dir_map w c)(nm := None)) n = Some x"
  proof (cases "n = nm")
    case True
    then show ?thesis using uniq same(1) by (auto simp: s)
  next
    case False
    have "(\<exists>g\<in>set (mf_files t) - {f}. file_name w' g = Some n \<and> content w' g = x) \<longleftrightarrow> (\<exists>g\<in>set (mf_files t). file_name w g = Some n \<and> content w g = x)"
      using same assms(4) False by auto
    then show ?thesis using False dir_map_iff [OF assms(1,2), of n x] by (simp add: s)
  qed
qed

section \<open>The calls on names\<close>

lemma create_outcome:
  assumes "mem_ok w" and "mm_fs w c = Some t"
  shows "\<exists>r w'. memfs_create c name len w = Some (r, w') \<and>
    (if 2 ^ 64 - 1 \<le> len then r = Inl ERR_NO_MEMORY \<and> w' = w
     else if CHR ''/'' \<in> set (trim_name name) then r = Inl ERR_NOT_SUPPORTED \<and> w' = w
     else if dir_map w c (trim_name name) \<noteq> None then r = Inl ERR_ALREADY_EXISTS \<and> w' = w
     else if mm_oom w (mm_allocs w) \<or> mm_oom w (Suc (mm_allocs w)) then r = Inl ERR_NO_MEMORY \<and> dir_map w' c = dir_map w c
     else \<exists>f. r = Inr f \<and> dir_map w' c = (dir_map w c)(trim_name name \<mapsto> replicate len 0) \<and>
         mem_files w' c = mem_files w c @ [f] \<and> file_name w' f = Some (trim_name name) \<and> mem_ok w' \<and> mm_oom w' = mm_oom w)"
proof -
  let ?nm = "trim_name name" and ?n = "mm_allocs w"
  obtain r where r: "find_file (mm_file w) ?nm (mf_files t) = Some r"
    "case r of None \<Rightarrow> \<forall>f\<in>set (mf_files t). file_name w f \<noteq> Some ?nm | Some f \<Rightarrow> f \<in> set (mf_files t) \<and> file_name w f = Some ?nm"
    using find_in_fs [OF assms] by blast
  have there: "dir_map w c ?nm = None \<longleftrightarrow> r = None"
    using r(2) dir_map_file [OF assms] dir_map_none [OF assms] by (cases r) fastforce+
  have dup: "\<not> mm_no_name w n" for n using assms(1) by (auto simp: mem_ok_def)
  show ?thesis
  proof (cases "2 ^ 64 - 1 \<le> len \<or> CHR ''/'' \<in> set ?nm \<or> r \<noteq> None \<or> mm_oom w ?n \<or> mm_oom w (Suc ?n)")
    case True
    then show ?thesis using assms(2) r(1) unfolding there by (auto simp: memfs_create_def m_alloc_def Let_def)
  next
    case new: False
    let ?v = "w\<lparr>mm_allocs := Suc (Suc (Suc ?n))\<rparr>" and ?fl = "\<lparr>f_fs = c, f_name = Some ?nm, f_ptr = replicate len 0, f_len = len\<rparr>"
    have v: "mem_ok ?v" "mm_fs ?v c = Some t" "mm_file ?v ?n = None" using mem_ok_allocs [OF assms(1)] assms(2) mem_ok_fresh [OF assms(1), of ?n] by simp_all
    have u: "\<forall>g\<in>set (mf_files t). file_name ?v g \<noteq> Some ?nm" using r(2) new by simp
    have g: "mem_ok (add_file c t ?n ?fl ?v)" by (rule add_file_good [OF v(1-3)]) (use u in simp_all)
    have "dir_map (add_file c t ?n ?fl ?v) c = (dir_map w c)(?nm \<mapsto> replicate len 0)" using dir_map_add [OF v(1,2) g v(3), of ?nm] by simp
    moreover have "memfs_create c name len w = Some (Inr ?n, add_file c t ?n ?fl ?v)"
      using new assms(2) r(1) dup by (simp add: memfs_create_def m_alloc_def m_strdup_def add_file_def Let_def)
    moreover have "mem_files (add_file c t ?n ?fl ?v) c = mem_files w c @ [?n]" "file_name (add_file c t ?n ?fl ?v) ?n = Some ?nm"
      using assms(2) by (simp_all add: mem_files_def add_file_def file_name_def)
    ultimately show ?thesis using g new there by (simp add: add_file_def)
  qed
qed

lemma open_outcome:
  assumes "mem_ok w" and "mm_fs w c = Some t"
  shows "\<exists>r. memfs_open c name w = Some (r, w) \<and>
    (case r of Inl e \<Rightarrow> e = ERR_NOT_FOUND \<and> dir_map w c (trim_name name) = None
     | Inr f \<Rightarrow> f \<in> set (mem_files w c) \<and> file_name w f = Some (trim_name name) \<and> dir_map w c (trim_name name) = Some (content w f))"
proof -
  obtain r where r: "find_file (mm_file w) (trim_name name) (mf_files t) = Some r"
    "case r of None \<Rightarrow> \<forall>f\<in>set (mf_files t). file_name w f \<noteq> Some (trim_name name) | Some f \<Rightarrow> f \<in> set (mf_files t) \<and> file_name w f = Some (trim_name name)"
    using find_in_fs [OF assms] by blast
  show ?thesis
  proof (cases r)
    case None
    then show ?thesis using r assms(2) dir_map_none [OF assms] by (simp add: memfs_open_def)
  next
    case (Some f)
    then show ?thesis using r assms(2) dir_map_file [OF assms, of f "trim_name name"] by (simp add: memfs_open_def mem_files_def)
  qed
qed

lemma remove_outcome:
  assumes "memfs_inv w M F D" and "M i = Some c" and "memfs_removable w c name F D"
  shows "\<exists>e w'. memfs_remove c name w = Some (e, w') \<and> dir_map w' c = (dir_map w c)(trim_name name := None) \<and>
    e = (if dir_map w c (trim_name name) = None then ERR_NOT_FOUND else 0)"
proof -
  let ?nm = "trim_name name"
  have m: "mem_ok w" using assms(1) by (simp add: memfs_inv_def)
  obtain t where t: "mm_fs w c = Some t" using inv_mount [OF assms(1,2)] by blast
  obtain e w' where w': "memfs_remove c name w = Some (e, w')" "memfs_inv w' M F D" using remove_keeps [OF assms] by (auto simp: keeps_def)
  obtain r where r: "find_file (mm_file w) ?nm (mf_files t) = Some r"
    "case r of None \<Rightarrow> \<forall>f\<in>set (mf_files t). file_name w f \<noteq> Some ?nm | Some f \<Rightarrow> f \<in> set (mf_files t) \<and> file_name w f = Some ?nm"
    using find_in_fs [OF m t] by blast
  show ?thesis
  proof (cases r)
    case None
    then show ?thesis using r t dir_map_none [OF m t, of ?nm] by (simp add: memfs_remove_def fun_upd_idem)
  next
    case (Some f)
    then have f: "f \<in> set (mf_files t)" "file_name w f = Some ?nm" using r(2) by simp_all
    then have "mm_file w f \<noteq> None" by (cases "mm_file w f") (auto simp: file_name_def)
    then have e: "e = 0" "w' = w\<lparr>mm_fs := (mm_fs w)(c \<mapsto> t\<lparr>mf_files := remove1 f (mf_files t)\<rparr>), mm_file := (mm_file w)(f := None)\<rparr>"
      using w'(1) r(1) t Some by (auto simp: memfs_remove_def free_file_def)
    have "mem_ok w'" using w'(2) by (simp add: memfs_inv_def)
    then show ?thesis using w'(1) e dir_map_remove [OF m t f e(2)] dir_map_file [OF m t f] by simp
  qed
qed

section \<open>The calls on the bytes of a file\<close>

lemma read_outcome:
  assumes "mm_file w f = Some fl" and "mm_fs w (f_fs fl) \<noteq> None" and "f_len fl \<le> length (f_ptr fl)" and "0 \<le> off" and "memfs_fits off len"
  shows "memfs_read f off len w = Some ((int (min len (length (content w f) - nat off)), take len (drop (nat off) (content w f))), w)"
proof -
  have u: "u64_add off len = nat off + len" using u64_add_fits [OF assms(5,4)] .
  have c: "content w f = take (f_len fl) (f_ptr fl)" "length (content w f) = f_len fl" using assms(1,3) by (simp_all add: content_def)
  let ?n = "if nat off \<ge> f_len fl then 0 else if u64_add off len > f_len fl then f_len fl - nat off else len"
  have n: "?n = min len (f_len fl - nat off)" using u by auto
  have "take len (drop (nat off) (content w f)) = take ?n (drop (nat off) (f_ptr fl))"
    using assms(3) by (simp add: n c(1) drop_take min.commute)
  then show ?thesis
    using assms(1-4) n c(2) by (auto simp: memfs_read_def mem_read_def seg_def Let_def)
qed

lemma take_realloc:
  assumes "m_realloc old n w = (Some p, w')" and "k \<le> length old" and "k \<le> n"
  shows "take k p = take k old"
  using assms by (auto simp: m_realloc_def min_def split: if_splits)

text \<open>What a write leaves in a file of the bytes \<open>old\<close>: the new bytes at their place, the old ones elsewhere; bytes between the end and the offset are unspecified.\<close>

definition written :: "u8 list \<Rightarrow> nat \<Rightarrow> u8 list \<Rightarrow> u8 list \<Rightarrow> bool" where
  "written old off data new \<longleftrightarrow> length new = max (length old) (off + length data) \<and> seg off (length data) new = data \<and>
     (\<forall>j<length old. j < off \<or> off + length data \<le> j \<longrightarrow> new ! j = old ! j)"

lemma written_patch:
  assumes "n = max k (off + length data)" and "n \<le> length p" and "k \<le> length q" and "take k p = take k q"
  shows "written (take k q) off data (take n (patch off data p))"
proof -
  have l: "off + length data \<le> length p" using assms(1,2) by simp
  have n: "n \<le> length (patch off data p)" using assms(2) l by simp
  have "seg off (length data) (take n (patch off data p)) = data"
    by (rule nth_equalityI) (use assms(1,2) l n in \<open>auto simp: nth_patch\<close>)
  moreover have "take n (patch off data p) ! j = take k q ! j" if "j < k" "j < off \<or> off + length data \<le> j" for j
  proof -
    have "take k p ! j = take k q ! j" using assms(4) by simp
    then show ?thesis using that assms(1-3) l by (auto simp: nth_patch)
  qed
  ultimately show ?thesis using assms(1,3) n by (simp add: written_def)
qed


text \<open>The last step of a write, on a block \<open>p\<close> that begins with the old bytes.\<close>

lemma write_final:
  assumes "mem_ok w" and "mm_fs w c = Some t" and "f \<in> set (mf_files t)" and fl: "mm_file w f = Some fl" "f_name fl = Some nm" "f_len fl \<le> length (f_ptr fl)"
    and n: "n = max (f_len fl) (off + length data)"
    and p: "n \<le> length p" "take (f_len fl) p = take (f_len fl) (f_ptr fl)" and a: "mm_allocs w \<le> a"
    and w': "w' = w\<lparr>mm_allocs := a, mm_file := (mm_file w)(f \<mapsto> fl\<lparr>f_len := n, f_ptr := patch off data p\<rparr>)\<rparr>"
  shows "dir_map w' c = (dir_map w c)(nm \<mapsto> content w' f) \<and> mem_ok w' \<and> mm_fs w' = mm_fs w \<and> file_name w' = file_name w \<and> mm_oom w' = mm_oom w \<and>
    written (content w f) off data (content w' f)"
proof -
  let ?fl = "fl\<lparr>f_len := n, f_ptr := patch off data p\<rparr>" and ?v = "w\<lparr>mm_allocs := a\<rparr>"
  have l: "off + length data \<le> length p" using p(1) n by simp
  have v: "mem_ok ?v" "mm_fs ?v c = Some t" "mm_file ?v f = Some fl" using mem_ok_allocs [OF assms(1) a] assms(2) fl(1) by simp_all
  have le: "f_len ?fl \<le> length (f_ptr ?fl)" using p(1) l by simp
  have e: "w' = ?v\<lparr>mm_file := (mm_file ?v)(f \<mapsto> ?fl)\<rparr>" by (simp add: w')
  have "content w' f = take n (patch off data p)" by (simp add: w' content_def)
  moreover have "dir_map w' c = (dir_map w c)(nm \<mapsto> take n (patch off data p))"
    using dir_map_upd [OF v(1,2) assms(3) v(3) _ _ le fl(2)] by (simp add: e)
  moreover have "mem_ok w'" using mem_ok_upd_file [OF v(1,3) _ _ le] by (simp add: e)
  moreover have "file_name w' = file_name w" using fl(1) by (simp add: w' file_name_def fun_eq_iff)
  moreover have "written (take (f_len fl) (f_ptr fl)) off data (take n (patch off data p))" by (rule written_patch [OF n p(1) fl(3) p(2)])
  moreover have "content w f = take (f_len fl) (f_ptr fl)" using fl(1) by (simp add: content_def)
  ultimately show ?thesis by (simp add: w')
qed

lemma write_outcome:
  assumes "mem_ok w" and "mm_fs w c = Some t" and "f \<in> set (mf_files t)" and "file_name w f = Some nm" and "0 \<le> off" and "memfs_fits off len" and "len \<le> length buf"
  shows "\<exists>r w'. memfs_write f buf off len w = Some (r, w') \<and>
    (if r < 0 then r = ERR_NO_MEMORY \<and> dir_map w' c = dir_map w c \<and> (\<exists>n. mm_oom w n)
     else r = int len \<and> written (content w f) (nat off) (take len buf) (content w' f) \<and> dir_map w' c = (dir_map w c)(nm \<mapsto> content w' f) \<and>
       mem_ok w' \<and> mm_fs w' = mm_fs w \<and> file_name w' = file_name w \<and> mm_oom w' = mm_oom w)"
proof -
  obtain fl where fl: "mm_file w f = Some fl" "f_fs fl = c" "f_name fl = Some nm" "f_len fl \<le> length (f_ptr fl)"
    using mem_okD(3) [OF assms(1-3)] assms(4) by (auto simp: file_good_def file_name_def)
  have u: "u64_add off len = nat off + len" using u64_add_fits [OF assms(6,5)] .
  have b: "mem_read 0 len buf = Some (take len buf)" using assms(7) by (simp add: mem_read_def seg_def)
  let ?n = "max (f_len fl) (nat off + len)"
  have n: "?n = max (f_len fl) (nat off + length (take len buf))" using assms(7) by simp
  show ?thesis
  proof (cases "nat off + len > f_len fl")
    case False
    let ?w = "w\<lparr>mm_file := (mm_file w)(f \<mapsto> fl\<lparr>f_ptr := patch (nat off) (take len buf) (f_ptr fl)\<rparr>)\<rparr>"
    have "?n = f_len fl" using False by simp
    then have "?w = w\<lparr>mm_allocs := mm_allocs w, mm_file := (mm_file w)(f \<mapsto> fl\<lparr>f_len := ?n, f_ptr := patch (nat off) (take len buf) (f_ptr fl)\<rparr>)\<rparr>" by simp
    note f = write_final [OF assms(1-3) fl(1,3,4) n _ refl order_refl this]
    moreover have "memfs_write f buf off len w = Some (int len, ?w)"
      using False fl assms(2,5,7) u b by (auto simp: memfs_write_def mem_write_def Let_def)
    ultimately show ?thesis using f False fl(4) by simp
  next
    case True
    show ?thesis
    proof (cases "mm_oom w (mm_allocs w)")
      case oom: True
      then have "memfs_write f buf off len w = Some (ERR_NO_MEMORY, w\<lparr>mm_allocs := Suc (mm_allocs w)\<rparr>)"
        using True fl assms(2,5) u by (simp add: memfs_write_def m_realloc_def Let_def)
      then show ?thesis using oom by auto
    next
      case False
      let ?p = "take (nat off + len) (f_ptr fl) @ map (mm_junk w (mm_allocs w)) [length (f_ptr fl)..<nat off + len]"
      let ?w = "w\<lparr>mm_allocs := Suc (mm_allocs w), mm_file := (mm_file w)(f \<mapsto> fl\<lparr>f_len := ?n, f_ptr := patch (nat off) (take len buf) ?p\<rparr>)\<rparr>"
      have r: "m_realloc (f_ptr fl) (nat off + len) w = (Some ?p, w\<lparr>mm_allocs := Suc (mm_allocs w)\<rparr>)" using False by (simp add: m_realloc_def)
      have p: "length ?p = nat off + len" using length_realloc [OF r] .
      have "take (f_len fl) ?p = take (f_len fl) (f_ptr fl)" using take_realloc [OF r fl(4)] True by simp
      note f = write_final [OF assms(1-3) fl(1,3,4) n _ this _ refl, of "Suc (mm_allocs w)"]
      moreover have "memfs_write f buf off len w = Some (int len, ?w)"
        using True fl assms(2,5,7) u b r p by (simp add: memfs_write_def mem_write_def Let_def max_absorb2)
      ultimately show ?thesis using f True p by simp
    qed
  qed
qed

section \<open>The file system layer over the memory file system\<close>

lemma drv_mem: "drv (on_mem h) s = map_option (\<lambda>(r, w). (r, s\<lparr>fs_drv := w\<rparr>)) (h (fs_drv s))"
  by (cases "h (fs_drv s)") (auto simp: drv_def on_mem_def)

lemma api_simps [simp]:
  "fa_open memfs_api = Some (\<lambda>c name. on_mem (memfs_open c name))"
  "fa_create memfs_api = Some (\<lambda>c name len. on_mem (memfs_create c name len))"
  "fa_stat memfs_api = Some (\<lambda>f st. on_mem (memfs_stat f st))"
  "fa_read memfs_api = Some (\<lambda>f off len. on_mem (memfs_read f off len))"
  "fa_write memfs_api = Some (\<lambda>f buf off len. on_mem (memfs_write f buf off len))"
  "fa_close memfs_api = Some (\<lambda>f. on_mem (memfs_close f))"
  by (simp_all add: memfs_api_def)

text \<open>States of the layer over the memory file system that callers can reach.\<close>

abbreviation mem_state :: "nat set \<Rightarrow> ('d, memw) fs_state \<Rightarrow> bool" where
  "mem_state A s \<equiv> fs_ok memfs_api memfs_inv A (\<lambda>_. 0) s"

abbreviation mem_reach :: "('d, memw) fs_impls \<Rightarrow> 'd bio_state \<Rightarrow> memw \<Rightarrow> nat set \<Rightarrow> ('d, memw) fs_state \<Rightarrow> bool" where
  "mem_reach impls b w \<equiv> fs_reach impls memfs_removable memfs_fits (fs_initial b w)"

definition mem_start :: "('d, memw) fs_impls \<Rightarrow> 'd bio_state \<Rightarrow> memw \<Rightarrow> bool" where
  "mem_start impls b w \<longleftrightarrow> (\<forall>p\<in>set impls. snd p = memfs_api) \<and> registered_ok b \<and> memfs_inv w (\<lambda>_. None) (\<lambda>_. None) (\<lambda>_. None)"

lemma mem_reach_state: "mem_reach impls b w A s \<Longrightarrow> mem_start impls b w \<Longrightarrow> mem_state A s"
  unfolding mem_start_def by (rule memfs.reach_ok) blast+

text \<open>The mount that a path leads to.\<close>

lemma found:
  assumes "mem_state A s" and "finds path s = Some (i, rest)"
  obtains x m where "temppath path = Some x" "fs_mnt s i = Some m" "m_api m = memfs_api"
    "find_mount x s = Some (Some (i, rest), s\<lparr>fs_mnt := (fs_mnt s)(i \<mapsto> m\<lparr>m_ref := m_ref m + 1\<rparr>)\<rparr>)"
proof -
  obtain x where x: "temppath path = Some x" "search_mount (fs_mnt s) x (fs_mounts s) = Some (Some (i, rest))"
    using assms(2) by (auto simp: finds_def bind_eq_Some_conv)
  obtain r s' where r: "find_mount x s = Some (r, s')" "case r of None \<Rightarrow> s' = s
     | Some (i, rest) \<Rightarrow> \<exists>m p. fs_mnt s i = Some m \<and> m_path m = Some p \<and> x = p @ rest \<and>
         s' = s\<lparr>fs_mnt := (fs_mnt s)(i \<mapsto> m\<lparr>m_ref := m_ref m + 1\<rparr>)\<rparr> \<and> table_ok memfs_api A ((\<lambda>_. 0)(i := 0 + 1)) s'"
    using table_ok_find [OF memfs.fs_okD(1) [OF assms(1)], of x] by blast
  have "r = Some (i, rest)" using r(1) x(2) by (auto simp: find_mount_def bind_eq_Some_conv)
  then obtain m where "fs_mnt s i = Some m" "s' = s\<lparr>fs_mnt := (fs_mnt s)(i \<mapsto> m\<lparr>m_ref := m_ref m + 1\<rparr>)\<rparr>" using r(2) by auto
  moreover from this have "m_api m = memfs_api" using table_okD(2) [OF memfs.fs_okD(1) [OF assms(1)]] by blast
  ultimately show ?thesis using that x(1) r(1) \<open>r = Some (i, rest)\<close> by blast
qed

text \<open>The state with a handle open on the file \<open>c\<close> of the mount \<open>i\<close>.\<close>

definition with_handle :: "('d, memw) fs_state \<Rightarrow> nat \<Rightarrow> memw \<Rightarrow> nat \<Rightarrow> nat \<Rightarrow> ('d, memw) fs_state" where
  "with_handle s i w c f = s\<lparr>fs_mnt := (fs_mnt s)(i := map_option (\<lambda>m. m\<lparr>m_ref := m_ref m + 1\<rparr>) (fs_mnt s i)), fs_drv := w,
     fs_next := Suc (fs_next s), fs_fh := (fs_fh s)(f \<mapsto> \<lparr>fh_cookie = c, fh_mount = i\<rparr>)\<rparr>"

lemma mem_no_oom: "mem_state A s \<Longrightarrow> \<not> fs_oom s n"
  by (simp add: fs_ok_def table_ok_def)

lemma mem_cookie:
  assumes "mem_state A s" and "fs_mnt s i = Some m"
  shows "mem_ok (fs_drv s)" "\<exists>t. mm_fs (fs_drv s) (m_cookie m) = Some t"
proof -
  note inv = memfs.fs_okD(2) [OF assms(1)]
  then show "mem_ok (fs_drv s)" by (simp add: memfs_inv_def)
  show "\<exists>t. mm_fs (fs_drv s) (m_cookie m) = Some t" using inv_mount [OF inv cookie_lookup(1) [of "fs_mnt s", OF assms(2)]] .
qed

lemma open_step:
  assumes "mem_state A s" and "finds path s = Some (i, rest)" and "fs_mnt s i = Some m" and "memfs_open (m_cookie m) rest (fs_drv s) = Some (Inr c, fs_drv s)"
  shows "fs_open_file path s = Some (Inr (fs_next s), with_handle s i (fs_drv s) c (fs_next s))"
proof -
  from assms(1,2) obtain x m' where x: "temppath path = Some x" "fs_mnt s i = Some m'" "m_api m' = memfs_api"
    "find_mount x s = Some (Some (i, rest), s\<lparr>fs_mnt := (fs_mnt s)(i \<mapsto> m'\<lparr>m_ref := m_ref m' + 1\<rparr>)\<rparr>)" by (rule found)
  then show ?thesis using assms(3,4) mem_no_oom [OF assms(1)] by (simp add: fs_open_file_def drv_mem new_file_def new_obj_def with_handle_def)
qed

lemma create_step:
  assumes "mem_state A s" and "NUL \<notin> set path" and "fs_create_file path n s = Some (Inr f, s')"
  obtains i rest m c w where "finds path s = Some (i, rest)" "fs_mnt s i = Some m" "memfs_create (m_cookie m) rest n (fs_drv s) = Some (Inr c, w)"
    "f = fs_next s" "s' = with_handle s i w c f"
proof -
  obtain x where x: "temppath path = Some x" using temppath_some [OF assms(2)] by blast
  obtain r where r: "search_mount (fs_mnt s) x (fs_mounts s) = Some r"
  proof -
    have "find_mount x s \<noteq> None" using table_ok_find [OF memfs.fs_okD(1) [OF assms(1)], of x] by auto
    then show ?thesis using that by (cases "search_mount (fs_mnt s) x (fs_mounts s)") (simp_all add: find_mount_def)
  qed
  then have f: "finds path s = r" using x by (simp add: finds_def)
  show ?thesis
  proof (cases r)
    case None
    then show ?thesis using assms(3) x r by (simp add: fs_create_file_def find_mount_def)
  next
    case (Some ir)
    obtain i rest where i: "ir = (i, rest)" by fastforce
    then have fi: "finds path s = Some (i, rest)" using f Some by simp
    from assms(1) fi obtain x' m where x': "temppath path = Some x'" and m: "fs_mnt s i = Some m" "m_api m = memfs_api"
      "find_mount x' s = Some (Some (i, rest), s\<lparr>fs_mnt := (fs_mnt s)(i \<mapsto> m\<lparr>m_ref := m_ref m + 1\<rparr>)\<rparr>)" by (rule found)
    have [simp]: "x' = x" using x x' by simp
    from m obtain y w where y: "memfs_create (m_cookie m) rest n (fs_drv s) = Some (y, w)"
      using assms(3) x by (auto simp: fs_create_file_def drv_mem bind_eq_Some_conv)
    then obtain c where "y = Inr c" using assms(3) x m by (cases y) (auto simp: fs_create_file_def drv_mem bind_eq_Some_conv)
    then show ?thesis using that [OF fi m(1)] assms(3) x m y mem_no_oom [OF assms(1)]
      by (auto simp: fs_create_file_def drv_mem new_file_def new_obj_def with_handle_def)
  qed
qed

text \<open>Closing a handle on a mount that is attached: the mount stays.\<close>

lemma close_step:
  assumes "mem_state A s" and "fs_fh s f = Some fh" and "fh_mount fh \<in> A" and "fs_mnt s (fh_mount fh) = Some m"
  shows "fs_close_file f s = Some (0, s\<lparr>fs_mnt := (fs_mnt s)(fh_mount fh \<mapsto> m\<lparr>m_ref := m_ref m - 1\<rparr>), fs_fh := (fs_fh s)(f := None)\<rparr>)"
proof -
  note t = memfs.fs_okD(1) [OF assms(1)]
  have fin: "finite (on_mount (fs_fh s) (fh_mount fh))" using t on_mount_finite [of "fs_next s" "fs_mnt s"] by (simp add: table_ok_def)
  have "f \<in> on_mount (fs_fh s) (fh_mount fh)" using assms(2) by (simp add: on_mount_def)
  then have "card (on_mount (fs_fh s) (fh_mount fh)) > 0" using fin by (auto simp: card_gt_0_iff)
  then have "refs A (\<lambda>_. 0) s (fh_mount fh) \<noteq> 1" using assms(3) by (simp add: refs_def)
  then have "m_ref m - 1 \<noteq> 0" using table_okD(3) [OF t assms(4)] by simp
  then have "put_mount (fh_mount fh) s = Some (s\<lparr>fs_mnt := (fs_mnt s)(fh_mount fh \<mapsto> m\<lparr>m_ref := m_ref m - 1\<rparr>)\<rparr>)"
    using assms(4) by (simp add: put_mount_def)
  then show ?thesis using memfs.file_mount [OF assms(1,2)] by (simp add: fs_close_file_def drv_mem memfs_close_def)
qed

lemma mem_open_file:
  assumes "mem_state A s" and "fs_fh s f = Some fh"
  obtains fl where "mm_file (fs_drv s) (fh_cookie fh) = Some fl" "mm_fs (fs_drv s) (f_fs fl) \<noteq> None" "f_len fl \<le> length (f_ptr fl)"
proof -
  from memfs.fs_okD(2) [OF assms(1)] cookie_lookup(3) [of "fs_fh s", OF assms(2)]
  obtain c t fl nm where "mm_fs (fs_drv s) c = Some t" "mm_file (fs_drv s) (fh_cookie fh) = Some fl" "f_fs fl = c" "f_len fl \<le> length (f_ptr fl)"
    by (rule open_file_good)
  then show ?thesis using that by simp
qed

text \<open>Reading, writing and asking for the size through a handle.\<close>

lemma fs_read_step:
  assumes "mem_state A s" and "fs_fh s f = Some fh" and "0 \<le> off" and "memfs_fits off len"
  shows "fs_read_file f off len s =
    Some ((int (min len (length (content (fs_drv s) (fh_cookie fh)) - nat off)), take len (drop (nat off) (content (fs_drv s) (fh_cookie fh)))), s)"
proof -
  from assms(1,2) obtain fl where "mm_file (fs_drv s) (fh_cookie fh) = Some fl" "mm_fs (fs_drv s) (f_fs fl) \<noteq> None" "f_len fl \<le> length (f_ptr fl)"
    by (rule mem_open_file)
  then show ?thesis using read_outcome [OF _ _ _ assms(3,4), of "fs_drv s" "fh_cookie fh"] memfs.file_mount [OF assms(1,2)]
    by (simp add: fs_read_file_def drv_mem)
qed

lemma fs_stat_step:
  assumes "mem_state A s" and "fs_fh s f = Some fh"
  shows "\<exists>st'. fs_stat_file f (Some st) s = Some ((0, Some st'), s) \<and> st_size st' = length (content (fs_drv s) (fh_cookie fh)) \<and> \<not> st_is_dir st'"
proof -
  from assms obtain fl where "mm_file (fs_drv s) (fh_cookie fh) = Some fl" "mm_fs (fs_drv s) (f_fs fl) \<noteq> None" "f_len fl \<le> length (f_ptr fl)"
    by (rule mem_open_file)
  then show ?thesis using memfs.file_mount [OF assms] by (auto simp: fs_stat_file_def drv_mem memfs_stat_def content_def)
qed

lemma fs_write_step:
  assumes "mem_state A s" and "fs_fh s f = Some fh" and "fs_write_file f buf off len s = Some (r, s')"
  obtains w where "memfs_write (fh_cookie fh) buf off len (fs_drv s) = Some (r, w)" "s' = s\<lparr>fs_drv := w\<rparr>"
  using assms(3) memfs.file_mount [OF assms(1,2)] by (auto simp: fs_write_file_def drv_mem)

text \<open>A whole file is loaded.\<close>

lemma load_step:
  assumes "mem_state A s" and "NUL \<notin> set path" and "finds path s = Some (i, rest)" and "fs_mnt s i = Some m" and "i \<in> A"
    and "dir_map (fs_drv s) (m_cookie m) (trim_name rest) = Some x" and "maxlen < 2 ^ 64"
  shows "\<exists>s'. fs_load_file st path maxlen s = Some ((int (min maxlen (length x)), take maxlen x), s')"
proof -
  let ?w = "fs_drv s"
  obtain t where t: "mem_ok ?w" "mm_fs ?w (m_cookie m) = Some t" using mem_cookie [OF assms(1,4)] by blast
  obtain r where r: "memfs_open (m_cookie m) rest ?w = Some (r, ?w)"
    "case r of Inl e \<Rightarrow> e = ERR_NOT_FOUND \<and> dir_map ?w (m_cookie m) (trim_name rest) = None
     | Inr f \<Rightarrow> f \<in> set (mem_files ?w (m_cookie m)) \<and> file_name ?w f = Some (trim_name rest) \<and> dir_map ?w (m_cookie m) (trim_name rest) = Some (content ?w f)"
    using open_outcome [OF t, of rest] by blast
  then obtain g where g: "r = Inr g" "content ?w g = x" using assms(6) by (cases r) auto
  let ?f = "fs_next s" and ?s = "with_handle s i ?w g (fs_next s)"
  have o: "fs_open_file path s = Some (Inr ?f, ?s)" using open_step [OF assms(1,3,4)] r(1) g(1) by simp
  have s: "mem_state A ?s" using memfs.open_file_safe [OF assms(1,2)] o by simp
  have fh: "fs_fh ?s ?f = Some \<lparr>fh_cookie = g, fh_mount = i\<rparr>" "fs_drv ?s = ?w" by (simp_all add: with_handle_def)
  obtain st' where st': "fs_stat_file ?f (Some st) ?s = Some ((0, Some st'), ?s)" "st_size st' = length x"
    using fs_stat_step [OF s fh(1), of st] g(2) fh(2) by auto
  have "memfs_fits 0 (min maxlen (length x))" using assms(7) by (simp add: memfs_fits_def min_def)
  from fs_read_step [OF s fh(1) _ this]
  have rd: "fs_read_file ?f 0 (min maxlen (length x)) ?s = Some ((int (min maxlen (length x)), take maxlen x), ?s)"
    using g(2) fh(2) by (simp add: min_def)
  obtain e s' where "fs_close_file ?f ?s = Some (e, s')" using memfs.close_file_safe [OF s fh(1)] by (auto simp: safe_def)
  then show ?thesis using o st' rd by (simp add: fs_load_file_def)
qed

lemma written_all: "written old 0 data new \<Longrightarrow> length old \<le> length data \<Longrightarrow> new = data"
  by (auto simp: written_def)

lemma create_write_close:
  assumes "mem_state A s" and "NUL \<notin> set path" and "\<forall>i rest. finds path s = Some (i, rest) \<longrightarrow> i \<in> A"
    and "fs_create_file path n s = Some (Inr f, s1)"
    and "fs_write_file f buf 0 len s1 = Some (r, s2)" and "0 \<le> r" and "n \<le> len" and "len \<le> length buf" and "len < 2 ^ 64"
    and "fs_close_file f s2 = Some (e, s3)"
  shows "\<exists>i rest m. mem_state A s3 \<and> finds path s3 = Some (i, rest) \<and> fs_mnt s3 i = Some m \<and> i \<in> A \<and> r = int len \<and>
    dir_map (fs_drv s3) (m_cookie m) (trim_name rest) = Some (take len buf)"
proof -
  from assms(1,2,4) obtain i rest m c w where c: "finds path s = Some (i, rest)" "fs_mnt s i = Some m" "memfs_create (m_cookie m) rest n (fs_drv s) = Some (Inr c, w)"
    "f = fs_next s" "s1 = with_handle s i w c f" by (rule create_step)
  let ?nm = "trim_name rest" and ?c = "m_cookie m"
  obtain t where t: "mem_ok (fs_drv s)" "mm_fs (fs_drv s) ?c = Some t" using mem_cookie [OF assms(1) c(2)] by blast
  have w: "dir_map w ?c ?nm = Some (replicate n 0)" "c \<in> set (mem_files w ?c)" "file_name w c = Some ?nm" "mem_ok w"
    using create_outcome [OF t, of rest n] c(3) by (auto split: if_splits)
  have s1: "mem_state A s1" using memfs.create_file_safe [OF assms(1,2), of n] assms(4) by simp
  have fh: "fs_fh s1 f = Some \<lparr>fh_cookie = c, fh_mount = i\<rparr>" "fs_drv s1 = w" by (simp_all add: c(5) with_handle_def)
  have fits: "memfs_fits 0 len" using assms(9) by (simp add: memfs_fits_def)
  have s2: "mem_state A s2" using memfs.handle_calls_safe(2) [OF s1 fh(1) fits assms(8)] assms(5) by simp
  from s1 fh(1) assms(5) obtain v where v: "memfs_write c buf 0 len w = Some (r, v)" "s2 = s1\<lparr>fs_drv := v\<rparr>" by (rule fs_write_step) (use fh(2) in auto)
  obtain t' where t': "mm_fs w ?c = Some t'" "c \<in> set (mf_files t')" using w(2) by (cases "mm_fs w ?c") (auto simp: mem_files_def)
  have wr: "r = int len" "written (content w c) 0 (take len buf) (content v c)" "dir_map v ?c ?nm = Some (content v c)"
    using write_outcome [OF w(4) t' w(3) _ fits assms(8)] v(1) assms(6) by auto
  have "content w c = replicate n 0" using dir_map_file [OF w(4) t' w(3)] w(1) by simp
  then have "content v c = take len buf" using written_all [OF wr(2)] assms(7,8) by simp
  moreover have i: "i \<in> A" using assms(3) c(1) by blast
  moreover have "s3 = s2\<lparr>fs_mnt := fs_mnt s, fs_fh := (fs_fh s2)(f := None)\<rparr>"
    using close_step [OF s2, of f "\<lparr>fh_cookie = c, fh_mount = i\<rparr>" "m\<lparr>m_ref := m_ref m + 1\<rparr>"] i assms(10) fh v(2) c(2)
    by (simp add: c(5) with_handle_def fun_upd_idem)
  then have "fs_mnt s3 = fs_mnt s" "fs_mounts s3 = fs_mounts s" "fs_drv s3 = v" by (simp_all add: v(2) c(5) with_handle_def)
  moreover have "mem_state A s3" using memfs.close_file_safe [OF s2, of f] assms(10) fh(1) v(2) by (auto simp: safe_def)
  ultimately show ?thesis using c(1,2) wr(1,3) by (simp add: finds_def)
qed

section \<open>Properties\<close>

text \<open>A machine with the memory file system and no block devices, for the examples.\<close>

definition demo_mem :: memw where
  "demo_mem = \<lparr>mm_fs = (\<lambda>_. None), mm_file = (\<lambda>_. None), mm_dir = (\<lambda>_. None), mm_allocs = 0, mm_oom = (\<lambda>_. False), mm_no_name = (\<lambda>_. False), mm_junk = (\<lambda>_ _. 170)\<rparr>"

definition no_devs :: "unit bio_state" where
  "no_devs = \<lparr>bdevs = (\<lambda>_. undefined), bdev_list = [], medium = (), names_freed = []\<rparr>"

definition demo_impls :: "(unit, memw) fs_impls" where "demo_impls = [(''memfs'', memfs_api)]"

definition demo_mounted :: "(unit, memw) fs_state" where
  "demo_mounted = (fs_initial no_devs (demo_mem\<lparr>mm_allocs := 1, mm_fs := (\<lambda>_. None)(0 \<mapsto> \<lparr>mf_files = [], mf_dcookies = []\<rparr>)\<rparr>))
     \<lparr>fs_next := 2, fs_mnt := (\<lambda>_. None)(0 \<mapsto> \<lparr>m_path = Some ''/m'', m_dev = None, m_cookie = 0, m_ref = 1, m_api = memfs_api\<rparr>), fs_mounts := [0]\<rparr>"

lemma demo_start: "mem_start demo_impls no_devs demo_mem"
  by (simp add: mem_start_def demo_impls_def no_devs_def registered_ok_def memfs_inv_def mem_ok_def out_ok_def demo_mem_def)

lemma demo_path: "temppath ''//m'' = Some ''/m''" "temppath ''/m/a'' = Some ''/m/a''"
  by (simp_all add: temppath_def FS_MAX_PATH_LEN_def fs_normalize_path_def norm_loop.simps norm_step_def emit_def Let_def numeral_nat c_str_def)

lemma demo_mount: "fs_exec demo_impls (Fs_mount ''//m'' ''memfs'' None) (fs_initial no_devs demo_mem) = Some demo_mounted"
  by (simp add: fs_mount_def find_fs_def demo_impls_def mount_def demo_path find_mount_def fs_initial_def open_dev_def memfs_api_def
      drv_def on_mem_def memfs_mount_def m_alloc_def demo_mem_def new_obj_def demo_mounted_def no_devs_def numeral_2_eq_2 Let_def)

lemma demo_mem_reach: "mem_reach demo_impls no_devs demo_mem {0} demo_mounted"
proof -
  have "mem_reach demo_impls no_devs demo_mem (attached_after {} (Fs_mount ''//m'' ''memfs'' None) (fs_initial no_devs demo_mem) demo_mounted) demo_mounted"
    by (rule fs_step [OF fs_start _ demo_mount]) simp
  then show ?thesis by (simp add: attached_def fs_initial_def demo_mounted_def)
qed

text \<open>
  C12: over the memory file system, in every state that callers that keep the rules can reach, every call that keeps the rules returns: no mount, file, directory
  cookie or handle is used after it was freed, no null pointer is called and no reference count goes wrong. The count of a mount is one while it is attached plus
  the number of files and directories open on it, a mount is there as long as a handle refers to it, and the next state is one of these again. The results of
  \<^verbatim>\<open>malloc\<close> and \<^verbatim>\<open>strdup\<close> that the code uses without a check (for mounts, handles and names) are taken to be there (\<open>fs_initial\<close>,
  \<open>memfs_inv\<close>), while the allocations that the code checks may fail at any point.
\<close>

theorem fs_calls_safe:
  assumes "mem_start impls b w" and "mem_reach impls b w A s" and "fs_may memfs_removable memfs_fits A c s"
  shows "\<exists>s' A'. fs_exec impls c s = Some s' \<and> A' = attached_after A c s s' \<and> mem_reach impls b w A' s' \<and>
    (\<forall>i m. fs_mnt s' i = Some m \<longrightarrow> 0 < m_ref m \<and> m_ref m = int (of_bool (i \<in> A') + card (on_mount (fs_fh s') i) + card (on_mount (fs_dh s') i))) \<and>
    (\<forall>f fh. fs_fh s' f = Some fh \<or> fs_dh s' f = Some fh \<longrightarrow> fs_mnt s' (fh_mount fh) \<noteq> None)"
proof -
  have "\<forall>p\<in>set impls. snd p = memfs_api" using assms(1) by (simp add: mem_start_def)
  then obtain s' where s': "fs_exec impls c s = Some s'" "mem_state (attached_after A c s s') s'"
    using memfs.call_safe [OF mem_reach_state [OF assms(2,1)] assms(3)] by blast
  note t = memfs.ok_tables [OF s'(2)]
  have "fs_mnt s' (fh_mount fh) \<noteq> None" if "fs_fh s' f = Some fh \<or> fs_dh s' f = Some fh" for f fh using t(2,3) that by blast
  then show ?thesis using s'(1) fs_step [OF assms(2,3) s'(1)] t(1) by blast
qed

theorem fs_calls_safe_witness: "\<exists>s'. fs_exec demo_impls (Fs_create ''/m/a'' 2) demo_mounted = Some s'"
  using fs_calls_safe [OF demo_start demo_mem_reach, of "Fs_create ''/m/a'' 2"] by auto

text \<open>
  C13: a file written through the file system layer is loaded back: after \<open>fs_create_file\<close>, \<open>fs_write_file\<close> of \<open>len\<close> bytes and \<open>fs_close_file\<close> on a path of a
  memory file system that is attached, \<open>fs_load_file\<close> on that path returns the bytes, as many as fit, when the file was created with at most that length and the
  calls succeeded. Path normalisation, the search for the mount, the handles and the file system take part in it.
\<close>

theorem fs_file_roundtrip:
  assumes "mem_start impls b w" and "mem_reach impls b w A s" and "NUL \<notin> set path" and "\<forall>i rest. finds path s = Some (i, rest) \<longrightarrow> i \<in> A"
    and "fs_create_file path n s = Some (Inr f, s1)"
    and "fs_write_file f buf 0 len s1 = Some (r, s2)" and "0 \<le> r" and "n \<le> len" and "len \<le> length buf" and "len < 2 ^ 64"
    and "fs_close_file f s2 = Some (e, s3)" and "maxlen < 2 ^ 64"
  shows "\<exists>s4. fs_load_file st path maxlen s3 = Some ((int (min maxlen len), take maxlen (take len buf)), s4)"
proof -
  obtain i rest m where "mem_state A s3" "finds path s3 = Some (i, rest)" "fs_mnt s3 i = Some m" "i \<in> A"
    "dir_map (fs_drv s3) (m_cookie m) (trim_name rest) = Some (take len buf)"
    using create_write_close [OF mem_reach_state [OF assms(2,1)] assms(3-11)] by blast
  from load_step [OF this(1) assms(3) this(2-5) assms(12), of st] show ?thesis using assms(9) by (simp add: min.commute min.left_commute)
qed

definition demo_buf :: "u8 list" where "demo_buf = [10, 20, 30]"
definition demo_created :: "(unit, memw) fs_state" where "demo_created = snd (the (fs_create_file ''/m/a'' 1 demo_mounted))"
definition demo_written :: "(unit, memw) fs_state" where "demo_written = snd (the (fs_write_file 2 demo_buf 0 3 demo_created))"
definition demo_closed :: "(unit, memw) fs_state" where "demo_closed = snd (the (fs_close_file 2 demo_written))"

lemma demo_create: "fs_create_file ''/m/a'' 1 demo_mounted = Some (Inr 2, demo_created)"
  by (simp add: demo_created_def fs_create_file_def demo_path find_mount_def demo_mounted_def fs_initial_def drv_mem memfs_create_def m_alloc_def m_strdup_def
      demo_mem_def trim_name_def new_file_def new_obj_def Let_def)

lemma demo_write: "fs_write_file 2 demo_buf 0 3 demo_created = Some (3, demo_written)"
  by (simp add: demo_written_def demo_buf_def fs_write_file_def fh_api_def demo_created_def fs_create_file_def demo_path find_mount_def demo_mounted_def fs_initial_def
      drv_mem memfs_create_def m_alloc_def m_strdup_def demo_mem_def trim_name_def new_file_def new_obj_def Let_def memfs_write_def u64_add_def m_realloc_def
      mem_read_def mem_write_def seg_def)

lemma demo_close: "fs_close_file 2 demo_written = Some (0, demo_closed)"
  by (simp add: demo_closed_def demo_written_def demo_buf_def fs_write_file_def fh_api_def demo_created_def fs_create_file_def demo_path find_mount_def demo_mounted_def
      fs_initial_def drv_mem memfs_create_def m_alloc_def m_strdup_def demo_mem_def trim_name_def new_file_def new_obj_def Let_def memfs_write_def u64_add_def
      m_realloc_def mem_read_def mem_write_def seg_def fs_close_file_def memfs_close_def put_mount_def)

theorem fs_file_roundtrip_witness:
  "\<exists>s4. fs_load_file \<lparr>st_is_dir = True, st_size = 99, st_capacity = 0\<rparr> ''/m/a'' 2 demo_closed = Some ((2, [10, 20]), s4)"
proof -
  have "\<forall>i rest. finds ''/m/a'' demo_mounted = Some (i, rest) \<longrightarrow> i \<in> {0}" by (simp add: finds_def demo_path demo_mounted_def fs_initial_def)
  from fs_file_roundtrip [OF demo_start demo_mem_reach _ this demo_create demo_write _ _ _ _ demo_close, of 2]
  show ?thesis by (simp add: demo_buf_def)
qed

text \<open>
  C16: a memory file system is a map from names to bytes (\<open>dir_map\<close>), and the calls on names are the operations of that map. Creating a file adds a name that is
  not there, with zeros; it fails with \<^verbatim>\<open>ERR_NO_MEMORY\<close> when the length is \<^verbatim>\<open>SIZE_MAX\<close> or more or one of the two allocations fails, with \<^verbatim>\<open>ERR_NOT_SUPPORTED\<close>
  when the name has a slash and with \<^verbatim>\<open>ERR_ALREADY_EXISTS\<close> when it is there, in this order, and then the map stays as it was. Opening finds exactly the names that
  are there and otherwise returns \<^verbatim>\<open>ERR_NOT_FOUND\<close>; removing takes the name away, with \<^verbatim>\<open>ERR_NOT_FOUND\<close> when it is not there.
\<close>

theorem memfs_names:
  assumes "memfs_inv w M F D" and "M i = Some c"
  shows "(\<exists>r w'. memfs_create c name len w = Some (r, w') \<and>
      (if 2 ^ 64 - 1 \<le> len then r = Inl ERR_NO_MEMORY \<and> w' = w
       else if CHR ''/'' \<in> set (trim_name name) then r = Inl ERR_NOT_SUPPORTED \<and> w' = w
       else if dir_map w c (trim_name name) \<noteq> None then r = Inl ERR_ALREADY_EXISTS \<and> w' = w
       else if mm_oom w (mm_allocs w) \<or> mm_oom w (Suc (mm_allocs w)) then r = Inl ERR_NO_MEMORY \<and> dir_map w' c = dir_map w c
       else \<exists>f. r = Inr f \<and> dir_map w' c = (dir_map w c)(trim_name name \<mapsto> replicate len 0))) \<and>
    (\<exists>r. memfs_open c name w = Some (r, w) \<and>
      (case r of Inl e \<Rightarrow> e = ERR_NOT_FOUND \<and> dir_map w c (trim_name name) = None | Inr f \<Rightarrow> dir_map w c (trim_name name) = Some (content w f))) \<and>
    (memfs_removable w c name F D \<longrightarrow> (\<exists>e w'. memfs_remove c name w = Some (e, w') \<and> dir_map w' c = (dir_map w c)(trim_name name := None) \<and>
      e = (if dir_map w c (trim_name name) = None then ERR_NOT_FOUND else 0)))"
proof (intro conjI impI)
  have m: "mem_ok w" using assms(1) by (simp add: memfs_inv_def)
  obtain t where t: "mm_fs w c = Some t" using inv_mount [OF assms] by blast
  show "\<exists>r w'. memfs_create c name len w = Some (r, w') \<and>
      (if 2 ^ 64 - 1 \<le> len then r = Inl ERR_NO_MEMORY \<and> w' = w
       else if CHR ''/'' \<in> set (trim_name name) then r = Inl ERR_NOT_SUPPORTED \<and> w' = w
       else if dir_map w c (trim_name name) \<noteq> None then r = Inl ERR_ALREADY_EXISTS \<and> w' = w
       else if mm_oom w (mm_allocs w) \<or> mm_oom w (Suc (mm_allocs w)) then r = Inl ERR_NO_MEMORY \<and> dir_map w' c = dir_map w c
       else \<exists>f. r = Inr f \<and> dir_map w' c = (dir_map w c)(trim_name name \<mapsto> replicate len 0))"
    using create_outcome [OF m t, of name len] by (elim exE conjE) (auto split: if_splits)
  obtain r where "memfs_open c name w = Some (r, w)"
    "case r of Inl e \<Rightarrow> e = ERR_NOT_FOUND \<and> dir_map w c (trim_name name) = None
     | Inr f \<Rightarrow> f \<in> set (mem_files w c) \<and> file_name w f = Some (trim_name name) \<and> dir_map w c (trim_name name) = Some (content w f)"
    using open_outcome [OF m t, of name] by blast
  then show "\<exists>r. memfs_open c name w = Some (r, w) \<and>
      (case r of Inl e \<Rightarrow> e = ERR_NOT_FOUND \<and> dir_map w c (trim_name name) = None | Inr f \<Rightarrow> dir_map w c (trim_name name) = Some (content w f))"
    by (cases r) simp_all
qed (rule remove_outcome [OF assms])

lemma demo_mem_state: "memfs_inv (fs_drv demo_mounted) (\<lambda>i. if i = 0 then Some 0 else None) (\<lambda>_. None) (\<lambda>_. None)"
  by (simp add: memfs_inv_def mem_ok_def out_ok_def demo_mounted_def fs_initial_def demo_mem_def fs_good_def)

theorem memfs_names_witness:
  "(\<exists>r. memfs_open 0 '' /nothing'' (fs_drv demo_mounted) = Some (r, fs_drv demo_mounted)) \<and>
   memfs_create 0 ''/a/b'' 5 (fs_drv demo_mounted) = Some (Inl ERR_NOT_SUPPORTED, fs_drv demo_mounted) \<and>
   (\<exists>f w'. memfs_create 0 ''/a'' 5 (fs_drv demo_mounted) = Some (Inr f, w') \<and> dir_map w' 0 ''a'' = Some [0, 0, 0, 0, 0])"
proof (intro conjI)
  have n: "trim_name ''/a/b'' = ''a/b''" "trim_name ''/a'' = ''a''" by code_simp+
  have z: "replicate 5 (0 :: u8) = [0, 0, 0, 0, 0]" by (simp add: numeral_eq_Suc)
  have d: "dir_map (fs_drv demo_mounted) 0 ''a'' = None" "\<not> mm_oom (fs_drv demo_mounted) k" for k
    by (simp_all add: dir_map_def mem_files_def demo_mounted_def fs_initial_def demo_mem_def)
  show "\<exists>r. memfs_open 0 '' /nothing'' (fs_drv demo_mounted) = Some (r, fs_drv demo_mounted)"
    using memfs_names [OF demo_mem_state, of 0 0 "'' /nothing''"] by auto
  show "memfs_create 0 ''/a/b'' 5 (fs_drv demo_mounted) = Some (Inl ERR_NOT_SUPPORTED, fs_drv demo_mounted)"
    using memfs_names [OF demo_mem_state, of 0 0 "''/a/b''" 5] by (auto simp: n)
  show "\<exists>f w'. memfs_create 0 ''/a'' 5 (fs_drv demo_mounted) = Some (Inr f, w') \<and> dir_map w' 0 ''a'' = Some [0, 0, 0, 0, 0]"
    using memfs_names [OF demo_mem_state, of 0 0 "''/a''" 5] by (auto simp: n d z)
qed

text \<open>
  C17: the calls on the bytes of an open file: reading returns the bytes from the offset, as many as there are; writing puts the bytes at the offset, extends the
  file when they reach beyond its end and keeps all others, or fails for want of memory without a change; no other name of the file system is touched.
\<close>

theorem memfs_bytes:
  assumes "memfs_inv w M F D" and "F k = Some (i, f)" and "M i = Some c" and "0 \<le> off" and "memfs_fits off len" and "len \<le> length buf"
  shows "\<exists>nm. dir_map w c nm = Some (content w f) \<and>
    memfs_read f off len w = Some ((int (min len (length (content w f) - nat off)), take len (drop (nat off) (content w f))), w) \<and>
    (\<exists>r w'. memfs_write f buf off len w = Some (r, w') \<and>
      (if r < 0 then r = ERR_NO_MEMORY \<and> dir_map w' c = dir_map w c \<and> (\<exists>n. mm_oom w n)
       else r = int len \<and> written (content w f) (nat off) (take len buf) (content w' f) \<and> dir_map w' c = (dir_map w c)(nm \<mapsto> content w' f)))"
proof -
  have m: "mem_ok w" using assms(1) by (simp add: memfs_inv_def)
  from assms(1,2) obtain c' t fl nm where f: "M i = Some c'" "mm_fs w c' = Some t" "f \<in> set (mf_files t)" "mm_file w f = Some fl" "f_fs fl = c'" "f_name fl = Some nm"
    "f_len fl \<le> length (f_ptr fl)" by (rule open_file_good)
  have c: "c' = c" using f(1) assms(3) by simp
  have nm: "file_name w f = Some nm" using f(4,6) by (simp add: file_name_def)
  obtain r w' where "memfs_write f buf off len w = Some (r, w')"
    "if r < 0 then r = ERR_NO_MEMORY \<and> dir_map w' c = dir_map w c \<and> (\<exists>n. mm_oom w n)
     else r = int len \<and> written (content w f) (nat off) (take len buf) (content w' f) \<and> dir_map w' c = (dir_map w c)(nm \<mapsto> content w' f) \<and>
       mem_ok w' \<and> mm_fs w' = mm_fs w \<and> file_name w' = file_name w \<and> mm_oom w' = mm_oom w"
    using write_outcome [OF m f(2,3) nm assms(4-6)] c by blast
  moreover from this(2) have "if r < 0 then r = ERR_NO_MEMORY \<and> dir_map w' c = dir_map w c \<and> (\<exists>n. mm_oom w n)
     else r = int len \<and> written (content w f) (nat off) (take len buf) (content w' f) \<and> dir_map w' c = (dir_map w c)(nm \<mapsto> content w' f)"
    by (simp split: if_splits)
  moreover have "dir_map w c nm = Some (content w f)" using dir_map_file [OF m f(2,3) nm] c by simp
  moreover have "memfs_read f off len w = Some ((int (min len (length (content w f) - nat off)), take len (drop (nat off) (content w f))), w)"
    using read_outcome [OF f(4) _ f(7) assms(4,5)] f(2,5) by simp
  ultimately show ?thesis by blast
qed

definition demo_file :: memw where
  "demo_file = demo_mem\<lparr>mm_allocs := 2, mm_fs := (\<lambda>_. None)(0 \<mapsto> \<lparr>mf_files = [1], mf_dcookies = []\<rparr>),
     mm_file := (\<lambda>_. None)(1 \<mapsto> \<lparr>f_fs = 0, f_name = Some ''a'', f_ptr = [1, 2, 3], f_len = 2\<rparr>)\<rparr>"

lemma demo_file_state: "memfs_inv demo_file (\<lambda>i. if i = 0 then Some 0 else None) (\<lambda>k. if k = 7 then Some (0, 1) else None) (\<lambda>_. None)"
  by (simp add: memfs_inv_def mem_ok_def out_ok_def demo_file_def demo_mem_def fs_good_def file_good_def mem_files_def)

theorem memfs_bytes_witness:
  "memfs_read 1 1 5 demo_file = Some ((1, [2]), demo_file) \<and>
   (\<exists>r w'. memfs_write 1 [9, 9] 1 2 demo_file = Some (r, w') \<and> (r < 0 \<or> written [1, 2] 1 [9, 9] (content w' 1)))"
proof -
  have c: "content demo_file 1 = [1, 2]" by (simp add: content_def demo_file_def)
  have "memfs_fits 1 5" "memfs_fits 1 2" by (simp_all add: memfs_fits_def)
  from memfs_bytes [OF demo_file_state _ _ _ this(1), of 7 0 1 0 "replicate 5 0"] memfs_bytes [OF demo_file_state _ _ _ this(2), of 7 0 1 0 "[9, 9]"]
  show ?thesis unfolding c by (auto split: if_splits)
qed

end
