(* ===== verification/LK_Init.thy ===== *)
theory LK_Init
  imports LK_Bytes
begin

text \<open>
  The init hooks, \<^verbatim>\<open>top/init.c\<close>: every part of the system registers hooks with a level, and \<^verbatim>\<open>lk_init_level\<close> calls those of
  a range of levels. The hooks lie in a section of the image, in the order of the link; a pointer to one is its index. What a hook
  does is not modelled: the result is the sequence of the hooks called.
\<close>

section \<open>The operations\<close>

record lk_init_struct =
  hook_level :: u32
  hook_flags :: u32
  hook_name :: string

definition LK_INIT_LEVEL_EARLIEST :: u32 where "LK_INIT_LEVEL_EARLIEST = 1"
definition LK_INIT_LEVEL_LAST :: u32 where "LK_INIT_LEVEL_LAST = 0xFFFFFFFF"
definition LK_INIT_FLAG_PRIMARY_CPU :: u32 where "LK_INIT_FLAG_PRIMARY_CPU = 1"

text \<open>The inner loop, from the hook with index \<open>i\<close> on; \<open>tab\<close> is the rest of the section.\<close>

fun init_scan ::
  "u32 \<Rightarrow> u32 \<Rightarrow> u32 \<Rightarrow> nat option \<Rightarrow> u32 \<Rightarrow> nat \<Rightarrow> bool \<Rightarrow> (nat \<times> lk_init_struct) option \<Rightarrow> lk_init_struct list \<Rightarrow>
     (nat \<times> lk_init_struct) option" where
  "init_scan flag start stop lst last_level i seen_last found [] = found"
| "init_scan flag start stop lst last_level i seen_last found (ptr # tab) =
     (let seen_last = (if lst = Some i then True else seen_last);
          continue = (\<lambda>found. init_scan flag start stop lst last_level (Suc i) seen_last found tab)
      in if hook_flags ptr AND flag = 0 then continue found
         else if hook_level ptr > stop then continue found
         else if hook_level ptr < last_level then continue found
         else if (case found of None \<Rightarrow> False | Some (_, f) \<Rightarrow> hook_level f \<le> hook_level ptr) then continue found
         else if hook_level ptr \<ge> start \<and> hook_level ptr > last_level then continue (Some (i, ptr))
         else if hook_level ptr = last_level \<and> lst \<noteq> Some i \<and> seen_last then Some (i, ptr)
         else continue found)"

partial_function (option) init_loop ::
  "u32 \<Rightarrow> u32 \<Rightarrow> u32 \<Rightarrow> lk_init_struct list \<Rightarrow> nat option \<Rightarrow> u32 \<Rightarrow> lk_init_struct list \<Rightarrow> lk_init_struct list option" where
  "init_loop flag start stop tab lst last_level called =
     (case init_scan flag start stop lst last_level 0 False None tab of
        None \<Rightarrow> Some called
      | Some (i, h) \<Rightarrow> init_loop flag start stop tab (Some i) (hook_level h) (called @ [h]))"

definition lk_init_level :: "u32 \<Rightarrow> u32 \<Rightarrow> u32 \<Rightarrow> lk_init_struct list \<Rightarrow> lk_init_struct list option" where
  "lk_init_level flag start stop tab =
     do { dassert (start > 0); init_loop flag start stop tab None (start - 1) [] }"

definition lk_primary_cpu_init_level :: "u32 \<Rightarrow> u32 \<Rightarrow> lk_init_struct list \<Rightarrow> lk_init_struct list option" where
  "lk_primary_cpu_init_level start stop tab = lk_init_level LK_INIT_FLAG_PRIMARY_CPU start stop tab"

definition lk_init_level_all :: "u32 \<Rightarrow> lk_init_struct list \<Rightarrow> lk_init_struct list option" where
  "lk_init_level_all flag tab = lk_init_level flag LK_INIT_LEVEL_EARLIEST LK_INIT_LEVEL_LAST tab"

section \<open>What one search finds\<close>

definition to_call :: "u32 \<Rightarrow> u32 \<Rightarrow> u32 \<Rightarrow> lk_init_struct \<Rightarrow> bool" where
  "to_call flag start stop h \<longleftrightarrow> hook_flags h AND flag \<noteq> 0 \<and> start \<le> hook_level h \<and> hook_level h \<le> stop"

text \<open>The hooks that come after the one called last: a higher level, or the same level and later in the section.\<close>

definition hook_before :: "lk_init_struct list \<Rightarrow> nat \<Rightarrow> nat \<Rightarrow> bool" where
  "hook_before tab i j \<longleftrightarrow> hook_level (tab ! i) < hook_level (tab ! j) \<or> hook_level (tab ! i) = hook_level (tab ! j) \<and> i < j"

definition pending :: "u32 \<Rightarrow> u32 \<Rightarrow> u32 \<Rightarrow> lk_init_struct list \<Rightarrow> nat option \<Rightarrow> u32 \<Rightarrow> nat \<Rightarrow> bool" where
  "pending flag start stop tab lst lst_level j \<longleftrightarrow> j < length tab \<and> to_call flag start stop (tab ! j) \<and>
     (hook_level (tab ! j) > lst_level \<or> hook_level (tab ! j) = lst_level \<and> (\<exists>l. lst = Some l \<and> l < j))"

lemma init_scan_ok:
  assumes "i \<le> length tab" and "seen \<longleftrightarrow> (\<exists>l. lst = Some l \<and> l < i)"
    and "lst = None \<Longrightarrow> ll < start" and "\<And>l. lst = Some l \<Longrightarrow> start \<le> ll"
    and "case found of None \<Rightarrow> \<forall>j<i. \<not> pending flag start stop tab lst ll j
      | Some (f, h) \<Rightarrow> f < i \<and> h = tab ! f \<and> pending flag start stop tab lst ll f \<and> ll < hook_level h \<and>
          (\<forall>j<i. pending flag start stop tab lst ll j \<longrightarrow> f = j \<or> hook_before tab f j)"
  shows "case init_scan flag start stop lst ll i seen found (drop i tab) of
      None \<Rightarrow> \<forall>j. \<not> pending flag start stop tab lst ll j
    | Some (f, h) \<Rightarrow> h = tab ! f \<and> pending flag start stop tab lst ll f \<and>
        (\<forall>j. pending flag start stop tab lst ll j \<longrightarrow> f = j \<or> hook_before tab f j)"
  using assms
proof (induction "drop i tab" arbitrary: i seen found)
  case Nil
  then have len: "i = length tab" by simp
  let ?P = "pending flag start stop tab lst ll"
  have P: "j < i" if "?P j" for j using that len by (simp add: pending_def)
  show ?case
  proof (cases found)
    case None
    then show ?thesis using Nil.prems(5) P len by auto
  next
    case (Some fh)
    then show ?thesis using Nil.prems(5) P len by (auto split: prod.splits)
  qed
next
  case (Cons ptr rest)
  let ?P = "pending flag start stop tab lst ll"
  have i: "i < length tab" using Cons.hyps(2) by (metis drop_eq_Nil2 leI list.distinct(1))
  then have d: "drop i tab = tab ! i # drop (Suc i) tab" by (simp add: Cons_nth_drop_Suc)
  then have ptr: "ptr = tab ! i" "rest = drop (Suc i) tab" using Cons.hyps(2) by simp_all
  define seen' where "seen' = (if lst = Some i then True else seen)"
  have seen': "seen' \<longleftrightarrow> (\<exists>l. lst = Some l \<and> l < Suc i)" using Cons.prems(2) by (auto simp: seen'_def less_Suc_eq)
  define fok where "fok fd k = (case fd of None \<Rightarrow> \<forall>j<k. \<not> ?P j
      | Some (f, h) \<Rightarrow> f < k \<and> h = tab ! f \<and> ?P f \<and> ll < hook_level h \<and> (\<forall>j<k. ?P j \<longrightarrow> f = j \<or> hook_before tab f j))"
    for fd :: "(nat \<times> lk_init_struct) option" and k
  have fi: "fok found i" using Cons.prems(5) by (simp add: fok_def)
  define R where "R r = (case r of None \<Rightarrow> \<forall>j. \<not> ?P j
    | Some (f, h) \<Rightarrow> h = tab ! f \<and> ?P f \<and> (\<forall>j. ?P j \<longrightarrow> f = j \<or> hook_before tab f j))" for r :: "(nat \<times> lk_init_struct) option"
  have go: "R (init_scan flag start stop lst ll (Suc i) seen' fd (drop (Suc i) tab))" if "fok fd (Suc i)" for fd
    using Cons.hyps(1) [OF ptr(2), of seen' fd] i seen' Cons.prems(3,4) that by (simp add: fok_def R_def)
  have skip: "fok found (Suc i)" if "\<not> ?P i \<or> (\<exists>f h. found = Some (f, h) \<and> hook_level h \<le> hook_level ptr)"
    using that fi ptr(1) unfolding fok_def hook_before_def by (auto simp: less_Suc_eq split: option.splits prod.splits)
  have low: "ll < hook_level (tab ! j)" if "j < i" "?P j" for j
    using that fi by (fastforce simp: fok_def hook_before_def split: option.splits prod.splits)
  let ?go = "\<lambda>fd. init_scan flag start stop lst ll (Suc i) seen' fd (drop (Suc i) tab)"
  let ?nf = "\<not> (case found of None \<Rightarrow> False | Some (_, h) \<Rightarrow> hook_level h \<le> hook_level ptr)"
  have 1: "R (?go found)" if "hook_flags ptr AND flag = 0 \<or> hook_level ptr > stop \<or> hook_level ptr < ll \<or> \<not> ?nf"
    by (rule go [OF skip]) (use that ptr(1) in \<open>auto simp: pending_def to_call_def split: option.splits\<close>)
  have 2: "R (?go (Some (i, ptr)))" if "hook_flags ptr AND flag \<noteq> 0" "\<not> hook_level ptr > stop" ?nf "start \<le> hook_level ptr \<and> hook_level ptr > ll"
  proof (rule go)
    have Pi: "?P i" using that i ptr(1) by (auto simp: pending_def to_call_def)
    have "hook_before tab i j" if "j < i" "?P j" for j
      using that fi \<open>?nf\<close> ptr(1) by (fastforce simp: fok_def hook_before_def split: option.splits prod.splits)
    then show "fok (Some (i, ptr)) (Suc i)" using Pi that ptr(1) by (auto simp: fok_def less_Suc_eq)
  qed
  have 3: "R (Some (i, ptr))" if f: "hook_flags ptr AND flag \<noteq> 0" "\<not> hook_level ptr > stop" and h: "hook_level ptr = ll \<and> lst \<noteq> Some i \<and> seen'"
  proof -
    obtain m where m: "lst = Some m" "m < i" using h seen' by (auto simp: less_Suc_eq)
    then have Pi: "?P i" using Cons.prems(4) [OF m(1)] f i h ptr(1) by (auto simp: pending_def to_call_def)
    have "i = j \<or> hook_before tab i j" if "?P j" for j
    proof (cases "j < i")
      case True
      then show ?thesis using low [OF True that] h ptr(1) by (simp add: hook_before_def)
    next
      case False
      then show ?thesis using that h ptr(1) by (auto simp: pending_def hook_before_def)
    qed
    then show ?thesis using Pi ptr(1) by (simp add: R_def)
  qed
  have 4: "R (?go found)" if "\<not> hook_level ptr < ll" "\<not> (start \<le> hook_level ptr \<and> hook_level ptr > ll)"
    "\<not> (hook_level ptr = ll \<and> lst \<noteq> Some i \<and> seen')"
  proof (rule go [OF skip])
    have "\<not> ?P i" using that seen' ptr(1) by (auto simp: pending_def to_call_def less_Suc_eq)
    then show "\<not> ?P i \<or> (\<exists>f h. found = Some (f, h) \<and> hook_level h \<le> hook_level ptr)" ..
  qed
  have "R (init_scan flag start stop lst ll i seen found (ptr # drop (Suc i) tab))"
    unfolding init_scan.simps Let_def seen'_def [symmetric] using 1 2 3 4 by (simp only: split: if_split) blast
  then show ?case unfolding R_def d ptr(1) [symmetric] .
qed

section \<open>The order of the calls\<close>

lemma insort_key_map: "map f (insort_key (\<lambda>x. k (f x)) x xs) = insort_key k (f x) (map f xs)"
  by (induction xs) auto

lemma sort_key_map: "map f (sort_key (\<lambda>x. k (f x)) xs) = sort_key k (map f xs)"
  by (induction xs) (simp_all add: insort_key_map)

text \<open>A stable sort of ascending numbers is strictly sorted by level and number.\<close>

lemma insort_stable:
  assumes "\<forall>x\<in>set xs. i < x" and "sorted_wrt (hook_before tab) xs"
  shows "sorted_wrt (hook_before tab) (insort_key (\<lambda>i. hook_level (tab ! i)) i xs)"
  using assms by (induction xs) (auto simp: set_insort_key hook_before_def)

lemma sort_stable:
  assumes "sorted_wrt (<) xs"
  shows "sorted_wrt (hook_before tab) (sort_key (\<lambda>i. hook_level (tab ! i)) xs)"
  using assms by (induction xs) (auto intro: insort_stable)

lemma hook_before_asym: "hook_before tab i j \<Longrightarrow> \<not> hook_before tab j i \<and> i \<noteq> j"
  by (auto simp: hook_before_def)

text \<open>The search finds the first of the hooks that are still to be called.\<close>

lemma scan_next:
  assumes "lst = None \<Longrightarrow> ll < start" and "\<And>l. lst = Some l \<Longrightarrow> start \<le> ll"
    and "\<And>j. pending flag start stop tab lst ll j \<longleftrightarrow> j \<in> set post" and "sorted_wrt (hook_before tab) post"
  shows "init_scan flag start stop lst ll 0 False None tab = (case post of [] \<Rightarrow> None | j # _ \<Rightarrow> Some (j, tab ! j))"
proof -
  have "case init_scan flag start stop lst ll 0 False None (drop 0 tab) of
      None \<Rightarrow> \<forall>j. \<not> pending flag start stop tab lst ll j
    | Some (f, h) \<Rightarrow> h = tab ! f \<and> pending flag start stop tab lst ll f \<and>
        (\<forall>j. pending flag start stop tab lst ll j \<longrightarrow> f = j \<or> hook_before tab f j)"
    by (rule init_scan_ok) (use assms(1,2) in auto)
  then show ?thesis using assms(3,4) hook_before_asym by (cases post) (fastforce split: option.splits)+
qed

definition lst_hook :: "nat list \<Rightarrow> nat option" where
  "lst_hook pre = (if pre = [] then None else Some (last pre))"

definition lst_level :: "u32 \<Rightarrow> lk_init_struct list \<Rightarrow> nat list \<Rightarrow> u32" where
  "lst_level start tab pre = (if pre = [] then start - 1 else hook_level (tab ! last pre))"

lemma u32_pred_less: "0 < (start :: u32) \<Longrightarrow> start - 1 < x \<longleftrightarrow> start \<le> x"
proof -
  assume "0 < start"
  then have "unat (start - 1) = unat start - 1" "0 < unat start" by (simp_all add: unat_minus_one unat_gt_0 word_gt_0)
  then show ?thesis by (auto simp: word_less_nat_alt word_le_nat_alt)
qed

lemma pending_post:
  assumes all: "\<And>j. j < length tab \<and> to_call flag start stop (tab ! j) \<longleftrightarrow> j \<in> set (pre @ post)"
    and s: "sorted_wrt (hook_before tab) (pre @ post)" and pos: "0 < start"
  shows "pending flag start stop tab (lst_hook pre) (lst_level start tab pre) j \<longleftrightarrow> j \<in> set post"
proof (cases pre rule: rev_cases)
  case Nil
  have "start - 1 < hook_level (tab ! j)" if "to_call flag start stop (tab ! j)" using that pos u32_pred_less by (auto simp: to_call_def)
  then show ?thesis using all [of j] Nil by (auto simp: pending_def lst_hook_def lst_level_def)
next
  case (snoc ks l)
  have "pending flag start stop tab (lst_hook pre) (lst_level start tab pre) j \<longleftrightarrow> j \<in> set (pre @ post) \<and> hook_before tab l j"
    using all [of j] by (auto simp: pending_def lst_hook_def lst_level_def snoc hook_before_def)
  moreover have "hook_before tab l j" if "j \<in> set post" using that s snoc by (auto simp: sorted_wrt_append)
  moreover have "\<not> hook_before tab l j" if "j \<in> set pre" using that s snoc hook_before_asym by (auto simp: sorted_wrt_append)
  ultimately show ?thesis by auto
qed

lemma init_loop_ok:
  assumes "\<And>j. j < length tab \<and> to_call flag start stop (tab ! j) \<longleftrightarrow> j \<in> set (pre @ post)" and "sorted_wrt (hook_before tab) (pre @ post)"
    and "0 < start"
  shows "init_loop flag start stop tab (lst_hook pre) (lst_level start tab pre) called = Some (called @ map ((!) tab) post)"
  using assms(1,2)
proof (induction post arbitrary: pre called)
  case base: Nil
  have n: "lst_hook pre = None \<Longrightarrow> lst_level start tab pre < start" using assms(3) by (simp add: lst_hook_def lst_level_def u32_pred_less split: if_splits)
  have l: "start \<le> lst_level start tab pre" if "lst_hook pre = Some l" for l
    using that base(1) [of l] by (auto simp: lst_hook_def lst_level_def to_call_def split: if_splits)
  from scan_next [OF n l pending_post [OF base assms(3)]] show ?case by (subst init_loop.simps) simp
next
  case (Cons a post)
  have n: "lst_hook pre = None \<Longrightarrow> lst_level start tab pre < start" using assms(3) by (simp add: lst_hook_def lst_level_def u32_pred_less split: if_splits)
  have l: "start \<le> lst_level start tab pre" if "lst_hook pre = Some l" for l
    using that Cons.prems(1) [of l] by (auto simp: lst_hook_def lst_level_def to_call_def split: if_splits)
  have "sorted_wrt (hook_before tab) (a # post)" using Cons.prems(2) by (simp add: sorted_wrt_append)
  from scan_next [OF n l pending_post [OF Cons.prems assms(3)] this]
  have s: "init_scan flag start stop (lst_hook pre) (lst_level start tab pre) 0 False None tab = Some (a, tab ! a)" by simp
  have "init_loop flag start stop tab (lst_hook (pre @ [a])) (lst_level start tab (pre @ [a])) (called @ [tab ! a]) =
      Some ((called @ [tab ! a]) @ map ((!) tab) post)"
    by (rule Cons.IH) (use Cons.prems in simp_all)
  then show ?case by (subst init_loop.simps) (simp add: s, simp add: lst_hook_def lst_level_def)
qed

section \<open>Properties\<close>

text \<open>
  C20: the init hooks run in order. For levels from \<open>start\<close>, which is not 0, to \<open>stop\<close>, \<^verbatim>\<open>lk_init_level\<close> returns and has called exactly the hooks with the
  flag and a level in that range, each once, in the order of their levels; hooks of the same level run in the order of the image.
\<close>

theorem lk_init_level_sorts:
  assumes "0 < start"
  shows "lk_init_level flag start stop tab =
    Some (sort_key hook_level (filter (\<lambda>h. hook_flags h AND flag \<noteq> 0 \<and> start \<le> hook_level h \<and> hook_level h \<le> stop) tab))"
proof -
  let ?is = "filter (\<lambda>i. to_call flag start stop (tab ! i)) [0..<length tab]"
  let ?s = "sort_key (\<lambda>i. hook_level (tab ! i)) ?is"
  have "sorted_wrt (<) ?is" by (intro sorted_wrt_filter) simp
  then have s: "sorted_wrt (hook_before tab) ([] @ ?s)" by (simp add: sort_stable)
  have "init_loop flag start stop tab (lst_hook []) (lst_level start tab []) [] = Some ([] @ map ((!) tab) ?s)"
    by (rule init_loop_ok [OF _ s assms]) auto
  moreover have "map ((!) tab) ?s = sort_key hook_level (map ((!) tab) ?is)" by (rule sort_key_map)
  moreover have "map ((!) tab) ?is = filter (to_call flag start stop) tab"
    using filter_map [of "to_call flag start stop" "(!) tab" "[0..<length tab]"] by (simp add: map_nth comp_def)
  ultimately show ?thesis using assms by (simp add: lk_init_level_def lst_hook_def lst_level_def to_call_def [abs_def])
qed

theorem lk_init_level_sorts_witness:
  "lk_init_level 1 1 9 (map (\<lambda>(l, f, n). \<lparr>hook_level = l, hook_flags = f, hook_name = n\<rparr>) [(5, 1, ''a''), (2, 3, ''b''), (5, 1, ''c''), (2, 2, ''d''), (12, 1, ''e'')]) =
     Some (map (\<lambda>(l, f, n). \<lparr>hook_level = l, hook_flags = f, hook_name = n\<rparr>) [(2, 3, ''b''), (5, 1, ''a''), (5, 1, ''c'')])"
  by (subst lk_init_level_sorts) simp_all

end
