(* ===== verification/Spec2Isabelle.thy ===== *)
theory Spec2Isabelle
  imports LK_Kernel_Spec LK_Cbuf LK_Port LK_Vmm LK_Novm LK_Heap LK_Bio_User LK_Bcache LK_Memfs LK_Init
begin

text \<open>
  A verification development for the core of the Little Kernel (lk) boot loader: the multiprocessor scheduler, its
  timers and synchronisation objects, the memory managers and the heap, the block device layer that reads and flashes
  partitions, and the file system layer. File names below are relative to \<^verbatim>\<open>src/\<close>.

  \<^bold>\<open>The program.\<close> \<^verbatim>\<open>kernel/thread.c\<close> keeps the run queues, the threads current on each cpu and the wait
  queues; it arms timers of \<^verbatim>\<open>kernel/timer.c\<close> for sleeping, for timed waits and for preemption, and asks other cpus to
  reschedule through \<^verbatim>\<open>kernel/mp.c\<close>. Events, mutexes, semaphores and ports wait and wake through the wait queues; the
  circular buffers wait through an event. \<^verbatim>\<open>kernel/vm/vmm.c\<close> gives out regions of an address space and backs them with pages of
  \<^verbatim>\<open>kernel/vm/pmm.c\<close>; builds without virtual memory use \<^verbatim>\<open>kernel/novm/novm.c\<close>. The heap, \<^verbatim>\<open>lib/heap\<close>, cuts the pages of the page allocator into the
  blocks \<^verbatim>\<open>malloc\<close> returns. \<^verbatim>\<open>lib/bio\<close> reads and writes bytes on devices that transfer blocks, \<^verbatim>\<open>lib/bcache\<close> caches the blocks of one device.
  \<^verbatim>\<open>lib/fs\<close> finds the file system a path leads to and passes the calls on to its implementation; a mount holds a reference to its block device.
  \<^verbatim>\<open>top/init.c\<close> calls the initialisation hooks of all of them in order.

  \<^bold>\<open>The theories.\<close>
    \<^item> \<open>LK_Prelude\<close>: machine types, status codes, alignment (\<^verbatim>\<open>include/sys/types.h\<close>, \<^verbatim>\<open>include/pow2.h\<close>), generic lemmas.
    \<^item> \<open>LK_List\<close>: \<^verbatim>\<open>include/list.h\<close> on a heap of pointers; every operation is the corresponding operation on Isabelle lists,
      which is why the other theories use lists. Locale \<open>node_queue\<close>, interpreted on the pointer operations.
    \<^item> \<open>LK_Timer\<close>: \<^verbatim>\<open>kernel/timer.c\<close>. The queue stays in deadline order under wrap-around, a tick ends and calls exactly what
      is due, once each and in order. Locale \<open>timer_client\<close>: what a user of timers has to keep so that a tick never fails.
    \<^item> \<open>LK_Thread\<close>: every operation of \<^verbatim>\<open>kernel/thread.c\<close> and \<^verbatim>\<open>kernel/mp.c\<close> on one state record \<open>kstate\<close>.
      \<open>LK_Sched\<close> has the invariant \<open>kinv\<close>; \<open>LK_Sched_Ops\<close> and \<open>LK_Sched_Life\<close> show that each operation keeps it and returns, and
      interpret \<open>timer_client\<close> on the kernel's own timer callbacks.
    \<^item> \<open>LK_Kernel\<close>: the transition system, one action per call or interrupt on some cpu, \<open>enabled\<close> collecting what the callers
      owe, \<open>kreach\<close> the states reachable from boot. \<open>LK_Kernel_Spec\<close>: no reachable operation panics, the invariant, the choice of the
      next thread, first-in-first-out waking, timeouts, sleeping, exit and join.
    \<^item> \<open>LK_Sync\<close>: \<^verbatim>\<open>kernel/event.c\<close>, \<^verbatim>\<open>kernel/mutex.c\<close>, \<^verbatim>\<open>kernel/semaphore.c\<close>: exclusion, handing over, counting, signals.
    \<^item> \<open>LK_Ring\<close>: circular buffers as lists and the locale \<open>bounded_fifo\<close>, interpreted by \<open>LK_Cbuf\<close> (\<^verbatim>\<open>lib/cbuf/cbuf.c\<close>) and by the
      packet buffers of \<open>LK_Port\<close> (\<^verbatim>\<open>kernel/port.c\<close>). Writes append, reads take the oldest, ports deliver to each reader all or nothing.
    \<^item> \<open>LK_Bytes\<close>: memory as a list of bytes, with the laws for joining neighbouring copies.
    \<^item> \<open>LK_Pmm\<close>: \<^verbatim>\<open>kernel/vm/pmm.c\<close>, \<^verbatim>\<open>kernel/vm/bootalloc.c\<close>. Locale \<open>page_allocator\<close>, interpreted on \<^verbatim>\<open>pmm_alloc_pages\<close> and
      \<^verbatim>\<open>pmm_free\<close>: allocations are disjoint and freeing restores the free pages.
    \<^item> \<open>LK_Vmm\<close>: \<^verbatim>\<open>kernel/vm/vmm.c\<close>, \<^verbatim>\<open>kernel/vm/vm.c\<close>: regions stay sorted and disjoint, the search for a gap is first fit and
      complete, an allocation succeeds as a whole or changes nothing, freeing undoes it.
    \<^item> \<open>LK_Novm\<close>: \<^verbatim>\<open>kernel/novm/novm.c\<close>: the lowest run of free pages, and freeing.
    \<^item> \<open>LK_Miniheap\<close>: \<^verbatim>\<open>lib/heap/miniheap/miniheap.c\<close>. Locale \<open>page_source\<close>: what the heap relies on in the page allocator; under it every operation
      keeps the invariant \<open>heap_inv\<close> (free chunks sorted, apart and not touching, allocations apart, the counts exact). \<open>LK_Heap\<close>: \<^verbatim>\<open>lib/heap/page_alloc.c\<close>
      and \<^verbatim>\<open>lib/heap/heap_wrapper.c\<close>, the interpretation of \<open>page_source\<close> on the physical memory manager, and the states the heap calls reach from boot:
      no call corrupts the heap, \<^verbatim>\<open>malloc\<close> gives memory of its own, \<^verbatim>\<open>free\<close> undoes it.
    \<^item> \<open>LK_Bio\<close>: \<^verbatim>\<open>lib/bio/bio.c\<close>, \<^verbatim>\<open>lib/bio/mem.c\<close>, \<^verbatim>\<open>lib/bio/subdev.c\<close>. Locale \<open>block_bdev\<close>: a device whose driver transfers whole
      blocks, under which the default byte hooks are exact; locale \<open>byte_bdev\<close>: a device that reads and writes bytes, under which a
      subdevice is a window for bytes, blocks and erases. Both are interpreted on the memory device of \<^verbatim>\<open>mem.c\<close>. On a parent with an erase
      geometry the range is not checked (\<open>geometry_not_checked\<close>).
    \<^item> \<open>LK_Bio_User\<close>: \<^verbatim>\<open>bio_new_read\<close> to \<^verbatim>\<open>bio_new_byte_erase\<close>, blocks of 512 bytes on native blocks of another size with a limit per
      command: the block variants touch exactly the blocks asked for when the limit is a multiple of the native block, and
      skip blocks when it is not (\<open>odd_limit_skips\<close>).
    \<^item> \<open>LK_Bcache\<close>: \<^verbatim>\<open>lib/bcache/bcache.c\<close>: reading and writing through the cache refines a plain array of blocks.
    \<^item> \<open>LK_Path\<close>: \<^verbatim>\<open>fs_normalize_path\<close> of \<^verbatim>\<open>lib/fs/fs.c\<close>, the character machine, equals resolving a path field by field.
    \<^item> \<open>LK_Fs\<close>: the rest of \<^verbatim>\<open>lib/fs/fs.c\<close>. Locale \<open>fs_driver\<close>: the contract of an implementation of a file system; under it every call whose caller keeps
      the rules \<open>fs_may\<close> returns and keeps the invariant \<open>fs_ok\<close> (the reference counts of mounts and devices, the handles, the state of the implementation).
    \<^item> \<open>LK_Memfs\<close>: \<^verbatim>\<open>lib/fs/memfs/memfs.c\<close> and the interpretation of \<open>fs_driver\<close> on it. A memory file system is a map from names to bytes; files written through
      the layer are loaded back.
    \<^item> \<open>LK_Init\<close>: \<^verbatim>\<open>top/init.c\<close>: the hooks of a range of levels are called once each in order.

  \<^bold>\<open>Conventions.\<close> The configuration is a 64-bit build with \<^verbatim>\<open>WITH_SMP\<close> (\<^verbatim>\<open>platform/qemu-virt\<close>; the Exynos
  platforms run one cpu), \<^verbatim>\<open>PLATFORM_HAS_DYNAMIC_TIMER\<close>, \<^verbatim>\<open>LK_DEBUGLEVEL\<close> 2 (assertions and statistics compiled in) and \<^verbatim>\<open>WITH_KERNEL_VM\<close>
  for \<open>LK_Vmm\<close>. A critical section under \<^verbatim>\<open>thread_lock\<close> or a mutex is one step; a call that switches to another thread is split at the switch, and its
  second half (\<open>_resume\<close>) is what the thread does once it runs again. The result \<open>None\<close> is a failed assertion, a panic, a
  bad memory access or a loop without end, so a theorem that gives \<open>Some\<close> excludes all of them; an error the code
  reports is a status in the result. Structures of one kind are numbered and pointers to them are numbers. Words keep
  their width where wrap-around can happen; sizes and block numbers are natural numbers with the reduction at 32 bits
  written out (\<open>u32_of\<close>). What a device driver, \<^verbatim>\<open>malloc\<close> or the page table code returns is an argument; what the
  properties rely on is a hypothesis, and the witness of the property instantiates it.

  \<^bold>\<open>Limits of the properties.\<close> A delayed free writes a list node into the block it gets; the properties of the heap hold for callers
  whose block has room for it (\<open>has_room\<close>), which \<^verbatim>\<open>malloc\<close> of up to 8 bytes does not give (\<open>small_block_no_room\<close>). A growing \<^verbatim>\<open>realloc\<close> reads
  past the old block; the copied bytes beyond it are not described. In the properties of the file systems the small allocations of handles,
  mounts and copied names succeed (\<open>fs_oom\<close> is never, \<open>mem_ok\<close>); that the code uses some of them unchecked is a finding. Subdevices are on parents
  without an erase geometry, and the command limit of a device is a multiple of its native block. The count of a semaphore and other counters of
  type \<^verbatim>\<open>int\<close> are unbounded integers.

  \<^bold>\<open>Loops.\<close> \<open>timer_tick\<close> has fuel, since a callback may queue timers again: one more than the length of the queue is enough, because
  no callback of the kernel queues a timer that is due. \<open>find_run\<close> in \<open>LK_Pmm\<close> has fuel, one more than the number of pages of the arena:
  each round moves the start up. The loops of \<open>LK_List\<close>, \<open>LK_Cbuf\<close>, \<open>LK_Bio\<close>, \<open>LK_Bio_User\<close>, \<open>LK_Path\<close> and \<open>LK_Init\<close> that the source bounds by data are partial functions;
  the properties show that they return. \<open>trim_pages\<close> in \<open>LK_Miniheap\<close> ends because each round makes the range of pages smaller. All others are total.

  \<^bold>\<open>Not modelled.\<close> Code that only prints or writes hardware registers: the dump and console commands, \<^verbatim>\<open>arch\<close>,
  \<^verbatim>\<open>platform\<close>, \<^verbatim>\<open>target\<close>, \<^verbatim>\<open>dev\<close>; the context switch and the page tables are arguments of the model. Third-party code: \<^verbatim>\<open>external\<close>,
  \<^verbatim>\<open>compiler\<close>, \<^verbatim>\<open>lib/libavb\<close>. Libraries above the core: partition tables (\<^verbatim>\<open>lib/gpt\<close>, \<^verbatim>\<open>lib/ptable\<close>), the file systems on block devices
  (\<^verbatim>\<open>lib/fs/ext2\<close>, \<^verbatim>\<open>lib/fs/fat32\<close>, \<^verbatim>\<open>lib/fs/spifs\<close>), \<^verbatim>\<open>lib/fastboot\<close> and the boot flow. Of the heaps a build can choose only the default one,
  \<^verbatim>\<open>miniheap\<close>, is modelled. The objects that \<open>LK_Fs\<close> and \<open>LK_Memfs\<close> allocate are numbered by an allocation counter and not placed in the heap of \<open>LK_Heap\<close>.
  Memory ordering between cpus is not modelled beyond the atomicity of critical sections.
\<close>

end
